(* ===== verification/Prelude.thy ===== *)
theory Prelude
  imports Main "HOL-Library.Word"
begin

text \<open>
  Shared vocabulary of the development: the machine types of the i386 target, the outcome type of
  kernel and library code that may panic or touch memory outside an array, bounds-checked array
  access, and the generic lemmas on words and lists the components use.

  An operation that can end in \<open>kassert\<close> (a kernel panic) or in an access outside the array it is
  written for returns a value of type \<open>'a outcome\<close>: \<open>Inl f\<close> says why it stopped, \<open>Inr x\<close> is
  its result.
\<close>

unbundle bit_operations_syntax

type_synonym u8 = "8 word"
type_synonym u16 = "16 word"
type_synonym u32 = "32 word"
type_synonym u64 = "64 word"

datatype fault =
    Panic        \<comment> \<open>a failed \<open>kassert\<close>, or \<open>panic()\<close>\<close>
  | OutOfBounds  \<comment> \<open>an access outside the array\<close>
  | BadPointer   \<comment> \<open>a dereference of NULL or of a freed object\<close>
  | NoReturn     \<comment> \<open>a loop over a linked list that does not end\<close>

type_synonym 'a outcome = "fault + 'a"

named_theorems outcome_simps \<open>characteristic equations of the outcome combinators\<close>

definition rbind :: "'a outcome \<Rightarrow> ('a \<Rightarrow> 'b outcome) \<Rightarrow> 'b outcome" where
  "rbind m f = (case m of Inl e \<Rightarrow> Inl e | Inr x \<Rightarrow> f x)"

definition kassert :: "bool \<Rightarrow> unit outcome" where
  "kassert b = (if b then Inr () else Inl Panic)"

definition aget :: "'a list \<Rightarrow> nat \<Rightarrow> 'a outcome" where
  "aget xs i = (if i < length xs then Inr (xs ! i) else Inl OutOfBounds)"

definition aset :: "'a list \<Rightarrow> nat \<Rightarrow> 'a \<Rightarrow> 'a list outcome" where
  "aset xs i v = (if i < length xs then Inr (xs[i := v]) else Inl OutOfBounds)"

lemma rbind_simps [simp, outcome_simps]:
  "rbind (Inr x) f = f x"
  "rbind (Inl e) f = Inl e"
  by (simp_all add: rbind_def)

lemma rbind_Inr_iff [outcome_simps]:
  "rbind m f = Inr y \<longleftrightarrow> (\<exists>x. m = Inr x \<and> f x = Inr y)"
  by (cases m) auto

lemma rbind_Inl_iff [outcome_simps]:
  "rbind m f = Inl e \<longleftrightarrow> m = Inl e \<or> (\<exists>x. m = Inr x \<and> f x = Inl e)"
  by (cases m) auto

lemma rbind_assoc: "rbind (rbind m f) g = rbind m (\<lambda>x. rbind (f x) g)"
  by (cases m) simp_all

lemma rbind_cong [fundef_cong]:
  "m = n \<Longrightarrow> (\<And>x. n = Inr x \<Longrightarrow> f x = g x) \<Longrightarrow> rbind m f = rbind n g"
  by (cases n) simp_all

lemma kassert_simps [simp]: "kassert True = Inr ()" "kassert False = Inl Panic"
  by (simp_all add: kassert_def)

lemma kassert_Inr_iff [simp, outcome_simps]: "kassert b = Inr u \<longleftrightarrow> b"
  by (simp add: kassert_def)

lemma kassert_Inl_iff [outcome_simps]: "kassert b = Inl e \<longleftrightarrow> \<not> b \<and> e = Panic"
  by (auto simp: kassert_def)

lemma aget_in [simp]: "i < length xs \<Longrightarrow> aget xs i = Inr (xs ! i)"
  by (simp add: aget_def)

lemma aget_out [simp]: "length xs \<le> i \<Longrightarrow> aget xs i = Inl OutOfBounds"
  by (simp add: aget_def)

lemma aget_Inr_iff [outcome_simps]: "aget xs i = Inr v \<longleftrightarrow> i < length xs \<and> v = xs ! i"
  by (auto simp: aget_def)

lemma aset_in [simp]: "i < length xs \<Longrightarrow> aset xs i v = Inr (xs[i := v])"
  by (simp add: aset_def)

lemma aset_out [simp]: "length xs \<le> i \<Longrightarrow> aset xs i v = Inl OutOfBounds"
  by (simp add: aset_def)

lemma aset_Inr_iff [outcome_simps]: "aset xs i v = Inr ys \<longleftrightarrow> i < length xs \<and> ys = xs[i := v]"
  by (auto simp: aset_def)

text \<open>\<open>rfold\<close> is a loop over a list whose body may stop: the first fault ends it.\<close>

fun rfold :: "('s \<Rightarrow> 'a \<Rightarrow> 's outcome) \<Rightarrow> 's \<Rightarrow> 'a list \<Rightarrow> 's outcome" where
  "rfold f s [] = Inr s"
| "rfold f s (a # as) = rbind (f s a) (\<lambda>s'. rfold f s' as)"

lemma rfold_append: "rfold f s (xs @ ys) = rbind (rfold f s xs) (\<lambda>s'. rfold f s' ys)"
  by (induction xs arbitrary: s) (simp_all add: rbind_assoc)

lemma rfold_invariant:
  assumes "rfold f s xs = Inr s'" "P s"
    and "\<And>s x s'. x \<in> set xs \<Longrightarrow> P s \<Longrightarrow> f s x = Inr s' \<Longrightarrow> P s'"
  shows "P s'"
  using assms
proof (induction xs arbitrary: s)
  case (Cons x xs)
  from Cons.prems(1) obtain s1 where s1: "f s x = Inr s1" "rfold f s1 xs = Inr s'"
    by (auto simp: outcome_simps)
  show ?case using Cons.IH [OF s1(2)] Cons.prems(2,3) s1(1) by (metis list.set_intros)
qed simp

subsection \<open>Pages\<close>

definition PAGE_SHIFT :: nat where
  "PAGE_SHIFT = 12"

definition PAGE_SIZE :: u32 where
  "PAGE_SIZE = 4096"

definition page_aligned :: "u32 \<Rightarrow> bool" where
  "page_aligned a \<longleftrightarrow> a AND (PAGE_SIZE - 1) = 0"

lemmas page_consts = PAGE_SHIFT_def PAGE_SIZE_def

subsection \<open>Words\<close>

lemma bit_word_ge [simp]: "LENGTH('a) \<le> n \<Longrightarrow> \<not> bit (x :: 'a::len word) n"
  using bit_imp_le_length by fastforce

lemma word_xor_eq_0_iff [simp]: "(a :: 'a::len word) XOR b = 0 \<longleftrightarrow> a = b"
proof
  assume "a XOR b = 0"
  then have "(a XOR b) XOR b = 0 XOR b" by simp
  then show "a = b" by (simp add: xor.assoc)
qed simp

lemma word_xor_right_cancel [simp]: "(a :: 'a::len word) XOR c = b XOR c \<longleftrightarrow> a = b"
proof
  assume "a XOR c = b XOR c"
  then have "(a XOR c) XOR c = (b XOR c) XOR c" by simp
  then show "a = b" by (simp add: xor.assoc)
qed simp

lemma word_xor_left_cancel [simp]: "(c :: 'a::len word) XOR a = c XOR b \<longleftrightarrow> a = b"
  by (simp add: xor.commute [of c])

lemma unat_drop_bit: "unat (drop_bit n w) = unat (w :: 'a::len word) div 2 ^ n"
  by (metis drop_bit_eq_div unat_drop_bit_eq)

lemma unat_take_bit: "unat (take_bit n w) = unat (w :: 'a::len word) mod 2 ^ n"
  by (metis take_bit_eq_mod unsigned_take_bit_eq)

lemma unat_and_mask: "unat (w AND mask n) = unat (w :: 'a::len word) mod 2 ^ n"
  by (simp only: take_bit_eq_mask [symmetric] unat_take_bit)

lemma word_and_not_mask: "w AND NOT (mask n) = (w :: 'a::len word) - take_bit n w"
proof -
  have "w = (w AND NOT (mask n)) + (w AND mask n)"
    by (subst disjunctive_add_eq_or) (auto intro!: bit_word_eqI simp: bit_simps)
  then show ?thesis by (metis add_diff_cancel take_bit_eq_mask)
qed

lemma unat_and_not_mask: "unat (w AND NOT (mask n)) = unat (w :: 'a::len word) - unat w mod 2 ^ n"
proof -
  have "take_bit n w \<le> w"
    by (simp add: word_le_nat_alt unat_take_bit)
  then show ?thesis by (simp add: word_and_not_mask unat_sub unat_take_bit)
qed

lemma unat_add_nowrap: "unat a + unat b < 2 ^ LENGTH('a) \<Longrightarrow> unat (a + b) = unat a + unat (b :: 'a::len word)"
  by (simp add: unat_add_lem [THEN iffD1])

lemma unat_push_bit_nowrap:
  "unat w * 2 ^ n < 2 ^ LENGTH('a) \<Longrightarrow> unat (push_bit n w) = unat (w :: 'a::len word) * 2 ^ n"
  by (metis unsigned_push_bit_eq push_bit_eq_mult take_bit_nat_eq_self)

lemma page_mask: "PAGE_SIZE - 1 = mask 12" "4095 = (mask 12 :: u32)"
  by (simp_all add: PAGE_SIZE_def mask_eq_exp_minus_1)

lemma page_aligned_iff: "page_aligned a \<longleftrightarrow> unat a mod 4096 = 0"
proof -
  have "unat (a AND (PAGE_SIZE - 1)) = unat a mod 4096"
    by (simp only: page_mask unat_and_mask) simp
  then show ?thesis by (metis page_aligned_def unat_eq_zero)
qed

lemma page_aligned_diff: "page_aligned a \<Longrightarrow> page_aligned b \<Longrightarrow> page_aligned (a - b)"
  by (auto simp: page_aligned_iff unat_sub_if_size word_size mod_0_imp_dvd dvd_diff_nat
      intro!: dvd_imp_mod_0)

lemma page_aligned_add: "page_aligned a \<Longrightarrow> page_aligned b \<Longrightarrow> page_aligned (a + b)"
proof -
  assume "page_aligned a" "page_aligned b"
  then have "4096 dvd unat a + unat b" by (simp add: page_aligned_iff mod_0_imp_dvd)
  then show ?thesis
    by (simp add: page_aligned_iff unat_word_ariths mod_mod_cancel)
qed

lemma uint_less_unat: "unat a < n \<Longrightarrow> uint a < int n"
proof -
  assume "unat a < n"
  then have "int (unat a) < int n" by (simp only: of_nat_less_iff)
  then show ?thesis by simp
qed

lemma sint_small: "unat a < 2 ^ 31 \<Longrightarrow> sint (a :: u32) = int (unat a)"
proof -
  assume "unat a < 2 ^ 31"
  then have "uint a < 2 ^ 31" using uint_less_unat [of a "2 ^ 31"] by simp
  moreover have "sint a = signed_take_bit 31 (uint a)" by (simp add: sint_uint)
  moreover have "0 \<le> uint a" by simp
  ultimately show ?thesis using signed_take_bit_int_eq_self [of 31 "uint a"] by simp
qed

lemma sint_diff_small:
  "unat a < 2 ^ 31 \<Longrightarrow> unat b < 2 ^ 31 \<Longrightarrow> sint (a - b :: u32) = int (unat a) - int (unat b)"
proof -
  assume a: "unat a < 2 ^ 31" and b: "unat b < 2 ^ 31"
  have u: "uint a < 2 ^ 31" "uint b < 2 ^ 31" "0 \<le> uint a" "0 \<le> uint b"
    using uint_less_unat [OF a] uint_less_unat [OF b] by simp_all
  have "sint (a - b) = signed_take_bit 31 (sint a - sint b)"
    using sint_word_ariths(2) [of a b] by simp
  also have "\<dots> = sint a - sint b"
    unfolding sint_small [OF a] sint_small [OF b] of_nat_unat
    using u by (intro signed_take_bit_int_eq_self) linarith+
  finally show ?thesis using a b by (simp add: sint_small)
qed

lemma page_round: "x + PAGE_SIZE - 1 = x + 4095"
  by (simp add: PAGE_SIZE_def)

lemma unat_page_base: "unat (va AND NOT 0xFFF :: u32) = unat va div 4096 * 4096"
  using unat_and_not_mask [of va 12] by (simp add: mask_eq_exp_minus_1 minus_mod_eq_div_mult)

lemma unat_low12: "unat (va AND 0xFFF :: u32) = unat va mod 4096"
  using unat_and_mask [of va 12] by (simp add: mask_eq_exp_minus_1)

subsection \<open>Bytes of words\<close>

definition word_byte :: "u32 \<Rightarrow> nat \<Rightarrow> u8" where
  "word_byte w j = ucast (drop_bit (8 * j) w)"

definition bytes_word :: "(nat \<Rightarrow> u8) \<Rightarrow> u32" where
  "bytes_word b = ucast (b 0) OR push_bit 8 (ucast (b 1)) OR push_bit 16 (ucast (b 2)) OR push_bit 24 (ucast (b 3))"

definition put32 :: "u32 \<Rightarrow> u8 list" where
  "put32 w = map (word_byte w) [0..<4]"

definition take32 :: "u8 list \<Rightarrow> nat \<Rightarrow> u32" where
  "take32 b i = bytes_word (\<lambda>j. b ! (i + j))"

definition put64 :: "u64 \<Rightarrow> u8 list" where
  "put64 x = put32 (ucast x) @ put32 (ucast (drop_bit 32 x))"

definition take64 :: "u8 list \<Rightarrow> nat \<Rightarrow> u64" where
  "take64 b i = ucast (take32 b i) OR push_bit 32 (ucast (take32 b (i + 4)))"

lemma word_byte_word: "j < 4 \<Longrightarrow> word_byte (bytes_word b) j = b j"
proof -
  assume "j < 4"
  then consider "j = 0" | "j = 1" | "j = 2" | "j = 3" by fastforce
  then show ?thesis
    by cases (rule bit_word_eqI; auto simp: word_byte_def bytes_word_def bit_simps)+
qed

lemma bytes_word_byte: "bytes_word (word_byte w) = w"
proof (rule bit_word_eqI)
  fix n
  assume "n < LENGTH(32)"
  then consider "n < 8" | "8 \<le> n" "n < 16" | "16 \<le> n" "n < 24" | "24 \<le> n" "n < 32" by fastforce
  then show "bit (bytes_word (word_byte w)) n = bit w n"
    by cases (auto simp: bytes_word_def word_byte_def bit_simps)
qed

lemma put_length [simp]: "length (put32 w) = 4" "length (put64 x) = 8"
  by (simp_all add: put32_def put64_def)

lemma bytes_word_cong: "(\<And>j. j < 4 \<Longrightarrow> f j = g j) \<Longrightarrow> bytes_word f = bytes_word g"
  by (simp add: bytes_word_def)

lemma take32_put32 [simp]: "length a = i \<Longrightarrow> take32 (a @ put32 w @ c) i = w" "take32 (put32 w @ c) 0 = w" "take32 (put32 w) 0 = w"
proof -
  have "take32 (a @ put32 w @ c) i = bytes_word (word_byte w)" if "length a = i" for a c i
    unfolding take32_def using that by (intro bytes_word_cong) (simp add: put32_def nth_append)
  then show "length a = i \<Longrightarrow> take32 (a @ put32 w @ c) i = w" "take32 (put32 w @ c) 0 = w" "take32 (put32 w) 0 = w"
    by (simp_all add: bytes_word_byte) (metis append_Nil append_Nil2 bytes_word_byte list.size(3))+
qed

lemma take64_put64 [simp]: "length a = i \<Longrightarrow> take64 (a @ put64 x @ c) i = x"
proof -
  assume a: "length a = i"
  have "take32 (a @ put32 u @ put32 v @ c) i = u" for u v by (simp add: a)
  moreover have "take32 (a @ put32 u @ put32 v @ c) (i + 4) = v" for u v
    using take32_put32(1) [of "a @ put32 u" "i + 4" v c] a by simp
  ultimately have "take64 (a @ put64 x @ c) i = ucast (ucast x :: u32) OR push_bit 32 (ucast (ucast (drop_bit 32 x) :: u32))"
    by (simp add: take64_def put64_def)
  also have "\<dots> = x" by (rule bit_word_eqI) (auto simp: bit_simps)
  finally show ?thesis .
qed

end
