(* ===== verification/Digest.thy ===== *)
theory Digest
  imports Prelude
begin

text \<open>
  The checksum that guards kernel objects whose address user space passes back as a handle
  (\<open>src/kernel/common/lib/digest.c\<close>, \<open>src/include/common/digest.h\<close>): shared memory descriptors and
  popup answers. A buffer is the list of its bytes.
\<close>

definition crc_poly :: u32 where
  "crc_poly = 0xedb88320"

definition crc_bit :: "u32 \<Rightarrow> u32" where
  "crc_bit rem_poly =
     (if rem_poly AND 1 \<noteq> 0 then drop_bit 1 rem_poly XOR crc_poly else drop_bit 1 rem_poly)"

definition crc_byte :: "u32 \<Rightarrow> u8 \<Rightarrow> u32" where
  "crc_byte rem_poly b = (crc_bit ^^ 8) (rem_poly XOR ucast b)"

definition crc32 :: "u8 list \<Rightarrow> u32" where
  "crc32 buffer = foldl crc_byte 0xffffffff buffer XOR 0xffffffff"

definition calculate_checksum :: "u8 list \<Rightarrow> u32" where
  "calculate_checksum buffer = crc32 buffer"

definition check_integrity :: "u8 list \<Rightarrow> bool" where
  "check_integrity buffer \<longleftrightarrow> crc32 buffer = 0x2144df1c"

text \<open>The bytes of a 32 bit value as the little-endian target stores them.\<close>

definition le_bytes :: "u32 \<Rightarrow> u8 list" where
  "le_bytes w = map (\<lambda>k. ucast (drop_bit (8 * k) w)) [0..<4]"

subsection \<open>The shift register is linear and injective\<close>

lemma crc_bit_xor: "crc_bit (a XOR b) = crc_bit a XOR crc_bit b"
proof -
  have one: "x AND 1 \<noteq> 0 \<longleftrightarrow> bit x 0" for x :: u32
    by (simp add: and_one_eq odd_iff_mod_2_eq_one bit_0)
  show ?thesis
    unfolding crc_bit_def one
    by (auto simp: bit_simps intro!: bit_word_eqI)
qed

lemma crc_bit_pow_xor: "(crc_bit ^^ n) (a XOR b) = (crc_bit ^^ n) a XOR (crc_bit ^^ n) b"
  by (induction n) (simp_all add: crc_bit_xor)

lemma crc_bit_zero [simp]: "crc_bit 0 = 0"
  by (simp add: crc_bit_def)

lemma crc_bit_eq_0_iff: "crc_bit x = 0 \<longleftrightarrow> x = 0"
proof
  assume zero: "crc_bit x = 0"
  have top: "bit (crc_bit x) 31 = (x AND 1 \<noteq> 0)"
    by (simp add: crc_bit_def crc_poly_def bit_simps)
  with zero have "x AND 1 = 0" by simp
  then have low: "\<not> bit x 0"
    by (simp add: and_one_eq bit_0 odd_iff_mod_2_eq_one)
  from \<open>x AND 1 = 0\<close> zero have "drop_bit 1 x = 0"
    by (simp add: crc_bit_def)
  then have "\<not> bit (drop_bit 1 x) n" for n by simp
  then have high: "\<not> bit x (Suc n)" for n by (simp add: bit_drop_bit_eq)
  show "x = 0"
  proof (rule bit_word_eqI)
    fix n
    show "bit x n = bit 0 n" using low high by (cases n) simp_all
  qed
qed simp

lemma crc_bit_inj: "inj crc_bit"
proof (rule injI)
  fix x y
  assume "crc_bit x = crc_bit y"
  then have "crc_bit (x XOR y) = 0" by (simp add: crc_bit_xor)
  then show "x = y" by (simp add: crc_bit_eq_0_iff)
qed

lemma crc_bit_pow_inj: "inj (crc_bit ^^ n)"
  by (induction n) (simp_all add: crc_bit_inj inj_compose del: o_apply comp_apply)

lemma crc_byte_inj_state: "crc_byte s b = crc_byte t b \<Longrightarrow> s = t"
  unfolding crc_byte_def by (drule injD [OF crc_bit_pow_inj]) simp

lemma ucast_u8_u32_inj: "(ucast (b :: u8) :: u32) = ucast c \<Longrightarrow> b = c"
proof -
  assume "(ucast b :: u32) = ucast c"
  then have "(ucast (ucast b :: u32) :: u8) = ucast (ucast c :: u32)" by simp
  then show "b = c" by (simp add: ucast_up_ucast_id is_up)
qed

lemma crc_byte_inj_byte: "crc_byte s b = crc_byte s c \<Longrightarrow> b = c"
  unfolding crc_byte_def by (drule injD [OF crc_bit_pow_inj]) (simp add: ucast_u8_u32_inj)

lemma foldl_crc_inj: "foldl crc_byte s ys = foldl crc_byte t ys \<Longrightarrow> s = t"
  by (induction ys arbitrary: s t) (auto dest: crc_byte_inj_state)

lemma crc32_single_byte: "crc32 (xs @ b # ys) = crc32 (xs @ c # ys) \<Longrightarrow> b = c"
  unfolding crc32_def by (auto dest!: foldl_crc_inj crc_byte_inj_byte)

subsection \<open>The four stored digest bytes drive the register to a constant\<close>

lemma crc_bit_push: "\<not> bit x 0 \<Longrightarrow> crc_bit x = drop_bit 1 x"
  by (simp add: crc_bit_def and_one_eq bit_0 odd_iff_mod_2_eq_one)

lemma crc_bit_pow_high:
  "(\<And>i. i < n \<Longrightarrow> \<not> bit x i) \<Longrightarrow> (crc_bit ^^ n) x = drop_bit n x"
proof (induction n arbitrary: x)
  case (Suc n)
  then have "\<not> bit x 0" by simp
  then have "(crc_bit ^^ Suc n) x = (crc_bit ^^ n) (drop_bit 1 x)"
    by (simp add: crc_bit_push funpow_Suc_right del: funpow.simps)
  also have "\<dots> = drop_bit n (drop_bit 1 x)"
    using Suc.prems by (intro Suc.IH) (simp add: bit_drop_bit_eq)
  finally show ?case by simp
qed simp

lemma crc_byte_shift:
  "(crc_bit ^^ n) s XOR ucast (b :: u8) = (crc_bit ^^ n) (s XOR push_bit n (ucast b))"
  if "n + 8 \<le> 32"
proof -
  have "(crc_bit ^^ n) (push_bit n (ucast b)) = drop_bit n (push_bit n (ucast b :: u32))"
    by (rule crc_bit_pow_high) (simp add: bit_push_bit_iff)
  also have "\<dots> = ucast b"
    using that bit_imp_le_length [of b] by (auto intro!: bit_word_eqI simp: bit_simps) fastforce
  finally show ?thesis by (simp add: crc_bit_pow_xor)
qed

lemma le_bytes_join:
  "(ucast (ucast (w :: u32) :: u8) XOR push_bit 8 (ucast (ucast (drop_bit 8 w) :: u8))
     XOR push_bit 16 (ucast (ucast (drop_bit 16 w) :: u8))
     XOR push_bit 24 (ucast (ucast (drop_bit 24 w) :: u8)) :: u32) = w"
  by (rule bit_word_eqI) (auto simp: bit_simps)

lemma crc_pow_pow: "(crc_bit ^^ m) ((crc_bit ^^ n) x) = (crc_bit ^^ (m + n)) x"
  by (simp add: funpow_add)

lemma crc_le_bytes: "foldl crc_byte s (le_bytes w) = (crc_bit ^^ 32) (s XOR w)"
proof -
  let ?b = "\<lambda>k. ucast (drop_bit (8 * k) w) :: u8"
  have "foldl crc_byte s (le_bytes w) =
      (crc_bit ^^ 8) ((crc_bit ^^ 8) ((crc_bit ^^ 8) ((crc_bit ^^ 8) (s XOR ucast (?b 0))
        XOR ucast (?b 1)) XOR ucast (?b 2)) XOR ucast (?b 3))"
    by (simp add: le_bytes_def crc_byte_def upt_rec numeral_eq_Suc)
  also have "\<dots> = (crc_bit ^^ 32) (s XOR ucast (?b 0) XOR push_bit 8 (ucast (?b 1))
        XOR push_bit 16 (ucast (?b 2)) XOR push_bit 24 (ucast (?b 3)))"
    by (simp add: crc_byte_shift crc_pow_pow xor.assoc)
  also have "\<dots> = (crc_bit ^^ 32) (s XOR w)"
    using le_bytes_join [of w] by simp
  finally show ?thesis .
qed

lemma crc_pow8: "(crc_bit ^^ 8) x =
    crc_bit (crc_bit (crc_bit (crc_bit (crc_bit (crc_bit (crc_bit (crc_bit x)))))))"
  by (simp add: eval_nat_numeral)

lemma crc_residue_steps:
  "(crc_bit ^^ 8) 0xffffffff = 0x2dfd1072"
  "(crc_bit ^^ 8) 0x2dfd1072 = 0xbe26ed00"
  "(crc_bit ^^ 8) 0xbe26ed00 = 0xbe26ed"
  "(crc_bit ^^ 8) 0xbe26ed = 0xdebb20e3"
  unfolding crc_pow8 by (simp_all add: crc_bit_def crc_poly_def cong: if_weak_cong)

lemma crc_residue: "(crc_bit ^^ 32) 0xffffffff XOR 0xffffffff = (0x2144df1c :: u32)"
proof -
  have "(crc_bit ^^ 32) x =
      (crc_bit ^^ 8) ((crc_bit ^^ 8) ((crc_bit ^^ 8) ((crc_bit ^^ 8) x)))" for x
    by (simp add: crc_pow_pow)
  then show ?thesis by (simp add: crc_residue_steps)
qed

subsection \<open>The checksum contract\<close>

lemma checksum_roundtrip:
  "check_integrity (buffer @ le_bytes (calculate_checksum buffer))"
proof -
  have "foldl crc_byte 0xffffffff buffer XOR calculate_checksum buffer = 0xffffffff"
    by (simp add: calculate_checksum_def crc32_def xor.assoc [symmetric])
  then show ?thesis
    by (simp add: check_integrity_def crc32_def crc_le_bytes crc_residue)
qed

text \<open>Storing the checksum computed over the guarded prefix of a structure into the digest field
  that follows it makes the integrity check succeed, whatever the prefix contains.
\<close>

theorem checksum_verifies:
  "check_integrity (buffer @ le_bytes (calculate_checksum buffer))"
  by (rule checksum_roundtrip)

text \<open>
  The integrity check detects every corruption confined to one byte, in the guarded prefix or
  in the stored digest itself.
\<close>

theorem integrity_single_byte:
  assumes "check_integrity (xs @ b # ys)" and "b \<noteq> c"
  shows "\<not> check_integrity (xs @ c # ys)"
  using assms crc32_single_byte [of xs b ys c] by (auto simp: check_integrity_def)

theorem integrity_single_byte_witness:
  "check_integrity ([1, 2] @ 3 # le_bytes (calculate_checksum [1, 2, 3])) \<and>
   \<not> check_integrity ([1, 2] @ 7 # le_bytes (calculate_checksum [1, 2, 3]))"
proof -
  have ok: "check_integrity ([1, 2] @ 3 # le_bytes (calculate_checksum [1, 2, 3]))"
    using checksum_roundtrip [of "[1, 2, 3]"] by simp
  show ?thesis using ok integrity_single_byte [OF ok, of 7] by simp
qed

end
