(* ===== verification/Pids.thy ===== *)
theory Pids
  imports Prelude
begin

text \<open>
  Bit masks that hand out small numbers: the process numbers of
  \<open>src/kernel/common/tasking/management.c\<close> (\<open>get_new_pid\<close>, \<open>relinquish_pid\<close>) and the stack slots of
  popup threads, whose search loop in \<open>popup\<close> is the same. A mask is a list of 32 bit words. The
  compare-and-swap succeeds, as it does when nothing interferes.
\<close>

definition LONG_BIT :: nat where "LONG_BIT = 32"
definition MAX_PID_COUNT :: nat where "MAX_PID_COUNT = 65536"
definition ULONG_MAX :: u32 where "ULONG_MAX = 0xFFFFFFFF"

text \<open>One plus the index of the lowest set bit, 0 if there is none.\<close>

definition ffsl :: "u32 \<Rightarrow> nat" where
  "ffsl w = (case List.find (bit w) [0..<LONG_BIT] of None \<Rightarrow> 0 | Some n \<Rightarrow> Suc n)"

fun mask_claim :: "u32 list \<Rightarrow> nat \<Rightarrow> (nat \<times> u32 list) option" where
  "mask_claim [] i = None"
| "mask_claim (w # ws) i =
     (if w \<noteq> ULONG_MAX then
        (let bit = ffsl (NOT w) in Some (i * LONG_BIT + bit, (w OR push_bit (bit - 1) 1) # ws))
      else (case mask_claim ws (Suc i) of
              None \<Rightarrow> None
            | Some (n, ws') \<Rightarrow> Some (n, w # ws')))"

definition mask_clear :: "u32 list \<Rightarrow> nat \<Rightarrow> u32 list outcome" where
  "mask_clear ms i =
     rbind (aget ms (i div LONG_BIT)) (\<lambda>old.
       aset ms (i div LONG_BIT) (old AND NOT (push_bit (i mod LONG_BIT) 1)))"

definition get_new_pid :: "u32 list \<Rightarrow> (nat \<times> u32 list) outcome" where
  "get_new_pid used_pids =
     (case mask_claim used_pids 0 of None \<Rightarrow> Inl Panic | Some (pid, used_pids') \<Rightarrow> Inr (pid, used_pids'))"

definition relinquish_pid :: "u32 list \<Rightarrow> nat \<Rightarrow> u32 list outcome" where
  "relinquish_pid used_pids pid = mask_clear used_pids (pid - 1)"

subsection \<open>What a mask records\<close>

definition taken :: "u32 list \<Rightarrow> nat \<Rightarrow> bool" where
  "taken ms i \<longleftrightarrow> i < LONG_BIT * length ms \<and> bit (ms ! (i div LONG_BIT)) (i mod LONG_BIT)"

lemma ULONG_MAX_bits: "w = ULONG_MAX \<longleftrightarrow> (\<forall>n < 32. bit w n)"
proof -
  have "bit ULONG_MAX n" if "n < 32" for n
  proof -
    have "ULONG_MAX = mask 32" by (simp add: ULONG_MAX_def mask_eq_exp_minus_1)
    then have "bit ULONG_MAX n = bit (mask 32 :: u32) n" by (rule arg_cong)
    with that show ?thesis by (simp only: bit_mask_iff) simp
  qed
  then show ?thesis by (auto intro: bit_word_eqI)
qed

lemma ffsl_free:
  assumes "w \<noteq> ULONG_MAX"
  obtains b where "ffsl (NOT w) = Suc b" "b < 32" "\<not> bit w b" "\<forall>k < b. bit w k"
proof -
  let ?P = "\<lambda>n. n < 32 \<and> \<not> bit w n"
  have nb: "n < 32 \<Longrightarrow> bit (NOT w) n \<longleftrightarrow> \<not> bit w n" for n by (simp add: bit_not_iff)
  obtain n where "?P n" using assms ULONG_MAX_bits by blast
  then have "?P (LEAST n. ?P n)" "\<forall>k < (LEAST n. ?P n). \<not> ?P k" by (rule LeastI, blast dest: not_less_Least)
  then obtain b where b: "?P b" "\<forall>k < b. \<not> ?P k" by blast
  have "List.find (bit (NOT w)) [0..<LONG_BIT] = Some b"
  proof (subst find_Some_iff, intro exI [of _ b] conjI allI impI)
    show "b < length [0..<LONG_BIT]" using b by (simp add: LONG_BIT_def)
    show "bit (NOT w) ([0..<LONG_BIT] ! b)" using b nb by (simp add: LONG_BIT_def)
    show "b = [0..<LONG_BIT] ! b" using b by (simp add: LONG_BIT_def)
    show "\<not> bit (NOT w) ([0..<LONG_BIT] ! j)" if "j < b" for j
      using b nb [of j] that by (simp add: LONG_BIT_def)
  qed
  then have "ffsl (NOT w) = Suc b" by (simp add: ffsl_def)
  with b show ?thesis using that by auto
qed

lemma taken_Cons:
  "taken (w # ws) i \<longleftrightarrow> (if i < LONG_BIT then bit w i else taken ws (i - LONG_BIT))"
proof (cases "i < LONG_BIT")
  case False
  have "0 < LONG_BIT" by (simp add: LONG_BIT_def)
  with False have "i div LONG_BIT = Suc ((i - LONG_BIT) div LONG_BIT)" "i mod LONG_BIT = (i - LONG_BIT) mod LONG_BIT"
    by (simp_all add: le_div_geq le_mod_geq)
  with False show ?thesis by (auto simp: taken_def algebra_simps)
qed (simp add: taken_def)

lemma mask_claim_Some:
  assumes "mask_claim ms i = Some (n, ms')"
  shows "\<exists>k. n = i * LONG_BIT + Suc k \<and> k < LONG_BIT * length ms \<and> \<not> taken ms k \<and> (\<forall>j < k. taken ms j)
    \<and> length ms' = length ms \<and> (\<forall>j. taken ms' j \<longleftrightarrow> taken ms j \<or> j = k)"
  using assms
proof (induction ms arbitrary: i n ms')
  case (Cons w ws)
  have lb: "LONG_BIT = 32" by (simp add: LONG_BIT_def)
  show ?case
  proof (cases "w = ULONG_MAX")
    case False
    then obtain b where b: "ffsl (NOT w) = Suc b" "b < 32" "\<not> bit w b" "\<forall>k < b. bit w k" by (rule ffsl_free)
    with Cons.prems False have n: "n = i * LONG_BIT + Suc b" "ms' = (w OR push_bit b 1) # ws" by simp_all
    have "bit (w OR push_bit b 1) j \<longleftrightarrow> bit w j \<or> j = b" if "j < 32" for j
      using that b(2) by (auto simp: bit_simps)
    then have "taken ms' j \<longleftrightarrow> taken (w # ws) j \<or> j = b" for j
      using b(2) by (auto simp: n(2) taken_Cons lb)
    then show ?thesis using n b by (intro exI [of _ b]) (auto simp: taken_Cons lb)
  next
    case True
    with Cons.prems obtain ws' where r: "mask_claim ws (Suc i) = Some (n, ws')" "ms' = w # ws'"
      by (auto split: option.splits)
    from Cons.IH [OF r(1)] obtain k where k: "n = Suc i * LONG_BIT + Suc k" "k < LONG_BIT * length ws"
      "\<not> taken ws k" "\<forall>j < k. taken ws j" "length ws' = length ws" "\<forall>j. taken ws' j \<longleftrightarrow> taken ws j \<or> j = k" by blast
    have "\<forall>j < 32. bit w j" using True ULONG_MAX_bits by blast
    then show ?thesis
      using k r(2) by (intro exI [of _ "LONG_BIT + k"]) (auto simp: taken_Cons lb)
  qed
qed simp

lemma mask_claim_None: "mask_claim ms i = None \<longleftrightarrow> (\<forall>j < LONG_BIT * length ms. taken ms j)"
proof (induction ms arbitrary: i)
  case (Cons w ws)
  have lb: "LONG_BIT = 32" by (simp add: LONG_BIT_def)
  have "(\<forall>j < LONG_BIT * length (w # ws). taken (w # ws) j) \<longleftrightarrow>
      w = ULONG_MAX \<and> (\<forall>j < LONG_BIT * length ws. taken ws j)"
  proof
    assume a: "\<forall>j < LONG_BIT * length (w # ws). taken (w # ws) j"
    have "bit w j" if "j < 32" for j using a that by (auto simp: taken_Cons lb dest: spec [of _ j])
    moreover have "taken ws j" if "j < LONG_BIT * length ws" for j
      using a [rule_format, of "LONG_BIT + j"] that by (simp add: taken_Cons lb)
    ultimately show "w = ULONG_MAX \<and> (\<forall>j < LONG_BIT * length ws. taken ws j)" using ULONG_MAX_bits by blast
  next
    assume "w = ULONG_MAX \<and> (\<forall>j < LONG_BIT * length ws. taken ws j)"
    then show "\<forall>j < LONG_BIT * length (w # ws). taken (w # ws) j"
      using ULONG_MAX_bits [of w] by (auto simp: taken_Cons lb)
  qed
  then show ?case using Cons.IH [of "Suc i"] by (auto simp: Let_def split: option.splits)
qed simp

lemma mask_clear_taken:
  assumes "i < LONG_BIT * length ms"
  shows "\<exists>ms'. mask_clear ms i = Inr ms' \<and> length ms' = length ms \<and> (\<forall>j. taken ms' j \<longleftrightarrow> taken ms j \<and> j \<noteq> i)"
proof -
  let ?w = "ms ! (i div LONG_BIT)" and ?k = "i div LONG_BIT"
  let ?ms = "ms[?k := ?w AND NOT (push_bit (i mod LONG_BIT) 1)]"
  have lb: "LONG_BIT = 32" by (simp add: LONG_BIT_def)
  have k: "?k < length ms" using assms by (simp add: lb less_mult_imp_div_less mult.commute)
  have "taken ?ms j \<longleftrightarrow> taken ms j \<and> j \<noteq> i" for j
  proof (cases "j div LONG_BIT = ?k")
    case True
    have "j = i \<longleftrightarrow> j mod LONG_BIT = i mod LONG_BIT" using True by (metis div_mult_mod_eq)
    moreover have "j mod 32 < 32" by simp
    ultimately show ?thesis using True k by (auto simp: taken_def lb bit_simps)
  next
    case False
    then show ?thesis by (auto simp: taken_def)
  qed
  moreover have "mask_clear ms i = Inr ?ms" using k by (simp add: mask_clear_def)
  ultimately show ?thesis by (intro exI [of _ ?ms]) simp
qed

subsection \<open>Pools of numbers\<close>

text \<open>
  What the users of a mask rely on: a claimed number was free, becomes taken and is the only one
  that changes; a released number becomes free; claiming fails only when all numbers are taken.
\<close>

locale id_pool =
  fixes claim :: "'s \<Rightarrow> (nat \<times> 's) outcome"
    and release :: "'s \<Rightarrow> nat \<Rightarrow> 's outcome"
    and used :: "'s \<Rightarrow> nat \<Rightarrow> bool"
    and valid :: "'s \<Rightarrow> nat \<Rightarrow> bool"
  assumes claim_fresh: "claim s = Inr (n, s') \<Longrightarrow>
      valid s n \<and> \<not> used s n \<and> valid s' = valid s \<and> (\<forall>m. used s' m \<longleftrightarrow> used s m \<or> m = n)"
    and claim_lowest: "claim s = Inr (n, s') \<Longrightarrow> valid s m \<Longrightarrow> m < n \<Longrightarrow> used s m"
    and claim_full: "claim s = Inl e \<Longrightarrow> valid s m \<Longrightarrow> used s m"
    and release_free: "valid s n \<Longrightarrow> \<exists>s'. release s n = Inr s' \<and> valid s' = valid s
      \<and> (\<forall>m. used s' m \<longleftrightarrow> used s m \<and> m \<noteq> n)"
begin

lemma claim_release:
  assumes "claim s = Inr (n, s1)"
  shows "\<exists>s2. release s1 n = Inr s2 \<and> (\<forall>m. used s2 m = used s m)"
proof -
  from claim_fresh [OF assms] have c: "valid s1 n" "\<not> used s n" "\<forall>m. used s1 m \<longleftrightarrow> used s m \<or> m = n" by auto
  from release_free [OF c(1)] c(2,3) show ?thesis by auto
qed

lemma release_reclaims:
  assumes "valid s n" "\<And>m. valid s m \<Longrightarrow> m < n \<Longrightarrow> used s m" "used s n"
    and "release s n = Inr s1" "claim s1 = Inr (k, s2)"
  shows "k = n"
proof -
  from release_free [OF assms(1)] assms(4) have r: "valid s1 = valid s" "\<forall>m. used s1 m \<longleftrightarrow> used s m \<and> m \<noteq> n"
    by auto
  from claim_fresh [OF assms(5)] r have "valid s k" "\<not> (used s k \<and> k \<noteq> n)" by auto
  with claim_lowest [OF assms(5), of n] r assms(1,2,3) show ?thesis by (metis linorder_neqE_nat)
qed

lemma claims_distinct:
  assumes "claim s = Inr (n, s1)" "claim s1 = Inr (m, s2)"
  shows "n \<noteq> m"
  using claim_fresh [OF assms(1)] claim_fresh [OF assms(2)] by auto

end

definition pid_used :: "u32 list \<Rightarrow> nat \<Rightarrow> bool" where
  "pid_used ms pid \<longleftrightarrow> 0 < pid \<and> taken ms (pid - 1)"

definition pid_valid :: "u32 list \<Rightarrow> nat \<Rightarrow> bool" where
  "pid_valid ms pid \<longleftrightarrow> 0 < pid \<and> pid \<le> LONG_BIT * length ms"

interpretation pids: id_pool get_new_pid relinquish_pid pid_used pid_valid
proof
  fix s n s' m e
  assume g: "get_new_pid s = Inr (n, s')"
  then have "mask_claim s 0 = Some (n, s')" by (simp add: get_new_pid_def split: option.splits prod.splits)
  from mask_claim_Some [OF this] obtain k where k: "n = Suc k" "k < LONG_BIT * length s" "\<not> taken s k"
    "\<forall>j < k. taken s j" "length s' = length s" "\<forall>j. taken s' j \<longleftrightarrow> taken s j \<or> j = k" by auto
  have "pid_used s' m \<longleftrightarrow> pid_used s m \<or> m = n" for m using k by (cases m) (auto simp: pid_used_def)
  then show "pid_valid s n \<and> \<not> pid_used s n \<and> pid_valid s' = pid_valid s
      \<and> (\<forall>m. pid_used s' m \<longleftrightarrow> pid_used s m \<or> m = n)"
    using k by (auto simp: pid_valid_def pid_used_def fun_eq_iff)
  show "pid_used s m" if "pid_valid s m" "m < n" using k that by (cases m) (auto simp: pid_valid_def pid_used_def)
next
  fix s e m
  assume "get_new_pid s = Inl e" "pid_valid s m"
  then have "mask_claim s 0 = None" by (simp add: get_new_pid_def split: option.splits)
  then have "\<forall>j < LONG_BIT * length s. taken s j" by (simp add: mask_claim_None)
  with \<open>pid_valid s m\<close> show "pid_used s m" by (cases m) (auto simp: pid_valid_def pid_used_def)
next
  fix s n
  assume "pid_valid s n"
  then have n: "n - 1 < LONG_BIT * length s" "0 < n" by (auto simp: pid_valid_def)
  from mask_clear_taken [OF n(1)] obtain ms where m: "mask_clear s (n - 1) = Inr ms" "length ms = length s"
    "\<And>j. taken ms j \<longleftrightarrow> taken s j \<and> j \<noteq> n - 1" by blast
  have "pid_used ms q \<longleftrightarrow> pid_used s q \<and> q \<noteq> n" for q
    using m(3) [of "q - 1"] n(2) by (cases "q = 0") (simp_all add: pid_used_def, linarith)
  with m show "\<exists>s'. relinquish_pid s n = Inr s' \<and> pid_valid s' = pid_valid s
      \<and> (\<forall>q. pid_used s' q \<longleftrightarrow> pid_used s q \<and> q \<noteq> n)"
    by (auto simp: relinquish_pid_def pid_valid_def fun_eq_iff)
qed

text \<open>a new process number is the lowest one not in use, the allocator panics only when all are in
  use, and giving a number back makes exactly that one available again.
\<close>

theorem get_new_pid_lowest:
  shows "case get_new_pid ms of
      Inl e \<Rightarrow> e = Panic \<and> (\<forall>pid. pid_valid ms pid \<longrightarrow> pid_used ms pid)
    | Inr (pid, ms') \<Rightarrow> pid_valid ms pid \<and> \<not> pid_used ms pid
        \<and> (\<forall>q. pid_valid ms q \<and> q < pid \<longrightarrow> pid_used ms q)
        \<and> (\<forall>q. pid_used ms' q \<longleftrightarrow> pid_used ms q \<or> q = pid)
        \<and> (\<exists>ms''. relinquish_pid ms' pid = Inr ms'' \<and> (\<forall>q. pid_used ms'' q = pid_used ms q))"
proof (cases "get_new_pid ms")
  case (Inl e)
  then have "e = Panic" by (auto simp: get_new_pid_def split: option.splits prod.splits)
  with Inl show ?thesis using pids.claim_full [OF Inl] by simp
next
  case (Inr r)
  obtain pid ms' where r: "r = (pid, ms')" by (cases r)
  show ?thesis
    using pids.claim_fresh [OF Inr [unfolded r]] pids.claim_lowest [OF Inr [unfolded r]]
      pids.claim_release [OF Inr [unfolded r]]
    unfolding Inr r by auto
qed

theorem get_new_pid_lowest_witness:
  "get_new_pid [0xFFFFFFFF, 0x7] = Inr (36, [0xFFFFFFFF, 0xF])
   \<and> pid_valid [0xFFFFFFFF, 0x7] 36 \<and> \<not> pid_used [0xFFFFFFFF, 0x7] 36"
proof -
  have "ffsl (- 8) = 4" by (simp add: ffsl_def LONG_BIT_def upt_conv_Cons)
  then have g: "get_new_pid [0xFFFFFFFF, 0x7] = Inr (36, [0xFFFFFFFF, 0xF])"
    by (simp add: get_new_pid_def ULONG_MAX_def LONG_BIT_def Let_def)
  show ?thesis using get_new_pid_lowest [of "[0xFFFFFFFF, 0x7]"] unfolding g by simp
qed

end
