(* ===== verification/Process.thy ===== *)
theory Process
  imports Pids
begin

text \<open>
  Process structures and the lists they hang in (\<open>src/include/common/process.h\<close>,
  \<open>src/kernel/common/tasking/management.c\<close>): the run queue is linked through \<open>rq_next\<close>, the daemons,
  zombies and dead processes through \<open>next\<close>. Structures live in a store indexed by address, 0 is
  NULL. The walks over the lists carry the number of structures that can exist as fuel: process
  numbers are distinct, so that a list of more than \<open>MAX_PID_COUNT\<close> links is cyclic and its walk
  does not return. The compare-and-swap loops succeed at once, as they do without interference.
\<close>

datatype process_status =
  PROCESS_ACTIVE | PROCESS_COMA | PROCESS_ZOMBIE | PROCESS_DAEMON | PROCESS_DESTRUCT

record process =
  p_pid :: int
  p_pgid :: int
  p_ppid :: int
  p_status :: process_status
  p_vmmc :: u32
  p_rq_next :: u32
  p_next :: u32
  p_schedule_tick :: u32
  p_name :: string
  p_aliases :: "string list"
  p_aliases_ptr :: u32
  p_tls :: u32
  p_popup_entry :: u32
  p_popup_stack_mask :: u32
  p_popup_stack_index :: int
  p_popup_tmp :: u32
  p_popup_tmp_sz :: u32
  p_popup_return :: u32
  p_popup_zombify :: bool
  p_exit_info :: u64
  p_handled_irq :: int
  p_fresh_irq :: bool
  p_handling_irq :: bool
  p_settle_count :: int
  p_irq_stack_top :: u32
  p_kernel_stack :: u32

type_synonym pstore = "u32 \<rightharpoonup> process"

definition pderef :: "pstore \<Rightarrow> u32 \<Rightarrow> process outcome" where
  "pderef st p = (case st p of None \<Rightarrow> Inl BadPointer | Some x \<Rightarrow> Inr x)"

subsection \<open>Singly linked lists of processes\<close>

text \<open>The three loops of the source, for either link field: the search for the first process with a
  property, the insertion at the front, the search for the link that points at a process.\<close>

fun walk :: "(process \<Rightarrow> u32) \<Rightarrow> pstore \<Rightarrow> (process \<Rightarrow> bool) \<Rightarrow> nat \<Rightarrow> u32 \<Rightarrow> u32 outcome" where
  "walk nx st P 0 p = (if p = 0 then Inr 0 else Inl NoReturn)"
| "walk nx st P (Suc n) p =
     (if p = 0 then Inr 0
      else rbind (pderef st p) (\<lambda>x. if P x then Inr p else walk nx st P n (nx x)))"

definition push_front :: "(u32 \<Rightarrow> process \<Rightarrow> process) \<Rightarrow> pstore \<Rightarrow> u32 \<Rightarrow> u32 \<Rightarrow> (u32 \<times> pstore) outcome" where
  "push_front upd st head proc = rbind (pderef st proc) (\<lambda>x. Inr (proc, st(proc \<mapsto> upd head x)))"

fun find_link :: "(process \<Rightarrow> u32) \<Rightarrow> pstore \<Rightarrow> nat \<Rightarrow> u32 \<Rightarrow> u32 \<Rightarrow> u32 outcome" where
  "find_link nx st 0 p proc = (if p = 0 then Inr 0 else Inl NoReturn)"
| "find_link nx st (Suc n) p proc =
     (if p = 0 then Inr 0
      else rbind (pderef st p) (\<lambda>x. if nx x = proc then Inr p else find_link nx st n (nx x) proc))"

definition unlink ::
    "(process \<Rightarrow> u32) \<Rightarrow> (u32 \<Rightarrow> process \<Rightarrow> process) \<Rightarrow> pstore \<Rightarrow> nat \<Rightarrow> u32 \<Rightarrow> u32 \<Rightarrow> (u32 \<times> pstore) outcome" where
  "unlink nx upd st n head proc =
     (if head = proc then rbind (pderef st proc) (\<lambda>x. Inr (nx x, st))
      else
        rbind (find_link nx st n head proc) (\<lambda>q.
          if q = 0 then Inr (head, st)
          else
            rbind (pderef st q) (\<lambda>y. rbind (pderef st proc) (\<lambda>x.
              Inr (head, st(q \<mapsto> upd (nx x) y))))))"

fun chain :: "(process \<Rightarrow> u32) \<Rightarrow> pstore \<Rightarrow> u32 \<Rightarrow> u32 list \<Rightarrow> bool" where
  "chain nx st p [] \<longleftrightarrow> p = 0"
| "chain nx st p (a # as) \<longleftrightarrow> p = a \<and> a \<noteq> 0 \<and> (case st a of None \<Rightarrow> False | Some x \<Rightarrow> chain nx st (nx x) as)"

text \<open>
  The contract between a link field and the list operations: reading the field after writing it
  gives what was written. The lemmas say that the operations on the store are those on the list of
  addresses; they are used for \<open>rq_next\<close> and for \<open>next\<close>.
\<close>

locale link_field =
  fixes nx :: "process \<Rightarrow> u32" and upd :: "u32 \<Rightarrow> process \<Rightarrow> process"
  assumes nx_upd [simp]: "nx (upd a x) = a"
begin

lemma chain_in_store: "chain nx st p as \<Longrightarrow> a \<in> set as \<Longrightarrow> a \<noteq> 0 \<and> (\<exists>x. st a = Some x)"
  by (induction as arbitrary: p) (auto split: option.splits)

lemma chain_cong:
  "(\<And>a. a \<in> set as \<Longrightarrow> map_option nx (st' a) = map_option nx (st a)) \<Longrightarrow> chain nx st p as \<Longrightarrow> chain nx st' p as"
proof (induction as arbitrary: p)
  case (Cons a as)
  from Cons.prems(2) obtain x where x: "st a = Some x" "p = a" "a \<noteq> 0" "chain nx st (nx x) as"
    by (auto split: option.splits)
  from Cons.prems(1) [of a] x(1) obtain x' where x': "st' a = Some x'" "nx x' = nx x"
    by (cases "st' a") auto
  have "chain nx st' (nx x) as" using Cons.prems(1) x(4) by (intro Cons.IH) auto
  with x x' show ?case by simp
qed simp

lemma chain_outside: "a \<notin> set as \<Longrightarrow> chain nx st p as \<Longrightarrow> chain nx (st(a := v)) p as"
  by (rule chain_cong) auto

lemma walk_chain:
  assumes "chain nx st p as" "length as \<le> n"
  shows "walk nx st P n p = Inr (case find (\<lambda>a. P (the (st a))) as of None \<Rightarrow> 0 | Some a \<Rightarrow> a)"
  using assms
proof (induction as arbitrary: p n)
  case Nil
  then show ?case by (cases n) simp_all
next
  case (Cons a as)
  from Cons.prems obtain x m where x: "st a = Some x" "p = a" "a \<noteq> 0" "chain nx st (nx x) as" "n = Suc m" "length as \<le> m"
    by (cases n) (auto split: option.splits)
  then show ?case using Cons.IH [OF x(4,6)] by (simp add: pderef_def)
qed

lemma push_front_chain:
  assumes "chain nx st p as" "st a = Some x" "a \<noteq> 0" "a \<notin> set as"
  shows "push_front upd st p a = Inr (a, st(a \<mapsto> upd p x))" "chain nx (st(a \<mapsto> upd p x)) a (a # as)"
  using assms chain_outside by (simp_all add: push_front_def pderef_def)

lemma find_link_absent:
  assumes "chain nx st p as" "length as \<le> n" "proc \<notin> set (tl as)" "proc \<noteq> 0"
  shows "find_link nx st n p proc = Inr 0"
  using assms
proof (induction as arbitrary: p n)
  case Nil
  then show ?case by (cases n) simp_all
next
  case (Cons a as)
  from Cons.prems obtain x m where x: "st a = Some x" "p = a" "a \<noteq> 0" "chain nx st (nx x) as" "n = Suc m" "length as \<le> m"
    by (cases n) (auto split: option.splits)
  have "nx x \<noteq> proc" using x(4) Cons.prems(3,4) by (cases as) auto
  moreover have "proc \<notin> set (tl as)" using Cons.prems(3) by (cases as) auto
  ultimately show ?case using Cons.IH [OF x(4,6) _ Cons.prems(4)] x by (simp add: pderef_def)
qed

lemma find_link_before:
  assumes "chain nx st p (bs @ q # proc # cs)" "distinct (bs @ q # proc # cs)" "length bs < n"
  shows "find_link nx st n p proc = Inr q"
  using assms
proof (induction bs arbitrary: p n)
  case Nil
  then obtain x m where "st q = Some x" "nx x = proc" "p = q" "q \<noteq> 0" "n = Suc m"
    by (cases n) (auto split: option.splits)
  then show ?case by (simp add: pderef_def)
next
  case (Cons b bs)
  from Cons.prems obtain x m where x: "st b = Some x" "p = b" "b \<noteq> 0" "chain nx st (nx x) (bs @ q # proc # cs)"
      "n = Suc m" "length bs < m" "distinct (bs @ q # proc # cs)"
    by (cases n) (auto split: option.splits)
  have "nx x \<noteq> proc" using x(4,7) by (cases bs) auto
  with Cons.IH [OF x(4,7,6)] x show ?case by (simp add: pderef_def)
qed

lemma chain_splice:
  assumes "chain nx st p (bs @ q # proc # cs)" "distinct (bs @ q # proc # cs)" "st q = Some y" "st proc = Some x"
  shows "chain nx (st(q \<mapsto> upd (nx x) y)) p (bs @ q # cs)"
  using assms
proof (induction bs arbitrary: p)
  case Nil
  then have "chain nx st (nx x) cs" "p = q" "q \<noteq> 0" "q \<notin> set cs" by auto
  then show ?case using chain_outside [of q cs st "nx x"] by (simp del: fun_upd_apply add: fun_upd_same)
next
  case (Cons b bs)
  then show ?case by (auto split: option.splits)
qed

text \<open>Removal: a process of the list is taken out, one that is not in the list leaves it as it is; at
  most the link of one other member of the list is written.\<close>

lemma unlink_chain:
  assumes ch: "chain nx st p as" and di: "distinct as" and len: "length as \<le> n" and nz: "proc \<noteq> 0"
    and x: "st proc = Some x"
  shows "\<exists>p' st'. unlink nx upd st n p proc = Inr (p', st') \<and> chain nx st' p' (remove1 proc as)
    \<and> (st' = st \<or> (\<exists>q \<in> set as. \<exists>y. q \<noteq> proc \<and> st q = Some y \<and> st' = st(q \<mapsto> upd (nx x) y)))"
proof (cases "proc \<in> set as")
  case False
  with ch nz have "p \<noteq> proc" by (cases as) auto
  moreover have "find_link nx st n p proc = Inr 0"
    using find_link_absent [OF ch len _ nz] False by (cases as) auto
  ultimately show ?thesis using ch False by (simp add: unlink_def remove1_idem)
next
  case True
  show ?thesis
  proof (cases "p = proc")
    case True
    with ch nz obtain cs where as: "as = proc # cs" by (cases as) auto
    with ch x have "chain nx st (nx x) cs" by simp
    with True x as show ?thesis by (simp add: unlink_def pderef_def)
  next
    case False
    from \<open>proc \<in> set as\<close> obtain ds cs where as: "as = ds @ proc # cs" "proc \<notin> set ds" by (meson split_list_first)
    with ch False obtain bs q where ds: "ds = bs @ [q]" by (cases ds rule: rev_cases) auto
    have ch': "chain nx st p (bs @ q # proc # cs)" and di': "distinct (bs @ q # proc # cs)"
      using ch di as ds by simp_all
    obtain y where y: "st q = Some y" "q \<noteq> 0" using chain_in_store [OF ch', of q] by auto
    have "find_link nx st n p proc = Inr q" using find_link_before [OF ch' di'] len as ds by simp
    moreover have "remove1 proc as = bs @ q # cs" using as ds by (simp add: remove1_append)
    ultimately show ?thesis
      using chain_splice [OF ch' di' y(1) x] False x y as ds di'
      by (auto simp: unlink_def pderef_def)
  qed
qed

end

definition set_rq_next :: "u32 \<Rightarrow> process \<Rightarrow> process" where
  "set_rq_next a x = x\<lparr>p_rq_next := a\<rparr>"

definition set_next :: "u32 \<Rightarrow> process \<Rightarrow> process" where
  "set_next a x = x\<lparr>p_next := a\<rparr>"

interpretation rq: link_field p_rq_next set_rq_next
  by unfold_locales (simp add: set_rq_next_def)

interpretation pq: link_field p_next set_next
  by unfold_locales (simp add: set_next_def)

end
