(* ===== verification/Pmm.thy ===== *)
theory Pmm
  imports Prelude
begin

text \<open>
  The physical page frame allocator (\<open>src/kernel/common/memory/pmm.c\<close>): one byte per frame holds
  the number of users in its low seven bits and the copy-on-write mark in its top bit. The
  globals \<open>mem_base\<close>, \<open>mem_entries\<close>, \<open>bitmap\<close> and \<open>look_from_here\<close> are the fields of a record.
  The atomic fetch-and-add is executed without interference, so its recovery branch is kept in
  the model but never taken.
\<close>

record pmm =
  mem_base :: u32
  mem_entries :: nat
  bitmap :: "u8 list"
  look_from_here :: nat

definition BITMAP_COW_FLAG :: u8 where
  "BITMAP_COW_FLAG = push_bit 7 1"

definition BITMAP_USERS :: u8 where
  "BITMAP_USERS = 0xFF AND NOT BITMAP_COW_FLAG"

definition frame_addr :: "pmm \<Rightarrow> nat \<Rightarrow> u32" where
  "frame_addr p i = mem_base p + push_bit PAGE_SHIFT (of_nat i)"

definition frame_index :: "pmm \<Rightarrow> u32 \<Rightarrow> nat" where
  "frame_index p paddr = unat (drop_bit PAGE_SHIFT (paddr - mem_base p))"

definition sync_fetch_and_add :: "u8 list \<Rightarrow> nat \<Rightarrow> u8 \<Rightarrow> (u8 \<times> u8 list) outcome" where
  "sync_fetch_and_add bm i v =
     rbind (aget bm i) (\<lambda>old. rbind (aset bm i (old + v)) (\<lambda>bm'. Inr (old, bm')))"

lemma sync_fetch_and_add_in [simp]:
  "i < length bm \<Longrightarrow> sync_fetch_and_add bm i v = Inr (bm ! i, bm[i := bm ! i + v])"
  by (simp add: sync_fetch_and_add_def)

subsection \<open>Single frames\<close>

function pmm_alloc_from :: "pmm \<Rightarrow> nat \<Rightarrow> bool \<Rightarrow> (u32 \<times> pmm) outcome" where
  "pmm_alloc_from p i first_occurance =
     (if i < mem_entries p then
        rbind (aget (bitmap p) i) (\<lambda>b.
          if b = 0 then
            rbind (sync_fetch_and_add (bitmap p) i 1) (\<lambda>(old, bm).
              if old \<noteq> 0 then
                rbind (aget bm i) (\<lambda>c. rbind (aset bm i (c - 1)) (\<lambda>bm'.
                  pmm_alloc_from (p\<lparr>bitmap := bm'\<rparr>) (Suc i) False))
              else
                Inr (frame_addr p i,
                     p\<lparr>bitmap := bm,
                       look_from_here := (if first_occurance then i else look_from_here p)\<rparr>))
          else pmm_alloc_from p (Suc i) first_occurance)
      else Inl Panic)"
  by pat_completeness auto
termination
  by (relation "measure (\<lambda>(p, i, f). mem_entries p - i)") auto

declare pmm_alloc_from.simps [simp del]

definition pmm_alloc :: "pmm \<Rightarrow> (u32 \<times> pmm) outcome" where
  "pmm_alloc p = pmm_alloc_from p (look_from_here p) True"

definition pmm_free :: "pmm \<Rightarrow> u32 \<Rightarrow> pmm outcome" where
  "pmm_free p paddr =
     rbind (kassert (page_aligned paddr)) (\<lambda>_.
       let base = frame_index p paddr in
       rbind (aget (bitmap p) base) (\<lambda>b.
       rbind (kassert (b AND BITMAP_USERS \<noteq> 0)) (\<lambda>_.
       rbind (aset (bitmap p) base (b - 1)) (\<lambda>bm.
         Inr (p\<lparr>bitmap := bm,
                look_from_here := (if b - 1 = 0 \<and> base < look_from_here p then base
                                   else look_from_here p)\<rparr>)))))"

definition pmm_use :: "pmm \<Rightarrow> u32 \<Rightarrow> pmm outcome" where
  "pmm_use p paddr =
     rbind (kassert (page_aligned paddr)) (\<lambda>_.
       let base = frame_index p paddr in
       rbind (aget (bitmap p) base) (\<lambda>b.
       rbind (kassert (b AND BITMAP_USERS \<noteq> 0)) (\<lambda>_.
       rbind (kassert (b AND BITMAP_USERS < BITMAP_USERS)) (\<lambda>_.
       rbind (aset (bitmap p) base (b + 1)) (\<lambda>bm. Inr (p\<lparr>bitmap := bm\<rparr>))))))"

definition pmm_user_count :: "pmm \<Rightarrow> u32 \<Rightarrow> u8 outcome" where
  "pmm_user_count p paddr =
     rbind (kassert (page_aligned paddr)) (\<lambda>_.
     rbind (aget (bitmap p) (frame_index p paddr)) (\<lambda>b. Inr (b AND BITMAP_USERS)))"

definition pmm_alloced :: "pmm \<Rightarrow> u32 \<Rightarrow> bool outcome" where
  "pmm_alloced p paddr =
     rbind (pmm_user_count p paddr) (\<lambda>c.
       if c \<noteq> 0 then rbind (pmm_user_count p paddr) (\<lambda>c'. Inr (c' < BITMAP_USERS))
       else Inr False)"

definition pmm_mark_cow :: "pmm \<Rightarrow> u32 \<Rightarrow> bool \<Rightarrow> pmm outcome" where
  "pmm_mark_cow p paddr flag =
     rbind (kassert (page_aligned paddr)) (\<lambda>_.
       let base = frame_index p paddr in
       rbind (aget (bitmap p) base) (\<lambda>b.
       rbind (kassert (b AND BITMAP_USERS \<noteq> 0)) (\<lambda>_.
       rbind (aset (bitmap p) base
                (if flag then b OR BITMAP_COW_FLAG else b AND NOT BITMAP_COW_FLAG)) (\<lambda>bm.
         Inr (p\<lparr>bitmap := bm\<rparr>)))))"

definition pmm_is_cow :: "pmm \<Rightarrow> u32 \<Rightarrow> bool outcome" where
  "pmm_is_cow p paddr =
     rbind (kassert (page_aligned paddr)) (\<lambda>_.
       let index = frame_index p paddr in
       rbind (aget (bitmap p) index) (\<lambda>b.
       rbind (kassert (b AND BITMAP_USERS \<noteq> 0)) (\<lambda>_.
         Inr (b AND BITMAP_COW_FLAG \<noteq> 0))))"

subsection \<open>Contiguous blocks\<close>

text \<open>The inner loops of \<open>pmm_alloc_advanced\<close>: look whether the frames after the first are free,
  take them one by one, undo the increments of a lost race.\<close>

function adv_free_run :: "u8 list \<Rightarrow> nat \<Rightarrow> nat \<Rightarrow> nat \<Rightarrow> bool outcome" where
  "adv_free_run bm i j frames =
     (if j < frames then
        rbind (aget bm (i + j)) (\<lambda>b. if b \<noteq> 0 then Inr False else adv_free_run bm i (Suc j) frames)
      else Inr True)"
  by pat_completeness auto
termination
  by (relation "measure (\<lambda>(bm, i, j, frames). frames - j)") auto

function adv_rollback :: "u8 list \<Rightarrow> nat \<Rightarrow> nat \<Rightarrow> nat \<Rightarrow> u8 list outcome" where
  "adv_rollback bm i k j =
     (if k \<le> j then
        rbind (aget bm (i + k)) (\<lambda>b. rbind (aset bm (i + k) (b - 1)) (\<lambda>bm'.
          adv_rollback bm' i (Suc k) j))
      else Inr bm)"
  by pat_completeness auto
termination
  by (relation "measure (\<lambda>(bm, i, k, j). Suc j - k)") auto

function adv_reserve :: "u8 list \<Rightarrow> nat \<Rightarrow> nat \<Rightarrow> nat \<Rightarrow> (bool \<times> u8 list) outcome" where
  "adv_reserve bm i j frames =
     (if j < frames then
        rbind (sync_fetch_and_add bm (i + j) 1) (\<lambda>(old, bm').
          if old \<noteq> 0 then rbind (adv_rollback bm' i 0 j) (\<lambda>bm''. Inr (False, bm''))
          else adv_reserve bm' i (Suc j) frames)
      else Inr (True, bm))"
  by pat_completeness auto
termination
  by (relation "measure (\<lambda>(bm, i, j, frames). frames - j)") auto

declare adv_free_run.simps [simp del] adv_rollback.simps [simp del] adv_reserve.simps [simp del]

function pmm_alloc_advanced_from ::
    "pmm \<Rightarrow> nat \<Rightarrow> int \<Rightarrow> nat \<Rightarrow> u32 \<Rightarrow> (u32 \<times> pmm) outcome" where
  "pmm_alloc_advanced_from p i lim frames real_alignment =
     (if int i < lim then
        (let base = frame_addr p i in
         if base AND real_alignment \<noteq> 0 then
           pmm_alloc_advanced_from p (Suc i) lim frames real_alignment
         else
           rbind (aget (bitmap p) i) (\<lambda>b.
             if b = 0 then
               rbind (adv_free_run (bitmap p) i 1 frames) (\<lambda>is_free.
                 if \<not> is_free then pmm_alloc_advanced_from p (Suc i) lim frames real_alignment
                 else
                   rbind (adv_reserve (bitmap p) i 0 frames) (\<lambda>(is_free, bm).
                     if \<not> is_free then
                       pmm_alloc_advanced_from (p\<lparr>bitmap := bm\<rparr>) (Suc i) lim frames real_alignment
                     else Inr (base, p\<lparr>bitmap := bm\<rparr>)))
             else pmm_alloc_advanced_from p (Suc i) lim frames real_alignment))
      else Inr (0, p))"
  by pat_completeness auto
termination
  by (relation "measure (\<lambda>(p, i, lim, frames, al). nat (lim - int i))") auto

declare pmm_alloc_advanced_from.simps [simp del]

definition pmm_alloc_advanced :: "pmm \<Rightarrow> u32 \<Rightarrow> u32 \<Rightarrow> nat \<Rightarrow> (u32 \<times> pmm) outcome" where
  "pmm_alloc_advanced p len max_addr alignment =
     (if len = 0 then Inr (0, p)
      else
        let frames = drop_bit PAGE_SHIFT (len + PAGE_SIZE - 1);
            lim = sint (drop_bit PAGE_SHIFT max_addr - frames);
            lim = (if int (mem_entries p) < lim then int (mem_entries p) else lim);
            real_alignment = push_bit alignment 1 - 1
        in pmm_alloc_advanced_from p (look_from_here p) lim (unat frames) real_alignment)"

subsection \<open>Initialisation from the memory map\<close>

text \<open>
  \<open>get_memmap_info\<close> and \<open>get_kernel_dim\<close> belong to the boot platform: the memory map is a list of
  triples (usable, base, length), the kernel image the pair of its first and last address as
  linked above \<open>PHYS_BASE\<close>.
\<close>

definition PHYS_BASE :: u32 where
  "PHYS_BASE = 0xF0000000"

type_synonym memmap = "(bool \<times> u32 \<times> u32) list"

definition memmap_extent_step :: "u32 \<times> u32 \<Rightarrow> bool \<times> u32 \<times> u32 \<Rightarrow> u32 \<times> u32" where
  "memmap_extent_step = (\<lambda>(memsize, mb) (usable, base, len).
     let len' = (if base + len < base then 0xFFFFFFFF - base else len)
     in (if usable \<and> base + len' > memsize then base + len' else memsize,
         if usable \<and> base < mb then base else mb))"

definition fill_range :: "u8 list \<Rightarrow> nat \<Rightarrow> nat \<Rightarrow> u8 \<Rightarrow> u8 list" where
  "fill_range bm lo hi v = fold (\<lambda>bi bm. bm[bi := v]) [lo..<hi] bm"

definition mark_usable :: "u32 \<Rightarrow> u32 \<Rightarrow> nat \<Rightarrow> bool \<times> u32 \<times> u32 \<Rightarrow> u8 list \<Rightarrow> u8 list" where
  "mark_usable memsize mb entries = (\<lambda>(usable, base, len) bm.
     if usable \<and> base < memsize \<and> base + len > mb then
       let top = (if base + len + PAGE_SIZE - 1 < base then entries
                  else unat (drop_bit PAGE_SHIFT (base + len + PAGE_SIZE - 1 - mb)));
           top = (if top > entries then entries else top);
           paddr = (if base > mb then unat (drop_bit PAGE_SHIFT (base - mb)) else 0)
       in if paddr > entries then bm else fill_range bm paddr top 0
     else bm)"

definition init_pmm :: "memmap \<Rightarrow> u32 \<Rightarrow> u32 \<Rightarrow> pmm" where
  "init_pmm mmap kernel_start kernel_stop =
     (let (memsize, mb) = foldl memmap_extent_step (0, 0xFFFFFFFF) mmap;
          entries = drop_bit PAGE_SHIFT (memsize - mb);
          kernel_paddr = drop_bit PAGE_SHIFT (kernel_start - PHYS_BASE);
          kernel_end = drop_bit PAGE_SHIFT (kernel_stop - PHYS_BASE + PAGE_SIZE - 1);
          mb = (if push_bit PAGE_SHIFT kernel_paddr \<le> mb \<and> push_bit PAGE_SHIFT kernel_end > mb
                then push_bit PAGE_SHIFT kernel_end else mb);
          mb = (mb + PAGE_SIZE - 1) AND NOT (PAGE_SIZE - 1);
          bmp_size = drop_bit PAGE_SHIFT (entries + PAGE_SIZE - 1);
          kernel_end = kernel_end + bmp_size;
          bm = replicate (unat entries) 0xff;
          bm = fold (mark_usable memsize mb (unat entries)) mmap bm;
          bm = (if kernel_end > drop_bit PAGE_SHIFT mb
                   \<and> kernel_paddr < entries + drop_bit PAGE_SHIFT mb
                then
                  let s = sint (kernel_paddr - drop_bit PAGE_SHIFT mb);
                      e = sint (kernel_end - drop_bit PAGE_SHIFT mb);
                      e = (if e > int (unat entries) then int (unat entries) else e);
                      s = (if s < 0 then 0 else s)
                  in fill_range bm (nat s) (nat e) BITMAP_USERS
                else bm)
      in \<lparr>mem_base = mb, mem_entries = unat entries, bitmap = bm, look_from_here = 0\<rparr>)"

subsection \<open>Reading the frame byte\<close>

lemma byte_eqI: "\<forall>n \<in> {0, 1, 2, 3, 4, 5, 6, 7}. bit a n = bit b n \<Longrightarrow> a = (b :: u8)"
  by (rule bit_word_eqI) (auto simp: numeral_eq_Suc less_Suc_eq)

lemma bitmap_masks: "BITMAP_COW_FLAG = 128" "BITMAP_USERS = 127"
  by (simp_all add: BITMAP_USERS_def BITMAP_COW_FLAG_def)

lemma and_users: "b AND BITMAP_USERS = take_bit 7 (b :: u8)"
  by (simp add: bitmap_masks take_bit_eq_mask mask_eq_exp_minus_1)

lemma unat_users: "unat (b AND BITMAP_USERS) = unat b mod 128"
  by (simp only: and_users unat_take_bit) simp

lemma users_zero_iff: "b AND BITMAP_USERS = 0 \<longleftrightarrow> unat b mod 128 = 0"
  by (metis unat_users unat_eq_zero)

lemma users_full_iff: "b AND BITMAP_USERS < BITMAP_USERS \<longleftrightarrow> unat b mod 128 < 127"
  by (simp add: word_less_nat_alt unat_users) (simp add: bitmap_masks)

lemma u8_dec: "b \<noteq> 0 \<Longrightarrow> unat (b - 1 :: u8) = unat b - 1"
  by (metis unat_minus_one)

lemma u8_inc: "unat b < 255 \<Longrightarrow> unat (b + 1 :: u8) = unat b + 1"
  using unat_add_lem [of b 1] by simp

lemma cow_flag_iff: "(b :: u8) AND BITMAP_COW_FLAG \<noteq> 0 \<longleftrightarrow> 128 \<le> unat b"
proof -
  have "b AND BITMAP_COW_FLAG \<noteq> 0 \<longleftrightarrow> bit b 7"
    using and_exp_eq_0_iff_not_bit [of b 7] by (simp add: bitmap_masks)
  also have "\<dots> \<longleftrightarrow> bit (unat b) 7"
    by (simp add: bit_unsigned_iff)
  also have "\<dots> \<longleftrightarrow> odd (unat b div 128)"
    by (simp add: bit_iff_odd)
  also have "\<dots> \<longleftrightarrow> 128 \<le> unat b"
  proof -
    have "unat b < 256" using unsigned_less [of b, where ?'a = nat] by simp
    then have "unat b div 128 \<in> {0, 1}" by (auto simp: div_le_dividend less_mult_imp_div_less)
    then show ?thesis by auto
  qed
  finally show ?thesis .
qed

lemma cow_set: "unat ((b :: u8) OR BITMAP_COW_FLAG) = unat b mod 128 + 128"
proof -
  have "b OR BITMAP_COW_FLAG = (b AND BITMAP_USERS) OR 128"
    by (rule byte_eqI) (simp add: bitmap_masks bit_simps)
  also have "\<dots> = (b AND BITMAP_USERS) + 128"
    by (rule disjunctive_add_eq_or [symmetric]) (simp add: bitmap_masks and.assoc)
  finally show ?thesis
    by (simp add: unat_add_nowrap unat_users)
qed

lemma cow_clear: "unat ((b :: u8) AND NOT BITMAP_COW_FLAG) = unat b mod 128"
proof -
  have "b AND NOT BITMAP_COW_FLAG = b AND BITMAP_USERS"
    by (rule byte_eqI) (simp add: bitmap_masks bit_simps)
  then show ?thesis by (simp add: unat_users)
qed

subsection \<open>Frame addresses\<close>

lemma frame_index_addr: "i < 2 ^ 20 \<Longrightarrow> frame_index p (frame_addr p i) = i"
proof -
  assume i: "i < 2 ^ 20"
  have "unat (push_bit 12 (of_nat i) :: u32) = i * 4096"
    using i by (simp add: push_bit_eq_mult unat_word_ariths unat_of_nat)
  then show ?thesis
    by (simp add: frame_index_def frame_addr_def PAGE_SHIFT_def unat_drop_bit)
qed

lemma page_aligned_frame_addr:
  "page_aligned (mem_base p) \<Longrightarrow> page_aligned (frame_addr p i)"
proof -
  assume "page_aligned (mem_base p)"
  then have "unat (mem_base p) mod 4096 = 0" by (simp add: page_aligned_iff)
  moreover have "unat (push_bit 12 (of_nat i) :: u32) mod 4096 = 0"
    by (simp add: push_bit_eq_mult unat_word_ariths mod_mod_cancel)
  ultimately show ?thesis
    by (simp add: page_aligned_iff frame_addr_def PAGE_SHIFT_def unat_word_ariths mod_mod_cancel)
       (metis mod_add_eq add.right_neutral mod_0)
qed

subsection \<open>The allocator invariant\<close>

definition frame_free :: "pmm \<Rightarrow> nat \<Rightarrow> bool" where
  "frame_free p i \<longleftrightarrow> i < mem_entries p \<and> bitmap p ! i = 0"

definition frame_users :: "pmm \<Rightarrow> nat \<Rightarrow> nat" where
  "frame_users p i = unat (bitmap p ! i) mod 128"

definition pmm_inv :: "pmm \<Rightarrow> bool" where
  "pmm_inv p \<longleftrightarrow> page_aligned (mem_base p) \<and> length (bitmap p) = mem_entries p
     \<and> mem_entries p < 2 ^ 20 \<and> look_from_here p \<le> mem_entries p
     \<and> (\<forall>i < look_from_here p. bitmap p ! i \<noteq> 0)"

lemma pmm_alloc_from_found:
  assumes "length (bitmap p) = mem_entries p" "i \<le> j" "frame_free p j"
    and "\<And>k. i \<le> k \<Longrightarrow> k < j \<Longrightarrow> bitmap p ! k \<noteq> 0"
  shows "pmm_alloc_from p i f =
    Inr (frame_addr p j, p\<lparr>bitmap := (bitmap p)[j := 1],
                            look_from_here := (if f then j else look_from_here p)\<rparr>)"
  using assms
proof (induction "j - i" arbitrary: i)
  case 0
  then have "i = j" by simp
  with 0 show ?case
    by (subst pmm_alloc_from.simps) (simp add: frame_free_def)
next
  case (Suc n)
  then have "i < j" by simp
  with Suc.prems have "i < mem_entries p" "bitmap p ! i \<noteq> 0"
    by (auto simp: frame_free_def)
  moreover have "pmm_alloc_from p (Suc i) f =
      Inr (frame_addr p j, p\<lparr>bitmap := (bitmap p)[j := 1],
                              look_from_here := (if f then j else look_from_here p)\<rparr>)"
    using Suc.hyps(2) Suc.prems \<open>i < j\<close> by (intro Suc.hyps(1)) auto
  ultimately show ?case
    using Suc.prems(1) by (subst pmm_alloc_from.simps) simp
qed

lemma pmm_alloc_from_none:
  assumes "length (bitmap p) = mem_entries p"
    and "\<And>k. i \<le> k \<Longrightarrow> k < mem_entries p \<Longrightarrow> bitmap p ! k \<noteq> 0"
  shows "pmm_alloc_from p i f = Inl Panic"
  using assms
proof (induction "mem_entries p - i" arbitrary: i)
  case 0
  then show ?case by (subst pmm_alloc_from.simps) simp
next
  case (Suc n)
  then have "pmm_alloc_from p (Suc i) f = Inl Panic"
    by (intro Suc.hyps(1)) auto
  with Suc show ?case by (subst pmm_alloc_from.simps) simp
qed

lemma pmm_alloc_found:
  assumes "pmm_inv p" "frame_free p j" "\<And>k. k < j \<Longrightarrow> \<not> frame_free p k"
  shows "pmm_alloc p = Inr (frame_addr p j, p\<lparr>bitmap := (bitmap p)[j := 1], look_from_here := j\<rparr>)"
proof -
  have "look_from_here p \<le> j"
    using assms(1,2) by (meson frame_free_def linorder_not_le pmm_inv_def)
  then show ?thesis
    using assms pmm_alloc_from_found [of p "look_from_here p" j True]
    by (auto simp: pmm_alloc_def pmm_inv_def frame_free_def)
qed

lemma pmm_alloc_none:
  assumes "pmm_inv p" "\<And>k. \<not> frame_free p k"
  shows "pmm_alloc p = Inl Panic"
  using assms by (auto simp: pmm_alloc_def pmm_inv_def frame_free_def intro: pmm_alloc_from_none)

text \<open>Allocation either returns the lowest free frame or panics because there is none.\<close>

lemma pmm_alloc_InrE:
  assumes "pmm_inv p" "pmm_alloc p = Inr (a, p')"
  obtains j where "frame_free p j" "\<And>k. k < j \<Longrightarrow> \<not> frame_free p k" "a = frame_addr p j"
    "p' = p\<lparr>bitmap := (bitmap p)[j := 1], look_from_here := j\<rparr>"
proof (cases "\<exists>j. frame_free p j")
  case True
  then obtain j where j: "frame_free p j" "\<And>k. k < j \<Longrightarrow> \<not> frame_free p k"
    by (metis exists_least_iff)
  then show ?thesis using that assms pmm_alloc_found [OF assms(1) j] by auto
next
  case False
  then show ?thesis using pmm_alloc_none [OF assms(1)] assms(2) by auto
qed

lemma pmm_alloc_inv: "pmm_inv p \<Longrightarrow> pmm_alloc p = Inr (a, p') \<Longrightarrow> pmm_inv p'"
  by (frule (1) pmm_alloc_InrE) (auto simp: pmm_inv_def frame_free_def nth_list_update)

lemma pmm_free_inv: "pmm_inv p \<Longrightarrow> pmm_free p a = Inr p' \<Longrightarrow> pmm_inv p'"
  by (auto simp: pmm_inv_def pmm_free_def Let_def outcome_simps nth_list_update split: if_splits)

lemma byte_inc_nonzero: "unat (b :: u8) mod 128 < 127 \<Longrightarrow> b + 1 \<noteq> 0"
proof
  assume "unat b mod 128 < 127" "b + 1 = 0"
  then have "b = 255" by (simp add: eq_neg_iff_add_eq_0 [symmetric])
  with \<open>unat b mod 128 < 127\<close> show False by simp
qed

lemma pmm_use_inv: "pmm_inv p \<Longrightarrow> pmm_use p a = Inr p' \<Longrightarrow> pmm_inv p'"
  by (auto simp: pmm_inv_def pmm_use_def Let_def outcome_simps nth_list_update users_full_iff
      byte_inc_nonzero split: if_splits)

lemma pmm_mark_cow_inv: "pmm_inv p \<Longrightarrow> pmm_mark_cow p a flag = Inr p' \<Longrightarrow> pmm_inv p'"
proof -
  assume inv: "pmm_inv p" and ok: "pmm_mark_cow p a flag = Inr p'"
  have "b AND BITMAP_USERS \<noteq> 0 \<Longrightarrow> b OR BITMAP_COW_FLAG \<noteq> 0 \<and> b AND NOT BITMAP_COW_FLAG \<noteq> 0"
    for b :: u8
    using cow_set [of b] cow_clear [of b] by (auto simp: users_zero_iff)
  with inv ok show ?thesis
    by (auto simp: pmm_inv_def pmm_mark_cow_def Let_def outcome_simps nth_list_update
        split: if_splits)
qed

subsection \<open>Reference counts by address\<close>

definition pmm_users :: "pmm \<Rightarrow> u32 \<Rightarrow> nat" where
  "pmm_users p a =
     (if page_aligned a \<and> frame_index p a < mem_entries p then frame_users p (frame_index p a)
      else 0)"

lemma inc_mod128: "n mod 128 < 127 \<Longrightarrow> Suc n mod 256 mod 128 = Suc (n mod 128)"
proof -
  assume "n mod 128 < 127"
  moreover have "Suc n mod 256 mod 128 = Suc n mod 128" by (rule mod_mod_cancel) simp
  ultimately show ?thesis by (simp add: mod_Suc)
qed

lemma dec_mod128: "0 < n mod 128 \<Longrightarrow> (n - Suc 0) mod 128 = n mod 128 - Suc 0"
  by (cases n) (auto simp: mod_Suc split: if_splits)

lemma frame_index_inject:
  assumes "page_aligned (mem_base p)" "page_aligned a" "page_aligned b"
    and "frame_index p a = frame_index p b"
  shows "a = b"
proof -
  have low: "unat (c - mem_base p) mod 4096 = 0" if "page_aligned c" for c
    using page_aligned_diff [OF that assms(1)] by (simp add: page_aligned_iff)
  from assms(4) have "unat (a - mem_base p) div 4096 = unat (b - mem_base p) div 4096"
    by (simp add: frame_index_def PAGE_SHIFT_def unat_drop_bit)
  with low [OF assms(2)] low [OF assms(3)] have "unat (a - mem_base p) = unat (b - mem_base p)"
    by (metis mod_0_imp_dvd dvd_div_mult_self)
  then have "a - mem_base p = b - mem_base p" by (simp only: word_unat_eq_iff)
  then show ?thesis by simp
qed

lemma pmm_users_upd:
  assumes "pmm_inv p" "page_aligned a" "frame_index p a < mem_entries p"
    and "bitmap p' = (bitmap p)[frame_index p a := v]"
    and "mem_base p' = mem_base p" "mem_entries p' = mem_entries p"
  shows "pmm_users p' = (pmm_users p)(a := unat v mod 128)"
proof
  fix b
  have idx: "frame_index p' c = frame_index p c" for c
    using assms(5) by (simp add: frame_index_def)
  have len: "length (bitmap p) = mem_entries p" using assms(1) by (simp add: pmm_inv_def)
  show "pmm_users p' b = ((pmm_users p)(a := unat v mod 128)) b"
    using assms len frame_index_inject [of p a b]
    by (cases "a = b") (auto simp: pmm_users_def frame_users_def idx pmm_inv_def nth_list_update)
qed

lemma pmm_alloc_users:
  assumes "pmm_inv p" "pmm_alloc p = Inr (a, p')"
  shows "pmm_users p a = 0 \<and> pmm_users p' = (pmm_users p)(a := 1)"
proof -
  from assms obtain j where j: "frame_free p j" "a = frame_addr p j"
      "p' = p\<lparr>bitmap := (bitmap p)[j := 1], look_from_here := j\<rparr>"
    by (rule pmm_alloc_InrE)
  with assms(1) have "frame_index p a = j" "page_aligned a"
    by (auto simp: frame_free_def pmm_inv_def frame_index_addr page_aligned_frame_addr)
  moreover from this j assms(1) have "pmm_users p' = (pmm_users p)(a := unat (1 :: u8) mod 128)"
    by (intro pmm_users_upd) (auto simp: frame_free_def)
  ultimately show ?thesis
    using j by (simp add: pmm_users_def frame_users_def frame_free_def)
qed

lemma pmm_use_users:
  assumes "pmm_inv p" "pmm_use p a = Inr p'"
  shows "0 < pmm_users p a \<and> pmm_users p' = (pmm_users p)(a := pmm_users p a + 1)"
proof -
  let ?b = "bitmap p ! frame_index p a"
  from assms have a: "page_aligned a" "frame_index p a < mem_entries p"
      "?b AND BITMAP_USERS \<noteq> 0" "?b AND BITMAP_USERS < BITMAP_USERS"
      "p' = p\<lparr>bitmap := (bitmap p)[frame_index p a := ?b + 1]\<rparr>"
    by (auto simp: pmm_use_def Let_def outcome_simps pmm_inv_def)
  then have "unat (?b + 1) mod 128 = unat ?b mod 128 + 1"
    by (simp add: users_full_iff unat_word_ariths inc_mod128)
  moreover have "pmm_users p' = (pmm_users p)(a := unat (?b + 1) mod 128)"
    using a assms(1) by (intro pmm_users_upd) auto
  ultimately show ?thesis
    using a by (auto simp: pmm_users_def frame_users_def users_zero_iff)
qed

lemma pmm_free_users:
  assumes "pmm_inv p" "pmm_free p a = Inr p'"
  shows "0 < pmm_users p a \<and> pmm_users p' = (pmm_users p)(a := pmm_users p a - 1)"
proof -
  let ?b = "bitmap p ! frame_index p a"
  from assms have a: "page_aligned a" "frame_index p a < mem_entries p" "?b AND BITMAP_USERS \<noteq> 0"
      "bitmap p' = (bitmap p)[frame_index p a := ?b - 1]" "mem_base p' = mem_base p"
      "mem_entries p' = mem_entries p"
    by (auto simp: pmm_free_def Let_def outcome_simps pmm_inv_def)
  then have "?b \<noteq> 0" by auto
  then have "unat (?b - 1) = unat ?b - 1" by (rule u8_dec)
  with a(3) have "unat (?b - 1) mod 128 = unat ?b mod 128 - 1"
    by (simp add: users_zero_iff dec_mod128)
  moreover have "pmm_users p' = (pmm_users p)(a := unat (?b - 1) mod 128)"
    using a assms(1) by (intro pmm_users_upd) auto
  ultimately show ?thesis
    using a by (auto simp: pmm_users_def frame_users_def users_zero_iff)
qed

subsection \<open>The allocator as a supplier of frames\<close>

text \<open>
  What the rest of the kernel relies on: an allocated frame had no user before and has one after,
  \<open>use\<close> and \<open>free\<close> change the count of their own frame by one and refuse an unused frame, and the
  invariant is kept. \<open>alloc_many\<close> is the loop in \<open>kmalloc\<close> and \<open>vmmc_open_shm\<close> that fills an
  array with frames.
\<close>

fun alloc_many :: "('s \<Rightarrow> ('a \<times> 's) outcome) \<Rightarrow> nat \<Rightarrow> 's \<Rightarrow> ('a list \<times> 's) outcome" where
  "alloc_many alloc 0 s = Inr ([], s)"
| "alloc_many alloc (Suc n) s =
     rbind (alloc s) (\<lambda>(a, s'). rbind (alloc_many alloc n s') (\<lambda>(as, s''). Inr (a # as, s'')))"

locale frame_allocator =
  fixes alloc :: "'s \<Rightarrow> (u32 \<times> 's) outcome"
    and free :: "'s \<Rightarrow> u32 \<Rightarrow> 's outcome"
    and use :: "'s \<Rightarrow> u32 \<Rightarrow> 's outcome"
    and users :: "'s \<Rightarrow> u32 \<Rightarrow> nat"
    and inv :: "'s \<Rightarrow> bool"
  assumes alloc_inv: "inv s \<Longrightarrow> alloc s = Inr (a, s') \<Longrightarrow> inv s'"
    and alloc_users: "inv s \<Longrightarrow> alloc s = Inr (a, s') \<Longrightarrow> users s a = 0 \<and> users s' = (users s)(a := 1)"
    and free_inv: "inv s \<Longrightarrow> free s a = Inr s' \<Longrightarrow> inv s'"
    and free_users: "inv s \<Longrightarrow> free s a = Inr s' \<Longrightarrow>
      0 < users s a \<and> users s' = (users s)(a := users s a - 1)"
    and use_inv: "inv s \<Longrightarrow> use s a = Inr s' \<Longrightarrow> inv s'"
    and use_users: "inv s \<Longrightarrow> use s a = Inr s' \<Longrightarrow>
      0 < users s a \<and> users s' = (users s)(a := users s a + 1)"
begin

lemma alloc_many_fresh:
  "inv s \<Longrightarrow> alloc_many alloc n s = Inr (as, s') \<Longrightarrow>
   inv s' \<and> length as = n \<and> distinct as \<and> (\<forall>a \<in> set as. users s a = 0)
   \<and> users s' = (\<lambda>a. if a \<in> set as then 1 else users s a)"
proof (induction n arbitrary: s as)
  case 0
  then show ?case by auto
next
  case (Suc n)
  from Suc.prems(2) obtain a s1 bs where
    a: "alloc s = Inr (a, s1)" "alloc_many alloc n s1 = Inr (bs, s')" "as = a # bs"
    by (auto simp: outcome_simps split: prod.splits)
  note u = alloc_users [OF Suc.prems(1) a(1)]
  have "inv s1" using alloc_inv [OF Suc.prems(1) a(1)] .
  note IH = Suc.IH [OF this a(2)]
  from IH u have "a \<notin> set bs" by (auto split: if_splits)
  with IH u a(3) show ?case by (auto simp: fun_eq_iff split: if_splits)
qed

lemma use_free_restores:
  assumes "inv s" "use s a = Inr s1" "free s1 a = Inr s2"
  shows "users s2 = users s"
  using use_users [OF assms(1,2)] free_users [OF use_inv [OF assms(1,2)] assms(3)]
  by (simp add: fun_eq_iff)

lemma alloc_free_restores:
  assumes "inv s" "alloc s = Inr (a, s1)" "free s1 a = Inr s2"
  shows "users s2 = users s"
  using alloc_users [OF assms(1,2)] free_users [OF alloc_inv [OF assms(1,2)] assms(3)]
  by (auto simp: fun_eq_iff)

lemma foreach_use:
  "inv s \<Longrightarrow> rfold use s as = Inr s' \<Longrightarrow>
   inv s' \<and> (\<forall>a. users s' a = users s a + count_list as a)"
proof (induction as arbitrary: s)
  case (Cons b as)
  then obtain s1 where s1: "use s b = Inr s1" "rfold use s1 as = Inr s'"
    by (auto simp: outcome_simps)
  note IH = Cons.IH [OF use_inv [OF Cons.prems(1) s1(1)] s1(2)]
  show ?case using IH use_users [OF Cons.prems(1) s1(1)] by auto
qed auto

lemma foreach_free:
  "inv s \<Longrightarrow> rfold free s as = Inr s' \<Longrightarrow>
   inv s' \<and> (\<forall>a. users s a = users s' a + count_list as a)"
proof (induction as arbitrary: s)
  case (Cons b as)
  then obtain s1 where s1: "free s b = Inr s1" "rfold free s1 as = Inr s'"
    by (auto simp: outcome_simps)
  note IH = Cons.IH [OF free_inv [OF Cons.prems(1) s1(1)] s1(2)]
  note fu = free_users [OF Cons.prems(1) s1(1)]
  have "users s a = users s' a + count_list (b # as) a" for a
    using IH fu by (cases "a = b") (auto dest: spec [of _ a])
  with IH show ?case by blast
qed auto

end

interpretation frames: frame_allocator pmm_alloc pmm_free pmm_use pmm_users pmm_inv
  by unfold_locales
    (auto dest: pmm_alloc_inv pmm_alloc_users pmm_free_inv pmm_free_users pmm_use_inv pmm_use_users)

subsection \<open>Properties of single-frame allocation\<close>

text \<open>allocation never panics or leaves the bitmap while a frame is free; it then returns the
  lowest frame whose byte is zero and changes that byte only.
\<close>

theorem pmm_alloc_lowest:
  assumes "pmm_inv p" and "frame_free p j" and "\<forall>k < j. \<not> frame_free p k"
  shows "pmm_alloc p = Inr (frame_addr p j, p\<lparr>bitmap := (bitmap p)[j := 1], look_from_here := j\<rparr>)
         \<and> page_aligned (frame_addr p j) \<and> frame_index p (frame_addr p j) = j"
  using assms pmm_alloc_found [OF assms(1,2)]
  by (auto simp: pmm_inv_def frame_free_def frame_index_addr page_aligned_frame_addr)

definition demo_pmm :: pmm where
  "demo_pmm = \<lparr>mem_base = 0x100000, mem_entries = 4, bitmap = [1, 0x7f, 0, 0], look_from_here = 1\<rparr>"

lemma demo_pmm_inv: "pmm_inv demo_pmm"
  by (simp add: demo_pmm_def pmm_inv_def page_aligned_def PAGE_SIZE_def)

theorem pmm_alloc_lowest_witness:
  "pmm_alloc demo_pmm = Inr (0x102000, demo_pmm\<lparr>bitmap := [1, 0x7f, 1, 0], look_from_here := 2\<rparr>)"
proof -
  have free: "frame_free demo_pmm 2" "\<forall>k < 2. \<not> frame_free demo_pmm k"
    by (auto simp: demo_pmm_def frame_free_def less_2_cases_iff)
  show ?thesis
    using pmm_alloc_lowest [OF demo_pmm_inv free]
    by (simp add: demo_pmm_def frame_addr_def PAGE_SHIFT_def)
qed

text \<open>with no free frame left, allocation ends in the panic \<open>physical memory exhausted\<close>, and in
  nothing else.
\<close>

theorem pmm_alloc_exhausted:
  assumes "pmm_inv p"
  shows "pmm_alloc p = Inl Panic \<longleftrightarrow> (\<forall>k. \<not> frame_free p k)"
proof (cases "\<exists>j. frame_free p j")
  case True
  then obtain j where "frame_free p j" "\<And>k. k < j \<Longrightarrow> \<not> frame_free p k"
    by (metis exists_least_iff)
  with pmm_alloc_found [OF assms this] show ?thesis by auto
next
  case False
  with pmm_alloc_none [OF assms] show ?thesis by auto
qed

theorem pmm_alloc_exhausted_witness:
  "pmm_alloc (demo_pmm\<lparr>bitmap := [1, 1, 1, 1]\<rparr>) = Inl Panic"
proof -
  let ?p = "demo_pmm\<lparr>bitmap := [1, 1, 1, 1]\<rparr>"
  have "pmm_inv ?p" by (simp add: demo_pmm_def pmm_inv_def page_aligned_def PAGE_SIZE_def)
  moreover have "\<forall>k. \<not> frame_free ?p k"
    by (auto simp: demo_pmm_def frame_free_def nth_Cons numeral_eq_Suc less_Suc_eq_0_disj split: nat.splits)
  ultimately show ?thesis using pmm_alloc_exhausted [of ?p] by blast
qed

text \<open>
  The reference counts form a counting discipline: the loop that allocates \<open>n\<close> frames yields
  pairwise distinct frames nobody used before, each now with exactly one user, and disturbs no
  other frame.
\<close>

theorem pmm_alloc_many_fresh:
  assumes "pmm_inv p" and "alloc_many pmm_alloc n p = Inr (as, p')"
  shows "pmm_inv p' \<and> length as = n \<and> distinct as \<and> (\<forall>a \<in> set as. pmm_users p a = 0)
     \<and> pmm_users p' = (\<lambda>a. if a \<in> set as then 1 else pmm_users p a)"
  using assms by (rule frames.alloc_many_fresh)

theorem pmm_alloc_many_fresh_witness:
  "\<exists>p'. alloc_many pmm_alloc 2 demo_pmm = Inr ([0x102000, 0x103000], p')
     \<and> pmm_inv p' \<and> pmm_users p' 0x103000 = 1"
proof -
  have two: "alloc_many pmm_alloc (Suc (Suc 0)) demo_pmm = Inr ([0x102000, 0x103000],
      \<lparr>mem_base = 0x100000, mem_entries = 4, bitmap = [1, 0x7f, 1, 1], look_from_here = 3\<rparr>)"
    by (simp add: demo_pmm_def pmm_alloc_def pmm_alloc_from.simps frame_addr_def PAGE_SHIFT_def)
  show ?thesis
    using two pmm_alloc_many_fresh [OF demo_pmm_inv two] by (simp add: numeral_2_eq_2)
qed

text \<open>
  Taking one more reference and dropping it again leaves every reference count as it was;
  both operations refuse a frame that has no user.
\<close>

theorem pmm_use_free_counts:
  assumes "pmm_inv p" and "pmm_use p a = Inr p1" and "pmm_free p1 a = Inr p2"
  shows "0 < pmm_users p a \<and> pmm_users p1 a = pmm_users p a + 1 \<and> pmm_users p2 = pmm_users p"
  using frames.use_free_restores [OF assms] frames.use_users [OF assms(1,2)] by simp

theorem pmm_use_free_counts_witness:
  "\<exists>p1 p2. pmm_use demo_pmm 0x100000 = Inr p1 \<and> pmm_free p1 0x100000 = Inr p2
     \<and> pmm_users p2 = pmm_users demo_pmm"
proof -
  let ?p1 = "demo_pmm\<lparr>bitmap := [2, 0x7f, 0, 0]\<rparr>"
  have u: "pmm_use demo_pmm 0x100000 = Inr ?p1"
    by (simp add: pmm_use_def demo_pmm_def page_aligned_def PAGE_SIZE_def frame_index_def
        PAGE_SHIFT_def bitmap_masks)
  have f: "pmm_free ?p1 0x100000 = Inr demo_pmm"
    by (simp add: pmm_free_def demo_pmm_def page_aligned_def PAGE_SIZE_def frame_index_def
        PAGE_SHIFT_def bitmap_masks)
  show ?thesis using u f pmm_use_free_counts [OF demo_pmm_inv u f] by blast
qed

text \<open>dropping the last reference to a frame that still carries the copy-on-write mark does not
  free it: the byte becomes the bare mark, the frame has no user, no later allocation can return
  it, and it cannot be freed again.
\<close>

theorem pmm_free_cow_leaks:
  assumes "pmm_inv p" and "page_aligned a" and "frame_index p a < mem_entries p"
    and "bitmap p ! frame_index p a = BITMAP_COW_FLAG OR 1"
  shows "\<exists>p'. pmm_free p a = Inr p' \<and> pmm_users p' a = 0
     \<and> \<not> frame_free p' (frame_index p a) \<and> pmm_free p' a = Inl Panic
     \<and> (\<forall>b q. pmm_alloc p' = Inr (b, q) \<longrightarrow> b \<noteq> a)"
proof -
  let ?i = "frame_index p a"
  let ?p' = "p\<lparr>bitmap := (bitmap p)[?i := 0x80], look_from_here := look_from_here p\<rparr>"
  have len: "length (bitmap p) = mem_entries p" using assms(1) by (simp add: pmm_inv_def)
  have free: "pmm_free p a = Inr ?p'"
    using assms len by (simp add: pmm_free_def bitmap_masks)
  have idx: "frame_index ?p' a = ?i" by (simp add: frame_index_def)
  have stuck: "\<not> frame_free ?p' ?i" using assms len by (simp add: frame_free_def)
  have again: "pmm_free ?p' a = Inl Panic"
    using assms len idx by (simp add: pmm_free_def bitmap_masks)
  have inv': "pmm_inv ?p'" using assms(1) free by (rule pmm_free_inv)
  have "b \<noteq> a" if "pmm_alloc ?p' = Inr (b, q)" for b q
  proof -
    from inv' that obtain j where "frame_free ?p' j" "b = frame_addr ?p' j"
      by (rule pmm_alloc_InrE)
    with inv' have "frame_index ?p' b = j" "frame_free ?p' j"
      by (auto simp: pmm_inv_def frame_free_def intro!: frame_index_addr)
    with stuck idx show ?thesis by auto
  qed
  moreover have "pmm_users ?p' a = 0"
    using assms len idx by (simp add: pmm_users_def frame_users_def)
  ultimately show ?thesis using free stuck again by blast
qed

theorem pmm_free_cow_leaks_witness:
  "\<exists>p'. pmm_free (demo_pmm\<lparr>bitmap := [0x81, 0x7f, 0, 0]\<rparr>) 0x100000 = Inr p' \<and> \<not> frame_free p' 0"
proof -
  let ?p = "demo_pmm\<lparr>bitmap := [0x81, 0x7f, 0, 0]\<rparr>"
  have "pmm_inv ?p" by (simp add: demo_pmm_def pmm_inv_def page_aligned_def PAGE_SIZE_def)
  moreover have "page_aligned 0x100000" by (simp add: page_aligned_def PAGE_SIZE_def)
  moreover have i: "frame_index ?p 0x100000 = 0"
    by (simp add: frame_index_def PAGE_SHIFT_def demo_pmm_def)
  moreover have "frame_index ?p 0x100000 < mem_entries ?p" unfolding i by (simp add: demo_pmm_def)
  moreover have "bitmap ?p ! frame_index ?p 0x100000 = BITMAP_COW_FLAG OR 1"
    unfolding i by (simp add: bitmap_masks)
  ultimately show ?thesis using pmm_free_cow_leaks [of ?p "0x100000"] i by auto
qed

subsection \<open>Reachable allocator states\<close>

inductive pmm_step :: "pmm \<Rightarrow> pmm \<Rightarrow> bool" where
  step_alloc: "pmm_alloc p = Inr (a, p') \<Longrightarrow> pmm_step p p'"
| step_free: "pmm_free p a = Inr p' \<Longrightarrow> pmm_step p p'"
| step_use: "pmm_use p a = Inr p' \<Longrightarrow> pmm_step p p'"
| step_cow: "pmm_mark_cow p a flag = Inr p' \<Longrightarrow> pmm_step p p'"
| step_advanced: "pmm_alloc_advanced p len max_addr alignment = Inr (a, p') \<Longrightarrow> pmm_step p p'"

lemma adv_free_run_True:
  "adv_free_run bm i j frames = Inr True \<Longrightarrow>
   \<forall>k. j \<le> k \<and> k < frames \<longrightarrow> i + k < length bm \<and> bm ! (i + k) = 0"
proof (induction bm i j frames rule: adv_free_run.induct)
  case (1 bm i j frames)
  show ?case
  proof (cases "j < frames")
    case True
    with "1.prems" have j: "i + j < length bm" "bm ! (i + j) = 0"
        "adv_free_run bm i (Suc j) frames = Inr True"
      by (subst (asm) adv_free_run.simps, auto simp: outcome_simps split: if_splits)+
    then have "aget bm (i + j) = Inr (bm ! (i + j))" "\<not> bm ! (i + j) \<noteq> 0" by simp_all
    from "1.IH" [OF True this j(3)] j show ?thesis
      by (metis Suc_leI le_neq_implies_less)
  qed auto
qed

definition take_frames :: "u8 list \<Rightarrow> nat \<Rightarrow> nat \<Rightarrow> nat \<Rightarrow> u8 list" where
  "take_frames bm i j frames = map (\<lambda>k. if i + j \<le> k \<and> k < i + frames then 1 else bm ! k) [0..<length bm]"

lemma adv_reserve_free:
  "(\<And>k. j \<le> k \<Longrightarrow> k < frames \<Longrightarrow> i + k < length bm \<and> bm ! (i + k) = 0) \<Longrightarrow>
   adv_reserve bm i j frames = Inr (True, take_frames bm i j frames)"
proof (induction "frames - j" arbitrary: bm j)
  case 0
  then have "take_frames bm i j frames = bm"
    by (auto simp: take_frames_def intro!: nth_equalityI)
  with 0 show ?case by (subst adv_reserve.simps) simp
next
  case (Suc n)
  then have j: "j < frames" "i + j < length bm" "bm ! (i + j) = 0" by auto
  let ?bm = "bm[i + j := 1]"
  have "adv_reserve ?bm i (Suc j) frames = Inr (True, take_frames ?bm i (Suc j) frames)"
    using Suc.hyps(2) Suc.prems by (intro Suc.hyps(1)) auto
  moreover have "take_frames ?bm i (Suc j) frames = take_frames bm i j frames"
    using j by (auto simp: take_frames_def nth_list_update intro!: nth_equalityI)
  ultimately show ?case using j by (subst adv_reserve.simps) simp
qed

lemma pmm_alloc_advanced_from_cases:
  assumes "pmm_alloc_advanced_from p i lim frames al = Inr (a, p')"
  shows "(a = 0 \<and> p' = p) \<or> (\<exists>j. i \<le> j \<and> int j < lim \<and> a = frame_addr p j \<and> a AND al = 0
     \<and> (\<forall>k < max 1 frames. j + k < length (bitmap p) \<and> bitmap p ! (j + k) = 0)
     \<and> p' = p\<lparr>bitmap := take_frames (bitmap p) j 0 frames\<rparr>)"
  using assms
proof (induction "nat (lim - int i)" arbitrary: i)
  case 0
  then show ?case by (subst (asm) pmm_alloc_advanced_from.simps) auto
next
  case (Suc n)
  then have lim: "int i < lim" by simp
  note un = Suc.prems [unfolded pmm_alloc_advanced_from.simps [of p i lim frames al] if_P [OF lim]]
  show ?case
  proof (cases "pmm_alloc_advanced_from p (Suc i) lim frames al = Inr (a, p')")
    case True
    have "n = nat (lim - int (Suc i))" using Suc.hyps(2) by simp
    from Suc.hyps(1) [OF this True] show ?thesis
    proof (elim disjE exE conjE)
      fix j
      assume "Suc i \<le> j"
      then have "i \<le> j" by simp
      moreover assume "int j < lim" "a = frame_addr p j" "a AND al = 0"
        "\<forall>k < max 1 frames. j + k < length (bitmap p) \<and> bitmap p ! (j + k) = 0"
        "p' = p\<lparr>bitmap := take_frames (bitmap p) j 0 frames\<rparr>"
      ultimately show ?thesis by blast
    qed simp
  next
    case False
    then have here: "frame_addr p i AND al = 0" "i < length (bitmap p)" "bitmap p ! i = 0"
        "adv_free_run (bitmap p) i 1 frames = Inr True"
      using un False
      by (auto simp: Let_def aget_def rbind_def split: if_splits sum.splits)
    have free: "\<forall>k < max 1 frames. i + k < length (bitmap p) \<and> bitmap p ! (i + k) = 0"
    proof (intro allI impI)
      fix k
      assume k: "k < max 1 frames"
      show "i + k < length (bitmap p) \<and> bitmap p ! (i + k) = 0"
        using spec [OF adv_free_run_True [OF here(4)], of k] here(2,3) k by (cases "k = 0") auto
    qed
    then have "adv_reserve (bitmap p) i 0 frames = Inr (True, take_frames (bitmap p) i 0 frames)"
      by (intro adv_reserve_free) auto
    then have "a = frame_addr p i" "p' = p\<lparr>bitmap := take_frames (bitmap p) i 0 frames\<rparr>"
      using un here by (simp_all add: Let_def)
    with free here lim show ?thesis by auto
  qed
qed

lemma take_frames_nth:
  "k < length bm \<Longrightarrow> take_frames bm i 0 n ! k = (if i \<le> k \<and> k < i + n then 1 else bm ! k)"
  by (simp add: take_frames_def)

lemma length_take_frames [simp]: "length (take_frames bm i j n) = length bm"
  by (simp add: take_frames_def)

definition adv_frames :: "u32 \<Rightarrow> nat" where
  "adv_frames len = unat (drop_bit PAGE_SHIFT (len + PAGE_SIZE - 1))"

lemma pmm_alloc_advanced_eq:
  assumes "len \<noteq> 0"
  shows "pmm_alloc_advanced p len max_addr alignment =
    pmm_alloc_advanced_from p (look_from_here p)
      (min (int (mem_entries p))
        (sint (drop_bit PAGE_SHIFT max_addr - drop_bit PAGE_SHIFT (len + PAGE_SIZE - 1))))
      (adv_frames len) (push_bit alignment 1 - 1)"
proof -
  have "(if m < l then m else l) = min m l" for m l :: int by auto
  then show ?thesis
    unfolding pmm_alloc_advanced_def Let_def if_not_P [OF assms] adv_frames_def by (rule arg_cong)
qed

lemma pmm_alloc_advanced_InrE:
  assumes "pmm_alloc_advanced p len max_addr alignment = Inr (a, p')"
  obtains "a = 0" "p' = p"
  | j where "look_from_here p \<le> j" "a = frame_addr p j" "a AND (push_bit alignment 1 - 1) = 0"
      "j < length (bitmap p)"
      "\<forall>k < adv_frames len.
         j + k < length (bitmap p) \<and> bitmap p ! (j + k) = 0"
      "p' = p\<lparr>bitmap := take_frames (bitmap p) j 0
                (adv_frames len)\<rparr>"
proof (cases "len = 0")
  case True
  with assms that(1) show ?thesis by (simp add: pmm_alloc_advanced_def)
next
  case False
  from pmm_alloc_advanced_from_cases [OF assms [unfolded pmm_alloc_advanced_eq [OF False]]]
  show ?thesis
  proof (elim disjE exE conjE)
    fix j
    assume free: "\<forall>k < max 1 (adv_frames len).
        j + k < length (bitmap p) \<and> bitmap p ! (j + k) = 0"
    then have "j < length (bitmap p)" by (metis add.right_neutral less_one max_less_iff_conj
        less_max_iff_disj)
    moreover assume "look_from_here p \<le> j" "a = frame_addr p j"
      "a AND (push_bit alignment 1 - 1) = 0"
      "p' = p\<lparr>bitmap := take_frames (bitmap p) j 0
                (adv_frames len)\<rparr>"
    moreover have "\<forall>k < adv_frames len. j + k < length (bitmap p) \<and> bitmap p ! (j + k) = 0"
      using free by simp
    ultimately show ?thesis by (intro that(2))
  qed (rule that(1))
qed

lemma pmm_alloc_advanced_inv:
  "pmm_inv p \<Longrightarrow> pmm_alloc_advanced p len max_addr alignment = Inr (a, p') \<Longrightarrow> pmm_inv p'"
  by (erule pmm_alloc_advanced_InrE) (auto simp: pmm_inv_def take_frames_nth)

text \<open>
  C6: every operation of the allocator keeps the invariant (the bitmap has one byte per frame,
  the base is page aligned, no frame below the search hint is free), in any order of calls that do
  not panic.
\<close>

theorem pmm_reachable_inv:
  assumes "pmm_step\<^sup>*\<^sup>* p q" and "pmm_inv p"
  shows "pmm_inv q"
  using assms
proof (induction rule: rtranclp_induct)
  case (step q r)
  then show ?case
    by (auto elim!: pmm_step.cases
        dest: pmm_alloc_inv pmm_free_inv pmm_use_inv pmm_mark_cow_inv pmm_alloc_advanced_inv)
qed

theorem pmm_reachable_inv_witness:
  "pmm_inv (demo_pmm\<lparr>bitmap := [1, 0x7f, 1, 0], look_from_here := 2\<rparr>)"
proof -
  have "pmm_alloc demo_pmm =
      Inr (0x102000, demo_pmm\<lparr>bitmap := [1, 0x7f, 1, 0], look_from_here := 2\<rparr>)"
    by (simp add: demo_pmm_def pmm_alloc_def pmm_alloc_from.simps frame_addr_def PAGE_SHIFT_def)
  then have "pmm_step\<^sup>*\<^sup>* demo_pmm (demo_pmm\<lparr>bitmap := [1, 0x7f, 1, 0], look_from_here := 2\<rparr>)"
    by (intro r_into_rtranclp pmm_step.step_alloc)
  then show ?thesis using demo_pmm_inv by (rule pmm_reachable_inv)
qed

subsection \<open>Properties of block allocation\<close>

text \<open>a block returned by \<open>pmm_alloc_advanced\<close> is aligned as asked, all its frames were free, and
  afterwards exactly these frames have gained their first user.
\<close>

theorem pmm_alloc_advanced_block:
  assumes "pmm_inv p" and "pmm_alloc_advanced p len max_addr alignment = Inr (a, p')" and "a \<noteq> 0"
  shows "\<exists>j. a = frame_addr p j \<and> a AND (push_bit alignment 1 - 1) = 0
     \<and> (\<forall>k < adv_frames len. frame_free p (j + k))
     \<and> (\<forall>i < mem_entries p. bitmap p' ! i =
          (if j \<le> i \<and> i < j + adv_frames len then 1
           else bitmap p ! i))"
  using assms(2)
proof (cases rule: pmm_alloc_advanced_InrE)
  case (2 j)
  with assms(1) show ?thesis
    by (intro exI [of _ j]) (auto simp: pmm_inv_def frame_free_def take_frames_nth)
qed (use assms(3) in simp)

theorem pmm_alloc_advanced_block_witness:
  "pmm_alloc_advanced demo_pmm 0x2000 0xFFFFFFFF 13 =
     Inr (0x102000, demo_pmm\<lparr>bitmap := [1, 0x7f, 1, 1]\<rparr>)
   \<and> (\<exists>j. 0x102000 = frame_addr demo_pmm j \<and> frame_free demo_pmm (j + 1))"
proof -
  have r: "pmm_alloc_advanced demo_pmm 0x2000 0xFFFFFFFF 13 =
     Inr (0x102000, demo_pmm\<lparr>bitmap := [1, 0x7f, 1, 1]\<rparr>)"
    by (simp add: pmm_alloc_advanced_def demo_pmm_def page_consts pmm_alloc_advanced_from.simps
        frame_addr_def adv_free_run.simps adv_reserve.simps)
  have n: "adv_frames 0x2000 = 2" by (simp add: adv_frames_def page_consts)
  have "(0x102000 :: u32) \<noteq> 0" by simp
  from pmm_alloc_advanced_block [OF demo_pmm_inv r this, unfolded n]
  obtain j where j: "0x102000 = frame_addr demo_pmm j" "\<forall>k < 2. frame_free demo_pmm (j + k)"
    by blast
  have "frame_free demo_pmm (j + 1)" using spec [OF j(2), of 1] by simp
  with r j(1) show ?thesis by blast
qed

text \<open>
  The search limit of \<open>pmm_alloc_advanced\<close> does not keep a block inside the bitmap: when the
  last frame is the only free one, a request for at least two frames reads past the end of the
  array instead of failing.
\<close>

theorem pmm_alloc_advanced_overrun:
  assumes "pmm_inv p" and "mem_entries p = Suc m" and "frame_free p m" and "look_from_here p = m"
    and "2 \<le> adv_frames len" and "len \<noteq> 0"
    and "int m < sint (drop_bit PAGE_SHIFT max_addr - drop_bit PAGE_SHIFT (len + PAGE_SIZE - 1))"
  shows "pmm_alloc_advanced p len max_addr 0 = Inl OutOfBounds"
proof -
  let ?n = "adv_frames len"
  have "adv_free_run (bitmap p) m 1 ?n = Inl OutOfBounds"
    using assms by (subst adv_free_run.simps) (simp add: pmm_inv_def)
  then have "pmm_alloc_advanced_from p m (int (Suc m)) ?n 0 = Inl OutOfBounds"
    using assms(1-3)
    by (subst pmm_alloc_advanced_from.simps) (simp add: pmm_inv_def frame_free_def)
  moreover have "min (int (mem_entries p))
      (sint (drop_bit PAGE_SHIFT max_addr - drop_bit PAGE_SHIFT (len + PAGE_SIZE - 1))) = int (Suc m)"
    unfolding assms(2) using assms(7) by (intro min_absorb1) linarith
  ultimately show ?thesis
    unfolding pmm_alloc_advanced_eq [OF assms(6)] assms(4) by simp
qed

theorem pmm_alloc_advanced_overrun_witness:
  "pmm_alloc_advanced (demo_pmm\<lparr>bitmap := [1, 1, 1, 0], look_from_here := 3\<rparr>) 0x2000 0x1000000 0
     = Inl OutOfBounds"
proof -
  let ?p = "demo_pmm\<lparr>bitmap := [1, 1, 1, 0], look_from_here := 3\<rparr>"
  have "[1, 1, 1, 0 :: u8] ! i \<noteq> 0" if "i < 3" for i
  proof -
    from that have "i = 0 \<or> i = 1 \<or> i = 2" by auto
    then show ?thesis by auto
  qed
  then have "pmm_inv ?p"
    by (simp add: demo_pmm_def pmm_inv_def page_aligned_def PAGE_SIZE_def)
  then show ?thesis
    by (rule pmm_alloc_advanced_overrun [where m = 3])
       (simp_all add: demo_pmm_def frame_free_def page_consts adv_frames_def)
qed

text \<open>
  The address limit of \<open>pmm_alloc_advanced\<close> counts frames from the start of managed memory, not
  from address zero: a caller that asks for one page below \<open>0x2000\<close> is given the first managed
  frame, however high that lies.
\<close>

theorem pmm_alloc_advanced_limit_shifted:
  assumes "pmm_inv p" and "frame_free p 0" and "look_from_here p = 0"
  shows "pmm_alloc_advanced p PAGE_SIZE 0x2000 0
    = Inr (mem_base p, p\<lparr>bitmap := (bitmap p)[0 := 1]\<rparr>)"
proof -
  have "mem_entries p > 0" using assms(2) by (simp add: frame_free_def)
  moreover have "sint (1 :: u32) = 1" by simp
  ultimately show ?thesis
    using assms
    by (simp add: pmm_alloc_advanced_def Let_def page_consts pmm_inv_def frame_free_def
        pmm_alloc_advanced_from.simps [of p 0] adv_free_run.simps adv_reserve.simps frame_addr_def)
qed

theorem pmm_alloc_advanced_limit_shifted_witness:
  "\<exists>p'. pmm_alloc_advanced (demo_pmm\<lparr>bitmap := [0, 0, 0, 0], look_from_here := 0\<rparr>) PAGE_SIZE 0x2000 0
     = Inr (0x100000, p') \<and> \<not> (0x100000 :: u32) < 0x2000"
proof -
  let ?p = "demo_pmm\<lparr>bitmap := [0, 0, 0, 0], look_from_here := 0\<rparr>"
  have "pmm_inv ?p" "frame_free ?p 0" "look_from_here ?p = 0"
    by (simp_all add: demo_pmm_def pmm_inv_def frame_free_def page_aligned_def PAGE_SIZE_def)
  then show ?thesis
    using pmm_alloc_advanced_limit_shifted [of ?p] by (simp add: demo_pmm_def)
qed

subsection \<open>Properties of the initial state\<close>

lemma fill_range_nth:
  "length (fill_range bm lo hi v) = length bm"
  "k < length bm \<Longrightarrow> fill_range bm lo hi v ! k = (if lo \<le> k \<and> k < hi then v else bm ! k)"
proof -
  have "length (fold (\<lambda>bi bm. bm[bi := v]) is bm) = length bm" for "is"
    by (induction "is" arbitrary: bm) auto
  then show "length (fill_range bm lo hi v) = length bm" by (simp add: fill_range_def)
  have "k < length bm \<Longrightarrow>
      fold (\<lambda>bi bm. bm[bi := v]) is bm ! k = (if k \<in> set is then v else bm ! k)" for "is"
    by (induction "is" arbitrary: bm) (auto simp: nth_list_update)
  then show "k < length bm \<Longrightarrow> fill_range bm lo hi v ! k = (if lo \<le> k \<and> k < hi then v else bm ! k)"
    by (simp add: fill_range_def)
qed

lemma mark_usable_length: "length (mark_usable memsize mb n e bm) = length bm"
  by (cases e) (simp add: mark_usable_def Let_def fill_range_nth)

lemma fold_mark_usable_length: "length (fold (mark_usable memsize mb n) es bm) = length bm"
  by (induction es arbitrary: bm) (simp_all add: mark_usable_length)

text \<open>A region of the memory map as numbers: it does not wrap around, and it meets a frame.\<close>

definition region_ok :: "bool \<times> u32 \<times> u32 \<Rightarrow> bool" where
  "region_ok = (\<lambda>(usable, base, len). unat base + unat len + 4096 < 2 ^ 32)"

definition region_meets :: "u32 \<Rightarrow> nat \<Rightarrow> bool \<times> u32 \<times> u32 \<Rightarrow> bool" where
  "region_meets mb i = (\<lambda>(usable, base, len). usable
     \<and> unat base < unat mb + (i + 1) * 4096 \<and> unat mb + i * 4096 < unat base + unat len)"

lemma mark_usable_frees:
  assumes "region_ok e" "i < length bm" "mark_usable memsize mb n e bm ! i = 0"
  shows "bm ! i = 0 \<or> region_meets mb i e"
proof (rule disjCI)
  assume "\<not> region_meets mb i e"
  obtain u base len where e: "e = (u, base, len)" by (cases e)
  show "bm ! i = 0"
  proof (rule ccontr)
    assume nz: "bm ! i \<noteq> 0"
    have sum: "unat (base + len) = unat base + unat len"
      using assms(1) e by (intro unat_add_nowrap) (simp add: region_ok_def)
    have top: "unat (base + len + PAGE_SIZE - 1) = unat base + unat len + 4095"
      unfolding page_round using assms(1) e sum
      by (subst unat_add_nowrap) (simp_all add: region_ok_def)
    from assms(3) nz e have c: "u" "base + len > mb"
      by (auto simp: mark_usable_def Let_def split: if_splits)
    have "\<not> base + len + PAGE_SIZE - 1 < base" using top by (simp add: word_less_nat_alt)
    moreover have "mb \<le> base + len + PAGE_SIZE - 1"
      using c(2) sum top by (simp add: word_less_nat_alt word_le_nat_alt)
    ultimately have i: "i < unat (drop_bit 12 (base + len + PAGE_SIZE - 1 - mb))"
        "(if base > mb then unat (drop_bit 12 (base - mb)) else 0) \<le> i"
      using assms(2,3) nz e
      by (auto simp: mark_usable_def Let_def fill_range_nth PAGE_SHIFT_def split: if_splits)
    have "i < (unat base + unat len + 4095 - unat mb) div 4096"
      using i(1) \<open>mb \<le> base + len + PAGE_SIZE - 1\<close> top by (simp add: unat_drop_bit unat_sub)
    then have upper: "unat mb + i * 4096 < unat base + unat len" by linarith
    have "unat base < unat mb + (i + 1) * 4096"
    proof (cases "base > mb")
      case True
      with i(2) have "(unat base - unat mb) div 4096 \<le> i"
        by (simp add: unat_drop_bit unat_sub less_imp_le)
      then have "unat base - unat mb < (i + 1) * 4096"
        by (metis Suc_eq_plus1 div_less_iff_less_mult le_imp_less_Suc zero_less_numeral)
      then show ?thesis by linarith
    qed (auto simp: word_less_nat_alt)
    with upper c(1) e \<open>\<not> region_meets mb i e\<close> show False
      by (simp add: region_meets_def)
  qed
qed

lemma fold_mark_usable_frees:
  assumes "\<forall>e \<in> set es. region_ok e" "i < length bm"
    and "fold (mark_usable memsize mb n) es bm ! i = 0"
  shows "bm ! i = 0 \<or> (\<exists>e \<in> set es. region_meets mb i e)"
  using assms
proof (induction es arbitrary: bm)
  case (Cons e es)
  then have "mark_usable memsize mb n e bm ! i = 0 \<or> (\<exists>e \<in> set es. region_meets mb i e)"
    by (intro Cons.IH) (auto simp: mark_usable_length)
  with mark_usable_frees [of e i bm] Cons.prems show ?case by auto
qed simp

text \<open>The frame numbers between which the kernel image and, after it, the bitmap lie.\<close>

definition kernel_first :: "u32 \<Rightarrow> u32" where
  "kernel_first kernel_start = drop_bit PAGE_SHIFT (kernel_start - PHYS_BASE)"

definition kernel_top :: "u32 \<Rightarrow> nat \<Rightarrow> u32" where
  "kernel_top kernel_stop entries =
     drop_bit PAGE_SHIFT (kernel_stop - PHYS_BASE + PAGE_SIZE - 1)
       + drop_bit PAGE_SHIFT (of_nat entries + PAGE_SIZE - 1)"

lemma init_pmm_shape:
  obtains memsize where
    "page_aligned (mem_base (init_pmm mmap ks ke))" "mem_entries (init_pmm mmap ks ke) < 2 ^ 20"
    "look_from_here (init_pmm mmap ks ke) = 0"
    "bitmap (init_pmm mmap ks ke) =
      (let p = init_pmm mmap ks ke; mbp = drop_bit PAGE_SHIFT (mem_base p); n = mem_entries p;
           bm = fold (mark_usable memsize (mem_base p) n) mmap (replicate n 0xff)
       in if kernel_top ke n > mbp \<and> kernel_first ks < of_nat n + mbp
          then fill_range bm (nat (sint (kernel_first ks - mbp)))
                 (nat (min (int n) (sint (kernel_top ke n - mbp)))) BITMAP_USERS
          else bm)"
proof -
  obtain memsize mb where ext: "foldl memmap_extent_step (0, 0xFFFFFFFF) mmap = (memsize, mb)"
    by (cases "foldl memmap_extent_step (0, 0xFFFFFFFF) mmap")
  let ?n = "drop_bit PAGE_SHIFT (memsize - mb)"
  have n: "unat ?n < 2 ^ 20"
    using unsigned_less [of "memsize - mb", where ?'a = nat]
    by (simp add: PAGE_SHIFT_def unat_drop_bit less_mult_imp_div_less)
  have aligned: "page_aligned (x AND NOT (PAGE_SIZE - 1))" for x
    by (simp add: page_aligned_def and.assoc)
  have cut: "(if e > m then m else e) = min m e" for e m :: int by simp
  have wn: "of_nat (unat w) = w" for w :: u32 by simp
  have neg: "nat (if s < 0 then 0 else s) = nat s" for s :: int by simp
  show ?thesis
    by (rule that [of memsize])
       (use n in \<open>simp_all only: init_pmm_def ext Let_def prod.case pmm.simps aligned
          kernel_first_def kernel_top_def cut neg wn\<close>)
qed

lemma init_pmm_inv: "pmm_inv (init_pmm mmap ks ke)"
  by (rule init_pmm_shape [of mmap ks ke])
     (simp add: pmm_inv_def Let_def fill_range_nth fold_mark_usable_length)

lemma init_pmm_free_meets:
  assumes "\<forall>e \<in> set mmap. region_ok e" "frame_free (init_pmm mmap ks ke) i"
  shows "\<exists>e \<in> set mmap. region_meets (mem_base (init_pmm mmap ks ke)) i e"
proof -
  let ?p = "init_pmm mmap ks ke"
  obtain memsize where
    shape: "bitmap ?p = (let mbp = drop_bit PAGE_SHIFT (mem_base ?p); n = mem_entries ?p;
           bm = fold (mark_usable memsize (mem_base ?p) n) mmap (replicate n 0xff)
       in if kernel_top ke n > mbp \<and> kernel_first ks < of_nat n + mbp
          then fill_range bm (nat (sint (kernel_first ks - mbp)))
                 (nat (min (int n) (sint (kernel_top ke n - mbp)))) BITMAP_USERS
          else bm)"
    by (rule init_pmm_shape [of mmap ks ke]) (simp add: Let_def)
  let ?bm = "fold (mark_usable memsize (mem_base ?p) (mem_entries ?p)) mmap
      (replicate (mem_entries ?p) 0xff)"
  have i: "i < mem_entries ?p" and z: "bitmap ?p ! i = 0"
    using assms(2) by (simp_all add: frame_free_def)
  have "?bm ! i = 0"
    using z i unfolding shape
    by (auto simp: Let_def fill_range_nth fold_mark_usable_length bitmap_masks split: if_splits)
  then have "replicate (mem_entries ?p) 0xff ! i = (0 :: u8)
      \<or> (\<exists>e \<in> set mmap. region_meets (mem_base ?p) i e)"
    using assms(1) i by (intro fold_mark_usable_frees) auto
  with i show ?thesis by simp
qed

text \<open>
  C34: after initialisation from a memory map without wrap-around, the allocator invariant holds
  and every frame it considers free meets a region the map calls usable.
\<close>

theorem init_pmm_free_usable:
  assumes "\<forall>e \<in> set mmap. region_ok e"
  shows "pmm_inv (init_pmm mmap ks ke) \<and>
    (\<forall>i. frame_free (init_pmm mmap ks ke) i \<longrightarrow>
      (\<exists>base len. (True, base, len) \<in> set mmap
        \<and> unat base < unat (mem_base (init_pmm mmap ks ke)) + (i + 1) * 4096
        \<and> unat (mem_base (init_pmm mmap ks ke)) + i * 4096 < unat base + unat len))"
  using init_pmm_inv init_pmm_free_meets [OF assms] by (fastforce simp: region_meets_def)

definition demo_memmap :: memmap where
  "demo_memmap = [(True, 0, 0x9fc00), (False, 0x9fc00, 0x400), (True, 0x100000, 0x8000)]"

theorem init_pmm_free_usable_witness:
  "pmm_inv (init_pmm demo_memmap 0xF0100000 0xF0102800)"
proof -
  have "\<forall>e \<in> set demo_memmap. region_ok e"
    by (simp add: demo_memmap_def region_ok_def)
  from init_pmm_free_usable [OF this] show ?thesis by blast
qed

lemma unat_drop_page: "unat (drop_bit PAGE_SHIFT (w :: u32)) < 2 ^ 20"
  using unsigned_less [of w, where ?'a = nat]
  by (simp add: PAGE_SHIFT_def unat_drop_bit less_mult_imp_div_less)

lemma kernel_top_bound: "unat (kernel_top ke n) < 2 ^ 21"
  using unat_drop_page [of "ke - PHYS_BASE + PAGE_SIZE - 1"] unat_drop_page [of "of_nat n + PAGE_SIZE - 1"]
  unfolding kernel_top_def by (subst unat_add_nowrap) simp_all

text \<open>
  After initialisation no frame of the kernel image, nor of the bitmap placed right behind it,
  is free: whatever the memory map says, those frames carry the saturated user count.
\<close>

theorem init_pmm_kernel_reserved:
  assumes "i < mem_entries (init_pmm mmap ks ke)"
    and "unat (kernel_first ks) \<le> unat (mem_base (init_pmm mmap ks ke)) div 4096 + i"
    and "unat (mem_base (init_pmm mmap ks ke)) div 4096 + i
           < unat (kernel_top ke (mem_entries (init_pmm mmap ks ke)))"
  shows "bitmap (init_pmm mmap ks ke) ! i = BITMAP_USERS"
proof -
  let ?p = "init_pmm mmap ks ke"
  let ?n = "mem_entries ?p" and ?mbp = "drop_bit PAGE_SHIFT (mem_base ?p)"
  obtain memsize where n: "?n < 2 ^ 20" and
    shape: "bitmap ?p =
      (let bm = fold (mark_usable memsize (mem_base ?p) ?n) mmap (replicate ?n 0xff)
       in if kernel_top ke ?n > ?mbp \<and> kernel_first ks < of_nat ?n + ?mbp
          then fill_range bm (nat (sint (kernel_first ks - ?mbp)))
                 (nat (min (int ?n) (sint (kernel_top ke ?n - ?mbp)))) BITMAP_USERS
          else bm)"
    by (rule init_pmm_shape [of mmap ks ke]) (simp add: Let_def)
  have mbp: "unat ?mbp = unat (mem_base ?p) div 4096"
    by (simp add: PAGE_SHIFT_def unat_drop_bit)
  have sum: "unat (of_nat ?n + ?mbp :: u32) = ?n + unat ?mbp"
    using n unat_drop_page [of "mem_base ?p"]
    by (subst unat_add_nowrap) (simp_all add: unat_of_nat)
  have s: "sint (kernel_first ks - ?mbp) = int (unat (kernel_first ks)) - int (unat ?mbp)"
    using unat_drop_page [of "ks - PHYS_BASE"] unat_drop_page [of "mem_base ?p"]
    by (intro sint_diff_small) (simp_all add: kernel_first_def)
  have e: "sint (kernel_top ke ?n - ?mbp) = int (unat (kernel_top ke ?n)) - int (unat ?mbp)"
    using kernel_top_bound [of ke ?n] unat_drop_page [of "mem_base ?p"]
    by (intro sint_diff_small) simp_all
  have "kernel_top ke ?n > ?mbp" "kernel_first ks < of_nat ?n + ?mbp"
    using assms by (simp_all only: word_less_nat_alt sum mbp)
  moreover have "nat (int (unat (kernel_first ks)) - int (unat ?mbp)) \<le> i"
    "i < nat (min (int ?n) (int (unat (kernel_top ke ?n)) - int (unat ?mbp)))"
    using assms by (simp_all only: mbp)
  ultimately show ?thesis
    using assms(1) unfolding shape Let_def s e
    by (simp only: if_True simp_thms fill_range_nth fold_mark_usable_length length_replicate)
qed

theorem init_pmm_kernel_reserved_witness:
  "bitmap (init_pmm [(True, 0x100000, 0x8000)] 0xF0100000 0xF0102800) ! 0 = 0x7f"
proof -
  let ?p = "init_pmm [(True, 0x100000, 0x8000)] 0xF0100000 0xF0102800"
  have "mem_entries ?p = 8" "mem_base ?p = 0x103000"
    by (simp_all add: init_pmm_def memmap_extent_step_def page_consts PHYS_BASE_def Let_def)
  then show ?thesis
    using init_pmm_kernel_reserved [of 0 "[(True, 0x100000, 0x8000)]" "0xF0100000" "0xF0102800"]
    by (simp add: kernel_first_def kernel_top_def page_consts PHYS_BASE_def bitmap_masks)
qed

end
