(* ===== verification/Kheap.thy ===== *)
theory Kheap
  imports Pmm
begin

text \<open>
  The kernel's own address space and heap: the page table window \<open>kpt\<close> above \<open>HMEM_BASE\<close> with
  \<open>kernel_map\<close>, \<open>kernel_map_nc\<close> and \<open>kernel_unmap\<close> (\<open>src/kernel/arch/i386/mmu/vmem.c\<close>), and
  \<open>kmalloc\<close>, \<open>kfree\<close>, \<open>krealloc\<close> on top of it (\<open>src/kernel/common/memory/kmalloc.c\<close>). The table is
  the list of its entries; NULL is the address 0. The critical sections under \<open>kpt_lock\<close> are
  executed as one step, and TLB invalidation has no counterpart.
\<close>

definition HMEM_BASE :: u32 where "HMEM_BASE = 0xF0400000"
definition UNMP_BASE :: u32 where "UNMP_BASE = 0xFFC00000"

definition MAP_PR :: u32 where "MAP_PR = 1"
definition MAP_NP :: u32 where "MAP_NP = 0"
definition MAP_RW :: u32 where "MAP_RW = 2"
definition MAP_US :: u32 where "MAP_US = 4"
definition MAP_NC :: u32 where "MAP_NC = 16"
definition MAP_4M :: u32 where "MAP_4M = 128"
definition MAP_GB :: u32 where "MAP_GB = 256"

definition KPT_ENTRIES :: nat where
  "KPT_ENTRIES = unat (drop_bit 12 (UNMP_BASE - HMEM_BASE))"

lemmas map_flags = MAP_PR_def MAP_NP_def MAP_RW_def MAP_US_def MAP_NC_def MAP_4M_def MAP_GB_def

type_synonym kpt = "u32 list"

definition kpte :: "u32 \<Rightarrow> u32" where
  "kpte phys = phys OR MAP_PR OR MAP_RW OR MAP_GB"

text \<open>The inner loops: the run of free entries from \<open>i\<close>, and writing consecutive entries.\<close>

function kpt_run :: "kpt \<Rightarrow> nat \<Rightarrow> nat \<Rightarrow> nat \<Rightarrow> nat outcome" where
  "kpt_run k i j pages =
     (if j < pages then
        rbind (aget k (i + j)) (\<lambda>e. if e \<noteq> MAP_NP then Inr j else kpt_run k i (Suc j) pages)
      else Inr j)"
  by pat_completeness auto
termination
  by (relation "measure (\<lambda>(k, i, j, pages). pages - j)") auto

declare kpt_run.simps [simp del]

fun kpt_store :: "kpt \<Rightarrow> nat \<Rightarrow> u32 list \<Rightarrow> kpt outcome" where
  "kpt_store k i [] = Inr k"
| "kpt_store k i (v # vs) = rbind (aset k i v) (\<lambda>k'. kpt_store k' (Suc i) vs)"

function kernel_map_from :: "kpt \<Rightarrow> nat \<Rightarrow> u32 \<Rightarrow> u32 \<Rightarrow> nat \<Rightarrow> (u32 \<times> kpt) outcome" where
  "kernel_map_from k i phys off pages =
     (if i < KPT_ENTRIES then
        rbind (aget k i) (\<lambda>e.
          if e = MAP_NP then
            rbind (kpt_run k i 0 pages) (\<lambda>j.
            rbind (aget k (i + j)) (\<lambda>e'.
              if e' \<noteq> MAP_NP then kernel_map_from k (Suc (i + j)) phys off pages
              else
                rbind (kpt_store k i (map (\<lambda>j. kpte (phys + of_nat j * 4096)) [0..<pages])) (\<lambda>k'.
                  Inr (HMEM_BASE + of_nat i * 4096 + off, k'))))
          else kernel_map_from k (Suc i) phys off pages)
      else Inr (0, k))"
  by pat_completeness auto
termination
  by (relation "measure (\<lambda>(k, i, phys, off, pages). KPT_ENTRIES - i)") auto

declare kernel_map_from.simps [simp del]

definition kernel_map :: "kpt \<Rightarrow> u32 \<Rightarrow> u32 \<Rightarrow> (u32 \<times> kpt) outcome" where
  "kernel_map k phys len =
     (if phys + len \<le> HMEM_BASE - PHYS_BASE then Inr (phys OR PHYS_BASE, k)
      else
        let off = phys AND 0xFFF; phys = phys AND NOT 0xFFF;
            pages = unat (drop_bit 12 (len + off + 4095))
        in kernel_map_from k 0 phys off pages)"

function kernel_map_nc_from :: "kpt \<Rightarrow> nat \<Rightarrow> u32 list \<Rightarrow> (u32 \<times> kpt) outcome" where
  "kernel_map_nc_from k i pageframe_list =
     (if i < KPT_ENTRIES then
        rbind (aget k i) (\<lambda>e.
          if e = MAP_NP then
            (if length pageframe_list = 1 then
               rbind (aset k i (kpte (hd pageframe_list))) (\<lambda>k'.
                 Inr (HMEM_BASE + of_nat i * 4096, k'))
             else
               rbind (kpt_run k i 0 (length pageframe_list)) (\<lambda>j.
               rbind (aget k (i + j)) (\<lambda>e'.
                 if e' \<noteq> MAP_NP then kernel_map_nc_from k (Suc (i + j)) pageframe_list
                 else
                   rbind (kpt_store k i (map kpte pageframe_list)) (\<lambda>k'.
                     Inr (HMEM_BASE + of_nat i * 4096, k')))))
          else kernel_map_nc_from k (Suc i) pageframe_list)
      else Inr (0, k))"
  by pat_completeness auto
termination
  by (relation "measure (\<lambda>(k, i, l). KPT_ENTRIES - i)") auto

declare kernel_map_nc_from.simps [simp del]

definition kernel_map_nc :: "kpt \<Rightarrow> u32 list \<Rightarrow> (u32 \<times> kpt) outcome" where
  "kernel_map_nc k pageframe_list = kernel_map_nc_from k 0 pageframe_list"

definition kernel_unmap :: "kpt \<Rightarrow> u32 \<Rightarrow> u32 \<Rightarrow> (u32 \<times> kpt) outcome" where
  "kernel_unmap k virt len =
     (if virt < HMEM_BASE then Inr (virt, k)
      else
        let bi = unat (drop_bit 12 (virt - HMEM_BASE));
            pages = unat (drop_bit 12 (len + (virt AND 0xFFF) + 4095))
        in rbind (aget k bi) (\<lambda>e.
           let phys = (e AND NOT 0xFFF) OR (virt AND 0xFFF)
           in rbind (kpt_store k bi (replicate pages MAP_NP)) (\<lambda>k'. Inr (phys, k'))))"

subsection \<open>The heap\<close>

text \<open>
  A heap block starts on a page boundary with the size word, the payload follows. \<open>kmem\<close> is the
  kernel memory state: the frame allocator, the window, and the size words by address.
\<close>

record kmem =
  km_pmm :: pmm
  km_kpt :: kpt
  km_size :: "u32 \<rightharpoonup> u32"

definition kmalloc :: "kmem \<Rightarrow> u32 \<Rightarrow> (u32 \<times> kmem) outcome" where
  "kmalloc m sz =
     (let sz = sz + 4;
          frame_count = unat (drop_bit PAGE_SHIFT (sz + PAGE_SIZE))
      in rbind (alloc_many pmm_alloc frame_count (km_pmm m)) (\<lambda>(pageframes, p).
         rbind (kernel_map_nc (km_kpt m) pageframes) (\<lambda>(mem, k).
           if mem = 0 then Inl BadPointer
           else Inr (mem + 4, m\<lparr>km_pmm := p, km_kpt := k, km_size := (km_size m)(mem \<mapsto> sz)\<rparr>))))"

fun kfree_pages :: "pmm \<Rightarrow> kpt \<Rightarrow> u32 \<Rightarrow> nat list \<Rightarrow> (pmm \<times> kpt) outcome" where
  "kfree_pages p k ptr [] = Inr (p, k)"
| "kfree_pages p k ptr (i # is) =
     rbind (kernel_unmap k (ptr + push_bit PAGE_SHIFT (of_nat i)) PAGE_SIZE) (\<lambda>(phys, k').
     rbind (pmm_free p phys) (\<lambda>p'. kfree_pages p' k' ptr is))"

definition kfree :: "kmem \<Rightarrow> u32 \<Rightarrow> kmem outcome" where
  "kfree m ptr =
     (if ptr = 0 then Inr m
      else
        let ptr = ptr - 4 in
        rbind (kassert (ptr AND 0xFFF = 0)) (\<lambda>_.
          case km_size m ptr of
            None \<Rightarrow> Inl BadPointer
          | Some sz \<Rightarrow>
              let frame_count = unat (drop_bit PAGE_SHIFT (sz + PAGE_SIZE)) in
              rbind (kfree_pages (km_pmm m) (km_kpt m) ptr [0..<frame_count]) (\<lambda>(p, k).
                Inr (m\<lparr>km_pmm := p, km_kpt := k, km_size := (km_size m)(ptr := None)\<rparr>))))"

text \<open>The third component of the result is the number of bytes copied into the new block.\<close>

definition krealloc :: "kmem \<Rightarrow> u32 \<Rightarrow> u32 \<Rightarrow> (u32 \<times> kmem \<times> u32) outcome" where
  "krealloc m ptr sz =
     (if ptr = 0 then rbind (kmalloc m sz) (\<lambda>(a, m'). Inr (a, m', 0))
      else
        let szptr = ptr - 4 in
        rbind (kassert (szptr AND 0xFFF = 0)) (\<lambda>_.
          case km_size m szptr of
            None \<Rightarrow> Inl BadPointer
          | Some csz \<Rightarrow>
              if sz < csz then Inr (ptr, m, 0)
              else
                let old_frame_count = drop_bit PAGE_SHIFT (csz + PAGE_SIZE);
                    new_frame_count = drop_bit PAGE_SHIFT (sz + PAGE_SIZE)
                in if old_frame_count = new_frame_count
                   then Inr (ptr, m\<lparr>km_size := (km_size m)(szptr \<mapsto> sz)\<rparr>, 0)
                   else rbind (kmalloc m sz) (\<lambda>(nptr, m'). Inr (nptr, m', csz))))"

subsection \<open>The window loops\<close>

lemma kpt_run_Inr:
  assumes "kpt_run k i j pages = Inr r" "j \<le> pages"
  shows "j \<le> r \<and> r \<le> pages \<and> (\<forall>x. j \<le> x \<and> x < r \<longrightarrow> i + x < length k \<and> k ! (i + x) = MAP_NP)
     \<and> (r < pages \<longrightarrow> i + r < length k \<and> k ! (i + r) \<noteq> MAP_NP)"
  using assms
proof (induction "pages - j" arbitrary: j)
  case 0
  then show ?case by (subst (asm) kpt_run.simps) auto
next
  case (Suc n)
  note un = Suc.prems(1) [unfolded kpt_run.simps [of k i j]]
  from Suc.hyps(2) have j: "j < pages" by simp
  show ?case
  proof (cases "i + j < length k \<and> k ! (i + j) = MAP_NP")
    case True
    with un j have "kpt_run k i (Suc j) pages = Inr r" by simp
    with Suc.hyps j have IH: "Suc j \<le> r \<and> r \<le> pages
        \<and> (\<forall>x. Suc j \<le> x \<and> x < r \<longrightarrow> i + x < length k \<and> k ! (i + x) = MAP_NP)
        \<and> (r < pages \<longrightarrow> i + r < length k \<and> k ! (i + r) \<noteq> MAP_NP)"
      by (intro Suc.hyps(1)) auto
    with True show ?thesis by (metis Suc_leD Suc_leI le_neq_implies_less)
  next
    case False
    with un j have "r = j" "i + j < length k" "k ! (i + j) \<noteq> MAP_NP"
      by (auto simp: outcome_simps split: if_splits)
    with j show ?thesis by auto
  qed
qed

lemma kpt_store_eq:
  "i + length vs \<le> length k \<Longrightarrow> kpt_store k i vs = Inr (take i k @ vs @ drop (i + length vs) k)"
proof (induction vs arbitrary: k i)
  case (Cons v vs)
  then have "kpt_store (k[i := v]) (Suc i) vs =
      Inr (take (Suc i) (k[i := v]) @ vs @ drop (Suc i + length vs) (k[i := v]))"
    by (intro Cons.IH) simp
  with Cons.prems show ?case
    by (simp add: take_Suc_conv_app_nth drop_update_cancel)
qed simp

lemma kpt_store_Inr:
  "kpt_store k i vs = Inr k' \<Longrightarrow> vs \<noteq> [] \<Longrightarrow> i + length vs \<le> length k"
proof (induction vs arbitrary: k i)
  case (Cons v vs)
  then have "i < length k" "kpt_store (k[i := v]) (Suc i) vs = Inr k'"
    by (auto simp: outcome_simps)
  with Cons.IH [of "k[i := v]" "Suc i"] show ?case by (cases "vs = []") auto
qed simp

lemma kpt_store_nth:
  assumes "i + length vs \<le> length k" "kpt_store k i vs = Inr k'"
  shows "length k' = length k"
    and "x < length k \<Longrightarrow> k' ! x = (if i \<le> x \<and> x < i + length vs then vs ! (x - i) else k ! x)"
  using assms by (auto simp: kpt_store_eq nth_append)

lemma kpt_store_undo:
  assumes "i + length vs \<le> length k" "\<forall>x < length vs. k ! (i + x) = MAP_NP"
    and "kpt_store k i vs = Inr k'"
  shows "kpt_store k' i (replicate (length vs) MAP_NP) = Inr k"
proof -
  let ?z = "replicate (length vs) MAP_NP"
  have len: "length k' = length k" using kpt_store_nth(1) [OF assms(1,3)] .
  then have st: "kpt_store k' i ?z = Inr (take i k' @ ?z @ drop (i + length ?z) k')"
    using assms(1) by (intro kpt_store_eq) simp
  have "take i k' @ ?z @ drop (i + length ?z) k' = k"
  proof (rule nth_equalityI)
    fix x
    assume "x < length (take i k' @ ?z @ drop (i + length ?z) k')"
    then have x: "x < length k" using len assms(1) by simp
    show "(take i k' @ ?z @ drop (i + length ?z) k') ! x = k ! x"
      using x len assms(1,2) kpt_store_nth(2) [OF assms(1,3) x] spec [OF assms(2), of "x - i"]
      by (auto simp: nth_append)
  qed (use len assms(1) in simp)
  with st show ?thesis by simp
qed

text \<open>\<open>window_at\<close>: the entries from \<open>n\<close> were free and now hold \<open>vs\<close>, seen at the address \<open>v\<close>.\<close>

definition window_at :: "kpt \<Rightarrow> u32 list \<Rightarrow> u32 \<Rightarrow> u32 \<Rightarrow> kpt \<Rightarrow> nat \<Rightarrow> bool" where
  "window_at k vs off v k' n \<longleftrightarrow> n < KPT_ENTRIES \<and> v = HMEM_BASE + of_nat n * 4096 + off
     \<and> n + length vs \<le> length k \<and> (\<forall>x < length vs. k ! (n + x) = MAP_NP) \<and> kpt_store k n vs = Inr k'"

lemma kernel_map_from_Inr:
  assumes "kernel_map_from k i phys off pages = Inr (v, k')"
  shows "(v = 0 \<and> k' = k) \<or>
    (\<exists>n \<ge> i. window_at k (map (\<lambda>j. kpte (phys + of_nat j * 4096)) [0..<pages]) off v k' n)"
  using assms
proof (induction "KPT_ENTRIES - i" arbitrary: i rule: less_induct)
  case less
  note un = less.prems [unfolded kernel_map_from.simps [of k i]]
  show ?case
  proof (cases "i < KPT_ENTRIES")
    case False
    with un show ?thesis by auto
  next
    case True
    then have i: "i < length k" using un by (auto simp: outcome_simps aget_def split: if_splits)
    show ?thesis
    proof (cases "k ! i = MAP_NP")
      case False
      with un True i have rec: "kernel_map_from k (Suc i) phys off pages = Inr (v, k')" by simp
      have "KPT_ENTRIES - Suc i < KPT_ENTRIES - i" using True by simp
      from less.hyps [OF this rec] show ?thesis by (meson Suc_leD)
    next
      case np: True
      with un True i obtain j where j: "kpt_run k i 0 pages = Inr j" "i + j < length k"
        by (auto simp: outcome_simps)
      show ?thesis
      proof (cases "k ! (i + j) = MAP_NP")
        case False
        with un True i np j have rec: "kernel_map_from k (Suc (i + j)) phys off pages = Inr (v, k')"
          by simp
        have "KPT_ENTRIES - Suc (i + j) < KPT_ENTRIES - i" using True by simp
        from less.hyps [OF this rec] show ?thesis by (meson Suc_leD add_leD1)
      next
        case free: True
        with kpt_run_Inr [OF j(1)] have all: "j = pages"
          "\<forall>x < pages. i + x < length k \<and> k ! (i + x) = MAP_NP"
          by (auto simp: le_less)
        moreover have "kpt_store k i (map (\<lambda>j. kpte (phys + of_nat j * 4096)) [0..<pages]) = Inr k'"
          "v = HMEM_BASE + of_nat i * 4096 + off"
          using un True i np j free by (auto simp: outcome_simps)
        ultimately show ?thesis using True j(2) by (auto simp: window_at_def)
      qed
    qed
  qed
qed

subsection \<open>Mapping and unmapping\<close>

lemma and_FFF: "x AND 0xFFF = take_bit 12 (x :: u32)"
  by (simp add: take_bit_eq_mask mask_eq_exp_minus_1)

lemma and_not_FFF: "x AND NOT 0xFFF = x - take_bit 12 (x :: u32)"
  using word_and_not_mask [of x 12] by (simp add: mask_eq_exp_minus_1)

lemma take_bit_aligned: "page_aligned a \<Longrightarrow> take_bit 12 a = 0"
  by (simp add: page_aligned_def page_mask take_bit_eq_mask)

lemma page_aligned_and_not: "page_aligned (x AND NOT 0xFFF)"
  by (simp add: page_aligned_def PAGE_SIZE_def and.assoc)

lemma kpte_frame: "page_aligned a \<Longrightarrow> kpte a AND NOT 0xFFF = a"
proof -
  assume a: "page_aligned a"
  have "kpte a AND NOT 0xFFF = (a OR 0x103) AND NOT 0xFFF"
    by (simp add: kpte_def map_flags)
  also have "\<dots> = (a AND NOT 0xFFF) OR (0x103 AND NOT 0xFFF)"
    by (rule bit.conj_disj_distrib2)
  also have "0x103 AND NOT 0xFFF = (0 :: u32)" by simp
  also have "(a AND NOT 0xFFF) OR 0 = a"
    by (simp only: and_not_FFF take_bit_aligned [OF a] diff_zero or.right_neutral)
  finally show ?thesis .
qed

lemma kernel_map_nc_from_Inr:
  assumes "kernel_map_nc_from k i fs = Inr (v, k')" "fs \<noteq> []"
  shows "(v = 0 \<and> k' = k) \<or> (\<exists>n \<ge> i. window_at k (map kpte fs) 0 v k' n)"
  using assms(1)
proof (induction "KPT_ENTRIES - i" arbitrary: i rule: less_induct)
  case less
  note un = less.prems [unfolded kernel_map_nc_from.simps [of k i]]
  show ?case
  proof (cases "i < KPT_ENTRIES \<and> i < length k \<and> k ! i = MAP_NP")
    case False
    show ?thesis
    proof (cases "i < KPT_ENTRIES")
      case True
      with False un have rec: "kernel_map_nc_from k (Suc i) fs = Inr (v, k')"
        by (auto simp: outcome_simps aget_def split: if_splits)
      have "KPT_ENTRIES - Suc i < KPT_ENTRIES - i" using True by simp
      from less.hyps [OF this rec] show ?thesis by (meson Suc_leD)
    qed (use un in auto)
  next
    case i: True
    show ?thesis
    proof (cases "length fs = 1")
      case True
      then obtain f where "fs = [f]" by (cases fs) auto
      with un i have "v = HMEM_BASE + of_nat i * 4096" "k' = k[i := kpte f]" by auto
      with i \<open>fs = [f]\<close> show ?thesis by (auto simp: window_at_def)
    next
      case False
      with un i obtain j where j: "kpt_run k i 0 (length fs) = Inr j" "i + j < length k"
        by (auto simp: outcome_simps)
      show ?thesis
      proof (cases "k ! (i + j) = MAP_NP")
        case free: True
        with kpt_run_Inr [OF j(1)] have "j = length fs"
          "\<forall>x < length fs. i + x < length k \<and> k ! (i + x) = MAP_NP"
          by (auto simp: le_less)
        moreover have "kpt_store k i (map kpte fs) = Inr k'" "v = HMEM_BASE + of_nat i * 4096"
          using un i False j free by (auto simp: outcome_simps)
        ultimately show ?thesis using i j(2) by (auto simp: window_at_def)
      next
        case nf: False
        with un i False j have rec: "kernel_map_nc_from k (Suc (i + j)) fs = Inr (v, k')"
          by simp
        have "KPT_ENTRIES - Suc (i + j) < KPT_ENTRIES - i" using i by linarith
        from less.hyps [OF this rec] show ?thesis by (meson Suc_leD add_leD1)
      qed
    qed
  qed
qed

lemma KPT_ENTRIES_eq: "KPT_ENTRIES = 63488"
  by (simp add: KPT_ENTRIES_def UNMP_BASE_def HMEM_BASE_def)

lemma window_virt:
  assumes "n < KPT_ENTRIES" "off < 4096"
  shows "unat (HMEM_BASE + of_nat n * 4096 + off) = 0xF0400000 + n * 4096 + unat off"
proof -
  have "n < 63488" using assms(1) by (simp add: KPT_ENTRIES_eq)
  moreover have "unat off < 4096" using assms(2) by (simp add: word_less_nat_alt)
  moreover have "unat (of_nat n * 4096 :: u32) = n * 4096"
    using \<open>n < 63488\<close> by (simp add: unat_word_ariths unat_of_nat)
  moreover have "unat HMEM_BASE = 0xF0400000" by (simp add: HMEM_BASE_def)
  ultimately show ?thesis
    by (subst unat_add_nowrap; (subst unat_add_nowrap)?; simp)
qed

lemma window_virt_decode:
  assumes "n < KPT_ENTRIES" "off < 4096" "v = HMEM_BASE + of_nat n * 4096 + off"
  shows "\<not> v < HMEM_BASE" "unat (drop_bit 12 (v - HMEM_BASE)) = n" "v AND 0xFFF = off"
proof -
  have off: "unat off < 4096" using assms(2) by (simp add: word_less_nat_alt)
  note v = window_virt [OF assms(1,2), folded assms(3)]
  have h: "unat HMEM_BASE = 0xF0400000" by (simp add: HMEM_BASE_def)
  show "\<not> v < HMEM_BASE" using v h by (simp add: word_less_nat_alt)
  have "unat (v - HMEM_BASE) = n * 4096 + unat off"
    using v h by (subst unat_sub) (simp_all add: word_le_nat_alt)
  then show "unat (drop_bit 12 (v - HMEM_BASE)) = n"
    using off by (simp add: unat_drop_bit)
  have "unat (v AND 0xFFF) = unat off"
    using v off unat_take_bit [of 12 v] by (simp add: and_FFF mod_add_eq [symmetric])
  then show "v AND 0xFFF = off" by (simp only: word_unat_eq_iff)
qed

lemma kernel_unmap_window:
  assumes "window_at k vs off v k' n" "off < 4096" "vs \<noteq> []"
    and "unat (drop_bit 12 (len + off + 4095)) = length vs"
  shows "kernel_unmap k' v len = Inr ((hd vs AND NOT 0xFFF) OR off, k)"
proof -
  from assms(1) have w: "n < KPT_ENTRIES" "v = HMEM_BASE + of_nat n * 4096 + off"
      "n + length vs \<le> length k" "\<forall>x < length vs. k ! (n + x) = MAP_NP" "kpt_store k n vs = Inr k'"
    by (auto simp: window_at_def)
  note d = window_virt_decode [OF w(1) assms(2) w(2)]
  have "n < length k" using w(3) assms(3) by (cases vs) auto
  then have "aget k' n = Inr (hd vs)"
    using kpt_store_nth(1) [OF w(3,5)] kpt_store_nth(2) [OF w(3,5), of n] assms(3)
    by (cases vs) auto
  moreover have "kpt_store k' n (replicate (length vs) MAP_NP) = Inr k"
    using w(3-5) by (rule kpt_store_undo)
  ultimately show ?thesis
    using d assms(4) by (simp add: kernel_unmap_def Let_def)
qed

text \<open>
  A window opened by \<open>kernel_map\<close> above the directly mapped memory only uses entries that were
  free, and \<open>kernel_unmap\<close> of the same length returns the physical address and restores the page
  table exactly.
\<close>

theorem kernel_map_unmap:
  assumes "kernel_map k phys len = Inr (v, k')" and "v \<noteq> 0"
    and "\<not> phys + len \<le> HMEM_BASE - PHYS_BASE" and "0 < unat len" and "unat len + 8190 < 2 ^ 32"
  shows "kernel_unmap k' v len = Inr (phys, k)"
proof -
  let ?off = "phys AND 0xFFF" and ?base = "phys AND NOT 0xFFF"
  let ?n = "unat (drop_bit 12 (len + ?off + 4095))"
  let ?vs = "map (\<lambda>j. kpte (?base + of_nat j * 4096)) [0..<?n]"
  have off: "unat ?off < 4096" using unat_take_bit [of 12 phys] by (simp add: and_FFF)
  then have "?off < 4096" by (simp add: word_less_nat_alt)
  from assms(1-3) kernel_map_from_Inr [of k 0 ?base ?off ?n v k'] obtain n where
    w: "window_at k ?vs ?off v k' n"
    by (auto simp: kernel_map_def Let_def)
  have "unat (len + ?off + 4095) = unat len + unat ?off + 4095"
    using assms(5) off by (subst unat_add_nowrap; (subst unat_add_nowrap)?; simp)
  then have pos: "0 < ?n" using assms(4) by (simp add: unat_drop_bit div_greater_zero_iff)
  then have hd: "hd ?vs = kpte ?base" by (simp add: hd_map)
  have "(?base) OR ?off = phys"
    by (metis bit.conj_disj_distrib bit.disj_cancel_left and.right_neutral)
  then have "(hd ?vs AND NOT 0xFFF) OR ?off = phys"
    unfolding hd by (simp only: kpte_frame [OF page_aligned_and_not])
  moreover have "kernel_unmap k' v len = Inr ((hd ?vs AND NOT 0xFFF) OR ?off, k)"
    using w \<open>?off < 4096\<close> pos by (intro kernel_unmap_window) simp_all
  ultimately show ?thesis by simp
qed

text \<open>The kernel page table has its full length on entry; \<open>arch_init_virtual_memory\<close> clears it.\<close>

theorem kernel_map_unmap_witness:
  "\<exists>v k'. kernel_map (replicate KPT_ENTRIES MAP_NP) 0x1234567 0x2000 = Inr (v, k') \<and> v \<noteq> 0
     \<and> kernel_unmap k' v 0x2000 = Inr (0x1234567, replicate KPT_ENTRIES MAP_NP)"
proof -
  let ?k = "replicate KPT_ENTRIES MAP_NP"
  have np: "aget ?k j = Inr MAP_NP" if "j < 63488" for j
    using that by (simp add: KPT_ENTRIES_eq)
  have run: "kpt_run ?k 0 0 3 = Inr 3"
    by (simp add: kpt_run.simps np)
  have dirct: "\<not> (0x1234567 :: u32) + 0x2000 \<le> HMEM_BASE - PHYS_BASE"
    by (simp add: HMEM_BASE_def PHYS_BASE_def)
  have "\<exists>k'. kernel_map ?k 0x1234567 0x2000 = Inr (HMEM_BASE + 0x567, k')"
  proof -
    let ?vs = "map (\<lambda>j. kpte (0x1234000 + of_nat j * 4096)) [0..<3]"
    have "kpt_store ?k 0 ?vs = Inr (take 0 ?k @ ?vs @ drop (0 + length ?vs) ?k)"
      by (intro kpt_store_eq) (simp add: KPT_ENTRIES_eq)
    moreover have "(0 :: nat) < KPT_ENTRIES" by (simp add: KPT_ENTRIES_eq)
    ultimately show ?thesis
      using dirct by (simp add: kernel_map_def Let_def kernel_map_from.simps [of ?k 0] np run)
  qed
  then obtain k' where m: "kernel_map ?k 0x1234567 0x2000 = Inr (HMEM_BASE + 0x567, k')" by blast
  have "kernel_unmap k' (HMEM_BASE + 0x567) 0x2000 = Inr (0x1234567, ?k)"
    by (rule kernel_map_unmap [OF m _ dirct]) (simp_all add: HMEM_BASE_def)
  with m show ?thesis by (intro exI [of _ "HMEM_BASE + 0x567"] exI [of _ k']) (simp add: HMEM_BASE_def)
qed

subsection \<open>The heap gives back what it took\<close>

definition kmem_inv :: "kmem \<Rightarrow> bool" where
  "kmem_inv m \<longleftrightarrow> pmm_inv (km_pmm m) \<and> length (km_kpt m) = KPT_ENTRIES"

lemma pmm_free_defined:
  assumes "pmm_inv p" "0 < pmm_users p a"
  obtains p' where "pmm_free p a = Inr p'"
proof -
  from assms have a: "page_aligned a" "frame_index p a < length (bitmap p)"
      "bitmap p ! frame_index p a AND BITMAP_USERS \<noteq> 0"
    by (auto simp: pmm_users_def pmm_inv_def frame_users_def users_zero_iff split: if_splits)
  then have "\<exists>p'. pmm_free p a = Inr p'" by (simp add: pmm_free_def Let_def)
  then show ?thesis using that by blast
qed

lemma window_page:
  assumes "n + i < KPT_ENTRIES"
  shows "HMEM_BASE + of_nat n * 4096 + push_bit PAGE_SHIFT (of_nat i)
    = HMEM_BASE + of_nat (n + i) * 4096 + (0 :: u32)"
  by (simp add: PAGE_SHIFT_def push_bit_eq_mult algebra_simps)

lemma kernel_unmap_page:
  assumes "length k = KPT_ENTRIES" "n < KPT_ENTRIES" "k ! n = kpte f" "page_aligned f"
  shows "kernel_unmap k (HMEM_BASE + of_nat n * 4096 + 0) PAGE_SIZE = Inr (f, k[n := MAP_NP])"
proof -
  note d = window_virt_decode [OF assms(2), of 0 "HMEM_BASE + of_nat n * 4096 + 0"]
  have "drop_bit 12 (PAGE_SIZE + 0 + 4095) = (1 :: u32)" by (simp add: PAGE_SIZE_def)
  then show ?thesis
    using d assms kpte_frame [OF assms(4)]
    by (simp add: kernel_unmap_def Let_def del: add_0_right)
qed

lemma kfree_pages_ok:
  assumes "pmm_inv p" "distinct fs" "\<forall>f \<in> set fs. 0 < pmm_users p f"
    and "length k = KPT_ENTRIES" "n + i + length fs \<le> KPT_ENTRIES"
    and "\<forall>x < length fs. k ! (n + i + x) = kpte (fs ! x)"
  shows "\<exists>p' k'. kfree_pages p k (HMEM_BASE + of_nat n * 4096) [i..<i + length fs] = Inr (p', k')
     \<and> pmm_inv p' \<and> pmm_users p' = (\<lambda>a. if a \<in> set fs then pmm_users p a - 1 else pmm_users p a)
     \<and> length k' = length k
     \<and> (\<forall>x < length k. k' ! x = (if n + i \<le> x \<and> x < n + i + length fs then MAP_NP else k ! x))"
  using assms
proof (induction fs arbitrary: p k i)
  case Nil
  then show ?case by auto
next
  case (Cons f fs)
  from Cons.prems have f: "0 < pmm_users p f" "page_aligned f"
    by (auto simp: pmm_users_def split: if_splits)
  then obtain p1 where p1: "pmm_free p f = Inr p1"
    using pmm_free_defined [OF Cons.prems(1)] by blast
  let ?k1 = "k[n + i := MAP_NP]"
  have ni: "n + i < KPT_ENTRIES" using Cons.prems(5) by simp
  have un: "kernel_unmap k (HMEM_BASE + of_nat n * 4096 + push_bit PAGE_SHIFT (of_nat i)) PAGE_SIZE
      = Inr (f, ?k1)"
    unfolding window_page [OF ni] using Cons.prems(4,6) ni f(2)
    by (intro kernel_unmap_page) auto
  note u1 = pmm_free_users [OF Cons.prems(1) p1]
  have "\<exists>p' k'. kfree_pages p1 ?k1 (HMEM_BASE + of_nat n * 4096) [Suc i..<Suc i + length fs] = Inr (p', k')
     \<and> pmm_inv p' \<and> pmm_users p' = (\<lambda>a. if a \<in> set fs then pmm_users p1 a - 1 else pmm_users p1 a)
     \<and> length k' = length ?k1
     \<and> (\<forall>x < length ?k1. k' ! x = (if n + Suc i \<le> x \<and> x < n + Suc i + length fs then MAP_NP else ?k1 ! x))"
  proof (rule Cons.IH)
    show "pmm_inv p1" using pmm_free_inv [OF Cons.prems(1) p1] .
    show "\<forall>x < length fs. ?k1 ! (n + Suc i + x) = kpte (fs ! x)"
      using Cons.prems(6) by (auto dest: spec [of _ "Suc _"])
    show "\<forall>g \<in> set fs. 0 < pmm_users p1 g"
      using Cons.prems(2,3) u1 by auto
  qed (use Cons.prems in auto)
  then obtain p' k' where IH:
    "kfree_pages p1 ?k1 (HMEM_BASE + of_nat n * 4096) [Suc i..<Suc i + length fs] = Inr (p', k')"
    "pmm_inv p'" "pmm_users p' = (\<lambda>a. if a \<in> set fs then pmm_users p1 a - 1 else pmm_users p1 a)"
    "length k' = length ?k1"
    "\<forall>x < length ?k1. k' ! x = (if n + Suc i \<le> x \<and> x < n + Suc i + length fs then MAP_NP else ?k1 ! x)"
    by blast
  have "[i..<i + length (f # fs)] = i # [Suc i..<Suc i + length fs]"
    using upt_conv_Cons [of i "i + length (f # fs)"] by simp
  then have "kfree_pages p k (HMEM_BASE + of_nat n * 4096) [i..<i + length (f # fs)] = Inr (p', k')"
    using un p1 IH(1) by simp
  moreover have "pmm_users p' = (\<lambda>a. if a \<in> set (f # fs) then pmm_users p a - 1 else pmm_users p a)"
    using IH(3) u1 Cons.prems(2) by (auto simp: fun_eq_iff)
  moreover have "\<forall>x < length k. k' ! x =
      (if n + i \<le> x \<and> x < n + i + length (f # fs) then MAP_NP else k ! x)"
    using IH(5) by (auto simp: nth_list_update)
  ultimately show ?case using IH(2,4) by (intro exI [of _ p'] exI [of _ k']) simp
qed

lemma kmalloc_InrE:
  assumes "kmem_inv m" "kmalloc m sz = Inr (a, m')" "unat sz + 4 + 4096 < 2 ^ 32"
  obtains fs n p' k' where
    "alloc_many pmm_alloc (length fs) (km_pmm m) = Inr (fs, p')"
    "length fs = (unat sz + 4) div 4096 + 1"
    "window_at (km_kpt m) (map kpte fs) 0 (a - 4) k' n"
    "m' = m\<lparr>km_pmm := p', km_kpt := k', km_size := (km_size m)(a - 4 \<mapsto> sz + 4)\<rparr>"
proof -
  let ?fc = "unat (drop_bit PAGE_SHIFT (sz + 4 + PAGE_SIZE))"
  have "unat (sz + 4 + PAGE_SIZE) = unat sz + 4 + 4096"
    using assms(3) unfolding PAGE_SIZE_def
    by (subst unat_add_nowrap; (subst unat_add_nowrap)?; simp)
  then have fc: "?fc = (unat sz + 4) div 4096 + 1"
    by (simp add: PAGE_SHIFT_def unat_drop_bit)
  from assms(2) obtain fs p' v k' where
    al: "alloc_many pmm_alloc ?fc (km_pmm m) = Inr (fs, p')" and
    mp: "kernel_map_nc (km_kpt m) fs = Inr (v, k')" and v: "v \<noteq> 0" "a = v + 4" and
    m': "m' = m\<lparr>km_pmm := p', km_kpt := k', km_size := (km_size m)(v \<mapsto> sz + 4)\<rparr>"
    by (auto simp: kmalloc_def Let_def outcome_simps split: if_splits)
  have len: "length fs = ?fc"
    using frames.alloc_many_fresh [OF _ al] assms(1) by (simp add: kmem_inv_def)
  then have "fs \<noteq> []" using fc by auto
  with mp v(1) obtain n where "window_at (km_kpt m) (map kpte fs) 0 v k' n"
    using kernel_map_nc_from_Inr [of "km_kpt m" 0 fs v k'] by (auto simp: kernel_map_nc_def)
  with that al len fc v(2) m' show ?thesis by auto
qed

text \<open>a block from \<open>kmalloc\<close> consists of enough fresh frames for its size word and payload, and
  \<open>kfree\<close> of it never panics: it gives every frame back and restores the kernel page table.
\<close>

theorem kmalloc_kfree:
  assumes "kmem_inv m" and "kmalloc m sz = Inr (a, m')" and "unat sz + 4 + 4096 < 2 ^ 32"
  shows "\<exists>fs m''. length fs * 4096 \<ge> unat sz + 4 \<and> distinct fs
     \<and> (\<forall>f \<in> set fs. pmm_users (km_pmm m) f = 0 \<and> pmm_users (km_pmm m') f = 1)
     \<and> kfree m' a = Inr m'' \<and> kmem_inv m''
     \<and> pmm_users (km_pmm m'') = pmm_users (km_pmm m) \<and> km_kpt m'' = km_kpt m"
proof -
  from assms obtain fs n p' k' where
    al: "alloc_many pmm_alloc (length fs) (km_pmm m) = Inr (fs, p')" and
    len: "length fs = (unat sz + 4) div 4096 + 1" and
    w: "window_at (km_kpt m) (map kpte fs) 0 (a - 4) k' n" and
    m': "m' = m\<lparr>km_pmm := p', km_kpt := k', km_size := (km_size m)(a - 4 \<mapsto> sz + 4)\<rparr>"
    by (rule kmalloc_InrE)
  have inv: "pmm_inv (km_pmm m)" "length (km_kpt m) = KPT_ENTRIES"
    using assms(1) by (simp_all add: kmem_inv_def)
  note fr = frames.alloc_many_fresh [OF inv(1) al]
  from w have n: "n < KPT_ENTRIES" "a - 4 = HMEM_BASE + of_nat n * 4096 + 0"
      "n + length fs \<le> length (km_kpt m)" "\<forall>x < length fs. km_kpt m ! (n + x) = MAP_NP"
      "kpt_store (km_kpt m) n (map kpte fs) = Inr k'"
    by (auto simp: window_at_def)
  have klen: "length k' = KPT_ENTRIES"
    using kpt_store_nth(1) [of n "map kpte fs" "km_kpt m"] n(3,5) inv(2) by simp
  have knth: "k' ! x = (if n \<le> x \<and> x < n + length fs then kpte (fs ! (x - n)) else km_kpt m ! x)"
    if "x < KPT_ENTRIES" for x
    using kpt_store_nth(2) [of n "map kpte fs" "km_kpt m" k' x] n(3,5) inv(2) that by auto
  have "\<exists>p'' k''. kfree_pages p' k' (HMEM_BASE + of_nat n * 4096) [0..<0 + length fs] = Inr (p'', k'')
     \<and> pmm_inv p'' \<and> pmm_users p'' = (\<lambda>a. if a \<in> set fs then pmm_users p' a - 1 else pmm_users p' a)
     \<and> length k'' = length k'
     \<and> (\<forall>x < length k'. k'' ! x = (if n + 0 \<le> x \<and> x < n + 0 + length fs then MAP_NP else k' ! x))"
    using fr klen n(3) inv(2) knth by (intro kfree_pages_ok) auto
  then obtain p'' k'' where fp:
    "kfree_pages p' k' (HMEM_BASE + of_nat n * 4096) [0..<length fs] = Inr (p'', k'')" "pmm_inv p''"
    "pmm_users p'' = (\<lambda>a. if a \<in> set fs then pmm_users p' a - 1 else pmm_users p' a)"
    "length k'' = KPT_ENTRIES"
    "\<forall>x < KPT_ENTRIES. k'' ! x = (if n \<le> x \<and> x < n + length fs then MAP_NP else k' ! x)"
    using klen by auto
  have users: "pmm_users p'' = pmm_users (km_pmm m)" using fp(3) fr by (auto simp: fun_eq_iff)
  have free: "km_kpt m ! x = MAP_NP" if "n \<le> x" "x < n + length fs" for x
    using spec [OF n(4), of "x - n"] that by simp
  have kpt: "k'' = km_kpt m"
    using fp(4,5) inv(2) knth free by (intro nth_equalityI) auto
  note d = window_virt_decode [OF n(1), of 0, OF _ n(2)]
  have "unat (sz + 4 + PAGE_SIZE) = unat sz + 4 + 4096"
    using assms(3) unfolding PAGE_SIZE_def
    by (subst unat_add_nowrap; (subst unat_add_nowrap)?; simp)
  then have fc: "unat (drop_bit PAGE_SHIFT (sz + 4 + PAGE_SIZE)) = length fs"
    using len by (simp add: PAGE_SHIFT_def unat_drop_bit)
  have "a \<noteq> 0"
  proof
    assume "a = 0"
    with d(3) show False by simp
  qed
  then have "kfree m' a = Inr (m'\<lparr>km_pmm := p'', km_kpt := k'', km_size := (km_size m')(a - 4 := None)\<rparr>)"
    using m' d fc fp(1) n(2) by (simp add: kfree_def Let_def)
  moreover have "unat sz + 4 \<le> length fs * 4096" using len by simp
  ultimately show ?thesis
    using fr fp(2) users kpt m' inv(2)
    by (intro exI [of _ fs] exI) (auto simp: kmem_inv_def)
qed

definition demo_kmem :: kmem where
  "demo_kmem = \<lparr>km_pmm = demo_pmm, km_kpt = replicate KPT_ENTRIES MAP_NP, km_size = Map.empty\<rparr>"

lemma demo_kmem_inv: "kmem_inv demo_kmem"
  by (simp add: demo_kmem_def kmem_inv_def demo_pmm_inv)

lemma demo_kmalloc:
  "kmalloc demo_kmem 100 = Inr (HMEM_BASE + 4,
     \<lparr>km_pmm = demo_pmm\<lparr>bitmap := [1, 0x7f, 1, 0], look_from_here := 2\<rparr>,
      km_kpt = (replicate KPT_ENTRIES MAP_NP)[0 := kpte 0x102000],
      km_size = [HMEM_BASE \<mapsto> 104]\<rparr>)"
proof -
  have "pmm_alloc demo_pmm =
      Inr (0x102000, demo_pmm\<lparr>bitmap := [1, 0x7f, 1, 0], look_from_here := 2\<rparr>)"
    by (simp add: demo_pmm_def pmm_alloc_def pmm_alloc_from.simps frame_addr_def PAGE_SHIFT_def)
  moreover have "(0 :: nat) < KPT_ENTRIES" by (simp add: KPT_ENTRIES_eq)
  moreover have "HMEM_BASE \<noteq> 0" by (simp add: HMEM_BASE_def)
  ultimately show ?thesis
    by (simp add: kmalloc_def demo_kmem_def page_consts kernel_map_nc_def
        kernel_map_nc_from.simps [of _ 0])
qed

theorem kmalloc_kfree_witness:
  "\<exists>m' m''. kmalloc demo_kmem 100 = Inr (HMEM_BASE + 4, m') \<and> kfree m' (HMEM_BASE + 4) = Inr m''
     \<and> km_kpt m'' = replicate KPT_ENTRIES MAP_NP"
  using demo_kmalloc kmalloc_kfree [OF demo_kmem_inv demo_kmalloc]
  by (auto simp: demo_kmem_def)

text \<open>
  \<open>krealloc\<close> compares page counts without the four bytes of the size word: growing a block to
  4093 to 4095 bytes leaves it in its single page, where only 4092 bytes of payload fit.
\<close>

theorem krealloc_undersized:
  assumes "km_size m (ptr - 4) = Some csz" and "ptr \<noteq> 0" and "(ptr - 4) AND 0xFFF = 0"
    and "unat csz \<le> unat sz" and "4092 < unat sz" and "unat sz < 4096"
  shows "krealloc m ptr sz = Inr (ptr, m\<lparr>km_size := (km_size m)(ptr - 4 \<mapsto> sz)\<rparr>, 0)
     \<and> unat (drop_bit PAGE_SHIFT (csz + PAGE_SIZE)) * 4096 < unat sz + 4"
proof -
  have one: "drop_bit PAGE_SHIFT (w + PAGE_SIZE) = 1" if "unat w < 4096" for w
  proof -
    have "unat (w + PAGE_SIZE) = unat w + 4096"
      using that unfolding PAGE_SIZE_def by (subst unat_add_nowrap) simp_all
    then have "unat (drop_bit PAGE_SHIFT (w + PAGE_SIZE)) = unat (1 :: u32)"
      using that by (simp add: PAGE_SHIFT_def unat_drop_bit)
    then show ?thesis by (simp only: word_unat_eq_iff)
  qed
  have "\<not> sz < csz" using assms(4) by (simp add: word_less_nat_alt)
  with assms one [of sz] one [of csz] show ?thesis by (simp add: krealloc_def Let_def)
qed

theorem krealloc_undersized_witness:
  "\<exists>m'. krealloc (demo_kmem\<lparr>km_size := [HMEM_BASE \<mapsto> 36]\<rparr>) (HMEM_BASE + 4) 4095
     = Inr (HMEM_BASE + 4, m', 0)"
  using krealloc_undersized [of "demo_kmem\<lparr>km_size := [HMEM_BASE \<mapsto> 36]\<rparr>" "HMEM_BASE + 4" 36 4095]
  by (simp add: HMEM_BASE_def)

end
