(* ===== verification/Paging.thy ===== *)
theory Paging
  imports Kheap
begin

text \<open>
  User address spaces on the two-level i386 page tables (\<open>src/kernel/arch/i386/mmu/vmem.c\<close>).

  \<open>vm\<close> is the physical memory as the paging code sees it: the frame allocator and the contents of
  every frame as 1024 words, by physical address; page tables and data pages live in the same
  store. \<open>vmm_context\<close> is the context structure; the page directory, reached through
  \<open>context->arch.pd\<close>, is the list \<open>pd\<close>. A page table is reached through a transient kernel window
  (\<open>kernel_map\<close> ... \<open>kernel_unmap\<close> of one page); by the round trip proved in the theory Kheap the pair
  leaves the window table unchanged, so the model reads and writes the frame itself. The context
  lock is held around each operation, which is therefore one step; TLB invalidation has no
  counterpart.
\<close>

record vm =
  vm_pmm :: pmm
  vm_frame :: "u32 \<Rightarrow> u32 list"

record vmm_context =
  cr3 :: u32
  pd :: "u32 list"
  heap_end :: u32
  users :: int

definition IS_KERNEL :: "u32 \<Rightarrow> bool" where
  "IS_KERNEL x \<longleftrightarrow> x \<ge> PHYS_BASE"

definition USER_HERITAGE_BASE :: u32 where "USER_HERITAGE_BASE = 0xBF000000"
definition USER_HERITAGE_TOP :: u32 where "USER_HERITAGE_TOP = 0xC0000000"
definition USER_MAP_BASE :: u32 where "USER_MAP_BASE = 0xC0000000"
definition USER_MAP_TOP :: u32 where "USER_MAP_TOP = 0xE0000000"
definition KERNEL_BASE :: u32 where "KERNEL_BASE = 0xF0000000"

definition VMM_UR :: u32 where "VMM_UR = 1"
definition VMM_UW :: u32 where "VMM_UW = 2"
definition VMM_UX :: u32 where "VMM_UX = 4"
definition VMM_PR :: u32 where "VMM_PR = 8"
definition VMM_PW :: u32 where "VMM_PW = 16"
definition VMM_PX :: u32 where "VMM_PX = 32"
definition VMM_CD :: u32 where "VMM_CD = 64"

lemmas vmm_flags = VMM_UR_def VMM_UW_def VMM_UX_def VMM_PR_def VMM_PW_def VMM_PX_def VMM_CD_def

definition pdi_of :: "u32 \<Rightarrow> nat" where
  "pdi_of virt = unat (drop_bit 22 virt)"

definition pti_of :: "u32 \<Rightarrow> nat" where
  "pti_of virt = unat (drop_bit 12 virt AND 0x3FF)"

definition frame_of :: "u32 \<Rightarrow> u32" where
  "frame_of e = e AND NOT 0xFFF"

definition present :: "u32 \<Rightarrow> bool" where
  "present e \<longleftrightarrow> e AND MAP_PR \<noteq> 0"

definition pt_get :: "vm \<Rightarrow> u32 \<Rightarrow> nat \<Rightarrow> u32 outcome" where
  "pt_get v pde pti = aget (vm_frame v (frame_of pde)) pti"

definition pt_set :: "vm \<Rightarrow> u32 \<Rightarrow> nat \<Rightarrow> u32 \<Rightarrow> vm outcome" where
  "pt_set v pde pti e =
     rbind (aset (vm_frame v (frame_of pde)) pti e) (\<lambda>pt.
       Inr (v\<lparr>vm_frame := (vm_frame v)(frame_of pde := pt)\<rparr>))"

definition vm_alloc :: "vm \<Rightarrow> (u32 \<times> vm) outcome" where
  "vm_alloc v = rbind (pmm_alloc (vm_pmm v)) (\<lambda>(a, p). Inr (a, v\<lparr>vm_pmm := p\<rparr>))"

definition vm_free :: "vm \<Rightarrow> u32 \<Rightarrow> vm outcome" where
  "vm_free v a = rbind (pmm_free (vm_pmm v) a) (\<lambda>p. Inr (v\<lparr>vm_pmm := p\<rparr>))"

definition vm_use :: "vm \<Rightarrow> u32 \<Rightarrow> vm outcome" where
  "vm_use v a = rbind (pmm_use (vm_pmm v) a) (\<lambda>p. Inr (v\<lparr>vm_pmm := p\<rparr>))"

definition memsetptr :: "vm \<Rightarrow> u32 \<Rightarrow> u32 \<Rightarrow> vm" where
  "memsetptr v frame c = v\<lparr>vm_frame := (vm_frame v)(frame := replicate 1024 c)\<rparr>"

subsection \<open>Mapping and looking up single pages\<close>

definition user_pte :: "u32 \<Rightarrow> u32 \<Rightarrow> u32" where
  "user_pte phys flags =
     frame_of phys OR MAP_PR
       OR (if flags AND (VMM_UW OR VMM_PW) \<noteq> 0 then MAP_RW else 0)
       OR (if flags AND (VMM_UR OR VMM_UW OR VMM_UX) \<noteq> 0 then MAP_US else 0)
       OR (if flags AND VMM_CD \<noteq> 0 then MAP_NC else 0)"

definition vmmc_map_user_page ::
    "vm \<Rightarrow> vmm_context \<Rightarrow> u32 \<Rightarrow> u32 \<Rightarrow> u32 \<Rightarrow> (vm \<times> vmm_context) outcome" where
  "vmmc_map_user_page v c virt phys flags =
     (if IS_KERNEL virt then Inr (v, c)
      else
        let pdi = pdi_of virt; pti = pti_of virt in
        rbind (aget (pd c) pdi) (\<lambda>pde.
          if present pde then
            rbind (pt_set v pde pti (user_pte phys flags)) (\<lambda>v'. Inr (v', c))
          else
            let lazy_flags = (if pde AND MAP_US \<noteq> 0 then (pde AND MAP_RW) OR MAP_US else 0) in
            rbind (vm_alloc v) (\<lambda>(frame, v1).
              let npde = frame OR MAP_PR OR (if lazy_flags \<noteq> 0 then lazy_flags else MAP_RW OR MAP_US);
                  v2 = memsetptr v1 (frame_of npde) lazy_flags
              in rbind (aset (pd c) pdi npde) (\<lambda>pd'.
                 rbind (pt_set v2 npde pti (user_pte phys flags)) (\<lambda>v3. Inr (v3, c\<lparr>pd := pd'\<rparr>))))))"

definition access_flags :: "u32 \<Rightarrow> u32" where
  "access_flags pte =
     (if pte AND (MAP_RW OR MAP_US) = 0 then VMM_PR OR VMM_PX
      else if pte AND (MAP_RW OR MAP_US) = MAP_RW then VMM_PR OR VMM_PW OR VMM_PX
      else if pte AND (MAP_RW OR MAP_US) = MAP_US then VMM_PR OR VMM_PX OR VMM_UR OR VMM_UX
      else VMM_PR OR VMM_PW OR VMM_PX OR VMM_UR OR VMM_UW OR VMM_UX)"

text \<open>The result is the access flags, 0 when nothing is mapped, and the physical address that the C
  code stores through its out parameter when the page is mapped.\<close>

definition vmmc_address_mapped :: "vm \<Rightarrow> vmm_context \<Rightarrow> u32 \<Rightarrow> (u32 \<times> u32 option) outcome" where
  "vmmc_address_mapped v c virt =
     rbind (aget (pd c) (pdi_of virt)) (\<lambda>pde.
       if \<not> present pde then Inr (0, None)
       else
         rbind (pt_get v pde (pti_of virt)) (\<lambda>pte.
           if \<not> present pte then Inr (0, None)
           else Inr (access_flags pte, Some (frame_of pte OR (virt AND 0xFFF)))))"

subsection \<open>Lazy mappings and copy on write\<close>

definition lazy_entry :: "u32 \<Rightarrow> u32" where
  "lazy_entry flags = (if flags AND (VMM_UW OR VMM_PW) \<noteq> 0 then MAP_RW else 0) OR MAP_US"

text \<open>The loop of \<open>vmmc_lazy_map_area\<close> over the entries of one existing page table: entries from \<open>i\<close>
  on, as long as pages remain, the mapped ones left alone.\<close>

fun lazy_fill :: "u32 list \<Rightarrow> nat \<Rightarrow> nat \<Rightarrow> u32 \<Rightarrow> u32 list \<times> nat" where
  "lazy_fill [] i sz e = ([], sz)"
| "lazy_fill (x # xs) i sz e =
     (if 0 < i then let (ys, s) = lazy_fill xs (i - 1) sz e in (x # ys, s)
      else if sz = 0 then (x # xs, 0)
      else let (ys, s) = lazy_fill xs 0 (sz - 1) e in ((if present x then x else e) # ys, s))"

lemma lazy_fill_rest: "snd (lazy_fill xs i sz e) = sz - min sz (length xs - i)"
  by (induction xs i sz e rule: lazy_fill.induct) (auto simp: split_beta Let_def)

function lazy_map_loop ::
    "vm \<Rightarrow> vmm_context \<Rightarrow> nat \<Rightarrow> nat \<Rightarrow> nat \<Rightarrow> u32 \<Rightarrow> (vm \<times> vmm_context) outcome" where
  "lazy_map_loop v c pdi pti sz e =
     (if 0 < sz then
        rbind (aget (pd c) pdi) (\<lambda>pde.
          if \<not> present pde \<and> 1024 \<le> sz \<and> pti = 0 then
            rbind (aset (pd c) pdi e) (\<lambda>pd'. lazy_map_loop v (c\<lparr>pd := pd'\<rparr>) (Suc pdi) 0 (sz - 1024) e)
          else if present pde then
            (let (pt, rest) = lazy_fill (vm_frame v (frame_of pde)) pti sz e in
             lazy_map_loop (v\<lparr>vm_frame := (vm_frame v)(frame_of pde := pt)\<rparr>) c (Suc pdi) 0 rest e)
          else
            rbind (vm_alloc v) (\<lambda>(phys, v1).
            rbind (aset (pd c) pdi (phys OR MAP_PR OR MAP_RW OR MAP_US)) (\<lambda>pd'.
              let n = min (1024 - pti) sz;
                  old = vm_frame v1 phys;
                  pt = take pti old @ replicate n e @ drop (pti + n) old
              in lazy_map_loop (v1\<lparr>vm_frame := (vm_frame v1)(phys := pt)\<rparr>) (c\<lparr>pd := pd'\<rparr>)
                   (Suc pdi) 0 (sz - n) e)))
      else Inr (v, c))"
  by pat_completeness auto
termination
  by (relation "measure (\<lambda>(v, c, pdi, pti, sz, e). length (pd c) - pdi)") 
     (auto simp: outcome_simps)

declare lazy_map_loop.simps [simp del]

definition vmmc_lazy_map_area ::
    "vm \<Rightarrow> vmm_context \<Rightarrow> u32 \<Rightarrow> u32 \<Rightarrow> u32 \<Rightarrow> (vm \<times> vmm_context) outcome" where
  "vmmc_lazy_map_area v c virt sz flags =
     (let pages = (if sz AND (PAGE_SIZE - 1) \<noteq> 0 then sint sz div 4096 + 1 else sint sz div 4096)
      in lazy_map_loop v c (pdi_of virt) (pti_of virt) (nat pages) (lazy_entry flags))"

definition vm_mark_cow :: "vm \<Rightarrow> u32 \<Rightarrow> bool \<Rightarrow> vm outcome" where
  "vm_mark_cow v a flag = rbind (pmm_mark_cow (vm_pmm v) a flag) (\<lambda>p. Inr (v\<lparr>vm_pmm := p\<rparr>))"

definition memcpy_page :: "vm \<Rightarrow> u32 \<Rightarrow> u32 \<Rightarrow> vm" where
  "memcpy_page v np op = v\<lparr>vm_frame := (vm_frame v)(np := vm_frame v op)\<rparr>"

definition vmmc_do_cow :: "vm \<Rightarrow> vmm_context \<Rightarrow> u32 \<Rightarrow> (bool \<times> vm) outcome" where
  "vmmc_do_cow v c address =
     (let pti = pti_of address in
      rbind (aget (pd c) (pdi_of address)) (\<lambda>pde.
        if \<not> present pde then Inr (False, v)
        else
          rbind (pt_get v pde pti) (\<lambda>pte.
            if \<not> present pte \<or> pte AND MAP_RW \<noteq> 0 then Inr (False, v)
            else
              rbind (pmm_is_cow (vm_pmm v) (frame_of pte)) (\<lambda>cow.
                if \<not> cow then Inr (False, v)
                else
                  rbind (pmm_user_count (vm_pmm v) (frame_of pte)) (\<lambda>n.
                    if n = 0 then Inr (False, v)
                    else if n = 1 then
                      rbind (pt_set v pde pti (pte OR MAP_RW)) (\<lambda>v1.
                      rbind (vm_mark_cow v1 (frame_of pte) False) (\<lambda>v2. Inr (True, v2)))
                    else
                      rbind (vm_alloc v) (\<lambda>(npf, v1).
                      rbind (vm_free (memcpy_page v1 npf (frame_of pte)) (frame_of pte)) (\<lambda>v2.
                      rbind (pt_set v2 pde pti (npf OR MAP_PR OR MAP_RW OR MAP_US)) (\<lambda>v3.
                        Inr (True, v3)))))))))"

definition lazy_table :: "vm \<Rightarrow> vmm_context \<Rightarrow> nat \<Rightarrow> u32 \<Rightarrow> (u32 \<times> vm \<times> vmm_context) outcome" where
  "lazy_table v c pdi pde =
     (if present pde then Inr (pde, v, c)
      else
        rbind (kassert (pde AND MAP_4M = 0)) (\<lambda>_.
        rbind (vm_alloc v) (\<lambda>(phys, v1).
          let npde = (pde AND MAP_RW) OR MAP_US OR MAP_PR OR phys in
          rbind (aset (pd c) pdi npde) (\<lambda>pd'.
            Inr (npde, memsetptr v1 phys ((pde AND MAP_RW) OR MAP_US), c\<lparr>pd := pd'\<rparr>)))))"

definition vmmc_do_lazy_map :: "vm \<Rightarrow> vmm_context \<Rightarrow> u32 \<Rightarrow> (bool \<times> vm \<times> vmm_context) outcome" where
  "vmmc_do_lazy_map v c address =
     (let pdi = pdi_of address; pti = pti_of address in
      rbind (aget (pd c) pdi) (\<lambda>pde.
        if pde AND MAP_US = 0 then Inr (False, v, c)
        else
          rbind (lazy_table v c pdi pde) (\<lambda>(pde', v1, c1).
          rbind (pt_get v1 pde' pti) (\<lambda>pte.
            if pte AND (MAP_PR OR MAP_US) \<noteq> MAP_US then Inr (False, v1, c1)
            else
              rbind (vm_alloc v1) (\<lambda>(phys, v2).
              rbind (pt_set v2 pde' pti ((pte AND MAP_RW) OR MAP_US OR MAP_PR OR phys)) (\<lambda>v3.
                Inr (True,
                     if USER_HERITAGE_BASE \<le> address \<and> address < USER_HERITAGE_TOP
                     then memsetptr v3 phys 0 else v3,
                     c1)))))))"

subsection \<open>Whole address spaces\<close>

text \<open>\<open>create_vmm_context_arch\<close> copies the kernel's page directory \<open>kpd\<close> into a fresh frame.\<close>

definition create_vmm_context_arch :: "vm \<Rightarrow> u32 list \<Rightarrow> vmm_context \<Rightarrow> (vm \<times> vmm_context) outcome" where
  "create_vmm_context_arch v kpd c =
     rbind (vm_alloc v) (\<lambda>(frame, v'). Inr (v', c\<lparr>cr3 := frame, pd := kpd\<rparr>))"

fun free_present :: "vm \<Rightarrow> u32 list \<Rightarrow> vm outcome" where
  "free_present v [] = Inr v"
| "free_present v (e # es) =
     rbind (if present e then vm_free v (frame_of e) else Inr v) (\<lambda>v'. free_present v' es)"

definition clear_user_pde :: "bool \<Rightarrow> vm \<times> vmm_context \<Rightarrow> nat \<Rightarrow> (vm \<times> vmm_context) outcome" where
  "clear_user_pde preserve_heritage = (\<lambda>(v, c) pdi.
     if preserve_heritage \<and> unat (drop_bit 22 USER_HERITAGE_BASE) \<le> pdi
        \<and> pdi < unat (drop_bit 22 USER_HERITAGE_TOP) then Inr (v, c)
     else
       rbind (aget (pd c) pdi) (\<lambda>pde.
         if \<not> present pde then Inr (v, c\<lparr>pd := (pd c)[pdi := MAP_NP]\<rparr>)
         else
           rbind (if pdi < unat (drop_bit 22 USER_MAP_BASE) \<or> unat (drop_bit 22 USER_MAP_TOP) \<le> pdi
                  then free_present v (vm_frame v (frame_of pde)) else Inr v) (\<lambda>v1.
           rbind (vm_free v1 (frame_of pde)) (\<lambda>v2.
             Inr (v2, c\<lparr>pd := (pd c)[pdi := MAP_NP]\<rparr>)))))"

definition vmmc_clear_user :: "vm \<Rightarrow> vmm_context \<Rightarrow> bool \<Rightarrow> (vm \<times> vmm_context) outcome" where
  "vmmc_clear_user v c preserve_heritage =
     rfold (clear_user_pde preserve_heritage) (v, c) [0..<unat (drop_bit 22 PHYS_BASE)]"

definition destroy_vmm_context :: "vm \<Rightarrow> vmm_context \<Rightarrow> vm outcome" where
  "destroy_vmm_context v c =
     rbind (vmmc_clear_user v c False) (\<lambda>(v1, c1). vm_free v1 (cr3 c1))"

fun clone_pt :: "vm \<Rightarrow> u32 list \<Rightarrow> (vm \<times> u32 list \<times> u32 list) outcome" where
  "clone_pt v [] = Inr (v, [], [])"
| "clone_pt v (e # es) =
     (if \<not> present e then
        rbind (clone_pt v es) (\<lambda>(v', spt, npt). Inr (v', e # spt, e # npt))
      else
        rbind (vm_use v (frame_of e)) (\<lambda>v1.
        rbind (vm_mark_cow v1 (frame_of e) True) (\<lambda>v2.
        rbind (clone_pt v2 es) (\<lambda>(v', spt, npt).
          Inr (v', (e AND NOT MAP_RW) # spt, (frame_of e OR MAP_PR OR MAP_US) # npt)))))"

definition clone_pde ::
    "vm \<times> vmm_context \<times> vmm_context \<Rightarrow> nat \<Rightarrow> (vm \<times> vmm_context \<times> vmm_context) outcome" where
  "clone_pde = (\<lambda>(v, dest, source) pdi.
     rbind (aget (pd source) pdi) (\<lambda>pde.
       if \<not> present pde then
         rbind (aset (pd dest) pdi pde) (\<lambda>pd'. Inr (v, dest\<lparr>pd := pd'\<rparr>, source))
       else
         rbind (vm_alloc v) (\<lambda>(nppt, v1).
         rbind (aset (pd dest) pdi (nppt OR MAP_PR OR MAP_RW OR MAP_US)) (\<lambda>pd'.
         rbind (clone_pt v1 (vm_frame v1 (frame_of pde))) (\<lambda>(v2, spt, npt).
           Inr (v2\<lparr>vm_frame := (vm_frame v2)(frame_of pde := spt, nppt := npt)\<rparr>,
                dest\<lparr>pd := pd'\<rparr>, source))))))"

definition vmmc_clone ::
    "vm \<Rightarrow> vmm_context \<Rightarrow> vmm_context \<Rightarrow> (vm \<times> vmm_context \<times> vmm_context) outcome" where
  "vmmc_clone v dest source =
     rbind (rfold clone_pde (v, dest, source) [0..<unat (drop_bit 22 PHYS_BASE)])
       (\<lambda>(v', dest', source'). Inr (v', dest'\<lparr>heap_end := heap_end source'\<rparr>, source'))"

subsection \<open>Ranges of pages\<close>

definition unmap_entries :: "u32 list \<Rightarrow> nat \<Rightarrow> nat \<Rightarrow> u32 list" where
  "unmap_entries pt pti_start pti_end = fold (\<lambda>pti pt. pt[pti := MAP_NP]) [pti_start..<pti_end] pt"

definition user_unmap_pde ::
    "u32 \<Rightarrow> u32 \<Rightarrow> nat \<Rightarrow> nat \<Rightarrow> vm \<times> vmm_context \<Rightarrow> nat \<Rightarrow> (vm \<times> vmm_context) outcome" where
  "user_unmap_pde virt len pdi_start pdi_end = (\<lambda>(v, c) pdi.
     rbind (aget (pd c) pdi) (\<lambda>pde.
       if \<not> present pde then Inr (v, c)
       else
         let pti_start = (if pdi_start < pdi then 0 else unat (drop_bit 12 virt AND 0x3FF));
             pti_end = (if pdi < pdi_end - 1 then 1024
                        else unat (drop_bit 12 (virt + len + 4095) AND 0x3FF));
             v1 = v\<lparr>vm_frame := (vm_frame v)
                      (frame_of pde := unmap_entries (vm_frame v (frame_of pde)) pti_start pti_end)\<rparr>
         in if pti_start = 0 \<and> pti_end = 1024 then
              rbind (vm_free v1 (frame_of pde)) (\<lambda>v2. Inr (v2, c\<lparr>pd := (pd c)[pdi := MAP_NP]\<rparr>))
            else Inr (v1, c)))"

definition vmmc_user_unmap :: "vm \<Rightarrow> vmm_context \<Rightarrow> u32 \<Rightarrow> u32 \<Rightarrow> (vm \<times> vmm_context) outcome" where
  "vmmc_user_unmap v c virt len =
     (let pdi_start = unat (drop_bit 22 virt);
          pdi_end = unat (drop_bit 22 (virt + len + push_bit 22 1 - 1))
      in rfold (user_unmap_pde virt len pdi_start pdi_end) (v, c) [pdi_start..<pdi_end])"

text \<open>The search of \<open>vmmc_user_map_sg\<close> for enough consecutive pages: through one page table, then
  through the page directory. Both return the position after the last page counted and the length
  of the run that ends there.\<close>

fun sg_scan_pt :: "u32 list \<Rightarrow> nat \<Rightarrow> int \<Rightarrow> int \<Rightarrow> nat \<times> int" where
  "sg_scan_pt [] pti block pages = (pti, block)"
| "sg_scan_pt (e # es) pti block pages =
     (if block < pages then
        sg_scan_pt es (Suc pti) (if present e then 0 else block + 1) pages
      else (pti, block))"

function sg_scan :: "vm \<Rightarrow> u32 list \<Rightarrow> nat \<Rightarrow> nat \<Rightarrow> int \<Rightarrow> int \<Rightarrow> (nat \<times> nat \<times> int) outcome" where
  "sg_scan v dir pdi pti block pages =
     (if pdi < unat (drop_bit 22 KERNEL_BASE) then
        rbind (aget dir pdi) (\<lambda>pde.
          let (pti', block') =
            (if present pde then sg_scan_pt (vm_frame v (frame_of pde)) 0 block pages
             else (1024, block + 1024))
          in if pages \<le> block' then Inr (pdi, pti', block')
             else sg_scan v dir (Suc pdi) pti' block' pages)
      else Inr (pdi, pti, block))"
  by pat_completeness auto
termination
  by (relation "measure (\<lambda>(v, dir, pdi, pti, block, pages). unat (drop_bit 22 KERNEL_BASE) - pdi)") auto

declare sg_scan.simps [simp del]

fun sg_map ::
    "vm \<times> vmm_context \<Rightarrow> u32 \<Rightarrow> u32 list \<Rightarrow> nat list \<Rightarrow> u32 \<Rightarrow> (vm \<times> vmm_context) outcome" where
  "sg_map vc start phys [] flags = Inr vc"
| "sg_map vc start phys (i # is) flags =
     rbind (aget phys i) (\<lambda>p.
     rbind (vmmc_map_user_page (fst vc) (snd vc) (start + of_nat i * 4096) (frame_of p) flags)
       (\<lambda>vc'. sg_map vc' start phys is flags))"

definition vmmc_user_map_sg ::
    "vm \<Rightarrow> vmm_context \<Rightarrow> u32 list \<Rightarrow> int \<Rightarrow> u32 \<Rightarrow> (u32 \<times> vm \<times> vmm_context) outcome" where
  "vmmc_user_map_sg v c phys pages flags =
     rbind (sg_scan v (pd c) (unat (drop_bit 22 USER_MAP_BASE)) 0 0 pages) (\<lambda>(pdi, pti, block).
       if block < pages then Inr (0, v, c)
       else
         let e = push_bit 22 (of_nat pdi) OR push_bit 12 (of_nat pti);
             start = e - of_int block * 4096
         in rbind (sg_map (v, c) start phys [0..<nat pages] flags) (\<lambda>(v', c'). Inr (start, v', c')))"

definition vmmc_user_map ::
    "vm \<Rightarrow> vmm_context \<Rightarrow> u32 \<Rightarrow> u32 \<Rightarrow> u32 \<Rightarrow> (u32 \<times> vm \<times> vmm_context) outcome" where
  "vmmc_user_map v c phys len flags =
     (let pages = unat (drop_bit 12 (len + (phys AND 0xFFF) + 4095));
          phys_sg = map (\<lambda>i. frame_of phys + of_nat i * 4096) [0..<pages]
      in rbind (vmmc_user_map_sg v c phys_sg (int pages) flags) (\<lambda>(start, v', c').
           Inr (start + (phys AND 0xFFF), v', c')))"

subsection \<open>Entries bit by bit\<close>

lemma flag_bits:
  "present e \<longleftrightarrow> bit e 0"
  "e AND MAP_RW = 0 \<longleftrightarrow> \<not> bit e 1" "e AND MAP_US = 0 \<longleftrightarrow> \<not> bit e 2" "e AND MAP_4M = 0 \<longleftrightarrow> \<not> bit e 7"
  using and_exp_eq_0_iff_not_bit [of e 0] and_exp_eq_0_iff_not_bit [of e 1]
    and_exp_eq_0_iff_not_bit [of e 2] and_exp_eq_0_iff_not_bit [of e 7]
  by (simp_all add: present_def map_flags)

lemma map_flags_nonzero [simp]: "MAP_PR \<noteq> 0" "MAP_RW \<noteq> 0" "MAP_US \<noteq> 0"
  by (simp_all add: map_flags)

lemma bit_frame_of: "bit (frame_of e) n \<longleftrightarrow> bit e n \<and> 12 \<le> n"
proof -
  have "frame_of e = e AND NOT (mask 12)"
    by (simp add: frame_of_def mask_eq_exp_minus_1)
  then show ?thesis
    by (cases "n < 32") (auto simp: bit_simps)
qed

lemma page_aligned_bits: "page_aligned a \<Longrightarrow> n < 12 \<Longrightarrow> \<not> bit a n"
  using take_bit_aligned [of a] bit_take_bit_iff [of 12 a n] by simp

lemma bit_flag_consts:
  "bit MAP_PR n \<longleftrightarrow> n = 0" "bit MAP_RW n \<longleftrightarrow> n = 1" "bit MAP_US n \<longleftrightarrow> n = 2" "bit MAP_NC n \<longleftrightarrow> n = 4"
proof -
  have "bit (1 :: u32) n \<longleftrightarrow> n = 0" "bit (2 :: u32) n \<longleftrightarrow> n = 1" "bit (4 :: u32) n \<longleftrightarrow> n = 2"
       "bit (16 :: u32) n \<longleftrightarrow> n = 4"
    using bit_exp_iff [where ?'a = u32, of 1 n] bit_exp_iff [where ?'a = u32, of 2 n]
      bit_exp_iff [where ?'a = u32, of 4 n]
    by (auto simp: bit_1_iff)
  then show "bit MAP_PR n \<longleftrightarrow> n = 0" "bit MAP_RW n \<longleftrightarrow> n = 1" "bit MAP_US n \<longleftrightarrow> n = 2" "bit MAP_NC n \<longleftrightarrow> n = 4"
    by (simp_all add: map_flags)
qed

lemmas entry_bits = flag_bits bit_or_iff bit_and_iff bit_flag_consts bit_frame_of page_aligned_bits

lemma frame_of_aligned [simp]: "page_aligned a \<Longrightarrow> frame_of a = a"
  by (rule bit_word_eqI) (meson bit_frame_of page_aligned_bits not_le)

lemma page_aligned_frame_of [simp]: "page_aligned (frame_of e)"
  unfolding frame_of_def by (rule page_aligned_and_not)

lemma frame_of_or: "frame_of (a OR b) = frame_of a OR frame_of b"
  by (rule bit_word_eqI) (auto simp: entry_bits)

lemma frame_of_flags [simp]:
  "frame_of MAP_PR = 0" "frame_of MAP_RW = 0" "frame_of MAP_US = 0" "frame_of MAP_NC = 0" "frame_of 0 = 0"
  "frame_of (e AND MAP_RW) = 0"
  by (rule bit_word_eqI; auto simp: entry_bits)+

lemma frame_of_user_pte [simp]: "frame_of (user_pte phys flags) = frame_of phys"
  by (simp add: user_pte_def frame_of_or)

lemma present_user_pte [simp]: "present (user_pte phys flags)"
  by (simp add: user_pte_def entry_bits)

subsection \<open>The abstract address space\<close>

text \<open>
  \<open>entry v c n\<close> is the page table entry that governs page \<open>n\<close>: an absent page table stands for 1024
  entries that carry the lazy flags of the directory entry. \<open>ctx_inv\<close> says that the page tables of
  the user part are distinct, allocated frames.
\<close>

definition USER_PDES :: nat where
  "USER_PDES = 960"

definition USER_PAGES :: nat where
  "USER_PAGES = USER_PDES * 1024"

definition vpn :: "u32 \<Rightarrow> nat" where
  "vpn virt = unat (drop_bit 12 virt)"

definition entry :: "vm \<Rightarrow> vmm_context \<Rightarrow> nat \<Rightarrow> u32" where
  "entry v c n =
     (let pde = pd c ! (n div 1024) in
      if present pde then vm_frame v (frame_of pde) ! (n mod 1024)
      else if pde AND MAP_US \<noteq> 0 then (pde AND MAP_RW) OR MAP_US else 0)"

definition vm_inv :: "vm \<Rightarrow> bool" where
  "vm_inv v \<longleftrightarrow> pmm_inv (vm_pmm v) \<and> (\<forall>a. List.length (vm_frame v a) = 1024)"

definition table_at :: "vmm_context \<Rightarrow> nat \<Rightarrow> u32 \<Rightarrow> bool" where
  "table_at c pdi a \<longleftrightarrow> pdi < USER_PDES \<and> present (pd c ! pdi) \<and> frame_of (pd c ! pdi) = a"

definition ctx_inv :: "vm \<Rightarrow> vmm_context \<Rightarrow> bool" where
  "ctx_inv v c \<longleftrightarrow> vm_inv v \<and> List.length (pd c) = 1024
     \<and> (\<forall>pdi a. table_at c pdi a \<longrightarrow> 0 < pmm_users (vm_pmm v) a)
     \<and> (\<forall>i j a. table_at c i a \<longrightarrow> table_at c j a \<longrightarrow> i = j)"

lemma unat_and_3FF: "unat (w AND 0x3FF :: u32) = unat w mod 1024"
  using unat_and_mask [of w 10] by (simp add: mask_eq_exp_minus_1)

lemma pdi_of_vpn: "pdi_of virt = vpn virt div 1024"
  by (simp add: pdi_of_def vpn_def unat_drop_bit div_mult2_eq [symmetric])

lemma pti_of_vpn: "pti_of virt = vpn virt mod 1024"
  by (simp add: pti_of_def vpn_def unat_and_3FF)

lemma vpn_bound: "vpn virt < 1024 * 1024"
  using unat_drop_page [of virt] by (simp add: vpn_def PAGE_SHIFT_def)

lemma pti_of_bound [simp]: "pti_of virt < 1024"
  by (simp add: pti_of_vpn)

lemma pdi_of_bound [simp]: "pdi_of virt < 1024"
  using vpn_bound [of virt] by (simp add: pdi_of_vpn less_mult_imp_div_less)

lemma user_pages:
  "\<not> IS_KERNEL virt \<longleftrightarrow> vpn virt < USER_PAGES" "\<not> IS_KERNEL virt \<longleftrightarrow> pdi_of virt < USER_PDES"
proof -
  have "unat virt < 4026531840 \<longleftrightarrow> unat virt div 4096 < 983040" by (simp add: div_less_iff_less_mult)
  then show 1: "\<not> IS_KERNEL virt \<longleftrightarrow> vpn virt < USER_PAGES"
    by (simp add: IS_KERNEL_def PHYS_BASE_def word_le_nat_alt vpn_def unat_drop_bit USER_PAGES_def
        USER_PDES_def not_le)
  show "\<not> IS_KERNEL virt \<longleftrightarrow> pdi_of virt < USER_PDES"
    unfolding 1 by (simp add: pdi_of_vpn USER_PAGES_def USER_PDES_def div_less_iff_less_mult)
qed

lemma vpn_eq: "n div 1024 = pdi_of virt \<Longrightarrow> n mod 1024 = pti_of virt \<Longrightarrow> n = vpn virt"
  by (metis div_mult_mod_eq pdi_of_vpn pti_of_vpn)

subsection \<open>Keeping the tables apart\<close>

lemma pmm_users_aligned: "0 < pmm_users p a \<Longrightarrow> page_aligned a"
  by (simp add: pmm_users_def split: if_splits)

lemma vm_alloc_Inr:
  assumes "vm_inv v" "vm_alloc v = Inr (a, v')"
  shows "vm_inv v'" "pmm_users (vm_pmm v) a = 0" "page_aligned a" "vm_frame v' = vm_frame v"
    "pmm_users (vm_pmm v') = (pmm_users (vm_pmm v))(a := 1)"
proof -
  from assms obtain p where p: "pmm_alloc (vm_pmm v) = Inr (a, p)" "v' = v\<lparr>vm_pmm := p\<rparr>" "pmm_inv (vm_pmm v)"
    by (auto simp: vm_alloc_def vm_inv_def outcome_simps split: prod.splits)
  note u = pmm_alloc_users [OF p(3,1)]
  from u p(2) show "pmm_users (vm_pmm v) a = 0" "vm_frame v' = vm_frame v"
      "pmm_users (vm_pmm v') = (pmm_users (vm_pmm v))(a := 1)"
    by simp_all
  then show "page_aligned a" by (metis fun_upd_same pmm_users_aligned zero_less_one)
  show "vm_inv v'" using pmm_alloc_inv [OF p(3,1)] assms(1) p(2) by (simp add: vm_inv_def)
qed

lemma vm_free_Inr:
  assumes "vm_inv v" "vm_free v a = Inr v'"
  shows "vm_inv v'" "0 < pmm_users (vm_pmm v) a" "vm_frame v' = vm_frame v"
    "pmm_users (vm_pmm v') = (pmm_users (vm_pmm v))(a := pmm_users (vm_pmm v) a - 1)"
proof -
  from assms obtain p where p: "pmm_free (vm_pmm v) a = Inr p" "v' = v\<lparr>vm_pmm := p\<rparr>" "pmm_inv (vm_pmm v)"
    by (auto simp: vm_free_def vm_inv_def outcome_simps)
  from pmm_free_users [OF p(3,1)] p(2)
  show "0 < pmm_users (vm_pmm v) a" "vm_frame v' = vm_frame v"
    "pmm_users (vm_pmm v') = (pmm_users (vm_pmm v))(a := pmm_users (vm_pmm v) a - 1)"
    by simp_all
  show "vm_inv v'" using pmm_free_inv [OF p(3,1)] assms(1) p(2) by (simp add: vm_inv_def)
qed

lemma pmm_mark_cow_users:
  assumes "pmm_inv p" "pmm_mark_cow p a flag = Inr p'"
  shows "pmm_users p' = pmm_users p"
proof -
  let ?b = "bitmap p ! frame_index p a"
  let ?v = "if flag then ?b OR BITMAP_COW_FLAG else ?b AND NOT BITMAP_COW_FLAG"
  from assms have a: "page_aligned a" "frame_index p a < mem_entries p"
      "p' = p\<lparr>bitmap := (bitmap p)[frame_index p a := ?v]\<rparr>"
    by (auto simp: pmm_mark_cow_def Let_def outcome_simps pmm_inv_def)
  then have "pmm_users p' = (pmm_users p)(a := unat ?v mod 128)"
    using assms(1) by (intro pmm_users_upd) auto
  moreover have "unat ?v mod 128 = unat ?b mod 128" by (simp add: cow_set cow_clear)
  ultimately show ?thesis using a(1,2) by (simp add: pmm_users_def frame_users_def fun_eq_iff)
qed

lemma pmm_mark_cow_is_cow:
  assumes "pmm_inv p" "pmm_mark_cow p a flag = Inr p'"
  shows "pmm_is_cow p' a = Inr flag"
proof -
  let ?b = "bitmap p ! frame_index p a"
  let ?v = "if flag then ?b OR BITMAP_COW_FLAG else ?b AND NOT BITMAP_COW_FLAG"
  from assms have a: "page_aligned a" "frame_index p a < length (bitmap p)" "unat ?b mod 128 \<noteq> 0"
      "p' = p\<lparr>bitmap := (bitmap p)[frame_index p a := ?v]\<rparr>"
    by (auto simp: pmm_mark_cow_def Let_def outcome_simps users_zero_iff)
  have v: "unat ?v mod 128 = unat ?b mod 128" "(128 \<le> unat ?v) = flag"
    by (auto simp: cow_set cow_clear not_le)
  have i: "frame_index p' a = frame_index p a" "bitmap p' ! frame_index p a = ?v"
      "length (bitmap p') = length (bitmap p)"
    using a by (simp_all add: frame_index_def)
  show ?thesis
    using a(1-3) v by (simp add: pmm_is_cow_def i Let_def users_zero_iff cow_flag_iff del: if_split_asm)
qed

lemma vm_mark_cow_Inr:
  assumes "vm_inv v" "vm_mark_cow v a flag = Inr v'"
  shows "vm_inv v'" "vm_frame v' = vm_frame v" "pmm_users (vm_pmm v') = pmm_users (vm_pmm v)"
    "pmm_is_cow (vm_pmm v') a = Inr flag"
proof -
  from assms obtain p where p: "pmm_mark_cow (vm_pmm v) a flag = Inr p" "v' = v\<lparr>vm_pmm := p\<rparr>"
      "pmm_inv (vm_pmm v)"
    by (auto simp: vm_mark_cow_def vm_inv_def outcome_simps)
  show "vm_inv v'" "vm_frame v' = vm_frame v" "pmm_users (vm_pmm v') = pmm_users (vm_pmm v)"
    "pmm_is_cow (vm_pmm v') a = Inr flag"
    using pmm_mark_cow_inv [OF p(3,1)] pmm_mark_cow_users [OF p(3,1)] pmm_mark_cow_is_cow [OF p(3,1)]
      assms(1) p(2)
    by (simp_all add: vm_inv_def)
qed

lemma vm_use_Inr:
  assumes "vm_inv v" "vm_use v a = Inr v'"
  shows "vm_inv v'" "0 < pmm_users (vm_pmm v) a" "vm_frame v' = vm_frame v"
    "pmm_users (vm_pmm v') = (pmm_users (vm_pmm v))(a := pmm_users (vm_pmm v) a + 1)"
proof -
  from assms obtain p where p: "pmm_use (vm_pmm v) a = Inr p" "v' = v\<lparr>vm_pmm := p\<rparr>" "pmm_inv (vm_pmm v)"
    by (auto simp: vm_use_def vm_inv_def outcome_simps)
  from pmm_use_users [OF p(3,1)] p(2)
  show "0 < pmm_users (vm_pmm v) a" "vm_frame v' = vm_frame v"
    "pmm_users (vm_pmm v') = (pmm_users (vm_pmm v))(a := pmm_users (vm_pmm v) a + 1)"
    by simp_all
  show "vm_inv v'" using pmm_use_inv [OF p(3,1)] assms(1) p(2) by (simp add: vm_inv_def)
qed

lemma memsetptr_inv: "vm_inv v \<Longrightarrow> vm_inv (memsetptr v a x)"
  by (simp add: vm_inv_def memsetptr_def)

lemma memsetptr_simps [simp]:
  "vm_pmm (memsetptr v a x) = vm_pmm v" "vm_frame (memsetptr v a x) = (vm_frame v)(a := replicate 1024 x)"
  by (simp_all add: memsetptr_def)

text \<open>Writing an entry of an existing table changes the entry of that page alone.\<close>

definition pt_store :: "vm \<Rightarrow> u32 \<Rightarrow> nat \<Rightarrow> u32 \<Rightarrow> vm" where
  "pt_store v a pti e = v\<lparr>vm_frame := (vm_frame v)(a := (vm_frame v a)[pti := e])\<rparr>"

lemma pt_store_simps [simp]:
  "vm_pmm (pt_store v a pti e) = vm_pmm v"
  "vm_frame (pt_store v a pti e) = (vm_frame v)(a := (vm_frame v a)[pti := e])"
  by (simp_all add: pt_store_def)

lemma pt_set_store:
  "vm_inv v \<Longrightarrow> pti < 1024 \<Longrightarrow> pt_set v pde pti e = Inr (pt_store v (frame_of pde) pti e)"
  by (simp add: pt_set_def pt_store_def vm_inv_def)

lemma pt_store_inv: "ctx_inv v c \<Longrightarrow> ctx_inv (pt_store v a pti e) c"
  by (auto simp: ctx_inv_def vm_inv_def)

lemma pt_store_entry:
  assumes inv: "ctx_inv v c" and pdi: "pdi < USER_PDES" "present (pd c ! pdi)" and pti: "pti < 1024"
    and n: "n < USER_PAGES"
  shows "entry (pt_store v (frame_of (pd c ! pdi)) pti e) c n =
    (if n = pdi * 1024 + pti then e else entry v c n)"
proof -
  let ?a = "frame_of (pd c ! pdi)"
  have len: "length (vm_frame v a) = 1024" for a using inv by (simp add: ctx_inv_def vm_inv_def)
  have tab: "table_at c pdi ?a" using pdi by (simp add: table_at_def)
  have d: "n div 1024 < USER_PDES" using n by (simp add: USER_PAGES_def div_less_iff_less_mult)
  have same: "n div 1024 = pdi" if "present (pd c ! (n div 1024))" "frame_of (pd c ! (n div 1024)) = ?a"
    using inv tab d that unfolding ctx_inv_def table_at_def by blast
  have m: "n = pdi * 1024 + pti \<longleftrightarrow> n div 1024 = pdi \<and> n mod 1024 = pti"
    using pti div_mult_mod_eq [of n 1024] by auto
  show ?thesis
    using len pti pdi(2) same by (auto simp: entry_def Let_def m nth_list_update)
qed

lemma pdi_pti_vpn: "pdi_of virt * 1024 + pti_of virt = vpn virt"
  by (simp add: pdi_of_vpn pti_of_vpn)

lemmas pt_store_entry_vpn = pt_store_entry [where pti = "pti_of virt" and pdi = "pdi_of virt" for virt,
    unfolded pdi_pti_vpn, OF _ _ _ pti_of_bound]

definition is_table :: "vmm_context \<Rightarrow> u32 \<Rightarrow> bool" where
  "is_table c a \<longleftrightarrow> (\<exists>pdi. table_at c pdi a)"

lemma ctx_inv_change:
  assumes "ctx_inv v c" "vm_inv v'" "\<And>a. is_table c a \<Longrightarrow> 0 < pmm_users (vm_pmm v') a"
  shows "ctx_inv v' c"
  using assms unfolding ctx_inv_def is_table_def by blast

lemma ctx_inv_vm: "ctx_inv v c \<Longrightarrow> vm_inv v"
  by (simp add: ctx_inv_def)

lemma ctx_inv_used: "ctx_inv v c \<Longrightarrow> is_table c a \<Longrightarrow> 0 < pmm_users (vm_pmm v) a"
  unfolding ctx_inv_def is_table_def by blast

lemma entry_cong:
  assumes "\<And>a. is_table c a \<Longrightarrow> vm_frame v' a = vm_frame v a" "n < USER_PAGES"
  shows "entry v' c n = entry v c n"
proof -
  have "n div 1024 < USER_PDES" using assms(2) by (simp add: USER_PAGES_def div_less_iff_less_mult)
  then have "present (pd c ! (n div 1024)) \<Longrightarrow> is_table c (frame_of (pd c ! (n div 1024)))"
    by (auto simp: is_table_def table_at_def)
  then show ?thesis using assms(1) by (auto simp: entry_def Let_def)
qed

text \<open>Installing a page table that was not yet one of the context's.\<close>

lemma new_table:
  assumes inv: "ctx_inv v c" and pdi: "pdi < USER_PDES" and new: "\<not> is_table c a"
    and npde: "present npde" "frame_of npde = a"
    and v2: "vm_inv v2" "0 < pmm_users (vm_pmm v2) a"
      "\<And>b. is_table c b \<Longrightarrow> 0 < pmm_users (vm_pmm v2) b \<and> vm_frame v2 b = vm_frame v b"
  shows "ctx_inv v2 (c\<lparr>pd := (pd c)[pdi := npde]\<rparr>)"
    and "n < USER_PAGES \<Longrightarrow> entry v2 (c\<lparr>pd := (pd c)[pdi := npde]\<rparr>) n =
      (if n div 1024 = pdi then vm_frame v2 a ! (n mod 1024) else entry v c n)"
    and "is_table (c\<lparr>pd := (pd c)[pdi := npde]\<rparr>) b \<Longrightarrow> b = a \<or> is_table c b"
proof -
  let ?c = "c\<lparr>pd := (pd c)[pdi := npde]\<rparr>"
  have len: "length (pd c) = 1024" using inv by (simp add: ctx_inv_def)
  have nth: "pd ?c ! i = (if i = pdi then npde else pd c ! i)" if "i < 1024" for i
    using len pdi that by (simp add: nth_list_update USER_PDES_def)
  have tab: "table_at ?c i b \<longleftrightarrow> (if i = pdi then b = a else table_at c i b)" for i b
    using npde pdi nth [of i] by (auto simp: table_at_def USER_PDES_def)
  have used: "0 < pmm_users (vm_pmm v2) b \<and> vm_frame v2 b = vm_frame v b \<and> b \<noteq> a" if "table_at c i b" for i b
    using that v2(3) [of b] new unfolding is_table_def by blast
  have "table_at ?c i b \<Longrightarrow> 0 < pmm_users (vm_pmm v2) b" for i b
    using used [of i b] v2(2) by (simp add: tab split: if_splits)
  moreover have "table_at ?c i b \<Longrightarrow> table_at ?c j b \<Longrightarrow> i = j" for i j b
    using used [of i b] used [of j b] inv by (auto simp: tab ctx_inv_def split: if_splits)
  ultimately show "ctx_inv v2 ?c" using v2(1) len by (simp add: ctx_inv_def)
  show "entry v2 ?c n = (if n div 1024 = pdi then vm_frame v2 a ! (n mod 1024) else entry v c n)"
    if "n < USER_PAGES"
  proof -
    have d: "n div 1024 < USER_PDES" "n div 1024 < 1024"
      using that(1) by (auto simp: USER_PAGES_def USER_PDES_def div_less_iff_less_mult)
    show ?thesis
      using d npde nth [of "n div 1024"] used [of "n div 1024" "frame_of (pd c ! (n div 1024))"]
      by (auto simp: entry_def Let_def table_at_def)
  qed
  show "b = a \<or> is_table c b" if "is_table ?c b"
    using that unfolding is_table_def tab by (auto split: if_splits)
qed

subsection \<open>Mapping a page\<close>

lemma vmmc_address_mapped_entry:
  assumes "ctx_inv v c"
  shows "vmmc_address_mapped v c virt =
    Inr (let e = entry v c (vpn virt) in
         if present e then (access_flags e, Some (frame_of e OR (virt AND 0xFFF))) else (0, None))"
proof -
  have len: "length (pd c) = 1024" "length (vm_frame v a) = 1024" for a
    using assms by (auto simp: ctx_inv_def vm_inv_def)
  have np: "\<not> present ((x AND MAP_RW) OR MAP_US)" "\<not> present 0" for x by (simp_all add: entry_bits)
  show ?thesis
    using len np
    by (simp add: vmmc_address_mapped_def pt_get_def entry_def Let_def pdi_of_vpn [symmetric]
        pti_of_vpn [symmetric])
qed

lemma vm_alloc_defined:
  assumes "vm_inv v" "frame_free (vm_pmm v) k"
  obtains a v' where "vm_alloc v = Inr (a, v')"
proof -
  from assms have "\<exists>a p. pmm_alloc (vm_pmm v) = Inr (a, p)"
    using pmm_alloc_found [of "vm_pmm v"] by (metis exists_least_iff vm_inv_def)
  then show ?thesis using that by (auto simp: vm_alloc_def)
qed

lemma vm_free_defined:
  assumes "vm_inv v" "0 < pmm_users (vm_pmm v) a"
  obtains v' where "vm_free v a = Inr v'"
proof -
  obtain p where "pmm_free (vm_pmm v) a = Inr p"
    using pmm_free_defined [OF _ assms(2)] assms(1) by (auto simp: vm_inv_def)
  then show ?thesis using that by (simp add: vm_free_def)
qed

text \<open>What mapping leaves alone: the heap break, the counts of the frames in use, and all contents but
  those of page tables.\<close>

definition map_frame :: "vm \<Rightarrow> vmm_context \<Rightarrow> vm \<Rightarrow> vmm_context \<Rightarrow> bool" where
  "map_frame v c v' c' \<longleftrightarrow> heap_end c' = heap_end c
     \<and> (\<forall>a. 0 < pmm_users (vm_pmm v) a \<longrightarrow> pmm_users (vm_pmm v') a = pmm_users (vm_pmm v) a
          \<and> (is_table c' a \<longrightarrow> is_table c a) \<and> (\<not> is_table c a \<longrightarrow> vm_frame v' a = vm_frame v a))"

lemma map_frame_refl: "map_frame v c v c"
  by (simp add: map_frame_def)

lemma map_frame_trans:
  assumes "map_frame v c v1 c1" "map_frame v1 c1 v2 c2"
  shows "map_frame v c v2 c2"
  unfolding map_frame_def
proof (intro conjI allI impI)
  show "heap_end c2 = heap_end c" using assms by (simp add: map_frame_def)
  fix a assume a: "0 < pmm_users (vm_pmm v) a"
  with assms(1) have 1: "pmm_users (vm_pmm v1) a = pmm_users (vm_pmm v) a" "is_table c1 a \<Longrightarrow> is_table c a"
    "\<not> is_table c a \<Longrightarrow> vm_frame v1 a = vm_frame v a" by (auto simp: map_frame_def)
  with a assms(2) have 2: "pmm_users (vm_pmm v2) a = pmm_users (vm_pmm v1) a" "is_table c2 a \<Longrightarrow> is_table c1 a"
    "\<not> is_table c1 a \<Longrightarrow> vm_frame v2 a = vm_frame v1 a" by (auto simp: map_frame_def)
  show "pmm_users (vm_pmm v2) a = pmm_users (vm_pmm v) a" using 1(1) 2(1) by simp
  show "is_table c2 a \<Longrightarrow> is_table c a" using 1(2) 2(2) by blast
  show "\<not> is_table c a \<Longrightarrow> vm_frame v2 a = vm_frame v a" using 1 2 by metis
qed

lemma vmmc_map_user_page_fresh:
  assumes inv: "ctx_inv v c" and user: "pdi_of virt < USER_PDES" "\<not> present (pd c ! pdi_of virt)"
    and free: "frame_free (vm_pmm v) k"
  obtains v' c' where "vmmc_map_user_page v c virt phys flags = Inr (v', c')" "ctx_inv v' c'"
    "\<And>n. n < USER_PAGES \<Longrightarrow> entry v' c' n = (if n = vpn virt then user_pte phys flags else entry v c n)"
    "map_frame v c v' c'"
proof -
  let ?pdi = "pdi_of virt" and ?pde = "pd c ! pdi_of virt"
  have vi: "vm_inv v" and len: "length (pd c) = 1024" using inv by (auto simp: ctx_inv_def)
  obtain a v1 where al: "vm_alloc v = Inr (a, v1)" using vm_alloc_defined [OF vi free] .
  note ai = vm_alloc_Inr [OF vi al]
  define lz where "lz = (if ?pde AND MAP_US \<noteq> 0 then (?pde AND MAP_RW) OR MAP_US else 0)"
  define npde where "npde = a OR MAP_PR OR (if lz \<noteq> 0 then lz else MAP_RW OR MAP_US)"
  let ?v2 = "memsetptr v1 a lz" and ?c2 = "c\<lparr>pd := (pd c)[?pdi := npde]\<rparr>"
  have np: "present npde" "frame_of npde = a"
    using ai(3) by (auto simp: npde_def lz_def flag_bits(1) entry_bits frame_of_or)
  have na: "\<not> is_table c a" using ctx_inv_used [OF inv, of a] ai(2) by auto
  have keep: "is_table c b \<Longrightarrow> 0 < pmm_users (vm_pmm ?v2) b \<and> vm_frame ?v2 b = vm_frame v b" for b
    using ctx_inv_used [OF inv, of b] ai by auto
  with na have ft: "ctx_inv ?v2 ?c2"
    "n < USER_PAGES \<Longrightarrow> entry ?v2 ?c2 n = (if n div 1024 = ?pdi then vm_frame ?v2 a ! (n mod 1024) else entry v c n)" for n
    using new_table [OF inv user(1) _ np memsetptr_inv [OF ai(1)]] ai(5) by simp_all
  note inv2 = ft(1)
  have e2: "entry ?v2 ?c2 n = entry v c n" if "n < USER_PAGES" for n
    using ft(2) [OF that] user(2) by (auto simp: entry_def [of v c] Let_def lz_def)
  have nth: "pd ?c2 ! ?pdi = npde" using len user(1) by (simp add: USER_PDES_def)
  let ?v3 = "pt_store ?v2 a (pti_of virt) (user_pte phys flags)"
  have "pt_set ?v2 npde (pti_of virt) (user_pte phys flags) = Inr ?v3"
    using inv2 by (simp add: pt_set_store np(2) ctx_inv_def)
  then have "vmmc_map_user_page v c virt phys flags = Inr (?v3, ?c2)"
    using user user_pages(2) [of virt] len al np(2)
    by (simp add: vmmc_map_user_page_def Let_def lz_def [symmetric] npde_def [symmetric])
  moreover have "ctx_inv ?v3 ?c2" using inv2 by (rule pt_store_inv)
  moreover have "entry ?v3 ?c2 n = (if n = vpn virt then user_pte phys flags else entry v c n)"
    if n: "n < USER_PAGES" for n
    using pt_store_entry_vpn [OF inv2 user(1) _ n, unfolded nth np(2)] np(1) e2 [OF n] by simp
  moreover have "map_frame v c ?v3 ?c2"
  proof -
    have "a \<noteq> b" if "0 < pmm_users (vm_pmm v) b" for b using that ai(2) by auto
    moreover have "is_table ?c2 b \<Longrightarrow> b = a \<or> is_table c b" for b
      using new_table(3) [OF inv user(1) na np ft(1) [THEN ctx_inv_vm] _ keep, of b] ai(5) by simp
    ultimately show ?thesis using ai(4,5) by (auto simp: map_frame_def)
  qed
  ultimately show ?thesis using that by blast
qed

lemma vmmc_map_user_page_ok:
  assumes inv: "ctx_inv v c" and user: "\<not> IS_KERNEL virt"
    and room: "present (pd c ! pdi_of virt) \<or> frame_free (vm_pmm v) k"
  obtains v' c' where "vmmc_map_user_page v c virt phys flags = Inr (v', c')" "ctx_inv v' c'"
    "\<And>n. n < USER_PAGES \<Longrightarrow> entry v' c' n = (if n = vpn virt then user_pte phys flags else entry v c n)"
    "map_frame v c v' c'"
proof (cases "present (pd c ! pdi_of virt)")
  case True
  have len: "length (pd c) = 1024" using inv by (simp add: ctx_inv_def)
  have u: "pdi_of virt < USER_PDES" using user by (simp add: user_pages(2))
  let ?v = "pt_store v (frame_of (pd c ! pdi_of virt)) (pti_of virt) (user_pte phys flags)"
  have "vmmc_map_user_page v c virt phys flags = Inr (?v, c)"
    using user len True inv by (simp add: vmmc_map_user_page_def pt_set_store ctx_inv_def)
  moreover have "map_frame v c ?v c"
    using u True by (auto simp: map_frame_def is_table_def table_at_def)
  ultimately show ?thesis
    using that pt_store_inv [OF inv] pt_store_entry_vpn [OF inv u True] by blast
next
  case False
  with room have free: "frame_free (vm_pmm v) k" by simp
  have u: "pdi_of virt < USER_PDES" using user by (simp add: user_pages(2))
  show ?thesis
    using vmmc_map_user_page_fresh [OF inv u False free, of phys flags] that by blast
qed

lemma vmmc_map_user_page_Inr:
  assumes inv: "ctx_inv v c" and user: "\<not> IS_KERNEL virt"
    and run: "vmmc_map_user_page v c virt phys flags = Inr (v', c')"
  shows "ctx_inv v' c'" "map_frame v c v' c'"
    "\<And>n. n < USER_PAGES \<Longrightarrow> entry v' c' n = (if n = vpn virt then user_pte phys flags else entry v c n)"
proof -
  have len: "length (pd c) = 1024" and vi: "vm_inv v" using inv by (auto simp: ctx_inv_def)
  have "\<exists>k. present (pd c ! pdi_of virt) \<or> frame_free (vm_pmm v) k"
  proof (cases "present (pd c ! pdi_of virt)")
    case False
    with run user len obtain a p where "pmm_alloc (vm_pmm v) = Inr (a, p)"
      by (auto simp: vmmc_map_user_page_def Let_def outcome_simps vm_alloc_def split: prod.splits)
    then show ?thesis using pmm_alloc_none [of "vm_pmm v"] vi by (auto simp: vm_inv_def)
  qed simp
  then obtain k where "present (pd c ! pdi_of virt) \<or> frame_free (vm_pmm v) k" by blast
  from vmmc_map_user_page_ok [OF inv user this, of phys flags] obtain v1 c1 where
    m: "vmmc_map_user_page v c virt phys flags = Inr (v1, c1)" "ctx_inv v1 c1"
    "\<And>n. n < USER_PAGES \<Longrightarrow> entry v1 c1 n = (if n = vpn virt then user_pte phys flags else entry v c n)"
    "map_frame v c v1 c1" by blast
  have eq: "v1 = v'" "c1 = c'" using m(1) run by simp_all
  show "ctx_inv v' c'" "map_frame v c v' c'" using m(2,4) by (simp_all add: eq)
  show "entry v' c' n = (if n = vpn virt then user_pte phys flags else entry v c n)" if "n < USER_PAGES" for n
    using m(3) [OF that] by (simp add: eq)
qed

text \<open>
  C1: mapping a page of the user part refines the update of the abstract address space at that one
  page: it succeeds when the page table exists or a frame is free for it, keeps the tables apart,
  leaves every other page's entry (lazy mappings included) as it was, and the address then
  translates to the given frame with the access rights asked for.
\<close>

theorem vmmc_map_user_page_refines:
  assumes "ctx_inv v c" and "\<not> IS_KERNEL virt"
    and "present (pd c ! pdi_of virt) \<or> frame_free (vm_pmm v) k"
  shows "\<exists>v' c'. vmmc_map_user_page v c virt phys flags = Inr (v', c') \<and> ctx_inv v' c'
    \<and> (\<forall>n < USER_PAGES. entry v' c' n = (if n = vpn virt then user_pte phys flags else entry v c n))
    \<and> vmmc_address_mapped v' c' virt =
        Inr (access_flags (user_pte phys flags), Some (frame_of phys OR (virt AND 0xFFF)))"
proof -
  obtain v' c' where m: "vmmc_map_user_page v c virt phys flags = Inr (v', c')" "ctx_inv v' c'"
    "\<And>n. n < USER_PAGES \<Longrightarrow> entry v' c' n = (if n = vpn virt then user_pte phys flags else entry v c n)"
    using vmmc_map_user_page_ok [OF assms, of phys flags] by blast
  moreover have "entry v' c' (vpn virt) = user_pte phys flags"
    using m(3) assms(2) by (simp add: user_pages(1))
  ultimately show ?thesis by (auto simp: vmmc_address_mapped_entry)
qed

definition demo_vm :: vm where
  "demo_vm = \<lparr>vm_pmm = demo_pmm, vm_frame = (\<lambda>a. replicate 1024 0)\<rparr>"

definition demo_ctx :: vmm_context where
  "demo_ctx = \<lparr>cr3 = 0, pd = replicate 1024 0, heap_end = 0, users = 1\<rparr>"

lemma demo_ctx_inv: "ctx_inv demo_vm demo_ctx"
  using demo_pmm_inv
  by (auto simp: ctx_inv_def vm_inv_def demo_vm_def demo_ctx_def table_at_def USER_PDES_def flag_bits(1))

theorem vmmc_map_user_page_refines_witness:
  "\<exists>v c. vmmc_map_user_page demo_vm demo_ctx 0x1000 0x5000 VMM_UR = Inr (v, c)
     \<and> vmmc_address_mapped v c 0x1000 = Inr (VMM_PR OR VMM_PX OR VMM_UR OR VMM_UX, Some 0x5000)"
proof -
  have "frame_free (vm_pmm demo_vm) 2" by (simp add: frame_free_def demo_vm_def demo_pmm_def)
  moreover have "\<not> IS_KERNEL 0x1000" by (simp add: IS_KERNEL_def PHYS_BASE_def)
  moreover have "access_flags (user_pte 0x5000 VMM_UR) = VMM_PR OR VMM_PX OR VMM_UR OR VMM_UX"
    by (simp add: access_flags_def user_pte_def frame_of_def map_flags vmm_flags)
  moreover have "frame_of 0x5000 OR (0x1000 AND 0xFFF) = 0x5000" by (simp add: frame_of_def)
  ultimately show ?thesis
    using vmmc_map_user_page_refines [OF demo_ctx_inv, of "0x1000" 2 "0x5000" VMM_UR] by metis
qed

subsection \<open>Copy on write\<close>

lemma pmm_is_cow_Inr:
  assumes "pmm_inv p" "pmm_is_cow p a = Inr b"
  shows "page_aligned a" "0 < pmm_users p a" "pmm_user_count p a = Inr (of_nat (pmm_users p a))"
    "\<exists>p'. pmm_mark_cow p a flag = Inr p'"
proof -
  let ?b = "bitmap p ! frame_index p a"
  from assms have a: "page_aligned a" "frame_index p a < mem_entries p" "length (bitmap p) = mem_entries p"
      "?b AND BITMAP_USERS \<noteq> 0"
    by (auto simp: pmm_is_cow_def pmm_inv_def Let_def outcome_simps)
  then show "page_aligned a" "0 < pmm_users p a" "\<exists>p'. pmm_mark_cow p a flag = Inr p'"
    by (auto simp: pmm_users_def frame_users_def users_zero_iff pmm_mark_cow_def Let_def)
  have "of_nat (pmm_users p a) = ?b AND BITMAP_USERS"
    using a by (simp add: pmm_users_def frame_users_def unat_users [symmetric])
  then show "pmm_user_count p a = Inr (of_nat (pmm_users p a))"
    using a by (simp add: pmm_user_count_def)
qed

lemma pmm_users_bound: "pmm_users p a < 128"
  by (simp add: pmm_users_def frame_users_def)

definition cow_done :: "vm \<Rightarrow> vmm_context \<Rightarrow> u32 \<Rightarrow> vm \<Rightarrow> bool" where
  "cow_done v c address v' \<longleftrightarrow>
     (let old = frame_of (entry v c (vpn address)); e = entry v' c (vpn address) in
      ctx_inv v' c \<and> present e \<and> e AND MAP_RW \<noteq> 0
      \<and> pmm_users (vm_pmm v') (frame_of e) = 1
      \<and> vm_frame v' (frame_of e) = vm_frame v old
      \<and> (1 < pmm_users (vm_pmm v) old \<longrightarrow>
           frame_of e \<noteq> old \<and> pmm_users (vm_pmm v) (frame_of e) = 0
           \<and> pmm_users (vm_pmm v') old = pmm_users (vm_pmm v) old - 1
           \<and> vm_frame v' old = vm_frame v old)
      \<and> (\<forall>n < USER_PAGES. n \<noteq> vpn address \<longrightarrow> entry v' c n = entry v c n)
      \<and> (\<forall>a. \<not> is_table c a \<and> 0 < pmm_users (vm_pmm v) a \<longrightarrow> vm_frame v' a = vm_frame v a))"

lemma do_cow_sole:
  assumes inv: "ctx_inv v c" and user: "pdi_of address < USER_PDES"
    and e: "e = entry v c (vpn address)" "present e" "present (pd c ! pdi_of address)"
    and priv: "\<not> is_table c (frame_of e)"
    and one: "pmm_users (vm_pmm v) (frame_of e) = 1"
    and v1: "v1 = pt_store v (frame_of (pd c ! pdi_of address)) (pti_of address) (e OR MAP_RW)"
    and mark: "vm_mark_cow v1 (frame_of e) False = Inr v2"
  shows "cow_done v c address v2"
proof -
  let ?t = "frame_of (pd c ! pdi_of address)"
  have tab: "is_table c ?t" using user e(3) by (auto simp: is_table_def table_at_def)
  have inv1: "ctx_inv v1 c" unfolding v1 by (rule pt_store_inv [OF inv])
  then have vi1: "vm_inv v1" by (simp add: ctx_inv_def)
  note m = vm_mark_cow_Inr [OF vi1 mark]
  have fr: "vm_frame v2 = (vm_frame v)(?t := (vm_frame v ?t)[pti_of address := e OR MAP_RW])"
    and us: "pmm_users (vm_pmm v2) = pmm_users (vm_pmm v)"
    using m by (simp_all add: v1)
  have "ctx_inv v2 c" using ctx_inv_change [OF inv1 m(1)] ctx_inv_used [OF inv] us by simp
  moreover have en: "entry v2 c n = (if n = vpn address then e OR MAP_RW else entry v c n)"
    if "n < USER_PAGES" for n
    using entry_cong [of c v2 v1 n] m(2) pt_store_entry_vpn [OF inv user e(3) that] that
    by (simp add: v1)
  moreover have "vpn address < USER_PAGES" using user user_pages by blast
  moreover have "frame_of (e OR MAP_RW) = frame_of e" by (simp add: frame_of_or)
  moreover have "?t \<noteq> frame_of e" using tab priv by auto
  ultimately show ?thesis
    using one e(2) tab unfolding cow_done_def Let_def e(1) [symmetric]
    by (simp add: us fr) (auto simp: entry_bits)
qed

lemma do_cow_copy:
  assumes inv: "ctx_inv v c" and user: "pdi_of address < USER_PDES"
    and e: "e = entry v c (vpn address)" "present (pd c ! pdi_of address)"
    and priv: "\<not> is_table c (frame_of e)"
    and many: "1 < pmm_users (vm_pmm v) (frame_of e)"
    and al: "vm_alloc v = Inr (npf, v1)"
    and fr: "vm_free (memcpy_page v1 npf (frame_of e)) (frame_of e) = Inr v2"
    and v3: "v3 = pt_store v2 (frame_of (pd c ! pdi_of address)) (pti_of address)
                    (npf OR MAP_PR OR MAP_RW OR MAP_US)"
  shows "ctx_inv v2 c \<and> cow_done v c address v3"
proof -
  let ?t = "frame_of (pd c ! pdi_of address)" and ?o = "frame_of e"
    and ?n = "npf OR MAP_PR OR MAP_RW OR MAP_US"
  have vi: "vm_inv v" using inv by (simp add: ctx_inv_def)
  note a = vm_alloc_Inr [OF vi al]
  have vc: "vm_inv (memcpy_page v1 npf ?o)" using a(1) by (simp add: memcpy_page_def vm_inv_def)
  note f = vm_free_Inr [OF vc fr]
  have fr2: "vm_frame v2 = (vm_frame v)(npf := vm_frame v ?o)"
    using f(3) a(4) by (simp add: memcpy_page_def)
  have ne: "npf \<noteq> ?o" using many a(2) by auto
  have us2: "pmm_users (vm_pmm v2) = (pmm_users (vm_pmm v))(npf := 1, ?o := pmm_users (vm_pmm v) ?o - 1)"
    using f(4) a(5) ne by (auto simp: memcpy_page_def)
  have nt: "\<not> is_table c npf" using ctx_inv_used [OF inv, of npf] a(2) by auto
  have inv2: "ctx_inv v2 c"
    by (rule ctx_inv_change [OF inv f(1)]) (use ctx_inv_used [OF inv] priv in \<open>auto simp: us2\<close>)
  have e2: "entry v2 c n = entry v c n" if "n < USER_PAGES" for n
    by (rule entry_cong) (use nt that in \<open>auto simp: fr2\<close>)
  have en: "entry v3 c n = (if n = vpn address then ?n else entry v c n)" if "n < USER_PAGES" for n
    using pt_store_entry_vpn [OF inv2 user e(2) that] e2 [OF that] by (simp add: v3)
  have tab: "is_table c ?t" using user e(2) by (auto simp: is_table_def table_at_def)
  have tn: "?t \<noteq> npf" "?t \<noteq> ?o" using tab nt priv by auto
  have fn: "frame_of ?n = npf" using a(3) by (simp add: frame_of_or)
  have vp: "vpn address < USER_PAGES" using user user_pages by blast
  have "ctx_inv v3 c" unfolding v3 by (rule pt_store_inv [OF inv2])
  then have "cow_done v c address v3"
    unfolding cow_done_def Let_def e(1) [symmetric]
    using en vp fn tn ne many a(2) tab
    by (simp add: v3 fr2 us2) (auto simp: entry_bits)
  with inv2 show ?thesis by simp
qed

text \<open>
  C8: a write fault on a present, read-only page whose frame is marked copy-on-write is resolved:
  \<open>vmmc_do_cow\<close> succeeds if the frame has one user or a frame is free for the copy; afterwards the
  page is writable, its frame has this one user and the same contents as before, a frame that was
  shared loses one user and keeps its contents, and no other page or frame in use changes.
\<close>

theorem vmmc_do_cow_resolves:
  assumes inv: "ctx_inv v c" and user: "\<not> IS_KERNEL address"
    and e: "e = entry v c (vpn address)" "present e" "e AND MAP_RW = 0" "\<not> is_table c (frame_of e)"
    and cow: "pmm_is_cow (vm_pmm v) (frame_of e) = Inr True"
    and room: "pmm_users (vm_pmm v) (frame_of e) = 1 \<or> frame_free (vm_pmm v) k"
  shows "\<exists>v'. vmmc_do_cow v c address = Inr (True, v') \<and> cow_done v c address v'"
proof -
  let ?pde = "pd c ! pdi_of address" and ?u = "pmm_users (vm_pmm v) (frame_of e)"
  have u: "pdi_of address < USER_PDES" using user by (simp add: user_pages(2))
  have vi: "vm_inv v" and pi: "pmm_inv (vm_pmm v)" and len: "length (pd c) = 1024"
    "length (vm_frame v a) = 1024" for a using inv by (auto simp: ctx_inv_def vm_inv_def)
  have p: "present ?pde" and pt: "vm_frame v (frame_of ?pde) ! pti_of address = e"
    using e(1,2) by (auto simp: entry_def Let_def pdi_of_vpn pti_of_vpn entry_bits split: if_splits)
  note ic = pmm_is_cow_Inr [OF pi cow]
  have cnt: "(of_nat ?u :: u8) = 0 \<longleftrightarrow> ?u = 0" "(of_nat ?u :: u8) = 1 \<longleftrightarrow> ?u = 1"
    using pmm_users_bound [of "vm_pmm v" "frame_of e"] by (auto simp: word_unat_eq_iff unat_of_nat)
  note def = vmmc_do_cow_def [of v c address] 
  show ?thesis
  proof (cases "?u = 1")
    case True
    let ?v1 = "pt_store v (frame_of ?pde) (pti_of address) (e OR MAP_RW)"
    obtain v2 where v2: "vm_mark_cow ?v1 (frame_of e) False = Inr v2"
      using ic(4) [of False] by (auto simp: vm_mark_cow_def)
    have "vmmc_do_cow v c address = Inr (True, v2)"
      using len p pt e(2,3) cow ic(3) cnt True v2 pt_set_store [OF vi]
      by (simp add: def pt_get_def Let_def)
    with do_cow_sole [OF inv u e(1,2) p e(4) True refl v2] show ?thesis by blast
  next
    case False
    with room obtain npf v1 where al: "vm_alloc v = Inr (npf, v1)" using vm_alloc_defined [OF vi] by blast
    note a = vm_alloc_Inr [OF vi al]
    have "npf \<noteq> frame_of e" using ic(2) a(2) by auto
    then have us: "0 < pmm_users (vm_pmm v1) (frame_of e)" using a(5) ic(2) by simp
    have "vm_inv (memcpy_page v1 npf (frame_of e))" "vm_pmm (memcpy_page v1 npf (frame_of e)) = vm_pmm v1"
      using a(1) by (simp_all add: memcpy_page_def vm_inv_def)
    then obtain v2 where v2: "vm_free (memcpy_page v1 npf (frame_of e)) (frame_of e) = Inr v2"
      using vm_free_defined us by metis
    note cp = do_cow_copy [OF inv u e(1) p e(4) _ al v2 refl]
    have "ctx_inv v2 c" using cp False ic(2) by simp
    then have "vmmc_do_cow v c address = Inr (True, pt_store v2 (frame_of ?pde) (pti_of address)
        (npf OR MAP_PR OR MAP_RW OR MAP_US))"
      using len p pt e(2,3) cow ic(2,3) cnt False al v2 pt_set_store [of v2]
      by (simp add: def pt_get_def Let_def ctx_inv_def)
    with cp False ic(2) show ?thesis by simp
  qed
qed

text \<open>A context with one page table, at 0x100000, whose second page is mapped read-only to the shared
  frame 0x101000.\<close>

definition demo_cow_vm :: vm where
  "demo_cow_vm = \<lparr>vm_pmm = \<lparr>mem_base = 0x100000, mem_entries = 4, bitmap = [1, 0x82, 0, 0], look_from_here = 2\<rparr>,
     vm_frame = (\<lambda>a. if a = 0x100000 then (replicate 1024 0)[1 := 0x101005] else replicate 1024 7)\<rparr>"

definition demo_cow_ctx :: vmm_context where
  "demo_cow_ctx = \<lparr>cr3 = 0, pd = (replicate 1024 0)[0 := 0x100007], heap_end = 0, users = 1\<rparr>"

lemma demo_cow_pd: "i < 1024 \<Longrightarrow> pd demo_cow_ctx ! i = (if i = 0 then 0x100007 else 0)"
  by (simp add: demo_cow_ctx_def nth_list_update)

lemma demo_cow_table: "table_at demo_cow_ctx pdi a \<longleftrightarrow> pdi = 0 \<and> a = 0x100000"
  by (cases "pdi = 0") (auto simp: table_at_def USER_PDES_def demo_cow_pd flag_bits(1) frame_of_def)

lemma demo_cow_inv: "ctx_inv demo_cow_vm demo_cow_ctx"
proof -
  have "pmm_inv (vm_pmm demo_cow_vm)"
    by (auto simp: demo_cow_vm_def pmm_inv_def page_aligned_def PAGE_SIZE_def less_2_cases_iff)
  moreover have "pmm_users (vm_pmm demo_cow_vm) 0x100000 = 1"
    by (simp add: demo_cow_vm_def pmm_users_def frame_users_def frame_index_def page_aligned_def
        PAGE_SIZE_def PAGE_SHIFT_def)
  ultimately show ?thesis
    by (auto simp: ctx_inv_def vm_inv_def demo_cow_table)
       (simp_all add: demo_cow_vm_def demo_cow_ctx_def)
qed

lemma demo_cow_entry: "entry demo_cow_vm demo_cow_ctx 1 = 0x101005"
  by (simp add: entry_def Let_def demo_cow_pd flag_bits(1) frame_of_def demo_cow_vm_def)

lemma demo_cow_frame: "frame_of 0x101005 = 0x101000" "vpn 0x1234 = 1"
  by (simp_all add: frame_of_def vpn_def)

theorem vmmc_do_cow_resolves_witness:
  "\<exists>v. vmmc_do_cow demo_cow_vm demo_cow_ctx 0x1234 = Inr (True, v)
     \<and> cow_done demo_cow_vm demo_cow_ctx 0x1234 v"
proof (rule vmmc_do_cow_resolves [OF demo_cow_inv, where e = "0x101005" and k = 2])
  show "\<not> IS_KERNEL 0x1234" by (simp add: IS_KERNEL_def PHYS_BASE_def)
  show "0x101005 = entry demo_cow_vm demo_cow_ctx (vpn 0x1234)"
    by (simp only: demo_cow_frame demo_cow_entry)
  show "present 0x101005" "(0x101005 :: u32) AND MAP_RW = 0" by (simp_all add: flag_bits(1) map_flags)
  show "\<not> is_table demo_cow_ctx (frame_of 0x101005)"
    by (simp add: is_table_def demo_cow_table demo_cow_frame)
  show "pmm_is_cow (vm_pmm demo_cow_vm) (frame_of 0x101005) = Inr True"
    unfolding demo_cow_frame
    by (simp add: demo_cow_vm_def pmm_is_cow_def page_aligned_def PAGE_SIZE_def PAGE_SHIFT_def
        frame_index_def bitmap_masks)
  show "pmm_users (vm_pmm demo_cow_vm) (frame_of 0x101005) = 1 \<or> frame_free (vm_pmm demo_cow_vm) 2"
    by (simp add: frame_free_def demo_cow_vm_def)
qed

subsection \<open>Cloning an address space\<close>

definition cow_frame :: "vm \<Rightarrow> u32 \<Rightarrow> bool" where
  "cow_frame v a \<longleftrightarrow> pmm_is_cow (vm_pmm v) a = Inr True"

definition clone_src :: "u32 \<Rightarrow> u32" where
  "clone_src e = (if present e then e AND NOT MAP_RW else e)"

definition clone_dst :: "u32 \<Rightarrow> u32" where
  "clone_dst e = (if present e then frame_of e OR MAP_PR OR MAP_US else e)"

lemma pmm_is_cow_iff:
  assumes "pmm_inv p"
  shows "pmm_is_cow p a = Inr True \<longleftrightarrow> 0 < pmm_users p a \<and> 128 \<le> unat (bitmap p ! frame_index p a)"
  using assms
  by (auto simp: pmm_is_cow_def pmm_inv_def Let_def outcome_simps pmm_users_def frame_users_def
      users_zero_iff cow_flag_iff)

lemma cow_byte_inc: "unat (b :: u8) mod 128 < 127 \<Longrightarrow> 128 \<le> unat b \<Longrightarrow> 128 \<le> unat (b + 1)"
proof -
  assume a: "unat b mod 128 < 127" "128 \<le> unat b"
  have "unat b < 256" using unsigned_less [of b, where ?'a = nat] by simp
  moreover have "unat b \<noteq> 255" using a(1) by auto
  ultimately have "unat b < 255" by simp
  with a(2) show ?thesis by (simp add: u8_inc)
qed

lemma pmm_use_cow:
  assumes "pmm_inv p" "pmm_use p b = Inr p'" "pmm_is_cow p a = Inr True"
  shows "pmm_is_cow p' a = Inr True"
proof -
  from assms(1,2) have b: "frame_index p b < length (bitmap p)"
      "p' = p\<lparr>bitmap := (bitmap p)[frame_index p b := bitmap p ! frame_index p b + 1]\<rparr>"
      "unat (bitmap p ! frame_index p b) mod 128 < 127"
    by (auto simp: pmm_use_def Let_def outcome_simps users_full_iff)
  have i: "frame_index p' a = frame_index p a" using b(2) by (simp add: frame_index_def)
  have "0 < pmm_users p' a"
    using pmm_use_users [OF assms(1,2)] assms(3) by (simp add: pmm_is_cow_iff [OF assms(1)])
  moreover have "128 \<le> unat (bitmap p' ! frame_index p a)"
    using assms(3) b cow_byte_inc [OF b(3)]
    by (cases "frame_index p a = frame_index p b") (simp_all add: pmm_is_cow_iff [OF assms(1)])
  ultimately show ?thesis using i by (simp add: pmm_is_cow_iff [OF pmm_use_inv [OF assms(1,2)]])
qed

lemma pmm_mark_cow_keeps:
  assumes "pmm_inv p" "pmm_mark_cow p b True = Inr p'" "pmm_is_cow p a = Inr True"
  shows "pmm_is_cow p' a = Inr True"
proof -
  from assms(1,2) have b: "frame_index p b < length (bitmap p)"
      "p' = p\<lparr>bitmap := (bitmap p)[frame_index p b := bitmap p ! frame_index p b OR BITMAP_COW_FLAG]\<rparr>"
    by (auto simp: pmm_mark_cow_def Let_def outcome_simps)
  have i: "frame_index p' a = frame_index p a" using b(2) by (simp add: frame_index_def)
  have "0 < pmm_users p' a"
    using pmm_mark_cow_users [OF assms(1,2)] assms(3) by (simp add: pmm_is_cow_iff [OF assms(1)])
  moreover have "128 \<le> unat (bitmap p' ! frame_index p a)"
    using assms(3) b
    by (cases "frame_index p a = frame_index p b") (simp_all add: pmm_is_cow_iff [OF assms(1)] cow_set)
  ultimately show ?thesis using i by (simp add: pmm_is_cow_iff [OF pmm_mark_cow_inv [OF assms(1,2)]])
qed

lemma vm_use_cow:
  "vm_inv v \<Longrightarrow> vm_use v b = Inr v' \<Longrightarrow> cow_frame v a \<Longrightarrow> cow_frame v' a"
  by (auto simp: vm_use_def cow_frame_def vm_inv_def outcome_simps intro: pmm_use_cow)

lemma vm_mark_cow_keeps:
  "vm_inv v \<Longrightarrow> vm_mark_cow v b True = Inr v' \<Longrightarrow> cow_frame v a \<Longrightarrow> cow_frame v' a"
  by (auto simp: vm_mark_cow_def cow_frame_def vm_inv_def outcome_simps intro: pmm_mark_cow_keeps)

lemma vm_alloc_cow:
  assumes "vm_inv v" "vm_alloc v = Inr (b, v')" "cow_frame v a"
  shows "cow_frame v' a"
proof -
  from assms obtain p where p: "pmm_alloc (vm_pmm v) = Inr (b, p)" "v' = v\<lparr>vm_pmm := p\<rparr>" "pmm_inv (vm_pmm v)"
    by (auto simp: vm_alloc_def vm_inv_def outcome_simps split: prod.splits)
  from p(3,1) obtain j where j: "frame_free (vm_pmm v) j"
      "p = (vm_pmm v)\<lparr>bitmap := (bitmap (vm_pmm v))[j := 1], look_from_here := j\<rparr>"
    by (rule pmm_alloc_InrE)
  have c: "0 < pmm_users (vm_pmm v) a" "128 \<le> unat (bitmap (vm_pmm v) ! frame_index (vm_pmm v) a)"
    using assms(3) by (auto simp: cow_frame_def pmm_is_cow_iff [OF p(3)])
  have "j \<noteq> frame_index (vm_pmm v) a" using j(1) c(2) by (auto simp: frame_free_def)
  moreover have "0 < pmm_users p a" using pmm_alloc_users [OF p(3,1)] c(1) by simp
  moreover have "frame_index p a = frame_index (vm_pmm v) a" using j(2) by (simp add: frame_index_def)
  moreover have "128 \<le> unat (bitmap p ! frame_index (vm_pmm v) a)"
    using c(2) j(2) calculation(1) by simp
  ultimately have "pmm_is_cow p a = Inr True" by (simp only: pmm_is_cow_iff [OF pmm_alloc_inv [OF p(3,1)]])
  then show ?thesis using p(2) by (simp add: cow_frame_def)
qed

lemma clone_pt_Inr:
  assumes "vm_inv v" "clone_pt v es = Inr (v', spt, npt)"
  shows "vm_inv v' \<and> vm_frame v' = vm_frame v \<and> spt = map clone_src es \<and> npt = map clone_dst es
    \<and> (\<forall>a. pmm_users (vm_pmm v') a =
          pmm_users (vm_pmm v) a + List.length (filter (\<lambda>e. present e \<and> frame_of e = a) es))
    \<and> (\<forall>a. cow_frame v a \<longrightarrow> cow_frame v' a)
    \<and> (\<forall>e \<in> set es. present e \<longrightarrow> cow_frame v' (frame_of e))"
  using assms
proof (induction es arbitrary: v v' spt npt)
  case (Cons e es)
  show ?case
  proof (cases "present e")
    case False
    with Cons.prems(2) obtain spt' npt' where
      r: "clone_pt v es = Inr (v', spt', npt')" "spt = e # spt'" "npt = e # npt'"
      by (auto simp: outcome_simps)
    with Cons.IH [OF Cons.prems(1) r(1)] False show ?thesis by (auto simp: clone_src_def clone_dst_def)
  next
    case True
    with Cons.prems(2) obtain v1 v2 spt' npt' where
      r: "vm_use v (frame_of e) = Inr v1" "vm_mark_cow v1 (frame_of e) True = Inr v2"
        "clone_pt v2 es = Inr (v', spt', npt')" "spt = clone_src e # spt'" "npt = clone_dst e # npt'"
      by (auto simp: outcome_simps clone_src_def clone_dst_def)
    note u = vm_use_Inr [OF Cons.prems(1) r(1)]
    note m = vm_mark_cow_Inr [OF u(1) r(2)]
    note IH = Cons.IH [OF m(1) r(3)]
    have "cow_frame v a \<Longrightarrow> cow_frame v' a" for a
      using IH vm_use_cow [OF Cons.prems(1) r(1)] vm_mark_cow_keeps [OF u(1) r(2)] by blast
    moreover have "cow_frame v' (frame_of e)" using IH m(4) by (simp add: cow_frame_def)
    moreover have "pmm_users (vm_pmm v') a = pmm_users (vm_pmm v) a
        + length (filter (\<lambda>e. present e \<and> frame_of e = a) (e # es))" for a
      using IH m(3) u(4) True by simp
    ultimately show ?thesis using IH m(2) u(3) r(4,5) by auto
  qed
qed simp

text \<open>What the loop of \<open>vmmc_clone\<close> has established after \<open>k\<close> directory entries: \<open>e\<close> are the entries of
  the source when it started.\<close>

definition refs_below :: "(nat \<Rightarrow> u32) \<Rightarrow> nat \<Rightarrow> u32 \<Rightarrow> nat" where
  "refs_below e k a = List.length (filter (\<lambda>n. present (e n) \<and> frame_of (e n) = a) [0..<k * 1024])"

definition clone_upto :: "vm \<Rightarrow> (nat \<Rightarrow> u32) \<Rightarrow> vmm_context \<Rightarrow> nat \<Rightarrow> vm \<Rightarrow> vmm_context \<Rightarrow> bool" where
  "clone_upto v0 e source k v d \<longleftrightarrow>
     ctx_inv v source \<and> ctx_inv v d \<and> (\<forall>a. is_table source a \<longrightarrow> \<not> is_table d a)
     \<and> (\<forall>pdi. k \<le> pdi \<and> pdi < USER_PDES \<longrightarrow> \<not> present (pd d ! pdi))
     \<and> (\<forall>n < USER_PAGES. entry v source n = (if n < k * 1024 then clone_src (e n) else e n))
     \<and> (\<forall>n < k * 1024. entry v d n = clone_dst (e n))
     \<and> (\<forall>a. \<not> is_table d a \<longrightarrow> pmm_users (vm_pmm v) a = pmm_users (vm_pmm v0) a + refs_below e k a)
     \<and> (\<forall>n < k * 1024. present (e n) \<longrightarrow> cow_frame v (frame_of (e n)))"

lemma refs_below_Suc:
  "refs_below e (Suc k) a = refs_below e k a
     + List.length (filter (\<lambda>x. present x \<and> frame_of x = a) (map (\<lambda>i. e (k * 1024 + i)) [0..<1024]))"
proof -
  have "[0..<Suc k * 1024] = [0..<k * 1024] @ map (\<lambda>i. k * 1024 + i) [0..<1024]"
    using upt_add_eq_append [of 0 "k * 1024" 1024] map_add_upt [of "k * 1024" 1024]
    by (simp add: add.commute)
  then show ?thesis by (simp only: refs_below_def) (simp add: filter_map o_def)
qed

lemma page_split: "n < Suc k * 1024 \<longleftrightarrow> n < k * 1024 \<or> n div 1024 = k"
  by (auto simp: div_nat_eqI less_Suc_eq_le)

lemma absent_dst: "\<not> present pde \<Longrightarrow> pd d ! (n div 1024) = pde \<Longrightarrow> entry v d n = clone_dst (entry v d n)
   \<and> clone_src (entry v d n) = entry v d n \<and> \<not> present (entry v d n)"
  by (auto simp: entry_def Let_def clone_dst_def clone_src_def entry_bits)

lemma drop_table:
  assumes "ctx_inv v c" "\<not> present pde" "pdi < USER_PDES"
  shows "ctx_inv v (c\<lparr>pd := (pd c)[pdi := pde]\<rparr>)"
    and "is_table (c\<lparr>pd := (pd c)[pdi := pde]\<rparr>) a \<Longrightarrow> is_table c a"
    and "n div 1024 \<noteq> pdi \<Longrightarrow> entry v (c\<lparr>pd := (pd c)[pdi := pde]\<rparr>) n = entry v c n"
proof -
  have t: "table_at (c\<lparr>pd := (pd c)[pdi := pde]\<rparr>) i a \<longleftrightarrow> i \<noteq> pdi \<and> table_at c i a" for i a
    using assms by (cases "i = pdi") (auto simp: table_at_def ctx_inv_def USER_PDES_def)
  show "ctx_inv v (c\<lparr>pd := (pd c)[pdi := pde]\<rparr>)"
    using assms(1) by (auto simp: ctx_inv_def t)
  show "is_table (c\<lparr>pd := (pd c)[pdi := pde]\<rparr>) a \<Longrightarrow> is_table c a"
    by (auto simp: is_table_def t)
  show "n div 1024 \<noteq> pdi \<Longrightarrow> entry v (c\<lparr>pd := (pd c)[pdi := pde]\<rparr>) n = entry v c n"
    by (simp add: entry_def)
qed

lemma clone_step_absent:
  assumes up: "clone_upto v0 e source k v d" and k: "k < USER_PDES" and np: "\<not> present (pd source ! k)"
  shows "clone_upto v0 e source (Suc k) v (d\<lparr>pd := (pd d)[k := pd source ! k]\<rparr>)"
proof -
  let ?d = "d\<lparr>pd := (pd d)[k := pd source ! k]\<rparr>"
  have inv: "ctx_inv v source" "ctx_inv v d" using up by (auto simp: clone_upto_def)
  note dt = drop_table [OF inv(2) np k]
  have nth: "pd ?d ! k = pd source ! k" using inv(2) k by (simp add: ctx_inv_def USER_PDES_def)
  have len: "Suc k * 1024 \<le> USER_PAGES" using k by (simp add: USER_PAGES_def)
  have here: "e n = entry v source n \<and> \<not> present (e n) \<and> clone_src (e n) = e n
      \<and> entry v ?d n = clone_dst (e n)" if "n div 1024 = k" for n
  proof -
    have "n < Suc k * 1024" using that page_split by blast
    with len have n: "n < USER_PAGES" by linarith
    have "\<not> n < k * 1024" using that by (metis div_less_iff_less_mult less_irrefl zero_less_numeral)
    with up n have e: "e n = entry v source n" by (simp add: clone_upto_def)
    moreover have "entry v ?d n = entry v source n" using that nth np by (simp add: entry_def Let_def)
    moreover note absent_dst [OF np, of source n v]
    ultimately show ?thesis using that by simp
  qed
  have rb: "refs_below e (Suc k) a = refs_below e k a" for a
  proof -
    have "(k * 1024 + i) div 1024 = k" if "i < 1024" for i using that by simp
    then have "\<not> present (e (k * 1024 + i))" if "i < 1024" for i using here that by blast
    then show ?thesis by (simp add: refs_below_Suc filter_empty_conv)
  qed
  have "entry v ?d n = clone_dst (e n)" if "n < Suc k * 1024" for n
    using that here [of n] dt(3) [of n] up unfolding page_split clone_upto_def by metis
  moreover have "entry v source n = (if n < Suc k * 1024 then clone_src (e n) else e n)"
    if "n < USER_PAGES" for n
    using that here [of n] up unfolding page_split clone_upto_def by metis
  moreover have "present (e n) \<Longrightarrow> n < Suc k * 1024 \<Longrightarrow> cow_frame v (frame_of (e n))" for n
    using here [of n] up unfolding page_split clone_upto_def by metis
  moreover have "\<not> is_table ?d a \<Longrightarrow> \<not> is_table d a" for a
  proof -
    assume a: "\<not> is_table ?d a"
    have "table_at d i a \<Longrightarrow> table_at ?d i a" for i
      using up k by (cases "i = k") (auto simp: clone_upto_def table_at_def)
    with a show ?thesis by (auto simp: is_table_def)
  qed
  moreover have "Suc k \<le> pdi \<Longrightarrow> pdi < USER_PDES \<Longrightarrow> \<not> present (pd ?d ! pdi)" for pdi
    using up by (auto simp: clone_upto_def)
  ultimately show ?thesis
    using up dt(1,2) unfolding clone_upto_def by (simp add: rb) blast
qed

lemma replaced_table_entry:
  assumes inv: "ctx_inv v c" and k: "k < USER_PDES" "present (pd c ! k)" "t = frame_of (pd c ! k)"
    and a: "\<not> is_table c a" and n: "n < USER_PAGES" and v': "vm_frame v' = (vm_frame v)(t := spt, a := npt)"
  shows "entry v' c n = (if n div 1024 = k then spt ! (n mod 1024) else entry v c n)"
proof -
  have d: "n div 1024 < USER_PDES" using n by (simp add: USER_PAGES_def div_less_iff_less_mult)
  have "is_table c t" using k by (auto simp: is_table_def table_at_def)
  with a have ta: "t \<noteq> a" by blast
  show ?thesis
  proof (cases "n div 1024 = k")
    case True
    with k ta show ?thesis by (simp add: entry_def Let_def v')
  next
    case False
    have "frame_of (pd c ! (n div 1024)) \<noteq> t \<and> frame_of (pd c ! (n div 1024)) \<noteq> a"
      if "present (pd c ! (n div 1024))"
    proof
      have "table_at c (n div 1024) (frame_of (pd c ! (n div 1024)))" "table_at c k t"
        using that d k by (auto simp: table_at_def)
      with inv False show "frame_of (pd c ! (n div 1024)) \<noteq> t" unfolding ctx_inv_def by metis
      show "frame_of (pd c ! (n div 1024)) \<noteq> a"
        using a \<open>table_at c (n div 1024) _\<close> by (auto simp: is_table_def)
    qed
    with False show ?thesis by (auto simp: entry_def Let_def v')
  qed
qed

lemma clone_step_present:
  assumes up: "clone_upto v0 e source k v d" and k: "k < USER_PDES" "present (pd source ! k)"
      "t = frame_of (pd source ! k)"
    and al: "vm_alloc v = Inr (a, v1)" and cp: "clone_pt v1 (vm_frame v1 t) = Inr (v2, spt, npt)"
    and v3: "v3 = v2\<lparr>vm_frame := (vm_frame v2)(t := spt, a := npt)\<rparr>"
  shows "clone_upto v0 e source (Suc k) v3 (d\<lparr>pd := (pd d)[k := a OR MAP_PR OR MAP_RW OR MAP_US]\<rparr>)"
proof -
  let ?d = "d\<lparr>pd := (pd d)[k := a OR MAP_PR OR MAP_RW OR MAP_US]\<rparr>"
  have inv: "ctx_inv v source" "ctx_inv v d" and vi: "vm_inv v"
    using up by (auto simp: clone_upto_def ctx_inv_def)
  note ai = vm_alloc_Inr [OF vi al] and c = clone_pt_Inr [OF vm_alloc_Inr(1) [OF vi al] cp]
  have st: "is_table source t" using k by (auto simp: is_table_def table_at_def)
  have na: "\<not> is_table source a" "\<not> is_table d a"
    using ctx_inv_used [OF inv(1), of a] ctx_inv_used [OF inv(2), of a] ai(2) by auto
  have td: "\<not> is_table d t" using up st by (simp add: clone_upto_def)
  have ta: "t \<noteq> a" using st na(1) by blast
  define es where "es = vm_frame v t"
  have len: "length es = 1024" using vi by (simp add: es_def vm_inv_def)
  have spt: "spt = map clone_src es" "npt = map clone_dst es" using c ai(4) by (auto simp: es_def)
  have e_es: "e n = es ! (n mod 1024) \<and> \<not> n < k * 1024" if "n div 1024 = k" "n < USER_PAGES" for n
  proof -
    have l: "\<not> n < k * 1024" using that(1) by (metis div_less_iff_less_mult less_irrefl zero_less_numeral)
    with up that(2) have "e n = entry v source n" by (simp add: clone_upto_def)
    with l that(1) k show ?thesis by (simp add: entry_def Let_def es_def)
  qed
  have pages: "Suc k * 1024 \<le> USER_PAGES" using k by (simp add: USER_PAGES_def)
  then have es: "es = map (\<lambda>i. e (k * 1024 + i)) [0..<1024]"
    using len e_es [of "k * 1024 + _"] by (intro nth_equalityI) auto
  have "vm_inv v2" using c by simp
  then have vi3: "vm_inv v3" using len by (simp add: v3 vm_inv_def spt)
  have us: "pmm_users (vm_pmm v3) b = (if b = a then 1 else pmm_users (vm_pmm v) b)
      + length (filter (\<lambda>x. present x \<and> frame_of x = b) es)" for b
    using c ai(4,5) by (simp add: v3 es_def)
  have inv3: "ctx_inv v3 source"
    by (rule ctx_inv_change [OF inv(1) vi3]) (use ctx_inv_used [OF inv(1)] in \<open>auto simp: us\<close>)
  have fr: "vm_frame v3 = (vm_frame v)(t := spt, a := npt)" using c ai(4) by (simp add: v3)
  note src = replaced_table_entry [OF inv(1) k na(1) _ fr]
  have np: "present (a OR MAP_PR OR MAP_RW OR MAP_US)" "frame_of (a OR MAP_PR OR MAP_RW OR MAP_US) = a"
    using ai(3) by (simp_all add: entry_bits frame_of_or)
  have keep: "is_table d b \<Longrightarrow> 0 < pmm_users (vm_pmm v3) b \<and> vm_frame v3 b = vm_frame v b" for b
    using ctx_inv_used [OF inv(2)] na(2) td by (auto simp: us fr)
  note nt = new_table [OF inv(2) k(1) na(2) np vi3 _ keep]
  have nt': "ctx_inv v3 ?d" "\<And>b. is_table ?d b \<Longrightarrow> b = a \<or> is_table d b"
    "\<And>n. n < USER_PAGES \<Longrightarrow> entry v3 ?d n = (if n div 1024 = k then npt ! (n mod 1024) else entry v d n)"
    using nt by (simp_all add: us fr)
  have cow: "cow_frame v3 b" if "cow_frame v b \<or> (\<exists>x \<in> set es. present x \<and> frame_of x = b)" for b
    using that c vm_alloc_cow [OF vi al] ai(4) by (auto simp: v3 cow_frame_def es_def)
  have "entry v3 ?d n = clone_dst (e n)" if "n < Suc k * 1024" for n
    using that pages nt'(3) [of n] e_es [of n] up len
    unfolding page_split clone_upto_def by (auto simp: spt)
  moreover have "entry v3 source n = (if n < Suc k * 1024 then clone_src (e n) else e n)"
    if "n < USER_PAGES" for n
    using that src [OF that] e_es [of n] up len unfolding page_split clone_upto_def by (auto simp: spt)
  moreover have "cow_frame v3 (frame_of (e n))" if n: "n < Suc k * 1024" "present (e n)" for n
  proof (cases "n < k * 1024")
    case True
    with up n(2) cow show ?thesis by (auto simp: clone_upto_def)
  next
    case False
    with n(1) pages have "n div 1024 = k" "n < USER_PAGES" using page_split [of n k] by auto
    with e_es have e: "e n = es ! (n mod 1024)" by blast
    have "e n \<in> set es" unfolding e using len by (intro nth_mem) simp
    with n(2) show ?thesis by (intro cow) blast
  qed
  moreover have "pmm_users (vm_pmm v3) b = pmm_users (vm_pmm v0) b + refs_below e (Suc k) b"
    if b: "\<not> is_table ?d b" for b
  proof -
    have "table_at d i b \<Longrightarrow> table_at ?d i b" for i
      using up k by (cases "i = k") (auto simp: clone_upto_def table_at_def)
    moreover have "table_at ?d k a"
      using np k(1) inv(2) by (simp add: table_at_def ctx_inv_def USER_PDES_def)
    ultimately have "\<not> is_table d b" "b \<noteq> a" using b by (auto simp: is_table_def)
    then show ?thesis using up us [of b] by (simp add: refs_below_Suc es [symmetric] clone_upto_def)
  qed
  moreover have "Suc k \<le> pdi \<Longrightarrow> pdi < USER_PDES \<Longrightarrow> \<not> present (pd ?d ! pdi)" for pdi
    using up by (auto simp: clone_upto_def)
  moreover have "\<not> is_table ?d b" if "is_table source b" for b
    using that nt'(2) [of b] na(1) up by (auto simp: clone_upto_def)
  ultimately show ?thesis
    unfolding clone_upto_def using inv3 nt'(1) by simp
qed

lemma clone_loop:
  assumes "clone_upto v0 e source 0 v0 d0" "k \<le> USER_PDES"
    and "rfold clone_pde (v0, d0, source) [0..<k] = Inr (v, d, s)"
  shows "s = source \<and> clone_upto v0 e source k v d"
  using assms(2,3)
proof (induction k arbitrary: v d s)
  case 0
  with assms(1) show ?case by simp
next
  case (Suc k)
  from Suc.prems(2) obtain v1 d1 s1 where
    r: "rfold clone_pde (v0, d0, source) [0..<k] = Inr (v1, d1, s1)" "clone_pde (v1, d1, s1) k = Inr (v, d, s)"
    by (auto simp: rfold_append outcome_simps split: prod.splits)
  have k: "k < USER_PDES" "k \<le> USER_PDES" using Suc.prems(1) by simp_all
  from Suc.IH [OF k(2) r(1)] have up: "clone_upto v0 e source k v1 d1" and s1: "s1 = source" by auto
  from up have len: "length (pd source) = 1024" "length (pd d1) = 1024"
    by (auto simp: clone_upto_def ctx_inv_def)
  show ?case
  proof (cases "present (pd source ! k)")
    case False
    with r(2) len k clone_step_absent [OF up k(1) False] show ?thesis
      by (auto simp: clone_pde_def s1 USER_PDES_def)
  next
    case True
    from r(2) len k True obtain a v2 v3 spt npt where
      "vm_alloc v1 = Inr (a, v2)" "clone_pt v2 (vm_frame v2 (frame_of (pd source ! k))) = Inr (v3, spt, npt)"
      "v = v3\<lparr>vm_frame := (vm_frame v3)(frame_of (pd source ! k) := spt, a := npt)\<rparr>"
      "d = d1\<lparr>pd := (pd d1)[k := a OR MAP_PR OR MAP_RW OR MAP_US]\<rparr>" "s = source"
      by (auto simp: clone_pde_def s1 USER_PDES_def outcome_simps split: prod.splits)
    with clone_step_present [OF up k(1) True refl] show ?thesis by simp
  qed
qed

lemma vmmc_clone_ok:
  assumes "ctx_inv v source" and "ctx_inv v dest" and "\<forall>a. \<not> is_table dest a"
    and "vmmc_clone v dest source = Inr (v', dest', source')"
  shows "source' = source \<and> heap_end dest' = heap_end source
    \<and> ctx_inv v' source \<and> ctx_inv v' dest' \<and> (\<forall>a. is_table source a \<longrightarrow> \<not> is_table dest' a)
    \<and> (\<forall>n < USER_PAGES. entry v' source n = clone_src (entry v source n)
         \<and> entry v' dest' n = clone_dst (entry v source n)
         \<and> (present (entry v source n) \<longrightarrow> cow_frame v' (frame_of (entry v source n))))
    \<and> (\<forall>a. \<not> is_table dest' a \<longrightarrow> pmm_users (vm_pmm v') a =
         pmm_users (vm_pmm v) a + refs_below (entry v source) USER_PDES a)"
proof -
  have pdes: "unat (drop_bit 22 PHYS_BASE) = USER_PDES" by (simp add: PHYS_BASE_def USER_PDES_def)
  from assms(4) obtain d where r: "rfold clone_pde (v, dest, source) [0..<USER_PDES] = Inr (v', d, source')"
      "dest' = d\<lparr>heap_end := heap_end source'\<rparr>"
    by (auto simp: vmmc_clone_def pdes outcome_simps split: prod.splits)
  have "clone_upto v (entry v source) source 0 v dest"
    using assms(1-3) by (auto simp: clone_upto_def is_table_def table_at_def refs_below_def)
  from clone_loop [OF this le_refl r(1)] have s: "source' = source"
    and up: "clone_upto v (entry v source) source USER_PDES v' d" by auto
  have same: "is_table dest' a \<longleftrightarrow> is_table d a" "entry v' dest' n = entry v' d n" for a n
    by (simp_all add: r(2) is_table_def table_at_def entry_def)
  have "ctx_inv v' dest' \<longleftrightarrow> ctx_inv v' d" by (simp add: r(2) ctx_inv_def table_at_def)
  with up same s show ?thesis
    unfolding clone_upto_def USER_PAGES_def by (simp add: r(2))
qed

text \<open>
  C7: cloning an address space (\<open>fork\<close>) into a context without user page tables gives both
  contexts the same pages: lazily mapped and absent pages are copied as they are, every mapped page
  is read-only in both, refers to the same frame and that frame is marked copy-on-write; each frame
  gains exactly one user per page that maps it; the two contexts share no page table.
\<close>

theorem vmmc_clone_shares:
  assumes "ctx_inv v source" and "ctx_inv v dest" and "\<forall>a. \<not> is_table dest a"
    and "vmmc_clone v dest source = Inr (v', dest', source')"
  shows "source' = source \<and> heap_end dest' = heap_end source
    \<and> ctx_inv v' source \<and> ctx_inv v' dest' \<and> (\<forall>a. is_table source a \<longrightarrow> \<not> is_table dest' a)
    \<and> (\<forall>n < USER_PAGES. entry v' source n = clone_src (entry v source n)
         \<and> entry v' dest' n = clone_dst (entry v source n)
         \<and> (present (entry v source n) \<longrightarrow> cow_frame v' (frame_of (entry v source n))))
    \<and> (\<forall>a. \<not> is_table dest' a \<longrightarrow> pmm_users (vm_pmm v') a =
         pmm_users (vm_pmm v) a + refs_below (entry v source) USER_PDES a)"
  using assms by (rule vmmc_clone_ok)

lemma clone_pt_absent: "clone_pt v (replicate n 0) = Inr (v, replicate n 0, replicate n 0)"
  by (induction n) (simp_all add: flag_bits(1))

lemma demo_clone_absent:
  assumes "\<forall>i \<in> set is. i < 1024 \<and> \<not> present (pd s ! i) \<and> pd d ! i = pd s ! i"
    and "length (pd s) = 1024" "length (pd d) = 1024"
  shows "rfold clone_pde (v, d, s) is = Inr (v, d, s)"
  using assms
proof (induction "is")
  case (Cons i "is")
  then have "clone_pde (v, d, s) i = Inr (v, d\<lparr>pd := (pd d)[i := pd d ! i]\<rparr>, s)"
    by (simp add: clone_pde_def)
  also have "d\<lparr>pd := (pd d)[i := pd d ! i]\<rparr> = d" by (simp only: list_update_id) simp
  finally show ?case using Cons by simp
qed simp

lemma demo_clone:
  "\<exists>v d. vmmc_clone demo_cow_vm demo_ctx demo_cow_ctx = Inr (v, d, demo_cow_ctx)"
proof -
  let ?p = "(vm_pmm demo_cow_vm)\<lparr>bitmap := [1, 0x82, 1, 0], look_from_here := 2\<rparr>"
  have al: "vm_alloc demo_cow_vm = Inr (0x102000, demo_cow_vm\<lparr>vm_pmm := ?p\<rparr>)"
    by (simp add: vm_alloc_def pmm_alloc_def demo_cow_vm_def pmm_alloc_from.simps frame_addr_def PAGE_SHIFT_def)
  have us: "vm_use (demo_cow_vm\<lparr>vm_pmm := ?p\<rparr>) 0x101000 =
      Inr (demo_cow_vm\<lparr>vm_pmm := ?p\<lparr>bitmap := [1, 0x83, 1, 0]\<rparr>\<rparr>)"
    by (simp add: vm_use_def pmm_use_def demo_cow_vm_def page_aligned_def PAGE_SIZE_def PAGE_SHIFT_def
        frame_index_def bitmap_masks)
  have mk: "vm_mark_cow (demo_cow_vm\<lparr>vm_pmm := ?p\<lparr>bitmap := [1, 0x83, 1, 0]\<rparr>\<rparr>) 0x101000 True =
      Inr (demo_cow_vm\<lparr>vm_pmm := ?p\<lparr>bitmap := [1, 0x83, 1, 0]\<rparr>\<rparr>)"
    by (simp add: vm_mark_cow_def pmm_mark_cow_def demo_cow_vm_def page_aligned_def PAGE_SIZE_def
        PAGE_SHIFT_def frame_index_def bitmap_masks)
  have fr: "vm_frame demo_cow_vm 0x100000 = 0 # 0x101005 # replicate 1022 0"
    by (simp add: demo_cow_vm_def numeral_eq_Suc)
  have "\<exists>v spt npt. clone_pt (demo_cow_vm\<lparr>vm_pmm := ?p\<rparr>) (vm_frame demo_cow_vm 0x100000) = Inr (v, spt, npt)"
    unfolding fr using us mk demo_cow_frame(1)
    by (simp add: flag_bits(1) clone_pt_absent)
  then obtain v spt npt where
    "clone_pt (demo_cow_vm\<lparr>vm_pmm := ?p\<rparr>) (vm_frame demo_cow_vm 0x100000) = Inr (v, spt, npt)" by blast
  moreover have "pd demo_cow_ctx ! 0 = 0x100007" "length (pd demo_cow_ctx) = 1024" "length (pd demo_ctx) = 1024"
    "present 0x100007" "frame_of 0x100007 = 0x100000"
    by (simp_all add: demo_cow_pd demo_cow_ctx_def demo_ctx_def flag_bits(1) frame_of_def)
  ultimately obtain v' d where c: "clone_pde (demo_cow_vm, demo_ctx, demo_cow_ctx) 0 = Inr (v', d, demo_cow_ctx)"
      "d = demo_ctx\<lparr>pd := (pd demo_ctx)[0 := 0x102007]\<rparr>"
    using al by (simp add: clone_pde_def map_flags)
  have "rfold clone_pde (v', d, demo_cow_ctx) [1..<960] = Inr (v', d, demo_cow_ctx)"
    by (rule demo_clone_absent) (auto simp: demo_cow_pd c(2) demo_ctx_def demo_cow_ctx_def flag_bits(1))
  moreover have "[0..<960] = 0 # [1..<960::nat]" using upt_conv_Cons [of 0 960] by (simp del: upt_rec_numeral)
  moreover have "unat (drop_bit 22 PHYS_BASE) = 960" by (simp add: PHYS_BASE_def)
  ultimately have "rfold clone_pde (demo_cow_vm, demo_ctx, demo_cow_ctx) [0..<unat (drop_bit 22 PHYS_BASE)]
      = Inr (v', d, demo_cow_ctx)"
    using c(1) by (simp only: rfold.simps rbind_simps)
  then show ?thesis by (simp only: vmmc_clone_def rbind_simps prod.case) blast
qed

lemma demo_ctx_empty: "\<not> is_table demo_ctx a"
  by (auto simp: is_table_def table_at_def demo_ctx_def USER_PDES_def flag_bits(1))

theorem vmmc_clone_shares_witness:
  "\<exists>v d. vmmc_clone demo_cow_vm demo_ctx demo_cow_ctx = Inr (v, d, demo_cow_ctx)
     \<and> entry v d 1 = 0x101005 \<and> cow_frame v 0x101000"
proof -
  have inv: "ctx_inv demo_cow_vm demo_ctx"
    using demo_cow_inv demo_ctx_inv demo_ctx_empty by (auto simp: ctx_inv_def is_table_def)
  obtain v d where c: "vmmc_clone demo_cow_vm demo_ctx demo_cow_ctx = Inr (v, d, demo_cow_ctx)"
    using demo_clone by blast
  have "clone_dst 0x101005 = 0x101005" "present 0x101005"
    by (simp_all add: clone_dst_def flag_bits(1) demo_cow_frame map_flags)
  moreover have "1 < USER_PAGES" by (simp add: USER_PAGES_def USER_PDES_def)
  moreover have "\<forall>n < USER_PAGES. entry v d n = clone_dst (entry demo_cow_vm demo_cow_ctx n)
      \<and> (present (entry demo_cow_vm demo_cow_ctx n) \<longrightarrow> cow_frame v (frame_of (entry demo_cow_vm demo_cow_ctx n)))"
    using vmmc_clone_shares [OF demo_cow_inv inv _ c] demo_ctx_empty by blast
  ultimately have "entry v d 1 = 0x101005 \<and> cow_frame v (frame_of 0x101005)"
    by (metis demo_cow_entry)
  with c show ?thesis unfolding demo_cow_frame by blast
qed

subsection \<open>Unmapping a range\<close>

lemma unmap_entries_nth:
  "List.length (unmap_entries pt s e) = List.length pt"
  "i < List.length pt \<Longrightarrow> unmap_entries pt s e ! i = (if s \<le> i \<and> i < e then 0 else pt ! i)"
proof -
  have "length (fold (\<lambda>pti pt. pt[pti := MAP_NP]) xs pt) = length pt
      \<and> (\<forall>i < length pt. fold (\<lambda>pti pt. pt[pti := MAP_NP]) xs pt ! i = (if i \<in> set xs then 0 else pt ! i))" for xs
    by (induction xs arbitrary: pt) (auto simp: nth_list_update MAP_NP_def)
  from this [of "[s..<e]"] show "length (unmap_entries pt s e) = length pt"
    "i < length pt \<Longrightarrow> unmap_entries pt s e ! i = (if s \<le> i \<and> i < e then 0 else pt ! i)"
    by (auto simp: unmap_entries_def)
qed

definition unmapped :: "vmm_context \<Rightarrow> nat \<Rightarrow> nat \<Rightarrow> nat \<Rightarrow> bool" where
  "unmapped c s e n \<longleftrightarrow> s \<le> n \<and> n < e \<and> present (pd c ! (n div 1024))"

lemma table_store:
  assumes inv: "ctx_inv v c" and k: "k < USER_PDES" "present (pd c ! k)" and len: "length pt = 1024"
    and v': "v' = v\<lparr>vm_frame := (vm_frame v)(frame_of (pd c ! k) := pt)\<rparr>"
  shows "ctx_inv v' c"
    and "n < USER_PAGES \<Longrightarrow> entry v' c n = (if n div 1024 = k then pt ! (n mod 1024) else entry v c n)"
proof -
  have "vm_inv v'" using inv len by (simp add: ctx_inv_def vm_inv_def v')
  then show "ctx_inv v' c" by (rule ctx_inv_change [OF inv]) (use ctx_inv_used [OF inv] in \<open>simp add: v'\<close>)
  show "entry v' c n = (if n div 1024 = k then pt ! (n mod 1024) else entry v c n)" if n: "n < USER_PAGES"
  proof -
    have d: "n div 1024 < USER_PDES" using n by (simp add: USER_PAGES_def div_less_iff_less_mult)
    have "n div 1024 = k" if "present (pd c ! (n div 1024))" "frame_of (pd c ! (n div 1024)) = frame_of (pd c ! k)"
      using inv k d that unfolding ctx_inv_def table_at_def by metis
    then show ?thesis using k(2) by (auto simp: entry_def Let_def v')
  qed
qed

lemma range_in_block:
  assumes "ps \<le> k" "k < pe" "x < 1024" "y < 1024" "m < (1024 :: nat)"
  shows "ps * 1024 + x \<le> k * 1024 + m \<and> k * 1024 + m < (pe - 1) * 1024 + y \<longleftrightarrow>
    (if ps < k then 0 else x) \<le> m \<and> m < (if k < pe - 1 then 1024 else y)"
proof -
  have "ps * 1024 + x \<le> k * 1024 + m \<longleftrightarrow> (if ps < k then 0 else x) \<le> m" using assms by simp
  moreover have "k * 1024 + m < (pe - 1) * 1024 + y \<longleftrightarrow> m < (if k < pe - 1 then 1024 else y)"
    using assms by (cases pe) (auto simp: less_Suc_eq)
  ultimately show ?thesis by simp
qed

lemma unmap_step:
  assumes inv: "ctx_inv v c" and k: "k < USER_PDES" "k \<in> {ps..<pe}"
    and s: "s = ps * 1024 + unat (drop_bit 12 virt AND 0x3FF)"
    and e: "e = (pe - 1) * 1024 + unat (drop_bit 12 (virt + len + 4095) AND 0x3FF)"
  shows "\<exists>v' c'. user_unmap_pde virt len ps pe (v, c) k = Inr (v', c') \<and> ctx_inv v' c'
    \<and> (\<forall>n < USER_PAGES. entry v' c' n = (if n div 1024 = k \<and> unmapped c s e n then 0 else entry v c n))
    \<and> (\<forall>i. i \<noteq> k \<longrightarrow> pd c' ! i = pd c ! i) \<and> (\<forall>a. is_table c' a \<longrightarrow> is_table c a)
    \<and> (\<forall>a. \<not> is_table c a \<longrightarrow> pmm_users (vm_pmm v') a = pmm_users (vm_pmm v) a)"
proof (cases "present (pd c ! k)")
  case False
  then show ?thesis using inv k by (auto simp: user_unmap_pde_def unmapped_def ctx_inv_def USER_PDES_def)
next
  case True
  let ?t = "frame_of (pd c ! k)"
  have l3: "unat (w AND 0x3FF :: u32) < 1024" for w by (simp add: unat_and_3FF)
  define a where "a = (if ps < k then 0 else unat (drop_bit 12 virt AND 0x3FF))"
  define b where "b = (if k < pe - 1 then 1024 else unat (drop_bit 12 (virt + len + 4095) AND 0x3FF))"
  define pt where "pt = unmap_entries (vm_frame v ?t) a b"
  define v1 where "v1 = v\<lparr>vm_frame := (vm_frame v)(?t := pt)\<rparr>"
  have vl: "length (vm_frame v ?t) = 1024" "length (pd c) = 1024"
    using inv by (auto simp: ctx_inv_def vm_inv_def)
  have ptl: "length pt = 1024" by (simp add: pt_def unmap_entries_nth vl)
  note st = table_store [OF inv k(1) True ptl v1_def]
  have here: "pt ! (n mod 1024) = (if unmapped c s e n then 0 else entry v c n)" if "n div 1024 = k" for n
  proof -
    have n: "n = k * 1024 + n mod 1024" using that div_mult_mod_eq [of n 1024] by simp
    have "s \<le> n \<and> n < e \<longleftrightarrow> a \<le> n mod 1024 \<and> n mod 1024 < b"
      unfolding a_def b_def s e using k(2) by (subst (1 2) n, intro range_in_block) (simp_all add: l3)
    then have "unmapped c s e n \<longleftrightarrow> a \<le> n mod 1024 \<and> n mod 1024 < b"
      using True that by (simp add: unmapped_def conj_assoc [symmetric])
    moreover have "entry v c n = vm_frame v ?t ! (n mod 1024)" using that True by (simp add: entry_def Let_def)
    ultimately show ?thesis by (simp add: pt_def unmap_entries_nth vl)
  qed
  have run: "user_unmap_pde virt len ps pe (v, c) k =
      (if a = 0 \<and> b = 1024 then rbind (vm_free v1 ?t) (\<lambda>v2. Inr (v2, c\<lparr>pd := (pd c)[k := MAP_NP]\<rparr>))
       else Inr (v1, c))"
    using vl(2) k(1) True by (simp add: user_unmap_pde_def USER_PDES_def a_def b_def pt_def v1_def)
  show ?thesis
  proof (cases "a = 0 \<and> b = 1024")
    case False
    have "pmm_users (vm_pmm v1) = pmm_users (vm_pmm v)" by (simp add: v1_def)
    with False run st here show ?thesis by auto
  next
    case whole: True
    have tab: "is_table c ?t" using True k(1) by (auto simp: is_table_def table_at_def)
    then have us: "0 < pmm_users (vm_pmm v1) ?t" using ctx_inv_used [OF st(1)] by simp
    have vi1: "vm_inv v1" using st(1) by (simp add: ctx_inv_def)
    obtain v2 where v2: "vm_free v1 ?t = Inr v2" using vm_free_defined [OF vi1 us] .
    note f = vm_free_Inr [OF vi1 v2]
    let ?c = "c\<lparr>pd := (pd c)[k := MAP_NP]\<rparr>"
    have np: "\<not> present MAP_NP" by (simp add: flag_bits(1) MAP_NP_def)
    note dt = drop_table [OF st(1) np k(1)]
    have "\<not> is_table ?c ?t"
      using inv k(1) True vl(2) np unfolding is_table_def ctx_inv_def table_at_def
      by (auto simp: nth_list_update USER_PDES_def split: if_splits)
    then have inv2: "ctx_inv v2 ?c"
      by (intro ctx_inv_change [OF dt(1) f(1)]) (use ctx_inv_used [OF dt(1)] f(4) in \<open>auto\<close>)
    have "entry v2 ?c n = (if n div 1024 = k \<and> unmapped c s e n then 0 else entry v c n)"
      if n: "n < USER_PAGES" for n
    proof (cases "n div 1024 = k")
      case True
      have "n mod 1024 < 1024" by simp
      then have "pt ! (n mod 1024) = 0" using whole by (simp add: pt_def unmap_entries_nth vl)
      with here [OF True] have "(if unmapped c s e n then 0 else entry v c n) = 0" by simp
      moreover have "entry v2 ?c n = 0" using True vl(2) k(1) np by (simp add: entry_def Let_def USER_PDES_def MAP_NP_def)
      ultimately show ?thesis using True by auto
    next
      case False
      have "entry v2 ?c n = entry v1 ?c n" using f(3) by (simp add: entry_def Let_def)
      with dt(3) [OF False] st(2) [OF n] False show ?thesis by simp
    qed
    moreover have "\<not> is_table c b \<Longrightarrow> pmm_users (vm_pmm v2) b = pmm_users (vm_pmm v) b" for b
      using f(4) tab by (auto simp: v1_def)
    ultimately show ?thesis using inv2 run whole v2 dt(2) by auto
  qed
qed

lemma unmap_loop:
  assumes inv: "ctx_inv v c" and k: "k \<le> pe" "ps \<le> k" "pe \<le> USER_PDES"
    and s: "s = ps * 1024 + unat (drop_bit 12 virt AND 0x3FF)"
    and e: "e = (pe - 1) * 1024 + unat (drop_bit 12 (virt + len + 4095) AND 0x3FF)"
  shows "\<exists>v' c'. rfold (user_unmap_pde virt len ps pe) (v, c) [ps..<k] = Inr (v', c') \<and> ctx_inv v' c'
    \<and> (\<forall>n < USER_PAGES. entry v' c' n = (if n < k * 1024 \<and> unmapped c s e n then 0 else entry v c n))
    \<and> (\<forall>i \<ge> k. pd c' ! i = pd c ! i) \<and> (\<forall>a. is_table c' a \<longrightarrow> is_table c a)
    \<and> (\<forall>a. \<not> is_table c a \<longrightarrow> pmm_users (vm_pmm v') a = pmm_users (vm_pmm v) a)"
  using k(2,1)
proof (induction k rule: dec_induct)
  case base
  have "n < ps * 1024 \<Longrightarrow> \<not> unmapped c s e n" for n by (auto simp: unmapped_def s)
  with inv show ?case by auto
next
  case (step k)
  then obtain v1 c1 where r: "rfold (user_unmap_pde virt len ps pe) (v, c) [ps..<k] = Inr (v1, c1)" "ctx_inv v1 c1"
    "\<forall>n < USER_PAGES. entry v1 c1 n = (if n < k * 1024 \<and> unmapped c s e n then 0 else entry v c n)"
    "\<forall>i \<ge> k. pd c1 ! i = pd c ! i" "\<forall>a. is_table c1 a \<longrightarrow> is_table c a"
    "\<forall>a. \<not> is_table c a \<longrightarrow> pmm_users (vm_pmm v1) a = pmm_users (vm_pmm v) a" by auto
  have "k < USER_PDES" "k \<in> {ps..<pe}" using step.hyps step.prems k(3) by auto
  from unmap_step [OF r(2) this s e] obtain v2 c2 where
    t: "user_unmap_pde virt len ps pe (v1, c1) k = Inr (v2, c2)" "ctx_inv v2 c2"
    "\<forall>n < USER_PAGES. entry v2 c2 n = (if n div 1024 = k \<and> unmapped c1 s e n then 0 else entry v1 c1 n)"
    "\<forall>i. i \<noteq> k \<longrightarrow> pd c2 ! i = pd c1 ! i" "\<forall>a. is_table c2 a \<longrightarrow> is_table c1 a"
    "\<forall>a. \<not> is_table c1 a \<longrightarrow> pmm_users (vm_pmm v2) a = pmm_users (vm_pmm v1) a" by blast
  have "rfold (user_unmap_pde virt len ps pe) (v, c) [ps..<Suc k] = Inr (v2, c2)"
    using r(1) t(1) step.hyps by (simp add: rfold_append)
  moreover have "entry v2 c2 n = (if n < Suc k * 1024 \<and> unmapped c s e n then 0 else entry v c n)"
    if n: "n < USER_PAGES" for n
  proof -
    have "n div 1024 = k \<Longrightarrow> unmapped c1 s e n = unmapped c s e n" using r(4) by (simp add: unmapped_def)
    then show ?thesis using t(3) r(3) n unfolding page_split by presburger
  qed
  moreover have "\<not> is_table c a \<Longrightarrow> pmm_users (vm_pmm v2) a = pmm_users (vm_pmm v) a" for a
    using t(6) r(5,6) by metis
  ultimately show ?case using t(2,4,5) r(4,5) by auto
qed

lemma last_table_index:
  fixes x :: nat
  assumes "(x + 4095) div 4096 mod 1024 \<noteq> 0"
  shows "((x + 4194303) div 4194304 - 1) * 1024 + (x + 4095) div 4096 mod 1024 = (x + 4095) div 4096"
proof -
  define q where "q = (x + 4095) div 4194304"
  define r where "r = (x + 4095) mod 4194304"
  have x: "x + 4095 = q * 4194304 + r" "r < 4194304" by (simp_all add: q_def r_def)
  have q: "(x + 4095) div 4096 div 1024 = q" by (simp add: q_def div_mult2_eq [symmetric])
  have "(x + 4095) div 4096 = q * 1024 + r div 4096"
    unfolding x(1) using div_mult_self3 [of 4096 "q * 1024" r] by (simp add: mult.assoc)
  with assms have "r \<ge> 4096" by (metis div_less mod_mult_self3 mod_0 add_0_right not_le)
  then have "x + 4194303 = (q + 1) * 4194304 + (r - 4096)" "r - 4096 < 4194304" using x by simp_all
  then have "(x + 4194303) div 4194304 = q + 1" by (metis div_mult_self3 div_less add_0_right zero_neq_numeral)
  then show ?thesis using q div_mult_mod_eq [of "(x + 4095) div 4096" 1024] by simp
qed

lemma unmap_pdes:
  fixes virt len :: u32
  assumes "unat virt + unat len \<le> unat PHYS_BASE"
  shows "unat (drop_bit 22 (virt + len + push_bit 22 1 - 1)) = (unat virt + unat len + 4194303) div 4194304"
    and "(unat virt + unat len + 4194303) div 4194304 \<le> USER_PDES"
proof -
  let ?x = "unat virt + unat len"
  have base: "unat PHYS_BASE = 4026531840" by (simp add: PHYS_BASE_def)
  have x: "unat (virt + len) = ?x" using assms base by (intro unat_add_nowrap) simp
  have "unat (virt + len + 4194303) = ?x + 4194303" using assms base x by (subst unat_add_nowrap) simp_all
  moreover have "virt + len + push_bit 22 1 - 1 = virt + len + 4194303" by (simp add: add.commute)
  ultimately show "unat (drop_bit 22 (virt + len + push_bit 22 1 - 1)) = (?x + 4194303) div 4194304"
    by (simp only: unat_drop_bit) simp
  show "(?x + 4194303) div 4194304 \<le> USER_PDES" using assms base by (simp add: USER_PDES_def div_le_mono)
qed

lemma vmmc_user_unmap_frame:
  assumes inv: "ctx_inv v c" and range: "unat virt + unat len \<le> unat PHYS_BASE"
  shows "\<exists>v' c'. vmmc_user_unmap v c virt len = Inr (v', c') \<and> ctx_inv v' c'
    \<and> (\<forall>a. is_table c' a \<longrightarrow> is_table c a)
    \<and> (\<forall>a. \<not> is_table c a \<longrightarrow> pmm_users (vm_pmm v') a = pmm_users (vm_pmm v) a)"
proof -
  let ?pe = "(unat virt + unat len + 4194303) div 4194304"
  have ps: "unat (drop_bit 22 virt) = pdi_of virt" by (simp add: pdi_of_def)
  show ?thesis
  proof (cases "pdi_of virt \<le> ?pe")
    case True
    from unmap_loop [OF inv le_refl True unmap_pdes(2) [OF range] refl refl, of virt len] show ?thesis
      unfolding vmmc_user_unmap_def Let_def unmap_pdes(1) [OF range] ps by blast
  next
    case False
    with inv show ?thesis unfolding vmmc_user_unmap_def Let_def unmap_pdes(1) [OF range] ps by simp
  qed
qed

text \<open>unmapping a range of the user part that does not end at a 4 MiB boundary removes exactly the
  pages of the range that lie below an existing page table, and leaves every other page as it was.
\<close>

theorem vmmc_user_unmap_clears:
  assumes inv: "ctx_inv v c" and range: "unat virt + unat len \<le> unat PHYS_BASE"
    and e: "e = (unat virt + unat len + 4095) div 4096" "e mod 1024 \<noteq> 0"
  shows "\<exists>v' c'. vmmc_user_unmap v c virt len = Inr (v', c') \<and> ctx_inv v' c'
    \<and> (\<forall>n < USER_PAGES. entry v' c' n =
         (if vpn virt \<le> n \<and> n < e \<and> present (pd c ! (n div 1024)) then 0 else entry v c n))"
proof -
  have base: "unat PHYS_BASE = 4026531840" by (simp add: PHYS_BASE_def)
  let ?x = "unat virt + unat len"
  have x: "unat (virt + len) = ?x" using range base by (intro unat_add_nowrap) simp
  have xa: "unat (virt + len + 4095) = ?x + 4095" using range base x by (subst unat_add_nowrap) simp_all
  define pe where "pe = (?x + 4194303) div 4194304"
  note pe = unmap_pdes(1) [OF range, folded pe_def]
  have ps: "unat (drop_bit 22 virt) = pdi_of virt" by (simp add: pdi_of_def)
  have s: "vpn virt = pdi_of virt * 1024 + unat (drop_bit 12 virt AND 0x3FF)"
    using pdi_pti_vpn [of virt] by (simp add: pti_of_def)
  have en: "e = (pe - 1) * 1024 + unat (drop_bit 12 (virt + len + 4095) AND 0x3FF)"
    using last_table_index [of ?x] e
    by (simp only: unat_and_3FF unat_drop_bit xa pe_def) simp
  have "0 < ?x" using e by (cases "?x = 0") auto
  then have "4194304 \<le> ?x + 4194303" by linarith
  then have p0: "0 < pe" unfolding pe_def by (simp only: div_greater_zero_iff) simp
  note pp = unmap_pdes(2) [OF range, folded pe_def]
  show ?thesis
  proof (cases "pdi_of virt \<le> pe")
    case True
    have "n < pe * 1024 \<and> unmapped c (vpn virt) e n \<longleftrightarrow> unmapped c (vpn virt) e n" for n
      using p0 en unat_and_3FF [of "drop_bit 12 (virt + len + 4095)"] by (cases pe) (auto simp: unmapped_def)
    with unmap_loop [OF inv le_refl True pp s en] show ?thesis
      unfolding vmmc_user_unmap_def Let_def pe ps unmapped_def [symmetric] conj_assoc [symmetric]
      by (auto simp: unmapped_def [symmetric] conj_assoc)
  next
    case False
    then have "\<not> (vpn virt \<le> n \<and> n < e)" for n
      using en s unat_and_3FF [of "drop_bit 12 (virt + len + 4095)"] by (cases pe) auto
    with False inv show ?thesis by (simp only: vmmc_user_unmap_def Let_def pe ps) auto
  qed
qed

theorem vmmc_user_unmap_clears_witness:
  "\<exists>v c. vmmc_user_unmap demo_cow_vm demo_cow_ctx 0x1000 0x1000 = Inr (v, c) \<and> entry v c 1 = 0"
proof -
  have "present (pd demo_cow_ctx ! (1 div 1024))" by (simp add: demo_cow_pd flag_bits(1))
  moreover have "vpn 0x1000 \<le> 1" "1 < USER_PAGES" by (simp_all add: vpn_def USER_PAGES_def USER_PDES_def)
  moreover have "unat (0x1000 :: u32) + unat (0x1000 :: u32) \<le> unat PHYS_BASE"
    "2 = (unat (0x1000 :: u32) + unat (0x1000 :: u32) + 4095) div 4096" "2 mod 1024 \<noteq> (0 :: nat)"
    by (simp_all add: PHYS_BASE_def)
  ultimately show ?thesis
    using vmmc_user_unmap_clears [OF demo_cow_inv, of "0x1000" "0x1000" 2] by (meson one_less_numeral_iff semiring_norm(76))
qed

lemma unmap_boundary:
  assumes "ctx_inv v c" and "pdi_of virt < USER_PDES" and "0 < len"
    and "unat virt + unat len = (pdi_of virt + 1) * 4194304"
  shows "vmmc_user_unmap v c virt len = Inr (v, c)"
proof -
  let ?p = "pdi_of virt"
  have p: "?p + 1 \<le> 960" using assms(2) by (simp add: USER_PDES_def)
  have x: "unat (virt + len) = (?p + 1) * 4194304" using assms(4) p by (subst unat_add_nowrap) simp_all
  have "unat (virt + len + 4194303) = (?p + 1) * 4194304 + 4194303"
    using x p by (subst unat_add_nowrap) simp_all
  moreover have "virt + len + push_bit 22 1 - 1 = virt + len + 4194303" by (simp add: add.commute)
  ultimately have pe: "unat (drop_bit 22 (virt + len + push_bit 22 1 - 1)) = Suc ?p"
    by (simp only: unat_drop_bit) simp
  have "unat (virt + len + 4095) = (?p + 1) * 4194304 + 4095" using x p by (subst unat_add_nowrap) simp_all
  moreover have "((?p + 1) * 4194304 + 4095) div 4096 = (?p + 1) * 1024"
    using div_mult_self3 [of 4096 "(?p + 1) * 1024" 4095] by (simp add: mult.assoc)
  ultimately have end0: "unat (drop_bit 12 (virt + len + 4095) AND 0x3FF) = 0"
    by (simp add: unat_and_3FF unat_drop_bit)
  have ps: "unat (drop_bit 22 virt) = ?p" by (simp add: pdi_of_def)
  show ?thesis
    unfolding vmmc_user_unmap_def Let_def pe ps
    using assms(1,2) end0
    by (simp add: unmap_entries_def user_unmap_pde_def pti_of_def ctx_inv_def USER_PDES_def)
qed

text \<open>
  A range that lies in one page table and ends where the table ends is not unmapped at all: the
  end index of the last table is reduced modulo 1024 to 0, the loop body is empty, and every page of
  the range stays mapped, as does a range of one whole table.
\<close>

theorem vmmc_user_unmap_boundary:
  assumes "ctx_inv v c" and "pdi_of virt < USER_PDES" and "0 < len"
    and "unat virt + unat len = (pdi_of virt + 1) * 4194304"
  shows "vmmc_user_unmap v c virt len = Inr (v, c)"
  using assms by (rule unmap_boundary)

theorem vmmc_user_unmap_boundary_witness:
  "vmmc_user_unmap demo_cow_vm demo_cow_ctx 0x1000 0x3FF000 = Inr (demo_cow_vm, demo_cow_ctx)
   \<and> present (entry demo_cow_vm demo_cow_ctx 1)"
proof -
  have "pdi_of 0x1000 < USER_PDES" "pdi_of 0x1000 = 0" by (simp_all add: pdi_of_def USER_PDES_def)
  moreover have "present (entry demo_cow_vm demo_cow_ctx 1)" by (simp only: demo_cow_entry) (simp add: flag_bits(1))
  ultimately show ?thesis
    using vmmc_user_unmap_boundary [OF demo_cow_inv, of "0x1000" "0x3FF000"] by simp
qed

subsection \<open>Demand paging\<close>

lemma lazy_table_Inr:
  assumes inv: "ctx_inv v c" and pdi: "pdi < USER_PDES" and us: "pd c ! pdi AND MAP_US \<noteq> 0"
    and run: "lazy_table v c pdi (pd c ! pdi) = Inr (pde, v1, c1)"
  shows "ctx_inv v1 c1" "present pde" "pd c1 ! pdi = pde"
    "\<And>n. n < USER_PAGES \<Longrightarrow> entry v1 c1 n = entry v c n"
    "\<And>a. 0 < pmm_users (vm_pmm v) a \<Longrightarrow> pmm_users (vm_pmm v1) a = pmm_users (vm_pmm v) a
        \<and> vm_frame v1 a = vm_frame v a"
    "\<And>a. is_table c1 a \<Longrightarrow> is_table c a \<or> pmm_users (vm_pmm v) a = 0"
proof -
  have len: "length (pd c) = 1024" and vi: "vm_inv v" using inv by (auto simp: ctx_inv_def)
  have goal: "ctx_inv v1 c1 \<and> present pde \<and> pd c1 ! pdi = pde
     \<and> (\<forall>n < USER_PAGES. entry v1 c1 n = entry v c n)
     \<and> (\<forall>a. 0 < pmm_users (vm_pmm v) a \<longrightarrow> pmm_users (vm_pmm v1) a = pmm_users (vm_pmm v) a
        \<and> vm_frame v1 a = vm_frame v a)
     \<and> (\<forall>a. is_table c1 a \<longrightarrow> is_table c a \<or> pmm_users (vm_pmm v) a = 0)"
  proof (cases "present (pd c ! pdi)")
    case True
    with run inv show ?thesis by (auto simp: lazy_table_def)
  next
    case False
    let ?lz = "(pd c ! pdi AND MAP_RW) OR MAP_US"
    from False run len pdi obtain a v0 where
      al: "vm_alloc v = Inr (a, v0)" and r: "pde = (pd c ! pdi AND MAP_RW) OR MAP_US OR MAP_PR OR a"
      "v1 = memsetptr v0 a ?lz" "c1 = c\<lparr>pd := (pd c)[pdi := pde]\<rparr>"
      by (auto simp: lazy_table_def outcome_simps USER_PDES_def Let_def split: prod.splits)
    note ai = vm_alloc_Inr [OF vi al]
    have np: "present pde" "frame_of pde = a"
      using ai(3) by (simp_all add: r(1) frame_of_or) (simp add: entry_bits)
    have na: "\<not> is_table c a" using ctx_inv_used [OF inv, of a] ai(2) by auto
    have keep: "is_table c b \<Longrightarrow> 0 < pmm_users (vm_pmm v1) b \<and> vm_frame v1 b = vm_frame v b" for b
      using ctx_inv_used [OF inv, of b] ai(4,5) na by (auto simp: r(2))
    have vi1: "vm_inv v1" unfolding r(2) by (rule memsetptr_inv [OF ai(1)])
    have "0 < pmm_users (vm_pmm v1) a" using ai(5) by (simp add: r(2))
    from new_table [OF inv pdi na np vi1 this, folded r(3)] keep
    have nt: "ctx_inv v1 c1" "\<And>n. n < USER_PAGES \<Longrightarrow> entry v1 c1 n =
        (if n div 1024 = pdi then vm_frame v1 a ! (n mod 1024) else entry v c n)"
      "\<And>b. is_table c1 b \<Longrightarrow> b = a \<or> is_table c b" by blast+
    have "entry v1 c1 n = entry v c n" if "n < USER_PAGES" for n
    proof (cases "n div 1024 = pdi")
      case True
      have "n mod 1024 < 1024" by simp
      then have "entry v1 c1 n = ?lz" using nt(2) [OF that] True by (simp add: r(2))
      with True us False show ?thesis by (auto simp: entry_def Let_def)
    next
      case False
      with nt(2) [OF that] show ?thesis by simp
    qed
    moreover have "pd c1 ! pdi = pde" using len pdi by (simp add: r(3) USER_PDES_def)
    moreover have "0 < pmm_users (vm_pmm v) b \<Longrightarrow> pmm_users (vm_pmm v1) b = pmm_users (vm_pmm v) b
        \<and> vm_frame v1 b = vm_frame v b" for b
      using ai(2,4,5) by (auto simp: r(2))
    moreover have "is_table c1 b \<Longrightarrow> is_table c b \<or> pmm_users (vm_pmm v) b = 0" for b
      using nt(3) [of b] ai(2) by auto
    ultimately show ?thesis using nt(1) np(1) by simp
  qed
  then show "ctx_inv v1 c1" "present pde" "pd c1 ! pdi = pde"
    "\<And>n. n < USER_PAGES \<Longrightarrow> entry v1 c1 n = entry v c n"
    "\<And>a. 0 < pmm_users (vm_pmm v) a \<Longrightarrow> pmm_users (vm_pmm v1) a = pmm_users (vm_pmm v) a
        \<and> vm_frame v1 a = vm_frame v a"
    "\<And>a. is_table c1 a \<Longrightarrow> is_table c a \<or> pmm_users (vm_pmm v) a = 0"
    by simp_all
qed

lemma memsetptr_ctx:
  assumes "ctx_inv v c" "\<not> is_table c a"
  shows "ctx_inv (memsetptr v a x) c" "n < USER_PAGES \<Longrightarrow> entry (memsetptr v a x) c n = entry v c n"
proof -
  have "vm_inv (memsetptr v a x)" using assms(1) by (simp add: memsetptr_inv ctx_inv_def)
  then show "ctx_inv (memsetptr v a x) c"
    by (rule ctx_inv_change [OF assms(1)]) (use ctx_inv_used [OF assms(1)] in simp)
  show "n < USER_PAGES \<Longrightarrow> entry (memsetptr v a x) c n = entry v c n"
    by (rule entry_cong) (use assms(2) in auto)
qed

lemma vmmc_do_lazy_map_facts:
  assumes inv: "ctx_inv v c" and user: "\<not> IS_KERNEL address" and e: "e = entry v c (vpn address)"
    and run: "vmmc_do_lazy_map v c address = Inr (r, v', c')"
  shows "ctx_inv v' c' \<and> (r \<longleftrightarrow> pd c ! pdi_of address AND MAP_US \<noteq> 0 \<and> e AND (MAP_PR OR MAP_US) = MAP_US)
    \<and> (\<forall>n < USER_PAGES. \<not> r \<or> n \<noteq> vpn address \<longrightarrow> entry v' c' n = entry v c n)
    \<and> (\<forall>a. 0 < pmm_users (vm_pmm v) a \<longrightarrow> pmm_users (vm_pmm v') a = pmm_users (vm_pmm v) a
        \<and> (\<not> is_table c a \<longrightarrow> vm_frame v' a = vm_frame v a) \<and> (is_table c' a \<longrightarrow> is_table c a))
    \<and> (r \<longrightarrow> (\<exists>phys. entry v' c' (vpn address) = (e AND MAP_RW) OR MAP_US OR MAP_PR OR phys
        \<and> page_aligned phys \<and> pmm_users (vm_pmm v) phys = 0 \<and> pmm_users (vm_pmm v') phys = 1
        \<and> \<not> is_table c' phys \<and> (USER_HERITAGE_BASE \<le> address \<and> address < USER_HERITAGE_TOP \<longrightarrow>
             vm_frame v' phys = replicate 1024 0)))"
proof -
  let ?pdi = "pdi_of address" and ?pti = "pti_of address"
  have u: "?pdi < USER_PDES" using user by (simp add: user_pages(2))
  have vp: "vpn address < USER_PAGES" using user by (simp add: user_pages(1))
  have len: "length (pd c) = 1024" using inv by (simp add: ctx_inv_def)
  show ?thesis
  proof (cases "pd c ! ?pdi AND MAP_US = 0")
    case True
    with run len inv show ?thesis by (auto simp: vmmc_do_lazy_map_def)
  next
    case False
    with run len obtain pde v1 c1 pte where t: "lazy_table v c ?pdi (pd c ! ?pdi) = Inr (pde, v1, c1)"
      and g: "pt_get v1 pde ?pti = Inr pte"
      and k: "(if pte AND (MAP_PR OR MAP_US) \<noteq> MAP_US then Inr (False, v1, c1)
        else rbind (vm_alloc v1) (\<lambda>(phys, v2).
             rbind (pt_set v2 pde ?pti ((pte AND MAP_RW) OR MAP_US OR MAP_PR OR phys)) (\<lambda>v3.
               Inr (True, if USER_HERITAGE_BASE \<le> address \<and> address < USER_HERITAGE_TOP
                          then memsetptr v3 phys 0 else v3, c1)))) = Inr (r, v', c')"
      by (auto simp: vmmc_do_lazy_map_def Let_def outcome_simps split: prod.splits)
    note lt = lazy_table_Inr [OF inv u False t]
    have "pte = entry v1 c1 (vpn address)"
      using g lt(1-3) by (auto simp: pt_get_def outcome_simps entry_def Let_def pdi_of_vpn pti_of_vpn)
    then have pte: "pte = e" using lt(4) [OF vp] e by simp
    show ?thesis
    proof (cases "e AND (MAP_PR OR MAP_US) = MAP_US")
      case False
      have tabs: "0 < pmm_users (vm_pmm v) a \<Longrightarrow> is_table c1 a \<Longrightarrow> is_table c a" for a using lt(6) [of a] by auto
      from False k pte lt(1-5) show ?thesis by (auto dest: tabs)
    next
      case lazy: True
      have vi1: "vm_inv v1" using lt(1) by (simp add: ctx_inv_def)
      from k lazy pte obtain phys v2 v3 where al: "vm_alloc v1 = Inr (phys, v2)"
        and ps: "pt_set v2 pde ?pti ((e AND MAP_RW) OR MAP_US OR MAP_PR OR phys) = Inr v3" and r: "r"
        and v': "v' = (if USER_HERITAGE_BASE \<le> address \<and> address < USER_HERITAGE_TOP
                       then memsetptr v3 phys 0 else v3)" "c' = c1"
        by (auto simp: outcome_simps split: prod.splits if_splits)
      note ai = vm_alloc_Inr [OF vi1 al]
      have np: "\<not> is_table c1 phys" using ctx_inv_used [OF lt(1), of phys] ai(2) by auto
      have inv2: "ctx_inv v2 c1"
        by (rule ctx_inv_change [OF lt(1) ai(1)]) (use ctx_inv_used [OF lt(1)] in \<open>auto simp: ai(5)\<close>)
      have e2: "entry v2 c1 n = entry v1 c1 n" for n using ai(4) by (simp add: entry_def Let_def)
      have v3: "v3 = pt_store v2 (frame_of pde) ?pti ((e AND MAP_RW) OR MAP_US OR MAP_PR OR phys)"
        using ps ai(1) by (simp add: pt_set_store)
      have inv3: "ctx_inv v3 c1" unfolding v3 by (rule pt_store_inv [OF inv2])
      have e3: "entry v3 c1 n = (if n = vpn address then (e AND MAP_RW) OR MAP_US OR MAP_PR OR phys
          else entry v c n)" if "n < USER_PAGES" for n
        using pt_store_entry_vpn [OF inv2 u _ that] lt(2,3) e2 lt(4) [OF that] by (simp add: v3)
      have e': "ctx_inv v' c' \<and> (\<forall>n < USER_PAGES. entry v' c' n = entry v3 c1 n)"
        using inv3 memsetptr_ctx [OF inv3 np] by (simp add: v')
      have tab: "is_table c1 (frame_of pde)" using u lt(2,3) by (auto simp: is_table_def table_at_def)
      have us: "pmm_users (vm_pmm v') = (pmm_users (vm_pmm v1))(phys := 1)" using ai(5) by (simp add: v' v3)
      have "pmm_users (vm_pmm v') a = pmm_users (vm_pmm v) a \<and> (\<not> is_table c a \<longrightarrow> vm_frame v' a = vm_frame v a)
          \<and> (is_table c' a \<longrightarrow> is_table c a)"
        if a: "0 < pmm_users (vm_pmm v) a" for a
      proof -
        have "a \<noteq> phys" using lt(5) [OF a] a ai(2) by auto
        moreover have "is_table c1 a \<Longrightarrow> is_table c a" using lt(6) [of a] a by auto
        ultimately show ?thesis using lt(5) [OF a] us tab ai(4) by (auto simp: v' v3)
      qed
      moreover have "pmm_users (vm_pmm v) phys = 0" using lt(5) [of phys] ai(2) by (metis not_gr_zero)
      ultimately show ?thesis using r lazy False e' e3 vp ai(3) us v' np by auto
    qed
  qed
qed

text \<open>
  C35: a page fault on a lazily mapped page gives it a frame that nobody used, with the write
  permission the lazy mapping had, zeroed when the page lies in the area inherited across \<open>exec\<close>;
  any other page is refused. No other page changes, and no frame in use changes hands or, unless it
  is a page table, contents.
\<close>

theorem vmmc_do_lazy_map_demand:
  assumes inv: "ctx_inv v c" and user: "\<not> IS_KERNEL address" and e: "e = entry v c (vpn address)"
    and run: "vmmc_do_lazy_map v c address = Inr (r, v', c')"
  shows "ctx_inv v' c' \<and> (r \<longleftrightarrow> pd c ! pdi_of address AND MAP_US \<noteq> 0 \<and> e AND (MAP_PR OR MAP_US) = MAP_US)
    \<and> (\<forall>n < USER_PAGES. \<not> r \<or> n \<noteq> vpn address \<longrightarrow> entry v' c' n = entry v c n)
    \<and> (\<forall>a. 0 < pmm_users (vm_pmm v) a \<longrightarrow> pmm_users (vm_pmm v') a = pmm_users (vm_pmm v) a
        \<and> (\<not> is_table c a \<longrightarrow> vm_frame v' a = vm_frame v a))
    \<and> (r \<longrightarrow> (\<exists>phys. entry v' c' (vpn address) = (e AND MAP_RW) OR MAP_US OR MAP_PR OR phys
        \<and> page_aligned phys \<and> pmm_users (vm_pmm v) phys = 0 \<and> pmm_users (vm_pmm v') phys = 1
        \<and> (USER_HERITAGE_BASE \<le> address \<and> address < USER_HERITAGE_TOP \<longrightarrow>
             vm_frame v' phys = replicate 1024 0)))"
  using vmmc_do_lazy_map_facts [OF assms] by blast

text \<open>A lazily mapped page in the table of the demonstration context.\<close>

definition demo_lazy_vm :: vm where
  "demo_lazy_vm = demo_cow_vm\<lparr>vm_frame := (\<lambda>a. if a = 0x100000 then (replicate 1024 0)[1 := 6] else replicate 1024 7)\<rparr>"

lemma demo_lazy_inv: "ctx_inv demo_lazy_vm demo_cow_ctx"
proof -
  have "vm_inv demo_lazy_vm" using demo_cow_inv by (simp add: ctx_inv_def vm_inv_def demo_lazy_vm_def)
  then show ?thesis
    by (rule ctx_inv_change [OF demo_cow_inv]) (use ctx_inv_used [OF demo_cow_inv] in \<open>simp add: demo_lazy_vm_def\<close>)
qed

lemma demo_lazy_alloc:
  "vm_alloc demo_lazy_vm = Inr (0x102000, demo_lazy_vm\<lparr>vm_pmm := (vm_pmm demo_lazy_vm)\<lparr>bitmap := [1, 0x82, 1, 0]\<rparr>\<rparr>)"
  by (simp add: vm_alloc_def pmm_alloc_def demo_lazy_vm_def demo_cow_vm_def pmm_alloc_from.simps
      frame_addr_def PAGE_SHIFT_def)

theorem vmmc_do_lazy_map_demand_witness:
  "\<exists>v c. vmmc_do_lazy_map demo_lazy_vm demo_cow_ctx 0x1234 = Inr (True, v, c)
     \<and> (\<exists>phys. entry v c 1 = 2 OR 4 OR 1 OR phys \<and> pmm_users (vm_pmm v) phys = 1)"
proof -
  have fr: "vm_frame demo_lazy_vm 0x100000 ! 1 = 6" "length (vm_frame demo_lazy_vm a) = 1024" for a
    by (simp_all add: demo_lazy_vm_def)
  have pd0: "pd demo_cow_ctx ! 0 = 0x100007" "length (pd demo_cow_ctx) = 1024" "present 0x100007"
    "frame_of 0x100007 = 0x100000" "pdi_of 0x1234 = 0" "pti_of 0x1234 = 1"
    by (simp_all add: demo_cow_pd demo_cow_ctx_def flag_bits(1) frame_of_def pdi_of_def pti_of_def)
  have e: "6 = entry demo_lazy_vm demo_cow_ctx (vpn 0x1234)"
    unfolding demo_cow_frame using fr pd0 by (simp add: entry_def Let_def)
  have k: "\<not> IS_KERNEL 0x1234" by (simp add: IS_KERNEL_def PHYS_BASE_def)
  have "\<exists>v. vmmc_do_lazy_map demo_lazy_vm demo_cow_ctx 0x1234 = Inr (True, v, demo_cow_ctx)"
    using fr pd0 demo_lazy_alloc
    by (simp add: vmmc_do_lazy_map_def lazy_table_def pt_get_def pt_set_def map_flags USER_HERITAGE_BASE_def)
  then obtain v where run: "vmmc_do_lazy_map demo_lazy_vm demo_cow_ctx 0x1234 = Inr (True, v, demo_cow_ctx)" by blast
  with vmmc_do_lazy_map_demand [OF demo_lazy_inv k e run] show ?thesis
    unfolding demo_cow_frame by (auto simp: map_flags)
qed

text \<open>
  A lazy mapping of less than a whole page table that needs a new table fills the entries of
  the area only: every other entry of the new table is what the frame's previous owner left there,
  so that a stale word with the present bit set becomes a user mapping.
\<close>

theorem vmmc_lazy_map_stale:
  assumes inv: "ctx_inv v c" and user: "pdi_of virt < USER_PDES" and np: "\<not> present (pd c ! pdi_of virt)"
    and al: "vm_alloc v = Inr (a, v1)"
  shows "\<exists>v' c'. vmmc_lazy_map_area v c virt PAGE_SIZE flags = Inr (v', c')
    \<and> entry v' c' (vpn virt) = lazy_entry flags
    \<and> (\<forall>n < USER_PAGES. n \<noteq> vpn virt \<longrightarrow> entry v' c' n =
         (if n div 1024 = pdi_of virt then vm_frame v a ! (n mod 1024) else entry v c n))"
proof -
  let ?pdi = "pdi_of virt" and ?pti = "pti_of virt" and ?e = "lazy_entry flags"
  have vi: "vm_inv v" and len: "length (pd c) = 1024" using inv by (auto simp: ctx_inv_def)
  note ai = vm_alloc_Inr [OF vi al]
  have fl: "length (vm_frame v a) = 1024" using vi by (simp add: vm_inv_def)
  define npde where "npde = a OR MAP_PR OR MAP_RW OR MAP_US"
  define pt where "pt = take ?pti (vm_frame v a) @ ?e # drop (Suc ?pti) (vm_frame v a)"
  define v2 where "v2 = v1\<lparr>vm_frame := (vm_frame v1)(a := pt)\<rparr>"
  define c2 where "c2 = c\<lparr>pd := (pd c)[?pdi := npde]\<rparr>"
  have pt: "pt = (vm_frame v a)[?pti := ?e]" using fl by (simp add: pt_def upd_conv_take_nth_drop)
  have one: "min (1024 - ?pti) (Suc 0) = Suc 0" using pti_of_bound [of virt] by linarith
  have "vmmc_lazy_map_area v c virt PAGE_SIZE flags = lazy_map_loop v c ?pdi ?pti 1 ?e"
    by (simp add: vmmc_lazy_map_area_def PAGE_SIZE_def)
  also have "\<dots> = lazy_map_loop v2 c2 (Suc ?pdi) 0 0 ?e"
    using len user np al ai(4) one
    by (subst lazy_map_loop.simps)
       (simp add: USER_PDES_def npde_def [symmetric] v2_def c2_def pt_def Let_def)
  also have "\<dots> = Inr (v2, c2)" by (simp add: lazy_map_loop.simps)
  finally have run: "vmmc_lazy_map_area v c virt PAGE_SIZE flags = Inr (v2, c2)" .
  have npd: "present npde" "frame_of npde = a"
    using ai(3) by (simp_all add: npde_def frame_of_or) (simp add: entry_bits)
  have na: "\<not> is_table c a" using ctx_inv_used [OF inv, of a] ai(2) by auto
  have vi2: "vm_inv v2" using ai(1) fl by (simp add: v2_def vm_inv_def pt)
  have "0 < pmm_users (vm_pmm v2) a" using ai(5) by (simp add: v2_def)
  moreover have "is_table c b \<Longrightarrow> 0 < pmm_users (vm_pmm v2) b \<and> vm_frame v2 b = vm_frame v b" for b
    using ctx_inv_used [OF inv, of b] ai(4,5) na by (auto simp: v2_def)
  ultimately have en: "entry v2 c2 n = (if n div 1024 = ?pdi then vm_frame v2 a ! (n mod 1024) else entry v c n)"
    if "n < USER_PAGES" for n
    using new_table(2) [OF inv user na npd vi2 _ _ that] by (simp add: c2_def)
  have vp: "vpn virt < USER_PAGES" using user user_pages by blast
  have "entry v2 c2 (vpn virt) = ?e"
    using en [OF vp] fl by (simp add: pdi_of_vpn [symmetric] pti_of_vpn [symmetric] v2_def pt)
  moreover have "entry v2 c2 n = (if n div 1024 = ?pdi then vm_frame v a ! (n mod 1024) else entry v c n)"
    if "n < USER_PAGES" "n \<noteq> vpn virt" for n
  proof -
    have "n div 1024 = ?pdi \<Longrightarrow> n mod 1024 \<noteq> ?pti" using vpn_eq that(2) by blast
    moreover have "vm_frame v2 a = (vm_frame v a)[?pti := ?e]" by (simp add: v2_def pt)
    ultimately show ?thesis using en [OF that(1)] by (metis nth_list_update_neq)
  qed
  ultimately show ?thesis using run by blast
qed

theorem vmmc_lazy_map_stale_witness:
  "\<exists>v c. vmmc_lazy_map_area demo_lazy_vm demo_cow_ctx 0x800000 PAGE_SIZE VMM_UR = Inr (v, c)
     \<and> \<not> present (entry demo_lazy_vm demo_cow_ctx 2049) \<and> present (entry v c 2049)"
proof -
  have p: "pdi_of 0x800000 = 2" "vpn 0x800000 = 2048" by (simp_all add: pdi_of_def vpn_def)
  have "\<not> present (pd demo_cow_ctx ! 2)" by (simp add: demo_cow_pd flag_bits(1))
  moreover have "2049 < USER_PAGES" "2 < USER_PDES" by (simp_all add: USER_PAGES_def USER_PDES_def)
  moreover have "vm_frame demo_lazy_vm 0x102000 ! (2049 mod 1024) = 7" by (simp add: demo_lazy_vm_def)
  moreover have "present 7" by (simp add: flag_bits(1))
  moreover have "entry demo_lazy_vm demo_cow_ctx 2049 = 0" by (simp add: entry_def Let_def demo_cow_pd flag_bits(1))
  moreover have "\<not> present 0" by (simp add: flag_bits(1))
  ultimately show ?thesis
    using vmmc_lazy_map_stale [OF demo_lazy_inv _ _ demo_lazy_alloc, of "0x800000" VMM_UR] unfolding p
    by (auto dest!: spec [of _ 2049])
qed

subsection \<open>Finding room for shared mappings\<close>

text \<open>
  When the page table of the first 4 MiB of the mapping area is full and the second is absent,
  mapping one more page yields the start of the mapping area, which is mapped already: the end of
  the run is computed with a bitwise or of the directory index and the table index 1024, whose bits
  overlap when the directory index is odd.
\<close>

theorem vmmc_user_map_sg_overwrites:
  assumes inv: "ctx_inv v c" and full: "present (pd c ! 768)"
      "\<forall>i < 1024. present (vm_frame v (frame_of (pd c ! 768)) ! i)"
    and absent: "\<not> present (pd c ! 769)"
  shows "present (entry v c (vpn USER_MAP_BASE))
    \<and> (\<exists>v' c'. vmmc_user_map_sg v c [phys] 1 flags = Inr (USER_MAP_BASE, v', c')
         \<and> entry v' c' (vpn USER_MAP_BASE) = user_pte phys flags)"
proof -
  let ?t = "vm_frame v (frame_of (pd c ! 768))"
  have len: "length (pd c) = 1024" "length ?t = 1024" using inv by (auto simp: ctx_inv_def vm_inv_def)
  have "sg_scan_pt es i 0 1 = (i + length es, 0)" if "\<forall>x \<in> set es. present x" for es i
    using that by (induction es arbitrary: i) auto
  then have full': "sg_scan_pt ?t 0 0 1 = (1024, 0)" using full(2) len(2) by (simp add: all_set_conv_all_nth)
  have "sg_scan v (pd c) 769 1024 0 1 = Inr (769, 1024, 1024)"
    using len(1) absent by (subst sg_scan.simps) (simp add: KERNEL_BASE_def)
  then have scan: "sg_scan v (pd c) 768 0 0 1 = Inr (769, 1024, 1024)"
    using len(1) full(1) full' by (subst sg_scan.simps) (simp add: KERNEL_BASE_def)
  have u: "\<not> IS_KERNEL USER_MAP_BASE" "pdi_of USER_MAP_BASE = 768" "vpn USER_MAP_BASE = 768 * 1024"
    by (simp_all add: IS_KERNEL_def USER_MAP_BASE_def PHYS_BASE_def pdi_of_def vpn_def)
  obtain v' c' where m: "vmmc_map_user_page v c USER_MAP_BASE (frame_of phys) flags = Inr (v', c')" "ctx_inv v' c'"
    "\<And>n. n < USER_PAGES \<Longrightarrow> entry v' c' n = (if n = vpn USER_MAP_BASE then user_pte (frame_of phys) flags else entry v c n)"
    using vmmc_map_user_page_ok [OF inv u(1), of 0 "frame_of phys" flags] full(1) u(2) by metis
  have "vmmc_user_map_sg v c [phys] 1 flags = Inr (USER_MAP_BASE, v', c')"
    using scan m(1) by (simp add: vmmc_user_map_sg_def USER_MAP_BASE_def)
  moreover have "entry v' c' (vpn USER_MAP_BASE) = user_pte phys flags"
    using m(3) [of "vpn USER_MAP_BASE"] u(3) by (simp add: USER_PAGES_def USER_PDES_def user_pte_def)
  moreover have "present (entry v c (vpn USER_MAP_BASE))"
    using full u(3) by (simp add: entry_def Let_def)
  ultimately show ?thesis by blast
qed

definition demo_full_vm :: vm where
  "demo_full_vm = demo_cow_vm\<lparr>vm_frame := (\<lambda>a. replicate 1024 0x101007)\<rparr>"

definition demo_full_ctx :: vmm_context where
  "demo_full_ctx = demo_cow_ctx\<lparr>pd := (replicate 1024 0)[768 := 0x100007]\<rparr>"

lemma demo_full_pd: "i < 1024 \<Longrightarrow> pd demo_full_ctx ! i = (if i = 768 then 0x100007 else 0)"
  by (simp add: demo_full_ctx_def nth_list_update)

lemma demo_full_inv: "ctx_inv demo_full_vm demo_full_ctx"
proof -
  have t: "table_at demo_full_ctx pdi a \<longleftrightarrow> pdi = 768 \<and> a = 0x100000" for pdi a
    by (cases "pdi = 768") (auto simp: table_at_def USER_PDES_def demo_full_pd flag_bits(1) frame_of_def)
  have "0 < pmm_users (vm_pmm demo_cow_vm) 0x100000"
    using ctx_inv_used [OF demo_cow_inv, of "0x100000"] by (simp add: is_table_def demo_cow_table)
  then show ?thesis
    using demo_cow_inv by (auto simp: ctx_inv_def vm_inv_def t) (simp_all add: demo_full_vm_def demo_full_ctx_def)
qed

theorem vmmc_user_map_sg_overwrites_witness:
  "\<exists>v c. vmmc_user_map_sg demo_full_vm demo_full_ctx [0x5000] 1 VMM_UW = Inr (0xC0000000, v, c)
     \<and> entry demo_full_vm demo_full_ctx (vpn 0xC0000000) = 0x101007 \<and> entry v c (vpn 0xC0000000) = 0x5007"
proof -
  have p: "present 0x100007" "present 0x101007" "\<not> present 0" by (simp_all add: flag_bits(1))
  have "entry demo_full_vm demo_full_ctx (vpn 0xC0000000) = 0x101007"
    using p by (simp add: entry_def Let_def vpn_def demo_full_pd demo_full_vm_def)
  moreover have "user_pte 0x5000 VMM_UW = 0x5007" by (simp add: user_pte_def frame_of_def vmm_flags map_flags)
  moreover have "pd demo_full_ctx ! 768 = 0x100007" "pd demo_full_ctx ! 769 = 0"
    "\<forall>i < 1024. vm_frame demo_full_vm (frame_of 0x100007) ! i = 0x101007"
    by (simp_all add: demo_full_pd demo_full_vm_def)
  ultimately show ?thesis
    using vmmc_user_map_sg_overwrites [OF demo_full_inv, of "0x5000" VMM_UW] p
    by (simp add: USER_MAP_BASE_def)
qed

end
