(* ===== verification/Vmem.thy ===== *)
theory Vmem
  imports Paging Digest
begin

text \<open>
  The architecture-independent part of virtual memory (\<open>src/kernel/common/memory/vmem.c\<close>): the life
  of address spaces, shared memory areas, the user heap break and the checks of user pointers.

  \<open>vmem\<close> is the memory state: frames and page tables, the kernel's mapping window and heap, and for
  every kernel address the \<open>struct shm_sg\<close> read there. The three bytes of padding after
  \<open>kept_alive\<close> are under the checksum and therefore a field. The slots of \<open>phys\<close> are zero in a new
  descriptor: the code writes them before it reads them.
\<close>

record shm_sg =
  sg_size :: u32
  sg_users :: u32
  sg_offset :: u32
  sg_kept_alive :: bool
  sg_pad :: "u8 list"
  sg_digest :: u32
  sg_phys :: "u32 list"

record vmem =
  vs_vm :: vm
  vs_kpt :: kpt
  vs_size :: "u32 \<rightharpoonup> u32"
  vs_sg :: "u32 \<Rightarrow> shm_sg"

subsection \<open>Address spaces\<close>

definition create_vmm_context :: "vm \<Rightarrow> u32 list \<Rightarrow> vmm_context \<Rightarrow> (vm \<times> vmm_context) outcome" where
  "create_vmm_context v kpd c = create_vmm_context_arch v kpd (c\<lparr>users := 0, heap_end := 0\<rparr>)"

definition use_vmm_context :: "vmm_context \<Rightarrow> vmm_context" where
  "use_vmm_context c = c\<lparr>users := users c + 1\<rparr>"

definition unuse_vmm_context :: "vm \<Rightarrow> vmm_context \<Rightarrow> (vm \<times> vmm_context) outcome" where
  "unuse_vmm_context v c =
     (let c' = c\<lparr>users := users c - 1\<rparr> in
      if users c' = 0 then rbind (destroy_vmm_context v c') (\<lambda>v'. Inr (v', c')) else Inr (v, c'))"

definition vmmc_set_heap_top :: "vmm_context \<Rightarrow> u32 \<Rightarrow> vmm_context" where
  "vmmc_set_heap_top c address = c\<lparr>heap_end := address\<rparr>"

subsection \<open>Checking pointers\<close>

text \<open>The directory entries of the window point into \<open>kpt\<close>, which the model keeps as a list.\<close>

definition kaddress_mapped :: "vmem \<Rightarrow> vmm_context \<Rightarrow> u32 \<Rightarrow> u32 outcome" where
  "kaddress_mapped s c addr =
     (if HMEM_BASE \<le> addr \<and> addr < UNMP_BASE then
        rbind (aget (vs_kpt s) (unat (drop_bit 12 (addr - HMEM_BASE)))) (\<lambda>pte.
          Inr (if present pte then access_flags pte else 0))
      else rbind (vmmc_address_mapped (vs_vm s) c addr) (\<lambda>r. Inr (fst r)))"

definition range_pages :: "u32 \<Rightarrow> u32 \<Rightarrow> nat" where
  "range_pages start len = unat (drop_bit PAGE_SHIFT (len + (start AND (PAGE_SIZE - 1)) + PAGE_SIZE - 1))"

fun kernel_pages_ok :: "vmem \<Rightarrow> vmm_context \<Rightarrow> u32 \<Rightarrow> nat \<Rightarrow> u32 \<Rightarrow> bool outcome" where
  "kernel_pages_ok s c addr 0 flags = Inr True"
| "kernel_pages_ok s c addr (Suc pages) flags =
     (if \<not> IS_KERNEL addr then Inr False
      else
        rbind (kaddress_mapped s c addr) (\<lambda>f.
          if f AND flags \<noteq> flags then Inr False
          else kernel_pages_ok s c (addr + PAGE_SIZE) pages flags))"

definition is_valid_kernel_mem :: "vmem \<Rightarrow> vmm_context \<Rightarrow> u32 \<Rightarrow> u32 \<Rightarrow> u32 \<Rightarrow> bool outcome" where
  "is_valid_kernel_mem s c start len flags =
     kernel_pages_ok s c (start AND NOT (PAGE_SIZE - 1)) (range_pages start len) flags"

fun user_pages_ok :: "vm \<Rightarrow> vmm_context \<Rightarrow> u32 \<Rightarrow> nat \<Rightarrow> u32 \<Rightarrow> bool outcome" where
  "user_pages_ok v c addr 0 flags = Inr True"
| "user_pages_ok v c addr (Suc pages) flags =
     (if IS_KERNEL addr then Inr False
      else
        rbind (vmmc_address_mapped v c addr) (\<lambda>(flags_set, _).
          if flags_set AND flags \<noteq> flags
             \<and> (flags AND (VMM_UW OR VMM_PW) = 0 \<or> flags_set AND (VMM_UW OR VMM_PW) \<noteq> 0)
          then Inr False
          else user_pages_ok v c (addr + PAGE_SIZE) pages flags))"

definition is_valid_user_mem :: "vm \<Rightarrow> vmm_context \<Rightarrow> u32 \<Rightarrow> u32 \<Rightarrow> u32 \<Rightarrow> bool outcome" where
  "is_valid_user_mem v c start len flags =
     user_pages_ok v c (start AND NOT (PAGE_SIZE - 1)) (range_pages start len) flags"

subsection \<open>Shared memory\<close>

definition sg_bytes :: "shm_sg \<Rightarrow> u8 list" where
  "sg_bytes sg = le_bytes (sg_size sg) @ le_bytes (sg_users sg) @ le_bytes (sg_offset sg)
     @ (if sg_kept_alive sg then 1 else 0) # sg_pad sg"

definition sg_seal :: "shm_sg \<Rightarrow> shm_sg" where
  "sg_seal sg = sg\<lparr>sg_digest := calculate_checksum (sg_bytes sg)\<rparr>"

definition is_valid_shm :: "vmem \<Rightarrow> vmm_context \<Rightarrow> u32 \<Rightarrow> bool outcome" where
  "is_valid_shm s cur shm_id =
     rbind (is_valid_kernel_mem s cur shm_id 20 (VMM_PR OR VMM_PW)) (\<lambda>ok.
       if \<not> ok then Inr False
       else Inr (check_integrity (sg_bytes (vs_sg s shm_id) @ le_bytes (sg_digest (vs_sg s shm_id)))))"

definition shm_pages :: "u32 \<Rightarrow> nat" where
  "shm_pages sz = unat ((sz + PAGE_SIZE - 1) div PAGE_SIZE)"

definition vs_kmalloc :: "vmem \<Rightarrow> u32 \<Rightarrow> (u32 \<times> vmem) outcome" where
  "vs_kmalloc s sz =
     rbind (kmalloc \<lparr>km_pmm = vm_pmm (vs_vm s), km_kpt = vs_kpt s, km_size = vs_size s\<rparr> sz) (\<lambda>(a, m).
       Inr (a, s\<lparr>vs_vm := (vs_vm s)\<lparr>vm_pmm := km_pmm m\<rparr>, vs_kpt := km_kpt m, vs_size := km_size m\<rparr>))"

definition vs_kfree :: "vmem \<Rightarrow> u32 \<Rightarrow> vmem outcome" where
  "vs_kfree s ptr =
     rbind (kfree \<lparr>km_pmm = vm_pmm (vs_vm s), km_kpt = vs_kpt s, km_size = vs_size s\<rparr> ptr) (\<lambda>m.
       Inr (s\<lparr>vs_vm := (vs_vm s)\<lparr>vm_pmm := km_pmm m\<rparr>, vs_kpt := km_kpt m, vs_size := km_size m\<rparr>))"

definition vs_krealloc :: "vmem \<Rightarrow> u32 \<Rightarrow> u32 \<Rightarrow> (u32 \<times> vmem) outcome" where
  "vs_krealloc s ptr sz =
     rbind (krealloc \<lparr>km_pmm = vm_pmm (vs_vm s), km_kpt = vs_kpt s, km_size = vs_size s\<rparr> ptr sz) (\<lambda>(a, m, _).
       Inr (a, s\<lparr>vs_vm := (vs_vm s)\<lparr>vm_pmm := km_pmm m\<rparr>, vs_kpt := km_kpt m, vs_size := km_size m\<rparr>))"

definition sg_put :: "vmem \<Rightarrow> u32 \<Rightarrow> shm_sg \<Rightarrow> vmem" where
  "sg_put s shm_id sg = s\<lparr>vs_sg := (vs_sg s)(shm_id := sg)\<rparr>"

definition vmmc_create_shm :: "vmem \<Rightarrow> u32 \<Rightarrow> (u32 \<times> vmem) outcome" where
  "vmmc_create_shm s sz =
     (let pages = shm_pages sz in
      rbind (vs_kmalloc s (20 + of_nat pages * 4)) (\<lambda>(a, s').
        Inr (a, sg_put s' a (sg_seal
          ((vs_sg s' a)\<lparr>sg_size := sz, sg_users := 0, sg_offset := 0, sg_kept_alive := False,
             sg_phys := replicate pages 0\<rparr>)))))"

text \<open>The body of the loop of \<open>vmmc_make_shm\<close>: one page of the caller becomes slot \<open>k\<close>.\<close>

definition make_shm_page ::
    "vm \<times> vmm_context \<times> u32 list \<Rightarrow> nat \<times> u32 \<Rightarrow> (vm \<times> vmm_context \<times> u32 list) outcome" where
  "make_shm_page = (\<lambda>(v, c, phys) (k, vaddr).
     rbind (vmmc_address_mapped v c vaddr) (\<lambda>(map_flags, dst).
     rbind (kassert (map_flags AND (VMM_UR OR VMM_UW) \<noteq> 0 \<or> map_flags = 0)) (\<lambda>_.
     rbind (if map_flags = 0 then
              rbind (vmmc_do_lazy_map v c vaddr) (\<lambda>(ok, v1, c1).
              rbind (kassert ok) (\<lambda>_.
              rbind (vmmc_address_mapped v1 c1 vaddr) (\<lambda>(f, dst).
              rbind (kassert (f AND (VMM_UR OR VMM_UW) \<noteq> 0)) (\<lambda>_. Inr (v1, c1, dst)))))
            else Inr (v, c, dst)) (\<lambda>(v2, c2, dst).
     rbind (kassert (vaddr < PHYS_BASE)) (\<lambda>_.
       case dst of
         None \<Rightarrow> Inl BadPointer
       | Some d \<Rightarrow>
           rbind (pmm_alloced (vm_pmm v2) d) (\<lambda>al.
           rbind (kassert al) (\<lambda>_.
           rbind (vm_use v2 d) (\<lambda>v3.
           rbind (aset phys k d) (\<lambda>phys'. Inr (v3, c2, phys'))))))))))"

definition shm_vaddrs :: "(u32 \<times> int) list \<Rightarrow> u32 list" where
  "shm_vaddrs areas = concat (map (\<lambda>(vaddr, n).
     map (\<lambda>j. (vaddr AND NOT (PAGE_SIZE - 1)) + of_nat j * PAGE_SIZE) [0..<nat n]) areas)"

definition vmmc_make_shm ::
    "vmem \<Rightarrow> vmm_context \<Rightarrow> (u32 \<times> int) list \<Rightarrow> u32 \<Rightarrow> (u32 \<times> vmem \<times> vmm_context) outcome" where
  "vmmc_make_shm s c areas offset =
     rbind (kassert (areas \<noteq> [])) (\<lambda>_.
     rbind (kassert (0 \<le> sint offset \<and> sint offset < 4096)) (\<lambda>_.
       let pages = sum_list (map snd areas) in
       rbind (vs_kmalloc s (20 + of_int pages * 4)) (\<lambda>(a, s1).
         let sg = sg_seal ((vs_sg s1 a)\<lparr>sg_size := of_int pages * PAGE_SIZE, sg_users := 1,
                    sg_offset := offset, sg_kept_alive := False, sg_phys := replicate (nat pages) 0\<rparr>)
         in rbind (rfold make_shm_page (vs_vm s1, c, sg_phys sg) (enumerate 0 (shm_vaddrs areas)))
              (\<lambda>(v', c', phys). Inr (a, sg_put (s1\<lparr>vs_vm := v'\<rparr>) a (sg\<lparr>sg_phys := phys\<rparr>), c')))))"

definition shm_open_map ::
    "vm \<Rightarrow> vmm_context \<Rightarrow> shm_sg \<Rightarrow> u32 \<Rightarrow> (u32 \<times> vm \<times> vmm_context) outcome" where
  "shm_open_map v c sg flags =
     rbind (vmmc_user_map_sg v c (sg_phys sg) (int (shm_pages (sg_size sg))) flags) (\<lambda>(m, v', c').
       Inr (m + sg_offset sg, v', c'))"

definition vmmc_open_shm ::
    "vmem \<Rightarrow> vmm_context \<Rightarrow> vmm_context \<Rightarrow> u32 \<Rightarrow> u32 \<Rightarrow> (u32 \<times> vmem \<times> vmm_context) outcome" where
  "vmmc_open_shm s cur c shm_id flags =
     rbind (is_valid_shm s cur shm_id) (\<lambda>ok.
     rbind (kassert ok) (\<lambda>_.
       let sg = vs_sg s shm_id; pages = shm_pages (sg_size sg);
           finish = (\<lambda>mapping v' c' sg'.
             Inr (mapping, sg_put (s\<lparr>vs_vm := v'\<rparr>) shm_id (sg_seal (sg'\<lparr>sg_users := sg_users sg' + 1\<rparr>)), c'))
       in
       if sg_kept_alive sg \<or> sg_users sg \<noteq> 0 then
         rbind (shm_open_map (vs_vm s) c sg flags) (\<lambda>(mapping, v1, c1).
           if mapping = 0 then Inr (0, s\<lparr>vs_vm := v1\<rparr>, c1)
           else if sg_kept_alive sg then finish mapping v1 c1 (sg\<lparr>sg_kept_alive := False\<rparr>)
           else rbind (rfold vm_use v1 (take pages (sg_phys sg))) (\<lambda>v2. finish mapping v2 c1 sg))
       else
         rbind (alloc_many vm_alloc pages (vs_vm s)) (\<lambda>(frames, v1).
           let sg1 = sg\<lparr>sg_phys := frames\<rparr> in
           rbind (shm_open_map v1 c sg1 flags) (\<lambda>(mapping, v2, c2).
             if mapping = 0 then
               rbind (rfold vm_free v2 frames) (\<lambda>v3. Inr (0, sg_put (s\<lparr>vs_vm := v3\<rparr>) shm_id sg1, c2))
             else finish mapping v2 c2 sg1))))"

text \<open>What \<open>vmmc_close_shm\<close> and \<open>vmmc_unmake_shm\<close> have in common once the mapping is gone.\<close>

definition shm_release :: "vmem \<Rightarrow> u32 \<Rightarrow> shm_sg \<Rightarrow> bool \<Rightarrow> vmem outcome" where
  "shm_release s shm_id sg destroy =
     (let last = (sg_users sg = 0) in
      if last \<and> \<not> destroy then Inr (sg_put s shm_id (sg_seal (sg\<lparr>sg_kept_alive := True\<rparr>)))
      else
        rbind (rfold vm_free (vs_vm s) (take (shm_pages (sg_size sg)) (sg_phys sg))) (\<lambda>v.
          if last then vs_kfree (sg_put (s\<lparr>vs_vm := v\<rparr>) shm_id sg) shm_id
          else Inr (sg_put (s\<lparr>vs_vm := v\<rparr>) shm_id (sg_seal sg))))"

definition vmmc_close_shm ::
    "vmem \<Rightarrow> vmm_context \<Rightarrow> vmm_context \<Rightarrow> u32 \<Rightarrow> u32 \<Rightarrow> bool \<Rightarrow> (vmem \<times> vmm_context) outcome" where
  "vmmc_close_shm s cur c shm_id virt destroy =
     rbind (is_valid_shm s cur shm_id) (\<lambda>ok.
     rbind (kassert ok) (\<lambda>_.
       let sg = (vs_sg s shm_id)\<lparr>sg_users := sg_users (vs_sg s shm_id) - 1\<rparr> in
       rbind (vmmc_user_unmap (vs_vm s) c (virt - sg_offset sg) (sg_size sg)) (\<lambda>(v, c').
       rbind (shm_release (s\<lparr>vs_vm := v\<rparr>) shm_id sg destroy) (\<lambda>s'. Inr (s', c')))))"

definition vmmc_unmake_shm :: "vmem \<Rightarrow> vmm_context \<Rightarrow> u32 \<Rightarrow> bool \<Rightarrow> vmem outcome" where
  "vmmc_unmake_shm s cur shm_id destroy =
     rbind (is_valid_shm s cur shm_id) (\<lambda>ok.
     rbind (kassert ok) (\<lambda>_.
       shm_release s shm_id ((vs_sg s shm_id)\<lparr>sg_users := sg_users (vs_sg s shm_id) - 1\<rparr>) destroy))"

definition vmmc_get_shm_size :: "vmem \<Rightarrow> vmm_context \<Rightarrow> u32 \<Rightarrow> u32 outcome" where
  "vmmc_get_shm_size s cur shm_id =
     rbind (is_valid_shm s cur shm_id) (\<lambda>ok. rbind (kassert ok) (\<lambda>_. Inr (sg_size (vs_sg s shm_id))))"

subsection \<open>The heap break\<close>

definition page_round_up :: "u32 \<Rightarrow> u32" where
  "page_round_up a = (a + PAGE_SIZE - 1) AND NOT (PAGE_SIZE - 1)"

definition pages_between :: "u32 \<Rightarrow> u32 \<Rightarrow> u32 list" where
  "pages_between lo hi =
     (if lo < hi then map (\<lambda>i. lo + of_nat i * PAGE_SIZE) [0..<(unat (hi - lo) + 4095) div 4096] else [])"

definition sbrk_grow_page :: "vm \<times> vmm_context \<Rightarrow> u32 \<Rightarrow> (vm \<times> vmm_context) outcome" where
  "sbrk_grow_page = (\<lambda>(v, c) page.
     rbind (vmmc_address_mapped v c page) (\<lambda>(f, _).
       if f = 0 then
         rbind (vm_alloc v) (\<lambda>(a, v1). vmmc_map_user_page v1 c page a (VMM_UR OR VMM_UW))
       else Inr (v, c)))"

definition sbrk_shrink_page :: "vm \<times> vmm_context \<Rightarrow> u32 \<Rightarrow> (vm \<times> vmm_context) outcome" where
  "sbrk_shrink_page = (\<lambda>(v, c) page.
     rbind (vmmc_address_mapped v c page) (\<lambda>(f, phys).
       case phys of
         Some a \<Rightarrow>
           if f \<noteq> 0 then rbind (vm_free v a) (\<lambda>v1. vmmc_user_unmap v1 c page PAGE_SIZE) else Inr (v, c)
       | None \<Rightarrow> Inr (v, c)))"

definition sbrk_round :: "u32 \<Rightarrow> u32" where
  "sbrk_round inc =
     (if inc AND NOT 0xF \<noteq> 0 then if 0 \<le> sint inc then (inc + 0xF) AND NOT 0xF else inc AND NOT 0xF
      else inc)"

definition context_sbrk :: "vm \<Rightarrow> vmm_context \<Rightarrow> u32 \<Rightarrow> (u32 \<times> vm \<times> vmm_context) outcome" where
  "context_sbrk v c inc =
     (if inc = 0 then Inr (heap_end c, v, c)
      else
        let inc = sbrk_round inc;
            old_heap_end = heap_end c;
            new_heap_end = old_heap_end + inc;
            c1 = c\<lparr>heap_end := new_heap_end\<rparr>
        in rbind
             (if 0 \<le> sint inc then
                rfold sbrk_grow_page (v, c1)
                  (pages_between (old_heap_end AND NOT (PAGE_SIZE - 1)) (page_round_up new_heap_end))
              else
                rfold sbrk_shrink_page (v, c1)
                  (pages_between (page_round_up new_heap_end) (page_round_up old_heap_end)))
             (\<lambda>(v', c'). Inr (old_heap_end, v', c')))"

subsection \<open>Pages of a range\<close>

lemma vpn_in_page:
  assumes "page_aligned a" "r < 4096"
  shows "vpn (a + of_nat r) = vpn a" "IS_KERNEL (a + of_nat r) \<longleftrightarrow> IS_KERNEL a"
proof -
  have al: "unat a mod 4096 = 0" using assms(1) by (simp add: page_aligned_iff)
  have "unat a + r < 2 ^ 32"
  proof -
    have "unat a < 4294967296" using unsigned_less [of a, where ?'a = nat] by simp
    then have "unat a div 4096 < 1048576" by (simp add: less_mult_imp_div_less)
    then have "unat a \<le> 1048575 * 4096" using al div_mult_mod_eq [of "unat a" 4096] by simp
    with assms(2) show ?thesis by simp
  qed
  then have u: "unat (a + of_nat r) = unat a + r"
    using assms(2) by (subst unat_add_nowrap) (simp_all add: unat_of_nat)
  obtain q where "unat a = 4096 * q" using al by (auto simp: mod_eq_0_iff_dvd elim: dvdE)
  then have "(unat a + r) div 4096 = unat a div 4096" using assms(2) by simp
  then show v: "vpn (a + of_nat r) = vpn a" by (simp add: vpn_def unat_drop_bit u)
  show "IS_KERNEL (a + of_nat r) \<longleftrightarrow> IS_KERNEL a" using v user_pages(1) by metis
qed

lemma range_split:
  assumes "unat len + unat (start AND 0xFFF) + 4095 < 2 ^ 32" "k < unat len"
  obtains i r where "i < range_pages start len" "r < 4096"
    "start + of_nat k = ((start AND NOT (PAGE_SIZE - 1)) + of_nat i * PAGE_SIZE) + of_nat r"
proof -
  let ?o = "unat (start AND 0xFFF)"
  have "range_pages start len = (unat len + ?o + 4095) div 4096"
  proof -
    have "unat (len + (start AND 0xFFF)) = unat len + ?o" using assms(1) by (subst unat_add_nowrap) simp_all
    then have "unat (len + (start AND 0xFFF) + 4095) = unat len + ?o + 4095"
      using assms(1) by (subst unat_add_nowrap) simp_all
    then show ?thesis
      by (simp only: range_pages_def page_round PAGE_SHIFT_def unat_drop_bit) (simp add: PAGE_SIZE_def)
  qed
  moreover have "(?o + k) div 4096 < (unat len + ?o + 4095) div 4096"
  proof -
    have "(?o + k) div 4096 \<le> (unat len + ?o - 1) div 4096" using assms(2) by (intro div_le_mono) simp
    also have "\<dots> < (unat len + ?o - 1 + 4096) div 4096" by simp
    also have "unat len + ?o - 1 + 4096 = unat len + ?o + 4095" using assms(2) by simp
    finally show ?thesis .
  qed
  moreover have "start + of_nat k = (start AND NOT (PAGE_SIZE - 1)) + of_nat (?o + k)"
  proof -
    have "start = (start AND NOT (PAGE_SIZE - 1)) + (start AND 0xFFF)"
      using and_not_FFF [of start] and_FFF [of start] by (simp add: PAGE_SIZE_def)
    moreover have "(of_nat (?o + k) :: u32) = (start AND 0xFFF) + of_nat k" by simp
    ultimately show ?thesis by (simp only: add.assoc [symmetric])
  qed
  moreover have "of_nat (?o + k) = of_nat ((?o + k) div 4096) * PAGE_SIZE + (of_nat ((?o + k) mod 4096) :: u32)"
  proof -
    have "(of_nat (?o + k) :: u32) = of_nat ((?o + k) div 4096 * 4096 + (?o + k) mod 4096)"
      by (simp only: div_mult_mod_eq)
    then show ?thesis by (simp only: of_nat_add of_nat_mult of_nat_numeral PAGE_SIZE_def)
  qed
  ultimately have "(?o + k) div 4096 < range_pages start len"
    "start + of_nat k = ((start AND NOT (PAGE_SIZE - 1)) + of_nat ((?o + k) div 4096) * PAGE_SIZE)
       + of_nat ((?o + k) mod 4096)"
    by (simp_all only: add.assoc)
  then show ?thesis by (intro that [of "(?o + k) div 4096" "(?o + k) mod 4096"]) simp_all
qed

lemma page_aligned_base: "page_aligned ((start AND NOT (PAGE_SIZE - 1)) + of_nat i * PAGE_SIZE)"
proof -
  have "page_aligned (start AND NOT (PAGE_SIZE - 1))"
    using page_aligned_and_not [of start] by (simp add: PAGE_SIZE_def)
  moreover have "page_aligned (of_nat i * PAGE_SIZE)"
    by (simp add: page_aligned_iff PAGE_SIZE_def unat_word_ariths mod_mod_cancel)
  ultimately show ?thesis by (rule page_aligned_add)
qed

subsection \<open>Checks of user pointers\<close>

lemma user_pages_ok_True:
  assumes "ctx_inv v c" "user_pages_ok v c addr n flags = Inr True" "flags AND (VMM_UW OR VMM_PW) = 0" "i < n"
  shows "\<not> IS_KERNEL (addr + of_nat i * PAGE_SIZE)
    \<and> (let e = entry v c (vpn (addr + of_nat i * PAGE_SIZE)) in
       (if present e then access_flags e else 0) AND flags = flags)"
  using assms(2,4)
proof (induction n arbitrary: addr i)
  case (Suc n)
  have m: "vmmc_address_mapped v c addr = Inr (let e = entry v c (vpn addr) in
      if present e then (access_flags e, Some (frame_of e OR (addr AND 0xFFF))) else (0, None))"
    by (rule vmmc_address_mapped_entry [OF assms(1)])
  from Suc.prems(1) have k: "\<not> IS_KERNEL addr"
    and f: "(let e = entry v c (vpn addr) in (if present e then access_flags e else 0) AND flags = flags)"
    and r: "user_pages_ok v c (addr + PAGE_SIZE) n flags = Inr True"
    by (auto simp: m Let_def assms(3) split: if_splits)
  show ?case
  proof (cases i)
    case 0
    with k f show ?thesis by simp
  next
    case (Suc j)
    then have "j < n" using Suc.prems(2) by simp
    from Suc.IH [OF r this] Suc show ?thesis by (simp add: algebra_simps)
  qed
qed simp

text \<open>
  C10: a range whose length does not overflow and that passes the check for reading lies in user
  space byte by byte, and every byte is mapped with the rights asked for.
\<close>

theorem is_valid_user_mem_sound:
  assumes inv: "ctx_inv v c" and ok: "is_valid_user_mem v c start len flags = Inr True"
    and ro: "flags \<noteq> 0" "flags AND (VMM_UW OR VMM_PW) = 0"
    and nowrap: "unat len + unat (start AND 0xFFF) + 4095 < 2 ^ 32" and k: "k < unat len"
  shows "\<not> IS_KERNEL (start + of_nat k) \<and> present (entry v c (vpn (start + of_nat k)))
    \<and> access_flags (entry v c (vpn (start + of_nat k))) AND flags = flags"
proof -
  obtain i r where i: "i < range_pages start len" "r < 4096"
    "start + of_nat k = ((start AND NOT (PAGE_SIZE - 1)) + of_nat i * PAGE_SIZE) + of_nat r"
    using range_split [OF nowrap k] .
  note p = vpn_in_page [OF page_aligned_base i(2), of start i, folded i(3)]
  from user_pages_ok_True [OF inv ok [unfolded is_valid_user_mem_def] ro(2) i(1)] show ?thesis
    unfolding p using ro(1) by (auto simp: Let_def split: if_splits)
qed

theorem is_valid_user_mem_sound_witness:
  "is_valid_user_mem demo_cow_vm demo_cow_ctx 0x1004 8 VMM_UR = Inr True
   \<and> present (entry demo_cow_vm demo_cow_ctx (vpn 0x1007))"
proof -
  have "user_pages_ok demo_cow_vm demo_cow_ctx 0x1000 1 VMM_UR = Inr True"
  proof -
    have "vmmc_address_mapped demo_cow_vm demo_cow_ctx 0x1000 = Inr (VMM_PR OR VMM_PX OR VMM_UR OR VMM_UX, Some 0x101000)"
      using vmmc_address_mapped_entry [OF demo_cow_inv, of "0x1000"] demo_cow_entry demo_cow_frame
      by (simp add: vpn_def flag_bits(1) access_flags_def map_flags)
    then show ?thesis by (simp add: IS_KERNEL_def PHYS_BASE_def vmm_flags)
  qed
  then have ok: "is_valid_user_mem demo_cow_vm demo_cow_ctx 0x1004 8 VMM_UR = Inr True"
    by (simp add: is_valid_user_mem_def range_pages_def PAGE_SIZE_def PAGE_SHIFT_def)
  show ?thesis
    using is_valid_user_mem_sound [OF demo_cow_inv ok, of 3] ok by (simp add: vmm_flags)
qed

text \<open>when length plus offset in the page overflows the rounding addition, the number of pages to
  check is 0 and the check accepts the range, whatever its start: a kernel address included.
\<close>

theorem is_valid_user_mem_overflow:
  assumes "2 ^ 32 \<le> unat len + unat (start AND 0xFFF) + 4095"
    and "unat len + unat (start AND 0xFFF) + 4095 < 2 ^ 32 + 4096"
  shows "is_valid_user_mem v c start len flags = Inr True"
proof -
  have "unat (len + (start AND 0xFFF) + 4095) = (unat len + unat (start AND 0xFFF) + 4095) mod 2 ^ 32"
    by (simp add: unat_word_ariths mod_simps)
  also have "\<dots> = unat len + unat (start AND 0xFFF) + 4095 - 2 ^ 32"
    using assms by (simp add: mod_if)
  also have "\<dots> < 4096" using assms by linarith
  finally have "unat (len + (start AND 0xFFF) + 4095) div 4096 = 0" by simp
  then have "range_pages start len = 0"
    by (simp only: range_pages_def page_round PAGE_SHIFT_def unat_drop_bit) (simp add: PAGE_SIZE_def)
  then show ?thesis by (simp add: is_valid_user_mem_def)
qed

theorem is_valid_user_mem_overflow_witness:
  "is_valid_user_mem demo_vm demo_ctx 0xF0000000 0xFFFFFFFF (VMM_UR OR VMM_UW) = Inr True \<and> IS_KERNEL 0xF0000000"
  using is_valid_user_mem_overflow [of "0xFFFFFFFF" "0xF0000000"] by (simp add: IS_KERNEL_def PHYS_BASE_def)

subsection \<open>The heap break\<close>

lemma access_flags_nonzero: "access_flags e \<noteq> 0"
  by (simp add: access_flags_def vmm_flags)

lemma address_unmapped_iff:
  assumes "ctx_inv v c" "vmmc_address_mapped v c virt = Inr (f, d)"
  shows "f = 0 \<longleftrightarrow> \<not> present (entry v c (vpn virt))"
  using assms by (auto simp: vmmc_address_mapped_entry Let_def access_flags_nonzero split: if_splits)

lemma sbrk_grow_step:
  assumes inv: "ctx_inv v c" and user: "\<not> IS_KERNEL page" and run: "sbrk_grow_page (v, c) page = Inr (v', c')"
  shows "ctx_inv v' c' \<and> heap_end c' = heap_end c \<and> present (entry v' c' (vpn page))
    \<and> (\<forall>n < USER_PAGES. n \<noteq> vpn page \<or> present (entry v c n) \<longrightarrow> entry v' c' n = entry v c n)"
proof -
  from run obtain f d where m: "vmmc_address_mapped v c page = Inr (f, d)"
    and k: "(if f = 0 then rbind (vm_alloc v) (\<lambda>(a, v1). vmmc_map_user_page v1 c page a (VMM_UR OR VMM_UW))
       else Inr (v, c)) = Inr (v', c')"
    by (auto simp: sbrk_grow_page_def outcome_simps)
  note f = address_unmapped_iff [OF inv m]
  show ?thesis
  proof (cases "f = 0")
    case False
    with k f inv show ?thesis by auto
  next
    case True
    with k obtain a v1 where al: "vm_alloc v = Inr (a, v1)"
      and mp: "vmmc_map_user_page v1 c page a (VMM_UR OR VMM_UW) = Inr (v', c')"
      by (auto simp: outcome_simps)
    note ai = vm_alloc_Inr [OF ctx_inv_vm [OF inv] al]
    have inv1: "ctx_inv v1 c"
      by (rule ctx_inv_change [OF inv ai(1)]) (use ctx_inv_used [OF inv] in \<open>auto simp: ai(5)\<close>)
    have e1: "entry v1 c n = entry v c n" for n using ai(4) by (simp add: entry_def Let_def)
    note mi = vmmc_map_user_page_Inr [OF inv1 user mp]
    have "vpn page < USER_PAGES" using user by (simp add: user_pages(1))
    then show ?thesis using mi f True e1 by (auto simp: map_frame_def)
  qed
qed

lemma sbrk_grow_loop:
  assumes "ctx_inv v c" "\<forall>p \<in> set ps. \<not> IS_KERNEL p" "rfold sbrk_grow_page (v, c) ps = Inr (v', c')"
  shows "ctx_inv v' c' \<and> heap_end c' = heap_end c \<and> (\<forall>p \<in> set ps. present (entry v' c' (vpn p)))
    \<and> (\<forall>n < USER_PAGES. n \<notin> vpn ` set ps \<or> present (entry v c n) \<longrightarrow> entry v' c' n = entry v c n)"
  using assms
proof (induction ps arbitrary: v c)
  case (Cons p ps)
  from Cons.prems(3) obtain v1 c1 where r: "sbrk_grow_page (v, c) p = Inr (v1, c1)"
      "rfold sbrk_grow_page (v1, c1) ps = Inr (v', c')"
    by (auto simp: outcome_simps)
  have "\<not> IS_KERNEL p" using Cons.prems(2) by simp
  note s = sbrk_grow_step [OF Cons.prems(1) this r(1)]
  have vp: "vpn p < USER_PAGES" using \<open>\<not> IS_KERNEL p\<close> by (simp add: user_pages(1))
  have IH: "ctx_inv v' c' \<and> heap_end c' = heap_end c1 \<and> (\<forall>p \<in> set ps. present (entry v' c' (vpn p)))
    \<and> (\<forall>n < USER_PAGES. n \<notin> vpn ` set ps \<or> present (entry v1 c1 n) \<longrightarrow> entry v' c' n = entry v1 c1 n)"
    using s Cons.prems(2) r(2) by (intro Cons.IH) auto
  have "entry v' c' n = entry v c n" if "n < USER_PAGES" "n \<notin> vpn ` set (p # ps) \<or> present (entry v c n)" for n
    using that s IH by (cases "n = vpn p") auto
  moreover have "present (entry v' c' (vpn p))" using s IH vp by metis
  ultimately show ?case using s IH by simp
qed simp

lemma sbrk_round_pos:
  assumes "0 < inc" "unat inc \<le> 0x7FFFFFF0"
  shows "unat inc \<le> unat (sbrk_round inc)" "unat (sbrk_round inc) \<le> 0x7FFFFFF0" "0 \<le> sint (sbrk_round inc)"
proof -
  have m: "x AND NOT 0xF = x AND NOT (mask 4)" for x :: u32 by (simp add: mask_eq_exp_minus_1)
  have i: "0 \<le> sint inc" using assms(2) by (subst sint_small) simp_all
  have p: "unat (inc + 15) = unat inc + 15" using assms(2) by (subst unat_add_nowrap) simp_all
  have r: "unat (sbrk_round inc) =
      (if inc AND NOT 0xF \<noteq> 0 then unat inc + 15 - (unat inc + 15) mod 16 else unat inc)"
  proof -
    have "unat ((inc + 15) AND NOT 0xF) = unat inc + 15 - (unat inc + 15) mod 16"
      unfolding m unat_and_not_mask p by simp
    then show ?thesis using i by (simp only: sbrk_round_def if_True split: if_split) simp
  qed
  have "unat inc \<le> unat inc + 15 - (unat inc + 15) mod 16"
    using mod_less_divisor [of 16 "unat inc + 15"] by linarith
  moreover have "unat inc + 15 - (unat inc + 15) mod 16 \<le> 0x7FFFFFF0"
  proof -
    have "unat inc + 15 - (unat inc + 15) mod 16 = (unat inc + 15) div 16 * 16" by (simp add: minus_mod_eq_div_mult)
    also have "\<dots> \<le> (0x7FFFFFF0 + 15) div 16 * 16" using assms(2) by (intro mult_le_mono1 div_le_mono) simp
    finally show ?thesis by simp
  qed
  ultimately show "unat inc \<le> unat (sbrk_round inc)" and b: "unat (sbrk_round inc) \<le> 0x7FFFFFF0"
    unfolding r using assms(2) by (simp_all split: if_split)
  show "0 \<le> sint (sbrk_round inc)" using b by (subst sint_small) simp_all
qed

lemma unat_page_bounds:
  "unat (a AND NOT (PAGE_SIZE - 1)) = unat a - unat a mod 4096"
  "unat a + 4095 < 2 ^ 32 \<Longrightarrow> unat (page_round_up a) = (unat a + 4095) div 4096 * 4096"
proof -
  show 1: "unat (a AND NOT (PAGE_SIZE - 1)) = unat a - unat a mod 4096" for a
    using unat_and_not_mask [of a 12] by (simp add: page_mask)
  assume "unat a + 4095 < 2 ^ 32"
  then have "unat (a + 4095) = unat a + 4095" by (subst unat_add_nowrap) simp_all
  then show "unat (page_round_up a) = (unat a + 4095) div 4096 * 4096"
    unfolding page_round_up_def page_round 1 by (simp add: minus_mod_eq_div_mult)
qed

lemma pages_between_mem:
  assumes "p \<in> set (pages_between lo hi)"
  obtains i where "p = lo + of_nat i * PAGE_SIZE" "unat p = unat lo + i * 4096" "unat p < unat hi"
proof -
  from assms have lt: "lo < hi" by (auto simp: pages_between_def split: if_splits)
  let ?d = "unat hi - unat lo"
  have d: "unat (hi - lo) = ?d" using lt by (simp add: unat_sub)
  from assms lt obtain i where i: "i < (?d + 4095) div 4096" "p = lo + of_nat i * PAGE_SIZE"
    by (auto simp: pages_between_def d simp del: Nat.add_diff_assoc2)
  then have "Suc i \<le> (?d + 4095) div 4096" by simp
  then have "Suc i * 4096 \<le> ?d + 4095" by (metis div_times_less_eq_dividend le_trans mult_le_mono1)
  then have lt2: "i * 4096 < ?d" by simp
  have hi: "unat hi < 2 ^ 32" using unsigned_less [of hi, where ?'a = nat] by simp
  have "unat (of_nat i * PAGE_SIZE) = i * 4096"
    using lt2 hi by (simp add: PAGE_SIZE_def unat_word_ariths unat_of_nat)
  then have "unat p = unat lo + i * 4096"
    unfolding i(2) using lt2 hi by (subst unat_add_nowrap) simp_all
  with i(2) lt2 show ?thesis using that by simp
qed

lemma pages_between_cover:
  assumes "unat lo + i * 4096 < unat hi"
  shows "lo + of_nat i * PAGE_SIZE \<in> set (pages_between lo hi)"
proof -
  have lt: "lo < hi" using assms by (simp add: word_less_nat_alt)
  then have "unat (hi - lo) = unat hi - unat lo" by (simp add: unat_sub)
  with assms have "Suc i * 4096 \<le> unat (hi - lo) + 4095" by simp
  then have "i < (unat (hi - lo) + 4095) div 4096" by (simp add: less_eq_div_iff_mult_less_eq Suc_le_eq [symmetric])
  with lt show ?thesis by (auto simp: pages_between_def)
qed

lemma context_sbrk_facts:
  assumes inv: "ctx_inv v c" and inc: "0 < inc" "unat inc \<le> 0x7FFFFFF0"
    and room: "unat (heap_end c) + unat (sbrk_round inc) \<le> unat PHYS_BASE"
    and run: "context_sbrk v c inc = Inr (r, v', c')"
  shows "r = heap_end c \<and> heap_end c' = heap_end c + sbrk_round inc \<and> ctx_inv v' c'
    \<and> (\<forall>k < unat inc. present (entry v' c' (vpn (heap_end c + of_nat k))))
    \<and> (\<forall>n < USER_PAGES. present (entry v c n) \<longrightarrow> entry v' c' n = entry v c n)"
proof -
  define old where "old = heap_end c"
  define R where "R = unat (sbrk_round inc)"
  note sr = sbrk_round_pos [OF inc, folded R_def]
  let ?new = "old + sbrk_round inc" and ?lo = "old AND NOT (PAGE_SIZE - 1)"
  let ?ps = "pages_between ?lo (page_round_up ?new)" and ?c1 = "c\<lparr>heap_end := ?new\<rparr>"
  have base: "unat PHYS_BASE = 4026531840" by (simp add: PHYS_BASE_def)
  have new: "unat ?new = unat old + R"
    using room base by (subst unat_add_nowrap) (simp_all add: old_def R_def)
  have hi: "unat (page_round_up ?new) = (unat old + R + 4095) div 4096 * 4096"
    using unat_page_bounds(2) [of ?new] new room base by (simp add: old_def R_def)
  have hi': "unat (page_round_up ?new) \<le> 4026531840"
  proof -
    have "(unat old + R + 4095) div 4096 \<le> (4026531840 + 4095) div 4096"
      using room base by (intro div_le_mono) (simp add: old_def R_def)
    then show ?thesis using hi by simp
  qed
  from run inc(1) sr(3) have g: "rfold sbrk_grow_page (v, ?c1) ?ps = Inr (v', c')" and r: "r = old"
    by (auto simp: context_sbrk_def Let_def old_def outcome_simps word_gt_0)
  have inv1: "ctx_inv v ?c1" and e1: "entry v ?c1 n = entry v c n" for n
    using inv by (simp_all add: ctx_inv_def table_at_def entry_def)
  have "\<not> IS_KERNEL p" if "p \<in> set ?ps" for p
  proof -
    from that have "unat p < unat (page_round_up ?new)" by (rule pages_between_mem)
    with hi' base show ?thesis by (simp add: IS_KERNEL_def word_le_nat_alt)
  qed
  with sbrk_grow_loop [OF inv1 _ g] have l: "ctx_inv v' c'" "heap_end c' = ?new"
    "\<forall>p \<in> set ?ps. present (entry v' c' (vpn p))"
    "\<forall>n < USER_PAGES. present (entry v c n) \<longrightarrow> entry v' c' n = entry v c n"
    by (simp_all add: e1)
  have "present (entry v' c' (vpn (old + of_nat k)))" if k: "k < unat inc" for k
  proof -
    let ?o = "unat old mod 4096"
    define i where "i = (?o + k) div 4096"
    define q where "q = (?o + k) mod 4096"
    have iq: "?o + k = i * 4096 + q" "q < 4096" by (simp_all add: i_def q_def)
    have lo: "unat ?lo = unat old - ?o" by (rule unat_page_bounds(1))
    have ole: "?o \<le> unat old" by simp
    have "unat ?lo + i * 4096 \<le> unat old + k" using iq lo ole by linarith
    also have "\<dots> < unat old + R" using k sr(1) by simp
    also have "\<dots> \<le> unat (page_round_up ?new)"
      using hi div_mult_mod_eq [of "unat old + R + 4095" 4096] mod_less_divisor [of 4096 "unat old + R + 4095"] by linarith
    finally have mem: "?lo + of_nat i * PAGE_SIZE \<in> set ?ps" by (rule pages_between_cover)
    have "old + of_nat k = (?lo + of_nat i * PAGE_SIZE) + of_nat q"
    proof -
      have "unat ?lo + ?o = unat old" using lo ole by linarith
      then have "(of_nat (unat old) :: u32) = of_nat (unat ?lo + ?o)" by simp
      then have "old = ?lo + of_nat ?o" by simp
      then have "old + of_nat k = ?lo + of_nat ?o + of_nat k" by (rule arg_cong)
      also have "\<dots> = ?lo + of_nat (?o + k)" by (simp only: of_nat_add add.assoc)
      also have "\<dots> = ?lo + of_nat i * PAGE_SIZE + of_nat q"
        by (simp only: iq(1) of_nat_add of_nat_mult of_nat_numeral PAGE_SIZE_def add.assoc)
      finally show ?thesis .
    qed
    then show ?thesis
      using l(3) mem vpn_in_page(1) [OF page_aligned_base iq(2), of old i] by auto
  qed
  with r l show ?thesis by (simp add: old_def)
qed

lemma demo_sbrk:
  assumes "sbrk_round n = n" "0 \<le> sint n" "n \<noteq> 0"
    and pgs: "pages_between (b AND NOT (PAGE_SIZE - 1)) (page_round_up (b + n)) = [0]"
  shows "\<exists>v c. context_sbrk demo_vm (demo_ctx\<lparr>heap_end := b\<rparr>) n = Inr (b, v, c)"
proof -
  let ?c1 = "demo_ctx\<lparr>heap_end := b + n\<rparr>"
  have inv1: "ctx_inv demo_vm ?c1" using demo_ctx_inv by (simp add: ctx_inv_def table_at_def)
  have un: "vmmc_address_mapped demo_vm ?c1 0 = Inr (0, None)"
    unfolding vmmc_address_mapped_entry [OF inv1] by (simp add: entry_def vpn_def demo_ctx_def flag_bits(1))
  let ?p1 = "demo_pmm\<lparr>bitmap := [1, 0x7f, 1, 0], look_from_here := 2\<rparr>"
  have al: "vm_alloc demo_vm = Inr (0x102000, demo_vm\<lparr>vm_pmm := ?p1\<rparr>)"
    by (simp add: vm_alloc_def demo_vm_def pmm_alloc_def demo_pmm_def pmm_alloc_from.simps frame_addr_def PAGE_SHIFT_def)
  note ai = vm_alloc_Inr [OF ctx_inv_vm [OF inv1] al]
  have inv2: "ctx_inv (demo_vm\<lparr>vm_pmm := ?p1\<rparr>) ?c1"
    by (rule ctx_inv_change [OF inv1 ai(1)]) (use ctx_inv_used [OF inv1] ai(5) in auto)
  have "frame_free (vm_pmm (demo_vm\<lparr>vm_pmm := ?p1\<rparr>)) 3" by (simp add: frame_free_def demo_pmm_def)
  moreover have "\<not> IS_KERNEL 0" by (simp add: IS_KERNEL_def PHYS_BASE_def)
  ultimately obtain v' c' where "vmmc_map_user_page (demo_vm\<lparr>vm_pmm := ?p1\<rparr>) ?c1 0 0x102000 (VMM_UR OR VMM_UW) = Inr (v', c')"
    using vmmc_map_user_page_ok [OF inv2] by metis
  then have "sbrk_grow_page (demo_vm, ?c1) 0 = Inr (v', c')"
    using un al by (simp add: sbrk_grow_page_def)
  then have "rfold sbrk_grow_page (demo_vm, ?c1) (pages_between (b AND NOT (PAGE_SIZE - 1)) (page_round_up (b + n))) = Inr (v', c')"
    unfolding pgs by simp
  then show ?thesis using assms(1-3) by (simp add: context_sbrk_def)
qed

text \<open>
  Shrinking the heap by a page that is the last of a 4 MiB region frees the page's frame but does
  not unmap it: the process keeps access to a frame that the allocator hands out again.
\<close>

theorem sbrk_shrink_dangling:
  assumes inv: "ctx_inv v c" and page: "page_aligned page" "pti_of page = 1023" "\<not> IS_KERNEL page"
    and e: "e = entry v c (vpn page)" "present e" "\<not> is_table c (frame_of e)"
    and one: "pmm_users (vm_pmm v) (frame_of e) = 1"
  shows "\<exists>v'. sbrk_shrink_page (v, c) page = Inr (v', c) \<and> entry v' c (vpn page) = e
    \<and> pmm_users (vm_pmm v') (frame_of e) = 0"
proof -
  have vi: "vm_inv v" by (rule ctx_inv_vm [OF inv])
  have "0 < pmm_users (vm_pmm v) (frame_of e)" using one by simp
  then obtain v1 where fr: "vm_free v (frame_of e) = Inr v1" by (rule vm_free_defined [OF vi])
  note f = vm_free_Inr [OF vi fr]
  have inv1: "ctx_inv v1 c"
    by (rule ctx_inv_change [OF inv f(1)]) (use ctx_inv_used [OF inv] e(3) in \<open>auto simp: f(4)\<close>)
  have z: "page AND 0xFFF = 0" using page(1) by (simp add: page_aligned_def PAGE_SIZE_def)
  have m: "vmmc_address_mapped v c page = Inr (access_flags e, Some (frame_of e))"
    using e(2) by (simp only: vmmc_address_mapped_entry [OF inv] e(1) [symmetric] Let_def z) simp
  have p: "pdi_of page < USER_PDES" using page(3) by (simp add: user_pages(2))
  have "unat page = vpn page * 4096"
    using page(1) by (auto simp: vpn_def unat_drop_bit page_aligned_iff mod_eq_0_iff_dvd)
  also have "vpn page = pdi_of page * 1024 + 1023" using pdi_pti_vpn [of page] page(2) by simp
  finally have "unat page + unat PAGE_SIZE = (pdi_of page + 1) * 4194304" by (simp add: PAGE_SIZE_def)
  then have "vmmc_user_unmap v1 c page PAGE_SIZE = Inr (v1, c)"
    using unmap_boundary [OF inv1 p] by (simp add: PAGE_SIZE_def)
  then have "sbrk_shrink_page (v, c) page = Inr (v1, c)"
    using m fr access_flags_nonzero by (simp add: sbrk_shrink_page_def)
  moreover have "entry v1 c (vpn page) = e" using f(3) e(1) by (simp add: entry_def Let_def)
  ultimately show ?thesis using f(4) one by auto
qed

definition demo_edge_vm :: vm where
  "demo_edge_vm = \<lparr>vm_pmm = \<lparr>mem_base = 0x100000, mem_entries = 4, bitmap = [1, 1, 0, 0], look_from_here = 2\<rparr>,
     vm_frame = (\<lambda>a. if a = 0x100000 then (replicate 1024 0)[1023 := 0x101007] else replicate 1024 0)\<rparr>"

theorem sbrk_shrink_dangling_witness:
  "\<exists>v. sbrk_shrink_page (demo_edge_vm, demo_cow_ctx) 0x3FF000 = Inr (v, demo_cow_ctx)
     \<and> entry v demo_cow_ctx 1023 = 0x101007 \<and> pmm_users (vm_pmm v) 0x101000 = 0"
proof -
  have us: "pmm_users (vm_pmm demo_edge_vm) 0x100000 = 1" "pmm_users (vm_pmm demo_edge_vm) 0x101000 = 1"
    by (simp_all add: demo_edge_vm_def pmm_users_def frame_users_def frame_index_def page_aligned_def
        PAGE_SIZE_def PAGE_SHIFT_def)
  have "pmm_inv (vm_pmm demo_edge_vm)"
    by (auto simp: demo_edge_vm_def pmm_inv_def page_aligned_def PAGE_SIZE_def less_2_cases_iff)
  then have "vm_inv demo_edge_vm" by (simp add: vm_inv_def demo_edge_vm_def)
  then have inv: "ctx_inv demo_edge_vm demo_cow_ctx"
    by (rule ctx_inv_change [OF demo_cow_inv]) (use us in \<open>auto simp: is_table_def demo_cow_table\<close>)
  have vp: "vpn 0x3FF000 = 1023" by (simp add: vpn_def)
  have en: "entry demo_edge_vm demo_cow_ctx 1023 = 0x101007"
    by (simp add: entry_def Let_def demo_cow_pd flag_bits(1) frame_of_def demo_edge_vm_def)
  have fo: "frame_of 0x101007 = 0x101000" by (simp add: frame_of_def)
  show ?thesis
    using sbrk_shrink_dangling [OF inv, of "0x3FF000" "0x101007"] us
    unfolding vp en fo
    by (simp add: page_aligned_def PAGE_SIZE_def pti_of_def IS_KERNEL_def PHYS_BASE_def flag_bits(1)
        is_table_def demo_cow_table)
qed

subsection \<open>Reference counts of shared memory\<close>

interpretation vmf: frame_allocator vm_alloc vm_free vm_use "\<lambda>v. pmm_users (vm_pmm v)" vm_inv
  by unfold_locales
    (blast intro: vm_alloc_Inr(1) vm_free_Inr(1) vm_use_Inr(1) vm_alloc_Inr(2,5) vm_free_Inr(2,4) vm_use_Inr(2,4))+

lemma rfold_vm_frame:
  assumes "\<And>v a v'. f v a = Inr v' \<Longrightarrow> vm_frame v' = vm_frame v" "rfold f v as = Inr v'"
  shows "vm_frame v' = vm_frame v"
  using rfold_invariant [of f v as v' "\<lambda>x. vm_frame x = vm_frame v"] assms by simp

lemma vm_use_frame: "vm_use v a = Inr v' \<Longrightarrow> vm_frame v' = vm_frame v"
  by (auto simp: vm_use_def outcome_simps)

lemma vm_free_frame: "vm_free v a = Inr v' \<Longrightarrow> vm_frame v' = vm_frame v"
  by (auto simp: vm_free_def outcome_simps)

lemma sg_map_frame:
  assumes "ctx_inv v c" "sg_map (v, c) start phys is flags = Inr (v', c')"
  shows "ctx_inv v' c' \<and> map_frame v c v' c'"
  using assms
proof (induction "is" arbitrary: v c)
  case (Cons i "is")
  from Cons.prems(2) obtain p v1 c1 where
    r: "vmmc_map_user_page v c (start + of_nat i * 4096) (frame_of p) flags = Inr (v1, c1)"
       "sg_map (v1, c1) start phys is flags = Inr (v', c')"
    by (auto simp: outcome_simps)
  have s: "ctx_inv v1 c1 \<and> map_frame v c v1 c1"
  proof (cases "IS_KERNEL (start + of_nat i * 4096)")
    case True
    with r(1) Cons.prems(1) show ?thesis by (auto simp: vmmc_map_user_page_def map_frame_refl)
  next
    case False
    with vmmc_map_user_page_Inr [OF Cons.prems(1) False r(1)] show ?thesis by blast
  qed
  with Cons.IH [OF _ r(2)] map_frame_trans show ?case by blast
qed (simp add: map_frame_refl)

lemma shm_open_map_frame:
  assumes "ctx_inv v c" "shm_open_map v c sg flags = Inr (m, v', c')"
  shows "ctx_inv v' c' \<and> map_frame v c v' c'"
proof -
  from assms(2) obtain m0 where
    "vmmc_user_map_sg v c (sg_phys sg) (int (shm_pages (sg_size sg))) flags = Inr (m0, v', c')"
    by (auto simp: shm_open_map_def outcome_simps)
  then have "(v' = v \<and> c' = c) \<or> (\<exists>start is. sg_map (v, c) start (sg_phys sg) is flags = Inr (v', c'))"
    by (auto simp: vmmc_user_map_sg_def outcome_simps Let_def split: if_splits)
  with assms(1) sg_map_frame [OF assms(1)] map_frame_refl show ?thesis by blast
qed

definition sg_refs :: "shm_sg \<Rightarrow> nat" where
  "sg_refs sg = unat (sg_users sg) + (if sg_kept_alive sg then 1 else 0)"

definition sg_sealed :: "shm_sg \<Rightarrow> bool" where
  "sg_sealed sg \<longleftrightarrow> check_integrity (sg_bytes sg @ le_bytes (sg_digest sg))"

lemma sg_sealed_seal: "sg_sealed (sg_seal sg)"
proof -
  have "sg_bytes (sg_seal sg) = sg_bytes sg" by (simp add: sg_bytes_def sg_seal_def)
  then show ?thesis by (simp add: sg_sealed_def sg_seal_def checksum_roundtrip)
qed

lemma sg_seal_simps [simp]:
  "sg_size (sg_seal sg) = sg_size sg" "sg_users (sg_seal sg) = sg_users sg"
  "sg_offset (sg_seal sg) = sg_offset sg" "sg_kept_alive (sg_seal sg) = sg_kept_alive sg"
  "sg_phys (sg_seal sg) = sg_phys sg"
  by (simp_all add: sg_seal_def)

lemma sg_put_simps [simp]: "vs_vm (sg_put s i sg) = vs_vm s" "vs_sg (sg_put s i sg) i = sg"
  by (simp_all add: sg_put_def)

text \<open>opening a shared memory area that is in use or kept alive changes the count of every frame in
  use by exactly the change in the number of references the descriptor stands for (users, plus one
  while kept alive), once for every slot that holds the frame; the descriptor stays sealed and keeps
  its frames.
\<close>

theorem vmmc_open_shm_refs:
  assumes inv: "ctx_inv (vs_vm s) c" and sg: "sg = vs_sg s shm_id" "sg' = vs_sg s' shm_id"
    and live: "sg_kept_alive sg \<or> sg_users sg \<noteq> 0" and cap: "unat (sg_users sg) + 1 < 2 ^ 32"
    and slots: "List.length (sg_phys sg) = shm_pages (sg_size sg)"
    and run: "vmmc_open_shm s cur c shm_id flags = Inr (m, s', c')" and ok: "m \<noteq> 0"
  shows "ctx_inv (vs_vm s') c' \<and> sg_sealed sg' \<and> sg_phys sg' = sg_phys sg \<and> sg_users sg' = sg_users sg + 1
    \<and> (\<forall>a. 0 < pmm_users (vm_pmm (vs_vm s)) a \<longrightarrow>
         pmm_users (vm_pmm (vs_vm s')) a + sg_refs sg * count_list (sg_phys sg) a
         = pmm_users (vm_pmm (vs_vm s)) a + sg_refs sg' * count_list (sg_phys sg) a)"
proof -
  from run live ok obtain v1 c1 where mp: "shm_open_map (vs_vm s) c sg flags = Inr (m, v1, c1)"
    and fin: "(if sg_kept_alive sg then s' = sg_put (s\<lparr>vs_vm := v1\<rparr>) shm_id
          (sg_seal (sg\<lparr>sg_kept_alive := False, sg_users := sg_users sg + 1\<rparr>))
        else \<exists>v2. rfold vm_use v1 (sg_phys sg) = Inr v2
          \<and> s' = sg_put (s\<lparr>vs_vm := v2\<rparr>) shm_id (sg_seal (sg\<lparr>sg_users := sg_users sg + 1\<rparr>)))" and c': "c' = c1"
    by (auto simp: vmmc_open_shm_def Let_def outcome_simps sg(1) [symmetric] slots split: if_splits)
  note f = shm_open_map_frame [OF inv mp]
  have inc: "unat (sg_users sg + 1) = unat (sg_users sg) + 1" using cap by (subst unat_add_nowrap) simp_all
  show ?thesis
  proof (cases "sg_kept_alive sg")
    case True
    with fin f c' inc show ?thesis
      by (auto simp: sg(2) sg_sealed_seal sg_refs_def map_frame_def)
  next
    case False
    with fin obtain v2 where v2: "rfold vm_use v1 (sg_phys sg) = Inr v2"
      "s' = sg_put (s\<lparr>vs_vm := v2\<rparr>) shm_id (sg_seal (sg\<lparr>sg_users := sg_users sg + 1\<rparr>))" by auto
    have vi1: "vm_inv v1" using f by (blast intro: ctx_inv_vm)
    note u = vmf.foreach_use [OF vi1 v2(1)]
    have "ctx_inv v2 c1"
      by (rule ctx_inv_change [of v1]) (use f u ctx_inv_used [of v1 c1] in \<open>auto\<close>)
    with f u v2(2) c' inc False show ?thesis
      by (auto simp: sg(2) sg_sealed_seal sg_refs_def map_frame_def algebra_simps)
  qed
qed

text \<open>closing or unmaking a shared memory area without destroying it drops exactly one reference per
  slot, except that the last user leaves the reference behind as the kept-alive one, so that the
  frames survive until the area is opened again; the descriptor stays sealed.
\<close>

theorem shm_release_refs:
  assumes inv: "vm_inv (vs_vm s)" and sg: "sg = vs_sg s shm_id" "0 < sg_users sg" "\<not> sg_kept_alive sg"
    and slots: "List.length (sg_phys sg) = shm_pages (sg_size sg)"
    and run: "vmmc_unmake_shm s cur shm_id False = Inr s'"
  shows "sg_sealed (vs_sg s' shm_id) \<and> sg_users (vs_sg s' shm_id) = sg_users sg - 1
    \<and> (sg_kept_alive (vs_sg s' shm_id) \<longleftrightarrow> sg_users sg = 1) \<and> 0 < sg_refs (vs_sg s' shm_id)
    \<and> (\<forall>a. pmm_users (vm_pmm (vs_vm s)) a + sg_refs (vs_sg s' shm_id) * count_list (sg_phys sg) a
         = pmm_users (vm_pmm (vs_vm s')) a + sg_refs sg * count_list (sg_phys sg) a)"
proof -
  let ?sg = "sg\<lparr>sg_users := sg_users sg - 1\<rparr>"
  from run have rel: "shm_release s shm_id ?sg False = Inr s'"
    by (auto simp: vmmc_unmake_shm_def outcome_simps sg(1))
  have dec: "unat (sg_users sg - 1) = unat (sg_users sg) - 1" and pos: "0 < unat (sg_users sg)"
    using sg(2) by (auto simp: unat_minus_one word_gt_0 unat_gt_0)
  show ?thesis
  proof (cases "sg_users sg = 1")
    case True
    with rel have "s' = sg_put s shm_id (sg_seal (?sg\<lparr>sg_kept_alive := True\<rparr>))"
      by (simp add: shm_release_def Let_def)
    with True sg(3) show ?thesis by (simp add: sg_sealed_seal sg_refs_def)
  next
    case False
    then have "sg_users sg - 1 \<noteq> 0" by simp
    with rel slots obtain v where v: "rfold vm_free (vs_vm s) (sg_phys sg) = Inr v"
      "s' = sg_put (s\<lparr>vs_vm := v\<rparr>) shm_id (sg_seal ?sg)"
      by (auto simp: shm_release_def Let_def outcome_simps)
    note f = vmf.foreach_free [OF inv v(1)]
    have "unat (sg_users sg) = Suc (unat (sg_users sg - 1))" using dec pos by simp
    moreover have "0 < unat (sg_users sg - 1)" using \<open>sg_users sg - 1 \<noteq> 0\<close> by (simp add: unat_gt_0)
    ultimately show ?thesis using f v(2) sg(3) False by (simp add: sg_sealed_seal sg_refs_def algebra_simps)
  qed
qed

text \<open>A state with one descriptor, of one page, in the first page of the kernel window.\<close>

definition demo_sg :: shm_sg where
  "demo_sg = sg_seal \<lparr>sg_size = 4096, sg_users = 2, sg_offset = 0, sg_kept_alive = False,
     sg_pad = [0, 0, 0], sg_digest = 0, sg_phys = [0x101000]\<rparr>"

definition demo_vmem :: vmem where
  "demo_vmem = \<lparr>vs_vm = demo_cow_vm, vs_kpt = [0x103], vs_size = Map.empty, vs_sg = (\<lambda>_. demo_sg)\<rparr>"

lemma demo_sg_simps [simp]:
  "sg_size demo_sg = 4096" "sg_users demo_sg = 2" "sg_offset demo_sg = 0" "\<not> sg_kept_alive demo_sg"
  "sg_phys demo_sg = [0x101000]" "shm_pages 4096 = 1"
  by (simp_all add: demo_sg_def shm_pages_def PAGE_SIZE_def)

lemma demo_vmem_simps [simp]: "vs_vm demo_vmem = demo_cow_vm" "vs_sg demo_vmem a = demo_sg"
  by (simp_all add: demo_vmem_def)

lemma demo_shm_valid: "is_valid_shm demo_vmem cur 0xF0400004 = Inr True"
proof -
  have "kaddress_mapped demo_vmem cur 0xF0400000 = Inr (VMM_PR OR VMM_PW OR VMM_PX)"
    by (simp add: kaddress_mapped_def demo_vmem_def HMEM_BASE_def UNMP_BASE_def flag_bits(1) access_flags_def map_flags)
  then have "kernel_pages_ok demo_vmem cur 0xF0400000 1 (VMM_PR OR VMM_PW) = Inr True"
    by (simp add: IS_KERNEL_def PHYS_BASE_def vmm_flags)
  then have "is_valid_kernel_mem demo_vmem cur 0xF0400004 20 (VMM_PR OR VMM_PW) = Inr True"
    by (simp add: is_valid_kernel_mem_def range_pages_def PAGE_SIZE_def PAGE_SHIFT_def)
  moreover have "sg_sealed demo_sg" unfolding demo_sg_def by (rule sg_sealed_seal)
  ultimately show ?thesis by (simp add: is_valid_shm_def sg_sealed_def)
qed

lemma demo_shared_frame: "pmm_users (vm_pmm demo_cow_vm) 0x101000 = 2"
  by (simp add: demo_cow_vm_def pmm_users_def frame_users_def frame_index_def page_aligned_def
      PAGE_SIZE_def PAGE_SHIFT_def)

lemma demo_use: "\<exists>v'. rfold vm_use v [0x101000] = Inr v'"
  if "vm_inv v" "pmm_users (vm_pmm v) 0x101000 = 2"
proof -
  let ?p = "vm_pmm v"
  from that have "page_aligned 0x101000" "frame_index ?p 0x101000 < length (bitmap ?p)"
      "unat (bitmap ?p ! frame_index ?p 0x101000) mod 128 = 2"
    by (auto simp: pmm_users_def vm_inv_def pmm_inv_def frame_users_def split: if_splits)
  then have "\<exists>p'. pmm_use ?p 0x101000 = Inr p'"
    by (simp add: pmm_use_def Let_def users_full_iff users_zero_iff)
  then show ?thesis by (auto simp: vm_use_def)
qed

theorem vmmc_open_shm_refs_witness:
  "\<exists>m s c. vmmc_open_shm demo_vmem demo_cow_ctx demo_cow_ctx 0xF0400004 VMM_UR = Inr (m, s, c)
     \<and> sg_users (vs_sg s 0xF0400004) = 3 \<and> pmm_users (vm_pmm (vs_vm s)) 0x101000 = 3"
proof -
  have absent: "\<not> present (pd demo_cow_ctx ! 768)" and len: "length (pd demo_cow_ctx) = 1024"
    by (simp_all add: demo_cow_pd flag_bits(1)) (simp add: demo_cow_ctx_def)
  have scan: "sg_scan demo_cow_vm (pd demo_cow_ctx) 768 0 0 1 = Inr (768, 1024, 1024)"
    using absent len by (subst sg_scan.simps) (simp add: KERNEL_BASE_def)
  have "frame_free (vm_pmm demo_cow_vm) 2" by (simp add: frame_free_def demo_cow_vm_def)
  moreover have "\<not> IS_KERNEL 0xC0000000" by (simp add: IS_KERNEL_def PHYS_BASE_def)
  ultimately obtain v1 c1 where
    m: "vmmc_map_user_page demo_cow_vm demo_cow_ctx 0xC0000000 (frame_of 0x101000) VMM_UR = Inr (v1, c1)"
    using vmmc_map_user_page_ok [OF demo_cow_inv] by metis
  then have mp: "shm_open_map demo_cow_vm demo_cow_ctx demo_sg VMM_UR = Inr (0xC0000000, v1, c1)"
    using scan by (simp add: shm_open_map_def vmmc_user_map_sg_def USER_MAP_BASE_def)
  note f = shm_open_map_frame [OF demo_cow_inv mp]
  have "pmm_users (vm_pmm v1) 0x101000 = 2"
    using f demo_shared_frame by (simp add: map_frame_def)
  moreover have "vm_inv v1" using f by (blast intro: ctx_inv_vm)
  ultimately obtain v2 where u: "rfold vm_use v1 [0x101000] = Inr v2" using demo_use by blast
  let ?s = "sg_put (demo_vmem\<lparr>vs_vm := v2\<rparr>) 0xF0400004 (sg_seal (demo_sg\<lparr>sg_users := sg_users demo_sg + 1\<rparr>))"
  have run: "vmmc_open_shm demo_vmem demo_cow_ctx demo_cow_ctx 0xF0400004 VMM_UR = Inr (0xC0000000, ?s, c1)"
    using mp u by (simp add: vmmc_open_shm_def demo_shm_valid Let_def)
  have "ctx_inv (vs_vm demo_vmem) demo_cow_ctx" using demo_cow_inv by simp
  note t = vmmc_open_shm_refs [OF this refl refl _ _ _ run]
  then have "pmm_users (vm_pmm (vs_vm ?s)) 0x101000 = 3"
    using demo_shared_frame by (simp add: sg_refs_def)
  with run show ?thesis by (intro exI [of _ "0xC0000000"] exI [of _ ?s] exI [of _ c1]) simp
qed

theorem shm_release_refs_witness:
  "\<exists>s. vmmc_unmake_shm demo_vmem demo_cow_ctx 0xF0400004 False = Inr s
     \<and> sg_users (vs_sg s 0xF0400004) = 1 \<and> pmm_users (vm_pmm (vs_vm s)) 0x101000 = 1"
proof -
  have vi: "vm_inv (vs_vm demo_vmem)" using ctx_inv_vm [OF demo_cow_inv] by simp
  have "0 < pmm_users (vm_pmm demo_cow_vm) 0x101000" using demo_shared_frame by simp
  then obtain v where "vm_free demo_cow_vm 0x101000 = Inr v"
    using vm_free_defined [OF ctx_inv_vm [OF demo_cow_inv]] by metis
  then obtain s where run: "vmmc_unmake_shm demo_vmem demo_cow_ctx 0xF0400004 False = Inr s"
    by (simp add: vmmc_unmake_shm_def demo_shm_valid shm_release_def Let_def)
  from shm_release_refs [OF vi refl _ _ _ run] show ?thesis
    using run demo_shared_frame by (auto simp: sg_refs_def dest: spec [of _ "0x101000"])
qed

end
