(* ===== verification/Tasks.thy ===== *)
theory Tasks
  imports Process Vmem
begin

text \<open>
  Process management (\<open>src/kernel/common/tasking/management.c\<close>, \<open>src/kernel/common/intr/isrs.c\<close>,
  \<open>src/kernel/arch/i386/mmu/pagefault.c\<close>): creation, forking, popup threads, ending and reaping of
  processes, daemons, and the interrupt handlers that belong to processes.

  \<open>tasks\<close> holds the globals of the module, by address the process structures, the stack masks
  (reference count, mask) and the popup answers (parent, size, buffer), the
  address spaces by the address of their \<open>vmm_context_t\<close> (with the address of \<open>kernel_context\<close> and its
  page directory \<open>kpd\<close>), and the memory. Register contents
  (\<open>struct cpu_state\<close>) are not part of it. An operation on the running process that ends in
  \<open>for (;;) yield ()\<close> is the change of state up to the first yield. The interrupt controller is its
  pair of mask registers (\<open>src/kernel/arch/i386/intr/int.c\<close>).
\<close>

text \<open>\<open>struct isr\<close>: its address and, by the tag \<open>is_kernel\<close>, the handler or the process, its handler and
  the info pointer.\<close>

datatype isr = KernelIsr u32 u32 | UserIsr u32 u32 u32 u32

record tasks =
  procs :: pstore
  current_process :: u32
  idle_process :: u32
  runqueue :: u32
  daemons :: u32
  zombies :: u32
  dead :: u32
  used_pids :: "u32 list"
  masks :: "u32 \<rightharpoonup> int \<times> u32 list"
  prms :: "u32 \<rightharpoonup> int \<times> u32 \<times> u32"
  ctxs :: "u32 \<rightharpoonup> vmm_context"
  kernel_context :: u32
  kpd :: "u32 list"
  mem :: vmem
  handlers :: "isr list list"
  unsettled_procs :: "int list"
  disabled_status :: "u8 list"

definition pset :: "tasks \<Rightarrow> u32 \<Rightarrow> process \<Rightarrow> tasks" where
  "pset s p x = s\<lparr>procs := (procs s)(p \<mapsto> x)\<rparr>"

definition pget :: "tasks \<Rightarrow> u32 \<Rightarrow> process outcome" where
  "pget s p = pderef (procs s) p"

definition pupd :: "tasks \<Rightarrow> u32 \<Rightarrow> (process \<Rightarrow> process) \<Rightarrow> tasks outcome" where
  "pupd s p f = rbind (pget s p) (\<lambda>x. Inr (pset s p (f x)))"

definition cget :: "tasks \<Rightarrow> u32 \<Rightarrow> vmm_context outcome" where
  "cget s a = (case ctxs s a of None \<Rightarrow> Inl BadPointer | Some c \<Rightarrow> Inr c)"

definition put_memory :: "tasks \<Rightarrow> u32 \<Rightarrow> vm \<Rightarrow> vmm_context \<Rightarrow> tasks" where
  "put_memory s a v c = s\<lparr>mem := (mem s)\<lparr>vs_vm := v\<rparr>, ctxs := (ctxs s)(a \<mapsto> c)\<rparr>"

definition t_kmalloc :: "tasks \<Rightarrow> u32 \<Rightarrow> (u32 \<times> tasks) outcome" where
  "t_kmalloc s sz = rbind (vs_kmalloc (mem s) sz) (\<lambda>(a, m). Inr (a, s\<lparr>mem := m\<rparr>))"

definition t_kfree :: "tasks \<Rightarrow> u32 \<Rightarrow> tasks outcome" where
  "t_kfree s a = rbind (vs_kfree (mem s) a) (\<lambda>m. Inr (s\<lparr>mem := m\<rparr>))"

definition t_krealloc :: "tasks \<Rightarrow> u32 \<Rightarrow> u32 \<Rightarrow> (u32 \<times> tasks) outcome" where
  "t_krealloc s a sz = rbind (vs_krealloc (mem s) a sz) (\<lambda>(b, m). Inr (b, s\<lparr>mem := m\<rparr>))"

subsection \<open>The process lists\<close>

datatype plist = Runqueue | Daemons | Zombies | Dead

fun head_of :: "tasks \<Rightarrow> plist \<Rightarrow> u32" where
  "head_of s Runqueue = runqueue s"
| "head_of s Daemons = daemons s"
| "head_of s Zombies = zombies s"
| "head_of s Dead = dead s"

fun set_head :: "tasks \<Rightarrow> plist \<Rightarrow> u32 \<Rightarrow> tasks" where
  "set_head s Runqueue a = s\<lparr>runqueue := a\<rparr>"
| "set_head s Daemons a = s\<lparr>daemons := a\<rparr>"
| "set_head s Zombies a = s\<lparr>zombies := a\<rparr>"
| "set_head s Dead a = s\<lparr>dead := a\<rparr>"

definition rq_register_process :: "tasks \<Rightarrow> u32 \<Rightarrow> tasks outcome" where
  "rq_register_process s proc =
     rbind (push_front set_rq_next (procs s) (runqueue s) proc) (\<lambda>(h, st).
       Inr (s\<lparr>procs := st, runqueue := h\<rparr>))"

definition q_register_process :: "tasks \<Rightarrow> plist \<Rightarrow> u32 \<Rightarrow> tasks outcome" where
  "q_register_process s l proc =
     (if l = Runqueue then rq_register_process s proc
      else
        rbind (push_front set_next (procs s) (head_of s l) proc) (\<lambda>(h, st).
          Inr (set_head (s\<lparr>procs := st\<rparr>) l h)))"

definition register_process :: "tasks \<Rightarrow> u32 \<Rightarrow> tasks outcome" where
  "register_process s proc = q_register_process s Runqueue proc"

definition run_process :: "tasks \<Rightarrow> u32 \<Rightarrow> tasks outcome" where
  "run_process s proc =
     rbind (pupd s proc (\<lambda>x. x\<lparr>p_status := PROCESS_ACTIVE\<rparr>)) (\<lambda>s'. register_process s' proc)"

definition rq_unregister_process :: "tasks \<Rightarrow> u32 \<Rightarrow> tasks outcome" where
  "rq_unregister_process s proc =
     rbind (unlink p_rq_next set_rq_next (procs s) MAX_PID_COUNT (runqueue s) proc) (\<lambda>(h, st).
       Inr (s\<lparr>procs := st, runqueue := h\<rparr>))"

definition q_unregister_process :: "tasks \<Rightarrow> plist \<Rightarrow> u32 \<Rightarrow> tasks outcome" where
  "q_unregister_process s l proc =
     (if l = Runqueue then rq_unregister_process s proc
      else
        rbind (unlink p_next set_next (procs s) MAX_PID_COUNT (head_of s l) proc) (\<lambda>(h, st).
          Inr (set_head (s\<lparr>procs := st\<rparr>) l h)))"

definition find_process_in :: "tasks \<Rightarrow> plist \<Rightarrow> int \<Rightarrow> u32 outcome" where
  "find_process_in s l pid =
     walk (if l = Runqueue then p_rq_next else p_next) (procs s) (\<lambda>x. p_pid x = pid) MAX_PID_COUNT (head_of s l)"

definition find_process :: "tasks \<Rightarrow> int \<Rightarrow> u32 outcome" where
  "find_process s pid =
     rbind (find_process_in s Runqueue pid) (\<lambda>p. if p \<noteq> 0 then Inr p else find_process_in s Daemons pid)"

definition find_child_in :: "tasks \<Rightarrow> plist \<Rightarrow> int \<Rightarrow> u32 outcome" where
  "find_child_in s l pid =
     walk (if l = Runqueue then p_rq_next else p_next) (procs s) (\<lambda>x. p_ppid x = pid) MAX_PID_COUNT (head_of s l)"

text \<open>\<open>strncmp (name, p->name, sizeof (p->name))\<close>: equal in the first 32 characters.\<close>

definition same_name :: "string \<Rightarrow> string \<Rightarrow> bool" where
  "same_name a b \<longleftrightarrow> take 32 a = take 32 b"

definition find_daemon_by_name :: "tasks \<Rightarrow> string \<Rightarrow> int outcome" where
  "find_daemon_by_name s name =
     rbind (walk p_next (procs s) (\<lambda>x. same_name name (p_name x) \<or> list_ex (same_name name) (p_aliases x))
              MAX_PID_COUNT (daemons s)) (\<lambda>p.
       if p \<noteq> 0 then rbind (pget s p) (\<lambda>x. Inr (p_pid x)) else Inr (-1))"

subsection \<open>User memory seen by the kernel\<close>

text \<open>The page fault handler; \<open>write\<close> is bit 1 of the error code.\<close>

definition handle_pagefault :: "tasks \<Rightarrow> u32 \<Rightarrow> bool \<Rightarrow> (bool \<times> tasks) outcome" where
  "handle_pagefault s cr2 write =
     (if current_process s = 0 then Inr (False, s)
      else
        rbind (pget s (current_process s)) (\<lambda>p.
        rbind (cget s (p_vmmc p)) (\<lambda>c.
        rbind (if write then vmmc_do_cow (vs_vm (mem s)) c cr2 else Inr (False, vs_vm (mem s))) (\<lambda>(ok, v1).
          if ok then Inr (True, put_memory s (p_vmmc p) v1 c)
          else
            rbind (vmmc_do_lazy_map v1 c cr2) (\<lambda>(ok, v2, c2).
              Inr (ok, put_memory s (p_vmmc p) v2 c2))))))"

definition frame_store :: "vm \<Rightarrow> u32 \<Rightarrow> nat \<Rightarrow> u32 \<Rightarrow> vm outcome" where
  "frame_store v phys k w =
     rbind (aset (vm_frame v (frame_of phys)) (unat (phys AND 0xFFF) div 4 + k) w) (\<lambda>f.
       Inr (v\<lparr>vm_frame := (vm_frame v)(frame_of phys := f)\<rparr>))"

text \<open>A write of the running kernel to a user address: through the page tables of the current
  process, with one page fault if the page is not mapped for writing.\<close>

definition user_store :: "tasks \<Rightarrow> u32 \<Rightarrow> nat \<Rightarrow> u32 \<Rightarrow> tasks outcome" where
  "user_store s addr k w =
     rbind (pget s (current_process s)) (\<lambda>p.
     rbind (cget s (p_vmmc p)) (\<lambda>c.
     rbind (vmmc_address_mapped (vs_vm (mem s)) c addr) (\<lambda>(f, phys).
     rbind (if f AND VMM_PW \<noteq> 0 then Inr s
            else rbind (handle_pagefault s addr True) (\<lambda>(ok, s1). if ok then Inr s1 else Inl BadPointer)) (\<lambda>s1.
     rbind (cget s1 (p_vmmc p)) (\<lambda>c1.
     rbind (vmmc_address_mapped (vs_vm (mem s1)) c1 addr) (\<lambda>(f, phys).
       case phys of
         None \<Rightarrow> Inl BadPointer
       | Some a \<Rightarrow>
           rbind (frame_store (vs_vm (mem s1)) a k w) (\<lambda>v.
             Inr (s1\<lparr>mem := (mem s1)\<lparr>vs_vm := v\<rparr>\<rparr>))))))))"

text \<open>The words of \<open>struct tls\<close>.\<close>

definition TLS_ABSOLUTE :: nat where "TLS_ABSOLUTE = 0"
definition TLS_PID :: nat where "TLS_PID = 1"
definition TLS_PGID :: nat where "TLS_PGID = 2"
definition TLS_PPID :: nat where "TLS_PPID = 3"
definition TLS_ERRNO :: nat where "TLS_ERRNO = 4"

lemmas tls_words = TLS_ABSOLUTE_def TLS_PID_def TLS_PGID_def TLS_PPID_def TLS_ERRNO_def

text \<open>Writing words into the memory of another process: make its page present, translate the address, write the
  words through a kernel mapping of the frame.\<close>

definition remote_fill :: "tasks \<Rightarrow> u32 \<Rightarrow> u32 \<Rightarrow> (nat \<times> u32) list \<Rightarrow> tasks outcome" where
  "remote_fill s vmmc addr ws =
     rbind (cget s vmmc) (\<lambda>c.
     rbind (vmmc_do_lazy_map (vs_vm (mem s)) c addr) (\<lambda>(_, v1, c1).
     rbind (vmmc_address_mapped v1 c1 addr) (\<lambda>(f, phys).
       case phys of
         None \<Rightarrow> Inl Panic
       | Some a \<Rightarrow>
           rbind (kassert (f \<noteq> 0)) (\<lambda>_.
           rbind (rfold (\<lambda>v (k, w). frame_store v a k w) v1 ws) (\<lambda>v2.
             Inr (put_memory s vmmc v2 c1))))))"

text \<open>\<open>make_process_entry\<close>: the register part sets the stack pointer to \<open>stack\<close>; a process without a
  thread-local block gets one below it.\<close>

definition make_process_entry :: "tasks \<Rightarrow> u32 \<Rightarrow> u32 \<Rightarrow> tasks outcome" where
  "make_process_entry s proc stack =
     rbind (pget s proc) (\<lambda>x.
     rbind (if p_tls x = 0 then
              let tls = stack - 20 in
              rbind (remote_fill s (p_vmmc x) tls
                 [(TLS_ABSOLUTE, tls), (TLS_ERRNO, 0), (TLS_PID, of_int (p_pid x)),
                  (TLS_PGID, of_int (p_pgid x)), (TLS_PPID, of_int (p_ppid x))]) (\<lambda>s1.
              rbind (pupd s1 proc (\<lambda>y. y\<lparr>p_tls := tls\<rparr>)) (\<lambda>s2. Inr (stack - 20, s2)))
            else Inr (stack, s)) (\<lambda>(stack', s1).
       pupd s1 proc (\<lambda>y. if p_irq_stack_top y = 0 then y\<lparr>p_irq_stack_top := stack'\<rparr> else y)))"

subsection \<open>Interrupt handlers of processes\<close>

definition enable_irq :: "tasks \<Rightarrow> nat \<Rightarrow> bool \<Rightarrow> tasks outcome" where
  "enable_irq s irq status =
     (let i = irq div 8; b = push_bit (irq mod 8) 1 in
      rbind (aget (disabled_status s) i) (\<lambda>d.
      rbind (aset (disabled_status s) i ((d AND NOT b) OR (if status then 0 else b))) (\<lambda>ds.
        Inr (s\<lparr>disabled_status := ds\<rparr>))))"

text \<open>\<open>irq_settled\<close> by its accesses to shared memory, which interrupts may separate: the assertion
  reads the counter, \<open>__sync_sub_and_fetch\<close> decrements it and returns the new value, and at zero the
  line is enabled.\<close>

definition irq_assert :: "tasks \<Rightarrow> nat \<Rightarrow> unit outcome" where
  "irq_assert s irq = rbind (aget (unsettled_procs s) irq) (\<lambda>n. kassert (n \<noteq> 0))"

definition irq_sub :: "tasks \<Rightarrow> nat \<Rightarrow> (int \<times> tasks) outcome" where
  "irq_sub s irq =
     rbind (aget (unsettled_procs s) irq) (\<lambda>n.
     rbind (aset (unsettled_procs s) irq (n - 1)) (\<lambda>us. Inr (n - 1, s\<lparr>unsettled_procs := us\<rparr>)))"

definition irq_settled :: "tasks \<Rightarrow> nat \<Rightarrow> tasks outcome" where
  "irq_settled s irq =
     rbind (irq_assert s irq) (\<lambda>_.
     rbind (irq_sub s irq) (\<lambda>(n, s').
       if n = 0 then enable_irq s' irq True else Inr s'))"

text \<open>The loop of \<open>unregister_isr_process\<close> over one list: after a removal it goes on behind the
  entry that took the removed one's place. The second result are the entries to free.\<close>

fun isr_of :: "u32 \<Rightarrow> isr \<Rightarrow> bool" where
  "isr_of proc (KernelIsr a h) = False"
| "isr_of proc (UserIsr a p h info) = (p = proc)"

fun isr_addr :: "isr \<Rightarrow> u32" where
  "isr_addr (KernelIsr a h) = a"
| "isr_addr (UserIsr a p h info) = a"

fun isr_remove :: "u32 \<Rightarrow> isr list \<Rightarrow> isr list \<times> u32 list" where
  "isr_remove proc [] = ([], [])"
| "isr_remove proc [e] = (if isr_of proc e then ([], [isr_addr e]) else ([e], []))"
| "isr_remove proc (e # e' # es) =
     (if isr_of proc e then
        (let (ks, fs) = isr_remove proc es in (e' # ks, isr_addr e # fs))
      else (let (ks, fs) = isr_remove proc (e' # es) in (e # ks, fs)))"

definition register_isr :: "tasks \<Rightarrow> int \<Rightarrow> isr \<Rightarrow> tasks outcome" where
  "register_isr s irq i =
     rbind (kassert (0 \<le> irq \<and> irq < 16)) (\<lambda>_.
     rbind (aget (handlers s) (nat irq)) (\<lambda>first.
     rbind (aset (handlers s) (nat irq) (i # first)) (\<lambda>hs. Inr (s\<lparr>handlers := hs\<rparr>))))"

definition register_kernel_isr :: "tasks \<Rightarrow> int \<Rightarrow> u32 \<Rightarrow> tasks outcome" where
  "register_kernel_isr s irq h = rbind (t_kmalloc s 20) (\<lambda>(a, s1). register_isr s1 irq (KernelIsr a h))"

definition register_user_isr :: "tasks \<Rightarrow> int \<Rightarrow> u32 \<Rightarrow> u32 \<Rightarrow> u32 \<Rightarrow> tasks outcome" where
  "register_user_isr s irq proc h info =
     rbind (pget s proc) (\<lambda>p.
     rbind (kassert (p_handled_irq p < 0)) (\<lambda>_.
     rbind (t_kmalloc s 20) (\<lambda>(a, s1).
     rbind (register_isr s1 irq (UserIsr a proc h info)) (\<lambda>s2.
       pupd s2 proc (\<lambda>x. x\<lparr>p_handled_irq := irq\<rparr>)))))"

definition unregister_isr_process :: "tasks \<Rightarrow> u32 \<Rightarrow> tasks outcome" where
  "unregister_isr_process s proc =
     (let r = map (isr_remove proc) (handlers s) in
      rbind (rfold t_kfree (s\<lparr>handlers := map fst r\<rparr>) (concat (map snd r))) (\<lambda>s'.
        pupd s' proc (\<lambda>x. x\<lparr>p_handled_irq := -1\<rparr>)))"

text \<open>An interrupt wakes every daemon that handles it. A kernel handler is a function of the state;
  the result is the number of processes woken.\<close>

fun irq_wake :: "(u32 \<Rightarrow> tasks \<Rightarrow> tasks) \<Rightarrow> tasks \<Rightarrow> isr list \<Rightarrow> (int \<times> tasks) outcome" where
  "irq_wake kh s [] = Inr (0, s)"
| "irq_wake kh s (KernelIsr a h # is) = irq_wake kh (kh h s) is"
| "irq_wake kh s (UserIsr a proc h info # is) =
     rbind (pget s proc) (\<lambda>p.
       if p_status p = PROCESS_DAEMON then
         rbind (make_process_entry (pset s proc (p\<lparr>p_status := PROCESS_COMA, p_handling_irq := True, p_fresh_irq := True\<rparr>))
                  proc (p_irq_stack_top p)) (\<lambda>s1.
         rbind (pupd s1 proc (\<lambda>x. x\<lparr>p_status := PROCESS_ACTIVE\<rparr>)) (\<lambda>s2.
         rbind (irq_wake kh s2 is) (\<lambda>(n, s'). Inr (n + 1, s'))))
       else irq_wake kh s is)"

definition common_irq_handler :: "(u32 \<Rightarrow> tasks \<Rightarrow> tasks) \<Rightarrow> tasks \<Rightarrow> nat \<Rightarrow> (int \<times> tasks) outcome" where
  "common_irq_handler kh s irq = rbind (aget (handlers s) irq) (\<lambda>is. irq_wake kh s is)"

text \<open>The interrupt branch of \<open>i386_common_isr\<close>; \<open>in_service\<close> is bit 7 of the controller's in-service
  register, read to recognise spurious interrupts.\<close>

definition i386_irq :: "(u32 \<Rightarrow> tasks \<Rightarrow> tasks) \<Rightarrow> tasks \<Rightarrow> nat \<Rightarrow> bool \<Rightarrow> tasks outcome" where
  "i386_irq kh s irq in_service =
     (if irq mod 8 = 7 \<and> \<not> in_service then Inr s
      else
        rbind (aget (unsettled_procs s) irq) (\<lambda>n.
        rbind (kassert (n = 0)) (\<lambda>_.
        rbind (common_irq_handler kh s irq) (\<lambda>(m, s1).
          let s2 = s1\<lparr>unsettled_procs := (unsettled_procs s1)[irq := m]\<rparr>
          in if m \<noteq> 0 then enable_irq s2 irq False else Inr s2))))"

subsection \<open>The end of a process\<close>

fun each :: "(process \<Rightarrow> u32) \<Rightarrow> nat \<Rightarrow> (tasks \<Rightarrow> u32 \<Rightarrow> tasks outcome) \<Rightarrow> tasks \<Rightarrow> u32 \<Rightarrow> tasks outcome" where
  "each nx 0 f s p = (if p = 0 then Inr s else Inl NoReturn)"
| "each nx (Suc n) f s p =
     (if p = 0 then Inr s
      else rbind (f s p) (\<lambda>s'. rbind (pget s' p) (\<lambda>x. each nx n f s' (nx x))))"

definition adopt :: "int \<Rightarrow> tasks \<Rightarrow> u32 \<Rightarrow> tasks outcome" where
  "adopt parent_pid s child =
     rbind (pupd s child (\<lambda>x. x\<lparr>p_ppid := parent_pid\<rparr>)) (\<lambda>s1.
     rbind (pget s1 child) (\<lambda>x. user_store s1 (p_tls x) TLS_PPID (of_int parent_pid)))"

definition adopt_if_child :: "process \<Rightarrow> tasks \<Rightarrow> u32 \<Rightarrow> tasks outcome" where
  "adopt_if_child parent s c =
     rbind (pget s c) (\<lambda>x. if p_ppid x = p_pid parent then adopt (p_ppid parent) s c else Inr s)"

definition adopt_orphans :: "tasks \<Rightarrow> u32 \<Rightarrow> tasks outcome" where
  "adopt_orphans s parent =
     rbind (pget s parent) (\<lambda>x.
     rbind (each p_rq_next MAX_PID_COUNT (adopt_if_child x) s (runqueue s)) (\<lambda>s1.
     rbind (each p_next MAX_PID_COUNT (adopt_if_child x) s1 (daemons s1)) (\<lambda>s2.
       each p_next MAX_PID_COUNT (adopt_if_child x) s2 (zombies s2))))"

definition destroy_process :: "tasks \<Rightarrow> u32 \<Rightarrow> u64 \<Rightarrow> tasks outcome" where
  "destroy_process s proc exit_info =
     rbind (pget s proc) (\<lambda>x.
     rbind (if p_handled_irq x \<ge> 0 then
              rbind (if p_status x = PROCESS_ACTIVE \<and> p_handling_irq x
                     then irq_settled s (nat (p_handled_irq x)) else Inr s) (\<lambda>s1.
                unregister_isr_process s1 proc)
            else Inr s) (\<lambda>s1.
     rbind (adopt_orphans s1 proc) (\<lambda>s2.
     rbind (q_unregister_process s2 Runqueue proc) (\<lambda>s3.
     rbind (q_register_process s3 Zombies proc) (\<lambda>s4.
       pupd s4 proc (\<lambda>x. x\<lparr>p_exit_info := exit_info, p_status := PROCESS_ZOMBIE\<rparr>))))))"

text \<open>The owner of the FPU state (\<open>fpu_sse_unregister\<close>) is not part of the model.\<close>

definition destroy_process_struct :: "tasks \<Rightarrow> u32 \<Rightarrow> tasks outcome" where
  "destroy_process_struct s proc =
     rbind (pget s proc) (\<lambda>x.
     rbind (if p_popup_stack_mask x \<noteq> 0 then
              (case masks s (p_popup_stack_mask x) of
                 None \<Rightarrow> Inl BadPointer
               | Some (n, m) \<Rightarrow>
                   if n - 1 = 0
                   then t_kfree (s\<lparr>masks := (masks s)(p_popup_stack_mask x := None)\<rparr>) (p_popup_stack_mask x)
                   else Inr (s\<lparr>masks := (masks s)(p_popup_stack_mask x \<mapsto> (n - 1, m))\<rparr>))
            else Inr s) (\<lambda>s1.
     rbind (t_kfree s1 (p_kernel_stack x)) (\<lambda>s2.
     rbind (cget s2 (p_vmmc x)) (\<lambda>c.
     rbind (unuse_vmm_context (vs_vm (mem s2)) c) (\<lambda>(v, c').
     rbind (if users c' = 0
            then t_kfree ((put_memory s2 (p_vmmc x) v c')\<lparr>ctxs := (ctxs s2)(p_vmmc x := None)\<rparr>) (p_vmmc x)
            else Inr (put_memory s2 (p_vmmc x) v c')) (\<lambda>s3.
     rbind (relinquish_pid (used_pids s3) (nat (p_pid x))) (\<lambda>up.
       t_kfree (s3\<lparr>used_pids := up, procs := (procs s3)(proc := None)\<rparr>) proc)))))))"

definition set_errno :: "tasks \<Rightarrow> u32 \<Rightarrow> tasks outcome" where
  "set_errno s e = rbind (pget s (current_process s)) (\<lambda>x. user_store s (p_tls x) TLS_ERRNO e)"

definition destroy_this_popup_thread :: "tasks \<Rightarrow> u64 \<Rightarrow> tasks outcome" where
  "destroy_this_popup_thread s exit_info =
     rbind (pget s (current_process s)) (\<lambda>x.
       let psi = p_popup_stack_index x in
       if psi < 0 \<or> psi \<ge> 1024 then Inr s
       else
         rbind (t_kfree s (p_popup_tmp x)) (\<lambda>s1.
         rbind (find_process s1 (p_pgid x)) (\<lambda>pg.
         rbind (kassert (pg \<noteq> 0)) (\<lambda>_.
         rbind (pget s1 pg) (\<lambda>g.
           case masks s1 (p_popup_stack_mask g) of
             None \<Rightarrow> Inl BadPointer
           | Some (n, m) \<Rightarrow>
               rbind (mask_clear m (nat psi)) (\<lambda>m'.
                 let s2 = s1\<lparr>masks := (masks s1)(p_popup_stack_mask g \<mapsto> (n, m'))\<rparr> in
                 if p_popup_zombify x then destroy_process s2 (current_process s2) exit_info
                 else
                   rbind (adopt_orphans s2 (current_process s2)) (\<lambda>s3.
                   rbind (if p_popup_return x \<noteq> 0 then
                            (case prms s3 (p_popup_return x) of
                               None \<Rightarrow> Inl BadPointer
                             | Some (_, _, b) \<Rightarrow>
                                 rbind (t_kfree s3 b) (\<lambda>s'.
                                   t_kfree (s'\<lparr>prms := (prms s')(p_popup_return x := None)\<rparr>) (p_popup_return x)))
                          else Inr s3) (\<lambda>s4.
                   rbind (q_unregister_process s4 Runqueue (current_process s4)) (\<lambda>s5.
                   rbind (q_register_process s5 Dead (current_process s5)) (\<lambda>s6.
                     pupd s6 (current_process s6) (\<lambda>y. y\<lparr>p_status := PROCESS_DESTRUCT\<rparr>)))))))))))"

text \<open>
  Waiting. The result is the value returned, the exit information, the value of the child's \<open>errno\<close>
  (when the caller asks for it) and the address of the popup answer; \<open>None\<close> means that the caller
  yields and tries again later.
\<close>

definition WNOHANG :: u32 where "WNOHANG = 1"

type_synonym wait_result = "int \<times> u64 \<times> u32 \<times> u32"

definition remote_load :: "tasks \<Rightarrow> u32 \<Rightarrow> u32 \<Rightarrow> nat \<Rightarrow> u32 outcome" where
  "remote_load s vmmc addr k =
     rbind (cget s vmmc) (\<lambda>c.
     rbind (vmmc_address_mapped (vs_vm (mem s)) c (addr + of_nat k * 4)) (\<lambda>(f, phys).
       case phys of
         None \<Rightarrow> Inl Panic
       | Some a \<Rightarrow>
           rbind (kassert (f \<noteq> 0)) (\<lambda>_. aget (vm_frame (vs_vm (mem s)) (frame_of a)) (unat (a AND 0xFFF) div 4))))"

definition wait_for_zombie ::
    "tasks \<Rightarrow> int \<Rightarrow> u32 \<Rightarrow> bool \<Rightarrow> (wait_result option \<times> tasks) outcome" where
  "wait_for_zombie s pid options want_errno =
     rbind (find_process s pid) (\<lambda>p0.
     rbind (if p0 \<noteq> 0 then Inr p0 else find_process_in s Zombies pid) (\<lambda>proc.
       if proc = 0 then rbind (set_errno s 10) (\<lambda>s'. Inr (Some (-1, 0, 0, 0), s'))
       else
         rbind (pget s proc) (\<lambda>x.
           if p_status x \<noteq> PROCESS_ZOMBIE then
             (if options AND WNOHANG \<noteq> 0 then Inr (Some (0, 0, 0, 0), s) else Inr (None, s))
           else
             rbind (q_unregister_process s Zombies proc) (\<lambda>s1.
             rbind (if want_errno then remote_load s1 (p_vmmc x) (p_tls x) TLS_ERRNO else Inr 0) (\<lambda>e.
             rbind (destroy_process_struct s1 proc) (\<lambda>s2.
               Inr (Some (p_pid x, p_exit_info x, e, p_popup_return x), s2)))))))"

definition raw_waitpid ::
    "tasks \<Rightarrow> int \<Rightarrow> u32 \<Rightarrow> bool \<Rightarrow> (wait_result option \<times> tasks) outcome" where
  "raw_waitpid s pid options want_errno =
     (if pid = -1 then
        rbind (pget s (current_process s)) (\<lambda>c.
        rbind (find_child_in s Zombies (p_pid c)) (\<lambda>p.
          if p = 0 then
            (if options AND WNOHANG \<noteq> 0 then Inr (Some (0, 0, 0, 0), s) else Inr (None, s))
          else rbind (pget s p) (\<lambda>x. wait_for_zombie s (p_pid x) options False)))
      else wait_for_zombie s pid options want_errno)"

fun sweep :: "nat \<Rightarrow> tasks \<Rightarrow> tasks outcome" where
  "sweep 0 s = (if dead s = 0 then Inr s else Inl NoReturn)"
| "sweep (Suc n) s =
     (if dead s = 0 then Inr s
      else
        rbind (pget s (dead s)) (\<lambda>x.
        rbind (destroy_process_struct (s\<lparr>dead := p_next x\<rparr>) (dead s)) (\<lambda>s'. sweep n s')))"

definition sweep_dead_processes :: "tasks \<Rightarrow> tasks outcome" where
  "sweep_dead_processes s = sweep MAX_PID_COUNT s"

subsection \<open>Daemons\<close>

definition daemonize_process :: "tasks \<Rightarrow> u32 \<Rightarrow> string \<Rightarrow> tasks outcome" where
  "daemonize_process s proc name =
     rbind (pupd s proc (\<lambda>x. x\<lparr>p_name := take 32 name\<rparr>)) (\<lambda>s1.
     rbind (pget s1 proc) (\<lambda>x.
     rbind (if p_handled_irq x < 0 then q_unregister_process s1 Runqueue proc else Inr s1) (\<lambda>s2.
     rbind (q_register_process s2 Daemons proc) (\<lambda>s3.
       pupd s3 proc (\<lambda>x. x\<lparr>p_status := PROCESS_DAEMON\<rparr>)))))"

definition process_add_alias :: "tasks \<Rightarrow> u32 \<Rightarrow> string \<Rightarrow> tasks outcome" where
  "process_add_alias s proc name =
     rbind (pget s proc) (\<lambda>x.
     rbind (t_krealloc s (p_aliases_ptr x) (of_nat (length (p_aliases x) + 1) * 32)) (\<lambda>(a, s').
       pupd s' proc (\<lambda>x. x\<lparr>p_aliases_ptr := a, p_aliases := p_aliases x @ [take 32 name]\<rparr>)))"

text \<open>The three stores of \<open>daemonize_from_irq_handler\<close>, which runs with interrupts enabled, and the
  function itself; a process that reports for itself then only yields.\<close>

definition report_handled :: "tasks \<Rightarrow> u32 \<Rightarrow> tasks outcome" where
  "report_handled s proc =
     rbind (pget s proc) (\<lambda>x.
     rbind (kassert (p_handling_irq x)) (\<lambda>_.
     rbind (kassert (p_handled_irq x \<ge> 0)) (\<lambda>_.
       pupd s proc (\<lambda>x. x\<lparr>p_handling_irq := False\<rparr>))))"

definition report_count :: "tasks \<Rightarrow> u32 \<Rightarrow> tasks outcome" where
  "report_count s proc = pupd s proc (\<lambda>x. x\<lparr>p_settle_count := p_settle_count x + 1\<rparr>)"

definition report_daemon :: "tasks \<Rightarrow> u32 \<Rightarrow> tasks outcome" where
  "report_daemon s proc = pupd s proc (\<lambda>x. x\<lparr>p_status := PROCESS_DAEMON\<rparr>)"

definition daemonize_from_irq_handler :: "tasks \<Rightarrow> u32 \<Rightarrow> tasks outcome" where
  "daemonize_from_irq_handler s proc =
     rbind (report_handled s proc) (\<lambda>s1. rbind (report_count s1 proc) (\<lambda>s2. report_daemon s2 proc))"

text \<open>One round of the reaper thread of \<open>src/kernel/common/tasking/idle.c\<close>: destroy the dead, settle
  the interrupts of the daemons that have finished handling them.\<close>

definition settle_sub :: "tasks \<Rightarrow> u32 \<Rightarrow> (int \<times> tasks) outcome" where
  "settle_sub s p =
     rbind (pget s p) (\<lambda>x.
       let n = p_settle_count x - 1 in Inr (n, pset s p (x\<lparr>p_settle_count := n\<rparr>)))"

text \<open>The loop \<open>do irq_settled(...); while (__sync_sub_and_fetch(...));\<close>: every round decrements the
  count in the process structure and looks at the new value. Run on its own it takes as many rounds as
  the count says, which is the fuel.\<close>

fun settle_loop :: "nat \<Rightarrow> tasks \<Rightarrow> u32 \<Rightarrow> tasks outcome" where
  "settle_loop 0 s p = Inl NoReturn"
| "settle_loop (Suc k) s p =
     rbind (pget s p) (\<lambda>x.
     rbind (irq_settled s (nat (p_handled_irq x))) (\<lambda>s1.
     rbind (settle_sub s1 p) (\<lambda>(n, s2). if n \<noteq> 0 then settle_loop k s2 p else Inr s2)))"

definition reaper_settle :: "tasks \<Rightarrow> u32 \<Rightarrow> tasks outcome" where
  "reaper_settle s p =
     rbind (pget s p) (\<lambda>x.
       if p_handled_irq x \<ge> 0 \<and> p_settle_count x > 0 \<and> p_status x = PROCESS_DAEMON
       then settle_loop (nat (p_settle_count x)) s p
       else Inr s)"

definition reaper :: "tasks \<Rightarrow> tasks outcome" where
  "reaper s =
     rbind (if dead s \<noteq> 0 then sweep_dead_processes s else Inr s) (\<lambda>s1.
       each p_next MAX_PID_COUNT reaper_settle s1 (daemons s1))"

text \<open>Whether the idle process halts the processor: it looks for an active process in the run queue,
  but follows \<open>next\<close> instead of \<open>rq_next\<close>.\<close>

definition idle_halts :: "tasks \<Rightarrow> bool outcome" where
  "idle_halts s =
     rbind (walk p_next (procs s) (\<lambda>x. p_status x = PROCESS_ACTIVE) MAX_PID_COUNT (runqueue s)) (\<lambda>p.
       Inr (p = 0))"

subsection \<open>Creation\<close>

definition null_process :: process where
  "null_process = \<lparr>p_pid = 0, p_pgid = 0, p_ppid = 0, p_status = PROCESS_ACTIVE, p_vmmc = 0, p_rq_next = 0,
     p_next = 0, p_schedule_tick = 0, p_name = [], p_aliases = [], p_aliases_ptr = 0, p_tls = 0, p_popup_entry = 0,
     p_popup_stack_mask = 0, p_popup_stack_index = 0, p_popup_tmp = 0, p_popup_tmp_sz = 0, p_popup_return = 0,
     p_popup_zombify = False, p_exit_info = 0, p_handled_irq = 0, p_fresh_irq = False,
     p_handling_irq = False, p_settle_count = 0, p_irq_stack_top = 0, p_kernel_stack = 0\<rparr>"

definition PROCESS_SIZE :: u32 where "PROCESS_SIZE = 680"
definition KERNEL_STACK_SIZE :: u32 where "KERNEL_STACK_SIZE = 2048"
definition VMM_CONTEXT_SIZE :: u32 where "VMM_CONTEXT_SIZE = 20"

text \<open>The part common to the functions that create a process: a cleared structure with a new
  number, no popup stack and no interrupt; the kernel stack comes later.\<close>

definition new_process :: "tasks \<Rightarrow> (process \<Rightarrow> process) \<Rightarrow> (u32 \<times> tasks) outcome" where
  "new_process s f =
     rbind (t_kmalloc s PROCESS_SIZE) (\<lambda>(p, s1).
     rbind (get_new_pid (used_pids s1)) (\<lambda>(pid, up).
       Inr (p, pset (s1\<lparr>used_pids := up\<rparr>) p
              (f (null_process\<lparr>p_pid := int pid, p_pgid := int pid, p_status := PROCESS_COMA,
                    p_popup_stack_index := -1, p_handled_irq := -1\<rparr>)))))"

definition alloc_cpu_state :: "tasks \<Rightarrow> u32 \<Rightarrow> tasks outcome" where
  "alloc_cpu_state s proc =
     rbind (t_kmalloc s KERNEL_STACK_SIZE) (\<lambda>(ks, s'). pupd s' proc (\<lambda>x. x\<lparr>p_kernel_stack := ks\<rparr>))"

definition use_ctx :: "tasks \<Rightarrow> u32 \<Rightarrow> tasks outcome" where
  "use_ctx s a = rbind (cget s a) (\<lambda>c. Inr (s\<lparr>ctxs := (ctxs s)(a \<mapsto> use_vmm_context c)\<rparr>))"

definition create_empty_process :: "tasks \<Rightarrow> string \<Rightarrow> (u32 \<times> tasks) outcome" where
  "create_empty_process s name =
     rbind (if current_process s = 0 then Inr 0 else rbind (pget s (current_process s)) (\<lambda>c. Inr (p_pid c))) (\<lambda>ppid.
     rbind (new_process s (\<lambda>x. x\<lparr>p_ppid := ppid, p_name := take 31 name\<rparr>)) (\<lambda>(p, s1).
     rbind (alloc_cpu_state s1 p) (\<lambda>s2.
     rbind (t_kmalloc s2 VMM_CONTEXT_SIZE) (\<lambda>(a, s3).
     rbind (create_vmm_context (vs_vm (mem s3)) (kpd s3) \<lparr>cr3 = 0, pd = [], heap_end = 0, users = 0\<rparr>) (\<lambda>(v, c).
     rbind (use_ctx (put_memory s3 a v c) a) (\<lambda>s4.
     rbind (pupd s4 p (\<lambda>x. x\<lparr>p_vmmc := a\<rparr>)) (\<lambda>s5. Inr (p, s5))))))))"

definition create_kernel_thread :: "tasks \<Rightarrow> string \<Rightarrow> (u32 \<times> tasks) outcome" where
  "create_kernel_thread s name =
     rbind (new_process s (\<lambda>x. x\<lparr>p_name := take 31 name, p_vmmc := kernel_context s\<rparr>)) (\<lambda>(p, s1).
     rbind (alloc_cpu_state s1 p) (\<lambda>s2.
     rbind (use_ctx s2 (kernel_context s2)) (\<lambda>s3. Inr (p, s3))))"

definition make_idle_process :: "tasks \<Rightarrow> tasks outcome" where
  "make_idle_process s =
     rbind (new_process s (\<lambda>x. x\<lparr>p_status := PROCESS_ACTIVE, p_name := ''[idle]'', p_vmmc := kernel_context s\<rparr>)) (\<lambda>(p, s1).
     rbind (alloc_cpu_state s1 p) (\<lambda>s2.
     rbind (use_ctx s2 (kernel_context s2)) (\<lambda>s3. Inr (s3\<lparr>idle_process := p\<rparr>))))"

definition process_create_basic_mappings :: "tasks \<Rightarrow> u32 \<Rightarrow> tasks outcome" where
  "process_create_basic_mappings s proc =
     rbind (pget s proc) (\<lambda>x.
     rbind (cget s (p_vmmc x)) (\<lambda>c.
     rbind (vmmc_lazy_map_area (vs_vm (mem s)) c 0xE0000000 0x10000000 (VMM_UR OR VMM_UW)) (\<lambda>(v1, c1).
     rbind (vmmc_lazy_map_area v1 c1 USER_HERITAGE_BASE (USER_HERITAGE_TOP - USER_HERITAGE_BASE)
              (VMM_UR OR VMM_UW)) (\<lambda>(v2, c2).
       Inr (put_memory s (p_vmmc x) v2 c2)))))"

definition create_user_thread :: "tasks \<Rightarrow> u32 \<Rightarrow> u32 \<Rightarrow> (u32 \<times> tasks) outcome" where
  "create_user_thread s stack_top arg =
     rbind (pget s (current_process s)) (\<lambda>c.
     rbind (new_process s (\<lambda>x. x\<lparr>p_ppid := p_pgid c, p_pgid := p_pgid c, p_name := take 31 (p_name c),
                                 p_popup_stack_mask := p_popup_stack_mask c, p_vmmc := p_vmmc c\<rparr>)) (\<lambda>(p, s1).
     rbind (if p_popup_stack_mask c \<noteq> 0 then
              (case masks s1 (p_popup_stack_mask c) of
                 None \<Rightarrow> Inl BadPointer
               | Some (n, m) \<Rightarrow> Inr (s1\<lparr>masks := (masks s1)(p_popup_stack_mask c \<mapsto> (n + 1, m))\<rparr>))
            else Inr s1) (\<lambda>s2.
     rbind (alloc_cpu_state s2 p) (\<lambda>s3.
     rbind (use_ctx s3 (p_vmmc c)) (\<lambda>s4.
     rbind (make_process_entry s4 p stack_top) (\<lambda>s5.
     rbind (remote_fill s5 (p_vmmc c) (stack_top - 24) [(0, arg)]) (\<lambda>s6. Inr (p, s6))))))))"

definition POPUP_STACKS :: nat where "POPUP_STACKS = 1024"
definition POPUP_STACK_SIZE :: u32 where "POPUP_STACK_SIZE = 65536"

definition set_process_popup_entry :: "tasks \<Rightarrow> u32 \<Rightarrow> u32 \<Rightarrow> tasks outcome" where
  "set_process_popup_entry s proc func =
     rbind (pupd s proc (\<lambda>x. x\<lparr>p_popup_entry := func\<rparr>)) (\<lambda>s1.
     rbind (pget s1 proc) (\<lambda>x.
       if p_popup_stack_mask x = 0 then
         rbind (t_kmalloc s1 132) (\<lambda>(a, s2).
           pupd (s2\<lparr>masks := (masks s2)(a \<mapsto> (1, replicate (POPUP_STACKS div LONG_BIT) 0))\<rparr>) proc
             (\<lambda>x. x\<lparr>p_popup_stack_mask := a\<rparr>))
       else Inr s1))"

text \<open>\<open>popup\<close>: a thread in another process for a function call from outside; the first result is the
  process number or the negated error.\<close>

definition popup :: "tasks \<Rightarrow> u32 \<Rightarrow> u32 option \<Rightarrow> bool \<Rightarrow> (int \<times> tasks) outcome" where
  "popup s proc len zombify =
     rbind (pget s proc) (\<lambda>x.
       if p_popup_stack_mask x = 0 then Inr (-22, s)
       else
         case masks s (p_popup_stack_mask x) of
           None \<Rightarrow> Inl BadPointer
         | Some (n, m) \<Rightarrow>
             (case mask_claim m 0 of
                None \<Rightarrow> Inr (-11, s)
              | Some (k, m') \<Rightarrow>
                  let s1 = s\<lparr>masks := (masks s)(p_popup_stack_mask x \<mapsto> (n, m'))\<rparr>;
                      tls = 0xE0000000 + of_nat k * POPUP_STACK_SIZE - 20
                  in
                  rbind (pget s1 (current_process s1)) (\<lambda>cur.
                  rbind (new_process s1 (\<lambda>y. y\<lparr>p_pgid := p_pgid x, p_ppid := p_pid cur, p_tls := tls,
                           p_name := ''[popup]'', p_popup_stack_index := int k - 1,
                           p_popup_zombify := zombify, p_vmmc := p_vmmc x\<rparr>)) (\<lambda>(pop, s2).
                  rbind (pget s2 pop) (\<lambda>y.
                  rbind (remote_fill s2 (p_vmmc x) tls
                     [(TLS_ABSOLUTE, tls), (TLS_ERRNO, 0), (TLS_PID, of_int (p_pid y)),
                      (TLS_PGID, of_int (p_pgid y)), (TLS_PPID, of_int (p_ppid y))]) (\<lambda>s3.
                  rbind (alloc_cpu_state s3 pop) (\<lambda>s4.
                  rbind (case len of
                           None \<Rightarrow> Inr s4
                         | Some l \<Rightarrow>
                             rbind (t_kmalloc s4 l) (\<lambda>(b, s5). pupd s5 pop (\<lambda>y. y\<lparr>p_popup_tmp := b, p_popup_tmp_sz := l\<rparr>))) (\<lambda>s5.
                  rbind (use_ctx s5 (p_vmmc x)) (\<lambda>s6.
                  rbind (register_process s6 pop) (\<lambda>s7.
                  rbind (pupd s7 pop (\<lambda>y. y\<lparr>p_status := PROCESS_ACTIVE\<rparr>)) (\<lambda>s8.
                    Inr (p_pid y, s8)))))))))))) "

definition is_popup :: "process \<Rightarrow> bool" where
  "is_popup x \<longleftrightarrow> p_popup_stack_index x \<ge> 0"

text \<open>The memory part of \<open>fork\<close>: clone the address space, then write the child's numbers into its
  thread-local block.\<close>

definition fork_memory :: "tasks \<Rightarrow> u32 \<Rightarrow> u32 \<Rightarrow> u32 \<Rightarrow> process \<Rightarrow> tasks outcome" where
  "fork_memory s child_vmmc parent_vmmc tls x =
     rbind (cget s child_vmmc) (\<lambda>dest.
     rbind (cget s parent_vmmc) (\<lambda>source.
     rbind (vmmc_clone (vs_vm (mem s)) dest source) (\<lambda>(v, dest', source').
       remote_fill (put_memory (put_memory s parent_vmmc v source') child_vmmc v dest') child_vmmc tls
          [(TLS_PID, of_int (p_pid x)), (TLS_PGID, of_int (p_pgid x)), (TLS_PPID, of_int (p_ppid x))])))"

definition fork :: "tasks \<Rightarrow> (int \<times> tasks) outcome" where
  "fork s =
     rbind (pget s (current_process s)) (\<lambda>c.
     rbind (create_empty_process s (p_name c)) (\<lambda>(child, s1).
     rbind (if p_popup_entry c \<noteq> 0 then set_process_popup_entry s1 child (p_popup_entry c) else Inr s1) (\<lambda>s2.
     rbind (pupd s2 child (\<lambda>x. x\<lparr>p_tls := p_tls c, p_irq_stack_top := p_irq_stack_top c\<rparr>)) (\<lambda>s3.
     rbind (pget s3 child) (\<lambda>x.
     rbind (fork_memory s3 (p_vmmc x) (p_vmmc c) (p_tls x) x) (\<lambda>s4.
     rbind (register_process s4 child) (\<lambda>s5.
     rbind (pupd s5 child (\<lambda>x. x\<lparr>p_status := PROCESS_ACTIVE\<rparr>)) (\<lambda>s6. Inr (p_pid x, s6)))))))))"

subsection \<open>Forking and the thread-local block\<close>

lemma vmmc_do_lazy_map_present:
  assumes "ctx_inv v c" "present (entry v c (vpn addr))"
  shows "vmmc_do_lazy_map v c addr = Inr (False, v, c)"
proof -
  let ?pde = "pd c ! pdi_of addr"
  have len: "length (pd c) = 1024" "length (vm_frame v a) = 1024" for a
    using assms(1) by (auto simp: ctx_inv_def vm_inv_def)
  have p: "present ?pde" "vm_frame v (frame_of ?pde) ! pti_of addr = entry v c (vpn addr)"
    using assms(2) by (auto simp: entry_def Let_def pdi_of_vpn pti_of_vpn entry_bits split: if_splits)
  have "entry v c (vpn addr) AND (MAP_PR OR MAP_US) \<noteq> MAP_US"
  proof
    assume "entry v c (vpn addr) AND (MAP_PR OR MAP_US) = MAP_US"
    then have "bit (entry v c (vpn addr) AND (MAP_PR OR MAP_US)) 0 = bit MAP_US 0" by (rule arg_cong)
    with assms(2) show False by (simp add: entry_bits)
  qed
  then show ?thesis
    using len p by (simp add: vmmc_do_lazy_map_def lazy_table_def pt_get_def Let_def)
qed

lemma data_store_ctx:
  assumes "ctx_inv v c" "\<not> is_table c b" "vm_inv v'" "vm_pmm v' = vm_pmm v" "\<And>a. a \<noteq> b \<Longrightarrow> vm_frame v' a = vm_frame v a"
  shows "ctx_inv v' c" "n < USER_PAGES \<Longrightarrow> entry v' c n = entry v c n"
proof -
  show "ctx_inv v' c" by (rule ctx_inv_change [OF assms(1,3)]) (use ctx_inv_used [OF assms(1)] assms(4) in simp)
  show "n < USER_PAGES \<Longrightarrow> entry v' c n = entry v c n" by (rule entry_cong) (use assms(2,5) in metis)
qed

text \<open>Storing three words into one frame, as \<open>remote_fill\<close> does for the numbers of a child.\<close>

lemma three_stores:
  assumes inv: "vm_inv v" and room: "unat (a AND 0xFFF) div 4 + 3 < 1024"
  obtains v' where "rfold (\<lambda>v (k, w). frame_store v a k w) v [(1, x), (2, y), (3, z)] = Inr v'"
    "vm_inv v'" "vm_pmm v' = vm_pmm v" "\<forall>b. b \<noteq> frame_of a \<longrightarrow> vm_frame v' b = vm_frame v b"
    "vm_frame v' (frame_of a) ! (unat (a AND 0xFFF) div 4 + 1) = x"
proof -
  let ?i = "unat (a AND 0xFFF) div 4"
  have l: "length (vm_frame v (frame_of a)) = 1024" using inv by (simp add: vm_inv_def)
  define f where "f = (vm_frame v (frame_of a))[?i + 1 := x, ?i + 2 := y, ?i + 3 := z]"
  let ?v' = "v\<lparr>vm_frame := (vm_frame v)(frame_of a := f)\<rparr>"
  show thesis
  proof (rule that)
    show "rfold (\<lambda>v (k, w). frame_store v a k w) v [(1, x), (2, y), (3, z)] = Inr ?v'"
      using room l by (simp add: frame_store_def f_def)
    show "vm_inv ?v'" using inv l by (simp add: vm_inv_def f_def)
    show "vm_frame ?v' (frame_of a) ! (?i + 1) = x" using room l by (simp add: f_def)
  qed simp_all
qed

lemma bit_FFF: "bit (0xFFF :: u32) n \<longleftrightarrow> n < 12"
proof -
  have "(0xFFF :: u32) = mask 12" by (simp add: mask_eq_exp_minus_1)
  then show ?thesis by (simp only: bit_mask_iff) auto
qed

lemma tls_word_address:
  assumes "tls AND 3 = 0" "unat (tls AND 0xFFF) + 20 \<le> 4096"
  shows "vpn (tls + 4) = vpn tls" "unat ((tls + 4) AND 0xFFF) div 4 = unat (tls AND 0xFFF) div 4 + 1"
    "frame_of (frame_of e OR (a AND 0xFFF)) = frame_of e" "(frame_of e OR (a AND 0xFFF)) AND 0xFFF = a AND 0xFFF"
proof -
  let ?b = "tls AND NOT 0xFFF" and ?o = "unat (tls AND 0xFFF)"
  have b: "page_aligned ?b" by (rule page_aligned_and_not)
  have "tls = ?b + (tls AND 0xFFF)" using and_not_FFF [of tls] and_FFF [of tls] by simp
  then have t: "tls = ?b + of_nat ?o" by simp
  then have "tls + 4 = ?b + of_nat ?o + 4" by (rule arg_cong)
  then have t4: "tls + 4 = ?b + of_nat (?o + 4)" by simp
  have "vpn tls = vpn ?b" using vpn_in_page(1) [OF b, of ?o] assms(2) t by simp
  moreover have "vpn (tls + 4) = vpn ?b" unfolding t4 using assms(2) by (intro vpn_in_page(1) [OF b]) simp
  ultimately show "vpn (tls + 4) = vpn tls" by simp
  have m: "unat (x AND 0xFFF) = unat x mod 4096" for x :: u32
    using unat_and_mask [of x 12] by (simp add: mask_eq_exp_minus_1)
  have "unat (tls + 4) mod 4096 = ?o + 4"
  proof -
    have "unat (tls + 4) mod 4096 = (unat tls + 4) mod 4096"
      by (simp add: unat_word_ariths mod_mod_cancel)
    also have "\<dots> = (?o + 4) mod 4096" unfolding m by (simp add: mod_add_left_eq)
    finally show ?thesis using assms(2) by simp
  qed
  then show "unat ((tls + 4) AND 0xFFF) div 4 = ?o div 4 + 1" unfolding m [of "tls + 4"] by simp
  show "frame_of (frame_of e OR (a AND 0xFFF)) = frame_of e"
    by (rule bit_word_eqI) (simp only: bit_frame_of bit_or_iff bit_and_iff bit_FFF, auto)
  show "(frame_of e OR (a AND 0xFFF)) AND 0xFFF = a AND 0xFFF"
    by (rule bit_word_eqI) (simp only: bit_frame_of bit_or_iff bit_and_iff bit_FFF, auto)
qed

text \<open>after \<open>fork\<close> the parent finds the child's process number in its own thread-local block: the
  block's page is shared copy-on-write at that point, and \<open>fork\<close> writes the child's numbers through
  a kernel mapping of the shared frame.
\<close>

theorem fork_overwrites_parent_tls:
  assumes parts: "ctxs s child_vmmc = Some dest" "ctxs s parent_vmmc = Some source" "child_vmmc \<noteq> parent_vmmc"
    and inv: "ctx_inv (vs_vm (mem s)) source" "ctx_inv (vs_vm (mem s)) dest" "\<forall>a. \<not> is_table dest a"
    and tls: "\<not> IS_KERNEL tls" "tls AND 3 = 0" "unat (tls AND 0xFFF) + 20 \<le> 4096"
    and e: "e = entry (vs_vm (mem s)) source (vpn tls)" "present e" "\<not> is_table source (frame_of e)"
    and clone: "vmmc_clone (vs_vm (mem s)) dest source = Inr (v, d, src)"
  shows "\<exists>s'. fork_memory s child_vmmc parent_vmmc tls x = Inr s'
    \<and> remote_load s' parent_vmmc tls TLS_PID = Inr (of_int (p_pid x))"
proof -
  let ?v = "vs_vm (mem s)"
  note c = vmmc_clone_ok [OF inv(1,2,3) clone]
  have vp: "vpn tls < USER_PAGES" using tls(1) by (simp add: user_pages(1))
  have es: "entry v source (vpn tls) = clone_src e" and ed: "entry v d (vpn tls) = clone_dst e"
    using c vp e(1) by auto
  have fd: "frame_of (clone_dst e) = frame_of e" "present (clone_dst e)"
    "frame_of (clone_src e) = frame_of e" "present (clone_src e)"
  proof -
    show "frame_of (clone_dst e) = frame_of e" using e(2) by (simp add: clone_dst_def frame_of_or)
    show "present (clone_dst e)" using e(2) by (simp add: clone_dst_def entry_bits)
    have nb: "bit (NOT MAP_RW) n \<longleftrightarrow> n \<noteq> 1" if "n < 32" for n using that by (simp add: bit_not_iff bit_flag_consts)
    show "frame_of (clone_src e) = frame_of e"
      using e(2) by (intro bit_word_eqI) (auto simp: clone_src_def bit_frame_of bit_and_iff nb)
    show "present (clone_src e)" using e(2) nb [of 0] by (simp add: clone_src_def flag_bits(1) bit_and_iff)
  qed
  have invd: "ctx_inv v d" and invs: "ctx_inv v source" and src: "src = source" using c by auto
  have lz: "vmmc_do_lazy_map v d tls = Inr (False, v, d)"
    by (rule vmmc_do_lazy_map_present [OF invd]) (simp add: ed fd)
  have am: "vmmc_address_mapped v d tls = Inr (access_flags (clone_dst e), Some (frame_of e OR (tls AND 0xFFF)))"
    using vmmc_address_mapped_entry [OF invd, of tls] by (simp add: ed fd Let_def)
  let ?a = "frame_of e OR (tls AND 0xFFF)"
  note tw = tls_word_address [OF tls(2,3)]
  have "unat (?a AND 0xFFF) div 4 + 3 < 1024" unfolding tw(4) using tls(3) by linarith
  from three_stores [OF ctx_inv_vm [OF invd] this, of "of_int (p_pid x)" "of_int (p_pgid x)" "of_int (p_ppid x)"]
  obtain v' where st: "rfold (\<lambda>v (k, w). frame_store v ?a k w) v
      [(1, of_int (p_pid x)), (2, of_int (p_pgid x)), (3, of_int (p_ppid x))] = Inr v'"
    and ts: "vm_inv v'" "vm_pmm v' = vm_pmm v" "\<forall>b. b \<noteq> frame_of e \<longrightarrow> vm_frame v' b = vm_frame v b"
      "vm_frame v' (frame_of e) ! (unat (tls AND 0xFFF) div 4 + 1) = of_int (p_pid x)"
    unfolding tw(3,4) by blast
  have "access_flags (clone_dst e) \<noteq> 0" by (rule access_flags_nonzero) 
  then obtain s' where run: "fork_memory s child_vmmc parent_vmmc tls x = Inr s'"
    and s': "vs_vm (mem s') = v'" "ctxs s' parent_vmmc = Some source"
    using lz am st parts clone
    by (simp del: rfold.simps add: fork_memory_def remote_fill_def put_memory_def cget_def src tls_words)
  have inv': "ctx_inv v' source" "entry v' source (vpn tls) = clone_src e"
    using data_store_ctx [OF invs e(3) ts(1,2)] ts(3) vp es by auto
  have "vmmc_address_mapped v' source (tls + 4) = Inr (access_flags (clone_src e), Some (frame_of e OR ((tls + 4) AND 0xFFF)))"
    using vmmc_address_mapped_entry [OF inv'(1), of "tls + 4"] inv'(2) tls_word_address(1) [OF tls(2,3)]
    by (simp add: fd Let_def)
  moreover have "unat ((frame_of e OR ((tls + 4) AND 0xFFF)) AND 0xFFF) div 4 = unat (tls AND 0xFFF) div 4 + 1"
    using tls_word_address(2,4) [OF tls(2,3)] by metis
  moreover have "unat (tls AND 0xFFF) div 4 + 1 < length (vm_frame v' (frame_of e))"
    using ts(1) tls(3) by (simp add: vm_inv_def)
  ultimately show ?thesis
    using run s' ts(4) tls_word_address(3) [OF tls(2,3)] access_flags_nonzero
    by (simp add: remote_load_def cget_def TLS_PID_def)
qed

definition demo_tasks :: tasks where
  "demo_tasks = \<lparr>procs = Map.empty, current_process = 0, idle_process = 0, runqueue = 0, daemons = 0, zombies = 0,
     dead = 0, used_pids = [], masks = Map.empty, prms = Map.empty,
     ctxs = [0xF0001000 \<mapsto> demo_ctx, 0xF0002000 \<mapsto> demo_cow_ctx], kernel_context = 0, kpd = [],
     mem = demo_vmem, handlers = [], unsettled_procs = [], disabled_status = []\<rparr>"

theorem fork_overwrites_parent_tls_witness:
  "\<exists>s'. fork_memory demo_tasks 0xF0001000 0xF0002000 0x1000 (null_process\<lparr>p_pid := 7\<rparr>) = Inr s'
     \<and> remote_load s' 0xF0002000 0x1000 TLS_PID = Inr 7"
proof -
  have inv: "ctx_inv demo_cow_vm demo_ctx"
    using demo_cow_inv demo_ctx_inv demo_ctx_empty by (auto simp: ctx_inv_def is_table_def)
  obtain v d where c: "vmmc_clone demo_cow_vm demo_ctx demo_cow_ctx = Inr (v, d, demo_cow_ctx)"
    using demo_clone by blast
  have vp: "vpn 0x1000 = 1" by (simp add: vpn_def)
  have "\<not> is_table demo_cow_ctx (frame_of 0x101005)"
    by (simp add: is_table_def demo_cow_table demo_cow_frame)
  moreover have "present 0x101005" by (simp add: flag_bits(1))
  ultimately show ?thesis
    using fork_overwrites_parent_tls [of demo_tasks "0xF0001000" demo_ctx "0xF0002000" demo_cow_ctx "0x1000" "0x101005"
        v d demo_cow_ctx "null_process\<lparr>p_pid := 7\<rparr>"] demo_cow_inv inv demo_ctx_empty c
    by (simp del: One_nat_def add: demo_tasks_def demo_cow_entry vp IS_KERNEL_def PHYS_BASE_def)
qed

end
