(* ===== verification/Exit.thy ===== *)
theory Exit
  imports Tasks
begin

text \<open>
  The end of a process as seen on the process lists: \<open>destroy_process\<close> moves a process of the run
  queue to the zombies and hands its children to its parent; a daemon destroyed the same way stays
  in the list of daemons, whose tail is then that of the zombies; \<open>raw_waitpid\<close> takes a zombie off the
  list and gives its exit information and its process number back.
\<close>

subsection \<open>The lists of a state\<close>

text \<open>The lists as sequences of addresses. The run queue has a link field of its own, the other three
  share one.\<close>

definition lists :: "tasks \<Rightarrow> u32 list \<Rightarrow> u32 list \<Rightarrow> u32 list \<Rightarrow> bool" where
  "lists s rq ds zs \<longleftrightarrow>
     chain p_rq_next (procs s) (runqueue s) rq \<and> distinct rq \<and> length rq \<le> MAX_PID_COUNT
     \<and> chain p_next (procs s) (daemons s) ds \<and> chain p_next (procs s) (zombies s) zs
     \<and> distinct (ds @ zs) \<and> length (ds @ zs) \<le> MAX_PID_COUNT"

lemma find_unique:
  "c \<in> set xs \<Longrightarrow> P c \<Longrightarrow> \<forall>a \<in> set xs. P a \<longrightarrow> c = a \<Longrightarrow> List.find P xs = Some c"
proof (induction xs)
  case (Cons b xs)
  show ?case
  proof (cases "P b")
    case True
    with Cons.prems(3) have "c = b" by simp
    with True show ?thesis by simp
  next
    case False
    then have "c \<noteq> b" using Cons.prems(2) by blast
    then have "c \<in> set xs" using Cons.prems(1) by simp
    moreover have "\<forall>a \<in> set xs. P a \<longrightarrow> c = a" using Cons.prems(3) by simp
    ultimately have "List.find P xs = Some c" using Cons.IH Cons.prems(2) by blast
    with False show ?thesis by simp
  qed
qed simp

lemma lists_in_store: "lists s rq ds zs \<Longrightarrow> a \<in> set (rq @ ds @ zs) \<Longrightarrow> \<exists>x. procs s a = Some x"
  using rq.chain_in_store pq.chain_in_store unfolding lists_def set_append by (metis UnE)

text \<open>What stores to user memory leave alone: everything but the memory and the address spaces.\<close>

definition same_tasks :: "tasks \<Rightarrow> tasks \<Rightarrow> bool" where
  "same_tasks s s' \<longleftrightarrow> s'\<lparr>mem := mem s, ctxs := ctxs s\<rparr> = s"

lemma same_tasks_fields:
  assumes "same_tasks s s'"
  shows "procs s' = procs s" "runqueue s' = runqueue s" "daemons s' = daemons s" "zombies s' = zombies s"
    "current_process s' = current_process s" "handlers s' = handlers s" "used_pids s' = used_pids s"
proof -
  have e: "s = s'\<lparr>mem := mem s, ctxs := ctxs s\<rparr>" using assms by (simp add: same_tasks_def)
  show "procs s' = procs s" "runqueue s' = runqueue s" "daemons s' = daemons s" "zombies s' = zombies s"
    "current_process s' = current_process s" "handlers s' = handlers s" "used_pids s' = used_pids s"
    by (subst e, simp)+
qed

lemma same_tasks_refl [simp]: "same_tasks s s" by (simp add: same_tasks_def)

lemma same_tasks_put [simp]: "same_tasks s (put_memory s a v c)" "same_tasks s (s\<lparr>mem := m\<rparr>)"
  by (simp_all add: same_tasks_def put_memory_def)

lemma same_tasks_trans: "same_tasks s t \<Longrightarrow> same_tasks t u \<Longrightarrow> same_tasks s u"
  by (cases s; cases t; cases u) (simp add: same_tasks_def)

lemma handle_pagefault_same: "handle_pagefault s a w = Inr (ok, s') \<Longrightarrow> same_tasks s s'"
  by (auto simp: handle_pagefault_def outcome_simps split: if_splits)

lemma user_store_same: "user_store s a k w = Inr s' \<Longrightarrow> same_tasks s s'"
  using handle_pagefault_same same_tasks_trans same_tasks_put(2)
  by (fastforce simp: user_store_def outcome_simps split: if_splits option.splits)

subsection \<open>Orphans\<close>

definition reparent :: "int \<Rightarrow> int \<Rightarrow> process \<Rightarrow> process" where
  "reparent pid ppid x = (if p_ppid x = pid then x\<lparr>p_ppid := ppid\<rparr> else x)"

definition reparent_on :: "u32 set \<Rightarrow> int \<Rightarrow> int \<Rightarrow> pstore \<Rightarrow> pstore" where
  "reparent_on A pid ppid st = (\<lambda>a. if a \<in> A then map_option (reparent pid ppid) (st a) else st a)"

lemma reparent_links [simp]:
  "p_next (reparent i j x) = p_next x" "p_rq_next (reparent i j x) = p_rq_next x" "p_pid (reparent i j x) = p_pid x"
  "reparent i j (reparent i j x) = reparent i j x"
  by (simp_all add: reparent_def)

lemma reparent_on_twice: "reparent_on B i j (reparent_on A i j st) = reparent_on (A \<union> B) i j st"
  by (rule ext) (auto simp: reparent_on_def option.map_comp comp_def)

lemma adopt_if_child_procs:
  assumes "adopt_if_child x s c = Inr s'"
  shows "procs s' = reparent_on {c} (p_pid x) (p_ppid x) (procs s)"
    and "s'\<lparr>procs := procs s, mem := mem s, ctxs := ctxs s\<rparr> = s"
proof -
  obtain y where y: "procs s c = Some y"
    using assms by (auto simp: adopt_if_child_def pget_def pderef_def outcome_simps split: option.splits)
  have "procs s' = reparent_on {c} (p_pid x) (p_ppid x) (procs s) \<and> s'\<lparr>procs := procs s, mem := mem s, ctxs := ctxs s\<rparr> = s"
  proof (cases "p_ppid y = p_pid x")
    case False
    with assms y have "s' = s" by (simp add: adopt_if_child_def pget_def pderef_def)
    moreover have "reparent_on {c} (p_pid x) (p_ppid x) (procs s) = procs s"
      using y False by (auto simp: reparent_on_def reparent_def)
    ultimately show ?thesis by simp
  next
    case True
    let ?s1 = "pset s c (y\<lparr>p_ppid := p_ppid x\<rparr>)"
    have "user_store ?s1 (p_tls y) TLS_PPID (of_int (p_ppid x)) = Inr s'"
      using assms y True by (simp add: adopt_if_child_def adopt_def pupd_def pget_def pderef_def pset_def)
    from user_store_same [OF this] have "s'\<lparr>mem := mem ?s1, ctxs := ctxs ?s1\<rparr> = ?s1" by (simp add: same_tasks_def)
    then have e: "s'\<lparr>mem := mem s, ctxs := ctxs s\<rparr> = ?s1" by (simp add: pset_def)
    have "procs s' = procs (s'\<lparr>mem := mem s, ctxs := ctxs s\<rparr>)" by simp
    then have "procs s' = (procs s)(c \<mapsto> y\<lparr>p_ppid := p_ppid x\<rparr>)" unfolding e by (simp add: pset_def)
    moreover have "s'\<lparr>procs := procs s, mem := mem s, ctxs := ctxs s\<rparr> = (s'\<lparr>mem := mem s, ctxs := ctxs s\<rparr>)\<lparr>procs := procs s\<rparr>"
      by simp
    then have "s'\<lparr>procs := procs s, mem := mem s, ctxs := ctxs s\<rparr> = s" unfolding e by (simp add: pset_def)
    ultimately show ?thesis using y True by (auto simp: reparent_on_def reparent_def)
  qed
  then show "procs s' = reparent_on {c} (p_pid x) (p_ppid x) (procs s)"
    "s'\<lparr>procs := procs s, mem := mem s, ctxs := ctxs s\<rparr> = s" by blast+
qed

text \<open>What the adoption of orphans leaves alone, and what it does to the processes of the lists.\<close>

definition only_procs :: "tasks \<Rightarrow> tasks \<Rightarrow> bool" where
  "only_procs s s' \<longleftrightarrow> s'\<lparr>procs := procs s, mem := mem s, ctxs := ctxs s\<rparr> = s"

lemma only_procs_fields:
  assumes "only_procs s s'"
  shows "runqueue s' = runqueue s" "daemons s' = daemons s" "zombies s' = zombies s"
    "current_process s' = current_process s" "handlers s' = handlers s" "used_pids s' = used_pids s" "dead s' = dead s"
proof -
  have e: "s = s'\<lparr>procs := procs s, mem := mem s, ctxs := ctxs s\<rparr>" using assms by (simp add: only_procs_def)
  show "runqueue s' = runqueue s" "daemons s' = daemons s" "zombies s' = zombies s"
    "current_process s' = current_process s" "handlers s' = handlers s" "used_pids s' = used_pids s" "dead s' = dead s"
    by (subst e, simp)+
qed

lemma only_procs_trans: "only_procs s t \<Longrightarrow> only_procs t u \<Longrightarrow> only_procs s u"
  by (cases s; cases t; cases u) (simp add: only_procs_def)

lemma each_adopt:
  assumes "link_field nx upd" "\<And>i j x. nx (reparent i j x) = nx x"
    and "each nx n (adopt_if_child x) s p = Inr s'" "chain nx (procs s) p as"
  shows "procs s' = reparent_on (set as) (p_pid x) (p_ppid x) (procs s)" "only_procs s s'"
proof -
  have "procs s' = reparent_on (set as) (p_pid x) (p_ppid x) (procs s) \<and> only_procs s s'"
    using assms(3,4)
  proof (induction as arbitrary: n s p)
    case Nil
    then have "s' = s" by (cases n) auto
    then show ?case by (simp add: reparent_on_def only_procs_def)
  next
    case (Cons a as)
    from Cons.prems(2) obtain y where y: "procs s a = Some y" "p = a" "a \<noteq> 0" "chain nx (procs s) (nx y) as"
      by (auto split: option.splits)
    from Cons.prems(1) y obtain m s1 z where s1: "n = Suc m" "adopt_if_child x s a = Inr s1" "procs s1 a = Some z"
        "each nx m (adopt_if_child x) s1 (nx z) = Inr s'"
      by (cases n) (auto simp: outcome_simps pget_def pderef_def split: option.splits)
    note ad = adopt_if_child_procs [OF s1(2)]
    have z: "nx z = nx y" using s1(3) y(1) assms(2) unfolding ad(1) by (auto simp: reparent_on_def)
    have "chain nx (procs s1) (nx y) as"
      using y(4) assms(2) unfolding ad(1)
      by (intro link_field.chain_cong [OF assms(1) _ y(4)]) (auto simp: reparent_on_def option.map_comp comp_def)
    with Cons.IH s1(4) z have "procs s' = reparent_on (set as) (p_pid x) (p_ppid x) (procs s1)" "only_procs s1 s'"
      by auto
    then show ?case using ad(2) only_procs_trans [of s s1 s']
      by (auto simp: ad(1) reparent_on_twice only_procs_def)
  qed
  then show "procs s' = reparent_on (set as) (p_pid x) (p_ppid x) (procs s)" "only_procs s s'" by blast+
qed

lemma reparent_chain:
  "chain p_next st p as \<Longrightarrow> chain p_next (reparent_on A i j st) p as"
  "chain p_rq_next st p as \<Longrightarrow> chain p_rq_next (reparent_on A i j st) p as"
  by (rule pq.chain_cong rq.chain_cong; auto simp: reparent_on_def option.map_comp comp_def)+

lemma adopt_orphans_procs:
  assumes "lists s rq ds zs" "procs s parent = Some x" "adopt_orphans s parent = Inr s'"
  shows "procs s' = reparent_on (set rq \<union> set ds \<union> set zs) (p_pid x) (p_ppid x) (procs s)" "only_procs s s'"
    "lists s' rq ds zs"
proof -
  from assms(2,3) obtain s1 s2 where r: "each p_rq_next MAX_PID_COUNT (adopt_if_child x) s (runqueue s) = Inr s1"
      "each p_next MAX_PID_COUNT (adopt_if_child x) s1 (daemons s1) = Inr s2"
      "each p_next MAX_PID_COUNT (adopt_if_child x) s2 (zombies s2) = Inr s'"
    by (auto simp: adopt_orphans_def pget_def pderef_def outcome_simps)
  have ch: "chain p_rq_next (procs s) (runqueue s) rq" "chain p_next (procs s) (daemons s) ds"
      "chain p_next (procs s) (zombies s) zs"
    using assms(1) by (auto simp: lists_def)
  note e1 = each_adopt [OF rq.link_field_axioms _ r(1) ch(1), simplified]
  have "chain p_next (procs s1) (daemons s1) ds"
    using ch(2) e1 only_procs_fields(2) [OF e1(2)] by (simp add: reparent_chain)
  note e2 = each_adopt [OF pq.link_field_axioms _ r(2) this, simplified]
  have "chain p_next (procs s2) (zombies s2) zs"
    using ch(3) e1 e2 only_procs_fields(3) [OF e1(2)] only_procs_fields(3) [OF e2(2)] by (simp add: reparent_chain)
  note e3 = each_adopt [OF pq.link_field_axioms _ r(3) this, simplified]
  show pr: "procs s' = reparent_on (set rq \<union> set ds \<union> set zs) (p_pid x) (p_ppid x) (procs s)"
    using e1(1) e2(1) e3(1) by (simp add: reparent_on_twice Un_assoc)
  show op: "only_procs s s'" using e1(2) e2(2) e3(2) only_procs_trans by blast
  show "lists s' rq ds zs"
    using assms(1) only_procs_fields [OF op] by (simp add: lists_def pr reparent_chain)
qed

context link_field
begin

text \<open>Redirecting the link of a member cuts the list there and continues with the list behind the new
  link.\<close>

lemma chain_redirect:
  assumes "chain nx st p (bs @ proc # cs)" "distinct (bs @ proc # cs)" "st proc = Some x"
    and "chain nx st h zs" "proc \<notin> set zs"
  shows "chain nx (st(proc \<mapsto> upd h x)) p (bs @ proc # zs)"
  using assms
proof (induction bs arbitrary: p)
  case Nil
  then show ?case using chain_outside [of proc zs st h] by (simp del: fun_upd_apply add: fun_upd_same)
next
  case (Cons b bs)
  then show ?case by (auto split: option.splits)
qed

end

subsection \<open>Destroying a process\<close>

lemma t_kfree_only: "t_kfree s a = Inr s' \<Longrightarrow> same_tasks s s'"
  by (auto simp: t_kfree_def outcome_simps)

lemma rfold_t_kfree: "rfold t_kfree s as = Inr s' \<Longrightarrow> same_tasks s s'"
  by (induction as arbitrary: s) (auto simp: outcome_simps intro: same_tasks_trans dest: t_kfree_only)

lemma irq_settled_only:
  assumes "irq_settled s i = Inr s'"
  shows "procs s' = procs s" "runqueue s' = runqueue s" "daemons s' = daemons s" "zombies s' = zombies s"
    "handlers s' = handlers s" "mem s' = mem s"
  using assms by (auto simp: irq_settled_def irq_assert_def irq_sub_def enable_irq_def Let_def outcome_simps split: if_splits)

text \<open>A process that gives up its interrupt keeps its place in the lists.\<close>

definition quit_irq :: "tasks \<Rightarrow> u32 \<Rightarrow> process \<Rightarrow> tasks outcome" where
  "quit_irq s proc x =
     (if p_handled_irq x \<ge> 0 then
        rbind (if p_status x = PROCESS_ACTIVE \<and> p_handling_irq x
               then irq_settled s (nat (p_handled_irq x)) else Inr s) (\<lambda>s1.
          unregister_isr_process s1 proc)
      else Inr s)"

lemma unregister_isr_process_lists:
  assumes "unregister_isr_process s proc = Inr s'" "procs s proc = Some x"
  shows "procs s' = (procs s)(proc \<mapsto> x\<lparr>p_handled_irq := -1\<rparr>)" "runqueue s' = runqueue s" "daemons s' = daemons s"
    "zombies s' = zombies s"
proof -
  let ?r = "map (isr_remove proc) (handlers s)"
  from assms(1) obtain s1 where s1: "rfold t_kfree (s\<lparr>handlers := map fst ?r\<rparr>) (concat (map snd ?r)) = Inr s1"
      "pupd s1 proc (\<lambda>x. x\<lparr>p_handled_irq := -1\<rparr>) = Inr s'"
    by (auto simp: unregister_isr_process_def Let_def outcome_simps)
  note f = same_tasks_fields [OF rfold_t_kfree [OF s1(1)]]
  from s1(2) f assms(2) have "s' = pset s1 proc (x\<lparr>p_handled_irq := -1\<rparr>)"
    by (simp add: pupd_def pget_def pderef_def)
  with f show "procs s' = (procs s)(proc \<mapsto> x\<lparr>p_handled_irq := -1\<rparr>)" "runqueue s' = runqueue s" "daemons s' = daemons s"
    "zombies s' = zombies s" by (simp_all add: pset_def)
qed

lemma quit_irq_lists:
  assumes "quit_irq s proc x = Inr s'" "procs s proc = Some x"
  shows "\<exists>h. procs s' = (procs s)(proc \<mapsto> x\<lparr>p_handled_irq := h\<rparr>)"
    and "runqueue s' = runqueue s" "daemons s' = daemons s" "zombies s' = zombies s"
proof -
  have "(\<exists>h. procs s' = (procs s)(proc \<mapsto> x\<lparr>p_handled_irq := h\<rparr>)) \<and> runqueue s' = runqueue s \<and> daemons s' = daemons s
    \<and> zombies s' = zombies s"
  proof (cases "p_handled_irq x \<ge> 0")
    case False
    with assms have "s' = s" by (simp add: quit_irq_def)
    with assms(2) show ?thesis by (auto intro!: exI [of _ "p_handled_irq x"])
  next
    case True
    with assms(1) obtain s1 where s1: "(if p_status x = PROCESS_ACTIVE \<and> p_handling_irq x
          then irq_settled s (nat (p_handled_irq x)) else Inr s) = Inr s1" "unregister_isr_process s1 proc = Inr s'"
      by (auto simp: quit_irq_def outcome_simps)
    then have "procs s1 = procs s" "runqueue s1 = runqueue s" "daemons s1 = daemons s" "zombies s1 = zombies s"
      using irq_settled_only by (auto split: if_splits)
    then show ?thesis using unregister_isr_process_lists [OF s1(2), of x] assms(2) by auto
  qed
  then show "\<exists>h. procs s' = (procs s)(proc \<mapsto> x\<lparr>p_handled_irq := h\<rparr>)"
    "runqueue s' = runqueue s" "daemons s' = daemons s" "zombies s' = zombies s" by blast+
qed

lemma lists_keep_links:
  assumes "lists s rq ds zs" "procs s proc = Some x" "procs s' = (procs s)(proc \<mapsto> y)"
    and "p_next y = p_next x" "p_rq_next y = p_rq_next x"
    and "runqueue s' = runqueue s" "daemons s' = daemons s" "zombies s' = zombies s"
  shows "lists s' rq ds zs"
proof -
  have e: "map_option p_next (procs s' a) = map_option p_next (procs s a)"
    "map_option p_rq_next (procs s' a) = map_option p_rq_next (procs s a)" for a
    using assms(2-5) by auto
  show ?thesis using assms(1,6-8) e pq.chain_cong rq.chain_cong by (auto simp: lists_def)
qed

text \<open>What \<open>destroy_process\<close> does after the interrupt and the orphans are taken care of.\<close>

definition bury :: "tasks \<Rightarrow> u32 \<Rightarrow> u64 \<Rightarrow> tasks outcome" where
  "bury s proc exit_info =
     rbind (q_unregister_process s Runqueue proc) (\<lambda>s3.
     rbind (q_register_process s3 Zombies proc) (\<lambda>s4.
       pupd s4 proc (\<lambda>x. x\<lparr>p_exit_info := exit_info, p_status := PROCESS_ZOMBIE\<rparr>)))"

lemma destroy_process_steps:
  "destroy_process s proc e =
     rbind (pget s proc) (\<lambda>x. rbind (quit_irq s proc x) (\<lambda>s1. rbind (adopt_orphans s1 proc) (\<lambda>s2. bury s2 proc e)))"
  by (simp add: destroy_process_def quit_irq_def bury_def)

lemma bury_ok:
  assumes l: "lists s rq ds zs" and x: "procs s proc = Some x" and nz: "proc \<noteq> 0" and zs: "proc \<notin> set zs"
  shows "\<exists>s' st x'. bury s proc e = Inr s' \<and> procs s' = st(proc \<mapsto> x')
    \<and> (\<forall>a. map_option (\<lambda>y. y\<lparr>p_rq_next := 0\<rparr>) (st a) = map_option (\<lambda>y. y\<lparr>p_rq_next := 0\<rparr>) (procs s a))
    \<and> x' = x\<lparr>p_rq_next := p_rq_next x', p_next := zombies s, p_exit_info := e, p_status := PROCESS_ZOMBIE\<rparr>
    \<and> chain p_rq_next (procs s') (runqueue s') (remove1 proc rq)
    \<and> daemons s' = daemons s \<and> zombies s' = proc"
proof -
  have c: "chain p_rq_next (procs s) (runqueue s) rq" "distinct rq" "length rq \<le> MAX_PID_COUNT"
    using l by (auto simp: lists_def)
  obtain h st where u: "unlink p_rq_next set_rq_next (procs s) MAX_PID_COUNT (runqueue s) proc = Inr (h, st)"
      "chain p_rq_next st h (remove1 proc rq)"
      "st = procs s \<or> (\<exists>q\<in>set rq. \<exists>y. q \<noteq> proc \<and> procs s q = Some y \<and> st = (procs s)(q \<mapsto> set_rq_next (p_rq_next x) y))"
    using rq.unlink_chain [OF c nz x] by blast
  have stp: "st proc = Some x" using u(3) x by auto
  have same: "map_option (\<lambda>y. y\<lparr>p_rq_next := 0\<rparr>) (st a) = map_option (\<lambda>y. y\<lparr>p_rq_next := 0\<rparr>) (procs s a)" for a
    using u(3) by (auto simp: set_rq_next_def)
  let ?x' = "x\<lparr>p_next := zombies s, p_exit_info := e, p_status := PROCESS_ZOMBIE\<rparr>"
  let ?s' = "s\<lparr>procs := st(proc \<mapsto> ?x'), runqueue := h, zombies := proc\<rparr>"
  have "bury s proc e = Inr ?s'"
    using u(1) stp by (simp add: bury_def q_unregister_process_def rq_unregister_process_def q_register_process_def
        push_front_def pderef_def pupd_def pget_def pset_def set_next_def)
  moreover have "chain p_rq_next (st(proc \<mapsto> ?x')) h (remove1 proc rq)"
    by (rule rq.chain_cong [OF _ u(2)]) (use stp in auto)
  ultimately show ?thesis using same
    by (intro exI [of _ ?s'] exI [of _ st] exI [of _ ?x']) simp
qed

definition unlinked :: "process \<Rightarrow> process" where
  "unlinked y = y\<lparr>p_rq_next := 0\<rparr>"

text \<open>The state after \<open>destroy_process\<close>, before the lists linked through \<open>next\<close> are looked at.\<close>

lemma destroy_process_effect:
  assumes l: "lists s rq ds zs" and x: "procs s proc = Some x" and nz: "proc \<noteq> 0" and zs: "proc \<notin> set zs"
    and run: "destroy_process s proc e = Inr s'"
  shows "\<exists>st x' x2. procs s' = st(proc \<mapsto> x') \<and> st proc = Some x2 \<and> x' = x2\<lparr>p_next := zombies s, p_exit_info := e, p_status := PROCESS_ZOMBIE\<rparr>
    \<and> p_pid x' = p_pid x
    \<and> (\<forall>a. a \<noteq> proc \<longrightarrow> map_option unlinked (st a)
         = map_option unlinked (reparent_on (set rq \<union> set ds \<union> set zs) (p_pid x) (p_ppid x) (procs s) a))
    \<and> chain p_next st (daemons s) ds \<and> chain p_next st (zombies s) zs
    \<and> chain p_rq_next (procs s') (runqueue s') (remove1 proc rq) \<and> daemons s' = daemons s \<and> zombies s' = proc"
proof -
  from run x obtain s1 s2 where r: "quit_irq s proc x = Inr s1" "adopt_orphans s1 proc = Inr s2" "bury s2 proc e = Inr s'"
    by (auto simp: destroy_process_steps pget_def pderef_def outcome_simps)
  note q = quit_irq_lists [OF r(1) x]
  from q(1) obtain h where p1: "procs s1 = (procs s)(proc \<mapsto> x\<lparr>p_handled_irq := h\<rparr>)" by blast
  have l1: "lists s1 rq ds zs" by (rule lists_keep_links [OF l x p1]) (use q in auto)
  have x1: "procs s1 proc = Some (x\<lparr>p_handled_irq := h\<rparr>)" by (simp add: p1)
  note a = adopt_orphans_procs [OF l1 x1 r(2), simplified]
  let ?A = "set rq \<union> set ds \<union> set zs"
  obtain x2 where x2: "procs s2 proc = Some x2" "p_pid x2 = p_pid x"
    unfolding a(1) using x1 by (cases "proc \<in> ?A") (auto simp: reparent_on_def)
  obtain st x' where b: "procs s' = st(proc \<mapsto> x')"
      "\<And>a. map_option (\<lambda>y. y\<lparr>p_rq_next := 0\<rparr>) (st a) = map_option (\<lambda>y. y\<lparr>p_rq_next := 0\<rparr>) (procs s2 a)"
      "x' = x2\<lparr>p_rq_next := p_rq_next x', p_next := zombies s2, p_exit_info := e, p_status := PROCESS_ZOMBIE\<rparr>"
      "chain p_rq_next (procs s') (runqueue s') (remove1 proc rq)" "daemons s' = daemons s2" "zombies s' = proc"
    using bury_ok [OF a(3) x2(1) nz zs, of e] r(3) by auto
  obtain x3 where x3: "st proc = Some x3" "x3\<lparr>p_rq_next := 0\<rparr> = x2\<lparr>p_rq_next := 0\<rparr>"
    using b(2) [of proc] x2(1) by auto
  have f: "daemons s2 = daemons s" "zombies s2 = zombies s"
    using only_procs_fields [OF a(2)] q by simp_all
  define st' where "st' = st(proc \<mapsto> x3\<lparr>p_rq_next := p_rq_next x'\<rparr>)"
  have nx: "map_option p_next (st' c) = map_option p_next (procs s2 c)" for c
  proof -
    have "map_option (p_next \<circ> (\<lambda>y. y\<lparr>p_rq_next := 0\<rparr>)) (st c) = map_option (p_next \<circ> (\<lambda>y. y\<lparr>p_rq_next := 0\<rparr>)) (procs s2 c)"
      using arg_cong [OF b(2) [of c], of "map_option p_next"] by (simp add: option.map_comp)
    then show ?thesis using x3(1) by (auto simp: st'_def comp_def)
  qed
  have ch: "chain p_next st' (daemons s) ds" "chain p_next st' (zombies s) zs"
    using a(3) f nx pq.chain_cong [of ds st' "procs s2"] pq.chain_cong [of zs st' "procs s2"] by (auto simp: lists_def)
  have "x' = x3\<lparr>p_rq_next := p_rq_next x', p_next := zombies s, p_exit_info := e, p_status := PROCESS_ZOMBIE\<rparr>"
  proof -
    have "x2\<lparr>p_rq_next := p_rq_next x'\<rparr> = (x2\<lparr>p_rq_next := 0\<rparr>)\<lparr>p_rq_next := p_rq_next x'\<rparr>" by simp
    also have "\<dots> = x3\<lparr>p_rq_next := p_rq_next x'\<rparr>" unfolding x3(2) [symmetric] by simp
    finally show ?thesis using b(3) f(2) by simp
  qed
  moreover have "p_pid x' = p_pid x" using arg_cong [OF b(3), of p_pid] x2(2) by simp
  moreover have "map_option unlinked (st' c) = map_option unlinked (reparent_on ?A (p_pid x) (p_ppid x) (procs s) c)" if "c \<noteq> proc" for c
    using b(2) [of c] that unfolding a(1) by (simp add: st'_def unlinked_def [abs_def] reparent_on_def p1)
  ultimately show ?thesis
    using b(1,4,5,6) ch f
    by (intro exI [of _ st'] exI [of _ x'] exI [of _ "x3\<lparr>p_rq_next := p_rq_next x'\<rparr>"]) (simp add: st'_def)
qed

lemma destroy_process_facts:
  assumes "lists s rq ds zs" "procs s proc = Some x" "proc \<in> set rq" "proc \<notin> set (ds @ zs)"
    and "length (ds @ zs) < MAX_PID_COUNT" "destroy_process s proc e = Inr s'"
  shows "lists s' (remove1 proc rq) ds (proc # zs)"
    and "\<exists>x'. procs s' proc = Some x' \<and> p_status x' = PROCESS_ZOMBIE \<and> p_exit_info x' = e \<and> p_pid x' = p_pid x"
    and "\<forall>c \<in> set (rq @ ds @ zs) - {proc}. \<exists>y y'. procs s c = Some y \<and> procs s' c = Some y'
      \<and> y' = y\<lparr>p_rq_next := p_rq_next y', p_ppid := if p_ppid y = p_pid x then p_ppid x else p_ppid y\<rparr>"
proof -
  have nz: "proc \<noteq> 0" using assms(1,3) rq.chain_in_store by (auto simp: lists_def)
  obtain st x' x2 where r: "procs s' = st(proc \<mapsto> x')" "st proc = Some x2"
      "x' = x2\<lparr>p_next := zombies s, p_exit_info := e, p_status := PROCESS_ZOMBIE\<rparr>" "p_pid x' = p_pid x"
      "\<And>a. a \<noteq> proc \<Longrightarrow> map_option unlinked (st a)
         = map_option unlinked (reparent_on (set rq \<union> set ds \<union> set zs) (p_pid x) (p_ppid x) (procs s) a)"
      "chain p_next st (daemons s) ds" "chain p_next st (zombies s) zs"
      "chain p_rq_next (procs s') (runqueue s') (remove1 proc rq)" "daemons s' = daemons s" "zombies s' = proc"
    using destroy_process_effect [OF assms(1,2) nz _ assms(6)] assms(4) by auto
  have z: "chain p_next (procs s') proc (proc # zs)"
    using pq.chain_outside [of proc zs st "zombies s" "Some x'"] r(1,3,7) assms(4) nz by simp
  have d: "chain p_next (procs s') (daemons s) ds"
    using pq.chain_outside [of proc ds st "daemons s" "Some x'"] r(1,6) assms(4) by simp
  have len: "distinct (remove1 proc rq)" "length (remove1 proc rq) \<le> MAX_PID_COUNT"
    using assms(1) by (auto simp: lists_def length_remove1)
  show "lists s' (remove1 proc rq) ds (proc # zs)"
    using assms(1,4,5) r(8,9,10) z d len by (auto simp: lists_def)
  show "\<exists>x'. procs s' proc = Some x' \<and> p_status x' = PROCESS_ZOMBIE \<and> p_exit_info x' = e \<and> p_pid x' = p_pid x"
    using r(1,3,4) by simp
  show "\<forall>c \<in> set (rq @ ds @ zs) - {proc}. \<exists>y y'. procs s c = Some y \<and> procs s' c = Some y'
      \<and> y' = y\<lparr>p_rq_next := p_rq_next y', p_ppid := if p_ppid y = p_pid x then p_ppid x else p_ppid y\<rparr>"
  proof
    fix c assume c: "c \<in> set (rq @ ds @ zs) - {proc}"
    then obtain y where y: "procs s c = Some y"
      using lists_in_store [OF assms(1)] by auto
    with r(5) [of c] c obtain y' where y': "procs s' c = Some y'" "unlinked y' = unlinked (reparent (p_pid x) (p_ppid x) y)"
      by (auto simp: r(1) reparent_on_def)
    have "y' = (unlinked y')\<lparr>p_rq_next := p_rq_next y'\<rparr>" by (simp add: unlinked_def)
    also have "\<dots> = y\<lparr>p_rq_next := p_rq_next y', p_ppid := if p_ppid y = p_pid x then p_ppid x else p_ppid y\<rparr>"
      unfolding y'(2) by (simp add: unlinked_def reparent_def)
    finally show "\<exists>y y'. procs s c = Some y \<and> procs s' c = Some y'
        \<and> y' = y\<lparr>p_rq_next := p_rq_next y', p_ppid := if p_ppid y = p_pid x then p_ppid x else p_ppid y\<rparr>"
      using y y'(1) by blast
  qed
qed

text \<open>
  C9: \<open>destroy_process\<close> takes a process out of the run queue and puts it in front of the zombies with
  its exit information; the daemons stay as they are, and exactly the children of the process on the
  three lists get its parent as their new parent.
\<close>

theorem destroy_process_zombie:
  assumes "lists s rq ds zs" "procs s proc = Some x" "proc \<in> set rq" "proc \<notin> set (ds @ zs)"
    and "length (ds @ zs) < MAX_PID_COUNT" "destroy_process s proc e = Inr s'"
  shows "lists s' (remove1 proc rq) ds (proc # zs)
    \<and> (\<exists>x'. procs s' proc = Some x' \<and> p_status x' = PROCESS_ZOMBIE \<and> p_exit_info x' = e \<and> p_pid x' = p_pid x)
    \<and> (\<forall>c \<in> set (rq @ ds @ zs) - {proc}. \<exists>y y'. procs s c = Some y \<and> procs s' c = Some y'
      \<and> y' = y\<lparr>p_rq_next := p_rq_next y', p_ppid := if p_ppid y = p_pid x then p_ppid x else p_ppid y\<rparr>)"
  using destroy_process_facts [OF assms] by (intro conjI)

lemma destroy_daemon_facts:
  assumes "lists s rq (bs @ proc # cs) zs" "procs s proc = Some x" "destroy_process s proc e = Inr s'"
    and "inj_on (\<lambda>a. p_pid (the (procs s a))) (set (bs @ proc # cs @ zs))"
  shows "chain p_next (procs s') (daemons s') (bs @ proc # zs)"
    and "\<forall>c \<in> set cs. find_process_in s Daemons (p_pid (the (procs s c))) = Inr c
           \<and> find_process_in s' Daemons (p_pid (the (procs s c))) = Inr 0"
proof -
  have l: "chain p_next (procs s) (daemons s) (bs @ proc # cs)" "distinct (bs @ proc # cs)" "proc \<notin> set zs"
      "length (bs @ proc # zs) \<le> MAX_PID_COUNT" "length (bs @ proc # cs) \<le> MAX_PID_COUNT" "set cs \<inter> set zs = {}"
    using assms(1) by (auto simp: lists_def)
  have nz: "proc \<noteq> 0" using pq.chain_in_store [OF l(1), of proc] by simp
  obtain st x' x2 where r: "procs s' = st(proc \<mapsto> x')" "st proc = Some x2"
      "x' = x2\<lparr>p_next := zombies s, p_exit_info := e, p_status := PROCESS_ZOMBIE\<rparr>" "p_pid x' = p_pid x"
      "chain p_next st (daemons s) (bs @ proc # cs)" "chain p_next st (zombies s) zs" "daemons s' = daemons s"
      "\<And>a. a \<noteq> proc \<Longrightarrow> map_option unlinked (st a)
         = map_option unlinked (reparent_on (set rq \<union> set (bs @ proc # cs) \<union> set zs) (p_pid x) (p_ppid x) (procs s) a)"
    using destroy_process_effect [OF assms(1,2) nz l(3) assms(3)] by auto
  have "chain p_next (st(proc \<mapsto> set_next (zombies s) x2)) (daemons s) (bs @ proc # zs)"
    by (rule pq.chain_redirect [OF r(5) l(2) r(2,6) l(3)])
  then show ch: "chain p_next (procs s') (daemons s') (bs @ proc # zs)"
    by (intro pq.chain_cong [of _ "procs s'" "st(proc \<mapsto> set_next (zombies s) x2)"])
       (auto simp: r(1,3,7) set_next_def)
  have pid: "p_pid (the (procs s' a)) = p_pid (the (procs s a))" if "a \<in> set (bs @ proc # cs @ zs)" for a
  proof (cases "a = proc")
    case False
    from that obtain y where y: "procs s a = Some y" using lists_in_store [OF assms(1), of a] by auto
    have a: "a \<in> set rq \<union> set (bs @ proc # cs) \<union> set zs" using that by auto
    from r(8) [OF False] y a obtain y' where "st a = Some y'" "unlinked y' = unlinked (reparent (p_pid x) (p_ppid x) y)"
      unfolding reparent_on_def by auto
    from arg_cong [OF this(2), of p_pid] this(1) False y show ?thesis by (simp add: r(1) unlinked_def)
  qed (simp add: r(1,4) assms(2))
  show "\<forall>c \<in> set cs. find_process_in s Daemons (p_pid (the (procs s c))) = Inr c
           \<and> find_process_in s' Daemons (p_pid (the (procs s c))) = Inr 0"
  proof
    fix c assume c: "c \<in> set cs"
    let ?P = "\<lambda>s a. p_pid (the (procs s a)) = p_pid (the (procs s c))"
    have other: "a = c" if "a \<in> set (bs @ proc # cs @ zs)" "?P s a" for a
      using that c by (intro inj_onD [OF assms(4)]) auto
    have "List.find (?P s) (bs @ proc # cs) = Some c"
    proof (rule find_unique)
      show "\<forall>a \<in> set (bs @ proc # cs). ?P s a \<longrightarrow> c = a" using other by fastforce
    qed (use c in auto)
    moreover have "List.find (\<lambda>a. p_pid (the (procs s' a)) = p_pid (the (procs s c))) (bs @ proc # zs) = None"
    proof -
      have "c \<notin> set (bs @ proc # zs)" using c l(2,6) by auto
      then have "p_pid (the (procs s' a)) \<noteq> p_pid (the (procs s c))" if "a \<in> set (bs @ proc # zs)" for a
        using that other [of a] pid [of a] by auto
      then show ?thesis unfolding find_None_iff by blast
    qed
    ultimately show "find_process_in s Daemons (p_pid (the (procs s c))) = Inr c
        \<and> find_process_in s' Daemons (p_pid (the (procs s c))) = Inr 0"
      using pq.walk_chain [OF ch l(4), of "\<lambda>x. p_pid x = p_pid (the (procs s c))"]
        pq.walk_chain [OF l(1,5), of "\<lambda>x. p_pid x = p_pid (the (procs s c))"]
      by (simp add: find_process_in_def)
  qed
qed

text \<open>
  A daemon destroyed while it handles an interrupt stays in the list of daemons, and the list goes
  on with the zombies from there: the daemons behind it are no longer found.
\<close>

theorem destroy_daemon_corrupts:
  assumes "lists s rq (bs @ proc # cs) zs" "procs s proc = Some x" "destroy_process s proc e = Inr s'"
    and "inj_on (\<lambda>a. p_pid (the (procs s a))) (set (bs @ proc # cs @ zs))"
  shows "chain p_next (procs s') (daemons s') (bs @ proc # zs)
    \<and> (\<forall>c \<in> set cs. find_process_in s Daemons (p_pid (the (procs s c))) = Inr c
           \<and> find_process_in s' Daemons (p_pid (the (procs s c))) = Inr 0)"
  using destroy_daemon_facts [OF assms] by (intro conjI)

subsection \<open>A concrete state\<close>

text \<open>A process without children and without an interrupt is destroyed without a fault.\<close>

lemma each_childless:
  assumes "chain nx (procs s) p as" "length as \<le> n" "\<forall>a \<in> set as. p_ppid (the (procs s a)) \<noteq> p_pid x"
  shows "each nx n (adopt_if_child x) s p = Inr s"
  using assms
proof (induction as arbitrary: p n)
  case Nil
  then show ?case by (cases n) simp_all
next
  case (Cons a as)
  then obtain y m where y: "procs s a = Some y" "p = a" "a \<noteq> 0" "chain nx (procs s) (nx y) as" "n = Suc m" "length as \<le> m"
    by (cases n) (auto split: option.splits)
  have "adopt_if_child x s a = Inr s" using Cons.prems(3) y(1) by (simp add: adopt_if_child_def pget_def pderef_def)
  then show ?case using Cons.IH [OF y(4,6)] Cons.prems(3) y by (simp add: pget_def pderef_def)
qed

lemma destroy_childless:
  assumes "lists s rq ds zs" "procs s proc = Some x" "proc \<noteq> 0" "proc \<notin> set zs" "p_handled_irq x < 0"
    and "\<forall>a \<in> set (rq @ ds @ zs). p_ppid (the (procs s a)) \<noteq> p_pid x"
  shows "\<exists>s'. destroy_process s proc e = Inr s'"
proof -
  have "adopt_orphans s proc = Inr s"
    using assms(1,2,6) each_childless [of p_rq_next s "runqueue s" rq MAX_PID_COUNT x]
      each_childless [of p_next s "daemons s" ds MAX_PID_COUNT x] each_childless [of p_next s "zombies s" zs MAX_PID_COUNT x]
    by (simp add: lists_def adopt_orphans_def pget_def pderef_def)
  with assms bury_ok [OF assms(1-4), of e] show ?thesis
    by (auto simp: destroy_process_steps quit_irq_def pget_def pderef_def)
qed

definition demo_procs :: pstore where
  "demo_procs =
     [0x1000 \<mapsto> null_process\<lparr>p_pid := 1, p_handled_irq := -1\<rparr>,
      0x2000 \<mapsto> null_process\<lparr>p_pid := 2, p_ppid := 1, p_handled_irq := -1, p_rq_next := 0x1000\<rparr>,
      0x3000 \<mapsto> null_process\<lparr>p_pid := 3, p_ppid := 1, p_handled_irq := -1, p_status := PROCESS_DAEMON, p_next := 0x4000\<rparr>,
      0x4000 \<mapsto> null_process\<lparr>p_pid := 4, p_ppid := 1, p_handled_irq := -1, p_status := PROCESS_DAEMON\<rparr>,
      0x5000 \<mapsto> null_process\<lparr>p_pid := 5, p_ppid := 1, p_handled_irq := -1, p_status := PROCESS_ZOMBIE, p_exit_info := 9,
                             p_vmmc := 0xF0001000, p_kernel_stack := 0\<rparr>]"

definition demo_exit :: tasks where
  "demo_exit = demo_tasks\<lparr>procs := demo_procs, runqueue := 0x2000, daemons := 0x3000, zombies := 0x5000, used_pids := [0x1F]\<rparr>"

lemma demo_exit_lists: "lists demo_exit [0x2000, 0x1000] [0x3000, 0x4000] [0x5000]"
  by (simp add: lists_def demo_exit_def demo_procs_def null_process_def MAX_PID_COUNT_def)

theorem destroy_process_zombie_witness:
  "\<exists>s'. destroy_process demo_exit 0x2000 42 = Inr s' \<and> lists s' [0x1000] [0x3000, 0x4000] [0x2000, 0x5000]"
proof -
  have x: "procs demo_exit 0x2000 = Some (null_process\<lparr>p_pid := 2, p_ppid := 1, p_handled_irq := -1, p_rq_next := 0x1000\<rparr>)"
    by (simp add: demo_exit_def demo_procs_def)
  obtain s' where s': "destroy_process demo_exit 0x2000 42 = Inr s'"
    using destroy_childless [OF demo_exit_lists x, of 42] by (auto simp: demo_exit_def demo_procs_def null_process_def)
  have "lists s' (remove1 0x2000 [0x2000, 0x1000]) [0x3000, 0x4000] (0x2000 # [0x5000])"
    by (rule destroy_process_zombie [OF demo_exit_lists x _ _ _ s', THEN conjunct1]) (simp_all add: MAX_PID_COUNT_def)
  with s' show ?thesis by simp
qed

theorem destroy_daemon_corrupts_witness:
  "\<exists>s'. destroy_process demo_exit 0x3000 42 = Inr s' \<and> chain p_next (procs s') (daemons s') [0x3000, 0x5000]
     \<and> find_process_in demo_exit Daemons 4 = Inr 0x4000 \<and> find_process_in s' Daemons 4 = Inr 0"
proof -
  have x: "procs demo_exit 0x3000 = Some (null_process\<lparr>p_pid := 3, p_ppid := 1, p_handled_irq := -1,
      p_status := PROCESS_DAEMON, p_next := 0x4000\<rparr>)"
    by (simp add: demo_exit_def demo_procs_def)
  have l: "lists demo_exit [0x2000, 0x1000] ([] @ 0x3000 # [0x4000]) [0x5000]" using demo_exit_lists by simp
  obtain s' where s': "destroy_process demo_exit 0x3000 42 = Inr s'"
    using destroy_childless [OF demo_exit_lists x, of 42] by (auto simp: demo_exit_def demo_procs_def null_process_def)
  have inj: "inj_on (\<lambda>a. p_pid (the (procs demo_exit a))) (set ([] @ 0x3000 # [0x4000] @ [0x5000]))"
    by (simp add: inj_on_def demo_exit_def demo_procs_def)
  have p4: "p_pid (the (procs demo_exit 0x4000)) = 4" by (simp add: demo_exit_def demo_procs_def)
  show ?thesis using destroy_daemon_corrupts [OF l x s' inj] s' p4 by simp
qed

subsection \<open>Waiting for a process\<close>

lemma mask_step_fields:
  assumes "(if m \<noteq> 0 then (case masks s m of None \<Rightarrow> Inl BadPointer
      | Some (n, w) \<Rightarrow> if n - 1 = 0 then t_kfree (s\<lparr>masks := (masks s)(m := None)\<rparr>) m
                      else Inr (s\<lparr>masks := (masks s)(m \<mapsto> (n - 1, w))\<rparr>)) else Inr s) = Inr s1"
  shows "procs s1 = procs s" "runqueue s1 = runqueue s" "daemons s1 = daemons s" "zombies s1 = zombies s"
    "used_pids s1 = used_pids s"
proof -
  have "\<exists>ms. same_tasks (s\<lparr>masks := ms\<rparr>) s1"
  proof (cases "m = 0")
    case True
    with assms show ?thesis by (intro exI [of _ "masks s"]) simp
  next
    case False
    with assms obtain n w where n: "masks s m = Some (n, w)" by (auto split: option.splits)
    show ?thesis
      using assms n False t_kfree_only
      by (cases "n = 1") (auto intro: exI [of _ "(masks s)(m := None)"] exI [of _ "(masks s)(m \<mapsto> (n - 1, w))"])
  qed
  then obtain ms where "same_tasks (s\<lparr>masks := ms\<rparr>) s1" by blast
  from same_tasks_fields [OF this] show "procs s1 = procs s" "runqueue s1 = runqueue s" "daemons s1 = daemons s"
    "zombies s1 = zombies s" "used_pids s1 = used_pids s" by simp_all
qed

lemma destroy_process_struct_effect:
  assumes "destroy_process_struct s proc = Inr s'" "procs s proc = Some x"
  shows "procs s' = (procs s)(proc := None)" "runqueue s' = runqueue s" "daemons s' = daemons s" "zombies s' = zombies s"
    "relinquish_pid (used_pids s) (nat (p_pid x)) = Inr (used_pids s')"
proof -
  from assms obtain s1 s2 c v c' s3 up where
    r: "(if p_popup_stack_mask x \<noteq> 0 then (case masks s (p_popup_stack_mask x) of None \<Rightarrow> Inl BadPointer
      | Some (n, w) \<Rightarrow> if n - 1 = 0 then t_kfree (s\<lparr>masks := (masks s)(p_popup_stack_mask x := None)\<rparr>) (p_popup_stack_mask x)
          else Inr (s\<lparr>masks := (masks s)(p_popup_stack_mask x \<mapsto> (n - 1, w))\<rparr>)) else Inr s) = Inr s1"
    "t_kfree s1 (p_kernel_stack x) = Inr s2"
    "(if users c' = 0 then t_kfree ((put_memory s2 (p_vmmc x) v c')\<lparr>ctxs := (ctxs s2)(p_vmmc x := None)\<rparr>) (p_vmmc x)
      else Inr (put_memory s2 (p_vmmc x) v c')) = Inr s3"
    "relinquish_pid (used_pids s3) (nat (p_pid x)) = Inr up"
    "t_kfree (s3\<lparr>used_pids := up, procs := (procs s3)(proc := None)\<rparr>) proc = Inr s'"
    unfolding destroy_process_struct_def pget_def pderef_def by (auto simp: rbind_Inr_iff)
  note f1 = mask_step_fields [OF r(1)]
  note f2 = same_tasks_fields [OF t_kfree_only [OF r(2)]]
  have "same_tasks s2 s3"
  proof (cases "users c' = 0")
    case True
    let ?t = "(put_memory s2 (p_vmmc x) v c')\<lparr>ctxs := (ctxs s2)(p_vmmc x := None)\<rparr>"
    have "same_tasks s2 ?t" by (simp add: same_tasks_def put_memory_def)
    moreover have "same_tasks ?t s3" using r(3) True t_kfree_only by auto
    ultimately show ?thesis by (rule same_tasks_trans)
  qed (use r(3) in auto)
  note f3 = same_tasks_fields [OF this]
  note f4 = same_tasks_fields [OF t_kfree_only [OF r(5)]]
  show "procs s' = (procs s)(proc := None)" "runqueue s' = runqueue s" "daemons s' = daemons s" "zombies s' = zombies s"
    "relinquish_pid (used_pids s) (nat (p_pid x)) = Inr (used_pids s')"
    using f1 f2 f3 f4 r(4) by simp_all
qed

lemma relinquish_pid_frees:
  assumes "relinquish_pid ms n = Inr ms'"
  shows "\<not> pid_used ms' n" "\<forall>m. m \<noteq> n \<longrightarrow> 0 < n \<longrightarrow> pid_used ms' m = pid_used ms m"
proof -
  have "(n - 1) div LONG_BIT < length ms"
    using assms by (auto simp: relinquish_pid_def mask_clear_def outcome_simps)
  then have "n - 1 < LONG_BIT * length ms" by (simp add: LONG_BIT_def div_less_iff_less_mult mult.commute)
  from mask_clear_taken [OF this] assms have t: "\<And>j. taken ms' j \<longleftrightarrow> taken ms j \<and> j \<noteq> n - 1"
    by (auto simp: relinquish_pid_def)
  show "\<not> pid_used ms' n" by (simp add: pid_used_def t)
  show "\<forall>m. m \<noteq> n \<longrightarrow> 0 < n \<longrightarrow> pid_used ms' m = pid_used ms m"
    by (auto simp: pid_used_def t)
qed

lemma raw_waitpid_facts:
  assumes "lists s rq ds zs" "proc \<in> set zs" "procs s proc = Some x" "p_status x = PROCESS_ZOMBIE"
    and "proc \<notin> set rq" "inj_on (\<lambda>a. p_pid (the (procs s a))) (set (rq @ ds @ zs))"
    and "p_pid x \<noteq> -1" "raw_waitpid s (p_pid x) options want_errno = Inr (r, s')"
  shows "\<exists>en. r = Some (p_pid x, p_exit_info x, en, p_popup_return x)"
    and "lists s' rq ds (remove1 proc zs)" "procs s' proc = None" "\<not> pid_used (used_pids s') (nat (p_pid x))"
proof -
  have l: "chain p_rq_next (procs s) (runqueue s) rq" "length rq \<le> MAX_PID_COUNT" "chain p_next (procs s) (daemons s) ds"
      "length ds \<le> MAX_PID_COUNT" "chain p_next (procs s) (zombies s) zs" "length zs \<le> MAX_PID_COUNT" "distinct zs"
      "set ds \<inter> set zs = {}" "proc \<noteq> 0"
    using assms(1,2) pq.chain_in_store by (auto simp: lists_def)
  let ?P = "\<lambda>a. p_pid (the (procs s a)) = p_pid x"
  have only: "a = proc" if "a \<in> set (rq @ ds @ zs)" "?P a" for a
    using that assms(2,3) by (intro inj_onD [OF assms(6)]) auto
  have "List.find ?P rq = None" "List.find ?P ds = None"
    unfolding find_None_iff using only assms(2,5) l(8) unfolding set_append by blast+
  then have f: "find_process s (p_pid x) = Inr 0"
    using rq.walk_chain [OF l(1,2), of "\<lambda>y. p_pid y = p_pid x"] pq.walk_chain [OF l(3,4), of "\<lambda>y. p_pid y = p_pid x"]
    by (simp add: find_process_def find_process_in_def)
  have "List.find ?P zs = Some proc"
  proof (rule find_unique)
    show "\<forall>a \<in> set zs. ?P a \<longrightarrow> proc = a" using only unfolding set_append by blast
  qed (use assms(2,3) in auto)
  then have z: "find_process_in s Zombies (p_pid x) = Inr proc"
    using pq.walk_chain [OF l(5,6), of "\<lambda>y. p_pid y = p_pid x"] by (simp add: find_process_in_def)
  obtain h st where u: "unlink p_next set_next (procs s) MAX_PID_COUNT (zombies s) proc = Inr (h, st)"
      "chain p_next st h (remove1 proc zs)"
      "st = procs s \<or> (\<exists>q\<in>set zs. \<exists>y. q \<noteq> proc \<and> procs s q = Some y \<and> st = (procs s)(q \<mapsto> set_next (p_next x) y))"
    using pq.unlink_chain [OF l(5,7,6) l(9) assms(3)] by blast
  let ?s1 = "s\<lparr>procs := st, zombies := h\<rparr>"
  have s1: "q_unregister_process s Zombies proc = Inr ?s1" using u(1) by (simp add: q_unregister_process_def)
  from assms(3,4,7,8) f z s1 l(9) obtain en s2 where
      d: "destroy_process_struct ?s1 proc = Inr s'" "r = Some (p_pid x, p_exit_info x, en, p_popup_return x)"
    by (auto simp: raw_waitpid_def wait_for_zombie_def pget_def pderef_def outcome_simps)
  show "\<exists>en. r = Some (p_pid x, p_exit_info x, en, p_popup_return x)" using d(2) by blast
  have "procs ?s1 proc = Some x" using u(3) assms(3) by auto
  note e = destroy_process_struct_effect [OF d(1) this, simplified]
  show "procs s' proc = None" by (simp add: e)
  show "\<not> pid_used (used_pids s') (nat (p_pid x))" using e(5) by (rule relinquish_pid_frees)
  have "chain p_rq_next (st(proc := None)) (runqueue s) rq"
    by (rule rq.chain_cong [OF _ l(1)]) (use u(3) assms(5) in \<open>auto simp: set_next_def\<close>)
  moreover have "chain p_next (st(proc := None)) (daemons s) ds"
    by (rule pq.chain_cong [OF _ l(3)]) (use u(3) assms(2) l(8) in \<open>auto simp: set_next_def\<close>)
  moreover have "chain p_next (st(proc := None)) h (remove1 proc zs)"
    using u(2) l(7) by (intro pq.chain_outside) auto
  moreover have "length (remove1 proc zs) \<le> length zs" by (simp add: length_remove1)
  moreover have "set ds \<inter> set (remove1 proc zs) = {}" using l(8) set_remove1_subset [of proc zs] by blast
  ultimately show "lists s' rq ds (remove1 proc zs)"
    using assms(1) e by (simp add: lists_def distinct_remove1)
qed

text \<open>
  C36: waiting for a zombie returns its process number and exit information, takes it off the zombie
  list, leaves the other lists alone, drops the structure and makes the number available again.
\<close>

theorem raw_waitpid_reaps:
  assumes "lists s rq ds zs" "proc \<in> set zs" "procs s proc = Some x" "p_status x = PROCESS_ZOMBIE"
    and "proc \<notin> set rq" "inj_on (\<lambda>a. p_pid (the (procs s a))) (set (rq @ ds @ zs))"
    and "p_pid x \<noteq> -1" "raw_waitpid s (p_pid x) options want_errno = Inr (r, s')"
  shows "(\<exists>en. r = Some (p_pid x, p_exit_info x, en, p_popup_return x))
    \<and> lists s' rq ds (remove1 proc zs) \<and> procs s' proc = None \<and> \<not> pid_used (used_pids s') (nat (p_pid x))"
  using raw_waitpid_facts [OF assms] by (intro conjI)

definition demo_wait :: tasks where
  "demo_wait = demo_tasks\<lparr>procs := [HMEM_BASE + 4 \<mapsto> null_process\<lparr>p_pid := 5, p_status := PROCESS_ZOMBIE, p_exit_info := 9,
       p_vmmc := 0xF0001000\<rparr>], zombies := HMEM_BASE + 4, used_pids := [0x1F],
     ctxs := [0xF0001000 \<mapsto> demo_ctx\<lparr>users := 2\<rparr>],
     mem := \<lparr>vs_vm = demo_vm, vs_kpt = [kpte 0x100000], vs_size = [HMEM_BASE \<mapsto> 684], vs_sg = (\<lambda>_. demo_sg)\<rparr>\<rparr>"

lemma demo_wait_run:
  "\<exists>r s'. raw_waitpid demo_wait 5 0 False = Inr (r, s')"
proof -
  let ?z = "null_process\<lparr>p_pid := 5, p_status := PROCESS_ZOMBIE, p_exit_info := 9, p_vmmc := 0xF0001000\<rparr>"
  have w: "walk p_next [HMEM_BASE + 4 \<mapsto> ?z] (\<lambda>x. p_pid x = 5) MAX_PID_COUNT (HMEM_BASE + 4) = Inr (HMEM_BASE + 4)"
    "walk nx st P MAX_PID_COUNT 0 = Inr 0" for nx st P
  proof -
    show "walk p_next [HMEM_BASE + 4 \<mapsto> ?z] (\<lambda>x. p_pid x = 5) MAX_PID_COUNT (HMEM_BASE + 4) = Inr (HMEM_BASE + 4)"
      using pq.walk_chain [of "[HMEM_BASE + 4 \<mapsto> ?z]" "HMEM_BASE + 4" "[HMEM_BASE + 4]" MAX_PID_COUNT "\<lambda>x. p_pid x = 5"]
      by (simp add: MAX_PID_COUNT_def HMEM_BASE_def null_process_def)
    have "walk nx st P n 0 = Inr 0" for n by (cases n) simp_all
    then show "walk nx st P MAX_PID_COUNT 0 = Inr 0" .
  qed
  have k: "vs_kfree (mem demo_wait) 0 = Inr (mem demo_wait)"
    by (simp add: demo_wait_def vs_kfree_def kfree_def)
  have f: "kfree \<lparr>km_pmm = demo_pmm, km_kpt = [kpte 0x100000], km_size = [HMEM_BASE \<mapsto> 684]\<rparr> (HMEM_BASE + 4)
      = Inr \<lparr>km_pmm = demo_pmm\<lparr>bitmap := [0, 0x7f, 0, 0], look_from_here := 0\<rparr>, km_kpt = [0], km_size = Map.empty\<rparr>"
    by (simp add: kfree_def HMEM_BASE_def page_consts kernel_unmap_def demo_pmm_def pmm_free_def kpte_def map_flags
        page_aligned_def frame_index_def BITMAP_USERS_def BITMAP_COW_FLAG_def)
  let ?Z = "HMEM_BASE + 4" and ?s1 = "demo_wait\<lparr>zombies := 0\<rparr>"
  have nz: "?Z \<noteq> 0" by (simp add: HMEM_BASE_def)
  have z: "procs demo_wait ?Z = Some ?z" "zombies demo_wait = ?Z" by (simp_all add: demo_wait_def)
  have fz: "find_process demo_wait 5 = Inr 0" "find_process_in demo_wait Zombies 5 = Inr ?Z"
    using w by (simp_all add: find_process_def find_process_in_def demo_wait_def demo_tasks_def)
  have q: "q_unregister_process demo_wait Zombies ?Z = Inr ?s1"
    by (simp add: q_unregister_process_def unlink_def z pderef_def null_process_def)
  have m: "mem demo_wait = \<lparr>vs_vm = demo_vm, vs_kpt = [kpte 0x100000], vs_size = [HMEM_BASE \<mapsto> 684], vs_sg = (\<lambda>_. demo_sg)\<rparr>"
    by (simp add: demo_wait_def)
  have c: "ctxs demo_wait = [0xF0001000 \<mapsto> demo_ctx\<lparr>users := 2\<rparr>]" "used_pids demo_wait = [0x1F]" "vm_pmm demo_vm = demo_pmm"
    by (simp_all add: demo_wait_def demo_vm_def)
  have "\<exists>s2. destroy_process_struct ?s1 ?Z = Inr s2"
    using k f
    by (simp add: c cget_def Let_def destroy_process_struct_def pget_def z pderef_def null_process_def t_kfree_def m unuse_vmm_context_def
        put_memory_def relinquish_pid_def mask_clear_def LONG_BIT_def vs_kfree_def)
  with fz q z nz show ?thesis
    by (auto simp: raw_waitpid_def wait_for_zombie_def pget_def pderef_def null_process_def)
qed

theorem raw_waitpid_reaps_witness:
  "\<exists>r s'. raw_waitpid demo_wait 5 0 False = Inr (r, s') \<and> lists s' [] [] [] \<and> procs s' (HMEM_BASE + 4) = None
     \<and> \<not> pid_used (used_pids s') 5"
proof -
  let ?z = "null_process\<lparr>p_pid := 5, p_status := PROCESS_ZOMBIE, p_exit_info := 9, p_vmmc := 0xF0001000\<rparr>"
  obtain r s' where run: "raw_waitpid demo_wait 5 0 False = Inr (r, s')" using demo_wait_run by blast
  have l: "lists demo_wait [] [] [HMEM_BASE + 4]"
    by (simp add: lists_def demo_wait_def demo_tasks_def HMEM_BASE_def null_process_def MAX_PID_COUNT_def)
  have z: "procs demo_wait (HMEM_BASE + 4) = Some ?z" by (simp add: demo_wait_def)
  show ?thesis
    using raw_waitpid_reaps [OF l _ z, of 0 False r s'] run by (auto simp: inj_on_def)
qed

end
