(* ===== verification/Irq.thy ===== *)
theory Irq
  imports Tasks
begin

text \<open>
  The protocol between the interrupt controller, the processes that handle an interrupt and the
  reaper (\<open>i386_common_isr\<close>, \<open>common_irq_handler\<close>, \<open>daemonize_from_irq_handler\<close>, \<open>irq_settled\<close>,
  \<open>reaper\<close>): an interrupt wakes the daemons registered for it and masks the line, every one of them
  reports back, and the reaper unmasks the line after the last report. The steps are the single
  accesses to shared memory of these functions, so that interrupts and other processes come between any
  two of them; the sequential functions of \<open>Tasks\<close> are runs of such steps. The invariant relates the
  counter of the line, the state of its processes, its mask bit and where the reaper and the reporting
  processes are. \<open>enable_irq\<close> is one step: its update of the mask register shared by eight lines is not
  interleaved with that of another line.
\<close>

subsection \<open>A line and its processes\<close>

fun isr_procs :: "isr list \<Rightarrow> u32 list" where
  "isr_procs [] = []"
| "isr_procs (KernelIsr a h # is) = isr_procs is"
| "isr_procs (UserIsr a p h info # is) = p # isr_procs is"

definition masked :: "tasks \<Rightarrow> nat \<Rightarrow> bool" where
  "masked s irq \<longleftrightarrow> bit (disabled_status s ! (irq div 8)) (irq mod 8)"

definition unsettled :: "process \<Rightarrow> int" where
  "unsettled x = (if p_handling_irq x then 1 else 0) + p_settle_count x"

definition line_procs :: "tasks \<Rightarrow> nat \<Rightarrow> u32 list" where
  "line_procs s irq = isr_procs (handlers s ! irq)"

definition handler_ok :: "nat \<Rightarrow> process \<Rightarrow> bool" where
  "handler_ok irq x \<longleftrightarrow> p_handled_irq x = int irq \<and> p_tls x \<noteq> 0 \<and> 0 \<le> p_settle_count x
     \<and> (p_handling_irq x \<longrightarrow> p_status x \<noteq> PROCESS_DAEMON)"

definition line_inv :: "tasks \<Rightarrow> nat \<Rightarrow> bool" where
  "line_inv s irq \<longleftrightarrow>
     irq < 16 \<and> length (handlers s) = 16 \<and> length (unsettled_procs s) = 16 \<and> length (disabled_status s) = 2
     \<and> distinct (line_procs s irq)
     \<and> (\<forall>p \<in> set (line_procs s irq). \<exists>x. procs s p = Some x \<and> handler_ok irq x)
     \<and> unsettled_procs s ! irq = (\<Sum>p \<in> set (line_procs s irq). unsettled (the (procs s p)))
     \<and> (masked s irq \<longleftrightarrow> unsettled_procs s ! irq \<noteq> 0)"

text \<open>A kernel handler runs in interrupt context and leaves processes and the controller alone.\<close>

definition kernel_quiet :: "(u32 \<Rightarrow> tasks \<Rightarrow> tasks) \<Rightarrow> bool" where
  "kernel_quiet kh \<longleftrightarrow> (\<forall>h s. procs (kh h s) = procs s \<and> handlers (kh h s) = handlers s
     \<and> unsettled_procs (kh h s) = unsettled_procs s \<and> disabled_status (kh h s) = disabled_status s)"

subsection \<open>The interleaving\<close>

text \<open>
  The reaper and the reporting processes run with interrupts enabled and are preempted, so the
  protocol is a step relation whose steps are their single accesses to shared memory. The reaper is in
  front of the status test of a process, of the assertion of \<open>irq_settled\<close>, of its atomic decrement, of
  \<open>enable_irq\<close>, or of the atomic decrement of the process's count; elsewhere (\<open>RIdle\<close>) it does not work
  on the line. A reporting process is in front of the increment of its count or of the store of its
  status. An interrupt is one step, since its handler runs behind an interrupt gate.
\<close>

datatype reaper_pc = RIdle | RStatus u32 | RAssert u32 | RSub u32 | REnable u32 | RDecr u32

datatype report_pc = DIdle | DCount | DStatus

record irq_conf =
  cf_tasks :: tasks
  cf_reaper :: reaper_pc
  cf_report :: "u32 \<Rightarrow> report_pc"

definition reaper_look :: "irq_conf \<Rightarrow> u32 \<Rightarrow> irq_conf outcome" where
  "reaper_look c p =
     rbind (pget (cf_tasks c) p) (\<lambda>x.
       Inr (if p_handled_irq x \<ge> 0 \<and> p_settle_count x > 0 then c\<lparr>cf_reaper := RStatus p\<rparr> else c))"

definition reaper_next :: "irq_conf \<Rightarrow> irq_conf outcome" where
  "reaper_next c =
     (let s = cf_tasks c in
      case cf_reaper c of
        RIdle \<Rightarrow> Inr c
      | RStatus p \<Rightarrow>
          rbind (pget s p) (\<lambda>x. Inr (c\<lparr>cf_reaper := if p_status x = PROCESS_DAEMON then RAssert p else RIdle\<rparr>))
      | RAssert p \<Rightarrow>
          rbind (pget s p) (\<lambda>x.
          rbind (irq_assert s (nat (p_handled_irq x))) (\<lambda>_. Inr (c\<lparr>cf_reaper := RSub p\<rparr>)))
      | RSub p \<Rightarrow>
          rbind (pget s p) (\<lambda>x.
          rbind (irq_sub s (nat (p_handled_irq x))) (\<lambda>(n, s').
            Inr (c\<lparr>cf_tasks := s', cf_reaper := if n = 0 then REnable p else RDecr p\<rparr>)))
      | REnable p \<Rightarrow>
          rbind (pget s p) (\<lambda>x.
          rbind (enable_irq s (nat (p_handled_irq x)) True) (\<lambda>s'.
            Inr (c\<lparr>cf_tasks := s', cf_reaper := RDecr p\<rparr>)))
      | RDecr p \<Rightarrow>
          rbind (settle_sub s p) (\<lambda>(n, s').
            Inr (c\<lparr>cf_tasks := s', cf_reaper := if n \<noteq> 0 then RAssert p else RIdle\<rparr>)))"

definition report_next :: "irq_conf \<Rightarrow> u32 \<Rightarrow> irq_conf outcome" where
  "report_next c p =
     (let s = cf_tasks c; goto = (\<lambda>pc s'. Inr (c\<lparr>cf_tasks := s', cf_report := (cf_report c)(p := pc)\<rparr>)) in
      case cf_report c p of
        DIdle \<Rightarrow> rbind (report_handled s p) (goto DCount)
      | DCount \<Rightarrow> rbind (report_count s p) (goto DStatus)
      | DStatus \<Rightarrow> rbind (report_daemon s p) (goto DIdle))"

text \<open>The rest of the system (other lines, other processes, the scheduler) may change everything but
  the line's handlers, counter and mask bit and what the protocol reads of its processes.\<close>

definition proc_same :: "process \<Rightarrow> process \<Rightarrow> bool" where
  "proc_same x y \<longleftrightarrow> p_handled_irq y = p_handled_irq x \<and> p_tls y = p_tls x \<and> p_settle_count y = p_settle_count x
     \<and> p_handling_irq y = p_handling_irq x \<and> (p_status y = PROCESS_DAEMON \<longleftrightarrow> p_status x = PROCESS_DAEMON)"

definition line_same :: "nat \<Rightarrow> tasks \<Rightarrow> tasks \<Rightarrow> bool" where
  "line_same irq s s' \<longleftrightarrow>
     length (handlers s') = length (handlers s) \<and> length (unsettled_procs s') = length (unsettled_procs s)
     \<and> length (disabled_status s') = length (disabled_status s)
     \<and> handlers s' ! irq = handlers s ! irq \<and> unsettled_procs s' ! irq = unsettled_procs s ! irq
     \<and> (masked s' irq \<longleftrightarrow> masked s irq)
     \<and> (\<forall>p \<in> set (line_procs s irq). \<forall>x. procs s p = Some x \<longrightarrow> (\<exists>y. procs s' p = Some y \<and> proc_same x y))"

inductive irq_step :: "(u32 \<Rightarrow> tasks \<Rightarrow> tasks) \<Rightarrow> nat \<Rightarrow> irq_conf \<Rightarrow> irq_conf \<Rightarrow> bool" for kh irq where
  deliver: "\<not> masked (cf_tasks c) irq \<Longrightarrow> i386_irq kh (cf_tasks c) irq in_service = Inr s'
    \<Longrightarrow> irq_step kh irq c (c\<lparr>cf_tasks := s'\<rparr>)"
| report: "p \<in> set (line_procs (cf_tasks c) irq) \<Longrightarrow> report_next c p = Inr c' \<Longrightarrow> irq_step kh irq c c'"
| look: "p \<in> set (line_procs (cf_tasks c) irq) \<Longrightarrow> cf_reaper c = RIdle \<Longrightarrow> reaper_look c p = Inr c'
    \<Longrightarrow> irq_step kh irq c c'"
| settle: "reaper_next c = Inr c' \<Longrightarrow> irq_step kh irq c c'"
| other: "line_same irq (cf_tasks c) s' \<Longrightarrow> irq_step kh irq c (c\<lparr>cf_tasks := s'\<rparr>)"

text \<open>What the invariant becomes between two accesses: a process in front of the increment of its
  count is still owed a settling, a reaper between the two decrements has settled one more than the
  count of the process shows, and in front of \<open>enable_irq\<close> the line is masked with a counter of zero.\<close>

definition owed :: "report_pc \<Rightarrow> process \<Rightarrow> int" where
  "owed r x = unsettled x + (if r = DCount then 1 else 0)"

fun settled_ahead :: "reaper_pc \<Rightarrow> int" where
  "settled_ahead (REnable p) = 1"
| "settled_ahead (RDecr p) = 1"
| "settled_ahead pc = 0"

fun reaper_proc :: "reaper_pc \<Rightarrow> u32 option" where
  "reaper_proc RIdle = None"
| "reaper_proc (RStatus p) = Some p"
| "reaper_proc (RAssert p) = Some p"
| "reaper_proc (RSub p) = Some p"
| "reaper_proc (REnable p) = Some p"
| "reaper_proc (RDecr p) = Some p"

fun enabling :: "reaper_pc \<Rightarrow> bool" where
  "enabling (REnable p) = True"
| "enabling pc = False"

definition report_ok :: "report_pc \<Rightarrow> process \<Rightarrow> bool" where
  "report_ok r x \<longleftrightarrow> (r \<noteq> DIdle \<longrightarrow> \<not> p_handling_irq x \<and> p_status x \<noteq> PROCESS_DAEMON)"

definition line_owed :: "irq_conf \<Rightarrow> nat \<Rightarrow> int" where
  "line_owed c irq = (\<Sum>p \<in> set (line_procs (cf_tasks c) irq). owed (cf_report c p) (the (procs (cf_tasks c) p)))"

definition conf_inv :: "irq_conf \<Rightarrow> nat \<Rightarrow> bool" where
  "conf_inv c irq \<longleftrightarrow> (let s = cf_tasks c in
     irq < 16 \<and> length (handlers s) = 16 \<and> length (unsettled_procs s) = 16 \<and> length (disabled_status s) = 2
     \<and> distinct (line_procs s irq)
     \<and> (\<forall>p \<in> set (line_procs s irq). \<exists>x. procs s p = Some x \<and> handler_ok irq x \<and> report_ok (cf_report c p) x)
     \<and> unsettled_procs s ! irq = line_owed c irq - settled_ahead (cf_reaper c)
     \<and> (masked s irq \<longleftrightarrow> unsettled_procs s ! irq \<noteq> 0 \<or> enabling (cf_reaper c))
     \<and> (enabling (cf_reaper c) \<longrightarrow> unsettled_procs s ! irq = 0)
     \<and> (\<forall>p. reaper_proc (cf_reaper c) = Some p \<longrightarrow>
          p \<in> set (line_procs s irq) \<and> 0 < p_settle_count (the (procs s p))))"

definition quiet_conf :: "tasks \<Rightarrow> irq_conf" where
  "quiet_conf s = \<lparr>cf_tasks = s, cf_reaper = RIdle, cf_report = (\<lambda>_. DIdle)\<rparr>"

lemma quiet_conf_inv: "conf_inv (quiet_conf s) irq \<longleftrightarrow> line_inv s irq"
  by (auto simp: conf_inv_def line_inv_def quiet_conf_def line_owed_def owed_def report_ok_def)

subsection \<open>The controller\<close>

lemma enable_irq_mask:
  assumes "irq < 16" "length (disabled_status s) = 2"
  shows "\<exists>ds. enable_irq s irq status = Inr (s\<lparr>disabled_status := ds\<rparr>) \<and> length ds = 2
    \<and> (bit (ds ! (irq div 8)) (irq mod 8) \<longleftrightarrow> \<not> status)"
proof -
  let ?i = "irq div 8" and ?b = "push_bit (irq mod 8) 1 :: u8"
  have i: "?i < length (disabled_status s)" using assms by auto
  let ?d = "disabled_status s ! ?i"
  let ?ds = "(disabled_status s)[?i := (?d AND NOT ?b) OR (if status then 0 else ?b)]"
  have "irq mod 8 < 8" by simp
  then have "bit ((?d AND NOT ?b) OR (if status then 0 else ?b)) (irq mod 8) \<longleftrightarrow> \<not> status"
    by (cases status) (simp_all add: bit_simps)
  moreover have "enable_irq s irq status = Inr (s\<lparr>disabled_status := ?ds\<rparr>)" using i by (simp add: enable_irq_def Let_def)
  ultimately show ?thesis using i assms(2) by (intro exI [of _ ?ds]) simp
qed

lemma irq_settled_ok:
  assumes "irq < 16" "length (disabled_status s) = 2" "irq < length (unsettled_procs s)"
    "unsettled_procs s ! irq = n" "0 < n" "masked s irq"
  shows "\<exists>ds. irq_settled s irq = Inr (s\<lparr>unsettled_procs := (unsettled_procs s)[irq := n - 1], disabled_status := ds\<rparr>)
    \<and> length ds = 2 \<and> (bit (ds ! (irq div 8)) (irq mod 8) \<longleftrightarrow> n - 1 \<noteq> 0)"
proof (cases "n = 1")
  case True
  let ?s1 = "s\<lparr>unsettled_procs := (unsettled_procs s)[irq := n - 1]\<rparr>"
  have "\<exists>ds. enable_irq ?s1 irq True = Inr (?s1\<lparr>disabled_status := ds\<rparr>) \<and> length ds = 2
      \<and> (bit (ds ! (irq div 8)) (irq mod 8) \<longleftrightarrow> \<not> True)"
    by (rule enable_irq_mask) (use assms in simp_all)
  then obtain ds where "enable_irq ?s1 irq True = Inr (?s1\<lparr>disabled_status := ds\<rparr>)" "length ds = 2"
      "\<not> bit (ds ! (irq div 8)) (irq mod 8)" by blast
  moreover have "irq_settled s irq = enable_irq ?s1 irq True" using assms True by (simp add: irq_settled_def irq_assert_def irq_sub_def)
  ultimately show ?thesis using True by (intro exI [of _ ds]) simp
next
  case False
  with assms show ?thesis by (intro exI [of _ "disabled_status s"]) (simp add: irq_settled_def irq_assert_def irq_sub_def masked_def)
qed

subsection \<open>Delivery\<close>

definition woken :: "process \<Rightarrow> process" where
  "woken x = (if p_status x = PROCESS_DAEMON
              then x\<lparr>p_handling_irq := True, p_fresh_irq := True, p_status := PROCESS_ACTIVE\<rparr> else x)"

lemma make_process_entry_running:
  assumes "procs s p = Some x" "p_tls x \<noteq> 0" "stack = p_irq_stack_top x"
  shows "make_process_entry s p stack = Inr (pset s p x)"
proof -
  let ?y = "if p_irq_stack_top x = 0 then x\<lparr>p_irq_stack_top := stack\<rparr> else x"
  have "make_process_entry s p stack = Inr (pset s p ?y)"
    using assms(1,2) by (simp add: make_process_entry_def pget_def pderef_def pupd_def)
  moreover have "?y = x" using assms(3) by (cases x) simp
  ultimately show ?thesis by (simp only:)
qed

lemma irq_wake_ok:
  assumes "kernel_quiet kh" "distinct (isr_procs is)" "\<forall>p \<in> set (isr_procs is). \<exists>x. procs s p = Some x \<and> p_tls x \<noteq> 0"
  shows "\<exists>s'. irq_wake kh s is
      = Inr (\<Sum>p \<in> set (isr_procs is). if p_status (the (procs s p)) = PROCESS_DAEMON then 1 else 0, s')
    \<and> procs s' = (\<lambda>a. if a \<in> set (isr_procs is) then map_option woken (procs s a) else procs s a)
    \<and> handlers s' = handlers s \<and> unsettled_procs s' = unsettled_procs s \<and> disabled_status s' = disabled_status s"
  using assms(2,3)
proof (induction "is" arbitrary: s)
  case (Cons i "is")
  show ?case
  proof (cases i)
    case (KernelIsr a h)
    have q: "procs (kh h s) = procs s" "handlers (kh h s) = handlers s" "unsettled_procs (kh h s) = unsettled_procs s"
        "disabled_status (kh h s) = disabled_status s"
      using assms(1) by (auto simp: kernel_quiet_def)
    show ?thesis using Cons.IH [of "kh h s", unfolded q] Cons.prems by (simp add: KernelIsr)
  next
    case (UserIsr a p h info)
    obtain x where x: "procs s p = Some x" "p_tls x \<noteq> 0" using Cons.prems(2) UserIsr by auto
    have d: "distinct (isr_procs is)" "p \<notin> set (isr_procs is)" using Cons.prems(1) UserIsr by simp_all
    let ?c = "\<lambda>s p. if p_status (the (procs s p)) = PROCESS_DAEMON then 1 else 0 :: int"
    define t where "t = (if p_status x = PROCESS_DAEMON then pset s p (woken x) else s)"
    have t: "procs t = (procs s)(p \<mapsto> woken x)" "handlers t = handlers s" "unsettled_procs t = unsettled_procs s"
        "disabled_status t = disabled_status s"
      using x(1) by (auto simp: t_def pset_def woken_def)
    have step: "irq_wake kh s (i # is) = rbind (irq_wake kh t is) (\<lambda>(n, s'). Inr (?c s p + n, s'))"
    proof (cases "p_status x = PROCESS_DAEMON")
      case True
      let ?s1 = "pset s p (x\<lparr>p_status := PROCESS_COMA, p_handling_irq := True, p_fresh_irq := True\<rparr>)"
      have "make_process_entry ?s1 p (p_irq_stack_top x) = Inr ?s1"
        using make_process_entry_running [of ?s1 p "x\<lparr>p_status := PROCESS_COMA, p_handling_irq := True, p_fresh_irq := True\<rparr>"] x(2)
        by (simp add: pset_def)
      with True x show ?thesis
        by (simp add: UserIsr pget_def pderef_def pupd_def t_def pset_def woken_def add.commute)
    next
      case False
      with x show ?thesis
        by (cases "irq_wake kh s is") (auto simp: UserIsr pget_def pderef_def t_def)
    qed
    have pr: "\<forall>q \<in> set (isr_procs is). \<exists>x. procs t q = Some x \<and> p_tls x \<noteq> 0"
      using Cons.prems(2) d(2) by (auto simp: t UserIsr)
    obtain s' where s': "irq_wake kh t is = Inr (\<Sum>p \<in> set (isr_procs is). ?c t p, s')"
        "procs s' = (\<lambda>a. if a \<in> set (isr_procs is) then map_option woken (procs t a) else procs t a)"
        "handlers s' = handlers t" "unsettled_procs s' = unsettled_procs t" "disabled_status s' = disabled_status t"
      using Cons.IH [OF d(1) pr] by blast
    have "(\<Sum>q \<in> set (isr_procs is). ?c t q) = (\<Sum>q \<in> set (isr_procs is). ?c s q)"
      by (rule sum.cong) (use d(2) in \<open>auto simp: t\<close>)
    with s'(1) step have "irq_wake kh s (i # is) = Inr (\<Sum>q \<in> set (isr_procs (i # is)). ?c s q, s')"
      using d(2) by (simp add: UserIsr)
    moreover have "procs s' = (\<lambda>a. if a \<in> set (isr_procs (i # is)) then map_option woken (procs s a) else procs s a)"
      using s'(2) x(1) d(2) by (auto simp: t UserIsr fun_eq_iff)
    ultimately show ?thesis using s'(3-5) t by auto
  qed
qed auto

text \<open>The facts of the invariant as a list, and the invariant after a change of one process.\<close>

lemma conf_invD:
  assumes "conf_inv c irq"
  shows "irq < 16" "length (handlers (cf_tasks c)) = 16" "length (unsettled_procs (cf_tasks c)) = 16"
    "length (disabled_status (cf_tasks c)) = 2" "distinct (line_procs (cf_tasks c) irq)"
    "p \<in> set (line_procs (cf_tasks c) irq) \<Longrightarrow>
       \<exists>x. procs (cf_tasks c) p = Some x \<and> handler_ok irq x \<and> report_ok (cf_report c p) x"
    "unsettled_procs (cf_tasks c) ! irq = line_owed c irq - settled_ahead (cf_reaper c)"
    "masked (cf_tasks c) irq \<longleftrightarrow> unsettled_procs (cf_tasks c) ! irq \<noteq> 0 \<or> enabling (cf_reaper c)"
    "enabling (cf_reaper c) \<Longrightarrow> unsettled_procs (cf_tasks c) ! irq = 0"
    "reaper_proc (cf_reaper c) = Some p \<Longrightarrow> p \<in> set (line_procs (cf_tasks c) irq)"
    "reaper_proc (cf_reaper c) = Some p \<Longrightarrow> 0 < p_settle_count (the (procs (cf_tasks c) p))"
  using assms by (auto simp: conf_inv_def Let_def)

lemma sum_upd:
  fixes f g :: "'a \<Rightarrow> int"
  assumes "finite A" "p \<in> A" "\<And>q. q \<in> A \<Longrightarrow> q \<noteq> p \<Longrightarrow> f q = g q"
  shows "(\<Sum>q \<in> A. f q) = (\<Sum>q \<in> A. g q) - g p + f p"
proof -
  have "(\<Sum>q \<in> A - {p}. f q) = (\<Sum>q \<in> A - {p}. g q)" by (rule sum.cong) (use assms(3) in auto)
  then show ?thesis using assms(1,2) by (simp add: sum.remove [of A p])
qed

lemma conf_inv_proc:
  assumes inv: "conf_inv c irq" and p: "p \<in> set (line_procs (cf_tasks c) irq)" "procs (cf_tasks c) p = Some x"
    and t: "procs (cf_tasks c') = (procs (cf_tasks c))(p \<mapsto> y)" "handlers (cf_tasks c') = handlers (cf_tasks c)"
      "length (unsettled_procs (cf_tasks c')) = 16" "length (disabled_status (cf_tasks c')) = 2"
      "cf_report c' = (cf_report c)(p := r)"
    and y: "handler_ok irq y" "report_ok r y"
    and u: "unsettled_procs (cf_tasks c') ! irq
        = unsettled_procs (cf_tasks c) ! irq + settled_ahead (cf_reaper c) - owed (cf_report c p) x + owed r y
          - settled_ahead (cf_reaper c')"
    and m: "masked (cf_tasks c') irq \<longleftrightarrow> unsettled_procs (cf_tasks c') ! irq \<noteq> 0 \<or> enabling (cf_reaper c')"
      "enabling (cf_reaper c') \<Longrightarrow> unsettled_procs (cf_tasks c') ! irq = 0"
    and rp: "\<And>q. reaper_proc (cf_reaper c') = Some q \<Longrightarrow>
        q \<in> set (line_procs (cf_tasks c) irq) \<and> 0 < p_settle_count (the (procs (cf_tasks c') q))"
  shows "conf_inv c' irq"
proof -
  have lp: "line_procs (cf_tasks c') irq = line_procs (cf_tasks c) irq" using t(2) by (simp add: line_procs_def)
  have "line_owed c' irq = line_owed c irq - owed (cf_report c p) x + owed r y"
    unfolding line_owed_def lp
    by (subst sum_upd [of _ p _ "\<lambda>q. owed (cf_report c q) (the (procs (cf_tasks c) q))"]) (use p t(1,5) in auto)
  then have "unsettled_procs (cf_tasks c') ! irq = line_owed c' irq - settled_ahead (cf_reaper c')"
    using u conf_invD(7) [OF inv] by simp
  moreover have "\<exists>z. procs (cf_tasks c') q = Some z \<and> handler_ok irq z \<and> report_ok (cf_report c' q) z"
    if "q \<in> set (line_procs (cf_tasks c) irq)" for q
    using conf_invD(6) [OF inv that] y t(1,5) by (cases "q = p") auto
  ultimately show ?thesis
    unfolding conf_inv_def Let_def lp using conf_invD(1,2,5) [OF inv] t(2-4) m rp by simp
qed

text \<open>A delivery on an unmasked line: the daemons among its processes are woken, and the line is masked
  if there are any. A process that the reaper is about to take off the list may be among them.\<close>

lemma owed_woken:
  assumes "handler_ok irq x" "report_ok r x"
  shows "owed r (woken x) = owed r x + (if p_status x = PROCESS_DAEMON then 1 else 0)"
    "handler_ok irq (woken x)" "report_ok r (woken x)" "p_settle_count (woken x) = p_settle_count x"
  using assms by (auto simp: owed_def unsettled_def woken_def handler_ok_def report_ok_def)

lemma deliver_conf:
  assumes "kernel_quiet kh" "conf_inv c irq" "\<not> masked (cf_tasks c) irq"
  shows "\<exists>s'. i386_irq kh (cf_tasks c) irq in_service = Inr s' \<and> conf_inv (c\<lparr>cf_tasks := s'\<rparr>) irq
    \<and> handlers s' = handlers (cf_tasks c)"
proof (cases "irq mod 8 = 7 \<and> \<not> in_service")
  case True
  with assms(2) show ?thesis by (simp add: i386_irq_def)
next
  case False
  define s where "s = cf_tasks c"
  let ?ps = "set (line_procs s irq)" and ?c = "\<lambda>p. if p_status (the (procs s p)) = PROCESS_DAEMON then 1 else 0 :: int"
  note inv = conf_invD [OF assms(2), folded s_def]
  have z: "unsettled_procs s ! irq = 0" "\<not> enabling (cf_reaper c)" using inv(8) assms(3) by (auto simp: s_def)
  have pr: "\<forall>p \<in> set (isr_procs (handlers s ! irq)). \<exists>x. procs s p = Some x \<and> p_tls x \<noteq> 0"
    using inv(6) by (auto simp: line_procs_def handler_ok_def)
  obtain s1 where s1: "irq_wake kh s (handlers s ! irq) = Inr (\<Sum>p \<in> ?ps. ?c p, s1)"
      "procs s1 = (\<lambda>a. if a \<in> ?ps then map_option woken (procs s a) else procs s a)"
      "handlers s1 = handlers s" "unsettled_procs s1 = unsettled_procs s" "disabled_status s1 = disabled_status s"
    using irq_wake_ok [OF assms(1) inv(5) [unfolded line_procs_def] pr] unfolding line_procs_def by blast
  define m where "m = (\<Sum>p \<in> ?ps. ?c p)"
  let ?s2 = "s1\<lparr>unsettled_procs := (unsettled_procs s1)[irq := m]\<rparr>"
  have run: "i386_irq kh s irq in_service = (if m \<noteq> 0 then enable_irq ?s2 irq False else Inr ?s2)"
    using inv(1,2,3) z(1) s1(1) unfolding i386_irq_def if_not_P [OF False]
    by (simp add: i386_irq_def common_irq_handler_def m_def Let_def)
  have u1: "owed (cf_report c p) (the (procs s1 p)) = owed (cf_report c p) (the (procs s p)) + ?c p"
      "\<exists>x. procs s1 p = Some x \<and> handler_ok irq x \<and> report_ok (cf_report c p) x"
      "p_settle_count (the (procs s1 p)) = p_settle_count (the (procs s p))" if "p \<in> ?ps" for p
  proof -
    from inv(6) [OF that] obtain x where x: "procs s p = Some x" "handler_ok irq x" "report_ok (cf_report c p) x" by blast
    with that have "procs s1 p = Some (woken x)" by (simp add: s1(2))
    with x show "owed (cf_report c p) (the (procs s1 p)) = owed (cf_report c p) (the (procs s p)) + ?c p"
      "\<exists>x. procs s1 p = Some x \<and> handler_ok irq x \<and> report_ok (cf_report c p) x"
      "p_settle_count (the (procs s1 p)) = p_settle_count (the (procs s p))"
      using owed_woken [OF x(2,3)] by simp_all
  qed
  have total: "(\<Sum>p \<in> ?ps. owed (cf_report c p) (the (procs s1 p))) = settled_ahead (cf_reaper c) + m"
  proof -
    have "(\<Sum>p \<in> ?ps. owed (cf_report c p) (the (procs s1 p))) = line_owed c irq + m"
      unfolding m_def line_owed_def s_def [symmetric] by (subst sum.distrib [symmetric], rule sum.cong) (use u1(1) in auto)
    then show ?thesis using inv(7) z(1) by simp
  qed
  have inv2: "conf_inv (c\<lparr>cf_tasks := ?s2\<lparr>disabled_status := ds\<rparr>\<rparr>) irq"
    if "length ds = 2" "bit (ds ! (irq div 8)) (irq mod 8) \<longleftrightarrow> m \<noteq> 0" for ds
  proof -
    have lp: "line_procs (s1\<lparr>unsettled_procs := us, disabled_status := ds\<rparr>) irq = line_procs s irq" for us
      using s1(3) by (simp add: line_procs_def)
    have "\<forall>p. reaper_proc (cf_reaper c) = Some p \<longrightarrow> p \<in> ?ps \<and> 0 < p_settle_count (the (procs s1 p))"
      using inv(10,11) u1(3) by simp
    then show ?thesis unfolding conf_inv_def Let_def line_owed_def
      using inv(1-5) s1(3,4) u1(2) total that z(2) by (simp add: lp masked_def)
  qed
  show ?thesis unfolding s_def [symmetric]
  proof (cases "m = 0")
    case True
    have "?s2\<lparr>disabled_status := disabled_status s\<rparr> = ?s2" using s1(5) by simp
    with True run inv2 [of "disabled_status s"] inv(4) assms(3) s1(3)
    show "\<exists>s'. i386_irq kh s irq in_service = Inr s' \<and> conf_inv (c\<lparr>cf_tasks := s'\<rparr>) irq \<and> handlers s' = handlers s"
      by (simp add: masked_def s_def)
  next
    case False
    have "\<exists>ds. enable_irq ?s2 irq False = Inr (?s2\<lparr>disabled_status := ds\<rparr>) \<and> length ds = 2
        \<and> (bit (ds ! (irq div 8)) (irq mod 8) \<longleftrightarrow> \<not> False)"
      by (rule enable_irq_mask) (use inv(1,4) s1(5) in simp_all)
    then obtain ds where ds: "enable_irq ?s2 irq False = Inr (?s2\<lparr>disabled_status := ds\<rparr>)" "length ds = 2"
        "bit (ds ! (irq div 8)) (irq mod 8)" by blast
    with False run inv2 [OF ds(2)] s1(3)
    show "\<exists>s'. i386_irq kh s irq in_service = Inr s' \<and> conf_inv (c\<lparr>cf_tasks := s'\<rparr>) irq \<and> handlers s' = handlers s"
      by simp
  qed
qed

lemma deliver_ok:
  assumes "kernel_quiet kh" "line_inv s irq" "\<not> masked s irq"
  shows "\<exists>s'. i386_irq kh s irq in_service = Inr s' \<and> line_inv s' irq \<and> handlers s' = handlers s"
proof -
  have "(quiet_conf s)\<lparr>cf_tasks := s'\<rparr> = quiet_conf s'" "cf_tasks (quiet_conf s) = s" for s' by (simp_all add: quiet_conf_def)
  then show ?thesis using deliver_conf [OF assms(1), of "quiet_conf s" irq in_service] assms(2,3)
    by (simp add: quiet_conf_inv)
qed


subsection \<open>Reports\<close>

lemma conf_at:
  assumes "conf_inv c irq" "p \<in> set (line_procs (cf_tasks c) irq)"
  obtains x where "procs (cf_tasks c) p = Some x" "handler_ok irq x" "report_ok (cf_report c p) x"
    "pget (cf_tasks c) p = Inr x" "nat (p_handled_irq x) = irq"
  using conf_invD(6) [OF assms] by (auto simp: pget_def pderef_def handler_ok_def)

lemma line_procs_pset [simp]: "line_procs (pset s p x) irq = line_procs s irq"
  by (simp add: line_procs_def pset_def)

lemma report_conf:
  assumes inv: "conf_inv c irq" and p: "p \<in> set (line_procs (cf_tasks c) irq)"
    and h: "cf_report c p \<noteq> DIdle \<or> p_handling_irq (the (procs (cf_tasks c) p))"
  shows "\<exists>c'. report_next c p = Inr c' \<and> conf_inv c' irq \<and> handlers (cf_tasks c') = handlers (cf_tasks c)"
proof -
  from conf_at [OF inv p] obtain x where x: "procs (cf_tasks c) p = Some x" "handler_ok irq x"
    "report_ok (cf_report c p) x" "pget (cf_tasks c) p = Inr x" "nat (p_handled_irq x) = irq" .
  note i = conf_invD [OF inv]
  let ?to = "\<lambda>y r. c\<lparr>cf_tasks := pset (cf_tasks c) p y, cf_report := (cf_report c)(p := r)\<rparr>"
  have keep: "conf_inv (?to y r) irq"
    if y: "handler_ok irq y" "report_ok r y" "owed r y = owed (cf_report c p) x" "p_settle_count x \<le> p_settle_count y" for y r
  proof (rule conf_inv_proc [OF inv p x(1), of "?to y r" y r])
    fix q assume q: "reaper_proc (cf_reaper (?to y r)) = Some q"
    then have "reaper_proc (cf_reaper c) = Some q" by simp
    with i(10,11) [of q] y(4) x(1)
    show "q \<in> set (line_procs (cf_tasks c) irq) \<and> 0 < p_settle_count (the (procs (cf_tasks (?to y r)) q))"
      by (auto simp: pset_def)
  qed (use i y in \<open>auto simp: pset_def masked_def\<close>)
  show ?thesis
  proof (cases "cf_report c p")
    case DIdle
    let ?y = "x\<lparr>p_handling_irq := False\<rparr>"
    have "p_handling_irq x" using h DIdle x(1) by simp
    then have "report_next c p = Inr (?to ?y DCount)" "conf_inv (?to ?y DCount) irq"
      using DIdle x(1,2,4) by (auto simp: report_next_def report_handled_def pupd_def handler_ok_def
          report_ok_def owed_def unsettled_def intro!: keep)
    then show ?thesis by (simp add: pset_def)
  next
    case DCount
    let ?y = "x\<lparr>p_settle_count := p_settle_count x + 1\<rparr>"
    have "report_next c p = Inr (?to ?y DStatus)" "conf_inv (?to ?y DStatus) irq"
      using DCount x(1-4) by (auto simp: report_next_def report_count_def pupd_def handler_ok_def
          report_ok_def owed_def unsettled_def intro!: keep)
    then show ?thesis by (simp add: pset_def)
  next
    case DStatus
    let ?y = "x\<lparr>p_status := PROCESS_DAEMON\<rparr>"
    have "report_next c p = Inr (?to ?y DIdle)" "conf_inv (?to ?y DIdle) irq"
      using DStatus x(1-4) by (auto simp: report_next_def report_daemon_def pupd_def handler_ok_def
          report_ok_def owed_def unsettled_def intro!: keep)
    then show ?thesis by (simp add: pset_def)
  qed
qed

subsection \<open>The reaper\<close>

lemma owed_nonneg: "handler_ok irq x \<Longrightarrow> p_settle_count x \<le> owed r x \<and> 0 \<le> owed r x"
  by (simp add: owed_def unsettled_def handler_ok_def)

text \<open>In front of the assertion and the decrement the counter is positive.\<close>

lemma conf_count_pos:
  assumes inv: "conf_inv c irq" and p: "reaper_proc (cf_reaper c) = Some p" and z: "settled_ahead (cf_reaper c) = 0"
  shows "0 < unsettled_procs (cf_tasks c) ! irq"
proof -
  note i = conf_invD [OF inv]
  let ?o = "\<lambda>q. owed (cf_report c q) (the (procs (cf_tasks c) q))"
  have nn: "0 \<le> ?o q \<and> p_settle_count (the (procs (cf_tasks c) q)) \<le> ?o q" if "q \<in> set (line_procs (cf_tasks c) irq)" for q
    using i(6) [OF that] owed_nonneg by fastforce
  have "?o p \<le> line_owed c irq"
    unfolding line_owed_def by (rule member_le_sum) (use i(10) [OF p] nn in auto)
  then show ?thesis using i(7) z nn [OF i(10) [OF p]] i(11) [OF p] by linarith
qed

lemma conf_inv_pc:
  assumes inv: "conf_inv c irq"
    and "settled_ahead pc = settled_ahead (cf_reaper c)" "enabling pc = enabling (cf_reaper c)"
    and "\<And>p. reaper_proc pc = Some p \<Longrightarrow>
        p \<in> set (line_procs (cf_tasks c) irq) \<and> 0 < p_settle_count (the (procs (cf_tasks c) p))"
  shows "conf_inv (c\<lparr>cf_reaper := pc\<rparr>) irq"
proof -
  have "line_owed (c\<lparr>cf_reaper := pc\<rparr>) irq = line_owed c irq" by (simp add: line_owed_def)
  with assms show ?thesis by (auto simp: conf_inv_def Let_def)
qed

lemma look_conf:
  assumes "conf_inv c irq" "p \<in> set (line_procs (cf_tasks c) irq)" "cf_reaper c = RIdle"
  shows "\<exists>c'. reaper_look c p = Inr c' \<and> conf_inv c' irq \<and> handlers (cf_tasks c') = handlers (cf_tasks c)"
proof -
  from conf_at [OF assms(1,2)] obtain x where x: "procs (cf_tasks c) p = Some x" "pget (cf_tasks c) p = Inr x" .
  have "conf_inv (c\<lparr>cf_reaper := RStatus p\<rparr>) irq" if "0 < p_settle_count x"
    by (rule conf_inv_pc [OF assms(1)]) (use that assms(2,3) x(1) in auto)
  then show ?thesis using assms(1) x(2) by (auto simp: reaper_look_def)
qed

lemma reaper_next_conf:
  assumes inv: "conf_inv c irq"
  shows "\<exists>c'. reaper_next c = Inr c' \<and> conf_inv c' irq \<and> handlers (cf_tasks c') = handlers (cf_tasks c)"
proof (cases "reaper_proc (cf_reaper c)")
  case None
  then have "cf_reaper c = RIdle" by (cases "cf_reaper c") simp_all
  then show ?thesis using inv by (simp add: reaper_next_def)
next
  case (Some p)
  note i = conf_invD [OF inv]
  have p: "p \<in> set (line_procs (cf_tasks c) irq)" using i(10) [OF Some] .
  from conf_at [OF inv p] obtain x where x: "procs (cf_tasks c) p = Some x" "handler_ok irq x"
    "report_ok (cf_report c p) x" "pget (cf_tasks c) p = Inr x" "nat (p_handled_irq x) = irq" .
  have pos: "0 < p_settle_count x" using i(11) [OF Some] x(1) by simp
  have upd: "procs (cf_tasks c) = (procs (cf_tasks c))(p \<mapsto> x)" "cf_report c = (cf_report c)(p := cf_report c p)"
    using x(1) by auto
  have rest: "q \<in> set (line_procs (cf_tasks c) irq) \<and> 0 < p_settle_count (the (procs (cf_tasks c) q))"
    if "q = p" for q using that p pos x(1) by simp
  show ?thesis
  proof (cases "cf_reaper c")
    case RIdle
    with Some show ?thesis by simp
  next
    case (RStatus q)
    have "conf_inv (c\<lparr>cf_reaper := if p_status x = PROCESS_DAEMON then RAssert p else RIdle\<rparr>) irq"
      by (rule conf_inv_pc [OF inv]) (use RStatus rest in \<open>auto split: if_splits\<close>)
    then show ?thesis using RStatus Some x(4) by (simp add: reaper_next_def)
  next
    case (RAssert q)
    have n: "0 < unsettled_procs (cf_tasks c) ! irq" by (rule conf_count_pos [OF inv Some]) (simp add: RAssert)
    have "conf_inv (c\<lparr>cf_reaper := RSub p\<rparr>) irq" by (rule conf_inv_pc [OF inv]) (use RAssert rest in auto)
    then show ?thesis using RAssert Some x(4,5) n i(1,3) by (simp add: reaper_next_def irq_assert_def)
  next
    case (RSub q)
    define n where "n = unsettled_procs (cf_tasks c) ! irq"
    have n: "0 < n" unfolding n_def by (rule conf_count_pos [OF inv Some]) (simp add: RSub)
    let ?pc = "if n - 1 = 0 then REnable p else RDecr p"
    let ?c = "c\<lparr>cf_tasks := (cf_tasks c)\<lparr>unsettled_procs := (unsettled_procs (cf_tasks c))[irq := n - 1]\<rparr>, cf_reaper := ?pc\<rparr>"
    have "masked (cf_tasks c) irq" using i(8) n n_def by simp
    then have "conf_inv ?c irq"
      by (intro conf_inv_proc [OF inv p x(1), of ?c x "cf_report c p"])
         (use i(1-4) x(2,3) upd rest RSub n n_def in \<open>auto simp: masked_def split: if_splits\<close>)
    then show ?thesis using RSub Some x(4,5) i(1,3) by (simp add: reaper_next_def irq_sub_def n_def Let_def)
  next
    case (REnable q)
    obtain ds where ds: "enable_irq (cf_tasks c) irq True = Inr ((cf_tasks c)\<lparr>disabled_status := ds\<rparr>)" "length ds = 2"
        "\<not> bit (ds ! (irq div 8)) (irq mod 8)"
      using enable_irq_mask [OF i(1,4), of True] by auto
    let ?c = "c\<lparr>cf_tasks := (cf_tasks c)\<lparr>disabled_status := ds\<rparr>, cf_reaper := RDecr p\<rparr>"
    have "unsettled_procs (cf_tasks c) ! irq = 0" using i(9) REnable by simp
    then have "conf_inv ?c irq"
      by (intro conf_inv_proc [OF inv p x(1), of ?c x "cf_report c p"])
         (use i(1-4) x(2,3) upd rest REnable ds in \<open>auto simp: masked_def\<close>)
    then show ?thesis using REnable Some x(4,5) ds(1) by (simp add: reaper_next_def)
  next
    case (RDecr q)
    let ?y = "x\<lparr>p_settle_count := p_settle_count x - 1\<rparr>"
    let ?pc = "if p_settle_count x - 1 \<noteq> 0 then RAssert p else RIdle"
    let ?c = "c\<lparr>cf_tasks := pset (cf_tasks c) p ?y, cf_reaper := ?pc\<rparr>"
    have "conf_inv ?c irq"
      by (intro conf_inv_proc [OF inv p x(1), of ?c ?y "cf_report c p"])
         (use i(1-4,8) x(2,3) pos p upd(2) RDecr in
           \<open>auto simp: pset_def masked_def handler_ok_def report_ok_def owed_def unsettled_def split: if_splits\<close>)
    then show ?thesis using RDecr Some x(4) by (simp add: reaper_next_def settle_sub_def Let_def pset_def)
  qed
qed

subsection \<open>The rest of the system\<close>

lemma proc_same_facts:
  assumes "proc_same x y"
  shows "handler_ok irq y = handler_ok irq x" "report_ok r y = report_ok r x" "owed r y = owed r x"
    "p_settle_count y = p_settle_count x"
  using assms by (simp_all add: proc_same_def handler_ok_def report_ok_def owed_def unsettled_def)

lemma other_conf:
  assumes inv: "conf_inv c irq" and same: "line_same irq (cf_tasks c) s'"
  shows "conf_inv (c\<lparr>cf_tasks := s'\<rparr>) irq"
proof -
  note i = conf_invD [OF inv]
  have lp: "line_procs s' irq = line_procs (cf_tasks c) irq" using same by (simp add: line_same_def line_procs_def)
  have y: "\<exists>x y. procs (cf_tasks c) p = Some x \<and> handler_ok irq x \<and> report_ok (cf_report c p) x \<and> procs s' p = Some y \<and> proc_same x y"
    if "p \<in> set (line_procs (cf_tasks c) irq)" for p
    using i(6) [OF that] same that unfolding line_same_def by blast
  have "line_owed (c\<lparr>cf_tasks := s'\<rparr>) irq = line_owed c irq"
    unfolding line_owed_def by (rule sum.cong) (use y proc_same_facts(3) in \<open>force simp: lp\<close>)+
  moreover have "\<exists>z. procs s' p = Some z \<and> handler_ok irq z \<and> report_ok (cf_report c p) z"
    if "p \<in> set (line_procs (cf_tasks c) irq)" for p
    using y [OF that] proc_same_facts(1,2) by blast
  moreover have "p \<in> set (line_procs (cf_tasks c) irq) \<and> 0 < p_settle_count (the (procs s' p))"
    if "reaper_proc (cf_reaper c) = Some p" for p
    using y [OF i(10) [OF that]] i(10,11) [OF that] proc_same_facts(4) by auto
  moreover have "length (handlers s') = 16" "length (unsettled_procs s') = 16" "length (disabled_status s') = 2"
    "unsettled_procs s' ! irq = unsettled_procs (cf_tasks c) ! irq" "masked s' irq = masked (cf_tasks c) irq"
    using same i(2-4) by (simp_all add: line_same_def)
  ultimately show ?thesis unfolding conf_inv_def Let_def using i(1,5,7-9) by (simp add: lp)
qed

subsection \<open>The protocol\<close>

lemma irq_step_inv:
  assumes "kernel_quiet kh" "irq_step kh irq c c'" "conf_inv c irq"
  shows "conf_inv c' irq"
  using assms(2)
proof cases
  case (deliver b s')
  then show ?thesis using deliver_conf [OF assms(1,3), of b] by auto
next
  case (report p)
  have "cf_report c p \<noteq> DIdle \<or> p_handling_irq (the (procs (cf_tasks c) p))"
    using report(2) by (auto simp: report_next_def report_handled_def pget_def pderef_def outcome_simps Let_def split: report_pc.splits option.splits)
  then show ?thesis using report_conf [OF assms(3) report(1)] report(2) by auto
next
  case (look p)
  then show ?thesis using look_conf [OF assms(3)] by fastforce
next
  case settle
  then show ?thesis using reaper_next_conf [OF assms(3)] by auto
next
  case (other s')
  then show ?thesis using other_conf [OF assms(3)] by simp
qed

lemma irq_reachable:
  assumes "kernel_quiet kh" "conf_inv c irq" "(irq_step kh irq)\<^sup>*\<^sup>* c c'"
  shows "conf_inv c' irq"
  using assms(3) by (induction rule: rtranclp_induct) (use assms(2) irq_step_inv [OF assms(1)] in auto)

text \<open>
  C3: let the kernel's own handlers leave processes and the controller alone, and start where the counter and the
  mask of the line agree with its processes and neither the reaper nor a report is under way. In every
  state that can be reached from there by any interleaving of interrupts on the unmasked line, the single stores of its processes' reports, the single accesses of the reaper's loop
  (the test of a process, the assertion and the atomic decrement of \<open>irq_settled\<close>, \<open>enable_irq\<close>, the
  atomic decrement of the count) and changes elsewhere that leave the line alone: the counter of the
  line is what its processes are owed (those still handling, those between the two stores of a report,
  and the counts not yet settled), less one while the reaper is between its two decrements; the line is
  masked exactly while the counter is not zero or the reaper is in front of \<open>enable_irq\<close>; and no
  assertion of the interrupt code fails: an interrupt on the unmasked line, the next store of a process
  that handles the interrupt or has begun to report, and the reaper's next access all succeed.
\<close>

theorem irq_protocol_safe:
  assumes "kernel_quiet kh" "line_inv s irq" "(irq_step kh irq)\<^sup>*\<^sup>* (quiet_conf s) c" "t = cf_tasks c"
  shows "(masked t irq \<longleftrightarrow> unsettled_procs t ! irq \<noteq> 0 \<or> (\<exists>p. cf_reaper c = REnable p))
    \<and> unsettled_procs t ! irq = (\<Sum>p \<in> set (line_procs t irq).
          unsettled (the (procs t p)) + (if cf_report c p = DCount then 1 else 0))
        - (if \<exists>p. cf_reaper c = REnable p \<or> cf_reaper c = RDecr p then 1 else 0)
    \<and> (\<not> masked t irq \<longrightarrow> (\<exists>s'. i386_irq kh t irq in_service = Inr s'))
    \<and> (\<forall>p \<in> set (line_procs t irq). p_handling_irq (the (procs t p)) \<or> cf_report c p \<noteq> DIdle \<longrightarrow>
          (\<exists>c'. report_next c p = Inr c'))
    \<and> (\<exists>c'. reaper_next c = Inr c')"
proof -
  have inv: "conf_inv c irq" using irq_reachable [OF assms(1) _ assms(3)] assms(2) by (simp add: quiet_conf_inv)
  have "enabling (cf_reaper c) \<longleftrightarrow> (\<exists>p. cf_reaper c = REnable p)"
    "settled_ahead (cf_reaper c) = (if \<exists>p. cf_reaper c = REnable p \<or> cf_reaper c = RDecr p then 1 else 0)"
    by (cases "cf_reaper c"; simp)+
  then show ?thesis unfolding assms(4)
    using conf_invD(7,8) [OF inv] deliver_conf [OF assms(1) inv, of in_service] report_conf [OF inv] reaper_next_conf [OF inv]
    by (intro conjI ballI impI) (auto simp: line_owed_def owed_def)
qed

subsection \<open>The reaper undisturbed\<close>

text \<open>The sequential model of the loop is a run of these steps.\<close>

lemma settle_loop_steps:
  assumes "settle_loop k s p = Inr s'"
  shows "(irq_step kh irq)\<^sup>*\<^sup>* \<lparr>cf_tasks = s, cf_reaper = RAssert p, cf_report = r\<rparr>
      \<lparr>cf_tasks = s', cf_reaper = RIdle, cf_report = r\<rparr>"
  using assms
proof (induction k arbitrary: s)
  case (Suc k)
  let ?c = "\<lambda>s pc. \<lparr>cf_tasks = s, cf_reaper = pc, cf_report = r\<rparr>"
  from Suc.prems obtain x n s1 m s2 s3 where run: "pget s p = Inr x" "irq_assert s (nat (p_handled_irq x)) = Inr ()"
      "irq_sub s (nat (p_handled_irq x)) = Inr (n, s1)"
      "(if n = 0 then enable_irq s1 (nat (p_handled_irq x)) True else Inr s1) = Inr s2"
      "settle_sub s2 p = Inr (m, s3)" "(if m \<noteq> 0 then settle_loop k s3 p else Inr s3) = Inr s'"
    by (auto simp: irq_settled_def outcome_simps)
  have x1: "pget s1 p = Inr x"
    using run(1,3) by (auto simp: irq_sub_def outcome_simps pget_def pderef_def split: option.splits if_splits)
  have "irq_step kh irq (?c s (RAssert p)) (?c s (RSub p))"
    by (rule irq_step.settle) (use run in \<open>simp add: reaper_next_def Let_def\<close>)
  moreover have "irq_step kh irq (?c s (RSub p)) (?c s1 (if n = 0 then REnable p else RDecr p))"
    by (rule irq_step.settle) (use run in \<open>simp add: reaper_next_def Let_def\<close>)
  moreover have "(irq_step kh irq)\<^sup>*\<^sup>* (?c s1 (if n = 0 then REnable p else RDecr p)) (?c s2 (RDecr p))"
  proof (cases "n = 0")
    case True
    have "irq_step kh irq (?c s1 (REnable p)) (?c s2 (RDecr p))"
      by (rule irq_step.settle) (use run True x1 in \<open>simp add: reaper_next_def Let_def\<close>)
    with True show ?thesis by simp
  qed (use run in simp)
  moreover have "irq_step kh irq (?c s2 (RDecr p)) (?c s3 (if m \<noteq> 0 then RAssert p else RIdle))"
    by (rule irq_step.settle) (use run in \<open>simp add: reaper_next_def Let_def\<close>)
  moreover have "(irq_step kh irq)\<^sup>*\<^sup>* (?c s3 (if m \<noteq> 0 then RAssert p else RIdle)) (?c s' RIdle)"
    using run(6) Suc.IH [of s3] by (auto split: if_splits)
  ultimately show ?case by (meson converse_rtranclp_into_rtranclp rtranclp_trans)
qed simp

lemma reaper_settle_steps:
  assumes "reaper_settle s p = Inr s'" "p \<in> set (line_procs s irq)"
  shows "(irq_step kh irq)\<^sup>*\<^sup>* (quiet_conf s) (quiet_conf s')"
proof (cases "s' = s")
  case False
  from assms(1) obtain x where x: "pget s p = Inr x" by (auto simp: reaper_settle_def outcome_simps)
  with False assms(1) have g: "p_handled_irq x \<ge> 0" "p_settle_count x > 0" "p_status x = PROCESS_DAEMON"
      "settle_loop (nat (p_settle_count x)) s p = Inr s'"
    by (auto simp: reaper_settle_def split: if_splits)
  let ?c = "\<lambda>pc. (quiet_conf s)\<lparr>cf_reaper := pc\<rparr>"
  have "irq_step kh irq (quiet_conf s) (?c (RStatus p))"
    by (rule irq_step.look [of p]) (use assms(2) x g in \<open>simp_all add: quiet_conf_def reaper_look_def\<close>)
  moreover have "irq_step kh irq (?c (RStatus p)) (?c (RAssert p))"
    by (rule irq_step.settle) (use x g in \<open>simp add: quiet_conf_def reaper_next_def\<close>)
  moreover have "(irq_step kh irq)\<^sup>*\<^sup>* (?c (RAssert p)) (quiet_conf s')"
    using settle_loop_steps [OF g(4), of kh irq "\<lambda>_. DIdle"] by (simp add: quiet_conf_def)
  ultimately show ?thesis by (meson converse_rtranclp_into_rtranclp)
qed simp

text \<open>So is a report that nothing interrupts.\<close>

lemma report_steps:
  assumes "daemonize_from_irq_handler s p = Inr s'" "p \<in> set (line_procs s irq)"
  shows "(irq_step kh irq)\<^sup>*\<^sup>* (quiet_conf s) (quiet_conf s')"
proof -
  from assms(1) obtain s1 s2 where run: "report_handled s p = Inr s1" "report_count s1 p = Inr s2" "report_daemon s2 p = Inr s'"
    by (auto simp: daemonize_from_irq_handler_def outcome_simps)
  have lp: "line_procs s1 irq = line_procs s irq" "line_procs s2 irq = line_procs s irq"
    using run(1,2) by (auto simp: report_handled_def report_count_def pupd_def outcome_simps)
  let ?c = "\<lambda>s r. \<lparr>cf_tasks = s, cf_reaper = RIdle, cf_report = (\<lambda>_. DIdle)(p := r)\<rparr>"
  have "irq_step kh irq (?c s DIdle) (?c s1 DCount)" "irq_step kh irq (?c s1 DCount) (?c s2 DStatus)"
    "irq_step kh irq (?c s2 DStatus) (?c s' DIdle)"
    by (rule irq_step.report [of p]; use run assms(2) lp in \<open>simp add: report_next_def Let_def\<close>)+
  moreover have "?c t DIdle = quiet_conf t" for t by (auto simp: quiet_conf_def)
  ultimately show ?thesis by (metis converse_rtranclp_into_rtranclp rtranclp.rtrancl_refl)
qed

text \<open>A round of the loop keeps the invariant of the line, so the loop succeeds with the count as fuel.\<close>

lemma settle_round:
  assumes "line_inv s irq" "p \<in> set (line_procs s irq)" "procs s p = Some x" "0 < p_settle_count x"
  shows "\<exists>s1 s2. irq_settled s irq = Inr s1 \<and> settle_sub s1 p = Inr (p_settle_count x - 1, s2) \<and> line_inv s2 irq
    \<and> handlers s2 = handlers s \<and> procs s2 = (procs s)(p \<mapsto> x\<lparr>p_settle_count := p_settle_count x - 1\<rparr>)"
proof -
  let ?y = "x\<lparr>p_settle_count := p_settle_count x - 1\<rparr>"
  have ci: "conf_inv (quiet_conf s) irq" using assms(1) by (simp add: quiet_conf_inv)
  note i = conf_invD [OF ci, unfolded quiet_conf_def, simplified]
  define n where "n = unsettled_procs s ! irq"
  have "conf_inv ((quiet_conf s)\<lparr>cf_reaper := RAssert p\<rparr>) irq"
    by (rule conf_inv_pc [OF ci]) (use assms in \<open>auto simp: quiet_conf_def\<close>)
  from conf_count_pos [OF this, of p] have n: "0 < n" by (simp add: quiet_conf_def n_def)
  obtain ds where ds: "irq_settled s irq = Inr (s\<lparr>unsettled_procs := (unsettled_procs s)[irq := n - 1], disabled_status := ds\<rparr>)"
      "length ds = 2" "bit (ds ! (irq div 8)) (irq mod 8) \<longleftrightarrow> n - 1 \<noteq> 0"
    using irq_settled_ok [OF i(1,4) _ n_def [symmetric] n] i(1,3,8) n n_def by auto
  let ?s1 = "s\<lparr>unsettled_procs := (unsettled_procs s)[irq := n - 1], disabled_status := ds\<rparr>"
  let ?s2 = "pset ?s1 p ?y"
  have ok: "handler_ok irq x" using assms(1-3) by (auto simp: line_inv_def)
  have "conf_inv (quiet_conf ?s2) irq"
    by (intro conf_inv_proc [OF ci, of p x "quiet_conf ?s2" ?y DIdle])
       (use assms(2-4) ok i(1,3) ds n_def in
         \<open>auto simp: quiet_conf_def pset_def masked_def handler_ok_def report_ok_def owed_def unsettled_def fun_eq_iff\<close>)
  moreover have "settle_sub ?s1 p = Inr (p_settle_count x - 1, ?s2)"
    using assms(3) by (simp add: settle_sub_def pget_def pderef_def Let_def)
  ultimately show ?thesis using ds(1) by (intro exI [of _ ?s1] exI [of _ ?s2]) (simp add: quiet_conf_inv pset_def)
qed

lemma settle_loop_ok:
  assumes "line_inv s irq" "p \<in> set (line_procs s irq)" "procs s p = Some x" "p_settle_count x = int (Suc k)"
  shows "\<exists>s'. settle_loop (Suc k) s p = Inr s' \<and> line_inv s' irq \<and> handlers s' = handlers s
    \<and> procs s' = (procs s)(p \<mapsto> x\<lparr>p_settle_count := 0\<rparr>)"
  using assms
proof (induction k arbitrary: s x)
  case 0
  have h: "pget s p = Inr x" "nat (p_handled_irq x) = irq" using 0 by (auto simp: line_inv_def handler_ok_def pget_def pderef_def)
  from settle_round [OF 0(1-3)] 0(4) obtain s1 s2 where r: "irq_settled s irq = Inr s1" "settle_sub s1 p = Inr (0, s2)" "line_inv s2 irq"
      "handlers s2 = handlers s" "procs s2 = (procs s)(p \<mapsto> x\<lparr>p_settle_count := 0\<rparr>)" by auto
  with h show ?case by (simp add: fun_upd_def)
next
  case (Suc k)
  have h: "pget s p = Inr x" "nat (p_handled_irq x) = irq"
    using Suc.prems by (auto simp: line_inv_def handler_ok_def pget_def pderef_def)
  from settle_round [OF Suc.prems(1-3)] Suc.prems(4) obtain s1 s2 where r: "irq_settled s irq = Inr s1"
      "settle_sub s1 p = Inr (int (Suc k), s2)" "line_inv s2 irq"
      "handlers s2 = handlers s" "procs s2 = (procs s)(p \<mapsto> x\<lparr>p_settle_count := int (Suc k)\<rparr>)" by auto
  let ?y = "x\<lparr>p_settle_count := int (Suc k)\<rparr>"
  have "settle_loop (Suc (Suc k)) s p = settle_loop (Suc k) s2 p"
    by (subst settle_loop.simps(2)) (use h r(1,2) in simp)
  moreover have p2: "p \<in> set (line_procs s2 irq)" using r(4) Suc.prems(2) by (simp add: line_procs_def)
  have y2: "procs s2 p = Some ?y" "p_settle_count ?y = int (Suc k)" using r(5) by simp_all
  obtain s' where "settle_loop (Suc k) s2 p = Inr s'" "line_inv s' irq" "handlers s' = handlers s2"
      "procs s' = (procs s2)(p \<mapsto> ?y\<lparr>p_settle_count := 0\<rparr>)"
    using Suc.IH [OF r(3) p2 y2(1,2)] by blast
  moreover have "(procs s2)(p \<mapsto> ?y\<lparr>p_settle_count := 0\<rparr>) = (procs s)(p \<mapsto> x\<lparr>p_settle_count := 0\<rparr>)"
    using r(5) by (simp add: fun_eq_iff)
  ultimately show ?case using r(4) by (simp add: fun_upd_def)
qed

lemma settle_ok:
  assumes "line_inv s irq" "p \<in> set (line_procs s irq)"
  shows "\<exists>s' x. reaper_settle s p = Inr s' \<and> line_inv s' irq \<and> handlers s' = handlers s \<and> procs s p = Some x
    \<and> procs s' = (procs s)(p \<mapsto> if p_status x = PROCESS_DAEMON then x\<lparr>p_settle_count := 0\<rparr> else x)"
proof -
  obtain x where x: "procs s p = Some x" "handler_ok irq x" using assms by (auto simp: line_inv_def)
  have g: "pget s p = Inr x" "0 \<le> p_handled_irq x" using x by (auto simp: pget_def pderef_def handler_ok_def)
  show ?thesis
  proof (cases "p_settle_count x > 0 \<and> p_status x = PROCESS_DAEMON")
    case False
    have "reaper_settle s p = Inr s" using g False by (auto simp: reaper_settle_def)
    moreover have "(if p_status x = PROCESS_DAEMON then x\<lparr>p_settle_count := 0\<rparr> else x) = x"
      using x(2) False by (cases x) (auto simp: handler_ok_def)
    ultimately show ?thesis using assms(1) x(1) by (intro exI [of _ s] exI [of _ x]) auto
  next
    case True
    then obtain k where k: "p_settle_count x = int (Suc k)" by (metis pos_int_cases Suc_pred)
    then have "reaper_settle s p = settle_loop (Suc k) s p" using True g by (simp add: reaper_settle_def del: of_nat_Suc settle_loop.simps)
    with settle_loop_ok [OF assms x(1) k] True x(1) show ?thesis by (auto simp del: settle_loop.simps)
  qed
qed

text \<open>Settling every process of a line after all of them have reported.\<close>

lemma settle_all:
  assumes "line_inv s irq" "set ps \<subseteq> set (line_procs s irq)"
    and "\<forall>p \<in> set (line_procs s irq). p_status (the (procs s p)) = PROCESS_DAEMON"
  shows "\<exists>s'. rfold reaper_settle s ps = Inr s' \<and> line_inv s' irq \<and> handlers s' = handlers s
    \<and> (\<forall>p. p_status (the (procs s' p)) = p_status (the (procs s p)))
    \<and> (\<forall>p \<in> set (line_procs s irq). p \<in> set ps \<or> p_settle_count (the (procs s p)) = 0 \<longrightarrow> p_settle_count (the (procs s' p)) = 0)"
  using assms
proof (induction ps arbitrary: s)
  case Nil
  then show ?case by simp
next
  case (Cons p ps)
  from Cons.prems(2) have p: "p \<in> set (line_procs s irq)" by simp
  obtain s1 x where s1: "reaper_settle s p = Inr s1" "line_inv s1 irq" "handlers s1 = handlers s" "procs s p = Some x"
      "procs s1 = (procs s)(p \<mapsto> if p_status x = PROCESS_DAEMON then x\<lparr>p_settle_count := 0\<rparr> else x)"
    using settle_ok [OF Cons.prems(1) p] by blast
  have d: "p_status x = PROCESS_DAEMON" using Cons.prems(3) p s1(4) by fastforce
  have lp: "line_procs s1 irq = line_procs s irq" using s1(3) by (simp add: line_procs_def)
  have st: "p_status (the (procs s1 q)) = p_status (the (procs s q))" for q using s1(4,5) by auto
  obtain s' where s': "rfold reaper_settle s1 ps = Inr s'" "line_inv s' irq" "handlers s' = handlers s1"
      "\<forall>p. p_status (the (procs s' p)) = p_status (the (procs s1 p))"
      "\<forall>p \<in> set (line_procs s irq). p \<in> set ps \<or> p_settle_count (the (procs s1 p)) = 0 \<longrightarrow> p_settle_count (the (procs s' p)) = 0"
    using Cons.IH [OF s1(2)] Cons.prems(2,3) st lp by auto
  have "p_settle_count (the (procs s1 q)) = 0" if "q = p \<or> p_settle_count (the (procs s q)) = 0" for q
    using that d s1(5) by (cases "q = p") auto
  then show ?case using s1(1,3) s' st by (intro exI [of _ s']) auto
qed

text \<open>
  C37: once every process of a line has reported back, one round of the reaper over them settles the
  line: its counter is zero, it is unmasked, and the next interrupt is delivered.
\<close>

theorem irq_line_reopens:
  assumes "kernel_quiet kh" "line_inv s irq"
    and "\<forall>p \<in> set (line_procs s irq). p_status (the (procs s p)) = PROCESS_DAEMON"
  shows "\<exists>s' s''. rfold reaper_settle s (line_procs s irq) = Inr s' \<and> unsettled_procs s' ! irq = 0 \<and> \<not> masked s' irq
    \<and> i386_irq kh s' irq in_service = Inr s''"
proof -
  obtain s' where s': "rfold reaper_settle s (line_procs s irq) = Inr s'" "line_inv s' irq" "handlers s' = handlers s"
      "\<forall>p. p_status (the (procs s' p)) = p_status (the (procs s p))"
      "\<forall>p \<in> set (line_procs s irq). p_settle_count (the (procs s' p)) = 0"
    using settle_all [OF assms(2) subset_refl assms(3)] by auto
  have lp: "line_procs s' irq = line_procs s irq" using s'(3) by (simp add: line_procs_def)
  have "unsettled (the (procs s' p)) = 0" if "p \<in> set (line_procs s' irq)" for p
  proof -
    from s'(2) that obtain x where x: "procs s' p = Some x" "handler_ok irq x" by (auto simp: line_inv_def)
    have "p_status x = PROCESS_DAEMON" using s'(4) x(1) assms(3) that lp by (metis option.sel)
    with x s'(5) that lp show ?thesis by (auto simp: unsettled_def handler_ok_def)
  qed
  then have "(\<Sum>p \<in> set (line_procs s' irq). unsettled (the (procs s' p))) = 0" by simp
  with s'(2) have u: "unsettled_procs s' ! irq = 0" "\<not> masked s' irq" by (auto simp: line_inv_def)
  with deliver_ok [OF assms(1) s'(2) u(2)] s'(1) show ?thesis by blast
qed

subsection \<open>A concrete line\<close>

definition demo_irq :: tasks where
  "demo_irq = demo_tasks\<lparr>
     procs := [0x1000 \<mapsto> null_process\<lparr>p_pid := 1, p_status := PROCESS_DAEMON, p_handled_irq := 3, p_tls := 0x10, p_settle_count := 1\<rparr>],
     handlers := (replicate 16 [])[3 := [UserIsr 0 0x1000 0 0]], unsettled_procs := (replicate 16 0)[3 := 1],
     disabled_status := [8, 0]\<rparr>"

lemma demo_irq_inv: "line_inv demo_irq 3"
proof -
  have lp: "line_procs demo_irq 3 = [0x1000]" by (simp add: line_procs_def demo_irq_def)
  have x: "procs demo_irq 0x1000 = Some (null_process\<lparr>p_pid := 1, p_status := PROCESS_DAEMON, p_handled_irq := 3,
      p_tls := 0x10, p_settle_count := 1\<rparr>)" by (simp add: demo_irq_def)
  have "masked demo_irq 3" "unsettled_procs demo_irq ! 3 = 1"
    by (simp_all add: demo_irq_def masked_def bit_iff_odd_drop_bit)
  moreover have "length (handlers demo_irq) = 16" "length (unsettled_procs demo_irq) = 16" "length (disabled_status demo_irq) = 2"
    by (simp_all add: demo_irq_def)
  moreover have "handler_ok 3 (the (procs demo_irq 0x1000))" "unsettled (the (procs demo_irq 0x1000)) = 1"
    by (simp_all add: x handler_ok_def unsettled_def null_process_def)
  ultimately show ?thesis using x by (simp add: line_inv_def lp)
qed

lemma kernel_quiet_id: "kernel_quiet (\<lambda>h s. s)"
  by (simp add: kernel_quiet_def)

theorem irq_protocol_safe_witness:
  "\<exists>c. (irq_step (\<lambda>h s. s) 3)\<^sup>*\<^sup>* (quiet_conf demo_irq) c \<and> cf_reaper c = REnable 0x1000 \<and> masked (cf_tasks c) 3
    \<and> unsettled_procs (cf_tasks c) ! 3 = 0"
proof -
  let ?s = "demo_irq\<lparr>unsettled_procs := replicate 16 0\<rparr>" and ?c = "\<lambda>s pc. (quiet_conf s)\<lparr>cf_reaper := pc\<rparr>"
  have x: "pget demo_irq 0x1000 = Inr (the (procs demo_irq 0x1000))" by (simp add: demo_irq_def pget_def pderef_def)
  have f: "p_handled_irq (the (procs demo_irq 0x1000)) = 3" "p_settle_count (the (procs demo_irq 0x1000)) = 1"
    "p_status (the (procs demo_irq 0x1000)) = PROCESS_DAEMON"
    by (simp_all add: demo_irq_def)
  have "irq_step (\<lambda>h s. s) 3 (quiet_conf demo_irq) (?c demo_irq (RStatus 0x1000))"
    by (rule irq_step.look [of "0x1000"]) (simp_all add: quiet_conf_def reaper_look_def x f, simp add: line_procs_def demo_irq_def)
  moreover have "irq_step (\<lambda>h s. s) 3 (?c demo_irq (RStatus 0x1000)) (?c demo_irq (RAssert 0x1000))"
    by (rule irq_step.settle) (simp add: quiet_conf_def reaper_next_def x f)
  moreover have "irq_assert demo_irq 3 = Inr ()" "irq_sub demo_irq 3 = Inr (0, ?s)"
    by (simp_all add: irq_assert_def irq_sub_def demo_irq_def numeral_eq_Suc)
  then have "irq_step (\<lambda>h s. s) 3 (?c demo_irq (RAssert 0x1000)) (?c demo_irq (RSub 0x1000))"
    "irq_step (\<lambda>h s. s) 3 (?c demo_irq (RSub 0x1000)) (?c ?s (REnable 0x1000))"
    by (auto intro!: irq_step.settle simp: quiet_conf_def reaper_next_def x f)
  ultimately have run: "(irq_step (\<lambda>h s. s) 3)\<^sup>*\<^sup>* (quiet_conf demo_irq) (?c ?s (REnable 0x1000))"
    by (meson converse_rtranclp_into_rtranclp rtranclp.rtrancl_refl)
  from irq_protocol_safe [OF kernel_quiet_id demo_irq_inv run refl] have "masked ?s 3"
    by (simp add: quiet_conf_def)
  with run show ?thesis by (intro exI [of _ "?c ?s (REnable 0x1000)"]) (simp add: quiet_conf_def)
qed

theorem irq_line_reopens_witness:
  "\<exists>s'. rfold reaper_settle demo_irq (line_procs demo_irq 3) = Inr s' \<and> \<not> masked s' 3"
  using irq_line_reopens [OF kernel_quiet_id demo_irq_inv, of True]
  by (auto simp: line_procs_def demo_irq_def)

end
