(* ===== verification/Scheduler.thy ===== *)
theory Scheduler
  imports Tasks
begin

text \<open>
  The scheduler (\<open>src/kernel/common/tasking/scheduler.c\<close>) and the dispatcher
  (\<open>src/kernel/common/tasking/dispatch.c\<close>, \<open>src/kernel/arch/i386/tasking/dispatch.c\<close>). The static
  \<open>schedule_tick\<close> is an argument and part of the result. A failed \<open>trylock\<close> is the argument
  \<open>lock_free = False\<close>. \<open>stack_ok\<close> tells whether the saved registers of a process satisfy the
  assertion at the end of \<open>schedule\<close>.
\<close>

subsection \<open>Choosing a process\<close>

record scan =
  switch_target :: u32
  irq_process :: u32
  max_sched_diff :: u32
  eldest :: u32

definition scan_process :: "u32 \<Rightarrow> int \<Rightarrow> scan \<Rightarrow> u32 \<Rightarrow> process \<Rightarrow> scan" where
  "scan_process tick switch_to r proc x =
     (if p_status x \<noteq> PROCESS_ACTIVE then r
      else
        let r = (if p_pid x = switch_to then r\<lparr>switch_target := proc\<rparr> else r);
            r = (if p_handled_irq x \<ge> 0 \<and> p_handling_irq x \<and> p_fresh_irq x then r\<lparr>irq_process := proc\<rparr> else r)
        in if tick - p_schedule_tick x > max_sched_diff r
           then r\<lparr>max_sched_diff := tick - p_schedule_tick x, eldest := proc\<rparr> else r)"

fun scan_runqueue :: "pstore \<Rightarrow> u32 \<Rightarrow> int \<Rightarrow> nat \<Rightarrow> scan \<Rightarrow> u32 \<Rightarrow> scan outcome" where
  "scan_runqueue st tick switch_to 0 r p = (if p = 0 then Inr r else Inl NoReturn)"
| "scan_runqueue st tick switch_to (Suc n) r p =
     (if p = 0 then Inr r
      else rbind (pderef st p) (\<lambda>x.
        scan_runqueue st tick switch_to n (scan_process tick switch_to r p x) (p_rq_next x)))"

definition no_scan :: scan where
  "no_scan = \<lparr>switch_target = 0, irq_process = 0, max_sched_diff = 0, eldest = 0\<rparr>"

text \<open>The end of \<open>schedule\<close>, after the search.\<close>

definition pick_process :: "(u32 \<Rightarrow> bool) \<Rightarrow> tasks \<Rightarrow> scan \<Rightarrow> (u32 \<times> tasks) outcome" where
  "pick_process stack_ok s r =
     (if eldest r = 0 then Inr (idle_process s, s\<lparr>current_process := idle_process s\<rparr>)
      else
        let c = eldest r;
            c = (if switch_target r \<noteq> 0 \<and> max_sched_diff r < 42 then switch_target r else c)
        in rbind (if irq_process r \<noteq> 0
                  then rbind (pupd s (irq_process r) (\<lambda>x. x\<lparr>p_fresh_irq := False\<rparr>)) (\<lambda>s1. Inr (irq_process r, s1))
                  else Inr (c, s)) (\<lambda>(c, s1).
           rbind (pget s1 c) (\<lambda>x.
           rbind (kassert (p_pid x = p_pgid x \<or> stack_ok c)) (\<lambda>_.
             Inr (c, s1\<lparr>current_process := c\<rparr>)))))"

definition schedule ::
    "(u32 \<Rightarrow> bool) \<Rightarrow> bool \<Rightarrow> u32 \<Rightarrow> tasks \<Rightarrow> int \<Rightarrow> (u32 \<times> u32 \<times> tasks) outcome" where
  "schedule stack_ok lock_free schedule_tick s switch_to =
     (if \<not> lock_free then Inr (current_process s, schedule_tick, s)
      else if current_process s = 0 \<and> idle_process s = 0 then Inr (0, schedule_tick, s)
      else
        let cur = (if current_process s = 0 then idle_process s else current_process s);
            tick = schedule_tick + 1
        in rbind (pupd s cur (\<lambda>x. x\<lparr>p_schedule_tick := schedule_tick\<rparr>)) (\<lambda>s1.
           rbind (pget s1 cur) (\<lambda>x.
             let cur = (if cur = idle_process s1 \<or> p_status x \<noteq> PROCESS_ACTIVE then runqueue s1 else cur);
                 s2 = s1\<lparr>current_process := cur\<rparr>
             in if cur = 0 then Inr (idle_process s2, tick, s2)
                else
                  rbind (scan_runqueue (procs s2) tick switch_to MAX_PID_COUNT no_scan (runqueue s2)) (\<lambda>r.
                  rbind (pick_process stack_ok s2 r) (\<lambda>(c, s3). Inr (c, tick, s3))))))"

text \<open>
  The dispatcher: \<open>regs\<close> are the saved register states by process, \<open>state\<close> the one of the interrupted
  code. Besides the new register state the result is the address space loaded into \<open>cr3\<close>, and the
  kernel stack and thread-local block that \<open>arch_process_change\<close> installs; \<open>None\<close> if nothing is
  switched.
\<close>

definition dispatch ::
    "(u32 \<Rightarrow> bool) \<Rightarrow> bool \<Rightarrow> bool \<Rightarrow> u32 \<Rightarrow> tasks \<Rightarrow> (u32 \<Rightarrow> 'r) \<Rightarrow> 'r \<Rightarrow> int
      \<Rightarrow> ('r \<times> (u32 \<times> u32 \<times> u32) option \<times> (u32 \<Rightarrow> 'r) \<times> u32 \<times> tasks) outcome" where
  "dispatch stack_ok dispatch_lock_free lock_free schedule_tick s regs state switch_to =
     (if \<not> dispatch_lock_free then Inr (state, None, regs, schedule_tick, s)
      else
        let regs = (if current_process s \<noteq> 0 then regs(current_process s := state)
                    else if idle_process s \<noteq> 0 then regs(idle_process s := state) else regs)
        in rbind (schedule stack_ok lock_free schedule_tick s switch_to) (\<lambda>(next_process, tick, s1).
             if next_process = 0 then Inr (state, None, regs, tick, s1)
             else
               rbind (pget s1 next_process) (\<lambda>x.
                 Inr (regs next_process, Some (p_vmmc x, p_kernel_stack x + KERNEL_STACK_SIZE, p_tls x), regs, tick, s1))))"

subsection \<open>The search\<close>

text \<open>The age of a process is the difference that the search compares.\<close>

definition age :: "pstore \<Rightarrow> u32 \<Rightarrow> u32 \<Rightarrow> u32" where
  "age st tick p = tick - p_schedule_tick (the (st p))"

definition active :: "pstore \<Rightarrow> u32 \<Rightarrow> bool" where
  "active st p \<longleftrightarrow> p_status (the (st p)) = PROCESS_ACTIVE"

lemma scan_runqueue_chain:
  assumes "chain p_rq_next st p as" "length as \<le> n"
  shows "scan_runqueue st tick sw n r p = Inr (fold (\<lambda>a r. scan_process tick sw r a (the (st a))) as r)"
  using assms
proof (induction as arbitrary: p n r)
  case Nil
  then show ?case by (cases n) simp_all
next
  case (Cons a as)
  then obtain x m where x: "st a = Some x" "p = a" "a \<noteq> 0" "chain p_rq_next st (p_rq_next x) as" "n = Suc m" "length as \<le> m"
    by (cases n) (auto split: option.splits)
  then show ?case using Cons.IH [OF x(4,6)] by (simp add: pderef_def)
qed

definition fresh_irq :: "process \<Rightarrow> bool" where
  "fresh_irq x \<longleftrightarrow> p_handled_irq x \<ge> 0 \<and> p_handling_irq x \<and> p_fresh_irq x"

text \<open>What the search returns, as an invariant of its loop over the processes seen so far.\<close>

definition scan_inv :: "pstore \<Rightarrow> u32 \<Rightarrow> int \<Rightarrow> u32 set \<Rightarrow> scan \<Rightarrow> bool" where
  "scan_inv st tick sw A r \<longleftrightarrow>
     (\<forall>a \<in> A. active st a \<longrightarrow> age st tick a \<le> max_sched_diff r)
     \<and> (if eldest r = 0 then max_sched_diff r = 0
        else eldest r \<in> A \<and> active st (eldest r) \<and> age st tick (eldest r) = max_sched_diff r \<and> max_sched_diff r \<noteq> 0)
     \<and> (switch_target r \<noteq> 0 \<longrightarrow> switch_target r \<in> A \<and> active st (switch_target r) \<and> p_pid (the (st (switch_target r))) = sw)
     \<and> (switch_target r = 0 \<longrightarrow> (\<forall>a \<in> A. active st a \<longrightarrow> p_pid (the (st a)) \<noteq> sw))
     \<and> (irq_process r \<noteq> 0 \<longrightarrow> irq_process r \<in> A \<and> active st (irq_process r) \<and> fresh_irq (the (st (irq_process r))))
     \<and> (irq_process r = 0 \<longrightarrow> (\<forall>a \<in> A. active st a \<longrightarrow> \<not> fresh_irq (the (st a))))"

lemma scan_process_inv:
  assumes "scan_inv st tick sw A r" "a \<noteq> 0"
  shows "scan_inv st tick sw (insert a A) (scan_process tick sw r a (the (st a)))"
proof (cases "active st a")
  case False
  then show ?thesis using assms by (auto simp: scan_inv_def scan_process_def active_def)
next
  case True
  let ?x = "the (st a)"
  define r1 where "r1 = (if p_pid ?x = sw then r\<lparr>switch_target := a\<rparr> else r)"
  define r2 where "r2 = (if fresh_irq ?x then r1\<lparr>irq_process := a\<rparr> else r1)"
  have e: "scan_process tick sw r a ?x = (if age st tick a > max_sched_diff r2
      then r2\<lparr>max_sched_diff := age st tick a, eldest := a\<rparr> else r2)"
    using True by (simp add: scan_process_def active_def r1_def r2_def age_def Let_def fresh_irq_def)
  have f: "max_sched_diff r2 = max_sched_diff r" "eldest r2 = eldest r"
      "switch_target r2 = (if p_pid ?x = sw then a else switch_target r)"
      "irq_process r2 = (if fresh_irq ?x then a else irq_process r)"
    by (simp_all add: r1_def r2_def)
  show ?thesis
  proof (cases "age st tick a > max_sched_diff r")
    case older: True
    have "\<forall>b \<in> insert a A. active st b \<longrightarrow> age st tick b \<le> age st tick a"
      using assms(1) older by (auto simp: scan_inv_def)
    moreover have "age st tick a \<noteq> 0" using older by (metis word_not_simps(1))
    ultimately show ?thesis unfolding e f(1) using older assms True f(3,4) by (auto simp: scan_inv_def)
  next
    case False
    then have "age st tick a \<le> max_sched_diff r" by simp
    then show ?thesis unfolding e f(1) using False assms True f by (auto simp: scan_inv_def)
  qed
qed

lemma scan_fold_inv:
  assumes "0 \<notin> set as" "scan_inv st tick sw A r"
  shows "scan_inv st tick sw (set as \<union> A) (fold (\<lambda>a r. scan_process tick sw r a (the (st a))) as r)"
  using assms
proof (induction as arbitrary: A r)
  case (Cons a as)
  from Cons.IH [OF _ scan_process_inv [OF Cons.prems(2)]] Cons.prems(1) show ?case by auto
qed simp

lemma scan_chain:
  assumes "chain p_rq_next st h rq" "length rq \<le> MAX_PID_COUNT"
  shows "\<exists>r. scan_runqueue st tick sw MAX_PID_COUNT no_scan h = Inr r \<and> scan_inv st tick sw (set rq) r"
proof -
  have "scan_inv st tick sw {} no_scan" by (simp add: scan_inv_def no_scan_def)
  moreover have "0 \<notin> set rq" using rq.chain_in_store [OF assms(1)] by blast
  ultimately show ?thesis
    using scan_runqueue_chain [OF assms] scan_fold_inv [of rq st tick sw "{}" no_scan] by auto
qed

subsection \<open>One call of the scheduler\<close>

definition ticked :: "tasks \<Rightarrow> u32 \<Rightarrow> pstore" where
  "ticked s tick =
     (let cur = (if current_process s = 0 then idle_process s else current_process s)
      in (procs s)(cur \<mapsto> (the (procs s cur))\<lparr>p_schedule_tick := tick\<rparr>))"

lemma ticked_chain:
  assumes "chain p_rq_next (procs s) p as" "procs s cur = Some x" "cur = (if current_process s = 0 then idle_process s else current_process s)"
  shows "chain p_rq_next (ticked s tick) p as"
  by (rule rq.chain_cong [OF _ assms(1)]) (use assms(2,3) in \<open>auto simp: ticked_def Let_def\<close>)

lemma schedule_run:
  assumes ch: "chain p_rq_next (procs s) (runqueue s) rq" and len: "length rq \<le> MAX_PID_COUNT"
    and cur: "cur = (if current_process s = 0 then idle_process s else current_process s)" "cur \<noteq> 0" "procs s cur = Some x"
    and q: "q \<in> set rq" "active (ticked s tick) q" "age (ticked s tick) (tick + 1) q \<noteq> 0"
    and ok: "\<forall>p. stack_ok p"
  shows "\<exists>c s' r. schedule stack_ok True tick s sw = Inr (c, tick + 1, s') \<and> scan_inv (ticked s tick) (tick + 1) sw (set rq) r
    \<and> c = (if irq_process r \<noteq> 0 then irq_process r
           else if switch_target r \<noteq> 0 \<and> max_sched_diff r < 42 then switch_target r else eldest r)
    \<and> c \<in> set rq \<and> active (ticked s tick) c \<and> eldest r \<noteq> 0
    \<and> s' = s\<lparr>procs := if irq_process r = 0 then ticked s tick
             else (ticked s tick)(c \<mapsto> (the (ticked s tick c))\<lparr>p_fresh_irq := False\<rparr>), current_process := c\<rparr>"
proof -
  let ?st = "ticked s tick"
  have st: "?st = (procs s)(cur \<mapsto> x\<lparr>p_schedule_tick := tick\<rparr>)" using cur by (simp add: ticked_def Let_def)
  have ch': "chain p_rq_next ?st (runqueue s) rq" by (rule ticked_chain [OF ch cur(3,1)])
  have rq0: "runqueue s \<noteq> 0" using ch q(1) by (cases rq) auto
  obtain r where r: "scan_runqueue ?st (tick + 1) sw MAX_PID_COUNT no_scan (runqueue s) = Inr r"
      "scan_inv ?st (tick + 1) sw (set rq) r"
    using scan_chain [OF ch' len] by blast
  have el: "eldest r \<noteq> 0"
  proof
    assume "eldest r = 0"
    with r(2) q show False by (auto simp: scan_inv_def)
  qed
  define c where "c = (if irq_process r \<noteq> 0 then irq_process r
      else if switch_target r \<noteq> 0 \<and> max_sched_diff r < 42 then switch_target r else eldest r)"
  have c: "c \<in> set rq" "active ?st c" using r(2) el by (auto simp: scan_inv_def c_def)
  obtain y where y: "?st c = Some y" using rq.chain_in_store [OF ch' c(1)] by blast
  let ?s2 = "s\<lparr>procs := ?st, current_process := if cur = idle_process s \<or> p_status x \<noteq> PROCESS_ACTIVE then runqueue s else cur\<rparr>"
  let ?s3 = "?s2\<lparr>procs := if irq_process r = 0 then ?st else ?st(c \<mapsto> (the (?st c))\<lparr>p_fresh_irq := False\<rparr>), current_process := c\<rparr>"
  define s2 where "s2 = ?s2"
  define s3 where "s3 = ?s3"
  have pick: "pick_process stack_ok s2 r = Inr (c, s3)"
    unfolding s2_def s3_def using el y ok by (auto simp: pick_process_def Let_def c_def pupd_def pget_def pderef_def pset_def)
  have no0: "\<not> (current_process s = 0 \<and> idle_process s = 0)" using cur(1,2) by auto
  have "pupd s cur (\<lambda>x. x\<lparr>p_schedule_tick := tick\<rparr>) = Inr (s\<lparr>procs := ?st\<rparr>)" "pget (s\<lparr>procs := ?st\<rparr>) cur = Inr (x\<lparr>p_schedule_tick := tick\<rparr>)"
    using cur(3) by (simp_all add: pupd_def pget_def pderef_def pset_def st)
  moreover have "current_process s2 \<noteq> 0" "procs s2 = ?st" "runqueue s2 = runqueue s" using cur(2) rq0 by (simp_all add: s2_def)
  ultimately have "schedule stack_ok True tick s sw = Inr (c, tick + 1, s3)"
    using no0 r(1) pick
    by (cases "cur = idle_process s \<or> p_status x \<noteq> PROCESS_ACTIVE")
       (auto simp: schedule_def Let_def cur(1) [symmetric] s2_def simp del: fun_upd_apply)
  then have "schedule stack_ok True tick s sw = Inr (c, tick + 1, ?s3)" unfolding s3_def .
  then show ?thesis using r(2) c el
    by (intro exI [of _ c] exI [of _ ?s3] exI [of _ r]) (simp add: c_def)
qed

text \<open>if an active process of the run queue has not run at the current tick, \<open>schedule\<close> returns an
  active process of the run queue: one that has a fresh interrupt to handle if there is any, else the
  process that has waited longest, unless the caller asked for another active process and nobody
  has waited for 42 ticks.
\<close>

theorem schedule_choice:
  assumes "chain p_rq_next (procs s) (runqueue s) rq" "length rq \<le> MAX_PID_COUNT"
    and "cur = (if current_process s = 0 then idle_process s else current_process s)" "cur \<noteq> 0" "procs s cur = Some x"
    and "q \<in> set rq" "active (ticked s tick) q" "age (ticked s tick) (tick + 1) q \<noteq> 0" "\<forall>p. stack_ok p"
  shows "\<exists>c s'. schedule stack_ok True tick s sw = Inr (c, tick + 1, s') \<and> current_process s' = c
    \<and> c \<in> set rq \<and> active (ticked s tick) c
    \<and> (if \<exists>a \<in> set rq. active (ticked s tick) a \<and> fresh_irq (the (ticked s tick a))
       then p_fresh_irq (the (ticked s tick c)) \<and> \<not> p_fresh_irq (the (procs s' c))
       else if (\<exists>a \<in> set rq. active (ticked s tick) a \<and> p_pid (the (ticked s tick a)) = sw)
               \<and> (\<forall>a \<in> set rq. active (ticked s tick) a \<longrightarrow> age (ticked s tick) (tick + 1) a < 42)
       then p_pid (the (ticked s tick c)) = sw
       else \<forall>a \<in> set rq. active (ticked s tick) a \<longrightarrow> age (ticked s tick) (tick + 1) a \<le> age (ticked s tick) (tick + 1) c)"
proof -
  obtain c s' r where r: "schedule stack_ok True tick s sw = Inr (c, tick + 1, s')"
      "scan_inv (ticked s tick) (tick + 1) sw (set rq) r"
      "c = (if irq_process r \<noteq> 0 then irq_process r
           else if switch_target r \<noteq> 0 \<and> max_sched_diff r < 42 then switch_target r else eldest r)"
      "c \<in> set rq" "active (ticked s tick) c" "eldest r \<noteq> 0"
      "s' = s\<lparr>procs := if irq_process r = 0 then ticked s tick
             else (ticked s tick)(c \<mapsto> (the (ticked s tick c))\<lparr>p_fresh_irq := False\<rparr>), current_process := c\<rparr>"
    using schedule_run [OF assms, of sw] by blast
  let ?st = "ticked s tick"
  have irq: "(\<exists>a \<in> set rq. active ?st a \<and> fresh_irq (the (?st a))) \<longleftrightarrow> irq_process r \<noteq> 0"
    using r(2) by (auto simp: scan_inv_def)
  show ?thesis
  proof (cases "irq_process r = 0")
    case False
    then have "p_fresh_irq (the (?st c)) \<and> \<not> p_fresh_irq (the (procs s' c))"
      using r(2,3,7) by (auto simp: scan_inv_def fresh_irq_def)
    with False r(1,4,5,7) irq show ?thesis by (intro exI [of _ c] exI [of _ s']) simp
  next
    case True
    have max: "\<forall>a \<in> set rq. active ?st a \<longrightarrow> age ?st (tick + 1) a \<le> max_sched_diff r"
      using r(2) by (auto simp: scan_inv_def)
    have el: "eldest r \<in> set rq" "active ?st (eldest r)" "age ?st (tick + 1) (eldest r) = max_sched_diff r"
      using r(2,6) by (auto simp: scan_inv_def)
    have m42: "(\<forall>a \<in> set rq. active ?st a \<longrightarrow> age ?st (tick + 1) a < 42) \<longleftrightarrow> max_sched_diff r < 42"
    proof
      assume "\<forall>a \<in> set rq. active ?st a \<longrightarrow> age ?st (tick + 1) a < 42"
      with el(1,2) have "age ?st (tick + 1) (eldest r) < 42" by blast
      then show "max_sched_diff r < 42" unfolding el(3) .
    next
      assume lt: "max_sched_diff r < 42"
      have "age ?st (tick + 1) a < 42" if "a \<in> set rq" "active ?st a" for a
        using max that lt by (blast intro: order_le_less_trans)
      then show "\<forall>a \<in> set rq. active ?st a \<longrightarrow> age ?st (tick + 1) a < 42" by blast
    qed
    have sw: "(\<exists>a \<in> set rq. active ?st a \<and> p_pid (the (?st a)) = sw) \<longleftrightarrow> switch_target r \<noteq> 0"
      using r(2) by (auto simp: scan_inv_def)
    have "if switch_target r \<noteq> 0 \<and> max_sched_diff r < 42 then p_pid (the (?st c)) = sw
        else \<forall>a \<in> set rq. active ?st a \<longrightarrow> age ?st (tick + 1) a \<le> age ?st (tick + 1) c"
    proof (cases "switch_target r \<noteq> 0 \<and> max_sched_diff r < 42")
      case target: True
      then have "p_pid (the (?st c)) = sw" using r(2,3) True by (auto simp: scan_inv_def)
      with target show ?thesis by simp
    next
      case target: False
      then have "c = eldest r" using r(3) True by auto
      then show ?thesis unfolding if_not_P [OF target] using max el(3) by simp
    qed
    then have "if (\<exists>a \<in> set rq. active ?st a \<and> p_pid (the (?st a)) = sw)
          \<and> (\<forall>a \<in> set rq. active ?st a \<longrightarrow> age ?st (tick + 1) a < 42)
        then p_pid (the (?st c)) = sw
        else \<forall>a \<in> set rq. active ?st a \<longrightarrow> age ?st (tick + 1) a \<le> age ?st (tick + 1) c"
      unfolding m42 sw .
    with True r(1,4,5,7) irq show ?thesis by (intro exI [of _ c] exI [of _ s']) simp
  qed
qed

subsection \<open>No process waits forever\<close>

text \<open>A sequence of calls, each with a process the caller wants to switch to, and the processes
  chosen.\<close>

fun schedules :: "(u32 \<Rightarrow> bool) \<Rightarrow> int list \<Rightarrow> u32 \<Rightarrow> tasks \<Rightarrow> (u32 list \<times> u32 \<times> tasks) outcome" where
  "schedules stack_ok [] tick s = Inr ([], tick, s)"
| "schedules stack_ok (sw # sws) tick s =
     rbind (schedule stack_ok True tick s sw) (\<lambda>(c, tick1, s1).
     rbind (schedules stack_ok sws tick1 s1) (\<lambda>(cs, tick2, s2). Inr (c # cs, tick2, s2)))"

definition waited :: "tasks \<Rightarrow> u32 \<Rightarrow> u32 \<Rightarrow> nat" where
  "waited s tick p = unat (age (procs s) tick p)"

definition runnable :: "tasks \<Rightarrow> u32 list \<Rightarrow> u32 set" where
  "runnable s rq = {a \<in> set rq. active (procs s) a}"

text \<open>Between the calls the run queue and the states of its processes stay as they are, and none of
  them has a fresh interrupt. The ages stay within the range of the tick counter.\<close>

definition sched_inv :: "tasks \<Rightarrow> u32 list \<Rightarrow> u32 \<Rightarrow> nat \<Rightarrow> bool" where
  "sched_inv s rq tick n \<longleftrightarrow>
     chain p_rq_next (procs s) (runqueue s) rq \<and> length rq \<le> MAX_PID_COUNT
     \<and> current_process s \<noteq> 0 \<and> (\<exists>x. procs s (current_process s) = Some x)
     \<and> (\<forall>a \<in> runnable s rq. \<not> fresh_irq (the (procs s a)) \<and> waited s tick a + n < 2 ^ 32)"

lemma ticked_simps:
  assumes "current_process s \<noteq> 0" "procs s (current_process s) = Some x"
  shows "active (ticked s tick) = active (procs s)"
    and "fresh_irq (the (ticked s tick a)) = fresh_irq (the (procs s a))"
    and "p_pid (the (ticked s tick a)) = p_pid (the (procs s a))"
    and "age (ticked s tick) (tick + 1) a = (if a = current_process s then 1 else age (procs s) tick a + 1)"
  using assms by (auto simp: ticked_def Let_def active_def [abs_def] fresh_irq_def age_def fun_eq_iff)

lemma age_Suc:
  assumes "waited s tick a + n < 2 ^ 32" "0 < n"
  shows "unat (age (procs s) tick a + 1) = Suc (waited s tick a)"
proof -
  have "unat (age (procs s) tick a) + unat (1 :: u32) < 2 ^ LENGTH(32)" using assms by (simp add: waited_def)
  from unat_add_nowrap [OF this] show ?thesis by (simp add: waited_def)
qed

text \<open>One call in such a state.\<close>

lemma sched_step:
  assumes inv: "sched_inv s rq tick n" and n: "0 < n" and q: "runnable s rq \<noteq> {}" and ok: "\<forall>p. stack_ok p"
  shows "\<exists>c s'. schedule stack_ok True tick s sw = Inr (c, tick + 1, s') \<and> current_process s' = c \<and> c \<in> runnable s rq
    \<and> runnable s' rq = runnable s rq \<and> sched_inv s' rq (tick + 1) (n - 1)
    \<and> (\<forall>a \<in> runnable s rq. waited s' (tick + 1) a = (if a = current_process s then 1 else Suc (waited s tick a)))
    \<and> ((\<forall>a \<in> runnable s rq. waited s' (tick + 1) a \<le> waited s' (tick + 1) c)
        \<or> (\<forall>a \<in> runnable s rq. waited s' (tick + 1) a < 42))"
proof -
  obtain x where i: "chain p_rq_next (procs s) (runqueue s) rq" "length rq \<le> MAX_PID_COUNT"
      "current_process s \<noteq> 0" "procs s (current_process s) = Some x"
      "\<And>a. a \<in> runnable s rq \<Longrightarrow> \<not> fresh_irq (the (procs s a)) \<and> waited s tick a + n < 2 ^ 32"
    using inv by (auto simp: sched_inv_def)
  note t = ticked_simps [OF i(3,4)]
  from q obtain b where b: "b \<in> runnable s rq" by blast
  have "unat (age (ticked s tick) (tick + 1) b) \<noteq> 0" unfolding t(4) using i(5) [OF b] age_Suc [OF _ n, of s tick b] by simp
  then have age: "age (ticked s tick) (tick + 1) b \<noteq> 0" by auto
  have "\<exists>c s' r. schedule stack_ok True tick s sw = Inr (c, tick + 1, s') \<and> scan_inv (ticked s tick) (tick + 1) sw (set rq) r
    \<and> c = (if irq_process r \<noteq> 0 then irq_process r
           else if switch_target r \<noteq> 0 \<and> max_sched_diff r < 42 then switch_target r else eldest r)
    \<and> c \<in> set rq \<and> active (ticked s tick) c \<and> eldest r \<noteq> 0
    \<and> s' = s\<lparr>procs := if irq_process r = 0 then ticked s tick
             else (ticked s tick)(c \<mapsto> (the (ticked s tick c))\<lparr>p_fresh_irq := False\<rparr>), current_process := c\<rparr>"
    by (rule schedule_run [OF i(1,2) _ i(3,4) _ _ age ok]) (use i(3) b t(1) in \<open>auto simp: runnable_def\<close>)
  then obtain c s' r where r: "schedule stack_ok True tick s sw = Inr (c, tick + 1, s')"
      "scan_inv (ticked s tick) (tick + 1) sw (set rq) r"
      "c = (if irq_process r \<noteq> 0 then irq_process r
           else if switch_target r \<noteq> 0 \<and> max_sched_diff r < 42 then switch_target r else eldest r)"
      "c \<in> set rq" "active (ticked s tick) c" "eldest r \<noteq> 0"
      "s' = s\<lparr>procs := if irq_process r = 0 then ticked s tick
             else (ticked s tick)(c \<mapsto> (the (ticked s tick c))\<lparr>p_fresh_irq := False\<rparr>), current_process := c\<rparr>"
    by blast
  have no_irq: "irq_process r = 0"
  proof (rule ccontr)
    assume "irq_process r \<noteq> 0"
    with r(2) have "irq_process r \<in> runnable s rq" "fresh_irq (the (procs s (irq_process r)))"
      by (auto simp: scan_inv_def t runnable_def)
    with i(5) show False by blast
  qed
  have s': "s' = s\<lparr>procs := ticked s tick, current_process := c\<rparr>" using r(7) no_irq by simp
  have run: "runnable s' rq = runnable s rq" using t(1) by (simp add: runnable_def s')
  have w: "waited s' (tick + 1) a = (if a = current_process s then 1 else Suc (waited s tick a))" if "a \<in> runnable s rq" for a
    using i(5) [OF that] age_Suc [OF _ n, of s tick a] by (simp add: waited_def s' t(4))
  have ch: "chain p_rq_next (procs s') (runqueue s') rq"
    using ticked_chain [OF i(1,4), of tick] i(3) by (simp add: s')
  have "\<exists>y. procs s' c = Some y" using rq.chain_in_store [OF ch r(4)] by blast
  moreover have "c \<noteq> 0" using rq.chain_in_store [OF ch r(4)] by blast
  moreover have "\<not> fresh_irq (the (procs s' a)) \<and> waited s' (tick + 1) a + (n - 1) < 2 ^ 32" if "a \<in> runnable s rq" for a
    using i(5) [OF that] w [OF that] n t(2) by (auto simp: s')
  ultimately have inv': "sched_inv s' rq (tick + 1) (n - 1)"
    using ch i(2) run by (auto simp: sched_inv_def s')
  have max: "\<forall>a \<in> runnable s rq. age (ticked s tick) (tick + 1) a \<le> max_sched_diff r"
    using r(2) by (auto simp: scan_inv_def runnable_def t(1))
  have "(\<forall>a \<in> runnable s rq. waited s' (tick + 1) a \<le> waited s' (tick + 1) c)
      \<or> (\<forall>a \<in> runnable s rq. waited s' (tick + 1) a < 42)"
  proof (cases "switch_target r \<noteq> 0 \<and> max_sched_diff r < 42")
    case True
    then have "unat (max_sched_diff r) < 42" by (simp add: word_less_nat_alt)
    then show ?thesis using max by (fastforce simp: waited_def s' word_le_nat_alt)
  next
    case False
    then have "c = eldest r" using r(3) no_irq by auto
    then have "age (ticked s tick) (tick + 1) c = max_sched_diff r" using r(2,6) by (auto simp: scan_inv_def)
    then show ?thesis using max by (simp add: waited_def s' word_le_nat_alt)
  qed
  moreover have "c \<in> runnable s rq" using r(4,5) t(1) by (simp add: runnable_def)
  ultimately show ?thesis
    using r(1) run inv' w by (intro exI [of _ c] exI [of _ s']) (simp add: s')
qed

lemma schedules_total:
  assumes "sched_inv s rq tick (length sws)" "runnable s rq \<noteq> {}" "\<forall>p. stack_ok p"
  shows "\<exists>cs tick' s'. schedules stack_ok sws tick s = Inr (cs, tick', s')"
  using assms(1,2)
proof (induction sws arbitrary: tick s)
  case (Cons sw sws)
  obtain c s' where r: "schedule stack_ok True tick s sw = Inr (c, tick + 1, s')" "runnable s' rq = runnable s rq"
      "sched_inv s' rq (tick + 1) (length sws)"
    using sched_step [OF Cons.prems(1) _ Cons.prems(2) assms(3), of sw] by auto
  then obtain cs tick' s'' where "schedules stack_ok sws (tick + 1) s' = Inr (cs, tick', s'')"
    using Cons.IH [OF r(3)] Cons.prems(2) by auto
  with r(1) show ?case by simp
qed simp

text \<open>A bound on the number of calls before a waiting process runs: until it has waited 41 ticks the
  caller may choose others, from then on the processes that have waited at least as long come first.\<close>

definition delay :: "tasks \<Rightarrow> u32 list \<Rightarrow> u32 \<Rightarrow> u32 \<Rightarrow> nat" where
  "delay s rq tick p =
     (if waited s tick p < 41 then 41 - waited s tick p + (card (runnable s rq) - 1)
      else card {q \<in> runnable s rq. q \<noteq> p \<and> q \<noteq> current_process s \<and> waited s tick p \<le> waited s tick q})"

lemma finite_runnable [simp]: "finite (runnable s rq)"
  by (simp add: runnable_def)

lemma card_others:
  assumes "p \<in> runnable s rq"
  shows "card {q \<in> runnable s rq. q \<noteq> p \<and> P q} \<le> card (runnable s rq) - 1"
proof -
  have "card {q \<in> runnable s rq. q \<noteq> p \<and> P q} \<le> card (runnable s rq - {p})" by (rule card_mono) auto
  with assms show ?thesis by simp
qed

lemma delay_bound: "p \<in> runnable s rq \<Longrightarrow> delay s rq tick p \<le> 40 + card (runnable s rq)"
  using card_others [of p s rq "\<lambda>q. q \<noteq> current_process s \<and> waited s tick p \<le> waited s tick q"]
    card_gt_0_iff [of "runnable s rq"]
  by (auto simp: delay_def)

lemma delay_decreases:
  assumes p: "p \<in> runnable s rq" "p \<noteq> current_process s" "p \<noteq> c" and c: "c \<in> runnable s rq" "current_process s' = c"
    and run: "runnable s' rq = runnable s rq"
    and w: "\<forall>a \<in> runnable s rq. waited s' tick' a = (if a = current_process s then 1 else Suc (waited s tick a))"
    and el: "(\<forall>a \<in> runnable s rq. waited s' tick' a \<le> waited s' tick' c) \<or> (\<forall>a \<in> runnable s rq. waited s' tick' a < 42)"
  shows "delay s' rq tick' p < delay s rq tick p"
proof -
  have wp: "waited s' tick' p = Suc (waited s tick p)" using p(1,2) w by simp
  let ?R = "runnable s rq"
  consider "waited s tick p < 40" | "waited s tick p = 40" | "41 \<le> waited s tick p" by linarith
  then show ?thesis
  proof cases
    case 1
    then show ?thesis by (simp add: delay_def run wp)
  next
    case 2
    have "p \<in> runnable s' rq" using p(1) run by simp
    from card_others [OF this, of "\<lambda>q. q \<noteq> current_process s' \<and> waited s' tick' p \<le> waited s' tick' q"] 2
    show ?thesis by (simp add: delay_def run wp)
  next
    case 3
    let ?B = "{q \<in> ?R. q \<noteq> p \<and> q \<noteq> current_process s \<and> waited s tick p \<le> waited s tick q}"
    let ?B' = "{q \<in> ?R. q \<noteq> p \<and> q \<noteq> c \<and> waited s' tick' p \<le> waited s' tick' q}"
    have wc: "waited s' tick' p \<le> waited s' tick' c" using el p(1) wp 3 by fastforce
    have up: "q \<noteq> current_process s \<and> waited s tick p \<le> waited s tick q" if "q \<in> ?R" "waited s' tick' p \<le> waited s' tick' q" for q
      using w that wp 3 by (cases "q = current_process s") auto
    have "?B' \<subset> ?B"
    proof
      show "?B' \<subseteq> ?B" using up by blast
      show "?B' \<noteq> ?B" using up [OF c(1) wc] c(1) p(3) by blast
    qed
    then have "card ?B' < card ?B" by (intro psubset_card_mono) simp
    then show ?thesis using 3 by (simp add: delay_def run wp c(2))
  qed
qed

lemma waits_at_most:
  assumes "sched_inv s rq tick (length sws)" "p \<in> runnable s rq" "p \<noteq> current_process s" "delay s rq tick p < length sws"
    and "\<forall>p. stack_ok p" "schedules stack_ok sws tick s = Inr (cs, tick', s')"
  shows "p \<in> set cs"
  using assms(1-4,6)
proof (induction sws arbitrary: tick s cs)
  case (Cons sw sws)
  have "runnable s rq \<noteq> {}" using Cons.prems(2) by blast
  then obtain c s1 where r: "schedule stack_ok True tick s sw = Inr (c, tick + 1, s1)" "current_process s1 = c" "c \<in> runnable s rq"
      "runnable s1 rq = runnable s rq" "sched_inv s1 rq (tick + 1) (length sws)"
      "\<forall>a \<in> runnable s rq. waited s1 (tick + 1) a = (if a = current_process s then 1 else Suc (waited s tick a))"
      "(\<forall>a \<in> runnable s rq. waited s1 (tick + 1) a \<le> waited s1 (tick + 1) c) \<or> (\<forall>a \<in> runnable s rq. waited s1 (tick + 1) a < 42)"
    using sched_step [OF Cons.prems(1) _ _ assms(5), of sw] by auto
  from Cons.prems(5) r(1) obtain ds where ds: "schedules stack_ok sws (tick + 1) s1 = Inr (ds, tick', s')" "cs = c # ds"
    by (auto simp: outcome_simps)
  show ?case
  proof (cases "c = p")
    case False
    have "delay s1 rq (tick + 1) p < delay s rq tick p"
      using delay_decreases [OF Cons.prems(2,3) _ r(3,2,4,6,7)] False by blast
    then have "p \<in> set ds" using Cons.IH [OF r(5) _ _ _ ds(1)] Cons.prems(2,4) r(2,4) False by auto
    with ds(2) show ?thesis by simp
  qed (simp add: ds(2))
qed simp

text \<open>
  C2: no active process starves: whatever the callers of \<open>schedule\<close> ask to switch to, every runnable
  process is chosen within 42 calls plus one for each runnable process, as long as no interrupt is
  fresh and the tick counter does not lap a waiting process.
\<close>

theorem schedule_no_starvation:
  assumes "sched_inv s rq tick (length sws)" "p \<in> runnable s rq" "42 + card (runnable s rq) \<le> length sws" "\<forall>p. stack_ok p"
  shows "\<exists>cs tick' s'. schedules stack_ok sws tick s = Inr (cs, tick', s') \<and> p \<in> set cs"
proof -
  have ne: "runnable s rq \<noteq> {}" using assms(2) by blast
  obtain sw ws where sws: "sws = sw # ws" using assms(3) by (cases sws) auto
  obtain cs tick' s' where run: "schedules stack_ok sws tick s = Inr (cs, tick', s')"
    using schedules_total [OF assms(1) ne assms(4)] by blast
  obtain c s1 where r: "schedule stack_ok True tick s sw = Inr (c, tick + 1, s1)" "current_process s1 = c"
      "runnable s1 rq = runnable s rq" "sched_inv s1 rq (tick + 1) (length ws)"
    using sched_step [OF assms(1) _ ne assms(4), of sw] sws by auto
  from run r(1) sws obtain ds where ds: "schedules stack_ok ws (tick + 1) s1 = Inr (ds, tick', s')" "cs = c # ds"
    by (auto simp: outcome_simps)
  have "p \<in> set cs"
  proof (cases "c = p")
    case False
    have "delay s1 rq (tick + 1) p < length ws"
      using delay_bound [of p s1 rq "tick + 1"] assms(2,3) r(3) sws by simp
    then have "p \<in> set ds" using waits_at_most [OF r(4) _ _ _ assms(4) ds(1)] assms(2) r(2,3) False by auto
    with ds(2) show ?thesis by simp
  qed (simp add: ds(2))
  with run show ?thesis by blast
qed

definition demo_sched :: tasks where
  "demo_sched = demo_tasks\<lparr>
     procs := [0x1000 \<mapsto> null_process\<lparr>p_pid := 1, p_handled_irq := -1, p_schedule_tick := 7\<rparr>,
               0x2000 \<mapsto> null_process\<lparr>p_pid := 2, p_handled_irq := -1, p_schedule_tick := 5, p_rq_next := 0x1000\<rparr>],
     current_process := 0x1000, idle_process := 0x3000, runqueue := 0x2000\<rparr>"

lemma demo_sched_chain: "chain p_rq_next (procs demo_sched) (runqueue demo_sched) [0x2000, 0x1000]"
  by (simp add: demo_sched_def null_process_def)

theorem schedule_choice_witness:
  "\<exists>c s'. schedule (\<lambda>_. True) True 8 demo_sched 1 = Inr (c, 9, s') \<and> p_pid (the (ticked demo_sched 8 c)) = 1"
proof -
  let ?x = "null_process\<lparr>p_pid := 1, p_handled_irq := -1, p_schedule_tick := 7\<rparr>"
  let ?st = "ticked demo_sched 8" and ?rq = "[0x2000, 0x1000] :: u32 list"
  have x: "procs demo_sched (current_process demo_sched) = Some ?x" and c: "current_process demo_sched = 0x1000"
    by (simp_all add: demo_sched_def)
  have st: "?st = [0x1000 \<mapsto> ?x\<lparr>p_schedule_tick := 8\<rparr>,
      0x2000 \<mapsto> null_process\<lparr>p_pid := 2, p_handled_irq := -1, p_schedule_tick := 5, p_rq_next := 0x1000\<rparr>]"
    by (auto simp: ticked_def demo_sched_def)
  have a: "active ?st 0x2000" "active ?st 0x1000" "age ?st (8 + 1) 0x2000 = 4" "age ?st (8 + 1) 0x1000 = 1"
      "\<not> fresh_irq (the (?st 0x2000))" "\<not> fresh_irq (the (?st 0x1000))" "p_pid (the (?st 0x1000)) = 1"
    unfolding st by (simp_all add: active_def age_def fresh_irq_def null_process_def)
  have "\<exists>c s'. schedule (\<lambda>_. True) True 8 demo_sched 1 = Inr (c, 8 + 1, s') \<and> current_process s' = c
    \<and> c \<in> set ?rq \<and> active ?st c
    \<and> (if \<exists>a \<in> set ?rq. active ?st a \<and> fresh_irq (the (?st a))
       then p_fresh_irq (the (?st c)) \<and> \<not> p_fresh_irq (the (procs s' c))
       else if (\<exists>a \<in> set ?rq. active ?st a \<and> p_pid (the (?st a)) = 1)
               \<and> (\<forall>a \<in> set ?rq. active ?st a \<longrightarrow> age ?st (8 + 1) a < 42)
       then p_pid (the (?st c)) = 1
       else \<forall>a \<in> set ?rq. active ?st a \<longrightarrow> age ?st (8 + 1) a \<le> age ?st (8 + 1) c)"
    by (rule schedule_choice [OF demo_sched_chain _ _ _ x _ a(1)]) (simp_all add: c MAX_PID_COUNT_def a(3) [simplified])
  then show ?thesis using a by auto
qed

theorem schedule_no_starvation_witness:
  "\<exists>cs tick' s'. schedules (\<lambda>_. True) (replicate 50 2) 8 demo_sched = Inr (cs, tick', s') \<and> 0x1000 \<in> set cs"
proof (rule schedule_no_starvation)
  have run: "runnable demo_sched [0x2000, 0x1000] = {0x2000, 0x1000}"
    by (auto simp: runnable_def active_def demo_sched_def null_process_def)
  show "sched_inv demo_sched [0x2000, 0x1000] 8 (length (replicate 50 2))"
    using demo_sched_chain
    by (simp add: sched_inv_def run MAX_PID_COUNT_def) (simp add: demo_sched_def fresh_irq_def waited_def age_def)
  show "0x1000 \<in> runnable demo_sched [0x2000, 0x1000]" by (simp add: run)
  show "42 + card (runnable demo_sched [0x2000, 0x1000]) \<le> length (replicate 50 2)" by (simp add: run)
qed simp

end
