(* ===== verification/Locks.thy ===== *)
theory Locks
  imports Prelude
begin

text \<open>
  Locks (\<open>src/kernel/common/lib/lock.c\<close>, \<open>src/lib/common/system/lock.c\<close>) and the readers-writers
  locks built on them (\<open>src/lib/common/system/rwl_lock.c\<close>), with the threads that use one lock
  interleaved: every access to the lock is a step of its own. A thread is named by its process
  number, which is positive. A step of a waiting thread that only yields changes nothing and is left
  out.
\<close>

subsection \<open>Locks\<close>

text \<open>One round of the loop of \<open>lock\<close> in the library, which the readers-writers locks use (that of the kernel differs
  only in how it finds the process number): whether the lock was taken and its new value; \<open>Panic\<close> is the
  failed assertion of a thread that waits for itself.\<close>

definition lock_round :: "int \<Rightarrow> int \<Rightarrow> (bool \<times> int) outcome" where
  "lock_round v mypid =
     (if v = 0 then Inr (True, mypid)
      else rbind (kassert (v \<noteq> mypid)) (\<lambda>_. Inr (False, v)))"

definition unlock :: "int \<Rightarrow> int" where
  "unlock v = 0"

definition trylock :: "int \<Rightarrow> int \<Rightarrow> bool \<times> int" where
  "trylock v mypid = (if v = 0 then (True, mypid) else (False, v))"

subsection \<open>Readers-writers locks\<close>

text \<open>Where a thread stands. \<open>RL\<close> are the points of \<open>rwl_lock_r\<close>, \<open>RU\<close> of \<open>rwl_unlock_r\<close>, \<open>QW\<close> of
  \<open>rwl_require_w\<close>, each named after the access that comes next; \<open>Reading\<close> and \<open>Writing\<close> are the
  critical sections.\<close>

datatype point =
    Outside
  | RL_lock_lock | RL_count | RL_write_lock | RL_unlock
  | Reading
  | RU_lock_lock | RU_count | RU_free | RU_disown | RU_unlock
  | WL_write_lock | Writing | WU_unlock
  | QW_count | QW_trylock | QW_check | QW_again | QW_reset | QW_unlock
  | DW_count

record rw_lock =
  write_lock :: int
  lock_lock :: int
  reader_count :: int
  pc :: "int \<Rightarrow> point"

definition goto :: "int \<Rightarrow> point \<Rightarrow> rw_lock \<Rightarrow> rw_lock" where
  "goto t k s = s\<lparr>pc := (pc s)(t := k)\<rparr>"

inductive rwl_step :: "int \<Rightarrow> rw_lock \<Rightarrow> rw_lock \<Rightarrow> bool" for t s where
  call_lock_r: "pc s t = Outside \<Longrightarrow> rwl_step t s (goto t RL_lock_lock s)"
| lock_r_lock: "pc s t = RL_lock_lock \<Longrightarrow> lock_round (lock_lock s) t = Inr (True, v)
    \<Longrightarrow> rwl_step t s (goto t RL_count (s\<lparr>lock_lock := v\<rparr>))"
| lock_r_count: "pc s t = RL_count
    \<Longrightarrow> rwl_step t s (goto t (if reader_count s = 0 then RL_write_lock else RL_unlock) (s\<lparr>reader_count := reader_count s + 1\<rparr>))"
| lock_r_write: "pc s t = RL_write_lock \<Longrightarrow> lock_round (write_lock s) t = Inr (True, v)
    \<Longrightarrow> rwl_step t s (goto t RL_unlock (s\<lparr>write_lock := v\<rparr>))"
| lock_r_unlock: "pc s t = RL_unlock \<Longrightarrow> rwl_step t s (goto t Reading (s\<lparr>lock_lock := unlock (lock_lock s)\<rparr>))"
| call_unlock_r: "pc s t = Reading \<Longrightarrow> rwl_step t s (goto t RU_lock_lock s)"
| unlock_r_lock: "pc s t = RU_lock_lock \<Longrightarrow> lock_round (lock_lock s) t = Inr (True, v)
    \<Longrightarrow> rwl_step t s (goto t RU_count (s\<lparr>lock_lock := v\<rparr>))"
| unlock_r_count: "pc s t = RU_count
    \<Longrightarrow> rwl_step t s (goto t (if reader_count s - 1 = 0 then RU_free else RU_disown) (s\<lparr>reader_count := reader_count s - 1\<rparr>))"
| unlock_r_free: "pc s t = RU_free \<Longrightarrow> rwl_step t s (goto t RU_unlock (s\<lparr>write_lock := unlock (write_lock s)\<rparr>))"
| unlock_r_disown: "pc s t = RU_disown
    \<Longrightarrow> rwl_step t s (goto t RU_unlock (s\<lparr>write_lock := if write_lock s = t then -1 else write_lock s\<rparr>))"
| unlock_r_unlock: "pc s t = RU_unlock \<Longrightarrow> rwl_step t s (goto t Outside (s\<lparr>lock_lock := unlock (lock_lock s)\<rparr>))"
| call_lock_w: "pc s t = Outside \<Longrightarrow> rwl_step t s (goto t WL_write_lock s)"
| lock_w: "pc s t = WL_write_lock \<Longrightarrow> lock_round (write_lock s) t = Inr (True, v)
    \<Longrightarrow> rwl_step t s (goto t Writing (s\<lparr>write_lock := v\<rparr>))"
| call_unlock_w: "pc s t = Writing \<Longrightarrow> rwl_step t s (goto t WU_unlock s)"
| unlock_w: "pc s t = WU_unlock \<Longrightarrow> rwl_step t s (goto t Outside (s\<lparr>write_lock := unlock (write_lock s)\<rparr>))"
| call_require_w: "pc s t = Reading \<Longrightarrow> rwl_step t s (goto t QW_count s)"
| require_w_count: "pc s t = QW_count \<Longrightarrow> \<not> reader_count s > 1 \<Longrightarrow> rwl_step t s (goto t QW_trylock s)"
| require_w_try: "pc s t = QW_trylock
    \<Longrightarrow> rwl_step t s (goto t (if fst (trylock (lock_lock s) t) then QW_check else QW_count)
          (s\<lparr>lock_lock := snd (trylock (lock_lock s) t)\<rparr>))"
| require_w_check: "pc s t = QW_check
    \<Longrightarrow> rwl_step t s (goto t (if reader_count s = 1 then QW_reset else QW_again) s)"
| require_w_again: "pc s t = QW_again \<Longrightarrow> rwl_step t s (goto t QW_count (s\<lparr>lock_lock := unlock (lock_lock s)\<rparr>))"
| require_w_reset: "pc s t = QW_reset \<Longrightarrow> rwl_step t s (goto t QW_unlock (s\<lparr>reader_count := 0\<rparr>))"
| require_w_unlock: "pc s t = QW_unlock \<Longrightarrow> rwl_step t s (goto t Writing (s\<lparr>lock_lock := unlock (lock_lock s)\<rparr>))"
| call_drop_w: "pc s t = Writing \<Longrightarrow> rwl_step t s (goto t DW_count s)"
| drop_w: "pc s t = DW_count \<Longrightarrow> rwl_step t s (goto t Reading (s\<lparr>reader_count := 1\<rparr>))"

inductive rwl_steps :: "rw_lock \<Rightarrow> bool" where
  start: "rwl_steps \<lparr>write_lock = 0, lock_lock = 0, reader_count = 0, pc = (\<lambda>t. Outside)\<rparr>"
| step: "rwl_steps s \<Longrightarrow> 0 < t \<Longrightarrow> rwl_step t s s' \<Longrightarrow> rwl_steps s'"

subsection \<open>The invariant\<close>

text \<open>The threads that hold \<open>lock_lock\<close>, that count as readers, that own the lock for writing, and
  that are about to release it for the last reader.\<close>

fun inner :: "point \<Rightarrow> bool" where
  "inner RL_count = True"
| "inner RL_write_lock = True"
| "inner RL_unlock = True"
| "inner RU_count = True"
| "inner RU_free = True"
| "inner RU_disown = True"
| "inner RU_unlock = True"
| "inner QW_check = True"
| "inner QW_again = True"
| "inner QW_reset = True"
| "inner QW_unlock = True"
| "inner _ = False"

fun reader :: "point \<Rightarrow> bool" where
  "reader RL_unlock = True"
| "reader Reading = True"
| "reader RU_lock_lock = True"
| "reader RU_count = True"
| "reader QW_count = True"
| "reader QW_trylock = True"
| "reader QW_check = True"
| "reader QW_again = True"
| "reader QW_reset = True"
| "reader _ = False"

fun writer :: "point \<Rightarrow> bool" where
  "writer Writing = True"
| "writer WU_unlock = True"
| "writer QW_unlock = True"
| "writer DW_count = True"
| "writer _ = False"

definition readers :: "rw_lock \<Rightarrow> int set" where
  "readers s = {t. reader (pc s t)}"

definition lock_ok :: "rw_lock \<Rightarrow> bool" where
  "lock_ok s \<longleftrightarrow> finite {t. pc s t \<noteq> Outside} \<and> (\<forall>t. pc s t \<noteq> Outside \<longrightarrow> 0 < t)
     \<and> 0 \<le> lock_lock s \<and> (\<forall>t. 0 < t \<longrightarrow> (inner (pc s t) \<longleftrightarrow> lock_lock s = t))"

definition write_ok :: "rw_lock \<Rightarrow> bool" where
  "write_ok s \<longleftrightarrow>
     (write_lock s = 0 \<longrightarrow> (\<forall>t. \<not> reader (pc s t) \<and> \<not> writer (pc s t) \<and> pc s t \<noteq> RU_free))
     \<and> (\<forall>t. 0 < t \<longrightarrow> write_lock s = t \<longrightarrow> reader (pc s t) \<or> writer (pc s t) \<or> pc s t \<in> {RU_free, RU_disown})
     \<and> (\<forall>t u. writer (pc s t) \<longrightarrow> writer (pc s u) \<longrightarrow> t = u)
     \<and> (\<forall>t u. writer (pc s t) \<longrightarrow> \<not> reader (pc s u) \<and> pc s u \<noteq> RU_free)
     \<and> (\<forall>t u. pc s t = RU_free \<longrightarrow> \<not> reader (pc s u))"

definition count_ok :: "rw_lock \<Rightarrow> bool" where
  "count_ok s \<longleftrightarrow>
     (if \<exists>t. pc s t = RL_write_lock then reader_count s = 1 \<and> card (readers s) \<le> 1
      else reader_count s = int (card (readers s)))
     \<and> (\<forall>t. pc s t = QW_reset \<longrightarrow> readers s = {t})"

lemma goto_simps [simp]:
  "write_lock (goto t k s) = write_lock s" "lock_lock (goto t k s) = lock_lock s"
  "reader_count (goto t k s) = reader_count s" "pc (goto t k s) = (pc s)(t := k)"
  by (simp_all add: goto_def)

lemma lock_round_taken: "lock_round v t = Inr (True, w) \<longleftrightarrow> v = 0 \<and> w = t"
  by (auto simp: lock_round_def outcome_simps)

lemmas rwl_prims = lock_round_taken unlock_def trylock_def

lemma finite_pc: "finite {t. pc s t \<noteq> Outside} \<Longrightarrow> finite {u. ((pc s)(t := k)) u \<noteq> Outside}"
  by (rule finite_subset [of _ "insert t {t. pc s t \<noteq> Outside}"]) auto

lemma lock_ok_goto:
  assumes ok: "lock_ok s" and t: "0 < t" and pc: "pc s' = (pc s)(t := k)"
    and l: "lock_lock s' = lock_lock s \<and> inner k = inner (pc s t) \<or> lock_lock s = 0 \<and> lock_lock s' = t \<and> inner k
      \<or> inner (pc s t) \<and> lock_lock s' = 0 \<and> \<not> inner k"
  shows "lock_ok s'"
proof -
  have i: "finite {t. pc s t \<noteq> Outside}" "\<forall>t. pc s t \<noteq> Outside \<longrightarrow> 0 < t" "0 \<le> lock_lock s"
      "\<And>u. 0 < u \<Longrightarrow> inner (pc s u) \<longleftrightarrow> lock_lock s = u"
    using ok unfolding lock_ok_def by blast+
  have "inner (pc s' u) \<longleftrightarrow> lock_lock s' = u" if "0 < u" for u
    using l i(4) [OF that] i(4) [OF t] that by (cases "u = t") (auto simp: pc)
  moreover have "0 \<le> lock_lock s'" using l i(3) t by linarith
  moreover have "\<forall>u. pc s' u \<noteq> Outside \<longrightarrow> 0 < u" using i(2) t by (simp add: pc)
  ultimately show ?thesis using finite_pc [OF i(1), of t k] unfolding lock_ok_def pc by blast
qed

lemma lock_ok_step:
  assumes "lock_ok s" "0 < t" "rwl_step t s s'"
  shows "lock_ok s'"
  using assms(3)
proof cases
qed (rule lock_ok_goto [OF assms(1,2)], simp, simp add: rwl_prims)+

lemma inner_unique:
  assumes "lock_ok s" "inner (pc s t)" "inner (pc s u)"
  shows "t = u"
proof -
  have "pc s t \<noteq> Outside" "pc s u \<noteq> Outside" using assms(2,3) by auto
  then have "0 < t" "0 < u" using assms(1) unfolding lock_ok_def by blast+
  then have "lock_lock s = t" "lock_lock s = u" using assms unfolding lock_ok_def by blast+
  then show ?thesis by simp
qed

lemma finite_readers: "lock_ok s \<Longrightarrow> finite (readers s)"
proof (rule finite_subset)
  show "readers s \<subseteq> {t. pc s t \<noteq> Outside}" by (auto simp: readers_def)
qed (simp add: lock_ok_def)

lemma readers_goto:
  "pc s' = (pc s)(t := k) \<Longrightarrow> readers s' = (if reader k then insert t (readers s) else readers s - {t})"
  by (auto simp: readers_def split: if_splits)

lemma write_okI:
  assumes "\<And>t. write_lock s = 0 \<Longrightarrow> \<not> reader (pc s t) \<and> \<not> writer (pc s t) \<and> pc s t \<noteq> RU_free"
    and "\<And>t. 0 < t \<Longrightarrow> write_lock s = t \<Longrightarrow> reader (pc s t) \<or> writer (pc s t) \<or> pc s t \<in> {RU_free, RU_disown}"
    and "\<And>t u. writer (pc s t) \<Longrightarrow> writer (pc s u) \<Longrightarrow> t = u"
    and "\<And>t u. writer (pc s t) \<Longrightarrow> \<not> reader (pc s u) \<and> pc s u \<noteq> RU_free"
    and "\<And>t u. pc s t = RU_free \<Longrightarrow> \<not> reader (pc s u)"
  shows "write_ok s"
  unfolding write_ok_def by (intro conjI allI impI) (rule assms assms(1) [THEN conjunct1] assms(1) [THEN conjunct2, THEN conjunct1]
    assms(1) [THEN conjunct2, THEN conjunct2] assms(4) [THEN conjunct1] assms(4) [THEN conjunct2]; assumption)+

lemma write_okD:
  assumes "write_ok s"
  shows "write_lock s = 0 \<Longrightarrow> \<not> reader (pc s t) \<and> \<not> writer (pc s t) \<and> pc s t \<noteq> RU_free"
    and "0 < t \<Longrightarrow> write_lock s = t \<Longrightarrow> reader (pc s t) \<or> writer (pc s t) \<or> pc s t \<in> {RU_free, RU_disown}"
    and "writer (pc s t) \<Longrightarrow> writer (pc s u) \<Longrightarrow> t = u"
    and "writer (pc s t) \<Longrightarrow> \<not> reader (pc s u) \<and> pc s u \<noteq> RU_free"
    and "pc s t = RU_free \<Longrightarrow> \<not> reader (pc s u)"
proof -
  have w: "write_lock s = 0 \<longrightarrow> (\<forall>t. \<not> reader (pc s t) \<and> \<not> writer (pc s t) \<and> pc s t \<noteq> RU_free)"
      "\<forall>t. 0 < t \<longrightarrow> write_lock s = t \<longrightarrow> reader (pc s t) \<or> writer (pc s t) \<or> pc s t \<in> {RU_free, RU_disown}"
      "\<forall>t u. writer (pc s t) \<longrightarrow> writer (pc s u) \<longrightarrow> t = u"
      "\<forall>t u. writer (pc s t) \<longrightarrow> \<not> reader (pc s u) \<and> pc s u \<noteq> RU_free"
      "\<forall>t u. pc s t = RU_free \<longrightarrow> \<not> reader (pc s u)"
    using assms unfolding write_ok_def by - (elim conjE, assumption)+
  show "write_lock s = 0 \<Longrightarrow> \<not> reader (pc s t) \<and> \<not> writer (pc s t) \<and> pc s t \<noteq> RU_free" using w(1) by blast
  show "0 < t \<Longrightarrow> write_lock s = t \<Longrightarrow> reader (pc s t) \<or> writer (pc s t) \<or> pc s t \<in> {RU_free, RU_disown}"
    by (rule w(2) [rule_format])
  show "writer (pc s t) \<Longrightarrow> writer (pc s u) \<Longrightarrow> t = u" by (rule w(3) [rule_format])
  show "writer (pc s t) \<Longrightarrow> \<not> reader (pc s u) \<and> pc s u \<noteq> RU_free" by (rule w(4) [rule_format])
  show "pc s t = RU_free \<Longrightarrow> \<not> reader (pc s u)" by (rule w(5) [rule_format])
qed

lemma write_ok_same:
  assumes "write_ok s" "pc s' = (pc s)(t := k)" "write_lock s' = write_lock s"
    and "reader k = reader (pc s t)" "writer k = writer (pc s t)" "k = RU_free \<longleftrightarrow> pc s t = RU_free"
    and "pc s t = RU_disown \<longrightarrow> write_lock s \<noteq> t"
  shows "write_ok s'"
proof -
  have c: "reader (pc s' u) = reader (pc s u)" "writer (pc s' u) = writer (pc s u)" "pc s' u = RU_free \<longleftrightarrow> pc s u = RU_free" for u
    using assms(2,4-6) by (cases "u = t"; simp)+
  have d: "pc s u = RU_disown \<Longrightarrow> write_lock s = u \<Longrightarrow> pc s' u = RU_disown" for u
    using assms(2,7) by auto
  note w = write_okD [OF assms(1)]
  show ?thesis
  proof (rule write_okI, unfold assms(3) c)
    show "reader (pc s u) \<or> writer (pc s u) \<or> pc s' u \<in> {RU_free, RU_disown}" if "0 < u" "write_lock s = u" for u
      using w(2) [OF that] d [of u] that(2) c(3) [of u] by blast
  qed (use w(1,3-5) in blast)+
qed

text \<open>The steps that change who reads, who writes or the write lock.\<close>

lemma join_readers:
  assumes "write_ok s" "pc s' = (pc s)(t := k)" "reader k" "\<not> writer (pc s t)" "\<not> writer k" "k \<noteq> RU_free"
    and "pc s t \<notin> {RU_free, RU_disown}"
    and "write_lock s' = write_lock s \<and> (\<exists>u. reader (pc s u)) \<or> write_lock s = 0 \<and> write_lock s' = t \<and> t \<noteq> 0"
  shows "write_ok s'"
proof -
  have w: "write_lock s = 0 \<longrightarrow> (\<forall>t. \<not> reader (pc s t) \<and> \<not> writer (pc s t) \<and> pc s t \<noteq> RU_free)"
      "\<And>t. 0 < t \<Longrightarrow> write_lock s = t \<Longrightarrow> reader (pc s t) \<or> writer (pc s t) \<or> pc s t \<in> {RU_free, RU_disown}"
      "\<And>t u. writer (pc s t) \<Longrightarrow> \<not> reader (pc s u)" "\<And>t u. pc s t = RU_free \<Longrightarrow> \<not> reader (pc s u)"
    using assms(1) unfolding write_ok_def by blast+
  have none: "\<not> writer (pc s u)" "pc s u \<noteq> RU_free" for u using assms(8) w by blast+
  have none': "\<not> writer (pc s' u)" "pc s' u \<noteq> RU_free" for u
    using none [of u] assms(5,6) unfolding assms(2) by (cases "u = t"; simp)+
  have own: "reader (pc s' u) \<or> pc s' u \<in> {RU_free, RU_disown}" if "0 < u" "write_lock s' = u" for u
  proof (cases "u = t")
    case False
    then have "write_lock s = u" using that assms(8) by auto
    then show ?thesis using w(2) [OF that(1)] none [of u] False unfolding assms(2) by simp
  qed (simp add: assms(2,3))
  have "write_lock s' \<noteq> 0" using assms(8) w(1) by auto
  then show ?thesis using own none' by (intro write_okI) blast+
qed

lemma leave_readers:
  assumes "write_ok s" "pc s' = (pc s)(t := k)" "reader (pc s t)" "write_lock s' = write_lock s"
    and "k = RU_free \<and> readers s = {t} \<or> k = RU_disown"
  shows "write_ok s'"
proof -
  have w: "write_lock s = 0 \<longrightarrow> (\<forall>t. \<not> reader (pc s t) \<and> \<not> writer (pc s t) \<and> pc s t \<noteq> RU_free)"
      "\<And>t. 0 < t \<Longrightarrow> write_lock s = t \<Longrightarrow> reader (pc s t) \<or> writer (pc s t) \<or> pc s t \<in> {RU_free, RU_disown}"
      "\<And>t u. writer (pc s t) \<Longrightarrow> \<not> reader (pc s u)" "\<And>t u. pc s t = RU_free \<Longrightarrow> \<not> reader (pc s u)"
    using assms(1) unfolding write_ok_def by blast+
  have nz: "write_lock s' \<noteq> 0" using assms(3,4) w(1) by auto
  have none: "\<not> writer (pc s' u)" for u using w(3) [of u] assms(2,3,5) by (cases "u = t") (auto)
  have free: "u = t \<and> readers s = {t}" if "pc s' u = RU_free" for u
    using that w(4) [of u] assms(2,3,5) by (cases "u = t") auto
  have own: "reader (pc s' u) \<or> pc s' u \<in> {RU_free, RU_disown}" if "0 < u" "write_lock s' = u" for u
    using that assms(2,4,5) w(2) [of u] none [of u] by (cases "u = t") (auto)
  have "\<not> reader (pc s' v)" if "pc s' u = RU_free" for u v
    using free [OF that] assms(2,5) readers_goto [OF assms(2)] by (cases "v = t") (auto simp: readers_def)
  then show ?thesis using nz none own by (intro write_okI) blast+
qed

lemma free_write:
  assumes "write_ok s" "pc s' = (pc s)(t := k)" "write_lock s' = 0"
    and "writer (pc s t) \<or> pc s t = RU_free \<and> (\<forall>u. pc s u = RU_free \<longrightarrow> u = t)" "\<not> reader k" "\<not> writer k" "k \<noteq> RU_free"
  shows "write_ok s'"
proof -
  have "\<not> reader (pc s u) \<and> (writer (pc s u) \<longrightarrow> u = t) \<and> (pc s u = RU_free \<longrightarrow> u = t)" for u
    using assms(1,4) unfolding write_ok_def by metis
  then have "\<not> reader (pc s' u) \<and> \<not> writer (pc s' u) \<and> pc s' u \<noteq> RU_free" for u
    using assms(2,5-7) by (cases "u = t") (auto)
  then show ?thesis using assms(3) by (intro write_okI) auto
qed

lemma become_writer:
  assumes "write_ok s" "pc s' = (pc s)(t := k)" "writer k" "\<not> reader k" "k \<noteq> RU_free"
    and "write_lock s = 0 \<and> write_lock s' = t \<and> t \<noteq> 0 \<or> write_lock s' = write_lock s \<and> readers s = {t}"
    and "pc s t \<noteq> RU_disown"
  shows "write_ok s'"
proof -
  have w: "write_lock s = 0 \<longrightarrow> (\<forall>t. \<not> reader (pc s t) \<and> \<not> writer (pc s t) \<and> pc s t \<noteq> RU_free)"
      "\<And>t. 0 < t \<Longrightarrow> write_lock s = t \<Longrightarrow> reader (pc s t) \<or> writer (pc s t) \<or> pc s t \<in> {RU_free, RU_disown}"
      "\<And>t u. writer (pc s t) \<Longrightarrow> \<not> reader (pc s u)" "\<And>t u. pc s t = RU_free \<Longrightarrow> \<not> reader (pc s u)"
    using assms(1) unfolding write_ok_def by blast+
  have one: "reader (pc s u) \<Longrightarrow> u = t" for u
    using assms(6) w(1) unfolding readers_def by blast
  have none: "\<not> writer (pc s u)" "pc s u \<noteq> RU_free" for u
    using assms(6) w unfolding readers_def by blast+
  have new: "\<not> reader (pc s' u)" "writer (pc s' u) \<longleftrightarrow> u = t" "pc s' u \<noteq> RU_free" for u
    using one none [of u] assms(3-5) unfolding assms(2) by (cases "u = t"; simp; blast)+
  have nz: "write_lock s' \<noteq> 0" using assms(6) w(1) unfolding readers_def by auto
  have own: "writer (pc s' u) \<or> pc s' u \<in> {RU_free, RU_disown}" if "0 < u" "write_lock s' = u" for u
  proof (cases "u = t")
    case False
    then have "write_lock s = u" using that assms(6) by auto
    then have "pc s u = RU_disown" using w(2) [OF that(1)] none [of u] one False by blast
    with False show ?thesis unfolding assms(2) by simp
  qed (simp add: assms(2,3))
  show ?thesis
  proof (rule write_okI)
    show "u = v" if "writer (pc s' u)" "writer (pc s' v)" for u v using that unfolding new(2) by simp
    show "\<not> reader (pc s' v) \<and> pc s' v \<noteq> RU_free" for v using new(1,3) by simp
  qed (use nz own new(1,3) in blast)+
qed

text \<open>Counting the readers.\<close>

lemma count_exact:
  assumes "lock_ok s" "count_ok s" "inner (pc s t)" "pc s t \<noteq> RL_write_lock"
  shows "reader_count s = int (card (readers s))"
proof -
  have "\<not> (\<exists>u. pc s u = RL_write_lock)"
  proof
    assume "\<exists>u. pc s u = RL_write_lock"
    then obtain u where u: "pc s u = RL_write_lock" by blast
    then have "inner (pc s u)" by simp
    from inner_unique [OF assms(1,3) this] u assms(4) show False by simp
  qed
  with assms(2) show ?thesis by (simp add: count_ok_def)
qed

lemma only_reader:
  assumes "lock_ok s" "count_ok s" "inner (pc s t)" "pc s t \<noteq> RL_write_lock" "reader (pc s t)" "reader_count s = 1"
  shows "readers s = {t}"
proof -
  have "card (readers s) = 1" using count_exact [OF assms(1-4)] assms(6) by simp
  then obtain u where "readers s = {u}" by (auto simp: card_1_singleton_iff)
  with assms(5) show ?thesis by (auto simp: readers_def)
qed

lemma count_same:
  assumes "count_ok s" "pc s' = (pc s)(t := k)" "reader_count s' = reader_count s" "reader k = reader (pc s t)"
    and "k = RL_write_lock \<longleftrightarrow> pc s t = RL_write_lock" "k \<noteq> QW_reset"
  shows "count_ok s'"
proof -
  have r: "readers s' = readers s"
    using readers_goto [OF assms(2)] assms(4) by (auto simp: readers_def split: if_splits)
  have "(\<exists>u. pc s' u = RL_write_lock) \<longleftrightarrow> (\<exists>u. pc s u = RL_write_lock)" using assms(2,5) by (metis fun_upd_other fun_upd_same)
  moreover have "pc s' u = QW_reset \<Longrightarrow> pc s u = QW_reset" for u using assms(2,6) by (cases "u = t") simp_all
  ultimately show ?thesis using assms(1) unfolding count_ok_def assms(3) r by presburger
qed

lemma count_exactI:
  assumes "lock_ok s" "inner (pc s t)" "pc s' = (pc s)(t := k)" "k \<noteq> RL_write_lock" "k \<noteq> QW_reset"
    and "reader_count s' = int (card (readers s'))"
  shows "count_ok s'"
proof -
  have "pc s' u \<noteq> RL_write_lock \<and> pc s' u \<noteq> QW_reset" for u
  proof (cases "u = t")
    case False
    have "\<not> inner (pc s u)" using inner_unique [OF assms(1,2), of u] False by blast
    then show ?thesis using False by (auto simp: assms(3))
  qed (simp add: assms(3-5))
  with assms(6) show ?thesis by (simp add: count_ok_def)
qed

text \<open>The invariant of a readers-writers lock.\<close>

definition rwl_inv :: "rw_lock \<Rightarrow> bool" where
  "rwl_inv s \<longleftrightarrow> lock_ok s \<and> write_ok s \<and> count_ok s"

lemma write_ok_step:
  assumes "lock_ok s" "write_ok s" "count_ok s" "0 < t" "rwl_step t s s'"
  shows "write_ok s'"
  using assms(5)
proof cases
  case lock_r_count
  show ?thesis
  proof (cases "reader_count s = 0")
    case True
    then show ?thesis using lock_r_count by (intro write_ok_same [OF assms(2), of s' t RL_write_lock]) simp_all
  next
    case False
    then have "readers s \<noteq> {}" using count_exact [OF assms(1,3), of t] lock_r_count by auto
    then have "\<exists>u. reader (pc s u)" by (auto simp: readers_def)
    then show ?thesis using lock_r_count False by (intro join_readers [OF assms(2), of s' t RL_unlock]) simp_all
  qed
next
  case (lock_r_write v)
  then show ?thesis using assms(4) by (intro join_readers [OF assms(2), of s' t RL_unlock]) (simp_all add: rwl_prims)
next
  case unlock_r_count
  have "readers s = {t}" if "reader_count s - 1 = 0"
    using only_reader [OF assms(1,3), of t] unlock_r_count that by simp
  then show ?thesis
    using unlock_r_count by (intro leave_readers [OF assms(2), of s' t "if reader_count s - 1 = 0 then RU_free else RU_disown"]) simp_all
next
  case unlock_r_free
  have "\<forall>u. pc s u = RU_free \<longrightarrow> u = t" using inner_unique [OF assms(1), of _ t] unlock_r_free by simp
  then have "pc s t = RU_free \<and> (\<forall>u. pc s u = RU_free \<longrightarrow> u = t)" using unlock_r_free by blast
  then show ?thesis using unlock_r_free(1) by (intro free_write [OF assms(2), of s' t RU_unlock]) (simp_all add: rwl_prims)
next
  case unlock_r_disown
  show ?thesis
  proof (cases "write_lock s = t")
    case False
    then show ?thesis using unlock_r_disown by (intro write_ok_same [OF assms(2), of s' t RU_unlock]) simp_all
  next
    case True
    have c: "reader (pc s' u) = reader (pc s u)" "writer (pc s' u) = writer (pc s u)" "pc s' u = RU_free \<longleftrightarrow> pc s u = RU_free" for u
      using unlock_r_disown by simp_all
    have "write_lock s' = -1" using unlock_r_disown True by simp
    then show ?thesis
      by (intro write_okI; unfold c) (use write_okD(3-5) [OF assms(2)] in \<open>simp; blast\<close>)+
  qed
next
  case (lock_w v)
  then show ?thesis using assms(4) by (intro become_writer [OF assms(2), of s' t Writing]) (simp_all add: rwl_prims)
next
  case unlock_w
  then show ?thesis by (intro free_write [OF assms(2), of s' t Outside]) (simp_all add: rwl_prims)
next
  case require_w_reset
  then have "readers s = {t}" using assms(3) by (simp add: count_ok_def)
  with require_w_reset show ?thesis by (intro become_writer [OF assms(2), of s' t QW_unlock]) simp_all
next
  case drop_w
  note w = write_okD [OF assms(2)]
  have wt: "writer (pc s t)" using drop_w by simp
  have none: "\<not> reader (pc s u)" "pc s u \<noteq> RU_free" "u \<noteq> t \<Longrightarrow> \<not> writer (pc s u)" for u
    using w(3) [OF wt, of u] w(4) [OF wt, of u] by blast+
  have c: "reader (pc s' u) \<longleftrightarrow> u = t" "\<not> writer (pc s' u)" "pc s' u \<noteq> RU_free" for u
    using none [of u] drop_w by (cases "u = t"; simp)+
  have "write_lock s' \<noteq> 0" "write_lock s' = write_lock s" using w(1) [of t] drop_w by auto
  moreover have "reader (pc s' u) \<or> writer (pc s' u) \<or> pc s' u \<in> {RU_free, RU_disown}" if "0 < u" "write_lock s = u" for u
    using w(2) [OF that] none [of u] c(1) [of u] drop_w by (cases "u = t") simp_all
  ultimately show ?thesis using c by (intro write_okI) auto
qed (use assms(2) in \<open>auto intro!: write_ok_same [of s _ t] simp: rwl_prims\<close>)

lemma count_ok_step:
  assumes "lock_ok s" "write_ok s" "count_ok s" "0 < t" "rwl_step t s s'"
  shows "count_ok s'"
  using assms(5)
proof cases
  case lock_r_count
  have n: "reader_count s = int (card (readers s))" "t \<notin> readers s"
    using count_exact [OF assms(1,3), of t] lock_r_count by (simp_all add: readers_def)
  have r: "readers s' = (if reader_count s = 0 then readers s else insert t (readers s))"
    using readers_goto [of s' s t] lock_r_count n(2) by auto
  show ?thesis
  proof (cases "reader_count s = 0")
    case True
    have "pc s' u \<noteq> QW_reset" for u
      using inner_unique [OF assms(1), of t u] lock_r_count True by (cases "u = t") auto
    moreover have "pc s' t = RL_write_lock" using lock_r_count True by simp
    ultimately show ?thesis using n(1) r True lock_r_count by (auto simp: count_ok_def)
  next
    case False
    then show ?thesis
      using n r lock_r_count finite_readers [OF assms(1)] by (intro count_exactI [OF assms(1), of t s' RL_unlock]) simp_all
  qed
next
  case (lock_r_write v)
  have none: "readers s = {}" using write_okD(1) [OF assms(2)] lock_r_write by (simp add: readers_def rwl_prims)
  have "\<exists>u. pc s u = RL_write_lock" using lock_r_write by blast
  then have "reader_count s = 1" using assms(3) unfolding count_ok_def by presburger
  moreover have "readers s' = {t}" using readers_goto [of s' s t RL_unlock] lock_r_write none by simp
  ultimately show ?thesis using lock_r_write by (intro count_exactI [OF assms(1), of t s' RL_unlock]) simp_all
next
  case unlock_r_count
  have n: "reader_count s = int (card (readers s))" "t \<in> readers s"
    using count_exact [OF assms(1,3), of t] unlock_r_count by (simp_all add: readers_def)
  have "readers s' = readers s - {t}" using readers_goto [of s' s t] unlock_r_count by auto
  then have "card (readers s) = Suc (card (readers s'))"
    using card.remove [OF finite_readers [OF assms(1)] n(2)] by simp
  then show ?thesis
    using n(1) unlock_r_count
    by (intro count_exactI [OF assms(1), of t s' "if reader_count s - 1 = 0 then RU_free else RU_disown"]) auto
next
  case require_w_check
  show ?thesis
  proof (cases "reader_count s = 1")
    case True
    have r: "readers s = {t}" using only_reader [OF assms(1,3), of t] require_w_check True by simp
    have r': "readers s' = {t}" using readers_goto [of s' s t QW_reset] require_w_check True r by simp
    have other: "pc s' u \<noteq> RL_write_lock" "u \<noteq> t \<Longrightarrow> pc s' u \<noteq> QW_reset" for u
    proof -
      have "\<not> inner (pc s u)" if "u \<noteq> t" using inner_unique [OF assms(1), of t u] require_w_check that by auto
      then show "pc s' u \<noteq> RL_write_lock" "u \<noteq> t \<Longrightarrow> pc s' u \<noteq> QW_reset"
        using require_w_check by (cases "u = t"; auto)+
    qed
    then have "\<forall>u. pc s' u = QW_reset \<longrightarrow> readers s' = {u}" using r' by metis
    with other(1) r' True require_w_check show ?thesis by (simp add: count_ok_def)
  next
    case False
    then show ?thesis using require_w_check by (intro count_same [OF assms(3), of s' t QW_again]) simp_all
  qed
next
  case require_w_reset
  then have "readers s = {t}" using assms(3) by (simp add: count_ok_def)
  then have "readers s' = {}" using readers_goto [of s' s t QW_unlock] require_w_reset by simp
  then show ?thesis using require_w_reset by (intro count_exactI [OF assms(1), of t s' QW_unlock]) simp_all
next
  case drop_w
  have none: "readers s = {}" using write_okD(4) [OF assms(2), of t] drop_w by (simp add: readers_def)
  have r: "readers s' = {t}" using readers_goto [of s' s t Reading] drop_w none by simp
  have "\<not> reader (pc s u)" for u using none by (auto simp: readers_def)
  then have "pc s u \<noteq> QW_reset" for u by (metis reader.simps(9))
  then have "pc s' u \<noteq> QW_reset" for u using drop_w by (cases "u = t") simp_all
  with r drop_w show ?thesis by (simp add: count_ok_def)
qed (use assms(3) in \<open>auto intro!: count_same [of s _ t] simp: rwl_prims\<close>)

lemma rwl_inv_step: "rwl_inv s \<Longrightarrow> 0 < t \<Longrightarrow> rwl_step t s s' \<Longrightarrow> rwl_inv s'"
  unfolding rwl_inv_def by (blast intro: lock_ok_step write_ok_step count_ok_step)

lemma rwl_steps_inv: "rwl_steps s \<Longrightarrow> rwl_inv s"
proof (induction rule: rwl_steps.induct)
  case start
  show ?case by (simp add: rwl_inv_def lock_ok_def write_ok_def count_ok_def readers_def)
qed (rule rwl_inv_step)

lemma rwl_exclusion_facts:
  assumes "rwl_steps s"
  shows "pc s t = Writing \<Longrightarrow> u \<noteq> t \<Longrightarrow> pc s u \<noteq> Writing"
    and "pc s t = Writing \<Longrightarrow> pc s u \<noteq> Reading"
    and "pc s t \<in> {RL_lock_lock, RU_lock_lock} \<Longrightarrow> \<exists>r. lock_round (lock_lock s) t = Inr r"
    and "pc s t \<in> {RL_write_lock, WL_write_lock} \<Longrightarrow> \<exists>r. lock_round (write_lock s) t = Inr r"
proof -
  have i: "lock_ok s" "write_ok s" using rwl_steps_inv [OF assms] by (simp_all add: rwl_inv_def)
  have pos: "0 < t" if "pc s t \<noteq> Outside" using i(1) that unfolding lock_ok_def by blast
  have inner: "0 < t \<Longrightarrow> inner (pc s t) \<longleftrightarrow> lock_lock s = t" using i(1) unfolding lock_ok_def by blast
  show "pc s t = Writing \<Longrightarrow> u \<noteq> t \<Longrightarrow> pc s u \<noteq> Writing" using write_okD(3) [OF i(2), of t u] by auto
  show "pc s t = Writing \<Longrightarrow> pc s u \<noteq> Reading" using write_okD(4) [OF i(2), of t u] by auto
  show "pc s t \<in> {RL_lock_lock, RU_lock_lock} \<Longrightarrow> \<exists>r. lock_round (lock_lock s) t = Inr r"
    using pos inner by (auto simp: lock_round_def)
  show "\<exists>r. lock_round (write_lock s) t = Inr r" if "pc s t \<in> {RL_write_lock, WL_write_lock}"
  proof -
    have "0 < t" using pos that by auto
    with write_okD(2) [OF i(2), of t] that have "write_lock s \<noteq> t" by auto
    then show ?thesis by (auto simp: lock_round_def)
  qed
qed

text \<open>
  C4: a readers-writers lock excludes: whatever the interleaving of the threads that use it, a thread
  in the writing section is alone in there, and no thread is in the reading section; and no thread
  ever waits for a lock it owns, so that the assertion in \<open>lock\<close> never fails.
\<close>

theorem rwl_excludes:
  assumes "rwl_steps s"
  shows "(pc s t = Writing \<longrightarrow> (u \<noteq> t \<longrightarrow> pc s u \<noteq> Writing) \<and> pc s u \<noteq> Reading)
    \<and> (pc s t \<in> {RL_lock_lock, RU_lock_lock} \<longrightarrow> (\<exists>r. lock_round (lock_lock s) t = Inr r))
    \<and> (pc s t \<in> {RL_write_lock, WL_write_lock} \<longrightarrow> (\<exists>r. lock_round (write_lock s) t = Inr r))"
  using rwl_exclusion_facts [OF assms] by (intro conjI impI)

subsection \<open>Giving the write lock back for reading\<close>

text \<open>A writer that becomes a reader while another reader waits: the waiting reader holds \<open>lock_lock\<close>
  and waits for \<open>write_lock\<close>, which the other cannot release without \<open>lock_lock\<close>.\<close>

definition stuck :: "rw_lock \<Rightarrow> bool" where
  "stuck s \<longleftrightarrow> rwl_inv s \<and> pc s 1 = RU_lock_lock \<and> pc s 2 = RL_write_lock \<and> write_lock s = 1"

lemma stuck_step:
  assumes "stuck s" "0 < t" "rwl_step t s s'"
  shows "stuck s'"
proof -
  have i: "rwl_inv s" "lock_ok s" "write_ok s" "pc s 1 = RU_lock_lock" "pc s 2 = RL_write_lock" "write_lock s = 1"
    using assms(1) by (simp_all add: stuck_def rwl_inv_def)
  have "lock_lock s = 2" using i(2,5) unfolding lock_ok_def by force
  have t2: "t = 2" if "inner (pc s t)" using inner_unique [OF i(2) that, of 2] i(5) by simp
  have nw: "\<not> writer (pc s t)" using write_okD(4) [OF i(3), of t 1] i(4) by auto
  have nf: "pc s t \<noteq> RU_free" using write_okD(5) [OF i(3), of t 1] i(4) by auto
  have inv': "rwl_inv s'" by (rule rwl_inv_step [OF i(1) assms(2,3)])
  have "pc s' 1 = RU_lock_lock \<and> pc s' 2 = RL_write_lock \<and> write_lock s' = 1"
    using assms(3)
    by cases (use t2 nw nf i(4-6) \<open>lock_lock s = 2\<close> in \<open>auto simp: rwl_prims\<close>)
  with inv' show ?thesis by (simp add: stuck_def)
qed

text \<open>\<open>rwl_drop_w\<close> can deadlock the lock: there is a run after which the thread that gave up writing
  and a waiting reader wait for each other in every continuation, whatever other threads do.
\<close>

theorem rwl_drop_deadlocks:
  "\<exists>s. rwl_steps s \<and> {s'. (\<lambda>a b. \<exists>t > 0. rwl_step t a b)\<^sup>*\<^sup>* s s'} \<subseteq> {s'. pc s' 1 = RU_lock_lock \<and> pc s' 2 = RL_write_lock}"
proof -
  define s0 where "s0 = \<lparr>write_lock = 0, lock_lock = 0, reader_count = 0, pc = (\<lambda>t. Outside)\<rparr>"
  define s1 where "s1 = goto 1 Writing ((goto 1 WL_write_lock s0)\<lparr>write_lock := 1\<rparr>)"
  define s2 where "s2 = goto 2 RL_count ((goto 2 RL_lock_lock s1)\<lparr>lock_lock := 2\<rparr>)"
  define s3 where "s3 = goto 2 (if reader_count s2 = 0 then RL_write_lock else RL_unlock) (s2\<lparr>reader_count := reader_count s2 + 1\<rparr>)"
  define s4 where "s4 = goto 1 Reading ((goto 1 DW_count s3)\<lparr>reader_count := 1\<rparr>)"
  define s5 where "s5 = goto 1 RU_lock_lock s4"
  note defs = s0_def s1_def s2_def s3_def s4_def s5_def
  have "rwl_steps s0" unfolding s0_def by (rule rwl_steps.start)
  then have "rwl_steps (goto 1 WL_write_lock s0)"
    by (rule rwl_steps.step [where t = 1]) (auto intro!: rwl_step.call_lock_w simp: s0_def)
  then have "rwl_steps s1"
    unfolding s1_def by (rule rwl_steps.step [where t = 1]) (auto intro!: rwl_step.lock_w simp: s0_def rwl_prims)
  then have "rwl_steps (goto 2 RL_lock_lock s1)"
    by (rule rwl_steps.step [where t = 2]) (auto intro!: rwl_step.call_lock_r simp: defs)
  then have "rwl_steps s2"
    unfolding s2_def by (rule rwl_steps.step [where t = 2]) (auto intro!: rwl_step.lock_r_lock simp: s0_def s1_def rwl_prims)
  then have "rwl_steps s3"
    unfolding s3_def by (rule rwl_steps.step [where t = 2]) (simp, rule rwl_step.lock_r_count, simp add: s2_def)
  then have "rwl_steps (goto 1 DW_count s3)"
    by (rule rwl_steps.step [where t = 1]) (auto intro!: rwl_step.call_drop_w simp: defs)
  then have "rwl_steps s4"
    unfolding s4_def by (rule rwl_steps.step [where t = 1]) (auto intro!: rwl_step.drop_w)
  then have r: "rwl_steps s5"
    unfolding s5_def by (rule rwl_steps.step [where t = 1]) (auto intro!: rwl_step.call_unlock_r simp: s4_def)
  have st: "stuck s5" using rwl_steps_inv [OF r] by (simp add: stuck_def defs)
  have "stuck s'" if "(\<lambda>a b. \<exists>t > 0. rwl_step t a b)\<^sup>*\<^sup>* s5 s'" for s'
    using that by (induction rule: rtranclp_induct) (use st stuck_step in blast)+
  with r show ?thesis by (intro exI [of _ s5]) (auto simp: stuck_def)
qed

theorem rwl_excludes_witness:
  "\<exists>s. rwl_steps s \<and> pc s 1 = Writing \<and> pc s 2 \<noteq> Writing \<and> pc s 2 \<noteq> Reading"
proof -
  let ?s0 = "\<lparr>write_lock = 0, lock_lock = 0, reader_count = 0, pc = (\<lambda>t. Outside)\<rparr>"
  let ?s1 = "goto 1 Writing ((goto 1 WL_write_lock ?s0)\<lparr>write_lock := 1\<rparr>)"
  have "rwl_steps (goto 1 WL_write_lock ?s0)"
    by (rule rwl_steps.step [where t = 1, OF rwl_steps.start]) (auto intro!: rwl_step.call_lock_w)
  then have r: "rwl_steps ?s1"
    by (rule rwl_steps.step [where t = 1]) (auto intro!: rwl_step.lock_w simp: rwl_prims)
  have "pc ?s1 1 = Writing" by simp
  with rwl_excludes [OF r, of 1 2] r show ?thesis by (intro exI [of _ ?s1]) simp
qed

end
