(* ===== verification/CString.thy ===== *)
theory CString
  imports Prelude "HOL-Library.Monad_Syntax" "HOL-Library.Sublist"
begin

text \<open>
  The memory and string functions of the C library (\<open>src/lib/common/string/\<close>) over a byte-addressed
  memory. Pointers are 32 bit words, the \<open>size_t\<close> arguments that count down a loop are natural
  numbers. A function that searches for the end of a string is a partial function: without a
  terminating zero byte it would not return. Results of type \<open>int\<close> are integers; no byte
  difference leaves the range of \<open>int\<close>.
\<close>

type_synonym bmem = "u32 \<Rightarrow> u8"

subsection \<open>Blocks of memory\<close>

fun memset :: "bmem \<Rightarrow> u32 \<Rightarrow> u8 \<Rightarrow> nat \<Rightarrow> bmem" where
  "memset m s c 0 = m"
| "memset m s c (Suc n) = memset (m(s := c)) (s + 1) c n"

fun memcpy :: "bmem \<Rightarrow> u32 \<Rightarrow> u32 \<Rightarrow> nat \<Rightarrow> bmem" where
  "memcpy m d s 0 = m"
| "memcpy m d s (Suc n) = memcpy (m(d := m s)) (d + 1) (s + 1) n"

fun memcpy_down :: "bmem \<Rightarrow> u32 \<Rightarrow> u32 \<Rightarrow> nat \<Rightarrow> bmem" where
  "memcpy_down m d s 0 = m"
| "memcpy_down m d s (Suc n) = memcpy_down (m(d + of_nat n := m (s + of_nat n))) d s n"

definition memmove :: "bmem \<Rightarrow> u32 \<Rightarrow> u32 \<Rightarrow> nat \<Rightarrow> bmem" where
  "memmove m d s n = (if d < s \<or> s + of_nat n \<le> d then memcpy m d s n else memcpy_down m d s n)"

fun memcmp :: "bmem \<Rightarrow> u32 \<Rightarrow> u32 \<Rightarrow> nat \<Rightarrow> int" where
  "memcmp m s1 s2 0 = 0"
| "memcmp m s1 s2 (Suc n) =
     (let ret = uint (m s2) - uint (m s1) in if ret = 0 then memcmp m (s1 + 1) (s2 + 1) n else ret)"

fun memchr :: "bmem \<Rightarrow> u32 \<Rightarrow> u8 \<Rightarrow> nat \<Rightarrow> u32 option" where
  "memchr m s c 0 = None"
| "memchr m s c (Suc n) = (if m s = c then Some s else memchr m (s + 1) c n)"

fun memrchr :: "bmem \<Rightarrow> u32 \<Rightarrow> u8 \<Rightarrow> nat \<Rightarrow> u32 option" where
  "memrchr m s c 0 = None"
| "memrchr m s c (Suc n) = (if m (s + of_nat n) = c then Some (s + of_nat n) else memrchr m s c n)"

subsection \<open>Strings\<close>

text \<open>A result \<open>Some (Some p)\<close> is a pointer, \<open>Some None\<close> the null pointer, \<open>None\<close> no result at all.\<close>

partial_function (option) strlen_from :: "bmem \<Rightarrow> u32 \<Rightarrow> u32 \<Rightarrow> u32 option" where
  "strlen_from m s i = (if m (s + i) \<noteq> 0 then strlen_from m s (i + 1) else Some i)"

definition strlen :: "bmem \<Rightarrow> u32 \<Rightarrow> u32 option" where
  "strlen m s = strlen_from m s 0"

fun strnlen_from :: "bmem \<Rightarrow> u32 \<Rightarrow> nat \<Rightarrow> u32 \<Rightarrow> u32" where
  "strnlen_from m s 0 i = i"
| "strnlen_from m s (Suc n) i = (if m (s + i) \<noteq> 0 then strnlen_from m s n (i + 1) else i)"

definition strnlen :: "bmem \<Rightarrow> u32 \<Rightarrow> nat \<Rightarrow> u32" where
  "strnlen m s mlen = strnlen_from m s mlen 0"

partial_function (option) strcmp :: "bmem \<Rightarrow> u32 \<Rightarrow> u32 \<Rightarrow> int option" where
  "strcmp m s1 s2 =
     (let ret = uint (m s2) - uint (m s1) in
      if ret \<noteq> 0 then Some ret else if m s1 = 0 then Some 0 else strcmp m (s1 + 1) (s2 + 1))"

definition strcoll :: "bmem \<Rightarrow> u32 \<Rightarrow> u32 \<Rightarrow> int option" where
  "strcoll m s1 s2 = strcmp m s1 s2"

fun strncmp :: "bmem \<Rightarrow> u32 \<Rightarrow> u32 \<Rightarrow> nat \<Rightarrow> int" where
  "strncmp m s1 s2 0 = 0"
| "strncmp m s1 s2 (Suc n) =
     (if m s1 \<noteq> m s2 then uint (m s2) - uint (m s1)
      else if m s2 = 0 then 0 else strncmp m (s1 + 1) (s2 + 1) n)"

text \<open>\<open>tolower\<close> of \<open>src/include/common/ctype.h\<close> on a byte read as a signed char.\<close>

definition tolower :: "u8 \<Rightarrow> int" where
  "tolower c = (if 65 \<le> c \<and> c \<le> 90 then sint c + 32 else sint c)"

partial_function (option) strcasecmp :: "bmem \<Rightarrow> u32 \<Rightarrow> u32 \<Rightarrow> int option" where
  "strcasecmp m s1 s2 =
     (if m s1 \<noteq> 0 \<or> m s2 \<noteq> 0 then
        (let diff = tolower (m s1) - tolower (m s2) in
         if diff \<noteq> 0 then Some diff else strcasecmp m (s1 + 1) (s2 + 1))
      else Some 0)"

partial_function (option) strcpy_loop :: "bmem \<Rightarrow> u32 \<Rightarrow> u32 \<Rightarrow> bmem option" where
  "strcpy_loop m d s = (if m s \<noteq> 0 then strcpy_loop (m(d := m s)) (d + 1) (s + 1) else Some (m(d := 0)))"

definition strcpy :: "bmem \<Rightarrow> u32 \<Rightarrow> u32 \<Rightarrow> bmem option" where
  "strcpy m d s = strcpy_loop m d s"

fun strncpy_loop :: "bmem \<Rightarrow> u32 \<Rightarrow> u32 \<Rightarrow> nat \<Rightarrow> bmem" where
  "strncpy_loop m d s 0 = m"
| "strncpy_loop m d s (Suc n) =
     (if m s \<noteq> 0 then strncpy_loop (m(d := m s)) (d + 1) (s + 1) n else memset m d 0 (Suc n))"

definition strncpy :: "bmem \<Rightarrow> u32 \<Rightarrow> u32 \<Rightarrow> nat \<Rightarrow> bmem" where
  "strncpy m d s n = (if n = 0 then m else strncpy_loop m d s n)"

definition strcat :: "bmem \<Rightarrow> u32 \<Rightarrow> u32 \<Rightarrow> bmem option" where
  "strcat m d s = (case strlen m d of None \<Rightarrow> None | Some l \<Rightarrow> strcpy_loop m (d + l) s)"

fun strncat_loop :: "bmem \<Rightarrow> u32 \<Rightarrow> u32 \<Rightarrow> nat \<Rightarrow> bmem" where
  "strncat_loop m d s 0 = m(d := 0)"
| "strncat_loop m d s (Suc n) =
     (if m s \<noteq> 0 then strncat_loop (m(d := m s)) (d + 1) (s + 1) n else m(d := 0))"

definition strncat :: "bmem \<Rightarrow> u32 \<Rightarrow> u32 \<Rightarrow> nat \<Rightarrow> bmem option" where
  "strncat m d s n = (case strlen m d of None \<Rightarrow> None | Some l \<Rightarrow> Some (strncat_loop m (d + l) s n))"

partial_function (option) strchr :: "bmem \<Rightarrow> u32 \<Rightarrow> u8 \<Rightarrow> u32 option option" where
  "strchr m s c = (if m s \<noteq> c \<and> m s \<noteq> 0 then strchr m (s + 1) c
                   else Some (if m s = 0 then None else Some s))"

definition strrchr :: "bmem \<Rightarrow> u32 \<Rightarrow> u8 \<Rightarrow> u32 option option" where
  "strrchr m s c =
     (case strlen m s of
        None \<Rightarrow> None
      | Some l \<Rightarrow> Some (if 0 \<le> sint (l - 1) then memrchr m s c (unat l) else None))"

text \<open>Whether a character occurs in a string: the inner loop of the next four functions.\<close>

partial_function (option) occurs :: "bmem \<Rightarrow> u8 \<Rightarrow> u32 \<Rightarrow> bool option" where
  "occurs m c s = (if m s \<noteq> 0 then (if c = m s then Some True else occurs m c (s + 1)) else Some False)"

partial_function (option) strcspn_from :: "bmem \<Rightarrow> u32 \<Rightarrow> u32 \<Rightarrow> u32 \<Rightarrow> u32 option" where
  "strcspn_from m s1 s2 i =
     (if m (s1 + i) \<noteq> 0 then
        (case occurs m (m (s1 + i)) s2 of
           None \<Rightarrow> None | Some b \<Rightarrow> if b then Some i else strcspn_from m s1 s2 (i + 1))
      else Some i)"

partial_function (option) strspn_from :: "bmem \<Rightarrow> u32 \<Rightarrow> u32 \<Rightarrow> u32 \<Rightarrow> u32 option" where
  "strspn_from m s1 s2 i =
     (if m (s1 + i) \<noteq> 0 then
        (case occurs m (m (s1 + i)) s2 of
           None \<Rightarrow> None | Some b \<Rightarrow> if \<not> b then Some i else strspn_from m s1 s2 (i + 1))
      else Some i)"

definition strcspn :: "bmem \<Rightarrow> u32 \<Rightarrow> u32 \<Rightarrow> u32 option" where
  "strcspn m s1 s2 = strcspn_from m s1 s2 0"

definition strspn :: "bmem \<Rightarrow> u32 \<Rightarrow> u32 \<Rightarrow> u32 option" where
  "strspn m s1 s2 = strspn_from m s1 s2 0"

partial_function (option) strpbrk :: "bmem \<Rightarrow> u32 \<Rightarrow> u32 \<Rightarrow> u32 option option" where
  "strpbrk m s1 s2 =
     (if m s1 \<noteq> 0 then
        (case occurs m (m s1) s2 of
           None \<Rightarrow> None | Some b \<Rightarrow> if b then Some (Some s1) else strpbrk m (s1 + 1) s2)
      else Some None)"

partial_function (option) strstr :: "bmem \<Rightarrow> u32 \<Rightarrow> u32 \<Rightarrow> u32 option option" where
  "strstr m s1 s2 =
     (if m s1 \<noteq> 0 then
        (case occurs m (m s1) s2 of
           None \<Rightarrow> None | Some b \<Rightarrow> if b then Some (Some s1) else strstr m (s1 + 1) s2)
      else Some None)"

text \<open>\<open>strtok_r\<close>: the pointers 0 are NULL; the result is the token and the saved pointer.\<close>

partial_function (option) strtok_skip :: "bmem \<Rightarrow> u32 \<Rightarrow> u32 \<Rightarrow> u32 \<Rightarrow> (u32 \<times> u32 option) option" where
  "strtok_skip m string1 string2 slen =
     (case strstr m string1 string2 of
        None \<Rightarrow> None
      | Some tok \<Rightarrow> if tok = Some string1 then strtok_skip m (string1 + slen) string2 slen else Some (string1, tok))"

definition strtok_r :: "bmem \<Rightarrow> u32 \<Rightarrow> u32 \<Rightarrow> u32 \<Rightarrow> (u32 \<times> u32 \<times> bmem) option" where
  "strtok_r m string1 string2 saveptr =
     (case strlen m string2 of
        None \<Rightarrow> None
      | Some slen \<Rightarrow>
          (let string1 = (if string1 = 0 then saveptr else string1) in
           if string1 = 0 then Some (0, saveptr, m)
           else
             (case strtok_skip m string1 string2 slen of
                None \<Rightarrow> None
              | Some (string1, tok) \<Rightarrow>
                  if m string1 = 0 then Some (0, 0, m)
                  else (case tok of
                          None \<Rightarrow> Some (string1, 0, m)
                        | Some t \<Rightarrow> Some (string1, t + slen, m(t := 0))))))"

subsection \<open>The kernel's variants\<close>

text \<open>
  \<open>src/kernel/common/lib/string.c\<close> has its own copies. \<open>memset\<close>, \<open>memcpy\<close>, \<open>strncmp\<close>, \<open>strlen\<close>,
  \<open>strchr\<close>, \<open>strcmp\<close> and \<open>strcat\<close> are the same loops as the library's; the ones below differ.
\<close>

partial_function (option) k_strcpy :: "bmem \<Rightarrow> u32 \<Rightarrow> u32 \<Rightarrow> bmem option" where
  "k_strcpy m dst src =
     (let m1 = m(dst := m src) in if m1 src \<noteq> 0 then k_strcpy m1 (dst + 1) (src + 1) else Some m1)"

fun k_strncpy :: "bmem \<Rightarrow> u32 \<Rightarrow> u32 \<Rightarrow> nat \<Rightarrow> bmem" where
  "k_strncpy m dst src n =
     (if n \<noteq> 0 \<and> m src \<noteq> 0 then k_strncpy (m(dst := m src)) (dst + 1) (src + 1) (n - 1)
      else memset m dst 0 n)"

partial_function (option) k_match :: "bmem \<Rightarrow> u32 \<Rightarrow> u32 \<Rightarrow> bool option" where
  "k_match m s1 s2 = (if m s2 \<noteq> 0 \<and> m s1 = m s2 then k_match m (s1 + 1) (s2 + 1) else Some (m s2 = 0))"

partial_function (option) k_strstr :: "bmem \<Rightarrow> u32 \<Rightarrow> u32 \<Rightarrow> u32 option option" where
  "k_strstr m s1 s2 =
     (if m s1 \<noteq> 0 then
        (case k_match m s1 s2 of
           None \<Rightarrow> None | Some b \<Rightarrow> if b then Some (Some s1) else k_strstr m (s1 + 1) s2)
      else Some None)"

partial_function (option) k_strtok_skip :: "bmem \<Rightarrow> u32 \<Rightarrow> u32 \<Rightarrow> u32 \<Rightarrow> (u32 \<times> u32 option) option" where
  "k_strtok_skip m string1 string2 slen =
     (case k_strstr m string1 string2 of
        None \<Rightarrow> None
      | Some tok \<Rightarrow>
          if tok = Some string1 then k_strtok_skip m (string1 + slen) string2 slen
          else Some (string1, tok))"

text \<open>\<open>next_token\<close> is the static variable of \<open>strtok\<close>; 0 is NULL.\<close>

definition k_strtok :: "bmem \<Rightarrow> u32 \<Rightarrow> u32 \<Rightarrow> u32 \<Rightarrow> (u32 \<times> u32 \<times> bmem) option" where
  "k_strtok m string1 string2 next_token =
     (case strlen m string2 of
        None \<Rightarrow> None
      | Some slen \<Rightarrow>
          (let string1 = (if string1 = 0 then next_token else string1) in
           if string1 = 0 then Some (0, next_token, m)
           else
             (case k_strtok_skip m string1 string2 slen of
                None \<Rightarrow> None
              | Some (string1, tok) \<Rightarrow>
                  if m string1 = 0 then Some (0, 0, m)
                  else (case tok of
                          None \<Rightarrow> Some (string1, 0, m)
                        | Some t \<Rightarrow> Some (string1, t + slen, m(t := 0))))))"

partial_function (option) strtok_count_from :: "bmem \<Rightarrow> u32 \<Rightarrow> u32 \<Rightarrow> int \<Rightarrow> int option" where
  "strtok_count_from m str delim count =
     (if m str \<noteq> 0 then
        (case strchr m delim (m str) of
           None \<Rightarrow> None
         | Some hit \<Rightarrow>
             strtok_count_from m (str + 1) delim (if hit \<noteq> None then count + 1 else count))
      else Some (count + 1))"

definition strtok_count :: "bmem \<Rightarrow> u32 \<Rightarrow> u32 \<Rightarrow> int option" where
  "strtok_count m str delim = strtok_count_from m str delim 0"

text \<open>The loop of \<open>strtok_array\<close>, entered with the pointer the next call of \<open>strtok\<close> is given.\<close>

partial_function (option) strtok_array_from ::
    "bmem \<Rightarrow> (nat \<Rightarrow> u32) \<Rightarrow> nat \<Rightarrow> u32 \<Rightarrow> u32 \<Rightarrow> u32 \<Rightarrow> ((nat \<Rightarrow> u32) \<times> u32 \<times> bmem) option" where
  "strtok_array_from m array i arg delim next_token =
     (case k_strtok m arg delim next_token of
        None \<Rightarrow> None
      | Some (tok, nt, m1) \<Rightarrow>
          if tok \<noteq> 0 then strtok_array_from m1 (array(i := tok)) (i + 1) 0 delim nt
          else Some (array, nt, m1))"

definition strtok_array ::
    "bmem \<Rightarrow> (nat \<Rightarrow> u32) \<Rightarrow> u32 \<Rightarrow> u32 \<Rightarrow> u32 \<Rightarrow> ((nat \<Rightarrow> u32) \<times> u32 \<times> bmem) option" where
  "strtok_array m array str delim next_token = strtok_array_from m array 0 str delim next_token"

declare k_strncpy.simps [simp del]

section \<open>Blocks of memory\<close>

text \<open>Addresses by their offset from a base: no difference to the pointer, no wrap-around.\<close>

definition in_block :: "u32 \<Rightarrow> nat \<Rightarrow> u32 \<Rightarrow> bool" where
  "in_block s n a \<longleftrightarrow> unat (a - s) < n"

lemma unat_of_nat32 [simp]: "i < 2 ^ 32 \<Longrightarrow> unat (of_nat i :: u32) = i"
  by (simp add: unat_of_nat)

lemma unat32_lt: "unat (a :: u32) < 2 ^ 32"
  by (rule order.strict_trans2 [OF unsigned_less]) simp

lemma offset_of_nat: "i < 2 ^ 32 \<Longrightarrow> unat ((s + of_nat i :: u32) - s) = i"
  by simp

lemma in_block_0 [simp]: "\<not> in_block s 0 a"
  by (simp add: in_block_def)

lemma in_block_self [simp]: "in_block s n s \<longleftrightarrow> 0 < n"
  by (simp add: in_block_def)

lemma in_block_offset: "i < 2 ^ 32 \<Longrightarrow> in_block s n (s + of_nat i) \<longleftrightarrow> i < n"
  by (simp add: in_block_def offset_of_nat)

lemma unat_offset_next: "a \<noteq> s \<Longrightarrow> unat (a - s) = Suc (unat (a - (s + 1)))" for a s :: u32
proof -
  assume "a \<noteq> s"
  then have "a - (s + 1) \<noteq> - 1" by (simp add: algebra_simps)
  then have "unat (1 + (a - (s + 1))) = Suc (unat (a - (s + 1)))"
    by (metis unatSuc add.commute add_eq_0_iff)
  then show ?thesis by (simp add: algebra_simps)
qed

lemma in_block_Suc: "in_block s (Suc n) a \<longleftrightarrow> a = s \<or> in_block (s + 1) n a"
  by (cases "a = s") (simp_all add: in_block_def unat_offset_next)

lemma not_in_next_block: "n < 2 ^ 32 \<Longrightarrow> \<not> in_block (s + 1) n s"
  by (simp add: in_block_def unsigned_minus_1_eq_mask mask_eq_exp_minus_1)

lemma in_block_last: "n < 2 ^ 32 \<Longrightarrow> in_block s (Suc n) a \<longleftrightarrow> in_block s n a \<or> a = s + of_nat n"
proof -
  assume n: "n < 2 ^ 32"
  have "a = s + of_nat n \<longleftrightarrow> a - s = of_nat n" by (auto simp: algebra_simps)
  also have "\<dots> \<longleftrightarrow> unat (a - s) = n" using n by auto
  finally show ?thesis by (auto simp: in_block_def)
qed

lemma memset_block:
  "n < 2 ^ 32 \<Longrightarrow> memset m s c n a = (if in_block s n a then c else m a)"
proof (induction n arbitrary: m s)
  case 0
  show ?case by simp
next
  case (Suc n)
  then show ?case by (auto simp: in_block_Suc not_in_next_block)
qed

text \<open>
  Copying upwards gives the destination the old contents of the source as long as no byte is
  overwritten before it is read, copying downwards likewise.
\<close>

lemma memcpy_block:
  assumes "n < 2 ^ 32" "\<And>i j. i < j \<Longrightarrow> j < n \<Longrightarrow> s + of_nat j \<noteq> d + of_nat i"
  shows "memcpy m d s n a = (if in_block d n a then m (s + (a - d)) else m a)"
  using assms
proof (induction n arbitrary: m d s)
  case 0
  show ?case by simp
next
  case (Suc n)
  have pre: "\<And>i j. i < j \<Longrightarrow> j < n \<Longrightarrow> s + 1 + of_nat j \<noteq> d + 1 + of_nat i"
    using Suc.prems(2)[of "Suc i" "Suc j" for i j] by (simp add: ac_simps)
  have src: "(m(d := m s)) (s + 1 + (a - (d + 1))) = m (s + (a - d))"
    if "in_block (d + 1) n a"
  proof -
    define k where "k = unat (a - (d + 1))"
    have k: "k < n" and a: "a = d + 1 + of_nat k"
      using that by (simp_all add: k_def in_block_def algebra_simps)
    have "s + of_nat (Suc k) \<noteq> d + of_nat 0" using Suc.prems(2)[of 0 "Suc k"] k by simp
    then show ?thesis by (simp add: a algebra_simps)
  qed
  have "memcpy m d s (Suc n) a
      = (if in_block (d + 1) n a then (m(d := m s)) (s + 1 + (a - (d + 1))) else (m(d := m s)) a)"
    unfolding memcpy.simps by (rule Suc.IH [OF _ pre]) (use Suc.prems(1) in simp_all)
  then show ?case
    using src Suc.prems(1) by (auto simp: in_block_Suc not_in_next_block)
qed

lemma memcpy_down_block:
  assumes "n < 2 ^ 32" "\<And>i j. i < j \<Longrightarrow> j < n \<Longrightarrow> s + of_nat i \<noteq> d + of_nat j"
  shows "memcpy_down m d s n a = (if in_block d n a then m (s + (a - d)) else m a)"
  using assms
proof (induction n arbitrary: m)
  case 0
  show ?case by simp
next
  case (Suc n)
  let ?m = "m(d + of_nat n := m (s + of_nat n))"
  have src: "?m (s + (a - d)) = m (s + (a - d))" if "in_block d n a"
  proof -
    define k where "k = unat (a - d)"
    have k: "k < n" and a: "a = d + of_nat k"
      using that by (simp_all add: k_def in_block_def algebra_simps)
    show ?thesis using Suc.prems(2)[of k n] k by (simp add: a)
  qed
  have "memcpy_down m d s (Suc n) a = (if in_block d n a then ?m (s + (a - d)) else ?m a)"
    using Suc by simp
  then show ?case
    using src Suc.prems(1) in_block_last [of n d a] by (auto simp: in_block_def offset_of_nat)
qed

lemma offset_eq_iff:
  "unat s + i < 2 ^ 32 \<Longrightarrow> unat d + j < 2 ^ 32 \<Longrightarrow>
   s + of_nat i = d + of_nat j \<longleftrightarrow> unat s + i = unat d + j" for s d :: u32
proof
  assume "unat s + i < 2 ^ 32" "unat d + j < 2 ^ 32" "s + of_nat i = d + of_nat j"
  then have "unat (of_nat (unat s + i) :: u32) = unat (of_nat (unat d + j) :: u32)" by simp
  then show "unat s + i = unat d + j"
    using \<open>unat s + i < 2 ^ 32\<close> \<open>unat d + j < 2 ^ 32\<close> by (simp only: unat_of_nat32)
next
  assume "unat s + i = unat d + j"
  then have "(of_nat (unat s + i) :: u32) = of_nat (unat d + j)" by simp
  then show "s + of_nat i = d + of_nat j" by simp
qed

text \<open>\<open>memmove\<close> copies correctly whatever the overlap of source and destination: every byte of
  the destination gets the value the corresponding source byte had before the call and no other
  byte changes. The ranges must not reach the end of the address space.\<close>

theorem memmove_correct:
  assumes "unat s + n < 2 ^ 32" "unat d + n < 2 ^ 32"
  shows "memmove m d s n = (\<lambda>a. if in_block d n a then m (s + (a - d)) else m a)"
proof
  fix a
  have n: "n < 2 ^ 32" using assms by simp
  show "memmove m d s n a = (if in_block d n a then m (s + (a - d)) else m a)"
  proof (cases "d < s \<or> s + of_nat n \<le> d")
    case True
    have "s + of_nat j \<noteq> d + of_nat i" if "i < j" "j < n" for i j
      using True that assms n
      by (subst offset_eq_iff) (auto simp: word_less_nat_alt word_le_nat_alt unat_word_ariths unat_of_nat)
    then show ?thesis using True n by (simp add: memmove_def memcpy_block)
  next
    case False
    have "s + of_nat i \<noteq> d + of_nat j" if "i < j" "j < n" for i j
      using False that assms n
      by (subst offset_eq_iff) (auto simp: word_less_nat_alt word_le_nat_alt unat_word_ariths unat_of_nat)
    then show ?thesis using False n by (simp add: memmove_def memcpy_down_block)
  qed
qed

theorem memmove_correct_witness:
  "memmove (\<lambda>a. ucast a) 102 100 5 =
     (\<lambda>a. if in_block 102 5 a then ucast (100 + (a - 102)) else ucast a)"
  using memmove_correct [of 100 5 102 "\<lambda>a. ucast a"] by simp

section \<open>Strings\<close>

text \<open>\<open>string_at m s xs\<close>: the bytes \<open>xs\<close>, none of them zero, stand at \<open>s\<close>, followed by a zero byte.\<close>

primrec string_at :: "bmem \<Rightarrow> u32 \<Rightarrow> u8 list \<Rightarrow> bool" where
  "string_at m s [] \<longleftrightarrow> m s = 0"
| "string_at m s (x # xs) \<longleftrightarrow> m s = x \<and> x \<noteq> 0 \<and> string_at m (s + 1) xs"

lemma string_at_nonzero: "string_at m s xs \<Longrightarrow> 0 \<notin> set xs"
  by (induction xs arbitrary: s) auto

lemma string_at_drop:
  "string_at m s xs \<Longrightarrow> n \<le> length xs \<Longrightarrow> string_at m (s + of_nat n) (drop n xs)"
proof (induction xs arbitrary: s n)
  case (Cons x xs)
  then show ?case
  proof (cases n)
    case (Suc k)
    have "string_at m (s + 1 + of_nat k) (drop k xs)" using Cons Suc by simp
    then show ?thesis by (simp add: Suc ac_simps)
  qed simp
qed simp

lemma string_at_append:
  "string_at m s (xs @ ys) \<longleftrightarrow>
     (\<forall>i<length xs. m (s + of_nat i) = xs ! i \<and> xs ! i \<noteq> 0) \<and> string_at m (s + of_nat (length xs)) ys"
proof (induction xs arbitrary: s)
  case (Cons x xs)
  show ?case by (auto simp: Cons.IH less_Suc_eq_0_disj ac_simps)
qed simp

lemma string_at_iff:
  "string_at m s xs \<longleftrightarrow>
     (\<forall>i<length xs. m (s + of_nat i) = xs ! i \<and> xs ! i \<noteq> 0) \<and> m (s + of_nat (length xs)) = 0"
  using string_at_append [of m s xs "[]"] by simp

lemma string_at_length: "string_at m s xs \<Longrightarrow> length xs < 2 ^ 32"
proof (rule ccontr)
  assume s: "string_at m s xs" and "\<not> length xs < 2 ^ 32"
  define k where "k = length xs mod 2 ^ 32"
  have "k < 2 ^ 32" unfolding k_def by (rule mod_less_divisor) simp
  then have "k < length xs" using \<open>\<not> length xs < 2 ^ 32\<close> by linarith
  moreover have "(of_nat k :: u32) = of_nat (length xs)"
    by (simp add: word_unat_eq_iff k_def unat_of_nat)
  ultimately show False using s by (auto simp: string_at_iff)
qed

text \<open>A write outside the string leaves it alone.\<close>

lemma string_at_upd:
  "\<not> in_block s (Suc (length xs)) a \<Longrightarrow> string_at m s xs \<Longrightarrow> string_at (m(a := v)) s xs"
proof (induction xs arbitrary: s)
  case (Cons x xs)
  then show ?case by (auto simp: in_block_Suc [of s])
qed (auto simp: in_block_Suc)

lemma string_at_agree:
  assumes "\<And>a. in_block s (Suc (length xs)) a \<Longrightarrow> m1 a = m a" "string_at m s xs"
  shows "string_at m1 s xs"
  using assms
proof (induction xs arbitrary: s)
  case (Cons x xs)
  then show ?case by (auto simp: in_block_Suc [of s])
qed simp

lemma of_nat32_inj [simp]: "i < 2 ^ 32 \<Longrightarrow> j < 2 ^ 32 \<Longrightarrow> (of_nat i :: u32) = of_nat j \<longleftrightarrow> i = j"
  by (metis unat_of_nat32)

lemma string_at_zero:
  assumes s: "string_at m s xs" and i: "i \<le> length xs"
  shows "string_at (m(s + of_nat i := 0)) s (take i xs)"
proof -
  have "(of_nat j :: u32) \<noteq> of_nat i" if "j < i" for j
    using string_at_length [OF s] i that by simp
  then show ?thesis using s i by (auto simp: string_at_iff)
qed

text \<open>What each function computes, on the bytes of its arguments.\<close>

lemma strlen_from_at: "string_at m (s + i) xs \<Longrightarrow> strlen_from m s i = Some (i + of_nat (length xs))"
proof (induction xs arbitrary: i)
  case (Cons x xs)
  then have "strlen_from m s (i + 1) = Some (i + 1 + of_nat (length xs))" by (simp add: ac_simps)
  then show ?case using Cons.prems by (simp add: strlen_from.simps [of m s i] ac_simps)
qed (simp add: strlen_from.simps)

lemma strlen_at: "string_at m s xs \<Longrightarrow> strlen m s = Some (of_nat (length xs))"
  using strlen_from_at [of m s 0 xs] by (simp add: strlen_def)

lemma occurs_at: "string_at m s xs \<Longrightarrow> occurs m c s = Some (c \<in> set xs)"
proof (induction xs arbitrary: s)
  case (Cons x xs)
  then show ?case by (simp add: occurs.simps [of m c s])
qed (simp add: occurs.simps)

text \<open>The first position of a list whose element satisfies a predicate.\<close>

primrec position :: "('a \<Rightarrow> bool) \<Rightarrow> 'a list \<Rightarrow> nat option" where
  "position P [] = None"
| "position P (x # xs) = (if P x then Some 0 else map_option Suc (position P xs))"

lemma position_None: "position P xs = None \<longleftrightarrow> (\<forall>x\<in>set xs. \<not> P x)"
  by (induction xs) auto

lemma position_Some:
  "position P xs = Some i \<longleftrightarrow> i < length xs \<and> P (xs ! i) \<and> (\<forall>j<i. \<not> P (xs ! j))"
proof (induction xs arbitrary: i)
  case (Cons x xs)
  show ?case by (cases i) (auto simp: Cons.IH less_Suc_eq_0_disj)
qed simp

abbreviation ptr_at :: "u32 \<Rightarrow> nat option \<Rightarrow> u32 option" where
  "ptr_at s p \<equiv> map_option (\<lambda>i. s + of_nat i) p"

lemma ptr_at_Suc: "ptr_at (s + 1) p = ptr_at s (map_option Suc p)"
  by (cases p) (simp_all add: ac_simps)

lemma strchr_at: "string_at m s xs \<Longrightarrow> strchr m s c = Some (ptr_at s (position ((=) c) xs))"
proof (induction xs arbitrary: s)
  case (Cons x xs)
  then show ?case by (auto simp: strchr.simps [of m s] ptr_at_Suc)
qed (simp add: strchr.simps)

lemma strpbrk_at:
  assumes "string_at m s2 ys"
  shows "string_at m s xs \<Longrightarrow> strpbrk m s s2 = Some (ptr_at s (position (\<lambda>x. x \<in> set ys) xs))"
proof (induction xs arbitrary: s)
  case (Cons x xs)
  then show ?case by (auto simp: strpbrk.simps [of m s] ptr_at_Suc occurs_at [OF assms])
qed (simp add: strpbrk.simps)

lemma strstr_at:
  assumes "string_at m s2 ys"
  shows "string_at m s xs \<Longrightarrow> strstr m s s2 = Some (ptr_at s (position (\<lambda>x. x \<in> set ys) xs))"
proof (induction xs arbitrary: s)
  case (Cons x xs)
  then show ?case by (auto simp: strstr.simps [of m s] ptr_at_Suc occurs_at [OF assms])
qed (simp add: strstr.simps)

text \<open>The first position of a non-empty suffix that starts with the given list.\<close>

primrec sub_position :: "'a list \<Rightarrow> 'a list \<Rightarrow> nat option" where
  "sub_position ys [] = None"
| "sub_position ys (x # xs) = (if prefix ys (x # xs) then Some 0 else map_option Suc (sub_position ys xs))"

lemma k_match_at: "string_at m s2 ys \<Longrightarrow> string_at m s1 xs \<Longrightarrow> k_match m s1 s2 = Some (prefix ys xs)"
proof (induction ys arbitrary: s1 s2 xs)
  case (Cons y ys)
  then show ?case by (cases xs) (auto simp: k_match.simps [of m s1])
qed (simp add: k_match.simps)

lemma k_strstr_at:
  assumes "string_at m s2 ys"
  shows "string_at m s xs \<Longrightarrow> k_strstr m s s2 = Some (ptr_at s (sub_position ys xs))"
proof (induction xs arbitrary: s)
  case (Cons x xs)
  have "k_match m s s2 = Some (prefix ys (x # xs))" by (rule k_match_at [OF assms Cons.prems])
  then show ?case using Cons by (simp add: k_strstr.simps [of m s] ptr_at_Suc)
qed (simp add: k_strstr.simps)

lemma sub_position_single: "sub_position [y] xs = position (\<lambda>x. x = y) xs"
  by (induction xs) auto

text \<open>the library's \<open>strstr\<close> and the kernel's agree, and find the first occurrence, when the
  second argument is a single character.\<close>

theorem strstr_single_char:
  assumes "string_at m s1 xs" "string_at m s2 [y]"
  shows "strstr m s1 s2 = k_strstr m s1 s2 \<and>
         k_strstr m s1 s2 = Some (ptr_at s1 (position (\<lambda>x. x = y) xs))"
  using strstr_at [OF assms(2,1)] k_strstr_at [OF assms(2,1)] by (simp add: sub_position_single)

definition abc_mem :: bmem where
  "abc_mem a = (if a = 100 then 97 else if a = 101 then 98 else if a = 102 then 99
                else if a = 200 then 98 else if a = 201 then 99 else if a = 300 then 99
                else if a = 301 then 98 else 0)"

lemma abc_mem_strings:
  "string_at abc_mem 100 [97, 98, 99]" "string_at abc_mem 200 [98, 99]"
  "string_at abc_mem 201 [99]" "string_at abc_mem 300 [99, 98]"
  by (simp_all add: abc_mem_def)

theorem strstr_single_char_witness: "strstr abc_mem 100 201 = Some (Some 102)"
  using strstr_single_char [OF abc_mem_strings(1,3)] by simp

lemma sub_position_absent: "\<not> sublist ys xs \<Longrightarrow> sub_position ys xs = None"
  by (induction xs) (auto simp: sublist_Cons_right)

text \<open>With a longer second argument the library's \<open>strstr\<close> is no substring search: it reports a hit
  as soon as any single character of the second string occurs in the first, where the kernel's
  \<open>strstr\<close> correctly reports that the string is absent.\<close>

theorem strstr_hits_any_char:
  assumes "string_at m s1 xs" "string_at m s2 ys" "x \<in> set xs" "x \<in> set ys" "\<not> sublist ys xs"
  shows "k_strstr m s1 s2 = Some None \<and> (\<exists>p. strstr m s1 s2 = Some (Some p))"
proof -
  have "position (\<lambda>x. x \<in> set ys) xs \<noteq> None" using assms(3,4) by (auto simp: position_None)
  then show ?thesis
    using k_strstr_at [OF assms(2,1)] strstr_at [OF assms(2,1)] sub_position_absent [OF assms(5)]
    by auto
qed

theorem strstr_hits_any_char_witness:
  "k_strstr abc_mem 100 300 = Some None \<and> (\<exists>p. strstr abc_mem 100 300 = Some (Some p))"
  by (rule strstr_hits_any_char [OF abc_mem_strings(1,4), of 98]) (simp_all add: sublist_code)

subsection \<open>Comparison\<close>

text \<open>The order of strings that the C standard prescribes: lexicographic on unsigned characters.\<close>

abbreviation bytes_less :: "u8 list \<Rightarrow> u8 list \<Rightarrow> bool" where
  "bytes_less xs ys \<equiv> (xs, ys) \<in> lexord {(x, y). x < y}"

definition sgn_order :: "int \<Rightarrow> u8 list \<Rightarrow> u8 list \<Rightarrow> bool" where
  "sgn_order r xs ys \<longleftrightarrow> (r = 0 \<longleftrightarrow> xs = ys) \<and> (0 < r \<longleftrightarrow> bytes_less xs ys) \<and> (r < 0 \<longleftrightarrow> bytes_less ys xs)"

lemma sgn_order_Cons:
  "sgn_order r (x # xs) (x # ys) \<longleftrightarrow> sgn_order r xs ys"
  "x \<noteq> y \<Longrightarrow> sgn_order (uint y - uint x) (x # xs) (y # ys)"
  by (auto simp: sgn_order_def word_less_def word_uint_eq_iff)

lemma sgn_order_end:
  "x \<noteq> 0 \<Longrightarrow> sgn_order (uint x) [] (x # xs)" "x \<noteq> 0 \<Longrightarrow> sgn_order (- uint x) (x # xs) []"
  "sgn_order 0 [] []"
  by (auto simp: sgn_order_def word_neq_0_conv word_less_def)

lemma strcmp_at:
  "string_at m s1 xs \<Longrightarrow> string_at m s2 ys \<Longrightarrow> \<exists>r. strcmp m s1 s2 = Some r \<and> sgn_order r xs ys"
proof (induction xs arbitrary: s1 s2 ys)
  case Nil
  then show ?case
    by (cases ys) (auto simp: strcmp.simps [of m s1] Let_def sgn_order_end uint_0_iff)
next
  case (Cons x xs)
  show ?case
  proof (cases ys)
    case Nil
    then show ?thesis using Cons.prems
      by (auto simp: strcmp.simps [of m s1] Let_def sgn_order_end uint_0_iff)
  next
    case (Cons y zs)
    show ?thesis
    proof (cases "x = y")
      case True
      have "strcmp m s1 s2 = strcmp m (s1 + 1) (s2 + 1)"
        using Cons.prems Cons True by (simp add: strcmp.simps [of m s1])
      then show ?thesis
        using Cons.IH [of "s1 + 1" "s2 + 1" zs] Cons.prems Cons True by (auto simp: sgn_order_Cons)
    next
      case False
      then have "uint y - uint x \<noteq> 0" by (simp add: word_uint_eq_iff)
      then have "strcmp m s1 s2 = Some (uint y - uint x)"
        using Cons.prems Cons by (simp add: strcmp.simps [of m s1])
      then show ?thesis using Cons False by (simp add: sgn_order_Cons)
    qed
  qed
qed

text \<open>\<open>strcmp\<close> returns on any two strings and tells equality correctly, but the sign of its
  result is the opposite of the one the C standard asks for: it is positive exactly if the first
  string comes before the second.\<close>

theorem strcmp_sign_inverted:
  assumes "string_at m s1 xs" "string_at m s2 ys"
  shows "\<exists>r. strcmp m s1 s2 = Some r \<and> (r = 0 \<longleftrightarrow> xs = ys) \<and>
             (0 < r \<longleftrightarrow> bytes_less xs ys) \<and> (r < 0 \<longleftrightarrow> bytes_less ys xs)"
  using strcmp_at [OF assms] by (simp add: sgn_order_def)

theorem strcmp_sign_inverted_witness: "\<exists>r. strcmp abc_mem 100 200 = Some r \<and> 0 < r"
  using strcmp_sign_inverted [OF abc_mem_strings(1,2)] by auto

subsection \<open>Copying\<close>

lemma strcpy_loop_at:
  assumes "string_at m s xs" "\<And>i. i < length xs \<Longrightarrow> \<not> in_block s (Suc (length xs)) (d + of_nat i)"
  shows "strcpy_loop m d s = Some (memcpy m d s (Suc (length xs)))"
  using assms
proof (induction xs arbitrary: m d s)
  case (Cons x xs)
  have d: "d \<noteq> s" "\<not> in_block (s + 1) (Suc (length xs)) d"
    using Cons.prems(2)[of 0] by (simp_all add: in_block_Suc [of s])
  have "\<not> in_block (s + 1) (Suc (length xs)) (d + 1 + of_nat i)" if "i < length xs" for i
    using Cons.prems(2)[of "Suc i"] that by (simp add: in_block_Suc [of s] ac_simps)
  moreover have "string_at (m(d := m s)) (s + 1) xs"
    using Cons.prems(1) string_at_upd [OF d(2)] by simp
  ultimately have "strcpy_loop (m(d := m s)) (d + 1) (s + 1) =
      Some (memcpy (m(d := m s)) (d + 1) (s + 1) (Suc (length xs)))" by (intro Cons.IH)
  then show ?case using Cons.prems(1) by (simp add: strcpy_loop.simps [of m d])
qed (simp add: strcpy_loop.simps)

lemma k_strcpy_unfold:
  "k_strcpy m d s = (if m s \<noteq> 0 then k_strcpy (m(d := m s)) (d + 1) (s + 1) else Some (m(d := 0)))"
  by (simp add: k_strcpy.simps [of m d])

lemma strcpy_loop_le_k:
  assumes "strcpy_loop m d s = Some r"
  shows "k_strcpy m d s = Some r"
proof (rule strcpy_loop.raw_induct [OF _ assms])
  fix f m d s r
  assume "\<And>m d s r. f m d s = Some r \<Longrightarrow> k_strcpy m d s = Some r"
    "(if m s \<noteq> 0 then f (m(d := m s)) (d + 1) (s + 1) else Some (m(d := 0))) = Some r"
  then show "k_strcpy m d s = Some r"
    by (simp add: k_strcpy_unfold [of m d] split: if_splits)
qed

lemma k_le_strcpy_loop:
  assumes "k_strcpy m d s = Some r"
  shows "strcpy_loop m d s = Some r"
proof (rule k_strcpy.raw_induct [OF _ assms])
  fix f m d s r
  assume "\<And>m d s r. f m d s = Some r \<Longrightarrow> strcpy_loop m d s = Some r"
    "(let m1 = m(d := m s) in if m1 s \<noteq> 0 then f m1 (d + 1) (s + 1) else Some m1) = Some r"
  then show "strcpy_loop m d s = Some r"
    by (simp add: strcpy_loop.simps [of m d] Let_def split: if_splits)
qed

lemma k_strcpy_eq: "k_strcpy m d s = strcpy_loop m d s"
  by (metis k_le_strcpy_loop option.exhaust strcpy_loop_le_k)

lemma k_strncpy_eq: "k_strncpy m d s n = strncpy m d s n"
proof -
  have "k_strncpy m d s n = strncpy_loop m d s n"
  proof (induction n arbitrary: m d s)
    case (Suc n)
    then show ?case by (simp add: k_strncpy.simps [of m d s "Suc n"] fun_upd_def)
  qed (simp add: k_strncpy.simps)
  then show ?thesis by (cases n) (simp_all add: strncpy_def)
qed

text \<open>when source and destination do not overlap, \<open>strcpy\<close> returns and does what \<open>memcpy\<close> of the
  string and its terminating zero does. The kernel's variants of \<open>strcpy\<close> and \<open>strncpy\<close>, written as
  different loops, have the effect of the library's in every memory, overlapping or not.\<close>

theorem strcpy_variants:
  assumes "string_at m s xs" "\<And>i. i < length xs \<Longrightarrow> \<not> in_block s (Suc (length xs)) (d + of_nat i)"
  shows "strcpy m d s = Some (memcpy m d s (Suc (length xs))) \<and>
         k_strcpy m2 d2 s2 = strcpy m2 d2 s2 \<and> k_strncpy m2 d2 s2 n = strncpy m2 d2 s2 n"
  using strcpy_loop_at [OF assms] by (simp add: strcpy_def k_strcpy_eq k_strncpy_eq)

theorem strcpy_variants_witness:
  "k_strcpy abc_mem 300 100 = Some (memcpy abc_mem 300 100 4)"
proof -
  have "\<not> in_block (100 :: u32) 4 (300 + of_nat i)" if "i < 3" for i :: nat
  proof -
    have "i = 0 \<or> i = 1 \<or> i = 2" using that by auto
    then show ?thesis by (auto simp: in_block_def)
  qed
  then show ?thesis
    using strcpy_variants [OF abc_mem_strings(1), of 300 abc_mem 300 100 0] by (simp add: eval_nat_numeral)
qed

subsection \<open>Tokens\<close>

text \<open>The specification of the kernel's tokenizer: delimiters in front of a token are skipped.\<close>

function skip_delims :: "'a list \<Rightarrow> 'a list \<Rightarrow> 'a list" where
  "skip_delims ds xs = (if ds \<noteq> [] \<and> prefix ds xs then skip_delims ds (drop (length ds) xs) else xs)"
  by pat_completeness auto
termination
  by (relation "measure (\<lambda>(ds, xs). length xs)") (auto simp: prefix_def)

declare skip_delims.simps [simp del]

lemma skip_delims_suffix: "suffix (skip_delims ds xs) xs"
proof (induction ds xs rule: skip_delims.induct)
  case (1 ds xs)
  then show ?case
    using suffix_drop [of "length ds" xs] by (auto simp: skip_delims.simps [of ds xs] intro: suffix_order.trans)
qed

lemma skip_delims_length: "length (skip_delims ds xs) \<le> length xs"
  by (rule suffix_length_le) (rule skip_delims_suffix)

lemma skip_delims_drop: "skip_delims ds xs = drop (length xs - length (skip_delims ds xs)) xs"
  by (metis append_eq_conv_conj diff_add_inverse2 length_append skip_delims_suffix suffix_def)

function tokens :: "'a list \<Rightarrow> 'a list \<Rightarrow> 'a list list" where
  "tokens ds xs =
     (let ys = skip_delims ds xs in
      if ds = [] \<or> ys = [] then []
      else case sub_position ds ys of
             None \<Rightarrow> [ys]
           | Some i \<Rightarrow> take i ys # tokens ds (drop (i + length ds) ys))"
  by pat_completeness auto
termination
proof (relation "measure (\<lambda>(ds, xs). length xs)")
  fix ds xs ys :: "'a list" and i
  assume ys: "ys = skip_delims ds xs" and ne: "\<not> (ds = [] \<or> ys = [])"
  then have "0 < length ds" "0 < length ys" "length ys \<le> length xs"
    using skip_delims_length [of ds xs] by simp_all
  then have "length (drop (i + length ds) ys) < length xs" by (simp only: length_drop)
  then show "((ds, drop (i + length ds) ys), ds, xs) \<in> measure (\<lambda>(ds, xs). length xs)" by simp
qed simp

declare tokens.simps [simp del]

lemma sub_position_Some:
  "sub_position ds xs = Some i \<Longrightarrow> i < length xs \<and> prefix ds (drop i xs)"
proof (induction xs arbitrary: i)
  case (Cons x xs)
  then show ?case by (auto split: if_splits)
qed simp

lemma sub_position_fits: "sub_position ds xs = Some i \<Longrightarrow> i + length ds \<le> length xs"
  using sub_position_Some [of ds xs i] prefix_length_le [of ds "drop i xs"] by auto

abbreviation delim_count :: "'a list \<Rightarrow> 'a list \<Rightarrow> nat" where
  "delim_count ds xs \<equiv> length (filter (\<lambda>x. x \<in> set ds) xs)"

lemma delim_count_suffix: "suffix ys xs \<Longrightarrow> delim_count ds ys \<le> delim_count ds xs"
  by (auto simp: suffix_def)

lemma sub_position_count:
  assumes "sub_position ds ys = Some i"
  shows "length ds + delim_count ds (drop (i + length ds) ys) \<le> delim_count ds ys"
proof -
  obtain zs where "drop i ys = ds @ zs" using sub_position_Some [OF assms] by (auto simp: prefix_def)
  then have "ys = take i ys @ ds @ zs" by (metis append_take_drop_id)
  moreover have "drop (i + length ds) ys = zs"
    by (metis \<open>drop i ys = ds @ zs\<close> add.commute append_eq_conv_conj drop_drop)
  ultimately have "delim_count ds ys = delim_count ds (take i ys) + length ds + delim_count ds (drop (i + length ds) ys)"
    by (metis (no_types, lifting) append.assoc filter_True filter_append length_append)
  then show ?thesis by simp
qed

lemma tokens_count: "length (tokens ds xs) \<le> Suc (delim_count ds xs)"
proof (induction ds xs rule: tokens.induct)
  case (1 ds xs)
  let ?ys = "skip_delims ds xs"
  have le: "delim_count ds ?ys \<le> delim_count ds xs" by (intro delim_count_suffix skip_delims_suffix)
  show ?case
  proof (cases "ds = [] \<or> ?ys = []")
    case False
    show ?thesis
    proof (cases "sub_position ds ?ys")
      case (Some i)
      have "length (tokens ds (drop (i + length ds) ?ys)) \<le> Suc (delim_count ds (drop (i + length ds) ?ys))"
        by (rule 1 [OF refl False Some])
      moreover have "0 < length ds" using False by simp
      moreover have "length (tokens ds xs) = Suc (length (tokens ds (drop (i + length ds) ?ys)))"
        using False Some by (simp add: tokens.simps [of ds xs] Let_def)
      ultimately show ?thesis using le sub_position_count [OF Some] by linarith
    qed (use False in \<open>simp add: tokens.simps [of ds xs]\<close>)
  qed (auto simp: tokens.simps [of ds xs])
qed

lemma strtok_count_at:
  assumes "string_at m dl ds"
  shows "string_at m s xs \<Longrightarrow>
    strtok_count_from m s dl c = Some (c + int (delim_count ds xs) + 1)"
proof (induction xs arbitrary: s c)
  case (Cons x xs)
  have "position ((=) x) ds \<noteq> None \<longleftrightarrow> x \<in> set ds" by (auto simp: position_None)
  then show ?case using Cons
    by (simp add: strtok_count_from.simps [of m s] strchr_at [OF assms])
qed (simp add: strtok_count_from.simps)

lemma sub_position_0: "sub_position ds xs = Some 0 \<longleftrightarrow> xs \<noteq> [] \<and> prefix ds xs"
  by (cases xs) auto

lemma k_strtok_skip_at:
  assumes "string_at m dl ds" "ds \<noteq> []"
  shows "string_at m s xs \<Longrightarrow>
    k_strtok_skip m s dl (of_nat (length ds)) =
      Some (s + of_nat (length xs - length (skip_delims ds xs)),
            ptr_at (s + of_nat (length xs - length (skip_delims ds xs))) (sub_position ds (skip_delims ds xs)))"
  using assms
proof (induction ds xs arbitrary: s rule: skip_delims.induct)
  case (1 ds xs)
  have first: "k_strstr m s dl = Some (ptr_at s (sub_position ds xs))"
    by (rule k_strstr_at [OF "1.prems"(2,1)])
  have hit: "ptr_at s (sub_position ds xs) = Some s \<longleftrightarrow> prefix ds xs"
  proof (cases "sub_position ds xs")
    case None
    then show ?thesis using sub_position_0 [of ds xs] "1.prems"(3) by (cases xs) auto
  next
    case (Some i)
    have "i < 2 ^ 32" using sub_position_fits [OF Some] string_at_length [OF "1.prems"(1)] by linarith
    then have "ptr_at s (sub_position ds xs) = Some s \<longleftrightarrow> i = 0"
      using of_nat32_inj [of i 0] by (simp add: Some)
    then show ?thesis
      using Some sub_position_0 [of ds xs] "1.prems"(3) by (cases xs) (auto split: if_splits)
  qed
  show ?case
  proof (cases "prefix ds xs")
    case True
    let ?r = "skip_delims ds (drop (length ds) xs)"
    have le: "length ds \<le> length xs" using True by (rule prefix_length_le)
    have r: "skip_delims ds xs = ?r" using True "1.prems"(3) by (simp add: skip_delims.simps [of ds xs])
    have "length ?r \<le> length xs - length ds"
      using skip_delims_length [of ds "drop (length ds) xs"] by simp
    then have "length ds + (length (drop (length ds) xs) - length ?r) = length xs - length ?r"
      using le by simp
    then have off: "s + of_nat (length ds) + of_nat (length (drop (length ds) xs) - length ?r)
        = s + of_nat (length xs - length ?r)"
      by (simp only: add.assoc of_nat_add [symmetric])
    have "k_strtok_skip m s dl (of_nat (length ds))
        = k_strtok_skip m (s + of_nat (length ds)) dl (of_nat (length ds))"
      using first hit True by (subst k_strtok_skip.simps) simp
    also have "\<dots> = Some (s + of_nat (length xs - length ?r),
        ptr_at (s + of_nat (length xs - length ?r)) (sub_position ds ?r))"
      using "1.IH" [of "s + of_nat (length ds)"] "1.prems" True string_at_drop [OF "1.prems"(1) le]
      unfolding off by blast
    finally show ?thesis by (simp only: r)
  next
    case False
    then have "skip_delims ds xs = xs" by (simp add: skip_delims.simps [of ds xs])
    then show ?thesis using first hit False by (subst k_strtok_skip.simps) auto
  qed
qed

lemma in_block_unat:
  "unat s + n \<le> 2 ^ 32 \<Longrightarrow> in_block s n a \<longleftrightarrow> unat s \<le> unat a \<and> unat a < unat s + n" for s :: u32
proof -
  assume "unat s + n \<le> 2 ^ 32"
  then show ?thesis
    using unsigned_less [of a] unsigned_less [of s]
    by (auto simp: in_block_def unat_sub_if')
qed

lemma unat_plus_of_nat: "unat s + i < 2 ^ 32 \<Longrightarrow> unat (s + of_nat i) = unat s + i" for s :: u32
  by (subst unat_plus_if') simp

text \<open>One call of \<open>strtok\<close>, entered with the pointer \<open>s\<close> either as argument or as the saved one.\<close>

lemma k_strtok_at:
  assumes "string_at m dl ds" "ds \<noteq> []" "string_at m s xs" "s = (if arg = 0 then nt else arg)" "s \<noteq> 0"
    and ys: "ys = skip_delims ds xs" and s': "s' = s + of_nat (length xs - length ys)"
  shows "k_strtok m arg dl nt =
     (if ys = [] then Some (0, 0, m)
      else case sub_position ds ys of
             None \<Rightarrow> Some (s', 0, m)
           | Some i \<Rightarrow> Some (s', s' + of_nat i + of_nat (length ds), m(s' + of_nat i := 0)))"
proof -
  have "length ys \<le> length xs" using skip_delims_length [of ds xs] by (simp add: ys)
  then have "string_at m s' ys"
    using string_at_drop [OF assms(3), of "length xs - length ys"] skip_delims_drop [of ds xs]
    by (simp add: ys s')
  then have "m s' = 0 \<longleftrightarrow> ys = []" by (cases ys) auto
  moreover have "k_strtok_skip m s dl (of_nat (length ds)) = Some (s', ptr_at s' (sub_position ds ys))"
    using k_strtok_skip_at [OF assms(1,2,3)] by (simp only: ys s')
  ultimately show ?thesis
    using assms(4,5) by (auto simp: k_strtok_def strlen_at [OF assms(1)] Let_def split: option.split)
qed

lemma k_strtok_end: "string_at m dl ds \<Longrightarrow> k_strtok m 0 dl 0 = Some (0, 0, m)"
  by (simp add: k_strtok_def strlen_at)

text \<open>What the loop of \<open>strtok_array\<close> leaves behind when it starts at index \<open>i\<close> with a string at \<open>s\<close>.\<close>

definition tokens_stored ::
    "bmem \<Rightarrow> (nat \<Rightarrow> u32) \<Rightarrow> nat \<Rightarrow> u32 \<Rightarrow> nat \<Rightarrow> u8 list list \<Rightarrow> bmem \<Rightarrow> (nat \<Rightarrow> u32) \<Rightarrow> bool" where
  "tokens_stored m arr i s n toks m1 arr1 \<longleftrightarrow>
     (\<forall>j<length toks. string_at m1 (arr1 (i + j)) (toks ! j)) \<and>
     (\<forall>j. j < i \<or> i + length toks \<le> j \<longrightarrow> arr1 j = arr j) \<and>
     (\<forall>a. \<not> in_block s n a \<longrightarrow> m1 a = m a)"

lemma tokens_stored_Nil: "tokens_stored m arr i s n [] m arr"
  by (simp add: tokens_stored_def)

lemma tokens_stored_one: "string_at m p xs \<Longrightarrow> tokens_stored m arr i s n [xs] m (arr(i := p))"
  by (auto simp: tokens_stored_def)

lemma tokens_stored_Cons:
  assumes rest: "tokens_stored (m(z := 0)) (arr(i := p)) (Suc i) t k toks m1 arr1"
    and tok: "string_at (m(z := 0)) p x" and z: "in_block s n z"
    and sub: "\<And>a. in_block t k a \<Longrightarrow> in_block s n a"
    and apart: "\<And>a. in_block p (Suc (length x)) a \<Longrightarrow> \<not> in_block t k a"
  shows "tokens_stored m arr i s n (x # toks) m1 arr1"
proof -
  have "string_at m1 (arr1 i) x"
    using rest string_at_agree [OF _ tok, of m1] apart by (simp add: tokens_stored_def)
  then have "string_at m1 (arr1 (i + j)) ((x # toks) ! j)" if "j < length (x # toks)" for j
    using rest that by (cases j) (simp_all add: tokens_stored_def)
  moreover have "m1 a = m a" if "\<not> in_block s n a" for a
  proof -
    have "\<not> in_block t k a" "a \<noteq> z" using that sub z by auto
    then show ?thesis using rest by (simp add: tokens_stored_def)
  qed
  ultimately show ?thesis using rest by (auto simp: tokens_stored_def)
qed

lemma strtok_array_from_at:
  assumes "string_at m dl ds" "ds \<noteq> []" "string_at m s xs" "s = (if arg = 0 then nt else arg)" "s \<noteq> 0"
    "unat s + length xs < 2 ^ 32" "\<And>a. in_block s (length xs) a \<Longrightarrow> \<not> in_block dl (Suc (length ds)) a"
  shows "\<exists>arr1 m1. strtok_array_from m arr i arg dl nt = Some (arr1, 0, m1) \<and>
           tokens_stored m arr i s (length xs) (tokens ds xs) m1 arr1"
  using assms
proof (induction ds xs arbitrary: m s arr i arg nt rule: tokens.induct)
  case (1 ds xs)
  define ys where "ys = skip_delims ds xs"
  define s' where "s' = s + of_nat (length xs - length ys)"
  have le: "length ys \<le> length xs" using skip_delims_length [of ds xs] by (simp add: ys_def)
  have us': "unat s' = unat s + (length xs - length ys)"
    unfolding s'_def using "1.prems"(6) by (intro unat_plus_of_nat) simp
  have "s' \<noteq> 0" using us' \<open>s \<noteq> 0\<close> by (metis add_is_0 unat_0 unat_eq_0)
  have at': "string_at m s' ys"
    using string_at_drop [OF "1.prems"(3), of "length xs - length ys"] skip_delims_drop [of ds xs] le
    by (simp add: ys_def s'_def)
  note step = k_strtok_at [OF "1.prems"(1-5) ys_def s'_def]
  note unfold = strtok_array_from.simps [of m arr i arg dl nt]
  consider (none) "ys = []" | (last) "ys \<noteq> []" "sub_position ds ys = None"
    | (more) p where "ys \<noteq> []" "sub_position ds ys = Some p"
    by (cases "sub_position ds ys") auto
  then show ?case
  proof cases
    case none
    then show ?thesis
      using step unfold "1.prems"(2) tokens_stored_Nil
      by (auto simp: tokens.simps [of ds xs] ys_def)
  next
    case last
    have "strtok_array_from m (arr(i := s')) (Suc i) 0 dl 0 = Some (arr(i := s'), 0, m)"
      by (simp add: strtok_array_from.simps [of m] k_strtok_end [OF "1.prems"(1)])
    then have "strtok_array_from m arr i arg dl nt = Some (arr(i := s'), 0, m)"
      using step last unfold \<open>s' \<noteq> 0\<close> by simp
    moreover have "tokens ds xs = [ys]"
      using last "1.prems"(2) by (simp add: tokens.simps [of ds xs] Let_def ys_def)
    ultimately show ?thesis using tokens_stored_one [OF at'] by auto
  next
    case more
    let ?z = "s' + of_nat p" and ?t = "s' + of_nat p + of_nat (length ds)" and ?r = "drop (p + length ds) ys"
    let ?m = "m(?z := 0)"
    have p: "p + length ds \<le> length ys" "p < length ys" and ds: "0 < length ds"
      using sub_position_fits [OF more(2)] sub_position_Some [OF more(2)] "1.prems"(2) by auto
    have uz: "unat ?z = unat s' + p"
      using us' "1.prems"(6) p le by (intro unat_plus_of_nat) simp
    have ut: "unat ?t = unat s' + p + length ds"
      using us' "1.prems"(6) p le uz by (subst unat_plus_of_nat) simp_all
    have r: "length ?r = length ys - (p + length ds)" by simp
    have bounds: "unat ?t + length ?r \<le> unat s + length xs" "unat s \<le> unat s'"
      using ut us' p le by simp_all
    have z_in: "in_block s (length xs) ?z"
      using "1.prems"(6) uz us' p le by (auto simp: in_block_unat)
    have "unat ?z < unat ?t" using uz ut ds by linarith
    then have z_before: "\<not> in_block ?t (Suc (length ?r)) ?z"
      using "1.prems"(6) bounds by (subst in_block_unat) auto
    have sub: "in_block s (length xs) a" if "in_block ?t (length ?r) a" for a
    proof -
      have "unat ?t \<le> unat a \<and> unat a < unat ?t + length ?r"
        using that "1.prems"(6) bounds(1) by (subst in_block_unat [symmetric]) auto
      moreover have "unat s \<le> unat ?t" using bounds(2) ut by linarith
      ultimately show ?thesis using "1.prems"(6) bounds(1) by (subst in_block_unat) linarith+
    qed
    have apart: "\<not> in_block ?t (length ?r) a" if "in_block s' (Suc (length (take p ys))) a" for a
    proof -
      have "unat a < unat s' + Suc p"
        using that "1.prems"(6) us' p le by (subst (asm) in_block_unat) auto
      then have "unat a < unat ?t" using ut ds by linarith
      then show ?thesis using "1.prems"(6) bounds(1) by (subst in_block_unat) linarith+
    qed
    have "string_at m ?t ?r" using string_at_drop [OF at' p(1)] by (simp add: add.assoc)
    then have at_t: "string_at ?m ?t ?r" by (rule string_at_upd [OF z_before])
    have at_dl: "string_at ?m dl ds" using "1.prems"(1,7) z_in by (intro string_at_upd) auto
    have t: "?t \<noteq> 0" using ut ds by (metis add_gr_0 unat_0 less_irrefl)
    have fit: "unat ?t + length ?r < 2 ^ 32" using bounds "1.prems"(6) by linarith
    have go: "\<not> (ds = [] \<or> ys = [])" using more(1) "1.prems"(2) by simp
    obtain arr1 m1 where rec:
      "strtok_array_from ?m (arr(i := s')) (Suc i) 0 dl ?t = Some (arr1, 0, m1)"
      "tokens_stored ?m (arr(i := s')) (Suc i) ?t (length ?r) (tokens ds ?r) m1 arr1"
      using "1.IH" [OF ys_def go more(2) at_dl "1.prems"(2) at_t if_P [OF refl, symmetric] t fit "1.prems"(7) [OF sub]]
      by blast
    have "strtok_array_from m arr i arg dl nt = Some (arr1, 0, m1)"
      using rec(1) step more unfold \<open>s' \<noteq> 0\<close> by simp
    moreover have "tokens_stored m arr i s (length xs) (take p ys # tokens ds ?r) m1 arr1"
      by (rule tokens_stored_Cons [OF rec(2) _ z_in sub apart])
        (use string_at_zero [OF at', of p] p in simp_all)
    moreover have "tokens ds xs = take p ys # tokens ds ?r"
      using more "1.prems"(2) by (simp add: tokens.simps [of ds xs] Let_def ys_def)
    ultimately show ?thesis by auto
  qed
qed

text \<open>C30: \<open>strtok_array\<close> returns on every string and every non-empty delimiter, stores pointers to
  exactly the tokens of the string, and never stores more of them than the \<open>strtok_count\<close> its
  caller sizes the array with. The entries after the last token keep their old values: with
  delimiters in a row the caller gets a count that is larger than the number of entries filled.\<close>

theorem strtok_array_fits:
  assumes "string_at m dl ds" "ds \<noteq> []" "string_at m s xs" "s \<noteq> 0" "unat s + length xs < 2 ^ 32"
    "\<And>a. in_block s (length xs) a \<Longrightarrow> \<not> in_block dl (Suc (length ds)) a"
  shows "\<exists>count arr1 m1.
     strtok_count m s dl = Some count \<and> strtok_array m arr s dl nt = Some (arr1, 0, m1) \<and>
     int (length (tokens ds xs)) \<le> count \<and>
     (\<forall>j<length (tokens ds xs). string_at m1 (arr1 j) (tokens ds xs ! j)) \<and>
     (\<forall>j\<ge>length (tokens ds xs). arr1 j = arr j)"
proof -
  obtain arr1 m1 where *: "strtok_array_from m arr 0 s dl nt = Some (arr1, 0, m1)"
    "tokens_stored m arr 0 s (length xs) (tokens ds xs) m1 arr1"
    using strtok_array_from_at [OF assms(1-3) _ assms(4-6), of s nt arr 0] assms(4) by auto
  have "strtok_count m s dl = Some (int (delim_count ds xs) + 1)"
    using strtok_count_at [OF assms(1,3), of 0] by (simp add: strtok_count_def)
  moreover have "int (length (tokens ds xs)) \<le> int (delim_count ds xs) + 1"
    using tokens_count [of ds xs] by simp
  ultimately show ?thesis using * by (auto simp: strtok_array_def tokens_stored_def)
qed

definition args_mem :: bmem where
  "args_mem a = (if a = 100 then 97 else if a = 101 then 32 else if a = 102 then 32
                 else if a = 103 then 98 else if a = 200 then 32 else 0)"

lemma args_tokens: "tokens [32] [97, 32, 32, 98 :: u8] = [[97], [98]]"
  by (simp add: tokens.simps [of _ "_ # _"] tokens.simps [of _ "[]"] skip_delims.simps [of _ "_ # _"])

theorem strtok_array_fits_witness:
  "\<exists>arr1 m1. strtok_array args_mem (\<lambda>_. 0xDEADBEEF) 100 200 0 = Some (arr1, 0, m1) \<and>
     string_at m1 (arr1 0) [97] \<and> string_at m1 (arr1 1) [98] \<and> arr1 2 = 0xDEADBEEF"
proof -
  have "string_at args_mem 200 [32]" "string_at args_mem 100 [97, 32, 32, 98]"
    by (simp_all add: args_mem_def)
  moreover have "\<not> in_block 200 (Suc (length [32 :: u8])) a"
    if "in_block 100 (length [97, 32, 32, 98 :: u8]) a" for a
    using that by (auto simp: in_block_unat)
  ultimately show ?thesis
    using strtok_array_fits [of args_mem 200 "[32]" 100 "[97, 32, 32, 98]" "\<lambda>_. 0xDEADBEEF" 0]
    unfolding args_tokens by (fastforce simp: less_Suc_eq)
qed

end
