(* ===== verification/Malloc.thy ===== *)
theory Malloc
  imports CString Vmem
begin

text \<open>
  The heap of the C library (\<open>src/lib/common/stdlib/malloc.c\<close>, \<open>free.c\<close>, \<open>realloc.c\<close>, \<open>calloc.c\<close>,
  \<open>_alloced_size.c\<close>): a list of free blocks sorted by address, each with a header of 16 bytes in
  front of its contents.

  The \<open>next\<close> and \<open>size\<close> fields of the headers are functions of the header's address, apart from the
  bytes of the blocks' contents: headers stand at multiples of 16 and occupy eight bytes, so two
  different headers never overlap, and programs write inside their blocks only. \<open>heap_brk\<close> is the
  break that the system call moves.
\<close>

record cheap =
  first_free :: u32
  fb_next :: "u32 \<Rightarrow> u32"
  fb_size :: "u32 \<Rightarrow> u32"
  heap_brk :: u32
  heap_lock :: bool
  heap_bytes :: bmem

text \<open>A \<open>struct free_block **\<close>: the address of the list head or of the \<open>next\<close> field of a block.\<close>

datatype link = First | Next u32

primrec read_link :: "cheap \<Rightarrow> link \<Rightarrow> u32" where
  "read_link h First = first_free h"
| "read_link h (Next p) = fb_next h p"

definition set_next_fb :: "u32 \<Rightarrow> u32 \<Rightarrow> cheap \<Rightarrow> cheap" where
  "set_next_fb p v h = h\<lparr>fb_next := (fb_next h)(p := v)\<rparr>"

definition set_size_fb :: "u32 \<Rightarrow> u32 \<Rightarrow> cheap \<Rightarrow> cheap" where
  "set_size_fb p v h = h\<lparr>fb_size := (fb_size h)(p := v)\<rparr>"

primrec write_link :: "link \<Rightarrow> u32 \<Rightarrow> cheap \<Rightarrow> cheap" where
  "write_link First v h = h\<lparr>first_free := v\<rparr>"
| "write_link (Next p) v h = set_next_fb p v h"

text \<open>A lock that is held is never given back by the thread that waits for it.\<close>

definition lock_heap :: "cheap \<Rightarrow> cheap outcome" where
  "lock_heap h = (if heap_lock h then Inl NoReturn else Inr (h\<lparr>heap_lock := True\<rparr>))"

definition unlock_heap :: "cheap \<Rightarrow> cheap" where
  "unlock_heap h = h\<lparr>heap_lock := False\<rparr>"

text \<open>A loop over the list that does not end is the outcome \<open>NoReturn\<close>.\<close>

definition loop_result :: "'a option \<Rightarrow> 'a outcome" where
  "loop_result r = (case r of None \<Rightarrow> Inl NoReturn | Some x \<Rightarrow> Inr x)"

text \<open>The system call as the process sees it: the break moves by the rounded increment.\<close>

definition sbrk :: "u32 \<Rightarrow> cheap \<Rightarrow> u32 \<times> cheap" where
  "sbrk diff h = (heap_brk h, if diff = 0 then h else h\<lparr>heap_brk := heap_brk h + sbrk_round diff\<rparr>)"

definition round16 :: "u32 \<Rightarrow> u32" where
  "round16 sz = (let sz = (if sz = 0 then 1 else sz) in
                 if sz AND 0xF \<noteq> 0 then (sz + 0xF) AND NOT 0xF else sz)"

subsection \<open>\<open>malloc\<close>\<close>

partial_function (option) find_fit :: "cheap \<Rightarrow> u32 \<Rightarrow> link \<Rightarrow> link option" where
  "find_fit h sz fb =
     (let t = read_link h fb in
      if t = 0 \<or> sz \<le> fb_size h t then Some fb else find_fit h sz (Next t))"

definition take_block :: "link \<Rightarrow> u32 \<Rightarrow> cheap \<Rightarrow> cheap" where
  "take_block fb sz h =
     (let t = read_link h fb in
      if fb_size h t - sz < 32 then write_link fb (fb_next h t) h
      else
        let osize = fb_size h t;
            nb = t + sz + 16;
            h1 = write_link fb nb h;
            h2 = set_size_fb nb (osize - sz - 16) h1;
            h3 = set_next_fb nb (fb_next h2 t) h2
        in set_size_fb t sz h3)"

definition malloc :: "u32 \<Rightarrow> cheap \<Rightarrow> (u32 \<times> cheap) outcome" where
  "malloc sz h =
     (let sz = round16 sz in
      rbind (lock_heap h) (\<lambda>h.
      rbind (loop_result (find_fit h sz First)) (\<lambda>fb.
        let t = read_link h fb in
        if t \<noteq> 0 then Inr (t + 16, unlock_heap (take_block fb sz h))
        else
          let h = unlock_heap h; (t, h) = sbrk (sz + 16) h in
          if t = 0 then Inl Panic else Inr (t + 16, set_size_fb t sz h))))"

subsection \<open>\<open>free\<close>\<close>

partial_function (option) free_position :: "cheap \<Rightarrow> u32 \<Rightarrow> link \<Rightarrow> link option" where
  "free_position h t fb =
     (let c = read_link h fb in if c < t \<and> c \<noteq> 0 then free_position h t (Next c) else Some fb)"

text \<open>\<open>join_memory\<close> writes to address 0 on purpose when two free blocks overlap.\<close>

partial_function (option) join_from :: "cheap \<Rightarrow> u32 \<Rightarrow> cheap outcome option" where
  "join_from h current =
     (let n = fb_next h current in
      if n \<noteq> 0 then
        if n < current + fb_size h current + 16 then Some (Inl BadPointer)
        else if current + fb_size h current + 16 = n then
          join_from (set_next_fb current (fb_next h n)
                       (set_size_fb current (fb_size h current + (fb_size h n + 16)) h)) current
        else join_from h n
      else Some (Inr h))"

definition join_memory :: "cheap \<Rightarrow> cheap outcome" where
  "join_memory h =
     (if first_free h = 0 then Inr h
      else rbind (loop_result (join_from h (first_free h))) (\<lambda>r. r))"

definition free :: "u32 \<Rightarrow> cheap \<Rightarrow> cheap outcome" where
  "free ptr h =
     (if ptr = 0 then Inr h
      else
        let t = ptr - 16 in
        rbind (lock_heap h) (\<lambda>h.
        rbind (loop_result (free_position h t First)) (\<lambda>fb.
          if read_link h fb = t then Inl BadPointer
          else
            let h = set_next_fb t (read_link h fb) h;
                h = write_link fb t h
            in rbind (join_memory h) (\<lambda>h. Inr (unlock_heap h)))))"

subsection \<open>\<open>realloc\<close>, \<open>calloc\<close>\<close>

definition alloced_size :: "u32 \<Rightarrow> cheap \<Rightarrow> u32" where
  "alloced_size ptr h = fb_size h (ptr - 16)"

definition realloc :: "u32 \<Rightarrow> u32 \<Rightarrow> cheap \<Rightarrow> (u32 \<times> cheap) outcome" where
  "realloc ptr sz h =
     (if ptr = 0 then malloc sz h
      else if sz = 0 then rbind (free ptr h) (\<lambda>h. Inr (0, h))
      else
        let osize = fb_size h (ptr - 16) in
        if sz \<le> osize then Inr (ptr, h)
        else
          rbind (malloc sz h) (\<lambda>(nmem, h).
            if nmem = 0 then Inr (0, h)
            else
              let h = h\<lparr>heap_bytes := memcpy (heap_bytes h) nmem ptr (unat osize)\<rparr> in
              rbind (free ptr h) (\<lambda>h. Inr (nmem, h))))"

definition calloc :: "u32 \<Rightarrow> u32 \<Rightarrow> cheap \<Rightarrow> (u32 \<times> cheap) outcome" where
  "calloc nmemb sz h =
     rbind (malloc (nmemb * sz) h) (\<lambda>(mem, h).
       Inr (mem, h\<lparr>heap_bytes := memset (heap_bytes h) mem 0 (unat (nmemb * sz))\<rparr>))"

subsection \<open>\<open>aligned_alloc\<close>\<close>

definition align_space :: "u32 \<Rightarrow> u32 \<Rightarrow> u32" where
  "align_space align t =
     (let a = align - (t AND (align - 1)) in if a \<noteq> 16 \<and> a < 48 then a + align else a)"

partial_function (option) find_aligned :: "cheap \<Rightarrow> u32 \<Rightarrow> u32 \<Rightarrow> link \<Rightarrow> link option" where
  "find_aligned h align sz fb =
     (let t = read_link h fb in
      if t = 0 \<or> align_space align t + sz \<le> fb_size h t then Some fb
      else find_aligned h align sz (Next t))"

text \<open>The block that is returned and the one that is to be freed (0 for none), from a free block \<open>t\<close>.\<close>

definition aligned_from_list :: "u32 \<Rightarrow> u32 \<Rightarrow> u32 \<Rightarrow> cheap \<Rightarrow> u32 \<times> u32 \<times> cheap" where
  "aligned_from_list align sz t h =
     (let osize = fb_size h t; as = align_space align t in
      if as = 16 then
        if 32 \<le> osize - sz then
          let rf = t + 16 + sz in (t, rf, set_size_fb rf (osize - sz - 16) (set_size_fb t sz h))
        else (t, 0, h)
      else
        let h = set_size_fb t (as - 32) h; t = t + as - 16 in
        if osize - as - sz < 16 then (t, 0, set_size_fb t (osize - as + 16) h)
        else
          let rf = t + 16 + sz in (t, rf, set_size_fb rf (osize - as - sz) (set_size_fb t sz h)))"

text \<open>The same for fresh memory; two blocks may have to be freed.\<close>

definition aligned_from_sbrk :: "u32 \<Rightarrow> u32 \<Rightarrow> u32 \<Rightarrow> cheap \<Rightarrow> u32 \<times> u32 \<times> u32 \<times> cheap" where
  "aligned_from_sbrk align sz t h =
     (let bsize = sz + 48 + align; as = align_space align t in
      if as = 16 then
        if 48 \<le> bsize - sz then (t, 0, 0, set_size_fb t (bsize - 16) (set_size_fb t sz h))
        else
          let rf = t + sz + 16 in
          (t, rf, 0, set_size_fb rf (bsize - sz - 32) (set_size_fb t sz h))
      else
        let rf1 = t; h = set_size_fb rf1 (as - 32) h; t = t + as - 16 in
        if bsize - as - sz < 32 then (t, rf1, 0, set_size_fb t (bsize - as) h)
        else
          let rf2 = t + sz + 16 in
          (t, rf1, rf2, set_size_fb rf2 (bsize - as - sz - 16) (set_size_fb t sz h)))"

definition free_if :: "u32 \<Rightarrow> cheap \<Rightarrow> cheap outcome" where
  "free_if rf h = (if rf \<noteq> 0 then free (rf + 16) h else Inr h)"

definition aligned_alloc :: "u32 \<Rightarrow> u32 \<Rightarrow> cheap \<Rightarrow> (u32 \<times> cheap) outcome" where
  "aligned_alloc align sz h =
     (let align = (if align < 0x10 then 0x10 else align); sz = round16 sz in
      rbind (lock_heap h) (\<lambda>h.
      rbind (loop_result (find_aligned h align sz First)) (\<lambda>fb.
        let t = read_link h fb in
        if t \<noteq> 0 then
          let (t, rf, h) = aligned_from_list align sz t h in
          rbind (free_if rf (unlock_heap h)) (\<lambda>h. Inr (t + 16, h))
        else
          let (t, h) = sbrk (sz + 48 + align) h in
          if t = 0 then Inl Panic
          else
            let (t, rf1, rf2, h) = aligned_from_sbrk align sz t h in
            rbind (free_if rf1 (unlock_heap h)) (\<lambda>h.
            rbind (free_if rf2 h) (\<lambda>h. Inr (t + 16, h))))))"

section \<open>The list of free blocks\<close>

lemma write_link_fields [simp]:
  "fb_size (write_link fb v h) = fb_size h" "heap_brk (write_link fb v h) = heap_brk h"
  "heap_lock (write_link fb v h) = heap_lock h" "heap_bytes (write_link fb v h) = heap_bytes h"
  "read_link (write_link fb v h) fb = v"
  by (cases fb; simp add: set_next_fb_def)+

lemma set_fb_fields [simp]:
  "fb_next (set_next_fb p v h) = (fb_next h)(p := v)" "fb_size (set_next_fb p v h) = fb_size h"
  "first_free (set_next_fb p v h) = first_free h" "heap_brk (set_next_fb p v h) = heap_brk h"
  "heap_lock (set_next_fb p v h) = heap_lock h" "heap_bytes (set_next_fb p v h) = heap_bytes h"
  "fb_size (set_size_fb p v h) = (fb_size h)(p := v)" "fb_next (set_size_fb p v h) = fb_next h"
  "first_free (set_size_fb p v h) = first_free h" "heap_brk (set_size_fb p v h) = heap_brk h"
  "heap_lock (set_size_fb p v h) = heap_lock h" "heap_bytes (set_size_fb p v h) = heap_bytes h"
  by (simp_all add: set_next_fb_def set_size_fb_def)

lemma read_link_other:
  "fb \<noteq> fb2 \<Longrightarrow> read_link (write_link fb2 v h) fb = read_link h fb"
  by (cases fb; cases fb2) (auto simp: set_next_fb_def)

lemma fb_next_write_link: "fb_next (write_link fb v h) p = (if fb = Next p then v else fb_next h p)"
  by (cases fb) (auto simp: set_next_fb_def)

primrec fb_chain :: "cheap \<Rightarrow> u32 \<Rightarrow> u32 list \<Rightarrow> bool" where
  "fb_chain h p [] \<longleftrightarrow> p = 0"
| "fb_chain h p (t # ts) \<longleftrightarrow> p = t \<and> t \<noteq> 0 \<and> fb_chain h (fb_next h t) ts"

primrec link_after :: "link \<Rightarrow> u32 list \<Rightarrow> link" where
  "link_after fb [] = fb"
| "link_after fb (u # us) = link_after (Next u) us"

lemma fb_chain_cong: "(\<And>t. t \<in> set ts \<Longrightarrow> fb_next h1 t = fb_next h t) \<Longrightarrow> fb_chain h1 p ts = fb_chain h p ts"
  by (induction ts arbitrary: p) auto

lemma link_after_in: "link_after (Next u) us \<in> Next ` set (u # us)"
  by (induction us arbitrary: u) (simp, fastforce)

lemma fb_chain_read: "fb_chain h (read_link h fb) (us @ vs) \<Longrightarrow> fb_chain h (read_link h (link_after fb us)) vs"
  by (induction us arbitrary: fb) auto

text \<open>The list after the link behind \<open>us\<close> has been changed to \<open>q\<close>.\<close>

lemma fb_chain_relink:
  assumes "fb_chain h (read_link h fb) (us @ vs)" "distinct us" "fb \<notin> Next ` set us"
    "\<And>l. l \<in> insert fb (Next ` set us) \<Longrightarrow> read_link h1 l = (if l = link_after fb us then q else read_link h l)"
    "fb_chain h1 q ws"
  shows "fb_chain h1 (read_link h1 fb) (us @ ws)"
  using assms
proof (induction us arbitrary: fb)
  case (Cons u us)
  have "link_after (Next u) us \<noteq> fb" using link_after_in [of u us] Cons.prems(3) by auto
  then have "read_link h1 fb = u" using Cons.prems(1,4) by simp
  moreover have "fb_chain h1 (read_link h1 (Next u)) (us @ ws)"
  proof (rule Cons.IH)
    fix l assume "l \<in> insert (Next u) (Next ` set us)"
    then show "read_link h1 l = (if l = link_after (Next u) us then q else read_link h l)"
      using Cons.prems(4)[of l] by simp
  qed (use Cons.prems in auto)
  ultimately show ?case using Cons.prems(1) by simp
qed simp

lemma link_after_not: "x \<notin> set us \<Longrightarrow> link_after First us \<noteq> Next x"
proof (induction us)
  case (Cons u us)
  then show ?case using link_after_in [of u us] by auto
qed simp

text \<open>\<open>blk_end\<close> is the first address after a block; blocks are disjoint when one ends before the other.\<close>

definition blk_end :: "cheap \<Rightarrow> u32 \<Rightarrow> nat" where
  "blk_end h t = unat t + 16 + unat (fb_size h t)"

definition apart :: "cheap \<Rightarrow> u32 \<Rightarrow> u32 \<Rightarrow> bool" where
  "apart h t u \<longleftrightarrow> blk_end h t \<le> unat u \<or> blk_end h u \<le> unat t"

definition block_ok :: "cheap \<Rightarrow> u32 \<Rightarrow> bool" where
  "block_ok h t \<longleftrightarrow> t \<noteq> 0 \<and> 16 dvd unat t \<and> 16 dvd unat (fb_size h t) \<and> blk_end h t \<le> unat (heap_brk h)"

text \<open>The invariant: \<open>ts\<close> are the free blocks in the order of the list, ascending and with a gap between
  any two, \<open>A\<close> the headers of the blocks in use.\<close>

definition heap_blocks :: "cheap \<Rightarrow> u32 list \<Rightarrow> u32 set \<Rightarrow> bool" where
  "heap_blocks h ts A \<longleftrightarrow>
     (\<forall>t\<in>set ts \<union> A. block_ok h t) \<and> sorted_wrt (\<lambda>t u. blk_end h t < unat u) ts \<and>
     (\<forall>a\<in>A. \<forall>t\<in>set ts \<union> A. a \<noteq> t \<longrightarrow> apart h a t) \<and> set ts \<inter> A = {}"

definition heap_inv :: "cheap \<Rightarrow> u32 set \<Rightarrow> bool" where
  "heap_inv h A \<longleftrightarrow>
     \<not> heap_lock h \<and> heap_brk h \<noteq> 0 \<and> 16 dvd unat (heap_brk h) \<and>
     (\<exists>ts. fb_chain h (first_free h) ts \<and> heap_blocks h ts A)"

lemma apart_sym: "apart h t u \<longleftrightarrow> apart h u t"
  by (auto simp: apart_def)

lemma sorted_ends_cong:
  assumes "\<And>t. t \<in> set ts \<Longrightarrow> blk_end h1 t = blk_end h t"
  shows "sorted_wrt (\<lambda>t u. blk_end h1 t \<le> unat u) ts = sorted_wrt (\<lambda>t u. blk_end h t \<le> unat u) ts"
  using assms by (induction ts) auto

lemma heap_blocks_apart: "heap_blocks h ts A \<Longrightarrow> a \<in> A \<Longrightarrow> x \<in> set ts \<Longrightarrow> apart h a x"
  unfolding heap_blocks_def by (metis IntI UnI1 empty_iff)

lemma sorted_blocks_distinct: "sorted_wrt (\<lambda>t u. blk_end h t < unat u) ts \<Longrightarrow> distinct ts"
  by (induction ts) (auto simp: blk_end_def)

lemma sorted_blocks_cong:
  assumes "\<And>t. t \<in> set ts \<Longrightarrow> blk_end h1 t = blk_end h t"
  shows "sorted_wrt (\<lambda>t u. blk_end h1 t < unat u) ts = sorted_wrt (\<lambda>t u. blk_end h t < unat u) ts"
  using assms by (induction ts) auto

lemma fb_chain_other_fields [simp]:
  "fb_chain (h\<lparr>heap_lock := b\<rparr>) p ts = fb_chain h p ts" "fb_chain (h\<lparr>heap_bytes := m\<rparr>) p ts = fb_chain h p ts"
  "fb_chain (h\<lparr>heap_brk := k\<rparr>) p ts = fb_chain h p ts" "fb_chain (set_size_fb x v h) p ts = fb_chain h p ts"
  by (rule fb_chain_cong; simp)+

lemma heap_blocks_other_fields [simp]:
  "heap_blocks (h\<lparr>heap_lock := b\<rparr>) ts A = heap_blocks h ts A"
  "heap_blocks (h\<lparr>heap_bytes := m\<rparr>) ts A = heap_blocks h ts A"
  by (simp_all add: heap_blocks_def block_ok_def apart_def blk_end_def)

lemma find_fit_at:
  "fb_chain h (read_link h fb) ts \<Longrightarrow>
   \<exists>us vs. ts = us @ vs \<and> find_fit h sz fb = Some (link_after fb us) \<and> (vs = [] \<or> sz \<le> fb_size h (hd vs))"
proof (induction ts arbitrary: fb)
  case Nil
  then show ?case by (intro exI [of _ "[]"]) (simp add: find_fit.simps)
next
  case (Cons t ts)
  show ?case
  proof (cases "sz \<le> fb_size h t")
    case True
    then show ?thesis using Cons.prems
      by (subst find_fit.simps) (rule exI [of _ "[]"], rule exI [of _ "t # ts"], simp)
  next
    case False
    then have "find_fit h sz fb = find_fit h sz (Next t)"
      using Cons.prems by (simp add: find_fit.simps [of h sz fb] Let_def)
    then show ?thesis using Cons.IH [of "Next t"] Cons.prems
      by (metis append_Cons fb_chain.simps(2) link_after.simps(2) read_link.simps(2))
  qed
qed

lemma free_position_at:
  "fb_chain h (read_link h fb) ts \<Longrightarrow>
   \<exists>us vs. ts = us @ vs \<and> free_position h t fb = Some (link_after fb us) \<and> (\<forall>u\<in>set us. u < t) \<and>
           (vs = [] \<or> t \<le> hd vs)"
proof (induction ts arbitrary: fb)
  case Nil
  then show ?case by (intro exI [of _ "[]"]) (simp add: free_position.simps)
next
  case (Cons c ts)
  show ?case
  proof (cases "c < t")
    case False
    then show ?thesis using Cons.prems
      by (subst free_position.simps) (rule exI [of _ "[]"], rule exI [of _ "c # ts"], auto)
  next
    case True
    then have "free_position h t fb = free_position h t (Next c)"
      using Cons.prems by (simp add: free_position.simps [of h t fb])
    moreover obtain us vs where "ts = us @ vs" "free_position h t (Next c) = Some (link_after (Next c) us)"
        "\<forall>u\<in>set us. u < t" "vs = [] \<or> t \<le> hd vs"
      using Cons.IH [of "Next c"] Cons.prems by auto
    ultimately show ?thesis using True
      by - (rule exI [of _ "c # us"], rule exI [of _ vs], auto)
  qed
qed

section \<open>Allocation\<close>

lemma round16_props:
  assumes "unat sz \<le> 0xFFFFFFF0"
  shows "16 dvd unat (round16 sz)" "unat sz \<le> unat (round16 sz)" "unat (round16 sz) \<le> unat sz + 16"
    "16 \<le> unat (round16 sz)"
proof -
  define n where "n = (if sz = 0 then 1 else unat sz)"
  have n: "0 < n" "unat sz \<le> n" "n \<le> unat sz + 1" "n \<le> 0xFFFFFFF0"
    using assms by (auto simp: n_def unat_gt_0)
  define w where "w = (if sz = 0 then 1 else sz)"
  have w: "unat w = n" by (simp add: w_def n_def)
  have m: "(0xF :: u32) = mask 4" by (simp add: mask_eq_exp_minus_1)
  have "unat (w AND 0xF) = n mod 16" unfolding m unat_and_mask w by simp
  then have z: "w AND 0xF = 0 \<longleftrightarrow> n mod 16 = 0" by (metis unat_eq_0)
  have "unat (w + 0xF) = n + 15" using n w by (subst unat_add_nowrap) simp_all
  then have up: "unat ((w + 0xF) AND NOT 0xF) = n + 15 - (n + 15) mod 16"
    unfolding m unat_and_not_mask by simp
  have r: "unat (round16 sz) = (if n mod 16 = 0 then n else n + 15 - (n + 15) mod 16)"
    unfolding round16_def Let_def w_def [symmetric] using z up w by simp
  have q: "n + 15 - (n + 15) mod 16 = 16 * ((n + 15) div 16)" by (simp add: minus_mod_eq_mult_div)
  have b: "(n + 15) mod 16 < 16" by simp
  show "16 dvd unat (round16 sz)" using r q by auto
  show "unat sz \<le> unat (round16 sz)" using r n b by (simp split: if_splits)
  show "unat (round16 sz) \<le> unat sz + 16" using r n b by (simp split: if_splits)
  show "16 \<le> unat (round16 sz)" using r n b by (auto simp: q split: if_splits dest!: dvd_imp_le)
qed

lemma and_not_15: "16 dvd unat x \<Longrightarrow> (x :: u32) AND NOT 0xF = x"
proof -
  assume "16 dvd unat x"
  then have "unat (x AND NOT (mask 4)) = unat x" unfolding unat_and_not_mask by (simp add: dvd_imp_mod_0)
  then show ?thesis by (simp add: mask_eq_exp_minus_1 word_unat_eq_iff)
qed

lemma sbrk_round_aligned:
  assumes "16 dvd unat x" "unat x \<le> 0xFFFFFFF0"
  shows "sbrk_round x = x"
proof -
  have "unat (x + 15) = unat x + 15" using assms(2) by (subst unat_add_nowrap) simp_all
  then have "unat ((x + 15) AND NOT (mask 4)) = unat x"
    unfolding unat_and_not_mask using assms(1) by (auto simp: mod_add_left_eq elim!: dvdE)
  then have "(x + 0xF) AND NOT 0xF = x" by (simp add: mask_eq_exp_minus_1 word_unat_eq_iff)
  then show ?thesis using and_not_15 [OF assms(1)] by (simp add: sbrk_round_def)
qed

text \<open>The process's view of the break agrees with what the kernel's \<open>context_sbrk\<close> does to it.\<close>

lemma sbrk_is_context_sbrk:
  assumes "heap_end c = heap_brk h" "context_sbrk v c diff = Inr (r, v1, c1)" "ctx_inv v c"
    "0 < diff" "unat diff \<le> 0x7FFFFFF0" "unat (heap_end c) + unat (sbrk_round diff) \<le> unat PHYS_BASE"
  shows "sbrk diff h = (r, h\<lparr>heap_brk := heap_end c1\<rparr>)"
  using context_sbrk_facts [OF assms(3,4,5,6,2)] assms(1,4) by (auto simp: sbrk_def)

text \<open>Every block but those of the list that is searched is left alone.\<close>

lemma heap_blocks_split:
  assumes "heap_blocks h (us @ t # vs) A"
  shows "t \<notin> A" "block_ok h t" "t \<notin> set us" "t \<notin> set vs" "distinct (us @ vs)"
    "\<And>u. u \<in> set us \<Longrightarrow> blk_end h u < unat t" "\<And>v. v \<in> set vs \<Longrightarrow> blk_end h t < unat v"
    "\<And>a. a \<in> A \<Longrightarrow> apart h a t"
  using assms sorted_blocks_distinct [of h "us @ t # vs"]
  by (auto simp: heap_blocks_def sorted_wrt_append)

lemma heap_blocks_take:
  assumes "heap_blocks h (us @ t # vs) A"
  shows "heap_blocks h (us @ vs) (insert t A)"
proof -
  note f = heap_blocks_split [OF assms]
  have "apart h t u" if "u \<in> set (us @ vs)" for u
    using that f(6,7) by (auto simp: apart_def dest: less_imp_le)
  then show ?thesis
    using assms f(3,4,8) apart_sym
    by (simp add: heap_blocks_def sorted_wrt_append) blast
qed

text \<open>Splitting a block: the block keeps its first \<open>sz\<close> bytes, the rest becomes a block of its own.\<close>

lemma heap_blocks_carve:
  assumes inv: "heap_blocks h (us @ t # vs) A"
    and sz: "unat sz + 32 \<le> unat (fb_size h t)" "16 dvd unat sz"
    and nb: "nb = t + sz + 16"
    and size: "fb_size h1 = (fb_size h)(nb := fb_size h t - sz - 16, t := sz)" and brk: "heap_brk h1 = heap_brk h"
  shows "heap_blocks h1 (us @ nb # vs) (insert t A) \<and> nb \<notin> set us \<union> set vs \<union> insert t A"
proof -
  note f = heap_blocks_split [OF inv]
  have room: "unat t + 16 + unat (fb_size h t) < 2 ^ 32"
    using f(2) unat32_lt [of "heap_brk h"] unfolding block_ok_def blk_end_def by linarith
  have unb: "unat nb = unat t + unat sz + 16"
    unfolding nb using room sz(1) by (simp add: unat_add_nowrap)
  have urest: "unat (fb_size h t - sz - 16) = unat (fb_size h t) - unat sz - 16"
    using sz(1) by (simp add: unat_sub word_le_nat_alt)
  have old: "blk_end h1 x = blk_end h x" if "x \<noteq> t" "x \<noteq> nb" for x
    using that by (simp add: blk_end_def size)
  have "nb \<noteq> t" using unb by auto
  have t1: "blk_end h1 t = unat nb" using \<open>nb \<noteq> t\<close> by (simp add: blk_end_def size unb)
  have n1: "blk_end h1 nb = blk_end h t"
    using \<open>nb \<noteq> t\<close> urest unb sz(1) by (simp add: blk_end_def size)
  have lt: "unat t < unat nb" "unat nb < blk_end h t" using unb sz(1) by (simp_all add: blk_end_def)
  have nb_new: "nb \<notin> set us" "nb \<notin> set vs" "nb \<notin> A"
  proof -
    show "nb \<notin> set us" using f(6)[of nb] lt by (auto simp: blk_end_def)
    show "nb \<notin> set vs" using f(7)[of nb] lt by auto
    show "nb \<notin> A" using f(8)[of nb] lt by (auto simp: apart_def blk_end_def)
  qed
  have other: "x \<noteq> t \<and> x \<noteq> nb" if "x \<in> set us \<union> set vs \<union> A" for x
    using that nb_new f(1,3,4) by auto
  have ok: "block_ok h1 x" if "x \<in> set us \<union> set vs \<union> A" for x
  proof -
    have "block_ok h x" using inv that by (auto simp: heap_blocks_def)
    then show ?thesis using other [OF that] by (simp add: block_ok_def old size brk)
  qed
  have ok_t: "block_ok h1 t" "block_ok h1 nb"
  proof -
    have t: "t \<noteq> 0" "16 dvd unat t" "16 dvd unat (fb_size h t)" "blk_end h t \<le> unat (heap_brk h)"
      using f(2) by (simp_all add: block_ok_def)
    show "block_ok h1 t"
      using t t1 lt sz(2) \<open>nb \<noteq> t\<close> by (simp add: block_ok_def brk size)
    have "16 dvd unat nb" using t(2) sz(2) unb by (simp add: dvd_add)
    moreover have "16 dvd unat (fb_size h t) - unat sz - 16" using t(3) sz(2) by (simp add: dvd_diff_nat)
    moreover have "nb \<noteq> 0" using lt by auto
    ultimately show "block_ok h1 nb"
      using t(4) n1 \<open>nb \<noteq> t\<close> urest by (simp add: block_ok_def brk size)
  qed
  have "sorted_wrt (\<lambda>t u. blk_end h1 t < unat u) (us @ nb # vs)"
  proof -
    have "sorted_wrt (\<lambda>t u. blk_end h t < unat u) (us @ vs)"
      using inv by (simp add: heap_blocks_def sorted_wrt_append)
    then have "sorted_wrt (\<lambda>t u. blk_end h1 t < unat u) (us @ vs)"
      using other old by (elim sorted_wrt_mono_rel [rotated]) auto
    then show ?thesis
      using f(6,7) n1 lt old other by (fastforce simp: sorted_wrt_append)
  qed
  moreover have "apart h1 a x" if "a \<in> insert t A" "x \<in> set (us @ nb # vs) \<union> insert t A" "a \<noteq> x" for a x
  proof -
    have near: "apart h1 y t \<and> apart h1 y nb" if "y \<in> set us \<union> set vs \<union> A" for y
    proof -
      have "apart h y t" using that f(6,7,8) by (auto simp: apart_def dest: less_imp_le)
      then show ?thesis using old other [OF that] t1 n1 lt by (auto simp: apart_def)
    qed
    have far: "apart h1 y z" if "y \<in> A" "z \<in> set us \<union> set vs \<union> A" "y \<noteq> z" for y z
    proof -
      have "apart h y z" using inv that by (auto simp: heap_blocks_def)
      then show ?thesis using old other [of y] other [of z] that by (simp add: apart_def)
    qed
    have "apart h1 t nb" using t1 by (simp add: apart_def)
    then show ?thesis using that near far apart_sym [of h1 t] by auto
  qed
  ultimately show ?thesis
    using ok ok_t nb_new \<open>nb \<noteq> t\<close> f(3,4) inv by (auto simp: heap_blocks_def)
qed

lemma take_block_at:
  assumes ch: "fb_chain h (first_free h) (us @ t # vs)" and inv: "heap_blocks h (us @ t # vs) A"
    and sz: "sz \<le> fb_size h t" "16 dvd unat sz" and h1: "h1 = take_block (link_after First us) sz h"
  shows "(\<exists>ts. fb_chain h1 (first_free h1) ts \<and> heap_blocks h1 ts (insert t A)) \<and> sz \<le> fb_size h1 t \<and>
         (\<forall>a\<in>A. fb_size h1 a = fb_size h a) \<and> heap_brk h1 = heap_brk h \<and> heap_bytes h1 = heap_bytes h"
proof -
  note f = heap_blocks_split [OF inv]
  let ?fb = "link_after First us"
  have ch_fb: "fb_chain h (read_link h First) (us @ t # vs)" using ch by simp
  have rd: "read_link h ?fb = t" and rest: "fb_chain h (fb_next h t) vs"
    using fb_chain_read [OF ch_fb] by simp_all
  have us: "distinct us" "First \<notin> Next ` set us" using f(5) by auto
  note fb = link_after_not [of _ us]
  have vs: "x \<notin> set us" if "x \<in> set vs" for x using that f(5) by auto
  show ?thesis
  proof (cases "fb_size h t - sz < 32")
    case True
    then have h1: "h1 = write_link ?fb (fb_next h t) h" by (simp add: h1 take_block_def rd)
    have "fb_chain h1 (fb_next h t) vs"
      using rest fb vs by (subst fb_chain_cong [of vs h1 h]) (auto simp: h1 fb_next_write_link)
    then have "fb_chain h1 (first_free h1) (us @ vs)"
      using fb_chain_relink [OF ch_fb us, of h1 "fb_next h t"] by (simp add: h1 read_link_other)
    moreover have "heap_blocks h1 (us @ vs) (insert t A)"
      using heap_blocks_take [OF inv]
      by (simp add: h1 heap_blocks_def block_ok_def apart_def blk_end_def)
    ultimately show ?thesis using sz(1) by (auto simp: h1)
  next
    case False
    define nb where "nb = t + sz + 16"
    have "unat (fb_size h t - sz) = unat (fb_size h t) - unat sz" using sz(1) by (simp add: unat_sub)
    then have room: "unat sz + 32 \<le> unat (fb_size h t)" using False by (simp add: word_less_nat_alt)
    let ?h1 = "write_link ?fb nb h"
    have h1: "h1 = set_size_fb t sz (set_next_fb nb (fb_next ?h1 t) (set_size_fb nb (fb_size h t - sz - 16) ?h1))"
      using False by (simp add: h1 take_block_def rd nb_def Let_def)
    have size: "fb_size h1 = (fb_size h)(nb := fb_size h t - sz - 16, t := sz)" and brk: "heap_brk h1 = heap_brk h"
      by (simp_all add: h1)
    note c = heap_blocks_carve [OF inv room sz(2) nb_def size brk]
    have nx: "fb_next h1 nb = fb_next h t" using fb f(3) by (simp add: h1 fb_next_write_link)
    have nb: "nb \<notin> set us" "nb \<notin> set vs" "nb \<noteq> 0" "t \<noteq> nb"
      using c by (auto simp: heap_blocks_def block_ok_def)
    have keep: "fb_next h1 x = fb_next ?h1 x" if "x \<noteq> nb" for x using that by (simp add: h1)
    have "fb_chain h1 (fb_next h t) vs"
    proof (subst fb_chain_cong [of vs h1 h])
      fix x
      assume "x \<in> set vs"
      then show "fb_next h1 x = fb_next h x"
        using keep [of x] nb(2) fb [OF vs] by (auto simp: fb_next_write_link)
    qed (rule rest)
    then have "fb_chain h1 nb (nb # vs)" using nx nb(3) by simp
    moreover have "read_link h1 l = (if l = ?fb then nb else read_link h l)"
      if "l \<in> insert First (Next ` set us)" for l
    proof -
      have "read_link h1 l = read_link ?h1 l" using that keep nb(1) by (cases l) (auto simp: h1)
      then show ?thesis by (simp add: read_link_other)
    qed
    ultimately have "fb_chain h1 (first_free h1) (us @ nb # vs)"
      using fb_chain_relink [OF ch_fb us, of h1 nb] by simp
    moreover have "fb_size h1 a = fb_size h a" if "a \<in> A" for a
      using that c f(1) by (auto simp: size)
    ultimately show ?thesis using c nb(4) brk by (auto simp: size) (simp add: h1)
  qed
qed

lemma heap_blocks_fresh:
  assumes inv: "heap_blocks h ts A" and t: "t = heap_brk h" "t \<noteq> 0" "16 dvd unat t"
    and sz: "16 dvd unat sz" "unat t + 16 + unat sz = unat (heap_brk h1)"
    and size: "fb_size h1 = (fb_size h)(t := sz)"
  shows "heap_blocks h1 ts (insert t A) \<and> t \<notin> set ts \<union> A"
proof -
  have below: "blk_end h x \<le> unat t" if "x \<in> set ts \<union> A" for x
    using inv that by (auto simp: heap_blocks_def block_ok_def t(1))
  then have new: "x \<noteq> t" if "x \<in> set ts \<union> A" for x using that by (force simp: blk_end_def)
  have old: "blk_end h1 x = blk_end h x" if "x \<in> set ts \<union> A" for x
    using new [OF that] by (simp add: blk_end_def size)
  have t1: "blk_end h1 t = unat (heap_brk h1)" using sz(2) by (simp add: blk_end_def size)
  have "block_ok h1 x" if "x \<in> set ts \<union> A" for x
  proof -
    have "block_ok h x" using inv that by (auto simp: heap_blocks_def)
    then show ?thesis
      using old [OF that] new [OF that] below [OF that] sz(2) by (simp add: block_ok_def size)
  qed
  moreover have "block_ok h1 t" using t sz t1 by (simp add: block_ok_def size)
  moreover have "sorted_wrt (\<lambda>t u. blk_end h1 t < unat u) ts"
    using inv old by (subst sorted_blocks_cong [of ts h1 h]) (simp_all add: heap_blocks_def)
  moreover have "apart h1 x t" if "x \<in> set ts \<union> A" for x
    using below [OF that] old [OF that] by (simp add: apart_def)
  moreover have "apart h1 a x" if "a \<in> A" "x \<in> set ts \<union> A" "a \<noteq> x" for a x
  proof -
    have "apart h a x" using inv that unfolding heap_blocks_def by blast
    then show ?thesis using old [of a] old [of x] that by (simp add: apart_def)
  qed
  moreover have "t \<notin> set ts \<union> A" "set ts \<inter> A = {}" using new inv by (auto simp: heap_blocks_def)
  ultimately show ?thesis
    unfolding heap_blocks_def using apart_sym [of h1 t] by blast
qed

lemma malloc_spec:
  assumes inv: "heap_inv h A" and sz: "unat sz \<le> 0xFFFFFFF0" "unat (heap_brk h) + unat sz + 32 < 2 ^ 32"
  shows "\<exists>t h1. malloc sz h = Inr (t + 16, h1) \<and> heap_inv h1 (insert t A) \<and> t \<notin> A \<and>
           unat sz \<le> unat (fb_size h1 t) \<and> (\<forall>a\<in>A. fb_size h1 a = fb_size h a) \<and>
           heap_bytes h1 = heap_bytes h"
proof -
  define n where "n = round16 sz"
  note n = round16_props [OF sz(1), folded n_def]
  define hl where "hl = h\<lparr>heap_lock := True\<rparr>"
  obtain ts where ch: "fb_chain h (first_free h) ts" and bl: "heap_blocks h ts A"
    and brk: "heap_brk h \<noteq> 0" "16 dvd unat (heap_brk h)" "\<not> heap_lock h"
    using inv by (auto simp: heap_inv_def)
  have lk: "lock_heap h = Inr hl" using brk(3) by (simp add: lock_heap_def hl_def)
  have chl: "fb_chain hl (read_link hl First) ts"
    using ch by (simp add: hl_def)
  have bll: "heap_blocks hl ts A"
    using bl by (simp add: hl_def)
  obtain us vs where ts: "ts = us @ vs" and fit: "find_fit hl n First = Some (link_after First us)"
    and vs: "vs = [] \<or> n \<le> fb_size hl (hd vs)"
    using find_fit_at [OF chl] by blast
  have rd: "fb_chain hl (read_link hl (link_after First us)) vs" using fb_chain_read chl ts by blast
  show ?thesis
  proof (cases vs)
    case (Cons t vs')
    define hb where "hb = take_block (link_after First us) n hl"
    have "malloc sz h = Inr (t + 16, unlock_heap hb)"
      using rd by (simp add: malloc_def n_def [symmetric] lk fit loop_result_def Cons Let_def hb_def)
    moreover note tb = take_block_at [OF _ _ _ n(1) hb_def, of t vs' A]
    have "(\<exists>ts. fb_chain hb (first_free hb) ts \<and> heap_blocks hb ts (insert t A)) \<and> n \<le> fb_size hb t \<and>
        (\<forall>a\<in>A. fb_size hb a = fb_size h a) \<and> heap_brk hb = heap_brk h \<and> heap_bytes hb = heap_bytes h"
      using tb chl bll vs by (simp add: ts Cons) (simp add: hl_def)
    moreover have "t \<notin> A" using heap_blocks_split(1) bll ts Cons by blast
    ultimately show ?thesis using brk n(2)
      by (intro exI [of _ t] exI [of _ "unlock_heap hb"])
        (auto simp: heap_inv_def unlock_heap_def word_le_nat_alt)
  next
    case Nil
    define t where "t = heap_brk h"
    let ?h1 = "set_size_fb t n (h\<lparr>heap_brk := t + (n + 16)\<rparr>)"
    have un: "unat (n + 16) = unat n + 16" using n(3) sz by (subst unat_add_nowrap) simp_all
    then have rnd: "sbrk_round (n + 16) = n + 16" "n + 16 \<noteq> 0"
      using n(1,3) sz by (auto intro!: sbrk_round_aligned dvd_add)
    have brk1: "unat (t + (n + 16)) = unat t + 16 + unat n"
      using un n(3) sz by (subst unat_add_nowrap) (simp_all add: t_def)
    have "unlock_heap hl = h" using brk(3) by (cases h) (simp add: hl_def unlock_heap_def)
    then have "malloc sz h = Inr (t + 16, ?h1)"
      using rd rnd brk(1)
      by (simp add: malloc_def n_def [symmetric] lk fit loop_result_def Nil Let_def sbrk_def t_def)
    moreover have "heap_blocks ?h1 ts (insert t A) \<and> t \<notin> set ts \<union> A"
      using heap_blocks_fresh [OF bl t_def _ _ n(1), of ?h1] brk brk1 by (simp add: t_def)
    moreover have "16 dvd unat (t + (n + 16))" "t + (n + 16) \<noteq> 0"
      using brk1 n(1) brk(1,2) by (auto simp: t_def unat_eq_0 [symmetric] intro!: dvd_add)
    ultimately show ?thesis using ch brk(3) n(2)
      by (intro exI [of _ t] exI [of _ ?h1]) (auto simp: heap_inv_def)
  qed
qed

section \<open>Freeing\<close>

text \<open>What \<open>join_memory\<close> makes of a list \<open>cs\<close> in which neighbours may touch.\<close>

definition joined :: "cheap \<Rightarrow> u32 list \<Rightarrow> cheap \<Rightarrow> u32 list \<Rightarrow> bool" where
  "joined h cs h1 cs1 \<longleftrightarrow>
     fb_chain h1 (hd cs) cs1 \<and> cs1 \<noteq> [] \<and> set cs1 \<subseteq> set cs \<and>
     sorted_wrt (\<lambda>t u. blk_end h1 t < unat u) cs1 \<and> (\<forall>t\<in>set cs1. block_ok h1 t) \<and>
     (\<forall>x. x \<notin> set cs \<longrightarrow> fb_size h1 x = fb_size h x \<and> fb_next h1 x = fb_next h x) \<and>
     first_free h1 = first_free h \<and> heap_brk h1 = heap_brk h \<and> heap_lock h1 = heap_lock h \<and>
     heap_bytes h1 = heap_bytes h \<and>
     (\<forall>a. a \<notin> set cs \<and> (\<forall>t\<in>set cs. apart h a t) \<longrightarrow> (\<forall>t\<in>set cs1. apart h1 a t))"

lemma unat_blk_end: "block_ok h c \<Longrightarrow> unat (c + fb_size h c + 16) = blk_end h c"
proof -
  assume "block_ok h c"
  then have "unat c + 16 + unat (fb_size h c) < 2 ^ 32"
    using unat32_lt [of "heap_brk h"] unfolding block_ok_def blk_end_def by linarith
  then show ?thesis by (simp add: unat_add_nowrap blk_end_def)
qed

definition merge_next :: "cheap \<Rightarrow> u32 \<Rightarrow> u32 \<Rightarrow> cheap" where
  "merge_next h c n =
     set_next_fb c (fb_next h n) (set_size_fb c (fb_size h c + (fb_size h n + 16)) h)"

lemma merge_next_end:
  assumes "block_ok h c" "block_ok h n" "blk_end h c = unat n"
  shows "blk_end (merge_next h c n) c = blk_end h n" "block_ok (merge_next h c n) c"
proof -
  have e: "unat n + 16 + unat (fb_size h n) < 2 ^ 32" "unat c + 16 + unat (fb_size h c) = unat n"
    using assms unat32_lt [of "heap_brk h"] unfolding block_ok_def blk_end_def by linarith+
  then have u: "unat (fb_size h c + (fb_size h n + 16)) = unat (fb_size h c) + (unat (fb_size h n) + 16)"
    by (simp add: unat_add_nowrap)
  then show 1: "blk_end (merge_next h c n) c = blk_end h n"
    using e(2) by (simp add: blk_end_def merge_next_def)
  have "16 dvd unat (fb_size h c + (fb_size h n + 16))"
    using assms(1,2) u by (auto simp: block_ok_def intro!: dvd_add)
  then show "block_ok (merge_next h c n) c"
    using assms(1,2) 1 by (simp add: block_ok_def merge_next_def)
qed

lemma joined_merge:
  assumes j: "joined (merge_next h c n) (c # ts) h1 cs1" and ok: "block_ok h c" "block_ok h n"
    and touch: "blk_end h c = unat n" and c: "c \<notin> set (n # ts)"
  shows "joined h (c # n # ts) h1 cs1"
proof -
  have "\<forall>t\<in>set cs1. apart h1 a t"
    if a: "a \<notin> set (c # n # ts)" "\<forall>t\<in>set (c # n # ts). apart h a t" for a
  proof -
    have old: "blk_end (merge_next h c n) x = blk_end h x" if "x \<noteq> c" for x
      using that by (simp add: blk_end_def merge_next_def)
    have "apart h a c" "apart h a n" using a(2) by simp_all
    moreover have "unat a < blk_end h a" by (simp add: blk_end_def)
    ultimately have "apart (merge_next h c n) a c"
      using merge_next_end(1) [OF ok touch] old [of a] a(1) touch by (auto simp: apart_def)
    moreover have "apart (merge_next h c n) a t" if "t \<in> set ts" for t
    proof -
      have "t \<noteq> c" "a \<noteq> c" "apart h a t" using that c a by auto
      then show ?thesis by (simp add: apart_def old)
    qed
    ultimately have "\<forall>t\<in>set (c # ts). apart (merge_next h c n) a t" by simp
    moreover have "a \<notin> set (c # ts)" using a(1) by simp
    ultimately show ?thesis using j unfolding joined_def by blast
  qed
  then show ?thesis using j by (auto simp: joined_def merge_next_def)
qed

lemma joined_skip:
  assumes j: "joined h (n # ts) h1 cs1" and ok: "block_ok h c" and n: "fb_next h c = n"
    and gap: "blk_end h c < unat n" and c: "c \<notin> set (n # ts)"
  shows "joined h (c # n # ts) h1 (c # cs1)"
proof -
  obtain cs2 where cs1: "cs1 = n # cs2" using j by (cases cs1) (auto simp: joined_def)
  have same: "fb_size h1 c = fb_size h c" "fb_next h1 c = n" "blk_end h1 c = blk_end h c"
    using j c n by (auto simp: joined_def blk_end_def)
  have "blk_end h1 c < unat x" if "x \<in> set cs1" for x
  proof -
    have "x = n \<or> blk_end h1 n < unat x" using j that by (auto simp: joined_def cs1)
    then show ?thesis using gap same(3) by (auto simp: blk_end_def)
  qed
  moreover have "block_ok h1 c" using ok same j by (simp add: block_ok_def joined_def)
  moreover have "apart h1 a c" if "a \<notin> set (c # n # ts)" "apart h a c" for a
    using that j same(3) by (auto simp: joined_def apart_def blk_end_def)
  moreover have "c \<noteq> 0" using ok by (simp add: block_ok_def)
  moreover note j [unfolded joined_def]
  ultimately show ?thesis using same(2) unfolding joined_def
    by (intro conjI) (simp_all add: subset_insertI2)
qed

lemma join_from_at:
  assumes "fb_chain h c (c # ts)" "sorted_wrt (\<lambda>t u. blk_end h t \<le> unat u) (c # ts)"
    "\<forall>t\<in>set (c # ts). block_ok h t"
  shows "\<exists>h1 cs1. join_from h c = Some (Inr h1) \<and> joined h (c # ts) h1 cs1"
  using assms
proof (induction ts arbitrary: h c)
  case Nil
  then show ?case
    by (intro exI [of _ h] exI [of _ "[c]"]) (simp add: join_from.simps joined_def)
next
  case (Cons n ts)
  have ok: "block_ok h c" "block_ok h n" and n: "fb_next h c = n" "n \<noteq> 0" and le: "blk_end h c \<le> unat n"
    using Cons.prems by auto
  have c: "c \<notin> set (n # ts)" using Cons.prems(2) by (auto simp: blk_end_def)
  have cmp: "\<not> n < c + fb_size h c + 16" "c + fb_size h c + 16 = n \<longleftrightarrow> blk_end h c = unat n"
    using unat_blk_end [OF ok(1)] le by (auto simp: word_less_nat_alt word_unat_eq_iff)
  show ?case
  proof (cases "blk_end h c = unat n")
    case True
    let ?h = "merge_next h c n"
    have old: "blk_end ?h x = blk_end h x" "fb_next ?h x = fb_next h x" "fb_size ?h x = fb_size h x" if "x \<noteq> c" for x
      using that by (simp_all add: blk_end_def merge_next_def)
    have "fb_chain ?h (fb_next h n) ts"
    proof (subst fb_chain_cong [of ts ?h h])
      fix x
      assume "x \<in> set ts"
      then show "fb_next ?h x = fb_next h x" using c by (intro old(2)) auto
    qed (use Cons.prems(1) in auto)
    then have "fb_chain ?h c (c # ts)" using Cons.prems(1) by (simp add: merge_next_def)
    moreover have "sorted_wrt (\<lambda>t u. blk_end ?h t \<le> unat u) (c # ts)"
    proof -
      have "blk_end ?h x = blk_end h x" if "x \<in> set ts" for x using that c by (intro old(1)) auto
      then have "sorted_wrt (\<lambda>t u. blk_end ?h t \<le> unat u) ts"
        using Cons.prems(2) by (subst sorted_ends_cong [of ts ?h h]) auto
      then show ?thesis using Cons.prems(2) merge_next_end(1) [OF ok True] by simp
    qed
    moreover have "\<forall>t\<in>set (c # ts). block_ok ?h t"
      using Cons.prems(3) merge_next_end(2) [OF ok True] old c by (auto simp: block_ok_def merge_next_def)
    ultimately obtain h1 cs1 where "join_from ?h c = Some (Inr h1)" "joined ?h (c # ts) h1 cs1"
      using Cons.IH by blast
    moreover have "join_from h c = join_from ?h c"
      using n cmp True by (subst join_from.simps) (simp add: merge_next_def Let_def)
    ultimately show ?thesis using joined_merge [OF _ ok True c] by metis
  next
    case False
    have "fb_chain h n (n # ts)" "sorted_wrt (\<lambda>t u. blk_end h t \<le> unat u) (n # ts)"
      "\<forall>t\<in>set (n # ts). block_ok h t" using Cons.prems by auto
    then obtain h1 cs1 where "join_from h n = Some (Inr h1)" "joined h (n # ts) h1 cs1"
      using Cons.IH by blast
    moreover have "join_from h c = join_from h n"
      using n cmp False by (subst join_from.simps) simp
    ultimately show ?thesis using joined_skip [OF _ ok(1) n(1) _ c] le False by (metis le_neq_implies_less)
  qed
qed

lemma weaken_sorted:
  "sorted_wrt (\<lambda>t u. blk_end h t < unat u) ts \<Longrightarrow> sorted_wrt (\<lambda>t u. blk_end h t \<le> unat u) ts"
  by (erule sorted_wrt_mono_rel [rotated]) simp

lemma heap_blocks_insert_sorted:
  assumes bl: "heap_blocks h (us @ vs) A" and t: "t \<in> A"
    and us: "\<forall>u\<in>set us. u < t" and vs: "vs = [] \<or> t \<le> hd vs"
  shows "sorted_wrt (\<lambda>t u. blk_end h t \<le> unat u) (us @ t # vs)"
proof -
  have sorted: "sorted_wrt (\<lambda>t u. blk_end h t < unat u) (us @ vs)" and ap: "\<forall>x\<in>set (us @ vs). apart h t x"
    using bl t heap_blocks_apart [OF bl t] by (simp_all add: heap_blocks_def)
  have "blk_end h u \<le> unat t" if "u \<in> set us" for u
  proof -
    have "unat u < unat t" using us that by (simp add: word_less_nat_alt)
    moreover have "apart h t u" using ap that by simp
    ultimately show ?thesis by (simp add: apart_def blk_end_def)
  qed
  moreover have "blk_end h t \<le> unat v" if "v \<in> set vs" for v
  proof -
    have "hd vs = v \<or> blk_end h (hd vs) < unat v"
      using sorted that by (cases vs) (auto simp: sorted_wrt_append)
    moreover have "unat t \<le> unat (hd vs)" using vs that by (auto simp: word_le_nat_alt)
    ultimately have "unat t \<le> unat v" by (auto simp: blk_end_def)
    moreover have "apart h t v" using ap that by simp
    ultimately show ?thesis by (auto simp: apart_def blk_end_def)
  qed
  ultimately show ?thesis using weaken_sorted [OF sorted] by (auto simp: sorted_wrt_append)
qed

lemma heap_blocks_joined:
  assumes bl: "heap_blocks h (us @ vs) A" and t: "t \<in> A"
    and size: "fb_size h1 = fb_size h" "heap_brk h1 = heap_brk h" and j: "joined h1 (us @ t # vs) h2 cs"
  shows "heap_blocks h2 cs (A - {t})"
proof -
  have same: "blk_end h1 x = blk_end h x" "apart h1 x y = apart h x y" for x y
    by (simp_all add: blk_end_def apart_def size)
  have out: "a \<notin> set (us @ t # vs)" if "a \<in> A - {t}" for a
    using that bl by (auto simp: heap_blocks_def)
  have keep: "fb_size h2 a = fb_size h a" "blk_end h2 a = blk_end h a" if "a \<in> A - {t}" for a
    using j out [OF that] by (simp_all add: joined_def blk_end_def size)
  have "block_ok h2 a" if "a \<in> A - {t}" for a
  proof -
    have "block_ok h a" using bl that by (auto simp: heap_blocks_def)
    then show ?thesis using keep [OF that] j size by (simp add: block_ok_def joined_def)
  qed
  moreover have "apart h2 a x" if "a \<in> A - {t}" "x \<in> set cs" for a x
  proof -
    have "apart h a t" using bl that(1) t unfolding heap_blocks_def by blast
    then have "\<forall>x\<in>set (us @ t # vs). apart h a x" using heap_blocks_apart [OF bl, of a] that(1) by auto
    then show ?thesis using j out [OF that(1)] that(2) unfolding joined_def same by blast
  qed
  moreover have "apart h2 a b" if "a \<in> A - {t}" "b \<in> A - {t}" "a \<noteq> b" for a b
  proof -
    have "apart h a b" using bl that unfolding heap_blocks_def by blast
    then show ?thesis using keep(2) that by (simp add: apart_def)
  qed
  moreover have "set cs \<inter> (A - {t}) = {}" using j out unfolding joined_def by blast
  moreover have "sorted_wrt (\<lambda>t u. blk_end h2 t < unat u) cs" "\<forall>x\<in>set cs. block_ok h2 x"
    using j by (simp_all add: joined_def)
  ultimately show ?thesis unfolding heap_blocks_def by blast
qed

lemma free_spec:
  assumes inv: "heap_inv h A" and t: "t \<in> A"
  shows "\<exists>h1. free (t + 16) h = Inr h1 \<and> heap_inv h1 (A - {t}) \<and>
           (\<forall>a\<in>A - {t}. fb_size h1 a = fb_size h a) \<and> heap_brk h1 = heap_brk h \<and> heap_bytes h1 = heap_bytes h"
proof -
  define hl where "hl = h\<lparr>heap_lock := True\<rparr>"
  obtain ts where ch: "fb_chain h (first_free h) ts" and bl: "heap_blocks h ts A"
    and brk: "heap_brk h \<noteq> 0" "16 dvd unat (heap_brk h)" "\<not> heap_lock h"
    using inv by (auto simp: heap_inv_def)
  have lk: "lock_heap h = Inr hl" using brk(3) by (simp add: lock_heap_def hl_def)
  have chl: "fb_chain hl (read_link hl First) ts" and bll: "heap_blocks hl ts A"
    using ch bl by (simp_all add: hl_def)
  obtain us vs where ts: "ts = us @ vs" and pos: "free_position hl t First = Some (link_after First us)"
    and us: "\<forall>u\<in>set us. u < t" and vs: "vs = [] \<or> t \<le> hd vs"
    using free_position_at [OF chl] by blast
  let ?fb = "link_after First us"
  have rd: "fb_chain hl (read_link hl ?fb) vs" using fb_chain_read chl ts by blast
  have ok: "block_ok hl t" and t_new: "t \<notin> set us" "t \<notin> set vs"
    using bll t by (auto simp: heap_blocks_def ts)
  have ne: "read_link hl ?fb \<noteq> t" "t \<noteq> 0" using rd t_new ok by (cases vs; auto simp: block_ok_def)+
  have tp: "t + 16 \<noteq> 0"
  proof
    assume "t + 16 = 0"
    moreover have "unat (t + 16) = unat t + 16"
      using ok unat32_lt [of "heap_brk hl"] by (subst unat_add_nowrap) (auto simp: block_ok_def blk_end_def)
    ultimately show False by simp
  qed
  define h1 where "h1 = write_link ?fb t (set_next_fb t (read_link hl ?fb) hl)"
  have dist: "distinct (us @ vs)" using bll sorted_blocks_distinct [of hl ts] by (simp add: heap_blocks_def ts)
  have nx: "fb_next h1 x = (if ?fb = Next x then t else if x = t then read_link hl ?fb else fb_next hl x)" for x
    by (simp add: h1_def fb_next_write_link)
  have "fb_chain h1 (read_link hl ?fb) vs"
  proof (subst fb_chain_cong [of vs h1 hl])
    fix x
    assume "x \<in> set vs"
    then show "fb_next h1 x = fb_next hl x"
      using nx [of x] link_after_not [of x us] dist t_new by auto
  qed (rule rd)
  then have "fb_chain h1 t (t # vs)" using nx [of t] link_after_not [OF t_new(1)] ne(2) by simp
  moreover have "read_link h1 l = (if l = ?fb then t else read_link hl l)" if "l \<in> insert First (Next ` set us)" for l
    using that t_new(1) by (auto simp: h1_def read_link_other)
  ultimately have ch1: "fb_chain h1 (first_free h1) (us @ t # vs)"
    using fb_chain_relink [of hl First us vs h1 t "t # vs"] chl dist ts by auto
  obtain c cs where cs: "us @ t # vs = c # cs" by (cases us) auto
  have ff: "first_free h1 = c" "c \<noteq> 0" using ch1 unfolding cs by simp_all
  have f1: "fb_size h1 = fb_size hl" "heap_brk h1 = heap_brk hl" "heap_bytes h1 = heap_bytes hl"
    by (simp_all add: h1_def)
  have "sorted_wrt (\<lambda>t u. blk_end h1 t \<le> unat u) (c # cs)"
    using heap_blocks_insert_sorted [OF _ t us vs] bll f1 by (simp add: ts blk_end_def cs)
  moreover have "\<forall>x\<in>set (c # cs). block_ok h1 x"
  proof -
    have "\<forall>x\<in>set (us @ t # vs). block_ok hl x" using bll t by (auto simp: heap_blocks_def ts)
    then show ?thesis by (simp add: block_ok_def blk_end_def f1 cs)
  qed
  ultimately obtain h2 cs1 where jn: "join_from h1 c = Some (Inr h2)" and j: "joined h1 (c # cs) h2 cs1"
    using join_from_at [of h1 c cs] ch1 unfolding cs by auto
  have "free (t + 16) h = Inr (unlock_heap h2)"
    using ne(1) tp jn ff
    by (simp add: free_def lk pos loop_result_def h1_def [symmetric] join_memory_def Let_def)
  moreover have "heap_blocks h2 cs1 (A - {t})"
    using heap_blocks_joined [OF bll [unfolded ts] t f1(1,2)] j unfolding cs by blast
  moreover have "fb_size h2 a = fb_size h a" if "a \<in> A - {t}" for a
  proof -
    have "a \<notin> set (us @ t # vs)" using that bll by (auto simp: heap_blocks_def ts)
    then show ?thesis using j f1(1) unfolding cs joined_def by (simp add: hl_def)
  qed
  moreover have "fb_chain h2 (first_free h2) cs1" "heap_brk h2 = heap_brk h" "heap_bytes h2 = heap_bytes h"
    using j f1 ff(1) by (simp_all add: joined_def hl_def)
  ultimately show ?thesis using brk by (auto simp: heap_inv_def unlock_heap_def)
qed

section \<open>The heap as its clients see it\<close>

text \<open>
  The interface of the allocator: \<open>live h A\<close> says that \<open>A\<close> are the headers of the blocks in use, and
  \<open>poke\<close> is a write to the contents of blocks.
\<close>

locale block_heap =
  fixes alloc :: "u32 \<Rightarrow> 's \<Rightarrow> (u32 \<times> 's) outcome" and release :: "u32 \<Rightarrow> 's \<Rightarrow> 's outcome"
    and live :: "'s \<Rightarrow> u32 set \<Rightarrow> bool" and bsize :: "'s \<Rightarrow> u32 \<Rightarrow> u32" and bytes :: "'s \<Rightarrow> bmem"
    and poke :: "bmem \<Rightarrow> 's \<Rightarrow> 's" and room :: "u32 \<Rightarrow> 's \<Rightarrow> bool"
  assumes alloc_spec: "live h A \<Longrightarrow> room sz h \<Longrightarrow>
      \<exists>t h1. alloc sz h = Inr (t + 16, h1) \<and> live h1 (insert t A) \<and> t \<notin> A \<and>
        unat sz \<le> unat (bsize h1 t) \<and> (\<forall>a\<in>A. bsize h1 a = bsize h a) \<and> bytes h1 = bytes h"
    and release_spec: "live h A \<Longrightarrow> t \<in> A \<Longrightarrow>
      \<exists>h1. release (t + 16) h = Inr h1 \<and> live h1 (A - {t}) \<and>
        (\<forall>a\<in>A - {t}. bsize h1 a = bsize h a) \<and> bytes h1 = bytes h"
    and poke_spec: "live (poke m h) A = live h A" "bsize (poke m h) = bsize h" "bytes (poke m h) = m"
begin

lemma move_block:
  assumes "live h A" "t \<in> A" "room sz h"
  shows "\<exists>u h1 h2. alloc sz h = Inr (u + 16, h1) \<and> live h1 (insert u A) \<and> u \<notin> A \<and>
    (\<forall>a\<in>A. bsize h1 a = bsize h a) \<and> bytes h1 = bytes h \<and> unat sz \<le> unat (bsize h1 u) \<and>
    release (t + 16) (poke (f u) h1) = Inr h2 \<and> live h2 (insert u (A - {t})) \<and>
    unat sz \<le> unat (bsize h2 u) \<and> bytes h2 = f u"
proof -
  obtain u h1 where a: "alloc sz h = Inr (u + 16, h1)" "live h1 (insert u A)" "u \<notin> A"
    "unat sz \<le> unat (bsize h1 u)" "\<forall>a\<in>A. bsize h1 a = bsize h a" "bytes h1 = bytes h"
    using alloc_spec [OF assms(1,3)] by blast
  obtain h2 where r: "release (t + 16) (poke (f u) h1) = Inr h2" "live h2 (insert u A - {t})"
    "\<forall>a\<in>insert u A - {t}. bsize h2 a = bsize h1 a" "bytes h2 = f u"
    using release_spec [of "poke (f u) h1" "insert u A" t] a(2) assms(2) unfolding poke_spec by blast
  have u: "insert u A - {t} = insert u (A - {t})" "u \<in> insert u A - {t}" using a(3) assms(2) by auto
  then have "unat sz \<le> unat (bsize h2 u)" using r(3) a(4) by simp
  then show ?thesis using a r(1,2,4) unfolding u(1) by blast
qed

end

definition heap_room :: "u32 \<Rightarrow> cheap \<Rightarrow> bool" where
  "heap_room sz h \<longleftrightarrow> unat sz \<le> 0xFFFFFFF0 \<and> unat (heap_brk h) + unat sz + 32 < 2 ^ 32"

interpretation cheap: block_heap malloc free heap_inv fb_size heap_bytes "\<lambda>m h. h\<lparr>heap_bytes := m\<rparr>" heap_room
proof
  fix h A sz
  assume "heap_inv h A" "heap_room sz h"
  then show "\<exists>t h1. malloc sz h = Inr (t + 16, h1) \<and> heap_inv h1 (insert t A) \<and> t \<notin> A \<and>
      unat sz \<le> unat (fb_size h1 t) \<and> (\<forall>a\<in>A. fb_size h1 a = fb_size h a) \<and> heap_bytes h1 = heap_bytes h"
    unfolding heap_room_def by (intro malloc_spec) simp_all
next
  fix h A t
  assume "heap_inv h A" "t \<in> A"
  then show "\<exists>h1. free (t + 16) h = Inr h1 \<and> heap_inv h1 (A - {t}) \<and>
      (\<forall>a\<in>A - {t}. fb_size h1 a = fb_size h a) \<and> heap_bytes h1 = heap_bytes h"
    using free_spec by blast
qed (simp_all add: heap_inv_def)

text \<open>Blocks of the invariant do not overlap, and neither do their contents.\<close>

lemma heap_inv_apart: "heap_inv h A \<Longrightarrow> a \<in> A \<Longrightarrow> b \<in> A \<Longrightarrow> a \<noteq> b \<Longrightarrow> apart h a b"
  unfolding heap_inv_def heap_blocks_def by blast

lemma heap_inv_block: "heap_inv h A \<Longrightarrow> a \<in> A \<Longrightarrow> block_ok h a"
  unfolding heap_inv_def heap_blocks_def by blast

lemma block_contents:
  assumes "block_ok h a" "i < unat (fb_size h a)"
  shows "unat (a + 16 + of_nat i) = unat a + 16 + i"
proof -
  have "unat a + 16 + i < 2 ^ 32"
    using assms unat32_lt [of "heap_brk h"] unfolding block_ok_def blk_end_def by linarith
  then show ?thesis
    using unat_plus_of_nat [of a "16 + i"] by (simp add: add.assoc)
qed

lemma contents_apart:
  assumes "block_ok h a" "block_ok h b" "apart h a b" "i < unat (fb_size h a)" "j < unat (fb_size h b)"
  shows "a + 16 + of_nat i \<noteq> b + 16 + of_nat j"
proof
  assume "a + 16 + of_nat i = b + 16 + of_nat j"
  then have "unat a + 16 + i = unat b + 16 + j"
    using block_contents [OF assms(1,4)] block_contents [OF assms(2,5)] by metis
  then show False using assms(3,4,5) unfolding apart_def blk_end_def by linarith
qed

text \<open>\<open>malloc\<close> returns a block that was not in use, at least as large as requested and aligned to 16
  bytes; the blocks in use keep their sizes, all blocks stay disjoint and no content changes. The
  request and the break must stay clear of the end of the address space.\<close>

theorem malloc_contract:
  assumes "heap_inv h A" "heap_room sz h"
  shows "\<exists>t h1. malloc sz h = Inr (t + 16, h1) \<and> heap_inv h1 (insert t A) \<and> t \<notin> A \<and>
           unat sz \<le> unat (alloced_size (t + 16) h1) \<and> 16 dvd unat (t + 16) \<and>
           (\<forall>a\<in>A. fb_size h1 a = fb_size h a \<and> apart h1 a t) \<and> heap_bytes h1 = heap_bytes h"
proof -
  obtain t h1 where m: "malloc sz h = Inr (t + 16, h1)" "heap_inv h1 (insert t A)" "t \<notin> A"
    "unat sz \<le> unat (fb_size h1 t)" "\<forall>a\<in>A. fb_size h1 a = fb_size h a" "heap_bytes h1 = heap_bytes h"
    using cheap.alloc_spec [OF assms] by blast
  have ok: "block_ok h1 t" by (rule heap_inv_block [OF m(2)]) simp
  then have "unat (t + 16) = unat t + 16"
    using unat32_lt [of "heap_brk h1"]
    by (subst unat_add_nowrap) (auto simp: block_ok_def blk_end_def)
  then have "16 dvd unat (t + 16)" using ok by (simp add: block_ok_def)
  moreover have "apart h1 a t" if "a \<in> A" for a
    using heap_inv_apart [OF m(2), of a t] that m(3) by auto
  ultimately show ?thesis using m by (auto simp: alloced_size_def)
qed

text \<open>C29: freeing a block in use ends whatever the free list looks like, never meets the deliberate
  crash for overlapping or twice freed blocks, and leaves a list in which the blocks are in
  ascending order with a gap between any two: neighbours have been joined.\<close>

theorem free_contract:
  assumes "heap_inv h A" "t \<in> A"
  shows "\<exists>h1 ts. free (t + 16) h = Inr h1 \<and> heap_inv h1 (A - {t}) \<and>
           fb_chain h1 (first_free h1) ts \<and> sorted_wrt (\<lambda>a b. blk_end h1 a < unat b) ts \<and>
           heap_brk h1 = heap_brk h \<and> heap_bytes h1 = heap_bytes h"
proof -
  obtain h1 where f: "free (t + 16) h = Inr h1" "heap_inv h1 (A - {t})" "heap_brk h1 = heap_brk h"
    "heap_bytes h1 = heap_bytes h" using free_spec [OF assms] by blast
  obtain ts where "fb_chain h1 (first_free h1) ts" "sorted_wrt (\<lambda>a b. blk_end h1 a < unat b) ts"
    using f(2) unfolding heap_inv_def heap_blocks_def by blast
  with f show ?thesis by blast
qed

lemma realloc_spec:
  assumes inv: "heap_inv h A" and t: "t \<in> A" and room: "heap_room sz h" and grow: "fb_size h t < sz"
  shows "\<exists>u h1. realloc (t + 16) sz h = Inr (u + 16, h1) \<and> heap_inv h1 (insert u (A - {t})) \<and>
           u \<notin> A \<and> unat sz \<le> unat (fb_size h1 u) \<and>
           (\<forall>i<unat (fb_size h t). heap_bytes h1 (u + 16 + of_nat i) = heap_bytes h (t + 16 + of_nat i)) \<and>
           (\<forall>a\<in>A - {t}. \<forall>i<unat (fb_size h a).
              heap_bytes h1 (a + 16 + of_nat i) = heap_bytes h (a + 16 + of_nat i))"
proof -
  define n where "n = unat (fb_size h t)"
  let ?copy = "\<lambda>u. memcpy (heap_bytes h) (u + 16) (t + 16) n"
  obtain u h1 h2 where m: "malloc sz h = Inr (u + 16, h1)" "heap_inv h1 (insert u A)" "u \<notin> A"
    "\<forall>a\<in>A. fb_size h1 a = fb_size h a" "heap_bytes h1 = heap_bytes h" "unat sz \<le> unat (fb_size h1 u)"
    "free (t + 16) (h1\<lparr>heap_bytes := ?copy u\<rparr>) = Inr h2" "heap_inv h2 (insert u (A - {t}))"
    "unat sz \<le> unat (fb_size h2 u)" "heap_bytes h2 = ?copy u"
    using cheap.move_block [OF inv t room, of ?copy] by blast
  have ok: "block_ok h1 a" if "a \<in> insert u A" for a by (rule heap_inv_block [OF m(2) that])
  have nz: "a + 16 \<noteq> 0" if "a \<in> insert u A" for a
    using ok [OF that] unat32_lt [of "heap_brk h1"] unat_add_nowrap [of a 16]
    by (auto simp: block_ok_def blk_end_def)
  have nu: "n \<le> unat (fb_size h1 u)" using grow m(6) by (simp add: n_def word_less_nat_alt)
  have sep: "a + 16 + of_nat i \<noteq> u + 16 + of_nat j" if "a \<in> A" "i < unat (fb_size h a)" "j < n" for a i j
    using contents_apart [of h1 a u i j] heap_inv_apart [OF m(2), of a u] ok that m(3,4) nu by auto
  have n32: "n < 2 ^ 32" using unat32_lt by (simp add: n_def)
  have cp: "?copy u x = (if in_block (u + 16) n x then heap_bytes h (t + 16 + (x - (u + 16))) else heap_bytes h x)" for x
    using sep [OF t] n32 by (intro memcpy_block) (auto simp: n_def)
  have "realloc (t + 16) sz h = Inr (u + 16, h2)"
  proof -
    have "sz \<noteq> 0" "\<not> sz \<le> fb_size h t" using grow by auto
    then show ?thesis using m(1,4,5,7) nz [of t] nz [of u] t by (simp add: realloc_def Let_def n_def)
  qed
  moreover have "heap_bytes h2 (u + 16 + of_nat i) = heap_bytes h (t + 16 + of_nat i)" if "i < n" for i
    using that n32 in_block_offset [of i "u + 16" n] by (simp add: m(10) cp)
  moreover have "heap_bytes h2 (a + 16 + of_nat i) = heap_bytes h (a + 16 + of_nat i)"
    if "a \<in> A - {t}" "i < unat (fb_size h a)" for a i
  proof -
    have "\<not> in_block (u + 16) n (a + 16 + of_nat i)"
    proof
      assume *: "in_block (u + 16) n (a + 16 + of_nat i)"
      let ?j = "unat (a + 16 + of_nat i - (u + 16))"
      have "?j < n" "a + 16 + of_nat i = u + 16 + of_nat ?j" using * by (simp_all add: in_block_def)
      then show False using sep [of a i ?j] that by blast
    qed
    then show ?thesis by (simp add: m(10) cp)
  qed
  ultimately show ?thesis using m by (auto simp: n_def)
qed

text \<open>growing a block with \<open>realloc\<close> gives a new block of the requested size that starts with the
  contents of the old one, frees the old one, and leaves the contents of all other blocks alone.\<close>

theorem realloc_moves:
  assumes inv: "heap_inv h A" and t: "t \<in> A" and room: "heap_room sz h" and grow: "fb_size h t < sz"
  shows "\<exists>u h1. realloc (t + 16) sz h = Inr (u + 16, h1) \<and> heap_inv h1 (insert u (A - {t})) \<and>
           u \<notin> A \<and> unat sz \<le> unat (fb_size h1 u) \<and>
           (\<forall>i<unat (fb_size h t). heap_bytes h1 (u + 16 + of_nat i) = heap_bytes h (t + 16 + of_nat i)) \<and>
           (\<forall>a\<in>A - {t}. \<forall>i<unat (fb_size h a).
              heap_bytes h1 (a + 16 + of_nat i) = heap_bytes h (a + 16 + of_nat i))"
  using assms by (rule realloc_spec)

text \<open>Runs of a program that uses the heap: the second argument holds the headers of its blocks.\<close>

inductive heap_run :: "cheap \<Rightarrow> u32 set \<Rightarrow> bool" where
  start: "first_free h = 0 \<Longrightarrow> \<not> heap_lock h \<Longrightarrow> heap_brk h \<noteq> 0 \<Longrightarrow> 16 dvd unat (heap_brk h) \<Longrightarrow> heap_run h {}"
| alloc: "heap_run h A \<Longrightarrow> heap_room sz h \<Longrightarrow> malloc sz h = Inr (p, h1) \<Longrightarrow> heap_run h1 (insert (p - 16) A)"
| release: "heap_run h A \<Longrightarrow> t \<in> A \<Longrightarrow> free (t + 16) h = Inr h1 \<Longrightarrow> heap_run h1 (A - {t})"
| resize: "heap_run h A \<Longrightarrow> t \<in> A \<Longrightarrow> heap_room sz h \<Longrightarrow> fb_size h t < sz \<Longrightarrow>
    realloc (t + 16) sz h = Inr (p, h1) \<Longrightarrow> heap_run h1 (insert (p - 16) (A - {t}))"
| clear: "heap_run h A \<Longrightarrow> heap_room (n * sz) h \<Longrightarrow> calloc n sz h = Inr (p, h1) \<Longrightarrow> heap_run h1 (insert (p - 16) A)"
| store: "heap_run h A \<Longrightarrow> heap_run (h\<lparr>heap_bytes := m\<rparr>) A"

lemma heap_inv_start:
  "first_free h = 0 \<Longrightarrow> \<not> heap_lock h \<Longrightarrow> heap_brk h \<noteq> 0 \<Longrightarrow> 16 dvd unat (heap_brk h) \<Longrightarrow> heap_inv h {}"
  unfolding heap_inv_def heap_blocks_def by (auto intro!: exI [of _ "[]"])

lemma heap_run_inv: "heap_run h A \<Longrightarrow> heap_inv h A"
proof (induction rule: heap_run.induct)
  case (alloc h A sz p h1)
  then show ?case using cheap.alloc_spec [of h A sz] by auto
next
  case (release h A t h1)
  then show ?case using free_spec [of h A t] by auto
next
  case (resize h A t sz p h1)
  then obtain u where "p = u + 16" "heap_inv h1 (insert u (A - {t}))"
    using realloc_spec [of h A t sz] by force
  then show ?case by simp
next
  case (clear h A n sz p h1)
  then show ?case using cheap.alloc_spec [of h A "n * sz"] cheap.poke_spec(1)
    by (auto simp: calloc_def)
next
  case (store h A m)
  then show ?case by (simp add: cheap.poke_spec(1))
qed (rule heap_inv_start)

text \<open>C5: whatever sequence of \<open>malloc\<close>, \<open>calloc\<close>, growing \<open>realloc\<close>, \<open>free\<close> and writes a program
  performs from an empty heap, no byte belongs to two of its blocks, and every block lies below
  the break.\<close>

theorem heap_run_disjoint:
  assumes "heap_run h A" "a \<in> A" "b \<in> A" "a \<noteq> b" "i < unat (fb_size h a)" "j < unat (fb_size h b)"
  shows "a + 16 + of_nat i \<noteq> b + 16 + of_nat j \<and> unat (a + 16 + of_nat i) < unat (heap_brk h)"
proof -
  note inv = heap_run_inv [OF assms(1)]
  have ok: "block_ok h a" "block_ok h b" using heap_inv_block [OF inv] assms(2,3) by auto
  have "unat (a + 16 + of_nat i) < unat (heap_brk h)"
    using block_contents [OF ok(1) assms(5)] ok(1) assms(5) by (simp add: block_ok_def blk_end_def)
  then show ?thesis
    using contents_apart [OF ok heap_inv_apart [OF inv assms(2,3,4)] assms(5,6)] by blast
qed

subsection \<open>Concrete heaps\<close>

definition heap0 :: cheap where
  "heap0 = \<lparr>first_free = 0, fb_next = (\<lambda>_. 0), fb_size = (\<lambda>_. 0), heap_brk = 0x100000,
            heap_lock = False, heap_bytes = (\<lambda>_. 0)\<rparr>"

definition heap1 :: cheap where
  "heap1 = heap0\<lparr>fb_size := (\<lambda>_. 0)(0x100000 := 32), heap_brk := 0x100030\<rparr>"

definition heap2 :: cheap where
  "heap2 = heap1\<lparr>fb_size := (\<lambda>_. 0)(0x100000 := 32, 0x100030 := 16), heap_brk := 0x100050\<rparr>"

lemma heap0_inv: "heap_inv heap0 {}"
  by (rule heap_inv_start) (simp_all add: heap0_def)

lemma heap0_malloc: "malloc 20 heap0 = Inr (0x100010, heap1)"
  by (simp add: malloc_def round16_def lock_heap_def unlock_heap_def find_fit.simps loop_result_def
      heap0_def heap1_def sbrk_def sbrk_round_def set_size_fb_def Let_def)

lemma heap1_malloc: "malloc 7 heap1 = Inr (0x100040, heap2)"
  by (simp add: malloc_def round16_def lock_heap_def unlock_heap_def find_fit.simps loop_result_def
      heap0_def heap1_def heap2_def sbrk_def sbrk_round_def set_size_fb_def Let_def)

lemma heap_runs: "heap_run heap1 {0x100000}" "heap_run heap2 {0x100030, 0x100000}"
proof -
  have "heap_run heap0 {}" by (rule heap_run.start) (simp_all add: heap0_def)
  then show 1: "heap_run heap1 {0x100000}"
    using heap_run.alloc [OF _ _ heap0_malloc, of "{}"] by (simp add: heap_room_def heap0_def)
  show "heap_run heap2 {0x100030, 0x100000}"
    using heap_run.alloc [OF 1 _ heap1_malloc] by (simp add: heap_room_def heap0_def heap1_def)
qed

theorem malloc_contract_witness: "\<exists>t h1. malloc 100 heap1 = Inr (t + 16, h1) \<and> 16 dvd unat (t + 16)"
  using malloc_contract [OF heap_run_inv [OF heap_runs(1)], of 100]
  by (auto simp: heap_room_def heap0_def heap1_def)

theorem free_contract_witness: "\<exists>h1. free 0x100010 heap2 = Inr h1 \<and> heap_inv h1 {0x100030}"
proof -
  have "{0x100030, 0x100000} - {0x100000} = {0x100030 :: u32}" by auto
  then show ?thesis using free_contract [OF heap_run_inv [OF heap_runs(2)], of "0x100000"] by auto
qed

theorem realloc_moves_witness:
  "\<exists>u h1. realloc 0x100010 100 heap1 = Inr (u + 16, h1) \<and> 100 \<le> unat (fb_size h1 u)"
  using realloc_moves [OF heap_run_inv [OF heap_runs(1)], of "0x100000" 100]
  by (auto simp: heap_room_def heap0_def heap1_def)

theorem heap_run_disjoint_witness:
  "(0x100000 + 16 + of_nat 31 :: u32) \<noteq> 0x100030 + 16 + of_nat 0 \<and>
   unat (0x100000 + 16 + of_nat 31 :: u32) < unat (heap_brk heap2)"
  by (rule heap_run_disjoint [OF heap_runs(2)]) (simp_all add: heap2_def heap1_def heap0_def)

section \<open>Two flaws of the heap\<close>

lemma malloc_first_block:
  assumes "first_free h = t" "t \<noteq> 0" "\<not> heap_lock h" "round16 sz \<le> fb_size h t"
  shows "\<exists>h1. malloc sz h = Inr (t + 16, h1)"
  using assms by (simp add: malloc_def lock_heap_def loop_result_def find_fit.simps Let_def)

lemma free_behind_only_block:
  assumes h: "first_free h = t" "fb_next h t = 0" "\<not> heap_lock h" "t \<noteq> 0"
    and rf: "rf = t + fb_size h t + 16" "t < rf" "rf + 16 \<noteq> 0"
  shows "\<exists>h1. free (rf + 16) h = Inr h1 \<and> first_free h1 = t \<and> fb_next h1 t = 0 \<and>
           fb_size h1 t = fb_size h t + (fb_size h rf + 16) \<and> \<not> heap_lock h1"
proof -
  define g where "g = h\<lparr>heap_lock := True\<rparr>"
  have lk: "lock_heap h = Inr g" using h(3) by (simp add: lock_heap_def g_def)
  have "free_position g rf First = free_position g rf (Next t)"
    using h rf(2) by (subst free_position.simps) (simp add: g_def)
  also have "\<dots> = Some (Next t)" using h by (subst free_position.simps) (simp add: g_def)
  finally have pos: "free_position g rf First = Some (Next t)" .
  let ?i = "set_next_fb t rf (set_next_fb rf 0 g)" and ?sz = "fb_size h t + (fb_size h rf + 16)"
  let ?j = "set_next_fb t 0 (set_size_fb t ?sz ?i)"
  have ne: "rf \<noteq> t" "rf \<noteq> 0" using rf(2) by auto
  have "join_from ?i t = join_from ?j t"
    using ne rf(1) by (subst join_from.simps) (simp add: g_def Let_def)
  also have "\<dots> = Some (Inr ?j)" by (subst join_from.simps) simp
  finally have "join_memory ?i = Inr ?j"
    using h by (simp add: join_memory_def loop_result_def g_def)
  then have "free (rf + 16) h = Inr (unlock_heap ?j)"
    using rf(3) ne h by (simp add: free_def lk pos loop_result_def Let_def) (simp add: g_def)
  then show ?thesis using h by (simp add: unlock_heap_def g_def)
qed

text \<open>When the free block that \<open>aligned_alloc\<close> finds is aligned already, it is handed out without being
  removed from the list of free blocks: the next \<open>malloc\<close> of the same size returns the same block.\<close>

theorem aligned_alloc_reuses:
  assumes h: "first_free h = t" "fb_next h t = 0" "\<not> heap_lock h" "t \<noteq> 0" "16 dvd unat t"
    and sz: "unat sz \<le> 0xFFFF" "unat t + unat (fb_size h t) + 16 < 2 ^ 32"
      "unat sz + 80 \<le> unat (fb_size h t)"
  shows "\<exists>h1 h2. aligned_alloc 16 sz h = Inr (t + 16, h1) \<and> malloc sz h1 = Inr (t + 16, h2)"
proof -
  define n where "n = round16 sz"
  define s where "s = fb_size h t"
  define rf where "rf = t + 16 + n"
  have n: "unat n \<le> unat sz + 16" "16 \<le> unat n"
    unfolding n_def using sz by (intro round16_props; simp)+
  have m: "t AND 15 = 0"
  proof -
    have "unat (t AND mask 4) = 0" unfolding unat_and_mask using h(5) by (simp add: dvd_imp_mod_0)
    then show ?thesis by (simp add: mask_eq_exp_minus_1 unat_eq_0)
  qed
  then have as: "align_space 16 t = 16" by (simp add: align_space_def)
  have un: "unat (16 + n) = 16 + unat n" using n sz by (subst unat_add_nowrap) simp_all
  have us: "unat (s - n) = unat s - unat n" "n \<le> s"
    using n sz by (auto simp: s_def word_le_nat_alt unat_sub)
  have fit: "16 + n \<le> s" "32 \<le> s - n" using un us n sz by (simp_all add: word_le_nat_alt s_def)
  have urf: "unat rf = unat t + 16 + unat n"
    using n sz unfolding rf_def by (simp add: unat_add_nowrap s_def)
  have rf: "t < rf" "rf \<noteq> 0" "rf \<noteq> t" using urf by (auto simp: word_less_nat_alt)
  define g where "g = set_size_fb rf (s - n - 16) (set_size_fb t n h)"
  have g: "first_free g = t" "fb_next g t = 0" "\<not> heap_lock g" "fb_size g t = n" "fb_size g rf = s - n - 16"
    using h rf by (simp_all add: g_def)
  have "rf + 16 \<noteq> 0" using urf sz n us by (auto simp: unat_eq_0 [symmetric] unat_add_nowrap s_def)
  then obtain h1 where h1: "free (rf + 16) g = Inr h1" "first_free h1 = t" "fb_size h1 t = s" "\<not> heap_lock h1"
    using free_behind_only_block [OF g(1-3) h(4), of rf] g(4,5) rf by (auto simp: rf_def algebra_simps)
  have "aligned_alloc 16 sz h = Inr (t + 16, h1)"
  proof -
    let ?l = "h\<lparr>heap_lock := True\<rparr>"
    have "find_aligned ?l 16 n First = Some First"
      using h fit(1) as by (subst find_aligned.simps) (simp add: s_def)
    moreover have "aligned_from_list 16 n t ?l = (t, rf, set_size_fb rf (s - n - 16) (set_size_fb t n ?l))"
      using fit(2) by (simp add: aligned_from_list_def as rf_def s_def Let_def)
    moreover have "unlock_heap (set_size_fb rf (s - n - 16) (set_size_fb t n ?l)) = g"
      using h(3) by (cases h) (simp add: g_def unlock_heap_def set_size_fb_def)
    ultimately show ?thesis
      using h rf h1 by (simp add: aligned_alloc_def n_def [symmetric] lock_heap_def loop_result_def free_if_def)
  qed
  then show ?thesis
    using malloc_first_block [OF h1(2) h(4) h1(4), of sz] us(2) h1(3) by (auto simp: n_def [symmetric])
qed

definition heap3 :: cheap where
  "heap3 = heap0\<lparr>first_free := 0x100000, fb_size := (\<lambda>_. 0)(0x100000 := 0x100), heap_brk := 0x100110\<rparr>"

theorem aligned_alloc_reuses_witness:
  "\<exists>h1 h2. aligned_alloc 16 100 heap3 = Inr (0x100010, h1) \<and> malloc 100 h1 = Inr (0x100010, h2)"
  using aligned_alloc_reuses [of heap3 "0x100000" 100] by (simp add: heap3_def heap0_def)

text \<open>A request within 15 bytes of the end of the address space is rounded up to zero: on a heap
  without free blocks \<open>malloc\<close> reports success and returns a block of size zero.\<close>

theorem malloc_wraps:
  assumes "0xFFFFFFF0 < sz" "first_free h = 0" "\<not> heap_lock h" "heap_brk h \<noteq> 0"
  shows "\<exists>h1. malloc sz h = Inr (heap_brk h + 16, h1) \<and> alloced_size (heap_brk h + 16) h1 = 0"
proof -
  define k where "k = sz - 0xFFFFFFF0"
  have "unat k = unat sz - 0xFFFFFFF0" using assms(1) unat_sub [of "0xFFFFFFF0" sz] by (simp add: k_def)
  then have k: "0 < unat k" "unat k < 16" using assms(1) unat32_lt [of sz] by (simp_all add: word_less_nat_alt)
  have sz: "sz = k + 0xFFFFFFF0" by (simp add: k_def)
  have "k = 1 \<or> k = 2 \<or> k = 3 \<or> k = 4 \<or> k = 5 \<or> k = 6 \<or> k = 7 \<or> k = 8 \<or> k = 9 \<or> k = 10 \<or>
      k = 11 \<or> k = 12 \<or> k = 13 \<or> k = 14 \<or> k = 15"
    using k by (simp add: word_unat_eq_iff) presburger
  then have "round16 sz = 0" by (elim disjE) (simp_all add: sz round16_def)
  then show ?thesis
    using assms(2-4)
    by (simp add: malloc_def lock_heap_def unlock_heap_def loop_result_def find_fit.simps Let_def sbrk_def alloced_size_def)
qed

theorem malloc_wraps_witness:
  "\<exists>h1. malloc 0xFFFFFFFF heap0 = Inr (0x100010, h1) \<and> alloced_size 0x100010 h1 = 0"
  using malloc_wraps [of "0xFFFFFFFF" heap0] by (simp add: heap0_def)

end
