(* ===== verification/Stdio.thy ===== *)
theory Stdio
  imports CString
begin

text \<open>
  Formatted output and number parsing of the C library: \<open>vsnprintf\<close> with its helpers \<open>skip_atoi\<close> and
  \<open>number\<close> (\<open>src/lib/common/stdio/vsnprintf.c\<close>), and \<open>strtoll\<close>, \<open>strtol\<close>, \<open>strtoul\<close>, \<open>atoi\<close>
  (\<open>src/lib/common/stdlib/\<close>). A format and a string argument are lists of bytes without the
  terminating zero; the arguments of a variadic call are a list of tagged values. Field widths,
  precisions and the counter of the output are words of 32 bits, the former read as signed numbers, so
  that they wrap around as on the target machine. The text of a floating-point
  number (\<open>float_number\<close>) is a parameter, since \<open>long double\<close> arithmetic is not modelled.
\<close>

subsection \<open>Character classes\<close>

definition isdigit :: "u8 \<Rightarrow> bool" where
  "isdigit c \<longleftrightarrow> 48 \<le> c \<and> c \<le> 57"

definition islower :: "u8 \<Rightarrow> bool" where
  "islower c \<longleftrightarrow> 97 \<le> c \<and> c \<le> 122"

definition isalnum :: "u8 \<Rightarrow> bool" where
  "isalnum c \<longleftrightarrow> islower c \<or> (65 \<le> c \<and> c \<le> 90) \<or> isdigit c"

subsection \<open>Parsing numbers\<close>

fun stdlib_pow :: "u32 \<Rightarrow> nat \<Rightarrow> u64" where
  "stdlib_pow base 0 = 1"
| "stdlib_pow base (Suc e) = stdlib_pow base e * ucast base"

definition digit_of :: "u8 \<Rightarrow> int" where
  "digit_of c = (if isdigit c then uint c - 48 else if islower c then uint c + 10 - 97 else uint c + 10 - 65)"

text \<open>The loop that fills the array \<open>digit\<close>; an access behind its ten elements is \<open>OutOfBounds\<close>.\<close>

fun read_digits :: "int \<Rightarrow> u8 list \<Rightarrow> int list \<Rightarrow> nat \<Rightarrow> nat \<Rightarrow> (int list \<times> nat) outcome" where
  "read_digits base [] digit dpos pos = Inr (digit, pos)"
| "read_digits base (c # cs) digit dpos pos =
     (if isalnum c then
        rbind (aset digit dpos (digit_of c)) (\<lambda>digit.
          if base \<le> digit_of c then rbind (aset digit dpos (- 1)) (\<lambda>digit. Inr (digit, pos))
          else read_digits base cs digit (dpos + 1) (pos + 1))
      else Inr (digit, pos))"

function count_digits :: "int list \<Rightarrow> nat \<Rightarrow> nat outcome" where
  "count_digits digit dpos =
     (if dpos < length digit then
        if 0 \<le> digit ! dpos then count_digits digit (dpos + 1) else Inr dpos
      else Inl OutOfBounds)"
  by pat_completeness auto
termination by (relation "measure (\<lambda>(digit, dpos). length digit - dpos)") auto

declare count_digits.simps [simp del]

definition digits_value :: "u32 \<Rightarrow> int list \<Rightarrow> nat \<Rightarrow> u64" where
  "digits_value base digit digits =
     fold (\<lambda>dpos r. r + stdlib_pow base (digits - (dpos + 1)) * word_of_int (digit ! dpos)) [0..<digits] 0"

text \<open>The result and the position at which parsing stopped.\<close>

definition strtoll :: "u8 list \<Rightarrow> int \<Rightarrow> (int \<times> nat) outcome" where
  "strtoll s base =
     (let sign = (s \<noteq> [] \<and> hd s = 45);
          pos = (if s \<noteq> [] \<and> (hd s = 43 \<or> hd s = 45) then 1 else 0);
          r = drop pos s;
          hex = (length r \<ge> 2 \<and> r ! 0 = 48 \<and> (r ! 1 = 120 \<or> r ! 1 = 88));
          oct = (r \<noteq> [] \<and> r ! 0 = 48);
          dec = (r \<noteq> [] \<and> isdigit (r ! 0))
      in
      if base = 0 \<and> \<not> hex \<and> \<not> oct \<and> \<not> dec then Inr (0, 0)
      else
        let pos = (if base = 0 then if hex then pos + 2 else if oct then pos + 1 else pos else pos);
            base = (if base = 0 then if hex then 16 else if oct then 8 else 10 else base)
        in rbind (read_digits base (drop pos s) (replicate 10 (- 1)) 0 pos) (\<lambda>(digit, pos).
           rbind (count_digits digit 0) (\<lambda>digits.
             let v = digits_value (word_of_int base) digit digits in
             Inr (sint (if sign then - v else v), pos))))"

definition LONG_LIMIT :: int where
  "LONG_LIMIT = 2147483647"

definition ULONG_LIMIT :: int where
  "ULONG_LIMIT = 4294967295"

text \<open>The second component of the results tells whether \<open>errno\<close> is set to \<open>ERANGE\<close>.\<close>

definition strtol :: "u8 list \<Rightarrow> int \<Rightarrow> (int \<times> bool \<times> nat) outcome" where
  "strtol s base =
     rbind (strtoll s base) (\<lambda>(result, pos).
       Inr (if result < - LONG_LIMIT - 1 then (- LONG_LIMIT - 1, True, pos)
            else if LONG_LIMIT < result then (LONG_LIMIT, True, pos)
            else (result, False, pos)))"

definition strtoul :: "u8 list \<Rightarrow> int \<Rightarrow> (int \<times> bool \<times> nat) outcome" where
  "strtoul s base =
     rbind (strtoll s base) (\<lambda>(result, pos).
       Inr (if result < 0 then (0, True, pos)
            else if ULONG_LIMIT < result then (ULONG_LIMIT, True, pos)
            else (result, False, pos)))"

definition atoi :: "u8 list \<Rightarrow> int outcome" where
  "atoi s = rbind (strtol s 10) (\<lambda>(v, _, _). Inr v)"

subsection \<open>Printing numbers\<close>

text \<open>The digits of a number as \<open>number\<close> collects them in \<open>tmp\<close>, least significant first.\<close>

function tmp_digits :: "nat \<Rightarrow> nat \<Rightarrow> nat list" where
  "tmp_digits base num = (if num = 0 \<or> base < 2 then [] else num mod base # tmp_digits base (num div base))"
  by pat_completeness auto
termination by (relation "measure snd") auto

declare tmp_digits.simps [simp del]

text \<open>The character of a digit, in lower case or (flag \<open>0x40\<close>) in upper case.\<close>

definition digit_char :: "u32 \<Rightarrow> nat \<Rightarrow> u8" where
  "digit_char type d =
     (if d < 10 then 48 + of_nat d else if type AND 0x40 \<noteq> 0 then 65 + of_nat (d - 10) else 97 + of_nat (d - 10))"

text \<open>
  The output: the bytes written so far and \<open>osize\<close>, which counts the terminating zero from the start.
  \<open>put\<close> is the statement \<open>if (osize++ < n) *(str++) = c;\<close> that stands at every place where a
  character is put out; \<open>put_times\<close> is a loop around it.
\<close>

type_synonym outbuf = "u8 list \<times> u32"

definition put :: "u32 \<Rightarrow> u8 \<Rightarrow> outbuf \<Rightarrow> outbuf" where
  "put n c = (\<lambda>(out, osize). (if osize < n then out @ [c] else out, osize + 1))"

fun put_times :: "u32 \<Rightarrow> u8 \<Rightarrow> nat \<Rightarrow> outbuf \<Rightarrow> outbuf" where
  "put_times n c 0 st = st"
| "put_times n c (Suc k) st = put_times n c k (put n c st)"

text \<open>The loop \<open>while (size-- > 0) put(c);\<close> leaves \<open>size\<close> at -1 when it has run, else one less than before.\<close>

definition pad_loop :: "u32 \<Rightarrow> u8 \<Rightarrow> u32 \<Rightarrow> outbuf \<Rightarrow> u32 \<times> outbuf" where
  "pad_loop n c sz st = (if 0 < sint sz then - 1 else sz - 1, put_times n c (nat (sint sz)) st)"

text \<open>What \<open>number\<close> works with: the type with the \<open>0\<close> flag dropped for left alignment, the sign (0 for none), the
  number without it, the field width that is left for padding, the precision and the digits.\<close>

definition number_plan :: "u64 \<Rightarrow> nat \<Rightarrow> u32 \<Rightarrow> u32 \<Rightarrow> u32 \<Rightarrow> u32 \<times> u8 \<times> u32 \<times> u32 \<times> u8 list" where
  "number_plan num base sz precision type =
     (let type = (if type AND 0x10 \<noteq> 0 then type AND 0xFE else type);
          neg = (type AND 0x02 \<noteq> 0 \<and> sint num < 0);
          sign = (if type AND 0x02 = 0 then 0
                  else if neg then 45 else if type AND 0x04 \<noteq> 0 then 43
                  else if type AND 0x08 \<noteq> 0 then 32 else 0);
          num = (if neg then - num else num);
          sz = (if sign \<noteq> 0 then sz - 1 else sz);
          sz = (if type AND 0x20 \<noteq> 0 then if base = 16 then sz - 2 else if base = 8 then sz - 1 else sz
                  else sz);
          tmp = (if num = 0 then [48] else map (digit_char type) (tmp_digits base (unat num)));
          precision = (if sint precision < int (length tmp) then of_nat (length tmp) else precision)
      in (type, sign, sz - precision, precision, tmp))"

text \<open>\<open>number\<close>; \<open>None\<close> for a base it refuses, for which it returns NULL.\<close>

definition number :: "u32 \<Rightarrow> u64 \<Rightarrow> nat \<Rightarrow> u32 \<Rightarrow> u32 \<Rightarrow> u32 \<Rightarrow> outbuf \<Rightarrow> outbuf option" where
  "number n num base sz precision type st =
     (if base < 2 \<or> 36 < base then None
      else
        let (type, sign, sz, precision, tmp) = number_plan num base sz precision type;
            c = (if type AND 0x01 \<noteq> 0 then 48 else 32);
            (sz, st) = (if type AND 0x11 = 0 then pad_loop n 32 sz st else (sz, st));
            st = (if sign \<noteq> 0 then put n sign st else st);
            st = (if type AND 0x20 \<noteq> 0 then
                    if base = 8 then put n 48 st
                    else if base = 16 then put n (digit_char type 33) (put n 48 st) else st
                  else st);
            (sz, st) = (if type AND 0x10 = 0 then pad_loop n c sz st else (sz, st));
            st = put_times n 48 (nat (sint precision - int (length tmp))) st;
            st = fold (put n) (rev tmp) st;
            (_, st) = pad_loop n 32 sz st
        in Some st)"

fun skip_atoi :: "u8 list \<Rightarrow> u32 \<Rightarrow> u32 \<times> u8 list" where
  "skip_atoi [] i = (i, [])"
| "skip_atoi (c # cs) i = (if isdigit c then skip_atoi cs (i * 10 + ucast c - 48) else (i, c # cs))"

subsection \<open>\<open>vsnprintf\<close>\<close>

text \<open>The arguments: a 32 bit integer or pointer, a 64 bit integer, a string (\<open>None\<close> is NULL) and a
  floating-point number, which is opaque.\<close>

datatype 'f varg = VInt u32 | VLong u64 | VStr "u8 list option" | VFloat 'f

fun parse_flags :: "u8 list \<Rightarrow> u32 \<Rightarrow> u32 \<times> u8 list" where
  "parse_flags [] flags = (flags, [])"
| "parse_flags (c # cs) flags =
     (if c = 45 then parse_flags cs (flags OR 0x10)
      else if c = 43 then parse_flags cs (flags OR 0x04)
      else if c = 32 then parse_flags cs (flags OR 0x08)
      else if c = 35 then parse_flags cs (flags OR 0x20)
      else if c = 48 then parse_flags cs (flags OR 0x01)
      else (flags, c # cs))"

text \<open>A missing argument or one of another type is read from outside the argument list.\<close>

fun arg_int :: "'f varg list \<Rightarrow> (u32 \<times> 'f varg list) outcome" where
  "arg_int (VInt x # as) = Inr (x, as)"
| "arg_int as = Inl OutOfBounds"

fun arg_long :: "'f varg list \<Rightarrow> (u64 \<times> 'f varg list) outcome" where
  "arg_long (VLong x # as) = Inr (x, as)"
| "arg_long as = Inl OutOfBounds"

fun arg_str :: "'f varg list \<Rightarrow> (u8 list option \<times> 'f varg list) outcome" where
  "arg_str (VStr x # as) = Inr (x, as)"
| "arg_str as = Inl OutOfBounds"

fun arg_float :: "'f varg list \<Rightarrow> ('f \<times> 'f varg list) outcome" where
  "arg_float (VFloat x # as) = Inr (x, as)"
| "arg_float as = Inl OutOfBounds"

definition parse_width :: "u8 list \<Rightarrow> 'f varg list \<Rightarrow> u32 \<Rightarrow> (u32 \<times> u32 \<times> u8 list \<times> 'f varg list) outcome" where
  "parse_width fmt as flags =
     (if fmt \<noteq> [] \<and> isdigit (hd fmt) then
        let (w, fmt) = skip_atoi fmt 0 in Inr (w, flags, fmt, as)
      else if fmt \<noteq> [] \<and> hd fmt = 42 then
        rbind (arg_int as) (\<lambda>(w, as).
          if sint w < 0 then Inr (- w, flags OR 0x10, tl fmt, as) else Inr (w, flags, tl fmt, as))
      else Inr (- 1, flags, fmt, as))"

definition parse_precision :: "u8 list \<Rightarrow> 'f varg list \<Rightarrow> (u32 \<times> u8 list \<times> 'f varg list) outcome" where
  "parse_precision fmt as =
     (if fmt \<noteq> [] \<and> hd fmt = 46 then
        let fmt = tl fmt in
        if fmt \<noteq> [] \<and> isdigit (hd fmt) then
          let (p, fmt) = skip_atoi fmt 0 in Inr (if sint p < 0 then 0 else p, fmt, as)
        else if fmt \<noteq> [] \<and> hd fmt = 42 then
          rbind (arg_int as) (\<lambda>(p, as). Inr (if sint p < 0 then 0 else p, tl fmt, as))
        else Inr (0, fmt, as)
      else Inr (- 1, fmt, as))"

text \<open>The length modifier: 0 for none, else \<open>h\<close>, \<open>l\<close>, \<open>L\<close> or (for \<open>ll\<close> and \<open>LL\<close>) \<open>#\<close>.\<close>

definition parse_qualifier :: "u8 list \<Rightarrow> u8 \<times> u8 list" where
  "parse_qualifier fmt =
     (if fmt \<noteq> [] \<and> (hd fmt = 104 \<or> hd fmt = 108 \<or> hd fmt = 76) then
        let q = hd fmt; fmt = tl fmt in
        if fmt \<noteq> [] \<and> (q = 108 \<and> hd fmt = 108 \<or> q = 76 \<and> hd fmt = 76) then (35, tl fmt) else (q, fmt)
      else (0, fmt))"

definition fetch_num :: "u8 \<Rightarrow> u32 \<Rightarrow> 'f varg list \<Rightarrow> (u64 \<times> 'f varg list) outcome" where
  "fetch_num qualifier flags as =
     (if qualifier = 35 then arg_long as
      else
        rbind (arg_int as) (\<lambda>(x, as).
          Inr (if qualifier = 108 then ucast x
               else if qualifier = 104 then ucast (x AND 0xFFFF)
               else if flags AND 0x02 \<noteq> 0 then scast x else ucast x, as)))"

text \<open>The case \<open>c\<close>. Its loops are \<open>while (--field_width > 0) put(' ');\<close>.\<close>

definition predec_loop :: "u32 \<Rightarrow> u32 \<Rightarrow> outbuf \<Rightarrow> u32 \<times> outbuf" where
  "predec_loop n width st =
     (if 0 < sint (width - 1) then 0 else width - 1, put_times n 32 (nat (sint (width - 1))) st)"

definition pad_char :: "u32 \<Rightarrow> u32 \<Rightarrow> u32 \<Rightarrow> u8 \<Rightarrow> outbuf \<Rightarrow> outbuf" where
  "pad_char n flags width c st =
     (let (width, st) = (if flags AND 0x01 = 0 then predec_loop n width st else (width, st));
          st = put n c st;
          (_, st) = predec_loop n width st
      in st)"

text \<open>The case \<open>s\<close>, whose loops are \<open>while (len < field_width--) put(' ');\<close>. The precision -1 is the largest \<open>size_t\<close>
  for \<open>strnlen\<close>.\<close>

definition string_loop :: "u32 \<Rightarrow> u32 \<Rightarrow> u32 \<Rightarrow> outbuf \<Rightarrow> u32 \<times> outbuf" where
  "string_loop n len width st =
     (if sint len < sint width then len - 1 else width - 1, put_times n 32 (nat (sint width - sint len)) st)"

definition string_arg :: "u8 list option \<Rightarrow> u8 list" where
  "string_arg so = (case so of None \<Rightarrow> [60, 78, 85, 76, 76, 62] | Some s \<Rightarrow> s)"

definition pad_string :: "u32 \<Rightarrow> u32 \<Rightarrow> u32 \<Rightarrow> u32 \<Rightarrow> u8 list option \<Rightarrow> outbuf \<Rightarrow> outbuf" where
  "pad_string n flags width precision so st =
     (let s = string_arg so;
          len = of_nat (min (length s) (unat precision)) :: u32;
          (width, st) = (if flags AND 0x10 = 0 then string_loop n len width st else (width, st));
          st = fold (put n) (take (nat (sint len)) s) st;
          (_, st) = string_loop n len width st
      in st)"

text \<open>The conversions of integers: flags, base, width, modifier and whether it is \<open>p\<close> or \<open>P\<close>, which put a prefix out.\<close>

definition int_conversion :: "u8 \<Rightarrow> u32 \<Rightarrow> u32 \<Rightarrow> u8 \<Rightarrow> (u32 \<times> nat \<times> u32 \<times> u8 \<times> bool) option" where
  "int_conversion ch flags width q =
     (if ch = 80 \<or> ch = 112 then
        let (width, flags, q) =
              (if ch = 80 then (if width = - 1 then (16, flags OR 0x01, 35) else (width, flags, 35))
               else (width, flags, q));
            (width, flags) = (if width = - 1 then (8, flags OR 0x01) else (width, flags));
            q = (if q = 0 then 108 else q)
        in Some (flags OR 0x40, 16, width, q, True)
      else if ch = 111 then Some (flags, 8, width, q, False)
      else if ch = 88 then Some (flags OR 0x40, 16, width, q, False)
      else if ch = 120 then Some (flags, 16, width, q, False)
      else if ch = 100 \<or> ch = 105 then Some (flags OR 0x02, 10, width, q, False)
      else if ch = 117 then Some (flags, 10, width, q, False)
      else None)"

definition float_flags :: "u8 \<Rightarrow> u32 option" where
  "float_flags ch =
     (if ch = 69 then Some 0x600 else if ch = 101 then Some 0x200 else if ch = 70 then Some 0x500
      else if ch = 102 then Some 0x100 else if ch = 71 then Some 0x700 else if ch = 103 then Some 0x300
      else None)"

text \<open>
  One directive, entered behind its \<open>%\<close>: the output after it, the rest of the format and of
  the arguments, and for \<open>n\<close> the pointer to store the position at.
\<close>

definition directive ::
    "('f \<Rightarrow> int \<Rightarrow> u32 \<Rightarrow> u8 list) \<Rightarrow> u32 \<Rightarrow> u8 list \<Rightarrow> 'f varg list \<Rightarrow> outbuf
       \<Rightarrow> (outbuf \<times> u8 list \<times> 'f varg list \<times> u32 option) outcome" where
  "directive ff n fmt as st =
     (let (flags, fmt) = parse_flags fmt 0 in
      rbind (parse_width fmt as flags) (\<lambda>(width, flags, fmt, as).
      rbind (parse_precision fmt as) (\<lambda>(precision, fmt, as).
        let (q, fmt) = parse_qualifier fmt in
        case fmt of
          [] \<Rightarrow> Inr (put n 37 st, [], as, None)
        | ch # rest \<Rightarrow>
            if ch = 99 then rbind (arg_int as) (\<lambda>(x, as). Inr (pad_char n flags width (ucast x) st, rest, as, None))
            else if ch = 115 then
              rbind (arg_str as) (\<lambda>(s, as). Inr (pad_string n flags width precision s st, rest, as, None))
            else if ch = 110 then rbind (arg_int as) (\<lambda>(ip, as). Inr (st, rest, as, Some ip))
            else
              (case int_conversion ch flags width q of
                 Some (flags, base, width, q, pointer) \<Rightarrow>
                   let st = (if pointer then put n 120 (put n 48 st) else st) in
                   rbind (fetch_num q flags as) (\<lambda>(num, as).
                     case number n num base width precision flags st of
                       None \<Rightarrow> Inl BadPointer
                     | Some st \<Rightarrow> Inr (st, rest, as, None))
               | None \<Rightarrow>
                   (case float_flags ch of
                      Some fl \<Rightarrow>
                        rbind (arg_float as) (\<lambda>(x, as).
                          Inr (fold (put n) (ff x (if fl AND 0x300 = 0x300 \<and> precision = 0 then 1 else sint precision)
                                 (flags OR fl)) st, rest, as, None))
                    | None \<Rightarrow> Inr (put n ch (if ch \<noteq> 37 then put n 37 st else st), rest, as, None))))))"

lemma skip_atoi_length: "length (snd (skip_atoi cs i)) \<le> length cs"
  by (induction cs i rule: skip_atoi.induct) auto

lemma parse_flags_length: "length (snd (parse_flags cs f)) \<le> length cs"
  by (induction cs f rule: parse_flags.induct) auto

lemma parse_width_length:
  "parse_width fmt as fl = Inr (w, fl1, fmt1, as1) \<Longrightarrow> length fmt1 \<le> length fmt"
  using skip_atoi_length [of fmt 0]
  by (auto simp: parse_width_def outcome_simps split: if_splits prod.splits)

lemma parse_precision_length:
  "parse_precision fmt as = Inr (w, fmt1, as1) \<Longrightarrow> length fmt1 \<le> length fmt"
  using skip_atoi_length [of "tl fmt" 0]
  by (auto simp: parse_precision_def Let_def outcome_simps split: if_splits prod.splits)

lemma parse_qualifier_length: "length (snd (parse_qualifier fmt)) \<le> length fmt"
  by (auto simp: parse_qualifier_def Let_def)

lemma directive_length:
  assumes "directive ff n fmt as st = Inr (st', rest, as1, np)"
  shows "length rest \<le> length fmt"
proof -
  obtain fl fmt1 where 1: "parse_flags fmt 0 = (fl, fmt1)" by (cases "parse_flags fmt 0")
  obtain w fl2 fmt2 as2 where 2: "parse_width fmt1 as fl = Inr (w, fl2, fmt2, as2)"
    using assms by (auto simp: directive_def 1 outcome_simps)
  obtain pr fmt3 as3 where 3: "parse_precision fmt2 as2 = Inr (pr, fmt3, as3)"
    using assms by (auto simp: directive_def 1 2 outcome_simps)
  obtain q fmt4 where 4: "parse_qualifier fmt3 = (q, fmt4)" by (cases "parse_qualifier fmt3")
  have "length rest \<le> length fmt4"
    using assms
    by (auto simp: directive_def 1 2 3 4 outcome_simps Let_def split: list.splits if_splits option.splits)
  also have "\<dots> \<le> length fmt3" using parse_qualifier_length [of fmt3] by (simp add: 4)
  also have "\<dots> \<le> length fmt2" by (rule parse_precision_length [OF 3])
  also have "\<dots> \<le> length fmt1" by (rule parse_width_length [OF 2])
  also have "\<dots> \<le> length fmt" using parse_flags_length [of fmt 0] by (simp add: 1)
  finally show ?thesis .
qed

text \<open>The main loop; the last component collects the stores of the \<open>n\<close> directives.\<close>

function format_loop ::
    "('f \<Rightarrow> int \<Rightarrow> u32 \<Rightarrow> u8 list) \<Rightarrow> u32 \<Rightarrow> u8 list \<Rightarrow> 'f varg list \<Rightarrow> outbuf
       \<Rightarrow> (u32 \<times> nat) list \<Rightarrow> (outbuf \<times> (u32 \<times> nat) list) outcome" where
  "format_loop ff n [] as st ns = Inr (st, ns)"
| "format_loop ff n (c # fmt) as st ns =
     (if c \<noteq> 37 then format_loop ff n fmt as (put n c st) ns
      else
        rbind (directive ff n fmt as st) (\<lambda>(st, rest, as, np).
          let ns = (case np of None \<Rightarrow> ns | Some ip \<Rightarrow> ns @ [(ip, length (fst st))])
          in format_loop ff n rest as st ns))"
  by pat_completeness auto
termination
  by (relation "measure (\<lambda>(ff, n, fmt, as, st, ns). length fmt)") (auto dest!: directive_length)

text \<open>The bytes written from the start of the buffer on, whether a zero is written behind them, the result and the
  stores of the \<open>n\<close> directives.\<close>

record vs_result =
  vs_bytes :: "u8 list"
  vs_nul :: bool
  vs_ret :: int
  vs_stores :: "(u32 \<times> nat) list"

definition vsnprintf ::
    "('f \<Rightarrow> int \<Rightarrow> u32 \<Rightarrow> u8 list) \<Rightarrow> u32 \<Rightarrow> u8 list option \<Rightarrow> 'f varg list \<Rightarrow> vs_result outcome" where
  "vsnprintf ff n format as =
     (let fmt = (case format of None \<Rightarrow> [60, 78, 85, 76, 76, 62] | Some f \<Rightarrow> f) in
      rbind (format_loop ff n fmt as ([], 1) []) (\<lambda>((out, osize), ns).
        let osize = osize - 1 in
        Inr \<lparr>vs_bytes = out, vs_nul = (osize \<le> n), vs_ret = sint osize, vs_stores = ns\<rparr>))"

section \<open>What \<open>vsnprintf\<close> writes\<close>

text \<open>The text of a number, a character, a string and a directive, without any limit on its length.\<close>

text \<open>A loop that pads contributes its characters and changes the counter that the loops of a directive share.\<close>

definition pad_left :: "u32 \<Rightarrow> u32" where "pad_left sz = (if 0 < sint sz then - 1 else sz - 1)"
definition predec_left :: "u32 \<Rightarrow> u32" where "predec_left w = (if 0 < sint (w - 1) then 0 else w - 1)"
definition string_left :: "u32 \<Rightarrow> u32 \<Rightarrow> u32" where "string_left len w = (if sint len < sint w then len - 1 else w - 1)"

definition number_text :: "u64 \<Rightarrow> nat \<Rightarrow> u32 \<Rightarrow> u32 \<Rightarrow> u32 \<Rightarrow> u8 list option" where
  "number_text num base sz precision type =
     (if base < 2 \<or> 36 < base then None
      else
        let (type, sign, sz, precision, tmp) = number_plan num base sz precision type;
            lead = (if type AND 0x11 = 0 then replicate (nat (sint sz)) 32 else []);
            sz = (if type AND 0x11 = 0 then pad_left sz else sz);
            prefix = (if sign \<noteq> 0 then [sign] else []) @
              (if type AND 0x20 = 0 then [] else if base = 8 then [48] else if base = 16 then [48, digit_char type 33] else []);
            fill = (if type AND 0x10 = 0 then replicate (nat (sint sz)) (if type AND 0x01 \<noteq> 0 then 48 else 32) else []);
            sz = (if type AND 0x10 = 0 then pad_left sz else sz);
            zeros = replicate (nat (sint precision - int (length tmp))) 48
        in Some (lead @ prefix @ fill @ zeros @ rev tmp @ replicate (nat (sint sz)) 32))"

definition char_text :: "u32 \<Rightarrow> u32 \<Rightarrow> u8 \<Rightarrow> u8 list" where
  "char_text flags width c =
     (let lead = (if flags AND 0x01 = 0 then replicate (nat (sint (width - 1))) 32 else []);
          width = (if flags AND 0x01 = 0 then predec_left width else width)
      in lead @ [c] @ replicate (nat (sint (width - 1))) 32)"

definition string_text :: "u32 \<Rightarrow> u32 \<Rightarrow> u32 \<Rightarrow> u8 list option \<Rightarrow> u8 list" where
  "string_text flags width precision so =
     (let s = string_arg so; len = of_nat (min (length s) (unat precision)) :: u32;
          lead = (if flags AND 0x10 = 0 then replicate (nat (sint width - sint len)) 32 else []);
          width = (if flags AND 0x10 = 0 then string_left len width else width)
      in lead @ take (nat (sint len)) s @ replicate (nat (sint width - sint len)) 32)"

definition directive_text ::
    "('f \<Rightarrow> int \<Rightarrow> u32 \<Rightarrow> u8 list) \<Rightarrow> u8 list \<Rightarrow> 'f varg list
       \<Rightarrow> (u8 list \<times> u8 list \<times> 'f varg list \<times> u32 option) outcome" where
  "directive_text ff fmt as =
     (let (flags, fmt) = parse_flags fmt 0 in
      rbind (parse_width fmt as flags) (\<lambda>(width, flags, fmt, as).
      rbind (parse_precision fmt as) (\<lambda>(precision, fmt, as).
        let (q, fmt) = parse_qualifier fmt in
        case fmt of
          [] \<Rightarrow> Inr ([37], [], as, None)
        | ch # rest \<Rightarrow>
            if ch = 99 then rbind (arg_int as) (\<lambda>(x, as). Inr (char_text flags width (ucast x), rest, as, None))
            else if ch = 115 then
              rbind (arg_str as) (\<lambda>(s, as). Inr (string_text flags width precision s, rest, as, None))
            else if ch = 110 then rbind (arg_int as) (\<lambda>(ip, as). Inr ([], rest, as, Some ip))
            else
              (case int_conversion ch flags width q of
                 Some (flags, base, width, q, pointer) \<Rightarrow>
                   rbind (fetch_num q flags as) (\<lambda>(num, as).
                     case number_text num base width precision flags of
                       None \<Rightarrow> Inl BadPointer
                     | Some cs \<Rightarrow> Inr ((if pointer then [48, 120] else []) @ cs, rest, as, None))
               | None \<Rightarrow>
                   (case float_flags ch of
                      Some fl \<Rightarrow>
                        rbind (arg_float as) (\<lambda>(x, as).
                          Inr (ff x (if fl AND 0x300 = 0x300 \<and> precision = 0 then 1 else sint precision) (flags OR fl),
                               rest, as, None))
                    | None \<Rightarrow> Inr ((if ch \<noteq> 37 then [37] else []) @ [ch], rest, as, None))))))"

text \<open>Every piece of \<open>vsnprintf\<close> puts out exactly its text, each character through the test of the limit.\<close>

definition puts :: "u32 \<Rightarrow> u8 list \<Rightarrow> outbuf \<Rightarrow> outbuf" where
  "puts n cs st = fold (put n) cs st"

lemma puts_simps [simp]: "puts n [] st = st" "puts n (c # cs) st = puts n cs (put n c st)"
  "puts n (cs @ ds) st = puts n ds (puts n cs st)"
  by (simp_all add: puts_def)

lemma fold_put [simp]: "fold (put n) cs st = puts n cs st"
  by (simp add: puts_def)

lemma put_times_puts: "put_times n c k st = puts n (replicate k c) st"
  by (induction k arbitrary: st) simp_all

lemma loops_puts:
  "pad_loop n c sz st = (pad_left sz, puts n (replicate (nat (sint sz)) c) st)"
  "predec_loop n w st = (predec_left w, puts n (replicate (nat (sint (w - 1))) 32) st)"
  "string_loop n len w st = (string_left len w, puts n (replicate (nat (sint w - sint len)) 32) st)"
  by (simp_all add: pad_loop_def predec_loop_def string_loop_def pad_left_def predec_left_def string_left_def put_times_puts)

lemma number_puts: "number n num base sz precision type st = map_option (\<lambda>cs. puts n cs st) (number_text num base sz precision type)"
proof -
  obtain ty sign z p tmp where plan: "number_plan num base sz precision type = (ty, sign, z, p, tmp)" by (metis prod_cases5)
  show ?thesis unfolding number_def number_text_def plan Let_def
    by (simp add: loops_puts put_times_puts cong del: if_weak_cong)
qed

lemma pad_char_puts: "pad_char n flags width c st = puts n (char_text flags width c) st"
  by (simp add: pad_char_def char_text_def loops_puts Let_def)

lemma pad_string_puts: "pad_string n flags width precision so st = puts n (string_text flags width precision so) st"
  by (simp add: pad_string_def string_text_def loops_puts Let_def)

lemma directive_puts:
  "directive ff n fmt as st =
   rbind (directive_text ff fmt as) (\<lambda>(cs, rest, as, np). Inr (puts n cs st, rest, as, np))"
proof -
  obtain fl fmt1 where 1: "parse_flags fmt 0 = (fl, fmt1)" by (cases "parse_flags fmt 0")
  show ?thesis
  proof (cases "parse_width fmt1 as fl")
    case (Inl e)
    then show ?thesis by (simp add: directive_def directive_text_def 1)
  next
    case (Inr r)
    obtain w fl2 fmt2 as2 where 2: "parse_width fmt1 as fl = Inr (w, fl2, fmt2, as2)" using Inr by (cases r) auto
    show ?thesis
    proof (cases "parse_precision fmt2 as2")
      case (Inl e)
      then show ?thesis by (simp add: directive_def directive_text_def 1 2)
    next
      case (Inr r)
      obtain pr fmt3 as3 where 3: "parse_precision fmt2 as2 = Inr (pr, fmt3, as3)" using Inr by (cases r) auto
      obtain q fmt4 where 4: "parse_qualifier fmt3 = (q, fmt4)" by (cases "parse_qualifier fmt3")
      show ?thesis
        unfolding directive_def directive_text_def 1 prod.case Let_def 2 3 4 rbind_simps
        by (auto simp: pad_char_puts pad_string_puts number_puts rbind_def split: list.split option.split sum.split)
    qed
  qed
qed

text \<open>The text a format stands for.\<close>

lemma directive_text_length:
  assumes "directive_text ff fmt as = Inr (cs, rest, as1, np)"
  shows "length rest \<le> length fmt"
  using directive_length [of ff 0 fmt "as" "([], 0)" _ rest as1 np] assms by (simp add: directive_puts)

function format_text ::
    "('f \<Rightarrow> int \<Rightarrow> u32 \<Rightarrow> u8 list) \<Rightarrow> u8 list \<Rightarrow> 'f varg list \<Rightarrow> u8 list outcome" where
  "format_text ff [] as = Inr []"
| "format_text ff (c # fmt) as =
     (if c \<noteq> 37 then rbind (format_text ff fmt as) (\<lambda>text. Inr (c # text))
      else
        rbind (directive_text ff fmt as) (\<lambda>(cs, rest, as, np).
          rbind (format_text ff rest as) (\<lambda>text. Inr (cs @ text))))"
  by pat_completeness auto
termination
  by (relation "measure (\<lambda>(ff, fmt, as). length fmt)") (auto dest!: directive_text_length)

lemma format_loop_puts:
  "rbind (format_loop ff n fmt as st ns) (\<lambda>(st, ns). Inr st) =
   rbind (format_text ff fmt as) (\<lambda>body. Inr (puts n body st))"
proof (induction ff fmt "as" arbitrary: st ns rule: format_text.induct)
  case (1 ff as0)
  show ?case by simp
next
  case (2 ff c fmt "as")
  show ?case
  proof (cases "c = 37")
    case False
    then show ?thesis using "2.IH"(1) [OF False] by (simp add: rbind_assoc)
  next
    case True
    show ?thesis
    proof (cases "directive_text ff fmt as")
      case (Inr r)
      obtain cs rest as1 np where r: "r = (cs, rest, as1, np)" by (cases r)
      have "rbind (format_loop ff n rest as1 (puts n cs st) ns1) (\<lambda>(st, ns). Inr st) =
          rbind (format_text ff rest as1) (\<lambda>body. Inr (puts n body (puts n cs st)))" for ns1
        by (rule "2.IH"(2)) (use True Inr r in auto)
      then show ?thesis
        using True Inr by (simp add: r directive_puts rbind_assoc Let_def)
    qed (use True in \<open>simp add: directive_puts\<close>)
  qed
qed

text \<open>The state of the output after \<open>body\<close>, as long as the counter has not wrapped around.\<close>

lemma sint_of_int32: "- (2 ^ 31) \<le> i \<Longrightarrow> i < 2 ^ 31 \<Longrightarrow> sint (word_of_int i :: u32) = i"
  by (subst sint_sbintrunc') (simp add: signed_take_bit_int_eq_self)

lemma puts_from_start:
  assumes "length body < 2 ^ 32 - 1"
  shows "puts n body ([], 1) = (take (unat n - 1) body, of_nat (Suc (length body)))"
  using assms
proof (induction body rule: rev_induct)
  case (snoc c body)
  have "unat (of_nat (Suc (length body)) :: u32) = Suc (length body)" using snoc.prems by (intro unat_of_nat32) simp
  then have "of_nat (Suc (length body)) < n \<longleftrightarrow> length body < unat n - 1" by (auto simp: word_less_nat_alt simp del: of_nat_Suc)
  moreover have "of_nat (Suc (length body)) + 1 = (of_nat (Suc (Suc (length body))) :: u32)" by simp
  ultimately show ?case using snoc by (auto simp: put_def simp del: of_nat_Suc)
qed simp

lemma vsnprintf_text:
  assumes "format_text ff fmt as = Inr body" "length body < 2 ^ 31"
  shows "\<exists>ns. vsnprintf ff n (Some fmt) as =
    Inr \<lparr>vs_bytes = take (unat n - 1) body, vs_nul = (length body \<le> unat n), vs_ret = int (length body), vs_stores = ns\<rparr>"
proof -
  obtain ns where l: "format_loop ff n fmt as ([], 1) [] = Inr ((take (unat n - 1) body, of_nat (Suc (length body))), ns)"
    using format_loop_puts [of ff n fmt "as" "([], 1)" "[]"] assms(1) puts_from_start [of body n] assms(2)
    by (auto simp: rbind_Inr_iff)
  have u: "unat (of_nat (length body) :: u32) = length body" using assms(2) by (intro unat_of_nat32) simp
  show ?thesis using l u sint_of_int32 [of "int (length body)"] assms(2) by (simp add: vsnprintf_def word_le_nat_alt)
qed




text \<open>The counter wraps around at \<open>2 ^ 32\<close>: of a text that is longer, the characters from there on are written behind the
  \<open>n - 1\<close> that have been written, outside the buffer.\<close>

lemma puts_wrapped:
  assumes "length rest \<le> unat n"
  shows "puts n rest (out, 0) = (out @ rest, of_nat (length rest))"
  using assms
proof (induction rest rule: rev_induct)
  case (snoc c rest)
  then have "unat (of_nat (length rest) :: u32) = length rest"
    using unsigned_less [of n, where ?'a = nat] by (intro unat_of_nat32) simp
  then have "of_nat (length rest) < n" using snoc.prems by (simp add: word_less_nat_alt)
  with snoc show ?case by (simp add: put_def)
qed simp

lemma vsnprintf_overruns:
  assumes "format_text ff fmt as = Inr (body @ rest)" "length body = 2 ^ 32 - 1" "2 \<le> length rest" "length rest \<le> unat n"
  shows "\<exists>r. vsnprintf ff n (Some fmt) as = Inr r \<and> unat n < length (vs_bytes r)"
proof -
  obtain c b where b: "body = b @ [c]" using assms(2) by (cases body rule: rev_cases) auto
  have lb: "length b = 2 ^ 32 - 2" using assms(2) b by simp
  have n: "unat n < 2 ^ 32" using unsigned_less [of n, where ?'a = nat] by simp
  have not_more: "\<not> (4294967295 :: u32) < n" using n by (simp add: word_less_nat_alt)
  have "of_nat (Suc (length b)) = (- 1 :: u32)" unfolding lb by simp
  then have "puts n body ([], 1) = (take (unat n - 1) b, 0)"
    using puts_from_start [of b n] lb not_more by (simp add: b put_def del: of_nat_Suc)
  then have "puts n (body @ rest) ([], 1) = (take (unat n - 1) b @ rest, of_nat (length rest))"
    using puts_wrapped [OF assms(4)] by simp
  then obtain ns where "format_loop ff n fmt as ([], 1) [] = Inr ((take (unat n - 1) b @ rest, of_nat (length rest)), ns)"
    using format_loop_puts [of ff n fmt "as" "([], 1)" "[]"] assms(1) by (auto simp: rbind_Inr_iff)
  then show ?thesis using lb n assms(3) by (auto simp: vsnprintf_def Let_def min_def)
qed

text \<open>The text of an integer directive in the usual cases: blanks, zeros or nothing in front, blanks behind when aligned
  to the left. A loop that has run, or had nothing to do, leaves nothing for the next.\<close>

lemma pad_left_done:
  assumes "- (2 ^ 31) < sint sz"
  shows "sint (pad_left sz) \<le> 0" "min (sint sz) 0 - 1 \<le> sint (pad_left sz)"
proof -
  have "sz - 1 = word_of_int (sint sz - 1)" by simp
  moreover have "sint sz < 2 ^ 31" using sint_lt [of sz] by simp
  ultimately have "sint (sz - 1) = sint sz - 1" using sint_of_int32 [of "sint sz - 1"] assms by simp
  then show "sint (pad_left sz) \<le> 0" "min (sint sz) 0 - 1 \<le> sint (pad_left sz)"
    by (simp_all add: pad_left_def)
qed

lemma number_text_cases:
  assumes "2 \<le> base" "base \<le> 36" "number_plan num base w p type = (ty, sign, sz, pr, tmp)" "- (2 ^ 31) + 1 < sint sz"
  defines "digits \<equiv> replicate (nat (sint pr - int (length tmp))) 48 @ rev tmp"
    and "front \<equiv> (if sign \<noteq> 0 then [sign] else []) @
      (if ty AND 0x20 = 0 then [] else if base = 8 then [48] else if base = 16 then [48, digit_char ty 33] else [])"
  shows "number_text num base w p type =
    Some (if ty AND 0x10 \<noteq> 0 then front @ digits @ replicate (nat (sint sz)) 32
          else if ty AND 0x01 \<noteq> 0 then front @ replicate (nat (sint sz)) 48 @ digits
          else replicate (nat (sint sz)) 32 @ front @ digits)"
proof -
  have "ty AND (0x10 OR 0x01) = 0 \<longleftrightarrow> ty AND 0x10 = 0 \<and> ty AND 0x01 = 0"
    unfolding bit.conj_disj_distrib by (simp only: or_eq_0_iff)
  then have flags: "ty AND 0x11 = 0 \<longleftrightarrow> ty AND 0x10 = 0 \<and> ty AND 0x01 = 0" by simp
  have 1: "sint (pad_left sz) \<le> 0" "- (2 ^ 31) < sint (pad_left sz)"
    using pad_left_done [of sz] assms(4) by auto
  then have "nat (sint (pad_left sz)) = 0" "nat (sint (pad_left (pad_left sz))) = 0"
    using pad_left_done(1) [OF 1(2)] by simp_all
  then show ?thesis using assms(1,2) unfolding number_text_def assms(3) digits_def front_def
    by (simp add: flags Let_def)
qed

section \<open>Numbers\<close>

primrec digits_val :: "nat list \<Rightarrow> nat" where
  "digits_val [] = 0"
| "digits_val (d # ds) = d + 10 * digits_val ds"

lemma digits_val_snoc: "digits_val (ds @ [d]) = digits_val ds + 10 ^ length ds * d"
  by (induction ds) (simp_all add: algebra_simps)

lemma tmp_digits_0 [simp]: "tmp_digits b 0 = []"
  by (simp add: tmp_digits.simps)

lemma digits_val_tmp: "digits_val (tmp_digits 10 n) = n"
proof (induction "10 :: nat" n rule: tmp_digits.induct)
  case (1 n)
  then show ?case by (cases "n = 0") (simp_all add: tmp_digits.simps [of 10 n])
qed

lemma tmp_digits_small: "set (tmp_digits 10 n) \<subseteq> {..<10}"
proof (induction "10 :: nat" n rule: tmp_digits.induct)
  case (1 n)
  then show ?case by (cases "n = 0") (simp_all add: tmp_digits.simps [of 10 n])
qed

lemma tmp_digits_length: "n < 10 ^ k \<Longrightarrow> length (tmp_digits 10 n) \<le> k"
proof (induction k arbitrary: n)
  case 0
  then show ?case by (simp add: tmp_digits.simps)
next
  case (Suc k)
  then have "n div 10 < 10 ^ k" by (simp add: less_mult_imp_div_less)
  then show ?case using Suc.IH by (cases "n = 0") (simp_all add: tmp_digits.simps [of 10 n])
qed

text \<open>The decimal digits of a number, most significant first, as bytes.\<close>

definition dec_digits :: "nat \<Rightarrow> nat list" where
  "dec_digits n = (if n = 0 then [0] else rev (tmp_digits 10 n))"

abbreviation dchar :: "nat \<Rightarrow> u8" where
  "dchar d \<equiv> 48 + of_nat d"

lemma dec_digits_facts:
  "n < 10 ^ 9 \<Longrightarrow> length (dec_digits n) \<le> 9" "set (dec_digits n) \<subseteq> {..<10}" "dec_digits n \<noteq> []"
  "digits_val (rev (dec_digits n)) = n"
  using tmp_digits_length [of n 9] tmp_digits_small [of n] digits_val_tmp [of n]
  by (auto simp: dec_digits_def tmp_digits.simps [of 10 n])

lemma dchar_cases: "d < 10 \<Longrightarrow> d = 0 \<or> d = 1 \<or> d = 2 \<or> d = 3 \<or> d = 4 \<or> d = 5 \<or> d = 6 \<or> d = 7 \<or> d = 8 \<or> d = (9 :: nat)"
  by presburger

lemma dchar_facts:
  assumes "d < 10"
  shows "isdigit (dchar d)" "isalnum (dchar d)" "digit_of (dchar d) = int d" "dchar d \<noteq> 43" "dchar d \<noteq> 45"
    "digit_char 2 d = dchar d"
  using dchar_cases [OF assms] by (elim disjE; simp add: isdigit_def isalnum_def digit_of_def digit_char_def)+

lemma read_digits_dec:
  assumes "set ds \<subseteq> {..<10}" "length pre + length ds \<le> length pre + length post"
  shows "read_digits 10 (map dchar ds) (pre @ post) (length pre) pos =
         Inr (pre @ map int ds @ drop (length ds) post, pos + length ds)"
  using assms
proof (induction ds arbitrary: pre post pos)
  case (Cons d ds)
  then obtain y post1 where post: "post = y # post1" by (cases post) auto
  have d: "d < 10" using Cons.prems(1) by simp
  have "(pre @ y # post1)[length pre := int d] = (pre @ [int d]) @ post1" by simp
  moreover have "read_digits 10 (map dchar ds) ((pre @ [int d]) @ post1) (length (pre @ [int d])) (pos + 1) =
      Inr ((pre @ [int d]) @ map int ds @ drop (length ds) post1, pos + 1 + length ds)"
    by (rule Cons.IH) (use Cons.prems post in auto)
  ultimately show ?case using d by (simp add: post dchar_facts)
qed simp

lemma read_digits_over:
  assumes "set ds \<subseteq> {..<10}" "length post < length ds"
  shows "read_digits 10 (map dchar ds) (pre @ post) (length pre) pos = Inl OutOfBounds"
  using assms
proof (induction ds arbitrary: pre post pos)
  case (Cons d ds)
  have d: "d < 10" using Cons.prems(1) by simp
  show ?case
  proof (cases post)
    case Nil
    then show ?thesis using d by (simp add: dchar_facts)
  next
    case (Cons y post1)
    have "(pre @ y # post1)[length pre := int d] = (pre @ [int d]) @ post1" by simp
    moreover have "read_digits 10 (map dchar ds) ((pre @ [int d]) @ post1) (length (pre @ [int d])) (pos + 1) =
        Inl OutOfBounds"
      by (rule Cons.IH) (use Cons.prems Cons in auto)
    ultimately show ?thesis using d by (simp add: Cons dchar_facts)
  qed
qed simp

lemma count_digits_at:
  assumes "\<And>j. i \<le> j \<Longrightarrow> j < k \<Longrightarrow> 0 \<le> xs ! j" "k < length xs" "xs ! k < 0" "i \<le> k"
  shows "count_digits xs i = Inr k"
  using assms(4,1)
proof (induction i rule: inc_induct)
  case base
  show ?case using assms(2,3) by (simp add: count_digits.simps)
next
  case (step i)
  then show ?case using assms(2) by (simp add: count_digits.simps [of xs i])
qed

lemma count_digits_full:
  assumes "\<And>j. i \<le> j \<Longrightarrow> j < length xs \<Longrightarrow> 0 \<le> xs ! j" "i \<le> length xs"
  shows "count_digits xs i = Inl OutOfBounds"
  using assms(2,1)
proof (induction i rule: inc_induct)
  case base
  show ?case by (simp add: count_digits.simps)
next
  case (step i)
  then show ?case by (simp add: count_digits.simps [of xs i])
qed

lemma fold_add_sum_list: "fold (\<lambda>i r. r + f i) xs (a :: 'a::comm_monoid_add) = a + sum_list (map f xs)"
  by (induction xs arbitrary: a) (simp_all add: add.assoc)

lemma stdlib_pow_10: "stdlib_pow 10 e = of_nat (10 ^ e)"
  by (induction e) simp_all

lemma digits_sum:
  "sum_list (map (\<lambda>i. stdlib_pow 10 (length ds - (i + 1)) * word_of_int (map int ds ! i)) [0..<length ds]) =
   of_nat (digits_val (rev ds))"
proof (induction ds)
  case (Cons d ds)
  have "[0..<length (d # ds)] = 0 # map Suc [0..<length ds]" by (simp add: upt_conv_Cons map_Suc_upt del: upt_Suc)
  then show ?case using Cons.IH
    by (simp add: o_def digits_val_snoc stdlib_pow_10 algebra_simps del: upt_Suc)
qed simp

lemma digits_value_dec: "digits_value 10 (map int ds @ rest) (length ds) = of_nat (digits_val (rev ds))"
proof -
  have "map (\<lambda>i. stdlib_pow 10 (length ds - (i + 1)) * word_of_int ((map int ds @ rest) ! i)) [0..<length ds] =
      map (\<lambda>i. stdlib_pow 10 (length ds - (i + 1)) * word_of_int (map int ds ! i)) [0..<length ds]"
    by (rule map_cong) (simp_all add: nth_append)
  then show ?thesis
    using digits_sum [of ds] by (simp only: digits_value_def fold_add_sum_list add_0)
qed

lemma strtoll_digits:
  assumes "set ds \<subseteq> {..<10}" "ds \<noteq> []" "length ds \<le> 9" "sg = [] \<or> sg = [45]"
  shows "strtoll (sg @ map dchar ds) 10 =
         Inr (sint (if sg = [45] then - of_nat (digits_val (rev ds)) else (of_nat (digits_val (rev ds)) :: u64)),
              length sg + length ds)"
proof -
  have hd: "hd (map dchar ds) \<noteq> 43" "hd (map dchar ds) \<noteq> 45"
    using assms(1,2) dchar_facts(4,5) by (cases ds; simp)+
  have rd: "read_digits 10 (map dchar ds) (replicate 10 (- 1)) 0 (length sg) =
      Inr (map int ds @ replicate (10 - length ds) (- 1), length sg + length ds)"
    using read_digits_dec [OF assms(1), of "[]" "replicate 10 (- 1)" "length sg"] assms(3) by simp
  have ct: "count_digits (map int ds @ replicate (10 - length ds) (- 1)) 0 = Inr (length ds)"
    using assms(3) by (intro count_digits_at) (auto simp: nth_append)
  show ?thesis
    using assms(2,4) hd rd ct digits_value_dec [of ds]
    by (auto simp: strtoll_def Let_def)
qed

lemma number_decimal:
  "number_text num 10 (- 1) (- 1) 2 =
     Some ((if sint num < 0 then [45] else []) @ map dchar (dec_digits (unat (if sint num < 0 then - num else num))))"
proof -
  define num' where "num' = (if sint num < 0 then - num else num)"
  define tmp where "tmp = (if num' = 0 then [48] else map (digit_char 2) (tmp_digits 10 (unat num')))"
  define sg :: nat where "sg = (if sint num < 0 then 1 else 0)"
  have "unat num' < 10 ^ 20" using unsigned_less [of num', where ?'a = nat] by simp
  then have len: "length tmp \<le> 20" using tmp_digits_length [of "unat num'" 20] by (simp add: tmp_def)
  have ne: "0 < length tmp" using tmp_digits.simps [of 10 "unat num'"] by (simp add: tmp_def unat_eq_0)
  define sz where "sz = (word_of_int (- 1 - int sg - int (length tmp)) :: u32)"
  have plan: "number_plan num 10 (- 1) (- 1) 2 = (2, if sint num < 0 then 45 else 0, sz, of_nat (length tmp), tmp)"
    by (simp add: number_plan_def num'_def [symmetric] tmp_def [symmetric] Let_def sz_def sg_def) (simp add: tmp_def)
  have sz: "sint sz = - 1 - int sg - int (length tmp)" unfolding sz_def using len by (intro sint_of_int32) (simp_all add: sg_def)
  have pr: "sint (of_nat (length tmp) :: u32) = int (length tmp)" using sint_of_int32 [of "int (length tmp)"] len by simp
  have digits: "rev tmp = map dchar (dec_digits (unat num'))"
  proof -
    have "map (digit_char 2) (tmp_digits 10 k) = map dchar (tmp_digits 10 k)" for k
      using tmp_digits_small [of k] dchar_facts(6) by (intro map_cong) auto
    then show ?thesis by (simp add: tmp_def dec_digits_def rev_map unat_eq_0)
  qed
  have "- (2 ^ 31) + 1 < sint sz" using len unfolding sz by (simp add: sg_def)
  from number_text_cases [OF _ _ plan this] sz pr show ?thesis by (auto simp: digits num'_def)
qed

lemma scast_sint:
  "sint (scast (x :: u32) :: u64) = sint x"
  "unat (if sint x < 0 then - scast x else scast x :: u64) = nat \<bar>sint x\<bar>"
proof -
  have r: "- (2 ^ 31) \<le> sint x" "sint x < 2 ^ 31" using sint_ge [of x] sint_lt [of x] by simp_all
  have c: "(scast x :: u64) = word_of_int (sint x)" by (rule scast_eq)
  have "sint (word_of_int (sint x) :: u64) = sint x"
    using r by (subst sint_sbintrunc') (auto intro!: signed_take_bit_int_eq_self)
  then show "sint (scast x :: u64) = sint x" by (simp only: c)
  have m: "- (scast x :: u64) = word_of_int (- sint x)" by (simp only: c wi_hom_neg)
  have u: "unat (word_of_int i :: u64) = nat i" if "0 \<le> i" "i \<le> 2 ^ 31" for i
    using that by (simp add: unat_eq_nat_uint uint_word_of_int)
  show "unat (if sint x < 0 then - scast x else scast x :: u64) = nat \<bar>sint x\<bar>"
  proof (cases "sint x < 0")
    case True
    have "unat (- scast x :: u64) = nat (- sint x)" unfolding m using True r by (intro u) simp_all
    then show ?thesis using True by (simp only: if_True abs_of_neg)
  next
    case False
    have "unat (scast x :: u64) = nat (sint x)" unfolding c using False r by (intro u) simp_all
    moreover have "\<bar>sint x\<bar> = sint x" using False by (simp add: abs_of_nonneg)
    ultimately show ?thesis using False by (simp only: if_False)
  qed
qed

lemma directive_d:
  "directive_text ff [100] [VInt x] =
     Inr ((if sint x < 0 then [45] else []) @ map dchar (dec_digits (nat \<bar>sint x\<bar>)), [], [], None)"
  using number_decimal [of "scast x"]
  by (simp add: directive_text_def parse_width_def parse_precision_def parse_qualifier_def int_conversion_def
      fetch_num_def isdigit_def scast_sint)

text \<open>C32: what \<open>vsnprintf\<close> prints for \<open>%d\<close> is read back by \<open>atoi\<close> as the same number, for every \<open>int\<close> of at
  most nine decimal digits and any sufficiently large buffer.\<close>

theorem print_parse_roundtrip:
  assumes "\<bar>sint x\<bar> < 10 ^ 9" "11 \<le> n"
  shows "\<exists>r. vsnprintf ff n (Some [37, 100]) [VInt x] = Inr r \<and> vs_nul r \<and> atoi (vs_bytes r) = Inr (sint x)"
proof -
  define sg where "sg = (if sint x < 0 then [45] else [] :: u8 list)"
  define ds where "ds = dec_digits (nat \<bar>sint x\<bar>)"
  have lt: "nat \<bar>sint x\<bar> < 10 ^ 9" using assms(1) by (simp add: nat_less_iff)
  note d = dec_digits_facts [of "nat \<bar>sint x\<bar>", folded ds_def]
  have len: "length (sg @ map dchar ds) \<le> 10" using d(1) [OF lt] by (simp add: sg_def)
  have "format_text ff [37, 100] [VInt x] = Inr (sg @ map dchar ds)" by (simp add: directive_d sg_def ds_def)
  then obtain r where r: "vsnprintf ff n (Some [37, 100]) [VInt x] = Inr r"
    "vs_bytes r = take (unat n - 1) (sg @ map dchar ds)" "vs_nul r \<longleftrightarrow> length (sg @ map dchar ds) \<le> unat n"
    using vsnprintf_text [of ff "[37, 100]" "[VInt x]" "sg @ map dchar ds" n] len by auto
  have n: "11 \<le> unat n" using assms(2) by (simp add: word_le_nat_alt)
  have full: "vs_bytes r = sg @ map dchar ds" using r(2) len n by simp
  have "sint (if sg = [45] then - of_nat (nat \<bar>sint x\<bar>) else (of_nat (nat \<bar>sint x\<bar>) :: u64)) = sint x"
  proof -
    have w: "(if sg = [45] then - of_nat (nat \<bar>sint x\<bar>) else (of_nat (nat \<bar>sint x\<bar>) :: u64)) = word_of_int (sint x)"
      by (auto simp: sg_def)
    have "sint (word_of_int (sint x) :: u64) = sint x" using scast_sint(1) [of x] unfolding scast_eq .
    then show ?thesis by (simp only: w)
  qed
  moreover have "sg = [] \<or> sg = [45]" by (simp add: sg_def)
  ultimately have "strtoll (sg @ map dchar ds) 10 = Inr (sint x, length sg + length ds)"
    using strtoll_digits [OF d(2,3) d(1) [OF lt], of sg] unfolding d(4) by metis
  moreover have "- LONG_LIMIT - 1 \<le> sint x" "sint x \<le> LONG_LIMIT" using assms(1) by (auto simp: LONG_LIMIT_def)
  ultimately have "atoi (vs_bytes r) = Inr (sint x)" by (simp add: full atoi_def strtol_def)
  moreover have "vs_nul r" using r(3) len n by simp
  ultimately show ?thesis using r(1) by blast
qed

theorem print_parse_roundtrip_witness:
  "\<exists>r. vsnprintf (\<lambda>(_ :: unit) _ _. []) 11 (Some [37, 100]) [VInt (- 123456789)] = Inr r \<and> vs_nul r \<and>
       atoi (vs_bytes r) = Inr (- 123456789)"
  using print_parse_roundtrip [of "- 123456789" 11 "\<lambda>_ _ _. []"] by simp

text \<open>\<open>strtoll\<close> accesses its array of ten digits out of bounds on every number of ten or more decimal
  digits, such as 4294967295.\<close>

theorem strtoll_overruns:
  assumes "set ds \<subseteq> {..<10}" "10 \<le> length ds"
  shows "strtoll (map dchar ds) 10 = Inl OutOfBounds"
proof -
  have "ds \<noteq> []" using assms(2) by auto
  then have hd: "hd (map dchar ds) \<noteq> 43" "hd (map dchar ds) \<noteq> 45" "ds \<noteq> []"
    using assms(1) dchar_facts(4,5) by (cases ds; simp)+
  show ?thesis
  proof (cases "length ds = 10")
    case True
    then have "read_digits 10 (map dchar ds) (replicate 10 (- 1)) 0 0 = Inr (map int ds, 10)"
      using read_digits_dec [OF assms(1), of "[]" "replicate 10 (- 1)" 0] by simp
    moreover have "count_digits (map int ds) 0 = Inl OutOfBounds" by (rule count_digits_full) simp_all
    ultimately show ?thesis using hd by (simp add: strtoll_def Let_def)
  next
    case False
    then have "read_digits 10 (map dchar ds) (replicate 10 (- 1)) 0 0 = Inl OutOfBounds"
      using read_digits_over [OF assms(1), of "replicate 10 (- 1)" "[]" 0] assms(2) by simp
    then show ?thesis using hd by (simp add: strtoll_def Let_def)
  qed
qed

theorem strtoll_overruns_witness: "strtoll [52, 50, 57, 52, 57, 54, 55, 50, 57, 53] 10 = Inl OutOfBounds"
  using strtoll_overruns [of "[4, 2, 9, 4, 9, 6, 7, 2, 9, 5]"] by simp

end
