(* ===== verification/Net.thy ===== *)
theory Net
  imports Stdio
begin

text \<open>
  What the network services share: network byte order (\<open>src/include/arch/i386/arpa/arch-inet.h\<close>), and the
  helper functions of which \<open>src/progs/common/tcp/tcp.c\<close> and \<open>src/progs/common/udp/udp.c\<close> have the same
  text each: the pseudo header, the checksum, \<open>get_ip\<close> and \<open>get_user_port\<close>. \<open>src/progs/common/ip/ip.c\<close> has
  its own checksum and its own \<open>get_ip\<close>.

  The lemmas show that a packet with the computed checksum in its checksum field is accepted, and that
  an accepted packet is rejected after any change of one byte.
\<close>

type_synonym wire = "(u32 \<times> u8 list) list"

datatype net_errno = ENOENT | EHOSTUNREACH | EHOSTDOWN | ENOTCONN | EINVAL | EACCES | ENODEV | ENXIO | EFBIG
  | EBADF | ESRCH | EMFILE | ENOTSUP

datatype net_flag =
    F_FLUSH | F_PRESSURE | F_READABLE | F_WRITABLE | F_IPC_SIGNAL | F_DEST_IP | F_SRC_IP | F_MY_IP | F_IP_TTL
  | F_IP_PROTO_TYPE | F_DEST_PORT | F_SRC_PORT | F_MY_PORT | F_CONNECTION_STATUS
  | F_DEVICE_ID | F_POSITION | F_FILESIZE | F_INODE | F_MODE | F_NLINK | F_UID | F_GID | F_BLOCK_SIZE | F_BLOCK_COUNT
  | F_ATIME | F_MTIME | F_CTIME | F_DEST_MAC | F_SRC_MAC | F_MY_MAC | F_ETH_PACKET_TYPE
  | F_DNS_RESOLVED_IP | F_DNS_NSIP | F_DNS_DEFAULT_NSIP | F_ECHO

subsection \<open>Network byte order\<close>

definition be16 :: "u16 \<Rightarrow> u8 list" where
  "be16 x = [ucast (drop_bit 8 x), ucast x]"

definition be32 :: "u32 \<Rightarrow> u8 list" where
  "be32 x = [ucast (drop_bit 24 x), ucast (drop_bit 16 x), ucast (drop_bit 8 x), ucast x]"

definition get16 :: "u8 list \<Rightarrow> nat \<Rightarrow> u16" where
  "get16 b i = push_bit 8 (ucast (b ! i)) OR ucast (b ! (i + 1))"

definition get32 :: "u8 list \<Rightarrow> nat \<Rightarrow> u32" where
  "get32 b i = push_bit 24 (ucast (b ! i)) OR push_bit 16 (ucast (b ! (i + 1)))
               OR push_bit 8 (ucast (b ! (i + 2))) OR ucast (b ! (i + 3))"

text \<open>The bytes of \<open>struct pseudo_ip_header\<close>.\<close>

definition pseudo_ip_header :: "u8 \<Rightarrow> u32 \<Rightarrow> u32 \<Rightarrow> u16 \<Rightarrow> u8 list" where
  "pseudo_ip_header proto_type src_ip dest_ip len =
     be32 src_ip @ be32 dest_ip @ [0, proto_type] @ be16 len"

subsection \<open>The checksum\<close>

fun raw_checksum_calc :: "u8 list \<Rightarrow> bool \<Rightarrow> u32 \<Rightarrow> u32" where
  "raw_checksum_calc [] hi_byte initial = initial"
| "raw_checksum_calc (b # bs) hi_byte initial =
     raw_checksum_calc bs (\<not> hi_byte) (initial + (if hi_byte then push_bit 8 (ucast b) else ucast b))"

function fold_sum :: "u32 \<Rightarrow> u32" where
  "fold_sum s = (if drop_bit 16 s \<noteq> 0 then fold_sum ((s AND 0xFFFF) + drop_bit 16 s) else s)"
  by pat_completeness auto
termination
proof (relation "measure unat")
  fix s :: u32
  assume "drop_bit 16 s \<noteq> 0"
  then have d: "0 < unat s div 2 ^ 16" by (metis unat_drop_bit unat_gt_0)
  have m: "unat (s AND 0xFFFF) = unat s mod 2 ^ 16"
    using unat_and_mask [of s 16] by (simp add: mask_eq_exp_minus_1)
  have "unat s mod 2 ^ 16 < 2 ^ 16" "unat s div 2 ^ 16 < 2 ^ 16"
    using unat32_lt [of s] by (auto simp: div_less_iff_less_mult)
  then have "unat ((s AND 0xFFFF) + drop_bit 16 s) = unat s mod 2 ^ 16 + unat s div 2 ^ 16"
    by (subst unat_add_nowrap) (simp_all add: m unat_drop_bit)
  also have "\<dots> < unat s"
  proof -
    define q r where "q = unat s div 2 ^ 16" and "r = unat s mod 2 ^ 16"
    have "unat s = q * 65536 + r" "0 < q" using d by (simp_all add: q_def r_def)
    then show ?thesis unfolding q_def [symmetric] r_def [symmetric] by linarith
  qed
  finally show "((s AND 0xFFFF) + drop_bit 16 s, s) \<in> measure unat" by simp
qed simp

declare fold_sum.simps [simp del]

definition calculate_network_checksum :: "u8 list \<Rightarrow> u8 list \<Rightarrow> u16" where
  "calculate_network_checksum psip tcph =
     ucast (NOT (fold_sum (raw_checksum_calc tcph True (raw_checksum_calc psip True 0))) AND 0xFFFF)"

text \<open>The checksum of the IP service takes two bytes per round.\<close>

fun ip_checksum_sum :: "u8 list \<Rightarrow> u32 \<Rightarrow> u32" where
  "ip_checksum_sum (a # b # bs) s = ip_checksum_sum bs (s + (push_bit 8 (ucast a) + ucast b))"
| "ip_checksum_sum [a] s = s + push_bit 8 (ucast a)"
| "ip_checksum_sum [] s = s"

definition ip_calculate_network_checksum :: "u8 list \<Rightarrow> u16" where
  "ip_calculate_network_checksum buffer =
     (if length buffer < 2 then 0 else ucast (NOT (fold_sum (ip_checksum_sum buffer 0)) AND 0xFFFF))"

subsection \<open>Ports and addresses\<close>

text \<open>The static counter of \<open>get_user_port\<close> is passed and returned.\<close>

definition get_user_port :: "u16 \<Rightarrow> u16 \<times> u16" where
  "get_user_port port_counter =
     (if port_counter < 0xFFFF then (port_counter, port_counter + 1) else (port_counter, 1024))"

text \<open>\<open>get_ip\<close>: the address and the rest of the string from the colon on, or \<open>None\<close> for the result -1. The
  parameter \<open>stop\<close> tells which characters may follow the fourth number: a colon, or for the IP service
  the end of the string.\<close>

fun get_ip_from :: "(u8 list \<Rightarrow> bool) \<Rightarrow> nat \<Rightarrow> u8 list \<Rightarrow> u32 \<Rightarrow> (u32 \<times> u8 list) option outcome" where
  "get_ip_from stop 0 s ip = Inr (Some (ip, s))"
| "get_ip_from stop (Suc k) s ip =
     rbind (strtol s 10) (\<lambda>(val, _, pos).
       let s = drop pos s in
       if val < 0 \<or> 255 < val \<or> (k \<noteq> 0 \<and> \<not> (s \<noteq> [] \<and> hd s = 46)) \<or> (k = 0 \<and> \<not> stop s) then Inr None
       else get_ip_from stop k (if k = 0 then s else tl s) (push_bit 8 ip OR word_of_int val))"

definition get_ip :: "u8 list \<Rightarrow> (u32 \<times> u8 list) option outcome" where
  "get_ip s = get_ip_from (\<lambda>s. s \<noteq> [] \<and> hd s = 58) 4 s 0"

definition ip_get_ip :: "u8 list \<Rightarrow> u32 option outcome" where
  "ip_get_ip s = rbind (get_ip_from (\<lambda>s. s = []) 4 s 0) (\<lambda>r. Inr (map_option fst r))"

lemma get_ip_from_stop:
  "get_ip_from stop k s ip0 = Inr (Some (ip, rest)) \<Longrightarrow> k \<noteq> 0 \<Longrightarrow> stop rest"
proof (induction k arbitrary: s ip0)
  case (Suc k)
  then show ?case
    by (cases "k = 0") (auto simp: rbind_Inr_iff Let_def split: if_splits)
qed simp

lemma get_ip_rest: "get_ip s = Inr (Some (ip, rest)) \<Longrightarrow> rest \<noteq> [] \<and> hd rest = 58"
  unfolding get_ip_def by (drule get_ip_from_stop) simp_all

lemma strtol_colon: "strtol (58 # s) 10 = Inr (0, False, 0)"
proof -
  have "count_digits (replicate 10 (- 1)) 0 = Inr 0"
    by (subst count_digits.simps) simp
  then show ?thesis
    by (simp add: strtol_def strtoll_def Let_def isalnum_def islower_def isdigit_def digits_value_def LONG_LIMIT_def)
qed

section \<open>Byte order and headers\<close>

lemma be_length [simp]: "length (be16 x) = 2" "length (be32 y) = 4"
  by (simp_all add: be16_def be32_def)

lemma word16_split: "push_bit 8 (ucast (ucast (drop_bit 8 x) :: u8)) OR ucast (ucast x :: u8) = (x :: u16)"
  by (rule bit_word_eqI) (auto simp: bit_simps)

lemma word32_split:
  "push_bit 24 (ucast (ucast (drop_bit 24 x) :: u8)) OR push_bit 16 (ucast (ucast (drop_bit 16 x) :: u8))
   OR push_bit 8 (ucast (ucast (drop_bit 8 x) :: u8)) OR ucast (ucast x :: u8) = (x :: u32)" (is "?l = x")
proof (rule bit_word_eqI)
  fix n
  assume "n < LENGTH(32)"
  then consider "n < 8" | "8 \<le> n" "n < 16" | "16 \<le> n" "n < 24" | "24 \<le> n" "n < 32"
    by fastforce
  then show "bit ?l n = bit x n" by cases (auto simp: bit_simps)
qed

section \<open>The checksum\<close>

text \<open>The sum as a natural number: alternating high and low bytes.\<close>

fun byte_sum :: "u8 list \<Rightarrow> bool \<Rightarrow> nat" where
  "byte_sum [] hi = 0"
| "byte_sum (b # bs) hi = (if hi then 256 * unat b else unat b) + byte_sum bs (\<not> hi)"

lemma byte_sum_append: "byte_sum (xs @ ys) hi = byte_sum xs hi + byte_sum ys (if even (length xs) then hi else \<not> hi)"
  by (induction xs arbitrary: hi) (simp_all split: if_splits)

lemma unat8_lt: "unat (b :: u8) < 256"
  by (rule order.strict_trans2 [OF unsigned_less]) simp

lemma unat_ucast_8_32 [simp]: "unat (ucast (b :: u8) :: u32) = unat b"
  using unat8_lt [of b] by (simp add: unsigned_ucast_eq take_bit_nat_eq_self)

lemma unat_of_nat16: "n < 65536 \<Longrightarrow> unat (of_nat n :: u16) = n"
  by (simp add: unsigned_of_nat take_bit_nat_eq_self)

lemma unat16_lt: "unat (x :: u16) < 65536"
  by (rule order.strict_trans2 [OF unsigned_less]) simp

lemma unat_ucast_16_32 [simp]: "unat (ucast (x :: u16) :: u32) = unat x"
  using unat16_lt [of x] by (simp add: unsigned_ucast_eq take_bit_nat_eq_self)

lemma byte_sum_bound: "byte_sum bs hi \<le> 65280 * length bs"
proof (induction bs arbitrary: hi)
  case (Cons b bs)
  have "(if hi then 256 * unat b else unat b) \<le> 65280" using unat8_lt [of b] by simp
  then show ?case using Cons.IH [of "\<not> hi"] by simp
qed simp

lemma raw_checksum_sum:
  "unat initial + byte_sum bs hi < 2 ^ 32 \<Longrightarrow>
   unat (raw_checksum_calc bs hi initial) = unat initial + byte_sum bs hi"
proof (induction bs arbitrary: hi initial)
  case (Cons b bs)
  define v where "v = (if hi then push_bit 8 (ucast b) else ucast b :: u32)"
  have v: "unat v = (if hi then 256 * unat b else unat b)"
    using unat8_lt [of b] by (simp add: v_def unsigned_push_bit_eq push_bit_nat_def take_bit_nat_eq_self)
  have "unat (initial + v) = unat initial + unat v"
    using Cons.prems v by (intro unat_add_nowrap) simp
  then show ?case using Cons.IH [of "initial + v" "\<not> hi"] Cons.prems v by (simp add: v_def)
qed simp

lemma fold_sum_step:
  assumes "drop_bit 16 s \<noteq> (0 :: u32)"
  shows "unat ((s AND 0xFFFF) + drop_bit 16 s) mod 65535 = unat s mod 65535"
    and "0 < unat ((s AND 0xFFFF) + drop_bit 16 s)"
proof -
  define q r where "q = unat s div 65536" and "r = unat s mod 65536"
  have q: "unat (drop_bit 16 s) = q" by (simp add: unat_drop_bit q_def)
  have r: "unat (s AND 0xFFFF) = r" using unat_and_mask [of s 16] by (simp add: mask_eq_exp_minus_1 r_def)
  have "q < 65536" "r < 65536" "0 < q" "unat s = q * 65536 + r"
    using unat32_lt [of s] assms q unat_gt_0 [of "drop_bit 16 s"]
    by (simp_all add: q_def r_def div_less_iff_less_mult)
  moreover from this have "unat ((s AND 0xFFFF) + drop_bit 16 s) = r + q"
    by (subst unat_add_nowrap) (simp_all add: q r)
  ultimately have "unat s = unat ((s AND 0xFFFF) + drop_bit 16 s) + 65535 * q"
    and "0 < unat ((s AND 0xFFFF) + drop_bit 16 s)" by simp_all
  then show "unat ((s AND 0xFFFF) + drop_bit 16 s) mod 65535 = unat s mod 65535"
    and "0 < unat ((s AND 0xFFFF) + drop_bit 16 s)" by simp_all
qed

lemma fold_sum_lt: "unat (fold_sum s) < 65536"
proof (induction s rule: fold_sum.induct)
  case (1 s)
  have "drop_bit 16 s = 0 \<Longrightarrow> unat s < 65536"
    using unat_drop_bit [of 16 s] by (simp add: div_eq_0_iff)
  then show ?case using 1 by (cases "drop_bit 16 s = 0") (simp_all add: fold_sum.simps [of s])
qed

lemma fold_sum_mod: "unat (fold_sum s) mod 65535 = unat s mod 65535"
proof (induction s rule: fold_sum.induct)
  case (1 s)
  then show ?case
    using fold_sum_step(1) [of s] by (cases "drop_bit 16 s = 0") (simp_all add: fold_sum.simps [of s])
qed

lemma fold_sum_pos: "0 < unat s \<Longrightarrow> 0 < unat (fold_sum s)"
proof (induction s rule: fold_sum.induct)
  case (1 s)
  show ?case
  proof (cases "drop_bit 16 s = 0")
    case True
    then show ?thesis using 1(2) by (subst fold_sum.simps) simp
  next
    case False
    then show ?thesis
      using 1(1) [OF False fold_sum_step(2) [OF False]] by (subst fold_sum.simps) simp
  qed
qed

lemma net_sum:
  assumes "byte_sum psip True + byte_sum buf True < 2 ^ 32"
  shows "unat (raw_checksum_calc buf True (raw_checksum_calc psip True 0)) = byte_sum psip True + byte_sum buf True"
  using assms raw_checksum_sum [of 0 psip True] raw_checksum_sum [of "raw_checksum_calc psip True 0" buf True]
  by simp

lemma unat_checksum:
  assumes "unat (s :: u32) < 65536"
  shows "unat (ucast (NOT s AND 0xFFFF) :: u16) = 65535 - unat s"
proof -
  define x :: u16 where "x = ucast s"
  have "(ucast (NOT s AND 0xFFFF) :: u16) = ucast (NOT s AND mask 16)"
    by (simp add: mask_eq_exp_minus_1)
  also have "\<dots> = NOT x" unfolding x_def by (rule bit_word_eqI) (auto simp: bit_simps)
  also have "\<dots> = - 1 - x" by (simp add: not_eq_complement)
  finally have "unat (ucast (NOT s AND 0xFFFF) :: u16) = unat (- 1 :: u16) - unat x"
    by (simp only: unat_sub [of x "- 1 :: u16"] word_n1_ge)
  moreover have "unat x = unat s"
    using assms by (simp add: x_def unsigned_ucast_eq take_bit_nat_eq_self)
  ultimately show ?thesis by (simp add: unsigned_minus_1_eq_mask mask_eq_exp_minus_1)
qed

lemma checksum_zero_iff:
  assumes "byte_sum psip True + byte_sum buf True < 2 ^ 32"
  shows "calculate_network_checksum psip buf = 0 \<longleftrightarrow>
    0 < byte_sum psip True + byte_sum buf True \<and> (byte_sum psip True + byte_sum buf True) mod 65535 = 0"
proof -
  define s where "s = raw_checksum_calc buf True (raw_checksum_calc psip True 0)"
  define S where "S = byte_sum psip True + byte_sum buf True"
  have s: "unat s = S" using net_sum [OF assms] by (simp add: s_def S_def)
  have F: "unat (fold_sum s) < 65536" "unat (fold_sum s) mod 65535 = S mod 65535"
    "0 < S \<Longrightarrow> 0 < unat (fold_sum s)"
    using fold_sum_lt [of s] fold_sum_mod [of s] fold_sum_pos [of s] s by simp_all
  have "S = 0 \<Longrightarrow> s = 0" using s by (simp add: unat_eq_0)
  then have z: "S = 0 \<Longrightarrow> unat (fold_sum s) = 0" using fold_sum.simps [of s] by simp
  have "calculate_network_checksum psip buf = 0 \<longleftrightarrow> unat (calculate_network_checksum psip buf) = 0"
    by (simp add: unat_eq_0)
  also have "\<dots> \<longleftrightarrow> unat (fold_sum s) = 65535"
    using F(1) unat_checksum [OF F(1)] by (simp add: calculate_network_checksum_def s_def [symmetric]) linarith
  also have "\<dots> \<longleftrightarrow> 0 < S \<and> S mod 65535 = 0"
  proof
    assume "unat (fold_sum s) = 65535"
    then show "0 < S \<and> S mod 65535 = 0" using F(2) z by (cases "S = 0") simp_all
  next
    assume S: "0 < S \<and> S mod 65535 = 0"
    then have "65535 dvd unat (fold_sum s)" using F(2) by (simp add: mod_eq_0_iff_dvd)
    then obtain k where "unat (fold_sum s) = 65535 * k" by (rule dvdE)
    then show "unat (fold_sum s) = 65535" using F(1) F(3) S by simp
  qed
  finally show ?thesis by (simp add: S_def)
qed

lemma byte_sum_be16: "byte_sum (be16 x) True = unat x"
proof -
  have "unat x < 65536" by (rule order.strict_trans2 [OF unsigned_less]) simp
  then have "unat (ucast (drop_bit 8 x) :: u8) = unat x div 256"
    by (simp add: unsigned_ucast_eq unat_drop_bit take_bit_nat_eq_self div_less_iff_less_mult)
  moreover have "unat (ucast x :: u8) = unat x mod 256"
    by (simp add: unsigned_ucast_eq take_bit_nat_def)
  ultimately show ?thesis by (simp add: be16_def)
qed

lemma checksum_seal:
  assumes len: "even (length pre)" "length psip + length pre + 2 + length rest \<le> 65790"
    and pos: "0 < byte_sum psip True + byte_sum (pre @ rest) True"
  shows "calculate_network_checksum psip
           (pre @ be16 (calculate_network_checksum psip (pre @ be16 0 @ rest)) @ rest) = 0"
proof -
  define sum where "sum x = byte_sum psip True + byte_sum (pre @ be16 x @ rest) True" for x
  have sum: "sum x = sum 0 + unat x" for x
    using len(1) by (simp add: sum_def byte_sum_append byte_sum_be16)
  have bound: "sum x < 2 ^ 32" for x
    using len(2) byte_sum_bound [of psip True] byte_sum_bound [of "pre @ be16 x @ rest" True]
    unfolding sum_def by simp
  have sum_pos: "0 < sum 0" using pos len(1) by (simp add: sum_def byte_sum_append byte_sum_be16)
  define s where "s = raw_checksum_calc (pre @ be16 0 @ rest) True (raw_checksum_calc psip True 0)"
  have s: "unat s = sum 0" unfolding s_def sum_def by (rule net_sum) (use bound [of 0] in \<open>simp add: sum_def\<close>)
  let ?c = "calculate_network_checksum psip (pre @ be16 0 @ rest)"
  have c: "unat ?c = 65535 - unat (fold_sum s)"
    using unat_checksum [OF fold_sum_lt [of s]] by (simp add: calculate_network_checksum_def s_def)
  have "(sum 0 + unat ?c) mod 65535 = (unat (fold_sum s) + unat ?c) mod 65535"
    using fold_sum_mod [of s] unfolding s by (metis mod_add_left_eq)
  also have "unat (fold_sum s) + unat ?c = 65535" using fold_sum_lt [of s] c by linarith
  finally have "sum ?c mod 65535 = 0" unfolding sum [of ?c] by simp
  moreover have "0 < sum ?c" using sum_pos unfolding sum [of ?c] by simp
  ultimately have "0 < sum ?c \<and> sum ?c mod 65535 = 0" by (rule conjI [rotated])
  then show ?thesis unfolding sum_def by (rule iffD2 [OF checksum_zero_iff [OF bound [of ?c, unfolded sum_def]]])
qed

text \<open>A packet that passes the checksum is rejected after any change of one byte.\<close>

lemma checksum_detects:
  assumes "calculate_network_checksum psip buf = 0"
    and "i < length buf" "b \<noteq> buf ! i" "length psip + length buf \<le> 65790"
  shows "calculate_network_checksum psip (buf[i := b]) \<noteq> 0"
proof
  assume z: "calculate_network_checksum psip (buf[i := b]) = 0"
  define x y where "x = int (unat (buf ! i))" and "y = int (unat b)"
  have xy: "0 \<le> x" "x < 256" "0 \<le> y" "y < 256"
    using unat8_lt [of b] unat8_lt [of "buf ! i"] unfolding x_def y_def by linarith+
  define hi where "hi = even i"
  define w where "w = (if hi then 256 else 1 :: nat)"
  define R where "R = byte_sum psip True + byte_sum (take i buf) True + byte_sum (drop (Suc i) buf) (\<not> hi)"
  have split: "byte_sum psip True + byte_sum (take i buf @ x # drop (Suc i) buf) True = R + w * unat x" for x
    using assms(2) by (simp add: R_def w_def hi_def byte_sum_append)
  have old: "byte_sum psip True + byte_sum buf True = R + w * unat (buf ! i)"
    using split [of "buf ! i"] assms(2) by (simp add: id_take_nth_drop [symmetric])
  have new: "byte_sum psip True + byte_sum (buf[i := b]) True = R + w * unat b"
    using split [of b] assms(2) by (simp add: upd_conv_take_nth_drop)
  have lt: "byte_sum psip True + byte_sum bs True < 2 ^ 32" if "length bs = length buf" for bs
    using assms(4) that byte_sum_bound [of psip True] byte_sum_bound [of bs True] by simp
  have "(R + w * unat (buf ! i)) mod 65535 = 0" "(R + w * unat b) mod 65535 = 0"
    using assms(1) z checksum_zero_iff [OF lt, of buf] checksum_zero_iff [OF lt, of "buf[i := b]"] old new by simp_all
  then have m: "(int R + int w * x) mod 65535 = (int R + int w * y) mod 65535"
    unfolding x_def y_def by (metis of_nat_add of_nat_mult of_nat_mod of_nat_numeral)
  then have "65535 dvd (int R + int w * x) - (int R + int w * y)" by (simp only: mod_eq_dvd_iff)
  moreover have "(int R + int w * x) - (int R + int w * y) = int w * (x - y)" by (simp add: algebra_simps)
  ultimately have "65535 dvd int w * (x - y)" by simp
  moreover have "\<bar>int w * (x - y)\<bar> < 65535"
  proof -
    have "\<bar>x - y\<bar> \<le> 255" using xy by linarith
    then show ?thesis by (simp add: w_def abs_mult)
  qed
  ultimately have "int w * (x - y) = 0" by (metis abs_eq_0 abs_ge_zero dvd_abs_iff le_less zdvd_not_zless)
  then show False using assms(3) by (simp add: w_def x_def y_def word_uint_eq_iff split: if_splits)
qed

lemma ip_checksum_sum_eq: "ip_checksum_sum bs s = raw_checksum_calc bs True s"
  by (induction bs s rule: ip_checksum_sum.induct) (simp_all add: add.assoc)

lemma ip_checksum_eq:
  "2 \<le> length buf \<Longrightarrow> ip_calculate_network_checksum buf = calculate_network_checksum [] buf"
  by (simp add: ip_calculate_network_checksum_def calculate_network_checksum_def ip_checksum_sum_eq)

section \<open>Sealed packets\<close>

text \<open>What the services have in common: a packet is built from a header and data with a checksum that also
  covers a pseudo header, and both sides compute the same pseudo header.\<close>

locale sealed_packets =
  fixes seal :: "'h \<Rightarrow> u8 list \<Rightarrow> u8 list"
    and pseudo :: "'h \<Rightarrow> u8 list \<Rightarrow> u8 list"
    and limit :: nat
  assumes seal_accepted: "length d \<le> limit \<Longrightarrow> calculate_network_checksum (pseudo h d) (seal h d) = 0"
    and seal_length: "length d \<le> limit \<Longrightarrow> length (pseudo h d) + length (seal h d) \<le> 65790"
begin

lemma corruption_detected:
  assumes "length d \<le> limit" "i < length (seal h d)" "b \<noteq> seal h d ! i"
  shows "calculate_network_checksum (pseudo h d) ((seal h d)[i := b]) \<noteq> 0"
  by (rule checksum_detects [OF seal_accepted [OF assms(1)] assms(2,3) seal_length [OF assms(1)]])

end

end
