(* ===== verification/Ip.thy ===== *)
theory Ip
  imports Net
begin

text \<open>
  The IP service: interfaces (\<open>src/progs/common/ip/interfaces.c\<close>), the routing table (\<open>routing.c\<close>), the
  address resolution cache and protocol (\<open>arp.c\<close>) and the pipes of the service (\<open>ip.c\<close>).

  An interface is known by its address, the number of its allocation; 0 is \<open>NULL\<close>. What the service
  sends is a list of Ethernet frames: interface, packet type, destination and payload. The Ethernet
  service below is a parameter where its answer matters: \<open>eth_open\<close> is the file descriptor that
  \<open>create_pipe\<close> returns for a name (negative when there is no such card), \<open>my_mac\<close> the hardware address of
  a card. A thread that waits for an answer lets other threads handle the packets that come in
  meanwhile: these packets are a parameter of the waiting operation.
\<close>

type_synonym eth_wire = "(nat \<times> u16 \<times> u64 \<times> u8 list) list"

record interface =
  if_addr :: nat
  if_name :: "u8 list"
  if_fd :: int
  if_ip :: u32

record routing_table_entry =
  rt_dest :: u32
  rt_mask :: u32
  rt_gw :: u32
  rt_iface :: "u8 list"

record cache_entry =
  ce_i :: nat
  ce_ip :: u32
  ce_mac :: u64
  ce_last_usage :: u32

record arp_packet =
  a_hwaddrtype :: u16
  a_protoaddrtype :: u16
  a_hwaddrlen :: u8
  a_protoaddrlen :: u8
  a_operation :: u16
  a_senderhwaddr :: "u8 list"
  a_senderprotoaddr :: u32
  a_targethwaddr :: "u8 list"
  a_targetprotoaddr :: u32

record ip_packet =
  ip_src :: u32
  ip_dest :: u32
  ip_protocol :: u8
  ip_ttl :: u8
  ip_data :: "u8 list"

record ip_file =
  f_ifc_fixed :: bool
  f_ifc :: nat
  f_mac :: u64
  f_dest :: u32
  f_protocol :: u32
  f_ttl :: u32
  f_owner :: int
  f_signal :: bool
  f_inqueue :: "ip_packet list"

record ip_service =
  interfaces :: "interface list"
  routing_table :: "routing_table_entry list"
  arp_cache :: "cache_entry list"
  usage_counter :: u32
  reply_ip :: u32
  reply_mac :: u64
  ip_connections :: "ip_file list"

definition ARP_CACHE_SIZE :: nat where "ARP_CACHE_SIZE = 32"

subsection \<open>Interfaces\<close>

definition locate_interface :: "(u8 list \<Rightarrow> int) \<Rightarrow> u8 list \<Rightarrow> interface list \<Rightarrow> nat \<times> interface list" where
  "locate_interface eth_open name ifs =
     (case find (\<lambda>i. if_name i = name) ifs of
        Some i \<Rightarrow> (if_addr i, ifs)
      | None \<Rightarrow>
          let fd = eth_open name in
          if fd < 0 then (0, ifs)
          else let i = \<lparr>if_addr = length ifs + 1, if_name = name, if_fd = fd, if_ip = 0\<rparr>
               in (if_addr i, i # ifs))"

definition find_interface :: "int \<Rightarrow> interface list \<Rightarrow> interface option" where
  "find_interface fd ifs = find (\<lambda>i. if_fd i = fd) ifs"

definition interface_at :: "nat \<Rightarrow> interface list \<Rightarrow> interface option" where
  "interface_at a ifs = find (\<lambda>i. if_addr i = a) ifs"

subsection \<open>Address resolution\<close>

definition mac_bytes :: "u64 \<Rightarrow> u8 list" where
  "mac_bytes mac = map (\<lambda>i. ucast (drop_bit (i * 8) mac)) [0..<6]"

definition bytes_mac :: "u8 list \<Rightarrow> u64" where
  "bytes_mac bs = fold (\<lambda>i mac. mac OR push_bit (i * 8) (ucast (bs ! i))) [0..<6] 0"

definition arp_bytes :: "arp_packet \<Rightarrow> u8 list" where
  "arp_bytes p = be16 (a_hwaddrtype p) @ be16 (a_protoaddrtype p) @ [a_hwaddrlen p, a_protoaddrlen p]
     @ be16 (a_operation p) @ a_senderhwaddr p @ be32 (a_senderprotoaddr p)
     @ a_targethwaddr p @ be32 (a_targetprotoaddr p)"

definition read_arp :: "u8 list \<Rightarrow> arp_packet" where
  "read_arp b =
     \<lparr>a_hwaddrtype = get16 b 0, a_protoaddrtype = get16 b 2, a_hwaddrlen = b ! 4, a_protoaddrlen = b ! 5,
      a_operation = get16 b 6, a_senderhwaddr = take 6 (drop 8 b), a_senderprotoaddr = get32 b 14,
      a_targethwaddr = take 6 (drop 18 b), a_targetprotoaddr = get32 b 24\<rparr>"

text \<open>A packet arriving at an interface: the service after it and the frames sent.\<close>

definition arp_incoming :: "(nat \<Rightarrow> u64) \<Rightarrow> interface \<Rightarrow> u8 list \<Rightarrow> ip_service \<Rightarrow> ip_service \<times> eth_wire" where
  "arp_incoming my_mac ifc raw st =
     (if length raw < 28 then (st, [])
      else let pkt = read_arp raw in
      if a_hwaddrtype pkt \<noteq> 1 \<or> a_protoaddrtype pkt \<noteq> 0x0800 then (st, [])
      else if a_operation pkt = 1 then
        if a_targetprotoaddr pkt \<noteq> if_ip ifc then (st, [])
        else
          let res = \<lparr>a_hwaddrtype = 1, a_protoaddrtype = 0x0800, a_hwaddrlen = 6, a_protoaddrlen = 4,
                     a_operation = 2, a_senderhwaddr = mac_bytes (my_mac (if_addr ifc)),
                     a_senderprotoaddr = if_ip ifc, a_targethwaddr = a_senderhwaddr pkt,
                     a_targetprotoaddr = a_senderprotoaddr pkt\<rparr>
          in (st, [(if_addr ifc, 0x0806, bytes_mac (a_senderhwaddr pkt), arp_bytes res)])
      else if a_operation pkt = 2 then
        (st\<lparr>reply_mac := bytes_mac (a_senderhwaddr pkt), reply_ip := a_senderprotoaddr pkt\<rparr>, [])
      else (st, []))"

definition arp_request :: "(nat \<Rightarrow> u64) \<Rightarrow> interface \<Rightarrow> u32 \<Rightarrow> arp_packet" where
  "arp_request my_mac ifc ip =
     \<lparr>a_hwaddrtype = 1, a_protoaddrtype = 0x0800, a_hwaddrlen = 6, a_protoaddrlen = 4,
      a_operation = 1, a_senderhwaddr = mac_bytes (my_mac (if_addr ifc)), a_senderprotoaddr = if_ip ifc,
      a_targethwaddr = replicate 6 0, a_targetprotoaddr = ip\<rparr>"

text \<open>The wait of \<open>arp_resolve\<close>, with the packets that come in; the list ends with the timeout.\<close>

fun arp_wait :: "(nat \<Rightarrow> u64) \<Rightarrow> u32 \<Rightarrow> (interface \<times> u8 list) list \<Rightarrow> ip_service \<Rightarrow> ip_service \<times> eth_wire" where
  "arp_wait my_mac ip [] st = (st, [])"
| "arp_wait my_mac ip ((ifc, raw) # evs) st =
     (if reply_ip st \<noteq> ip then
        let (st, w) = arp_incoming my_mac ifc raw st; (st, ws) = arp_wait my_mac ip evs st in (st, w @ ws)
      else (st, []))"

definition arp_resolve ::
    "(nat \<Rightarrow> u64) \<Rightarrow> (interface \<times> u8 list) list \<Rightarrow> interface \<Rightarrow> u32 \<Rightarrow> ip_service \<Rightarrow> u64 \<times> ip_service \<times> eth_wire" where
  "arp_resolve my_mac evs ifc ip st =
     (let (st, w) = arp_wait my_mac ip evs st in
      (if reply_ip st \<noteq> ip then 0 else reply_mac st, st,
       (if_addr ifc, 0x0806, 0xFFFFFFFFFFFF, arp_bytes (arp_request my_mac ifc ip)) # w))"

fun cache_find :: "nat \<Rightarrow> u32 \<Rightarrow> cache_entry list \<Rightarrow> nat option" where
  "cache_find ifc ip [] = None"
| "cache_find ifc ip (e # es) =
     (if ce_i e = ifc \<and> ce_ip e = ip then Some 0 else map_option Suc (cache_find ifc ip es))"

text \<open>The entry to replace: the first empty one, otherwise the one used longest ago. \<open>k\<close> is the index of
  the head of the list.\<close>

fun cache_victim :: "nat \<Rightarrow> u32 \<Rightarrow> nat \<Rightarrow> cache_entry list \<Rightarrow> nat" where
  "cache_victim k oldest oldest_i [] = oldest_i"
| "cache_victim k oldest oldest_i (e # es) =
     (let (oldest, oldest_i) =
            (if sint (ce_last_usage e) < sint oldest then (ce_last_usage e, k) else (oldest, oldest_i))
      in if ce_i e = 0 then k else cache_victim (Suc k) oldest oldest_i es)"

definition arp_lookup ::
    "(nat \<Rightarrow> u64) \<Rightarrow> (interface \<times> u8 list) list \<Rightarrow> interface \<Rightarrow> u32 \<Rightarrow> ip_service \<Rightarrow> u64 \<times> ip_service \<times> eth_wire" where
  "arp_lookup my_mac evs ifc ip st =
     (case cache_find (if_addr ifc) ip (arp_cache st) of
        Some i \<Rightarrow>
          (ce_mac (arp_cache st ! i),
           st\<lparr>arp_cache := (arp_cache st)[i := (arp_cache st ! i)\<lparr>ce_last_usage := usage_counter st\<rparr>],
              usage_counter := usage_counter st + 1\<rparr>, [])
      | None \<Rightarrow>
          let (mac, st, w) = arp_resolve my_mac evs ifc ip st in
          if mac = 0 then (0, st, w)
          else
            let i = cache_victim 0 (usage_counter st) 0 (arp_cache st);
                e = \<lparr>ce_i = if_addr ifc, ce_ip = ip, ce_mac = mac, ce_last_usage = usage_counter st\<rparr>
            in (mac, st\<lparr>arp_cache := (arp_cache st)[i := e], usage_counter := usage_counter st + 1\<rparr>, w))"

subsection \<open>Routing\<close>

definition popcount :: "u32 \<Rightarrow> nat" where
  "popcount w = length (filter (bit w) [0..<32])"

text \<open>The loop of \<open>find_route\<close>: it looks up the interface of an entry only if the caller asks for one.\<close>

fun route_loop ::
    "(u8 list \<Rightarrow> int) \<Rightarrow> u32 \<Rightarrow> nat \<Rightarrow> routing_table_entry list \<Rightarrow> routing_table_entry option \<Rightarrow> interface list
       \<Rightarrow> routing_table_entry option \<times> interface list" where
  "route_loop eth_open ip on_ifc [] best ifs = (best, ifs)"
| "route_loop eth_open ip on_ifc (rte # rtes) best ifs =
     (if rt_dest rte AND rt_mask rte = ip AND rt_mask rte then
        let (fits, ifs) =
              (if on_ifc = 0 then (True, ifs)
               else let (a, ifs) = locate_interface eth_open (rt_iface rte) ifs in (a = on_ifc, ifs));
            better = (case best of None \<Rightarrow> True | Some b \<Rightarrow> popcount (rt_mask rte) > popcount (rt_mask b))
        in route_loop eth_open ip on_ifc rtes (if fits \<and> better then Some rte else best) ifs
      else route_loop eth_open ip on_ifc rtes best ifs)"

text \<open>\<open>find_route\<close>: the result, the two values behind the pointers given (old and new), the service.\<close>

definition find_route ::
    "(u8 list \<Rightarrow> int) \<Rightarrow> (nat \<Rightarrow> u64) \<Rightarrow> (interface \<times> u8 list) list \<Rightarrow> u32 \<Rightarrow> nat \<times> u64 \<Rightarrow> nat \<Rightarrow> ip_service
       \<Rightarrow> bool \<times> (nat \<times> u64) \<times> ip_service \<times> eth_wire" where
  "find_route eth_open my_mac evs ip out on_ifc st =
     (let (best, ifs) = route_loop eth_open ip on_ifc (routing_table st) None (interfaces st);
          st = st\<lparr>interfaces := ifs\<rparr>
      in case best of
           None \<Rightarrow> (False, out, st, [])
         | Some b \<Rightarrow>
             let (a, ifs) = locate_interface eth_open (rt_iface b) (interfaces st);
                 st = st\<lparr>interfaces := ifs\<rparr>
             in case interface_at a ifs of
                  None \<Rightarrow> (False, out, st, [])
                | Some i \<Rightarrow>
                    if NOT (ip AND NOT (rt_mask b)) = 0 then (True, (a, 0xFFFFFFFFFFFF), st, [])
                    else
                      let (mac, st, w) = arp_lookup my_mac evs i (if rt_gw b \<noteq> 0 then rt_gw b else ip) st
                      in (mac \<noteq> 0, (a, mac), st, w))"

text \<open>The message of \<open>add_route\<close> and \<open>del_route\<close>: three numbers and the bytes that follow them, which have
  to end with a 0. The name is what precedes the first 0.\<close>

definition route_message :: "u32 \<Rightarrow> u32 \<Rightarrow> u32 \<Rightarrow> u8 list \<Rightarrow> routing_table_entry option" where
  "route_message dest netmask gw iface =
     (if iface = [] \<or> last iface \<noteq> 0 then None
      else Some \<lparr>rt_dest = dest, rt_mask = netmask, rt_gw = gw, rt_iface = takeWhile (\<lambda>b. b \<noteq> 0) iface\<rparr>)"

definition same_route :: "routing_table_entry \<Rightarrow> routing_table_entry \<Rightarrow> bool" where
  "same_route a b \<longleftrightarrow> rt_dest a = rt_dest b \<and> rt_mask a = rt_mask b \<and> rt_iface a = rt_iface b"

fun update_route :: "routing_table_entry \<Rightarrow> routing_table_entry list \<Rightarrow> routing_table_entry list option" where
  "update_route rte [] = None"
| "update_route rte (r # rs) =
     (if same_route r rte then Some (r\<lparr>rt_gw := rt_gw rte\<rparr> # rs) else map_option ((#) r) (update_route rte rs))"

definition add_route :: "routing_table_entry option \<Rightarrow> ip_service \<Rightarrow> u32 \<times> ip_service" where
  "add_route msg st =
     (case msg of
        None \<Rightarrow> (0, st)
      | Some rte \<Rightarrow>
          (1, st\<lparr>routing_table := (case update_route rte (routing_table st) of
                                     Some t \<Rightarrow> t | None \<Rightarrow> rte # routing_table st)\<rparr>))"

definition route_matches :: "routing_table_entry \<Rightarrow> routing_table_entry \<Rightarrow> bool" where
  "route_matches rte r \<longleftrightarrow> rt_iface r = rt_iface rte \<and>
     ((rt_dest rte = 0 \<and> rt_gw rte = 0 \<and> rt_mask rte = 0) \<or> (rt_dest r = rt_dest rte \<and> rt_mask r = rt_mask rte))"

text \<open>After an entry has been removed the loop steps over its successor.\<close>

fun del_routes :: "routing_table_entry \<Rightarrow> routing_table_entry list \<Rightarrow> routing_table_entry list" where
  "del_routes rte [] = []"
| "del_routes rte (r # rs) =
     (if route_matches rte r then (case rs of [] \<Rightarrow> [] | q # qs \<Rightarrow> q # del_routes rte qs)
      else r # del_routes rte rs)"

definition del_route :: "routing_table_entry option \<Rightarrow> ip_service \<Rightarrow> u32 \<times> ip_service" where
  "del_route msg st =
     (case msg of
        None \<Rightarrow> (0, st)
      | Some rte \<Rightarrow> (0, st\<lparr>routing_table := del_routes rte (routing_table st)\<rparr>))"

subsection \<open>Pipes\<close>

text \<open>\<open>garbage\<close> is what the fields \<open>ifc\<close> and \<open>mac\<close> of a file contain after \<open>malloc\<close>: \<open>find_route\<close> leaves them
  as they are when there is no route.\<close>

definition ip_create_pipe ::
    "(u8 list \<Rightarrow> int) \<Rightarrow> (nat \<Rightarrow> u64) \<Rightarrow> (interface \<times> u8 list) list \<Rightarrow> nat \<times> u64 \<Rightarrow> u8 list \<Rightarrow> ip_service
       \<Rightarrow> ((net_errno + unit) \<times> ip_service \<times> eth_wire) outcome" where
  "ip_create_pipe eth_open my_mac evs garbage relpath st =
     (let new = (\<lambda>fixed ifc mac dest.
            \<lparr>f_ifc_fixed = fixed, f_ifc = ifc, f_mac = mac, f_dest = dest, f_protocol = 1, f_ttl = 128,
             f_owner = - 1, f_signal = False, f_inqueue = []\<rparr>);
          link = (\<lambda>f st. st\<lparr>ip_connections := f # ip_connections st\<rparr>)
      in
      if relpath = [] then Inr (Inr (), link (new False 0 0 0) st, [])
      else
        rbind (ip_get_ip (tl relpath)) (\<lambda>rip.
          case rip of
            None \<Rightarrow>
              let (a, ifs) = locate_interface eth_open (tl relpath) (interfaces st); st = st\<lparr>interfaces := ifs\<rparr>
              in if a = 0 then Inr (Inl EHOSTUNREACH, st, []) else Inr (Inr (), link (new True a 0 0) st, [])
          | Some ip \<Rightarrow>
              let (_, (a, mac), st, w) = find_route eth_open my_mac evs ip garbage 0 st
              in Inr (Inr (), link (new False a mac ip) st, w)))"

definition ip_duplicate_pipe :: "nat \<Rightarrow> ip_service \<Rightarrow> ip_service" where
  "ip_duplicate_pipe k st = st\<lparr>ip_connections := (ip_connections st ! k) # ip_connections st\<rparr>"

definition ip_destroy_pipe :: "nat \<Rightarrow> ip_service \<Rightarrow> ip_service" where
  "ip_destroy_pipe k st =
     st\<lparr>ip_connections := take k (ip_connections st) @ drop (Suc k) (ip_connections st)\<rparr>"

text \<open>\<open>service_stream_recv\<close> with a packet in the queue, or with \<open>O_NONBLOCK\<close>.\<close>

definition ip_stream_recv :: "nat \<Rightarrow> ip_file \<Rightarrow> u8 list \<times> ip_file" where
  "ip_stream_recv sz f =
     (case f_inqueue f of
        [] \<Rightarrow> ([], f)
      | p # ps \<Rightarrow> (take sz (ip_data p), f\<lparr>f_inqueue := ps\<rparr>))"

definition ip_header_bytes :: "u16 \<Rightarrow> u8 \<Rightarrow> u8 \<Rightarrow> u16 \<Rightarrow> u32 \<Rightarrow> u32 \<Rightarrow> u8 list" where
  "ip_header_bytes len ttl proto checksum src dest =
     [0x45, 0] @ be16 len @ be16 0 @ be16 0x4000 @ [ttl, proto] @ be16 checksum @ be32 src @ be32 dest"

definition ip_make_packet :: "u32 \<Rightarrow> ip_file \<Rightarrow> u8 list \<Rightarrow> u8 list" where
  "ip_make_packet my_ip f data =
     (let hdr = (\<lambda>checksum. ip_header_bytes (of_nat (20 + length data)) (ucast (f_ttl f)) (ucast (f_protocol f))
                               checksum my_ip (f_dest f))
      in hdr (ip_calculate_network_checksum (hdr 0)) @ data)"

text \<open>The frame sent; the number returned is \<open>ip_sent\<close> of what the Ethernet service returns.\<close>

definition ip_stream_send :: "ip_file \<Rightarrow> u8 list \<Rightarrow> ip_service \<Rightarrow> net_errno + eth_wire" where
  "ip_stream_send f data st =
     (case interface_at (f_ifc f) (interfaces st) of
        None \<Rightarrow> Inl ENOTCONN
      | Some i \<Rightarrow> Inr [(f_ifc f, 0x0800, f_mac f, ip_make_packet (if_ip i) f data)])"

definition ip_sent :: "nat \<Rightarrow> nat" where
  "ip_sent sent = (if sent > 20 then sent - 20 else 0)"

definition ip_get_flag :: "ip_file \<Rightarrow> net_flag \<Rightarrow> ip_service \<Rightarrow> net_errno + u32" where
  "ip_get_flag f flag st =
     (let front = (\<lambda>g. case f_inqueue f of [] \<Rightarrow> Inr 0 | p # _ \<Rightarrow> Inr (g p)) in
      case flag of
        F_PRESSURE \<Rightarrow> front (\<lambda>p. of_nat (length (ip_data p)))
      | F_READABLE \<Rightarrow> front (\<lambda>p. 1)
      | F_WRITABLE \<Rightarrow> Inr 1
      | F_IPC_SIGNAL \<Rightarrow> Inr (if f_signal f then 1 else 0)
      | F_DEST_IP \<Rightarrow> front ip_dest
      | F_SRC_IP \<Rightarrow> front ip_src
      | F_MY_IP \<Rightarrow> Inr (case interface_at (f_ifc f) (interfaces st) of None \<Rightarrow> 0 | Some i \<Rightarrow> if_ip i)
      | F_IP_TTL \<Rightarrow> front (\<lambda>p. ucast (ip_ttl p))
      | F_IP_PROTO_TYPE \<Rightarrow> front (\<lambda>p. ucast (ip_protocol p))
      | _ \<Rightarrow> Inl EINVAL)"

text \<open>\<open>service_pipe_set_flag\<close> on the file with index \<open>k\<close>; \<open>pgid\<close> is the process group of the caller. Flushing an
  empty queue frees the data of the null pointer.\<close>

definition ip_set_flag ::
    "(u8 list \<Rightarrow> int) \<Rightarrow> (nat \<Rightarrow> u64) \<Rightarrow> (interface \<times> u8 list) list \<Rightarrow> int \<Rightarrow> nat \<Rightarrow> net_flag \<Rightarrow> u64 \<Rightarrow> ip_service
       \<Rightarrow> ((net_errno + unit) \<times> ip_service \<times> eth_wire) outcome" where
  "ip_set_flag eth_open my_mac evs pgid k flag val st =
     (let f = ip_connections st ! k;
          upd = (\<lambda>f st. st\<lparr>ip_connections := (ip_connections st)[k := f]\<rparr>)
      in case flag of
        F_FLUSH \<Rightarrow>
          if val \<noteq> 1 then Inr (Inr (), st, [])
          else (case f_inqueue f of
                  [] \<Rightarrow> Inl OutOfBounds
                | p # ps \<Rightarrow> Inr (Inr (), upd (f\<lparr>f_inqueue := ps\<rparr>) st, []))
      | F_IPC_SIGNAL \<Rightarrow> Inr (Inr (), upd (f\<lparr>f_owner := pgid, f_signal := (val \<noteq> 0)\<rparr>) st, [])
      | F_DEST_IP \<Rightarrow>
          let (found, (a, mac), st, w) =
                find_route eth_open my_mac evs (ucast val) (f_ifc f, f_mac f) (if f_ifc_fixed f then f_ifc f else 0) st
          in Inr (if found then Inr () else Inl EHOSTUNREACH,
                  upd (f\<lparr>f_dest := ucast val, f_ifc := a, f_mac := mac\<rparr>) st, w)
      | F_MY_IP \<Rightarrow>
          (case interface_at (f_ifc f) (interfaces st) of
             None \<Rightarrow> Inr (Inl ENOTCONN, st, [])
           | Some i \<Rightarrow>
               Inr (Inr (), st\<lparr>interfaces := map (\<lambda>i. if if_addr i = f_ifc f then i\<lparr>if_ip := ucast val\<rparr> else i)
                                              (interfaces st)\<rparr>, []))
      | F_IP_TTL \<Rightarrow> Inr (Inr (), upd (f\<lparr>f_ttl := ucast val\<rparr>) st, [])
      | F_IP_PROTO_TYPE \<Rightarrow> Inr (Inr (), upd (f\<lparr>f_protocol := ucast val\<rparr>) st, [])
      | _ \<Rightarrow> Inr (Inl EINVAL, st, []))"

text \<open>The copy of an incoming packet for one file; the second component is the owner if he gets a signal.
  The length of the data is taken from the header and wraps around.\<close>

definition ip_deliver :: "u8 list \<Rightarrow> ip_file \<Rightarrow> (ip_file \<times> int list) outcome" where
  "ip_deliver raw f =
     (let hl = unat (raw ! 0 AND 0xF) * 4;
          len = (ucast (get16 raw 2) - of_nat hl :: u32)
      in
      if f_dest f \<noteq> get32 raw 12 \<and> f_dest f \<noteq> 0xFFFFFFFF then Inr (f, [])
      else if length raw < hl + unat len then Inl OutOfBounds
      else Inr (f\<lparr>f_inqueue := f_inqueue f @
             [\<lparr>ip_src = get32 raw 12, ip_dest = get32 raw 16, ip_protocol = raw ! 9, ip_ttl = raw ! 8,
               ip_data = take (unat len) (drop hl raw)\<rparr>]\<rparr>, if f_signal f then [f_owner f] else []))"

fun ip_deliver_all :: "u8 list \<Rightarrow> ip_file list \<Rightarrow> (ip_file list \<times> int list) outcome" where
  "ip_deliver_all raw [] = Inr ([], [])"
| "ip_deliver_all raw (f # fs) =
     rbind (ip_deliver raw f) (\<lambda>(f, sg). rbind (ip_deliver_all raw fs) (\<lambda>(fs, sgs). Inr (f # fs, sg @ sgs)))"

text \<open>What the loop of \<open>incoming\<close> does with one packet of the given type: the service, the frames sent, the owners
  that are signalled.\<close>

definition ip_incoming ::
    "(nat \<Rightarrow> u64) \<Rightarrow> interface \<Rightarrow> u16 \<Rightarrow> u8 list \<Rightarrow> ip_service \<Rightarrow> (ip_service \<times> eth_wire \<times> int list) outcome" where
  "ip_incoming my_mac i packet_type raw st =
     (if packet_type = 0x0806 then let (st, w) = arp_incoming my_mac i raw st in Inr (st, w, [])
      else if packet_type \<noteq> 0x0800 then Inr (st, [], [])
      else if length raw < 20 then Inl OutOfBounds
      else if get32 raw 16 \<noteq> 0xFFFFFFFF \<and> get32 raw 16 \<noteq> if_ip i then Inr (st, [], [])
      else
        let hl = unat (raw ! 0 AND 0xF) * 4 in
        if length raw < hl then Inl OutOfBounds
        else if ip_calculate_network_checksum (take hl raw) \<noteq> 0 then Inr (st, [], [])
        else rbind (ip_deliver_all raw (ip_connections st)) (\<lambda>(fs, sgs). Inr (st\<lparr>ip_connections := fs\<rparr>, [], sgs)))"

text \<open>The loop, on the packets in the queue of the pipe to the interface.\<close>

fun ip_incoming_loop ::
    "(nat \<Rightarrow> u64) \<Rightarrow> interface \<Rightarrow> (u16 \<times> u8 list) list \<Rightarrow> ip_service \<Rightarrow> (ip_service \<times> eth_wire \<times> int list) outcome" where
  "ip_incoming_loop my_mac i [] st = Inr (st, [], [])"
| "ip_incoming_loop my_mac i ((ty, raw) # ps) st =
     rbind (ip_incoming my_mac i ty raw st) (\<lambda>(st, w, sg).
     rbind (ip_incoming_loop my_mac i ps st) (\<lambda>(st, ws, sgs). Inr (st, w @ ws, sg @ sgs)))"

text \<open>A service with one interface and two routes, of which the second is the default route.\<close>

definition sample_ifc :: "u32 \<Rightarrow> interface" where
  "sample_ifc ip = \<lparr>if_addr = 1, if_name = [101], if_fd = 3, if_ip = ip\<rparr>"

definition sample_ip :: "u32 \<Rightarrow> ip_service" where
  "sample_ip ip =
     \<lparr>interfaces = [sample_ifc ip],
      routing_table = [\<lparr>rt_dest = 0x0A000000, rt_mask = 0xFF000000, rt_gw = 0, rt_iface = [101]\<rparr>,
                       \<lparr>rt_dest = 0, rt_mask = 0, rt_gw = 1, rt_iface = [101]\<rparr>],
      arp_cache = replicate 32 \<lparr>ce_i = 0, ce_ip = 0, ce_mac = 0, ce_last_usage = 0\<rparr>,
      usage_counter = 0, reply_ip = 0x0A000002, reply_mac = 9, ip_connections = []\<rparr>"

section \<open>Address resolution\<close>

lemma mac_bytes_length [simp]: "length (mac_bytes m) = 6"
  by (simp add: mac_bytes_def)

lemma upt6: "[0..<6] = [0, 1, 2, 3, 4, 5 :: nat]"
  by (simp add: upt_rec)

lemma bytes_mac_bytes: "bytes_mac (mac_bytes m) = take_bit 48 m"
proof (rule bit_word_eqI)
  fix n
  assume "n < LENGTH(64)"
  then consider "n < 8" | "8 \<le> n" "n < 16" | "16 \<le> n" "n < 24" | "24 \<le> n" "n < 32" | "32 \<le> n" "n < 40"
    | "40 \<le> n" "n < 48" | "48 \<le> n" "n < 64" by fastforce
  then show "bit (bytes_mac (mac_bytes m)) n = bit (take_bit 48 m) n"
    by cases (auto simp: bytes_mac_def mac_bytes_def upt6 bit_simps)
qed

lemma arp_bytes_length:
  "length (a_senderhwaddr p) = 6 \<Longrightarrow> length (a_targethwaddr p) = 6 \<Longrightarrow> length (arp_bytes p) = 28"
  by (simp add: arp_bytes_def)

lemma list6:
  assumes "length xs = 6"
  obtains a b c d e f where "xs = [a, b, c, d, e, f]"
  using assms by (auto simp: eval_nat_numeral length_Suc_conv)

lemma read_arp_bytes:
  assumes "length (a_senderhwaddr p) = 6" "length (a_targethwaddr p) = 6"
  shows "read_arp (arp_bytes p) = p"
proof -
  obtain a b c d e f where s: "a_senderhwaddr p = [a, b, c, d, e, f]" using assms(1) by (rule list6)
  obtain g h i j k l where t: "a_targethwaddr p = [g, h, i, j, k, l]" using assms(2) by (rule list6)
  show ?thesis
    using s t by (cases p)
      (simp add: read_arp_def arp_bytes_def get16_def get32_def be16_def be32_def word16_split word32_split)
qed

lemma arp_incoming_request:
  assumes "if_ip ib = ip"
  shows "arp_incoming mb ib (arp_bytes (arp_request ma ia ip)) st =
    (st, [(if_addr ib, 0x0806, take_bit 48 (ma (if_addr ia)),
           arp_bytes (arp_request mb ib (if_ip ia)
             \<lparr>a_operation := 2, a_targethwaddr := mac_bytes (ma (if_addr ia))\<rparr>))])"
proof -
  let ?q = "arp_request ma ia ip"
  have l: "length (a_senderhwaddr ?q) = 6" "length (a_targethwaddr ?q) = 6" by (simp_all add: arp_request_def)
  show ?thesis
    using assms by (simp add: arp_incoming_def arp_bytes_length [OF l] read_arp_bytes [OF l] Let_def)
      (simp add: arp_request_def bytes_mac_bytes)
qed

lemma arp_incoming_reply:
  assumes "length (a_senderhwaddr p) = 6" "length (a_targethwaddr p) = 6"
    and "a_hwaddrtype p = 1" "a_protoaddrtype p = 0x0800" "a_operation p = 2"
  shows "arp_incoming ma ia (arp_bytes p) st =
    (st\<lparr>reply_mac := bytes_mac (a_senderhwaddr p), reply_ip := a_senderprotoaddr p\<rparr>, [])"
  using assms(3-5) by (simp add: arp_incoming_def arp_bytes_length [OF assms(1,2)] read_arp_bytes [OF assms(1,2)])


lemma cache_find_SomeD:
  "cache_find a ip es = Some k \<Longrightarrow> k < length es \<and> ce_i (es ! k) = a \<and> ce_ip (es ! k) = ip"
  by (induction es arbitrary: k) (auto split: if_splits)

lemma cache_find_None: "cache_find a ip es = None \<longleftrightarrow> (\<forall>e \<in> set es. \<not> (ce_i e = a \<and> ce_ip e = ip))"
  by (induction es) auto

lemma cache_victim_bound: "cache_victim k t j es < k + length es \<or> cache_victim k t j es = j"
proof (induction es arbitrary: k t j)
  case (Cons e es)
  show ?case using Cons.IH [of "Suc k" t j] Cons.IH [of "Suc k" "ce_last_usage e" k] by (auto simp: Let_def)
qed simp

lemma cache_victim_less: "es \<noteq> [] \<Longrightarrow> cache_victim 0 t 0 es < length es"
  using cache_victim_bound [of 0 t 0 es] by auto

text \<open>No two entries of the cache are for the same interface and address, except for empty entries.\<close>

definition cache_ok :: "cache_entry list \<Rightarrow> bool" where
  "cache_ok es \<longleftrightarrow> length es = ARP_CACHE_SIZE \<and>
     (\<forall>i < length es. \<forall>j < length es. ce_i (es ! i) \<noteq> 0 \<and> ce_i (es ! i) = ce_i (es ! j) \<and>
        ce_ip (es ! i) = ce_ip (es ! j) \<longrightarrow> i = j)"

lemma cache_find_unique:
  assumes "cache_ok es" "k < length es" "ce_i (es ! k) \<noteq> 0"
  shows "cache_find (ce_i (es ! k)) (ce_ip (es ! k)) es = Some k"
proof (cases "cache_find (ce_i (es ! k)) (ce_ip (es ! k)) es")
  case None
  then show ?thesis using assms(2) by (auto simp: cache_find_None)
next
  case (Some m)
  then show ?thesis using cache_find_SomeD [OF Some] assms unfolding cache_ok_def by metis
qed

lemma cache_okD:
  assumes "cache_ok es" "i < length es" "j < length es" "ce_i (es ! i) \<noteq> 0"
    and "ce_i (es ! i) = ce_i (es ! j)" "ce_ip (es ! i) = ce_ip (es ! j)"
  shows "i = j"
  using assms unfolding cache_ok_def by blast

lemma cache_ok_touch:
  assumes "cache_ok es"
  shows "cache_ok (es[i := (es ! i)\<lparr>ce_last_usage := u\<rparr>])"
proof -
  have "ce_i (es[i := (es ! i)\<lparr>ce_last_usage := u\<rparr>] ! j) = ce_i (es ! j)" for j
    by (cases "i < length es") (simp_all add: nth_list_update list_update_beyond)
  moreover have "ce_ip (es[i := (es ! i)\<lparr>ce_last_usage := u\<rparr>] ! j) = ce_ip (es ! j)" for j
    by (cases "i < length es") (simp_all add: nth_list_update list_update_beyond)
  ultimately show ?thesis using assms unfolding cache_ok_def by simp
qed

lemma cache_ok_insert:
  assumes ok: "cache_ok es" and free: "cache_find (ce_i e) (ce_ip e) es = None"
  shows "cache_ok (es[v := e])"
proof -
  have no: "ce_i (es ! j) = ce_i e \<Longrightarrow> ce_ip (es ! j) \<noteq> ce_ip e" if "j < length es" for j
    using free nth_mem [OF that] by (auto simp: cache_find_None)
  have upd: "es[v := e] ! j = (if j = v then e else es ! j)" if "j < length es" for j
    using that by (auto simp: nth_list_update)
  have "i = j" if ij: "i < length es" "j < length es"
    and eq: "ce_i (es[v := e] ! i) \<noteq> 0" "ce_i (es[v := e] ! i) = ce_i (es[v := e] ! j)"
      "ce_ip (es[v := e] ! i) = ce_ip (es[v := e] ! j)" for i j
  proof (cases "i = v \<or> j = v")
    case True
    then show ?thesis using eq no [OF ij(1)] no [OF ij(2)] unfolding upd [OF ij(1)] upd [OF ij(2)]
      by (cases "i = v"; cases "j = v") auto
  next
    case False
    then show ?thesis using eq ij by (intro cache_okD [OF ok ij]) (simp_all add: upd)
  qed
  then show ?thesis using ok unfolding cache_ok_def by (metis length_list_update)
qed

lemma arp_incoming_cache [simp]:
  "arp_cache (fst (arp_incoming m ifc raw st)) = arp_cache st"
  "usage_counter (fst (arp_incoming m ifc raw st)) = usage_counter st"
  by (simp_all add: arp_incoming_def Let_def)

lemma arp_wait_cache [simp]:
  "arp_cache (fst (arp_wait m ip evs st)) = arp_cache st"
  by (induction m ip evs st rule: arp_wait.induct)
    (simp, metis (no_types, lifting) arp_incoming_cache(1) arp_wait.simps(2) fst_conv prod.collapse case_prod_conv)


lemma arp_resolve_cache:
  "arp_resolve m evs ifc ip st = (mac, st', w) \<Longrightarrow> arp_cache st' = arp_cache st"
  using arp_wait_cache [of m ip evs st] by (cases "arp_wait m ip evs st") (auto simp: arp_resolve_def)

text \<open>The resolution cache keeps its size and never holds two entries for the same interface and address,
  whatever is looked up and whatever packets come in; a lookup that finds an address leaves it in the
  cache, so that the next lookup returns the same without sending anything.\<close>

theorem arp_lookup_cache:
  assumes "cache_ok (arp_cache st)" "if_addr ifc \<noteq> 0" "arp_lookup m evs ifc ip st = (mac, st', w)"
  shows "cache_ok (arp_cache st') \<and>
    (mac \<noteq> 0 \<longrightarrow> (\<forall>evs'. \<exists>st''. arp_lookup m evs' ifc ip st' = (mac, st'', [])))"
proof (cases "cache_find (if_addr ifc) ip (arp_cache st)")
  case None
  obtain mac1 st1 w1 where r: "arp_resolve m evs ifc ip st = (mac1, st1, w1)" by (metis prod_cases3)
  have c: "arp_cache st1 = arp_cache st" by (rule arp_resolve_cache [OF r])
  show ?thesis
  proof (cases "mac1 = 0")
    case True
    then show ?thesis using assms None r c by (simp add: arp_lookup_def)
  next
    case False
    define v where "v = cache_victim 0 (usage_counter st1) 0 (arp_cache st)"
    define e where "e = \<lparr>ce_i = if_addr ifc, ce_ip = ip, ce_mac = mac1, ce_last_usage = usage_counter st1\<rparr>"
    have ne: "arp_cache st \<noteq> []" using assms(1) by (auto simp: cache_ok_def ARP_CACHE_SIZE_def)
    have v: "v < length (arp_cache st)" unfolding v_def by (rule cache_victim_less [OF ne])
    have ok: "cache_ok ((arp_cache st)[v := e])"
      by (rule cache_ok_insert) (use assms(1) None in \<open>simp_all add: e_def\<close>)
    have st': "arp_cache st' = (arp_cache st)[v := e]" "mac = mac1"
      using assms(3) None r c False by (simp_all add: arp_lookup_def v_def e_def) auto
    have "cache_find (if_addr ifc) ip ((arp_cache st)[v := e]) = Some v"
      using cache_find_unique [OF ok, of v] v assms(2) by (simp add: e_def)
    then have "\<exists>st''. arp_lookup m evs' ifc ip st' = (mac, st'', [])" for evs'
      using st' v by (simp add: arp_lookup_def e_def)
    then show ?thesis using ok st'(1) by simp
  qed
next
  case (Some k)
  have k: "k < length (arp_cache st)" "ce_i (arp_cache st ! k) = if_addr ifc" "ce_ip (arp_cache st ! k) = ip"
    using cache_find_SomeD [OF Some] by simp_all
  let ?c = "(arp_cache st)[k := (arp_cache st ! k)\<lparr>ce_last_usage := usage_counter st\<rparr>]"
  have ok: "cache_ok ?c" by (rule cache_ok_touch [OF assms(1)])
  have st': "arp_cache st' = ?c" "mac = ce_mac (arp_cache st ! k)"
    using assms(3) Some by (auto simp: arp_lookup_def)
  have "cache_find (if_addr ifc) ip ?c = Some k"
    using cache_find_unique [OF ok, of k] k assms(2) by simp
  then have "\<exists>st''. arp_lookup m evs' ifc ip st' = (mac, st'', [])" for evs'
    using st' k by (simp add: arp_lookup_def)
  then show ?thesis using ok st'(1) by simp
qed

lemma cache_find_empty: "a \<noteq> 0 \<Longrightarrow> cache_find a ip (replicate n \<lparr>ce_i = 0, ce_ip = 0, ce_mac = m, ce_last_usage = u\<rparr>) = None"
  by (simp add: cache_find_None)

theorem arp_lookup_cache_witness:
  "\<exists>st w. arp_lookup (\<lambda>_. 5) [] (sample_ifc 7) 0x0A000002 (sample_ip 7) = (9, st, w) \<and> cache_ok (arp_cache st) \<and>
     (\<exists>st'. arp_lookup (\<lambda>_. 5) [] (sample_ifc 7) 0x0A000002 st = (9, st', []))"
proof -
  have "cache_find 1 0x0A000002 (arp_cache (sample_ip 7)) = None"
    by (simp add: sample_ip_def cache_find_empty)
  then obtain st w where r: "arp_lookup (\<lambda>_. 5) [] (sample_ifc 7) 0x0A000002 (sample_ip 7) = (9, st, w)"
    by (simp add: arp_lookup_def arp_resolve_def sample_ifc_def Let_def) (simp add: sample_ip_def)
  have ok: "cache_ok (arp_cache (sample_ip 7))" "if_addr (sample_ifc 7) \<noteq> 0"
    by (simp_all add: cache_ok_def sample_ip_def sample_ifc_def ARP_CACHE_SIZE_def)
  show ?thesis using arp_lookup_cache [OF ok r] r by auto
qed

text \<open>C40: Two hosts on one network resolve each other: the request that \<open>arp_lookup\<close> broadcasts makes the host
  with the address answer to the hardware address of the sender, and this answer makes the waiting lookup
  return the hardware address of the answering host.\<close>

theorem arp_exchange:
  assumes "if_ip ib = ip" "cache_find (if_addr ia) ip (arp_cache sta) = None" "reply_ip sta \<noteq> ip"
    and "take_bit 48 (ma (if_addr ia)) = ma (if_addr ia)" "take_bit 48 (mb (if_addr ib)) = mb (if_addr ib)"
    and "mb (if_addr ib) \<noteq> 0"
  shows "\<exists>request answer sta'.
    arp_incoming mb ib request stb = (stb, [(if_addr ib, 0x0806, ma (if_addr ia), answer)]) \<and>
    arp_lookup ma [(ia, answer)] ia ip sta =
      (mb (if_addr ib), sta', [(if_addr ia, 0x0806, 0xFFFFFFFFFFFF, request)])"
proof -
  define answer where "answer = arp_request mb ib (if_ip ia)\<lparr>a_operation := 2, a_targethwaddr := mac_bytes (ma (if_addr ia))\<rparr>"
  have inc: "arp_incoming ma ia (arp_bytes answer) sta =
      (sta\<lparr>reply_mac := mb (if_addr ib), reply_ip := ip\<rparr>, [])"
    using assms(1,5) arp_incoming_reply [of answer ma ia sta]
    by (simp add: answer_def arp_request_def bytes_mac_bytes)
  have "arp_incoming mb ib (arp_bytes (arp_request ma ia ip)) stb =
      (stb, [(if_addr ib, 0x0806, ma (if_addr ia), arp_bytes answer)])"
    using arp_incoming_request [OF assms(1), of mb ma ia stb] assms(4) by (simp add: answer_def)
  moreover have "\<exists>sta'. arp_lookup ma [(ia, arp_bytes answer)] ia ip sta =
      (mb (if_addr ib), sta', [(if_addr ia, 0x0806, 0xFFFFFFFFFFFF, arp_bytes (arp_request ma ia ip))])"
    using assms(2,3,6) by (simp add: arp_lookup_def arp_resolve_def inc Let_def)
  ultimately show ?thesis by blast
qed

theorem arp_exchange_witness:
  "\<exists>request answer sta'.
     arp_incoming (\<lambda>_. 8) (sample_ifc 0x0A000003) request (sample_ip 0x0A000003) =
       (sample_ip 0x0A000003, [(1, 0x0806, 5, answer)]) \<and>
     arp_lookup (\<lambda>_. 5) [(sample_ifc 7, answer)] (sample_ifc 7) 0x0A000003 (sample_ip 7) =
       (8, sta', [(1, 0x0806, 0xFFFFFFFFFFFF, request)])"
  using arp_exchange [of "sample_ifc 0x0A000003" "0x0A000003" "sample_ifc 7" "sample_ip 7" "\<lambda>_. 5" "\<lambda>_. 8"]
  by (simp add: sample_ifc_def) (simp add: sample_ip_def cache_find_empty)

section \<open>Routing\<close>

text \<open>The addresses of the interfaces count from 1 upwards, the latest interface being the first, and no two
  have the same name.\<close>

definition ifs_ok :: "interface list \<Rightarrow> bool" where
  "ifs_ok ifs \<longleftrightarrow> map if_addr ifs = rev [1..<Suc (length ifs)] \<and> distinct (map if_name ifs)"

lemma interface_at_Cons_new:
  "interface_at (if_addr i) (i # ifs) = Some i"
  by (simp add: interface_at_def)

lemma find_SomeD: "find P xs = Some x \<Longrightarrow> P x \<and> x \<in> set xs"
  by (induction xs) (auto split: if_splits)

lemma interface_at_mem:
  assumes "distinct (map if_addr ifs)" "i \<in> set ifs"
  shows "interface_at (if_addr i) ifs = Some i"
  using assms by (induction ifs) (auto simp: interface_at_def image_iff)

lemma ifs_ok_distinct: "ifs_ok ifs \<Longrightarrow> distinct (map if_addr ifs)"
  by (simp add: ifs_ok_def)

lemma interface_at_0:
  assumes "ifs_ok ifs"
  shows "interface_at 0 ifs = None"
proof -
  have "0 \<notin> set (map if_addr ifs)" using assms unfolding ifs_ok_def by (simp only: set_rev set_upt) simp
  then show ?thesis by (auto simp: interface_at_def find_None_iff)
qed

lemma interface_at_le:
  assumes "ifs_ok ifs" "interface_at a ifs = Some j"
  shows "j \<in> set ifs" "if_addr j = a" "0 < a" "a \<le> length ifs"
proof -
  show j: "j \<in> set ifs" "if_addr j = a" using find_SomeD [OF assms(2) [unfolded interface_at_def]] by simp_all
  then have "a \<in> set (map if_addr ifs)" by force
  then show "0 < a" "a \<le> length ifs" using assms(1) unfolding ifs_ok_def by (simp_all only: set_rev set_upt) simp_all
qed

lemma find_name:
  assumes "distinct (map if_name ifs)" "j \<in> set ifs"
  shows "find (\<lambda>i. if_name i = if_name j) ifs = Some j"
  using assms by (induction ifs) (auto simp: image_iff)

text \<open>The interface is found if it is known or the Ethernet service opens it; known interfaces stay.\<close>

lemma locate_interface_ok:
  assumes "ifs_ok ifs" "locate_interface eo name ifs = (a, ifs')"
  shows "ifs_ok ifs'" "interface_at k ifs = Some j \<Longrightarrow> interface_at k ifs' = Some j"
    "interface_at k ifs = Some j \<Longrightarrow> a = k \<longleftrightarrow> name = if_name j"
    "interface_at k ifs = Some j \<Longrightarrow> name = if_name j \<Longrightarrow> ifs' = ifs"
    "if eo name < 0 \<and> name \<notin> if_name ` set ifs then a = 0 \<and> ifs' = ifs
     else \<exists>i. interface_at a ifs' = Some i \<and> if_name i = name"
proof -
  have "ifs_ok ifs' \<and> (interface_at k ifs = Some j \<longrightarrow> interface_at k ifs' = Some j \<and> (a = k \<longleftrightarrow> name = if_name j) \<and> (name = if_name j \<longrightarrow> ifs' = ifs))
    \<and> (if eo name < 0 \<and> name \<notin> if_name ` set ifs then a = 0 \<and> ifs' = ifs
     else \<exists>i. interface_at a ifs' = Some i \<and> if_name i = name)"
  proof (cases "find (\<lambda>i. if_name i = name) ifs")
    case None
    then have n: "name \<notin> if_name ` set ifs" by (auto simp: find_None_iff)
    have k: "0 < k \<and> k \<le> length ifs \<and> name \<noteq> if_name j" if "interface_at k ifs = Some j"
      using interface_at_le [OF assms(1) that] n by auto
    show ?thesis
      using assms None n k by (auto simp: locate_interface_def Let_def ifs_ok_def interface_at_def split: if_splits)
  next
    case (Some i)
    then have i: "if_name i = name" "i \<in> set ifs" using find_SomeD [OF Some] by simp_all
    have ai: "a = if_addr i" "ifs' = ifs" using assms(2) Some by (simp_all add: locate_interface_def)
    have at: "interface_at (if_addr i) ifs = Some i" by (rule interface_at_mem [OF ifs_ok_distinct [OF assms(1)] i(2)])
    have "a = k \<longleftrightarrow> name = if_name j" if j: "interface_at k ifs = Some j"
    proof
      assume "a = k"
      then show "name = if_name j" using at j ai i by simp
    next
      assume "name = if_name j"
      then have "i = j" using find_name [of ifs j] interface_at_le(1) [OF assms(1) j] assms(1) Some by (simp add: ifs_ok_def)
      then show "a = k" using ai interface_at_le(2) [OF assms(1) j] by simp
    qed
    moreover have "name \<in> if_name ` set ifs" using i by auto
    ultimately show ?thesis using assms(1) ai i at by auto
  qed
  then show "ifs_ok ifs'" "interface_at k ifs = Some j \<Longrightarrow> interface_at k ifs' = Some j"
    "interface_at k ifs = Some j \<Longrightarrow> a = k \<longleftrightarrow> name = if_name j"
    "interface_at k ifs = Some j \<Longrightarrow> name = if_name j \<Longrightarrow> ifs' = ifs"
    "if eo name < 0 \<and> name \<notin> if_name ` set ifs then a = 0 \<and> ifs' = ifs
     else \<exists>i. interface_at a ifs' = Some i \<and> if_name i = name" by auto
qed

definition route_hit :: "u32 \<Rightarrow> routing_table_entry \<Rightarrow> bool" where
  "route_hit ip r \<longleftrightarrow> rt_dest r AND rt_mask r = ip AND rt_mask r"

text \<open>An entry whose network contains the address and that names the interface asked for, if any.\<close>

definition route_fits :: "interface list \<Rightarrow> u32 \<Rightarrow> nat \<Rightarrow> routing_table_entry \<Rightarrow> bool" where
  "route_fits ifs ip on_ifc r \<longleftrightarrow> route_hit ip r \<and>
     (on_ifc = 0 \<or> (\<exists>j. interface_at on_ifc ifs = Some j \<and> if_name j = rt_iface r))"

abbreviation prefix_len :: "routing_table_entry \<Rightarrow> nat" where
  "prefix_len r \<equiv> popcount (rt_mask r)"

fun route_pick :: "(routing_table_entry \<Rightarrow> bool) \<Rightarrow> routing_table_entry option \<Rightarrow> routing_table_entry list \<Rightarrow> routing_table_entry option" where
  "route_pick fits best [] = best"
| "route_pick fits best (r # rs) =
     route_pick fits (if fits r \<and> (case best of None \<Rightarrow> True | Some b \<Rightarrow> prefix_len b < prefix_len r) then Some r else best) rs"

lemma route_loop_pick:
  assumes "ifs_ok ifs" "on_ifc = 0 \<or> interface_at on_ifc ifs = Some j"
    and "route_loop eo ip on_ifc rs b ifs = (b', ifs')"
  shows "ifs_ok ifs' \<and> (on_ifc = 0 \<longrightarrow> ifs' = ifs) \<and> (on_ifc \<noteq> 0 \<longrightarrow> interface_at on_ifc ifs' = Some j) \<and>
    b' = route_pick (route_fits ifs ip on_ifc) b rs"
  using assms
proof (induction rs arbitrary: b ifs)
  case (Cons r rs)
  define ok where "ok = (case b of None \<Rightarrow> True | Some c \<Rightarrow> prefix_len c < prefix_len r)"
  obtain a ifs1 where loc: "locate_interface eo (rt_iface r) ifs = (a, ifs1)" by fastforce
  define ifs2 where "ifs2 = (if on_ifc \<noteq> 0 \<and> route_hit ip r then ifs1 else ifs)"
  have fits: "route_fits ifs ip on_ifc r \<longleftrightarrow> route_hit ip r \<and> (on_ifc = 0 \<or> a = on_ifc)"
    using Cons.prems(2) locate_interface_ok(3) [OF Cons.prems(1) loc, of on_ifc j] by (auto simp: route_fits_def)
  have "route_loop eo ip on_ifc rs (if route_fits ifs ip on_ifc r \<and> ok then Some r else b) ifs2 = (b', ifs')"
    using Cons.prems(3) loc unfolding fits by (cases "on_ifc = 0") (auto simp: route_hit_def ifs2_def ok_def Let_def split: if_splits)
  moreover have 2: "ifs_ok ifs2" "on_ifc = 0 \<or> interface_at on_ifc ifs2 = Some j" "on_ifc = 0 \<longrightarrow> ifs2 = ifs"
    using Cons.prems(1,2) locate_interface_ok(1,2) [OF Cons.prems(1) loc] by (auto simp: ifs2_def)
  moreover have "route_fits ifs2 ip on_ifc = route_fits ifs ip on_ifc"
    using 2 Cons.prems(2) by (auto simp: route_fits_def fun_eq_iff)
  ultimately show ?case using Cons.IH [OF 2(1,2)] by (auto simp: ok_def)
qed auto

text \<open>The pick is the first of the entries with the longest mask.\<close>

definition first_longest :: "(routing_table_entry \<Rightarrow> bool) \<Rightarrow> routing_table_entry list \<Rightarrow> routing_table_entry \<Rightarrow> bool" where
  "first_longest fits rs b \<longleftrightarrow> (\<exists>pre post. rs = pre @ b # post \<and> fits b \<and>
     (\<forall>r \<in> set pre. fits r \<longrightarrow> prefix_len r < prefix_len b) \<and> (\<forall>r \<in> set post. fits r \<longrightarrow> prefix_len r \<le> prefix_len b))"

lemma first_longest_same: "fits b \<Longrightarrow> \<forall>r \<in> set rs. fits r \<longrightarrow> prefix_len r \<le> prefix_len b \<Longrightarrow> first_longest fits (b # rs) b"
  unfolding first_longest_def by (intro exI [of _ "[]"] exI [of _ rs]) simp

lemma first_longest_skip: "fits q \<longrightarrow> prefix_len q < prefix_len b \<Longrightarrow> first_longest fits rs b \<Longrightarrow> first_longest fits (q # rs) b"
  unfolding first_longest_def by (elim exE conjE) (rule_tac x = "q # pre" in exI, auto)

lemma route_pick_from:
  "route_pick fits (Some c) rs = Some c \<and> (\<forall>r \<in> set rs. fits r \<longrightarrow> prefix_len r \<le> prefix_len c) \<or>
   (\<exists>b. route_pick fits (Some c) rs = Some b \<and> prefix_len c < prefix_len b \<and> first_longest fits rs b)"
proof (induction rs arbitrary: c)
  case (Cons r rs)
  show ?case
  proof (cases "fits r \<and> prefix_len c < prefix_len r")
    case True
    from Cons.IH [of r] show ?thesis
    proof (elim disjE exE conjE)
      fix b assume b: "route_pick fits (Some r) rs = Some b" "prefix_len r < prefix_len b" "first_longest fits rs b"
      with True first_longest_skip [of fits r b rs] show ?thesis by auto
    qed (use True first_longest_same [of fits r rs] in auto)
  next
    case False
    then have p: "route_pick fits (Some c) (r # rs) = route_pick fits (Some c) rs" by auto
    from Cons.IH [of c] show ?thesis
    proof (elim disjE exE conjE)
      fix b assume b: "route_pick fits (Some c) rs = Some b" "prefix_len c < prefix_len b" "first_longest fits rs b"
      have "fits r \<longrightarrow> prefix_len r < prefix_len b" using False b(2) by auto
      with b p first_longest_skip [of fits r b rs] show ?thesis by auto
    qed (use False p in auto)
  qed
qed simp

lemma route_pick_first_longest:
  "case route_pick fits None rs of None \<Rightarrow> \<forall>r \<in> set rs. \<not> fits r | Some b \<Rightarrow> first_longest fits rs b"
proof (induction rs)
  case (Cons r rs)
  show ?case
  proof (cases "fits r")
    case True
    from route_pick_from [of fits r rs] show ?thesis
    proof (elim disjE exE conjE)
      fix b assume b: "route_pick fits (Some r) rs = Some b" "prefix_len r < prefix_len b" "first_longest fits rs b"
      with True first_longest_skip [of fits r b rs] show ?thesis by auto
    qed (use True first_longest_same [of fits r rs] in auto)
  next
    case False
    with Cons.IH first_longest_skip [of fits r _ rs] show ?thesis by (auto split: option.splits)
  qed
qed simp

lemma arp_incoming_interfaces [simp]: "interfaces (fst (arp_incoming m ifc raw st)) = interfaces st"
  by (simp add: arp_incoming_def Let_def)

lemma arp_wait_interfaces [simp]: "interfaces (fst (arp_wait m ip evs st)) = interfaces st"
  by (induction m ip evs st rule: arp_wait.induct)
    (simp, metis (no_types, lifting) arp_incoming_interfaces arp_wait.simps(2) fst_conv prod.collapse case_prod_conv)

lemma arp_lookup_interfaces:
  assumes "arp_lookup m evs ifc ip st = (mac, st', w)"
  shows "interfaces st' = interfaces st"
proof -
  have "interfaces st1 = interfaces st" if "arp_resolve m evs ifc ip st = (mac1, st1, w1)" for mac1 st1 w1
    using that arp_wait_interfaces [of m ip evs st] by (cases "arp_wait m ip evs st") (auto simp: arp_resolve_def)
  then show ?thesis
    using assms by (auto simp: arp_lookup_def Let_def split: option.splits prod.splits if_splits)
qed

text \<open>C39: \<open>find_route\<close> exactly. With interfaces that have different addresses and names, and no interface asked for or a
  known one, let the entries that fit be those
  whose network contains the address and that name the interface asked for, if any. If there are none, nothing is
  found, nothing is sent and the values behind the pointers are left alone. Otherwise the route is the first
  of the fitting entries with the longest mask. If its interface is not known and cannot be opened, nothing is
  found either. Otherwise that interface is stored (the one asked for, if any); for the limited broadcast
  over a route without mask the hardware address is the broadcast address, and in all other cases it is what \<open>arp_lookup\<close> gives for the
  gateway or, without one, for the address itself, and the route is found if and only if this is not 0.\<close>

theorem find_route_longest_prefix:
  assumes "ifs_ok (interfaces st)" "on_ifc = 0 \<or> interface_at on_ifc (interfaces st) \<noteq> None"
    and "find_route eo mm evs ip out on_ifc st = (found, (a, mac), st', w)"
    and "fits = route_fits (interfaces st) ip on_ifc" "failed \<longleftrightarrow> \<not> found \<and> (a, mac) = out \<and> w = []"
  shows "if \<forall>r \<in> set (routing_table st). \<not> fits r then failed
    else \<exists>b. first_longest fits (routing_table st) b \<and>
      (if eo (rt_iface b) < 0 \<and> rt_iface b \<notin> if_name ` set (interfaces st) then failed
       else \<exists>i. interface_at a (interfaces st') = Some i \<and> if_name i = rt_iface b \<and> (on_ifc \<noteq> 0 \<longrightarrow> a = on_ifc) \<and>
         (if NOT (ip AND NOT (rt_mask b)) = 0 then found \<and> mac = 0xFFFFFFFFFFFF \<and> w = []
          else arp_lookup mm evs i (if rt_gw b \<noteq> 0 then rt_gw b else ip) (st\<lparr>interfaces := interfaces st'\<rparr>) = (mac, st', w)
            \<and> (found \<longleftrightarrow> mac \<noteq> 0)))"
proof -
  obtain best ifs where l: "route_loop eo ip on_ifc (routing_table st) None (interfaces st) = (best, ifs)" by fastforce
  from assms(2) obtain j where j: "on_ifc = 0 \<or> interface_at on_ifc (interfaces st) = Some j" by auto
  have L: "ifs_ok ifs" "on_ifc = 0 \<longrightarrow> ifs = interfaces st" "on_ifc \<noteq> 0 \<longrightarrow> interface_at on_ifc ifs = Some j"
      "best = route_pick fits None (routing_table st)"
    using route_loop_pick [OF assms(1) j l] by (simp_all add: assms(4))
  show ?thesis
  proof (cases best)
    case None
    with route_pick_first_longest [where fits = fits and rs = "routing_table st"] L(4) have "\<forall>r \<in> set (routing_table st). \<not> fits r" by simp
    then show ?thesis using assms(3,5) l None by (auto simp: find_route_def)
  next
    case (Some b)
    have fl: "first_longest fits (routing_table st) b"
      using route_pick_first_longest [where fits = fits and rs = "routing_table st"] Some unfolding L(4) by simp
    then have some: "\<not> (\<forall>r \<in> set (routing_table st). \<not> fits r)" and fb: "fits b" by (auto simp: first_longest_def)
    obtain a1 ifs1 where loc: "locate_interface eo (rt_iface b) ifs = (a1, ifs1)" by fastforce
    note loc' = locate_interface_ok [OF L(1) loc]
    let ?gone = "eo (rt_iface b) < 0 \<and> rt_iface b \<notin> if_name ` set (interfaces st)"
    have on: "a1 = on_ifc \<and> rt_iface b \<in> if_name ` set (interfaces st) \<and> rt_iface b \<in> if_name ` set ifs" if "on_ifc \<noteq> 0"
    proof -
      have "if_name j = rt_iface b" using fb that j by (auto simp: assms(4) route_fits_def)
      moreover have "j \<in> set (interfaces st)" "j \<in> set ifs"
        using that j L(3) interface_at_le(1) [OF assms(1)] interface_at_le(1) [OF L(1)] by auto
      ultimately show ?thesis using that L(3) loc'(3) [of on_ifc j] by (metis image_eqI)
    qed
    then have gone: "?gone \<longleftrightarrow> eo (rt_iface b) < 0 \<and> rt_iface b \<notin> if_name ` set ifs" using L(2) by blast
    show ?thesis
    proof (cases ?gone)
      case True
      then have "a1 = 0" "ifs1 = ifs" using loc'(5) gone by simp_all
      then have "failed" using assms(3,5) l Some loc interface_at_0 [OF L(1)] by (auto simp: find_route_def)
      with True fl some show ?thesis by auto
    next
      case False
      with loc'(5) gone obtain i where i: "interface_at a1 ifs1 = Some i" "if_name i = rt_iface b" by auto
      have "if NOT (ip AND NOT (rt_mask b)) = 0 then found \<and> a = a1 \<and> mac = 0xFFFFFFFFFFFF \<and> w = [] \<and> interfaces st' = ifs1
        else arp_lookup mm evs i (if rt_gw b \<noteq> 0 then rt_gw b else ip) (st\<lparr>interfaces := ifs1\<rparr>) = (mac, st', w)
          \<and> (found \<longleftrightarrow> mac \<noteq> 0) \<and> a = a1"
        using assms(3) l Some loc i(1) by (auto simp: find_route_def Let_def split: if_splits prod.splits)
      moreover from this have "interfaces st' = ifs1" using arp_lookup_interfaces by (auto split: if_splits)
      ultimately show ?thesis using False fl some i on by (auto split: if_splits)
    qed
  qed
qed

lemma popcount_sample: "popcount 0xFF000000 = 8" "popcount 0 = 0"
  by (simp_all add: popcount_def upt_rec bit_simps)

lemma find_route_sample:
  "\<exists>st w. find_route (\<lambda>_. - 1) (\<lambda>_. 5) [] 0x0A000002 (0, 0) 0 (sample_ip 7) = (True, (1, 9), st, w)"
proof -
  define ifs where "ifs = [sample_ifc 7]"
  define r where "r = \<lparr>rt_dest = 0x0A000000, rt_mask = 0xFF000000, rt_gw = 0, rt_iface = [101 :: u8]\<rparr>"
  have l: "route_loop (\<lambda>_. - 1) 0x0A000002 0 (routing_table (sample_ip 7)) None (interfaces (sample_ip 7)) = (Some r, ifs)"
    by (simp add: sample_ip_def r_def ifs_def popcount_sample)
  have i: "locate_interface (\<lambda>_. - 1) (rt_iface r) ifs = (1, ifs)" "interface_at 1 ifs = Some (sample_ifc 7)"
    by (simp_all add: locate_interface_def ifs_def r_def sample_ifc_def interface_at_def)
  have "cache_find 1 0x0A000002 (arp_cache (sample_ip 7)) = None" by (simp add: sample_ip_def cache_find_empty)
  then have "\<exists>st w. arp_lookup (\<lambda>_. 5) [] (sample_ifc 7) 0x0A000002 ((sample_ip 7)\<lparr>interfaces := ifs\<rparr>) = (9, st, w)"
    by (simp add: arp_lookup_def arp_resolve_def sample_ifc_def Let_def) (simp add: sample_ip_def)
  then show ?thesis using l i by (auto simp: find_route_def r_def)
qed

theorem find_route_longest_prefix_witness:
  "\<exists>st w. find_route (\<lambda>_. - 1) (\<lambda>_. 5) [] 0x0A000002 (0, 0) 0 (sample_ip 7) = (True, (1, 9), st, w) \<and>
     (\<exists>b i. first_longest (route_fits (interfaces (sample_ip 7)) 0x0A000002 0) (routing_table (sample_ip 7)) b \<and>
       interface_at 1 (interfaces st) = Some i \<and> if_name i = rt_iface b)"
proof -
  obtain st w where f: "find_route (\<lambda>_. - 1) (\<lambda>_. 5) [] 0x0A000002 (0, 0) 0 (sample_ip 7) = (True, (1, 9), st, w)"
    using find_route_sample by blast
  have ok: "ifs_ok (interfaces (sample_ip 7))" by (simp add: ifs_ok_def sample_ip_def sample_ifc_def)
  show ?thesis
    using find_route_longest_prefix [OF ok _ f refl refl] f by (auto split: if_splits)
qed

text \<open>The broadcast address of a network is not recognised: the test is true only for the default route and
  the address of the limited broadcast.\<close>

lemma broadcast_test: "NOT (ip AND NOT netmask) = 0 \<longleftrightarrow> ip = - 1 \<and> netmask = (0 :: u32)"
proof -
  have "NOT ip = 0 \<longleftrightarrow> ip = - 1" by (metis bit.compl_zero bit.double_compl)
  then show ?thesis by (simp add: or_eq_0_iff)
qed

text \<open>Deleting all routes of an interface leaves every second one.\<close>

lemma del_route_wildcard:
  assumes "\<forall>r \<in> set rs. rt_iface r = name" "rt_iface rte = name" "rt_dest rte = 0" "rt_gw rte = 0" "rt_mask rte = 0"
  shows "length (del_routes rte rs) = length rs div 2"
  using assms
proof (induction rte rs rule: del_routes.induct)
  case (2 q r rs)
  then show ?case by (cases rs) (simp_all add: route_matches_def)
qed simp

section \<open>Sending and receiving\<close>

lemma ip_header_length [simp]: "length (ip_header_bytes len ttl proto cs src dest) = 20"
  by (simp add: ip_header_bytes_def)

lemma ip_header_fields:
  fixes len ttl proto cs src dest rest
  defines "b \<equiv> ip_header_bytes len ttl proto cs src dest @ rest"
  shows "b ! 0 = 0x45" "get16 b 2 = len" "b ! 8 = ttl" "b ! 9 = proto" "get32 b 12 = src" "get32 b 16 = dest"
proof -
  have b: "b = 0x45 # 0 # ucast (drop_bit 8 len) # ucast len # 0 # 0 # 0x40 # 0 # ttl # proto #
      ucast (drop_bit 8 cs) # ucast cs #
      ucast (drop_bit 24 src) # ucast (drop_bit 16 src) # ucast (drop_bit 8 src) # ucast src #
      ucast (drop_bit 24 dest) # ucast (drop_bit 16 dest) # ucast (drop_bit 8 dest) # ucast dest # rest"
    by (simp add: b_def ip_header_bytes_def be16_def be32_def)
  show "b ! 0 = 0x45" "get16 b 2 = len" "b ! 8 = ttl" "b ! 9 = proto" "get32 b 12 = src" "get32 b 16 = dest"
    unfolding b get16_def get32_def by (simp_all add: word16_split word32_split)
qed

lemma ip_header_sealed:
  "ip_calculate_network_checksum (ip_header_bytes len ttl proto
     (ip_calculate_network_checksum (ip_header_bytes len ttl proto 0 src dest)) src dest) = 0"
proof -
  let ?pre = "[0x45, 0] @ be16 len @ be16 0 @ be16 0x4000 @ [ttl, proto]"
  have "calculate_network_checksum [] (?pre @ be16 (calculate_network_checksum [] (?pre @ be16 0 @ be32 src @ be32 dest))
          @ be32 src @ be32 dest) = 0"
    by (rule checksum_seal) simp_all
  moreover have "ip_header_bytes len ttl proto c src dest = ?pre @ be16 c @ be32 src @ be32 dest" for c
    by (simp add: ip_header_bytes_def)
  ultimately show ?thesis by (simp add: ip_checksum_eq)
qed

definition ip_listens :: "u32 \<Rightarrow> ip_file \<Rightarrow> bool" where
  "ip_listens src g \<longleftrightarrow> f_dest g = src \<or> f_dest g = 0xFFFFFFFF"

definition ip_push :: "ip_packet \<Rightarrow> ip_file \<Rightarrow> ip_file" where
  "ip_push p g = g\<lparr>f_inqueue := f_inqueue g @ [p]\<rparr>"

lemma ip_make_packet_delivers:
  fixes my_ip f data
  assumes "length data \<le> 65515"
  defines "p \<equiv> \<lparr>ip_src = my_ip, ip_dest = f_dest f, ip_protocol = ucast (f_protocol f), ip_ttl = ucast (f_ttl f), ip_data = data\<rparr>"
  shows "ip_deliver (ip_make_packet my_ip f data) g =
    Inr (if ip_listens my_ip g then (ip_push p g, if f_signal g then [f_owner g] else []) else (g, []))"
proof -
  have "unat (of_nat (20 + length data) :: u16) = 20 + length data"
    by (rule unat_of_nat16) (use assms(1) in simp)
  then have "unat (ucast (of_nat (20 + length data) :: u16) - 20 :: u32) = length data"
    by (subst unat_sub) (simp_all add: word_le_nat_alt del: of_nat_add)
  then show ?thesis
    unfolding ip_deliver_def ip_make_packet_def Let_def ip_header_fields
    by (simp add: ip_listens_def ip_push_def p_def)
qed

lemma ip_make_packet_delivers_all:
  fixes my_ip f data
  assumes "length data \<le> 65515"
  defines "p \<equiv> \<lparr>ip_src = my_ip, ip_dest = f_dest f, ip_protocol = ucast (f_protocol f), ip_ttl = ucast (f_ttl f), ip_data = data\<rparr>"
  shows "ip_deliver_all (ip_make_packet my_ip f data) gs =
    Inr (map (\<lambda>g. if ip_listens my_ip g then ip_push p g else g) gs,
         map f_owner (filter (\<lambda>g. ip_listens my_ip g \<and> f_signal g) gs))"
  by (induction gs) (simp_all add: ip_make_packet_delivers [OF assms(1)] p_def)

lemma ip_send_receive_spec:
  assumes "length data \<le> 65515" "interface_at (f_ifc f) (interfaces sta) = Some ia"
    and "f_dest f = if_ip ib \<or> f_dest f = 0xFFFFFFFF"
  shows "\<exists>raw. ip_stream_send f data sta = Inr [(f_ifc f, 0x0800, f_mac f, raw)] \<and>
    ip_incoming mb ib 0x0800 raw stb =
      Inr (stb\<lparr>ip_connections := map (\<lambda>g. if ip_listens (if_ip ia) g
             then ip_push \<lparr>ip_src = if_ip ia, ip_dest = f_dest f, ip_protocol = ucast (f_protocol f),
                            ip_ttl = ucast (f_ttl f), ip_data = data\<rparr> g
             else g) (ip_connections stb)\<rparr>, [],
           map f_owner (filter (\<lambda>g. ip_listens (if_ip ia) g \<and> f_signal g) (ip_connections stb)))"
proof -
  define raw where "raw = ip_make_packet (if_ip ia) f data"
  obtain cs where cs: "cs = ip_calculate_network_checksum (ip_header_bytes (of_nat (20 + length data))
      (ucast (f_ttl f)) (ucast (f_protocol f)) 0 (if_ip ia) (f_dest f))"
    and raw: "raw = ip_header_bytes (of_nat (20 + length data)) (ucast (f_ttl f)) (ucast (f_protocol f)) cs
      (if_ip ia) (f_dest f) @ data"
    by (simp add: raw_def ip_make_packet_def Let_def)
  have "ip_calculate_network_checksum (take 20 raw) = 0"
    using ip_header_sealed unfolding raw cs by simp
  moreover have "get32 raw 16 = f_dest f" "raw ! 0 = 0x45" "20 \<le> length raw"
    unfolding raw ip_header_fields by simp_all
  ultimately have "ip_incoming mb ib 0x0800 raw stb =
      rbind (ip_deliver_all raw (ip_connections stb)) (\<lambda>(fs, sgs). Inr (stb\<lparr>ip_connections := fs\<rparr>, [], sgs))"
    using assms(3) by (auto simp: ip_incoming_def)
  then show ?thesis
    using assms(2) unfolding raw_def ip_make_packet_delivers_all [OF assms(1)]
    by (simp add: ip_stream_send_def)
qed

text \<open>Bytes behind the end of the packet, with which the Ethernet service fills short frames, are ignored.\<close>

lemma get_append:
  "i + 2 \<le> length b \<Longrightarrow> get16 (b @ c) i = get16 b i" "i + 4 \<le> length b \<Longrightarrow> get32 (b @ c) i = get32 b i"
  by (simp_all add: get16_def get32_def nth_append)

lemma ip_deliver_pad:
  assumes "ip_deliver raw f = Inr r" "20 \<le> length raw"
  shows "ip_deliver (raw @ pad) f = Inr r"
  using assms by (auto simp: ip_deliver_def Let_def get_append nth_append split: if_splits)

lemma ip_deliver_all_pad:
  assumes "ip_deliver_all raw fs = Inr r" "20 \<le> length raw"
  shows "ip_deliver_all (raw @ pad) fs = Inr r"
  using assms(1)
proof (induction fs arbitrary: r)
  case (Cons f fs)
  then obtain a b where ab: "ip_deliver raw f = Inr a" "ip_deliver_all raw fs = Inr b" by (auto simp: outcome_simps)
  show ?case using Cons.prems ip_deliver_pad [OF ab(1) assms(2)] Cons.IH [OF ab(2)] ab by simp
qed simp

lemma ip_incoming_pad:
  assumes "ip_incoming my_mac i 0x0800 raw st = Inr r" "20 \<le> length raw"
  shows "ip_incoming my_mac i 0x0800 (raw @ pad) st = Inr r"
  using assms
  by (auto simp: ip_incoming_def Let_def get_append nth_append outcome_simps ip_deliver_all_pad split: if_splits)

end
