(* ===== verification/Udp.thy ===== *)
theory Udp
  imports Ip
begin

text \<open>
  The UDP service (\<open>src/progs/common/udp/udp.c\<close>): the datagrams it builds, what it does with the ones
  that come in, and its pipes. It stands on the IP service: what it sends is handed to a pipe of that
  service, what comes in is read from there.
\<close>

record udp_packet =
  up_src_ip :: u32
  up_src_port :: u16
  up_data :: "u8 list"

record udp_file =
  uf_dest_ip :: u32
  uf_port :: u16
  uf_dest_port :: u16
  uf_owner :: int
  uf_signal :: bool
  uf_inqueue :: "udp_packet list"

record udp_service =
  udp_connections :: "udp_file list"
  udp_port_counter :: u16

text \<open>The bytes of \<open>struct udp_header\<close>.\<close>

definition udp_header_bytes :: "u16 \<Rightarrow> u16 \<Rightarrow> u16 \<Rightarrow> u16 \<Rightarrow> u8 list" where
  "udp_header_bytes src_port dest_port len checksum = be16 src_port @ be16 dest_port @ be16 len @ be16 checksum"

text \<open>\<open>service_create_pipe\<close>; \<open>None\<close> is \<open>ENOENT\<close>. The address is stored in network byte order, unlike everywhere
  else, and the port is read from the colon on.\<close>

definition bswap32 :: "u32 \<Rightarrow> u32" where
  "bswap32 x = get32 (rev (be32 x)) 0"

definition udp_new_file :: "u16 \<Rightarrow> u32 \<Rightarrow> u16 \<Rightarrow> udp_file" where
  "udp_new_file port dest_ip dest_port =
     \<lparr>uf_dest_ip = dest_ip, uf_port = port, uf_dest_port = dest_port, uf_owner = - 1, uf_signal = False,
      uf_inqueue = []\<rparr>"

definition udp_create_pipe :: "u8 list \<Rightarrow> udp_service \<Rightarrow> udp_service option outcome" where
  "udp_create_pipe relpath st =
     (let link = (\<lambda>dest_ip dest_port.
            let (port, counter) = get_user_port (udp_port_counter st) in
            Inr (Some (st\<lparr>udp_port_counter := counter,
                          udp_connections := udp_new_file port dest_ip dest_port # udp_connections st\<rparr>)))
      in
      if relpath = [] then link 0 0
      else
        rbind (get_ip (tl relpath)) (\<lambda>r.
          case r of
            None \<Rightarrow> Inr None
          | Some (ip, rest) \<Rightarrow>
              rbind (strtol rest 10) (\<lambda>(val, _, pos).
                if val < 0 \<or> 0xFFFF < val \<or> drop pos rest \<noteq> [] then Inr None
                else link (bswap32 ip) (word_of_int val))))"

definition udp_destroy_pipe :: "nat \<Rightarrow> udp_service \<Rightarrow> udp_service" where
  "udp_destroy_pipe k st =
     st\<lparr>udp_connections := take k (udp_connections st) @ drop (Suc k) (udp_connections st)\<rparr>"

text \<open>\<open>service_stream_recv\<close> with a packet in the queue, or with \<open>O_NONBLOCK\<close>.\<close>

definition udp_stream_recv :: "nat \<Rightarrow> udp_file \<Rightarrow> u8 list \<times> udp_file" where
  "udp_stream_recv sz f =
     (case uf_inqueue f of
        [] \<Rightarrow> ([], f)
      | p # ps \<Rightarrow> (take sz (up_data p), f\<lparr>uf_inqueue := ps\<rparr>))"

text \<open>The datagram that \<open>service_stream_send\<close> hands to the IP service for the destination \<open>uf_dest_ip f\<close>; \<open>my_ip\<close> is
  the answer of that service to \<open>F_MY_IP\<close>.\<close>

definition udp_stream_send :: "u32 \<Rightarrow> udp_file \<Rightarrow> u8 list \<Rightarrow> u8 list" where
  "udp_stream_send my_ip f data =
     (let len = of_nat (8 + length data);
          psip = pseudo_ip_header 0x11 my_ip (uf_dest_ip f) len;
          hdr = udp_header_bytes (uf_port f) (uf_dest_port f) len
      in hdr (calculate_network_checksum psip (hdr 0 @ data)) @ data)"

definition udp_sent :: "nat \<Rightarrow> nat" where
  "udp_sent sent = (if sent > 8 then sent - 8 else 0)"

definition udp_get_flag :: "udp_file \<Rightarrow> net_flag \<Rightarrow> net_errno + u32" where
  "udp_get_flag f flag =
     (let front = (\<lambda>g. case uf_inqueue f of [] \<Rightarrow> Inr 0 | p # _ \<Rightarrow> Inr (g p)) in
      case flag of
        F_PRESSURE \<Rightarrow> front (\<lambda>p. of_nat (length (up_data p)))
      | F_READABLE \<Rightarrow> front (\<lambda>p. 1)
      | F_WRITABLE \<Rightarrow> Inr 1
      | F_IPC_SIGNAL \<Rightarrow> Inr (if uf_signal f then 1 else 0)
      | F_DEST_IP \<Rightarrow> Inr (uf_dest_ip f)
      | F_SRC_IP \<Rightarrow> front up_src_ip
      | F_DEST_PORT \<Rightarrow> Inr (ucast (uf_dest_port f))
      | F_SRC_PORT \<Rightarrow> front (\<lambda>p. ucast (up_src_port p))
      | F_MY_PORT \<Rightarrow> Inr (ucast (uf_port f))
      | _ \<Rightarrow> Inl EINVAL)"

text \<open>\<open>service_pipe_set_flag\<close>. Flushing an empty queue frees the data of the null pointer.\<close>

definition udp_set_flag :: "int \<Rightarrow> net_flag \<Rightarrow> u64 \<Rightarrow> udp_file \<Rightarrow> (net_errno + udp_file) outcome" where
  "udp_set_flag pgid flag val f =
     (case flag of
        F_FLUSH \<Rightarrow>
          if val \<noteq> 1 then Inr (Inr f)
          else (case uf_inqueue f of [] \<Rightarrow> Inl OutOfBounds | p # ps \<Rightarrow> Inr (Inr (f\<lparr>uf_inqueue := ps\<rparr>)))
      | F_IPC_SIGNAL \<Rightarrow> Inr (Inr (f\<lparr>uf_owner := pgid, uf_signal := (val \<noteq> 0)\<rparr>))
      | F_DEST_IP \<Rightarrow> Inr (Inr (f\<lparr>uf_dest_ip := ucast val\<rparr>))
      | F_DEST_PORT \<Rightarrow> Inr (Inr (f\<lparr>uf_dest_port := ucast val\<rparr>))
      | F_MY_PORT \<Rightarrow> Inr (Inr (f\<lparr>uf_port := ucast val\<rparr>))
      | _ \<Rightarrow> Inr (Inl EINVAL))"

text \<open>One packet of the loop of \<open>incoming\<close>: the files after it and the owners signalled. The length of the
  data is taken from the header and wraps around.\<close>

definition udp_deliver :: "u32 \<Rightarrow> u8 list \<Rightarrow> udp_file \<Rightarrow> (udp_file \<times> int list) outcome" where
  "udp_deliver src_ip raw f =
     (let raw_data_size = (ucast (get16 raw 4) - 8 :: u32) in
      if get16 raw 2 \<noteq> uf_port f then Inr (f, [])
      else if length raw < 8 + unat raw_data_size then Inl OutOfBounds
      else Inr (f\<lparr>uf_inqueue := uf_inqueue f @
             [\<lparr>up_src_ip = src_ip, up_src_port = get16 raw 0, up_data = take (unat raw_data_size) (drop 8 raw)\<rparr>]\<rparr>,
             if uf_signal f then [uf_owner f] else []))"

fun udp_deliver_all :: "u32 \<Rightarrow> u8 list \<Rightarrow> udp_file list \<Rightarrow> (udp_file list \<times> int list) outcome" where
  "udp_deliver_all src_ip raw [] = Inr ([], [])"
| "udp_deliver_all src_ip raw (f # fs) =
     rbind (udp_deliver src_ip raw f) (\<lambda>(f, sg).
     rbind (udp_deliver_all src_ip raw fs) (\<lambda>(fs, sgs). Inr (f # fs, sg @ sgs)))"

definition udp_incoming :: "u32 \<Rightarrow> u32 \<Rightarrow> u8 list \<Rightarrow> udp_service \<Rightarrow> (udp_service \<times> int list) outcome" where
  "udp_incoming src_ip dest_ip raw st =
     (if length raw < 8 then Inl OutOfBounds
      else if get16 raw 6 \<noteq> 0 \<and> get16 raw 6 \<noteq> 0xFFFF \<and>
        calculate_network_checksum (pseudo_ip_header 0x11 src_ip dest_ip (of_nat (length raw))) raw \<noteq> 0
      then Inr (st, [])
      else rbind (udp_deliver_all src_ip raw (udp_connections st)) (\<lambda>(fs, sgs). Inr (st\<lparr>udp_connections := fs\<rparr>, sgs)))"

text \<open>The loop of \<open>incoming\<close> on the packets in the queue of the pipe to the IP service; packets of another
  protocol are flushed.\<close>

fun udp_incoming_loop :: "ip_packet list \<Rightarrow> udp_service \<Rightarrow> (udp_service \<times> int list) outcome" where
  "udp_incoming_loop [] st = Inr (st, [])"
| "udp_incoming_loop (p # ps) st =
     (if ip_protocol p \<noteq> 0x11 then udp_incoming_loop ps st
      else rbind (udp_incoming (ip_src p) (ip_dest p) (ip_data p) st) (\<lambda>(st, sg).
           rbind (udp_incoming_loop ps st) (\<lambda>(st, sgs). Inr (st, sg @ sgs))))"

section \<open>Sending and receiving\<close>

lemma udp_header_length [simp]: "length (udp_header_bytes a b c d) = 8"
  by (simp add: udp_header_bytes_def)

lemma udp_header_fields:
  fixes src_port dest_port len cs rest
  defines "b \<equiv> udp_header_bytes src_port dest_port len cs @ rest"
  shows "get16 b 0 = src_port" "get16 b 2 = dest_port" "get16 b 4 = len" "get16 b 6 = cs"
    "length b = 8 + length rest" "drop 8 b = rest"
proof -
  have b: "b = ucast (drop_bit 8 src_port) # ucast src_port # ucast (drop_bit 8 dest_port) # ucast dest_port #
      ucast (drop_bit 8 len) # ucast len # ucast (drop_bit 8 cs) # ucast cs # rest"
    by (simp add: b_def udp_header_bytes_def be16_def)
  show "get16 b 0 = src_port" "get16 b 2 = dest_port" "get16 b 4 = len" "get16 b 6 = cs"
    "length b = 8 + length rest" "drop 8 b = rest"
    unfolding b get16_def by (simp_all add: word16_split)
qed

lemma udp_sealed:
  assumes "length data \<le> 65507"
  shows "calculate_network_checksum (pseudo_ip_header 0x11 my_ip (uf_dest_ip f) (of_nat (8 + length data)))
           (udp_stream_send my_ip f data) = 0"
proof -
  define len :: u16 where "len = of_nat (8 + length data)"
  let ?pre = "be16 (uf_port f) @ be16 (uf_dest_port f) @ be16 len"
  let ?psip = "pseudo_ip_header 0x11 my_ip (uf_dest_ip f) len"
  have "0 < byte_sum ?psip True" by (simp add: pseudo_ip_header_def byte_sum_append)
  then have "calculate_network_checksum ?psip (?pre @ be16 (calculate_network_checksum ?psip (?pre @ be16 0 @ data)) @ data) = 0"
    using assms by (intro checksum_seal) (simp_all add: pseudo_ip_header_def)
  then show ?thesis by (simp add: udp_stream_send_def udp_header_bytes_def len_def Let_def)
qed

lemma udp_stream_send_length: "length (udp_stream_send my_ip f data) = 8 + length data"
  by (simp add: udp_stream_send_def Let_def)

lemma pseudo_ip_header_length [simp]: "length (pseudo_ip_header proto src dest len) = 12"
  by (simp add: pseudo_ip_header_def)

interpretation udp_seal: sealed_packets
  "\<lambda>(my_ip, f) d. udp_stream_send my_ip f d"
  "\<lambda>(my_ip, f) d. pseudo_ip_header 0x11 my_ip (uf_dest_ip f) (of_nat (8 + length d))" 65507
  by unfold_locales (auto simp: udp_sealed udp_stream_send_length simp del: of_nat_add)

text \<open>A datagram of which one byte has changed on the way is dropped, unless its checksum field says that
  there is no checksum. The test for 0xFFFF lets such datagrams through as well.\<close>

lemma udp_incoming_corrupted:
  assumes "length data \<le> 65507" "i < 8 + length data"
    and "raw = (udp_stream_send my_ip f data)[i := b]" "b \<noteq> udp_stream_send my_ip f data ! i"
    and "get16 raw 6 \<noteq> 0" "get16 raw 6 \<noteq> 0xFFFF"
  shows "udp_incoming my_ip (uf_dest_ip f) raw st = Inr (st, [])"
  using udp_seal.corruption_detected [of data i "(my_ip, f)" b] assms
  by (simp add: udp_incoming_def udp_stream_send_length del: of_nat_add)

definition udp_push :: "udp_packet \<Rightarrow> udp_file \<Rightarrow> udp_file" where
  "udp_push p g = g\<lparr>uf_inqueue := uf_inqueue g @ [p]\<rparr>"

lemma udp_send_delivers_one:
  assumes "length data \<le> 65507"
  shows "udp_deliver src_ip (udp_stream_send my_ip f data) g =
    Inr (if uf_port g = uf_dest_port f
         then (udp_push \<lparr>up_src_ip = src_ip, up_src_port = uf_port f, up_data = data\<rparr> g,
               if uf_signal g then [uf_owner g] else [])
         else (g, []))"
proof -
  have "unat (of_nat (8 + length data) :: u16) = 8 + length data" by (rule unat_of_nat16) (use assms in simp)
  then have n: "unat (ucast (of_nat (8 + length data) :: u16) - 8 :: u32) = length data"
    by (subst unat_sub) (simp_all add: word_le_nat_alt del: of_nat_add)
  show ?thesis
    unfolding udp_deliver_def udp_stream_send_def Let_def udp_header_fields n by (simp add: udp_push_def)
qed

lemma udp_send_delivers:
  assumes "length data \<le> 65507"
  shows "udp_deliver_all src_ip (udp_stream_send my_ip f data) gs =
    Inr (map (\<lambda>g. if uf_port g = uf_dest_port f
               then udp_push \<lparr>up_src_ip = src_ip, up_src_port = uf_port f, up_data = data\<rparr> g else g) gs,
         map uf_owner (filter (\<lambda>g. uf_port g = uf_dest_port f \<and> uf_signal g) gs))"
  by (induction gs) (simp_all add: udp_send_delivers_one [OF assms])

lemma udp_incoming_sent:
  assumes "length data \<le> 65507"
  shows "udp_incoming my_ip (uf_dest_ip f) (udp_stream_send my_ip f data) st =
    Inr (st\<lparr>udp_connections := map (\<lambda>g. if uf_port g = uf_dest_port f
               then udp_push \<lparr>up_src_ip = my_ip, up_src_port = uf_port f, up_data = data\<rparr> g else g) (udp_connections st)\<rparr>,
         map uf_owner (filter (\<lambda>g. uf_port g = uf_dest_port f \<and> uf_signal g) (udp_connections st)))"
proof -
  show ?thesis
    unfolding udp_incoming_def udp_stream_send_length using udp_sealed [OF assms, of my_ip f] udp_send_delivers [OF assms]
    by (simp del: of_nat_add)
qed

text \<open>C13: Two hosts, end to end: a datagram of at most 65507 bytes that the UDP service of one host hands to its IP service, framed
  there and received by the IP service of the other host, is appended to the queue of the pipe that the UDP
  service of that host reads from, and this service, when it comes to the datagram, delivers exactly the payload to
  every pipe with the destination port, together with the address and port of the sender. The pipe between
  the receiving services must be set to the sender's address or to the broadcast address: the IP service
  compares the destination of a pipe with the source of a packet. \<open>udp_pipe_deaf\<close> below shows that the pipe as the
  UDP service opens it receives nothing.\<close>

theorem udp_end_to_end:
  assumes "length data \<le> 65507"
    and "interface_at (f_ifc f) (interfaces sta) = Some ia"
    and "f_protocol f = 0x11" "f_dest f = uf_dest_ip u"
    and "uf_dest_ip u = if_ip ib" "k < length (ip_connections stb)"
    and "f_dest (ip_connections stb ! k) = if_ip ia \<or> f_dest (ip_connections stb ! k) = 0xFFFFFFFF"
  shows "\<exists>raw stb' sg p sg'.
    ip_stream_send f (udp_stream_send (if_ip ia) u data) sta = Inr [(f_ifc f, 0x0800, f_mac f, raw)] \<and>
    ip_incoming mb ib 0x0800 raw stb = Inr (stb', [], sg) \<and>
    f_inqueue (ip_connections stb' ! k) = f_inqueue (ip_connections stb ! k) @ [p] \<and>
    udp_incoming_loop [p] usb = Inr (usb\<lparr>udp_connections :=
       map (\<lambda>g. if uf_port g = uf_dest_port u
                then udp_push \<lparr>up_src_ip = if_ip ia, up_src_port = uf_port u, up_data = data\<rparr> g else g)
           (udp_connections usb)\<rparr>, sg')"
proof -
  let ?d = "udp_stream_send (if_ip ia) u data"
  have len: "length ?d \<le> 65515" using assms(1) by (simp add: udp_stream_send_length)
  define p where "p = \<lparr>ip_src = if_ip ia, ip_dest = f_dest f, ip_protocol = ucast (f_protocol f),
    ip_ttl = ucast (f_ttl f), ip_data = ?d\<rparr>"
  obtain raw where raw: "ip_stream_send f ?d sta = Inr [(f_ifc f, 0x0800, f_mac f, raw)]"
    and inc: "ip_incoming mb ib 0x0800 raw stb =
      Inr (stb\<lparr>ip_connections := map (\<lambda>g. if ip_listens (if_ip ia) g then ip_push p g else g) (ip_connections stb)\<rparr>, [],
           map f_owner (filter (\<lambda>g. ip_listens (if_ip ia) g \<and> f_signal g) (ip_connections stb)))"
    using ip_send_receive_spec [OF len assms(2), of ib mb stb] assms(4,5) unfolding p_def by auto
  have "ip_protocol p = 0x11" "ip_src p = if_ip ia" "ip_dest p = uf_dest_ip u" "ip_data p = ?d"
    using assms(3,4) by (simp_all add: p_def)
  then have "udp_incoming_loop [p] usb = Inr (usb\<lparr>udp_connections :=
       map (\<lambda>g. if uf_port g = uf_dest_port u
                then udp_push \<lparr>up_src_ip = if_ip ia, up_src_port = uf_port u, up_data = data\<rparr> g else g)
           (udp_connections usb)\<rparr>, map uf_owner (filter (\<lambda>g. uf_port g = uf_dest_port u \<and> uf_signal g) (udp_connections usb)))"
    using udp_incoming_sent [OF assms(1), of "if_ip ia" u usb] by simp
  then show ?thesis using raw inc assms(6,7) by (fastforce simp: ip_push_def ip_listens_def)
qed

text \<open>The UDP service opens its pipe with an empty path, which leaves the destination 0, and changes it only when it
  sends. Until then no datagram from another host comes to it.\<close>

lemma udp_pipe_deaf:
  assumes "length data \<le> 65515" "interface_at (f_ifc f) (interfaces sta) = Some ia" "f_dest f = if_ip ib"
    and "ip_create_pipe eo mm evs garbage [] stb = Inr (r, stb1, [])" "if_ip ia \<noteq> 0"
  shows "\<exists>raw stb' sg. ip_stream_send f data sta = Inr [(f_ifc f, 0x0800, f_mac f, raw)] \<and>
    ip_incoming mb ib 0x0800 raw stb1 = Inr (stb', [], sg) \<and> ip_connections stb' ! 0 = ip_connections stb1 ! 0"
proof -
  have "\<exists>g gs. ip_connections stb1 = g # gs \<and> f_dest g = 0" using assms(4) by (auto simp: ip_create_pipe_def Let_def)
  then have "\<not> ip_listens (if_ip ia) (ip_connections stb1 ! 0)" "0 < length (ip_connections stb1)"
    using assms(5) by (auto simp: ip_listens_def)
  then show ?thesis using ip_send_receive_spec [OF assms(1,2), of ib mb stb1] assms(3) by auto
qed

definition sample_udp :: "u32 \<Rightarrow> udp_file" where
  "sample_udp dest = \<lparr>uf_dest_ip = dest, uf_port = 1024, uf_dest_port = 53, uf_owner = 1, uf_signal = False, uf_inqueue = []\<rparr>"

definition sample_ip_file :: "u32 \<Rightarrow> ip_file" where
  "sample_ip_file dest =
     \<lparr>f_ifc_fixed = False, f_ifc = 1, f_mac = 8, f_dest = dest, f_protocol = 0x11, f_ttl = 128, f_owner = 2,
      f_signal = True, f_inqueue = []\<rparr>"

theorem udp_end_to_end_witness:
  "\<exists>raw stb sg p usb.
     ip_stream_send (sample_ip_file 9) (udp_stream_send 7 (sample_udp 9) [1, 2, 3]) (sample_ip 7) = Inr [(1, 0x0800, 8, raw)] \<and>
     ip_incoming (\<lambda>_. 8) (sample_ifc 9) 0x0800 raw ((sample_ip 9)\<lparr>ip_connections := [sample_ip_file 7]\<rparr>) = Inr (stb, [], sg) \<and>
     f_inqueue (ip_connections stb ! 0) = [p] \<and>
     udp_incoming_loop [p] \<lparr>udp_connections = [(sample_udp 7)\<lparr>uf_port := 53\<rparr>], udp_port_counter = 1024\<rparr> = Inr usb \<and>
     map up_data (uf_inqueue (hd (udp_connections (fst usb)))) = [[1, 2, 3]]"
proof -
  have i: "interface_at (f_ifc (sample_ip_file 9)) (interfaces (sample_ip 7)) = Some (sample_ifc 7)"
    by (simp add: sample_ip_file_def sample_ip_def sample_ifc_def interface_at_def)
  show ?thesis
    using udp_end_to_end [of "[1, 2, 3]" "sample_ip_file 9" "sample_ip 7" "sample_ifc 7" "sample_udp 9" "sample_ifc 9" 0
        "(sample_ip 9)\<lparr>ip_connections := [sample_ip_file 7]\<rparr>" "\<lambda>_. 8"
        "\<lparr>udp_connections = [(sample_udp 7)\<lparr>uf_port := 53\<rparr>], udp_port_counter = 1024\<rparr>", OF _ i]
    by (fastforce simp: sample_ip_file_def sample_udp_def sample_ifc_def udp_push_def)
qed

section \<open>Paths\<close>

text \<open>No path is accepted: the port is read from the colon in front of it.\<close>

lemma udp_create_pipe_path:
  assumes "relpath \<noteq> []"
  shows "udp_create_pipe relpath st \<noteq> Inr (Some st')"
proof
  assume ok: "udp_create_pipe relpath st = Inr (Some st')"
  then obtain ip rest val e pos where r: "get_ip (tl relpath) = Inr (Some (ip, rest))"
    and n: "strtol rest 10 = Inr (val, e, pos)" "length rest \<le> pos"
    using assms by (auto simp: udp_create_pipe_def Let_def rbind_Inr_iff split: option.splits if_splits)
  obtain s where "rest = 58 # s" using get_ip_rest [OF r] by (cases rest) auto
  then show False using n by (simp add: strtol_colon)
qed

end
