(* ===== verification/Tcp.thy ===== *)
theory Tcp
  imports Udp
begin

text \<open>
  The TCP service (\<open>src/progs/common/tcp/tcp.c\<close>). A packet is the sequence of its bytes as it stands
  in memory and on the wire; the fields of the header are read and written in network byte order.
  A connection is a record with its two queues as lists. The service sends a packet by handing it
  to the IP service: such packets are collected in a list, each with its destination address.

  \<open>now\<close> is the value of \<open>elapsed_ms\<close>. The locks around the queues are left out (\<open>Locks\<close> shows that they
  exclude), except where a thread would wait for a lock it holds itself. A header shorter than 20
  bytes is read out of bounds by the code and is \<open>OutOfBounds\<close> here.
\<close>

definition DEFAULT_WINDOW :: u16 where "DEFAULT_WINDOW = 16384"
definition RTT :: int where "RTT = 1000"
definition MSS :: nat where "MSS = 1300"

definition TCP_FIN :: u8 where "TCP_FIN = 1"
definition TCP_SYN :: u8 where "TCP_SYN = 2"
definition TCP_RST :: u8 where "TCP_RST = 4"
definition TCP_PSH :: u8 where "TCP_PSH = 8"
definition TCP_ACK :: u8 where "TCP_ACK = 16"

lemmas tcp_flags = TCP_FIN_def TCP_SYN_def TCP_RST_def TCP_PSH_def TCP_ACK_def

subsection \<open>Headers\<close>

record tcp_header =
  h_src_port :: u16
  h_dest_port :: u16
  h_seq :: u32
  h_ack :: u32
  h_hdrlen :: u8
  h_flags :: u8
  h_window :: u16
  h_checksum :: u16
  h_urgentptr :: u16

definition header_bytes :: "tcp_header \<Rightarrow> u8 list" where
  "header_bytes h = be16 (h_src_port h) @ be16 (h_dest_port h) @ be32 (h_seq h) @ be32 (h_ack h)
     @ [h_hdrlen h, h_flags h] @ be16 (h_window h) @ be16 (h_checksum h) @ be16 (h_urgentptr h)"

definition read_header :: "u8 list \<Rightarrow> tcp_header" where
  "read_header b =
     \<lparr>h_src_port = get16 b 0, h_dest_port = get16 b 2, h_seq = get32 b 4, h_ack = get32 b 8,
      h_hdrlen = b ! 12, h_flags = b ! 13, h_window = get16 b 14, h_checksum = get16 b 16,
      h_urgentptr = get16 b 18\<rparr>"

definition header_size :: "tcp_header \<Rightarrow> nat" where
  "header_size h = unat (drop_bit 4 (h_hdrlen h)) * 4"

subsection \<open>Connections\<close>

datatype tcp_status =
    STATUS_CLOSED | STATUS_LISTEN | STATUS_SYN_RCVD | STATUS_SYN_SENT | STATUS_OPEN
  | STATUS_FIN_RCVD | STATUS_FIN_SENT

record packet =
  last_time_sent :: int
  seq_end :: u32
  read_offset :: u32
  pk_bytes :: "u8 list"

record tcp_connection =
  c_ip :: u32
  c_dest_ip :: u32
  c_port :: u16
  c_dest_port :: u16
  c_status :: tcp_status
  c_seq :: u32
  c_ack :: u32
  c_owner :: int
  c_signal :: bool
  c_window :: u32
  c_inqueue :: "packet list"
  c_outqueue :: "packet list"

abbreviation pk_header :: "packet \<Rightarrow> tcp_header" where
  "pk_header p \<equiv> read_header (pk_bytes p)"

abbreviation pk_seq :: "packet \<Rightarrow> u32" where
  "pk_seq p \<equiv> h_seq (pk_header p)"

subsection \<open>Sending\<close>

definition insert_packet :: "packet \<Rightarrow> u32 \<Rightarrow> packet list \<Rightarrow> packet list" where
  "insert_packet p seq q = takeWhile (\<lambda>x. pk_seq x \<le> seq) q @ p # dropWhile (\<lambda>x. pk_seq x \<le> seq) q"

definition handle_outqueue :: "int \<Rightarrow> tcp_connection \<Rightarrow> wire" where
  "handle_outqueue now c =
     (let seq_start = (if c_outqueue c \<noteq> [] then pk_seq (hd (c_outqueue c)) else 0) in
      map (\<lambda>p. (c_dest_ip c, pk_bytes p))
        (filter (\<lambda>p. now - last_time_sent p > RTT)
          (takeWhile (\<lambda>p. seq_end p - seq_start \<le> c_window c) (c_outqueue c))))"

definition tcp_acked :: "tcp_connection \<Rightarrow> u32 \<Rightarrow> tcp_connection" where
  "tcp_acked c ack = c\<lparr>c_outqueue := dropWhile (\<lambda>p. ack - seq_end p < 0x40000000) (c_outqueue c)\<rparr>"

definition make_header :: "tcp_connection \<Rightarrow> u8 \<Rightarrow> tcp_header" where
  "make_header c flags =
     \<lparr>h_src_port = c_port c, h_dest_port = c_dest_port c, h_seq = c_seq c, h_ack = c_ack c,
      h_hdrlen = push_bit 4 (20 div 4), h_flags = flags, h_window = DEFAULT_WINDOW,
      h_checksum = 0, h_urgentptr = 0\<rparr>"

definition make_packet :: "tcp_connection \<Rightarrow> u8 \<Rightarrow> u8 list \<Rightarrow> u8 list" where
  "make_packet c flags data =
     (let h = make_header c flags;
          psip = pseudo_ip_header 6 (c_ip c) (c_dest_ip c) (of_nat (20 + length data));
          sum = calculate_network_checksum psip (header_bytes h @ data)
      in header_bytes (h\<lparr>h_checksum := sum\<rparr>) @ data)"

definition seq_size_of :: "nat \<Rightarrow> u8 \<Rightarrow> nat" where
  "seq_size_of len flags = (if len = 0 \<and> flags AND (TCP_SYN OR TCP_FIN) \<noteq> 0 then 1 else len)"

definition send_tcp_packet :: "int \<Rightarrow> u8 \<Rightarrow> u8 list \<Rightarrow> tcp_connection \<Rightarrow> tcp_connection \<times> wire" where
  "send_tcp_packet now flags data c =
     (let seq_size = seq_size_of (length data) flags;
          seq = c_seq c;
          p = \<lparr>last_time_sent = 0, seq_end = seq + of_nat seq_size, read_offset = 0,
               pk_bytes = make_packet c flags data\<rparr>;
          c = c\<lparr>c_seq := seq + of_nat seq_size, c_outqueue := insert_packet p seq (c_outqueue c)\<rparr>
      in (c, handle_outqueue now c))"

definition flush_all_queues :: "tcp_connection \<Rightarrow> tcp_connection" where
  "flush_all_queues c = c\<lparr>c_inqueue := [], c_outqueue := []\<rparr>"

text \<open>\<open>service_stream_send\<close>: \<open>None\<close> is \<open>ENOTCONN\<close>.\<close>

function send_segments :: "int \<Rightarrow> u8 list \<Rightarrow> tcp_connection \<Rightarrow> tcp_connection \<times> wire" where
  "send_segments now data c =
     (if data = [] then (c, [])
      else
        let (c, w1) = send_tcp_packet now (TCP_ACK OR (if length data \<le> MSS then TCP_PSH else 0)) (take MSS data) c;
            (c, w2) = send_segments now (drop MSS data) c
        in (c, w1 @ w2))"
  by pat_completeness auto
termination by (relation "measure (\<lambda>(now, data, c). length data)") (auto simp: MSS_def)

declare send_segments.simps [simp del]

definition service_stream_send :: "int \<Rightarrow> u8 list \<Rightarrow> tcp_connection \<Rightarrow> (nat \<times> tcp_connection \<times> wire) option" where
  "service_stream_send now data c =
     (if c_status c \<noteq> STATUS_OPEN \<and> c_status c \<noteq> STATUS_FIN_RCVD then None
      else let (c, w) = send_segments now data c in Some (length data, c, w))"

subsection \<open>Receiving\<close>

text \<open>The modular comparison of sequence numbers: \<open>a\<close> is not before \<open>b\<close>.\<close>

definition seq_ge :: "u32 \<Rightarrow> u32 \<Rightarrow> bool" where
  "seq_ge a b \<longleftrightarrow> a - b < 0x40000000"

text \<open>What \<open>handle_inqueue\<close> does with the flags of a packet that is next in order. Flushing the queues
  there would take a lock that the thread holds, which \<open>lock\<close> asserts not to happen.\<close>

definition inqueue_flags :: "int \<Rightarrow> u8 \<Rightarrow> tcp_connection \<Rightarrow> (tcp_connection \<times> bool \<times> wire) outcome" where
  "inqueue_flags now flags c =
     (if flags AND TCP_RST \<noteq> 0 then Inl Panic
      else if flags AND TCP_SYN \<noteq> 0 then
        if c_status c = STATUS_LISTEN then
          let (c, w) = send_tcp_packet now (TCP_SYN OR TCP_ACK) [] (c\<lparr>c_status := STATUS_SYN_RCVD\<rparr>) in Inr (c, False, w)
        else if c_status c = STATUS_CLOSED then
          let (c, w) = send_tcp_packet now TCP_RST [] c in Inr (c, False, w)
        else Inr (c\<lparr>c_status := STATUS_OPEN\<rparr>, False, [])
      else if flags AND TCP_FIN \<noteq> 0 then
        if c_status c = STATUS_FIN_SENT \<or> c_status c = STATUS_CLOSED then Inr (c\<lparr>c_status := STATUS_CLOSED\<rparr>, True, [])
        else Inr (c\<lparr>c_status := STATUS_FIN_RCVD\<rparr>, True, [])
      else Inr (c, False, []))"

text \<open>The loop over the queue; \<open>kept\<close> are the packets before the current one that stay. After a packet
  has been removed the loop steps over its successor.\<close>

fun inqueue_loop ::
    "int \<Rightarrow> packet list \<Rightarrow> packet list \<Rightarrow> bool \<Rightarrow> wire \<Rightarrow> tcp_connection
       \<Rightarrow> (tcp_connection \<times> packet list \<times> bool \<times> wire) outcome" where
  "inqueue_loop now kept [] fin w c = Inr (c, kept, fin, w)"
| "inqueue_loop now kept (p # ps) fin w c =
     (if seq_ge (c_ack c) (pk_seq p) \<and> c_ack c \<noteq> seq_end p \<and> seq_ge (seq_end p) (c_ack c) then
        rbind (inqueue_flags now (h_flags (pk_header p)) (c\<lparr>c_ack := seq_end p\<rparr>)) (\<lambda>(c, f, w1).
          if length (pk_bytes p) = header_size (pk_header p) then
            (case ps of
               [] \<Rightarrow> Inr (c, kept, fin \<or> f, w @ w1)
             | q # qs \<Rightarrow> inqueue_loop now (kept @ [q]) qs (fin \<or> f) (w @ w1) c)
          else inqueue_loop now (kept @ [p]) ps (fin \<or> f) (w @ w1) c)
      else if seq_ge (pk_seq p) (c_ack c) then Inr (c, kept @ p # ps, fin, w)
      else inqueue_loop now (kept @ [p]) ps fin w c)"

definition answers :: "tcp_status \<Rightarrow> bool" where
  "answers st \<longleftrightarrow> st = STATUS_OPEN \<or> st = STATUS_SYN_SENT \<or> st = STATUS_SYN_RCVD \<or> st = STATUS_FIN_RCVD"

definition handle_inqueue :: "int \<Rightarrow> tcp_connection \<Rightarrow> (tcp_connection \<times> wire) outcome" where
  "handle_inqueue now c =
     rbind (inqueue_loop now [] (c_inqueue c) False [] c) (\<lambda>(c, q, fin, w).
       let c = c\<lparr>c_inqueue := q\<rparr> in
       if answers (c_status c) \<or> fin then
         let (c, w1) = send_tcp_packet now TCP_ACK [] c in Inr (c, w @ w1)
       else Inr (c, w))"

text \<open>The body of the loop over the connections in \<open>incoming\<close>; the last component tells whether the
  owner gets a signal.\<close>

definition incoming_connection ::
    "int \<Rightarrow> u8 list \<Rightarrow> tcp_connection \<Rightarrow> (tcp_connection \<times> wire \<times> bool) outcome" where
  "incoming_connection now raw c =
     (let h = read_header raw;
          data_sz = (of_nat (length raw) - of_nat (header_size h) :: u32);
          seq_size = (if data_sz = 0 \<and> h_flags h AND (TCP_SYN OR TCP_FIN) \<noteq> 0 then 1 else data_sz)
      in
      if h_dest_port h \<noteq> c_port c then Inr (c, [], False)
      else
        let c = c\<lparr>c_window := ucast (h_window h)\<rparr>;
            c = (if h_flags h AND TCP_SYN \<noteq> 0 \<and> (c_status c = STATUS_LISTEN \<or> c_status c = STATUS_SYN_SENT)
                 then c\<lparr>c_ack := h_seq h\<rparr> else c);
            c = (if h_flags h AND TCP_ACK \<noteq> 0 then tcp_acked c (h_ack h) else c)
        in
        if h_flags h AND TCP_RST \<noteq> 0 then
          Inr (flush_all_queues (c\<lparr>c_status := STATUS_CLOSED\<rparr>), [], False)
        else if data_sz = 0 \<and> h_flags h AND (TCP_SYN OR TCP_FIN OR TCP_RST) = 0 then Inr (c, [], False)
        else
          let p = \<lparr>last_time_sent = 0, seq_end = h_seq h + seq_size, read_offset = 0, pk_bytes = raw\<rparr>;
              c = c\<lparr>c_inqueue := insert_packet p (h_seq h) (c_inqueue c)\<rparr>
          in rbind (handle_inqueue now c) (\<lambda>(c, w). Inr (c, w, c_signal c)))"

fun incoming_all ::
    "int \<Rightarrow> u8 list \<Rightarrow> tcp_connection list \<Rightarrow> (tcp_connection list \<times> wire \<times> int list) outcome" where
  "incoming_all now raw [] = Inr ([], [], [])"
| "incoming_all now raw (c # cs) =
     rbind (incoming_connection now raw c) (\<lambda>(c, w, sg).
     rbind (incoming_all now raw cs) (\<lambda>(cs, ws, sgs).
       Inr (c # cs, w @ ws, (if sg then [c_owner c] else []) @ sgs)))"

text \<open>What the loop of \<open>incoming\<close> does with one packet: the connections, what is sent and who is signalled.\<close>

definition incoming ::
    "int \<Rightarrow> u32 \<Rightarrow> u32 \<Rightarrow> u8 list \<Rightarrow> tcp_connection list \<Rightarrow> (tcp_connection list \<times> wire \<times> int list) outcome" where
  "incoming now src_ip dest_ip raw cs =
     (if calculate_network_checksum (pseudo_ip_header 6 src_ip dest_ip (of_nat (length raw))) raw \<noteq> 0
      then Inr (cs, [], [])
      else if length raw < 20 then Inl OutOfBounds
      else incoming_all now raw cs)"

text \<open>The loop of \<open>incoming\<close> on the packets in the queue of the pipe to the IP service, each with the time at
  which it is handled; packets of another protocol are flushed.\<close>

fun tcp_incoming_loop ::
    "(int \<times> ip_packet) list \<Rightarrow> tcp_connection list \<Rightarrow> (tcp_connection list \<times> wire \<times> int list) outcome" where
  "tcp_incoming_loop [] cs = Inr (cs, [], [])"
| "tcp_incoming_loop ((now, p) # ps) cs =
     (if ip_protocol p \<noteq> 6 then tcp_incoming_loop ps cs
      else rbind (incoming now (ip_src p) (ip_dest p) (ip_data p) cs) (\<lambda>(cs, w, sg).
           rbind (tcp_incoming_loop ps cs) (\<lambda>(cs, ws, sgs). Inr (cs, w @ ws, sg @ sgs))))"

text \<open>\<open>tcp_receive\<close> on one packet with data: the bytes copied, the packet with its new read offset, and
  whether it has been read completely and is removed.\<close>

definition receive_packet :: "u32 \<Rightarrow> u32 \<Rightarrow> packet \<Rightarrow> (u8 list \<times> packet \<times> bool) outcome" where
  "receive_packet last_seq_end sz p =
     (let hs = header_size (pk_header p) in
      rbind (kassert (hs \<le> length (pk_bytes p))) (\<lambda>_.
        let data_size = (of_nat (length (pk_bytes p) - hs) :: u32);
            remaining = data_size - read_offset p - (last_seq_end - pk_seq p);
            copy_sz = (if remaining > sz then sz else remaining)
        in
        if data_size = 0 then Inr ([], p, False)
        else if data_size < copy_sz then Inl OutOfBounds
        else Inr (take (unat copy_sz) (drop hs (pk_bytes p)), p\<lparr>read_offset := read_offset p + copy_sz\<rparr>,
                  data_size = read_offset p + copy_sz + last_seq_end - pk_seq p)))"

text \<open>The loop, with the packets that stay and the bytes delivered as result. As in \<open>handle_inqueue\<close> it
  steps over the successor of a packet that is removed.\<close>

fun receive_loop ::
    "u32 \<Rightarrow> packet list \<Rightarrow> packet list \<Rightarrow> u32 \<Rightarrow> u32 \<Rightarrow> u8 list \<Rightarrow> (packet list \<times> u8 list) outcome" where
  "receive_loop ack kept [] last_seq_end sz out = Inr (kept, out)"
| "receive_loop ack kept (p # ps) last_seq_end sz out =
     (if seq_end p \<noteq> ack \<and> seq_ge (seq_end p) ack then Inr (kept @ p # ps, out)
      else
        rbind (receive_packet last_seq_end sz p) (\<lambda>(bytes, p1, removed).
          if removed then
            (case ps of
               [] \<Rightarrow> Inr (kept, out @ bytes)
             | q # qs \<Rightarrow> receive_loop ack (kept @ [q]) qs (seq_end p) (sz - of_nat (length bytes)) (out @ bytes))
          else receive_loop ack (kept @ [p1]) ps (seq_end p) (sz - of_nat (length bytes)) (out @ bytes)))"

definition tcp_receive :: "u32 \<Rightarrow> tcp_connection \<Rightarrow> (tcp_connection \<times> u8 list) outcome" where
  "tcp_receive sz c =
     rbind (receive_loop (c_ack c) [] (c_inqueue c)
              (if c_inqueue c \<noteq> [] then pk_seq (hd (c_inqueue c)) else 0) sz []) (\<lambda>(q, out).
       Inr (c\<lparr>c_inqueue := q\<rparr>, out))"

subsection \<open>Opening and closing\<close>

text \<open>\<open>tcp_connect\<close> and \<open>tcp_disconnect\<close> wait until the status changes, while other threads handle the packets
  that come in for the connection: these packets, each with the time it comes, are a parameter. The
  end of the list is the timeout.\<close>

type_synonym tcp_events = "(int \<times> u8 list) list"

abbreviation events_ok :: "tcp_events \<Rightarrow> bool" where
  "events_ok \<equiv> list_all (\<lambda>(now, raw). 20 \<le> length raw)"

fun tcp_wait :: "(tcp_status \<Rightarrow> bool) \<Rightarrow> tcp_events \<Rightarrow> tcp_connection \<Rightarrow> (tcp_connection \<times> wire) outcome" where
  "tcp_wait waiting [] c = Inr (c, [])"
| "tcp_wait waiting ((now, raw) # evs) c =
     (if waiting (c_status c) then
        rbind (incoming_connection now raw c) (\<lambda>(c, w, _).
        rbind (tcp_wait waiting evs c) (\<lambda>(c, ws). Inr (c, w @ ws)))
      else Inr (c, []))"

definition tcp_connect_begin :: "int \<Rightarrow> u32 \<Rightarrow> tcp_connection \<Rightarrow> tcp_connection \<times> wire" where
  "tcp_connect_begin now my_ip c =
     send_tcp_packet now TCP_SYN []
       ((flush_all_queues (c\<lparr>c_ip := my_ip\<rparr>))\<lparr>c_seq := 0, c_status := STATUS_SYN_SENT\<rparr>)"

definition tcp_connect :: "int \<Rightarrow> u32 \<Rightarrow> tcp_events \<Rightarrow> tcp_connection \<Rightarrow> (tcp_connection \<times> wire) outcome" where
  "tcp_connect now my_ip evs c =
     (let (c, w) = tcp_connect_begin now my_ip c in
      rbind (tcp_wait (\<lambda>s. s = STATUS_SYN_SENT) evs c) (\<lambda>(c, ws). Inr (c, w @ ws)))"

definition tcp_disconnect :: "int \<Rightarrow> tcp_events \<Rightarrow> tcp_connection \<Rightarrow> (tcp_connection \<times> wire) outcome" where
  "tcp_disconnect now evs c =
     (let c = flush_all_queues c in
      if c_status c = STATUS_CLOSED \<or> c_status c = STATUS_LISTEN then Inr (c, [])
      else if c_status c = STATUS_SYN_SENT \<or> c_status c = STATUS_SYN_RCVD then
        let (c, w) = send_tcp_packet now TCP_RST [] c in Inr (c\<lparr>c_status := STATUS_CLOSED\<rparr>, w)
      else
        let c = (if c_status c = STATUS_OPEN then c\<lparr>c_status := STATUS_FIN_SENT\<rparr>
                 else if c_status c = STATUS_FIN_RCVD then c\<lparr>c_status := STATUS_CLOSED\<rparr> else c);
            (c, w) = send_tcp_packet now (TCP_FIN OR TCP_ACK) [] c
        in rbind (tcp_wait (\<lambda>s. s \<noteq> STATUS_CLOSED) evs c) (\<lambda>(c, ws).
             if c_status c \<noteq> STATUS_CLOSED then
               let (c, w3) = send_tcp_packet now TCP_RST [] c in Inr (c\<lparr>c_status := STATUS_CLOSED\<rparr>, w @ ws @ w3)
             else Inr (c, w @ ws)))"

text \<open>The address and port in the path given to \<open>service_create_pipe\<close>; 0 and 0 for an empty path, \<open>None\<close>
  for \<open>ENOENT\<close>.\<close>

definition parse_target :: "u8 list \<Rightarrow> (u32 \<times> u16) option outcome" where
  "parse_target relpath =
     (if relpath = [] then Inr (Some (0, 0))
      else
        rbind (get_ip (tl relpath)) (\<lambda>r.
          case r of
            None \<Rightarrow> Inr None
          | Some (ip, rest) \<Rightarrow>
              rbind (strtol (tl rest) 10) (\<lambda>(val, _, pos).
                if val < 0 \<or> 0xFFFF < val \<or> drop pos (tl rest) \<noteq> [] then Inr None
                else Inr (Some (ip, word_of_int val)))))"

definition new_connection :: "u16 \<Rightarrow> u32 \<Rightarrow> u16 \<Rightarrow> tcp_connection" where
  "new_connection port dest_ip dest_port =
     \<lparr>c_ip = 0, c_dest_ip = dest_ip, c_port = port, c_dest_port = dest_port, c_status = STATUS_CLOSED,
      c_seq = 0, c_ack = 0, c_owner = - 1, c_signal = False, c_window = ucast DEFAULT_WINDOW,
      c_inqueue = [], c_outqueue = []\<rparr>"

record tcp_service =
  tcp_connections :: "tcp_connection list"
  tcp_port_counter :: u16

text \<open>\<open>service_create_pipe\<close>; the new pipe is the first of the list. The packets that come in while it connects
  are \<open>evs\<close>, and \<open>evs'\<close> those that come in while it takes a failed connection down again.\<close>

definition tcp_create_pipe ::
    "int \<Rightarrow> u32 \<Rightarrow> tcp_events \<Rightarrow> tcp_events \<Rightarrow> u8 list \<Rightarrow> tcp_service
       \<Rightarrow> ((net_errno + unit) \<times> tcp_service \<times> wire) outcome" where
  "tcp_create_pipe now my_ip evs evs' relpath st =
     rbind (parse_target relpath) (\<lambda>t.
       case t of
         None \<Rightarrow> Inr (Inl ENOENT, st, [])
       | Some (dest_ip, dest_port) \<Rightarrow>
           let (port, counter) = get_user_port (tcp_port_counter st);
               st = st\<lparr>tcp_port_counter := counter\<rparr>;
               c = new_connection port dest_ip dest_port
           in
           if dest_ip = 0 then Inr (Inr (), st\<lparr>tcp_connections := c # tcp_connections st\<rparr>, [])
           else
             rbind (tcp_connect now my_ip evs c) (\<lambda>(c, w).
               if c_status c \<noteq> STATUS_OPEN then
                 rbind (tcp_disconnect now evs' c) (\<lambda>(_, w'). Inr (Inl EHOSTDOWN, st, w @ w'))
               else Inr (Inr (), st\<lparr>tcp_connections := c # tcp_connections st\<rparr>, w)))"

definition tcp_destroy_pipe :: "int \<Rightarrow> tcp_events \<Rightarrow> nat \<Rightarrow> tcp_service \<Rightarrow> (tcp_service \<times> wire) outcome" where
  "tcp_destroy_pipe now evs k st =
     rbind (tcp_disconnect now evs (tcp_connections st ! k)) (\<lambda>(_, w).
       Inr (st\<lparr>tcp_connections := take k (tcp_connections st) @ drop (Suc k) (tcp_connections st)\<rparr>, w))"

text \<open>\<open>service_stream_recv\<close>. With \<open>O_NONBLOCK\<close> it is one \<open>tcp_receive\<close>. Otherwise it repeats until enough has
  come in, each time with the same buffer and size; \<open>evss\<close> are the packets handled between two rounds, and
  \<open>None\<close> says that it still waits. The result is the number returned, the buffer and whether \<open>errno\<close> is set
  to \<open>ENOTCONN\<close>.\<close>

fun recv_blocking ::
    "u32 \<Rightarrow> tcp_events list \<Rightarrow> nat \<Rightarrow> u8 list \<Rightarrow> tcp_connection
       \<Rightarrow> (nat \<times> u8 list \<times> bool \<times> tcp_connection) option outcome" where
  "recv_blocking sz evss recvd buf c =
     rbind (tcp_receive sz c) (\<lambda>(c, out).
       let recvd = recvd + length out;
           buf = out @ drop (length out) buf;
           goes_on = (recvd < unat sz \<and> (c_status c = STATUS_OPEN \<or> c_status c = STATUS_FIN_SENT))
       in
       if \<not> goes_on then
         Inr (Some (recvd, buf, c_status c \<noteq> STATUS_OPEN \<and> c_status c \<noteq> STATUS_FIN_SENT, c))
       else
         (case evss of
            [] \<Rightarrow> Inr None
          | evs # evss \<Rightarrow>
              rbind (tcp_wait (\<lambda>_. True) evs c) (\<lambda>(c, _). recv_blocking sz evss recvd buf c)))"

declare recv_blocking.simps [simp del]

subsection \<open>Flags of the pipe\<close>

fun pressure_loop :: "u32 \<Rightarrow> packet list \<Rightarrow> u32 \<Rightarrow> u32 \<Rightarrow> u32" where
  "pressure_loop ack [] last_seq_end press = press"
| "pressure_loop ack (p # ps) last_seq_end press =
     (if seq_end p \<noteq> ack \<and> seq_ge (seq_end p) ack then press
      else pressure_loop ack ps (seq_end p)
             (if header_size (pk_header p) < length (pk_bytes p) then press + (seq_end p - last_seq_end) else press))"

definition tcp_pressure :: "tcp_connection \<Rightarrow> u32" where
  "tcp_pressure c =
     pressure_loop (c_ack c) (c_inqueue c) (if c_inqueue c \<noteq> [] then pk_seq (hd (c_inqueue c)) else 0) 0"

fun tcp_get_flag :: "tcp_connection \<Rightarrow> net_flag \<Rightarrow> net_errno + u32" where
  "tcp_get_flag c F_PRESSURE = Inr (tcp_pressure c)"
| "tcp_get_flag c F_READABLE = Inr (if tcp_pressure c \<noteq> 0 then 1 else 0)"
| "tcp_get_flag c F_WRITABLE = Inr (if c_status c = STATUS_OPEN \<or> c_status c = STATUS_FIN_RCVD then 1 else 0)"
| "tcp_get_flag c F_IPC_SIGNAL = Inr (if c_signal c then 1 else 0)"
| "tcp_get_flag c F_DEST_IP = Inr (c_dest_ip c)"
| "tcp_get_flag c F_SRC_IP = Inr (c_dest_ip c)"
| "tcp_get_flag c F_DEST_PORT = Inr (ucast (c_dest_port c))"
| "tcp_get_flag c F_SRC_PORT =
     Inr (ucast (if c_inqueue c \<noteq> [] then h_src_port (pk_header (hd (c_inqueue c))) else c_dest_port c))"
| "tcp_get_flag c F_MY_PORT = Inr (ucast (c_port c))"
| "tcp_get_flag c F_CONNECTION_STATUS =
     Inr (if c_status c = STATUS_CLOSED then 0 else if c_status c = STATUS_OPEN then 1
          else if c_status c = STATUS_LISTEN then 2 else 3)"
| "tcp_get_flag c _ = Inl EINVAL"

text \<open>\<open>reconnect\<close> is the common end of three branches of \<open>service_pipe_set_flag\<close>.\<close>

definition reconnect :: "int \<Rightarrow> u32 \<Rightarrow> tcp_events \<Rightarrow> tcp_connection \<Rightarrow> (tcp_connection \<times> wire) outcome" where
  "reconnect now my_ip evs c =
     (if c_dest_ip c \<noteq> 0 \<and> c_dest_port c \<noteq> 0 then tcp_connect now my_ip evs c else Inr (c, []))"

definition tcp_set_flag ::
    "int \<Rightarrow> u32 \<Rightarrow> int \<Rightarrow> tcp_events \<Rightarrow> tcp_events \<Rightarrow> net_flag \<Rightarrow> u64 \<Rightarrow> tcp_connection
       \<Rightarrow> (net_errno + (tcp_connection \<times> wire)) outcome" where
  "tcp_set_flag now my_ip pgid evs evs' flag val c =
     (let change = (\<lambda>upd. rbind (tcp_disconnect now evs c) (\<lambda>(c, w).
                          rbind (reconnect now my_ip evs' (upd c)) (\<lambda>(c, w'). Inr (Inr (c, w @ w')))))
      in case flag of
        F_FLUSH \<Rightarrow> Inr (Inr (c, []))
      | F_IPC_SIGNAL \<Rightarrow> Inr (Inr (c\<lparr>c_owner := pgid, c_signal := (val \<noteq> 0)\<rparr>, []))
      | F_DEST_IP \<Rightarrow> change (\<lambda>c. c\<lparr>c_dest_ip := ucast val\<rparr>)
      | F_DEST_PORT \<Rightarrow> change (\<lambda>c. c\<lparr>c_dest_port := ucast val\<rparr>)
      | F_MY_PORT \<Rightarrow> change (\<lambda>c. c\<lparr>c_port := ucast val\<rparr>)
      | F_CONNECTION_STATUS \<Rightarrow>
          if val = 0 then rbind (tcp_disconnect now evs c) (\<lambda>r. Inr (Inr r))
          else if val = 2 then
            rbind (tcp_disconnect now evs c) (\<lambda>(c, w). Inr (Inr (c\<lparr>c_status := STATUS_LISTEN\<rparr>, w)))
          else Inr (Inr (c, []))
      | _ \<Rightarrow> Inr (Inl EINVAL))"

section \<open>Headers on the wire\<close>

lemma header_bytes_length [simp]: "length (header_bytes h) = 20"
  by (simp add: header_bytes_def)

lemma read_header_bytes: "read_header (header_bytes h @ rest) = h"
proof -
  have "header_bytes h @ rest =
      ucast (drop_bit 8 (h_src_port h)) # ucast (h_src_port h) #
      ucast (drop_bit 8 (h_dest_port h)) # ucast (h_dest_port h) #
      ucast (drop_bit 24 (h_seq h)) # ucast (drop_bit 16 (h_seq h)) # ucast (drop_bit 8 (h_seq h)) # ucast (h_seq h) #
      ucast (drop_bit 24 (h_ack h)) # ucast (drop_bit 16 (h_ack h)) # ucast (drop_bit 8 (h_ack h)) # ucast (h_ack h) #
      h_hdrlen h # h_flags h # ucast (drop_bit 8 (h_window h)) # ucast (h_window h) #
      ucast (drop_bit 8 (h_checksum h)) # ucast (h_checksum h) #
      ucast (drop_bit 8 (h_urgentptr h)) # ucast (h_urgentptr h) # rest"
    by (simp add: header_bytes_def be16_def be32_def)
  then show ?thesis
    by (simp only: read_header_def get16_def get32_def) (simp add: word16_split word32_split)
qed


lemma make_packet_bytes:
  obtains cs where "make_packet c fl d = header_bytes ((make_header c fl)\<lparr>h_checksum := cs\<rparr>) @ d"
  by (simp add: make_packet_def Let_def)

lemma make_packet_length [simp]: "length (make_packet c fl d) = 20 + length d"
  by (rule make_packet_bytes [of c fl d]) simp

lemma make_packet_header [simp]:
  "h_src_port (read_header (make_packet c fl d)) = c_port c"
  "h_dest_port (read_header (make_packet c fl d)) = c_dest_port c"
  "h_seq (read_header (make_packet c fl d)) = c_seq c"
  "h_ack (read_header (make_packet c fl d)) = c_ack c"
  "h_flags (read_header (make_packet c fl d)) = fl"
  "h_window (read_header (make_packet c fl d)) = DEFAULT_WINDOW"
  "header_size (read_header (make_packet c fl d)) = 20"
  by (rule make_packet_bytes [of c fl d], simp add: read_header_bytes make_header_def header_size_def)+

lemma make_packet_data [simp]: "drop 20 (make_packet c fl d) = d"
  by (rule make_packet_bytes [of c fl d]) simp

lemma make_packet_sealed:
  assumes "length data \<le> 65515"
  shows "calculate_network_checksum
    (pseudo_ip_header 6 (c_ip c) (c_dest_ip c) (of_nat (length (make_packet c flags data)))) (make_packet c flags data) = 0"
proof -
  define psip where "psip = pseudo_ip_header 6 (c_ip c) (c_dest_ip c) (of_nat (20 + length data))"
  let ?h = "make_header c flags"
  let ?pre = "be16 (h_src_port ?h) @ be16 (h_dest_port ?h) @ be32 (h_seq ?h) @ be32 (h_ack ?h)
     @ [h_hdrlen ?h, h_flags ?h] @ be16 (h_window ?h)"
  let ?rest = "be16 (h_urgentptr ?h) @ data"
  have "0 < byte_sum psip True" by (simp add: psip_def pseudo_ip_header_def byte_sum_append)
  then have "calculate_network_checksum psip (?pre @ be16 (calculate_network_checksum psip (?pre @ be16 0 @ ?rest)) @ ?rest) = 0"
    using assms by (intro checksum_seal) (simp_all add: psip_def)
  then show ?thesis
    by (simp add: make_packet_def header_bytes_def psip_def Let_def make_header_def)
qed

interpretation tcp_seal: sealed_packets
  "\<lambda>(c, fl) d. make_packet c fl d"
  "\<lambda>(c, fl) d. pseudo_ip_header 6 (c_ip c) (c_dest_ip c) (of_nat (20 + length d))" 65515
  using make_packet_sealed by unfold_locales (auto simp del: of_nat_add)

text \<open>C38: A segment that the service of one host sends is accepted by the checksum of the other, and if any
  single byte of it changes on the way it is dropped: no connection changes and nothing is sent.\<close>

theorem incoming_checksum:
  assumes "length data \<le> 65515" "i < 20 + length data"
  shows "if b = make_packet c flags data ! i
    then calculate_network_checksum (pseudo_ip_header 6 (c_ip c) (c_dest_ip c)
           (of_nat (length (make_packet c flags data)))) (make_packet c flags data) = 0
    else incoming now (c_ip c) (c_dest_ip c) ((make_packet c flags data)[i := b]) cs = Inr (cs, [], [])"
  using make_packet_sealed [OF assms(1), of c flags] tcp_seal.corruption_detected [of data i "(c, flags)" b] assms
  by (simp add: incoming_def del: of_nat_add)

theorem incoming_checksum_witness:
  "calculate_network_checksum (pseudo_ip_header 6 1 2 23) (make_packet (new_connection 80 2 90\<lparr>c_ip := 1\<rparr>) TCP_ACK [7, 8, 9]) = 0 \<and>
   incoming 0 1 2 ((make_packet (new_connection 80 2 90\<lparr>c_ip := 1\<rparr>) TCP_ACK [7, 8, 9])[22 := 10]) [] = Inr ([], [], [])"
proof -
  let ?c = "new_connection 80 2 90\<lparr>c_ip := 1\<rparr>"
  have d: "make_packet ?c TCP_ACK [7, 8, 9] ! 22 = 9"
    using make_packet_data [of ?c TCP_ACK "[7, 8, 9]"] nth_drop [of 20 "make_packet ?c TCP_ACK [7, 8, 9]" 2] by simp
  have ips: "c_ip ?c = 1" "c_dest_ip ?c = 2" by (simp_all add: new_connection_def)
  show ?thesis
    using incoming_checksum [of "[7, 8, 9]" 22 9 ?c TCP_ACK 0 "[]"] incoming_checksum [of "[7, 8, 9]" 22 10 ?c TCP_ACK 0 "[]"]
    unfolding d ips by simp
qed

section \<open>What the queues contain\<close>

text \<open>A packet that waits to be sent is a complete segment of at most \<open>MSS\<close> bytes of data without options,
  and ends where its sequence number says. A received packet has a complete header, and no reset gets into
  the queue.\<close>

definition out_ok :: "packet \<Rightarrow> bool" where
  "out_ok p \<longleftrightarrow> 20 \<le> length (pk_bytes p) \<and> length (pk_bytes p) \<le> 20 + MSS \<and> header_size (pk_header p) = 20 \<and>
     seq_end p = pk_seq p + of_nat (seq_size_of (length (pk_bytes p) - 20) (h_flags (pk_header p)))"

definition in_ok :: "packet \<Rightarrow> bool" where
  "in_ok p \<longleftrightarrow> 20 \<le> length (pk_bytes p) \<and> h_flags (pk_header p) AND TCP_RST = 0"

definition conn_ok :: "tcp_connection \<Rightarrow> bool" where
  "conn_ok c \<longleftrightarrow> list_all out_ok (c_outqueue c) \<and> list_all in_ok (c_inqueue c)"

definition wire_ok :: "wire \<Rightarrow> bool" where
  "wire_ok w \<longleftrightarrow> list_all (\<lambda>(ip, b). 20 \<le> length b \<and> length b \<le> 20 + MSS) w"

lemma wire_ok_simps [simp]: "wire_ok []" "wire_ok (v @ w) \<longleftrightarrow> wire_ok v \<and> wire_ok w"
  by (simp_all add: wire_ok_def)

lemma list_all_insert_packet [simp]: "list_all P (insert_packet p s q) \<longleftrightarrow> P p \<and> list_all P q"
proof -
  have "list_all P q \<longleftrightarrow> list_all P (takeWhile (\<lambda>x. pk_seq x \<le> s) q) \<and> list_all P (dropWhile (\<lambda>x. pk_seq x \<le> s) q)"
    by (metis list_all_append takeWhile_dropWhile_id)
  then show ?thesis by (auto simp: insert_packet_def)
qed

lemma handle_outqueue_ok:
  assumes "list_all out_ok (c_outqueue c)"
  shows "wire_ok (handle_outqueue now c)"
  using assms by (auto simp: wire_ok_def handle_outqueue_def Let_def list_all_iff out_ok_def dest: set_takeWhileD)

lemma send_tcp_packet_ok:
  assumes "send_tcp_packet now fl d c = (c', w)" "conn_ok c" "length d \<le> MSS"
  shows "conn_ok c' \<and> wire_ok w \<and> c_status c' = c_status c \<and> c_inqueue c' = c_inqueue c"
proof -
  have "list_all out_ok (c_outqueue c')" "c_inqueue c' = c_inqueue c" "c_status c' = c_status c"
    "w = handle_outqueue now c'"
    using assms by (auto simp: send_tcp_packet_def Let_def conn_ok_def out_ok_def)
  then show ?thesis using handle_outqueue_ok assms(2) by (simp add: conn_ok_def)
qed

lemma list_all_dropWhile: "list_all P q \<Longrightarrow> list_all P (dropWhile Q q)"
  by (auto simp: list_all_iff dest: set_dropWhileD)

lemma conn_ok_updates [simp]:
  "conn_ok (c\<lparr>c_status := s\<rparr>) = conn_ok c" "conn_ok (c\<lparr>c_ack := a\<rparr>) = conn_ok c"
  "conn_ok (c\<lparr>c_seq := a\<rparr>) = conn_ok c" "conn_ok (c\<lparr>c_window := n\<rparr>) = conn_ok c"
  "conn_ok (c\<lparr>c_ip := a\<rparr>) = conn_ok c" "conn_ok (c\<lparr>c_dest_ip := a\<rparr>) = conn_ok c"
  "conn_ok (c\<lparr>c_port := p\<rparr>) = conn_ok c" "conn_ok (c\<lparr>c_dest_port := p\<rparr>) = conn_ok c"
  "conn_ok (c\<lparr>c_owner := i\<rparr>) = conn_ok c" "conn_ok (c\<lparr>c_signal := b\<rparr>) = conn_ok c"
  by (simp_all add: conn_ok_def)

lemma conn_ok_flush [simp]: "conn_ok (flush_all_queues c)"
  by (simp add: conn_ok_def flush_all_queues_def)

lemma conn_ok_acked: "conn_ok c \<Longrightarrow> conn_ok (tcp_acked c a)"
  by (simp add: conn_ok_def tcp_acked_def list_all_dropWhile)

text \<open>A result that is there and leaves a well-formed connection.\<close>

definition conn_result :: "(tcp_connection \<times> wire) outcome \<Rightarrow> bool" where
  "conn_result r \<longleftrightarrow> (case r of Inl e \<Rightarrow> False | Inr (c, w) \<Rightarrow> conn_ok c \<and> wire_ok w)"

lemma conn_result_simps [simp]:
  "conn_result (Inr (c, w)) \<longleftrightarrow> conn_ok c \<and> wire_ok w" "\<not> conn_result (Inl e)"
  by (simp_all add: conn_result_def)

lemma conn_result_send [simp]:
  "conn_ok c \<Longrightarrow> length d \<le> MSS \<Longrightarrow> conn_result (Inr (send_tcp_packet now fl d c))"
  using send_tcp_packet_ok [of now fl d c] by (cases "send_tcp_packet now fl d c") simp

lemma conn_resultE:
  assumes "conn_result r"
  obtains c w where "r = Inr (c, w)" "conn_ok c" "wire_ok w"
  using assms by (cases r) (auto simp: conn_result_def)

lemma inqueue_flags_ok:
  assumes "conn_ok c" "fl AND TCP_RST = 0"
  shows "\<exists>c' f w. inqueue_flags now fl c = Inr (c', f, w) \<and> conn_ok c' \<and> wire_ok w"
proof -
  obtain c1 w1 where 1: "send_tcp_packet now (TCP_SYN OR TCP_ACK) [] (c\<lparr>c_status := STATUS_SYN_RCVD\<rparr>) = (c1, w1)" by fastforce
  obtain c2 w2 where 2: "send_tcp_packet now TCP_RST [] c = (c2, w2)" by fastforce
  have "conn_ok c1" "wire_ok w1" "conn_ok c2" "wire_ok w2"
    using send_tcp_packet_ok [OF 1] send_tcp_packet_ok [OF 2] assms(1) by simp_all
  then show ?thesis using assms 1 2 by (auto simp: inqueue_flags_def)
qed

lemma inqueue_loop_ok:
  assumes "conn_ok c" "list_all in_ok kept" "list_all in_ok q" "wire_ok w"
  shows "\<exists>c' q' f w'. inqueue_loop now kept q fin w c = Inr (c', q', f, w') \<and> conn_ok c' \<and> list_all in_ok q' \<and> wire_ok w'"
  using assms
proof (induction now kept q fin w c rule: inqueue_loop.induct)
  case (2 now kept p ps fin w c)
  obtain c1 f1 w1 where f: "inqueue_flags now (h_flags (pk_header p)) (c\<lparr>c_ack := seq_end p\<rparr>) = Inr (c1, f1, w1)"
    and ok: "conn_ok c1" "wire_ok w1"
    using inqueue_flags_ok [of "c\<lparr>c_ack := seq_end p\<rparr>" "h_flags (pk_header p)" now] "2.prems" by (auto simp: in_ok_def)
  show ?case
  proof (cases "seq_ge (c_ack c) (pk_seq p) \<and> c_ack c \<noteq> seq_end p \<and> seq_ge (seq_end p) (c_ack c)")
    case True
    show ?thesis
    proof (cases "length (pk_bytes p) = header_size (pk_header p)")
      case L: True
      show ?thesis
      proof (cases ps)
        case Nil
        then show ?thesis using True L f ok "2.prems" by simp
      next
        case (Cons r rs)
        then show ?thesis using "2.IH"(1) [OF True f refl refl L Cons] True L f ok "2.prems" by simp
      qed
    next
      case False
      then show ?thesis using "2.IH"(2) [OF True f refl refl False] True f ok "2.prems" by simp
    qed
  next
    case False
    then show ?thesis using "2.IH"(3) [OF False] "2.prems" by auto
  qed
qed auto

lemma handle_inqueue_ok: "conn_ok c \<Longrightarrow> conn_result (handle_inqueue now c)"
proof -
  assume c: "conn_ok c"
  then obtain c1 q f w where l: "inqueue_loop now [] (c_inqueue c) False [] c = Inr (c1, q, f, w)"
    and ok: "conn_ok (c1\<lparr>c_inqueue := q\<rparr>)" "wire_ok w"
    using inqueue_loop_ok [OF c, of "[]" "c_inqueue c" "[]" now False] by (auto simp: conn_ok_def)
  obtain c2 w2 where 2: "send_tcp_packet now TCP_ACK [] (c1\<lparr>c_inqueue := q\<rparr>) = (c2, w2)" by fastforce
  have "conn_ok c2" "wire_ok w2" using send_tcp_packet_ok [OF 2] ok by simp_all
  then show ?thesis using l 2 ok by (simp add: handle_inqueue_def Let_def)
qed

lemma incoming_connection_ok:
  assumes "conn_ok c" "20 \<le> length raw"
  shows "\<exists>c' w sg. incoming_connection now raw c = Inr (c', w, sg) \<and> conn_ok c' \<and> wire_ok w"
proof -
  define h where "h = read_header raw"
  define data_sz where "data_sz = (of_nat (length raw) - of_nat (header_size h) :: u32)"
  define c1 where "c1 = c\<lparr>c_window := ucast (h_window h)\<rparr>"
  define c2 where "c2 = (if h_flags h AND TCP_SYN \<noteq> 0 \<and> (c_status c1 = STATUS_LISTEN \<or> c_status c1 = STATUS_SYN_SENT)
                 then c1\<lparr>c_ack := h_seq h\<rparr> else c1)"
  define c3 where "c3 = (if h_flags h AND TCP_ACK \<noteq> 0 then tcp_acked c2 (h_ack h) else c2)"
  define p where "p = \<lparr>last_time_sent = 0, seq_end = h_seq h +
      (if data_sz = 0 \<and> h_flags h AND (TCP_SYN OR TCP_FIN) \<noteq> 0 then 1 else data_sz), read_offset = 0, pk_bytes = raw\<rparr>"
  have c3: "conn_ok c3" using assms(1) conn_ok_acked by (simp add: c3_def c2_def c1_def)
  note eqs = h_def [symmetric] data_sz_def [symmetric] c1_def [symmetric] c2_def [symmetric] c3_def [symmetric] p_def [symmetric]
  show ?thesis
  proof (cases "h_flags h AND TCP_RST = 0")
    case True
    then have "conn_ok (c3\<lparr>c_inqueue := insert_packet p (h_seq h) (c_inqueue c3)\<rparr>)"
      using c3 assms(2) by (simp add: conn_ok_def in_ok_def p_def h_def)
    then obtain c4 w where "handle_inqueue now (c3\<lparr>c_inqueue := insert_packet p (h_seq h) (c_inqueue c3)\<rparr>) = Inr (c4, w)"
      "conn_ok c4" "wire_ok w" using handle_inqueue_ok conn_resultE by metis
    then show ?thesis using assms(1) c3 True unfolding incoming_connection_def Let_def eqs by auto
  next
    case False
    then show ?thesis using assms(1) unfolding incoming_connection_def Let_def eqs by auto
  qed
qed

lemma tcp_wait_ok:
  assumes "conn_ok c" "events_ok evs"
  shows "conn_result (tcp_wait waiting evs c)"
  using assms
proof (induction waiting evs c rule: tcp_wait.induct)
  case (2 waiting now raw evs c)
  obtain c1 w1 sg where 1: "incoming_connection now raw c = Inr (c1, w1, sg)" "conn_ok c1" "wire_ok w1"
    using incoming_connection_ok [of c raw now] "2.prems" by auto
  show ?case
  proof (cases "waiting (c_status c)")
    case True
    then have "conn_result (tcp_wait waiting evs c1)" using "2.IH" [OF True 1(1)] 1 "2.prems" by simp
    then show ?thesis using True 1 by (auto elim: conn_resultE)
  qed (use "2.prems" in simp)
qed simp

lemma conn_result_prefix:
  assumes "conn_result r" "wire_ok v"
  shows "conn_result (rbind r (\<lambda>(c, w). Inr (c, v @ w)))"
  using assms by (auto elim: conn_resultE)

lemma tcp_connect_ok:
  assumes "events_ok evs"
  shows "conn_result (tcp_connect now my_ip evs c)"
proof -
  obtain c1 w1 where 1: "tcp_connect_begin now my_ip c = (c1, w1)" by fastforce
  have ok: "conn_ok c1" "wire_ok w1" using send_tcp_packet_ok [OF 1 [unfolded tcp_connect_begin_def]] by simp_all
  show ?thesis using conn_result_prefix [OF tcp_wait_ok [OF ok(1) assms] ok(2)] 1 by (simp add: tcp_connect_def)
qed

lemma tcp_disconnect_ok:
  assumes "events_ok evs"
  shows "conn_result (tcp_disconnect now evs c)"
proof -
  define c0 where "c0 = flush_all_queues c"
  define c1 where "c1 = (if c_status c0 = STATUS_OPEN then c0\<lparr>c_status := STATUS_FIN_SENT\<rparr>
                 else if c_status c0 = STATUS_FIN_RCVD then c0\<lparr>c_status := STATUS_CLOSED\<rparr> else c0)"
  have ok: "conn_ok c0" "conn_ok c1" by (simp_all add: c0_def c1_def)
  obtain cr wr where r: "send_tcp_packet now TCP_RST [] c0 = (cr, wr)" by fastforce
  obtain cf wf where f: "send_tcp_packet now (TCP_FIN OR TCP_ACK) [] c1 = (cf, wf)" by fastforce
  have okr: "conn_ok cr" "wire_ok wr" "conn_ok cf" "wire_ok wf"
    using send_tcp_packet_ok [OF r] send_tcp_packet_ok [OF f] ok by simp_all
  obtain cw ww where w: "tcp_wait (\<lambda>s. s \<noteq> STATUS_CLOSED) evs cf = Inr (cw, ww)" "conn_ok cw" "wire_ok ww"
    using tcp_wait_ok [OF okr(3) assms] conn_resultE by metis
  obtain ce we where e: "send_tcp_packet now TCP_RST [] cw = (ce, we)" by fastforce
  have oke: "conn_ok ce" "wire_ok we" using send_tcp_packet_ok [OF e] w by simp_all
  show ?thesis
    unfolding tcp_disconnect_def Let_def c0_def [symmetric] c1_def [symmetric]
    using ok okr oke w r f e by simp
qed

lemma send_segments_ok:
  "conn_ok c \<Longrightarrow> conn_result (Inr (send_segments now data c))"
proof (induction now data c rule: send_segments.induct)
  case (1 now data c)
  show ?case
  proof (cases "data = []")
    case False
    let ?fl = "TCP_ACK OR (if length data \<le> MSS then TCP_PSH else 0)"
    obtain c1 w1 where s: "send_tcp_packet now ?fl (take MSS data) c = (c1, w1)" by fastforce
    have ok: "conn_ok c1" "wire_ok w1" using send_tcp_packet_ok [OF s "1.prems"] by simp_all
    have "conn_result (Inr (send_segments now (drop MSS data) c1))"
      using "1.IH" [OF False s [symmetric] refl] ok by simp
    then show ?thesis using False s ok
      by (subst send_segments.simps) (auto simp: Let_def elim!: conn_resultE split: prod.splits)
  qed (use 1 in \<open>simp add: send_segments.simps\<close>)
qed

lemma receive_loop_ok:
  assumes "receive_loop ack kept q e sz out = Inr (q', bytes)" "list_all in_ok kept" "list_all in_ok q"
  shows "list_all in_ok q'"
  using assms
proof (induction ack kept q e sz out rule: receive_loop.induct)
  case (2 ack kept p ps e sz out)
  show ?case
  proof (cases "seq_end p \<noteq> ack \<and> seq_ge (seq_end p) ack")
    case True
    then show ?thesis using "2.prems" by auto
  next
    case False
    obtain b p1 r where rp: "receive_packet e sz p = Inr (b, p1, r)"
      using "2.prems"(1) False by (auto simp: outcome_simps)
    have p1: "in_ok p1"
      using rp "2.prems"(3) by (auto simp: receive_packet_def in_ok_def Let_def outcome_simps split: if_splits)
    show ?thesis
    proof (cases r)
      case True
      show ?thesis
      proof (cases ps)
        case Nil
        then show ?thesis using "2.prems" False rp True by auto
      next
        case (Cons q qs)
        then show ?thesis using "2.IH"(1) [OF False rp refl refl True Cons] "2.prems" False rp True by auto
      qed
    next
      case F: False
      then show ?thesis using "2.IH"(2) [OF False rp refl refl F] "2.prems" False rp p1 by auto
    qed
  qed
qed simp

lemma tcp_receive_ok: "tcp_receive sz c = Inr (c', bytes) \<Longrightarrow> conn_ok c \<Longrightarrow> conn_ok c'"
  using receive_loop_ok by (fastforce simp: tcp_receive_def conn_ok_def outcome_simps)

lemma tcp_set_flag_ok:
  assumes "conn_ok c" "events_ok evs" "events_ok evs'"
  shows "\<exists>r. tcp_set_flag now my_ip pgid evs evs' flag val c = Inr r \<and> (case r of Inl e \<Rightarrow> True | Inr (c', w) \<Rightarrow> conn_ok c' \<and> wire_ok w)"
proof -
  obtain c1 w1 where d: "tcp_disconnect now evs c = Inr (c1, w1)" "conn_ok c1" "wire_ok w1"
    using tcp_disconnect_ok [OF assms(2)] conn_resultE by metis
  have "conn_result (reconnect now my_ip evs' c2)" if "conn_ok c2" for c2
    using that tcp_connect_ok [OF assms(3)] by (simp add: reconnect_def)
  then have "conn_ok c2 \<Longrightarrow> \<exists>c3 w3. reconnect now my_ip evs' c2 = Inr (c3, w3) \<and> conn_ok c3 \<and> wire_ok w3" for c2
    by (metis conn_resultE)
  from this [of "c1\<lparr>c_dest_ip := ucast val\<rparr>"] this [of "c1\<lparr>c_dest_port := ucast val\<rparr>"] this [of "c1\<lparr>c_port := ucast val\<rparr>"]
  show ?thesis using assms(1) d by (cases flag) (auto simp: tcp_set_flag_def Let_def)
qed

section \<open>The service as a whole\<close>

text \<open>The states that the service can reach by its operations and by incoming packets with a complete
  header.\<close>

abbreviation with_connection :: "tcp_service \<Rightarrow> nat \<Rightarrow> tcp_connection \<Rightarrow> tcp_service" where
  "with_connection st k c \<equiv> st\<lparr>tcp_connections := (tcp_connections st)[k := c]\<rparr>"

inductive tcp_reach :: "tcp_service \<Rightarrow> bool" where
  tcp_start: "tcp_reach \<lparr>tcp_connections = [], tcp_port_counter = 1024\<rparr>"
| tcp_create: "tcp_reach st \<Longrightarrow> events_ok evs \<Longrightarrow> events_ok evs' \<Longrightarrow>
    tcp_create_pipe now my_ip evs evs' relpath st = Inr (r, st', w) \<Longrightarrow> tcp_reach st'"
| tcp_destroy: "tcp_reach st \<Longrightarrow> k < length (tcp_connections st) \<Longrightarrow> events_ok evs \<Longrightarrow>
    tcp_destroy_pipe now evs k st = Inr (st', w) \<Longrightarrow> tcp_reach st'"
| tcp_send: "tcp_reach st \<Longrightarrow> k < length (tcp_connections st) \<Longrightarrow>
    service_stream_send now data (tcp_connections st ! k) = Some (n, c, w) \<Longrightarrow> tcp_reach (with_connection st k c)"
| tcp_recv: "tcp_reach st \<Longrightarrow> k < length (tcp_connections st) \<Longrightarrow>
    tcp_receive sz (tcp_connections st ! k) = Inr (c, bytes) \<Longrightarrow> tcp_reach (with_connection st k c)"
| tcp_flag: "tcp_reach st \<Longrightarrow> k < length (tcp_connections st) \<Longrightarrow> events_ok evs \<Longrightarrow> events_ok evs' \<Longrightarrow>
    tcp_set_flag now my_ip pgid evs evs' flag val (tcp_connections st ! k) = Inr (Inr (c, w)) \<Longrightarrow>
    tcp_reach (with_connection st k c)"
| tcp_packet: "tcp_reach st \<Longrightarrow> 20 \<le> length raw \<Longrightarrow>
    incoming now src_ip dest_ip raw (tcp_connections st) = Inr (cs, w, sgs) \<Longrightarrow>
    tcp_reach (st\<lparr>tcp_connections := cs\<rparr>)"

lemma incoming_all_ok:
  assumes "list_all conn_ok cs" "20 \<le> length raw"
  shows "\<exists>cs' w sgs. incoming_all now raw cs = Inr (cs', w, sgs) \<and> list_all conn_ok cs' \<and> wire_ok w"
  using assms(1)
proof (induction cs)
  case (Cons c cs)
  obtain c' w sg where "incoming_connection now raw c = Inr (c', w, sg)" "conn_ok c'" "wire_ok w"
    using incoming_connection_ok [of c raw now] Cons.prems assms(2) by auto
  moreover obtain cs' ws sgs where "incoming_all now raw cs = Inr (cs', ws, sgs)" "list_all conn_ok cs'" "wire_ok ws"
    using Cons by auto
  ultimately show ?case by simp
qed simp

lemma incoming_ok:
  assumes "list_all conn_ok cs" "20 \<le> length raw"
  shows "\<exists>cs' w sgs. incoming now src dst raw cs = Inr (cs', w, sgs) \<and> list_all conn_ok cs' \<and> wire_ok w"
  using incoming_all_ok [OF assms, of now] assms by (auto simp: incoming_def)

lemma tcp_incoming_loop_ok:
  assumes "list_all conn_ok cs" "list_all (\<lambda>(now, p). 20 \<le> length (ip_data p)) ps"
  shows "\<exists>cs' w sgs. tcp_incoming_loop ps cs = Inr (cs', w, sgs) \<and> list_all conn_ok cs' \<and> wire_ok w"
  using assms
proof (induction ps arbitrary: cs)
  case (Cons x ps)
  obtain now p where x: "x = (now, p)" by fastforce
  obtain cs1 w1 s1 where 1: "incoming now (ip_src p) (ip_dest p) (ip_data p) cs = Inr (cs1, w1, s1)"
    "list_all conn_ok cs1" "wire_ok w1"
    using incoming_ok [of cs "ip_data p" now "ip_src p" "ip_dest p"] Cons.prems x by auto
  show ?case using Cons.IH [of cs] Cons.IH [of cs1] Cons.prems 1 x by auto
qed simp

lemma list_all_update: "list_all P xs \<Longrightarrow> P x \<Longrightarrow> list_all P (xs[k := x])"
  by (auto simp: list_all_iff dest!: set_update_subset_insert [THEN subsetD])

lemma list_all_nth: "list_all P xs \<Longrightarrow> k < length xs \<Longrightarrow> P (xs ! k)"
  by (simp add: list_all_length)

lemma list_all_cut: "list_all P xs \<Longrightarrow> list_all P (take k xs)" "list_all P xs \<Longrightarrow> list_all P (drop k xs)"
  by (metis append_take_drop_id list_all_append)+

lemma conn_resultD: "conn_result r \<Longrightarrow> r = Inr (c, w) \<Longrightarrow> conn_ok c \<and> wire_ok w"
  by simp

lemma tcp_create_pipe_ok:
  assumes "tcp_create_pipe now my_ip evs evs' relpath st = Inr (r, st', w)"
    and "list_all conn_ok (tcp_connections st)" "events_ok evs"
  shows "list_all conn_ok (tcp_connections st')"
proof -
  have new: "conn_ok (new_connection p i d)" for p i d by (simp add: new_connection_def conn_ok_def)
  obtain p n where u: "get_user_port (tcp_port_counter st) = (p, n)" by fastforce
  obtain t where t: "parse_target relpath = Inr t" using assms(1) by (auto simp: tcp_create_pipe_def outcome_simps)
  show ?thesis
  proof (cases t)
    case None
    then show ?thesis using assms t by (simp add: tcp_create_pipe_def)
  next
    case (Some target)
    obtain ip port where target: "target = (ip, port)" by fastforce
    obtain c w1 where c: "tcp_connect now my_ip evs (new_connection p ip port) = Inr (c, w1)" "conn_ok c"
      using tcp_connect_ok [OF assms(3)] conn_resultE by metis
    show ?thesis
      using assms(1,2) new c by (auto simp: tcp_create_pipe_def t Some target u Let_def outcome_simps split: if_splits)
  qed
qed

lemma tcp_reach_ok: "tcp_reach st \<Longrightarrow> list_all conn_ok (tcp_connections st)"
proof (induction rule: tcp_reach.induct)
  case (tcp_create st evs evs' now my_ip relpath r st' w)
  then show ?case using tcp_create_pipe_ok by blast
next
  case (tcp_destroy st k evs now st' w)
  then show ?case by (auto simp: tcp_destroy_pipe_def outcome_simps list_all_cut)
next
  case (tcp_send st k now data n c w)
  have "conn_ok c"
    using tcp_send send_segments_ok [OF list_all_nth [OF tcp_send.IH tcp_send.hyps(2)], of now data]
    by (auto simp: service_stream_send_def split: if_splits prod.splits)
  then show ?case using tcp_send by (simp add: list_all_update)
next
  case (tcp_recv st k sz c bytes)
  have "conn_ok c" using tcp_receive_ok [OF tcp_recv.hyps(3)] list_all_nth [OF tcp_recv.IH tcp_recv.hyps(2)] .
  then show ?case using tcp_recv by (simp add: list_all_update)
next
  case (tcp_flag st k evs evs' now my_ip pgid flag val c w)
  have "conn_ok c"
    using tcp_set_flag_ok [OF list_all_nth [OF tcp_flag.IH tcp_flag.hyps(2)] tcp_flag.hyps(3,4), of now my_ip pgid flag val]
      tcp_flag.hyps(5) by auto
  then show ?case using tcp_flag by (simp add: list_all_update)
next
  case (tcp_packet st raw now src_ip dest_ip cs w sgs)
  then show ?case using incoming_ok [OF tcp_packet.IH tcp_packet.hyps(2), of now src_ip dest_ip] by auto
qed simp

text \<open>C11: Well-typed states: in every state the service can reach, each queue of each connection holds
  well-formed packets, and any sequence of packets with complete headers that comes in is handled without
  a failed assertion and without an access outside a packet, leaving well-formed connections; what is
  sent in answer are segments of legal size.\<close>

theorem tcp_well_typed:
  assumes "tcp_reach st" "list_all (\<lambda>(now, p). 20 \<le> length (ip_data p)) ps"
  shows "list_all conn_ok (tcp_connections st) \<and>
    (\<exists>cs w sgs. tcp_incoming_loop ps (tcp_connections st) = Inr (cs, w, sgs) \<and> list_all conn_ok cs \<and> wire_ok w)"
  using tcp_reach_ok [OF assms(1)] tcp_incoming_loop_ok [OF tcp_reach_ok [OF assms(1)] assms(2)] by blast

theorem tcp_well_typed_witness:
  "tcp_reach \<lparr>tcp_connections = [], tcp_port_counter = 1024\<rparr> \<and>
   (\<exists>cs w sgs. tcp_incoming_loop [(0, \<lparr>ip_src = 1, ip_dest = 2, ip_protocol = 6, ip_ttl = 9, ip_data = replicate 20 0\<rparr>)] []
      = Inr (cs, w, sgs) \<and> wire_ok w)"
  using tcp_well_typed [OF tcp_start, of "[(0, \<lparr>ip_src = 1, ip_dest = 2, ip_protocol = 6, ip_ttl = 9, ip_data = replicate 20 0\<rparr>)]"]
    tcp_start by (simp del: tcp_incoming_loop.simps) blast

section \<open>Segmentation\<close>

lemma insert_packet_last:
  "\<forall>x \<in> set q. pk_seq x \<le> seq \<Longrightarrow> insert_packet p seq q = q @ [p]"
  by (simp add: insert_packet_def)

definition pk_data :: "packet \<Rightarrow> u8 list" where
  "pk_data p = drop 20 (pk_bytes p)"

lemma send_tcp_packet_queue:
  assumes "send_tcp_packet now fl d c = (c', w)" "\<forall>x \<in> set (c_outqueue c). pk_seq x \<le> c_seq c" "d \<noteq> []"
  obtains p where "c_outqueue c' = c_outqueue c @ [p]" "c_seq c' = c_seq c + of_nat (length d)"
    "pk_data p = d" "pk_seq p = c_seq c" "h_flags (pk_header p) = fl"
proof (rule that)
  let ?p = "\<lparr>last_time_sent = 0, seq_end = c_seq c + of_nat (length d), read_offset = 0, pk_bytes = make_packet c fl d\<rparr>"
  show "c_outqueue c' = c_outqueue c @ [?p]" "c_seq c' = c_seq c + of_nat (length d)"
    using assms by (auto simp: send_tcp_packet_def Let_def insert_packet_last seq_size_of_def)
qed (simp_all add: pk_data_def)

text \<open>What a list of segments is that carries \<open>data\<close> from the sequence number \<open>seq\<close> on.\<close>

fun carries :: "u32 \<Rightarrow> u8 list \<Rightarrow> packet list \<Rightarrow> bool" where
  "carries seq data [] \<longleftrightarrow> data = []"
| "carries seq data (p # ps) \<longleftrightarrow>
     data \<noteq> [] \<and> pk_seq p = seq \<and> pk_data p = take MSS data \<and>
     h_flags (pk_header p) = TCP_ACK OR (if ps = [] then TCP_PSH else 0) \<and>
     carries (seq + of_nat (length (pk_data p))) (drop MSS data) ps"

lemma carries_concat: "carries seq data ps \<Longrightarrow> concat (map pk_data ps) = data"
proof (induction seq data ps rule: carries.induct)
  case (2 seq data p ps)
  then show ?case by (metis append_take_drop_id carries.simps(2) concat.simps(2) list.simps(9))
qed simp

lemma send_segments_carries:
  assumes "send_segments now data c = (c', w)" "\<forall>x \<in> set (c_outqueue c). pk_seq x \<le> c_seq c"
    and "unat (c_seq c) + length data < 2 ^ 32"
  shows "\<exists>ps. c_outqueue c' = c_outqueue c @ ps \<and> carries (c_seq c) data ps \<and>
    c_seq c' = c_seq c + of_nat (length data)"
  using assms
proof (induction now data c arbitrary: c' w rule: send_segments.induct)
  case (1 now data c)
  show ?case
  proof (cases "data = []")
    case True
    then show ?thesis using "1.prems"(1) by (auto simp: send_segments.simps)
  next
    case False
    let ?fl = "TCP_ACK OR (if length data \<le> MSS then TCP_PSH else 0)"
    obtain c1 w1 where s: "send_tcp_packet now ?fl (take MSS data) c = (c1, w1)" by fastforce
    obtain w2 where r: "send_segments now (drop MSS data) c1 = (c', w2)"
      using "1.prems"(1) False s by (subst (asm) send_segments.simps) (auto simp: Let_def split: prod.splits)
    have ne: "take MSS data \<noteq> []" using False by (simp add: MSS_def)
    obtain p where p: "c_outqueue c1 = c_outqueue c @ [p]" "c_seq c1 = c_seq c + of_nat (length (take MSS data))"
      "pk_data p = take MSS data" "pk_seq p = c_seq c" "h_flags (pk_header p) = ?fl"
      using send_tcp_packet_queue [OF s "1.prems"(2) ne] by blast
    have u: "unat (c_seq c1) = unat (c_seq c) + length (take MSS data)"
      unfolding p(2) by (rule unat_plus_of_nat) (use "1.prems"(3) in simp)
    then have mono: "c_seq c \<le> c_seq c1" by (simp add: word_le_nat_alt)
    have "\<forall>x \<in> set (c_outqueue c1). pk_seq x \<le> c_seq c1"
      using "1.prems"(2) mono p(1,4) by (auto intro: order_trans)
    moreover have "unat (c_seq c1) + length (drop MSS data) < 2 ^ 32" using u "1.prems"(3) by simp
    ultimately obtain ps where ps: "c_outqueue c' = c_outqueue c1 @ ps" "carries (c_seq c1) (drop MSS data) ps"
      "c_seq c' = c_seq c1 + of_nat (length (drop MSS data))"
      using "1.IH" [OF False s [symmetric] refl r] by blast
    have "ps = [] \<longleftrightarrow> length data \<le> MSS" using ps(2) by (cases ps) auto
    then have car: "carries (c_seq c) data (p # ps)" using p ps False by auto
    have sq: "c_seq c' = c_seq c + of_nat (length data)"
    proof -
      have "length (take MSS data) + length (drop MSS data) = length data" by simp
      then show ?thesis unfolding ps(3) p(2) by (metis add.assoc of_nat_add)
    qed
    show ?thesis
    proof (intro exI conjI)
      show "c_outqueue c' = c_outqueue c @ (p # ps)" using ps(1) p(1) by simp
    qed (rule car, rule sq)
  qed
qed

text \<open>C14: As long as the sequence numbers do not wrap around (the data ends below \<open>2 ^ 32\<close>, and no queued
  segment has a number above the connection's next one), \<open>service_stream_send\<close> cuts the data into segments
  that carry it completely and in order: they are appended to the queue, each has the sequence number at
  which the one before ends, all but the last carry \<open>MSS\<close> bytes and only the last is pushed; put together
  the segments are the data. \<open>send_wrap_out_of_order\<close> below shows that the condition is needed.\<close>

theorem stream_send_segments:
  assumes "service_stream_send now data c = Some (n, c', w)"
    and "\<forall>x \<in> set (c_outqueue c). pk_seq x \<le> c_seq c" "unat (c_seq c) + length data < 2 ^ 32"
  shows "n = length data \<and> (\<exists>ps. c_outqueue c' = c_outqueue c @ ps \<and> carries (c_seq c) data ps \<and>
    concat (map pk_data ps) = data \<and> c_seq c' = c_seq c + of_nat (length data))"
proof -
  have "send_segments now data c = (c', w)" "n = length data"
    using assms(1) by (auto simp: service_stream_send_def split: if_splits prod.splits)
  then show ?thesis using send_segments_carries [OF _ assms(2,3)] carries_concat by metis
qed

theorem stream_send_segments_witness:
  "\<exists>c w ps. service_stream_send 5 [7, 8, 9] (new_connection 80 2 90\<lparr>c_status := STATUS_OPEN\<rparr>) = Some (3, c, w) \<and>
     c_outqueue c = ps \<and> concat (map pk_data ps) = [7, 8, 9] \<and> c_seq c = 3"
proof -
  let ?c = "new_connection 80 2 90\<lparr>c_status := STATUS_OPEN\<rparr>"
  obtain c w where s: "send_segments 5 [7, 8, 9] ?c = (c, w)" by fastforce
  have r: "service_stream_send 5 [7, 8, 9] ?c = Some (3, c, w)"
    unfolding service_stream_send_def s by (simp add: new_connection_def)
  have "c_outqueue ?c = []" "c_seq ?c = 0" by (simp_all add: new_connection_def)
  then show ?thesis using stream_send_segments [OF r] r by auto
qed

text \<open>The queue is ordered by the plain comparison of sequence numbers. Once the number has wrapped around, a
  new segment is queued in front of the ones that were sent before it.\<close>

lemma send_wrap_out_of_order:
  assumes "c_status c = STATUS_OPEN" "data \<noteq> []" "length data \<le> MSS" "c_outqueue c = [x]" "c_seq c < pk_seq x"
  shows "\<exists>c' w p. service_stream_send now data c = Some (length data, c', w) \<and> c_outqueue c' = [p, x] \<and>
    pk_seq p = c_seq c \<and> pk_data p = data"
  using assms by (simp add: service_stream_send_def send_segments.simps [of now data] send_segments.simps [of now "[]"]
      send_tcp_packet_def Let_def insert_packet_def seq_size_of_def pk_data_def)

section \<open>Delivery\<close>

lemma of_nat32_less: "n < 0x40000000 \<Longrightarrow> (of_nat n :: u32) < 0x40000000"
  by (simp add: word_less_nat_alt unat_of_nat32)

lemma of_nat32_eq_0: "n < 2 ^ 32 \<Longrightarrow> (of_nat n :: u32) = 0 \<longleftrightarrow> n = 0"
  using of_nat32_inj [of n 0] by auto

lemma data_flags: "(TCP_ACK OR TCP_PSH) AND TCP_RST = 0" "(TCP_ACK OR TCP_PSH) AND TCP_SYN = 0"
  "(TCP_ACK OR TCP_PSH) AND TCP_FIN = 0" "(TCP_ACK OR TCP_PSH) AND TCP_ACK \<noteq> 0"
  "TCP_ACK \<noteq> 0"
  by (simp_all add: tcp_flags)

lemma inqueue_loop_data:
  assumes "c_ack d = pk_seq p" "seq_end p = pk_seq p + of_nat n" "0 < n" "n < 0x40000000"
    and "length (pk_bytes p) = 20 + n" "header_size (pk_header p) = 20" "h_flags (pk_header p) = TCP_ACK OR TCP_PSH"
  shows "inqueue_loop now [] [p] False [] d = Inr (d\<lparr>c_ack := seq_end p\<rparr>, [p], False, [])"
proof -
  have "seq_ge (c_ack d) (pk_seq p)" "seq_ge (seq_end p) (c_ack d)" "c_ack d \<noteq> seq_end p"
    using assms(1-4) of_nat32_less [of n] of_nat32_eq_0 [of n] by (simp_all add: seq_ge_def)
  then show ?thesis using assms(3,5-7) by (simp add: inqueue_flags_def data_flags)
qed

lemma tcp_receive_single:
  assumes "c_inqueue d = [p]" "c_ack d = seq_end p" "read_offset p = 0"
    and "length (pk_bytes p) = 20 + n" "header_size (pk_header p) = 20" "0 < n" "n < 2 ^ 32" "n \<le> unat sz"
  shows "tcp_receive sz d = Inr (d\<lparr>c_inqueue := []\<rparr>, pk_data p)"
proof -
  have n: "(of_nat n :: u32) \<noteq> 0" "unat (of_nat n :: u32) = n" using assms(6,7) by (simp_all add: of_nat32_eq_0 unat_of_nat32)
  then have "\<not> sz < of_nat n" using assms(8) by (simp add: word_less_nat_alt)
  then have "receive_packet (pk_seq p) sz p = Inr (pk_data p, p\<lparr>read_offset := of_nat n\<rparr>, True)"
    using assms(3-5) n by (simp add: receive_packet_def Let_def pk_data_def)
  then show ?thesis using assms(1,2) by (simp add: tcp_receive_def)
qed

text \<open>The two ends of a connection with the direction from \<open>c\<close> to \<open>d\<close> idle at the receiver: the ports and
  addresses fit, \<open>d\<close> expects the next byte of \<open>c\<close>, everything that came in at \<open>d\<close> has been read, and \<open>c\<close> has
  acknowledged everything that \<open>d\<close> has sent.\<close>

definition connected :: "tcp_connection \<Rightarrow> tcp_connection \<Rightarrow> bool" where
  "connected c d \<longleftrightarrow>
     c_dest_port c = c_port d \<and> c_dest_port d = c_port c \<and> c_dest_ip c = c_ip d \<and> c_dest_ip d = c_ip c
     \<and> c_status d = STATUS_OPEN \<and> c_ack d = c_seq c \<and> c_inqueue d = []
     \<and> (\<forall>p \<in> set (c_outqueue d). seq_ge (c_ack c) (seq_end p))"

text \<open>\<open>c\<close> can send \<open>n\<close> bytes at once: it is open for sending, the bytes and the segments that are still queued
  fit into the window of the other end, and the sequence numbers have not wrapped around since.\<close>

definition can_send :: "tcp_connection \<Rightarrow> nat \<Rightarrow> bool" where
  "can_send c n \<longleftrightarrow>
     (let start = (if c_outqueue c \<noteq> [] then pk_seq (hd (c_outqueue c)) else c_seq c) in
      (c_status c = STATUS_OPEN \<or> c_status c = STATUS_FIN_RCVD) \<and> c_seq c + of_nat n - start \<le> c_window c
      \<and> (\<forall>p \<in> set (c_outqueue c). pk_seq p \<le> c_seq c \<and> seq_end p - start \<le> c_window c
           \<and> seq_ge (c_seq c + of_nat n) (seq_end p)))"

lemma handle_outqueue_last:
  assumes "c_outqueue c = q @ [p]" "RTT < now - last_time_sent p"
    and "\<forall>x \<in> set (q @ [p]). seq_end x - pk_seq (hd (q @ [p])) \<le> c_window c"
  shows "\<exists>w. handle_outqueue now c = w @ [(c_dest_ip c, pk_bytes p)]"
proof -
  have "takeWhile (\<lambda>x. seq_end x - pk_seq (hd (q @ [p])) \<le> c_window c) (q @ [p]) = q @ [p]"
    using assms(3) by (simp add: takeWhile_eq_all_conv)
  then show ?thesis using assms(1,2) by (simp add: handle_outqueue_def)
qed

lemma stream_send_single:
  assumes "can_send c (length data)" "data \<noteq> []" "length data \<le> MSS" "RTT < now"
  obtains c' w p where
    "service_stream_send now data c = Some (length data, c', w @ [(c_dest_ip c, make_packet c (TCP_ACK OR TCP_PSH) data)])"
    "c' = c\<lparr>c_seq := c_seq c + of_nat (length data), c_outqueue := c_outqueue c @ [p]\<rparr>"
    "seq_end p = c_seq c + of_nat (length data)"
proof -
  let ?p = "\<lparr>last_time_sent = 0, seq_end = c_seq c + of_nat (length data), read_offset = 0,
     pk_bytes = make_packet c (TCP_ACK OR TCP_PSH) data\<rparr>"
  let ?c = "c\<lparr>c_seq := c_seq c + of_nat (length data), c_outqueue := c_outqueue c @ [?p]\<rparr>"
  have q: "\<forall>x \<in> set (c_outqueue c). pk_seq x \<le> c_seq c" and st: "c_status c = STATUS_OPEN \<or> c_status c = STATUS_FIN_RCVD"
    using assms(1) by (simp_all add: can_send_def Let_def)
  have "\<forall>x \<in> set (c_outqueue c @ [?p]). seq_end x - pk_seq (hd (c_outqueue c @ [?p])) \<le> c_window ?c"
    using assms(1) by (auto simp: can_send_def Let_def hd_append split: if_splits)
  then obtain w where w: "handle_outqueue now ?c = w @ [(c_dest_ip c, make_packet c (TCP_ACK OR TCP_PSH) data)]"
    using handle_outqueue_last [of ?c "c_outqueue c" ?p now] assms(4) by auto
  have sz: "seq_size_of (length data) (TCP_ACK OR TCP_PSH) = length data" using assms(2) by (simp add: seq_size_of_def)
  have "send_tcp_packet now (TCP_ACK OR TCP_PSH) data c = (?c, handle_outqueue now ?c)"
    using sz by (simp add: send_tcp_packet_def Let_def insert_packet_last [OF q])
  then have "service_stream_send now data c = Some (length data, ?c, handle_outqueue now ?c)"
    using st assms(2,3) by (auto simp: service_stream_send_def send_segments.simps [of now data] send_segments.simps [of now "[]"])
  then show ?thesis using that w by simp
qed

lemma handle_inqueue_data:
  assumes "c_inqueue d = [p]" "c_status d = STATUS_OPEN" "c_outqueue d = []" "RTT < now"
    and "c_ack d = pk_seq p" "seq_end p = pk_seq p + of_nat n" "0 < n" "n < 0x40000000"
    and "length (pk_bytes p) = 20 + n" "header_size (pk_header p) = 20" "h_flags (pk_header p) = TCP_ACK OR TCP_PSH"
  obtains d1 where "handle_inqueue now d = Inr (d1, [(c_dest_ip d, make_packet (d\<lparr>c_ack := seq_end p\<rparr>) TCP_ACK [])])"
    "c_inqueue d1 = [p]" "c_ack d1 = seq_end p"
proof -
  have "inqueue_loop now [] (c_inqueue d) False [] d = Inr (d\<lparr>c_ack := seq_end p\<rparr>, [p], False, [])"
    unfolding assms(1) by (rule inqueue_loop_data [OF assms(5-11)])
  moreover have "make_packet (d\<lparr>c_ack := a, c_inqueue := [p]\<rparr>) TCP_ACK [] = make_packet (d\<lparr>c_ack := a\<rparr>) TCP_ACK []" for a
    by (simp add: make_packet_def make_header_def Let_def)
  ultimately show ?thesis
    using assms(2-4) that by (simp add: handle_inqueue_def answers_def send_tcp_packet_def Let_def insert_packet_def
        handle_outqueue_def seq_size_of_def tcp_flags)
qed

lemma ack_flags: "TCP_ACK AND TCP_RST = 0" "TCP_ACK AND TCP_SYN = 0" "TCP_ACK AND (TCP_SYN OR TCP_FIN) = 0"
  "TCP_ACK AND (TCP_SYN OR TCP_FIN OR TCP_RST) = 0"
  by (simp_all add: tcp_flags)

text \<open>A segment with nothing but an acknowledgement takes the acknowledged segments off the queue.\<close>

lemma incoming_pure_ack:
  assumes "raw = make_packet d TCP_ACK []" "c_dest_port d = c_port c" "\<forall>p \<in> set (c_outqueue c). seq_ge (c_ack d) (seq_end p)"
  shows "\<exists>c'. incoming now (c_ip d) (c_dest_ip d) raw [c] = Inr ([c'], [], []) \<and> c_outqueue c' = []"
proof -
  have "calculate_network_checksum (pseudo_ip_header 6 (c_ip d) (c_dest_ip d) (of_nat (length raw))) raw = 0"
    using make_packet_sealed [of "[]" d TCP_ACK] by (simp add: assms(1))
  moreover have "incoming_connection now raw c = Inr (tcp_acked (c\<lparr>c_window := ucast DEFAULT_WINDOW\<rparr>) (c_ack d), [], False)"
    using assms(2) unfolding incoming_connection_def Let_def by (simp add: assms(1) ack_flags data_flags)
  moreover have "c_outqueue (tcp_acked (c\<lparr>c_window := w\<rparr>) (c_ack d)) = []" for w
    using assms(3) by (simp add: tcp_acked_def seq_ge_def)
  ultimately show ?thesis by (simp add: incoming_def assms(1))
qed

text \<open>C12: Data arrives and is acknowledged. The two ends are connected with the receive queue of the
  receiver empty and everything that it has sent acknowledged, up to \<open>MSS\<close> bytes fit into the window behind what is
  still queued, the sequence numbers of the queue have not wrapped around, and both clocks are past the first second (the
  retransmission time). Then \<open>service_stream_send\<close> puts one segment on the wire, behind what was queued
  before; it passes the checksum at the other host, which sends exactly one segment back, an
  acknowledgement of the byte after the last; \<open>tcp_receive\<close> returns exactly the bytes sent and leaves the
  queue empty; and the acknowledgement, when it arrives, empties the queue of the sender.\<close>

theorem tcp_delivers:
  assumes "connected c d" "can_send c (length data)" "data \<noteq> []" "length data \<le> MSS" "length data \<le> unat sz"
    and "RTT < now" "RTT < now'"
  shows "\<exists>c' w seg d1 acknowledgement sgs d2 c''.
    service_stream_send now data c = Some (length data, c', w @ [(c_ip d, seg)]) \<and>
    incoming now' (c_ip c) (c_ip d) seg [d] = Inr ([d1], [(c_ip c, acknowledgement)], sgs) \<and>
    h_flags (read_header acknowledgement) = TCP_ACK \<and>
    h_ack (read_header acknowledgement) = c_seq c + of_nat (length data) \<and>
    tcp_receive sz d1 = Inr (d2, data) \<and> c_inqueue d2 = [] \<and>
    incoming now'' (c_ip d) (c_ip c) acknowledgement [c'] = Inr ([c''], [], []) \<and> c_outqueue c'' = []"
proof -
  define n where "n = length data"
  have n: "0 < n" "n < 0x40000000" "n \<le> 65515" using assms(3,4) by (auto simp: n_def MSS_def)
  define raw where "raw = make_packet c (TCP_ACK OR TCP_PSH) data"
  define p where "p = \<lparr>last_time_sent = 0, seq_end = c_seq c + of_nat n, read_offset = 0, pk_bytes = raw\<rparr>"
  have con: "c_dest_port c = c_port d" "c_dest_port d = c_port c" "c_dest_ip c = c_ip d" "c_dest_ip d = c_ip c"
    "c_status d = STATUS_OPEN" "c_ack d = c_seq c" "c_inqueue d = []" "\<forall>p \<in> set (c_outqueue d). seq_ge (c_ack c) (seq_end p)"
    using assms(1) by (simp_all add: connected_def)
  from stream_send_single [OF assms(2-4,6)] obtain c' w q where send:
      "service_stream_send now data c = Some (length data, c', w @ [(c_ip d, raw)])"
      "c' = c\<lparr>c_seq := c_seq c + of_nat n, c_outqueue := c_outqueue c @ [q]\<rparr>" "seq_end q = c_seq c + of_nat n"
    by (metis con(3) n_def raw_def)
  define d0 where "d0 = (tcp_acked (d\<lparr>c_window := ucast DEFAULT_WINDOW\<rparr>) (c_ack c))\<lparr>c_inqueue := [p]\<rparr>"
  have d0: "c_ack d0 = c_seq c" "c_inqueue d0 = [p]" "c_status d0 = STATUS_OPEN" "c_outqueue d0 = []"
      "c_dest_ip d0 = c_ip c" "c_ip d0 = c_ip d" "c_dest_port d0 = c_port c"
    using con by (simp_all add: d0_def tcp_acked_def seq_ge_def)
  let ?ack = "make_packet (d0\<lparr>c_ack := seq_end p\<rparr>) TCP_ACK []"
  obtain d1 where d1: "handle_inqueue now' d0 = Inr (d1, [(c_ip c, ?ack)])" "c_inqueue d1 = [p]" "c_ack d1 = seq_end p"
    using handle_inqueue_data [OF d0(2,3,4) assms(7), of n] n d0(1,5) by (auto simp: p_def raw_def n_def)
  have "(of_nat (20 + n) - 20 :: u32) = of_nat n" "(of_nat n :: u32) \<noteq> 0" using n by (simp_all add: of_nat32_eq_0)
  then have inc: "incoming_connection now' raw d = Inr (d1, [(c_ip c, ?ack)], c_signal d1)"
    using d1(1) con(1,7) n unfolding incoming_connection_def Let_def
    by (simp add: raw_def data_flags tcp_acked_def insert_packet_def n_def [symmetric] d0_def p_def)
  have "calculate_network_checksum (pseudo_ip_header 6 (c_ip c) (c_ip d) (of_nat (length raw))) raw = 0"
    using make_packet_sealed [of data c "TCP_ACK OR TCP_PSH"] n con(3) by (simp add: raw_def n_def)
  then have "incoming now' (c_ip c) (c_ip d) raw [d]
      = Inr ([d1], [(c_ip c, ?ack)], if c_signal d1 then [c_owner d1] else [])"
    using inc by (simp add: incoming_def raw_def)
  moreover have "tcp_receive sz d1 = Inr (d1\<lparr>c_inqueue := []\<rparr>, data)"
    using tcp_receive_single [of d1 p n sz] n d1(2,3) assms(5) by (simp add: p_def raw_def n_def pk_data_def)
  moreover have "\<exists>c''. incoming now'' (c_ip d) (c_ip c) ?ack [c'] = Inr ([c''], [], []) \<and> c_outqueue c'' = []"
    using incoming_pure_ack [of ?ack "d0\<lparr>c_ack := seq_end p\<rparr>" c' now''] assms(2) d0(5-7) send(2,3)
    by (auto simp: p_def can_send_def Let_def n_def seq_ge_def)
  moreover have "h_flags (read_header ?ack) = TCP_ACK" "h_ack (read_header ?ack) = c_seq c + of_nat (length data)"
    by (simp_all add: p_def n_def)
  moreover have "c_inqueue (d1\<lparr>c_inqueue := []\<rparr>) = []" by simp
  ultimately show ?thesis using send(1) by blast
qed

theorem tcp_delivers_witness:
  "\<exists>c' w seg d1 acknowledgement sgs d2.
     service_stream_send 5000 [7, 8, 9] (new_connection 80 2 90\<lparr>c_ip := 1, c_status := STATUS_OPEN\<rparr>)
       = Some (3, c', w @ [(2, seg)]) \<and>
     incoming 5000 1 2 seg [new_connection 90 1 80\<lparr>c_ip := 2, c_status := STATUS_OPEN\<rparr>]
       = Inr ([d1], [(1, acknowledgement)], sgs) \<and>
     h_ack (read_header acknowledgement) = 3 \<and> tcp_receive 100 d1 = Inr (d2, [7, 8, 9])"
proof -
  let ?c = "new_connection 80 2 90\<lparr>c_ip := 1, c_status := STATUS_OPEN\<rparr>"
  let ?d = "new_connection 90 1 80\<lparr>c_ip := 2, c_status := STATUS_OPEN\<rparr>"
  have f: "c_ip ?c = 1" "c_ip ?d = 2" "c_seq ?c = 0" by (simp_all add: new_connection_def)
  have "connected ?c ?d" "can_send ?c (length [7, 8, 9 :: u8])"
    by (simp_all add: connected_def can_send_def new_connection_def DEFAULT_WINDOW_def Let_def)
  from tcp_delivers [OF this, of 100 5000 5000 0, unfolded f] show ?thesis by (fastforce simp: MSS_def RTT_def)
qed

section \<open>Opening a connection\<close>

lemma syn_ack_flags: "(TCP_SYN OR TCP_ACK) AND TCP_RST = 0" "(TCP_SYN OR TCP_ACK) AND TCP_SYN \<noteq> 0"
  "(TCP_SYN OR TCP_ACK) AND TCP_ACK \<noteq> 0" "(TCP_SYN OR TCP_ACK) AND (TCP_SYN OR TCP_FIN) \<noteq> 0"
  "(TCP_SYN OR TCP_ACK) AND (TCP_SYN OR TCP_FIN OR TCP_RST) \<noteq> 0" "TCP_SYN \<noteq> 0" "TCP_ACK \<noteq> 0"
  by (simp_all add: tcp_flags)

lemma seq_size_control: "seq_size_of 0 TCP_SYN = 1" "seq_size_of 0 TCP_ACK = 0"
  by (simp_all add: seq_size_of_def tcp_flags)

lemma tcp_connect_begin_state:
  obtains w p where "tcp_connect_begin now my_ip c =
      (c\<lparr>c_ip := my_ip, c_inqueue := [], c_seq := 1, c_status := STATUS_SYN_SENT, c_outqueue := [p]\<rparr>, w)"
    "seq_end p = 1" "h_flags (pk_header p) = TCP_SYN" "pk_seq p = 0"
proof -
  define c0 where "c0 = (flush_all_queues (c\<lparr>c_ip := my_ip\<rparr>))\<lparr>c_seq := 0, c_status := STATUS_SYN_SENT\<rparr>"
  let ?p = "\<lparr>last_time_sent = 0, seq_end = 1, read_offset = 0, pk_bytes = make_packet c0 TCP_SYN []\<rparr>"
  have "fst (tcp_connect_begin now my_ip c) =
      c\<lparr>c_ip := my_ip, c_inqueue := [], c_seq := 1, c_status := STATUS_SYN_SENT, c_outqueue := [?p]\<rparr>"
    unfolding tcp_connect_begin_def c0_def [symmetric]
    by (simp add: send_tcp_packet_def Let_def seq_size_control insert_packet_def)
      (simp add: c0_def flush_all_queues_def)
  moreover have "c_seq c0 = 0" by (simp add: c0_def)
  ultimately show ?thesis using that [of ?p "snd (tcp_connect_begin now my_ip c)"]
    by (cases "tcp_connect_begin now my_ip c") simp
qed

lemma incoming_syn_ack:
  assumes raw: "length raw = 20" "header_size (read_header raw) = 20" "h_flags (read_header raw) = TCP_SYN OR TCP_ACK"
      "h_ack (read_header raw) = seq_end p" "h_dest_port (read_header raw) = c_port c"
    and c: "c_status c = STATUS_SYN_SENT" "c_inqueue c = []" "c_outqueue c = [p]"
  shows "\<exists>c' w sg q. incoming_connection now raw c = Inr (c', w, sg) \<and> c_status c' = STATUS_OPEN \<and>
    c_ack c' = h_seq (read_header raw) + 1 \<and> c_seq c' = c_seq c \<and> c_outqueue c' = [q] \<and> c_inqueue c' = [] \<and>
    h_flags (pk_header q) = TCP_ACK \<and> pk_seq q = c_seq c \<and> h_ack (pk_header q) = h_seq (read_header raw) + 1"
proof -
  define h where "h = read_header raw"
  define r where "r = \<lparr>last_time_sent = 0, seq_end = h_seq h + 1, read_offset = 0, pk_bytes = raw\<rparr>"
  define c1 where "c1 = c\<lparr>c_window := ucast (h_window h), c_ack := h_seq h, c_outqueue := [], c_inqueue := [r]\<rparr>"
  define c2 where "c2 = c1\<lparr>c_ack := h_seq h + 1, c_status := STATUS_OPEN, c_inqueue := []\<rparr>"
  have "seq_ge (h_seq h) (h_seq h)" "seq_ge (h_seq h + 1) (h_seq h)" by (simp_all add: seq_ge_def)
  then have "inqueue_loop now [] (c_inqueue c1) False [] c1 =
      Inr (c1\<lparr>c_ack := h_seq h + 1, c_status := STATUS_OPEN\<rparr>, [], False, [])"
    using raw(1-3) c(1) by (simp add: c1_def r_def h_def inqueue_flags_def syn_ack_flags)
  then have "handle_inqueue now c1 = Inr (send_tcp_packet now TCP_ACK [] c2)"
    by (simp add: handle_inqueue_def answers_def c2_def)
  moreover have "incoming_connection now raw c = rbind (handle_inqueue now c1) (\<lambda>(c, w). Inr (c, w, c_signal c))"
    using raw c unfolding incoming_connection_def Let_def h_def [symmetric]
    by (simp add: syn_ack_flags tcp_acked_def insert_packet_def c1_def r_def)
  moreover obtain c3 w where s: "send_tcp_packet now TCP_ACK [] c2 = (c3, w)" by fastforce
  moreover have "c_status c3 = STATUS_OPEN" "c_ack c3 = h_seq h + 1" "c_seq c3 = c_seq c" "c_inqueue c3 = []"
    "\<exists>q. c_outqueue c3 = [q] \<and> h_flags (pk_header q) = TCP_ACK \<and> pk_seq q = c_seq c \<and> h_ack (pk_header q) = h_seq h + 1"
    using s by (auto simp: send_tcp_packet_def Let_def seq_size_control insert_packet_def c2_def c1_def)
  ultimately show ?thesis by (auto simp: h_def)
qed

text \<open>An active open succeeds: \<open>tcp_connect\<close> sends a SYN, and when the answer of the other side comes in
  while it waits, the connection is open, the byte the SYN of the other side takes is acknowledged, and
  the SYN has left the queue, in which the acknowledgement is all that remains.\<close>

theorem tcp_connect_opens:
  assumes "length raw = 20" "header_size (read_header raw) = 20" "h_flags (read_header raw) = TCP_SYN OR TCP_ACK"
    and "h_ack (read_header raw) = 1" "h_dest_port (read_header raw) = c_port c"
  shows "\<exists>c' w q. tcp_connect now my_ip [(t, raw)] c = Inr (c', w) \<and> c_status c' = STATUS_OPEN \<and>
    c_seq c' = 1 \<and> c_ack c' = h_seq (read_header raw) + 1 \<and> c_outqueue c' = [q] \<and>
    h_flags (pk_header q) = TCP_ACK \<and> pk_seq q = 1 \<and> h_ack (pk_header q) = h_seq (read_header raw) + 1"
proof -
  obtain w p where b: "tcp_connect_begin now my_ip c =
      (c\<lparr>c_ip := my_ip, c_inqueue := [], c_seq := 1, c_status := STATUS_SYN_SENT, c_outqueue := [p]\<rparr>, w)" "seq_end p = 1"
    by (rule tcp_connect_begin_state)
  let ?c = "c\<lparr>c_ip := my_ip, c_inqueue := [], c_seq := 1, c_status := STATUS_SYN_SENT, c_outqueue := [p]\<rparr>"
  obtain c' w' sg q where "incoming_connection t raw ?c = Inr (c', w', sg)" "c_status c' = STATUS_OPEN" "c_seq c' = 1"
    "c_ack c' = h_seq (read_header raw) + 1" "c_outqueue c' = [q]"
    "h_flags (pk_header q) = TCP_ACK" "pk_seq q = 1" "h_ack (pk_header q) = h_seq (read_header raw) + 1"
    using incoming_syn_ack [of raw p ?c t] assms b(2) by auto
  then show ?thesis using b(1) by (simp add: tcp_connect_def)
qed

theorem tcp_connect_opens_witness:
  "\<exists>c w. tcp_connect 5 1 [(6, make_packet (new_connection 90 1 80\<lparr>c_ack := 1\<rparr>) (TCP_SYN OR TCP_ACK) [])]
       (new_connection 80 2 90) = Inr (c, w) \<and> c_status c = STATUS_OPEN"
  using tcp_connect_opens [of "make_packet (new_connection 90 1 80\<lparr>c_ack := 1\<rparr>) (TCP_SYN OR TCP_ACK) []" "new_connection 80 2 90" 5 1 6]
  by (auto simp: new_connection_def)

text \<open>The last step of a passive open is missing: a segment without data whose only flag is ACK does not
  change the status, so that the answer to the SYN of a listening connection leaves it in
  \<open>STATUS_SYN_RCVD\<close>, in which nothing can be sent.\<close>

lemma pure_ack_keeps_status:
  assumes "length raw = header_size (read_header raw)" "h_flags (read_header raw) = TCP_ACK"
  shows "\<exists>c' w sg. incoming_connection now raw c = Inr (c', w, sg) \<and> c_status c' = c_status c"
  using assms by (auto simp: incoming_connection_def Let_def tcp_acked_def tcp_flags)

section \<open>Three packets in the queue\<close>

text \<open>\<open>tcp_receive\<close> reads behind a packet: with three contiguous packets in the queue it removes the first,
  steps over the second, and copies as many bytes out of the third as the second and the third have
  together.\<close>

theorem tcp_receive_over_reads:
  assumes "c_inqueue c = [p1, p2, p3]" "c_ack c = seq_end p3"
    and "header_size (pk_header p1) = 20" "header_size (pk_header p3) = 20"
    and "length (pk_bytes p1) = 20 + n1" "length (pk_bytes p3) = 20 + n3" "0 < n1" "0 < n2" "0 < n3"
    and "read_offset p1 = 0" "read_offset p3 = 0"
    and "pk_seq p2 = pk_seq p1 + of_nat n1" "pk_seq p3 = pk_seq p2 + of_nat n2"
    and "seq_end p1 = pk_seq p2" "seq_end p2 = pk_seq p3" "seq_end p3 = pk_seq p3 + of_nat n3"
    and "n1 + n2 + n3 < 0x40000000" "n1 + n2 + n3 \<le> unat sz"
  shows "tcp_receive sz c = Inl OutOfBounds"
proof -
  have nat: "(of_nat n1 :: u32) \<noteq> 0" "unat (of_nat n1 :: u32) = n1" "(of_nat n3 :: u32) \<noteq> 0" "unat (of_nat n3 :: u32) = n3"
    using assms(7-9,17) by (simp_all add: of_nat32_eq_0 unat_of_nat32)
  have "\<not> sz < of_nat n1" using assms(18) nat by (simp add: word_less_nat_alt)
  then have r1: "receive_packet (pk_seq p1) sz p1 = Inr (pk_data p1, p1\<lparr>read_offset := of_nat n1\<rparr>, True)"
    using assms(3,5,10) nat by (simp add: receive_packet_def Let_def pk_data_def)
  have l1: "length (pk_data p1) = n1" using assms(5) by (simp add: pk_data_def)
  have sub: "unat (sz - of_nat n1) = unat sz - n1"
    using assms(18) nat(2) by (subst unat_sub) (simp_all add: word_le_nat_alt)
  have s23: "unat (of_nat (n2 + n3) :: u32) = n2 + n3" using assms(17) by (intro unat_of_nat32) simp
  have rem: "of_nat n3 - (pk_seq p2 - pk_seq p3) = (of_nat (n2 + n3) :: u32)"
    unfolding assms(13) by simp
  have "\<not> sz - of_nat n1 < of_nat (n2 + n3)" "of_nat n3 < (of_nat (n2 + n3) :: u32)"
    using assms(8,18) s23 sub nat(4) by (simp_all add: word_less_nat_alt)
  then have r3: "receive_packet (pk_seq p2) (sz - of_nat n1) p3 = Inl OutOfBounds"
    using assms(4,6,11) nat rem by (simp add: receive_packet_def Let_def del: of_nat_add)
  have before: "\<not> seq_ge (seq_end p1) (c_ack c)"
  proof -
    have "seq_end p1 - c_ack c = - of_nat (n2 + n3)" using assms(2,13,14,16) by simp
    moreover have "unat (0 - of_nat (n2 + n3) :: u32) = 2 ^ 32 - (n2 + n3)"
      using s23 assms(8) by (simp only: unat_sub_if') (simp del: of_nat_add)
    ultimately show ?thesis using assms(17) by (simp add: seq_ge_def word_less_nat_alt)
  qed
  then show ?thesis using assms(1,2,14) r1 r3 l1 by (simp add: tcp_receive_def)
qed

definition sample_packet :: "u32 \<Rightarrow> packet" where
  "sample_packet seq =
     \<lparr>last_time_sent = 0, seq_end = seq + 2, read_offset = 0,
      pk_bytes = make_packet (new_connection 90 1 80\<lparr>c_seq := seq\<rparr>) TCP_ACK [7, 8]\<rparr>"

lemma sample_packet_facts:
  "pk_seq (sample_packet q) = q" "header_size (pk_header (sample_packet q)) = 20" "length (pk_bytes (sample_packet q)) = 20 + 2"
  "seq_end (sample_packet q) = q + 2" "read_offset (sample_packet q) = 0"
  by (simp_all add: sample_packet_def)

theorem tcp_receive_over_reads_witness:
  "tcp_receive 100 (new_connection 80 2 90\<lparr>c_inqueue := [sample_packet 0, sample_packet 2, sample_packet 4], c_ack := 6\<rparr>)
     = Inl OutOfBounds"
  by (rule tcp_receive_over_reads [of _ "sample_packet 0" "sample_packet 2" "sample_packet 4" 2 2 2])
    (simp_all add: sample_packet_facts)

end
