(* ===== verification/Eth.thy ===== *)
theory Eth
  imports Ip
begin

text \<open>
  The Ethernet service (\<open>src/progs/common/eth/eth.c\<close>). Network cards are never freed: a card is known by its
  position in the list of all cards made so far, counted from 1, and 0 is \<open>NULL\<close>; the list of registered
  cards runs through \<open>nc_next\<close> from \<open>eth_cards\<close> and is walked with one step for every card there is, so
  that \<open>NoReturn\<close> means that it is a cycle. A file is known by the number of its allocation. The listeners
  of a card, linked through \<open>next\<close> in the code, are the list of their numbers.

  What drivers and owners of pipes are sent is part of the result; \<open>answer\<close> is what the driver of a card
  returns for a frame, \<open>pgid\<close> the process group of the process that calls the service.
\<close>

record network_packet =
  np_src :: "u8 list"
  np_type :: u32
  np_data :: "u8 list"

record card_pipe =
  cp_card :: nat
  cp_dest :: "u8 list"
  cp_packet_type :: u32
  cp_inqueue :: "network_packet list"
  cp_owner :: int
  cp_signal :: bool

datatype eth_file = TYPE_REGISTER nat | TYPE_RECEIVE int nat | TYPE_DIR nat "u8 list" | TYPE_CARD card_pipe

record network_card =
  nc_next :: nat
  nc_nr :: nat
  nc_name :: "u8 list"
  nc_mac :: "u8 list"
  nc_process :: int
  nc_id :: u32
  nc_listeners :: "nat list"

record eth_service =
  eth_store :: "network_card list"
  eth_cards :: nat
  eth_files :: "nat \<Rightarrow> eth_file option"
  eth_fresh :: nat

type_synonym driver_calls = "(int \<times> u32 \<times> u8 list) list"

subsection \<open>Cards and files\<close>

definition card_at :: "eth_service \<Rightarrow> nat \<Rightarrow> network_card outcome" where
  "card_at st c = (if c = 0 then Inl BadPointer else aget (eth_store st) (c - 1))"

definition upd_card :: "nat \<Rightarrow> (network_card \<Rightarrow> network_card) \<Rightarrow> eth_service \<Rightarrow> eth_service" where
  "upd_card c g st = st\<lparr>eth_store := (eth_store st)[c - 1 := g (eth_store st ! (c - 1))]\<rparr>"

definition file_at :: "eth_service \<Rightarrow> nat \<Rightarrow> eth_file outcome" where
  "file_at st f = (case eth_files st f of None \<Rightarrow> Inl BadPointer | Some x \<Rightarrow> Inr x)"

definition set_file :: "nat \<Rightarrow> eth_file \<Rightarrow> eth_service \<Rightarrow> eth_service" where
  "set_file f x st = st\<lparr>eth_files := (eth_files st)(f \<mapsto> x)\<rparr>"

definition new_file :: "eth_file \<Rightarrow> eth_service \<Rightarrow> nat \<times> eth_service" where
  "new_file x st = (let f = Suc (eth_fresh st) in (f, (set_file f x st)\<lparr>eth_fresh := f\<rparr>))"

definition new_listener :: "card_pipe \<Rightarrow> eth_service \<Rightarrow> nat \<times> eth_service" where
  "new_listener p st =
     (let (f, st) = new_file (TYPE_CARD p) st
      in (f, upd_card (cp_card p) (\<lambda>c. c\<lparr>nc_listeners := f # nc_listeners c\<rparr>) st))"

text \<open>The loops over the list of cards: the first card that satisfies \<open>P\<close>, or 0; and the names of all.\<close>

fun find_card :: "(network_card \<Rightarrow> bool) \<Rightarrow> eth_service \<Rightarrow> nat \<Rightarrow> nat \<Rightarrow> nat outcome" where
  "find_card P st 0 c = (if c = 0 then Inr 0 else Inl NoReturn)"
| "find_card P st (Suc n) c =
     (if c = 0 then Inr 0
      else rbind (card_at st c) (\<lambda>x. if P x then Inr c else find_card P st n (nc_next x)))"

fun card_names :: "eth_service \<Rightarrow> nat \<Rightarrow> nat \<Rightarrow> u8 list outcome" where
  "card_names st 0 c = (if c = 0 then Inr [] else Inl NoReturn)"
| "card_names st (Suc n) c =
     (if c = 0 then Inr []
      else rbind (card_at st c) (\<lambda>x. rbind (card_names st n (nc_next x)) (\<lambda>r. Inr (nc_name x @ [0] @ r))))"

abbreviation lookup_card :: "(network_card \<Rightarrow> bool) \<Rightarrow> eth_service \<Rightarrow> nat outcome" where
  "lookup_card P st \<equiv> find_card P st (length (eth_store st)) (eth_cards st)"

subsection \<open>Receiving\<close>

text \<open>The copy of a packet for one listener; the second component is the message to its owner.\<close>

definition eth_deliver :: "network_packet \<Rightarrow> nat \<Rightarrow> eth_service \<Rightarrow> (eth_service \<times> (int \<times> nat) list) outcome" where
  "eth_deliver np f st =
     rbind (file_at st f) (\<lambda>x.
       case x of
         TYPE_CARD p \<Rightarrow>
           Inr (set_file f (TYPE_CARD (p\<lparr>cp_inqueue := cp_inqueue p @ [np]\<rparr>)) st,
                if cp_signal p then [(cp_owner p, f)] else [])
       | _ \<Rightarrow> Inl BadPointer)"

fun eth_deliver_all :: "network_packet \<Rightarrow> nat list \<Rightarrow> eth_service \<Rightarrow> (eth_service \<times> (int \<times> nat) list) outcome" where
  "eth_deliver_all np [] st = Inr (st, [])"
| "eth_deliver_all np (f # fs) st =
     rbind (eth_deliver np f st) (\<lambda>(st, sg).
     rbind (eth_deliver_all np fs st) (\<lambda>(st, sgs). Inr (st, sg @ sgs)))"

definition eth_receive :: "nat \<Rightarrow> u8 list \<Rightarrow> eth_service \<Rightarrow> (bool \<times> eth_service \<times> (int \<times> nat) list) outcome" where
  "eth_receive nc data st =
     rbind (card_at st nc) (\<lambda>c.
       if length data < 14 then Inr (False, st, [])
       else if take 6 data \<noteq> replicate 6 0xFF \<and> take 6 data \<noteq> nc_mac c then Inr (False, st, [])
       else
         let np = \<lparr>np_src = take 6 (drop 6 data), np_type = ucast (get16 data 12), np_data = drop 14 data\<rparr>
         in rbind (eth_deliver_all np (nc_listeners c) st) (\<lambda>(st, sgs). Inr (True, st, sgs)))"

subsection \<open>Paths\<close>

text \<open>\<open>strtok\<close> with the delimiter \<open>/\<close> on the rest of the string, \<open>None\<close> for \<open>NULL\<close>.\<close>

definition path_token :: "u8 list option \<Rightarrow> u8 list option \<times> u8 list option" where
  "path_token r =
     (case r of
        None \<Rightarrow> (None, None)
      | Some s \<Rightarrow>
          let s = dropWhile (\<lambda>b. b = 47) s; t = takeWhile (\<lambda>b. b \<noteq> 47) s; rest = dropWhile (\<lambda>b. b \<noteq> 47) s
          in if s = [] then (None, None) else (Some t, if rest = [] then None else Some (tl rest)))"

text \<open>The six numbers of a hardware address; the first argument is how many are left.\<close>

fun parse_mac :: "nat \<Rightarrow> u8 list \<Rightarrow> u8 list option outcome" where
  "parse_mac 0 s = Inr (Some [])"
| "parse_mac (Suc k) s =
     rbind (strtol s 16) (\<lambda>(val, _, pos).
       let s = drop pos s in
       if val < 0 \<or> 255 < val \<or> (k \<noteq> 0 \<and> \<not> (s \<noteq> [] \<and> hd s = 58)) \<or> (k = 0 \<and> s \<noteq> []) then Inr None
       else rbind (parse_mac k (tl s)) (\<lambda>r. Inr (map_option ((#) (word_of_int val)) r)))"

text \<open>The literals of \<open>service_create_pipe\<close>: \<open>/register\<close>, \<open>/receive\<close> and \<open>eth\<close>.\<close>

definition path_register :: "u8 list" where
  "path_register = map of_char ''/register''"

definition path_receive :: "u8 list" where
  "path_receive = map of_char ''/receive''"

definition card_name :: "nat \<Rightarrow> u8 list" where
  "card_name nr = map of_char ''eth'' @ map dchar (dec_digits nr)"

definition O_RDONLY :: u32 where "O_RDONLY = 1"
definition O_WRONLY :: u32 where "O_WRONLY = 2"
definition O_NONBLOCK :: u32 where "O_NONBLOCK = 0x10000"

definition eth_new_pipe :: "nat \<Rightarrow> u8 list \<Rightarrow> card_pipe" where
  "eth_new_pipe c dest =
     \<lparr>cp_card = c, cp_dest = dest, cp_packet_type = 0x0800, cp_inqueue = [], cp_owner = 0, cp_signal = False\<rparr>"

definition eth_create_pipe ::
    "int \<Rightarrow> u8 list \<Rightarrow> u32 \<Rightarrow> eth_service \<Rightarrow> ((net_errno + nat) \<times> eth_service) outcome" where
  "eth_create_pipe pgid relpath flags st =
     (let made = (\<lambda>(f, st). Inr (Inr f, st)); failed = (\<lambda>e. Inr (Inl e, st)) in
      if relpath = [] then
        if flags AND O_WRONLY \<noteq> 0 then failed EACCES
        else rbind (card_names st (length (eth_store st)) (eth_cards st)) (\<lambda>d. made (new_file (TYPE_DIR 0 (d @ [0])) st))
      else if relpath = path_register then
        if flags AND O_RDONLY \<noteq> 0 then failed EACCES
        else
          let nr = length (eth_store st);
              c = \<lparr>nc_next = 0, nc_nr = nr, nc_name = card_name nr, nc_mac = replicate 6 0, nc_process = pgid, nc_id = 0,
                   nc_listeners = []\<rparr>
          in made (new_file (TYPE_REGISTER (Suc nr)) (st\<lparr>eth_store := eth_store st @ [c]\<rparr>))
      else if relpath = path_receive then
        if flags AND O_RDONLY \<noteq> 0 then failed EACCES
        else made (new_file (TYPE_RECEIVE pgid 0) st)
      else if 47 \<notin> set (tl relpath) then
        rbind (lookup_card (\<lambda>c. nc_name c = tl relpath) st) (\<lambda>c.
          if c = 0 then failed ENODEV else made (new_listener (eth_new_pipe c (replicate 6 0)) st))
      else
        let (name, r) = path_token (Some (tl relpath)) in
        if name = None \<and> eth_cards st \<noteq> 0 then Inl BadPointer
        else
          rbind (lookup_card (\<lambda>c. nc_name c = the name) st) (\<lambda>c.
            if c = 0 then failed ENODEV
            else
              let (cptr, r) = path_token r; (more, _) = path_token r in
              if more \<noteq> None then failed ENOENT
              else case cptr of
                     None \<Rightarrow> Inl BadPointer
                   | Some s \<Rightarrow>
                       rbind (parse_mac 6 s) (\<lambda>d.
                         case d of
                           None \<Rightarrow> failed ENOENT
                         | Some dest \<Rightarrow> made (new_listener (eth_new_pipe c dest) st))))"

definition eth_duplicate_pipe :: "nat \<Rightarrow> eth_service \<Rightarrow> (nat \<times> eth_service) outcome" where
  "eth_duplicate_pipe f st =
     rbind (file_at st f) (\<lambda>x. case x of TYPE_CARD p \<Rightarrow> Inr (new_listener p st) | _ \<Rightarrow> Inr (new_file x st))"

definition eth_destroy_pipe :: "nat \<Rightarrow> eth_service \<Rightarrow> eth_service outcome" where
  "eth_destroy_pipe f st =
     rbind (file_at st f) (\<lambda>x.
       let st1 = (case x of
                    TYPE_CARD p \<Rightarrow> upd_card (cp_card p) (\<lambda>c. c\<lparr>nc_listeners := remove1 f (nc_listeners c)\<rparr>) st
                  | _ \<Rightarrow> st)
       in Inr (st1\<lparr>eth_files := (eth_files st1)(f := None)\<rparr>))"

subsection \<open>Sending\<close>

text \<open>The frame: the header \<open>struct ethernet_frame\<close> and the data, filled up to 46 bytes.\<close>

definition ethernet_frame :: "u8 list \<Rightarrow> u8 list \<Rightarrow> u16 \<Rightarrow> u8 list \<Rightarrow> u8 list" where
  "ethernet_frame dest src ty data = dest @ src @ be16 ty @ data @ replicate (46 - length data) 0"

definition eth_stream_send ::
    "(u8 list \<Rightarrow> nat) \<Rightarrow> nat \<Rightarrow> u8 list \<Rightarrow> u32 \<Rightarrow> eth_service
       \<Rightarrow> ((net_errno + nat) \<times> eth_service \<times> driver_calls \<times> (int \<times> nat) list) outcome" where
  "eth_stream_send answer f data flags st =
     rbind (file_at st f) (\<lambda>x.
       case x of
         TYPE_REGISTER c \<Rightarrow>
           if length data \<noteq> 10 then Inr (Inl EINVAL, st, [], [])
           else
             let st1 = upd_card c (\<lambda>x. x\<lparr>nc_id := take32 data 0, nc_mac := take 6 (drop 4 data)\<rparr>) st;
                 st2 = upd_card c (\<lambda>x. x\<lparr>nc_next := eth_cards st1\<rparr>) st1
             in Inr (Inr 4, st2\<lparr>eth_cards := c\<rparr>, [], [])
       | TYPE_RECEIVE pid c \<Rightarrow>
           if c = 0 then Inr (Inl ENXIO, st, [], [])
           else rbind (eth_receive c data st) (\<lambda>(ok, st, sgs). Inr (Inr (if ok then length data else 0), st, [], sgs))
       | TYPE_DIR pos d \<Rightarrow> Inr (Inl EACCES, st, [], [])
       | TYPE_CARD p \<Rightarrow>
           if 1500 < length data then Inr (Inl EFBIG, st, [], [])
           else
             rbind (card_at st (cp_card p)) (\<lambda>c.
               let frame = ethernet_frame (cp_dest p) (nc_mac c) (ucast (cp_packet_type p)) data
               in Inr (Inr (if flags AND O_NONBLOCK \<noteq> 0 then length frame else answer frame), st,
                       [(nc_process c, nc_id c, frame)], [])))"

text \<open>\<open>service_stream_recv\<close>: one round of the loop; \<open>Inr None\<close> says that it starts again because the queue is
  empty and the caller waits.\<close>

definition eth_stream_recv ::
    "nat \<Rightarrow> nat \<Rightarrow> u32 \<Rightarrow> eth_service \<Rightarrow> ((net_errno + u8 list option) \<times> eth_service) outcome" where
  "eth_stream_recv f sz flags st =
     rbind (file_at st f) (\<lambda>x.
       case x of
         TYPE_DIR pos d \<Rightarrow>
           let copy_sz = min sz (length d - pos)
           in Inr (Inr (Some (take copy_sz (drop pos d))), set_file f (TYPE_DIR (pos + copy_sz) d) st)
       | TYPE_CARD p \<Rightarrow>
           (case cp_inqueue p of
              [] \<Rightarrow> Inr (Inr (if flags AND O_NONBLOCK \<noteq> 0 then Some [] else None), st)
            | np # nps \<Rightarrow> Inr (Inr (Some (take sz (np_data np))), set_file f (TYPE_CARD (p\<lparr>cp_inqueue := nps\<rparr>)) st))
       | _ \<Rightarrow> Inr (Inl EACCES, st))"

subsection \<open>Flags\<close>

datatype vfs_interface = I_DEVICE_CONTACT | I_DNS | I_ETHERNET | I_FILE | I_FS | I_IP | I_SIGNAL | I_STATABLE | I_TCP | I_TTY | I_UDP

definition eth_pipe_implements :: "nat \<Rightarrow> vfs_interface \<Rightarrow> eth_service \<Rightarrow> bool outcome" where
  "eth_pipe_implements f i st =
     rbind (file_at st f) (\<lambda>x.
       Inr (case i of
              I_FILE \<Rightarrow> (case x of TYPE_DIR _ _ \<Rightarrow> True | _ \<Rightarrow> False)
            | I_STATABLE \<Rightarrow> (case x of TYPE_DIR _ _ \<Rightarrow> True | TYPE_CARD _ \<Rightarrow> True | _ \<Rightarrow> False)
            | I_DEVICE_CONTACT \<Rightarrow> (case x of TYPE_RECEIVE _ _ \<Rightarrow> True | _ \<Rightarrow> False)
            | I_ETHERNET \<Rightarrow> (case x of TYPE_CARD _ \<Rightarrow> True | _ \<Rightarrow> False)
            | I_SIGNAL \<Rightarrow> (case x of TYPE_CARD _ \<Rightarrow> True | _ \<Rightarrow> False)
            | _ \<Rightarrow> False))"

text \<open>\<open>service_pipe_set_flag\<close>. Flushing an empty queue frees the data of the null pointer.\<close>

definition eth_set_flag ::
    "int \<Rightarrow> nat \<Rightarrow> net_flag \<Rightarrow> u64 \<Rightarrow> eth_service \<Rightarrow> ((net_errno + unit) \<times> eth_service) outcome" where
  "eth_set_flag pgid f flag val st =
     rbind (file_at st f) (\<lambda>x.
       let invalid = Inr (Inl EINVAL, st);
           on_card = (\<lambda>g. case x of TYPE_CARD p \<Rightarrow> Inr (Inr (), set_file f (TYPE_CARD (g p)) st) | _ \<Rightarrow> invalid)
       in case flag of
         F_DEVICE_ID \<Rightarrow>
           (case x of
              TYPE_RECEIVE pid _ \<Rightarrow>
                rbind (lookup_card (\<lambda>c. nc_process c = pid \<and> ucast (nc_id c) = val) st) (\<lambda>c.
                  if c = 0 then Inr (Inl ENXIO, st) else Inr (Inr (), set_file f (TYPE_RECEIVE pid c) st))
            | _ \<Rightarrow> invalid)
       | F_FLUSH \<Rightarrow>
           (case x of
              TYPE_CARD p \<Rightarrow>
                if val \<noteq> 1 then Inr (Inr (), st)
                else (case cp_inqueue p of
                        [] \<Rightarrow> Inl BadPointer
                      | np # nps \<Rightarrow> Inr (Inr (), set_file f (TYPE_CARD (p\<lparr>cp_inqueue := nps\<rparr>)) st))
            | _ \<Rightarrow> Inr (Inr (), st))
       | F_POSITION \<Rightarrow>
           (case x of
              TYPE_DIR pos d \<Rightarrow> Inr (Inr (), set_file f (TYPE_DIR (min (unat val) (length d)) d) st)
            | _ \<Rightarrow> invalid)
       | F_DEST_MAC \<Rightarrow> on_card (\<lambda>p. p\<lparr>cp_dest := mac_bytes val\<rparr>)
       | F_ETH_PACKET_TYPE \<Rightarrow> on_card (\<lambda>p. p\<lparr>cp_packet_type := ucast val\<rparr>)
       | F_IPC_SIGNAL \<Rightarrow> on_card (\<lambda>p. p\<lparr>cp_owner := pgid, cp_signal := (val \<noteq> 0)\<rparr>)
       | _ \<Rightarrow> invalid)"

definition eth_get_flag :: "nat \<Rightarrow> net_flag \<Rightarrow> eth_service \<Rightarrow> (net_errno + u64) outcome" where
  "eth_get_flag f flag st =
     rbind (file_at st f) (\<lambda>x.
       let dir = (\<lambda>g. case x of TYPE_DIR pos d \<Rightarrow> Inr (Inr (of_nat (g pos d))) | _ \<Rightarrow> Inr (Inr 0));
           cardf = (\<lambda>g. case x of TYPE_CARD p \<Rightarrow> g p | _ \<Rightarrow> Inr (Inl EINVAL));
           front = (\<lambda>p g. case cp_inqueue p of [] \<Rightarrow> Inr (Inr 0) | np # _ \<Rightarrow> Inr (Inr (g np)))
       in case flag of
         F_PRESSURE \<Rightarrow>
           (case x of
              TYPE_DIR pos d \<Rightarrow> Inr (Inr (of_nat (length d - pos)))
            | TYPE_CARD p \<Rightarrow> front p (\<lambda>np. of_nat (length (np_data np)))
            | _ \<Rightarrow> Inr (Inr 0))
       | F_READABLE \<Rightarrow>
           (case x of
              TYPE_DIR pos d \<Rightarrow> Inr (Inr (if pos < length d then 1 else 0))
            | TYPE_CARD p \<Rightarrow> front p (\<lambda>np. 1)
            | _ \<Rightarrow> Inr (Inr 0))
       | F_WRITABLE \<Rightarrow> (case x of TYPE_DIR _ _ \<Rightarrow> Inr (Inr 0) | _ \<Rightarrow> Inr (Inr 1))
       | F_POSITION \<Rightarrow> dir (\<lambda>pos d. pos)
       | F_FILESIZE \<Rightarrow> dir (\<lambda>pos d. length d)
       | F_INODE \<Rightarrow> Inr (Inr 0)
       | F_MODE \<Rightarrow>
           (case x of
              TYPE_DIR _ _ \<Rightarrow> Inr (Inr (0x4000 OR 0x80000 OR 0x1FF))
            | TYPE_CARD _ \<Rightarrow> Inr (Inr (0x80000 OR 0x1B6))
            | _ \<Rightarrow> Inr (Inl EINVAL))
       | F_NLINK \<Rightarrow> Inr (Inr 1) | F_BLOCK_SIZE \<Rightarrow> Inr (Inr 1)
       | F_UID \<Rightarrow> Inr (Inr 0) | F_GID \<Rightarrow> Inr (Inr 0) | F_ATIME \<Rightarrow> Inr (Inr 0) | F_MTIME \<Rightarrow> Inr (Inr 0) | F_CTIME \<Rightarrow> Inr (Inr 0)
       | F_BLOCK_COUNT \<Rightarrow> Inr (Inr 0)
       | F_DEST_MAC \<Rightarrow> cardf (\<lambda>p. Inr (Inr (bytes_mac (cp_dest p))))
       | F_SRC_MAC \<Rightarrow> cardf (\<lambda>p. front p (\<lambda>np. bytes_mac (np_src np)))
       | F_MY_MAC \<Rightarrow> cardf (\<lambda>p. rbind (card_at st (cp_card p)) (\<lambda>c. Inr (Inr (bytes_mac (nc_mac c)))))
       | F_ETH_PACKET_TYPE \<Rightarrow> (case x of TYPE_CARD p \<Rightarrow> front p (\<lambda>np. ucast (np_type np)) | _ \<Rightarrow> Inr (Inr 0))
       | F_IPC_SIGNAL \<Rightarrow> (case x of TYPE_CARD p \<Rightarrow> Inr (Inr (if cp_signal p then 1 else 0)) | _ \<Rightarrow> Inr (Inr 0))
       | _ \<Rightarrow> Inr (Inl EINVAL))"

subsection \<open>Histories\<close>

datatype eth_call =
    Create int "u8 list" u32 | Duplicate nat | Destroy nat | Send nat "u8 list" u32 | Recv nat nat u32
  | SetFlag int nat net_flag u64

definition eth_exec :: "(u8 list \<Rightarrow> nat) \<Rightarrow> eth_call \<Rightarrow> eth_service \<Rightarrow> eth_service outcome" where
  "eth_exec answer call st =
     (case call of
        Create pgid relpath flags \<Rightarrow> rbind (eth_create_pipe pgid relpath flags st) (\<lambda>(_, st). Inr st)
      | Duplicate f \<Rightarrow> rbind (eth_duplicate_pipe f st) (\<lambda>(_, st). Inr st)
      | Destroy f \<Rightarrow> eth_destroy_pipe f st
      | Send f data flags \<Rightarrow> rbind (eth_stream_send answer f data flags st) (\<lambda>(_, st, _, _). Inr st)
      | Recv f sz flags \<Rightarrow> rbind (eth_stream_recv f sz flags st) (\<lambda>(_, st). Inr st)
      | SetFlag pgid f flag val \<Rightarrow> rbind (eth_set_flag pgid f flag val st) (\<lambda>(_, st). Inr st))"

text \<open>What drivers have to keep to: a card is registered once.\<close>

definition registers_once :: "eth_call \<Rightarrow> eth_service \<Rightarrow> bool" where
  "registers_once call st =
     (case call of
        Send f _ _ \<Rightarrow>
          (case eth_files st f of
             Some (TYPE_REGISTER c) \<Rightarrow> lookup_card (\<lambda>x. nc_nr x = c - 1) st = Inr 0
           | _ \<Rightarrow> True)
      | _ \<Rightarrow> True)"

definition eth_start :: eth_service where
  "eth_start = \<lparr>eth_store = [], eth_cards = 0, eth_files = (\<lambda>_. None), eth_fresh = 0\<rparr>"

inductive eth_reach :: "eth_service \<Rightarrow> bool" where
  eth_init: "eth_reach eth_start"
| eth_call: "eth_reach st \<Longrightarrow> registers_once call st \<Longrightarrow> eth_exec answer call st = Inr st' \<Longrightarrow> eth_reach st'"

section \<open>The invariant\<close>

fun card_chain :: "network_card list \<Rightarrow> nat \<Rightarrow> nat list \<Rightarrow> bool" where
  "card_chain cs h [] \<longleftrightarrow> h = 0"
| "card_chain cs h (a # as) \<longleftrightarrow> h = a \<and> 0 < a \<and> a \<le> length cs \<and> card_chain cs (nc_next (cs ! (a - 1))) as"

definition pipe_card :: "eth_file \<Rightarrow> nat" where
  "pipe_card x = (case x of TYPE_CARD p \<Rightarrow> cp_card p | _ \<Rightarrow> 0)"

definition file_ok :: "nat \<Rightarrow> eth_file \<Rightarrow> bool" where
  "file_ok n x =
     (case x of
        TYPE_REGISTER c \<Rightarrow> 0 < c \<and> c \<le> n
      | TYPE_RECEIVE pid c \<Rightarrow> c \<le> n
      | TYPE_DIR pos d \<Rightarrow> pos \<le> length d
      | TYPE_CARD p \<Rightarrow> 0 < cp_card p \<and> cp_card p \<le> n)"

definition lists_ok :: "eth_service \<Rightarrow> bool" where
  "lists_ok st \<longleftrightarrow>
     (\<forall>i < length (eth_store st). distinct (nc_listeners (eth_store st ! i)) \<and>
        (\<forall>f. f \<in> set (nc_listeners (eth_store st ! i)) \<longleftrightarrow> (\<exists>x. eth_files st f = Some x \<and> pipe_card x = Suc i)))"

definition files_ok :: "eth_service \<Rightarrow> bool" where
  "files_ok st \<longleftrightarrow> (\<forall>f x. eth_files st f = Some x \<longrightarrow> f \<le> eth_fresh st \<and> file_ok (length (eth_store st)) x)"

definition cards_ok :: "eth_service \<Rightarrow> bool" where
  "cards_ok st \<longleftrightarrow>
     (\<forall>i < length (eth_store st). length (nc_mac (eth_store st ! i)) = 6 \<and> nc_nr (eth_store st ! i) = i \<and>
        nc_name (eth_store st ! i) = card_name i) \<and>
     (\<exists>cs. card_chain (eth_store st) (eth_cards st) cs \<and> distinct cs)"

definition eth_inv :: "eth_service \<Rightarrow> bool" where
  "eth_inv st \<longleftrightarrow> lists_ok st \<and> files_ok st \<and> cards_ok st"

subsection \<open>The list of cards\<close>

lemma card_chain_cong:
  assumes "card_chain cs h as" "length cs \<le> length ds" "\<And>a. a \<in> set as \<Longrightarrow> nc_next (ds ! (a - 1)) = nc_next (cs ! (a - 1))"
  shows "card_chain ds h as"
  using assms
proof (induction as arbitrary: h)
  case (Cons a as)
  from Cons.prems(3) [of a] have "nc_next (ds ! (a - 1)) = nc_next (cs ! (a - 1))" by simp
  moreover have "card_chain ds (nc_next (cs ! (a - 1))) as" using Cons.prems by (intro Cons.IH) auto
  ultimately show ?case using Cons.prems(1,2) by simp
qed simp

lemma card_at_valid: "0 < c \<Longrightarrow> c \<le> length (eth_store st) \<Longrightarrow> card_at st c = Inr (eth_store st ! (c - 1))"
  by (simp add: card_at_def)

lemma card_chain_set: "card_chain cs h as \<Longrightarrow> set as \<subseteq> {1..length cs}"
  by (induction as arbitrary: h) auto

lemma card_chain_length:
  assumes "card_chain cs h as" "distinct as"
  shows "length as \<le> length cs"
  using card_mono [OF _ card_chain_set [OF assms(1)]] assms(2) by (simp add: distinct_card)

lemma find_card_chain:
  assumes "card_chain (eth_store st) h as" "length as \<le> n"
  shows "find_card P st n h = Inr (case find (\<lambda>a. P (eth_store st ! (a - 1))) as of None \<Rightarrow> 0 | Some a \<Rightarrow> a)"
  using assms
proof (induction as arbitrary: h n)
  case Nil
  then show ?case by (cases n) simp_all
next
  case (Cons a as)
  then obtain m where n: "n = Suc m" "length as \<le> m" by (cases n) auto
  then show ?case using Cons.prems(1) Cons.IH [of "nc_next (eth_store st ! (a - 1))" m] by (simp add: card_at_valid)
qed

lemma card_names_chain:
  assumes "card_chain (eth_store st) h as" "length as \<le> n"
  shows "card_names st n h = Inr (concat (map (\<lambda>a. nc_name (eth_store st ! (a - 1)) @ [0]) as))"
  using assms
proof (induction as arbitrary: h n)
  case Nil
  then show ?case by (cases n) simp_all
next
  case (Cons a as)
  then obtain m where n: "n = Suc m" "length as \<le> m" by (cases n) auto
  then show ?case using Cons.prems(1) Cons.IH [of "nc_next (eth_store st ! (a - 1))" m] by (simp add: card_at_valid)
qed

lemma lookup_card_total:
  assumes "eth_inv st"
  obtains c where "lookup_card P st = Inr c" "c \<le> length (eth_store st)"
proof -
  obtain cs where cs: "card_chain (eth_store st) (eth_cards st) cs" "distinct cs"
    using assms by (auto simp: eth_inv_def cards_ok_def)
  have "\<And>a. find (\<lambda>a. P (eth_store st ! (a - 1))) cs = Some a \<Longrightarrow> a \<le> length (eth_store st)"
    using card_chain_set [OF cs(1)] by (auto simp: find_Some_iff subset_iff)
  then show ?thesis
    using find_card_chain [OF cs(1) card_chain_length [OF cs], of P] that by (auto split: option.splits)
qed

subsection \<open>What the operations keep\<close>

lemma upd_card_simps [simp]:
  "length (eth_store (upd_card c g st)) = length (eth_store st)" "eth_files (upd_card c g st) = eth_files st"
  "eth_fresh (upd_card c g st) = eth_fresh st" "eth_cards (upd_card c g st) = eth_cards st"
  by (simp_all add: upd_card_def)

lemma upd_card_nth:
  "i < length (eth_store st) \<Longrightarrow>
     eth_store (upd_card c g st) ! i = (if i = c - 1 then g (eth_store st ! i) else eth_store st ! i)"
  by (auto simp: upd_card_def nth_list_update)

lemma set_file_simps [simp]:
  "eth_store (set_file f x st) = eth_store st" "eth_files (set_file f x st) = (eth_files st)(f \<mapsto> x)"
  "eth_fresh (set_file f x st) = eth_fresh st" "eth_cards (set_file f x st) = eth_cards st"
  by (simp_all add: set_file_def)

lemma eth_invD:
  assumes "eth_inv st" "eth_files st f = Some x"
  shows "f \<le> eth_fresh st" "file_ok (length (eth_store st)) x"
  using assms by (auto simp: eth_inv_def files_ok_def)

lemma file_ok_mono: "file_ok n x \<Longrightarrow> n \<le> m \<Longrightarrow> file_ok m x"
  by (auto simp: file_ok_def split: eth_file.splits)

lemma eth_inv_set_file:
  assumes "eth_inv st" "eth_files st f = Some y" "pipe_card x = pipe_card y" "file_ok (length (eth_store st)) x"
  shows "eth_inv (set_file f x st)"
proof -
  have "(\<exists>z. (if g = f then Some x else eth_files st g) = Some z \<and> pipe_card z = k) \<longleftrightarrow>
      (\<exists>z. eth_files st g = Some z \<and> pipe_card z = k)" for g k
    using assms(2,3) by auto
  then show ?thesis
    using assms(1,4) eth_invD(1) [OF assms(1,2)]
    by (auto simp: eth_inv_def lists_ok_def files_ok_def cards_ok_def)
qed

lemma cards_ok_upd:
  assumes "cards_ok st" "length (eth_store st') = length (eth_store st)" "eth_cards st' = eth_cards st"
    and "\<And>i. i < length (eth_store st) \<Longrightarrow> nc_next (eth_store st' ! i) = nc_next (eth_store st ! i) \<and>
      nc_nr (eth_store st' ! i) = nc_nr (eth_store st ! i) \<and> nc_name (eth_store st' ! i) = nc_name (eth_store st ! i) \<and>
      length (nc_mac (eth_store st' ! i)) = length (nc_mac (eth_store st ! i))"
  shows "cards_ok st'"
proof -
  obtain cs where cs: "card_chain (eth_store st) (eth_cards st) cs" "distinct cs"
    using assms(1) by (auto simp: cards_ok_def)
  have "nc_next (eth_store st' ! (a - 1)) = nc_next (eth_store st ! (a - 1))" if "a \<in> set cs" for a
    using card_chain_set [OF cs(1)] that assms(4) [of "a - 1"] by (fastforce simp: subset_iff)
  from card_chain_cong [OF cs(1) _ this] have "card_chain (eth_store st') (eth_cards st') cs" by (simp add: assms(2,3))
  then show ?thesis using assms(1,2,4) cs(2) by (auto simp: cards_ok_def)
qed

lemma fresh_not_listed: "eth_inv st \<Longrightarrow> eth_files st (Suc (eth_fresh st)) = None"
  using eth_invD(1) by (cases "eth_files st (Suc (eth_fresh st))") fastforce+

lemma eth_inv_new_file:
  assumes "eth_inv st" "pipe_card x = 0" "file_ok (length (eth_store st)) x" "new_file x st = (f, st')"
  shows "eth_inv st'"
proof -
  have st': "eth_files st' = (eth_files st)(Suc (eth_fresh st) \<mapsto> x)" "eth_fresh st' = Suc (eth_fresh st)"
    "eth_store st' = eth_store st" "eth_cards st' = eth_cards st"
    using assms(4) by (auto simp: new_file_def Let_def set_file_def)
  have "(\<exists>z. (if g = Suc (eth_fresh st) then Some x else eth_files st g) = Some z \<and> pipe_card z = Suc k) \<longleftrightarrow>
      (\<exists>z. eth_files st g = Some z \<and> pipe_card z = Suc k)" for g k
    using assms(2) fresh_not_listed [OF assms(1)] by auto
  then show ?thesis
    using assms(1,3) by (auto simp: eth_inv_def lists_ok_def files_ok_def cards_ok_def st' le_Suc_eq)
qed

lemma eth_inv_new_listener:
  assumes "eth_inv st" "0 < cp_card p" "cp_card p \<le> length (eth_store st)" "new_listener p st = (f, st')"
  shows "eth_inv st'"
proof -
  let ?f = "Suc (eth_fresh st)"
  have eq: "st' = upd_card (cp_card p) (\<lambda>c. c\<lparr>nc_listeners := ?f # nc_listeners c\<rparr>)
      ((set_file ?f (TYPE_CARD p) st)\<lparr>eth_fresh := ?f\<rparr>)"
    using assms(4) by (auto simp: new_listener_def new_file_def Let_def)
  have st': "eth_files st' = (eth_files st)(?f \<mapsto> TYPE_CARD p)" "eth_fresh st' = ?f"
    "length (eth_store st') = length (eth_store st)" "eth_cards st' = eth_cards st"
    by (simp_all add: eq)
  have nth: "eth_store st' ! i = (if i = cp_card p - 1 then (eth_store st ! i)\<lparr>nc_listeners := ?f # nc_listeners (eth_store st ! i)\<rparr>
      else eth_store st ! i)" if "i < length (eth_store st)" for i
    using that by (simp add: eq upd_card_nth)
  have fresh: "eth_files st ?f = None" by (rule fresh_not_listed [OF assms(1)])
  have "lists_ok st'" unfolding lists_ok_def
  proof (intro allI impI conjI)
    fix i
    assume "i < length (eth_store st')"
    then have i: "i < length (eth_store st)" by (simp add: st')
    have old: "distinct (nc_listeners (eth_store st ! i))"
      "\<And>g. g \<in> set (nc_listeners (eth_store st ! i)) \<longleftrightarrow> (\<exists>x. eth_files st g = Some x \<and> pipe_card x = Suc i)"
      using assms(1) i by (auto simp: eth_inv_def lists_ok_def)
    show "distinct (nc_listeners (eth_store st' ! i))" using old(1) old(2) [of ?f] fresh by (auto simp: nth [OF i])
    show "g \<in> set (nc_listeners (eth_store st' ! i)) \<longleftrightarrow> (\<exists>x. eth_files st' g = Some x \<and> pipe_card x = Suc i)" for g
      using old(2) [of g] fresh assms(2) by (auto simp: nth [OF i] st' pipe_card_def)
  qed
  moreover have "files_ok st'"
    using assms(1-3) by (auto simp: eth_inv_def files_ok_def st' file_ok_def le_Suc_eq)
  moreover have "cards_ok st'"
    by (rule cards_ok_upd [of st]) (use assms(1) in \<open>auto simp: eth_inv_def st' nth\<close>)
  ultimately show ?thesis by (simp add: eth_inv_def)
qed

lemma eth_inv_destroy:
  assumes "eth_inv st" "eth_destroy_pipe f st = Inr st'"
  shows "eth_inv st'"
proof -
  obtain x where x: "eth_files st f = Some x" using assms(2) by (auto simp: eth_destroy_pipe_def file_at_def split: option.splits)
  have st': "eth_files st' = (eth_files st)(f := None)" "eth_fresh st' = eth_fresh st"
    "length (eth_store st') = length (eth_store st)" "eth_cards st' = eth_cards st"
    using assms(2) x by (auto simp: eth_destroy_pipe_def file_at_def Let_def split: eth_file.splits)
  have nth: "eth_store st' ! i = (if Suc i = pipe_card x then (eth_store st ! i)\<lparr>nc_listeners := remove1 f (nc_listeners (eth_store st ! i))\<rparr>
      else eth_store st ! i)" if "i < length (eth_store st)" for i
    using assms(2) x that eth_invD(2) [OF assms(1) x]
    by (auto simp: eth_destroy_pipe_def file_at_def Let_def upd_card_nth pipe_card_def file_ok_def split: eth_file.splits)
  have "lists_ok st'" unfolding lists_ok_def
  proof (intro allI impI conjI)
    fix i
    assume "i < length (eth_store st')"
    then have i: "i < length (eth_store st)" by (simp add: st')
    have old: "distinct (nc_listeners (eth_store st ! i))"
      "\<And>g. g \<in> set (nc_listeners (eth_store st ! i)) \<longleftrightarrow> (\<exists>x. eth_files st g = Some x \<and> pipe_card x = Suc i)"
      using assms(1) i by (auto simp: eth_inv_def lists_ok_def)
    show "distinct (nc_listeners (eth_store st' ! i))" using old(1) by (simp add: nth [OF i])
    show "g \<in> set (nc_listeners (eth_store st' ! i)) \<longleftrightarrow> (\<exists>x. eth_files st' g = Some x \<and> pipe_card x = Suc i)" for g
      using old(1) old(2) [of g] x by (auto simp: nth [OF i] st')
  qed
  moreover have "files_ok st'" using assms(1) by (auto simp: eth_inv_def files_ok_def st' split: if_splits)
  moreover have "cards_ok st'"
    by (rule cards_ok_upd [of st]) (use assms(1) in \<open>auto simp: eth_inv_def st' nth\<close>)
  ultimately show ?thesis by (simp add: eth_inv_def)
qed

lemma eth_inv_new_card:
  assumes "eth_inv st" "nc_listeners c = []" "length (nc_mac c) = 6" "nc_nr c = length (eth_store st)"
    and "nc_name c = card_name (length (eth_store st))"
  shows "eth_inv (st\<lparr>eth_store := eth_store st @ [c]\<rparr>)"
proof -
  let ?st = "st\<lparr>eth_store := eth_store st @ [c]\<rparr>"
  have small: "\<not> (\<exists>x. eth_files st g = Some x \<and> pipe_card x = Suc (length (eth_store st)))" for g
    using assms(1) by (fastforce simp: eth_inv_def files_ok_def file_ok_def pipe_card_def split: eth_file.splits)
  have "lists_ok ?st"
    using assms(1,2) small by (auto simp: eth_inv_def lists_ok_def nth_append less_Suc_eq)
  moreover have "files_ok ?st"
    using assms(1) by (auto simp: eth_inv_def files_ok_def intro: file_ok_mono [of "length (eth_store st)"])
  moreover have "cards_ok ?st"
  proof -
    obtain cs where cs: "card_chain (eth_store st) (eth_cards st) cs" "distinct cs"
      using assms(1) by (auto simp: eth_inv_def cards_ok_def)
    have "card_chain (eth_store ?st) (eth_cards ?st) cs"
      using card_chain_cong [OF cs(1), of "eth_store st @ [c]"] card_chain_set [OF cs(1)]
      by (fastforce simp: nth_append subset_iff)
    then show ?thesis using assms cs(2) by (auto simp: eth_inv_def cards_ok_def nth_append less_Suc_eq)
  qed
  ultimately show ?thesis by (simp add: eth_inv_def)
qed

lemma eth_inv_register:
  assumes inv: "eth_inv st" and c: "0 < c" "c \<le> length (eth_store st)" and once: "lookup_card (\<lambda>x. nc_nr x = c - 1) st = Inr 0"
    and mac: "length mac = 6"
    and st': "st' = (upd_card c (\<lambda>x. x\<lparr>nc_next := eth_cards st\<rparr>) (upd_card c (\<lambda>x. x\<lparr>nc_id := i, nc_mac := mac\<rparr>) st))\<lparr>eth_cards := c\<rparr>"
  shows "eth_inv st'"
proof -
  obtain cs where cs: "card_chain (eth_store st) (eth_cards st) cs" "distinct cs"
    using inv by (auto simp: eth_inv_def cards_ok_def)
  have nr: "nc_nr (eth_store st ! j) = j" if "j < length (eth_store st)" for j
    using inv that by (simp add: eth_inv_def cards_ok_def)
  have nth: "eth_store st' ! j = (if j = c - 1 then (eth_store st ! j)\<lparr>nc_next := eth_cards st, nc_id := i, nc_mac := mac\<rparr>
      else eth_store st ! j)" if "j < length (eth_store st)" for j
    using that by (simp add: st' upd_card_nth)
  have len: "length (eth_store st') = length (eth_store st)" by (simp add: st')
  have "c \<notin> set cs"
  proof
    assume "c \<in> set cs"
    moreover have "nc_nr (eth_store st ! (c - 1)) = c - 1" using c by (intro nr) simp
    ultimately obtain a where a: "find (\<lambda>a. nc_nr (eth_store st ! (a - 1)) = c - 1) cs = Some a"
      by (cases "find (\<lambda>a. nc_nr (eth_store st ! (a - 1)) = c - 1) cs") (auto simp: find_None_iff)
    then have "a \<in> set cs" by (auto simp: find_Some_iff)
    then have "0 < a" using card_chain_set [OF cs(1)] by (auto simp: subset_iff)
    then show False using once a find_card_chain [OF cs(1) card_chain_length [OF cs], of "\<lambda>x. nc_nr x = c - 1"] by simp
  qed
  moreover have "card_chain (eth_store st') (eth_cards st) cs"
  proof (rule card_chain_cong [OF cs(1)])
    fix a
    assume "a \<in> set cs"
    then have "1 \<le> a" "a \<le> length (eth_store st)" "a \<noteq> c"
      using card_chain_set [OF cs(1)] calculation by (auto simp: subset_iff)
    then have "a - 1 < length (eth_store st)" "a - 1 \<noteq> c - 1" using c by simp_all
    then show "nc_next (eth_store st' ! (a - 1)) = nc_next (eth_store st ! (a - 1))" by (simp add: nth)
  qed (simp add: len)
  ultimately have "card_chain (eth_store st') (eth_cards st') (c # cs)" "distinct (c # cs)"
    using c cs(2) nth [of "c - 1"] by (simp_all add: len, simp add: st')
  moreover have "\<forall>j < length (eth_store st'). length (nc_mac (eth_store st' ! j)) = 6 \<and> nc_nr (eth_store st' ! j) = j \<and>
      nc_name (eth_store st' ! j) = card_name j"
    using inv mac by (auto simp: eth_inv_def cards_ok_def len nth)
  ultimately have "cards_ok st'" unfolding cards_ok_def by blast
  moreover have "nc_listeners (eth_store st' ! j) = nc_listeners (eth_store st ! j)" if "j < length (eth_store st)" for j
    by (simp add: nth [OF that])
  then have "lists_ok st'"
    using inv unfolding eth_inv_def lists_ok_def len by (simp add: st')
  moreover have "files_ok st'" using inv by (auto simp: eth_inv_def files_ok_def st')
  ultimately show ?thesis by (simp add: eth_inv_def)
qed

subsection \<open>Delivery\<close>

definition eth_push :: "network_packet \<Rightarrow> eth_file \<Rightarrow> eth_file" where
  "eth_push np x = (case x of TYPE_CARD p \<Rightarrow> TYPE_CARD (p\<lparr>cp_inqueue := cp_inqueue p @ [np]\<rparr>) | _ \<Rightarrow> x)"

definition eth_signals :: "eth_service \<Rightarrow> nat \<Rightarrow> (int \<times> nat) list" where
  "eth_signals st f =
     (case eth_files st f of Some (TYPE_CARD p) \<Rightarrow> if cp_signal p then [(cp_owner p, f)] else [] | _ \<Rightarrow> [])"

lemma pipe_card_Suc: "pipe_card x = Suc i \<longleftrightarrow> (\<exists>p. x = TYPE_CARD p \<and> cp_card p = Suc i)"
  by (cases x) (simp_all add: pipe_card_def)

lemma eth_push_kind [simp]: "pipe_card (eth_push np x) = pipe_card x" "file_ok n (eth_push np x) = file_ok n x"
  by (simp_all add: eth_push_def pipe_card_def file_ok_def split: eth_file.split)

lemma eth_deliver_all_spec:
  assumes "distinct fs" "\<And>f. f \<in> set fs \<Longrightarrow> \<exists>x. eth_files st f = Some x \<and> pipe_card x \<noteq> 0"
  shows "eth_deliver_all np fs st =
    Inr (st\<lparr>eth_files := (\<lambda>f. if f \<in> set fs then map_option (eth_push np) (eth_files st f) else eth_files st f)\<rparr>,
         concat (map (eth_signals st) fs))"
  using assms
proof (induction fs arbitrary: st)
  case (Cons f fs)
  obtain x where "eth_files st f = Some x" "pipe_card x \<noteq> 0" using Cons.prems(2) [of f] by auto
  then obtain p where p: "eth_files st f = Some (TYPE_CARD p)" by (cases x) (auto simp: pipe_card_def)
  let ?st = "set_file f (eth_push np (TYPE_CARD p)) st"
  have "eth_deliver np f st = Inr (?st, eth_signals st f)"
    by (simp add: eth_deliver_def file_at_def p eth_push_def eth_signals_def)
  moreover have "eth_deliver_all np fs ?st =
    Inr (?st\<lparr>eth_files := (\<lambda>f. if f \<in> set fs then map_option (eth_push np) (eth_files ?st f) else eth_files ?st f)\<rparr>,
         concat (map (eth_signals ?st) fs))"
  proof (rule Cons.IH)
    show "\<exists>x. eth_files ?st g = Some x \<and> pipe_card x \<noteq> 0" if "g \<in> set fs" for g
      using Cons.prems that by (cases "g = f") auto
  qed (use Cons.prems in simp)
  moreover have "map (eth_signals ?st) fs = map (eth_signals st) fs"
    using Cons.prems(1) by (auto simp: eth_signals_def)
  then have "concat (map (eth_signals ?st) fs) = concat (map (eth_signals st) fs)" by (rule arg_cong)
  moreover have "(\<lambda>g. if g \<in> set fs then map_option (eth_push np) (eth_files ?st g) else eth_files ?st g) =
      (\<lambda>g. if g \<in> set (f # fs) then map_option (eth_push np) (eth_files st g) else eth_files st g)"
    using Cons.prems(1) p by (auto simp: fun_eq_iff)
  ultimately show ?case by (simp add: set_file_def)
qed simp

lemma eth_inv_push:
  assumes "eth_inv st"
  shows "eth_inv (st\<lparr>eth_files := (\<lambda>f. if f \<in> L then map_option (eth_push np) (eth_files st f) else eth_files st f)\<rparr>)"
proof -
  have "(\<exists>x. (if f \<in> L then map_option (eth_push np) (eth_files st f) else eth_files st f) = Some x \<and> pipe_card x = k) \<longleftrightarrow>
      (\<exists>x. eth_files st f = Some x \<and> pipe_card x = k)" for f k
    by auto
  then show ?thesis
    using assms by (auto simp: eth_inv_def lists_ok_def files_ok_def cards_ok_def split: if_splits)
qed

text \<open>What \<open>eth_receive\<close> does in a state that satisfies the invariant: it never fails, and every listener of the
  card gets the packet if the frame is for the card.\<close>

lemma eth_receive_spec:
  fixes data st
  assumes "eth_inv st" "0 < c" "c \<le> length (eth_store st)"
  defines "x \<equiv> eth_store st ! (c - 1)"
    and "np \<equiv> \<lparr>np_src = take 6 (drop 6 data), np_type = ucast (get16 data 12), np_data = drop 14 data\<rparr>"
  shows "eth_receive c data st =
    (if length data < 14 \<or> (take 6 data \<noteq> replicate 6 0xFF \<and> take 6 data \<noteq> nc_mac x) then Inr (False, st, [])
     else Inr (True, st\<lparr>eth_files := (\<lambda>f. if f \<in> set (nc_listeners x) then map_option (eth_push np) (eth_files st f)
                                         else eth_files st f)\<rparr>,
               concat (map (eth_signals st) (nc_listeners x))))"
proof -
  have "distinct (nc_listeners x)" "\<And>f. f \<in> set (nc_listeners x) \<Longrightarrow> \<exists>y. eth_files st f = Some y \<and> pipe_card y \<noteq> 0"
    using assms(1-3) unfolding x_def by (auto simp: eth_inv_def lists_ok_def)
  from eth_deliver_all_spec [OF this] show ?thesis
    unfolding eth_receive_def card_at_valid [OF assms(2,3)] x_def [symmetric] np_def [symmetric] by simp
qed

subsection \<open>Every call keeps the invariant\<close>

lemma file_at_Inr_iff [outcome_simps]: "file_at st f = Inr x \<longleftrightarrow> eth_files st f = Some x"
  by (simp add: file_at_def split: option.split)

lemma lookup_card_bound:
  assumes "eth_inv st" "lookup_card P st = Inr c"
  shows "c \<le> length (eth_store st)"
  using lookup_card_total [OF assms(1), of P] assms(2) by auto

lemma eth_inv_create:
  assumes "eth_inv st" "eth_create_pipe pgid relpath flags st = Inr (r, st')"
  shows "eth_inv st'"
proof -
  have listener: "eth_inv (snd (new_listener (eth_new_pipe c d) st))" if "lookup_card P st = Inr c" "c \<noteq> 0" for P c d
    by (rule eth_inv_new_listener [OF assms(1) _ _ prod.collapse [symmetric]])
      (use lookup_card_bound [OF assms(1) that(1)] that(2) in \<open>simp_all add: eth_new_pipe_def\<close>)
  have plain: "eth_inv t" if "new_file x st = (f, t)" "pipe_card x = 0" "file_ok (length (eth_store st)) x" for x f t
    by (rule eth_inv_new_file [OF assms(1) that(2,3,1)])
  note [simp] = pipe_card_def file_ok_def
  consider "relpath = []" | "relpath = path_register" | "relpath = path_receive"
    | "relpath \<noteq> []" "relpath \<noteq> path_register" "relpath \<noteq> path_receive" by blast
  then show ?thesis
  proof cases
    case 1
    obtain d where d: "card_names st (length (eth_store st)) (eth_cards st) = Inr d \<or> st' = st"
      using assms(2) 1 by (auto simp: eth_create_pipe_def outcome_simps case_prod_beta split: if_splits)
    obtain f t where "new_file (TYPE_DIR 0 (d @ [0])) st = (f, t)" by fastforce
    then show ?thesis using assms 1 d plain [of "TYPE_DIR 0 (d @ [0])"]
      by (auto simp: eth_create_pipe_def split: if_splits)
  next
    case 2
    let ?n = "length (eth_store st)"
    let ?st = "st\<lparr>eth_store := eth_store st @ [\<lparr>nc_next = 0, nc_nr = ?n, nc_name = card_name ?n, nc_mac = replicate 6 0,
      nc_process = pgid, nc_id = 0, nc_listeners = []\<rparr>]\<rparr>"
    have new: "eth_inv ?st" by (rule eth_inv_new_card [OF assms(1)]) simp_all
    have "path_register \<noteq> []" by (simp add: path_register_def)
    then show ?thesis using assms 2 eth_inv_new_file [OF new, of "TYPE_REGISTER (Suc ?n)"]
      by (auto simp: eth_create_pipe_def Let_def split: if_splits prod.splits)
  next
    case 3
    have "path_receive \<noteq> []" "path_receive \<noteq> path_register" by (simp_all add: path_register_def path_receive_def)
    then show ?thesis using assms 3 plain [of "TYPE_RECEIVE pgid 0"]
      by (auto simp: eth_create_pipe_def split: if_splits prod.splits)
  next
    case 4
    show ?thesis
    proof (cases "47 \<in> set (tl relpath)")
      case False
      then show ?thesis using assms 4 listener
        by (auto simp: eth_create_pipe_def outcome_simps case_prod_beta split: if_splits)
    next
      case True
      obtain name r1 where t1: "path_token (Some (tl relpath)) = (name, r1)" by fastforce
      obtain cptr r2 where t2: "path_token r1 = (cptr, r2)" by fastforce
      obtain more r3 where t3: "path_token r2 = (more, r3)" by fastforce
      show ?thesis using assms 4 True listener
        by (auto simp: eth_create_pipe_def outcome_simps t1 t2 t3 case_prod_beta split: if_splits option.splits)
    qed
  qed
qed

lemma eth_inv_send:
  assumes "eth_inv st" "registers_once (Send f data flags) st"
    and "eth_stream_send answer f data flags st = Inr (r, st', calls, sgs)"
  shows "eth_inv st'"
proof -
  obtain x where x: "eth_files st f = Some x" using assms(3) by (auto simp: eth_stream_send_def outcome_simps)
  have ok: "file_ok (length (eth_store st)) x" by (rule eth_invD(2) [OF assms(1) x])
  show ?thesis
  proof (cases x)
    case (TYPE_REGISTER c)
    show ?thesis
    proof (cases "length data = 10")
      case True
      then show ?thesis
        using assms(2,3) x TYPE_REGISTER ok
        by (intro eth_inv_register [OF assms(1), of c "take 6 (drop 4 data)" _ "take32 data 0"])
          (auto simp: eth_stream_send_def file_at_def registers_once_def file_ok_def Let_def)
    qed (use assms x TYPE_REGISTER in \<open>simp add: eth_stream_send_def file_at_def\<close>)
  next
    case (TYPE_RECEIVE pid c)
    then show ?thesis
      using assms(1,3) x ok eth_receive_spec [OF assms(1), of c data] eth_inv_push [OF assms(1)]
      by (auto simp: eth_stream_send_def file_at_def file_ok_def outcome_simps split: if_splits)
  qed (use assms x in \<open>auto simp: eth_stream_send_def file_at_def outcome_simps Let_def split: if_splits\<close>)
qed

lemma eth_inv_recv:
  assumes "eth_inv st" "eth_stream_recv f sz flags st = Inr (r, st')"
  shows "eth_inv st'"
proof -
  obtain x where x: "eth_files st f = Some x" using assms(2) by (auto simp: eth_stream_recv_def outcome_simps)
  have "file_ok (length (eth_store st)) x" by (rule eth_invD(2) [OF assms(1) x])
  then show ?thesis
    using assms x
    by (auto simp: eth_stream_recv_def file_at_def Let_def file_ok_def pipe_card_def split: eth_file.splits list.splits
        intro!: eth_inv_set_file [OF assms(1) x])
qed

lemma eth_inv_set_flag:
  assumes "eth_inv st" "eth_set_flag pgid f flag val st = Inr (r, st')"
  shows "eth_inv st'"
proof -
  obtain x where x: "eth_files st f = Some x" using assms(2) by (auto simp: eth_set_flag_def outcome_simps)
  have ok: "file_ok (length (eth_store st)) x" by (rule eth_invD(2) [OF assms(1) x])
  note set = eth_inv_set_file [OF assms(1) x]
  show ?thesis
  proof (cases x)
    case (TYPE_CARD p)
    then show ?thesis
      using assms x ok set
      by (cases flag) (auto simp: eth_set_flag_def file_at_def Let_def file_ok_def pipe_card_def split: if_splits list.splits)
  next
    case (TYPE_RECEIVE pid c)
    have "eth_inv (set_file f (TYPE_RECEIVE pid d) st)" if "lookup_card P st = Inr d" for P d
      using set [of "TYPE_RECEIVE pid d"] lookup_card_bound [OF assms(1) that] TYPE_RECEIVE
      by (simp add: file_ok_def pipe_card_def)
    then show ?thesis
      using assms x TYPE_RECEIVE by (cases flag) (auto simp: eth_set_flag_def file_at_def outcome_simps split: if_splits)
  next
    case (TYPE_DIR pos d)
    then show ?thesis
      using assms x set [of "TYPE_DIR (min (unat val) (length d)) d"]
      by (cases flag) (auto simp: eth_set_flag_def file_at_def file_ok_def pipe_card_def)
  next
    case (TYPE_REGISTER c)
    then show ?thesis using assms x by (cases flag) (auto simp: eth_set_flag_def file_at_def)
  qed
qed

lemma eth_inv_exec:
  assumes "eth_inv st" "registers_once call st" "eth_exec answer call st = Inr st'"
  shows "eth_inv st'"
proof (cases call)
  case (Duplicate f)
  then obtain x where x: "eth_files st f = Some x" using assms(3) by (auto simp: eth_exec_def eth_duplicate_pipe_def outcome_simps)
  then show ?thesis
    using assms(1,3) Duplicate eth_invD(2) [OF assms(1) x] eth_inv_new_listener [OF assms(1)] eth_inv_new_file [OF assms(1), of x]
    by (auto simp: eth_exec_def eth_duplicate_pipe_def file_at_def file_ok_def pipe_card_def outcome_simps split: eth_file.splits)
next
  case (Create pgid relpath flags)
  then show ?thesis using assms(3) eth_inv_create [OF assms(1)] by (auto simp: eth_exec_def outcome_simps)
next
  case (Destroy f)
  then show ?thesis using assms(3) eth_inv_destroy [OF assms(1)] by (simp add: eth_exec_def)
next
  case (Send f data flags)
  then show ?thesis using assms(2,3) eth_inv_send [OF assms(1)] by (auto simp: eth_exec_def outcome_simps)
next
  case (Recv f sz flags)
  then show ?thesis using assms(3) eth_inv_recv [OF assms(1)] by (auto simp: eth_exec_def outcome_simps)
next
  case (SetFlag pgid f flag val)
  then show ?thesis using assms(3) eth_inv_set_flag [OF assms(1)] by (auto simp: eth_exec_def outcome_simps)
qed

lemma eth_reach_facts: "eth_reach st \<Longrightarrow> eth_inv st"
proof (induction rule: eth_reach.induct)
  case eth_init
  show ?case
    by (auto simp: eth_inv_def lists_ok_def files_ok_def cards_ok_def eth_start_def intro: exI [of _ "[]"])
qed (rule eth_inv_exec)

text \<open>C18: In every state the Ethernet service can reach, as long as no driver registers a card twice, the list of
  cards is finite, so that every search in it returns; the listeners of a card are exactly the open pipes on
  that card, each once; and a frame from a driver is always handled without touching a freed file.\<close>

theorem eth_service_safe:
  assumes "eth_reach st"
  shows "(\<forall>P. \<exists>c. lookup_card P st = Inr c) \<and>
    (\<forall>i < length (eth_store st). distinct (nc_listeners (eth_store st ! i)) \<and>
       (\<forall>f. f \<in> set (nc_listeners (eth_store st ! i)) \<longleftrightarrow> (\<exists>p. eth_files st f = Some (TYPE_CARD p) \<and> cp_card p = Suc i))) \<and>
    (\<forall>c data. 0 < c \<and> c \<le> length (eth_store st) \<longrightarrow> (\<exists>r. eth_receive c data st = Inr r))"
proof (intro conjI allI impI)
  have inv: "eth_inv st" by (rule eth_reach_facts [OF assms])
  show "\<exists>c. lookup_card P st = Inr c" for P using lookup_card_total [OF inv] by metis
  show "\<exists>r. eth_receive c data st = Inr r" if "0 < c \<and> c \<le> length (eth_store st)" for c data
    using eth_receive_spec [OF inv, of c data] that by auto
  fix i
  assume i: "i < length (eth_store st)"
  show "distinct (nc_listeners (eth_store st ! i))" using inv i by (simp add: eth_inv_def lists_ok_def)
  have "(\<exists>x. eth_files st f = Some x \<and> pipe_card x = Suc i) \<longleftrightarrow> (\<exists>p. eth_files st f = Some (TYPE_CARD p) \<and> cp_card p = Suc i)" for f
    by (auto simp: pipe_card_Suc)
  then show "f \<in> set (nc_listeners (eth_store st ! i)) \<longleftrightarrow> (\<exists>p. eth_files st f = Some (TYPE_CARD p) \<and> cp_card p = Suc i)" for f
    using inv i by (simp add: eth_inv_def lists_ok_def)
qed

text \<open>One card, registered under the number 7 with the address 1:2:3:4:5:6, and one pipe on it.\<close>

definition demo_card :: "nat list \<Rightarrow> network_card" where
  "demo_card ls = \<lparr>nc_next = 0, nc_nr = 0, nc_name = card_name 0, nc_mac = [1, 2, 3, 4, 5, 6], nc_process = 9, nc_id = 7, nc_listeners = ls\<rparr>"

definition demo_eth :: eth_service where
  "demo_eth = \<lparr>eth_store = [demo_card [Suc 1]], eth_cards = 1,
     eth_files = [1 \<mapsto> TYPE_REGISTER 1, Suc 1 \<mapsto> TYPE_CARD (eth_new_pipe 1 (replicate 6 0))], eth_fresh = Suc 1\<rparr>"

lemma card_name_0: "card_name 0 = [101, 116, 104, 48]"
  by (simp add: card_name_def dec_digits_def)

lemma path_literals:
  "path_register = [47, 114, 101, 103, 105, 115, 116, 101, 114]" "path_receive = [47, 114, 101, 99, 101, 105, 118, 101]"
  by (simp_all add: path_register_def path_receive_def)

lemma demo_eth_reach: "eth_reach demo_eth"
proof -
  note [simp] = eth_exec_def registers_once_def card_at_def
  obtain s1 where s1: "eth_exec (\<lambda>_. 0) (Create 9 path_register 2) eth_start = Inr s1"
    "s1 = \<lparr>eth_store = [(demo_card [])\<lparr>nc_mac := replicate 6 0, nc_id := 0\<rparr>], eth_cards = 0, eth_files = [1 \<mapsto> TYPE_REGISTER 1], eth_fresh = 1\<rparr>"
    by (simp add: eth_create_pipe_def path_literals eth_start_def new_file_def set_file_def demo_card_def O_RDONLY_def)
  have r1: "eth_reach s1" by (rule eth_call [OF eth_init _ s1(1)]) simp
  obtain s2 where s2: "eth_exec (\<lambda>_. 0) (Send 1 [7, 0, 0, 0, 1, 2, 3, 4, 5, 6] 0) s1 = Inr s2"
    "s2 = \<lparr>eth_store = [demo_card []], eth_cards = 1, eth_files = [1 \<mapsto> TYPE_REGISTER 1], eth_fresh = 1\<rparr>"
    by (simp add: s1(2) eth_stream_send_def file_at_def upd_card_def demo_card_def take32_def bytes_word_def)
  have r2: "eth_reach s2" by (rule eth_call [OF r1 _ s2(1)]) (simp add: s1(2))
  have "eth_exec (\<lambda>_. 0) (Create 5 (47 # card_name 0) 0) s2 = Inr demo_eth"
    by (simp add: s2(2) eth_create_pipe_def path_literals card_name_0 demo_eth_def new_listener_def new_file_def set_file_def
        upd_card_def eth_new_pipe_def demo_card_def)
  then show ?thesis by (rule eth_call [OF r2, rotated]) simp
qed

theorem eth_service_safe_witness:
  "eth_reach demo_eth \<and> (\<exists>r. eth_receive 1 (replicate 20 0xFF) demo_eth = Inr r)"
  using eth_service_safe [OF demo_eth_reach] demo_eth_reach by (simp add: demo_eth_def)

text \<open>A card that is registered twice becomes its own successor: the next search for a card that is not there
  never ends, however many steps it is given.\<close>

lemma eth_double_registration:
  assumes "eth_exec (\<lambda>_. 0) (Send 1 [7, 0, 0, 0, 1, 2, 3, 4, 5, 6] 0) demo_eth = Inr st"
  shows "find_card (\<lambda>c. nc_name c = card_name 1) st (Suc n) (eth_cards st) = Inl NoReturn"
proof -
  have st: "eth_store st = [(demo_card [Suc 1])\<lparr>nc_next := 1\<rparr>]" "eth_cards st = 1"
    using assms by (auto simp: demo_eth_def eth_exec_def eth_stream_send_def file_at_def upd_card_def demo_card_def take32_def bytes_word_def)
  have "card_name 1 \<noteq> card_name 0" by (simp add: card_name_def dec_digits_def tmp_digits.simps)
  then have "find_card (\<lambda>c. nc_name c = card_name 1) st n 1 = Inl NoReturn" for n
    by (induction n) (auto simp: card_at_def st demo_card_def)
  then show ?thesis unfolding st .
qed

lemma ethernet_frame_fields:
  assumes "length dest = 6" "length src = 6"
  shows "take 6 (ethernet_frame dest src ty data) = dest" "take 6 (drop 6 (ethernet_frame dest src ty data)) = src"
    "get16 (ethernet_frame dest src ty data) 12 = ty" "14 \<le> length (ethernet_frame dest src ty data)"
    "drop 14 (ethernet_frame dest src ty data) = data @ replicate (46 - length data) 0"
proof -
  have "get16 (be16 ty @ r) 0 = ty" for r by (simp add: get16_def be16_def word16_split)
  moreover have "get16 (dest @ src @ be16 ty @ r) 12 = get16 (be16 ty @ r) 0" for r
    using assms by (simp add: get16_def nth_append)
  ultimately show "get16 (ethernet_frame dest src ty data) 12 = ty" by (simp add: ethernet_frame_def)
qed (use assms in \<open>simp_all add: ethernet_frame_def\<close>)

text \<open>Sending on a pipe and receiving on a card the frame is for.\<close>

lemma eth_send_receive:
  assumes a: "eth_inv sta" "eth_files sta f = Some (TYPE_CARD p)" "length data \<le> 1500"
    and b: "eth_inv stb" "0 < c" "c \<le> length (eth_store stb)"
    and dest: "cp_dest p = nc_mac (eth_store stb ! (c - 1)) \<or> cp_dest p = replicate 6 0xFF"
  shows "\<exists>r frame. eth_stream_send answer f data flags sta =
      Inr (Inr r, sta, [(nc_process (eth_store sta ! (cp_card p - 1)), nc_id (eth_store sta ! (cp_card p - 1)), frame)], []) \<and>
    eth_receive c frame stb =
      Inr (True, stb\<lparr>eth_files := (\<lambda>g. if g \<in> set (nc_listeners (eth_store stb ! (c - 1)))
          then map_option (eth_push \<lparr>np_src = nc_mac (eth_store sta ! (cp_card p - 1)), np_type = ucast (ucast (cp_packet_type p) :: u16),
                 np_data = data @ replicate (46 - length data) 0\<rparr>) (eth_files stb g)
          else eth_files stb g)\<rparr>,
        concat (map (eth_signals stb) (nc_listeners (eth_store stb ! (c - 1)))))"
proof -
  let ?frame = "ethernet_frame (cp_dest p) (nc_mac (eth_store sta ! (cp_card p - 1))) (ucast (cp_packet_type p)) data"
  have c: "0 < cp_card p" "cp_card p \<le> length (eth_store sta)"
    using eth_invD(2) [OF a(1,2)] by (simp_all add: file_ok_def)
  have mac: "length (nc_mac (eth_store st ! (k - 1))) = 6" if "eth_inv st" "0 < k" "k \<le> length (eth_store st)" for st k
    using that by (simp add: eth_inv_def cards_ok_def)
  have len: "length (cp_dest p) = 6" "length (nc_mac (eth_store sta ! (cp_card p - 1))) = 6"
    using dest mac [OF b] mac [OF a(1) c] by auto
  have "eth_stream_send answer f data flags sta =
      Inr (Inr (if flags AND O_NONBLOCK \<noteq> 0 then length ?frame else answer ?frame), sta,
        [(nc_process (eth_store sta ! (cp_card p - 1)), nc_id (eth_store sta ! (cp_card p - 1)), ?frame)], [])"
    using a(2,3) by (simp add: eth_stream_send_def file_at_def card_at_valid [OF c] Let_def)
  moreover have "take 6 ?frame = replicate 6 0xFF \<or> take 6 ?frame = nc_mac (eth_store stb ! (c - 1))"
    using dest unfolding ethernet_frame_fields(1) [OF len] by blast
  then have "eth_receive c ?frame stb =
      Inr (True, stb\<lparr>eth_files := (\<lambda>g. if g \<in> set (nc_listeners (eth_store stb ! (c - 1)))
          then map_option (eth_push \<lparr>np_src = nc_mac (eth_store sta ! (cp_card p - 1)), np_type = ucast (ucast (cp_packet_type p) :: u16),
                 np_data = data @ replicate (46 - length data) 0\<rparr>) (eth_files stb g)
          else eth_files stb g)\<rparr>,
        concat (map (eth_signals stb) (nc_listeners (eth_store stb ! (c - 1)))))"
    using ethernet_frame_fields(4) [OF len, of "ucast (cp_packet_type p)" data]
    unfolding eth_receive_spec [OF b] ethernet_frame_fields(2,3,5) [OF len] by auto
  ultimately show ?thesis by blast
qed

text \<open>A packet written to a pipe on one host arrives at the other: the driver of the card is handed one frame, and
  when the driver of the card it is addressed to (or of any card, for a broadcast) passes it to its Ethernet
  service, every pipe on that card gets one more packet at the end of its queue, with the address of the sender,
  the packet type and the data, filled up with zeroes to 46 bytes; no other file changes.\<close>

theorem eth_frame_delivered:
  assumes "eth_reach sta" "eth_files sta f = Some (TYPE_CARD p)" "length data \<le> 1500"
    and "eth_reach stb" "0 < c" "c \<le> length (eth_store stb)"
    and "cp_dest p = nc_mac (eth_store stb ! (c - 1)) \<or> cp_dest p = replicate 6 0xFF"
  shows "\<exists>r frame stb' sgs. eth_stream_send answer f data flags sta =
      Inr (Inr r, sta, [(nc_process (eth_store sta ! (cp_card p - 1)), nc_id (eth_store sta ! (cp_card p - 1)), frame)], []) \<and>
    eth_receive c frame stb = Inr (True, stb', sgs) \<and>
    (\<forall>g. eth_files stb' g =
       (case eth_files stb g of
          Some (TYPE_CARD q) \<Rightarrow>
            Some (TYPE_CARD (if cp_card q = c then q\<lparr>cp_inqueue := cp_inqueue q @
              [\<lparr>np_src = nc_mac (eth_store sta ! (cp_card p - 1)), np_type = cp_packet_type p AND 0xFFFF,
                np_data = data @ replicate (46 - length data) 0\<rparr>]\<rparr> else q))
        | x \<Rightarrow> x))"
proof -
  have inv: "eth_inv sta" "eth_inv stb" by (rule eth_reach_facts, fact)+
  have listed: "g \<in> set (nc_listeners (eth_store stb ! (c - 1))) \<longleftrightarrow> (\<exists>q. eth_files stb g = Some (TYPE_CARD q) \<and> cp_card q = c)" for g
    using inv(2) assms(5,6) by (auto simp: eth_inv_def lists_ok_def pipe_card_Suc)
  have ty: "ucast (ucast (cp_packet_type p) :: u16) = cp_packet_type p AND 0xFFFF"
    using unat_and_mask [of "cp_packet_type p" 16]
    by (simp add: word_unat_eq_iff unsigned_ucast_eq take_bit_eq_mod mask_eq_exp_minus_1 unat_mod)
  note sr = eth_send_receive [OF inv(1) assms(2,3) inv(2) assms(5-7), of answer flags, unfolded listed ty]
  show ?thesis
    by (rule exE [OF sr], elim exE conjE, intro exI conjI allI, assumption, assumption)
      (simp add: eth_push_def split: option.split eth_file.split)
qed

lemma demo_mac: "mac_bytes 0x060504030201 = [1, 2, 3, 4, 5, 6]"
  by code_simp

theorem eth_frame_delivered_witness:
  "\<exists>frame st' sgs. eth_receive 1 frame demo_eth = Inr (True, st', sgs) \<and> eth_files st' (Suc 1) =
     Some (TYPE_CARD ((eth_new_pipe 1 (replicate 6 0))\<lparr>cp_inqueue :=
       [\<lparr>np_src = [1, 2, 3, 4, 5, 6], np_type = 0x0800, np_data = 42 # replicate 45 0\<rparr>]\<rparr>))"
proof -
  let ?p = "(eth_new_pipe 1 (replicate 6 0))\<lparr>cp_dest := [1, 2, 3, 4, 5, 6]\<rparr>"
  have "eth_exec (\<lambda>_. 0) (SetFlag 5 (Suc 1) F_DEST_MAC 0x060504030201) demo_eth = Inr (set_file (Suc 1) (TYPE_CARD ?p) demo_eth)"
    by (simp add: eth_exec_def eth_set_flag_def file_at_def demo_eth_def demo_mac)
  from eth_call [OF demo_eth_reach _ this] have "eth_reach (set_file (Suc 1) (TYPE_CARD ?p) demo_eth)"
    by (simp add: registers_once_def)
  from eth_frame_delivered [OF this _ _ demo_eth_reach, of "Suc 1" ?p "[42]" 1 "\<lambda>_. 0" 0]
  obtain frame stb' sgs where *: "eth_receive 1 frame demo_eth = Inr (True, stb', sgs)"
    "\<forall>g. eth_files stb' g = (case eth_files demo_eth g of
          Some (TYPE_CARD q) \<Rightarrow>
            Some (TYPE_CARD (if cp_card q = 1 then q\<lparr>cp_inqueue := cp_inqueue q @
              [\<lparr>np_src = [1, 2, 3, 4, 5, 6], np_type = 0x0800, np_data = [42] @ replicate (46 - length [42 :: u8]) 0\<rparr>]\<rparr> else q))
        | x \<Rightarrow> x)"
    by (auto simp: demo_eth_def demo_card_def eth_new_pipe_def)
  have "eth_files stb' (Suc 1) = Some (TYPE_CARD ((eth_new_pipe 1 (replicate 6 0))\<lparr>cp_inqueue :=
       [\<lparr>np_src = [1, 2, 3, 4, 5, 6], np_type = 0x0800, np_data = 42 # replicate 45 0\<rparr>]\<rparr>))"
    unfolding *(2) [rule_format] by (simp add: demo_eth_def eth_new_pipe_def)
  then show ?thesis using *(1) by blast
qed

end
