(* ===== verification/Stack.thy ===== *)
theory Stack
  imports Eth Udp
begin

text \<open>
  The IP service on top of the Ethernet service: the calls with which \<open>src/progs/common/ip/ip.c\<close> sends a packet
  through the pipe of an interface and takes one from it. The lemmas put the models of both services together.
\<close>

text \<open>The end of \<open>service_stream_send\<close>: the address of the receiver is set and the packet written to the pipe.\<close>

definition ip_put ::
    "(u8 list \<Rightarrow> nat) \<Rightarrow> int \<Rightarrow> nat \<Rightarrow> u64 \<Rightarrow> u8 list \<Rightarrow> u32 \<Rightarrow> eth_service
       \<Rightarrow> ((net_errno + nat) \<times> eth_service \<times> driver_calls) outcome" where
  "ip_put answer pgid fd mac raw flags st =
     rbind (eth_set_flag pgid fd F_DEST_MAC mac st) (\<lambda>(_, st).
     rbind (eth_stream_send answer fd raw flags st) (\<lambda>(r, st, calls, _). Inr (r, st, calls)))"

text \<open>The beginning of a round of \<open>incoming\<close>, for a packet of type 0x0800: the type, the packet and the service.\<close>

definition ip_take :: "nat \<Rightarrow> eth_service \<Rightarrow> (u16 \<times> u8 list option \<times> eth_service) outcome" where
  "ip_take fd st =
     rbind (eth_get_flag fd F_ETH_PACKET_TYPE st) (\<lambda>ty.
     rbind (eth_get_flag fd F_PRESSURE st) (\<lambda>len.
       case (ty, len) of
         (Inr t, Inr n) \<Rightarrow>
           rbind (eth_stream_recv fd (unat n) 0 st) (\<lambda>(r, st).
             Inr (ucast t, case r of Inl _ \<Rightarrow> None | Inr d \<Rightarrow> d, st))
       | _ \<Rightarrow> Inr (0, None, st)))"

lemma ip_put_spec:
  assumes "eth_inv st" "eth_files st f = Some (TYPE_CARD p)"
  shows "\<exists>st'. eth_set_flag pgid f F_DEST_MAC mac st = Inr (Inr (), st') \<and> eth_inv st' \<and> eth_store st' = eth_store st \<and>
    eth_files st' f = Some (TYPE_CARD (p\<lparr>cp_dest := mac_bytes mac\<rparr>)) \<and>
    ip_put answer pgid f mac raw flags st =
      rbind (eth_stream_send answer f raw flags st') (\<lambda>(r, st, calls, _). Inr (r, st, calls))"
proof -
  let ?st = "set_file f (TYPE_CARD (p\<lparr>cp_dest := mac_bytes mac\<rparr>)) st"
  have s: "eth_set_flag pgid f F_DEST_MAC mac st = Inr (Inr (), ?st)"
    using assms(2) by (simp add: eth_set_flag_def file_at_def)
  moreover have "eth_inv ?st" by (rule eth_inv_set_flag [OF assms(1) s])
  ultimately show ?thesis by (simp add: ip_put_def)
qed

lemma ip_take_first:
  assumes "eth_files st f = Some (TYPE_CARD p)" "cp_inqueue p = np # nps" "length (np_data np) < 2 ^ 64"
  shows "ip_take f st = Inr (ucast (np_type np), Some (np_data np), set_file f (TYPE_CARD (p\<lparr>cp_inqueue := nps\<rparr>)) st)"
proof -
  have "unat (of_nat (length (np_data np)) :: u64) = length (np_data np)"
    using assms(3) by (simp add: unat_of_nat take_bit_eq_mod)
  moreover have "ucast (ucast (np_type np) :: u64) = (ucast (np_type np) :: u16)"
    by (rule bit_word_eqI) (auto simp: bit_simps)
  ultimately show ?thesis
    using assms(1,2) by (simp add: ip_take_def eth_get_flag_def eth_stream_recv_def file_at_def)
qed

text \<open>C19: An IP packet crosses the Ethernet unharmed: what the IP service of one host sends through the pipe of its
  interface is handed to the driver as one frame; when the driver of the receiving card passes the frame on, the
  IP service of the other host takes it from its pipe, ignores the bytes the frame was filled up with, and gives
  exactly the data sent to every pipe that listens to the sender.\<close>

theorem ip_over_ethernet:
  assumes "eth_reach sta" "eth_files sta fa = Some (TYPE_CARD p)" "cp_packet_type p = 0x0800"
    and "eth_reach stb" "eth_files stb fb = Some (TYPE_CARD q)" "cp_inqueue q = []"
    and "nc_mac (eth_store stb ! (cp_card q - 1)) = mac_bytes (f_mac f)"
    and "length data \<le> 1480" "interface_at (f_ifc f) (interfaces ipa) = Some ia"
    and "f_dest f = if_ip ib \<or> f_dest f = 0xFFFFFFFF"
  shows "\<exists>raw r sta' proc cid frame stb' sgs raw' stb''.
    ip_stream_send f data ipa = Inr [(f_ifc f, 0x0800, f_mac f, raw)] \<and>
    ip_put answer pgid fa (f_mac f) raw flags sta = Inr (Inr r, sta', [(proc, cid, frame)]) \<and>
    eth_receive (cp_card q) frame stb = Inr (True, stb', sgs) \<and>
    ip_take fb stb' = Inr (0x0800, Some raw', stb'') \<and>
    ip_incoming mb ib 0x0800 raw' ipb =
      Inr (ipb\<lparr>ip_connections := map (\<lambda>g. if ip_listens (if_ip ia) g
             then ip_push \<lparr>ip_src = if_ip ia, ip_dest = f_dest f, ip_protocol = ucast (f_protocol f),
                            ip_ttl = ucast (f_ttl f), ip_data = data\<rparr> g
             else g) (ip_connections ipb)\<rparr>, [],
           map f_owner (filter (\<lambda>g. ip_listens (if_ip ia) g \<and> f_signal g) (ip_connections ipb)))"
proof -
  have inv: "eth_inv sta" "eth_inv stb" by (rule eth_reach_facts, fact)+
  have "length data \<le> 65515" using assms(8) by simp
  from ip_send_receive_spec [OF this assms(9,10), of mb ipb] obtain raw where
    raw: "ip_stream_send f data ipa = Inr [(f_ifc f, 0x0800, f_mac f, raw)]" and
    inc: "ip_incoming mb ib 0x0800 raw ipb =
      Inr (ipb\<lparr>ip_connections := map (\<lambda>g. if ip_listens (if_ip ia) g
             then ip_push \<lparr>ip_src = if_ip ia, ip_dest = f_dest f, ip_protocol = ucast (f_protocol f),
                            ip_ttl = ucast (f_ttl f), ip_data = data\<rparr> g
             else g) (ip_connections ipb)\<rparr>, [],
           map f_owner (filter (\<lambda>g. ip_listens (if_ip ia) g \<and> f_signal g) (ip_connections ipb)))" (is "_ = Inr ?res")
    by blast
  have len: "length raw = 20 + length data"
    using raw assms(9) by (auto simp: ip_stream_send_def ip_make_packet_def Let_def)
  obtain st1 where st1: "eth_inv st1" "eth_store st1 = eth_store sta"
    "eth_files st1 fa = Some (TYPE_CARD (p\<lparr>cp_dest := mac_bytes (f_mac f)\<rparr>))"
    "ip_put answer pgid fa (f_mac f) raw flags sta =
       rbind (eth_stream_send answer fa raw flags st1) (\<lambda>(r, st, calls, _). Inr (r, st, calls))"
    using ip_put_spec [OF inv(1) assms(2)] by blast
  have q: "0 < cp_card q" "cp_card q \<le> length (eth_store stb)"
    using eth_invD(2) [OF inv(2) assms(5)] by (simp_all add: file_ok_def)
  let ?c = "eth_store stb ! (cp_card q - 1)"
  let ?np = "\<lparr>np_src = nc_mac (eth_store sta ! (cp_card p - 1)), np_type = 0x0800, np_data = raw @ replicate (46 - length raw) 0\<rparr>"
  have short: "length raw \<le> 1500" using len assms(8) by simp
  have dest: "cp_dest (p\<lparr>cp_dest := mac_bytes (f_mac f)\<rparr>) = nc_mac ?c \<or> cp_dest (p\<lparr>cp_dest := mac_bytes (f_mac f)\<rparr>) = replicate 6 0xFF"
    unfolding assms(7) by simp
  have np: "\<lparr>np_src = nc_mac (eth_store st1 ! (cp_card (p\<lparr>cp_dest := mac_bytes (f_mac f)\<rparr>) - 1)),
      np_type = ucast (ucast (cp_packet_type (p\<lparr>cp_dest := mac_bytes (f_mac f)\<rparr>)) :: u16), np_data = raw @ replicate (46 - length raw) 0\<rparr> = ?np"
    by (simp add: st1(2) assms(3))
  obtain r proc cid frame where
    sent: "eth_stream_send answer fa raw flags st1 = Inr (Inr r, st1, [(proc, cid, frame)], [])" and
    rcvd: "eth_receive (cp_card q) frame stb =
      Inr (True, stb\<lparr>eth_files := (\<lambda>g. if g \<in> set (nc_listeners ?c) then map_option (eth_push ?np) (eth_files stb g) else eth_files stb g)\<rparr>,
        concat (map (eth_signals stb) (nc_listeners ?c)))"
    using eth_send_receive [OF st1(1,3) short inv(2) q dest, of answer flags, unfolded np] by (elim exE conjE) (rule that)
  have "fb \<in> set (nc_listeners ?c)"
    using inv(2) q assms(5) by (auto simp: eth_inv_def lists_ok_def pipe_card_def)
  then have "ip_take fb (stb\<lparr>eth_files := (\<lambda>g. if g \<in> set (nc_listeners ?c) then map_option (eth_push ?np) (eth_files stb g) else eth_files stb g)\<rparr>)
      = Inr (0x0800, Some (raw @ replicate (46 - length raw) 0), set_file fb (TYPE_CARD (q\<lparr>cp_inqueue := []\<rparr>))
          (stb\<lparr>eth_files := (\<lambda>g. if g \<in> set (nc_listeners ?c) then map_option (eth_push ?np) (eth_files stb g) else eth_files stb g)\<rparr>))"
    using assms(5,6,8) len by (subst ip_take_first) (auto simp: eth_push_def)
  moreover have "ip_incoming mb ib 0x0800 (raw @ replicate (46 - length raw) 0) ipb = Inr ?res"
    by (rule ip_incoming_pad [OF inc]) (simp add: len)
  ultimately show ?thesis using raw st1(4) sent rcvd by (intro exI conjI) simp_all
qed

theorem ip_over_ethernet_witness:
  "\<exists>frame st sgs raw st'. eth_receive 1 frame demo_eth = Inr (True, st, sgs) \<and> ip_take (Suc 1) st = Inr (0x0800, Some raw, st') \<and>
     ip_incoming (\<lambda>_. 0) (sample_ifc 8) 0x0800 raw ((sample_ip 8)\<lparr>ip_connections := [sample_ip_file 7]\<rparr>) =
       Inr ((sample_ip 8)\<lparr>ip_connections := [ip_push \<lparr>ip_src = 7, ip_dest = 8, ip_protocol = 17, ip_ttl = 128, ip_data = [42]\<rparr>
              (sample_ip_file 7)]\<rparr>, [], [2])"
proof -
  let ?f = "(sample_ip_file 8)\<lparr>f_mac := 0x060504030201\<rparr>"
  let ?p = "eth_new_pipe 1 (replicate 6 0)"
  let ?ipb = "(sample_ip 8)\<lparr>ip_connections := [sample_ip_file 7]\<rparr>"
  have p: "eth_files demo_eth (Suc 1) = Some (TYPE_CARD ?p)" by (simp add: demo_eth_def)
  have "nc_mac (eth_store demo_eth ! (cp_card ?p - 1)) = mac_bytes (f_mac ?f)"
    by (simp add: demo_eth_def demo_card_def eth_new_pipe_def demo_mac)
  moreover have "interface_at (f_ifc ?f) (interfaces (sample_ip 7)) = Some (sample_ifc 7)"
    by (simp add: sample_ip_file_def sample_ip_def sample_ifc_def interface_at_def)
  moreover have "cp_packet_type ?p = 0x0800" "cp_inqueue ?p = []" "f_dest ?f = if_ip (sample_ifc 8)"
    by (simp_all add: eth_new_pipe_def sample_ip_file_def sample_ifc_def)
  ultimately obtain frame stb' sgs raw' stb'' where
    "eth_receive (cp_card ?p) frame demo_eth = Inr (True, stb', sgs)" "ip_take (Suc 1) stb' = Inr (0x0800, Some raw', stb'')"
    "ip_incoming (\<lambda>_. 0) (sample_ifc 8) 0x0800 raw' ?ipb =
      Inr (?ipb\<lparr>ip_connections := map (\<lambda>g. if ip_listens (if_ip (sample_ifc 7)) g
             then ip_push \<lparr>ip_src = if_ip (sample_ifc 7), ip_dest = f_dest ?f, ip_protocol = ucast (f_protocol ?f),
                            ip_ttl = ucast (f_ttl ?f), ip_data = [42]\<rparr> g
             else g) (ip_connections ?ipb)\<rparr>, [],
           map f_owner (filter (\<lambda>g. ip_listens (if_ip (sample_ifc 7)) g \<and> f_signal g) (ip_connections ?ipb)))"
    using ip_over_ethernet [OF demo_eth_reach p _ demo_eth_reach p, of ?f "[42]" "sample_ip 7" "sample_ifc 7" "sample_ifc 8"
      "\<lambda>_. 0" 5 0 "\<lambda>_. 0" ?ipb] by auto
  moreover have "cp_card ?p = 1" by (simp add: eth_new_pipe_def)
  ultimately show ?thesis
    by (intro exI conjI) (assumption | simp add: sample_ip_file_def sample_ifc_def ip_listens_def)+
qed

end
