(* ===== verification/Paths.thy ===== *)
theory Paths
  imports Prelude
begin

text \<open>
  Paths of the virtual file system (\<open>__simplify_path\<close> and \<open>extract_path\<close> of \<open>src/lib/common/vfs/create_pipe.c\<close>).
  A path is the list of its characters without the terminating zero.

  \<open>__simplify_path\<close> works in place with a pointer \<open>part\<close> to a slash. In the model the string is cut there: \<open>pre\<close> is
  what precedes the slash and \<open>suf\<close> what follows it. A \<open>memmove\<close> to \<open>part + 1\<close> drops characters of \<open>suf\<close>, and a zero
  stored at \<open>part\<close> leaves \<open>pre\<close>. For a slash at the very beginning the code looks at the byte before the
  string, which is the parameter \<open>before\<close>.
\<close>

section \<open>Definitions\<close>

abbreviation (input) slash :: u8 where "slash \<equiv> 47"
abbreviation (input) dot :: u8 where "dot \<equiv> 46"

text \<open>The loop that removes \<open>./\<close>.\<close>

function drop_dots :: "u8 list \<Rightarrow> u8 list" where
  "drop_dots s = (if take 2 s = [dot, slash] then drop_dots (drop 2 s) else s)"
  by pat_completeness auto
termination by (relation "measure length") (auto dest: arg_cong [of _ _ length])

declare drop_dots.simps [simp del]

text \<open>The loop for \<open>..\<close>: what precedes and follows \<open>part\<close> then, \<open>None\<close> if the string ends there, and
  \<open>changed_anything\<close>.\<close>

function dotdot :: "u8 \<Rightarrow> u8 list \<Rightarrow> u8 list \<Rightarrow> bool \<Rightarrow> (u8 list \<times> u8 list option \<times> bool) outcome" where
  "dotdot before pre suf changed =
     (if take 3 suf \<noteq> [dot, dot, slash] \<and> suf \<noteq> [dot, dot] then Inr (pre, Some suf, changed)
      else if pre = [] then (if before = slash then Inl OutOfBounds else Inr (pre, Some suf, changed))
      else
        let p = rev (dropWhile (\<lambda>c. c \<noteq> slash) (rev pre)) in
        if p = [] then Inr (pre, Some suf, changed)
        else if suf = [dot, dot] then Inr (butlast p, None, True)
        else dotdot before (butlast p) (drop 3 suf) True)"
  by pat_completeness auto
termination by (relation "measure (\<lambda>(_, _, suf, _). length suf)") (auto dest: arg_cong [of _ _ length])

declare dotdot.simps [simp del]

lemma dotdot_shrinks:
  "dotdot before pre suf changed = Inr (pre', Some suf', changed') \<Longrightarrow>
     (suf' = suf \<and> pre' = pre \<and> changed' = changed) \<or> (changed' \<and> length suf' < length suf)"
proof (induction before pre suf changed rule: dotdot.induct)
  case (1 before pre suf changed)
  show ?case
  proof (cases "take 3 suf = [dot, dot, slash] \<and> rev (dropWhile (\<lambda>c. c \<noteq> slash) (rev pre)) \<noteq> [] \<and> pre \<noteq> []")
    case True
    then have l: "3 \<le> length suf" "suf \<noteq> [dot, dot]" by (auto dest: arg_cong [of _ _ length])
    let ?p = "rev (dropWhile (\<lambda>c. c \<noteq> slash) (rev pre))"
    have "dotdot before (butlast ?p) (drop 3 suf) True = Inr (pre', Some suf', changed')"
      using "1.prems" True l(2) by (auto simp: dotdot.simps [of before pre] Let_def butlast_rev split: if_splits)
    from "1.IH" [OF _ _ refl _ _ this] True l show ?thesis by auto
  next
    case False
    then show ?thesis using "1.prems" by (auto simp: dotdot.simps [of before pre] Let_def split: if_splits)
  qed
qed

lemma drop_dots_shrinks: "drop_dots s = s \<or> length (drop_dots s) < length s"
proof (induction s rule: drop_dots.induct)
  case (1 s)
  then show ?case by (cases "take 2 s = [dot, slash]") (auto simp: drop_dots.simps [of s] dest: arg_cong [of _ _ length])
qed

lemma round_shrinks:
  assumes "dotdot before pre (drop_dots (dropWhile (\<lambda>c. c = slash) suf)) (drop_dots (dropWhile (\<lambda>c. c = slash) suf) \<noteq> suf) = Inr (pre', Some s, True)"
  shows "length s < length suf"
proof -
  let ?s1 = "dropWhile (\<lambda>c. c = slash) suf"
  have "length (takeWhile (\<lambda>c. c = slash) suf) + length ?s1 = length suf"
    unfolding length_append [symmetric] takeWhile_dropWhile_id ..
  moreover have "takeWhile (\<lambda>c. c = slash) suf = [] \<Longrightarrow> ?s1 = suf" by (metis append_Nil takeWhile_dropWhile_id)
  ultimately have "?s1 = suf \<or> length ?s1 < length suf" by (cases "takeWhile (\<lambda>c. c = slash) suf") auto
  then show ?thesis using dotdot_shrinks [OF assms] drop_dots_shrinks [of ?s1] by auto
qed

function simplify_from :: "u8 \<Rightarrow> u8 list \<Rightarrow> u8 list \<Rightarrow> u8 list outcome" where
  "simplify_from before pre suf =
     (let s1 = dropWhile (\<lambda>c. c = slash) suf in
      if s1 = [] then Inr pre
      else
        let s2 = drop_dots s1 in
        if s2 = [dot] then Inr pre
        else
          rbind (dotdot before pre s2 (s2 \<noteq> suf)) (\<lambda>(pre, r, changed).
            case r of
              None \<Rightarrow> Inr pre
            | Some s \<Rightarrow>
                if changed then simplify_from before pre s
                else if slash \<in> set s then
                  simplify_from before (pre @ slash # takeWhile (\<lambda>c. c \<noteq> slash) s) (tl (dropWhile (\<lambda>c. c \<noteq> slash) s))
                else Inr (pre @ slash # s)))"
  by pat_completeness auto
termination
proof (relation "measure (\<lambda>(_, _, suf). length suf)", goal_cases)
  case (2 before pre suf s1 s2 x pre' y r changed s)
  then show ?case using round_shrinks by auto
next
  case (3 before pre suf s1 s2 x pre' y r changed s)
  then have "(s = s2 \<and> s2 = suf) \<or> length s < length s2" using dotdot_shrinks [of before pre s2 "s2 \<noteq> suf" pre' s changed] by auto
  moreover have "length s2 \<le> length suf"
    using 3(1,3) drop_dots_shrinks [of s1] length_dropWhile_le [of "\<lambda>c. c = slash" suf] by auto
  ultimately have "length s \<le> length suf" by auto
  moreover have "length (tl (dropWhile (\<lambda>c. c \<noteq> slash) s)) < length s"
    using 3(10) length_dropWhile_le [of "\<lambda>c. c \<noteq> slash" s] by (cases "dropWhile (\<lambda>c. c \<noteq> slash) s") (auto simp: dropWhile_eq_Nil_conv)
  ultimately show ?case by simp
qed simp

declare simplify_from.simps [simp del]

definition simplify_path :: "u8 \<Rightarrow> u8 list \<Rightarrow> u8 list outcome" where
  "simplify_path before path =
     (if slash \<in> set path then
        simplify_from before (takeWhile (\<lambda>c. c \<noteq> slash) path) (tl (dropWhile (\<lambda>c. c \<noteq> slash) path))
      else Inr path)"

text \<open>\<open>extract_path\<close>: \<open>None\<close> for the result false, otherwise the service and the path there. A relative path is tried again
  behind the working directory, which need not end.\<close>

definition names_service :: "u8 list \<Rightarrow> bool" where
  "names_service p \<longleftrightarrow>
     58 \<in> set p \<and> slash \<in> set p \<and> Suc (length (takeWhile (\<lambda>c. c \<noteq> 58) p)) = length (takeWhile (\<lambda>c. c \<noteq> slash) p)"

definition split_service :: "u8 \<Rightarrow> u8 list \<Rightarrow> (u8 list \<times> u8 list) option outcome" where
  "split_service before p =
     (let brackets = (hd p = 40);
          f = (if brackets then tl p else p);
          stop = (if brackets then 41 else 58);
          service = takeWhile (\<lambda>c. c \<noteq> stop) f;
          rest = dropWhile (\<lambda>c. c \<noteq> stop) f
      in
      if rest = [] then Inr None
      else
        let rest = tl rest in
        if \<not> brackets \<and> (rest = [] \<or> hd rest \<noteq> slash) then Inr None
        else
          let rest = (if brackets then rest else tl rest) in
          if rest \<noteq> [] \<and> hd rest \<noteq> slash then Inr None
          else rbind (simplify_path before rest) (\<lambda>r. Inr (Some (service, r))))"

partial_function (option) extract_path ::
    "u8 \<Rightarrow> u8 list option \<Rightarrow> u8 list \<Rightarrow> (u8 list \<times> u8 list) option outcome option" where
  "extract_path before cwd p =
     (if p = [] then Some (Inr None)
      else if hd p = slash then Some (rbind (simplify_path before p) (\<lambda>r. Inr (Some ([114, 111, 111, 116], r))))
      else if hd p \<noteq> 40 \<and> \<not> names_service p then
        (case cwd of None \<Rightarrow> Some (Inr None) | Some d \<Rightarrow> extract_path before cwd (d @ slash # p))
      else Some (split_service before p))"

section \<open>Components\<close>

text \<open>The reference: a path is the list of its components. Empty ones and \<open>.\<close> are skipped, \<open>..\<close> removes the component
  before it, if there is one.\<close>

function components :: "u8 list \<Rightarrow> u8 list list" where
  "components s =
     (if slash \<in> set s then takeWhile (\<lambda>c. c \<noteq> slash) s # components (tl (dropWhile (\<lambda>c. c \<noteq> slash) s)) else [s])"
  by pat_completeness auto
termination
proof (relation "measure length", goal_cases)
  case (2 s)
  then show ?case using length_dropWhile_le [of "\<lambda>c. c \<noteq> slash" s]
    by (cases "dropWhile (\<lambda>c. c \<noteq> slash) s") (auto simp: dropWhile_eq_Nil_conv)
qed simp

declare components.simps [simp del]

definition enter :: "u8 list list \<Rightarrow> u8 list \<Rightarrow> u8 list list" where
  "enter st c = (if c = [] \<or> c = [dot] then st else if c = [dot, dot] \<and> st \<noteq> [] then butlast st else st @ [c])"

definition join_path :: "u8 list list \<Rightarrow> u8 list" where
  "join_path st = concat (map ((#) slash) st)"

definition resolve :: "u8 list list \<Rightarrow> u8 list \<Rightarrow> u8 list list" where
  "resolve st s = foldl enter st (components s)"

lemma components_slash: "components (slash # s) = [] # components s"
  by (simp add: components.simps [of "slash # s"])

lemma components_append: "slash \<notin> set c \<Longrightarrow> components (c @ slash # s) = c # components s"
  by (subst components.simps) (simp add: takeWhile_append dropWhile_append)

lemma components_plain: "slash \<notin> set c \<Longrightarrow> components c = [c]"
  by (subst components.simps) simp

lemma resolve_simps:
  "slash \<notin> set c \<Longrightarrow> resolve st (c @ slash # s) = resolve (enter st c) s"
  "slash \<notin> set c \<Longrightarrow> resolve st c = enter st c"
  "resolve st (slash # s) = resolve st s"
  by (simp_all add: resolve_def components_append components_plain components_slash enter_def)

lemma resolve_dots:
  "resolve st (dot # slash # s) = resolve st s"
  "resolve st (dot # dot # slash # s) = resolve (enter st [dot, dot]) s"
  using resolve_simps(1) [of "[dot]" st s] resolve_simps(1) [of "[dot, dot]" st s] by (simp_all add: enter_def)

lemma resolve_dropWhile: "resolve st (dropWhile (\<lambda>c. c = slash) s) = resolve st s"
  by (induction s) (simp_all add: resolve_simps)

lemma resolve_drop_dots: "resolve st (drop_dots s) = resolve st s"
proof (induction s rule: drop_dots.induct)
  case (1 s)
  show ?case
  proof (cases "take 2 s = [dot, slash]")
    case True
    then have "s = dot # slash # drop 2 s" by (metis append_Cons append_Nil append_take_drop_id)
    then have "resolve st s = resolve st (drop 2 s)" by (metis resolve_dots(1))
    then show ?thesis using 1 True by (simp add: drop_dots.simps [of s])
  qed (simp add: drop_dots.simps [of s])
qed

subsection \<open>The loops follow the components\<close>

definition plain :: "u8 list list \<Rightarrow> bool" where
  "plain st \<longleftrightarrow> (\<forall>c \<in> set st. slash \<notin> set c)"

lemma join_path_last:
  assumes "plain st" "st \<noteq> []"
  shows "rev (dropWhile (\<lambda>c. c \<noteq> slash) (rev (join_path st))) = join_path (butlast st) @ [slash]" "join_path st \<noteq> []"
proof -
  obtain ys c where st: "st = ys @ [c]" using assms(2) by (cases st rule: rev_cases) auto
  have "slash \<notin> set c" using assms(1) by (simp add: plain_def st)
  then show "rev (dropWhile (\<lambda>c. c \<noteq> slash) (rev (join_path st))) = join_path (butlast st) @ [slash]" "join_path st \<noteq> []"
    by (auto simp: st join_path_def dropWhile_append)
qed

lemma plain_butlast: "plain st \<Longrightarrow> plain (butlast st)"
  by (auto simp: plain_def dest: in_set_butlastD)

lemma dotdot_resolve:
  assumes "before \<noteq> slash" "plain st"
  shows "\<exists>st' r changed'. dotdot before (join_path st) s changed = Inr (join_path st', r, changed') \<and> plain st' \<and>
    (case r of None \<Rightarrow> resolve st s = st'
     | Some s' \<Rightarrow> resolve st s = resolve st' s' \<and> (st' \<noteq> [] \<longrightarrow> take 3 s' \<noteq> [dot, dot, slash] \<and> s' \<noteq> [dot, dot]))"
  using assms(2)
proof (induction s arbitrary: st changed rule: length_induct)
  case (1 s)
  note prems = "1.prems" and IH = "1.IH"
  show ?case
  proof (cases "st \<noteq> [] \<and> (take 3 s = [dot, dot, slash] \<or> s = [dot, dot])")
    case False
    then have "dotdot before (join_path st) s changed = Inr (join_path st, Some s, changed)"
      using assms(1) by (auto simp: dotdot.simps [of before] join_path_def)
    then show ?thesis using prems False by (intro exI [of _ st] exI [of _ "Some s"] exI [of _ changed]) auto
  next
    case True
    note j = join_path_last [OF prems conjunct1 [OF True]]
    have up: "enter st [dot, dot] = butlast st" using True by (simp add: enter_def)
    show ?thesis
    proof (cases "s = [dot, dot]")
      case s: True
      have "dotdot before (join_path st) s changed = Inr (join_path (butlast st), None, True)"
        using j by (simp add: dotdot.simps [of before] s Let_def)
      moreover have "resolve st s = butlast st" using up by (simp add: s resolve_simps(2))
      ultimately show ?thesis using plain_butlast [OF prems] by auto
    next
      case False
      then have s: "take 3 s = [dot, dot, slash]" using True by blast
      then have eq: "s = dot # dot # slash # drop 3 s" by (metis append_Cons append_Nil append_take_drop_id)
      then have less: "length (drop 3 s) < length s" by (metis length_Cons length_drop less_SucI lessI)
      have d: "dotdot before (join_path st) s changed = dotdot before (join_path (butlast st)) (drop 3 s) True"
        using j s False by (subst dotdot.simps) (simp add: Let_def)
      have r: "resolve st s = resolve (butlast st) (drop 3 s)" using up resolve_dots(2) eq by metis
      show ?thesis unfolding d r by (rule IH [rule_format, OF less plain_butlast [OF prems]])
    qed
  qed
qed

lemma drop_dots_id: "drop_dots s = s \<Longrightarrow> take 2 s \<noteq> [dot, slash]"
proof
  assume *: "drop_dots s = s" "take 2 s = [dot, slash]"
  have "2 \<le> length s" using arg_cong [OF *(2), of length] by simp
  moreover have "length (drop_dots (drop 2 s)) = length s" using * drop_dots.simps [of s] by simp
  ultimately show False using drop_dots_shrinks [of "drop 2 s"] by auto
qed

lemma split_slash:
  assumes "slash \<in> set s"
  shows "s = takeWhile (\<lambda>c. c \<noteq> slash) s @ slash # tl (dropWhile (\<lambda>c. c \<noteq> slash) s)" "slash \<notin> set (takeWhile (\<lambda>c. c \<noteq> slash) s)"
proof -
  have "dropWhile (\<lambda>c. c \<noteq> slash) s = slash # tl (dropWhile (\<lambda>c. c \<noteq> slash) s)"
    using assms hd_dropWhile [of "\<lambda>c. c \<noteq> slash" s] by (cases "dropWhile (\<lambda>c. c \<noteq> slash) s") (auto simp: dropWhile_eq_Nil_conv)
  then show "s = takeWhile (\<lambda>c. c \<noteq> slash) s @ slash # tl (dropWhile (\<lambda>c. c \<noteq> slash) s)" by (metis takeWhile_dropWhile_id)
  show "slash \<notin> set (takeWhile (\<lambda>c. c \<noteq> slash) s)" by (auto dest: set_takeWhileD)
qed

lemma enter_new:
  assumes "hd s \<noteq> slash" "take 2 s \<noteq> [dot, slash]" "st \<noteq> [] \<Longrightarrow> take 3 s \<noteq> [dot, dot, slash] \<and> s \<noteq> [dot, dot]"
    and "s = c @ slash # r"
  shows "enter st c = st @ [c]"
  using assms by (auto simp: enter_def)

lemma simplify_from_resolve:
  assumes "before \<noteq> slash" "plain st"
  shows "simplify_from before (join_path st) s = Inr (join_path (resolve st s))"
  using assms(2)
proof (induction s arbitrary: st rule: length_induct)
  case (1 s)
  note prems = "1.prems" and IH = "1.IH" [rule_format]
  let ?s1 = "dropWhile (\<lambda>c. c = slash) s"
  let ?s2 = "drop_dots ?s1"
  have res: "resolve st ?s2 = resolve st s" by (simp add: resolve_drop_dots resolve_dropWhile)
  consider "?s1 = []" | "?s1 \<noteq> []" "?s2 = [dot]" | "?s1 \<noteq> []" "?s2 \<noteq> [dot]" by blast
  then show ?case
  proof cases
    case 1
    have "resolve st [] = st" by (simp add: resolve_simps(2) enter_def)
    then have "resolve st s = st" using resolve_dropWhile [of st s] unfolding 1 by simp
    then show ?thesis using 1 by (simp add: simplify_from.simps [of before])
  next
    case 2
    have "resolve st [dot] = st" by (simp add: resolve_simps(2) enter_def)
    then show ?thesis using 2 res by (simp add: simplify_from.simps [of before])
  next
    case 3
    obtain st' r changed where d: "dotdot before (join_path st) ?s2 (?s2 \<noteq> s) = Inr (join_path st', r, changed)" "plain st'"
      "case r of None \<Rightarrow> resolve st ?s2 = st'
       | Some s' \<Rightarrow> resolve st ?s2 = resolve st' s' \<and> (st' \<noteq> [] \<longrightarrow> take 3 s' \<noteq> [dot, dot, slash] \<and> s' \<noteq> [dot, dot])"
      using dotdot_resolve [OF assms(1) prems] by blast
    show ?thesis
    proof (cases r)
      case None
      then show ?thesis using 3 d res by (auto simp: simplify_from.simps [of before])
    next
      case (Some s')
      show ?thesis
      proof (cases changed)
        case True
        have "length s' < length s" by (rule round_shrinks [of before "join_path st" _ "join_path st'"]) (use d(1) Some True in simp)
        from IH [OF this d(2)] show ?thesis using 3 d res Some True by (auto simp: simplify_from.simps [of before "join_path st"])
      next
        case False
        then have same: "s' = s" "?s2 = s"
          using dotdot_shrinks [of before "join_path st" ?s2 "?s2 \<noteq> s" "join_path st'" s' changed] d(1) Some by auto
        have "length ?s2 \<le> length ?s1" using drop_dots_shrinks [of ?s1] by auto
        then have s1: "?s1 = s" using same(2) length_dropWhile_le [of "\<lambda>c. c = slash" s] drop_dots_shrinks [of ?s1]
          by (metis le_antisym nat_less_le)
        have "drop_dots s = s" using same(2) unfolding s1 .
        then have no: "s \<noteq> []" "hd s \<noteq> slash" "take 2 s \<noteq> [dot, slash]" "s \<noteq> [dot]"
          "st' \<noteq> [] \<Longrightarrow> take 3 s \<noteq> [dot, dot, slash] \<and> s \<noteq> [dot, dot]" "resolve st s = resolve st' s"
          using 3 s1 same d(3) Some res drop_dots_id [of s] by (auto simp: dropWhile_eq_self_iff)
        have step: "simplify_from before (join_path st) s =
            (if slash \<in> set s then simplify_from before (join_path st' @ slash # takeWhile (\<lambda>c. c \<noteq> slash) s) (tl (dropWhile (\<lambda>c. c \<noteq> slash) s))
             else Inr (join_path st' @ slash # s))"
        proof -
          have "dotdot before (join_path st) ?s2 (?s2 \<noteq> s) = Inr (join_path st', Some s, False)"
            using d(1) Some False same(1) by simp
          then show ?thesis
            by (subst simplify_from.simps) (simp only: Let_def 3 if_False rbind_simps prod.case option.case)
        qed
        show ?thesis
        proof (cases "slash \<in> set s")
          case True
          let ?c = "takeWhile (\<lambda>c. c \<noteq> slash) s" and ?r = "tl (dropWhile (\<lambda>c. c \<noteq> slash) s)"
          have s: "s = ?c @ slash # ?r" "slash \<notin> set ?c" by (rule split_slash [OF True])+
          have "enter st' ?c = st' @ [?c]" using no(2,3,5) s(1) by (rule enter_new)
          moreover have "plain (st' @ [?c])" using d(2) s(2) by (simp add: plain_def)
          moreover have "length ?r < length s" by (subst (2) s(1)) simp
          ultimately show ?thesis
            using step True IH [of ?r "st' @ [?c]"] resolve_simps(1) [OF s(2), of st' ?r] s(1) no(6)
            by (simp add: join_path_def)
        next
          case False
          then have "resolve st' s = st' @ [s]" using no by (auto simp: resolve_simps(2) enter_def)
          then show ?thesis using step False no(6) by (simp add: join_path_def)
        qed
      qed
    qed
  qed
qed

lemma simplify_path_spec:
  assumes "before \<noteq> slash"
  shows "simplify_path before (slash # s) = Inr (join_path (foldl enter [] (components s)))"
  using simplify_from_resolve [OF assms, of "[]" s] by (simp add: simplify_path_def plain_def resolve_def join_path_def)

text \<open>C28: Simplifying the path of a file in place gives, for every path that starts with a slash, the path of the
  components that remain when empty ones and \<open>.\<close> are skipped and \<open>..\<close> takes back the component before it; the
  function returns on every such path and the result is never longer than the path, so that it fits in place.\<close>

theorem simplify_path_correct:
  assumes "before \<noteq> slash"
  shows "simplify_path before (slash # s) = Inr (join_path (foldl enter [] (components s))) \<and>
    length (join_path (foldl enter [] (components s))) \<le> length (slash # s)"
proof -
  have "length (join_path (foldl enter st cs)) \<le> length (join_path st) + length (join_path cs)" for st cs
  proof (induction cs arbitrary: st)
    case (Cons c cs)
    have "length (join_path (enter st c)) \<le> length (join_path st) + Suc (length c)"
      by (cases st rule: rev_cases) (auto simp: enter_def join_path_def)
    then show ?case using Cons [of "enter st c"] by (simp add: join_path_def)
  qed (simp add: join_path_def)
  moreover have "length (join_path (components s)) = Suc (length s)"
  proof (induction s rule: components.induct)
    case (1 s)
    show ?case
    proof (cases "slash \<in> set s")
      case True
      note * = split_slash [OF True]
      have "length s = length (takeWhile (\<lambda>c. c \<noteq> slash) s) + Suc (length (tl (dropWhile (\<lambda>c. c \<noteq> slash) s)))"
        by (subst *(1)) simp
      then show ?thesis using 1 True by (simp add: components.simps [of s] join_path_def)
    qed (simp add: components.simps [of s] join_path_def)
  qed
  ultimately have "length (join_path (foldl enter [] (components s))) \<le> length (slash # s)"
    by (metis add_0 concat.simps(1) join_path_def length_Cons list.map(1) list.size(3))
  then show ?thesis using simplify_path_spec [OF assms] by simp
qed

text \<open>\<open>/a/./b/../c//\<close> is \<open>/a/c\<close>.\<close>

theorem simplify_path_correct_witness:
  "simplify_path 0 [47, 97, 47, 46, 47, 98, 47, 46, 46, 47, 99, 47, 47] = Inr [47, 97, 47, 99]"
  using simplify_path_correct [of 0 "[97, 47, 46, 47, 98, 47, 46, 46, 47, 99, 47, 47]"]
  by (simp add: components.simps enter_def join_path_def)

text \<open>A working directory that names its service itself, which is what \<open>chdir\<close> accepts, makes every path end after one
  more try; with any other one \<open>extract_path\<close> calls itself for ever.\<close>

definition absolute :: "u8 list \<Rightarrow> bool" where
  "absolute p \<longleftrightarrow> p \<noteq> [] \<and> (hd p = slash \<or> hd p = 40 \<or> names_service p)"

lemma absolute_append: "absolute p \<Longrightarrow> absolute (p @ q)"
  by (auto simp: absolute_def names_service_def)

lemma extract_path_absolute:
  assumes "absolute p"
  shows "extract_path before cwd p = extract_path before None p" "extract_path before None p \<noteq> None"
  using assms by (auto simp: absolute_def extract_path.simps [of before cwd] extract_path.simps [of before None])

lemma extract_path_total:
  assumes "absolute d"
  shows "\<exists>r. extract_path before (Some d) p = Some r"
proof (cases "p = [] \<or> absolute p")
  case True
  then show ?thesis using extract_path_absolute(1) [of p before "Some d"] extract_path_absolute(2) [of p before] by (auto simp: extract_path.simps [of before "Some d" "[]"])
next
  case False
  then have "extract_path before (Some d) p = extract_path before (Some d) (d @ slash # p)"
    by (auto simp: absolute_def extract_path.simps [of before "Some d" p])
  then show ?thesis using extract_path_absolute(1) [of "d @ slash # p" before "Some d"]
      extract_path_absolute(2) [of "d @ slash # p" before] absolute_append [OF assms] by auto
qed

end
