(* ===== verification/Vfs.thy ===== *)
theory Vfs
  imports Paths Eth
begin

text \<open>
  The client side of the virtual file system (\<open>src/lib/common/vfs/\<close>) and the server side (\<open>src/lib/common/vfs-service/\<close>)
  with the IPC between them: a call packs its arguments into a message, the kernel starts a popup thread in the
  server, the trampoline calls the handler for the number of the function, and the handler unpacks the message
  and calls the service. What the server does is a record of functions on the state of the servers; a client is
  its table of pipes and its working directory. Shared memory is the list of the bytes from the address that
  \<open>shm_open\<close> returns on. The contents of fresh memory are a parameter.
\<close>

section \<open>Definitions\<close>

record 's vfs_server =
  sv_create_pipe :: "u8 list \<Rightarrow> u32 \<Rightarrow> 's \<Rightarrow> (u32 \<times> 's) outcome"
  sv_destroy_pipe :: "u32 \<Rightarrow> u32 \<Rightarrow> 's \<Rightarrow> 's outcome"
  sv_duplicate_pipe :: "u32 \<Rightarrow> 's \<Rightarrow> (u32 \<times> 's) outcome"
  sv_stream_send :: "u32 \<Rightarrow> u8 list \<Rightarrow> u32 \<Rightarrow> 's \<Rightarrow> (u64 \<times> 's) outcome"
  sv_stream_recv :: "u32 \<Rightarrow> u8 list \<Rightarrow> u32 \<Rightarrow> 's \<Rightarrow> (u64 \<times> u8 list \<times> 's) outcome"
  sv_pipe_get_flag :: "u32 \<Rightarrow> u32 \<Rightarrow> 's \<Rightarrow> u64 outcome"
  sv_pipe_set_flag :: "u32 \<Rightarrow> u32 \<Rightarrow> u64 \<Rightarrow> 's \<Rightarrow> (u32 \<times> 's) outcome"
  sv_pipe_implements :: "u32 \<Rightarrow> u32 \<Rightarrow> 's \<Rightarrow> bool outcome"
  sv_is_symlink :: "u8 list \<Rightarrow> 's \<Rightarrow> u8 list option"

text \<open>The weak definitions: what a server that defines nothing does.\<close>

definition default_server :: "'s vfs_server" where
  "default_server =
     \<lparr>sv_create_pipe = (\<lambda>_ _ s. Inr (0, s)), sv_destroy_pipe = (\<lambda>_ _ s. Inr s), sv_duplicate_pipe = (\<lambda>_ s. Inr (0, s)),
      sv_stream_send = (\<lambda>_ _ _ s. Inr (0, s)), sv_stream_recv = (\<lambda>_ buf _ s. Inr (0, buf, s)),
      sv_pipe_get_flag = (\<lambda>_ _ _. Inr 0), sv_pipe_set_flag = (\<lambda>_ _ _ s. Inr (- 134, s)),
      sv_pipe_implements = (\<lambda>_ _ _. Inr False), sv_is_symlink = (\<lambda>_ _. None)\<rparr>"

datatype vfs_function =
    CREATE_PIPE | DESTROY_PIPE | DUPLICATE_PIPE | STREAM_SEND | STREAM_RECV | STREAM_SEND_MSG | STREAM_RECV_MSG
  | PIPE_GET_FLAG | PIPE_SET_FLAG | PIPE_IMPLEMENTS | IS_SYMLINK

record 's vfs_system =
  sys_server :: "int \<Rightarrow> 's vfs_server option"
  sys_daemon :: "u8 list \<Rightarrow> int"
  sys_fresh :: "nat \<Rightarrow> u8 list"

record client =
  pipes :: "(int \<times> u32) list"
  cwd :: "u8 list option"

definition MFILE :: nat where "MFILE = 32"
definition O_NOFOLLOW :: u32 where "O_NOFOLLOW = 0x40"

subsection \<open>The server\<close>

definition c_string :: "u8 list \<Rightarrow> u8 list outcome" where
  "c_string b = (if 0 \<in> set b then Inr (takeWhile (\<lambda>c. c \<noteq> 0) b) else Inl OutOfBounds)"

definition vfs_create_pipe :: "'s vfs_server \<Rightarrow> u8 list \<Rightarrow> 's \<Rightarrow> (u64 \<times> 's) outcome" where
  "vfs_create_pipe srv msg s =
     rbind (kassert (4 < length msg)) (\<lambda>_.
     rbind (c_string (drop 4 msg)) (\<lambda>relpath.
     rbind (sv_create_pipe srv relpath (take32 msg 0) s) (\<lambda>(r, s). Inr (ucast r, s))))"

definition vfs_destroy_pipe :: "'s vfs_server \<Rightarrow> u8 list \<Rightarrow> 's \<Rightarrow> (u64 \<times> 's) outcome" where
  "vfs_destroy_pipe srv msg s =
     rbind (kassert (length msg = 8)) (\<lambda>_.
     rbind (sv_destroy_pipe srv (take32 msg 0) (take32 msg 4) s) (\<lambda>s. Inr (0, s)))"

definition vfs_duplicate_pipe :: "'s vfs_server \<Rightarrow> u8 list \<Rightarrow> 's \<Rightarrow> (u64 \<times> 's) outcome" where
  "vfs_duplicate_pipe srv msg s =
     rbind (kassert (length msg = 4)) (\<lambda>_.
     rbind (sv_duplicate_pipe srv (take32 msg 0) s) (\<lambda>(r, s). Inr (ucast r, s)))"

definition vfs_stream_send :: "'s vfs_server \<Rightarrow> u8 list \<Rightarrow> u8 list \<Rightarrow> 's \<Rightarrow> (u64 \<times> 's) outcome" where
  "vfs_stream_send srv msg shm s =
     rbind (kassert (length msg = 16)) (\<lambda>_.
       let size = unat (take64 msg 8) in
       if length shm < size then Inl OutOfBounds
       else sv_stream_send srv (take32 msg 0) (take size shm) (take32 msg 4) s)"

definition vfs_stream_send_msg :: "'s vfs_server \<Rightarrow> u8 list \<Rightarrow> 's \<Rightarrow> (u64 \<times> 's) outcome" where
  "vfs_stream_send_msg srv msg s =
     rbind (kassert (16 \<le> length msg)) (\<lambda>_.
     rbind (kassert (unat (take64 msg 8) = length msg - 16)) (\<lambda>_.
       sv_stream_send srv (take32 msg 0) (drop 16 msg) (take32 msg 4) s))"

definition vfs_stream_recv :: "'s vfs_server \<Rightarrow> u8 list \<Rightarrow> u8 list \<Rightarrow> 's \<Rightarrow> (u64 \<times> u8 list \<times> 's) outcome" where
  "vfs_stream_recv srv msg shm s =
     rbind (kassert (length msg = 16)) (\<lambda>_.
       let size = unat (take64 msg 8) in
       if length shm < size then Inl OutOfBounds
       else rbind (sv_stream_recv srv (take32 msg 0) (take size shm) (take32 msg 4) s) (\<lambda>(r, buf, s).
              Inr (r, buf @ drop size shm, s)))"

text \<open>The handler for short answers: the second component is the answer left for the client.\<close>

definition vfs_stream_recv_msg :: "(nat \<Rightarrow> u8 list) \<Rightarrow> 's vfs_server \<Rightarrow> u8 list \<Rightarrow> 's \<Rightarrow> (u64 \<times> u8 list \<times> 's) outcome" where
  "vfs_stream_recv_msg fresh srv msg s =
     rbind (kassert (length msg = 16)) (\<lambda>_.
     rbind (sv_stream_recv srv (take32 msg 0) (fresh (unat (take64 msg 8))) (take32 msg 4) s) (\<lambda>(r, buf, s).
       if length buf < unat r then Inl OutOfBounds else Inr (r, take (unat r) buf, s)))"

definition vfs_pipe_get_flag :: "'s vfs_server \<Rightarrow> u8 list \<Rightarrow> 's \<Rightarrow> u64 outcome" where
  "vfs_pipe_get_flag srv msg s =
     rbind (kassert (length msg = 8)) (\<lambda>_. sv_pipe_get_flag srv (take32 msg 0) (take32 msg 4) s)"

definition vfs_pipe_set_flag :: "'s vfs_server \<Rightarrow> u8 list \<Rightarrow> 's \<Rightarrow> (u64 \<times> 's) outcome" where
  "vfs_pipe_set_flag srv msg s =
     rbind (kassert (length msg = 16)) (\<lambda>_.
     rbind (sv_pipe_set_flag srv (take32 msg 0) (take32 msg 4) (take64 msg 8) s) (\<lambda>(r, s). Inr (scast r, s)))"

definition vfs_pipe_implements :: "'s vfs_server \<Rightarrow> u8 list \<Rightarrow> 's \<Rightarrow> u64 outcome" where
  "vfs_pipe_implements srv msg s =
     rbind (kassert (length msg = 8)) (\<lambda>_.
     rbind (sv_pipe_implements srv (take32 msg 0) (take32 msg 4) s) (\<lambda>b. Inr (if b then 1 else 0)))"

text \<open>The link is written into the shared memory with its terminating zero.\<close>

definition vfs_is_symlink :: "'s vfs_server \<Rightarrow> u8 list \<Rightarrow> u8 list \<Rightarrow> 's \<Rightarrow> (u64 \<times> u8 list) outcome" where
  "vfs_is_symlink srv msg shm s =
     rbind (c_string msg) (\<lambda>path.
       case sv_is_symlink srv path s of
         None \<Rightarrow> Inr (0, shm)
       | Some link \<Rightarrow> if length shm \<le> length link then Inl OutOfBounds else Inr (1, link @ [0] @ drop (Suc (length link)) shm))"

text \<open>\<open>_popup_trampoline\<close> with the table of \<open>_provide_vfs_services\<close>: the result, the answer, the shared memory and the
  state of the servers.\<close>

definition popup_trampoline ::
    "(nat \<Rightarrow> u8 list) \<Rightarrow> 's vfs_server \<Rightarrow> vfs_function \<Rightarrow> u8 list \<Rightarrow> u8 list \<Rightarrow> 's \<Rightarrow> (u64 \<times> u8 list option \<times> u8 list \<times> 's) outcome" where
  "popup_trampoline fresh srv func msg shm s =
     (let plain = (\<lambda>(r, s). Inr (r, None, shm, s)); pure = (\<lambda>r. Inr (r, None, shm, s)) in
      case func of
        CREATE_PIPE \<Rightarrow> rbind (vfs_create_pipe srv msg s) plain
      | DESTROY_PIPE \<Rightarrow> rbind (vfs_destroy_pipe srv msg s) plain
      | DUPLICATE_PIPE \<Rightarrow> rbind (vfs_duplicate_pipe srv msg s) plain
      | STREAM_SEND \<Rightarrow> rbind (vfs_stream_send srv msg shm s) plain
      | STREAM_RECV \<Rightarrow> rbind (vfs_stream_recv srv msg shm s) (\<lambda>(r, shm, s). Inr (r, None, shm, s))
      | STREAM_SEND_MSG \<Rightarrow> rbind (vfs_stream_send_msg srv msg s) plain
      | STREAM_RECV_MSG \<Rightarrow> rbind (vfs_stream_recv_msg fresh srv msg s) (\<lambda>(r, ans, s). Inr (r, Some ans, shm, s))
      | PIPE_GET_FLAG \<Rightarrow> rbind (vfs_pipe_get_flag srv msg s) pure
      | PIPE_SET_FLAG \<Rightarrow> rbind (vfs_pipe_set_flag srv msg s) plain
      | PIPE_IMPLEMENTS \<Rightarrow> rbind (vfs_pipe_implements srv msg s) pure
      | IS_SYMLINK \<Rightarrow> rbind (vfs_is_symlink srv msg shm s) (\<lambda>(r, shm). Inr (r, None, shm, s)))"

text \<open>\<open>ipc_shm_message_request\<close>: without a process of that number the result is 0.\<close>

definition ipc_request ::
    "'s vfs_system \<Rightarrow> int \<Rightarrow> vfs_function \<Rightarrow> u8 list \<Rightarrow> u8 list \<Rightarrow> 's \<Rightarrow> (u64 \<times> u8 list option \<times> u8 list \<times> 's) outcome" where
  "ipc_request sys pid func msg shm s =
     (case sys_server sys pid of
        None \<Rightarrow> Inr (0, None, shm, s)
      | Some srv \<Rightarrow> popup_trampoline (sys_fresh sys) srv func msg shm s)"

subsection \<open>The table of pipes\<close>

definition pipe_at :: "client \<Rightarrow> int \<Rightarrow> (int \<times> u32) option" where
  "pipe_at c p = (if 0 \<le> p \<and> p < int MFILE \<and> fst (pipes c ! nat p) \<noteq> 0 then Some (pipes c ! nat p) else None)"

text \<open>The search for a free entry, from the index \<open>i\<close> on.\<close>

fun free_pipe :: "nat \<Rightarrow> (int \<times> u32) list \<Rightarrow> nat option" where
  "free_pipe i [] = None"
| "free_pipe i (p # ps) = (if i = 0 \<and> fst p = 0 then Some 0 else map_option Suc (free_pipe (i - 1) ps))"

fun find_pipe :: "int \<Rightarrow> u32 \<Rightarrow> (int \<times> u32) list \<Rightarrow> nat option" where
  "find_pipe pid i [] = None"
| "find_pipe pid i (p # ps) = (if p = (pid, i) then Some 0 else map_option Suc (find_pipe pid i ps))"

definition set_pipe :: "nat \<Rightarrow> int \<times> u32 \<Rightarrow> client \<Rightarrow> client" where
  "set_pipe i p c = c\<lparr>pipes := (pipes c)[i := p]\<rparr>"

text \<open>\<open>create_pipe\<close> up to a symbolic link: \<open>Inl\<close> is the path it leads to. \<open>None\<close> means that \<open>extract_path\<close> does not
  return. The name of the service is written into an array with room for the length of the path, at least 4.\<close>

definition open_pipe ::
    "'s vfs_system \<Rightarrow> u8 list \<Rightarrow> u32 \<Rightarrow> client \<Rightarrow> 's \<Rightarrow> ((u8 list + (net_errno option + nat)) \<times> client \<times> 's) outcome option" where
  "open_pipe sys path flags c s =
     (case free_pipe 0 (pipes c) of
        None \<Rightarrow> Some (Inr (Inr (Inl (Some EMFILE)), c, s))
      | Some i \<Rightarrow>
          map_option (\<lambda>r. rbind r (\<lambda>sp.
            let old = snd (pipes c ! i) in
            case sp of
              None \<Rightarrow> Inr (Inr (Inl (Some EINVAL)), set_pipe i (0, old) c, s)
            | Some (service, relpath) \<Rightarrow>
                if max (length path) 4 < length service then Inl OutOfBounds
                else if sys_daemon sys service < 0 then Inr (Inr (Inl (Some ESRCH)), set_pipe i (0, old) c, s)
                else
                  let pid = sys_daemon sys service in
                  rbind (if flags AND O_NOFOLLOW = 0
                         then rbind (ipc_request sys pid IS_SYMLINK (relpath @ [0]) (sys_fresh sys 4096) s) (\<lambda>(r, _, shm, s).
                                if r \<noteq> 0 then rbind (c_string shm) (\<lambda>l. Inr (Some l, s)) else Inr (None, s))
                         else Inr (None, s)) (\<lambda>(link, s).
                    case link of
                      Some l \<Rightarrow> Inr (Inl l, set_pipe i (0, old) c, s)
                    | None \<Rightarrow>
                        rbind (ipc_request sys pid CREATE_PIPE (put32 flags @ relpath @ [0]) [] s) (\<lambda>(r, _, _, s).
                          if (ucast r :: u32) = 0 then Inr (Inr (Inl None), set_pipe i (0, 0) c, s)
                          else Inr (Inr (Inr i), set_pipe i (pid, ucast r) c, s)))))
            (extract_path (word_byte flags 3) (cwd c) path))"

text \<open>\<open>create_pipe\<close>: links are followed without a limit.\<close>

partial_function (option) create_pipe ::
    "'s vfs_system \<Rightarrow> u8 list \<Rightarrow> u32 \<Rightarrow> client \<Rightarrow> 's \<Rightarrow> ((net_errno option + nat) \<times> client \<times> 's) outcome option" where
  "create_pipe sys path flags c s =
     (case open_pipe sys path flags c s of
        None \<Rightarrow> None
      | Some (Inl e) \<Rightarrow> Some (Inl e)
      | Some (Inr (Inl l, c, s)) \<Rightarrow> create_pipe sys l flags c s
      | Some (Inr (Inr r, c, s)) \<Rightarrow> Some (Inr (r, c, s)))"

definition destroy_pipe :: "'s vfs_system \<Rightarrow> int \<Rightarrow> u32 \<Rightarrow> client \<Rightarrow> 's \<Rightarrow> ((net_errno + unit) \<times> client \<times> 's) outcome" where
  "destroy_pipe sys p flags c s =
     (if p < 0 \<or> int MFILE \<le> p then Inr (Inl EBADF, c, s)
      else
        let (pid, i) = pipes c ! nat p; c1 = set_pipe (nat p) (0, i) c in
        if pid = 0 then Inr (Inr (), c1, s)
        else rbind (ipc_request sys pid DESTROY_PIPE (put32 i @ put32 flags) [] s) (\<lambda>(_, _, _, s). Inr (Inr (), c1, s)))"

definition duplicate_pipe ::
    "'s vfs_system \<Rightarrow> int \<Rightarrow> nat \<Rightarrow> client \<Rightarrow> 's \<Rightarrow> ((net_errno option + nat) \<times> client \<times> 's) outcome" where
  "duplicate_pipe sys p dest c s =
     (case pipe_at c p of
        None \<Rightarrow> Inr (Inl (Some EBADF), c, s)
      | Some (pid, i) \<Rightarrow>
          (case free_pipe dest (pipes c) of
             None \<Rightarrow> Inr (Inl (Some EMFILE), c, s)
           | Some k \<Rightarrow>
               rbind (ipc_request sys pid DUPLICATE_PIPE (put32 i) [] s) (\<lambda>(r, _, _, s).
                 if (ucast r :: u32) = 0 then Inr (Inl None, set_pipe k (0, 0) c, s)
                 else Inr (Inr k, set_pipe k (pid, ucast r) c, s))))"

definition duplicate_entry :: "'s vfs_system \<Rightarrow> client \<times> 's \<Rightarrow> nat \<Rightarrow> (client \<times> 's) outcome" where
  "duplicate_entry sys cs k =
     (let (c, s) = cs; (pid, i) = pipes c ! k in
      if pid = 0 then Inr (c, s)
      else rbind (ipc_request sys pid DUPLICATE_PIPE (put32 i) [] s) (\<lambda>(r, _, _, s).
             rbind (kassert ((ucast r :: u32) \<noteq> 0)) (\<lambda>_. Inr (set_pipe k (pid, ucast r) c, s))))"

definition duplicate_all_pipes :: "'s vfs_system \<Rightarrow> client \<Rightarrow> 's \<Rightarrow> (client \<times> 's) outcome" where
  "duplicate_all_pipes sys c s = rfold (duplicate_entry sys) (c, s) [0..<MFILE]"

subsection \<open>Flags\<close>

definition pipe_get_flag :: "'s vfs_system \<Rightarrow> client \<Rightarrow> int \<Rightarrow> u32 \<Rightarrow> 's \<Rightarrow> ((net_errno + u64) \<times> 's) outcome" where
  "pipe_get_flag sys c p flag s =
     (case pipe_at c p of
        None \<Rightarrow> Inr (Inl EBADF, s)
      | Some (pid, i) \<Rightarrow>
          rbind (ipc_request sys pid PIPE_GET_FLAG (put32 i @ put32 flag) [] s) (\<lambda>(r, _, _, s). Inr (Inr r, s)))"

definition pipe_set_flag :: "'s vfs_system \<Rightarrow> client \<Rightarrow> int \<Rightarrow> u32 \<Rightarrow> u64 \<Rightarrow> 's \<Rightarrow> ((net_errno + u32) \<times> 's) outcome" where
  "pipe_set_flag sys c p flag val s =
     (case pipe_at c p of
        None \<Rightarrow> Inr (Inl EBADF, s)
      | Some (pid, i) \<Rightarrow>
          rbind (ipc_request sys pid PIPE_SET_FLAG (put32 i @ put32 flag @ put64 val) [] s) (\<lambda>(r, _, _, s). Inr (Inr (ucast r), s)))"

definition pipe_implements :: "'s vfs_system \<Rightarrow> client \<Rightarrow> int \<Rightarrow> u32 \<Rightarrow> 's \<Rightarrow> ((net_errno + bool) \<times> 's) outcome" where
  "pipe_implements sys c p interface s =
     (case pipe_at c p of
        None \<Rightarrow> Inr (Inl EBADF, s)
      | Some (pid, i) \<Rightarrow>
          rbind (ipc_request sys pid PIPE_IMPLEMENTS (put32 i @ put32 interface) [] s) (\<lambda>(r, _, _, s). Inr (Inr (r \<noteq> 0), s)))"

text \<open>The numbers of the flags.\<close>

definition net_flags :: "net_flag list" where
  "net_flags =
     [F_PRESSURE, F_READABLE, F_WRITABLE, F_FLUSH, F_DEVICE_ID, F_DNS_RESOLVED_IP, F_DNS_NSIP, F_DNS_DEFAULT_NSIP,
      F_DEST_MAC, F_SRC_MAC, F_MY_MAC, F_ETH_PACKET_TYPE, F_POSITION, F_FILESIZE, F_DEST_IP, F_SRC_IP, F_MY_IP, F_IP_TTL,
      F_IP_PROTO_TYPE, F_IPC_SIGNAL, F_INODE, F_MODE, F_NLINK, F_UID, F_GID, F_BLOCK_SIZE, F_BLOCK_COUNT, F_ATIME, F_MTIME,
      F_CTIME, F_CONNECTION_STATUS, F_ECHO, F_DEST_PORT, F_SRC_PORT, F_MY_PORT]"

definition flag_of :: "u32 \<Rightarrow> net_flag option" where
  "flag_of n = (if unat n < length net_flags then Some (net_flags ! unat n) else None)"

definition flag_number :: "net_flag \<Rightarrow> u32" where
  "flag_number f = of_nat (length (takeWhile (\<lambda>g. g \<noteq> f) net_flags))"

subsection \<open>Streams\<close>

definition mem_bytes :: "bmem \<Rightarrow> u32 \<Rightarrow> nat \<Rightarrow> u8 list" where
  "mem_bytes m a n = map (\<lambda>k. m (a + of_nat k)) [0..<n]"

definition mem_put :: "bmem \<Rightarrow> u32 \<Rightarrow> u8 list \<Rightarrow> bmem" where
  "mem_put m a bs = (\<lambda>x. if unat (x - a) < length bs then bs ! unat (x - a) else m x)"

text \<open>Long transfers use the pages of the caller as shared memory, except for the first and the last page when the data
  does not fill them: these go through a page of their own. \<open>page_part\<close> is the offset and the number of bytes of page
  \<open>i\<close> that belong to the data.\<close>

definition page_start :: "u32 \<Rightarrow> u32" where
  "page_start addr = addr AND NOT 0xFFF"

definition page_end :: "u32 \<Rightarrow> u32 \<Rightarrow> u32" where
  "page_end addr sz = (addr + sz + 0xFFF) AND NOT 0xFFF"

definition page_count :: "u32 \<Rightarrow> u32 \<Rightarrow> nat" where
  "page_count addr sz = unat (page_end addr sz - page_start addr) div 4096"

definition page_part :: "u32 \<Rightarrow> u32 \<Rightarrow> nat \<Rightarrow> nat \<times> nat" where
  "page_part addr sz i =
     (let ofs = (if i = 0 then unat (addr AND 0xFFF) else 0);
          eae = (if i < page_count addr sz - 1 then 0 else unat (page_end addr sz - addr - sz))
      in (ofs, 4096 - ofs - eae))"

definition bounced :: "u32 \<Rightarrow> u32 \<Rightarrow> nat \<Rightarrow> bool" where
  "bounced addr sz i \<longleftrightarrow> page_part addr sz i \<noteq> (0, 4096)"

definition send_page :: "bmem \<Rightarrow> u32 \<Rightarrow> u32 \<Rightarrow> nat \<Rightarrow> u8 list" where
  "send_page m addr sz i =
     (let (ofs, bcn) = page_part addr sz i; src = page_start addr + of_nat (i * 4096) in
      if bounced addr sz i then replicate ofs 0 @ mem_bytes m (src + of_nat ofs) bcn @ replicate (4096 - ofs - bcn) 0
      else mem_bytes m src 4096)"

definition send_image :: "bmem \<Rightarrow> u32 \<Rightarrow> u32 \<Rightarrow> u8 list" where
  "send_image m addr sz = drop (unat (addr AND 0xFFF)) (concat (map (send_page m addr sz) [0..<page_count addr sz]))"

definition stream_send ::
    "'s vfs_system \<Rightarrow> client \<Rightarrow> int \<Rightarrow> bmem \<Rightarrow> u32 \<Rightarrow> u64 \<Rightarrow> u32 \<Rightarrow> 's \<Rightarrow> ((net_errno + u64) \<times> 's) outcome" where
  "stream_send sys c p m addr sz flags s =
     rbind (kassert (0 \<le> p \<and> p < int MFILE)) (\<lambda>_.
       case pipe_at c p of
         None \<Rightarrow> Inr (Inl EBADF, s)
       | Some (pid, i) \<Rightarrow>
           let head = put32 i @ put32 flags @ put64 sz in
           rbind (if sz < 12288 then ipc_request sys pid STREAM_SEND_MSG (head @ mem_bytes m addr (unat sz)) [] s
                  else ipc_request sys pid STREAM_SEND head (send_image m addr (ucast sz)) s) (\<lambda>(r, _, _, s).
             Inr (Inr (if flags AND O_NONBLOCK \<noteq> 0 then sz else r), s)))"

definition stream_send_shm ::
    "'s vfs_system \<Rightarrow> client \<Rightarrow> int \<Rightarrow> u8 list \<Rightarrow> u64 \<Rightarrow> u32 \<Rightarrow> 's \<Rightarrow> ((net_errno + u64) \<times> 's) outcome" where
  "stream_send_shm sys c p shm sz flags s =
     rbind (kassert (0 \<le> p \<and> p < int MFILE)) (\<lambda>_.
       case pipe_at c p of
         None \<Rightarrow> Inr (Inl EBADF, s)
       | Some (pid, i) \<Rightarrow>
           rbind (ipc_request sys pid STREAM_SEND (put32 i @ put32 flags @ put64 sz) shm s) (\<lambda>(r, _, _, s).
             Inr (Inr (if flags AND O_NONBLOCK \<noteq> 0 then sz else r), s)))"

definition recv_page :: "bmem \<Rightarrow> u32 \<Rightarrow> u32 \<Rightarrow> nat \<Rightarrow> u8 list" where
  "recv_page m addr sz i =
     (if bounced addr sz i then replicate 4096 0 else mem_bytes m (page_start addr + of_nat (i * 4096)) 4096)"

text \<open>The memory of the caller after the transfer, from the contents of the pages.\<close>

definition recv_back :: "bmem \<Rightarrow> u32 \<Rightarrow> u32 \<Rightarrow> u8 list \<Rightarrow> bmem" where
  "recv_back m addr sz full =
     foldl (\<lambda>m i. let (ofs, bcn) = page_part addr sz i
                  in mem_put m (page_start addr + of_nat (i * 4096 + ofs)) (take bcn (drop (i * 4096 + ofs) full)))
       m [0..<page_count addr sz]"

definition stream_recv ::
    "'s vfs_system \<Rightarrow> client \<Rightarrow> int \<Rightarrow> bmem \<Rightarrow> u32 \<Rightarrow> u64 \<Rightarrow> u32 \<Rightarrow> 's \<Rightarrow> ((net_errno + u64) \<times> bmem \<times> 's) outcome" where
  "stream_recv sys c p m addr sz flags s =
     rbind (kassert (0 \<le> p \<and> p < int MFILE)) (\<lambda>_.
       case pipe_at c p of
         None \<Rightarrow> Inr (Inl EBADF, m, s)
       | Some (pid, i) \<Rightarrow>
           let head = put32 i @ put32 flags @ put64 sz in
           if sz < 16384 then
             rbind (ipc_request sys pid STREAM_RECV_MSG head [] s) (\<lambda>(r, ans, _, s).
               case ans of
                 None \<Rightarrow> rbind (kassert (r = 0)) (\<lambda>_. Inr (Inr r, m, s))
               | Some a \<Rightarrow> rbind (kassert (unat r = length a)) (\<lambda>_. Inr (Inr r, mem_put m addr a, s)))
           else
             let ofs = unat (addr AND 0xFFF);
                 full = concat (map (recv_page m addr (ucast sz)) [0..<page_count addr (ucast sz)])
             in rbind (ipc_request sys pid STREAM_RECV head (drop ofs full) s) (\<lambda>(r, _, shm, s).
                  Inr (Inr r, recv_back m addr (ucast sz) (take ofs full @ shm), s)))"

definition stream_recv_shm ::
    "'s vfs_system \<Rightarrow> client \<Rightarrow> int \<Rightarrow> u8 list \<Rightarrow> u64 \<Rightarrow> u32 \<Rightarrow> 's \<Rightarrow> ((net_errno + u64) \<times> u8 list \<times> 's) outcome" where
  "stream_recv_shm sys c p shm sz flags s =
     rbind (kassert (0 \<le> p \<and> p < int MFILE)) (\<lambda>_.
       case pipe_at c p of
         None \<Rightarrow> Inr (Inl EBADF, shm, s)
       | Some (pid, i) \<Rightarrow>
           rbind (ipc_request sys pid STREAM_RECV (put32 i @ put32 flags @ put64 sz) shm s) (\<lambda>(r, _, shm, s).
             Inr (Inr r, shm, s)))"

section \<open>The Ethernet service as a server\<close>

definition errno_number :: "net_errno \<Rightarrow> u32" where
  "errno_number e =
     (case e of ENOENT \<Rightarrow> 2 | ESRCH \<Rightarrow> 3 | ENXIO \<Rightarrow> 6 | EBADF \<Rightarrow> 9 | EACCES \<Rightarrow> 13 | ENODEV \<Rightarrow> 19 | EINVAL \<Rightarrow> 22 | EMFILE \<Rightarrow> 24 | EFBIG \<Rightarrow> 27
      | ENOTCONN \<Rightarrow> 107 | EHOSTDOWN \<Rightarrow> 112 | EHOSTUNREACH \<Rightarrow> 113 | ENOTSUP \<Rightarrow> 134)"

definition vfs_interfaces :: "vfs_interface list" where
  "vfs_interfaces =
     [I_DEVICE_CONTACT, I_DNS, I_ETHERNET, I_FILE, I_FS, I_IP, I_SIGNAL, I_STATABLE, I_TCP, I_TTY, I_UDP]"

text \<open>The state is that of the service with the frames handed to drivers. Waiting for a packet that nobody sends does not
  return.\<close>

definition eth_server :: "(u8 list \<Rightarrow> nat) \<Rightarrow> int \<Rightarrow> (eth_service \<times> driver_calls) vfs_server" where
  "eth_server answer pgid =
     (let result = (\<lambda>r. case r of Inl _ \<Rightarrow> 0 | Inr x \<Rightarrow> of_nat x) in
      \<lparr>sv_create_pipe = (\<lambda>p fl (st, w). rbind (eth_create_pipe pgid p fl st) (\<lambda>(r, st). Inr (result r, st, w))),
       sv_destroy_pipe = (\<lambda>i fl (st, w). rbind (eth_destroy_pipe (unat i) st) (\<lambda>st. Inr (st, w))),
       sv_duplicate_pipe = (\<lambda>i (st, w). rbind (eth_duplicate_pipe (unat i) st) (\<lambda>(f, st). Inr (of_nat f, st, w))),
       sv_stream_send = (\<lambda>i d fl (st, w).
         rbind (eth_stream_send answer (unat i) d fl st) (\<lambda>(r, st, calls, _). Inr (case r of Inl _ \<Rightarrow> 0 | Inr n \<Rightarrow> of_nat n, st, w @ calls))),
       sv_stream_recv = (\<lambda>i buf fl (st, w).
         rbind (eth_stream_recv (unat i) (length buf) fl st) (\<lambda>(r, st).
           case r of
             Inl _ \<Rightarrow> Inr (0, buf, st, w)
           | Inr None \<Rightarrow> Inl NoReturn
           | Inr (Some d) \<Rightarrow> Inr (of_nat (length d), d @ drop (length d) buf, st, w))),
       sv_pipe_get_flag = (\<lambda>i n (st, w).
         case flag_of n of
           None \<Rightarrow> rbind (file_at st (unat i)) (\<lambda>_. Inr 0)
         | Some f \<Rightarrow> rbind (eth_get_flag (unat i) f st) (\<lambda>r. Inr (case r of Inl _ \<Rightarrow> 0 | Inr v \<Rightarrow> v))),
       sv_pipe_set_flag = (\<lambda>i n v (st, w).
         case flag_of n of
           None \<Rightarrow> Inr (- 22, st, w)
         | Some f \<Rightarrow> rbind (eth_set_flag pgid (unat i) f v st) (\<lambda>(r, st). Inr (case r of Inl e \<Rightarrow> - errno_number e | Inr _ \<Rightarrow> 0, st, w))),
       sv_pipe_implements = (\<lambda>i n (st, w).
         if unat n < length vfs_interfaces then eth_pipe_implements (unat i) (vfs_interfaces ! unat n) st else Inr False),
       sv_is_symlink = (\<lambda>_ _. None)\<rparr>)"

section \<open>Calls through IPC\<close>

lemma message_fields [simp]:
  "take32 (put32 a @ put32 b) 0 = a" "take32 (put32 a @ put32 b) 4 = b"
  "take32 (put32 a @ put32 b @ put64 x) 0 = a" "take32 (put32 a @ put32 b @ put64 x) 4 = b"
  "take64 (put32 a @ put32 b @ put64 x) 8 = x"
  "take32 (put32 a @ put32 b @ put64 x @ r) 0 = a" "take32 (put32 a @ put32 b @ put64 x @ r) 4 = b"
  "take64 (put32 a @ put32 b @ put64 x @ r) 8 = x"
  using take32_put32(1) [of "put32 a" 4 b "[]"] take32_put32(1) [of "put32 a" 4 b "put64 x"]
    take32_put32(1) [of "put32 a" 4 b "put64 x @ r"] take64_put64 [of "put32 a @ put32 b" 8 x "[]"]
    take64_put64 [of "put32 a @ put32 b" 8 x r]
  by simp_all

lemma c_string_terminated: "0 \<notin> set p \<Longrightarrow> c_string (p @ [0]) = Inr p"
  by (simp add: c_string_def takeWhile_append)

text \<open>What the library relies on: a service that is given a buffer leaves a buffer of the same length and does not
  report more bytes than that.\<close>

locale vfs_service =
  fixes srv :: "'s vfs_server"
  assumes recv_fits: "sv_stream_recv srv i buf flags s = Inr (r, buf', s') \<Longrightarrow> length buf' = length buf \<and> unat r \<le> length buf"
begin

lemma stream_recv_short:
  assumes "pipe_at c p = Some (pid, i)" "sys_server sys pid = Some srv" "length (sys_fresh sys (unat sz)) = unat sz" "sz < 16384"
  shows "stream_recv sys c p m addr sz flags s =
    rbind (sv_stream_recv srv i (sys_fresh sys (unat sz)) flags s) (\<lambda>(r, buf, s).
      Inr (Inr r, mem_put m addr (take (unat r) buf), s))"
proof -
  have "0 \<le> p" "p < int MFILE" using assms(1) by (auto simp: pipe_at_def split: if_splits)
  moreover have "unat r \<le> length buf" if "sv_stream_recv srv i (sys_fresh sys (unat sz)) flags s = Inr (r, buf, s')" for r buf s'
    using recv_fits [OF that] by simp
  ultimately show ?thesis
    using assms
    by (cases "sv_stream_recv srv i (sys_fresh sys (unat sz)) flags s")
      (auto simp: stream_recv_def ipc_request_def popup_trampoline_def vfs_stream_recv_msg_def Let_def not_less)
qed

end

lemma pipe_at_range: "pipe_at c p = Some x \<Longrightarrow> 0 \<le> p \<and> p < int MFILE"
  by (auto simp: pipe_at_def split: if_splits)

text \<open>Every call of a client is the call of the service with the same arguments.\<close>

lemma vfs_calls:
  assumes "pipe_at c p = Some (pid, i)" "sys_server sys pid = Some srv"
  shows "pipe_get_flag sys c p flag s = rbind (sv_pipe_get_flag srv i flag s) (\<lambda>r. Inr (Inr r, s))"
    and "pipe_set_flag sys c p flag val s = rbind (sv_pipe_set_flag srv i flag val s) (\<lambda>(r, s). Inr (Inr r, s))"
    and "pipe_implements sys c p flag s = rbind (sv_pipe_implements srv i flag s) (\<lambda>b. Inr (Inr b, s))"
    and "unat sz < 12288 \<Longrightarrow> stream_send sys c p m addr sz flags s =
      rbind (sv_stream_send srv i (mem_bytes m addr (unat sz)) flags s) (\<lambda>(r, s). Inr (Inr (if flags AND O_NONBLOCK \<noteq> 0 then sz else r), s))"
    and "destroy_pipe sys p flags c s =
      rbind (sv_destroy_pipe srv i flags s) (\<lambda>s. Inr (Inr (), set_pipe (nat p) (0, i) c, s))"
proof -
  note calls = ipc_request_def popup_trampoline_def Let_def rbind_assoc
  note r = pipe_at_range [OF assms(1)]
  show "pipe_get_flag sys c p flag s = rbind (sv_pipe_get_flag srv i flag s) (\<lambda>r. Inr (Inr r, s))"
    using assms by (simp add: pipe_get_flag_def calls vfs_pipe_get_flag_def)
  have "ucast (scast (r :: u32) :: u64) = r" for r by (rule bit_word_eqI) (auto simp: bit_simps)
  then show "pipe_set_flag sys c p flag val s = rbind (sv_pipe_set_flag srv i flag val s) (\<lambda>(r, s). Inr (Inr r, s))"
    using assms by (simp add: pipe_set_flag_def calls vfs_pipe_set_flag_def case_prod_unfold)
  show "pipe_implements sys c p flag s = rbind (sv_pipe_implements srv i flag s) (\<lambda>b. Inr (Inr b, s))"
    using assms by (cases "sv_pipe_implements srv i flag s") (simp_all add: pipe_implements_def calls vfs_pipe_implements_def)
  show "stream_send sys c p m addr sz flags s =
      rbind (sv_stream_send srv i (mem_bytes m addr (unat sz)) flags s) (\<lambda>(r, s). Inr (Inr (if flags AND O_NONBLOCK \<noteq> 0 then sz else r), s))"
    if "unat sz < 12288"
  proof -
    have "sz < 12288" using that by (simp add: word_less_nat_alt)
    then show ?thesis
      using assms r
      by (cases "sv_stream_send srv i (mem_bytes m addr (unat sz)) flags s")
        (auto simp: stream_send_def calls vfs_stream_send_msg_def mem_bytes_def)
  qed
  have "pipes c ! nat p = (pid, i)" "pid \<noteq> 0" using assms(1) by (auto simp: pipe_at_def split: if_splits)
  then show "destroy_pipe sys p flags c s =
      rbind (sv_destroy_pipe srv i flags s) (\<lambda>s. Inr (Inr (), set_pipe (nat p) (0, i) c, s))"
    using assms(2) r by (simp add: destroy_pipe_def calls vfs_destroy_pipe_def)
qed

text \<open>The Ethernet service keeps the contract, for buffers that a 64 bit number can count.\<close>

lemma eth_recv_length:
  assumes "eth_stream_recv f n fl st = Inr (Inr (Some d), st')"
  shows "length d \<le> n"
proof -
  obtain x where x: "eth_files st f = Some x" using assms by (auto simp: eth_stream_recv_def outcome_simps)
  then show ?thesis
    using assms by (cases x) (auto simp: eth_stream_recv_def file_at_def Let_def split: list.splits if_splits)
qed

interpretation eth_vfs: vfs_service "eth_server answer pgid"
proof
  fix i buf flags s r buf' s'
  assume "sv_stream_recv (eth_server answer pgid) i buf flags s = Inr (r, buf', s')"
  then have run: "sv_stream_recv (eth_server answer pgid) i buf flags (fst s, snd s) = Inr (r, buf', s')" by simp
  from run obtain r0 st1 where r0: "eth_stream_recv (unat i) (length buf) flags (fst s) = Inr (r0, st1)"
    by (auto simp: eth_server_def Let_def outcome_simps simp del: prod.collapse)
  show "length buf' = length buf \<and> unat r \<le> length buf"
  proof (cases "\<exists>d. r0 = Inr (Some d)")
    case True
    then obtain d where d: "r0 = Inr (Some d)" by blast
    have "unat (of_nat (length d) :: u64) \<le> length d" by (simp add: unat_of_nat take_bit_eq_mod)
    moreover have "r = of_nat (length d)" "buf' = d @ drop (length d) buf"
      using run r0 d by (auto simp: eth_server_def Let_def simp del: prod.collapse)
    moreover have "length d \<le> length buf" by (rule eth_recv_length [OF r0 [unfolded d]])
    ultimately show ?thesis by simp
  next
    case False
    then have "r = 0" "buf' = buf"
      using run r0 by (auto simp: eth_server_def Let_def simp del: prod.collapse split: sum.splits option.splits)
    then show ?thesis by simp
  qed
qed

section \<open>Long transfers\<close>

lemma page_div: "n = n div 4096 * 4096 + n mod 4096" "n < n div 4096 * 4096 + 4096" "n div 4096 * 4096 \<le> n" for n :: nat
  by (simp_all add: dividend_less_div_times div_times_less_eq_dividend)

lemma page_room:
  fixes a s q b k :: nat
  assumes "a = b * 4096 + k" "k < 4096" "a + s \<le> q * 4096" "q * 4096 < a + s + 4096"
  shows "(q - b) * 4096 = k + s + (q * 4096 - a - s)" "q * 4096 - a - s < 4096"
  using assms by (simp_all add: diff_mult_distrib)

lemma page_span:
  assumes "unat addr + unat sz + 4095 < 2 ^ 32"
  shows "unat (page_start addr) = unat addr div 4096 * 4096" "unat (page_end addr sz) = (unat addr + unat sz + 4095) div 4096 * 4096"
    "page_count addr sz = (unat addr + unat sz + 4095) div 4096 - unat addr div 4096"
    "unat (page_end addr sz - addr - sz) = (unat addr + unat sz + 4095) div 4096 * 4096 - unat addr - unat sz"
proof -
  let ?a = "unat addr" and ?s = "unat sz"
  show s: "unat (page_start addr) = ?a div 4096 * 4096" by (simp only: page_start_def unat_page_base)
  have "unat (addr + sz + 0xFFF) = ?a + ?s + 4095"
    using assms by (subst unat_add_nowrap; (subst unat_add_nowrap)?) simp_all
  then show e: "unat (page_end addr sz) = (?a + ?s + 4095) div 4096 * 4096"
    by (simp only: page_end_def unat_page_base)
  have "unat (page_end addr sz - page_start addr) = (?a + ?s + 4095) div 4096 * 4096 - ?a div 4096 * 4096"
    by (subst unat_sub) (simp_all add: word_le_nat_alt s e div_le_mono)
  then show "page_count addr sz = (?a + ?s + 4095) div 4096 - ?a div 4096"
    by (simp add: page_count_def flip: diff_mult_distrib)
  have le: "?a + ?s \<le> (?a + ?s + 4095) div 4096 * 4096" using page_div(2) [of "?a + ?s + 4095"] by linarith
  have "unat (page_end addr sz - addr) = (?a + ?s + 4095) div 4096 * 4096 - ?a"
    using le by (subst unat_sub) (simp_all add: word_le_nat_alt e)
  then show "unat (page_end addr sz - addr - sz) = (?a + ?s + 4095) div 4096 * 4096 - ?a - ?s"
    using le by (subst unat_sub) (simp_all add: word_le_nat_alt)
qed

text \<open>With \<open>o\<close> the offset in the first page, page \<open>i\<close> holds the positions from \<open>4096 i\<close> on, of which those from \<open>o\<close> up to
  \<open>o + size\<close> belong to the data.\<close>

lemma page_part_positions:
  assumes "unat addr + unat sz + 4095 < 2 ^ 32" "i < page_count addr sz" "0 < unat sz"
    and "page_part addr sz i = (ofs, bcn)"
  shows "ofs + bcn \<le> 4096"
    and "j < 4096 \<Longrightarrow> ofs \<le> j \<and> j < ofs + bcn \<longleftrightarrow> unat addr mod 4096 \<le> i * 4096 + j \<and> i * 4096 + j < unat addr mod 4096 + unat sz"
proof -
  let ?a = "unat addr" and ?s = "unat sz"
  let ?n = "page_count addr sz" and ?o = "unat addr mod 4096"
  have n: "?n = (?a + ?s + 4095) div 4096 - ?a div 4096" by (rule page_span(3) [OF assms(1)])
  have eae: "unat (page_end addr sz - addr - sz) = (?a + ?s + 4095) div 4096 * 4096 - ?a - ?s" by (rule page_span(4) [OF assms(1)])
  have le: "?a + ?s \<le> (?a + ?s + 4095) div 4096 * 4096" and lt: "(?a + ?s + 4095) div 4096 * 4096 < ?a + ?s + 4096"
    using page_div(2,3) [of "?a + ?s + 4095"] by simp_all
  have end_pos: "?n * 4096 = ?o + ?s + unat (page_end addr sz - addr - sz)"
    unfolding n eae by (rule page_room(1) [OF page_div(1) _ le lt]) simp
  have small: "unat (page_end addr sz - addr - sz) < 4096"
    unfolding eae by (rule page_room(2) [OF page_div(1) _ le lt]) simp
  have p: "ofs = (if i = 0 then ?o else 0)" "bcn = 4096 - ofs - (if i < ?n - 1 then 0 else unat (page_end addr sz - addr - sz))"
    using assms(4) by (auto simp: page_part_def Let_def unat_low12)
  have o: "?o < 4096" by simp
  show "ofs + bcn \<le> 4096" using p o by auto
  assume j: "j < 4096"
  consider "i = 0" "i = ?n - 1" | "i = 0" "i < ?n - 1" | "0 < i" "i < ?n - 1" | "0 < i" "i = ?n - 1" using assms(2) by linarith
  then show "ofs \<le> j \<and> j < ofs + bcn \<longleftrightarrow> ?o \<le> i * 4096 + j \<and> i * 4096 + j < ?o + ?s"
  proof cases
    case 1
    then have "?n = 1" using assms(2) by linarith
    then have "4096 = ?o + ?s + unat (page_end addr sz - addr - sz)" using end_pos by linarith
    moreover have "ofs = ?o" "bcn = 4096 - ?o - unat (page_end addr sz - addr - sz)" using 1 p by simp_all
    ultimately have "ofs = ?o" "bcn = ?s" by linarith+
    then show ?thesis using 1 by simp
  next
    case 2
    then have "2 * 4096 \<le> ?n * 4096" by linarith
    then have "4096 \<le> ?o + ?s" using end_pos small by linarith
    moreover have "ofs = ?o" "bcn = 4096 - ?o" using 2 p by simp_all
    then have "ofs + bcn = 4096" using o by linarith
    ultimately show ?thesis using 2 j \<open>ofs = ?o\<close> by simp
  next
    case 3
    then have "(i + 2) * 4096 \<le> ?n * 4096" by (intro mult_le_mono1) linarith
    then have "i * 4096 + 8192 \<le> ?n * 4096" by simp
    then have "i * 4096 + 4096 \<le> ?o + ?s" using end_pos small by linarith
    moreover have "4096 \<le> i * 4096" using 3(1) by simp
    moreover have "ofs = 0" "bcn = 4096" using 3 p by simp_all
    ultimately show ?thesis using o j by linarith
  next
    case 4
    then have "(i + 1) * 4096 = ?n * 4096" by simp
    then have "i * 4096 + 4096 = ?n * 4096" by simp
    then have "i * 4096 + 4096 = ?o + ?s + unat (page_end addr sz - addr - sz)" using end_pos by linarith
    moreover have "4096 \<le> i * 4096" using 4(1) by simp
    moreover have "ofs = 0" "bcn = 4096 - unat (page_end addr sz - addr - sz)" using 4 p by simp_all
    ultimately show ?thesis using o j small by linarith
  qed
qed

lemma concat_pages:
  "concat (map (\<lambda>i. map (\<lambda>j. f (i * 4096 + j)) [0..<4096]) [0..<n]) = map f [0..<n * 4096]"
proof (induction n)
  case (Suc n)
  have "[0..<Suc n * 4096] = [0..<n * 4096] @ [n * 4096..<n * 4096 + 4096]"
    by (metis add.commute le_add1 mult_Suc upt_add_eq_append zero_le)
  moreover have "map f [n * 4096..<n * 4096 + 4096] = map (\<lambda>j. f (n * 4096 + j)) [0..<4096]"
    by (rule nth_equalityI) simp_all
  ultimately show ?case using Suc by simp
qed simp

definition data_at :: "u32 \<Rightarrow> u32 \<Rightarrow> nat \<Rightarrow> bool" where
  "data_at addr sz g \<longleftrightarrow> unat addr mod 4096 \<le> g \<and> g < unat addr mod 4096 + unat sz"

lemma send_page_positions:
  assumes "unat addr + unat sz + 4095 < 2 ^ 32" "i < page_count addr sz" "0 < unat sz"
  shows "send_page m addr sz i =
    map (\<lambda>j. if data_at addr sz (i * 4096 + j) then m (page_start addr + of_nat (i * 4096 + j)) else 0) [0..<4096]"
proof -
  obtain ofs bcn where p: "page_part addr sz i = (ofs, bcn)" by fastforce
  note pos = page_part_positions [OF assms p, folded data_at_def]
  let ?src = "page_start addr + of_nat (i * 4096)"
  have at: "m (?src + of_nat ofs + of_nat (j - ofs)) = m (page_start addr + of_nat (i * 4096 + j))" if "ofs \<le> j" for j
    using that by (simp add: of_nat_diff)
  show ?thesis
  proof (cases "bounced addr sz i")
    case True
    then have s: "send_page m addr sz i = replicate ofs 0 @ mem_bytes m (?src + of_nat ofs) bcn @ replicate (4096 - ofs - bcn) 0"
      by (simp add: send_page_def p)
    show ?thesis unfolding s
    proof (rule nth_equalityI)
      show "length (replicate ofs 0 @ mem_bytes m (?src + of_nat ofs) bcn @ replicate (4096 - ofs - bcn) 0) =
          length (map (\<lambda>j. if data_at addr sz (i * 4096 + j) then m (page_start addr + of_nat (i * 4096 + j)) else 0) [0..<4096])"
        using pos(1) by (simp add: mem_bytes_def)
      fix j
      assume "j < length (replicate ofs 0 @ mem_bytes m (?src + of_nat ofs) bcn @ replicate (4096 - ofs - bcn) 0)"
      then have j: "j < 4096" using pos(1) by (simp add: mem_bytes_def)
      consider "j < ofs" | "ofs \<le> j" "j < ofs + bcn" | "ofs + bcn \<le> j" by linarith
      then show "(replicate ofs 0 @ mem_bytes m (?src + of_nat ofs) bcn @ replicate (4096 - ofs - bcn) 0) ! j =
          map (\<lambda>j. if data_at addr sz (i * 4096 + j) then m (page_start addr + of_nat (i * 4096 + j)) else 0) [0..<4096] ! j"
        using pos(2) [OF j] at j by cases (auto simp: nth_append mem_bytes_def)
    qed
  next
    case False
    then have z: "ofs = 0" "bcn = 4096" by (simp_all add: bounced_def p)
    then show ?thesis
      using False pos(2) by (auto simp: send_page_def p mem_bytes_def ac_simps)
  qed
qed

lemma page_start_offset: "addr = page_start addr + of_nat (unat addr mod 4096)"
proof (rule word_unat_eq_iff [THEN iffD2])
  have b: "unat (page_start addr) = unat addr div 4096 * 4096" by (simp only: page_start_def unat_page_base)
  have "unat (page_start addr + of_nat (unat addr mod 4096)) = unat addr div 4096 * 4096 + unat addr mod 4096"
    using unat32_lt [of addr] unfolding b [symmetric] by (subst unat_plus_of_nat) (simp_all add: b)
  then show "unat addr = unat (page_start addr + of_nat (unat addr mod 4096))" by simp
qed

lemma data_room:
  assumes "unat addr + unat sz + 4095 < 2 ^ 32"
  shows "unat addr mod 4096 + unat sz \<le> page_count addr sz * 4096" "unat (page_start addr) + page_count addr sz * 4096 < 2 ^ 32"
proof -
  let ?a = "unat addr" and ?s = "unat sz"
  have le: "?a + ?s \<le> (?a + ?s + 4095) div 4096 * 4096" and lt: "(?a + ?s + 4095) div 4096 * 4096 < ?a + ?s + 4096"
    using page_div(2,3) [of "?a + ?s + 4095"] by simp_all
  note room = page_room(1) [OF page_div(1) _ le lt]
  show "?a mod 4096 + ?s \<le> page_count addr sz * 4096"
    unfolding page_span(3) [OF assms] by (subst room) simp_all
  have "?a div 4096 \<le> (?a + ?s + 4095) div 4096" by (rule div_le_mono) simp
  then have "?a div 4096 * 4096 + ((?a + ?s + 4095) div 4096 - ?a div 4096) * 4096 = (?a + ?s + 4095) div 4096 * 4096"
    by (simp add: diff_mult_distrib)
  then show "unat (page_start addr) + page_count addr sz * 4096 < 2 ^ 32"
    unfolding page_span(1,3) [OF assms] using page_div(3) [of "?a + ?s + 4095"] assms by linarith
qed

lemma send_image_data:
  assumes "unat addr + unat sz + 4095 < 2 ^ 32" "0 < unat sz"
  shows "take (unat sz) (send_image m addr sz) = mem_bytes m addr (unat sz)" "unat sz \<le> length (send_image m addr sz)"
proof -
  let ?f = "\<lambda>g. if data_at addr sz g then m (page_start addr + of_nat g) else 0"
  have "map (send_page m addr sz) [0..<page_count addr sz] =
      map (\<lambda>i. map (\<lambda>j. ?f (i * 4096 + j)) [0..<4096]) [0..<page_count addr sz]"
    using send_page_positions [OF assms(1) _ assms(2)] by (intro map_cong) simp_all
  then have img: "send_image m addr sz = drop (unat addr mod 4096) (map ?f [0..<page_count addr sz * 4096])"
    unfolding send_image_def unat_low12 using concat_pages [of ?f] by (simp only:)
  show len: "unat sz \<le> length (send_image m addr sz)" using data_room(1) [OF assms(1)] unfolding img by simp
  show "take (unat sz) (send_image m addr sz) = mem_bytes m addr (unat sz)"
  proof (rule nth_equalityI)
    show "length (take (unat sz) (send_image m addr sz)) = length (mem_bytes m addr (unat sz))" using len by (simp add: mem_bytes_def)
    fix k
    assume "k < length (take (unat sz) (send_image m addr sz))"
    then have k: "k < unat sz" by simp
    have "page_start addr + of_nat (unat addr mod 4096 + k) = addr + of_nat k"
      by (subst (3) page_start_offset) simp
    then show "take (unat sz) (send_image m addr sz) ! k = mem_bytes m addr (unat sz) ! k"
      using k data_room(1) [OF assms(1)] by (simp add: img mem_bytes_def data_at_def del: of_nat_add)
  qed
qed

lemma recv_pages_length: "length (concat (map (recv_page m addr sz) [0..<n])) = n * 4096"
  by (induction n) (simp_all add: recv_page_def mem_bytes_def)

lemma unat_sub_of_nat:
  fixes x :: u32
  assumes "unat a + c + n < 2 ^ 32"
  shows "unat (x - (a + of_nat c)) < n \<longleftrightarrow> c \<le> unat (x - a) \<and> unat (x - a) < c + n"
    and "c \<le> unat (x - a) \<Longrightarrow> unat (x - (a + of_nat c)) = unat (x - a) - c"
proof -
  have u: "unat (of_nat c :: u32) = c" using assms by (simp add: unat_of_nat take_bit_eq_mod)
  have d: "unat (x - (a + of_nat c)) = (if c \<le> unat (x - a) then unat (x - a) - c else unat (x - a) + 2 ^ 32 - c)"
    unfolding diff_diff_eq [symmetric] by (subst unat_sub_if') (simp add: u)
  have "unat (x - a) < 2 ^ 32" by (rule unat32_lt)
  then show "unat (x - (a + of_nat c)) < n \<longleftrightarrow> c \<le> unat (x - a) \<and> unat (x - a) < c + n"
    "c \<le> unat (x - a) \<Longrightarrow> unat (x - (a + of_nat c)) = unat (x - a) - c"
    using assms unfolding d by auto
qed

lemma recv_back_pages:
  assumes "unat addr + unat sz + 4095 < 2 ^ 32" "0 < unat sz" "length full = page_count addr sz * 4096" "k \<le> page_count addr sz"
  shows "foldl (\<lambda>m i. let (ofs, bcn) = page_part addr sz i
                  in mem_put m (page_start addr + of_nat (i * 4096 + ofs)) (take bcn (drop (i * 4096 + ofs) full)))
       m [0..<k] x =
    (if data_at addr sz (unat (x - page_start addr)) \<and> unat (x - page_start addr) < k * 4096
     then full ! unat (x - page_start addr) else m x)"
  using assms(4)
proof (induction k)
  case (Suc k)
  obtain ofs bcn where p: "page_part addr sz k = (ofs, bcn)" by fastforce
  have k: "k < page_count addr sz" using Suc.prems by simp
  note pos = page_part_positions [OF assms(1) k assms(2) p, folded data_at_def]
  let ?g = "unat (x - page_start addr)"
  have fits: "k * 4096 + 4096 \<le> page_count addr sz * 4096" using Suc.prems by (metis mult_Suc add.commute mult_le_mono1)
  have "unat (page_start addr) + (k * 4096 + ofs) + bcn < 2 ^ 32" using data_room(2) [OF assms(1)] fits pos(1) by linarith
  note g = unat_sub_of_nat [OF this, of x]
  have len: "length (take bcn (drop (k * 4096 + ofs) full)) = bcn" using assms(3) fits pos(1) by simp
  have here: "k * 4096 + ofs \<le> ?g \<and> ?g < k * 4096 + ofs + bcn \<longleftrightarrow> data_at addr sz ?g \<and> k * 4096 \<le> ?g \<and> ?g < k * 4096 + 4096"
  proof (cases "k * 4096 \<le> ?g \<and> ?g < k * 4096 + 4096")
    case True
    then have "?g - k * 4096 < 4096" "k * 4096 + (?g - k * 4096) = ?g" by linarith+
    with pos(2) [of "?g - k * 4096"] True show ?thesis by auto
  next
    case False
    then show ?thesis using pos(1) by auto
  qed
  have "mem_put m' (page_start addr + of_nat (k * 4096 + ofs)) (take bcn (drop (k * 4096 + ofs) full)) x =
      (if data_at addr sz ?g \<and> k * 4096 \<le> ?g \<and> ?g < k * 4096 + 4096 then full ! ?g else m' x)" for m'
    using g here len assms(3) fits unfolding mem_put_def by (auto simp del: of_nat_add)
  then show ?case using Suc p by auto
qed simp

lemma recv_back_data:
  assumes "unat addr + unat sz + 4095 < 2 ^ 32" "0 < unat sz" "length full = page_count addr sz * 4096"
  shows "recv_back m addr sz full = mem_put m addr (take (unat sz) (drop (unat addr mod 4096) full))"
proof
  fix x
  let ?o = "unat addr mod 4096" and ?g = "unat (x - page_start addr)"
  have room: "?o + unat sz \<le> page_count addr sz * 4096" "unat (page_start addr) + ?o + unat sz < 2 ^ 32"
    using data_room [OF assms(1)] by linarith+
  have res: "recv_back m addr sz full x = (if data_at addr sz ?g \<and> ?g < page_count addr sz * 4096 then full ! ?g else m x)"
    unfolding recv_back_def by (rule recv_back_pages [OF assms order.refl])
  note g = unat_sub_of_nat [OF room(2), of x, folded page_start_offset]
  show "recv_back m addr sz full x = mem_put m addr (take (unat sz) (drop ?o full)) x"
    using g room(1) assms(3) unfolding res mem_put_def data_at_def by auto
qed

text \<open>Long calls are calls of the service, too, on exactly the bytes of the caller.\<close>

lemma stream_send_long:
  assumes "pipe_at c p = Some (pid, i)" "sys_server sys pid = Some srv" "12288 \<le> unat sz" "unat addr + unat sz + 4095 < 2 ^ 32"
  shows "stream_send sys c p m addr sz flags s =
    rbind (sv_stream_send srv i (mem_bytes m addr (unat sz)) flags s) (\<lambda>(r, s). Inr (Inr (if flags AND O_NONBLOCK \<noteq> 0 then sz else r), s))"
proof -
  have u: "unat (ucast sz :: u32) = unat sz" using assms(4) by (simp add: unsigned_ucast_eq take_bit_eq_mod unat_mod)
  have img: "take (unat sz) (send_image m addr (ucast sz)) = mem_bytes m addr (unat sz)" "unat sz \<le> length (send_image m addr (ucast sz))"
    using send_image_data [of addr "ucast sz" m] assms(3,4) by (simp_all add: u)
  have "\<not> sz < 12288" using assms(3) by (simp add: word_less_nat_alt)
  then show ?thesis
    using assms(1,2) pipe_at_range [OF assms(1)] img
    by (cases "sv_stream_send srv i (mem_bytes m addr (unat sz)) flags s")
      (auto simp: stream_send_def ipc_request_def popup_trampoline_def vfs_stream_send_def Let_def)
qed

context vfs_service
begin

lemma stream_recv_long:
  assumes "pipe_at c p = Some (pid, i)" "sys_server sys pid = Some srv" "16384 \<le> unat sz" "unat addr + unat sz + 4095 < 2 ^ 32"
  shows "\<exists>buf. length buf = unat sz \<and> stream_recv sys c p m addr sz flags s =
    rbind (sv_stream_recv srv i buf flags s) (\<lambda>(r, buf', s). Inr (Inr r, mem_put m addr buf', s))"
proof -
  have u: "unat (ucast sz :: u32) = unat sz" using assms(4) by (simp add: unsigned_ucast_eq take_bit_eq_mod unat_mod)
  let ?full = "concat (map (recv_page m addr (ucast sz)) [0..<page_count addr (ucast sz)])"
  let ?o = "unat addr mod 4096"
  let ?buf = "take (unat sz) (drop ?o ?full)"
  have ok: "unat addr + unat (ucast sz :: u32) + 4095 < 2 ^ 32" "0 < unat (ucast sz :: u32)" using assms(3,4) by (simp_all add: u)
  have room: "?o + unat sz \<le> length ?full" using data_room(1) [OF ok(1)] by (simp add: u recv_pages_length)
  have "\<not> sz < 16384" using assms(3) by (simp add: word_less_nat_alt)
  moreover have "recv_back m addr (ucast sz) (take ?o ?full @ buf' @ drop (unat sz) (drop ?o ?full)) = mem_put m addr buf'"
    if "sv_stream_recv srv i ?buf flags s = Inr (r, buf', s')" for r buf' s'
  proof -
    have "length buf' = unat sz" using recv_fits [OF that] room by simp
    then show ?thesis
      using room by (subst recv_back_data [OF ok]) (simp_all add: u recv_pages_length)
  qed
  ultimately have "stream_recv sys c p m addr sz flags s =
      rbind (sv_stream_recv srv i ?buf flags s) (\<lambda>(r, buf', s). Inr (Inr r, mem_put m addr buf', s))"
    using assms(1,2) pipe_at_range [OF assms(1)] room
    by (cases "sv_stream_recv srv i ?buf flags s")
      (auto simp: stream_recv_def ipc_request_def popup_trampoline_def vfs_stream_recv_def Let_def unat_low12)
  then show ?thesis using room by (intro exI [of _ ?buf]) simp
qed

end

text \<open>C20: The calls of the file system library reach the server as they are: for a service that stays within the buffers it
  is given, sending, receiving, closing and the flags of a pipe are the operations of the service on the number the
  service gave the pipe, with the flags and exactly the bytes of the caller. This holds for data of any length and
  at any address, though short data travels in messages and long data in shared pages, and what is received lands
  at the address given and nowhere else.\<close>

theorem client_calls_service:
  assumes "vfs_service srv" "pipe_at c p = Some (pid, i)" "sys_server sys pid = Some srv" "\<And>n. length (sys_fresh sys n) = n"
    and "unat addr + unat sz + 4095 < 2 ^ 32"
  shows "stream_send sys c p m addr sz flags s =
      rbind (sv_stream_send srv i (mem_bytes m addr (unat sz)) flags s) (\<lambda>(r, s). Inr (Inr (if flags AND O_NONBLOCK \<noteq> 0 then sz else r), s)) \<and>
    (\<exists>buf. length buf = unat sz \<and> stream_recv sys c p m addr sz flags s =
      rbind (sv_stream_recv srv i buf flags s) (\<lambda>(r, buf', s). Inr (Inr r, mem_put m addr (if sz < 16384 then take (unat r) buf' else buf'), s))) \<and>
    pipe_get_flag sys c p flag s = rbind (sv_pipe_get_flag srv i flag s) (\<lambda>r. Inr (Inr r, s)) \<and>
    pipe_set_flag sys c p flag val s = rbind (sv_pipe_set_flag srv i flag val s) (\<lambda>(r, s). Inr (Inr r, s)) \<and>
    pipe_implements sys c p flag s = rbind (sv_pipe_implements srv i flag s) (\<lambda>b. Inr (Inr b, s)) \<and>
    destroy_pipe sys p flags c s = rbind (sv_destroy_pipe srv i flags s) (\<lambda>s. Inr (Inr (), set_pipe (nat p) (0, i) c, s))"
proof (intro conjI)
  show "stream_send sys c p m addr sz flags s =
      rbind (sv_stream_send srv i (mem_bytes m addr (unat sz)) flags s) (\<lambda>(r, s). Inr (Inr (if flags AND O_NONBLOCK \<noteq> 0 then sz else r), s))"
    using vfs_calls(4) [OF assms(2,3)] stream_send_long [OF assms(2,3) _ assms(5)] by (cases "unat sz < 12288") simp_all
  show "\<exists>buf. length buf = unat sz \<and> stream_recv sys c p m addr sz flags s =
      rbind (sv_stream_recv srv i buf flags s) (\<lambda>(r, buf', s). Inr (Inr r, mem_put m addr (if sz < 16384 then take (unat r) buf' else buf'), s))"
  proof (cases "sz < 16384")
    case True
    then show ?thesis
      using vfs_service.stream_recv_short [OF assms(1-3) assms(4) True] assms(4) by (intro exI [of _ "sys_fresh sys (unat sz)"]) simp
  next
    case False
    then have "16384 \<le> unat sz" by (simp add: word_less_nat_alt not_less)
    from vfs_service.stream_recv_long [OF assms(1-3) this assms(5)] False show ?thesis by simp
  qed
qed (rule vfs_calls [OF assms(2,3)])+

text \<open>A pipe on the Ethernet service of \<open>demo_eth\<close>.\<close>

definition demo_system :: "(eth_service \<times> driver_calls) vfs_system" where
  "demo_system = \<lparr>sys_server = (\<lambda>pid. if pid = 9 then Some (eth_server (\<lambda>_. 0) 5) else None), sys_daemon = (\<lambda>_. 9),
     sys_fresh = (\<lambda>n. replicate n 0)\<rparr>"

definition demo_client :: client where
  "demo_client = \<lparr>pipes = (9, 2) # replicate 31 (0, 0), cwd = None\<rparr>"

theorem client_calls_service_witness:
  "pipe_set_flag demo_system demo_client 0 (flag_number F_ETH_PACKET_TYPE) 0x0806 (demo_eth, []) =
     Inr (Inr 0, (set_file 2 (TYPE_CARD ((eth_new_pipe 1 (replicate 6 0))\<lparr>cp_packet_type := 0x0806\<rparr>)) demo_eth, []))"
proof -
  have p: "pipe_at demo_client 0 = Some (9, 2)" by (simp add: pipe_at_def demo_client_def MFILE_def)
  have f: "flag_number F_ETH_PACKET_TYPE = 11" by (simp add: flag_number_def net_flags_def)
  have "eth_files demo_eth 2 = Some (TYPE_CARD (eth_new_pipe 1 (replicate 6 0)))" by (simp add: demo_eth_def)
  moreover have "pipe_set_flag demo_system demo_client 0 11 0x0806 (demo_eth, []) =
      rbind (sv_pipe_set_flag (eth_server (\<lambda>_. 0) 5) 2 11 0x0806 (demo_eth, [])) (\<lambda>(r, s). Inr (Inr r, s))"
    using client_calls_service [OF eth_vfs.vfs_service_axioms [of "\<lambda>_. 0" 5] p, of demo_system 0 0 undefined 0 "(demo_eth, [])" 11 "0x0806"]
    by (simp add: demo_system_def)
  ultimately show ?thesis
    by (simp add: f eth_server_def flag_of_def net_flags_def eth_set_flag_def file_at_def)
qed

section \<open>Opening pipes\<close>

lemma free_pipe_first:
  "free_pipe 0 ps = Some k \<Longrightarrow> k < length ps \<and> fst (ps ! k) = 0 \<and> (\<forall>j < k. fst (ps ! j) \<noteq> 0)"
proof (induction ps arbitrary: k)
  case (Cons p ps)
  then show ?case by (cases k) (auto simp: less_Suc_eq_0_disj split: if_splits)
qed simp

lemma free_pipe_none: "free_pipe 0 ps = None \<longleftrightarrow> (\<forall>p \<in> set ps. fst p \<noteq> 0)"
  by (induction ps) auto

text \<open>Opening a pipe takes the first free entry of the table, for the process and with the number the server gave, and
  leaves every other entry alone; without a free entry the server is not asked.\<close>

theorem create_pipe_opens:
  assumes "length (pipes c) = MFILE" "extract_path (word_byte flags 3) (cwd c) path = Some (Inr (Some (service, relpath)))"
    and "0 \<notin> set relpath" "length service \<le> max (length path) 4" "0 < sys_daemon sys service"
    and "sys_server sys (sys_daemon sys service) = Some srv" "sv_is_symlink srv relpath s = None"
    and "sv_create_pipe srv relpath flags s = Inr (i, s')" "i \<noteq> 0"
  shows "case free_pipe 0 (pipes c) of
      None \<Rightarrow> create_pipe sys path flags c s = Some (Inr (Inl (Some EMFILE), c, s)) \<and> (\<forall>q < int MFILE. 0 \<le> q \<longrightarrow> pipe_at c q \<noteq> None)
    | Some k \<Rightarrow> \<exists>c'. create_pipe sys path flags c s = Some (Inr (Inr k, c', s')) \<and> pipe_at c (int k) = None \<and>
        (\<forall>q. pipe_at c' q = (if q = int k then Some (sys_daemon sys service, i) else pipe_at c q))"
proof (cases "free_pipe 0 (pipes c)")
  case None
  have "fst (pipes c ! j) \<noteq> 0" if "j < MFILE" for j using None that assms(1) by (auto simp: free_pipe_none)
  then have "pipe_at c q \<noteq> None" if "q < int MFILE" "0 \<le> q" for q
    using that by (auto simp: pipe_at_def nat_less_iff)
  then show ?thesis
    using None by (simp add: create_pipe.simps [of sys path] open_pipe_def)
next
  case (Some k)
  note k = free_pipe_first [OF Some]
  let ?pid = "sys_daemon sys service"
  have link: "ipc_request sys ?pid IS_SYMLINK (relpath @ [0]) shm s = Inr (0, None, shm, s)" for shm
    using assms(3,6,7) by (simp add: ipc_request_def popup_trampoline_def vfs_is_symlink_def c_string_terminated)
  have create: "ipc_request sys ?pid CREATE_PIPE (put32 flags @ relpath @ [0]) [] s = Inr (ucast i, None, [], s')"
    using assms(3,6,8) by (simp add: ipc_request_def popup_trampoline_def vfs_create_pipe_def c_string_terminated)
  have i: "ucast (ucast i :: u64) = i" by (rule bit_word_eqI) (auto simp: bit_simps)
  have "open_pipe sys path flags c s = Some (Inr (Inr (Inr k), set_pipe k (?pid, i) c, s'))"
    using assms(2,4,5,9) Some by (auto simp: open_pipe_def link create i Let_def)
  then have "create_pipe sys path flags c s = Some (Inr (Inr k, set_pipe k (?pid, i) c, s'))"
    by (simp add: create_pipe.simps [of sys path])
  moreover have "pipe_at (set_pipe k (?pid, i) c) q = (if q = int k then Some (?pid, i) else pipe_at c q)" for q
    using k assms(1,5) by (auto simp: pipe_at_def set_pipe_def nth_list_update)
  moreover have "pipe_at c (int k) = None" using k by (simp add: pipe_at_def)
  ultimately show ?thesis using Some by auto
qed

theorem create_pipe_opens_witness:
  "\<exists>c s. create_pipe demo_system [47, 101, 116, 104, 48] 0 demo_client (demo_eth, []) = Some (Inr (Inr 1, c, s)) \<and> pipe_at c 1 = Some (9, 3)"
proof -
  have path: "extract_path (word_byte 0 3) (cwd demo_client) [47, 101, 116, 104, 48] = Some (Inr (Some ([114, 111, 111, 116], [47, 101, 116, 104, 48])))"
    using simplify_path_spec [of "word_byte 0 3" "[101, 116, 104, 48]"]
    by (subst extract_path.simps) (simp add: word_byte_def components.simps enter_def join_path_def)
  obtain s' where "sv_create_pipe (eth_server (\<lambda>_. 0) 5) [47, 101, 116, 104, 48] 0 (demo_eth, []) = Inr (3, s')"
    by (simp add: eth_server_def eth_create_pipe_def path_literals demo_eth_def card_at_def demo_card_def card_name_0
        new_listener_def new_file_def)
  moreover have "free_pipe 0 (pipes demo_client) = Some 1" by (simp add: demo_client_def numeral_eq_Suc)
  moreover have "length (pipes demo_client) = MFILE" by (simp add: demo_client_def MFILE_def)
  moreover have "sys_daemon demo_system [114, 111, 111, 116] = 9" "sys_server demo_system 9 = Some (eth_server (\<lambda>_. 0) 5)"
    "sv_is_symlink (eth_server (\<lambda>_. 0) 5) [47, 101, 116, 104, 48] (demo_eth, []) = None"
    by (simp_all add: demo_system_def eth_server_def)
  ultimately show ?thesis
    using create_pipe_opens [OF _ path, of demo_system "eth_server (\<lambda>_. 0) 5" "(demo_eth, [])" 3 s'] by auto
qed

text \<open>The array for the name of the service has the length of the path, but a relative path takes its service from the
  working directory.\<close>

lemma create_pipe_overruns:
  assumes "cwd c = Some (40 # service @ [41])" "41 \<notin> set service" "max (length path) 4 < length service"
    and "path \<noteq> []" "hd path \<noteq> slash" "hd path \<noteq> 40" "\<not> names_service path" "word_byte flags 3 \<noteq> slash"
    and "free_pipe 0 (pipes c) = Some k"
  shows "open_pipe sys path flags c s = Some (Inl OutOfBounds)"
proof -
  let ?b = "word_byte flags 3"
  have "extract_path ?b (cwd c) path = extract_path ?b (cwd c) ((40 # service @ [41]) @ slash # path)"
    using assms(1,4-7) by (subst extract_path.simps) simp
  also have "\<dots> = Some (split_service ?b ((40 # service @ [41]) @ slash # path))"
    by (subst extract_path.simps) simp
  also have "\<dots> = Some (Inr (Some (service, join_path (foldl enter [] (components path)))))"
    using assms(2,8) simplify_path_spec [of ?b path] by (simp add: split_service_def Let_def takeWhile_append dropWhile_append)
  finally show ?thesis using assms(3,9) by (simp add: open_pipe_def)
qed

end
