(* ===== verification/Tar.thy ===== *)
theory Tar
  imports Vfs
begin

unbundle bit_operations_syntax

text \<open>
  The server for tar archives (\<open>progs/common/tar/tar.c\<close>). Nodes form a tree whose lists of siblings are in the order of
  the archive; every node has a number that stands for its address, so that pipes can be seen to refer to a node that has
  been freed. Buffers with directory listings have numbers for the same reason. What another server returns for the name of
  the archive is a parameter.
\<close>

section \<open>Definitions\<close>

record tar_attr =
  ta_data :: "u8 list"
  ta_sz :: u32
  ta_mode :: u32
  ta_uid :: u32
  ta_gid :: u32
  ta_mtime :: u32

datatype tar_node = TarNode (tn_id: nat) (tn_name: "u8 list") (tn_attr: tar_attr) (tn_children: "tar_node list")

datatype tar_type = T_MP "u8 list" | T_NODE tar_node | T_ROOT

record tar_file =
  tf_type :: tar_type
  tf_data :: "u8 list"     \<comment> \<open>the bytes at \<open>ptr\<close>\<close>
  tf_sz :: u32
  tf_off :: u64
  tf_buf :: "nat option"   \<comment> \<open>the buffer, if \<open>data_alloced\<close>\<close>

record tar_service =
  ts_mounts :: "(u8 list \<times> tar_node list) list"
  ts_files :: "nat \<Rightarrow> tar_file option"
  ts_fresh :: nat
  ts_freed :: "nat set"

definition S_IFMT :: u32 where "S_IFMT = 0xFF000"
definition S_IFODEV :: u32 where "S_IFODEV = 0x80000"
definition S_IFREG :: u32 where "S_IFREG = 0x10000"
definition S_IFDIR :: u32 where "S_IFDIR = 0x4000"
definition S_RWX :: u32 where "S_RWX = 0x1FF"

definition S_ISDIR :: "u32 \<Rightarrow> bool" where
  "S_ISDIR m \<longleftrightarrow> m AND S_IFDIR \<noteq> 0"

definition O_CREAT_MOUNT_POINT :: u32 where "O_CREAT_MOUNT_POINT = 0x10000"
definition F_MOUNT_FILE :: u32 where "F_MOUNT_FILE = 1"

fun parse_digits :: "u32 \<Rightarrow> u8 list \<Rightarrow> u32" where
  "parse_digits val [] = val"
| "parse_digits val (ch # cs) = parse_digits (push_bit 3 val + scast ch - 48) cs"

definition parse_tar_number :: "u8 list \<Rightarrow> u32" where
  "parse_tar_number field = parse_digits 0 (butlast field)"

text \<open>The tokens that \<open>strtok\<close> finds between slashes.\<close>

fun path_parts_from :: "u8 list \<Rightarrow> u8 list \<Rightarrow> u8 list list" where
  "path_parts_from cur [] = (if cur = [] then [] else [cur])"
| "path_parts_from cur (b # bs) =
    (if b = 47 then (if cur = [] then [] else [cur]) @ path_parts_from [] bs else path_parts_from (cur @ [b]) bs)"

definition path_parts :: "u8 list \<Rightarrow> u8 list list" where
  "path_parts s = path_parts_from [] s"

subsection \<open>Reading an archive\<close>

definition dir_attr :: tar_attr where
  "dir_attr = \<lparr>ta_data = [], ta_sz = 0, ta_mode = S_IFDIR OR S_RWX, ta_uid = 0, ta_gid = 0, ta_mtime = 0\<rparr>"

text \<open>The loop over the parts of a name: existing nodes are descended into, missing ones are made. \<open>None\<close> says that no node
  was made, so that \<open>final\<close> is still the null pointer; otherwise the last one made gets the attributes.\<close>

fun put_node :: "u8 list list \<Rightarrow> tar_attr \<Rightarrow> nat \<Rightarrow> tar_node list \<Rightarrow> (tar_node list \<times> nat) option" where
  "put_node [] a n ts = None"
| "put_node (p # ps) a n [] =
    (case put_node ps a (Suc n) [] of
       None \<Rightarrow> Some ([TarNode n p a []], Suc n)
     | Some (cs, m) \<Rightarrow> Some ([TarNode n p dir_attr cs], m))"
| "put_node (p # ps) a n (t # ts) =
    (if tn_name t = p then
       (case put_node ps a n (tn_children t) of
          None \<Rightarrow> None
        | Some (cs, m) \<Rightarrow> Some (TarNode (tn_id t) (tn_name t) (tn_attr t) cs # ts, m))
     else
       (case put_node (p # ps) a n ts of
          None \<Rightarrow> None
        | Some (ts, m) \<Rightarrow> Some (t # ts, m)))"

definition field :: "u8 list \<Rightarrow> nat \<Rightarrow> nat \<Rightarrow> u8 list" where
  "field h ofs len = take len (drop ofs h)"

definition header_name :: "u8 list \<Rightarrow> u8 list" where
  "header_name h = takeWhile (\<lambda>b. b \<noteq> 0) (take 100 h)"

definition header_attr :: "u8 list \<Rightarrow> tar_attr" where
  "header_attr h =
    (let isdir = (last (header_name h) = 47);
         sz = parse_tar_number (field h 124 12);
         mode = parse_tar_number (field h 100 8)
     in \<lparr>ta_data = take (unat sz) (drop 512 h), ta_sz = sz,
         ta_mode = (if mode AND S_IFMT = 0 then mode OR (if isdir then S_IFDIR else S_IFREG) else mode),
         ta_uid = parse_tar_number (field h 108 8), ta_gid = parse_tar_number (field h 116 8),
         ta_mtime = parse_tar_number (field h 136 12)\<rparr>)"

text \<open>Where the next header is, from the start of this one.\<close>

definition header_step :: "u32 \<Rightarrow> nat" where
  "header_step sz = 512 + unat ((sz + 511) AND NOT 511)"

text \<open>The loop over the headers of the archive; \<open>h\<close> is the archive from the current header on.\<close>

function tar_load :: "u8 list \<Rightarrow> nat \<Rightarrow> tar_node list \<Rightarrow> (tar_node list \<times> nat) outcome" where
  "tar_load h n ts =
    (if h = [] \<or> hd h = 0 then Inr (ts, n)
     else if 0 \<notin> set (take 100 h) \<or> length h < 148 then Inl OutOfBounds
     else
       let a = header_attr h in
       case put_node (path_parts (header_name h)) a n ts of
         None \<Rightarrow> Inl BadPointer
       | Some (ts, n) \<Rightarrow>
           if ta_sz a \<noteq> 0 \<and> length h < 512 + unat (ta_sz a) then Inl OutOfBounds
           else tar_load (drop (header_step (ta_sz a)) h) n ts)"
  by pat_completeness auto
termination
  by (relation "measure (\<lambda>(h, n, ts). length h)") (auto simp: header_step_def)

declare tar_load.simps [simp del]

subsection \<open>Files\<close>

definition tar_file_at :: "tar_service \<Rightarrow> nat \<Rightarrow> tar_file outcome" where
  "tar_file_at st f = (case ts_files st f of None \<Rightarrow> Inl BadPointer | Some x \<Rightarrow> Inr x)"

text \<open>The pointers that a file holds still point to something.\<close>

definition file_live :: "tar_service \<Rightarrow> tar_file \<Rightarrow> bool" where
  "file_live st x \<longleftrightarrow> (case tf_type x of T_NODE t \<Rightarrow> tn_id t \<notin> ts_freed st | _ \<Rightarrow> True) \<and>
    (case tf_buf x of Some b \<Rightarrow> b \<notin> ts_freed st | None \<Rightarrow> True)"

definition listing :: "u8 list list \<Rightarrow> u8 list" where
  "listing names = concat (map (\<lambda>n. n @ [0]) names) @ [0]"

definition new_tar_file :: "tar_file \<Rightarrow> tar_service \<Rightarrow> nat \<times> tar_service" where
  "new_tar_file x st =
    (let f = Suc (ts_fresh st) in (f, st\<lparr>ts_files := (ts_files st)(f \<mapsto> x), ts_fresh := f\<rparr>))"

definition new_directory :: "tar_type \<Rightarrow> u8 list list \<Rightarrow> tar_service \<Rightarrow> nat \<times> tar_service" where
  "new_directory ty names st =
    (let b = Suc (ts_fresh st); d = listing names in
     new_tar_file \<lparr>tf_type = ty, tf_data = d, tf_sz = of_nat (length d), tf_off = 0, tf_buf = Some b\<rparr>
       (st\<lparr>ts_fresh := b\<rparr>))"

text \<open>The loop of \<open>service_create_pipe\<close> over the parts of a path: the node it ends at.\<close>

fun find_node :: "u8 list list \<Rightarrow> tar_node list \<Rightarrow> tar_node option" where
  "find_node [] ts = None"
| "find_node (p # ps) ts =
    (case find (\<lambda>t. tn_name t = p) ts of None \<Rightarrow> None
     | Some t \<Rightarrow> if ps = [] then Some t else find_node ps (tn_children t))"

definition tar_create_pipe :: "u8 list \<Rightarrow> u32 \<Rightarrow> tar_service \<Rightarrow> ((net_errno + nat) \<times> tar_service) outcome" where
  "tar_create_pipe relpath flags st =
    (let failed = (\<lambda>e. Inr (Inl e, st)); made = (\<lambda>(f, st). Inr (Inr f, st)) in
     if relpath = [] then
       if flags AND O_WRONLY \<noteq> 0 then failed EACCES else made (new_directory T_ROOT (map fst (ts_mounts st)) st)
     else if 47 \<notin> set (tl relpath) then
       (case map_of (ts_mounts st) (tl relpath) of
          None \<Rightarrow>
            if flags AND O_CREAT_MOUNT_POINT = 0 then failed ENOENT
            else made (new_directory (T_MP (tl relpath)) [] (st\<lparr>ts_mounts := (tl relpath, []) # ts_mounts st\<rparr>))
        | Some roots \<Rightarrow>
            if flags AND O_WRONLY \<noteq> 0 then failed EACCES
            else made (new_directory (T_MP (tl relpath)) (map tn_name roots) st))
     else if flags AND O_WRONLY \<noteq> 0 then failed EACCES
     else
       let s = dropWhile (\<lambda>b. b = 47) (tl relpath); mp_name = takeWhile (\<lambda>b. b \<noteq> 47) s; rest = dropWhile (\<lambda>b. b \<noteq> 47) s in
       if s = [] then Inl BadPointer
       else case map_of (ts_mounts st) mp_name of
         None \<Rightarrow> failed ENOENT
       | Some roots \<Rightarrow>
           if rest = [] then Inl OutOfBounds
           else if path_parts rest = [] \<and> roots = [] then Inl BadPointer
           else case (if path_parts rest = [] then Some (hd roots) else find_node (path_parts rest) roots) of
             None \<Rightarrow> failed ENOENT
           | Some t \<Rightarrow>
               if S_ISDIR (ta_mode (tn_attr t)) then made (new_directory (T_NODE t) (map tn_name (tn_children t)) st)
               else made (new_tar_file \<lparr>tf_type = T_NODE t, tf_data = ta_data (tn_attr t), tf_sz = ta_sz (tn_attr t),
                      tf_off = 0, tf_buf = None\<rparr> st))"

definition tar_destroy_pipe :: "nat \<Rightarrow> tar_service \<Rightarrow> tar_service outcome" where
  "tar_destroy_pipe f st =
    rbind (tar_file_at st f) (\<lambda>x.
    let st' = st\<lparr>ts_files := (ts_files st)(f := None)\<rparr> in
    case tf_buf x of None \<Rightarrow> Inr st'
    | Some b \<Rightarrow> if b \<in> ts_freed st then Inl BadPointer else Inr (st'\<lparr>ts_freed := insert b (ts_freed st)\<rparr>))"

text \<open>\<open>unload_node\<close>: the nodes that it frees.\<close>

fun node_ids :: "tar_node \<Rightarrow> nat list" where
  "node_ids (TarNode i p a cs) = i # concat (map node_ids cs)"

text \<open>\<open>service_stream_send\<close>: \<open>contents\<close> says what opening a file by its name and reading it gives.\<close>

definition tar_stream_send ::
  "(u8 list \<Rightarrow> u8 list option) \<Rightarrow> nat \<Rightarrow> u8 list \<Rightarrow> u32 \<Rightarrow> tar_service \<Rightarrow> ((net_errno + nat) \<times> tar_service) outcome" where
  "tar_stream_send contents f data flags st =
    rbind (tar_file_at st f) (\<lambda>x.
    case tf_type x of
      T_MP mp \<Rightarrow>
        if flags \<noteq> F_MOUNT_FILE then Inr (Inl EACCES, st)
        else if data = [] \<or> last data \<noteq> 0 then Inr (Inl EINVAL, st)
        else (case contents (takeWhile (\<lambda>b. b \<noteq> 0) data) of
          None \<Rightarrow> Inr (Inr 0, st)
        | Some tar \<Rightarrow>
            (case map_of (ts_mounts st) mp of
               None \<Rightarrow> Inl BadPointer
             | Some roots \<Rightarrow>
                 let freed = (case roots of [] \<Rightarrow> {} | t # _ \<Rightarrow> set (node_ids t)) in
                 rbind (tar_load tar (Suc (ts_fresh st)) []) (\<lambda>(ts, n).
                   Inr (Inr (length data),
                        st\<lparr>ts_mounts := map (\<lambda>(nm, r). if nm = mp then (nm, ts) else (nm, r)) (ts_mounts st),
                           ts_fresh := n, ts_freed := ts_freed st \<union> freed\<rparr>))))
    | _ \<Rightarrow> Inr (Inl EACCES, st))"

text \<open>\<open>service_stream_recv\<close> into a buffer of \<open>size\<close> bytes. The rest of the file is computed with 64 bits and cut to 32.\<close>

definition tar_stream_recv :: "nat \<Rightarrow> nat \<Rightarrow> tar_service \<Rightarrow> (u8 list \<times> tar_service) outcome" where
  "tar_stream_recv f len st =
    rbind (tar_file_at st f) (\<lambda>x.
    let copysz = unat (ucast (ucast (tf_sz x) - tf_off x) :: u32);
        copysz = (if len < copysz then len else copysz)
    in
    if 0 < copysz \<and> \<not> file_live st x then Inl BadPointer
    else if 0 < copysz \<and> length (tf_data x) < unat (tf_off x) + copysz then Inl OutOfBounds
    else Inr (take copysz (drop (unat (tf_off x)) (tf_data x)),
              st\<lparr>ts_files := (ts_files st)(f \<mapsto> x\<lparr>tf_off := tf_off x + of_nat copysz\<rparr>)\<rparr>))"

definition tar_pipe_implements :: "nat \<Rightarrow> vfs_interface \<Rightarrow> tar_service \<Rightarrow> bool outcome" where
  "tar_pipe_implements f i st =
    rbind (tar_file_at st f) (\<lambda>x.
    if i = I_STATABLE then Inr True
    else case tf_type x of
      T_MP _ \<Rightarrow> Inr (i = I_FS)
    | T_NODE t \<Rightarrow> if tn_id t \<in> ts_freed st then Inl BadPointer else Inr (\<not> S_ISDIR (ta_mode (tn_attr t)) \<and> i = I_FILE)
    | T_ROOT \<Rightarrow> Inr False)"

text \<open>\<open>service_duplicate_pipe\<close>: the last \<open>memcpy\<close> puts the pointer of the original back over that to a copy of the listing.\<close>

definition tar_duplicate_pipe :: "nat \<Rightarrow> tar_service \<Rightarrow> (nat \<times> tar_service) outcome" where
  "tar_duplicate_pipe f st =
    rbind (tar_file_at st f) (\<lambda>x.
    if tf_type x = T_ROOT \<and> \<not> file_live st x then Inl BadPointer else Inr (new_tar_file x st))"

text \<open>A flag of the node behind a file; mount points and the root have none.\<close>

definition node_flag :: "tar_service \<Rightarrow> tar_file \<Rightarrow> u64 \<Rightarrow> (tar_attr \<Rightarrow> u64) \<Rightarrow> (net_errno + u64) outcome" where
  "node_flag st x other g = (case tf_type x of
      T_NODE t \<Rightarrow> if tn_id t \<in> ts_freed st then Inl BadPointer else Inr (Inr (g (tn_attr t)))
    | _ \<Rightarrow> Inr (Inr other))"

definition tar_get_flag :: "nat \<Rightarrow> net_flag \<Rightarrow> tar_service \<Rightarrow> (net_errno + u64) outcome" where
  "tar_get_flag f flag st =
    rbind (tar_file_at st f) (\<lambda>x.
    let left = ucast (tf_sz x) - tf_off x; sz = ucast (tf_sz x) :: u64 in
    case flag of
      F_PRESSURE \<Rightarrow> Inr (Inr left)
    | F_POSITION \<Rightarrow> Inr (Inr (tf_off x))
    | F_FILESIZE \<Rightarrow> Inr (Inr sz)
    | F_READABLE \<Rightarrow> Inr (Inr (of_bool (0 < sint left)))
    | F_WRITABLE \<Rightarrow> Inr (Inr 0)
    | F_MODE \<Rightarrow> node_flag st x (ucast (S_IFDIR OR S_IFODEV OR S_RWX)) (\<lambda>a. ucast (ta_mode a))
    | F_INODE \<Rightarrow> Inr (Inr 0)
    | F_NLINK \<Rightarrow> Inr (Inr 1)
    | F_UID \<Rightarrow> node_flag st x 0 (\<lambda>a. scast (ta_uid a))
    | F_GID \<Rightarrow> node_flag st x 0 (\<lambda>a. scast (ta_gid a))
    | F_BLOCK_SIZE \<Rightarrow> node_flag st x 1 (\<lambda>a. if S_ISDIR (ta_mode a) then 1 else 512)
    | F_BLOCK_COUNT \<Rightarrow> node_flag st x sz (\<lambda>a. if S_ISDIR (ta_mode a) then sz else ucast ((tf_sz x + 511) div 512 + 1))
    | F_ATIME \<Rightarrow> node_flag st x 0 (\<lambda>a. scast (ta_mtime a))
    | F_MTIME \<Rightarrow> node_flag st x 0 (\<lambda>a. scast (ta_mtime a))
    | F_CTIME \<Rightarrow> node_flag st x 0 (\<lambda>a. scast (ta_mtime a))
    | _ \<Rightarrow> Inr (Inl EINVAL))"

definition tar_set_flag :: "nat \<Rightarrow> net_flag \<Rightarrow> u64 \<Rightarrow> tar_service \<Rightarrow> ((net_errno + unit) \<times> tar_service) outcome" where
  "tar_set_flag f flag val st =
    rbind (tar_file_at st f) (\<lambda>x.
    case flag of
      F_POSITION \<Rightarrow> Inr (Inr (), st\<lparr>ts_files := (ts_files st)(f \<mapsto> x\<lparr>tf_off := val\<rparr>)\<rparr>)
    | F_FLUSH \<Rightarrow> Inr (Inr (), st)
    | _ \<Rightarrow> Inr (Inl EINVAL, st))"

section \<open>Lookup in the tree\<close>

definition same_node :: "tar_node \<Rightarrow> tar_node \<Rightarrow> bool" where
  "same_node t t' \<longleftrightarrow> tn_id t' = tn_id t \<and> tn_name t' = tn_name t \<and> tn_attr t' = tn_attr t"

lemma put_node_new:
  "put_node ps a n ts = Some (ts', m) \<Longrightarrow> ps \<noteq> [] \<and> (\<exists>t. find_node ps ts' = Some t \<and> tn_attr t = a \<and> n \<le> tn_id t \<and> tn_id t < m)"
proof (induction ps a n ts arbitrary: ts' m rule: put_node.induct)
  case (2 p ps a n)
  show ?case
  proof (cases "put_node ps a (Suc n) []")
    case None
    then have "ps = []" by (cases ps) (auto split: option.splits)
    then show ?thesis using 2 None by auto
  next
    case (Some r)
    obtain cs k where r: "r = (cs, k)" by (cases r)
    from 2(1) [of cs k] Some r obtain t where "ps \<noteq> []" "find_node ps cs = Some t" "tn_attr t = a" "Suc n \<le> tn_id t" "tn_id t < k" by auto
    then show ?thesis using 2(2) Some r by auto
  qed
next
  case (3 p ps a n t ts)
  show ?case
  proof (cases "tn_name t = p")
    case True
    then obtain cs where cs: "put_node ps a n (tn_children t) = Some (cs, m)"
        "ts' = TarNode (tn_id t) (tn_name t) (tn_attr t) cs # ts"
      using 3(3) by (auto split: option.splits)
    from 3(1) [OF True cs(1)] show ?thesis using True cs by auto
  next
    case False
    then obtain us where us: "put_node (p # ps) a n ts = Some (us, m)" "ts' = t # us"
      using 3(3) by (auto split: option.splits)
    from 3(2) [OF False us(1)] show ?thesis using False us by auto
  qed
qed simp

lemma put_node_keeps:
  "put_node ps a n ts = Some (ts', m) \<Longrightarrow> find_node qs ts = Some t \<Longrightarrow> \<exists>t'. find_node qs ts' = Some t' \<and> same_node t t'"
proof (induction ps a n ts arbitrary: ts' m qs rule: put_node.induct)
  case (2 p ps a n)
  then show ?case by (cases qs) auto
next
  case (3 p ps a n u ts)
  obtain q qs' where qs: "qs = q # qs'" using 3(4) by (cases qs) auto
  show ?case
  proof (cases "tn_name u = p")
    case True
    then obtain cs where cs: "put_node ps a n (tn_children u) = Some (cs, m)"
        "ts' = TarNode (tn_id u) (tn_name u) (tn_attr u) cs # ts"
      using 3(3) by (auto split: option.splits)
    show ?thesis
    proof (cases "q = p")
      case qp: True
      show ?thesis
      proof (cases "qs' = []")
        case True
        then show ?thesis using 3(4) qs qp \<open>tn_name u = p\<close> cs by (auto simp: same_node_def)
      next
        case False
        then have "find_node qs' (tn_children u) = Some t" using 3(4) qs qp \<open>tn_name u = p\<close> by auto
        from 3(1) [OF \<open>tn_name u = p\<close> cs(1) this] show ?thesis using False qs qp \<open>tn_name u = p\<close> cs by auto
      qed
    next
      case False
      then show ?thesis using 3(4) qs True cs by (auto simp: same_node_def split: option.splits if_splits)
    qed
  next
    case False
    then obtain us where us: "put_node (p # ps) a n ts = Some (us, m)" "ts' = u # us"
      using 3(3) by (auto split: option.splits)
    show ?thesis
    proof (cases "tn_name u = q")
      case True
      then show ?thesis using 3(4) qs us by (auto simp: same_node_def)
    next
      case f2: False
      then have "find_node qs ts = Some t" using 3(4) qs by auto
      from 3(2) [OF False us(1) this] show ?thesis using f2 qs us by auto
    qed
  qed
qed simp

definition ids_within :: "nat \<Rightarrow> nat \<Rightarrow> tar_node list \<Rightarrow> bool" where
  "ids_within l u ts \<longleftrightarrow> (\<forall>t \<in> set ts. \<forall>i \<in> set (node_ids t). l \<le> i \<and> i < u)"

lemma ids_within_simps [simp]:
  "ids_within l u []" "ids_within l u (TarNode i p a cs # ts) \<longleftrightarrow> l \<le> i \<and> i < u \<and> ids_within l u cs \<and> ids_within l u ts"
  by (auto simp: ids_within_def)

lemma ids_within_mono: "ids_within l u ts \<Longrightarrow> u \<le> u' \<Longrightarrow> ids_within l u' ts"
  by (force simp: ids_within_def)

lemma put_node_ids:
  "put_node ps a n ts = Some (ts', m) \<Longrightarrow> ids_within l n ts \<Longrightarrow> l \<le> n \<Longrightarrow> n < m \<and> ids_within l m ts'"
proof (induction ps a n ts arbitrary: ts' m rule: put_node.induct)
  case (2 p ps a n)
  show ?case
  proof (cases "put_node ps a (Suc n) []")
    case None
    then show ?thesis using 2 by auto
  next
    case (Some r)
    obtain cs k where r: "r = (cs, k)" by (cases r)
    from 2(1) [of cs k] Some r 2(4) have "Suc n < k" "ids_within l k cs" by auto
    then show ?thesis using 2(2,4) Some r by auto
  qed
next
  case (3 p ps a n t ts)
  obtain i q b cs where t: "t = TarNode i q b cs" by (cases t)
  show ?case
  proof (cases "tn_name t = p")
    case True
    then obtain us where us: "put_node ps a n (tn_children t) = Some (us, m)"
        "ts' = TarNode (tn_id t) (tn_name t) (tn_attr t) us # ts"
      using 3(3) by (auto split: option.splits)
    have "n < m \<and> ids_within l m us" using 3(1) [OF True us(1)] 3(4,5) t by simp
    then show ?thesis using 3(4) t us(2) ids_within_mono [of l n ts m] by auto
  next
    case False
    then obtain us where us: "put_node (p # ps) a n ts = Some (us, m)" "ts' = t # us"
      using 3(3) by (auto split: option.splits)
    have "n < m \<and> ids_within l m us" using 3(2) [OF False us(1)] 3(4,5) t by simp
    then show ?thesis using 3(4) t us(2) ids_within_mono [of l n cs m] by auto
  qed
qed simp

section \<open>The entries of an archive\<close>

text \<open>What an archive says: for every header the parts of its name and its attributes.\<close>

function archive :: "u8 list \<Rightarrow> (u8 list list \<times> tar_attr) list" where
  "archive h =
    (if h = [] \<or> hd h = 0 then []
     else (path_parts (header_name h), header_attr h) # archive (drop (header_step (ta_sz (header_attr h))) h))"
  by pat_completeness auto
termination
  by (relation "measure length") (auto simp: header_step_def)

declare archive.simps [simp del]

definition held :: "tar_node list \<Rightarrow> u8 list list \<times> tar_attr \<Rightarrow> bool" where
  "held ts = (\<lambda>(ps, a). length (ta_data a) = unat (ta_sz a) \<and> (\<exists>t. find_node ps ts = Some t \<and> tn_attr t = a))"

lemma held_keeps: "put_node ps a n ts = Some (ts', m) \<Longrightarrow> held ts e \<Longrightarrow> held ts' e"
  using put_node_keeps by (fastforce simp: held_def same_node_def)

lemma tar_load_holds:
  "tar_load h n ts = Inr (ts', m) \<Longrightarrow> list_all (held ts') (archive h) \<and> (\<forall>e. held ts e \<longrightarrow> held ts' e)"
proof (induction h n ts arbitrary: ts' m rule: tar_load.induct)
  case (1 h n ts)
  show ?case
  proof (cases "h = [] \<or> hd h = 0")
    case True
    then show ?thesis using 1(2) by (auto simp: tar_load.simps [of h] archive.simps [of h])
  next
    case False
    let ?a = "header_attr h" and ?ps = "path_parts (header_name h)"
    have "\<not> (0 \<notin> set (take 100 h) \<or> length h < 148)"
      using 1(2) False by (auto simp: tar_load.simps [of h] split: if_splits)
    moreover from this obtain us k where us: "put_node ?ps ?a n ts = Some (us, k)"
      using 1(2) False by (auto simp: tar_load.simps [of h] Let_def split: option.splits)
    moreover from calculation have len: "\<not> (ta_sz ?a \<noteq> 0 \<and> length h < 512 + unat (ta_sz ?a))"
      using 1(2) False by (auto simp: tar_load.simps [of h] Let_def split: if_splits)
    ultimately have rest: "tar_load (drop (header_step (ta_sz ?a)) h) k us = Inr (ts', m)"
      using 1(2) False by (auto simp: tar_load.simps [of h] Let_def)
    note IH = 1(1) [OF False \<open>\<not> (0 \<notin> set (take 100 h) \<or> length h < 148)\<close> refl us refl len rest]
    have "length (ta_data ?a) = unat (ta_sz ?a)" using len by (auto simp: header_attr_def Let_def)
    then have "held us (?ps, ?a)" using put_node_new [OF us] by (auto simp: held_def)
    then show ?thesis using IH False held_keeps [OF us] by (auto simp: archive.simps [of h])
  qed
qed

lemma tar_load_ids:
  "tar_load h n ts = Inr (ts', m) \<Longrightarrow> ids_within l n ts \<Longrightarrow> l \<le> n \<Longrightarrow> n \<le> m \<and> ids_within l m ts'"
proof (induction h n ts arbitrary: ts' m rule: tar_load.induct)
  case (1 h n ts)
  show ?case
  proof (cases "h = [] \<or> hd h = 0")
    case True
    then show ?thesis using 1(2,3) by (auto simp: tar_load.simps [of h])
  next
    case False
    let ?a = "header_attr h"
    have ok: "\<not> (0 \<notin> set (take 100 h) \<or> length h < 148)"
      using 1(2) False by (auto simp: tar_load.simps [of h] split: if_splits)
    obtain us k where us: "put_node (path_parts (header_name h)) ?a n ts = Some (us, k)"
      "\<not> (ta_sz ?a \<noteq> 0 \<and> length h < 512 + unat (ta_sz ?a))" "tar_load (drop (header_step (ta_sz ?a)) h) k us = Inr (ts', m)"
      using 1(2) False ok by (auto simp: tar_load.simps [of h] Let_def split: option.splits if_splits)
    have "n < k \<and> ids_within l k us" by (rule put_node_ids [OF us(1) 1(3,4)])
    then show ?thesis using 1(1) [OF False ok refl us(1) refl us(2,3)] 1(4) by auto
  qed
qed

lemma find_node_ids: "find_node ps ts = Some t \<Longrightarrow> ids_within l u ts \<Longrightarrow> l \<le> tn_id t \<and> tn_id t < u"
proof (induction ps ts rule: find_node.induct)
  case (2 p ps ts)
  then obtain s where s: "find (\<lambda>t. tn_name t = p) ts = Some s" by (auto split: option.splits)
  then have "s \<in> set ts" by (metis find_Some_iff nth_mem)
  then have "ids_within l u [s]" using 2(3) by (auto simp: ids_within_def)
  then have "ids_within l u (tn_children s) \<and> l \<le> tn_id s \<and> tn_id s < u" by (cases s) simp
  then show ?case using 2 s by (auto split: if_splits)
qed simp

section \<open>The service\<close>

text \<open>Numbers in use are below \<open>ts_fresh\<close>.\<close>

definition tar_inv :: "tar_service \<Rightarrow> bool" where
  "tar_inv st \<longleftrightarrow> (\<forall>i \<in> ts_freed st. i \<le> ts_fresh st) \<and>
    (\<forall>(nm, ts) \<in> set (ts_mounts st). ids_within 0 (Suc (ts_fresh st)) ts) \<and>
    (\<forall>f x b. ts_files st f = Some x \<and> tf_buf x = Some b \<longrightarrow> b \<le> ts_fresh st) \<and>
    (\<forall>f x. ts_files st f = Some x \<longrightarrow> f \<le> ts_fresh st)"

lemma tar_inv_grow:
  "tar_inv st \<Longrightarrow> ts_fresh st \<le> n \<Longrightarrow> tar_inv (st\<lparr>ts_fresh := n\<rparr>)"
  by (fastforce simp: tar_inv_def intro: ids_within_mono)

lemma new_tar_file_inv:
  assumes "tar_inv st" "\<And>b. tf_buf x = Some b \<Longrightarrow> b \<le> Suc (ts_fresh st)"
  shows "tar_inv (snd (new_tar_file x st))"
  using tar_inv_grow [OF assms(1), of "Suc (ts_fresh st)"] assms(2)
  by (auto simp: tar_inv_def new_tar_file_def Let_def)

lemma new_directory_inv: "tar_inv st \<Longrightarrow> tar_inv (snd (new_directory ty names st))"
  unfolding new_directory_def Let_def by (rule new_tar_file_inv) (use tar_inv_grow in simp_all)

lemma made_inv: "tar_inv (snd r) \<Longrightarrow> (case r of (f, st) \<Rightarrow> Inr (Inr f, st)) = Inr (q, st') \<Longrightarrow> tar_inv st'"
  by (cases r) auto

lemma tar_create_inv:
  assumes inv: "tar_inv st" and run: "tar_create_pipe relpath flags st = Inr (r, st')"
  shows "tar_inv st'"
proof -
  define P where "P = (\<lambda>res :: ((net_errno + nat) \<times> tar_service) outcome. \<forall>r st'. res = Inr (r, st') \<longrightarrow> tar_inv st')"
  have failed: "P (Inr (Inl e, st))" for e using inv by (simp add: P_def)
  have dir: "P ((\<lambda>(f, st). Inr (Inr f, st)) (new_directory ty names st))" for ty names
    using new_directory_inv [OF inv, of ty names] by (auto simp: P_def case_prod_beta)
  have "tar_inv (st\<lparr>ts_mounts := (nm, []) # ts_mounts st\<rparr>)" for nm using inv by (auto simp: tar_inv_def)
  from new_directory_inv [OF this]
  have mount: "P ((\<lambda>(f, st). Inr (Inr f, st)) (new_directory (T_MP nm) [] (st\<lparr>ts_mounts := (nm, []) # ts_mounts st\<rparr>)))" for nm
    by (auto simp: P_def case_prod_beta)
  have regular: "P ((\<lambda>(f, st). Inr (Inr f, st)) (new_tar_file \<lparr>tf_type = T_NODE t, tf_data = d, tf_sz = sz, tf_off = 0, tf_buf = None\<rparr> st))" for t d sz
    using new_tar_file_inv [OF inv, of "\<lparr>tf_type = T_NODE t, tf_data = d, tf_sz = sz, tf_off = 0, tf_buf = None\<rparr>"]
    by (auto simp: P_def case_prod_beta)
  have fault: "P (Inl e)" for e by (simp add: P_def)
  have ifI: "P (if b then x else y)" if "P x" "P y" for b x y using that by simp
  have optL: "P (case z of None \<Rightarrow> x | Some w \<Rightarrow> y w)" if "P x" "\<And>w. P (y w)" for z :: "tar_node list option" and x y
    using that by (simp split: option.split)
  have optN: "P (case z of None \<Rightarrow> x | Some w \<Rightarrow> y w)" if "P x" "\<And>w. P (y w)" for z :: "tar_node option" and x y
    using that by (simp split: option.split)
  have "P (tar_create_pipe relpath flags st)"
    unfolding tar_create_pipe_def Let_def by (intro ifI optL optN failed dir mount regular fault)
  then show ?thesis using run by (simp add: P_def)
qed

lemma tar_destroy_inv:
  assumes "tar_inv st" "tar_destroy_pipe f st = Inr st'"
  shows "tar_inv st'"
proof -
  obtain x where x: "ts_files st f = Some x" using assms(2) by (auto simp: tar_destroy_pipe_def tar_file_at_def outcome_simps split: option.splits)
  have "tar_inv (st\<lparr>ts_files := (ts_files st)(f := None)\<rparr>)" using assms(1) by (auto simp: tar_inv_def)
  moreover have "tf_buf x = Some b \<Longrightarrow> b \<le> ts_fresh st" for b using assms(1) x by (auto simp: tar_inv_def)
  ultimately show ?thesis using assms(2) x
    by (auto simp: tar_destroy_pipe_def tar_file_at_def Let_def tar_inv_def split: option.splits if_splits)
qed

lemma tar_send_Inr:
  assumes "tar_stream_send contents f data flags st = Inr (r, st')" "st' \<noteq> st"
  obtains x mp tar roots ts n where "ts_files st f = Some x" "tf_type x = T_MP mp" "flags = F_MOUNT_FILE"
    "contents (takeWhile (\<lambda>b. b \<noteq> 0) data) = Some tar" "map_of (ts_mounts st) mp = Some roots"
    "tar_load tar (Suc (ts_fresh st)) [] = Inr (ts, n)" "r = Inr (length data)"
    "st' = st\<lparr>ts_mounts := map (\<lambda>(nm, r). if nm = mp then (nm, ts) else (nm, r)) (ts_mounts st), ts_fresh := n,
      ts_freed := ts_freed st \<union> (case roots of [] \<Rightarrow> {} | t # _ \<Rightarrow> set (node_ids t))\<rparr>"
  using assms
  by (auto simp: tar_stream_send_def tar_file_at_def outcome_simps Let_def split: option.splits tar_type.splits if_splits)

lemma tar_send_inv:
  assumes inv: "tar_inv st" and run: "tar_stream_send contents f data flags st = Inr (r, st')"
  shows "tar_inv st'"
proof (cases "st' = st")
  case False
  from run this obtain x mp tar roots ts n where s: "map_of (ts_mounts st) mp = Some roots"
    "tar_load tar (Suc (ts_fresh st)) [] = Inr (ts, n)"
    "st' = st\<lparr>ts_mounts := map (\<lambda>(nm, r). if nm = mp then (nm, ts) else (nm, r)) (ts_mounts st), ts_fresh := n,
      ts_freed := ts_freed st \<union> (case roots of [] \<Rightarrow> {} | t # _ \<Rightarrow> set (node_ids t))\<rparr>"
    by (rule tar_send_Inr)
  have n: "Suc (ts_fresh st) \<le> n" "ids_within 0 n ts" using tar_load_ids [OF s(2), of 0] by simp_all
  have roots: "ids_within 0 (Suc (ts_fresh st)) roots" using inv map_of_SomeD [OF s(1)] by (auto simp: tar_inv_def)
  then have "\<forall>i \<in> (case roots of [] \<Rightarrow> {} | t # _ \<Rightarrow> set (node_ids t)). i \<le> ts_fresh st"
    by (auto simp: ids_within_def less_Suc_eq_le split: list.splits)
  then have fr: "\<forall>i \<in> ts_freed st'. i \<le> ts_fresh st'" using inv n(1) s(3) by (auto simp: tar_inv_def)
  have "ids_within 0 (Suc n) ts" using n(2) ids_within_mono by auto
  moreover have "ids_within 0 (Suc n) us" if "(nm, us) \<in> set (ts_mounts st)" for nm us
  proof -
    have "ids_within 0 (Suc (ts_fresh st)) us" using inv that by (auto simp: tar_inv_def)
    then show ?thesis using n(1) by (rule ids_within_mono [OF _ le_SucI])
  qed
  ultimately have "\<forall>(nm, us) \<in> set (ts_mounts st'). ids_within 0 (Suc (ts_fresh st')) us" using s(3) by (auto split: if_splits)
  moreover have fs: "ts_files st' = ts_files st" "ts_fresh st \<le> ts_fresh st'" using s(3) n(1) by simp_all
  moreover have "(\<forall>f x b. ts_files st f = Some x \<and> tf_buf x = Some b \<longrightarrow> b \<le> ts_fresh st') \<and>
      (\<forall>f x. ts_files st f = Some x \<longrightarrow> f \<le> ts_fresh st')"
    using inv fs(2) unfolding tar_inv_def by (meson le_trans)
  ultimately show ?thesis using fr by (simp only: tar_inv_def)
qed (use inv in simp)

lemma tar_other_inv:
  assumes "tar_inv st"
  shows "tar_stream_recv f len st = Inr (d, st') \<Longrightarrow> tar_inv st'"
    "tar_duplicate_pipe f st = Inr (g, st') \<Longrightarrow> tar_inv st'"
    "tar_set_flag f flag val st = Inr (r, st') \<Longrightarrow> tar_inv st'"
proof -
  have upd: "tar_inv (st\<lparr>ts_files := (ts_files st)(f \<mapsto> y)\<rparr>)" if "ts_files st f = Some x" "tf_buf y = tf_buf x" for x y
    using assms that by (auto simp: tar_inv_def)
  show "tar_inv st'" if "tar_stream_recv f len st = Inr (d, st')"
    using that upd by (auto simp: tar_stream_recv_def tar_file_at_def outcome_simps Let_def split: option.splits if_splits)
  show "tar_inv st'" if h: "tar_duplicate_pipe f st = Inr (g, st')"
  proof -
    obtain x where x: "ts_files st f = Some x" "new_tar_file x st = (g, st')"
      using h by (auto simp: tar_duplicate_pipe_def tar_file_at_def outcome_simps split: option.splits if_splits)
    have "tf_buf x = Some b \<Longrightarrow> b \<le> Suc (ts_fresh st)" for b using assms x(1) unfolding tar_inv_def by (metis le_SucI)
    then show ?thesis using new_tar_file_inv [OF assms, of x] x(2) by auto
  qed
  show "tar_inv st'" if "tar_set_flag f flag val st = Inr (r, st')"
    using that upd assms by (auto simp: tar_set_flag_def tar_file_at_def outcome_simps split: option.splits net_flag.splits)
qed

section \<open>Reading files\<close>

fun tar_reads :: "nat \<Rightarrow> nat list \<Rightarrow> tar_service \<Rightarrow> u8 list outcome" where
  "tar_reads g [] st = Inr []"
| "tar_reads g (n # ns) st =
    rbind (tar_stream_recv g n st) (\<lambda>(d, st). rbind (tar_reads g ns st) (\<lambda>ds. Inr (d @ ds)))"

lemma rest_of_file:
  fixes sz :: u32 and off :: u64
  assumes "unat off \<le> unat sz"
  shows "unat (ucast (ucast sz - off) :: u32) = unat sz - unat off"
proof -
  have "unat sz < 2 ^ 64" using unsigned_less [of sz, where ?'a = nat] by simp
  then have "unat (ucast sz :: u64) = unat sz" by (simp add: unsigned_ucast_eq take_bit_nat_eq_self)
  then have u: "unat (ucast sz - off) = unat sz - unat off" using assms by (subst unat_sub) (simp_all add: word_le_nat_alt)
  have "unat (ucast (ucast sz - off) :: u32) = unat (ucast sz - off) mod 2 ^ 32" by (simp add: unsigned_ucast_eq take_bit_eq_mod)
  then show ?thesis using u unsigned_less [of sz, where ?'a = nat] by simp
qed

definition readable :: "tar_service \<Rightarrow> nat \<Rightarrow> u8 list \<Rightarrow> nat \<Rightarrow> bool" where
  "readable st g data k \<longleftrightarrow> (\<exists>x. ts_files st g = Some x \<and> file_live st x \<and> tf_data x = data \<and> length data = unat (tf_sz x) \<and>
     unat (tf_off x) = k \<and> k \<le> length data)"

lemma recv_readable:
  assumes "readable st g data k"
  shows "\<exists>st'. tar_stream_recv g n st = Inr (take n (drop k data), st') \<and> readable st' g data (k + min n (length data - k))"
proof -
  obtain x where x: "ts_files st g = Some x" "file_live st x" "tf_data x = data" "length data = unat (tf_sz x)"
      "unat (tf_off x) = k" "k \<le> length data" using assms by (auto simp: readable_def)
  let ?c = "min n (length data - k)"
  have c: "(if n < unat (ucast (ucast (tf_sz x) - tf_off x) :: u32) then n else unat (ucast (ucast (tf_sz x) - tf_off x) :: u32)) = ?c"
    using rest_of_file [of "tf_off x" "tf_sz x"] x by auto
  let ?x = "x\<lparr>tf_off := tf_off x + of_nat ?c\<rparr>" and ?st = "st\<lparr>ts_files := (ts_files st)(g \<mapsto> x\<lparr>tf_off := tf_off x + of_nat ?c\<rparr>)\<rparr>"
  have "k + ?c \<le> length data" using x(6) by simp
  moreover have "length data < 2 ^ 32" using x(4) unsigned_less [of "tf_sz x"] by simp
  ultimately have "k + ?c < 2 ^ 64" by simp
  then have off: "unat (tf_off x + of_nat ?c) = k + ?c" using x(5) by (simp add: unat_word_ariths unat_of_nat)
  have tk: "take ?c (drop k data) = take n (drop k data)" by (simp add: min_def)
  have fit: "\<not> (0 < ?c \<and> length (tf_data x) < unat (tf_off x) + ?c)" using x by (auto simp: min_def split: if_splits)
  have run: "tar_stream_recv g n st = Inr (take n (drop k data), ?st)"
    unfolding tar_stream_recv_def tar_file_at_def x(1) option.case rbind_simps Let_def c if_not_P [OF fit]
    using x(2,3,5) tk by simp
  have "file_live ?st ?x" using x(2) by (simp add: file_live_def cong: tar_type.case_cong option.case_cong)
  then show ?thesis using run x off by (auto simp: readable_def)
qed

lemma reads_readable:
  "readable st g data k \<Longrightarrow> tar_reads g ns st = Inr (take (sum_list ns) (drop k data))"
proof (induction ns arbitrary: st k)
  case (Cons n ns)
  obtain st' where st': "tar_stream_recv g n st = Inr (take n (drop k data), st')" "readable st' g data (k + min n (length data - k))"
    using recv_readable [OF Cons.prems] by blast
  have "take n (drop k data) @ take (sum_list ns) (drop (k + min n (length data - k)) data) = take (n + sum_list ns) (drop k data)"
    by (cases "n \<le> length data - k") (simp_all add: take_add add.commute min_def)
  then show ?case using st'(1) Cons.IH [OF st'(2)] by simp
qed simp

lemma path_parts_slash: "path_parts (47 # rest) = path_parts rest"
  by (simp add: path_parts_def)

lemma path_split:
  "47 \<notin> set mp \<Longrightarrow> takeWhile (\<lambda>b. b \<noteq> 47) (mp @ 47 # rest) = mp \<and> dropWhile (\<lambda>b. b \<noteq> 47) (mp @ 47 # rest) = (47 :: u8) # rest"
  by (induction mp) auto

text \<open>C22: A mounted archive can be read back. When the server has mounted an archive, then for every header in it that is not a
  directory, opening the path of the header below the mount point gives a pipe with the size from the header, and reading it in
  pieces of any sizes returns the bytes that follow the header in the archive, in order, up to their end.\<close>

theorem tar_reads_back:
  assumes inv: "tar_inv st" and f: "ts_files st f = Some x" "tf_type x = T_MP mp" "mp \<noteq> []" "47 \<notin> set mp"
    and name: "0 \<notin> set name" "contents name = Some tar"
    and mount: "tar_stream_send contents f (name @ [0]) F_MOUNT_FILE st = Inr (Inr k, st1)"
    and e: "(path_parts rest, a) \<in> set (archive tar)" "\<not> S_ISDIR (ta_mode a)" "flags AND O_WRONLY = 0"
  shows "\<exists>g st2. tar_create_pipe (47 # mp @ 47 # rest) flags st1 = Inr (Inr g, st2) \<and>
    tar_get_flag g F_FILESIZE st2 = Inr (Inr (ucast (ta_sz a))) \<and> length (ta_data a) = unat (ta_sz a) \<and>
    (\<forall>ns. tar_reads g ns st2 = Inr (take (sum_list ns) (ta_data a)))"
proof -
  have tw: "takeWhile (\<lambda>b. b \<noteq> 0) (name @ [0]) = name" using name(1) by (induction name) auto
  obtain roots ts n where m: "map_of (ts_mounts st) mp = Some roots" "tar_load tar (Suc (ts_fresh st)) [] = Inr (ts, n)"
    and st1: "st1 = st\<lparr>ts_mounts := map (\<lambda>(nm, r). if nm = mp then (nm, ts) else (nm, r)) (ts_mounts st), ts_fresh := n,
      ts_freed := ts_freed st \<union> (case roots of [] \<Rightarrow> {} | t # _ \<Rightarrow> set (node_ids t))\<rparr>"
    using mount f name(2) tw
    by (auto simp: tar_stream_send_def tar_file_at_def outcome_simps Let_def split: option.splits if_splits)
  have mp: "map_of (ts_mounts st1) mp = Some ts"
  proof -
    have "map_of xs mp = Some r \<Longrightarrow> map_of (map (\<lambda>(nm, r). if nm = mp then (nm, ts) else (nm, r)) xs) mp = Some ts" for xs r
      by (induction xs) (auto split: if_splits)
    then show ?thesis using m(1) st1 by simp
  qed
  have h: "held ts (path_parts rest, a)" using tar_load_holds [OF m(2)] e(1) by (auto simp: list_all_iff)
  then obtain t where t: "find_node (path_parts rest) ts = Some t" "tn_attr t = a" "length (ta_data a) = unat (ta_sz a)"
    by (auto simp: held_def)
  have ids: "ids_within (Suc (ts_fresh st)) n ts" using tar_load_ids [OF m(2), of "Suc (ts_fresh st)"] by simp
  have new: "Suc (ts_fresh st) \<le> tn_id t" using find_node_ids [OF t(1) ids] by simp
  have "ids_within 0 (Suc (ts_fresh st)) roots" using inv map_of_SomeD [OF m(1)] by (auto simp: tar_inv_def)
  then have "\<forall>i \<in> ts_freed st1. i \<le> ts_fresh st"
    using inv st1 by (auto simp: tar_inv_def ids_within_def less_Suc_eq_le split: list.splits)
  then have live: "tn_id t \<notin> ts_freed st1" using new by (meson not_less_eq_eq)
  have ne: "path_parts rest \<noteq> []" using t(1) by (cases "path_parts rest") auto
  let ?x = "\<lparr>tf_type = T_NODE t, tf_data = ta_data a, tf_sz = ta_sz a, tf_off = 0, tf_buf = None\<rparr>"
  let ?g = "Suc (ts_fresh st1)" and ?st2 = "snd (new_tar_file ?x st1)"
  have sp: "dropWhile (\<lambda>b. b = 47) (mp @ 47 # rest) = mp @ 47 # rest" using f(3,4) by (cases mp) auto
  note sp = sp path_split [OF f(4), of rest]
  have run: "tar_create_pipe (47 # mp @ 47 # rest) flags st1 = Inr (Inr ?g, ?st2)"
    using e(2,3) mp t(1,2) ne sp by (simp add: tar_create_pipe_def Let_def path_parts_slash new_tar_file_def)
  have "readable ?st2 ?g (ta_data a) 0"
    using live t(3) by (simp add: readable_def new_tar_file_def Let_def file_live_def)
  from reads_readable [OF this] have "\<forall>ns. tar_reads ?g ns ?st2 = Inr (take (sum_list ns) (ta_data a))" by simp
  moreover have "tar_get_flag ?g F_FILESIZE ?st2 = Inr (Inr (ucast (ta_sz a)))"
    by (simp add: tar_get_flag_def tar_file_at_def new_tar_file_def Let_def)
  ultimately show ?thesis using run t(3) by blast
qed

definition demo_tar :: "u8 list" where
  "demo_tar = [97] @ replicate 99 0 @ replicate 4 48 @ [54, 52, 52, 0] @ replicate 16 48 @ replicate 10 48 @ [50, 0] @
     replicate 376 48 @ [1, 2]"

definition demo_tar_service :: tar_service where
  "demo_tar_service = \<lparr>ts_mounts = [([109], [])], ts_files = [2 \<mapsto> \<lparr>tf_type = T_MP [109], tf_data = [0], tf_sz = 1, tf_off = 0, tf_buf = Some 1\<rparr>],
     ts_fresh = 2, ts_freed = {}\<rparr>"

lemma demo_tar_archive:
  "\<exists>a. archive demo_tar = [([[97]], a)] \<and> ta_data a = [1, 2] \<and> ta_mode a = 0x101A4 \<and> tar_load demo_tar 3 [] = Inr ([TarNode 3 [97] a []], 4)"
proof -
  let ?a = "\<lparr>ta_data = [1, 2], ta_sz = 2, ta_mode = 0x101A4, ta_uid = 0, ta_gid = 0, ta_mtime = 0\<rparr>"
  have "archive demo_tar = [([[97]], ?a)]" by code_simp
  moreover have "tar_load demo_tar 3 [] = Inr ([TarNode 3 [97] ?a []], 4)" by code_simp
  ultimately show ?thesis by auto
qed

theorem tar_reads_back_witness:
  "\<exists>st1 g st2. tar_stream_send (\<lambda>_. Some demo_tar) 2 [120, 0] F_MOUNT_FILE demo_tar_service = Inr (Inr 2, st1) \<and>
     tar_create_pipe [47, 109, 47, 97] 1 st1 = Inr (Inr g, st2) \<and> tar_reads g [1, 1] st2 = Inr [1, 2]"
proof -
  obtain a where a: "archive demo_tar = [([[97]], a)]" "ta_data a = [1, 2]" "ta_mode a = 0x101A4" "tar_load demo_tar 3 [] = Inr ([TarNode 3 [97] a []], 4)"
    using demo_tar_archive by blast
  have inv: "tar_inv demo_tar_service" by (simp add: tar_inv_def demo_tar_service_def)
  have "\<exists>st1. tar_stream_send (\<lambda>_. Some demo_tar) 2 ([120] @ [0]) F_MOUNT_FILE demo_tar_service = Inr (Inr 2, st1)"
    using a(4) by (simp add: tar_stream_send_def tar_file_at_def demo_tar_service_def)
  then obtain st1 where st1: "tar_stream_send (\<lambda>_. Some demo_tar) 2 ([120] @ [0]) F_MOUNT_FILE demo_tar_service = Inr (Inr 2, st1)" by blast
  have f: "ts_files demo_tar_service 2 = Some \<lparr>tf_type = T_MP [109], tf_data = [0], tf_sz = 1, tf_off = 0, tf_buf = Some 1\<rparr>"
    by (simp add: demo_tar_service_def)
  have e: "(path_parts [97], a) \<in> set (archive demo_tar)" unfolding a(1) by (simp add: path_parts_def)
  have "\<exists>g st2. tar_create_pipe (47 # [109] @ 47 # [97]) 1 st1 = Inr (Inr g, st2) \<and>
    tar_get_flag g F_FILESIZE st2 = Inr (Inr (ucast (ta_sz a))) \<and> length (ta_data a) = unat (ta_sz a) \<and>
    (\<forall>ns. tar_reads g ns st2 = Inr (take (sum_list ns) (ta_data a)))"
    by (rule tar_reads_back [OF inv f _ _ _ _ _ st1 e]) (simp_all add: a(3) S_ISDIR_def S_IFDIR_def O_WRONLY_def)
  then obtain g st2 where g: "tar_create_pipe (47 # [109] @ 47 # [97]) 1 st1 = Inr (Inr g, st2)"
      "\<forall>ns. tar_reads g ns st2 = Inr (take (sum_list ns) (ta_data a))" by blast
  from g(2) have "tar_reads g [1, 1] st2 = Inr (take (sum_list [1, 1]) (ta_data a))" by blast
  then show ?thesis using g(1) st1 a(2) by (intro exI [of _ st1] exI [of _ g] exI [of _ st2]) simp
qed

section \<open>Faults\<close>

text \<open>A name that is already in the tree, such as that of a directory after the files in it, leaves \<open>final\<close> at the null pointer.\<close>

lemma put_node_twice: "find_node ps ts = Some t \<Longrightarrow> put_node ps a n ts = None"
proof (induction ps a n ts arbitrary: t rule: put_node.induct)
  case (3 p ps a n u ts)
  then show ?case by (cases "ps = []") (auto split: option.splits if_splits)
qed simp_all

lemma tar_load_twice:
  assumes "h \<noteq> []" "hd h \<noteq> 0" "0 \<in> set (take 100 h)" "148 \<le> length h" "find_node (path_parts (header_name h)) ts = Some t"
  shows "tar_load h n ts = Inl BadPointer"
  using assms put_node_twice [OF assms(5)] by (simp add: tar_load.simps [of h] Let_def not_less)

text \<open>A duplicate shares the buffer with the original, and closing both frees it twice.\<close>

lemma tar_double_free:
  assumes "tar_inv st" "ts_files st f = Some x" "tf_buf x = Some b" "tf_type x \<noteq> T_ROOT" "b \<notin> ts_freed st"
  shows "\<exists>g st1 st2. tar_duplicate_pipe f st = Inr (g, st1) \<and> tar_destroy_pipe f st1 = Inr st2 \<and> tar_destroy_pipe g st2 = Inl BadPointer"
proof -
  have "f \<noteq> Suc (ts_fresh st)" using assms(1,2) by (force simp: tar_inv_def)
  then show ?thesis using assms(2-5)
    by (simp add: tar_duplicate_pipe_def tar_destroy_pipe_def tar_file_at_def new_tar_file_def Let_def)
qed

text \<open>The position is not compared with the size.\<close>

lemma tar_position_overruns:
  assumes "ts_files st f = Some x" "tf_sz x = 2" "length (tf_data x) = 2" "file_live st x"
  shows "\<exists>st1. tar_set_flag f F_POSITION 3 st = Inr (Inr (), st1) \<and> tar_stream_recv f 1 st1 = Inl OutOfBounds"
proof -
  have "(ucast (- 1 :: u64) :: u32) = - 1" by (rule bit_word_eqI) (simp add: bit_ucast_iff)
  then have "unat (ucast (- 1 :: u64) :: u32) = 4294967295" by (simp add: unsigned_minus_1_eq_mask mask_eq_exp_minus_1)
  then show ?thesis using assms by (simp add: tar_set_flag_def tar_stream_recv_def tar_file_at_def Let_def file_live_def
      cong: tar_type.case_cong option.case_cong)
qed

text \<open>Mounting another archive frees the first tree while pipes to its nodes are open.\<close>

lemma tar_remount_dangles:
  assumes "ts_files st f = Some x" "tf_type x = T_MP mp" "map_of (ts_mounts st) mp = Some (t # ts)"
    and "ts_files st g = Some y" "tf_type y = T_NODE t" "tf_buf y = None" "tf_off y = 0" "tf_sz y = 1"
    and "contents [97] = Some []"
  shows "\<exists>st1. tar_stream_send contents f [97, 0] F_MOUNT_FILE st = Inr (Inr 2, st1) \<and> tar_stream_recv g 1 st1 = Inl BadPointer"
  using assms by (cases t) (simp add: tar_stream_send_def tar_stream_recv_def tar_file_at_def tar_load.simps Let_def file_live_def)

section \<open>The server behind the library\<close>

definition tar_server :: "(u8 list \<Rightarrow> u8 list option) \<Rightarrow> tar_service vfs_server" where
  "tar_server contents =
     (\<lparr>sv_create_pipe = (\<lambda>p fl st. rbind (tar_create_pipe p fl st) (\<lambda>(r, st). Inr (case r of Inl _ \<Rightarrow> 0 | Inr x \<Rightarrow> of_nat x, st))),
       sv_destroy_pipe = (\<lambda>i fl st. tar_destroy_pipe (unat i) st),
       sv_duplicate_pipe = (\<lambda>i st. rbind (tar_duplicate_pipe (unat i) st) (\<lambda>(f, st). Inr (of_nat f, st))),
       sv_stream_send = (\<lambda>i d fl st. rbind (tar_stream_send contents (unat i) d fl st) (\<lambda>(r, st).
         Inr (case r of Inl _ \<Rightarrow> 0 | Inr n \<Rightarrow> of_nat n, st))),
       sv_stream_recv = (\<lambda>i buf fl st. rbind (tar_stream_recv (unat i) (length buf) st) (\<lambda>(d, st).
         Inr (of_nat (length d), d @ drop (length d) buf, st))),
       sv_pipe_get_flag = (\<lambda>i n st. case flag_of n of
           None \<Rightarrow> rbind (tar_file_at st (unat i)) (\<lambda>_. Inr 0)
         | Some fl \<Rightarrow> rbind (tar_get_flag (unat i) fl st) (\<lambda>r. Inr (case r of Inl _ \<Rightarrow> 0 | Inr v \<Rightarrow> v))),
       sv_pipe_set_flag = (\<lambda>i n v st. case flag_of n of
           None \<Rightarrow> rbind (tar_file_at st (unat i)) (\<lambda>_. Inr (- 22, st))
         | Some fl \<Rightarrow> rbind (tar_set_flag (unat i) fl v st) (\<lambda>(r, st). Inr (case r of Inl e \<Rightarrow> - errno_number e | Inr _ \<Rightarrow> 0, st))),
       sv_pipe_implements = (\<lambda>i n st.
         if unat n < length vfs_interfaces then tar_pipe_implements (unat i) (vfs_interfaces ! unat n) st else Inr False),
       sv_is_symlink = (\<lambda>_ _. None)\<rparr>)"

interpretation tar_vfs: vfs_service "tar_server contents"
proof
  fix i buf flags s r buf' s'
  assume "sv_stream_recv (tar_server contents) i buf flags s = Inr (r, buf', s')"
  then obtain d where d: "tar_stream_recv (unat i) (length buf) s = Inr (d, s')" "r = of_nat (length d)" "buf' = d @ drop (length d) buf"
    by (auto simp: tar_server_def Let_def outcome_simps)
  have "length d \<le> length buf"
    using d(1) by (auto simp: tar_stream_recv_def outcome_simps Let_def split: if_splits)
  moreover have "unat (of_nat (length d) :: u64) \<le> length d" by (simp add: unat_of_nat take_bit_eq_mod)
  ultimately show "length buf' = length buf \<and> unat r \<le> length buf" using d(2,3) by simp
qed

end
