(* ===== verification/Names.thy ===== *)
theory Names
  imports Tar
begin

text \<open>
  The name services: the mapper of the root (\<open>progs/common/root-mapper/root-mapper.c\<close>), which redirects paths to the
  services mounted there, and the directory of devices (\<open>progs/common/devfs/devfs.c\<close>). Both keep a linked list of pairs of
  strings that only grows and whose targets may be replaced; the list is modelled as a list in its order, with the entry
  changed in place. Pipes have numbers that stand for their addresses.
\<close>

unbundle bit_operations_syntax

section \<open>Definitions\<close>

text \<open>The search for an entry by its name, and the replacement of its target.\<close>

fun set_dest :: "u8 list \<Rightarrow> u8 list \<Rightarrow> (u8 list \<times> u8 list) list \<Rightarrow> (u8 list \<times> u8 list) list option" where
  "set_dest n d [] = None"
| "set_dest n d ((m, e) # es) = (if m = n then Some ((m, d) # es) else map_option (Cons (m, e)) (set_dest n d es))"

text \<open>The mapper puts new entries at the end of its list.\<close>

definition put_entry :: "u8 list \<Rightarrow> u8 list \<Rightarrow> (u8 list \<times> u8 list) list \<Rightarrow> (u8 list \<times> u8 list) list" where
  "put_entry n d es = (case set_dest n d es of None \<Rightarrow> es @ [(n, d)] | Some es' \<Rightarrow> es')"

text \<open>The directory of devices puts them at the front.\<close>

definition put_device :: "u8 list \<Rightarrow> u8 list \<Rightarrow> (u8 list \<times> u8 list) list \<Rightarrow> (u8 list \<times> u8 list) list" where
  "put_device n d es = (case set_dest n d es of None \<Rightarrow> (n, d) # es | Some es' \<Rightarrow> es')"

subsection \<open>The mapper of the root\<close>

record root_mapper =
  rm_entries :: "(u8 list \<times> u8 list) list"
  rm_points :: "nat \<Rightarrow> u8 list option"   \<comment> \<open>the path of a mount point in creation\<close>
  rm_fresh :: nat

definition root_create_pipe :: "u8 list \<Rightarrow> u32 \<Rightarrow> root_mapper \<Rightarrow> (net_errno + nat) \<times> root_mapper" where
  "root_create_pipe path flags st =
     (if flags AND O_CREAT_MOUNT_POINT = 0 then (Inl ENOENT, st)
      else let f = Suc (rm_fresh st) in (Inr f, st\<lparr>rm_points := (rm_points st)(f \<mapsto> path), rm_fresh := f\<rparr>))"

text \<open>The loop over the entries: the best match so far and its length.\<close>

fun best_entry :: "u8 list \<Rightarrow> (u8 list \<times> u8 list) list \<Rightarrow> (u8 list option \<times> int) \<Rightarrow> (u8 list option \<times> int)" where
  "best_entry path [] best = best"
| "best_entry path ((base, dest) # es) best =
     (let len = length base in
      best_entry path es
        (if snd best < int len \<and> take len path = base \<and> (length path = len \<or> path ! len = 47)
         then (Some dest, int len) else best))"

definition root_is_symlink :: "u8 list \<Rightarrow> root_mapper \<Rightarrow> u8 list option" where
  "root_is_symlink relpath st =
     (case best_entry relpath (rm_entries st) (None, - 1) of
        (None, _) \<Rightarrow> None
      | (Some dest, len) \<Rightarrow> Some (dest @ drop (nat len) relpath))"

definition root_destroy_pipe :: "nat \<Rightarrow> root_mapper \<Rightarrow> root_mapper outcome" where
  "root_destroy_pipe f st =
     (if rm_points st f = None then Inl BadPointer else Inr (st\<lparr>rm_points := (rm_points st)(f := None)\<rparr>))"

definition root_duplicate_pipe :: "nat \<Rightarrow> root_mapper \<Rightarrow> (nat \<times> root_mapper) outcome" where
  "root_duplicate_pipe f st =
     (case rm_points st f of
        None \<Rightarrow> Inl BadPointer
      | Some path \<Rightarrow>
          let g = Suc (rm_fresh st) in Inr (g, st\<lparr>rm_points := (rm_points st)(g \<mapsto> path), rm_fresh := g\<rparr>))"

definition root_pipe_implements :: "vfs_interface \<Rightarrow> bool" where
  "root_pipe_implements i \<longleftrightarrow> i = I_FS"

definition root_stream_send :: "nat \<Rightarrow> u8 list \<Rightarrow> u32 \<Rightarrow> root_mapper \<Rightarrow> ((net_errno + nat) \<times> root_mapper) outcome" where
  "root_stream_send f data flags st =
     (if flags \<noteq> F_MOUNT_FILE then Inr (Inl EINVAL, st)
      else if data = [] \<or> last data \<noteq> 0 then Inr (Inl EINVAL, st)
      else case rm_points st f of
        None \<Rightarrow> Inl BadPointer
      | Some path \<Rightarrow>
          Inr (Inr (length data), st\<lparr>rm_entries := put_entry path (takeWhile (\<lambda>b. b \<noteq> 0) data) (rm_entries st)\<rparr>))"

definition root_get_flag :: "net_flag \<Rightarrow> net_errno + u64" where
  "root_get_flag flag = (case flag of F_PRESSURE \<Rightarrow> Inr 0 | F_READABLE \<Rightarrow> Inr 0 | F_WRITABLE \<Rightarrow> Inr 0 | _ \<Rightarrow> Inl EINVAL)"

definition root_set_flag :: "net_flag \<Rightarrow> net_errno + unit" where
  "root_set_flag flag = (case flag of F_FLUSH \<Rightarrow> Inr () | _ \<Rightarrow> Inl EINVAL)"

subsection \<open>The directory of devices\<close>

datatype dev_file = TYPE_ROOT (df_ofs: u64) (df_size: u32) (df_data: "u8 list") | TYPE_NEW (df_name: "u8 list")

record devfs_service =
  dv_devices :: "(u8 list \<times> u8 list) list"
  dv_files :: "nat \<Rightarrow> dev_file option"
  dv_fresh :: nat

definition dev_file_at :: "devfs_service \<Rightarrow> nat \<Rightarrow> dev_file outcome" where
  "dev_file_at st f = (case dv_files st f of None \<Rightarrow> Inl BadPointer | Some x \<Rightarrow> Inr x)"

definition new_dev_file :: "dev_file \<Rightarrow> devfs_service \<Rightarrow> nat \<times> devfs_service" where
  "new_dev_file x st = (let f = Suc (dv_fresh st) in (f, st\<lparr>dv_files := (dv_files st)(f \<mapsto> x), dv_fresh := f\<rparr>))"

definition devfs_is_symlink :: "u8 list \<Rightarrow> devfs_service \<Rightarrow> u8 list option" where
  "devfs_is_symlink relpath st = (if relpath = [] then None else map_of (dv_devices st) (tl relpath))"

definition devfs_create_pipe :: "u8 list \<Rightarrow> u32 \<Rightarrow> devfs_service \<Rightarrow> (net_errno + nat) \<times> devfs_service" where
  "devfs_create_pipe relpath flags st =
     (let failed = (\<lambda>e. (Inl e, st)); made = (\<lambda>(f, st). (Inr f, st)) in
      if relpath = [] then
        if flags AND O_WRONLY \<noteq> 0 then failed EACCES
        else let d = listing (map fst (dv_devices st)) in made (new_dev_file (TYPE_ROOT 0 (of_nat (length d)) d) st)
      else if flags AND O_CREAT_MOUNT_POINT = 0 then failed ENOENT
      else if flags AND (O_RDONLY OR O_WRONLY) \<noteq> 0 then failed EACCES
      else if map_of (dv_devices st) (tl relpath) \<noteq> None then failed ENXIO
      else made (new_dev_file (TYPE_NEW (tl relpath)) st))"

definition devfs_duplicate_pipe :: "nat \<Rightarrow> devfs_service \<Rightarrow> (nat \<times> devfs_service) outcome" where
  "devfs_duplicate_pipe f st = rbind (dev_file_at st f) (\<lambda>x. Inr (new_dev_file x st))"

definition devfs_destroy_pipe :: "nat \<Rightarrow> devfs_service \<Rightarrow> devfs_service outcome" where
  "devfs_destroy_pipe f st = rbind (dev_file_at st f) (\<lambda>_. Inr (st\<lparr>dv_files := (dv_files st)(f := None)\<rparr>))"

definition devfs_pipe_implements :: "nat \<Rightarrow> vfs_interface \<Rightarrow> devfs_service \<Rightarrow> bool outcome" where
  "devfs_pipe_implements f i st =
     rbind (dev_file_at st f) (\<lambda>x. Inr (case x of TYPE_NEW _ \<Rightarrow> i = I_FS | TYPE_ROOT _ _ _ \<Rightarrow> i = I_FILE \<or> i = I_STATABLE))"

definition devfs_stream_send :: "nat \<Rightarrow> u8 list \<Rightarrow> u32 \<Rightarrow> devfs_service \<Rightarrow> ((net_errno + nat) \<times> devfs_service) outcome" where
  "devfs_stream_send f data flags st =
     rbind (dev_file_at st f) (\<lambda>x.
     case x of
       TYPE_ROOT _ _ _ \<Rightarrow> Inr (Inl EACCES, st)
     | TYPE_NEW name \<Rightarrow>
         if flags AND F_MOUNT_FILE = 0 then Inr (Inl EACCES, st)
         else if data = [] \<or> last data \<noteq> 0 then Inr (Inl EINVAL, st)
         else Inr (Inr (length data), st\<lparr>dv_devices := put_device name (takeWhile (\<lambda>b. b \<noteq> 0) data) (dv_devices st)\<rparr>))"

definition devfs_stream_recv :: "nat \<Rightarrow> nat \<Rightarrow> devfs_service \<Rightarrow> ((net_errno + u8 list) \<times> devfs_service) outcome" where
  "devfs_stream_recv f len st =
     rbind (dev_file_at st f) (\<lambda>x.
     case x of
       TYPE_NEW _ \<Rightarrow> Inr (Inl EACCES, st)
     | TYPE_ROOT ofs sz d \<Rightarrow>
         let left = unat (sz - ucast ofs); copy_sz = (if left < len then left else len) in
         if length d < unat ofs + copy_sz then Inl OutOfBounds
         else Inr (Inr (take copy_sz (drop (unat ofs) d)),
                   st\<lparr>dv_files := (dv_files st)(f \<mapsto> TYPE_ROOT (ofs + of_nat copy_sz) sz d)\<rparr>))"

definition devfs_get_flag :: "nat \<Rightarrow> net_flag \<Rightarrow> devfs_service \<Rightarrow> (net_errno + u64) outcome" where
  "devfs_get_flag f flag st =
     rbind (dev_file_at st f) (\<lambda>x. Inr (
     let root_only = (\<lambda>v. case x of TYPE_ROOT _ _ _ \<Rightarrow> Inr v | TYPE_NEW _ \<Rightarrow> Inl EINVAL) in
     case flag of
       F_PRESSURE \<Rightarrow> Inr (case x of TYPE_ROOT ofs sz _ \<Rightarrow> ucast sz - ofs | TYPE_NEW _ \<Rightarrow> 0)
     | F_READABLE \<Rightarrow> Inr (case x of TYPE_ROOT ofs sz _ \<Rightarrow> of_bool (sint ofs < uint sz) | TYPE_NEW _ \<Rightarrow> 0)
     | F_WRITABLE \<Rightarrow> Inr (case x of TYPE_ROOT _ _ _ \<Rightarrow> 0 | TYPE_NEW _ \<Rightarrow> 1)
     | F_FILESIZE \<Rightarrow> root_only (ucast (df_size x))
     | F_POSITION \<Rightarrow> root_only (df_ofs x)
     | F_INODE \<Rightarrow> root_only 0
     | F_MODE \<Rightarrow> root_only (ucast (S_IFDIR OR S_IFODEV OR S_RWX))
     | F_NLINK \<Rightarrow> root_only 1
     | F_BLOCK_SIZE \<Rightarrow> root_only 1
     | F_UID \<Rightarrow> root_only 0
     | F_GID \<Rightarrow> root_only 0
     | F_ATIME \<Rightarrow> root_only 0
     | F_MTIME \<Rightarrow> root_only 0
     | F_CTIME \<Rightarrow> root_only 0
     | F_BLOCK_COUNT \<Rightarrow> root_only 0
     | _ \<Rightarrow> Inl EINVAL))"

definition devfs_set_flag :: "nat \<Rightarrow> net_flag \<Rightarrow> u64 \<Rightarrow> devfs_service \<Rightarrow> ((net_errno + unit) \<times> devfs_service) outcome" where
  "devfs_set_flag f flag val st =
     rbind (dev_file_at st f) (\<lambda>x.
     case flag of
       F_FLUSH \<Rightarrow> Inr (Inr (), st)
     | F_POSITION \<Rightarrow>
         (case x of
            TYPE_NEW _ \<Rightarrow> Inr (Inl EINVAL, st)
          | TYPE_ROOT _ sz d \<Rightarrow>
              Inr (Inr (), st\<lparr>dv_files := (dv_files st)(f \<mapsto> TYPE_ROOT (if ucast sz < val then ucast sz else val) sz d)\<rparr>))
     | _ \<Rightarrow> Inr (Inl EINVAL, st))"

subsection \<open>The services behind the library\<close>

definition root_server :: "root_mapper vfs_server" where
  "root_server =
     \<lparr>sv_create_pipe = (\<lambda>p fl st. let (r, st) = root_create_pipe p fl st in Inr (case r of Inl _ \<Rightarrow> 0 | Inr x \<Rightarrow> of_nat x, st)),
      sv_destroy_pipe = (\<lambda>i fl st. root_destroy_pipe (unat i) st),
      sv_duplicate_pipe = (\<lambda>i st. rbind (root_duplicate_pipe (unat i) st) (\<lambda>(f, st). Inr (of_nat f, st))),
      sv_stream_send = (\<lambda>i d fl st. rbind (root_stream_send (unat i) d fl st) (\<lambda>(r, st).
        Inr (case r of Inl _ \<Rightarrow> 0 | Inr n \<Rightarrow> of_nat n, st))),
      sv_stream_recv = sv_stream_recv default_server,
      sv_pipe_get_flag = (\<lambda>i n st. case flag_of n of
          None \<Rightarrow> Inr 0 | Some fl \<Rightarrow> Inr (case root_get_flag fl of Inl _ \<Rightarrow> 0 | Inr v \<Rightarrow> v)),
      sv_pipe_set_flag = (\<lambda>i n v st. case flag_of n of
          None \<Rightarrow> Inr (- 22, st)
        | Some fl \<Rightarrow> Inr (case root_set_flag fl of Inl e \<Rightarrow> - errno_number e | Inr _ \<Rightarrow> 0, st)),
      sv_pipe_implements = (\<lambda>i n st.
        Inr (unat n < length vfs_interfaces \<and> root_pipe_implements (vfs_interfaces ! unat n))),
      sv_is_symlink = root_is_symlink\<rparr>"

definition devfs_server :: "devfs_service vfs_server" where
  "devfs_server =
     \<lparr>sv_create_pipe = (\<lambda>p fl st. let (r, st) = devfs_create_pipe p fl st in Inr (case r of Inl _ \<Rightarrow> 0 | Inr x \<Rightarrow> of_nat x, st)),
      sv_destroy_pipe = (\<lambda>i fl st. devfs_destroy_pipe (unat i) st),
      sv_duplicate_pipe = (\<lambda>i st. rbind (devfs_duplicate_pipe (unat i) st) (\<lambda>(f, st). Inr (of_nat f, st))),
      sv_stream_send = (\<lambda>i d fl st. rbind (devfs_stream_send (unat i) d fl st) (\<lambda>(r, st).
        Inr (case r of Inl _ \<Rightarrow> 0 | Inr n \<Rightarrow> of_nat n, st))),
      sv_stream_recv = (\<lambda>i buf fl st. rbind (devfs_stream_recv (unat i) (length buf) st) (\<lambda>(r, st).
        Inr (case r of Inl _ \<Rightarrow> (0, buf, st) | Inr d \<Rightarrow> (of_nat (length d), d @ drop (length d) buf, st)))),
      sv_pipe_get_flag = (\<lambda>i n st. case flag_of n of
          None \<Rightarrow> rbind (dev_file_at st (unat i)) (\<lambda>_. Inr 0)
        | Some fl \<Rightarrow> rbind (devfs_get_flag (unat i) fl st) (\<lambda>r. Inr (case r of Inl _ \<Rightarrow> 0 | Inr v \<Rightarrow> v))),
      sv_pipe_set_flag = (\<lambda>i n v st. case flag_of n of
          None \<Rightarrow> rbind (dev_file_at st (unat i)) (\<lambda>_. Inr (- 22, st))
        | Some fl \<Rightarrow> rbind (devfs_set_flag (unat i) fl v st) (\<lambda>(r, st). Inr (case r of Inl e \<Rightarrow> - errno_number e | Inr _ \<Rightarrow> 0, st))),
      sv_pipe_implements = (\<lambda>i n st.
        if unat n < length vfs_interfaces then devfs_pipe_implements (unat i) (vfs_interfaces ! unat n) st
        else rbind (dev_file_at st (unat i)) (\<lambda>_. Inr False)),
      sv_is_symlink = devfs_is_symlink\<rparr>"

section \<open>Tables of mounts\<close>

text \<open>What both services rely on: an entry replaces that of the same name and leaves the others.\<close>

locale mount_table =
  fixes put :: "'n \<Rightarrow> 'd \<Rightarrow> ('n \<times> 'd) list \<Rightarrow> ('n \<times> 'd) list"
  assumes put_map: "map_of (put n d t) = (map_of t)(n \<mapsto> d)"
    and put_distinct: "distinct (map fst t) \<Longrightarrow> distinct (map fst (put n d t))"
begin

lemma put_names: "fst ` set (put n d t) = insert n (fst ` set t)"
  by (metis dom_map_of_conv_image_fst dom_fun_upd option.distinct(1) put_map)

lemma put_all_map: "map_of (fold (\<lambda>(n, d). put n d) ms t) = map_of t ++ map_of (rev ms)"
  by (induction ms arbitrary: t) (auto simp: put_map)

lemma put_all_distinct: "distinct (map fst t) \<Longrightarrow> distinct (map fst (fold (\<lambda>(n, d). put n d) ms t))"
  by (induction ms arbitrary: t) (auto simp: put_distinct)

end

lemma set_dest_None_iff: "set_dest n d es = None \<longleftrightarrow> n \<notin> fst ` set es"
  by (induction n d es rule: set_dest.induct) auto

lemma set_dest_None: "set_dest n d es = None \<Longrightarrow> map_of es n = None"
  by (simp add: set_dest_None_iff map_of_eq_None_iff)

lemma set_dest_Some: "set_dest n d es = Some es' \<Longrightarrow> map_of es' = (map_of es)(n \<mapsto> d) \<and> map fst es' = map fst es"
  by (induction n d es arbitrary: es' rule: set_dest.induct) (auto simp: fun_upd_twist split: if_splits)

interpretation entries: mount_table put_entry
proof
  show "map_of (put_entry n d t) = (map_of t)(n \<mapsto> d)" for n d t
    by (cases "set_dest n d t")
      (auto simp: put_entry_def map_add_def fun_eq_iff split: option.splits dest: set_dest_Some set_dest_None)
qed (auto simp: put_entry_def set_dest_None_iff split: option.splits dest!: set_dest_Some)

interpretation devices: mount_table put_device
  by unfold_locales (auto simp: put_device_def set_dest_None_iff split: option.splits dest!: set_dest_Some)

interpretation root_vfs: vfs_service root_server
  by unfold_locales (auto simp: root_server_def default_server_def)

section \<open>The mapper resolves to the longest mount point\<close>

text \<open>The mount point \<open>b\<close> is on the way to \<open>p\<close>.\<close>

definition covers :: "u8 list \<Rightarrow> u8 list \<Rightarrow> bool" where
  "covers b p \<longleftrightarrow> take (length b) p = b \<and> (length p = length b \<or> p ! length b = 47)"

lemma covers_append: "covers b (b @ r) \<longleftrightarrow> r = [] \<or> hd r = 47"
  by (cases r) (auto simp: covers_def)

lemma covers_same: "covers b p \<Longrightarrow> covers b' p \<Longrightarrow> length b = length b' \<Longrightarrow> b = b'"
  by (metis covers_def)

lemma best_entry_bounds:
  "best_entry p es best = (d, n) \<Longrightarrow> snd best \<le> n \<and> (\<forall>(b, e) \<in> set es. covers b p \<longrightarrow> int (length b) \<le> n) \<and>
     ((d, n) = best \<or> (\<exists>b e. (b, e) \<in> set es \<and> covers b p \<and> d = Some e \<and> n = int (length b)))"
proof (induction p es best rule: best_entry.induct)
  case (2 p b e es best)
  define best' where "best' = (if snd best < int (length b) \<and> covers b p then (Some e, int (length b)) else best)"
  have "best_entry p es best' = (d, n)" using 2(2) by (simp add: best'_def covers_def Let_def)
  moreover have "best' = (if snd best < int (length b) \<and> take (length b) p = b \<and> (length p = length b \<or> p ! length b = 47)
     then (Some e, int (length b)) else best)" by (simp add: best'_def covers_def)
  ultimately have ih: "snd best' \<le> n" "\<forall>(b, e) \<in> set es. covers b p \<longrightarrow> int (length b) \<le> n"
      "(d, n) = best' \<or> (\<exists>b e. (b, e) \<in> set es \<and> covers b p \<and> d = Some e \<and> n = int (length b))"
    using 2(1) [OF refl] by auto
  show ?case
  proof (cases "snd best < int (length b) \<and> covers b p")
    case True
    then have "best' = (Some e, int (length b))" by (simp add: best'_def)
    then show ?thesis using ih True by auto
  next
    case False
    then have "best' = best" by (auto simp: best'_def)
    then show ?thesis using ih False by auto
  qed
qed auto

abbreviation root_table :: "root_mapper \<Rightarrow> u8 list \<Rightarrow> u8 list option" where
  "root_table st \<equiv> map_of (rm_entries st)"

lemma root_is_symlink_covered:
  assumes "distinct (map fst (rm_entries st))" "root_table st b = Some d" "covers b p"
    and "\<And>b'. b' \<in> dom (root_table st) \<Longrightarrow> covers b' p \<Longrightarrow> length b' \<le> length b"
  shows "root_is_symlink p st = Some (d @ drop (length b) p)"
proof -
  obtain r n where r: "best_entry p (rm_entries st) (None, - 1) = (r, n)" by fastforce
  note B = best_entry_bounds [OF r]
  have "(b, d) \<in> set (rm_entries st)" using assms(2) by (rule map_of_SomeD)
  then have n: "int (length b) \<le> n" using B assms(3) by auto
  then obtain b' e where e: "(b', e) \<in> set (rm_entries st)" "covers b' p" "r = Some e" "n = int (length b')"
    using B by auto
  have "b' \<in> dom (root_table st)" using image_eqI [of b' fst, OF _ e(1)] by (simp add: dom_map_of_conv_image_fst del: domIff)
  then have "length b' \<le> length b" using assms(4) e(2) by blast
  then have "b' = b" using covers_same [OF e(2) assms(3)] n e(4) by simp
  then have "e = d" using e(1) assms(1,2) by simp
  then show ?thesis using r e(3,4) \<open>b' = b\<close> by (simp add: root_is_symlink_def)
qed

lemma root_is_symlink_uncovered:
  assumes "\<And>b. b \<in> dom (root_table st) \<Longrightarrow> \<not> covers b p"
  shows "root_is_symlink p st = None"
proof -
  obtain r n where r: "best_entry p (rm_entries st) (None, - 1) = (r, n)" by fastforce
  have "r = None" using best_entry_bounds [OF r] assms by (force simp: dom_map_of_conv_image_fst)
  then show ?thesis using r by (simp add: root_is_symlink_def)
qed

lemma root_is_symlink_agrees:
  assumes "distinct (map fst (rm_entries st))" "distinct (map fst (rm_entries st'))"
    and "\<And>b. covers b p \<Longrightarrow> root_table st b = root_table st' b"
  shows "root_is_symlink p st = root_is_symlink p st'"
proof (cases "\<exists>b \<in> dom (root_table st). covers b p")
  case True
  define B where "B = {b \<in> dom (root_table st). covers b p}"
  have B: "finite B" "B \<noteq> {}" using True by (auto simp: B_def finite_dom_map_of)
  have "Max (length ` B) \<in> length ` B" using B by (intro Max_in) auto
  then obtain b where "b \<in> B" "length b = Max (length ` B)" by auto
  then have "b \<in> B" "\<And>b'. b' \<in> B \<Longrightarrow> length b' \<le> length b" using B(1) by auto
  then have b: "b \<in> dom (root_table st)" "covers b p" "\<And>b'. b' \<in> dom (root_table st) \<Longrightarrow> covers b' p \<Longrightarrow> length b' \<le> length b"
    by (auto simp: B_def)
  then obtain d where d: "root_table st b = Some d" by auto
  moreover have "root_table st' b = Some d" using d assms(3) [OF b(2)] by simp
  moreover have "length b' \<le> length b" if "b' \<in> dom (root_table st')" "covers b' p" for b'
    using b(3) [of b'] that assms(3) [OF that(2)] by (auto simp: dom_def)
  ultimately show ?thesis
    using root_is_symlink_covered [OF assms(1) d b(2,3)] root_is_symlink_covered [OF assms(2) _ b(2)] by simp
next
  case False
  then have "\<not> covers b p" if "b \<in> dom (root_table st) \<or> b \<in> dom (root_table st')" for b
    using assms(3) [of b] that by (metis domIff)
  then show ?thesis by (metis root_is_symlink_uncovered)
qed

datatype root_op = RCreate "u8 list" u32 | RDestroy nat | RDuplicate nat | RSend nat "u8 list" u32

fun root_exec :: "root_op \<Rightarrow> root_mapper \<Rightarrow> root_mapper outcome" where
  "root_exec (RCreate p flags) st = Inr (snd (root_create_pipe p flags st))"
| "root_exec (RDestroy f) st = root_destroy_pipe f st"
| "root_exec (RDuplicate f) st = rbind (root_duplicate_pipe f st) (\<lambda>(g, st). Inr st)"
| "root_exec (RSend f data flags) st = rbind (root_stream_send f data flags st) (\<lambda>(r, st). Inr st)"

inductive root_reach :: "root_mapper \<Rightarrow> bool" where
  start: "root_reach \<lparr>rm_entries = [], rm_points = (\<lambda>_. None), rm_fresh = n\<rparr>"
| step: "root_reach st \<Longrightarrow> root_exec op st = Inr st' \<Longrightarrow> root_reach st'"

lemma root_exec_table:
  "root_exec op st = Inr st' \<Longrightarrow> rm_entries st' = rm_entries st \<or>
     (\<exists>f data b. op = RSend f data F_MOUNT_FILE \<and> rm_points st f = Some b \<and>
       rm_entries st' = put_entry b (takeWhile (\<lambda>c. c \<noteq> 0) data) (rm_entries st))"
  by (cases op)
    (auto simp: root_create_pipe_def root_destroy_pipe_def root_duplicate_pipe_def root_stream_send_def Let_def outcome_simps
      split: if_splits option.splits)

lemma root_reach_distinct: "root_reach st \<Longrightarrow> distinct (map fst (rm_entries st))"
  by (induction rule: root_reach.induct) (auto dest!: root_exec_table simp: entries.put_distinct)

lemma root_send_table:
  assumes "rm_points st f = Some b" "0 \<notin> set d"
  shows "\<exists>st'. root_stream_send f (d @ [0]) F_MOUNT_FILE st = Inr (Inr (Suc (length d)), st') \<and>
    root_table st' = (root_table st)(b \<mapsto> d)"
proof -
  have "takeWhile (\<lambda>c. c \<noteq> 0) (d @ [0]) = d" using assms(2) by (subst takeWhile_append2) auto
  then show ?thesis using assms(1) by (simp add: root_stream_send_def entries.put_map)
qed

text \<open>The loop of \<open>create_pipe\<close> over links follows the mapper.\<close>

lemma open_pipe_link:
  assumes "free_pipe 0 (pipes c) = Some i"
    and "extract_path (word_byte flags 3) (cwd c) path = Some (Inr (Some (service, relpath)))"
    and "length service \<le> max (length path) 4" "0 \<le> sys_daemon sys service" "flags AND O_NOFOLLOW = 0" "0 \<notin> set relpath"
    and "sys_server sys (sys_daemon sys service) = Some srv" "sv_is_symlink srv relpath s = Some l"
    and "0 \<notin> set l" "length l < length (sys_fresh sys 4096)"
  shows "open_pipe sys path flags c s = Some (Inr (Inl l, c, s))"
proof -
  have "fst (pipes c ! i) = 0 \<and> i < length (pipes c)" using free_pipe_first [OF assms(1)] by blast
  then have c: "set_pipe i (0, snd (pipes c ! i)) c = c"
    by (metis prod.collapse set_pipe_def list_update_id client.surjective client.update_convs(1))
  have "c_string (l @ 0 # xs) = Inr l" for xs using assms(9) by (simp add: c_string_def takeWhile_append)
  moreover have "\<not> max (length path) 4 < length service" using assms(3) by linarith
  ultimately show ?thesis
    using assms(1,2,4-) c by (simp add: open_pipe_def ipc_request_def popup_trampoline_def vfs_is_symlink_def c_string_terminated Let_def)
qed

text \<open>C21: Mounting redirects paths. When the target \<open>d\<close> has been sent to a mount point \<open>b\<close> of the mapper of the root, then
  opening any path that leads the library to the mapper with \<open>b\<close> followed by nothing or by a slash and more, and below no
  longer mount point, is the same as opening the target followed by the same rest, whatever services
  and links that leads to; and no other path of the mapper has changed its meaning.\<close>

theorem mount_redirects:
  assumes "root_reach st" "rm_points st f = Some b" "root_stream_send f (d @ [0]) F_MOUNT_FILE st = Inr (r, st')"
    and "0 \<notin> set (b @ d @ rest)" "rest = [] \<or> hd rest = 47"
    and "\<forall>b' \<in> dom (root_table st). covers b' (b @ rest) \<longrightarrow> length b' \<le> length b"
    and "extract_path (word_byte flags 3) (cwd c) path = Some (Inr (Some (service, b @ rest)))"
    and "length service \<le> max (length path) 4" "0 \<le> sys_daemon sys service" "flags AND O_NOFOLLOW = 0"
    and "sys_server sys (sys_daemon sys service) = Some srv" "\<forall>p. sv_is_symlink srv p s = root_is_symlink p (root s)" "root s = st'"
    and "length (d @ rest) < length (sys_fresh sys 4096)" "free_pipe 0 (pipes c) \<noteq> None"
  shows "create_pipe sys path flags c s = create_pipe sys (d @ rest) flags c s \<and>
    (\<forall>p. \<not> covers b p \<longrightarrow> root_is_symlink p st' = root_is_symlink p st)"
proof
  obtain st2 where st2: "root_stream_send f (d @ [0]) F_MOUNT_FILE st = Inr (Inr (Suc (length d)), st2)"
      "root_table st2 = (root_table st)(b \<mapsto> d)"
    using root_send_table [OF assms(2)] assms(4) by auto
  then have t: "root_table st' = (root_table st)(b \<mapsto> d)" using assms(3) by simp
  have "root_exec (RSend f (d @ [0]) F_MOUNT_FILE) st = Inr st'" using assms(3) by simp
  then have reach: "root_reach st'" by (rule root_reach.step [OF assms(1)])
  have "root_is_symlink (b @ rest) st' = Some (d @ drop (length b) (b @ rest))"
    by (rule root_is_symlink_covered [OF root_reach_distinct [OF reach]]) (use t assms(5,6) in \<open>auto simp: covers_append\<close>)
  then have "sv_is_symlink srv (b @ rest) s = Some (d @ rest)" using assms(12,13) by simp
  moreover obtain i where "free_pipe 0 (pipes c) = Some i" using assms(15) by blast
  ultimately have "open_pipe sys path flags c s = Some (Inr (Inl (d @ rest), c, s))"
    using assms by (intro open_pipe_link) auto
  then show "create_pipe sys path flags c s = create_pipe sys (d @ rest) flags c s"
    by (simp add: create_pipe.simps [of sys path])
  show "\<forall>p. \<not> covers b p \<longrightarrow> root_is_symlink p st' = root_is_symlink p st"
    using root_reach_distinct [OF reach] root_reach_distinct [OF assms(1)] t
    by (auto intro!: root_is_symlink_agrees)
qed

section \<open>The directory of devices\<close>

text \<open>Positions never pass the end of a listing, numbers of pipes are not used twice, and every device has one entry.\<close>

definition dev_file_ok :: "dev_file \<Rightarrow> bool" where
  "dev_file_ok x = (case x of TYPE_ROOT ofs sz d \<Rightarrow> ofs \<le> ucast sz \<and> sz = of_nat (length d) | TYPE_NEW _ \<Rightarrow> True)"

definition devfs_inv :: "devfs_service \<Rightarrow> bool" where
  "devfs_inv st \<longleftrightarrow> distinct (map fst (dv_devices st)) \<and>
     (\<forall>f x. dv_files st f = Some x \<longrightarrow> f \<le> dv_fresh st \<and> dev_file_ok x)"

datatype devfs_op = DCreate "u8 list" u32 | DDuplicate nat | DDestroy nat | DSend nat "u8 list" u32 | DRecv nat nat | DSet nat net_flag u64

fun devfs_exec :: "devfs_op \<Rightarrow> devfs_service \<Rightarrow> devfs_service outcome" where
  "devfs_exec (DCreate p flags) st = Inr (snd (devfs_create_pipe p flags st))"
| "devfs_exec (DDuplicate f) st = rbind (devfs_duplicate_pipe f st) (\<lambda>(g, st). Inr st)"
| "devfs_exec (DDestroy f) st = devfs_destroy_pipe f st"
| "devfs_exec (DSend f data flags) st = rbind (devfs_stream_send f data flags st) (\<lambda>(r, st). Inr st)"
| "devfs_exec (DRecv f len) st = rbind (devfs_stream_recv f len st) (\<lambda>(r, st). Inr st)"
| "devfs_exec (DSet f flag val) st = rbind (devfs_set_flag f flag val st) (\<lambda>(r, st). Inr st)"

definition devfs_reads :: "nat \<Rightarrow> nat list \<Rightarrow> devfs_service \<Rightarrow> (u8 list \<times> devfs_service) outcome" where
  "devfs_reads f ns st = rfold (\<lambda>(got, st) n. rbind (devfs_stream_recv f n st) (\<lambda>(r, st).
     Inr (case r of Inl _ \<Rightarrow> (got, st) | Inr d \<Rightarrow> (got @ d, st)))) ([], st) ns"

text \<open>Reading at a position within the listing gives its next bytes and never leaves it.\<close>

lemma ofs_le_iff: "(ofs :: u64) \<le> ucast (sz :: u32) \<longleftrightarrow> unat ofs \<le> unat sz"
proof -
  have "unat (ucast sz :: u64) = unat sz"
    using unsigned_less [of sz, where ?'a = nat] by (simp add: unsigned_ucast_eq take_bit_nat_eq_self)
  then show ?thesis by (simp add: word_le_nat_alt)
qed

lemma unat_plus_of_nat64: "unat s + i < 2 ^ 64 \<Longrightarrow> unat (s + of_nat i) = unat s + i" for s :: u64
  by (subst unat_add_nowrap) (simp_all add: unat_of_nat take_bit_nat_eq_self)

lemma devfs_recv_root:
  assumes "dv_files st f = Some (TYPE_ROOT ofs sz d)" "dev_file_ok (TYPE_ROOT ofs sz d)"
  shows "\<exists>n. n = min len (unat sz - unat ofs) \<and> unat ofs + n \<le> length d \<and> unat (ofs + of_nat n) = unat ofs + n \<and>
    devfs_stream_recv f len st = Inr (Inr (take n (drop (unat ofs) d)), st\<lparr>dv_files := (dv_files st)(f \<mapsto> TYPE_ROOT (ofs + of_nat n) sz d)\<rparr>)"
proof -
  define n where "n = min len (unat sz - unat ofs)"
  have le: "unat ofs \<le> unat sz" "unat sz \<le> length d" "unat sz < 2 ^ 32"
    using assms(2) unsigned_less [of sz, where ?'a = nat] by (auto simp: dev_file_ok_def ofs_le_iff unat_of_nat take_bit_nat_eq_self_iff)
  have u: "unat (ucast ofs :: u32) = unat ofs" using le by (simp add: unsigned_ucast_eq take_bit_nat_eq_self)
  have "unat (sz - ucast ofs) = unat sz - unat ofs" using le u by (subst unat_sub) (simp_all add: word_le_nat_alt)
  then have "(if unat (sz - ucast ofs) < len then unat (sz - ucast ofs) else len) = n" by (auto simp: n_def)
  moreover have nle: "unat ofs + n \<le> unat sz" using le by (simp add: n_def)
  moreover have "unat (ofs + of_nat n) = unat ofs + n" using nle le by (intro unat_plus_of_nat64) simp
  ultimately show ?thesis
    using le assms(1) by (intro exI [of _ n]) (simp add: devfs_stream_recv_def dev_file_at_def n_def Let_def)
qed

lemma devfs_recv_ok: "devfs_inv st \<Longrightarrow> dv_files st f = Some x \<Longrightarrow>
    \<exists>r x'. devfs_stream_recv f len st = Inr (r, st\<lparr>dv_files := (dv_files st)(f \<mapsto> x')\<rparr>) \<and> dev_file_ok x'"
proof (cases x)
  case (TYPE_ROOT ofs sz d)
  assume h: "devfs_inv st" "dv_files st f = Some x"
  then have ok: "dev_file_ok (TYPE_ROOT ofs sz d)" using TYPE_ROOT by (auto simp: devfs_inv_def)
  from devfs_recv_root [OF _ this, of st f len] h TYPE_ROOT obtain n where
    n: "n = min len (unat sz - unat ofs)" "unat (ofs + of_nat n) = unat ofs + n"
      "devfs_stream_recv f len st = Inr (Inr (take n (drop (unat ofs) d)), st\<lparr>dv_files := (dv_files st)(f \<mapsto> TYPE_ROOT (ofs + of_nat n) sz d)\<rparr>)"
    by auto
  moreover have "dev_file_ok (TYPE_ROOT (ofs + of_nat n) sz d)" using ok n(1,2) by (auto simp: dev_file_ok_def ofs_le_iff)
  ultimately show ?thesis by blast
next
  case (TYPE_NEW m)
  assume "devfs_inv st" "dv_files st f = Some x"
  then show ?thesis using TYPE_NEW
    by (intro exI [of _ "Inl EACCES"] exI [of _ x]) (simp add: devfs_stream_recv_def dev_file_at_def dev_file_ok_def fun_upd_idem)
qed

text \<open>The invariant holds after every operation, and an operation on an open pipe cannot fault.\<close>

lemma devfs_inv_file: "devfs_inv st \<Longrightarrow> dv_files st f = Some x \<Longrightarrow> dev_file_ok x"
  by (auto simp: devfs_inv_def)

lemma devfs_set_file_inv:
  "devfs_inv st \<Longrightarrow> dv_files st f \<noteq> None \<Longrightarrow> dev_file_ok x \<Longrightarrow> devfs_inv (st\<lparr>dv_files := (dv_files st)(f \<mapsto> x)\<rparr>)"
  by (auto simp: devfs_inv_def)

lemma new_dev_file_inv: "devfs_inv st \<Longrightarrow> dev_file_ok x \<Longrightarrow> devfs_inv (snd (new_dev_file x st))"
  by (auto simp: devfs_inv_def new_dev_file_def Let_def le_Suc_eq)

lemma devfs_exec_inv:
  assumes "devfs_inv st" "devfs_exec op st = Inr st'"
  shows "devfs_inv st'"
proof (cases op)
  case (DCreate p flags)
  have "dev_file_ok (TYPE_ROOT 0 (of_nat (length d)) d)" "dev_file_ok (TYPE_NEW n)" for d n by (simp_all add: dev_file_ok_def)
  then show ?thesis
    using assms DCreate new_dev_file_inv [OF assms(1)] by (auto simp: devfs_create_pipe_def Let_def case_prod_unfold split: if_splits)
next
  case (DRecv f len)
  then obtain x where x: "dv_files st f = Some x" using assms(2) by (auto simp: devfs_stream_recv_def dev_file_at_def split: option.splits)
  from devfs_recv_ok [OF assms(1) x, of len] show ?thesis
    using assms DRecv x by (auto intro!: devfs_set_file_inv)
next
  case (DSet f flag val)
  have "dev_file_ok (TYPE_ROOT (ucast sz) sz d)" "\<not> ucast sz < val \<Longrightarrow> dev_file_ok (TYPE_ROOT val sz d)"
    if "dv_files st f = Some (TYPE_ROOT ofs sz d)" for ofs sz d
    using devfs_inv_file [OF assms(1) that] by (auto simp: dev_file_ok_def not_less)
  then show ?thesis
    using assms DSet
    by (auto simp: devfs_set_flag_def dev_file_at_def outcome_simps split: option.splits net_flag.splits dev_file.splits
        intro!: devfs_set_file_inv)
next
  case (DDuplicate f)
  then obtain x where x: "dv_files st f = Some x" "st' = snd (new_dev_file x st)"
    using assms(2) by (auto simp: devfs_duplicate_pipe_def dev_file_at_def outcome_simps case_prod_unfold split: option.splits)
  then show ?thesis using new_dev_file_inv [OF assms(1)] assms(1) by (auto simp: devfs_inv_def)
next
  case (DSend f data flags)
  then show ?thesis
    using assms by (auto simp: devfs_stream_send_def dev_file_at_def outcome_simps devfs_inv_def devices.put_distinct
      split: option.splits dev_file.splits if_splits)
next
  case (DDestroy f)
  then show ?thesis
    using assms by (auto simp: devfs_destroy_pipe_def dev_file_at_def outcome_simps devfs_inv_def split: option.splits if_splits)
qed

interpretation devfs_vfs: vfs_service devfs_server
proof
  fix i buf flags s r buf' s'
  assume "sv_stream_recv devfs_server i buf flags s = Inr (r, buf', s')"
  then obtain a where a: "devfs_stream_recv (unat i) (length buf) s = Inr (a, s')"
      "(r, buf') = (case a of Inl _ \<Rightarrow> (0, buf) | Inr d \<Rightarrow> (of_nat (length d), d @ drop (length d) buf))"
    by (cases "devfs_stream_recv (unat i) (length buf) s") (auto simp: devfs_server_def split: sum.splits)
  have "length d \<le> length buf" if "a = Inr d" for d
    using that a(1) by (cases "dev_file_at s (unat i)") (auto simp: devfs_stream_recv_def Let_def split: if_splits dev_file.split_asm)
  moreover have "unat (of_nat k :: u64) \<le> k" for k by (simp add: unat_of_nat take_bit_eq_mod)
  ultimately show "length buf' = length buf \<and> unat r \<le> length buf" using a(2) by (cases a) (auto intro: order_trans)
qed

text \<open>Reads in pieces of any sizes add up.\<close>

lemma devfs_reads_root:
  assumes "dv_files st f = Some (TYPE_ROOT ofs sz d)" "dev_file_ok (TYPE_ROOT ofs sz d)" "length d < 2 ^ 32"
  shows "\<exists>st'. rfold (\<lambda>(got, st) n. rbind (devfs_stream_recv f n st) (\<lambda>(r, st). Inr (case r of Inl _ \<Rightarrow> (got, st) | Inr d \<Rightarrow> (got @ d, st))))
      (got, st) ns = Inr (got @ take (sum_list ns) (drop (unat ofs) d), st')"
  using assms(1,2)
proof (induction ns arbitrary: got st ofs)
  case (Cons k ns)
  have sz: "unat sz = length d" using Cons.prems(2) assms(3) by (simp add: dev_file_ok_def unat_of_nat take_bit_nat_eq_self)
  obtain n where n: "n = min k (length d - unat ofs)" "unat ofs + n \<le> length d" "unat (ofs + of_nat n) = unat ofs + n"
      "devfs_stream_recv f k st = Inr (Inr (take n (drop (unat ofs) d)), st\<lparr>dv_files := (dv_files st)(f \<mapsto> TYPE_ROOT (ofs + of_nat n) sz d)\<rparr>)"
    using devfs_recv_root [OF Cons.prems, of k] by (auto simp: sz)
  have ok: "dev_file_ok (TYPE_ROOT (ofs + of_nat n) sz d)" using Cons.prems(2) n(2,3) sz by (simp add: dev_file_ok_def ofs_le_iff)
  have "take n (drop (unat ofs) d) @ take (sum_list ns) (drop (unat ofs + n) d) = take (sum_list (k # ns)) (drop (unat ofs) d)"
  proof (cases "k \<le> length d - unat ofs")
    case True
    then show ?thesis using n(1) by (simp add: take_add add.commute)
  next
    case False
    then have "n = length d - unat ofs" using n(1) by simp
    then show ?thesis using False n(2) by simp
  qed
  then show ?case
    using Cons.IH [of "st\<lparr>dv_files := (dv_files st)(f \<mapsto> TYPE_ROOT (ofs + of_nat n) sz d)\<rparr>" "ofs + of_nat n" "got @ take n (drop (unat ofs) d)"] ok n(3,4)
    by (auto simp: append_assoc)
qed simp

text \<open>C23: A device that is announced appears in the directory of devices. Sending the target \<open>d\<close> to a new device \<open>n\<close> makes the name
  a link to the target and changes no other link; a pipe to the directory that is opened then has the size of the listing
  and delivers, in reads of any sizes, the names of all devices, each one once and followed by a zero, with one zero more at the end;
  and the invariant of the service is kept.\<close>

theorem devfs_publishes:
  assumes "devfs_inv st" "dv_files st f = Some (TYPE_NEW n)" "0 \<notin> set d" "flags AND F_MOUNT_FILE \<noteq> 0"
    and "length (listing (n # map fst (dv_devices st))) < 2 ^ 32"
  shows "\<exists>st1 g st2 names. devfs_stream_send f (d @ [0]) flags st = Inr (Inr (Suc (length d)), st1) \<and> devfs_inv st1 \<and>
    (\<forall>p. devfs_is_symlink p st1 = (if p \<noteq> [] \<and> tl p = n then Some d else devfs_is_symlink p st)) \<and>
    devfs_create_pipe [] O_RDONLY st1 = (Inr g, st2) \<and> distinct names \<and> set names = {m. devfs_is_symlink (47 # m) st1 \<noteq> None} \<and>
    devfs_get_flag g F_FILESIZE st2 = Inr (Inr (of_nat (length (listing names)))) \<and>
    (\<forall>ns. \<exists>st3. devfs_reads g ns st2 = Inr (take (sum_list ns) (listing names), st3))"
proof -
  define st1 where "st1 = st\<lparr>dv_devices := put_device n d (dv_devices st)\<rparr>"
  define names where "names = map fst (dv_devices st1)"
  define x where "x = TYPE_ROOT 0 (of_nat (length (listing names))) (listing names)"
  define g where "g = Suc (dv_fresh st1)"
  define st2 where "st2 = st1\<lparr>dv_files := (dv_files st1)(g \<mapsto> x), dv_fresh := g\<rparr>"
  have "takeWhile (\<lambda>b. b \<noteq> 0) (d @ [0]) = d" using assms(3) by (subst takeWhile_append2) auto
  then have send: "devfs_stream_send f (d @ [0]) flags st = Inr (Inr (Suc (length d)), st1)"
    using assms(2,4) by (simp add: devfs_stream_send_def dev_file_at_def st1_def)
  then have inv: "devfs_inv st1" using devfs_exec_inv [OF assms(1), of "DSend f (d @ [0]) flags"] by simp
  have links: "\<forall>p. devfs_is_symlink p st1 = (if p \<noteq> [] \<and> tl p = n then Some d else devfs_is_symlink p st)"
    by (simp add: devfs_is_symlink_def st1_def devices.put_map)
  have open_dir: "devfs_create_pipe [] O_RDONLY st1 = (Inr g, st2)"
    by (simp add: devfs_create_pipe_def O_RDONLY_def O_WRONLY_def new_dev_file_def Let_def st2_def g_def x_def names_def)
  have set_names: "set names = {m. devfs_is_symlink (47 # m) st1 \<noteq> None}"
    by (simp add: names_def devfs_is_symlink_def map_of_eq_None_iff)
  have "length (listing names) \<le> length (listing (n # map fst (dv_devices st)))"
    using set_dest_Some [of n d "dv_devices st"]
    by (auto simp: names_def st1_def put_device_def listing_def simp del: map_map split: option.splits)
  then have len: "length (listing names) < 2 ^ 32" using assms(5) by linarith
  have "unat (of_nat (length (listing names)) :: u32) = length (listing names)" using len by (simp add: unat_of_nat take_bit_nat_eq_self)
  then have sz: "(ucast (of_nat (length (listing names)) :: u32) :: u64) = of_nat (length (listing names))"
    unfolding unsigned_of_nat using len by (simp add: take_bit_nat_eq_self)
  have fl: "dv_files st2 g = Some x" by (simp add: st2_def)
  have "dev_file_ok x" by (simp add: x_def dev_file_ok_def)
  then have "\<forall>ns. \<exists>st3. devfs_reads g ns st2 = Inr (take (sum_list ns) (listing names), st3)"
    using devfs_reads_root [OF fl [unfolded x_def], where got = "[]"] len by (simp add: devfs_reads_def x_def)
  moreover have "devfs_get_flag g F_FILESIZE st2 = Inr (Inr (of_nat (length (listing names))))"
    using fl sz by (simp add: devfs_get_flag_def dev_file_at_def x_def Let_def)
  ultimately show ?thesis
    using send inv links open_dir set_names inv by (intro exI [of _ st1] exI [of _ g] exI [of _ st2] exI [of _ names]) (simp add: devfs_inv_def names_def)
qed

theorem devfs_publishes_witness:
  "\<exists>st1 g st2 st3. devfs_stream_send 1 [120, 0] F_MOUNT_FILE \<lparr>dv_devices = [([97], [98])], dv_files = [1 \<mapsto> TYPE_NEW [107]], dv_fresh = 1\<rparr> =
       Inr (Inr 2, st1) \<and> devfs_is_symlink [47, 107] st1 = Some [120] \<and> devfs_is_symlink [47, 97] st1 = Some [98] \<and>
     devfs_create_pipe [] O_RDONLY st1 = (Inr g, st2) \<and> devfs_reads g [3, 9] st2 = Inr ([107, 0, 97, 0, 0], st3)"
proof -
  let ?st = "\<lparr>dv_devices = [([97], [98])], dv_files = [1 \<mapsto> TYPE_NEW [107]], dv_fresh = 1\<rparr>"
  have "devfs_inv ?st" by (simp add: devfs_inv_def dev_file_ok_def)
  from devfs_publishes [OF this, of 1 "[107]" "[120]" F_MOUNT_FILE] obtain st1 g st2 names where
    r: "devfs_stream_send 1 ([120] @ [0]) F_MOUNT_FILE ?st = Inr (Inr (Suc (length [120])), st1)"
      "\<forall>p. devfs_is_symlink p st1 = (if p \<noteq> [] \<and> tl p = [107] then Some [120] else devfs_is_symlink p ?st)"
      "devfs_create_pipe [] O_RDONLY st1 = (Inr g, st2)"
      "\<forall>ns. \<exists>st3. devfs_reads g ns st2 = Inr (take (sum_list ns) (listing names), st3)"
    by (auto simp: F_MOUNT_FILE_def listing_def)
  have st1: "st1 = ?st\<lparr>dv_devices := [([107], [120]), ([97], [98])]\<rparr>"
    using r(1) by (simp add: devfs_stream_send_def dev_file_at_def F_MOUNT_FILE_def put_device_def)
  have "devfs_is_symlink [47, 107] st1 = Some [120] \<and> devfs_is_symlink [47, 97] st1 = Some [98]"
    by (simp add: devfs_is_symlink_def st1)
  moreover obtain st3 where st3: "devfs_reads g [3, 9] st2 = Inr ([107, 0, 97, 0, 0], st3)"
  proof -
    have "g = Suc 1" "st2 = st1\<lparr>dv_files := (dv_files st1)(Suc 1 \<mapsto> TYPE_ROOT 0 5 [107, 0, 97, 0, 0]), dv_fresh := Suc 1\<rparr>"
      using r(3) by (auto simp: devfs_create_pipe_def new_dev_file_def Let_def O_RDONLY_def O_WRONLY_def listing_def st1)
    then show ?thesis
      using that by (simp add: devfs_reads_def devfs_stream_recv_def dev_file_at_def)
  qed
  ultimately show ?thesis using r(1,3) by auto
qed

theorem mount_redirects_witness:
  "\<exists>st. root_stream_send 1 ([40, 120, 41] @ [0]) F_MOUNT_FILE \<lparr>rm_entries = [], rm_points = [1 \<mapsto> [47, 109]], rm_fresh = 1\<rparr> = Inr (Inr 4, st) \<and>
     create_pipe \<lparr>sys_server = [7 \<mapsto> root_server], sys_daemon = (\<lambda>_. 7), sys_fresh = (\<lambda>n. replicate n 0)\<rparr> [47, 109, 47, 97] 1 demo_client st =
     create_pipe \<lparr>sys_server = [7 \<mapsto> root_server], sys_daemon = (\<lambda>_. 7), sys_fresh = (\<lambda>n. replicate n 0)\<rparr> [40, 120, 41, 47, 97] 1 demo_client st"
proof -
  let ?st = "\<lparr>rm_entries = [], rm_points = [1 \<mapsto> [47, 109]], rm_fresh = 1\<rparr>"
  let ?sys = "\<lparr>sys_server = [7 \<mapsto> root_server], sys_daemon = (\<lambda>_. 7), sys_fresh = (\<lambda>n. replicate n 0)\<rparr>"
  have "root_exec (RCreate [47, 109] O_CREAT_MOUNT_POINT) \<lparr>rm_entries = [], rm_points = (\<lambda>_. None), rm_fresh = 0\<rparr> = Inr ?st"
    by (simp add: root_create_pipe_def O_CREAT_MOUNT_POINT_def)
  then have reach: "root_reach ?st" by (rule root_reach.step [OF root_reach.start])
  obtain st where st: "root_stream_send 1 ([40, 120, 41] @ [0]) F_MOUNT_FILE ?st = Inr (Inr 4, st)"
    by (simp add: root_stream_send_def)
  have path: "extract_path (word_byte 1 3) (cwd demo_client) [47, 109, 47, 97] = Some (Inr (Some ([114, 111, 111, 116], [47, 109] @ [47, 97])))"
    using simplify_path_spec [of "word_byte 1 3" "[109, 47, 97]"]
    by (subst extract_path.simps) (simp add: word_byte_def components.simps enter_def join_path_def)
  have len: "length (replicate 4096 (0 :: u8)) = 4096" by (rule length_replicate)
  have free: "free_pipe 0 (pipes demo_client) \<noteq> None" by (simp add: free_pipe_none demo_client_def)
  have "create_pipe ?sys [47, 109, 47, 97] 1 demo_client st = create_pipe ?sys ([40, 120, 41] @ [47, 97]) 1 demo_client st"
    using mount_redirects [OF reach _ st _ _ _ path, of "?sys" root_server st "\<lambda>s. s"] free len
    by (simp add: root_server_def O_NOFOLLOW_def del: length_replicate)
  then show ?thesis using st by simp
qed

end
