(* ===== verification/Dns.thy ===== *)
theory Dns
  imports Stdio Vfs
begin

unbundle bit_operations_syntax

text \<open>
  The name resolver (\<open>progs/common/dns/dns.c\<close>): a pipe stands for a host name, reading from it gives the address of the host
  as text. The buffer of \<open>update_ip\<close> is a list of 2050 bytes in which the message starts at index 2, as in the code; what
  \<open>malloc\<close> leaves in it and what the network answers to a message are parameters. Locks are left out.
\<close>

section \<open>Definitions\<close>

record dns_connection =
  dc_dname :: "u8 list"
  dc_ip_string :: "u8 list option"
  dc_ip :: u32
  dc_dns_ip :: u32
  dc_position :: u32

record dns_service =
  ds_conns :: "nat \<Rightarrow> dns_connection option"
  ds_fresh :: nat
  ds_default_dns_ip :: u32
  ds_use_tcp :: bool

text \<open>What can be received: the bytes there are when the pipe becomes readable, and those that follow later.\<close>

record dns_input =
  di_first :: "u8 list"
  di_later :: "u8 list"

text \<open>The network: the server asked and the bytes sent to it; \<open>None\<close> if nothing comes for five seconds.\<close>

type_synonym dns_net = "u32 \<Rightarrow> u8 list \<Rightarrow> dns_input option"

definition DNS_BUF :: nat where "DNS_BUF = 2050"

definition sprintf :: "u8 list \<Rightarrow> unit varg list \<Rightarrow> u8 list outcome" where
  "sprintf fmt args = rbind (vsnprintf (\<lambda>_ _ _. []) 0x7FFFFFFF (Some fmt) args) (\<lambda>r. Inr (vs_bytes r))"

subsection \<open>The question\<close>

text \<open>The loop over the name; \<open>cur\<close> is the part from \<open>j\<close> to \<open>i\<close>.\<close>

fun encode_labels :: "u8 list \<Rightarrow> u8 list \<Rightarrow> u8 list" where
  "encode_labels cur [] = (if cur = [] then [] else of_nat (length cur) # cur)"
| "encode_labels cur (c # cs) =
     (if c = 46 then of_nat (length cur) # cur @ encode_labels [] cs else encode_labels (cur @ [c]) cs)"

definition dns_query :: "u8 list \<Rightarrow> u8 list" where
  "dns_query dname = [0, 0, 1, 0, 0, 1, 0, 0, 0, 0, 0, 0] @ encode_labels [] dname @ [0, 0, 1, 0, 1]"

definition put_bytes :: "u8 list \<Rightarrow> nat \<Rightarrow> u8 list \<Rightarrow> u8 list outcome" where
  "put_bytes b i d = (if length b < i + length d then Inl OutOfBounds else Inr (take i b @ d @ drop (i + length d) b))"

definition dns16 :: "u8 list \<Rightarrow> nat \<Rightarrow> nat outcome" where
  "dns16 b i = rbind (aget b i) (\<lambda>h. rbind (aget b (i + 1)) (\<lambda>l. Inr (unat h * 256 + unat l)))"

subsection \<open>The answer\<close>

text \<open>\<open>while (buf[o++]);\<close>\<close>

function skip_name :: "u8 list \<Rightarrow> nat \<Rightarrow> nat outcome" where
  "skip_name b i = (if length b \<le> i then Inl OutOfBounds else if b ! i = 0 then Inr (i + 1) else skip_name b (i + 1))"
  by pat_completeness auto
termination by (relation "measure (\<lambda>(b, i). length b - i)") auto

declare skip_name.simps [simp del]

fun skip_questions :: "u8 list \<Rightarrow> nat \<Rightarrow> nat \<Rightarrow> nat outcome" where
  "skip_questions b 0 i = Inr i"
| "skip_questions b (Suc n) i = rbind (skip_name b i) (\<lambda>i. skip_questions b n (i + 4))"

text \<open>The loop over the answers: the four bytes of the first address.\<close>

fun find_address :: "u8 list \<Rightarrow> nat \<Rightarrow> nat \<Rightarrow> u8 list option outcome" where
  "find_address b 0 i = Inr None"
| "find_address b (Suc n) i =
     (let i = i + 2 in
      rbind (dns16 b i) (\<lambda>type.
      if type = 1 then
        let i = i + 10 in if length b < i + 4 then Inl OutOfBounds else Inr (Some (take 4 (drop i b)))
      else
        let i = i + 8 in rbind (dns16 b i) (\<lambda>len. find_address b n (i + len + 2))))"

text \<open>Receiving the answer into the buffer.\<close>

definition receive_answer :: "bool \<Rightarrow> dns_input \<Rightarrow> u8 list \<Rightarrow> u8 list outcome" where
  "receive_answer use_tcp inp b =
     (if \<not> use_tcp then put_bytes b 2 (take 2048 (di_first inp))
      else
        rbind (put_bytes b 0 (di_first inp)) (\<lambda>b.
        rbind (dns16 b 0) (\<lambda>expected.
        let pressure = of_nat (length (di_first inp)) - 2 :: u32 in
        if pressure < of_nat expected
        then put_bytes b (2 + unat pressure) (take (expected - unat pressure) (di_later inp))
        else Inr b)))"

text \<open>The part of \<open>update_ip\<close> that looks for the address in an answer.\<close>

definition parse_answer :: "u8 list \<Rightarrow> u8 list option outcome" where
  "parse_answer b =
     rbind (dns16 b 6) (\<lambda>qcount.
     rbind (dns16 b 8) (\<lambda>acount.
     rbind (skip_questions b qcount 14) (\<lambda>i. find_address b acount i)))"

definition set_address :: "u8 list \<Rightarrow> dns_connection \<Rightarrow> dns_connection outcome" where
  "set_address a c =
     rbind (sprintf [37, 105, 46, 37, 105, 46, 37, 105, 46, 37, 105] (map (\<lambda>x. VInt (ucast x)) a)) (\<lambda>s.
     Inr (c\<lparr>dc_ip_string := Some s,
        dc_ip := push_bit 24 (ucast (a ! 0)) OR push_bit 16 (ucast (a ! 1)) OR push_bit 8 (ucast (a ! 2)) OR ucast (a ! 3)\<rparr>))"

text \<open>\<open>update_ip\<close>: whether the request has timed out, and the connection.\<close>

definition update_ip :: "bool \<Rightarrow> dns_net \<Rightarrow> u8 list \<Rightarrow> dns_connection \<Rightarrow> (bool \<times> dns_connection) outcome" where
  "update_ip use_tcp net fresh c =
     (if dc_ip_string c \<noteq> None then Inr (False, c)
      else
        let q = dns_query (dc_dname c); n = length q in
        rbind (put_bytes fresh 2 q) (\<lambda>b.
        rbind (if use_tcp then put_bytes b 0 [of_nat (n div 256), of_nat n] else Inr b) (\<lambda>b.
        case net (dc_dns_ip c) (if use_tcp then take (n + 2) b else take n (drop 2 b)) of
          None \<Rightarrow> Inr (True, c)
        | Some inp \<Rightarrow>
            rbind (receive_answer use_tcp inp b) (\<lambda>b.
            rbind (parse_answer b) (\<lambda>r.
            case r of
              None \<Rightarrow> Inr (False, c)
            | Some a \<Rightarrow> rbind (set_address a c) (\<lambda>c. Inr (False, c)))))))"

subsection \<open>The service\<close>

definition dns_conn :: "dns_service \<Rightarrow> nat \<Rightarrow> dns_connection outcome" where
  "dns_conn st f = (case ds_conns st f of None \<Rightarrow> Inl BadPointer | Some c \<Rightarrow> Inr c)"

definition dns_set_conn :: "nat \<Rightarrow> dns_connection \<Rightarrow> dns_service \<Rightarrow> dns_service" where
  "dns_set_conn f c st = st\<lparr>ds_conns := (ds_conns st)(f \<mapsto> c)\<rparr>"

definition dns_create_pipe :: "u8 list \<Rightarrow> u32 \<Rightarrow> dns_service \<Rightarrow> (net_errno + nat) \<times> dns_service" where
  "dns_create_pipe relpath flags st =
     (if flags AND O_WRONLY \<noteq> 0 then (Inl EACCES, st)
      else
        let f = Suc (ds_fresh st);
            c = \<lparr>dc_dname = tl relpath, dc_ip_string = None, dc_ip = 0, dc_dns_ip = ds_default_dns_ip st, dc_position = 0\<rparr>
        in (Inr f, dns_set_conn f c (st\<lparr>ds_fresh := f\<rparr>)))"

definition dns_destroy_pipe :: "nat \<Rightarrow> dns_service \<Rightarrow> dns_service outcome" where
  "dns_destroy_pipe f st = rbind (dns_conn st f) (\<lambda>_. Inr (st\<lparr>ds_conns := (ds_conns st)(f := None)\<rparr>))"

text \<open>\<open>strdup\<close> of a null pointer reads from it.\<close>

definition dns_duplicate_pipe :: "nat \<Rightarrow> dns_service \<Rightarrow> (nat \<times> dns_service) outcome" where
  "dns_duplicate_pipe f st =
     rbind (dns_conn st f) (\<lambda>c.
     if dc_ip_string c = None then Inl BadPointer
     else let g = Suc (ds_fresh st) in Inr (g, dns_set_conn g c (st\<lparr>ds_fresh := g\<rparr>)))"

definition dns_update :: "dns_net \<Rightarrow> u8 list \<Rightarrow> nat \<Rightarrow> dns_service \<Rightarrow> (bool \<times> dns_connection \<times> dns_service) outcome" where
  "dns_update net fresh f st =
     rbind (dns_conn st f) (\<lambda>c.
     rbind (update_ip (ds_use_tcp st) net fresh c) (\<lambda>(late, c). Inr (late, c, dns_set_conn f c st)))"

text \<open>\<open>service_stream_recv\<close> into a buffer of \<open>len\<close> bytes; the string has been allocated with its terminating zero.\<close>

definition dns_stream_recv :: "dns_net \<Rightarrow> u8 list \<Rightarrow> nat \<Rightarrow> nat \<Rightarrow> dns_service \<Rightarrow> (u8 list \<times> dns_service) outcome" where
  "dns_stream_recv net fresh f len st =
     rbind (dns_update net fresh f st) (\<lambda>(late, c, st).
     if late then Inr ([], st)
     else case dc_ip_string c of
       None \<Rightarrow> Inr ([], st)
     | Some s \<Rightarrow>
         let left = unat (of_nat (length s) - dc_position c); sz = (if left < len then left else len) in
         if sz = 0 then Inr ([], st)
         else if length s < unat (dc_position c) + sz then Inl OutOfBounds
         else Inr (take sz (drop (unat (dc_position c)) s), dns_set_conn f (c\<lparr>dc_position := dc_position c + of_nat sz\<rparr>) st))"

definition dns_pipe_implements :: "vfs_interface \<Rightarrow> bool" where
  "dns_pipe_implements i \<longleftrightarrow> i = I_DNS \<or> i = I_FILE"

text \<open>The result is the value returned and \<open>errno\<close>, if it is set.\<close>

definition dns_set_flag :: "nat \<Rightarrow> net_flag \<Rightarrow> u64 \<Rightarrow> dns_service \<Rightarrow> ((int \<times> net_errno option) \<times> dns_service) outcome" where
  "dns_set_flag f flag val st =
     (let wide = (val AND NOT 0xFFFFFFFF \<noteq> 0); ok = (0, None); refused = (- 22, None) in
      case flag of
        F_FLUSH \<Rightarrow> Inr (ok, st)
      | F_POSITION \<Rightarrow>
          rbind (dns_conn st f) (\<lambda>c.
          let val = (case dc_ip_string c of None \<Rightarrow> 0 | Some s \<Rightarrow> if of_nat (length s) < val then of_nat (length s) else val) in
          Inr (ok, dns_set_conn f (c\<lparr>dc_position := ucast val\<rparr>) st))
      | F_DNS_NSIP \<Rightarrow>
          if wide then Inr (refused, st)
          else rbind (dns_conn st f) (\<lambda>c. Inr (ok, dns_set_conn f (c\<lparr>dc_ip_string := None, dc_dns_ip := ucast val\<rparr>) st))
      | F_DNS_DEFAULT_NSIP \<Rightarrow>
          if wide then Inr (refused, st) else Inr (ok, st\<lparr>ds_default_dns_ip := ucast val\<rparr>)
      | _ \<Rightarrow> Inr ((0, Some EINVAL), st))"

definition dns_get_flag :: "dns_net \<Rightarrow> u8 list \<Rightarrow> nat \<Rightarrow> net_flag \<Rightarrow> dns_service \<Rightarrow> ((net_errno + u64) \<times> dns_service) outcome" where
  "dns_get_flag net fresh f flag st =
     (let resolved = (\<lambda>g. rbind (dns_update net fresh f st) (\<lambda>(_, c, st).
            Inr (Inr (case dc_ip_string c of None \<Rightarrow> 0 | Some s \<Rightarrow> g (of_nat (length s) :: u32) (dc_position c)), st)));
          plain = (\<lambda>g. rbind (dns_conn st f) (\<lambda>c. Inr (Inr (g c), st)))
      in
      case flag of
        F_PRESSURE \<Rightarrow> resolved (\<lambda>len pos. ucast (len - pos))
      | F_READABLE \<Rightarrow> resolved (\<lambda>len pos. of_bool (sint pos < sint len))
      | F_WRITABLE \<Rightarrow> Inr (Inr 0, st)
      | F_FILESIZE \<Rightarrow> resolved (\<lambda>len pos. ucast len)
      | F_POSITION \<Rightarrow> plain (\<lambda>c. scast (dc_position c))
      | F_DNS_RESOLVED_IP \<Rightarrow> plain (\<lambda>c. ucast (dc_ip c))
      | F_DNS_NSIP \<Rightarrow> plain (\<lambda>c. ucast (dc_dns_ip c))
      | _ \<Rightarrow> Inr (Inl EINVAL, st))"

section \<open>Messages\<close>

text \<open>Names, questions and records as RFC 1035 lays them out. Every record starts with a pointer to a name, two bytes long.\<close>

definition dns_name :: "u8 list list \<Rightarrow> u8 list" where
  "dns_name ls = concat (map (\<lambda>l. of_nat (length l) # l) ls) @ [0]"

record dns_rr =
  rr_name :: "u8 list"
  rr_type :: u16
  rr_class_ttl :: "u8 list"
  rr_data :: "u8 list"

definition rr_bytes :: "dns_rr \<Rightarrow> u8 list" where
  "rr_bytes r = rr_name r @ be16 (rr_type r) @ rr_class_ttl r @ be16 (of_nat (length (rr_data r))) @ rr_data r"

definition rr_ok :: "dns_rr \<Rightarrow> bool" where
  "rr_ok r \<longleftrightarrow> length (rr_name r) = 2 \<and> length (rr_class_ttl r) = 6 \<and> length (rr_data r) < 65536 \<and>
     (rr_type r = 1 \<longrightarrow> length (rr_data r) = 4)"

fun first_address :: "dns_rr list \<Rightarrow> u8 list option" where
  "first_address [] = None"
| "first_address (r # rs) = (if rr_type r = 1 then Some (rr_data r) else first_address rs)"

text \<open>A reply to one question: the identification and flags \<open>h\<close>, the counts \<open>m\<close> of the sections behind the answers, the
  question with its type and class \<open>q\<close>, the answers and the rest.\<close>

definition dns_reply :: "u8 list \<Rightarrow> u8 list \<Rightarrow> u8 list list \<Rightarrow> u8 list \<Rightarrow> dns_rr list \<Rightarrow> u8 list \<Rightarrow> u8 list" where
  "dns_reply h m ls q rrs tail = h @ [0, 1] @ be16 (of_nat (length rrs)) @ m @ dns_name ls @ q @ concat (map rr_bytes rrs) @ tail"

definition label_ok :: "u8 list \<Rightarrow> bool" where
  "label_ok l \<longleftrightarrow> l \<noteq> [] \<and> length l < 64 \<and> 0 \<notin> set l \<and> 46 \<notin> set l"

fun host_name :: "u8 list list \<Rightarrow> u8 list" where
  "host_name [] = []"
| "host_name [l] = l"
| "host_name (l # ls) = l @ 46 # host_name ls"

text \<open>How a reply reaches the service: as one datagram, or as a stream behind its length of which at least two bytes and not
  more than fit the buffer are there at first.\<close>

definition delivers :: "bool \<Rightarrow> u8 list \<Rightarrow> dns_input \<Rightarrow> bool" where
  "delivers use_tcp m inp \<longleftrightarrow>
     (if use_tcp then \<exists>k rest. 2 \<le> k \<and> di_first inp = take k (be16 (of_nat (length m)) @ m) \<and>
        di_later inp = drop k (be16 (of_nat (length m)) @ m) @ rest
      else di_first inp = m)"

definition dotted :: "u8 list \<Rightarrow> u8 list" where
  "dotted a = (let t = (\<lambda>i. map dchar (dec_digits (unat (a ! i)))) in t 0 @ [46] @ t 1 @ [46] @ t 2 @ [46] @ t 3)"

section \<open>The question\<close>

lemma encode_labels_label: "46 \<notin> set l \<Longrightarrow> encode_labels cur (l @ cs) = encode_labels (cur @ l) cs"
  by (induction l arbitrary: cur) auto

lemma encode_host_name:
  "list_all label_ok ls \<Longrightarrow> encode_labels [] (host_name ls) @ [0] = dns_name ls"
proof (induction ls rule: host_name.induct)
  case (2 l)
  then show ?case using encode_labels_label [of l "[]" "[]"] by (simp add: dns_name_def label_ok_def)
next
  case (3 l k ls)
  then show ?case using encode_labels_label [of l "[]" "46 # host_name (k # ls)"] by (auto simp: dns_name_def label_ok_def)
qed (simp add: dns_name_def)

lemma dns_query_name:
  assumes "list_all label_ok ls"
  shows "dns_query (host_name ls) = [0, 0, 1, 0, 0, 1, 0, 0, 0, 0, 0, 0] @ dns_name ls @ [0, 1, 0, 1]"
proof -
  have "encode_labels [] (host_name ls) @ [0, 0, 1, 0, 1] = (encode_labels [] (host_name ls) @ [0]) @ [0, 1, 0, 1]" by simp
  then show ?thesis unfolding encode_host_name [OF assms] by (simp add: dns_query_def)
qed

section \<open>The answer\<close>

lemma unat_high_byte: "unat (drop_bit 8 x) = unat x div 256" for x :: u16
  using unsigned_less [of x, where ?'a = nat] by (simp only: unsigned_drop_bit_eq) (simp add: drop_bit_eq_div take_bit_nat_eq_self)

lemma be16_of_nat: "n < 65536 \<Longrightarrow> be16 (of_nat n) = [of_nat (n div 256), of_nat n]"
  unfolding be16_def list.inject word_unat_eq_iff
  by (simp add: unat_high_byte unsigned_ucast_eq unat_of_nat take_bit_eq_mod del: drop_bit_eq_div)

lemma dns16_append: "dns16 (pre @ be16 x @ post) (length pre) = Inr (unat x)"
  using unsigned_less [of x, where ?'a = nat] unfolding be16_def
  by (simp add: dns16_def aget_def nth_append unat_high_byte unsigned_ucast_eq take_bit_eq_mod del: drop_bit_eq_div)

lemma skip_name_bytes: "0 \<notin> set zs \<Longrightarrow> skip_name (pre @ zs @ 0 # post) (length pre) = Inr (length pre + length zs + 1)"
proof (induction zs arbitrary: pre)
  case Nil
  show ?case by (simp add: skip_name.simps)
next
  case (Cons z zs)
  then show ?case using Cons.IH [of "pre @ [z]"] by (subst skip_name.simps) (simp add: nth_append)
qed

lemma skip_name_labels:
  assumes "list_all label_ok ls"
  shows "skip_name (pre @ dns_name ls @ post) (length pre) = Inr (length pre + length (dns_name ls))"
proof -
  have "(of_nat (length l) :: u8) \<noteq> 0 \<and> 0 \<notin> set l" if "label_ok l" for l
    using that unat_of_nat [of "length l", where ?'a = 8] by (auto simp: label_ok_def take_bit_nat_eq_self)
  then have "0 \<notin> set (concat (map (\<lambda>l. of_nat (length l) # l) ls) :: u8 list)" using assms by (induction ls) auto
  from skip_name_bytes [OF this, of pre post] show ?thesis by (simp add: dns_name_def)
qed

lemma find_address_rrs:
  "list_all rr_ok rrs \<Longrightarrow> find_address (pre @ concat (map rr_bytes rrs) @ post) (length rrs) (length pre) = Inr (first_address rrs)"
proof (induction rrs arbitrary: pre)
  case (Cons r rrs)
  define b where "b = pre @ concat (map rr_bytes (r # rrs)) @ post"
  have ok: "length (rr_name r) = 2" "length (rr_class_ttl r) = 6" "length (rr_data r) < 65536" "rr_type r = 1 \<Longrightarrow> length (rr_data r) = 4"
    using Cons.prems by (auto simp: rr_ok_def)
  define rest where "rest = concat (map rr_bytes rrs) @ post"
  have b: "b = (pre @ rr_name r) @ be16 (rr_type r) @ rr_class_ttl r @ be16 (of_nat (length (rr_data r))) @ rr_data r @ rest"
    "b = (pre @ rr_name r @ be16 (rr_type r) @ rr_class_ttl r) @ be16 (of_nat (length (rr_data r))) @ rr_data r @ rest"
    "b = (pre @ rr_name r @ be16 (rr_type r) @ rr_class_ttl r @ be16 (of_nat (length (rr_data r)))) @ rr_data r @ rest"
    "b = (pre @ rr_bytes r) @ concat (map rr_bytes rrs) @ post"
    by (simp_all add: b_def rr_bytes_def rest_def)
  have type: "dns16 b (length pre + 2) = Inr (unat (rr_type r))"
    using dns16_append [of "pre @ rr_name r"] ok(1) unfolding b(1) by simp
  have len: "dns16 b (length pre + 10) = Inr (length (rr_data r))"
    using dns16_append [of "pre @ rr_name r @ be16 (rr_type r) @ rr_class_ttl r"] ok unfolding b(2)
    by (simp add: unat_of_nat take_bit_nat_eq_self)
  have data: "take 4 (drop (length pre + 12) b) = rr_data r" "length pre + 16 \<le> length b" if "rr_type r = 1"
    using ok(1,2,4) that unfolding b(3) by (auto simp: drop_append)
  have "length (pre @ rr_bytes r) = length pre + 12 + length (rr_data r)" using ok(1,2) by (simp add: rr_bytes_def)
  then have "find_address b (length rrs) (length pre + 12 + length (rr_data r)) = Inr (first_address rrs)"
    using Cons.IH [of "pre @ rr_bytes r"] Cons.prems unfolding b(4) by (simp add: add.assoc)
  moreover have "unat (rr_type r) = 1 \<longleftrightarrow> rr_type r = 1" by (metis unat_1 word_unat_eq_iff)
  ultimately have "find_address b (length (r # rrs)) (length pre) = Inr (first_address (r # rrs))"
    using type len data by (cases "rr_type r = 1") (simp_all add: Let_def not_less add.commute add.left_commute)
  then show ?case by (simp only: b_def)
qed simp

lemma parse_answer_reply:
  assumes "length u = 2" "length h = 4" "length m = 4" "length q = 4" "list_all label_ok ls" "list_all rr_ok rrs" "length rrs < 65536"
  shows "parse_answer (u @ dns_reply h m ls q rrs tail @ w) = Inr (first_address rrs)"
proof -
  define b where "b = u @ dns_reply h m ls q rrs tail @ w"
  have b: "b = (u @ h) @ be16 1 @ be16 (of_nat (length rrs)) @ m @ dns_name ls @ q @ concat (map rr_bytes rrs) @ tail @ w"
    "b = (u @ h @ be16 1) @ be16 (of_nat (length rrs)) @ m @ dns_name ls @ q @ concat (map rr_bytes rrs) @ tail @ w"
    "b = (u @ h @ be16 1 @ be16 (of_nat (length rrs)) @ m) @ dns_name ls @ q @ concat (map rr_bytes rrs) @ tail @ w"
    "b = (u @ h @ be16 1 @ be16 (of_nat (length rrs)) @ m @ dns_name ls @ q) @ concat (map rr_bytes rrs) @ tail @ w"
    by (simp_all add: b_def dns_reply_def be16_def)
  have "dns16 b 6 = Inr 1" using dns16_append [of "u @ h"] assms(1,2) unfolding b(1) by simp
  moreover have "dns16 b 8 = Inr (length rrs)"
    using dns16_append [of "u @ h @ be16 1"] assms(1,2,7) unfolding b(2) by (simp add: unat_of_nat take_bit_nat_eq_self)
  moreover have "skip_name b 14 = Inr (14 + length (dns_name ls))"
    using skip_name_labels [OF assms(5), of "u @ h @ be16 1 @ be16 (of_nat (length rrs)) @ m"] assms(1-3) unfolding b(3) by simp
  moreover have "find_address b (length rrs) (18 + length (dns_name ls)) = Inr (first_address rrs)"
    using find_address_rrs [OF assms(6), of "u @ h @ be16 1 @ be16 (of_nat (length rrs)) @ m @ dns_name ls @ q"] assms(1-4)
    unfolding b(4) by (simp add: add.commute add.left_commute)
  ultimately show ?thesis unfolding b_def [symmetric] by (simp add: parse_answer_def add.commute add.left_commute)
qed

lemma put_bytes_fits: "i + length d \<le> length b \<Longrightarrow> put_bytes b i d = Inr (take i b @ d @ drop (i + length d) b)"
  by (simp add: put_bytes_def)

lemma receive_answer_delivers:
  assumes "delivers use_tcp m inp" "length b = DNS_BUF" "length m \<le> 2048"
  shows "\<exists>u w. length u = 2 \<and> receive_answer use_tcp inp b = Inr (u @ m @ w)"
proof (cases use_tcp)
  case False
  then show ?thesis
    using assms by (intro exI [of _ "take 2 b"] exI [of _ "drop (2 + length m) b"]) (simp add: receive_answer_def delivers_def put_bytes_fits DNS_BUF_def)
next
  case True
  define L where "L = be16 (of_nat (length m))"
  obtain k rest where k: "2 \<le> k" "di_first inp = take k (L @ m)" "di_later inp = drop k (L @ m) @ rest"
    using assms(1) True by (auto simp: delivers_def L_def)
  define j where "j = min (k - 2) (length m)"
  have L: "length L = 2" by (simp add: L_def)
  have first: "di_first inp = L @ take j m" "length (di_first inp) = 2 + j" using k L by (auto simp: j_def min_def)
  have later: "take (length m - j) (di_later inp) = drop j m" using k L by (auto simp: j_def min_def)
  have j: "j \<le> length m" by (simp add: j_def)
  define b1 where "b1 = L @ take j m @ drop (2 + j) b"
  have p1: "put_bytes b 0 (di_first inp) = Inr b1"
    using first assms(2,3) j by (subst put_bytes_fits) (simp_all add: b1_def DNS_BUF_def L)
  have "dns16 b1 0 = Inr (length m)"
    using dns16_append [of "[]" "of_nat (length m)"] assms(3) by (simp add: b1_def L_def unat_of_nat take_bit_nat_eq_self)
  moreover have p: "of_nat (length (di_first inp)) - 2 = (of_nat j :: u32)" by (simp add: first(2))
  moreover have "unat (of_nat j :: u32) = j" "(of_nat j :: u32) < of_nat (length m) \<longleftrightarrow> j < length m"
    using j assms(3) by (simp_all add: unat_of_nat word_less_nat_alt take_bit_nat_eq_self)
  moreover have "\<exists>w. (if j < length m then put_bytes b1 (2 + j) (take (length m - j) (di_later inp)) else Inr b1) = Inr (L @ m @ w)"
  proof (cases "j < length m")
    case True
    have "put_bytes b1 (2 + j) (drop j m) = Inr (take (2 + j) b1 @ drop j m @ drop (2 + j + length (drop j m)) b1)"
      by (rule put_bytes_fits) (use j assms(2,3) L in \<open>simp add: b1_def DNS_BUF_def\<close>)
    moreover have "take (2 + j) b1 @ drop j m = L @ m" using L j by (simp add: b1_def)
    ultimately show ?thesis using True later by (metis append.assoc)
  next
    case False
    then show ?thesis using j by (auto simp: b1_def)
  qed
  ultimately have "\<exists>w. receive_answer use_tcp inp b = Inr (L @ m @ w)"
    using True p1 by (auto simp: receive_answer_def Let_def split: if_splits)
  then show ?thesis using L by blast
qed

section \<open>The address\<close>

lemma directive_i:
  "directive_text ff (105 # rest) (VInt x # as) =
     Inr ((if sint x < 0 then [45] else []) @ map dchar (dec_digits (nat \<bar>sint x\<bar>)), rest, as, None)"
  using number_decimal [of "scast x"]
  by (simp add: directive_text_def parse_width_def parse_precision_def parse_qualifier_def int_conversion_def
      fetch_num_def isdigit_def scast_sint)

lemma sint_byte: "sint (ucast (x :: u8) :: u32) = int (unat x)"
proof -
  have "unat x < 256" using unsigned_less [of x, where ?'a = nat] by simp
  then have "unat (ucast x :: u32) = unat x" by (simp add: unsigned_ucast_eq take_bit_nat_eq_self)
  then have u: "uint (ucast x :: u32) = int (unat x)" by (metis uint_nat)
  have "sint (ucast x :: u32) = signed_take_bit 31 (uint (ucast x :: u32))" by (simp add: sint_uint)
  also have "\<dots> = int (unat x)"
  proof -
    have "signed_take_bit 31 (int k) = int k" if "k < 256" for k using that by (intro signed_take_bit_int_eq_self) simp_all
    then show ?thesis unfolding u using \<open>unat x < 256\<close> by blast
  qed
  finally show ?thesis .
qed

lemma set_address_dotted:
  assumes "length a = 4"
  shows "\<exists>ip. set_address a c = Inr (c\<lparr>dc_ip_string := Some (dotted a), dc_ip := ip\<rparr>) \<and> be32 ip = a"
proof -
  obtain w x y z where a: "a = [w, x, y, z]" using assms by (auto simp: numeral_eq_Suc length_Suc_conv)
  define fmt :: "u8 list" where "fmt = [37, 105, 46, 37, 105, 46, 37, 105, 46, 37, 105]"
  have d: "directive_text ff (105 # rest) (VInt (ucast v) # as) = Inr (map dchar (dec_digits (unat v)), rest, as, None)"
    for ff :: "unit \<Rightarrow> int \<Rightarrow> u32 \<Rightarrow> u8 list" and rest "as" and v :: u8
    by (simp add: directive_i sint_byte)
  have ftxt: "format_text (\<lambda>_ _ _. []) fmt (map (\<lambda>x. VInt (ucast x)) a :: unit varg list) = Inr (dotted a)"
    unfolding fmt_def by (simp add: a d dotted_def Let_def)
  have "length (dec_digits (unat v)) \<le> 9" for v :: u8
    using dec_digits_facts(1) [of "unat v"] unsigned_less [of v, where ?'a = nat] by simp
  from this [of w] this [of x] this [of y] this [of z] have len: "length (dotted a) < 0x7FFFFFFF" by (simp add: dotted_def a Let_def)
  have "unat (0x7FFFFFFF :: u32) = 0x7FFFFFFF" by simp
  then have "sprintf fmt (map (\<lambda>x. VInt (ucast x)) a) = Inr (dotted a)"
    using vsnprintf_text [OF ftxt, where n = "0x7FFFFFFF"] len by (auto simp: sprintf_def)
  moreover have "be32 (push_bit 24 (ucast w) OR push_bit 16 (ucast x) OR push_bit 8 (ucast y) OR ucast z) = [w, x, y, z]"
    by (simp add: be32_def) (intro conjI; rule bit_word_eqI; auto simp: bit_simps)
  ultimately show ?thesis unfolding set_address_def fmt_def [symmetric] by (auto simp: a)
qed

text \<open>C24: Resolving a host name. The service sends the server exactly the question of RFC 1035 for the labels of the name, and
  when a reply to it arrives, as a datagram or in two pieces of a stream, the connection then holds the address
  of the first address record among the answers, as a number and as text in dotted decimal notation; without
  such a record, and when no reply arrives in time, the connection is left as it was, and the latter is reported.\<close>

theorem update_ip_resolves:
  assumes "dc_ip_string c = None" "dc_dname c = host_name ls" "list_all label_ok ls" "length fresh = DNS_BUF"
    and "query = [0, 0, 1, 0, 0, 1, 0, 0, 0, 0, 0, 0] @ dns_name ls @ [0, 1, 0, 1]" "length query \<le> 2048"
    and "sent = (if use_tcp then be16 (of_nat (length query)) else []) @ query"
    and "reply = dns_reply h m ls q rrs tail" "length h = 4" "length m = 4" "length q = 4" "list_all rr_ok rrs" "length reply \<le> 2048"
  shows "(net (dc_dns_ip c) sent = None \<longrightarrow> update_ip use_tcp net fresh c = Inr (True, c)) \<and>
    (\<forall>inp. net (dc_dns_ip c) sent = Some inp \<and> delivers use_tcp reply inp \<longrightarrow>
      (case first_address rrs of
         None \<Rightarrow> update_ip use_tcp net fresh c = Inr (False, c)
       | Some a \<Rightarrow> \<exists>ip. update_ip use_tcp net fresh c = Inr (False, c\<lparr>dc_ip_string := Some (dotted a), dc_ip := ip\<rparr>) \<and> be32 ip = a))"
proof -
  define b0 where "b0 = take 2 fresh @ query @ drop (2 + length query) fresh"
  define b where "b = (if use_tcp then be16 (of_nat (length query)) @ query @ drop (2 + length query) fresh else b0)"
  have q: "dns_query (dc_dname c) = query" unfolding assms(2,5) by (rule dns_query_name [OF assms(3)])
  have f: "length fresh = 2050" using assms(4) by (simp add: DNS_BUF_def)
  have p0: "put_bytes fresh 2 query = Inr b0" using f assms(6) by (simp add: put_bytes_fits b0_def)
  have h: "[of_nat (length query div 256), of_nat (length query)] = be16 (of_nat (length query))"
    using assms(6) by (simp add: be16_of_nat)
  have p1: "(if use_tcp then put_bytes b0 0 [of_nat (length query div 256), of_nat (length query)] else Inr b0) = Inr b"
    unfolding h using f assms(6) by (simp add: put_bytes_fits b_def b0_def)
  have sent: "(if use_tcp then take (length query + 2) b else take (length query) (drop 2 b)) = sent"
    using f by (simp add: b_def b0_def assms(7))
  have len: "length b = DNS_BUF" using f assms(6) by (simp add: b_def b0_def DNS_BUF_def)
  have step: "update_ip use_tcp net fresh c = (case net (dc_dns_ip c) sent of None \<Rightarrow> Inr (True, c) | Some inp \<Rightarrow>
      rbind (receive_answer use_tcp inp b) (\<lambda>b. rbind (parse_answer b) (\<lambda>r. case r of None \<Rightarrow> Inr (False, c)
        | Some a \<Rightarrow> rbind (set_address a c) (\<lambda>c. Inr (False, c)))))"
    unfolding update_ip_def by (simp only: assms(1) q Let_def p0 p1 rbind_simps sent) simp
  have n: "length rrs < 65536"
  proof -
    have "length rrs \<le> length (concat (map rr_bytes rrs))" by (induction rrs) (simp_all add: rr_bytes_def)
    then show ?thesis using assms(13) by (simp add: assms(8) dns_reply_def)
  qed
  have addr: "length a = 4" if "first_address rrs = Some a" for a
    using that assms(12) by (induction rrs) (auto simp: rr_ok_def split: if_splits)
  have "(case first_address rrs of
         None \<Rightarrow> update_ip use_tcp net fresh c = Inr (False, c)
       | Some a \<Rightarrow> \<exists>ip. update_ip use_tcp net fresh c = Inr (False, c\<lparr>dc_ip_string := Some (dotted a), dc_ip := ip\<rparr>) \<and> be32 ip = a)"
    if inp: "net (dc_dns_ip c) sent = Some inp" "delivers use_tcp reply inp" for inp
  proof -
    obtain u w where u: "length u = 2" "receive_answer use_tcp inp b = Inr (u @ reply @ w)"
      using receive_answer_delivers [OF inp(2) len assms(13)] by blast
    have "parse_answer (u @ reply @ w) = Inr (first_address rrs)"
      unfolding assms(8) by (rule parse_answer_reply [OF u(1) assms(9-11,3,12) n])
    then have "update_ip use_tcp net fresh c =
        (case first_address rrs of None \<Rightarrow> Inr (False, c) | Some a \<Rightarrow> rbind (set_address a c) (\<lambda>c. Inr (False, c)))"
      using step u(2) inp(1) by simp
    then show ?thesis using set_address_dotted [OF addr, of _ c] by (auto split: option.splits)
  qed
  then show ?thesis using step by auto
qed

theorem update_ip_resolves_witness:
  "\<exists>ip. update_ip False (\<lambda>srv q. Some \<lparr>di_first = dns_reply [0, 0, 129, 128] [0, 0, 0, 0] [[97], [98, 99]] [0, 1, 0, 1]
         [\<lparr>rr_name = [192, 12], rr_type = 5, rr_class_ttl = [0, 1, 0, 0, 0, 9], rr_data = [192, 12]\<rparr>,
          \<lparr>rr_name = [192, 12], rr_type = 1, rr_class_ttl = [0, 1, 0, 0, 0, 9], rr_data = [10, 0, 2, 15]\<rparr>] [], di_later = []\<rparr>)
       (replicate 2050 0) \<lparr>dc_dname = [97, 46, 98, 99], dc_ip_string = None, dc_ip = 0, dc_dns_ip = 0x08080808, dc_position = 0\<rparr> =
     Inr (False, \<lparr>dc_dname = [97, 46, 98, 99], dc_ip_string = Some [49, 48, 46, 48, 46, 50, 46, 49, 53], dc_ip = ip, dc_dns_ip = 0x08080808, dc_position = 0\<rparr>) \<and>
     be32 ip = [10, 0, 2, 15]"
proof -
  let ?c = "\<lparr>dc_dname = [97, 46, 98, 99], dc_ip_string = None, dc_ip = 0, dc_dns_ip = 0x08080808, dc_position = 0\<rparr>"
  let ?rrs = "[\<lparr>rr_name = [192, 12], rr_type = 5, rr_class_ttl = [0, 1, 0, 0, 0, 9], rr_data = [192, 12]\<rparr>,
          \<lparr>rr_name = [192, 12], rr_type = 1, rr_class_ttl = [0, 1, 0, 0, 0, 9], rr_data = [10, 0, 2, 15]\<rparr>]"
  let ?inp = "\<lparr>di_first = dns_reply [0, 0, 129, 128] [0, 0, 0, 0] [[97], [98, 99]] [0, 1, 0, 1] ?rrs [], di_later = []\<rparr>"
  have dot: "dotted [10, 0, 2, 15] = [49, 48, 46, 48, 46, 50, 46, 49, 53]"
    by (simp add: dotted_def dec_digits_def tmp_digits.simps)
  have "first_address ?rrs = Some [10, 0, 2, 15]" by simp
  moreover have "length (replicate 2050 (0 :: u8)) = DNS_BUF" by (simp only: length_replicate DNS_BUF_def)
  ultimately have "\<exists>ip. update_ip False (\<lambda>srv q. Some ?inp) (replicate 2050 0) ?c =
      Inr (False, ?c\<lparr>dc_ip_string := Some (dotted [10, 0, 2, 15]), dc_ip := ip\<rparr>) \<and> be32 ip = [10, 0, 2, 15]"
    using update_ip_resolves [of ?c "[[97], [98, 99]]" "replicate 2050 0" _ _ False _ "[0, 0, 129, 128]" "[0, 0, 0, 0]" "[0, 1, 0, 1]" ?rrs "[]"
        "\<lambda>srv q. Some ?inp", OF _ _ _ _ refl _ refl refl]
    by (simp add: label_ok_def dns_name_def rr_ok_def delivers_def dns_reply_def rr_bytes_def del: length_replicate)
  then show ?thesis by (simp add: dot)
qed

section \<open>Reading, and faults\<close>

text \<open>What is read is the text of the address from the position on.\<close>

lemma dns_stream_recv_text:
  assumes "ds_conns st f = Some c" "dc_ip_string c = Some s" "length s < 2 ^ 31" "unat (dc_position c) \<le> length s"
  shows "\<exists>st'. dns_stream_recv net fresh f len st = Inr (take len (drop (unat (dc_position c)) s), st')"
proof -
  let ?p = "unat (dc_position c)"
  have l: "unat (of_nat (length s) :: u32) = length s" using assms(3) by (simp add: unat_of_nat take_bit_nat_eq_self)
  then have "unat (of_nat (length s) - dc_position c) = length s - ?p"
    using assms(4) by (subst unat_sub) (simp_all add: word_le_nat_alt)
  then show ?thesis
    using assms by (auto simp: dns_stream_recv_def dns_update_def dns_conn_def update_ip_def Let_def)
qed

text \<open>Duplicating a pipe before the name has been resolved, as \<open>fork\<close> does, copies a string from the null pointer.\<close>

lemma dns_duplicate_unresolved:
  assumes "ds_conns st f = Some c" "dc_ip_string c = None"
  shows "dns_duplicate_pipe f st = Inl BadPointer"
  using assms by (simp add: dns_duplicate_pipe_def dns_conn_def)

text \<open>A change of the server discards the address but not the position; when the next address is shorter, reading leaves it.\<close>

lemma dns_position_stale:
  assumes "ds_conns st f = Some c" "val AND NOT 0xFFFFFFFF = 0"
  shows "\<exists>st' c'. dns_set_flag f F_DNS_NSIP val st = Inr ((0, None), st') \<and> ds_conns st' f = Some c' \<and>
      dc_ip_string c' = None \<and> dc_position c' = dc_position c"
    and "\<lbrakk>dc_ip_string c = Some s; length s < unat (dc_position c); 0 < len\<rbrakk> \<Longrightarrow> dns_stream_recv net fresh f len st = Inl OutOfBounds"
proof -
  show "\<exists>st' c'. dns_set_flag f F_DNS_NSIP val st = Inr ((0, None), st') \<and> ds_conns st' f = Some c' \<and>
      dc_ip_string c' = None \<and> dc_position c' = dc_position c"
    using assms by (simp add: dns_set_flag_def dns_conn_def dns_set_conn_def Let_def)
  assume s: "dc_ip_string c = Some s" "length s < unat (dc_position c)" "0 < len"
  have "(of_nat (length s) :: u32) \<noteq> dc_position c"
    using s(2) unsigned_less [of "dc_position c", where ?'a = nat] by (auto simp: unat_of_nat take_bit_nat_eq_self dest: arg_cong [of _ _ unat])
  then have "0 < unat (of_nat (length s) - dc_position c)" by (simp add: unat_gt_0)
  then show "dns_stream_recv net fresh f len st = Inl OutOfBounds"
    using assms s by (auto simp: dns_stream_recv_def dns_update_def dns_conn_def update_ip_def Let_def)
qed

text \<open>The buffer of 2048 bytes is filled without regard to the length of the name.\<close>

lemma encode_labels_length: "length cur + length cs \<le> length (encode_labels cur cs)"
  by (induction cur cs rule: encode_labels.induct) auto

lemma update_ip_long_name:
  assumes "dc_ip_string c = None" "length fresh = DNS_BUF" "2032 \<le> length (dc_dname c)"
  shows "update_ip use_tcp net fresh c = Inl OutOfBounds"
proof -
  have "length (dns_query (dc_dname c)) \<ge> 2049" using encode_labels_length [of "[]" "dc_dname c"] assms(3) by (simp add: dns_query_def)
  then show ?thesis using assms(1,2) by (simp add: update_ip_def put_bytes_def DNS_BUF_def Let_def)
qed

end
