(* ===== verification/Console.thy ===== *)
theory Console
  imports Stdio Vfs
begin

unbundle bit_operations_syntax

text \<open>
  The terminal in text mode (\<open>progs/platform/pc/bios-console\<close>): text with UTF-8 characters and escape sequences is put on a
  screen of 80 columns and 25 rows. The memory that is printed is a list that goes on behind the buffer as far as it is
  mapped, because the code reads behind the buffer in places; leaving it is \<open>BadPointer\<close>, leaving an array of
  the program \<open>OutOfBounds\<close>. A lock that is held and that nobody will free is \<open>NoReturn\<close>. The ports of the cursor
  and of the palette are left out; the colours are those of the scheme that is selected.
\<close>

section \<open>Definitions\<close>

text \<open>The characters of code page 437 (\<open>unicode2c437.c\<close>).\<close>

definition c437_table :: "(u32 \<times> u8) list" where
  "c437_table = [
    (160, 255), (161, 173), (162, 155), (163, 156), (165, 157), (167, 21), (170, 166), (171, 174), (172, 170),
    (176, 248), (177, 241), (178, 253), (181, 230), (183, 250), (186, 167), (187, 175), (188, 172), (189, 171),
    (191, 168), (196, 142), (197, 143), (198, 146), (199, 128), (201, 144), (209, 165), (214, 153), (220, 154),
    (223, 225), (224, 133), (225, 160), (226, 131), (228, 132), (229, 134), (230, 145), (231, 135), (232, 138),
    (233, 130), (234, 136), (235, 137), (236, 141), (237, 161), (238, 140), (239, 139), (241, 164), (242, 149),
    (243, 162), (244, 147), (246, 148), (247, 246), (249, 151), (250, 163), (251, 150), (252, 129), (255, 152),
    (402, 159), (915, 226), (920, 233), (931, 228), (934, 232), (937, 234), (945, 224), (948, 235), (949, 238),
    (960, 227), (963, 229), (964, 231), (966, 237), (8220, 34), (8221, 34), (8222, 34), (8226, 7), (8252, 19),
    (8319, 252), (8359, 158), (8592, 27), (8593, 24), (8594, 26), (8595, 25), (8596, 29), (8597, 18), (8616, 23),
    (8729, 249), (8730, 251), (8734, 236), (8735, 28), (8745, 239), (8776, 247), (8801, 240), (8804, 243),
    (8805, 242), (8962, 127), (8976, 169), (8992, 244), (8993, 245), (9472, 196), (9474, 179), (9484, 218),
    (9488, 191), (9492, 192), (9496, 217), (9500, 195), (9508, 180), (9516, 194), (9524, 193), (9532, 197),
    (9552, 205), (9553, 186), (9554, 213), (9555, 214), (9556, 201), (9557, 184), (9558, 183), (9559, 187),
    (9560, 212), (9561, 211), (9562, 200), (9563, 190), (9564, 189), (9565, 188), (9566, 198), (9567, 199),
    (9568, 204), (9569, 181), (9570, 182), (9571, 185), (9572, 209), (9573, 210), (9574, 203), (9575, 207),
    (9576, 208), (9577, 202), (9578, 216), (9579, 215), (9580, 206), (9600, 223), (9604, 220), (9608, 219),
    (9612, 221), (9616, 222), (9617, 176), (9618, 177), (9619, 178), (9632, 254), (9644, 22), (9650, 30), (9658, 16),
    (9660, 31), (9668, 17), (9675, 9), (9688, 8), (9689, 10), (9786, 1), (9787, 2), (9788, 15), (9792, 12),
    (9794, 11), (9824, 6), (9827, 5), (9829, 3), (9830, 4), (9834, 13), (9835, 14)]"

definition get_c437_from_unicode :: "u32 \<Rightarrow> u8" where
  "get_c437_from_unicode uni =
     (if uni < 0x80 then ucast uni else case map_of c437_table uni of Some c \<Rightarrow> c | None \<Rightarrow> 0xFE)"

definition DEF_FG :: u32 where "DEF_FG = 11"
definition DEF_BG :: u32 where "DEF_BG = 15"
definition DEF_BR_FG :: u32 where "DEF_BR_FG = 10"

record term_pipe =
  tp_saved :: "u8 list"
  tp_saved_len :: nat
  tp_expected_len :: nat
  tp_sx :: int
  tp_sy :: int
  tp_fg :: u32
  tp_bg :: u32
  tp_reversed :: bool

record console =
  text_mem :: "u16 list"
  con_x :: int
  con_y :: int
  output_lock :: bool

subsection \<open>The screen\<close>

definition blank :: u16 where
  "blank = 0x20 OR push_bit 8 (ucast DEF_FG) OR push_bit 12 (ucast DEF_BG)"

definition scroll_down :: "u16 list \<Rightarrow> u16 list" where
  "scroll_down t = take 1920 (drop 80 t) @ replicate 80 blank @ drop 2000 t"

definition clrscr :: "u32 \<Rightarrow> u32 \<Rightarrow> u16 list \<Rightarrow> u16 list" where
  "clrscr fg bg t = replicate 2000 (ucast (0x20 OR push_bit 12 bg OR push_bit 8 fg)) @ drop 2000 t"

definition recalc_pos :: "int \<Rightarrow> int \<Rightarrow> int" where
  "recalc_pos x y = y * 80 + x"

definition cell :: "term_pipe \<Rightarrow> u32 \<Rightarrow> u16" where
  "cell tp uni = ucast (ucast (get_c437_from_unicode uni) OR push_bit (if tp_reversed tp then 12 else 8) (tp_fg tp) OR
     push_bit (if tp_reversed tp then 8 else 12) (tp_bg tp))"

text \<open>The state of \<open>cons_print\<close>: the pipe, the screen, and the variables \<open>s\<close>, \<open>size\<close> and \<open>output\<close>.\<close>

record cons_state =
  ct_tp :: term_pipe
  ct_con :: console
  ct_s :: nat
  ct_size :: u32
  ct_output :: int

text \<open>How a round of the loop ends: with the next one, behind the loop, or with a return from its middle.\<close>

datatype print_flow = Loop | Break | Return

definition set_cursor :: "int \<Rightarrow> int \<Rightarrow> cons_state \<Rightarrow> cons_state" where
  "set_cursor x y st = st\<lparr>ct_con := (ct_con st)\<lparr>con_x := x, con_y := y\<rparr>, ct_output := recalc_pos x y\<rparr>"

definition set_text :: "u16 list \<Rightarrow> cons_state \<Rightarrow> cons_state" where
  "set_text t st = st\<lparr>ct_con := (ct_con st)\<lparr>text_mem := t\<rparr>\<rparr>"

definition mget :: "u8 list \<Rightarrow> nat \<Rightarrow> u8 outcome" where
  "mget mem i = (if i < length mem then Inr (mem ! i) else Inl BadPointer)"

definition mget_list :: "u8 list \<Rightarrow> nat \<Rightarrow> nat \<Rightarrow> u8 list outcome" where
  "mget_list mem i n = (if i + n \<le> length mem then Inr (take n (drop i mem)) else Inl BadPointer)"

subsection \<open>Characters\<close>

definition utf8_len :: "u8 \<Rightarrow> nat" where
  "utf8_len b = (if b AND 0xF8 = 0xF0 then 4 else if b AND 0xF0 = 0xE0 then 3 else if b AND 0xE0 = 0xC0 then 2 else 1)"

definition utf8_decode :: "u8 list \<Rightarrow> u32" where
  "utf8_decode d =
     (let c = (\<lambda>i. ucast (d ! i AND 0x3F)) in
      if length d = 4 then push_bit 18 (ucast (d ! 0 AND 0x07)) OR push_bit 12 (c 1) OR push_bit 6 (c 2) OR c 3
      else if length d = 3 then push_bit 12 (ucast (d ! 0 AND 0x0F)) OR push_bit 6 (c 1) OR c 2
      else if length d = 2 then push_bit 6 (ucast (d ! 0 AND 0x1F)) OR c 1
      else if d ! 0 AND 0x80 = 0 then ucast (d ! 0) else 0xFFFD)"

text \<open>The loop that completes a character whose first bytes came with the call before; the third argument is \<open>rem\<close>.\<close>

fun copy_saved :: "u8 list \<Rightarrow> nat \<Rightarrow> nat \<Rightarrow> term_pipe \<Rightarrow> (nat \<times> term_pipe) outcome" where
  "copy_saved mem s 0 tp = rbind (mget mem s) (\<lambda>_. Inr (s, tp))"
| "copy_saved mem s (Suc r) tp =
     rbind (mget mem s) (\<lambda>b.
     if b = 0 \<or> \<not> tp_saved_len tp < tp_expected_len tp then Inr (s, tp)
     else rbind (aset (tp_saved tp) (tp_saved_len tp) b) (\<lambda>sv.
       copy_saved mem (s + 1) r (tp\<lparr>tp_saved := sv, tp_saved_len := tp_saved_len tp + 1\<rparr>)))"

text \<open>The first part of a round: whether a character that was begun before is complete now.\<close>

definition complete_saved :: "u8 list \<Rightarrow> cons_state \<Rightarrow> (bool \<times> cons_state) outcome" where
  "complete_saved mem st =
     (let old = tp_saved_len (ct_tp st) in
      if old = 0 then Inr (True, st)
      else rbind (copy_saved mem (ct_s st) (unat (ct_size st)) (ct_tp st)) (\<lambda>(s, tp).
        Inr (tp_expected_len tp \<le> tp_saved_len tp, st\<lparr>ct_s := s, ct_tp := tp, ct_size := ct_size st + of_nat old\<rparr>)))"

text \<open>The character at \<open>d\<close>, which points into the saved bytes or to \<open>s\<close>; \<open>None\<close> to break when it is not complete.\<close>

definition lead_byte :: "u8 list \<Rightarrow> cons_state \<Rightarrow> u8 outcome" where
  "lead_byte mem st = (if tp_saved_len (ct_tp st) \<noteq> 0 then aget (tp_saved (ct_tp st)) 0 else mget mem (ct_s st))"

definition decode_char :: "u8 list \<Rightarrow> cons_state \<Rightarrow> (u32 option \<times> cons_state) outcome" where
  "decode_char mem st =
     (let tp = ct_tp st; buffered = (tp_saved_len tp \<noteq> 0) in
      rbind (lead_byte mem st) (\<lambda>b.
      let n = utf8_len b in
      if 1 < n \<and> ct_size st < of_nat n then
        rbind (mget_list mem (ct_s st) (unat (ct_size st))) (\<lambda>bs.
        if length (tp_saved tp) < length bs then Inl OutOfBounds
        else Inr (None, st\<lparr>ct_tp := tp\<lparr>tp_saved := bs @ drop (length bs) (tp_saved tp), tp_saved_len := length bs,
               tp_expected_len := n\<rparr>\<rparr>))
      else
        rbind (if buffered then (if n \<le> length (tp_saved tp) then Inr (take n (tp_saved tp)) else Inl OutOfBounds)
               else mget_list mem (ct_s st) n) (\<lambda>d.
        let st = st\<lparr>ct_size := ct_size st - of_nat n\<rparr> in
        Inr (Some (utf8_decode d),
             if buffered then st\<lparr>ct_tp := tp\<lparr>tp_saved_len := 0\<rparr>\<rparr> else st\<lparr>ct_s := ct_s st + n\<rparr>))))"

definition fetch_char :: "u8 list \<Rightarrow> cons_state \<Rightarrow> (u32 option \<times> cons_state) outcome" where
  "fetch_char mem st = rbind (complete_saved mem st) (\<lambda>(ready, st). if ready then decode_char mem st else Inr (None, st))"

subsection \<open>Escape sequences\<close>

text \<open>\<open>s++; if (!size--) return omsz;\<close>\<close>

definition consume :: "cons_state \<Rightarrow> (cons_state \<Rightarrow> (print_flow \<times> cons_state) outcome) \<Rightarrow> (print_flow \<times> cons_state) outcome" where
  "consume st k =
     (if ct_size st = 0 then Inr (Return, st\<lparr>ct_s := ct_s st + 1\<rparr>)
      else k (st\<lparr>ct_s := ct_s st + 1, ct_size := ct_size st - 1\<rparr>))"

text \<open>The loop that looks for the end of the sequence: where it is and the size left, or \<open>None\<close> to return.\<close>

fun ansi_scan :: "u8 list \<Rightarrow> nat \<Rightarrow> nat \<Rightarrow> (nat \<times> nat) option outcome" where
  "ansi_scan mem s n =
     rbind (mget mem s) (\<lambda>c.
     if (64 \<le> c \<and> c \<le> 126) \<or> c = 0 then Inr (Some (s, n))
     else case n of 0 \<Rightarrow> Inr None | Suc n \<Rightarrow> ansi_scan mem (s + 1) n)"

definition ansi_position :: "u8 list \<Rightarrow> nat \<Rightarrow> cons_state \<Rightarrow> (print_flow \<times> cons_state) outcome" where
  "ansi_position mem saved_pos st =
     (if saved_pos + 1 = ct_s st then Inr (Loop, set_cursor 0 0 st)
      else
        let str = take (ct_s st - saved_pos) (drop saved_pos mem) in
        rbind (strtol str 10) (\<lambda>(v, _, p).
        rbind (mget mem (saved_pos + p)) (\<lambda>e.
        let ny = v - 1 in
        if e \<noteq> 59 \<or> ny < 0 \<or> 25 \<le> ny then Inr (Loop, st)
        else
          rbind (strtol (drop (p + 1) str) 10) (\<lambda>(v, _, p2).
          rbind (mget mem (saved_pos + p + 1 + p2)) (\<lambda>e.
          let nx = v - 1 in
          if (e \<noteq> 102 \<and> e \<noteq> 72) \<or> nx < 0 \<or> 80 \<le> nx then Inr (Loop, st) else Inr (Loop, set_cursor nx ny st))))))"

definition set_color :: "int \<Rightarrow> term_pipe \<Rightarrow> term_pipe" where
  "set_color num tp =
     (if num = 0 then tp\<lparr>tp_fg := DEF_FG, tp_bg := DEF_BG, tp_reversed := False\<rparr>
      else if num = 1 then (if tp_fg tp = DEF_FG then tp\<lparr>tp_fg := DEF_BR_FG\<rparr> else tp)
      else if num = 7 then tp\<lparr>tp_reversed := True\<rparr>
      else if num = 22 then (if tp_fg tp = DEF_BR_FG then tp\<lparr>tp_fg := DEF_FG\<rparr> else tp)
      else if num = 27 then tp\<lparr>tp_reversed := False\<rparr>
      else if 30 \<le> num \<and> num \<le> 37 then tp\<lparr>tp_fg := word_of_int (num - 30)\<rparr>
      else if num = 39 then tp\<lparr>tp_fg := DEF_FG\<rparr>
      else if 40 \<le> num \<and> num \<le> 47 then tp\<lparr>tp_bg := word_of_int (num - 40)\<rparr>
      else if num = 49 then tp\<lparr>tp_bg := DEF_BG\<rparr>
      else if 70 \<le> num \<and> num \<le> 77 then tp\<lparr>tp_fg := word_of_int (num - 70) OR 8\<rparr>
      else if num = 79 then tp\<lparr>tp_fg := DEF_BG\<rparr>
      else if 80 \<le> num \<and> num \<le> 87 then tp\<lparr>tp_bg := word_of_int (num - 80) OR 8\<rparr>
      else if num = 89 then tp\<lparr>tp_bg := DEF_FG\<rparr>
      else tp)"

text \<open>The tokens between semicolons.\<close>

fun color_tokens :: "u8 list \<Rightarrow> u8 list \<Rightarrow> u8 list list" where
  "color_tokens cur [] = (if cur = [] then [] else [cur])"
| "color_tokens cur (b # bs) =
     (if b = 59 then (if cur = [] then [] else [cur]) @ color_tokens [] bs else color_tokens (cur @ [b]) bs)"

definition color_token :: "term_pipe \<Rightarrow> u8 list \<Rightarrow> term_pipe outcome" where
  "color_token tp sub = rbind (strtol sub 10) (\<lambda>(num, _, _). Inr (set_color num tp))"

definition ansi_color :: "u8 list \<Rightarrow> term_pipe \<Rightarrow> term_pipe outcome" where
  "ansi_color color_string tp = rfold color_token tp (color_tokens [] color_string)"

text \<open>The switch over the last character \<open>c\<close> of a sequence.\<close>

definition ansi_final :: "u8 list \<Rightarrow> nat \<Rightarrow> u8 \<Rightarrow> cons_state \<Rightarrow> (print_flow \<times> cons_state) outcome" where
  "ansi_final mem saved_pos c st =
     (let s = ct_s st; con = ct_con st; tp = ct_tp st; ok = (\<lambda>st. Inr (Loop, st)) in
      if c = 109 then rbind (ansi_color (take (s - saved_pos) (drop saved_pos mem)) tp) (\<lambda>tp. consume (st\<lparr>ct_tp := tp\<rparr>) ok)
      else if c = 74 then
        rbind (mget mem saved_pos) (\<lambda>p.
        consume (if p = 50 then set_text (clrscr (tp_fg tp) (tp_bg tp) (text_mem con)) st else st) ok)
      else if c = 102 \<or> c = 72 then consume st (ansi_position mem saved_pos)
      else if c = 115 then consume (st\<lparr>ct_tp := tp\<lparr>tp_sx := con_x con, tp_sy := con_y con\<rparr>\<rparr>) ok
      else if c = 117 then consume (set_cursor (tp_sx tp) (tp_sy tp) st) ok
      else Inr (Loop, st\<lparr>ct_s := saved_pos - 1, ct_size := ct_size st + of_nat (s - saved_pos) - 1\<rparr>))"

text \<open>The case of the escape character.\<close>

definition ansi_sequence :: "u8 list \<Rightarrow> cons_state \<Rightarrow> (print_flow \<times> cons_state) outcome" where
  "ansi_sequence mem st =
     rbind (mget mem (ct_s st)) (\<lambda>b.
     if b \<noteq> 91 then Inr (Loop, st)
     else consume st (\<lambda>st.
       let saved_pos = ct_s st in
       rbind (ansi_scan mem saved_pos (unat (ct_size st))) (\<lambda>r.
       case r of
         None \<Rightarrow> Inr (Return, st)
       | Some (s, n) \<Rightarrow> rbind (mget mem s) (\<lambda>c. ansi_final mem saved_pos c (st\<lparr>ct_s := s, ct_size := of_nat n\<rparr>)))))"

subsection \<open>Printing\<close>

text \<open>The other cases.\<close>

definition line_feed :: "cons_state \<Rightarrow> cons_state" where
  "line_feed st =
     (let con = ct_con st; y = con_y con + 1 in
      if 25 \<le> y then set_cursor (con_x con) (y - 1) (set_text (scroll_down (text_mem con)) st) else set_cursor (con_x con) y st)"

definition put_uni :: "u32 \<Rightarrow> cons_state \<Rightarrow> cons_state outcome" where
  "put_uni uni st =
     (let con = ct_con st; x = con_x con; y = con_y con in
      if uni = 10 then let st = line_feed st in Inr (set_cursor 0 (con_y (ct_con st)) st)
      else if uni = 13 then Inr (set_cursor 0 y st)
      else if uni = 8 then
        Inr (if 0 < x then set_cursor (x - 1) y st else if y \<noteq> 0 then set_cursor 79 (y - 1) st else set_cursor x y st)
      else if uni = 0 then Inr st
      else
        let out = ct_output st in
        if out < 0 \<or> int (length (text_mem con)) \<le> out then Inl OutOfBounds
        else
          let st = set_text ((text_mem con)[nat out := cell (ct_tp st) (if uni = 9 then 32 else uni)]) st;
              st = st\<lparr>ct_output := out + 1\<rparr>; x = x + 1; con = ct_con st
          in
          if x < 80 then Inr (st\<lparr>ct_con := con\<lparr>con_x := x\<rparr>\<rparr>)
          else if y + 1 < 25 then Inr (st\<lparr>ct_con := con\<lparr>con_x := x - 80, con_y := y + 1\<rparr>\<rparr>)
          else Inr (st\<lparr>ct_con := con\<lparr>con_x := x - 80, text_mem := scroll_down (text_mem con)\<rparr>, ct_output := out + 1 - 80\<rparr>))"

definition cons_round :: "u8 list \<Rightarrow> cons_state \<Rightarrow> (print_flow \<times> cons_state) outcome" where
  "cons_round mem st =
     rbind (fetch_char mem st) (\<lambda>(c, st).
     case c of
       None \<Rightarrow> Inr (Break, st)
     | Some uni \<Rightarrow> if uni = 27 then ansi_sequence mem st else rbind (put_uni uni st) (\<lambda>st. Inr (Loop, st)))"

declare ansi_scan.simps [simp del]

text \<open>Every round moves on in memory, or at least uses up the saved bytes.\<close>

lemma mget_Inr: "mget mem i = Inr b \<longleftrightarrow> i < length mem \<and> b = mem ! i"
  by (auto simp: mget_def)

lemma copy_saved_step:
  "copy_saved mem s (Suc r) tp = Inr x \<longleftrightarrow> s < length mem \<and>
     (if mem ! s = 0 \<or> \<not> tp_saved_len tp < tp_expected_len tp then x = (s, tp)
      else tp_saved_len tp < length (tp_saved tp) \<and> copy_saved mem (s + 1) r
        (tp\<lparr>tp_saved := (tp_saved tp)[tp_saved_len tp := mem ! s], tp_saved_len := tp_saved_len tp + 1\<rparr>) = Inr x)"
  by (auto simp: mget_def aset_def)

lemma copy_saved_s: "copy_saved mem s r tp = Inr (s', tp') \<Longrightarrow> s \<le> s' \<and> s' < length mem"
proof (induction r arbitrary: s tp)
  case 0
  then show ?case by (auto simp: mget_Inr outcome_simps)
next
  case (Suc r)
  show ?case using Suc.prems Suc.IH [of "s + 1"] unfolding copy_saved_step by (auto split: if_splits dest!: Suc_leD)
qed

lemma ansi_scan_s: "ansi_scan mem s n = Inr (Some (s', n')) \<Longrightarrow> s \<le> s' \<and> s' < length mem \<and> n = n' + (s' - s)"
proof (induction n arbitrary: s)
  case 0
  then show ?case by (auto simp: ansi_scan.simps [of mem s] mget_def outcome_simps split: if_splits)
next
  case (Suc n)
  from Suc.prems have "s < length mem" by (auto simp: ansi_scan.simps [of mem s] mget_def outcome_simps split: if_splits)
  moreover from Suc.prems have "(s' = s \<and> n' = Suc n) \<or> ansi_scan mem (s + 1) n = Inr (Some (s', n'))"
    by (auto simp: ansi_scan.simps [of mem s] mget_def outcome_simps split: if_splits)
  ultimately show ?case using Suc.IH [of "s + 1"] by auto
qed

lemma complete_saved_s:
  assumes "complete_saved mem st = Inr (ready, st')"
  shows "if tp_saved_len (ct_tp st) = 0 then st' = st else ct_s st \<le> ct_s st' \<and> ct_s st' < length mem"
  using assms copy_saved_s [of mem "ct_s st" "unat (ct_size st)" "ct_tp st"]
  by (auto simp: complete_saved_def Let_def outcome_simps)

lemma decode_char_s:
  assumes "decode_char mem st = Inr (Some uni, st')"
  shows "tp_saved_len (ct_tp st') = 0 \<and> (if tp_saved_len (ct_tp st) = 0 then ct_s st < ct_s st' \<and> ct_s st' \<le> length mem else ct_s st' = ct_s st)"
proof -
  have n: "0 < utf8_len b" for b by (simp add: utf8_len_def)
  show ?thesis
  proof (cases "tp_saved_len (ct_tp st) = 0")
    case True
    then show ?thesis using assms n by (auto simp: decode_char_def lead_byte_def Let_def outcome_simps mget_list_def split: if_splits)
  next
    case False
    then show ?thesis using assms by (auto simp: decode_char_def lead_byte_def Let_def outcome_simps split: if_splits)
  qed
qed

lemma fetch_char_moves:
  assumes "fetch_char mem st = Inr (Some uni, st')"
  shows "tp_saved_len (ct_tp st') = 0 \<and> ct_s st' \<le> length mem \<and> (ct_s st < ct_s st' \<or> (ct_s st = ct_s st' \<and> 0 < tp_saved_len (ct_tp st)))"
proof -
  obtain st1 where st1: "complete_saved mem st = Inr (True, st1)" "decode_char mem st1 = Inr (Some uni, st')"
    using assms by (auto simp: fetch_char_def outcome_simps split: if_splits)
  show ?thesis using complete_saved_s [OF st1(1)] decode_char_s [OF st1(2)] by (auto split: if_splits)
qed

lemma consume_Loop:
  assumes "consume st k = Inr (Loop, st')"
  shows "k (st\<lparr>ct_s := ct_s st + 1, ct_size := ct_size st - 1\<rparr>) = Inr (Loop, st')"
  using assms by (auto simp: consume_def split: if_splits)

lemma ansi_position_s: "ansi_position mem p st = Inr (fl, st') \<Longrightarrow> ct_s st' = ct_s st \<and> ct_tp st' = ct_tp st \<and> fl = Loop"
  by (auto simp: ansi_position_def Let_def outcome_simps set_cursor_def split: if_splits)

lemma set_color_saved [simp]:
  "tp_saved_len (set_color v tp) = tp_saved_len tp" "tp_saved (set_color v tp) = tp_saved tp"
  "tp_expected_len (set_color v tp) = tp_expected_len tp" "tp_sx (set_color v tp) = tp_sx tp" "tp_sy (set_color v tp) = tp_sy tp"
  by (simp_all add: set_color_def)

lemma color_tokens_rule:
  assumes "rfold color_token tp ts = Inr tp'" "P tp" "\<And>v tp. P tp \<Longrightarrow> P (set_color v tp)"
  shows "P tp'"
  using assms(1,2)
proof (induction ts arbitrary: tp)
  case (Cons t ts)
  then obtain tp1 where "color_token tp t = Inr tp1" "rfold color_token tp1 ts = Inr tp'" by (auto simp: outcome_simps)
  then show ?case using Cons assms(3) by (auto simp: color_token_def outcome_simps)
qed simp

lemma ansi_color_saved:
  assumes "ansi_color cs tp = Inr tp'"
  shows "tp_saved_len tp' = tp_saved_len tp"
  using color_tokens_rule [where P = "\<lambda>t. tp_saved_len t = tp_saved_len tp", OF assms [unfolded ansi_color_def]] by simp

lemma ansi_final_moves:
  assumes "ansi_final mem p c st = Inr (Loop, st')" "p \<le> ct_s st" "ct_s st < length mem"
  shows "p - 1 \<le> ct_s st' \<and> ct_s st' \<le> length mem \<and> tp_saved_len (ct_tp st') = tp_saved_len (ct_tp st)"
proof -
  consider "c = 109" | "c = 74" | "c = 102 \<or> c = 72" | "c = 115" | "c = 117" | "c \<notin> {109, 74, 102, 72, 115, 117}" by blast
  then show ?thesis
  proof cases
    case 1
    then obtain tp where "ansi_color (take (ct_s st - p) (drop p mem)) (ct_tp st) = Inr tp" "consume (st\<lparr>ct_tp := tp\<rparr>) (\<lambda>st. Inr (Loop, st)) = Inr (Loop, st')"
      using assms(1) by (auto simp: ansi_final_def Let_def outcome_simps)
    then show ?thesis using assms(2,3) by (auto dest!: consume_Loop ansi_color_saved)
  next
    case 2
    then show ?thesis using assms by (auto simp: ansi_final_def Let_def outcome_simps set_text_def split: if_splits dest!: consume_Loop)
  next
    case 3
    then have "consume st (ansi_position mem p) = Inr (Loop, st')" using assms(1) by (auto simp: ansi_final_def Let_def)
    then show ?thesis using assms(2,3) by (auto dest!: consume_Loop ansi_position_s)
  next
    case 4
    then show ?thesis using assms by (auto simp: ansi_final_def Let_def dest!: consume_Loop)
  next
    case 5
    then show ?thesis using assms by (auto simp: ansi_final_def Let_def set_cursor_def dest!: consume_Loop)
  next
    case 6
    then show ?thesis using assms by (auto simp: ansi_final_def Let_def)
  qed
qed

lemma ansi_sequence_moves:
  assumes "ansi_sequence mem st = Inr (Loop, st')" "ct_s st \<le> length mem"
  shows "ct_s st \<le> ct_s st' \<and> ct_s st' \<le> length mem \<and> tp_saved_len (ct_tp st') = tp_saved_len (ct_tp st)"
proof (cases "ct_s st < length mem \<and> mem ! ct_s st = 91")
  case True
  define st1 where "st1 = st\<lparr>ct_s := ct_s st + 1, ct_size := ct_size st - 1\<rparr>"
  have "rbind (ansi_scan mem (ct_s st1) (unat (ct_size st1))) (\<lambda>r. case r of None \<Rightarrow> Inr (Return, st1)
      | Some (s, n) \<Rightarrow> rbind (mget mem s) (\<lambda>c. ansi_final mem (ct_s st1) c (st1\<lparr>ct_s := s, ct_size := of_nat n\<rparr>))) = Inr (Loop, st')"
    using assms(1) True consume_Loop [of st _ st', folded st1_def] by (simp add: ansi_sequence_def mget_Inr [THEN iffD2] Let_def)
  then obtain s n where "ansi_scan mem (ct_s st1) (unat (ct_size st1)) = Inr (Some (s, n))"
      "ansi_final mem (ct_s st1) (mem ! s) (st1\<lparr>ct_s := s, ct_size := of_nat n\<rparr>) = Inr (Loop, st')"
    by (auto simp: outcome_simps mget_Inr split: option.splits)
  then show ?thesis using ansi_scan_s [of mem "ct_s st1"] ansi_final_moves [of mem "ct_s st1"] by (fastforce simp: st1_def)
next
  case False
  then show ?thesis using assms by (auto simp: ansi_sequence_def mget_def split: if_splits)
qed

lemma set_state_simps [simp]:
  "ct_s (set_cursor x y st) = ct_s st" "ct_tp (set_cursor x y st) = ct_tp st" "ct_size (set_cursor x y st) = ct_size st"
  "ct_s (set_text t st) = ct_s st" "ct_tp (set_text t st) = ct_tp st" "ct_size (set_text t st) = ct_size st"
  "ct_output (set_text t st) = ct_output st" "ct_output (set_cursor x y st) = recalc_pos x y"
  "ct_con (set_cursor x y st) = (ct_con st)\<lparr>con_x := x, con_y := y\<rparr>" "ct_con (set_text t st) = (ct_con st)\<lparr>text_mem := t\<rparr>"
  by (simp_all add: set_cursor_def set_text_def)

lemma put_uni_s:
  assumes "put_uni uni st = Inr st'"
  shows "ct_s st' = ct_s st \<and> ct_tp st' = ct_tp st \<and> ct_size st' = ct_size st"
  using assms by (auto simp: put_uni_def line_feed_def Let_def split: if_splits)

lemma cons_round_moves:
  assumes "cons_round mem st = Inr (Loop, st')"
  shows "ct_s st' \<le> length mem \<and> tp_saved_len (ct_tp st') = 0 \<and> (ct_s st < ct_s st' \<or> (ct_s st = ct_s st' \<and> 0 < tp_saved_len (ct_tp st)))"
proof -
  obtain uni st1 where st1: "fetch_char mem st = Inr (Some uni, st1)"
      "if uni = 27 then ansi_sequence mem st1 = Inr (Loop, st') else put_uni uni st1 = Inr st'"
    using assms by (auto simp: cons_round_def outcome_simps split: option.splits if_splits)
  show ?thesis
    using fetch_char_moves [OF st1(1)] ansi_sequence_moves [of mem st1 st'] put_uni_s [of uni st1 st'] st1(2)
    by (cases "uni = 27") auto
qed

text \<open>The loop of \<open>cons_print\<close>.\<close>

function cons_loop :: "u8 list \<Rightarrow> cons_state \<Rightarrow> (print_flow \<times> cons_state) outcome" where
  "cons_loop mem st =
     (if ct_size st = 0 then Inr (Break, st)
      else case cons_round mem st of
        Inl e \<Rightarrow> Inl e
      | Inr (fl, st') \<Rightarrow> if fl = Loop then cons_loop mem st' else Inr (fl, st'))"
  by pat_completeness auto
termination
proof (relation "measures [\<lambda>(mem, st). Suc (length mem) - ct_s st, \<lambda>(mem, st). tp_saved_len (ct_tp st)]", goal_cases)
  case (2 mem st x fl st')
  then show ?case using cons_round_moves [of mem st st'] by auto
qed simp

declare cons_loop.simps [simp del]

text \<open>\<open>cons_print\<close>: the result, the pipe and the screen. A return from the middle of the loop keeps the lock.\<close>

definition cons_print :: "u8 list \<Rightarrow> u32 \<Rightarrow> term_pipe \<Rightarrow> console \<Rightarrow> (u32 \<times> term_pipe \<times> console) outcome" where
  "cons_print mem omsz tp con =
     (if output_lock con then Inl NoReturn
      else
        rbind (cons_loop mem \<lparr>ct_tp = tp, ct_con = con\<lparr>output_lock := True\<rparr>, ct_s = 0, ct_size = omsz,
                              ct_output = recalc_pos (con_x con) (con_y con)\<rparr>) (\<lambda>(fl, st).
        if fl = Return then Inr (omsz, ct_tp st, ct_con st)
        else Inr (omsz - ct_size st, ct_tp st, (ct_con st)\<lparr>output_lock := False\<rparr>)))"

subsection \<open>The service\<close>

record tty_service =
  tt_pipes :: "nat \<Rightarrow> term_pipe option"
  tt_fresh :: nat
  tt_console :: console
  tt_input :: int
  tt_echo :: bool

definition new_term_pipe :: term_pipe where
  "new_term_pipe = \<lparr>tp_saved = [0, 0, 0, 0], tp_saved_len = 0, tp_expected_len = 0, tp_sx = 0, tp_sy = 0,
     tp_fg = DEF_FG, tp_bg = DEF_BG, tp_reversed = False\<rparr>"

definition tty_pipe :: "tty_service \<Rightarrow> nat \<Rightarrow> term_pipe outcome" where
  "tty_pipe st f = (case tt_pipes st f of None \<Rightarrow> Inl BadPointer | Some tp \<Rightarrow> Inr tp)"

definition tty_new :: "term_pipe \<Rightarrow> tty_service \<Rightarrow> nat \<times> tty_service" where
  "tty_new tp st = (let f = Suc (tt_fresh st) in (f, st\<lparr>tt_pipes := (tt_pipes st)(f \<mapsto> tp), tt_fresh := f\<rparr>))"

definition tty_create_pipe :: "u8 list \<Rightarrow> tty_service \<Rightarrow> nat \<times> tty_service" where
  "tty_create_pipe relpath st =
     (if relpath = [47, 105, 110, 112, 117, 116] then (1, st) else tty_new new_term_pipe st)"

definition tty_destroy_pipe :: "nat \<Rightarrow> tty_service \<Rightarrow> tty_service outcome" where
  "tty_destroy_pipe f st =
     (if 1 < f then rbind (tty_pipe st f) (\<lambda>_. Inr (st\<lparr>tt_pipes := (tt_pipes st)(f := None)\<rparr>)) else Inr st)"

definition tty_duplicate_pipe :: "nat \<Rightarrow> tty_service \<Rightarrow> (nat \<times> tty_service) outcome" where
  "tty_duplicate_pipe f st = (if f = 1 then Inr (1, st) else rbind (tty_pipe st f) (\<lambda>tp. Inr (tty_new tp st)))"

definition tty_print :: "nat \<Rightarrow> u8 list \<Rightarrow> u32 \<Rightarrow> tty_service \<Rightarrow> (u32 \<times> tty_service) outcome" where
  "tty_print f mem n st =
     rbind (tty_pipe st f) (\<lambda>tp.
     rbind (cons_print mem n tp (tt_console st)) (\<lambda>(r, tp, con).
     Inr (r, st\<lparr>tt_pipes := (tt_pipes st)(f \<mapsto> tp), tt_console := con\<rparr>)))"

text \<open>\<open>service_stream_send\<close>: \<open>open_input\<close> says what opening a path gives, \<open>beyond\<close> is the memory behind the data. The pipe
  in the result is the one that is closed.\<close>

definition tty_stream_send ::
    "(u8 list \<Rightarrow> int) \<Rightarrow> u8 list \<Rightarrow> nat \<Rightarrow> u8 list \<Rightarrow> u32 \<Rightarrow> tty_service \<Rightarrow> ((net_errno + u32) \<times> int option \<times> tty_service) outcome" where
  "tty_stream_send open_input beyond f data flags st =
     (if f = 1 then
        if flags \<noteq> 1 then Inr (Inl EINVAL, None, st)
        else if data = [] \<or> last data \<noteq> 0 then Inr (Inl EINVAL, None, st)
        else
          let path = takeWhile (\<lambda>b. b \<noteq> 0) data; p = open_input path in
          if p < 0 then Inr (Inr 0, None, st)
          else Inr (Inr (of_nat (length path)), if 0 \<le> tt_input st then Some (tt_input st) else None, st\<lparr>tt_input := p\<rparr>)
      else rbind (tty_print f (data @ beyond) (of_nat (length data)) st) (\<lambda>(r, st). Inr (Inr r, None, st)))"

text \<open>\<open>service_stream_recv\<close> into a buffer: \<open>input\<close> is what reading from the input gives.\<close>

definition tty_stream_recv ::
    "u8 list \<Rightarrow> u8 list \<Rightarrow> nat \<Rightarrow> u8 list \<Rightarrow> tty_service \<Rightarrow> ((net_errno + u8 list) \<times> tty_service) outcome" where
  "tty_stream_recv input beyond f buf st =
     (if f = 1 then Inr (Inl ENOTSUP, st)
      else if tt_input st < 0 then Inr (Inl ENOTCONN, st)
      else
        let got = take (length buf) input in
        if got \<noteq> [] \<and> tt_echo st
        then rbind (tty_print f (got @ drop (length got) buf @ beyond) (of_nat (length got)) st) (\<lambda>(_, st). Inr (Inr got, st))
        else Inr (Inr got, st))"

definition tty_pipe_implements :: "nat \<Rightarrow> vfs_interface \<Rightarrow> bool" where
  "tty_pipe_implements f i \<longleftrightarrow> (if f = 1 then i = I_FS else i = I_TTY)"

definition tty_set_flag :: "net_flag \<Rightarrow> u64 \<Rightarrow> tty_service \<Rightarrow> (net_errno + unit) \<times> tty_service" where
  "tty_set_flag flag val st =
     (case flag of F_ECHO \<Rightarrow> (Inr (), st\<lparr>tt_echo := (val \<noteq> 0)\<rparr>) | F_FLUSH \<Rightarrow> (Inr (), st) | _ \<Rightarrow> (Inl EINVAL, st))"

definition tty_get_flag :: "nat \<Rightarrow> net_flag \<Rightarrow> net_errno + u64" where
  "tty_get_flag f flag =
     (case flag of F_PRESSURE \<Rightarrow> Inr 0 | F_READABLE \<Rightarrow> Inr (of_bool (1 < f)) | F_WRITABLE \<Rightarrow> Inr 1 | _ \<Rightarrow> Inl EINVAL)"

text \<open>\<open>main\<close> clears the screen.\<close>

definition tty_start :: tty_service where
  "tty_start = \<lparr>tt_pipes = (\<lambda>_. None), tt_fresh = 1,
     tt_console = \<lparr>text_mem = replicate 2000 (push_bit 8 (ucast DEF_FG) OR push_bit 12 (ucast DEF_BG)), con_x = 0, con_y = 0, output_lock = False\<rparr>,
     tt_input = - 1, tt_echo = True\<rparr>"

section \<open>Numbers in escape sequences\<close>

text \<open>No more than nine digits in a row, which is what \<open>strtol\<close> can take.\<close>

fun digit_runs :: "nat \<Rightarrow> u8 list \<Rightarrow> bool" where
  "digit_runs k [] \<longleftrightarrow> True"
| "digit_runs k (c # cs) \<longleftrightarrow> (if isdigit c then k < 9 \<and> digit_runs (k + 1) cs else digit_runs 0 cs)"

definition short_numbers :: "u8 list \<Rightarrow> bool" where
  "short_numbers s \<longleftrightarrow> digit_runs 0 s"

lemma digit_runs_mono: "digit_runs k s \<Longrightarrow> j \<le> k \<Longrightarrow> digit_runs j s"
  by (induction k s arbitrary: j rule: digit_runs.induct) (auto split: if_splits)

lemma digit_runs_drop: "digit_runs k s \<Longrightarrow> digit_runs 0 (drop n s)"
proof (induction n arbitrary: k s)
  case 0
  then show ?case using digit_runs_mono [of k s 0] by simp
next
  case (Suc n)
  then show ?case by (cases s) (auto split: if_splits)
qed

lemma digit_runs_take: "digit_runs k s \<Longrightarrow> digit_runs k (take n s)"
  by (induction k s arbitrary: n rule: digit_runs.induct) (auto simp: take_Cons' split: if_splits)

lemma short_numbers_part: "short_numbers s \<Longrightarrow> short_numbers (take n (drop m s))" "short_numbers s \<Longrightarrow> short_numbers (drop m s)"
  by (auto simp: short_numbers_def intro: digit_runs_take digit_runs_drop)

lemma digit_runs_prefix: "digit_runs k s \<Longrightarrow> k \<le> 9 \<Longrightarrow> k + length (takeWhile isdigit s) \<le> 9"
  by (induction k s rule: digit_runs.induct) (auto split: if_splits)

lemma short_numbers_prefix: "short_numbers s \<Longrightarrow> length (takeWhile isdigit s) \<le> 9"
  using digit_runs_prefix [of 0 s] by (simp add: short_numbers_def)

lemma digit_of_facts: "isdigit c \<Longrightarrow> isalnum c \<and> 0 \<le> digit_of c \<and> digit_of c < 10" "isalnum c \<Longrightarrow> \<not> isdigit c \<Longrightarrow> 10 \<le> digit_of c"
  by (auto simp: isdigit_def isalnum_def islower_def digit_of_def word_le_def)

lemma read_digits_stops:
  "length (takeWhile isdigit s) < k \<Longrightarrow>
     read_digits 10 s (pre @ replicate k (- 1)) (length pre) pos =
       Inr (pre @ map digit_of (takeWhile isdigit s) @ replicate (k - length (takeWhile isdigit s)) (- 1), pos + length (takeWhile isdigit s))"
proof (induction s arbitrary: pre k pos)
  case (Cons c s)
  then obtain j where k: "k = Suc j" by (cases k) auto
  show ?case
  proof (cases "isdigit c")
    case True
    have "(pre @ replicate k (- 1))[length pre := digit_of c] = (pre @ [digit_of c]) @ replicate j (- 1)" by (simp add: k)
    moreover have "read_digits 10 s ((pre @ [digit_of c]) @ replicate j (- 1)) (length (pre @ [digit_of c])) (pos + 1) =
        Inr ((pre @ [digit_of c]) @ map digit_of (takeWhile isdigit s) @ replicate (j - length (takeWhile isdigit s)) (- 1),
          pos + 1 + length (takeWhile isdigit s))"
      by (rule Cons.IH) (use Cons.prems True k in simp)
    moreover have "read_digits 10 (c # s) (pre @ replicate k (- 1)) (length pre) pos =
        read_digits 10 s ((pre @ replicate k (- 1))[length pre := digit_of c]) (length pre + 1) (pos + 1)"
      using digit_of_facts(1) [OF True] by (simp add: k aset_def)
    ultimately show ?thesis using True by (simp add: k)
  next
    case False
    then show ?thesis using digit_of_facts(2) [of c] by (cases "isalnum c") (simp_all add: k aset_def)
  qed
qed simp

lemma strtoll_short:
  assumes "short_numbers s"
  shows "\<exists>v p. strtoll s 10 = Inr (v, p)"
proof -
  define pos where "pos = (if s \<noteq> [] \<and> (hd s = 43 \<or> hd s = 45) then 1 else 0 :: nat)"
  define ds where "ds = takeWhile isdigit (drop pos s)"
  have len: "length ds \<le> 9" unfolding ds_def by (intro short_numbers_prefix short_numbers_part assms)
  have rd: "read_digits 10 (drop pos s) (replicate 10 (- 1)) 0 pos = Inr (map digit_of ds @ replicate (10 - length ds) (- 1), pos + length ds)"
    using read_digits_stops [of "drop pos s" 10 "[]" pos] len by (simp add: ds_def [symmetric])
  have "\<forall>d \<in> set ds. 0 \<le> digit_of d" using digit_of_facts(1) by (auto simp: ds_def dest: set_takeWhileD)
  then have "count_digits (map digit_of ds @ replicate (10 - length ds) (- 1)) 0 = Inr (length ds)"
    using len by (intro count_digits_at) (auto simp: nth_append)
  then show ?thesis using rd by (simp add: strtoll_def Let_def pos_def [symmetric])
qed

lemma strtol_short: "short_numbers s \<Longrightarrow> strtol s 10 \<noteq> Inl e"
  using strtoll_short [of s] by (auto simp: strtol_def)

lemma color_tokens_parts: "t \<in> set (color_tokens cur bs) \<Longrightarrow> \<exists>i n. t = take n (drop i (cur @ bs))"
proof (induction cur bs rule: color_tokens.induct)
  case (1 cur)
  then have "t = take (length cur) (drop 0 (cur @ []))" by (simp split: if_splits)
  then show ?case by blast
next
  case (2 cur b bs)
  show ?case
  proof (cases "b = 59")
    case True
    then have "t = cur \<or> t \<in> set (color_tokens [] bs)" using "2.prems" by (auto split: if_splits)
    then show ?thesis
    proof
      assume "t = cur"
      then show ?thesis by (intro exI [of _ 0] exI [of _ "length cur"]) simp
    next
      assume "t \<in> set (color_tokens [] bs)"
      then obtain i n where "t = take n (drop i bs)" using "2.IH"(1) [OF True] by auto
      then show ?thesis by (intro exI [of _ "length cur + 1 + i"] exI [of _ n]) simp
    qed
  next
    case False
    then show ?thesis using 2 by simp
  qed
qed

lemma ansi_color_short:
  assumes "short_numbers cs"
  shows "\<exists>tp'. ansi_color cs tp = Inr tp'"
proof -
  have "\<forall>t \<in> set (color_tokens [] cs). short_numbers t"
    using color_tokens_parts [of _ "[]" cs] short_numbers_part(1) [OF assms] by auto
  moreover have "\<forall>t \<in> set ts. short_numbers t \<Longrightarrow> \<exists>tp'. rfold color_token tp ts = Inr tp'" for ts
  proof (induction ts arbitrary: tp)
    case (Cons t ts)
    then obtain v where "strtol t 10 = Inr v" using strtol_short [of t] by (cases "strtol t 10") auto
    then have "color_token tp t = Inr (set_color (fst v) tp)" by (simp add: color_token_def case_prod_unfold)
    then show ?case using Cons by simp
  qed simp
  ultimately show ?thesis by (simp add: ansi_color_def)
qed

section \<open>The cursor stays on the screen\<close>

definition con_inv :: "console \<Rightarrow> bool" where
  "con_inv con \<longleftrightarrow> length (text_mem con) = 2000 \<and> 0 \<le> con_x con \<and> con_x con < 80 \<and> 0 \<le> con_y con \<and> con_y con < 25"

definition tp_inv :: "term_pipe \<Rightarrow> bool" where
  "tp_inv tp \<longleftrightarrow> length (tp_saved tp) = 4 \<and> (tp_saved_len tp = 0 \<or> tp_saved_len tp < tp_expected_len tp \<and> tp_expected_len tp \<le> 4) \<and>
     0 \<le> tp_sx tp \<and> tp_sx tp < 80 \<and> 0 \<le> tp_sy tp \<and> tp_sy tp < 25 \<and> tp_fg tp < 16 \<and> tp_bg tp < 16"

definition st_inv :: "cons_state \<Rightarrow> bool" where
  "st_inv st \<longleftrightarrow> tp_inv (ct_tp st) \<and> con_inv (ct_con st) \<and> ct_output st = recalc_pos (con_x (ct_con st)) (con_y (ct_con st))"

text \<open>A result is well formed if the state is, or if the memory to print has been left.\<close>

definition safe :: "('a \<times> cons_state) outcome \<Rightarrow> bool" where
  "safe r = (case r of Inl e \<Rightarrow> e = BadPointer | Inr (_, st) \<Rightarrow> st_inv st)"

lemma safe_simps [simp]: "safe (Inr (x, st)) \<longleftrightarrow> st_inv st" "safe (Inl e) \<longleftrightarrow> e = BadPointer"
  by (simp_all add: safe_def)

lemma scroll_down_length [simp]: "length t = 2000 \<Longrightarrow> length (scroll_down t) = 2000"
  by (simp add: scroll_down_def)

lemma st_inv_upd [simp]:
  "st_inv (st\<lparr>ct_s := i\<rparr>) = st_inv st" "st_inv (st\<lparr>ct_size := n\<rparr>) = st_inv st"
  by (simp_all add: st_inv_def)

lemma set_cursor_inv: "st_inv st \<Longrightarrow> 0 \<le> x \<Longrightarrow> x < 80 \<Longrightarrow> 0 \<le> y \<Longrightarrow> y < 25 \<Longrightarrow> st_inv (set_cursor x y st)"
  by (simp add: st_inv_def con_inv_def)

lemma set_text_inv: "st_inv st \<Longrightarrow> length t = 2000 \<Longrightarrow> st_inv (set_text t st)"
  by (simp add: st_inv_def con_inv_def)

lemma put_uni_inv:
  assumes "st_inv st"
  shows "\<exists>st'. put_uni uni st = Inr st' \<and> st_inv st'"
proof -
  note inv = assms [unfolded st_inv_def con_inv_def recalc_pos_def]
  consider "uni = 10" | "uni = 13" | "uni = 8" | "uni = 0" | "uni \<notin> {10, 13, 8, 0}" by blast
  then show ?thesis
  proof cases
    case 5
    have "0 \<le> ct_output st" "ct_output st < 2000" using inv by auto
    then show ?thesis using 5 inv by (auto simp: put_uni_def Let_def st_inv_def con_inv_def recalc_pos_def)
  qed (use assms inv in \<open>auto simp: put_uni_def line_feed_def Let_def intro!: set_cursor_inv set_text_inv\<close>)
qed

lemma colour_range:
  assumes "0 \<le> k" "k \<le> 7"
  shows "(word_of_int k :: u32) < 16" "(word_of_int k OR 8 :: u32) < 16"
proof -
  have "k = 0 \<or> k = 1 \<or> k = 2 \<or> k = 3 \<or> k = 4 \<or> k = 5 \<or> k = 6 \<or> k = 7" using assms by presburger
  then show "(word_of_int k :: u32) < 16" "(word_of_int k OR 8 :: u32) < 16" by (elim disjE; simp)+
qed

lemma set_color_inv: "tp_inv tp \<Longrightarrow> tp_inv (set_color v tp)"
  using colour_range [of "v - 30"] colour_range [of "v - 40"] colour_range [of "v - 70"] colour_range [of "v - 80"]
  by (auto simp: tp_inv_def set_color_def DEF_FG_def DEF_BG_def DEF_BR_FG_def)

lemma ansi_color_inv: "ansi_color cs tp = Inr tp' \<Longrightarrow> tp_inv tp \<Longrightarrow> tp_inv tp'"
  using color_tokens_rule [where P = tp_inv] set_color_inv by (auto simp: ansi_color_def)

lemma consume_safe: "st_inv st \<Longrightarrow> (\<And>st. st_inv st \<Longrightarrow> safe (k st)) \<Longrightarrow> safe (consume st k)"
  by (simp add: consume_def)

lemma ansi_position_safe:
  assumes "st_inv st" "short_numbers mem"
  shows "safe (ansi_position mem p st)"
proof (cases "p + 1 = ct_s st")
  case True
  then show ?thesis using set_cursor_inv [OF assms(1)] by (simp add: ansi_position_def)
next
  case False
  define str where "str = take (ct_s st - p) (drop p mem)"
  have short: "short_numbers (drop k str)" for k unfolding str_def by (intro short_numbers_part assms(2))
  obtain v b q where v: "strtol str 10 = Inr (v, b, q)" using strtol_short [OF short [of 0]] by (cases "strtol str 10") auto
  obtain v2 b2 q2 where v2: "strtol (drop (q + 1) str) 10 = Inr (v2, b2, q2)"
    using strtol_short [OF short [of "q + 1"]] by (cases "strtol (drop (q + 1) str) 10") auto
  have "safe (Inr (Loop, set_cursor (v2 - 1) (v - 1) st))" if "0 \<le> v - 1" "v - 1 < 25" "0 \<le> v2 - 1" "v2 - 1 < 80"
    using set_cursor_inv [OF assms(1)] that by simp
  then show ?thesis
    using False v v2 assms(1) unfolding ansi_position_def str_def [symmetric] by (simp add: Let_def mget_def str_def [symmetric] not_less)
qed

lemma ansi_final_safe:
  assumes "st_inv st" "short_numbers mem"
  shows "safe (ansi_final mem p c st)"
proof -
  have ok: "safe (consume st' (\<lambda>st. Inr (Loop, st)))" if "st_inv st'" for st' using consume_safe [OF that] by simp
  obtain tp where tp: "ansi_color (take (ct_s st - p) (drop p mem)) (ct_tp st) = Inr tp"
    using ansi_color_short [OF short_numbers_part(1) [OF assms(2)]] by blast
  have "st_inv (st\<lparr>ct_tp := tp\<rparr>)" using ansi_color_inv [OF tp] assms(1) by (simp add: st_inv_def)
  moreover have "st_inv (set_text (clrscr f b (text_mem (ct_con st))) st)" for f b
    using assms(1) by (intro set_text_inv) (simp_all add: clrscr_def st_inv_def con_inv_def)
  moreover have "st_inv (st\<lparr>ct_tp := (ct_tp st)\<lparr>tp_sx := con_x (ct_con st), tp_sy := con_y (ct_con st)\<rparr>\<rparr>)"
    using assms(1) by (simp add: st_inv_def tp_inv_def con_inv_def)
  moreover have "st_inv (set_cursor (tp_sx (ct_tp st)) (tp_sy (ct_tp st)) st)"
    using assms(1) by (intro set_cursor_inv) (simp_all add: st_inv_def tp_inv_def)
  moreover have "safe (consume st (ansi_position mem p))" using consume_safe [OF assms(1)] ansi_position_safe [OF _ assms(2)] by blast
  ultimately show ?thesis using assms(1) tp ok by (simp add: ansi_final_def Let_def mget_def)
qed

lemma mget_cases: "mget mem i = Inl BadPointer \<or> (\<exists>b. mget mem i = Inr b)" by (simp add: mget_def)

lemma ansi_scan_fault: "ansi_scan mem s n = Inl e \<Longrightarrow> e = BadPointer"
proof (induction n arbitrary: s)
  case 0
  then show ?case by (auto simp: ansi_scan.simps [of mem s] mget_def outcome_simps split: if_splits)
next
  case (Suc n)
  then show ?case by (auto simp: ansi_scan.simps [of mem s] mget_def outcome_simps split: if_splits)
qed

lemma ansi_sequence_safe:
  assumes "st_inv st" "short_numbers mem"
  shows "safe (ansi_sequence mem st)"
proof -
  have "safe (rbind (ansi_scan mem (ct_s st) (unat (ct_size st))) (\<lambda>r. case r of None \<Rightarrow> Inr (Return, st)
      | Some (s, n) \<Rightarrow> rbind (mget mem s) (\<lambda>c. ansi_final mem (ct_s st) c (st\<lparr>ct_s := s, ct_size := of_nat n\<rparr>))))" if "st_inv st" for st
    using that ansi_final_safe [OF _ assms(2)]
    by (cases "ansi_scan mem (ct_s st) (unat (ct_size st))") (auto simp: mget_def dest: ansi_scan_fault split: option.splits)
  then have "safe (consume st (\<lambda>st. let saved_pos = ct_s st in rbind (ansi_scan mem saved_pos (unat (ct_size st))) (\<lambda>r. case r of
      None \<Rightarrow> Inr (Return, st)
    | Some (s, n) \<Rightarrow> rbind (mget mem s) (\<lambda>c. ansi_final mem saved_pos c (st\<lparr>ct_s := s, ct_size := of_nat n\<rparr>)))))"
    unfolding Let_def by (rule consume_safe [OF assms(1)])
  then show ?thesis unfolding ansi_sequence_def using assms(1) mget_cases [of mem "ct_s st"] by auto
qed

text \<open>Fetching a character.\<close>

definition filling :: "term_pipe \<Rightarrow> bool" where
  "filling tp \<longleftrightarrow> tp_inv (tp\<lparr>tp_saved_len := 0\<rparr>) \<and> 0 < tp_saved_len tp \<and> tp_saved_len tp \<le> tp_expected_len tp \<and> tp_expected_len tp \<le> 4"

lemma copy_saved_filling:
  "filling tp \<Longrightarrow> (case copy_saved mem s r tp of Inl e \<Rightarrow> e = BadPointer | Inr (s', tp') \<Rightarrow> filling tp')"
proof (induction r arbitrary: s tp)
  case 0
  then show ?case by (simp add: mget_def)
next
  case (Suc r)
  show ?case
  proof (cases "s < length mem \<and> mem ! s \<noteq> 0 \<and> tp_saved_len tp < tp_expected_len tp")
    case True
    then have "tp_saved_len tp < length (tp_saved tp)" using Suc.prems by (simp add: filling_def tp_inv_def)
    moreover have "filling (tp\<lparr>tp_saved := (tp_saved tp)[tp_saved_len tp := mem ! s], tp_saved_len := tp_saved_len tp + 1\<rparr>)"
      using Suc.prems True by (simp add: filling_def tp_inv_def)
    ultimately show ?thesis using Suc.IH True by (simp add: mget_def aset_def)
  next
    case False
    then show ?thesis using Suc.prems by (auto simp: mget_def)
  qed
qed

lemma decode_char_safe:
  assumes "st_inv (st\<lparr>ct_tp := (ct_tp st)\<lparr>tp_saved_len := 0\<rparr>\<rparr>)"
  shows "safe (decode_char mem st)"
proof -
  have n: "utf8_len b \<le> 4" "0 < utf8_len b" for b by (simp_all add: utf8_len_def)
  have len: "length (tp_saved (ct_tp st)) = 4" using assms by (simp add: st_inv_def tp_inv_def)
  have "lead_byte mem st = Inl BadPointer \<or> (\<exists>b. lead_byte mem st = Inr b)"
    using len mget_cases by (simp add: lead_byte_def aget_def)
  then show ?thesis
  proof (elim disjE exE)
    fix b
    assume b: "lead_byte mem st = Inr b"
    have u: "unat (ct_size st) < utf8_len b" if "ct_size st < of_nat (utf8_len b)"
    proof -
      have "unat (of_nat (utf8_len b) :: u32) = utf8_len b" using n(1) [of b] by (simp add: unat_of_nat take_bit_nat_eq_self)
      then show ?thesis using that by (metis word_less_nat_alt)
    qed
    then show ?thesis
      using b n(1) [of b] len assms
      by (cases "1 < utf8_len b \<and> ct_size st < of_nat (utf8_len b)") (auto simp: decode_char_def Let_def mget_list_def st_inv_def tp_inv_def)
  qed (simp add: decode_char_def)
qed

lemma fetch_char_safe:
  assumes "st_inv st"
  shows "safe (fetch_char mem st)"
proof (cases "tp_saved_len (ct_tp st) = 0")
  case True
  then have "st_inv (st\<lparr>ct_tp := (ct_tp st)\<lparr>tp_saved_len := 0\<rparr>\<rparr>)" using assms by (simp add: st_inv_def tp_inv_def)
  then show ?thesis using True decode_char_safe by (simp add: fetch_char_def complete_saved_def Let_def)
next
  case False
  then have f: "filling (ct_tp st)" using assms by (auto simp: filling_def st_inv_def tp_inv_def)
  show ?thesis
  proof (cases "copy_saved mem (ct_s st) (unat (ct_size st)) (ct_tp st)")
    case (Inl e)
    then show ?thesis using False copy_saved_filling [OF f, of mem "ct_s st" "unat (ct_size st)"]
      by (simp add: fetch_char_def complete_saved_def Let_def)
  next
    case (Inr x)
    obtain s' tp' where x: "x = (s', tp')" by (cases x)
    then have f': "filling tp'" using Inr copy_saved_filling [OF f, of mem "ct_s st" "unat (ct_size st)"] by simp
    define st' where "st' = st\<lparr>ct_s := s', ct_tp := tp', ct_size := ct_size st + of_nat (tp_saved_len (ct_tp st))\<rparr>"
    have "st_inv (st'\<lparr>ct_tp := (ct_tp st')\<lparr>tp_saved_len := 0\<rparr>\<rparr>)" using f' assms by (simp add: st'_def st_inv_def filling_def)
    moreover have "st_inv st'" if "\<not> tp_expected_len tp' \<le> tp_saved_len tp'"
      using f' that assms by (simp add: st'_def st_inv_def filling_def tp_inv_def)
    ultimately show ?thesis
      using decode_char_safe [of st'] False Inr x by (simp add: fetch_char_def complete_saved_def Let_def st'_def)
  qed
qed

lemma cons_round_safe:
  assumes "st_inv st" "short_numbers mem"
  shows "safe (cons_round mem st)"
proof (cases "fetch_char mem st")
  case (Inl e)
  then show ?thesis using fetch_char_safe [OF assms(1), of mem] by (simp add: cons_round_def)
next
  case (Inr x)
  obtain c st' where x: "x = (c, st')" by (cases x)
  then have inv: "st_inv st'" using fetch_char_safe [OF assms(1), of mem] Inr by simp
  have "safe (rbind (put_uni uni st') (\<lambda>st. Inr (Loop, st)))" for uni using put_uni_inv [OF inv, of uni] by auto
  then show ?thesis using inv Inr x ansi_sequence_safe [OF inv assms(2)] by (cases c) (simp_all add: cons_round_def)
qed

lemma cons_loop_safe: "st_inv st \<Longrightarrow> short_numbers mem \<Longrightarrow> safe (cons_loop mem st)"
proof (induction mem st rule: cons_loop.induct)
  case (1 mem st)
  have r: "safe (cons_round mem st)" by (rule cons_round_safe [OF "1.prems"])
  show ?case
  proof (cases "ct_size st = 0")
    case True
    then show ?thesis using "1.prems" by (simp add: cons_loop.simps [of mem st])
  next
    case False
    show ?thesis
    proof (cases "cons_round mem st")
      case (Inl e)
      then show ?thesis using r False by (simp add: cons_loop.simps [of mem st])
    next
      case (Inr x)
      obtain fl st' where x: "x = (fl, st')" by (cases x)
      then have "st_inv st'" using r Inr by simp
      then show ?thesis using "1.IH" [OF False Inr x [symmetric]] "1.prems"(2) False Inr x by (simp add: cons_loop.simps [of mem st])
    qed
  qed
qed

text \<open>C25: Whatever bytes are printed, the console stays on its screen. From a screen with the cursor inside and a pipe with at most
  three saved bytes, \<open>cons_print\<close> returns for every memory and every size, it never writes outside the 80 by
  25 cells or the arrays of the program, and leaves the cursor, the saved position and the colours in their ranges;
  the only fault there can be is to run out of the memory it is given. The numbers in the text must not have more than nine digits.\<close>

theorem console_stays_on_screen:
  assumes "tp_inv tp" "con_inv con" "\<not> output_lock con" "short_numbers mem"
  shows "case cons_print mem n tp con of Inl e \<Rightarrow> e = BadPointer | Inr (r, tp', con') \<Rightarrow> tp_inv tp' \<and> con_inv con'"
proof -
  define st where "st = \<lparr>ct_tp = tp, ct_con = con\<lparr>output_lock := True\<rparr>, ct_s = 0, ct_size = n, ct_output = recalc_pos (con_x con) (con_y con)\<rparr>"
  have "st_inv st" using assms(1,2) by (simp add: st_def st_inv_def con_inv_def)
  from cons_loop_safe [OF this assms(4)] show ?thesis
    using assms(3) unfolding cons_print_def st_def [symmetric]
    by (cases "cons_loop mem st") (auto simp: st_inv_def con_inv_def split: if_splits)
qed

text \<open>Evaluation of the rounds of the loop on concrete bytes.\<close>

lemmas print_simps = cons_round_def fetch_char_def complete_saved_def decode_char_def lead_byte_def mget_def mget_list_def utf8_len_def
  utf8_decode_def ansi_sequence_def ansi_scan.simps ansi_final_def ansi_position_def consume_def put_uni_def line_feed_def
  set_cursor_def set_text_def recalc_pos_def Let_def

lemma strtol_examples:
  "strtol [51, 59, 56, 48, 72] 10 = Inr (3, False, 1)" "strtol [56, 48, 72] 10 = Inr (80, False, 2)"
  by code_simp+

theorem console_stays_on_screen_witness:
  "\<exists>r tp con. cons_print [27, 91, 51, 59, 56, 48, 72, 88, 10] 9 new_term_pipe (tt_console tty_start) = Inr (r, tp, con) \<and> con_inv con \<and> con_y con = 4"
proof -
  define con where "con = tt_console tty_start"
  have con: "con_inv con" "\<not> output_lock con" "con_x con = 0" "con_y con = 0"
    by (simp_all add: con_def con_inv_def tty_start_def)
  have tp: "tp_inv new_term_pipe" by (simp add: tp_inv_def new_term_pipe_def DEF_FG_def DEF_BG_def)
  have "short_numbers [27, 91, 51, 59, 56, 48, 72, 88, 10]" by (simp add: short_numbers_def isdigit_def)
  from console_stays_on_screen [OF tp con(1,2) this, of 9]
  have "case cons_print [27, 91, 51, 59, 56, 48, 72, 88, 10] 9 new_term_pipe con of
      Inl e \<Rightarrow> e = BadPointer | Inr (r, tp', con') \<Rightarrow> tp_inv tp' \<and> con_inv con'" .
  moreover have "\<exists>r tp con'. cons_print [27, 91, 51, 59, 56, 48, 72, 88, 10] 9 new_term_pipe con = Inr (r, tp, con') \<and> con_y con' = 4"
    using con(2-4) con(1) [unfolded con_inv_def]
    by (simp add: cons_print_def cons_loop.simps print_simps strtol_examples new_term_pipe_def)
  ultimately show ?thesis unfolding con_def by auto
qed

section \<open>Plain text\<close>

text \<open>The reference: a grid of cells with a cursor.\<close>

type_synonym terminal = "(nat \<Rightarrow> nat \<Rightarrow> u16) \<times> nat \<times> nat"

definition term_scroll :: "(nat \<Rightarrow> nat \<Rightarrow> u16) \<Rightarrow> nat \<Rightarrow> nat \<Rightarrow> u16" where
  "term_scroll g = (\<lambda>r c. if r < 24 then g (r + 1) c else blank)"

definition term_next_line :: "terminal \<Rightarrow> terminal" where
  "term_next_line = (\<lambda>(g, x, y). if y < 24 then (g, 0, y + 1) else (term_scroll g, 0, y))"

definition term_put :: "u16 \<Rightarrow> terminal \<Rightarrow> terminal" where
  "term_put v = (\<lambda>(g, x, y).
     let g = (\<lambda>r c. if r = y \<and> c = x then v else g r c) in if x < 79 then (g, x + 1, y) else term_next_line (g, x, y))"

definition term_char :: "term_pipe \<Rightarrow> u8 \<Rightarrow> terminal \<Rightarrow> terminal" where
  "term_char tp b = (\<lambda>(g, x, y).
     if b = 10 then term_next_line (g, x, y)
     else if b = 13 then (g, 0, y)
     else if b = 8 then (if 0 < x then (g, x - 1, y) else if 0 < y then (g, 79, y - 1) else (g, x, y))
     else term_put (cell tp (if b = 9 then 32 else ucast b)) (g, x, y))"

definition displays :: "console \<Rightarrow> terminal \<Rightarrow> bool" where
  "displays con = (\<lambda>(g, x, y). length (text_mem con) = 2000 \<and> x < 80 \<and> y < 25 \<and> con_x con = int x \<and> con_y con = int y \<and>
     (\<forall>r < 25. \<forall>c < 80. text_mem con ! (80 * r + c) = g r c))"

lemma scroll_down_nth:
  assumes "length t = 2000" "r < 25" "c < 80"
  shows "scroll_down t ! (80 * r + c) = (if r < 24 then t ! (80 * Suc r + c) else blank)"
proof (cases "r < 24")
  case True
  then have "80 * r + c < 1920" using assms(3) by simp
  then show ?thesis using assms True by (simp add: scroll_down_def nth_append add.assoc)
next
  case False
  then have "r = 24" using assms(2) by simp
  then show ?thesis using assms by (simp add: scroll_down_def nth_append)
qed

lemma displays_cell: "displays con (g, x, y) \<Longrightarrow> r < 25 \<Longrightarrow> c < 80 \<Longrightarrow> text_mem con ! (80 * r + c) = g r c"
  by (simp add: displays_def)

lemma displays_scroll:
  "displays con (g, x, y) \<Longrightarrow> displays (con\<lparr>text_mem := scroll_down (text_mem con)\<rparr>) (term_scroll g, x, y)"
  by (auto simp: displays_def term_scroll_def scroll_down_nth simp del: mult_Suc_right)

lemma displays_put:
  assumes "displays con (g, x, y)"
  shows "displays (con\<lparr>text_mem := (text_mem con)[80 * y + x := v]\<rparr>) ((\<lambda>r c. if r = y \<and> c = x then v else g r c), x, y)"
proof -
  have "80 * r + c = 80 * y + x \<longleftrightarrow> r = y \<and> c = x" if "c < 80" for r c
    using that assms by (auto simp: displays_def dest: arg_cong [of _ _ "\<lambda>n. n div 80"] arg_cong [of _ _ "\<lambda>n. n mod 80"])
  then show ?thesis using assms by (auto simp: displays_def nth_list_update)
qed

lemma displays_cursor: "displays con (g, x, y) \<Longrightarrow> x' < 80 \<Longrightarrow> y' < 25 \<Longrightarrow>
    displays (con\<lparr>con_x := int x', con_y := int y'\<rparr>) (g, x', y')"
  by (simp add: displays_def)

lemma plain_byte:
  fixes b :: u8
  assumes "b < 128"
  shows "utf8_len b = 1" "b AND 0x80 = 0"
proof -
  have "take_bit 7 (unat b) = unat b" using assms by (simp add: take_bit_nat_eq_self_iff word_less_nat_alt)
  then have "\<not> bit (unat b) 7" by (metis bit_take_bit_iff less_irrefl)
  then have "\<not> bit b 7" by (simp add: bit_unsigned_iff)
  moreover have "bit b 7" if "b AND 0xF8 = 0xF0 \<or> b AND 0xF0 = 0xE0 \<or> b AND 0xE0 = 0xC0"
    using that
  proof (elim disjE)
    assume e: "b AND 0xF8 = 0xF0"
    have "bit (b AND 0xF8) 7" unfolding e by simp
    then show ?thesis by (simp add: bit_and_iff)
  next
    assume e: "b AND 0xF0 = 0xE0"
    have "bit (b AND 0xF0) 7" unfolding e by simp
    then show ?thesis by (simp add: bit_and_iff)
  next
    assume e: "b AND 0xE0 = 0xC0"
    have "bit (b AND 0xE0) 7" unfolding e by simp
    then show ?thesis by (simp add: bit_and_iff)
  qed
  ultimately show "utf8_len b = 1" by (auto simp: utf8_len_def)
  have "(0x80 :: u8) = push_bit 7 1" by simp
  then show "b AND 0x80 = 0" using \<open>\<not> bit b 7\<close> by (metis and_exp_eq_0_iff_not_bit push_bit_of_1)
qed

lemma ucast_byte_eq: "(ucast (b :: u8) :: u32) = ucast c \<longleftrightarrow> b = c"
proof -
  have "unat (ucast x :: u32) = unat x" for x :: u8
    using unsigned_less [of x, where ?'a = nat] by (simp add: unsigned_ucast_eq take_bit_nat_eq_self)
  then show ?thesis by (simp add: word_unat_eq_iff)
qed

lemma byte_codes:
  "(ucast (b :: u8) :: u32) = 27 \<longleftrightarrow> b = 27" "(ucast b :: u32) = 10 \<longleftrightarrow> b = 10" "(ucast b :: u32) = 13 \<longleftrightarrow> b = 13"
  "(ucast b :: u32) = 8 \<longleftrightarrow> b = 8" "(ucast b :: u32) = 9 \<longleftrightarrow> b = 9"
  using ucast_byte_eq [of b 27] ucast_byte_eq [of b 10] ucast_byte_eq [of b 13] ucast_byte_eq [of b 8] ucast_byte_eq [of b 9] by simp_all

lemma set_cursor_twice: "set_cursor x y (set_cursor x' y' st) = set_cursor x y st"
  by (simp add: set_cursor_def)

lemma set_text_same: "set_text (text_mem (ct_con st)) st = st"
  by (simp add: set_text_def)

text \<open>A printable character or a control character moves the screen as the reference says.\<close>

lemma put_uni_displays:
  assumes "displays (ct_con st) t" "ct_output st = recalc_pos (con_x (ct_con st)) (con_y (ct_con st))" "b \<noteq> 0"
  shows "\<exists>st'. put_uni (ucast (b :: u8)) st = Inr st' \<and> displays (ct_con st') (term_char (ct_tp st) b t) \<and>
    ct_output st' = recalc_pos (con_x (ct_con st')) (con_y (ct_con st')) \<and> output_lock (ct_con st') = output_lock (ct_con st) \<and>
    ct_s st' = ct_s st \<and> ct_size st' = ct_size st \<and> ct_tp st' = ct_tp st"
proof -
  obtain g x y where t: "t = (g, x, y)" by (cases t)
  note d = assms(1) [unfolded t]
  have xy: "con_x (ct_con st) = int x" "con_y (ct_con st) = int y" "x < 80" "y < 25" "length (text_mem (ct_con st)) = 2000"
    using d by (auto simp: displays_def)
  have cur: "displays ((ct_con st)\<lparr>con_x := int x', con_y := int y'\<rparr>) (g, x', y')" if "x' < 80" "y' < 25" for x' y'
    using displays_cursor [OF d that] .
  consider "b = 10" | "b = 13" | "b = 8" | "b \<notin> {10, 13, 8}" by blast
  then show ?thesis
  proof cases
    case 1
    define t' where "t' = (if y < 24 then text_mem (ct_con st) else scroll_down (text_mem (ct_con st)))"
    define y' where "y' = (if y < 24 then y + 1 else 24)"
    define g' where "g' = (if y < 24 then g else term_scroll g)"
    have "displays ((ct_con st)\<lparr>text_mem := t'\<rparr>) (g', x, y)" using d displays_scroll [OF d] by (simp add: t'_def g'_def)
    then have "displays (((ct_con st)\<lparr>text_mem := t'\<rparr>)\<lparr>con_x := int 0, con_y := int y'\<rparr>) (g', 0, y')"
      by (rule displays_cursor) (simp_all add: y'_def)
    moreover have "put_uni (ucast b) st = Inr (set_cursor 0 (int y') (set_text t' st))"
    proof (cases "y < 24")
      case True
      then show ?thesis using 1 xy by (simp add: put_uni_def line_feed_def Let_def t'_def y'_def set_cursor_twice set_text_same add.commute [of "int y" 1])
    next
      case False
      then have "y = 24" using xy by simp
      then show ?thesis using 1 xy by (simp add: put_uni_def line_feed_def Let_def t'_def y'_def set_cursor_twice)
    qed
    moreover have "term_char (ct_tp st) b t = (g', 0, y')" using 1 xy by (simp add: term_char_def term_next_line_def t g'_def y'_def)
    ultimately show ?thesis by simp
  next
    case 2
    then show ?thesis using xy cur [of 0 y] by (simp add: byte_codes put_uni_def term_char_def t Let_def)
  next
    case 3
    then show ?thesis
      using xy cur [of "x - 1" y] cur [of 79 "y - 1"] cur [of x y]
      by (auto simp: byte_codes put_uni_def term_char_def t Let_def of_nat_diff)
  next
    case 4
    define v where "v = cell (ct_tp st) (if b = 9 then 32 else ucast b)"
    define con' where "con' = (ct_con st)\<lparr>text_mem := (text_mem (ct_con st))[80 * y + x := v]\<rparr>"
    have out: "ct_output st = int (80 * y + x)" "80 * y + x < 2000" using assms(2) xy by (auto simp: recalc_pos_def)
    note p = displays_put [OF d, of v, folded con'_def]
    have c: "term_char (ct_tp st) b t = term_put v (g, x, y)" using 4 by (simp add: term_char_def t v_def)
    have n: "(ucast b :: u32) \<noteq> 0" using ucast_byte_eq [of b 0] assms(3) by simp
    have "nat (80 * int y) = 80 * y" by (simp add: nat_mult_distrib)
    then have put: "put_uni (ucast b) st = Inr
        (if x < 79 then st\<lparr>ct_con := con'\<lparr>con_x := int (x + 1)\<rparr>, ct_output := ct_output st + 1\<rparr>
         else if y < 24 then st\<lparr>ct_con := con'\<lparr>con_x := 0, con_y := int (y + 1)\<rparr>, ct_output := ct_output st + 1\<rparr>
         else st\<lparr>ct_con := con'\<lparr>con_x := 0, text_mem := scroll_down (text_mem con')\<rparr>, ct_output := ct_output st + 1 - 80\<rparr>)"
      using 4 n xy out by (auto simp: byte_codes put_uni_def Let_def v_def [symmetric] con'_def nat_add_distrib set_text_def)
    have "displays (con'\<lparr>con_x := int (x + 1)\<rparr>) ((\<lambda>r c. if r = y \<and> c = x then v else g r c), x + 1, y)" if "x < 79"
      using p that by (simp add: displays_def)
    moreover have "displays (con'\<lparr>con_x := 0, con_y := int (y + 1)\<rparr>) ((\<lambda>r c. if r = y \<and> c = x then v else g r c), 0, y + 1)" if "y < 24"
      using p that by (simp add: displays_def)
    moreover have "displays (con'\<lparr>con_x := 0, text_mem := scroll_down (text_mem con')\<rparr>) (term_scroll (\<lambda>r c. if r = y \<and> c = x then v else g r c), 0, y)"
      using displays_scroll [OF p] by (simp add: displays_def)
    ultimately show ?thesis
      unfolding c put using xy out by (auto simp: term_put_def term_next_line_def Let_def recalc_pos_def con'_def)
  qed
qed

definition plain_char :: "u8 \<Rightarrow> bool" where
  "plain_char b \<longleftrightarrow> 0 < b \<and> b < 128 \<and> b \<noteq> 27"

lemma plain_round:
  assumes "tp_saved_len (ct_tp st) = 0" "ct_s st < length mem" "mem ! ct_s st = b" "plain_char b"
  shows "cons_round mem st = rbind (put_uni (ucast b) (st\<lparr>ct_size := ct_size st - 1, ct_s := ct_s st + 1\<rparr>)) (\<lambda>st. Inr (Loop, st))"
proof -
  have b: "utf8_len b = 1" "b AND 0x80 = 0" "b \<noteq> 27" using assms(4) plain_byte [of b] by (auto simp: plain_char_def)
  have d: "take (Suc 0) (drop (ct_s st) mem) = [b]" using assms(2,3) by (simp add: take_Suc_conv_app_nth)
  have "fetch_char mem st = Inr (Some (ucast b), st\<lparr>ct_size := ct_size st - 1, ct_s := ct_s st + 1\<rparr>)"
    using assms(1-3) b(1,2) d
    by (simp add: fetch_char_def complete_saved_def decode_char_def lead_byte_def mget_def mget_list_def utf8_decode_def Let_def)
  then show ?thesis using b(3) by (simp add: cons_round_def byte_codes)
qed

lemma cons_loop_plain:
  assumes "displays (ct_con st) t" "ct_output st = recalc_pos (con_x (ct_con st)) (con_y (ct_con st))" "tp_saved_len (ct_tp st) = 0"
    and "ct_s st = length pre" "ct_size st = of_nat (length bs)" "length bs < 2 ^ 32" "\<forall>b \<in> set bs. plain_char b"
  shows "\<exists>st'. cons_loop (pre @ bs @ beyond) st = Inr (Break, st') \<and> displays (ct_con st') (fold (term_char (ct_tp st)) bs t) \<and>
    ct_tp st' = ct_tp st \<and> ct_size st' = 0 \<and> output_lock (ct_con st') = output_lock (ct_con st)"
  using assms
proof (induction bs arbitrary: pre st t)
  case Nil
  then show ?case by (simp add: cons_loop.simps [of _ st])
next
  case (Cons b bs)
  define st1 where "st1 = st\<lparr>ct_size := ct_size st - 1, ct_s := ct_s st + 1\<rparr>"
  have "b \<noteq> 0" using Cons.prems(7) by (auto simp: plain_char_def)
  then obtain st2 where st2: "put_uni (ucast b) st1 = Inr st2" "displays (ct_con st2) (term_char (ct_tp st) b t)"
      "ct_output st2 = recalc_pos (con_x (ct_con st2)) (con_y (ct_con st2))" "output_lock (ct_con st2) = output_lock (ct_con st)"
      "ct_s st2 = length (pre @ [b])" "ct_size st2 = of_nat (length bs)" "ct_tp st2 = ct_tp st"
    using put_uni_displays [of st1 t b] Cons.prems by (auto simp: st1_def)
  have "ct_size st \<noteq> 0" using Cons.prems(5,6) by (auto simp: word_unat_eq_iff unat_of_nat take_bit_nat_eq_self simp del: of_nat_Suc)
  moreover have "cons_round (pre @ (b # bs) @ beyond) st = Inr (Loop, st2)"
    using plain_round [of st "pre @ (b # bs) @ beyond" b] Cons.prems st2(1) by (simp add: st1_def)
  ultimately have "cons_loop (pre @ (b # bs) @ beyond) st = cons_loop ((pre @ [b]) @ bs @ beyond) st2"
    by (simp add: cons_loop.simps [of _ st])
  moreover obtain st' where "cons_loop ((pre @ [b]) @ bs @ beyond) st2 = Inr (Break, st')"
      "displays (ct_con st') (fold (term_char (ct_tp st2)) bs (term_char (ct_tp st) b t))"
      "ct_tp st' = ct_tp st2" "ct_size st' = 0" "output_lock (ct_con st') = output_lock (ct_con st2)"
    using Cons.IH [OF st2(2,3) _ st2(5,6)] Cons.prems(3,6,7) st2(7) by auto
  ultimately show ?case using st2(4,7) by simp
qed

text \<open>C26: Printing plain text does what the reference terminal does. For bytes of ASCII other than zero and the escape character,
  whatever follows them in memory, \<open>cons_print\<close> returns their number, frees the lock, leaves the pipe as it was, and the
  screen shows what the reference makes of the characters one after the other: cells, line ends, backspaces
  and scrolling.\<close>

theorem cons_print_plain:
  assumes "displays con t" "\<not> output_lock con" "tp_saved_len tp = 0" "\<forall>b \<in> set bs. plain_char b" "length bs < 2 ^ 32"
  shows "\<exists>con'. cons_print (bs @ beyond) (of_nat (length bs)) tp con = Inr (of_nat (length bs), tp, con') \<and>
    displays con' (fold (term_char tp) bs t) \<and> \<not> output_lock con'"
proof -
  define st where "st = \<lparr>ct_tp = tp, ct_con = con\<lparr>output_lock := True\<rparr>, ct_s = 0, ct_size = of_nat (length bs),
    ct_output = recalc_pos (con_x con) (con_y con)\<rparr>"
  have d: "displays (c\<lparr>output_lock := l\<rparr>) x = displays c x" for c l x by (simp add: displays_def)
  obtain st' where "cons_loop (bs @ beyond) st = Inr (Break, st')" "displays (ct_con st') (fold (term_char tp) bs t)" "ct_tp st' = tp" "ct_size st' = 0"
    using cons_loop_plain [of st t "[]" bs beyond] assms by (auto simp: st_def d)
  then show ?thesis using assms(2) unfolding cons_print_def st_def [symmetric] by (simp add: d)
qed

theorem cons_print_plain_witness:
  "\<exists>con. cons_print [65, 10, 66] 3 new_term_pipe (tt_console tty_start) = Inr (3, new_term_pipe, con) \<and> con_x con = 1 \<and> con_y con = 1 \<and>
     text_mem con ! 0 = cell new_term_pipe 65 \<and> text_mem con ! 80 = cell new_term_pipe 66"
proof -
  let ?v = "push_bit 8 (ucast DEF_FG) OR push_bit 12 (ucast DEF_BG) :: u16"
  have idx: "80 * r + c < 2000" if "r < 25" "c < 80" for r c :: nat using that by simp
  have d: "displays (tt_console tty_start) ((\<lambda>_ _. ?v), 0, 0)"
    unfolding displays_def tty_start_def using idx by (simp del: push_bit_numeral)
  obtain con where "cons_print ([65, 10, 66] @ []) (of_nat (length [65 :: u8, 10, 66])) new_term_pipe (tt_console tty_start) =
        Inr (of_nat (length [65 :: u8, 10, 66]), new_term_pipe, con)"
      "displays con (fold (term_char new_term_pipe) [65, 10, 66] ((\<lambda>_ _. ?v), 0, 0))"
    using cons_print_plain [OF d, of new_term_pipe "[65, 10, 66]" "[]"] by (auto simp: tty_start_def new_term_pipe_def plain_char_def)
  moreover have "\<exists>g. fold (term_char new_term_pipe) [65, 10, 66] ((\<lambda>_ _. ?v), 0, 0) = (g, 1, 1) \<and>
      g 0 0 = cell new_term_pipe 65 \<and> g 1 0 = cell new_term_pipe 66"
    by (simp add: term_char_def term_put_def term_next_line_def)
  ultimately obtain g where g: "displays con (g, 1, 1)" "g 0 0 = cell new_term_pipe 65" "g 1 0 = cell new_term_pipe 66"
      "cons_print [65, 10, 66] 3 new_term_pipe (tt_console tty_start) = Inr (3, new_term_pipe, con)" by auto
  moreover have "con_x con = 1" "con_y con = 1" using g(1) by (simp_all add: displays_def)
  ultimately show ?thesis using displays_cell [OF g(1), of 0 0] displays_cell [OF g(1), of 1 0] by simp
qed

section \<open>Faults\<close>

text \<open>A sequence that is cut off by the end of the buffer makes \<open>cons_print\<close> return with the lock held, and nothing is ever printed again.\<close>

lemma cons_print_keeps_lock:
  assumes "tp_saved_len tp = 0" "\<not> output_lock con"
  shows "\<exists>con'. cons_print ([27, 91, 50] @ 50 # beyond) 3 tp con = Inr (3, tp, con') \<and> (\<forall>mem n tp'. cons_print mem n tp' con' = Inl NoReturn)"
  using assms by (simp add: cons_print_def cons_loop.simps print_simps)

text \<open>A sequence that is not known takes two bytes too many from the size: of five bytes only the first three are used, but all are reported.\<close>

lemma cons_print_drops:
  assumes "tp_saved_len tp = 0" "displays con (g, 0, 0)" "\<not> output_lock con"
  shows "\<exists>con'. cons_print ([27, 91, 65, 120, 121] @ beyond) 5 tp con = Inr (5, tp, con') \<and> con_x con' = 2 \<and> con_y con' = 0"
  using assms by (simp add: cons_print_def cons_loop.simps print_simps displays_def)

text \<open>At the end of the buffer the size wraps around instead, and the memory behind the buffer is printed.\<close>

lemma cons_print_runs_on:
  assumes "tp_saved_len tp = 0" "displays con (g, 0, 0)" "\<not> output_lock con"
  shows "cons_print ([27, 91] @ [65]) 2 tp con = Inl BadPointer"
  using assms by (simp add: cons_print_def cons_loop.simps print_simps displays_def)

text \<open>The first bytes of a character are kept for the next call, but reported as not printed.\<close>

lemma cons_print_keeps_bytes:
  assumes "tp_saved_len tp = 0" "length (tp_saved tp) = 4" "\<not> output_lock con"
  shows "\<exists>tp' con'. cons_print ([0xC3] @ beyond) 1 tp con = Inr (0, tp', con') \<and> tp_saved_len tp' = 1 \<and> take 1 (tp_saved tp') = [0xC3]"
  using assms by (simp add: cons_print_def cons_loop.simps print_simps)

text \<open>A number of ten digits in a sequence overruns an array on the stack of the service.\<close>

lemma strtol_ten_digits: "strtol [49, 49, 49, 49, 49, 49, 49, 49, 49, 49, 72] 10 = Inl OutOfBounds"
  by code_simp

lemma cons_print_overruns:
  assumes "tp_saved_len tp = 0" "\<not> output_lock con"
  shows "cons_print ([27, 91] @ [49, 49, 49, 49, 49, 49, 49, 49, 49, 49, 72] @ beyond) 13 tp con = Inl OutOfBounds"
  using assms by (simp add: cons_print_def cons_loop.simps print_simps strtol_ten_digits)

end
