(* ===== verification/Elf.thy ===== *)
theory Elf
  imports Vmem CString
begin

text \<open>
  The program loader (\<open>src/kernel/common/tasking/load.c\<close>). The image is the list of its bytes; what the
  code reads behind its end is \<open>OutOfBounds\<close>. The frames of the paging model are looked at byte by byte,
  and the kernel window through which a frame is filled is part of the state, because the loader does not
  always give it back.
\<close>

section \<open>Bytes of frames and of address spaces\<close>

definition frame_byte :: "vm \<Rightarrow> u32 \<Rightarrow> nat \<Rightarrow> u8" where
  "frame_byte v a k = word_byte (vm_frame v a ! (k div 4)) (k mod 4)"

definition frame_write :: "vm \<Rightarrow> u32 \<Rightarrow> nat \<Rightarrow> u8 list \<Rightarrow> vm" where
  "frame_write v a ofs bs =
     v\<lparr>vm_frame := (vm_frame v)(a := map (\<lambda>i. bytes_word (\<lambda>j.
        if ofs \<le> 4 * i + j \<and> 4 * i + j < ofs + length bs then bs ! (4 * i + j - ofs)
        else frame_byte v a (4 * i + j))) [0..<1024])\<rparr>"

text \<open>The byte at an address of a user address space.\<close>

definition user_byte :: "vm \<Rightarrow> vmm_context \<Rightarrow> u32 \<Rightarrow> u8 option" where
  "user_byte v c addr =
     (let e = entry v c (vpn addr) in
      if present e then Some (frame_byte v (frame_of e) (unat (addr AND 0xFFF))) else None)"

section \<open>The image\<close>

record elf_ehdr =
  e_type :: u16
  e_machine :: u16
  e_entry :: u32
  e_phoff :: u32
  e_phnum :: u16

record elf_phdr =
  p_type :: u32
  p_offset :: u32
  p_vaddr :: u32
  p_filesz :: u32
  p_memsz :: u32

definition le16 :: "u8 list \<Rightarrow> nat \<Rightarrow> u16" where
  "le16 b i = ucast (b ! i) OR push_bit 8 (ucast (b ! (i + 1)))"

definition le32 :: "u8 list \<Rightarrow> nat \<Rightarrow> u32" where
  "le32 b i = bytes_word (\<lambda>j. b ! (i + j))"

definition read_ehdr :: "u8 list \<Rightarrow> elf_ehdr" where
  "read_ehdr b = \<lparr>e_type = le16 b 16, e_machine = le16 b 18, e_entry = le32 b 24, e_phoff = le32 b 28, e_phnum = le16 b 44\<rparr>"

definition read_phdr :: "u8 list \<Rightarrow> nat \<Rightarrow> elf_phdr" where
  "read_phdr b i = \<lparr>p_type = le32 b i, p_offset = le32 b (i + 4), p_vaddr = le32 b (i + 8), p_filesz = le32 b (i + 16),
                    p_memsz = le32 b (i + 20)\<rparr>"

definition PT_LOAD :: u32 where "PT_LOAD = 1"
definition ET_EXEC :: u16 where "ET_EXEC = 2"
definition EM_386 :: u16 where "EM_386 = 3"

definition check_process_file_image :: "u8 list \<Rightarrow> bool outcome" where
  "check_process_file_image img =
     (if length img < 52 then Inl OutOfBounds
      else Inr (img ! 0 = 0x7F \<and> img ! 1 = 0x45 \<and> img ! 2 = 0x4C \<and> img ! 3 = 0x46 \<and>
                img ! 4 = 1 \<and> img ! 6 = 1 \<and> img ! 5 = 1 \<and>
                e_type (read_ehdr img) = ET_EXEC \<and> e_machine (read_ehdr img) = EM_386))"

section \<open>Loading\<close>

type_synonym load_state = "vm \<times> kpt \<times> vmm_context"

text \<open>The loop over the pages of a segment: \<open>va\<close> is the address of the next byte, from whose low bits
  \<open>block_ofs\<close> comes, and \<open>source\<close> the position in the image.\<close>

function load_pages :: "u8 list \<Rightarrow> nat \<Rightarrow> u32 \<Rightarrow> nat \<Rightarrow> nat \<Rightarrow> load_state \<Rightarrow> load_state outcome" where
  "load_pages img source va rem_msz rem_fsz s =
     (if rem_msz = 0 then Inr s
      else
        let (v, k, c) = s;
            ofs = unat (va AND 0xFFF);
            base = va AND NOT 0xFFF;
            block_length = min (4096 - ofs) rem_msz;
            file_length = min block_length rem_fsz
        in
        rbind (vm_alloc v) (\<lambda>(ppf, v1).
        rbind (kernel_map k (ppf + of_nat ofs) (of_nat block_length)) (\<lambda>(vpf, k1).
          if vpf = 0 then Inl BadPointer
          else
            let v2 = frame_write v1 ppf ofs (replicate block_length 0) in
            if 0 < file_length \<and> length img < source + file_length then Inl OutOfBounds
            else
              let v3 = frame_write v2 ppf ofs (take file_length (drop source img)) in
              rbind (kernel_unmap k1 vpf (of_nat file_length)) (\<lambda>(_, k2).
              rbind (vmmc_map_user_page v3 c base ppf (VMM_UR OR VMM_UW OR VMM_UX)) (\<lambda>(v4, c1).
                load_pages img (source + file_length) (base + 4096) (rem_msz - block_length) (rem_fsz - file_length)
                  (v4, k2, c1))))))"
  by pat_completeness auto
termination
proof (relation "measure (\<lambda>(img, source, va, rem_msz, rem_fsz, s). rem_msz)", goal_cases)
  case (2 img source va rem_msz rem_fsz s)
  have "unat (va AND 0xFFF) < 4096"
    using word_and_le1 [of va "0xFFF"] by (simp add: word_le_nat_alt)
  then show ?case using 2 by simp
qed simp

declare load_pages.simps [simp del]

fun load_segments :: "u8 list \<Rightarrow> elf_phdr list \<Rightarrow> u32 \<Rightarrow> load_state \<Rightarrow> (u32 \<times> load_state) outcome" where
  "load_segments img [] image_end s = Inr (image_end, s)"
| "load_segments img (ph # phs) image_end s =
     (if p_type ph \<noteq> PT_LOAD then load_segments img phs image_end s
      else
        let image_end = (if p_vaddr ph + p_memsz ph > image_end then p_vaddr ph + p_memsz ph else image_end);
            rem_msz = unat (p_memsz ph);
            rem_fsz = min (unat (p_filesz ph)) rem_msz
        in rbind (load_pages img (unat (p_offset ph)) (p_vaddr ph) rem_msz rem_fsz s) (\<lambda>s.
             load_segments img phs image_end s))"

definition read_phdrs :: "u8 list \<Rightarrow> elf_phdr list" where
  "read_phdrs img =
     (let h = read_ehdr img in map (\<lambda>i. read_phdr img (unat (e_phoff h) + 32 * i)) [0..<unat (e_phnum h)])"

text \<open>\<open>load_image_to_process\<close>: \<open>None\<close> for the result false, otherwise the start of the heap, the entry point and
  the state.\<close>

definition load_image_to_process :: "u8 list \<Rightarrow> load_state \<Rightarrow> (u32 \<times> u32 \<times> load_state) option outcome" where
  "load_image_to_process img s =
     rbind (check_process_file_image img) (\<lambda>ok.
       if \<not> ok then Inr None
       else
         let h = read_ehdr img in
         if 0 < unat (e_phnum h) \<and> length img < unat (e_phoff h) + 32 * unat (e_phnum h) then Inl OutOfBounds
         else rbind (load_segments img (read_phdrs img) 0 s) (\<lambda>(image_end, s).
                Inr (Some (image_end, e_entry h, s))))"

section \<open>Bytes and frames\<close>

lemma frame_write_simps [simp]:
  "vm_pmm (frame_write v a ofs bs) = vm_pmm v"
  "b \<noteq> a \<Longrightarrow> vm_frame (frame_write v a ofs bs) b = vm_frame v b"
  "length (vm_frame (frame_write v a ofs bs) a) = 1024"
  by (simp_all add: frame_write_def)

lemma frame_byte_write:
  assumes "k < 4096"
  shows "frame_byte (frame_write v a ofs bs) b k =
    (if b = a \<and> ofs \<le> k \<and> k < ofs + length bs then bs ! (k - ofs) else frame_byte v b k)"
proof (cases "b = a")
  case True
  have w: "vm_frame (frame_write v a ofs bs) a ! i = bytes_word (\<lambda>j.
      if ofs \<le> 4 * i + j \<and> 4 * i + j < ofs + length bs then bs ! (4 * i + j - ofs) else frame_byte v a (4 * i + j))"
    if "i < 1024" for i using that by (simp add: frame_write_def cong del: if_weak_cong)
  have "k div 4 < 1024" using assms by (simp add: div_less_iff_less_mult)
  then show ?thesis
    unfolding frame_byte_def [of "frame_write v a ofs bs"] True by (simp add: w word_byte_word)
next
  case False
  then show ?thesis by (simp add: frame_byte_def)
qed

text \<open>A page whose frame is in use and is not one of the page tables.\<close>

definition page_ok :: "vm \<Rightarrow> vmm_context \<Rightarrow> nat \<Rightarrow> bool" where
  "page_ok v c n \<longleftrightarrow> present (entry v c n) \<and> 0 < pmm_users (vm_pmm v) (frame_of (entry v c n)) \<and>
     \<not> is_table c (frame_of (entry v c n))"

text \<open>All pages but those in \<open>S\<close> keep their entries and their contents.\<close>

definition keeps :: "nat set \<Rightarrow> vm \<Rightarrow> vmm_context \<Rightarrow> vm \<Rightarrow> vmm_context \<Rightarrow> bool" where
  "keeps S v c v' c' \<longleftrightarrow> (\<forall>n < USER_PAGES. n \<notin> S \<longrightarrow> entry v' c' n = entry v c n \<and>
     (page_ok v c n \<longrightarrow> page_ok v' c' n \<and> vm_frame v' (frame_of (entry v c n)) = vm_frame v (frame_of (entry v c n))))"

lemma keeps_refl: "keeps S v c v c"
  by (simp add: keeps_def)

lemma keeps_trans:
  assumes "keeps S v c v1 c1" "keeps T v1 c1 v2 c2"
  shows "keeps (S \<union> T) v c v2 c2"
  unfolding keeps_def
proof (intro allI impI)
  fix n
  assume "n < USER_PAGES" "n \<notin> S \<union> T"
  then have "entry v1 c1 n = entry v c n" "entry v2 c2 n = entry v1 c1 n"
    "page_ok v c n \<Longrightarrow> page_ok v1 c1 n \<and> vm_frame v1 (frame_of (entry v c n)) = vm_frame v (frame_of (entry v c n))"
    "page_ok v1 c1 n \<Longrightarrow> page_ok v2 c2 n \<and> vm_frame v2 (frame_of (entry v1 c1 n)) = vm_frame v1 (frame_of (entry v1 c1 n))"
    using assms by (auto simp: keeps_def)
  then show "entry v2 c2 n = entry v c n \<and> (page_ok v c n \<longrightarrow> page_ok v2 c2 n \<and>
      vm_frame v2 (frame_of (entry v c n)) = vm_frame v (frame_of (entry v c n)))" by metis
qed

lemma keeps_byte:
  assumes "keeps S v c v' c'" "vpn a < USER_PAGES" "vpn a \<notin> S" "page_ok v c (vpn a)"
  shows "user_byte v' c' a = user_byte v c a" "page_ok v' c' (vpn a)"
  using assms by (auto simp: keeps_def user_byte_def frame_byte_def Let_def)

lemma load_page_step:
  assumes inv: "ctx_inv v c" and al: "vm_alloc v = Inr (ppf, v1)" and user: "\<not> IS_KERNEL base"
    and v3: "vm_pmm v3 = vm_pmm v1" "\<And>b. b \<noteq> ppf \<Longrightarrow> vm_frame v3 b = vm_frame v1 b" "length (vm_frame v3 ppf) = 1024"
    and map: "vmmc_map_user_page v3 c base ppf fl = Inr (v4, c1)"
  shows "ctx_inv v4 c1" "keeps {vpn base} v c v4 c1" "entry v4 c1 (vpn base) = user_pte ppf fl"
    "page_ok v4 c1 (vpn base)" "vm_frame v4 ppf = vm_frame v3 ppf" "page_aligned ppf"
proof -
  note a = vm_alloc_Inr [OF ctx_inv_vm [OF inv] al]
  have users: "pmm_users (vm_pmm v3) = (pmm_users (vm_pmm v))(ppf := 1)" using a(5) v3(1) by simp
  have nt: "\<not> is_table c ppf" using ctx_inv_used [OF inv] a(2) by force
  have vi: "vm_inv v3" using a(1) v3 unfolding vm_inv_def by metis
  have inv3: "ctx_inv v3 c"
    by (rule ctx_inv_change [OF inv vi]) (use ctx_inv_used [OF inv] users in auto)
  note m = vmmc_map_user_page_Inr [OF inv3 user map]
  have eq3: "entry v3 c n = entry v c n" if "n < USER_PAGES" for n
    by (rule entry_cong [OF _ that]) (use nt v3(2) a(4) in metis)
  have base: "vpn base < USER_PAGES" using user by (simp add: user_pages(1))
  show "ctx_inv v4 c1" by (rule m(1))
  show e: "entry v4 c1 (vpn base) = user_pte ppf fl" using m(3) [OF base] by simp
  show al: "page_aligned ppf" by (rule a(3))
  have p: "pmm_users (vm_pmm v4) ppf = 1" "\<not> is_table c1 ppf" "vm_frame v4 ppf = vm_frame v3 ppf"
    using m(2) users nt unfolding map_frame_def by auto
  show "vm_frame v4 ppf = vm_frame v3 ppf" by (rule p(3))
  show "page_ok v4 c1 (vpn base)" using e p al by (simp add: page_ok_def)
  show "keeps {vpn base} v c v4 c1"
    unfolding keeps_def
  proof (intro allI impI conjI)
    fix n
    assume n: "n < USER_PAGES" "n \<notin> {vpn base}"
    show en: "entry v4 c1 n = entry v c n" using m(3) [OF n(1)] eq3 [OF n(1)] n(2) by simp
    let ?f = "frame_of (entry v c n)"
    assume ok: "page_ok v c n"
    then have f: "0 < pmm_users (vm_pmm v) ?f" "\<not> is_table c ?f" "?f \<noteq> ppf" using a(2) by (auto simp: page_ok_def)
    then have u3: "pmm_users (vm_pmm v3) ?f = pmm_users (vm_pmm v) ?f" using users by simp
    have 4: "pmm_users (vm_pmm v4) ?f = pmm_users (vm_pmm v) ?f" "\<not> is_table c1 ?f" "vm_frame v4 ?f = vm_frame v3 ?f"
      using m(2) f u3 unfolding map_frame_def by metis+
    show "page_ok v4 c1 n" using ok en 4 f by (simp add: page_ok_def)
    show "vm_frame v4 ?f = vm_frame v ?f" using 4(3) f(3) v3(2) a(4) by metis
  qed
qed

section \<open>Segments\<close>

lemma page_arith:
  fixes va :: u32
  assumes "unat va + i < 4026531840"
  shows "unat (va + of_nat i) = unat va + i" "vpn (va + of_nat i) = (unat va + i) div 4096"
    "unat ((va + of_nat i) AND 0xFFF) = (unat va + i) mod 4096" "\<not> IS_KERNEL (va + of_nat i)"
proof -
  show u: "unat (va + of_nat i) = unat va + i" by (rule unat_plus_of_nat) (use assms in simp)
  show "vpn (va + of_nat i) = (unat va + i) div 4096" by (simp add: vpn_def unat_drop_bit u)
  show "unat ((va + of_nat i) AND 0xFFF) = (unat va + i) mod 4096"
    using unat_and_mask [of "va + of_nat i" 12] by (simp add: mask_eq_exp_minus_1 u)
  show "\<not> IS_KERNEL (va + of_nat i)" using assms by (simp add: IS_KERNEL_def PHYS_BASE_def word_le_nat_alt u)
qed

definition seg_pages :: "u32 \<Rightarrow> nat \<Rightarrow> nat set" where
  "seg_pages va m = (\<lambda>i. (unat va + i) div 4096) ` {..<m}"

text \<open>What is in memory after a segment has been loaded.\<close>

definition seg_loaded :: "u8 list \<Rightarrow> nat \<Rightarrow> u32 \<Rightarrow> nat \<Rightarrow> nat \<Rightarrow> vm \<Rightarrow> vmm_context \<Rightarrow> bool" where
  "seg_loaded img source va m f v c \<longleftrightarrow>
     (\<forall>i < m. user_byte v c (va + of_nat i) = Some (if i < f then img ! (source + i) else 0) \<and>
              page_ok v c (vpn (va + of_nat i)))"

lemma seg_loaded_keeps:
  assumes "seg_loaded img source va m f v c" "keeps S v c v' c'" "S \<inter> seg_pages va m = {}"
    and "unat va + m \<le> 4026531840"
  shows "seg_loaded img source va m f v' c'"
  unfolding seg_loaded_def
proof (intro allI impI)
  fix i
  assume i: "i < m"
  then have p: "vpn (va + of_nat i) = (unat va + i) div 4096" "\<not> IS_KERNEL (va + of_nat i)"
    using assms(4) by (simp_all add: page_arith)
  then have "vpn (va + of_nat i) \<notin> S" using assms(3) i by (auto simp: seg_pages_def)
  moreover have "vpn (va + of_nat i) < USER_PAGES" using p(2) by (simp add: user_pages(1))
  moreover have "user_byte v c (va + of_nat i) = Some (if i < f then img ! (source + i) else 0)" "page_ok v c (vpn (va + of_nat i))"
    using assms(1) i by (simp_all add: seg_loaded_def)
  ultimately show "user_byte v' c' (va + of_nat i) = Some (if i < f then img ! (source + i) else 0) \<and>
      page_ok v' c' (vpn (va + of_nat i))"
    using keeps_byte [OF assms(2)] by metis
qed

lemma first_page_loaded:
  fixes va :: u32
  defines "ofs \<equiv> unat va mod 4096"
  assumes e: "entry v c (unat va div 4096) = user_pte ppf fl" "page_ok v c (unat va div 4096)" "page_aligned ppf"
    and f: "vm_frame v ppf = vm_frame (frame_write (frame_write v1 ppf ofs (replicate bl 0)) ppf ofs (take fl' (drop source img))) ppf"
    and len: "bl \<le> 4096 - ofs" "fl' \<le> bl" "fl' = 0 \<or> source + fl' \<le> length img" "unat va + bl \<le> 4026531840"
  shows "seg_loaded img source va bl fl' v c"
  unfolding seg_loaded_def
proof (intro allI impI)
  fix i
  assume i: "i < bl"
  have ofs: "ofs < 4096" "unat va = unat va div 4096 * 4096 + ofs" by (simp_all add: ofs_def)
  have k: "ofs + i < 4096" using i len(1) ofs(1) by linarith
  have a: "unat va + i = unat va div 4096 * 4096 + (ofs + i)" using ofs(2) by simp
  have dm: "(unat va + i) div 4096 = unat va div 4096" "(unat va + i) mod 4096 = ofs + i"
    using k unfolding a by (simp_all add: div_mult1_eq)
  have p: "vpn (va + of_nat i) = unat va div 4096" "unat ((va + of_nat i) AND 0xFFF) = ofs + i"
    using page_arith [of va i] i len(4) dm by simp_all
  have "frame_byte v ppf (ofs + i) = frame_byte (frame_write (frame_write v1 ppf ofs (replicate bl 0)) ppf ofs (take fl' (drop source img))) ppf (ofs + i)"
    by (simp add: frame_byte_def f)
  also have "\<dots> = (if i < fl' then img ! (source + i) else 0)"
    using k i len(2,3) by (auto simp: frame_byte_write)
  finally have "frame_byte v ppf (ofs + i) = (if i < fl' then img ! (source + i) else 0)" .
  then show "user_byte v c (va + of_nat i) = Some (if i < fl' then img ! (source + i) else 0) \<and> page_ok v c (vpn (va + of_nat i))"
    using e p by (simp add: user_byte_def)
qed

lemma load_pages_unfold:
  assumes "load_pages img source va m f (v, k, c) = Inr s'" "m \<noteq> 0"
  defines "ofs \<equiv> unat va mod 4096"
  defines "bl \<equiv> min (4096 - ofs) m"
  defines "fl \<equiv> min bl f"
  obtains ppf v1 v3 k2 v4 c1 where "vm_alloc v = Inr (ppf, v1)"
    "v3 = frame_write (frame_write v1 ppf ofs (replicate bl 0)) ppf ofs (take fl (drop source img))"
    "fl = 0 \<or> source + fl \<le> length img"
    "vmmc_map_user_page v3 c (va AND NOT 0xFFF) ppf (VMM_UR OR VMM_UW OR VMM_UX) = Inr (v4, c1)"
    "load_pages img (source + fl) ((va AND NOT 0xFFF) + 4096) (m - bl) (f - fl) (v4, k2, c1) = Inr s'"
  using assms(1,2)
  unfolding load_pages.simps [of img source va m f] unat_low12 ofs_def [symmetric] Let_def prod.case
    bl_def [symmetric] fl_def [symmetric]
  by (auto simp: outcome_simps split: if_splits)

lemma seg_pages_step:
  fixes va :: u32
  assumes "m \<noteq> 0" "unat va + m \<le> 4026531840"
  defines "bl \<equiv> min (4096 - unat va mod 4096) m"
  shows "seg_pages va m = {unat va div 4096} \<union> seg_pages ((va AND NOT 0xFFF) + 4096) (m - bl)"
    and "bl < m \<Longrightarrow> (va AND NOT 0xFFF) + 4096 = va + of_nat bl"
    and "bl < m \<Longrightarrow> unat ((va AND NOT 0xFFF) + 4096) = unat va + bl"
    and "unat va div 4096 \<notin> seg_pages ((va AND NOT 0xFFF) + 4096) (m - bl)"
proof -
  define q ofs where "q = unat va div 4096" and "ofs = unat va mod 4096"
  have va: "unat va = q * 4096 + ofs" "ofs < 4096" by (simp_all add: q_def ofs_def)
  have b: "unat (va AND NOT 0xFFF) = q * 4096" unfolding q_def by (rule unat_page_base)
  have next_page: "unat ((va AND NOT 0xFFF) + 4096) = q * 4096 + 4096"
    using b va assms(2) by (subst unat_add_nowrap) simp_all
  have bl: "bl = 4096 - ofs" if "bl < m" using that by (auto simp: bl_def ofs_def)
  show 3: "unat ((va AND NOT 0xFFF) + 4096) = unat va + bl" if "bl < m"
    using next_page bl [OF that] va by simp
  then show "(va AND NOT 0xFFF) + 4096 = va + of_nat bl" if "bl < m"
    using that assms(2) unat_plus_of_nat [of va bl] by (simp add: word_unat_eq_iff)
  have "seg_pages ((va AND NOT 0xFFF) + 4096) (m - bl) = (\<lambda>i. (unat va + i) div 4096) ` {bl..<m}"
  proof (cases "bl < m")
    case True
    have "(\<lambda>i. (unat va + i) div 4096) ` {bl..<m} = (\<lambda>i. (unat va + i) div 4096) ` ((+) bl ` {..<m - bl})"
      using True by (simp add: image_add_atLeastLessThan lessThan_atLeast0)
    then show ?thesis unfolding seg_pages_def 3 [OF True] by (simp add: image_image add.assoc)
  qed (simp add: seg_pages_def)
  then have later: "seg_pages ((va AND NOT 0xFFF) + 4096) (m - bl) = (\<lambda>i. (unat va + i) div 4096) ` {bl..<m}" .
  have first: "(unat va + i) div 4096 = q" if "i < bl" for i
  proof -
    have "ofs + i < 4096" using that by (simp add: bl_def ofs_def less_diff_conv add.commute)
    then show ?thesis unfolding va(1) by (simp add: add.assoc div_mult1_eq)
  qed
  have "0 < bl" using assms(1) by (simp add: bl_def)
  have "{..<m} = {..<bl} \<union> {bl..<m}" using \<open>0 < bl\<close> by (auto simp: bl_def)
  then have "seg_pages va m = (\<lambda>i. (unat va + i) div 4096) ` {..<bl} \<union> (\<lambda>i. (unat va + i) div 4096) ` {bl..<m}"
    unfolding seg_pages_def by (simp add: image_Un)
  moreover have "(\<lambda>i. (unat va + i) div 4096) ` {..<bl} = {q}" using first \<open>0 < bl\<close> by force
  ultimately show "seg_pages va m = {unat va div 4096} \<union> seg_pages ((va AND NOT 0xFFF) + 4096) (m - bl)"
    using later by (simp add: q_def)
  have "q + 1 \<le> (unat va + i) div 4096" if "bl \<le> i" "i < m" for i
  proof -
    have "q * 4096 + 4096 \<le> unat va + i" using bl that va by linarith
    then have "(q * 4096 + 4096) div 4096 \<le> (unat va + i) div 4096" by (rule div_le_mono)
    then show ?thesis by simp
  qed
  then show "unat va div 4096 \<notin> seg_pages ((va AND NOT 0xFFF) + 4096) (m - bl)"
    unfolding later q_def [symmetric] by force
qed

lemma seg_loaded_join:
  assumes "seg_loaded img source va n f1 v c" "seg_loaded img (source + f1) (va + of_nat n) m' f2 v c"
    and "f1 = min n f" "f2 = f - f1"
  shows "seg_loaded img source va (n + m') f v c"
  unfolding seg_loaded_def
proof (intro allI impI)
  fix i
  assume i: "i < n + m'"
  show "user_byte v c (va + of_nat i) = Some (if i < f then img ! (source + i) else 0) \<and> page_ok v c (vpn (va + of_nat i))"
  proof (cases "i < n")
    case True
    then show ?thesis using assms(1,3) by (auto simp: seg_loaded_def)
  next
    case False
    define j where "j = i - n"
    have j: "j < m'" "i = n + j" using i False by (simp_all add: j_def)
    have "va + of_nat n + of_nat j = va + of_nat i" by (simp add: j(2) add.assoc)
    moreover have "(if j < f2 then img ! (source + f1 + j) else 0) = (if i < f then img ! (source + i) else 0)"
      using assms(3,4) j(2) by (auto simp: min_def add.assoc)
    moreover have "user_byte v c (va + of_nat n + of_nat j) = Some (if j < f2 then img ! (source + f1 + j) else 0) \<and>
        page_ok v c (vpn (va + of_nat n + of_nat j))"
      using assms(2) j(1) unfolding seg_loaded_def by blast
    ultimately show ?thesis by (simp only:)
  qed
qed

lemma load_pages_spec:
  assumes "load_pages img source va m f (v, k, c) = Inr s'" "ctx_inv v c" "unat va + m \<le> 4026531840"
  shows "\<exists>v' k' c'. s' = (v', k', c') \<and> ctx_inv v' c' \<and> keeps (seg_pages va m) v c v' c' \<and>
    seg_loaded img source va m (min m f) v' c'"
  using assms
proof (induction m arbitrary: source va f v k c rule: less_induct)
  case (less m)
  show ?case
  proof (cases "m = 0")
    case True
    then show ?thesis using less.prems by (auto simp: load_pages.simps seg_loaded_def keeps_refl)
  next
    case False
    define ofs where "ofs = unat va mod 4096"
    define bl where "bl = min (4096 - ofs) m"
    define fl where "fl = min bl f"
    let ?base = "va AND NOT 0xFFF"
    from load_pages_unfold [OF less.prems(1) False, folded ofs_def, folded bl_def, folded fl_def]
    obtain ppf v1 v3 k2 v4 c1 where al: "vm_alloc v = Inr (ppf, v1)"
      and v3: "v3 = frame_write (frame_write v1 ppf ofs (replicate bl 0)) ppf ofs (take fl (drop source img))"
      and fl: "fl = 0 \<or> source + fl \<le> length img"
      and mp: "vmmc_map_user_page v3 c ?base ppf (VMM_UR OR VMM_UW OR VMM_UX) = Inr (v4, c1)"
      and rec: "load_pages img (source + fl) (?base + 4096) (m - bl) (f - fl) (v4, k2, c1) = Inr s'"
      by metis
    note st = seg_pages_step [OF False less.prems(3), folded ofs_def, folded bl_def]
    have vb: "vpn ?base = unat va div 4096" by (simp only: vpn_def unat_drop_bit unat_page_base) simp
    have "unat ?base \<le> unat va" unfolding unat_page_base by simp
    then have user: "\<not> IS_KERNEL ?base"
      using less.prems(3) False by (simp add: IS_KERNEL_def PHYS_BASE_def word_le_nat_alt)
    have p: "ctx_inv v4 c1" "keeps {unat va div 4096} v c v4 c1" "entry v4 c1 (unat va div 4096) = user_pte ppf (VMM_UR OR VMM_UW OR VMM_UX)"
      "page_ok v4 c1 (unat va div 4096)" "vm_frame v4 ppf = vm_frame v3 ppf" "page_aligned ppf"
      using load_page_step [OF less.prems(2) al user _ _ _ mp] unfolding vb v3 by simp_all
    have bl: "0 < bl" "bl \<le> m" "fl = min bl f" using False by (simp_all add: bl_def ofs_def fl_def)
    have first: "seg_loaded img source va bl fl v4 c1"
    proof (rule first_page_loaded [OF p(3,4,6)])
      show "vm_frame v4 ppf = vm_frame (frame_write (frame_write v1 ppf (unat va mod 4096) (replicate bl 0)) ppf
          (unat va mod 4096) (take fl (drop source img))) ppf" using p(5) unfolding v3 ofs_def .
      show "bl \<le> 4096 - unat va mod 4096" by (simp add: bl_def ofs_def)
      show "unat va + bl \<le> 4026531840" using less.prems(3) bl(2) by simp
    qed (use fl bl(3) in auto)
    show ?thesis
    proof (cases "bl < m")
      case True
      have "unat (?base + 4096) + (m - bl) \<le> 4026531840" using st(3) [OF True] less.prems(3) bl(2) by simp
      with less.IH [OF _ rec p(1)] bl obtain v' k' c' where r: "s' = (v', k', c')" "ctx_inv v' c'"
        "keeps (seg_pages (?base + 4096) (m - bl)) v4 c1 v' c'"
        "seg_loaded img (source + fl) (?base + 4096) (m - bl) (min (m - bl) (f - fl)) v' c'"
        by auto
      have "seg_loaded img source va bl fl v' c'"
      proof (rule seg_loaded_keeps [OF first r(3)])
        have "seg_pages va bl \<subseteq> {unat va div 4096}"
          using seg_pages_step(1) [of bl va] bl less.prems(3) by (auto simp: seg_pages_def bl_def ofs_def)
        then show "seg_pages (?base + 4096) (m - bl) \<inter> seg_pages va bl = {}" using st(4) by blast
      qed (use bl less.prems(3) in simp)
      then have "seg_loaded img source va (bl + (m - bl)) (min m f) v' c'"
      proof (rule seg_loaded_join)
        have "min (m - bl) (f - fl) = min m f - fl" using bl by (auto simp: min_def)
        then show "seg_loaded img (source + fl) (va + of_nat bl) (m - bl) (min m f - fl) v' c'"
          using r(4) unfolding st(2) [OF True] by simp
      qed (use bl in auto)
      moreover have "keeps (seg_pages va m) v c v' c'" unfolding st(1) by (rule keeps_trans [OF p(2) r(3)])
      ultimately show ?thesis using r(1,2) bl(2) by auto
    next
      case F: False
      then have "s' = (v4, k2, c1)" "bl = m" using rec bl by (auto simp: load_pages.simps)
      moreover have "keeps (seg_pages va m) v c v4 c1"
        using p(2) F unfolding st(1) by (simp add: seg_pages_def)
      ultimately show ?thesis using p(1) first bl(3) by auto
    qed
  qed
qed

section \<open>Images\<close>

text \<open>The segments of an image that are loaded, and the condition that they lie in the user part of the
  address space and have no page in common.\<close>

definition loadable :: "elf_phdr list \<Rightarrow> elf_phdr list" where
  "loadable phs = filter (\<lambda>ph. p_type ph = PT_LOAD) phs"

definition ph_pages :: "elf_phdr \<Rightarrow> nat set" where
  "ph_pages ph = seg_pages (p_vaddr ph) (unat (p_memsz ph))"

fun segments_apart :: "elf_phdr list \<Rightarrow> bool" where
  "segments_apart [] \<longleftrightarrow> True"
| "segments_apart (ph # phs) \<longleftrightarrow> unat (p_vaddr ph) + unat (p_memsz ph) \<le> 4026531840 \<and>
     (\<forall>q \<in> set phs. ph_pages ph \<inter> ph_pages q = {}) \<and> segments_apart phs"

definition ph_loaded :: "u8 list \<Rightarrow> vm \<Rightarrow> vmm_context \<Rightarrow> elf_phdr \<Rightarrow> bool" where
  "ph_loaded img v c ph \<longleftrightarrow>
     (\<forall>i < unat (p_memsz ph). user_byte v c (p_vaddr ph + of_nat i) =
        Some (if i < unat (p_filesz ph) then img ! (unat (p_offset ph) + i) else 0))"

text \<open>The end of the image: the largest end of a segment.\<close>

definition image_end :: "elf_phdr list \<Rightarrow> u32" where
  "image_end phs = fold (\<lambda>ph e. max e (p_vaddr ph + p_memsz ph)) (loadable phs) 0"

lemma ph_seg_loaded:
  "seg_loaded img (unat (p_offset ph)) (p_vaddr ph) (unat (p_memsz ph)) (min (unat (p_memsz ph)) (unat (p_filesz ph))) v c
   \<Longrightarrow> ph_loaded img v c ph"
  by (simp add: seg_loaded_def ph_loaded_def)

lemma max_if: "(if e < a then a else e) = max e (a :: u32)"
  by (auto simp: max_def dest: less_imp_le)

lemma load_segments_spec:
  assumes "load_segments img phs e (v, k, c) = Inr (e', s')" "ctx_inv v c" "segments_apart (loadable phs)"
  shows "\<exists>v' k' c'. s' = (v', k', c') \<and> ctx_inv v' c' \<and> keeps (\<Union>ph \<in> set (loadable phs). ph_pages ph) v c v' c' \<and>
    list_all (ph_loaded img v' c') (loadable phs) \<and>
    e' = fold (\<lambda>ph e. max e (p_vaddr ph + p_memsz ph)) (loadable phs) e"
  using assms
proof (induction phs arbitrary: e v k c)
  case Nil
  then show ?case by (auto simp: loadable_def keeps_refl)
next
  case (Cons ph phs)
  show ?case
  proof (cases "p_type ph = PT_LOAD")
    case False
    then show ?thesis using Cons by (simp add: loadable_def)
  next
    case True
    let ?m = "unat (p_memsz ph)" and ?f = "min (unat (p_filesz ph)) (unat (p_memsz ph))"
    define e1 where "e1 = max e (p_vaddr ph + p_memsz ph)"
    have l: "loadable (ph # phs) = ph # loadable phs" using True by (simp add: loadable_def)
    have ap: "unat (p_vaddr ph) + ?m \<le> 4026531840" "\<forall>q \<in> set (loadable phs). ph_pages ph \<inter> ph_pages q = {}"
      "segments_apart (loadable phs)" using Cons.prems(3) unfolding l by simp_all
    obtain s1 where 1: "load_pages img (unat (p_offset ph)) (p_vaddr ph) ?m ?f (v, k, c) = Inr s1"
      and 2: "load_segments img phs e1 s1 = Inr (e', s')"
      using Cons.prems(1) True by (auto simp: outcome_simps Let_def e1_def max_if)
    obtain v1 k1 c1 where s1: "s1 = (v1, k1, c1)" "ctx_inv v1 c1" "keeps (ph_pages ph) v c v1 c1"
      and sl: "seg_loaded img (unat (p_offset ph)) (p_vaddr ph) ?m (min ?m (unat (p_filesz ph))) v1 c1"
      using load_pages_spec [OF 1 Cons.prems(2) ap(1)] by (auto simp: ph_pages_def min.commute)
    obtain v' k' c' where r: "s' = (v', k', c')" "ctx_inv v' c'"
      "keeps (\<Union>q \<in> set (loadable phs). ph_pages q) v1 c1 v' c'" "list_all (ph_loaded img v' c') (loadable phs)"
      "e' = fold (\<lambda>ph e. max e (p_vaddr ph + p_memsz ph)) (loadable phs) e1"
      using Cons.IH [OF 2 [unfolded s1(1)] s1(2) ap(3)] by blast
    have "seg_loaded img (unat (p_offset ph)) (p_vaddr ph) ?m (min ?m (unat (p_filesz ph))) v' c'"
      by (rule seg_loaded_keeps [OF sl r(3) _ ap(1)]) (use ap(2) in \<open>auto simp: ph_pages_def\<close>)
    then have "ph_loaded img v' c' ph" by (rule ph_seg_loaded)
    moreover have "keeps (\<Union>q \<in> set (ph # loadable phs). ph_pages q) v c v' c'"
      using keeps_trans [OF s1(3) r(3)] by simp
    ultimately show ?thesis using r unfolding l by (simp add: e1_def)
  qed
qed

text \<open>C16: The loader puts the program into memory. For an image whose loadable segments end below the kernel's part of
  the address space and of which no two have bytes on the same page: when the loader returns, every byte of every loaded segment is
  mapped and holds the byte of the file, or zero behind the part that the file provides; the pages of
  no other address have changed, the heap starts at the largest end of a segment, and the entry
  point is that of the file.\<close>

theorem load_image_correct:
  assumes "ctx_inv v c" "segments_apart (loadable (read_phdrs img))"
    and "load_image_to_process img (v, k, c) = Inr (Some (heap_start, start, v', k', c'))"
  shows "list_all (ph_loaded img v' c') (loadable (read_phdrs img)) \<and>
    keeps (\<Union>ph \<in> set (loadable (read_phdrs img)). ph_pages ph) v c v' c' \<and> ctx_inv v' c' \<and>
    heap_start = image_end (read_phdrs img) \<and> start = e_entry (read_ehdr img)"
proof -
  have "load_segments img (read_phdrs img) 0 (v, k, c) = Inr (heap_start, (v', k', c'))" "start = e_entry (read_ehdr img)"
    using assms(3) by (auto simp: load_image_to_process_def outcome_simps Let_def split: if_splits)
  then show ?thesis using load_segments_spec [OF _ assms(1,2)] by (fastforce simp: image_end_def)
qed

text \<open>An image with one segment: two bytes of file and three bytes of memory.\<close>

definition demo_image :: "u8 list" where
  "demo_image =
     [127, 69, 76, 70, 1, 1, 1, 0, 0, 0, 0, 0, 0, 0, 0, 0, 2, 0, 3, 0, 1, 0, 0, 0, 0, 16, 0, 0,
      52, 0, 0, 0, 0, 0, 0, 0, 0, 0, 0, 0, 52, 0, 32, 0, 1, 0, 0, 0, 0, 0, 0, 0, 1, 0, 0, 0, 84,
      0, 0, 0, 0, 16, 0, 0, 0, 0, 0, 0, 2, 0, 0, 0, 3, 0, 0, 0, 0, 0, 0, 0, 0, 0, 0, 0, 7, 8]"

lemma demo_image_parts:
  "check_process_file_image demo_image = Inr True"
  "read_ehdr demo_image = \<lparr>e_type = 2, e_machine = 3, e_entry = 0x1000, e_phoff = 52, e_phnum = 1\<rparr>"
  "read_phdr demo_image 52 = \<lparr>p_type = 1, p_offset = 84, p_vaddr = 0x1000, p_filesz = 2, p_memsz = 3\<rparr>"
  "length demo_image = 86" "demo_image ! 84 = 7" "demo_image ! 85 = 8"
  by (simp_all add: demo_image_def check_process_file_image_def read_ehdr_def read_phdr_def le16_def le32_def
      bytes_word_def ET_EXEC_def EM_386_def)

lemma demo_phdrs: "loadable (read_phdrs demo_image) = [\<lparr>p_type = 1, p_offset = 84, p_vaddr = 0x1000, p_filesz = 2, p_memsz = 3\<rparr>]"
  "read_phdrs demo_image = [\<lparr>p_type = 1, p_offset = 84, p_vaddr = 0x1000, p_filesz = 2, p_memsz = 3\<rparr>]"
  by (simp_all add: read_phdrs_def demo_image_parts loadable_def PT_LOAD_def)

lemma demo_load: "\<exists>v c. load_image_to_process demo_image (demo_vm, [], demo_ctx) = Inr (Some (0x1003, 0x1000, v, [], c))"
proof -
  let ?p1 = "demo_pmm\<lparr>bitmap := [1, 0x7f, 1, 0], look_from_here := 2\<rparr>"
  have al: "vm_alloc demo_vm = Inr (0x102000, demo_vm\<lparr>vm_pmm := ?p1\<rparr>)"
    by (simp add: vm_alloc_def demo_vm_def pmm_alloc_def demo_pmm_def pmm_alloc_from.simps frame_addr_def PAGE_SHIFT_def)
  define v3 where "v3 = frame_write (frame_write (demo_vm\<lparr>vm_pmm := ?p1\<rparr>) 0x102000 0 (replicate 3 0)) 0x102000 0 (drop 84 demo_image)"
  have inv3: "ctx_inv v3 demo_ctx"
  proof (rule ctx_inv_change [OF demo_ctx_inv])
    note ai = vm_alloc_Inr [OF ctx_inv_vm [OF demo_ctx_inv] al]
    show "vm_inv v3" using ai(1) unfolding vm_inv_def v3_def by (simp add: frame_write_def)
    show "0 < pmm_users (vm_pmm v3) a" if "is_table demo_ctx a" for a
      using that ctx_inv_used [OF demo_ctx_inv] ai(5) by (auto simp: v3_def)
  qed
  have "frame_free (vm_pmm v3) 3" by (simp add: frame_free_def demo_pmm_def v3_def)
  moreover have "\<not> IS_KERNEL 0x1000" by (simp add: IS_KERNEL_def PHYS_BASE_def)
  ultimately obtain v4 c4 where m: "vmmc_map_user_page v3 demo_ctx 0x1000 0x102000 (VMM_UR OR VMM_UW OR VMM_UX) = Inr (v4, c4)"
    using vmmc_map_user_page_ok [OF inv3] by metis
  have km: "kernel_map [] 0x102000 3 = Inr (0xF0102000, [])" "kernel_unmap [] 0xF0102000 2 = Inr (0xF0102000, [])"
    by (simp_all add: kernel_map_def kernel_unmap_def HMEM_BASE_def PHYS_BASE_def)
  have "load_pages demo_image 84 0x1000 3 2 (demo_vm, [], demo_ctx) = Inr (v4, [], c4)"
    by (subst load_pages.simps) (simp add: al km m [unfolded v3_def] demo_image_parts load_pages.simps)
  then show ?thesis
    by (simp add: load_image_to_process_def demo_image_parts demo_phdrs PT_LOAD_def)
qed

theorem load_image_correct_witness:
  "\<exists>v c. load_image_to_process demo_image (demo_vm, [], demo_ctx) = Inr (Some (0x1003, 0x1000, v, [], c)) \<and>
     user_byte v c 0x1000 = Some 7 \<and> user_byte v c 0x1001 = Some 8 \<and> user_byte v c 0x1002 = Some 0"
proof -
  obtain v c where r: "load_image_to_process demo_image (demo_vm, [], demo_ctx) = Inr (Some (0x1003, 0x1000, v, [], c))"
    using demo_load by blast
  have ap: "segments_apart (loadable (read_phdrs demo_image))" unfolding demo_phdrs(1) by simp
  have "\<forall>i < 3. user_byte v c (0x1000 + of_nat i) = Some (if i < 2 then demo_image ! (84 + i) else 0)"
    using load_image_correct [OF demo_ctx_inv ap r] unfolding demo_phdrs(1) by (simp add: ph_loaded_def)
  from this [rule_format, of 0] this [rule_format, of 1] this [rule_format, of 2]
  show ?thesis using r by (simp add: demo_image_parts)
qed

end
