(* ===== verification/Args.thy ===== *)
theory Args
  imports Elf
begin

text \<open>
  The arguments and the environment of a new program: \<open>process_set_args\<close> (\<open>kernel/common/tasking/management.c\<close>) builds
  the two pointer arrays and the strings on the user stack, page by page through the kernel window, and
  \<open>process_set_initial_params\<close> (\<open>kernel/arch/i386/tasking/management.c\<close>) puts the parameters of the entry function below
  them. The state is that of the loader in \<open>Elf\<close>; the stack pointer is the only register that is looked at.
\<close>

section \<open>Definitions\<close>

text \<open>\<open>kassert_exec(vmmc_address_mapped(...))\<close>: the physical address.\<close>

definition checked_address :: "vm \<Rightarrow> vmm_context \<Rightarrow> u32 \<Rightarrow> u32 outcome" where
  "checked_address v c virt = rbind (vmmc_address_mapped v c virt) (\<lambda>(flags, paddr).
     if flags = 0 then Inl Panic else case paddr of None \<Rightarrow> Inl Panic | Some a \<Rightarrow> Inr a)"

text \<open>The addresses that \<open>for (page = first; page < end; page += PAGE_SIZE)\<close> takes; both ends are aligned.\<close>

definition page_range :: "u32 \<Rightarrow> u32 \<Rightarrow> u32 list" where
  "page_range first end_p = map (\<lambda>i. first + 4096 * of_nat i) [0..<(unat end_p - unat first) div 4096]"

definition lazy_map_page :: "load_state \<Rightarrow> u32 \<Rightarrow> load_state outcome" where
  "lazy_map_page = (\<lambda>(v, k, c) page. rbind (vmmc_do_lazy_map v c page) (\<lambda>(_, v, c). Inr (v, k, c)))"

definition map_stack :: "u32 \<Rightarrow> u32 \<Rightarrow> load_state \<Rightarrow> load_state outcome" where
  "map_stack lower initial s =
    rfold lazy_map_page s (page_range (lower AND NOT 0xFFF) ((initial + 4095) AND NOT 0xFFF))"

text \<open>Map \<open>len\<close> bytes at a physical address, write \<open>bs\<close> at an offset, and unmap them. All of them are in one frame.\<close>

definition window_write :: "u32 \<Rightarrow> u32 \<Rightarrow> nat \<Rightarrow> u8 list \<Rightarrow> vm \<Rightarrow> kpt \<Rightarrow> (vm \<times> kpt) outcome" where
  "window_write paddr len ofs bs v k =
    rbind (kernel_map k paddr len) (\<lambda>(w, k).
    if w = 0 then Inl BadPointer
    else if unat len < ofs + length bs \<or> 4096 < unat (paddr AND 0xFFF) + ofs + length bs then Inl OutOfBounds
    else rbind (kernel_unmap k w len) (\<lambda>(_, k).
      Inr (frame_write v (frame_of paddr) (unat (paddr AND 0xFFF) + ofs) bs, k)))"

text \<open>One string with its terminating zero, page by page.\<close>

fun copy_pages :: "u8 list \<Rightarrow> u32 \<Rightarrow> u32 list \<Rightarrow> nat \<Rightarrow> nat \<Rightarrow> load_state \<Rightarrow> load_state outcome" where
  "copy_pages src end_p [] copied out_off s = Inr s"
| "copy_pages src end_p (page # pages) copied out_off s =
    (let (v, k, c) = s;
         n = (if end_p \<le> page + 4096 then length src - copied else 4096 - out_off)
     in
     rbind (checked_address v c page) (\<lambda>paddr.
     if length src < copied + n then Inl OutOfBounds
     else rbind (window_write paddr 4096 out_off (take n (drop copied src)) v k) (\<lambda>(v, k).
       copy_pages src end_p pages (copied + (4096 - out_off)) 0 (v, k, c))))"

definition copy_string :: "u8 list \<Rightarrow> u32 \<Rightarrow> load_state \<Rightarrow> load_state outcome" where
  "copy_string src d s =
    (let start_p = d AND NOT 0xFFF; end_p = (d + of_nat (length src) + 4095) AND NOT 0xFFF in
     copy_pages src end_p (page_range start_p end_p) 0 (unat (d AND 0xFFF)) s)"

text \<open>What the entry \<open>i\<close> of the two arrays points to: nothing for the two null pointers at their ends.\<close>

definition arg_slot :: "u8 list list \<Rightarrow> u8 list list \<Rightarrow> nat \<Rightarrow> u8 list option" where
  "arg_slot argv envp i =
    (if i \<noteq> length argv \<and> i \<noteq> length argv + 1 + length envp
     then Some (if i < length argv then argv ! i else envp ! (i - length argv - 1)) else None)"

text \<open>The loop over the entries: \<open>argv_map\<close> is the window to the frame \<open>argv_frame\<close> that holds the entry, \<open>d\<close> the address of
  the next string.\<close>

type_synonym arg_state = "load_state \<times> u32 \<times> u32 \<times> u32"

definition set_slot :: "u8 list list \<Rightarrow> u8 list list \<Rightarrow> u32 \<Rightarrow> arg_state \<Rightarrow> nat \<Rightarrow> arg_state outcome" where
  "set_slot argv envp stack = (\<lambda>((v, k, c), argv_map, argv_frame, d) i.
    let argv_i = stack + 4 * of_nat i in
    rbind (if argv_i mod 4096 = 0
           then rbind (kernel_unmap k argv_map 4096) (\<lambda>(_, k).
                rbind (checked_address v c argv_i) (\<lambda>paddr.
                rbind (kernel_map k paddr 4096) (\<lambda>(w, k).
                  if w = 0 then Inl BadPointer else Inr (k, w, paddr))))
           else Inr (k, argv_map, argv_frame)) (\<lambda>(k, argv_map, argv_frame).
    let index = unat (argv_i mod 4096) div 4 in
    case arg_slot argv envp i of
      None \<Rightarrow> Inr ((frame_write v argv_frame (4 * index) (put32 0), k, c), argv_map, argv_frame, d)
    | Some str \<Rightarrow>
        let src = str @ [0] in
        rbind (copy_string src d (frame_write v argv_frame (4 * index) (put32 d), k, c)) (\<lambda>s.
          Inr (s, argv_map, argv_frame, d + of_nat (length src)))))"

definition args_size :: "u8 list list \<Rightarrow> u8 list list \<Rightarrow> u32" where
  "args_size argv envp =
    (let sz = (\<Sum>str\<leftarrow>argv. of_nat (length str + 1)) + (\<Sum>str\<leftarrow>envp. of_nat (length str + 1))
              + 4 * of_nat (length argv + 1) + 4 * of_nat (length envp + 1)
     in (sz + 3) AND NOT 3)"

text \<open>\<open>process_set_initial_params\<close> at the stack pointer \<open>esp\<close>.\<close>

definition process_set_initial_params :: "u32 \<Rightarrow> nat \<Rightarrow> u32 \<Rightarrow> u32 \<Rightarrow> load_state \<Rightarrow> (u32 \<times> load_state) outcome" where
  "process_set_initial_params initial argc argv envp s =
    (let esp = (initial - 12) AND NOT 0xF in
     rbind (map_stack esp initial s) (\<lambda>(v, k, c).
     rbind (checked_address v c esp) (\<lambda>paddr.
     rbind (window_write paddr 12 0 (put32 (of_nat argc) @ put32 argv @ put32 envp) v k) (\<lambda>(v, k).
       Inr (esp - 4, v, k, c)))))"

definition process_set_args :: "u8 list list \<Rightarrow> u8 list list \<Rightarrow> u32 \<Rightarrow> load_state \<Rightarrow> (u32 \<times> load_state) outcome" where
  "process_set_args argv envp initial s =
    (let argc = length argv; envc = length envp; stack = initial - args_size argv envp in
     rbind (map_stack stack initial s) (\<lambda>(v, k, c).
     let d = stack + 4 * of_nat (argc + envc + 2) in
     rbind (checked_address v c stack) (\<lambda>paddr.
     rbind (kernel_map k (paddr AND NOT 0xFFF) 4096) (\<lambda>(argv_map, k).
     if argv_map = 0 then Inl BadPointer
     else rbind (rfold (set_slot argv envp stack) ((v, k, c), argv_map, paddr AND NOT 0xFFF, d) [0..<argc + envc + 2])
       (\<lambda>((v, k, c), argv_map, argv_frame, d).
     rbind (kernel_unmap k argv_map 4096) (\<lambda>(_, k).
     process_set_initial_params stack argc stack (stack + 4 * of_nat (argc + 1)) (v, k, c)))))))"

section \<open>Writes to private pages\<close>

text \<open>The pages of \<open>S\<close> that are mapped have frames of their own.\<close>

definition private_pages :: "vm \<Rightarrow> vmm_context \<Rightarrow> nat set \<Rightarrow> bool" where
  "private_pages v c S \<longleftrightarrow> (\<forall>n \<in> S. n < USER_PAGES \<and> (present (entry v c n) \<longrightarrow> page_ok v c n \<and>
     (\<forall>m \<in> S. present (entry v c m) \<and> frame_of (entry v c m) = frame_of (entry v c n) \<longrightarrow> m = n)))"

definition bytes_at :: "u32 \<Rightarrow> u8 list \<Rightarrow> u32 \<Rightarrow> u8 option" where
  "bytes_at d bs a = (if unat (a - d) < length bs then Some (bs ! unat (a - d)) else None)"

text \<open>From one state to the next, exactly the bytes \<open>A\<close> of the pages \<open>S\<close> have been written; pages may have been mapped.\<close>

definition writes :: "nat set \<Rightarrow> vm \<times> vmm_context \<Rightarrow> (u32 \<Rightarrow> u8 option) \<Rightarrow> vm \<times> vmm_context \<Rightarrow> bool" where
  "writes S = (\<lambda>(v, c) A (v', c'). ctx_inv v' c' \<and> private_pages v' c' S \<and>
     (\<forall>n \<in> S. present (entry v c n) \<longrightarrow> entry v' c' n = entry v c n) \<and>
     (\<forall>a. vpn a \<in> S \<longrightarrow> (case A a of Some b \<Rightarrow> user_byte v' c' a = Some b
        | None \<Rightarrow> user_byte v c a \<noteq> None \<longrightarrow> user_byte v' c' a = user_byte v c a)))"

lemma writes_refl: "ctx_inv v c \<Longrightarrow> private_pages v c S \<Longrightarrow> writes S (v, c) Map.empty (v, c)"
  by (simp add: writes_def)

lemma writes_trans:
  assumes "writes S (v, c) A (v1, c1)" "writes S (v1, c1) B (v2, c2)"
  shows "writes S (v, c) (A ++ B) (v2, c2)"
proof -
  have "case (A ++ B) a of Some b \<Rightarrow> user_byte v2 c2 a = Some b
      | None \<Rightarrow> user_byte v c a \<noteq> None \<longrightarrow> user_byte v2 c2 a = user_byte v c a" if "vpn a \<in> S" for a
  proof -
    have "case A a of Some b \<Rightarrow> user_byte v1 c1 a = Some b
      | None \<Rightarrow> user_byte v c a \<noteq> None \<longrightarrow> user_byte v1 c1 a = user_byte v c a"
      "case B a of Some b \<Rightarrow> user_byte v2 c2 a = Some b
      | None \<Rightarrow> user_byte v1 c1 a \<noteq> None \<longrightarrow> user_byte v2 c2 a = user_byte v1 c1 a"
      using assms that by (auto simp: writes_def)
    then show ?thesis by (cases "A a"; cases "B a") (auto simp: map_add_def)
  qed
  then show ?thesis using assms by (auto simp: writes_def)
qed

lemma writes_inv: "writes S s A (v, c) \<Longrightarrow> ctx_inv v c" "writes S s A (v, c) \<Longrightarrow> private_pages v c S"
  by (cases s, simp add: writes_def)+

lemma writes_entry: "writes S (v, c) A (v', c') \<Longrightarrow> n \<in> S \<Longrightarrow> present (entry v c n) \<Longrightarrow> entry v' c' n = entry v c n"
  by (simp add: writes_def)

lemma vpn_div: "vpn a = unat a div 4096"
  by (simp add: vpn_def unat_drop_bit)

lemma same_block:
  fixes qa ra qd rd len :: nat
  assumes "rd + len \<le> 4096" "ra < 4096" "rd < 4096"
  shows "4096 * qd + rd \<le> 4096 * qa + ra \<and> 4096 * qa + ra < 4096 * qd + rd + len \<longleftrightarrow>
    qa = qd \<and> rd \<le> ra \<and> ra < rd + len"
proof
  assume h: "4096 * qd + rd \<le> 4096 * qa + ra \<and> 4096 * qa + ra < 4096 * qd + rd + len"
  then have "qd < qa + 1" "qa < qd + 1" using assms by linarith+
  then have "qa = qd" by simp
  then show "qa = qd \<and> rd \<le> ra \<and> ra < rd + len" using h by auto
qed auto

lemma in_block_arith:
  fixes a d len :: nat
  assumes "d mod 4096 + len \<le> 4096" "d < 2 ^ 32" "a < 2 ^ 32"
  shows "(if d \<le> a then a - d else a + 2 ^ 32 - d) < len \<longleftrightarrow>
    a div 4096 = d div 4096 \<and> d mod 4096 \<le> a mod 4096 \<and> a mod 4096 < d mod 4096 + len"
    and "a div 4096 = d div 4096 \<Longrightarrow> d mod 4096 \<le> a mod 4096 \<Longrightarrow> d \<le> a \<and> a - d = a mod 4096 - d mod 4096"
proof -
  define qa ra qd rd where "qa = a div 4096" and "ra = a mod 4096" and "qd = d div 4096" and "rd = d mod 4096"
  have a: "a = 4096 * qa + ra" "ra < 4096" and d: "d = 4096 * qd + rd" "rd < 4096"
    by (simp_all add: qa_def ra_def qd_def rd_def)
  have l: "rd + len \<le> 4096" using assms(1) by (simp add: rd_def)
  have "qd < 1048576" using d assms(2) by simp
  then have "\<not> a + 2 ^ 32 - d < len" if "\<not> d \<le> a" using d l assms(2) by simp
  then have "(if d \<le> a then a - d else a + 2 ^ 32 - d) < len \<longleftrightarrow> d \<le> a \<and> a < d + len" by auto
  also have "\<dots> \<longleftrightarrow> qa = qd \<and> rd \<le> ra \<and> ra < rd + len"
    unfolding a(1) d(1) by (rule same_block [OF l a(2) d(2)])
  finally show "(if d \<le> a then a - d else a + 2 ^ 32 - d) < len \<longleftrightarrow>
    a div 4096 = d div 4096 \<and> d mod 4096 \<le> a mod 4096 \<and> a mod 4096 < d mod 4096 + len"
    unfolding qa_def ra_def qd_def rd_def .
  show "d \<le> a \<and> a - d = a mod 4096 - d mod 4096" if "a div 4096 = d div 4096" "d mod 4096 \<le> a mod 4096"
    using that a d unfolding qa_def [symmetric] ra_def [symmetric] qd_def [symmetric] rd_def [symmetric] by simp
qed

lemma bytes_at_page:
  assumes "unat d mod 4096 + length bs \<le> 4096"
  shows "bytes_at d bs a = (if vpn a = vpn d \<and> unat d mod 4096 \<le> unat a mod 4096 \<and> unat a mod 4096 < unat d mod 4096 + length bs
     then Some (bs ! (unat a mod 4096 - unat d mod 4096)) else None)"
proof -
  have u: "unat (a - d) = (if unat d \<le> unat a then unat a - unat d else unat a + 2 ^ 32 - unat d)"
    by (simp add: unat_sub_if')
  have b: "unat d < 2 ^ 32" "unat a < 2 ^ 32" using unsigned_less [of d] unsigned_less [of a] by simp_all
  note i = in_block_arith [OF assms b]
  show ?thesis using i by (auto simp: bytes_at_def u vpn_div)
qed

lemma poke_writes:
  assumes inv: "ctx_inv v c" and pr: "private_pages v c S" and n: "vpn d \<in> S" "present (entry v c (vpn d))"
    and fit: "unat d mod 4096 + length bs \<le> 4096"
  shows "writes S (v, c) (bytes_at d bs) (frame_write v (frame_of (entry v c (vpn d))) (unat d mod 4096) bs, c)"
proof -
  let ?f = "frame_of (entry v c (vpn d))" and ?v = "frame_write v (frame_of (entry v c (vpn d))) (unat d mod 4096) bs"
  have f: "\<not> is_table c ?f" using pr n by (auto simp: private_pages_def page_ok_def)
  have e: "entry ?v c m = entry v c m" if "m < USER_PAGES" for m
    by (rule entry_cong [OF _ that], rule frame_write_simps(2)) (use f in metis)
  have S: "m < USER_PAGES" if "m \<in> S" for m using pr that by (auto simp: private_pages_def)
  have "vm_inv ?v" using ctx_inv_vm [OF inv] by (auto simp: vm_inv_def frame_write_def)
  then have 1: "ctx_inv ?v c" by (rule ctx_inv_change [OF inv]) (use ctx_inv_used [OF inv] in simp)
  have 2: "private_pages ?v c S" using pr S by (simp add: private_pages_def page_ok_def e)
  have 3: "user_byte ?v c a = (case bytes_at d bs a of None \<Rightarrow> user_byte v c a | b \<Rightarrow> b)"
    if a: "vpn a \<in> S" "user_byte v c a \<noteq> None \<or> bytes_at d bs a \<noteq> None" for a
  proof -
    have pa: "present (entry v c (vpn a))"
      using a(2) n(2) bytes_at_page [OF fit, of a] by (auto simp: user_byte_def Let_def split: if_splits)
    have same: "frame_of (entry v c (vpn a)) = ?f \<longleftrightarrow> vpn a = vpn d"
      using pr a(1) n pa by (auto simp: private_pages_def)
    have "user_byte ?v c a = Some (frame_byte ?v (frame_of (entry v c (vpn a))) (unat a mod 4096))"
      using pa e [OF S [OF a(1)]] by (simp add: user_byte_def Let_def unat_low12)
    also have "\<dots> = (if vpn a = vpn d \<and> unat d mod 4096 \<le> unat a mod 4096 \<and> unat a mod 4096 < unat d mod 4096 + length bs
        then Some (bs ! (unat a mod 4096 - unat d mod 4096)) else user_byte v c a)"
      using pa same by (simp add: frame_byte_write user_byte_def Let_def unat_low12)
    finally show ?thesis using bytes_at_page [OF fit] by (simp split: if_splits)
  qed
  have "case bytes_at d bs a of Some b \<Rightarrow> user_byte ?v c a = Some b
      | None \<Rightarrow> user_byte v c a \<noteq> None \<longrightarrow> user_byte ?v c a = user_byte v c a" if "vpn a \<in> S" for a
    using 3 [OF that] by (cases "bytes_at d bs a") auto
  then show ?thesis using 1 2 e S by (simp add: writes_def)
qed

lemma lazy_map_writes:
  assumes inv: "ctx_inv v c" and pr: "private_pages v c S" and user: "\<not> IS_KERNEL page"
    and run: "vmmc_do_lazy_map v c page = Inr (r, v', c')"
  shows "writes S (v, c) Map.empty (v', c')"
proof -
  note F = vmmc_do_lazy_map_facts [OF inv user refl run]
  have S: "n < USER_PAGES" if "n \<in> S" for n using pr that by (auto simp: private_pages_def)
  have lazy: "\<not> present (entry v c (vpn page))" if r
  proof -
    have "entry v c (vpn page) AND (MAP_PR OR MAP_US) = MAP_US" using F that by blast
    then have "bit (entry v c (vpn page) AND (MAP_PR OR MAP_US)) 0 = bit MAP_US 0" by simp
    then show ?thesis by (simp add: entry_bits)
  qed
  have old: "entry v' c' n = entry v c n" if "n \<in> S" "present (entry v c n)" for n
    using F S [OF that(1)] lazy that(2) by metis
  have ok: "page_ok v' c' n \<and> vm_frame v' (frame_of (entry v c n)) = vm_frame v (frame_of (entry v c n))"
    if "n \<in> S" "present (entry v c n)" for n
  proof -
    have "page_ok v c n" using pr that by (auto simp: private_pages_def)
    then show ?thesis using F old [OF that] unfolding page_ok_def by metis
  qed
  have new: "\<exists>phys. r \<and> n = vpn page \<and> frame_of (entry v' c' n) = phys \<and> pmm_users (vm_pmm v) phys = 0 \<and>
      pmm_users (vm_pmm v') phys = 1 \<and> \<not> is_table c' phys"
    if n: "n \<in> S" "\<not> present (entry v c n)" "present (entry v' c' n)" for n
  proof -
    have "r \<and> n = vpn page" using F S [OF n(1)] n by metis
    moreover from this obtain phys where "entry v' c' (vpn page) = (entry v c (vpn page) AND MAP_RW) OR MAP_US OR MAP_PR OR phys"
      "page_aligned phys" "pmm_users (vm_pmm v) phys = 0" "pmm_users (vm_pmm v') phys = 1" "\<not> is_table c' phys" using F by metis
    moreover have "frame_of ((x AND MAP_RW) OR MAP_US OR MAP_PR OR phys) = phys" if "page_aligned phys" for x phys
      using that by (simp add: frame_of_or)
    ultimately show ?thesis by (intro exI [of _ phys]) simp
  qed
  have "private_pages v' c' S"
    unfolding private_pages_def
  proof (intro ballI conjI impI)
    fix n
    assume n: "n \<in> S"
    then show "n < USER_PAGES" by (rule S)
    assume p: "present (entry v' c' n)"
    show "page_ok v' c' n" using ok [OF n] new [OF n _ p] p by (cases "present (entry v c n)") (auto simp: page_ok_def)
    fix m
    assume m: "m \<in> S" "present (entry v' c' m) \<and> frame_of (entry v' c' m) = frame_of (entry v' c' n)"
    have used: "0 < pmm_users (vm_pmm v) (frame_of (entry v' c' i))" if "i \<in> S" "present (entry v c i)" for i
      using pr that old [OF that] by (auto simp: private_pages_def page_ok_def)
    show "m = n"
    proof (cases "present (entry v c n)")
      case True
      then have "present (entry v c m)" using new [OF m(1)] m(2) used [OF n] by (cases "present (entry v c m)") auto
      then show ?thesis using True pr m n old by (simp add: private_pages_def)
    next
      case False
      then have "\<not> present (entry v c m)" using new [OF n _ p] used [OF m(1)] m(2) by auto
      then show ?thesis using new [OF n False p] new [OF m(1)] m(2) by metis
    qed
  qed
  moreover have "user_byte v' c' a = user_byte v c a" if "vpn a \<in> S" "user_byte v c a \<noteq> None" for a
  proof -
    have "present (entry v c (vpn a))" using that(2) by (auto simp: user_byte_def Let_def split: if_splits)
    then show ?thesis using old ok that(1) by (simp add: user_byte_def Let_def frame_byte_def)
  qed
  ultimately show ?thesis using F old by (auto simp: writes_def)
qed

section \<open>The steps of the code as writes\<close>

lemma page_word_parts:
  "frame_of (frame_of e OR (a AND 0xFFF)) = frame_of e" "(frame_of e OR (a AND 0xFFF)) AND 0xFFF = a AND 0xFFF"
proof -
  have "frame_of (a AND 0xFFF) = 0" by (simp add: frame_of_def and.assoc)
  then show "frame_of (frame_of e OR (a AND 0xFFF)) = frame_of e" by (simp add: frame_of_or)
  have "frame_of e AND 0xFFF = 0" by (simp add: frame_of_def and.assoc)
  then show "(frame_of e OR (a AND 0xFFF)) AND 0xFFF = a AND 0xFFF" by (simp add: and.assoc bit.conj_disj_distrib2)
qed

lemma checked_address_Inr:
  assumes "ctx_inv v c" "checked_address v c a = Inr paddr"
  shows "present (entry v c (vpn a))" "frame_of paddr = frame_of (entry v c (vpn a))" "unat (paddr AND 0xFFF) = unat a mod 4096"
proof -
  from assms have *: "present (entry v c (vpn a)) \<and> paddr = frame_of (entry v c (vpn a)) OR (a AND 0xFFF)"
    by (auto simp: checked_address_def vmmc_address_mapped_entry [OF assms(1)] Let_def split: if_splits)
  then show "present (entry v c (vpn a))" "frame_of paddr = frame_of (entry v c (vpn a))" "unat (paddr AND 0xFFF) = unat a mod 4096"
    by (simp_all add: page_word_parts unat_low12)
qed

lemma block_parts: "r < 4096 \<Longrightarrow> (4096 * q + r) div 4096 = q \<and> (4096 * q + r) mod 4096 = (r :: nat)"
  by simp

lemma same_page:
  fixes a :: u32
  assumes "unat a mod 4096 + k < 4096"
  shows "unat (a + of_nat k) = unat a + k" "vpn (a + of_nat k) = vpn a" "unat (a + of_nat k) mod 4096 = unat a mod 4096 + k"
proof -
  have "unat a < 4096 * 1048576" using unsigned_less [of a] by simp
  then have "unat a div 4096 < 1048576" by (simp add: div_less_iff_less_mult)
  moreover have s: "unat a = 4096 * (unat a div 4096) + unat a mod 4096" by simp
  ultimately have "unat a + k < 4294967296" using assms by linarith
  then show u: "unat (a + of_nat k) = unat a + k" by (intro unat_plus_of_nat) simp
  have "unat a + k = 4096 * (unat a div 4096) + (unat a mod 4096 + k)" using s by linarith
  then have "(unat a + k) div 4096 = unat a div 4096 \<and> (unat a + k) mod 4096 = unat a mod 4096 + k"
    using assms block_parts by metis
  then show "vpn (a + of_nat k) = vpn a" "unat (a + of_nat k) mod 4096 = unat a mod 4096 + k"
    by (simp_all only: vpn_div u)
qed

lemma window_writes:
  assumes inv: "ctx_inv v c" "private_pages v c S" "vpn a \<in> S" and addr: "checked_address v c a = Inr paddr"
    and run: "window_write paddr len ofs bs v k = Inr (v', k')" and lt: "unat a mod 4096 + ofs < 4096"
  shows "writes S (v, c) (bytes_at (a + of_nat ofs) bs) (v', c)"
proof -
  note A = checked_address_Inr [OF inv(1) addr] and P = same_page [OF lt]
  have v': "v' = frame_write v (frame_of paddr) (unat (paddr AND 0xFFF) + ofs) bs"
    and fit: "unat (paddr AND 0xFFF) + ofs + length bs \<le> 4096"
    using run by (auto simp: window_write_def outcome_simps split: if_splits)
  show ?thesis
    using poke_writes [OF inv(1,2), of "a + of_nat ofs" bs] inv(3) A P fit by (simp add: v')
qed

lemma page_range_user:
  assumes "page \<in> set (page_range f e)" "unat e \<le> 0xF0000000"
  shows "\<not> IS_KERNEL page"
proof -
  obtain i where i: "page = f + of_nat (4096 * i)" "i < (unat e - unat f) div 4096"
    using assms(1) by (auto simp: page_range_def)
  then have lt: "unat f + 4096 * i < unat e" by (simp add: less_eq_div_iff_mult_less_eq)
  then have "unat page = unat f + 4096 * i" unfolding i(1) using assms(2) by (intro unat_plus_of_nat) simp
  then show ?thesis using lt assms(2) by (simp add: IS_KERNEL_def PHYS_BASE_def word_le_nat_alt)
qed

lemma map_stack_writes:
  assumes "map_stack lower initial (v, k, c) = Inr (v', k', c')" "ctx_inv v c" "private_pages v c S" "unat initial \<le> 0xF0000000"
  shows "writes S (v, c) Map.empty (v', c')"
proof -
  let ?f = "lower AND NOT 0xFFF" and ?e = "(initial + 4095) AND NOT 0xFFF"
  have "unat (initial + 4095) = unat initial + 4095" using assms(4) unat_plus_of_nat [of initial 4095] by simp
  then have "unat ?e = (unat initial + 4095) div 4096 * 4096" by (simp only: unat_page_base)
  also have "\<dots> \<le> (0xF0000000 + 4095) div 4096 * 4096" using assms(4) by (intro mult_le_mono1 div_le_mono add_le_mono1)
  finally have "unat ?e \<le> 0xF0000000" by simp
  then have user: "\<not> IS_KERNEL page" if "page \<in> set (page_range ?f ?e)" for page
    using page_range_user that by blast
  let ?P = "\<lambda>(v', k', c'). writes S (v, c) Map.empty (v', c')"
  have "?P (v', k', c')"
  proof (rule rfold_invariant [OF assms(1) [unfolded map_stack_def]])
    show "?P (v, k, c)" using writes_refl [OF assms(2,3)] by simp
    show "?P s'" if h: "page \<in> set (page_range (lower AND NOT 0xFFF) ((initial + 4095) AND NOT 0xFFF))" "?P s" "lazy_map_page s page = Inr s'"
      for s page s'
    proof -
      obtain v1 k1 c1 v2 k2 c2 r where s: "s = (v1, k1, c1)" "s' = (v2, k2, c2)" "vmmc_do_lazy_map v1 c1 page = Inr (r, v2, c2)"
        using h(3) by (cases s) (auto simp: lazy_map_page_def outcome_simps)
      have "writes S (v1, c1) Map.empty (v2, c2)"
        using lazy_map_writes [OF writes_inv [of S "(v, c)"] user [OF h(1)] s(3)] h(2) s by auto
      from writes_trans [OF _ this, of v c Map.empty] h(2) s show ?thesis by simp
    qed
  qed
  then show ?thesis by simp
qed

lemma bytes_at_append:
  assumes "length xs + length ys < 2 ^ 32"
  shows "bytes_at d xs ++ bytes_at (d + of_nat (length xs)) ys = bytes_at d (xs @ ys)"
proof
  fix a
  let ?k = "unat (a - d)" and ?n = "length xs"
  have n: "unat (of_nat ?n :: u32) = ?n" using assms by (simp add: unat_of_nat)
  have "a - (d + of_nat ?n) = (a - d) - of_nat ?n" by simp
  then have u: "unat (a - (d + of_nat ?n)) = (if ?n \<le> ?k then ?k - ?n else ?k + 2 ^ 32 - ?n)"
    using n by (simp only:) (simp add: unat_sub_if')
  show "(bytes_at d xs ++ bytes_at (d + of_nat ?n) ys) a = bytes_at d (xs @ ys) a"
    unfolding map_add_def bytes_at_def u using assms by (auto simp: nth_append)
qed

lemma bytes_at_nil: "bytes_at d [] = Map.empty"
  by (simp add: bytes_at_def fun_eq_iff)

lemma add_self_div_4096: "(n + 4096) div 4096 = Suc (n div 4096 :: nat)"
  by simp

lemma copy_pages_writes:
  assumes "copy_pages src end_p (map (\<lambda>i. page + 4096 * of_nat i) [0..<m]) copied out_off (v, k, c) = Inr (v', k', c')"
    and "ctx_inv v c" "private_pages v c S" "\<forall>i < m. unat page div 4096 + i \<in> S"
    and "unat page mod 4096 = 0" "unat end_p = unat page + 4096 * m" "out_off < 4096" "length src < 2 ^ 32"
    and "copied \<le> length src" "out_off + (length src - copied) \<le> 4096 * m" "4096 * m < out_off + (length src - copied) + 4096"
  shows "writes S (v, c) (bytes_at (page + of_nat out_off) (drop copied src)) (v', c')"
  using assms
proof (induction m arbitrary: page copied out_off v k)
  case 0
  then show ?case using writes_refl by (simp add: bytes_at_nil)
next
  case (Suc m)
  let ?n = "if end_p \<le> page + 4096 then length src - copied else 4096 - out_off"
  have pages: "map (\<lambda>i. page + 4096 * of_nat i) [0..<Suc m] = page # map (\<lambda>i. (page + 4096) + 4096 * of_nat i) [0..<m]"
    unfolding upt_conv_Cons [OF zero_less_Suc] map_Suc_upt [symmetric] by (simp add: algebra_simps)
  obtain paddr v1 k1 where st: "checked_address v c page = Inr paddr" "copied + ?n \<le> length src"
      "window_write paddr 4096 out_off (take ?n (drop copied src)) v k = Inr (v1, k1)"
      "copy_pages src end_p (map (\<lambda>i. (page + 4096) + 4096 * of_nat i) [0..<m]) (copied + (4096 - out_off)) 0 (v1, k1, c) = Inr (v', k', c')"
    using Suc.prems(1) unfolding pages by (auto simp: Let_def outcome_simps not_less simp del: take_drop split: if_splits)
  have e32: "unat end_p < 4294967296" using unsigned_less [of end_p] by simp
  have W: "writes S (v, c) (bytes_at (page + of_nat out_off) (take ?n (drop copied src))) (v1, c)"
    by (rule window_writes [OF Suc.prems(2,3) _ st(1,3)]) (use Suc.prems(4,5,7) in \<open>auto simp: vpn_div\<close>)
  have u: "unat (page + 4096) = unat page + 4096" if "unat page + 4096 < 4294967296"
    using unat_plus_of_nat [of page 4096] that by simp
  show ?case
  proof (cases m)
    case 0
    then have "unat page + 4096 = unat end_p" using Suc.prems(6) by simp
    then have "end_p \<le> page + 4096" using u e32 by (simp add: word_le_nat_alt)
    then show ?thesis using W st(4) 0 by simp
  next
    case (Suc m')
    have u': "unat (page + 4096) = unat page + 4096" using u e32 Suc.prems(6) Suc by simp
    then have n: "?n = 4096 - out_off" using Suc.prems(6) Suc by (simp add: word_le_nat_alt)
    have le: "4096 - out_off \<le> length src - copied" using Suc.prems(11) Suc by simp
    let ?xs = "take (4096 - out_off) (drop copied src)" and ?ys = "drop (copied + (4096 - out_off)) src"
    have R: "writes S (v1, c) (bytes_at (page + 4096 + of_nat 0) ?ys) (v', c')"
    proof (rule Suc.IH [OF st(4) writes_inv [OF W]])
      show "\<forall>i<m. unat (page + 4096) div 4096 + i \<in> S"
        using Suc.prems(4) unfolding u' by (metis Suc_less_eq add_Suc add_Suc_right add_self_div_4096)
    qed (use Suc.prems u' le Suc in auto)
    have p: "page + 4096 + of_nat 0 = page + of_nat out_off + of_nat (length ?xs)"
    proof -
      have "out_off + length ?xs = 4096" using le Suc.prems(7) by simp
      then have "of_nat out_off + of_nat (length ?xs) = (4096 :: u32)" by (metis of_nat_add of_nat_numeral)
      then show ?thesis by (simp only: add.assoc) simp
    qed
    have app: "?xs @ ?ys = drop copied src" by (metis append_take_drop_id drop_drop add.commute)
    have len: "length ?xs + length ?ys < 2 ^ 32" using Suc.prems(8) by simp
    show ?thesis using writes_trans [OF W [unfolded n] R] unfolding p bytes_at_append [OF len] app .
  qed
qed

lemma page_span_arith:
  fixes D L :: nat
  assumes "0 < L"
  defines "m \<equiv> ((D + L + 4095) div 4096 * 4096 - D div 4096 * 4096) div 4096"
  shows "(D + L + 4095) div 4096 * 4096 = D div 4096 * 4096 + 4096 * m" "D mod 4096 + L \<le> 4096 * m" "4096 * m < D mod 4096 + L + 4096"
    "i < m \<Longrightarrow> D div 4096 + i \<le> (D + L - 1) div 4096"
proof -
  define q r where "q = D div 4096" and "r = D mod 4096"
  have D: "D = 4096 * q + r" "r < 4096" by (simp_all add: q_def r_def)
  have e: "(D + L + 4095) div 4096 = q + (r + L + 4095) div 4096" unfolding D(1)
    using div_mult_self4 [of 4096 q "r + L + 4095"] by (simp add: add.assoc)
  have m: "m = (r + L + 4095) div 4096"
    unfolding m_def e q_def [symmetric] by (simp add: add_mult_distrib)
  show "(D + L + 4095) div 4096 * 4096 = D div 4096 * 4096 + 4096 * m"
    unfolding e m q_def [symmetric] by (simp add: add_mult_distrib)
  have mm: "r + L + 4095 = 4096 * m + (r + L + 4095) mod 4096" "(r + L + 4095) mod 4096 < 4096" unfolding m by simp_all
  show "D mod 4096 + L \<le> 4096 * m" "4096 * m < D mod 4096 + L + 4096"
    using mm unfolding r_def [symmetric] by linarith+
  assume i: "i < m"
  then have "4096 * (q + i) \<le> D + L - 1" using mm assms(1) unfolding D(1) by (simp add: algebra_simps)
  then show "D div 4096 + i \<le> (D + L - 1) div 4096"
    unfolding q_def [symmetric] by (simp add: less_eq_div_iff_mult_less_eq mult.commute)
qed

lemma copy_string_writes:
  assumes run: "copy_string src d (v, k, c) = Inr (v', k', c')" and inv: "ctx_inv v c" "private_pages v c S"
    and src: "src \<noteq> []" "unat d + length src \<le> 0xF0000000"
    and S: "\<And>n. unat d div 4096 \<le> n \<Longrightarrow> n \<le> (unat d + length src - 1) div 4096 \<Longrightarrow> n \<in> S"
  shows "writes S (v, c) (bytes_at d src) (v', c')"
proof -
  let ?start = "d AND NOT 0xFFF" and ?stop = "(d + of_nat (length src) + 4095) AND NOT 0xFFF"
  have "d + of_nat (length src) + 4095 = d + of_nat (length src + 4095)" by simp
  then have "unat (d + of_nat (length src) + 4095) = unat d + length src + 4095"
    using src(2) by (simp only:) (subst unat_plus_of_nat, simp_all)
  then have e: "unat ?stop = (unat d + length src + 4095) div 4096 * 4096" by (simp only: unat_page_base)
  have st: "unat ?start = unat d div 4096 * 4096" by (rule unat_page_base)
  have L: "0 < length src" using src(1) by simp
  note P = page_span_arith [OF L, of "unat d"]
  have "writes S (v, c) (bytes_at (?start + of_nat (unat d mod 4096)) (drop 0 src)) (v', c')"
  proof (rule copy_pages_writes)
    show "copy_pages src ?stop (map (\<lambda>i. ?start + 4096 * of_nat i) [0..<(unat ?stop - unat ?start) div 4096]) 0 (unat d mod 4096) (v, k, c) =
      Inr (v', k', c')"
      using run unfolding copy_string_def Let_def page_range_def by (simp only: unat_low12)
    show "\<forall>i<(unat ?stop - unat ?start) div 4096. unat ?start div 4096 + i \<in> S"
      unfolding e st using P(4) S by simp
    show "length src < 2 ^ 32" using src(2) by simp
  qed (use inv P in \<open>simp_all only: e st diff_zero\<close>, simp_all)
  moreover have "?start + of_nat (unat d mod 4096) = d"
  proof -
    have "unat ?start + unat d mod 4096 = unat d" unfolding st by simp
    moreover have "unat (?start + of_nat (unat d mod 4096)) = unat ?start + unat d mod 4096"
      by (rule unat_plus_of_nat) (use calculation unsigned_less [of d] in simp)
    ultimately show ?thesis by (simp only: word_unat_eq_iff)
  qed
  ultimately show ?thesis by simp
qed

section \<open>The layout of the block\<close>

definition slot_len :: "u8 list list \<Rightarrow> u8 list list \<Rightarrow> nat \<Rightarrow> nat" where
  "slot_len argv envp i = (case arg_slot argv envp i of None \<Rightarrow> 0 | Some str \<Rightarrow> length str + 1)"

definition slot_count :: "u8 list list \<Rightarrow> u8 list list \<Rightarrow> nat" where
  "slot_count argv envp = length argv + length envp + 2"

text \<open>The offset of string \<open>i\<close> from the start of the block: behind the pointers and the earlier strings.\<close>

definition str_off :: "u8 list list \<Rightarrow> u8 list list \<Rightarrow> nat \<Rightarrow> nat" where
  "str_off argv envp i = 4 * slot_count argv envp + (\<Sum>j<i. slot_len argv envp j)"

definition block_len :: "u8 list list \<Rightarrow> u8 list list \<Rightarrow> nat" where
  "block_len argv envp = str_off argv envp (slot_count argv envp)"

definition slot_ptr :: "u8 list list \<Rightarrow> u8 list list \<Rightarrow> u32 \<Rightarrow> nat \<Rightarrow> u32" where
  "slot_ptr argv envp stack i =
    (case arg_slot argv envp i of None \<Rightarrow> 0 | Some _ \<Rightarrow> stack + of_nat (str_off argv envp i))"

text \<open>Entry \<open>i\<close> is in memory, and the string it points to with its terminating zero.\<close>

definition slot_done :: "u8 list list \<Rightarrow> u8 list list \<Rightarrow> u32 \<Rightarrow> vm \<Rightarrow> vmm_context \<Rightarrow> nat \<Rightarrow> bool" where
  "slot_done argv envp stack v c i \<longleftrightarrow>
    (\<forall>b < 4. user_byte v c (stack + of_nat (4 * i + b)) = Some (put32 (slot_ptr argv envp stack i) ! b)) \<and>
    (\<forall>str. arg_slot argv envp i = Some str \<longrightarrow>
      (\<forall>b \<le> length str. user_byte v c (stack + of_nat (str_off argv envp i + b)) = Some ((str @ [0]) ! b)))"

definition layout :: "u8 list list \<Rightarrow> u8 list list \<Rightarrow> u32 \<Rightarrow> nat set \<Rightarrow> bool" where
  "layout argv envp stack S \<longleftrightarrow> unat stack + block_len argv envp \<le> 0xF0000000 \<and> unat stack mod 4 = 0 \<and>
    (\<forall>n. unat stack div 4096 \<le> n \<and> n \<le> (unat stack + block_len argv envp - 1) div 4096 \<longrightarrow> n \<in> S)"

lemma str_off_Suc [simp]: "str_off argv envp (Suc i) = str_off argv envp i + slot_len argv envp i"
  by (simp add: str_off_def)

lemma str_off_mono: "i \<le> j \<Longrightarrow> str_off argv envp i \<le> str_off argv envp j"
  by (auto simp: str_off_def intro: sum_mono2)

lemma str_off_bounds:
  "i < slot_count argv envp \<Longrightarrow> str_off argv envp i + slot_len argv envp i \<le> block_len argv envp"
  "4 * slot_count argv envp \<le> str_off argv envp i"
  "4 * slot_count argv envp \<le> block_len argv envp"
  using str_off_mono [of "Suc i" "slot_count argv envp" argv envp] by (auto simp: block_len_def str_off_def)

lemma str_off_order: "j < i \<Longrightarrow> str_off argv envp j + slot_len argv envp j \<le> str_off argv envp i"
  using str_off_mono [of "Suc j" i argv envp] by simp

lemma bytes_at_off:
  assumes "p + length bs < 2 ^ 32" "k < 2 ^ 32"
  shows "bytes_at (stack + of_nat p) bs (stack + of_nat k) = (if p \<le> k \<and> k < p + length bs then Some (bs ! (k - p)) else None)"
proof -
  have "unat (stack + of_nat k - (stack + of_nat p)) = unat (of_nat k - of_nat p :: u32)" by simp
  also have "\<dots> = (if p \<le> k then k - p else k + 2 ^ 32 - p)" using assms by (simp add: unat_sub_if' unat_of_nat)
  finally show ?thesis using assms by (auto simp: bytes_at_def)
qed

lemma block_page:
  assumes "layout argv envp stack S" "k < block_len argv envp"
  shows "vpn (stack + of_nat k) \<in> S" "unat (stack + of_nat k) = unat stack + k"
proof -
  show u: "unat (stack + of_nat k) = unat stack + k"
    using assms by (intro unat_plus_of_nat) (simp add: layout_def)
  show "vpn (stack + of_nat k) \<in> S"
    using assms by (simp add: layout_def vpn_div u div_le_mono)
qed

lemma writes_byte:
  assumes "writes S (v, c) A (v', c')" "vpn a \<in> S"
  shows "A a = Some b \<Longrightarrow> user_byte v' c' a = Some b" "A a = None \<Longrightarrow> user_byte v c a = Some b \<Longrightarrow> user_byte v' c' a = Some b"
  using assms by (auto simp: writes_def)

text \<open>A write to the pointer of entry \<open>i\<close> and to its string keeps the earlier entries.\<close>

lemma slot_done_step:
  fixes argv envp stack i
  defines "A \<equiv> bytes_at (stack + of_nat (4 * i)) (put32 (slot_ptr argv envp stack i)) ++
    (case arg_slot argv envp i of None \<Rightarrow> Map.empty | Some str \<Rightarrow> bytes_at (stack + of_nat (str_off argv envp i)) (str @ [0]))"
  assumes lay: "layout argv envp stack S" and i: "i < slot_count argv envp" and W: "writes S (v, c) A (v', c')"
  shows "slot_done argv envp stack v' c' i"
    and "j < i \<Longrightarrow> slot_done argv envp stack v c j \<Longrightarrow> slot_done argv envp stack v' c' j"
    and "vpn a \<in> S \<Longrightarrow> block_len argv envp \<le> unat (a - stack) \<Longrightarrow> user_byte v c a = Some b \<Longrightarrow> user_byte v' c' a = Some b"
proof -
  let ?T = "block_len argv envp"
  have T: "?T < 2 ^ 32" using lay by (simp add: layout_def)
  note B = str_off_bounds(1) [OF i] str_off_bounds(2) [of argv envp i] str_off_bounds(3) [of argv envp]
  have A: "A (stack + of_nat k) =
      (if 4 * i \<le> k \<and> k < 4 * i + 4 then Some (put32 (slot_ptr argv envp stack i) ! (k - 4 * i))
       else case arg_slot argv envp i of None \<Rightarrow> None
         | Some str \<Rightarrow> if str_off argv envp i \<le> k \<and> k < str_off argv envp i + length str + 1
             then Some ((str @ [0]) ! (k - str_off argv envp i)) else None)" if k: "k < 2 ^ 32" for k
  proof -
    have 1: "bytes_at (stack + of_nat (4 * i)) (put32 (slot_ptr argv envp stack i)) (stack + of_nat k) =
      (if 4 * i \<le> k \<and> k < 4 * i + 4 then Some (put32 (slot_ptr argv envp stack i) ! (k - 4 * i)) else None)"
      using bytes_at_off [of "4 * i" "put32 (slot_ptr argv envp stack i)" k stack] B i T k by (simp add: put32_def)
    have 2: "bytes_at (stack + of_nat (str_off argv envp i)) (str @ [0]) (stack + of_nat k) =
      (if str_off argv envp i \<le> k \<and> k < str_off argv envp i + length str + 1
             then Some ((str @ [0]) ! (k - str_off argv envp i)) else None)" if "arg_slot argv envp i = Some str" for str
      using bytes_at_off [of "str_off argv envp i" "str @ [0]" k stack] B T k that by (simp add: slot_len_def)
    show ?thesis unfolding A_def map_add_def 1
      using 2 B i by (cases "arg_slot argv envp i") (auto simp: slot_len_def)
  qed
  show "slot_done argv envp stack v' c' i"
    unfolding slot_done_def
  proof (intro conjI allI impI)
    fix b :: nat
    assume "b < 4"
    then show "user_byte v' c' (stack + of_nat (4 * i + b)) = Some (put32 (slot_ptr argv envp stack i) ! b)"
      using B i T by (intro writes_byte(1) [OF W] block_page(1) [OF lay]) (simp_all add: A del: of_nat_add of_nat_mult)
  next
    fix str b
    assume "arg_slot argv envp i = Some str" "b \<le> length str"
    then show "user_byte v' c' (stack + of_nat (str_off argv envp i + b)) = Some ((str @ [0]) ! b)"
      using B i T by (intro writes_byte(1) [OF W] block_page(1) [OF lay]) (simp_all add: A slot_len_def del: of_nat_add of_nat_mult)
  qed
  show "slot_done argv envp stack v' c' j" if j: "j < i" "slot_done argv envp stack v c j"
    unfolding slot_done_def
  proof (intro conjI allI impI)
    fix b :: nat
    assume b: "b < 4"
    show "user_byte v' c' (stack + of_nat (4 * j + b)) = Some (put32 (slot_ptr argv envp stack j) ! b)"
      using B i T b j by (intro writes_byte(2) [OF W] block_page(1) [OF lay])
        (simp_all add: A slot_done_def del: of_nat_add of_nat_mult split: option.splits)
  next
    fix str b
    assume s: "arg_slot argv envp j = Some str" "b \<le> length str"
    then have "str_off argv envp j + b < str_off argv envp i" "4 * slot_count argv envp \<le> str_off argv envp j"
      using str_off_order [OF j(1), of argv envp] str_off_bounds(2) [of argv envp j] by (simp_all add: slot_len_def)
    then show "user_byte v' c' (stack + of_nat (str_off argv envp j + b)) = Some ((str @ [0]) ! b)"
      using B i T s j by (intro writes_byte(2) [OF W] block_page(1) [OF lay])
        (simp_all add: A slot_done_def slot_len_def del: of_nat_add of_nat_mult split: option.splits)
  qed
  show "user_byte v' c' a = Some b" if a: "vpn a \<in> S" "?T \<le> unat (a - stack)" "user_byte v c a = Some b"
  proof (rule writes_byte(2) [OF W a(1) _ a(3)])
    have "A (stack + of_nat (unat (a - stack))) = None"
      using A [of "unat (a - stack)"] a(2) B i unsigned_less [of "a - stack"]
      by (auto simp: slot_len_def split: option.splits)
    then show "A a = None" by simp
  qed
qed

section \<open>The loop over the entries\<close>

lemma mod_4_4096:
  fixes r :: nat
  assumes "r mod 4 = 0"
  shows "r mod 4096 div 4 * 4 = r mod 4096" "r mod 4096 \<le> 4092" "(r + 4) mod 4096 \<noteq> 0 \<Longrightarrow> (r + 4) div 4096 = r div 4096"
proof -
  have m: "r mod 4096 mod 4 = 0" using assms by (simp add: mod_mod_cancel)
  then show "r mod 4096 div 4 * 4 = r mod 4096" by (metis minus_mod_eq_div_mult minus_nat.diff_0)
  then obtain x where x: "r mod 4096 = 4 * x" by (metis mult.commute)
  have "r mod 4096 < 4096" by simp
  with x have "x < 1024" by simp
  with x show le: "r mod 4096 \<le> 4092" by simp
  assume nz: "(r + 4) mod 4096 \<noteq> 0"
  have e: "r + 4 = 4096 * (r div 4096) + (r mod 4096 + 4)" by simp
  have "r mod 4096 + 4 \<noteq> 4096"
  proof
    assume "r mod 4096 + 4 = 4096"
    with e have "r + 4 = 4096 * (r div 4096 + 1)" by simp
    with nz show False by (metis mod_mult_self1_is_0)
  qed
  then have "r mod 4096 + 4 < 4096" using le by simp
  then show "(r + 4) div 4096 = r div 4096" using block_parts e by metis
qed

lemma frame_of_low_zero: "unat (a AND 0xFFF) = 0 \<Longrightarrow> frame_of a = a"
proof -
  assume "unat (a AND 0xFFF) = 0"
  then have z: "a AND 0xFFF = 0" by (simp add: unat_eq_zero)
  have "a = (a AND NOT 0xFFF) OR (a AND 0xFFF)" by (simp only: bit.conj_disj_distrib [symmetric]) simp
  then show ?thesis unfolding frame_of_def z by simp
qed

lemma set_slot_eq:
  assumes "a = stack + of_nat (4 * i)"
  shows "set_slot argv envp stack ((v, k, c), w, f, d) i =
    rbind (if a mod 4096 = 0
           then rbind (kernel_unmap k w 4096) (\<lambda>(_, k).
                rbind (checked_address v c a) (\<lambda>paddr.
                rbind (kernel_map k paddr 4096) (\<lambda>(w, k).
                  if w = 0 then Inl BadPointer else Inr (k, w, paddr))))
           else Inr (k, w, f)) (\<lambda>(k, w, f).
    case arg_slot argv envp i of
      None \<Rightarrow> Inr ((frame_write v f (4 * (unat (a mod 4096) div 4)) (put32 0), k, c), w, f, d)
    | Some str \<Rightarrow>
        let src = str @ [0] in
        rbind (copy_string src d (frame_write v f (4 * (unat (a mod 4096) div 4)) (put32 d), k, c)) (\<lambda>s.
          Inr (s, w, f, d + of_nat (length src))))"
proof -
  have a: "stack + 4 * of_nat i = a" using assms by simp
  show ?thesis by (simp only: set_slot_def prod.case Let_def a)
qed

lemma set_slot_step:
  fixes argv envp stack i
  defines "A \<equiv> bytes_at (stack + of_nat (4 * i)) (put32 (slot_ptr argv envp stack i)) ++
    (case arg_slot argv envp i of None \<Rightarrow> Map.empty | Some str \<Rightarrow> bytes_at (stack + of_nat (str_off argv envp i)) (str @ [0]))"
  assumes run: "set_slot argv envp stack ((v, k, c), w, f, d) i = Inr ((v', k', c'), w', f', d')"
    and inv: "ctx_inv v c" "private_pages v c S" and lay: "layout argv envp stack S" and i: "i < slot_count argv envp"
    and d: "d = stack + of_nat (str_off argv envp i)"
    and f: "(unat stack + 4 * i) mod 4096 \<noteq> 0 \<Longrightarrow> present (entry v c (vpn (stack + of_nat (4 * i)))) \<and>
      f = frame_of (entry v c (vpn (stack + of_nat (4 * i))))"
  shows "writes S (v, c) A (v', c')" "d' = stack + of_nat (str_off argv envp (Suc i))"
    "present (entry v' c' (vpn (stack + of_nat (4 * i))))" "f' = frame_of (entry v' c' (vpn (stack + of_nat (4 * i))))"
proof -
  let ?a = "stack + of_nat (4 * i)" and ?T = "block_len argv envp"
  have T: "?T < 2 ^ 32" using lay by (simp add: layout_def)
  note B = str_off_bounds(1) [OF i] str_off_bounds(2) [of argv envp i] str_off_bounds(3) [of argv envp]
  have "4 * i < ?T" using B(3) i by simp
  note P = block_page [OF lay this]
  have a4: "unat ?a mod 4 = 0" using P(2) lay by (simp add: layout_def mod_add_eq [symmetric])
  note run = run [unfolded set_slot_eq [OF refl]]
  have md: "?a mod 4096 = 0 \<longleftrightarrow> (unat stack + 4 * i) mod 4096 = 0" "unat (?a mod 4096) = unat ?a mod 4096"
    using P(2) by (simp_all add: unat_eq_zero [symmetric] unat_mod)
  obtain k1 where fr: "present (entry v c (vpn ?a))" "f' = frame_of (entry v c (vpn ?a))"
    and rest: "(case arg_slot argv envp i of
      None \<Rightarrow> Inr ((frame_write v f' (4 * (unat (?a mod 4096) div 4)) (put32 0), k1, c), w', f', d)
    | Some str \<Rightarrow>
        let src = str @ [0] in
        rbind (copy_string src d (frame_write v f' (4 * (unat (?a mod 4096) div 4)) (put32 d), k1, c)) (\<lambda>s.
          Inr (s, w', f', d + of_nat (length src)))) = Inr ((v', k', c'), w', f', d')"
  proof (cases "?a mod 4096 = 0")
    case True
    obtain k0 k2 u paddr w2 where r: "checked_address v c ?a = Inr paddr" "kernel_unmap k w 4096 = Inr (u, k0)"
      "kernel_map k0 paddr 4096 = Inr (w2, k2)" "w2 \<noteq> 0"
      using run True by (auto simp: Let_def outcome_simps simp del: of_nat_mult split: if_splits)
    note C = checked_address_Inr [OF inv(1) r(1)]
    have "unat (paddr AND 0xFFF) = 0" using C(3) md True by (simp add: P(2))
    then have "frame_of paddr = paddr" by (rule frame_of_low_zero)
    moreover have "f' = paddr \<and> w' = w2"
      using run True r by (auto simp: Let_def outcome_simps simp del: of_nat_mult split: option.splits)
    ultimately show ?thesis
      using that [of k2] C run True r by (simp del: of_nat_mult cong: option.case_cong)
  next
    case False
    have "f' = f \<and> w' = w"
      using run False by (auto simp: Let_def outcome_simps simp del: of_nat_mult split: option.splits)
    then show ?thesis using that [of k] f md False run by (simp del: of_nat_mult cong: option.case_cong)
  qed
  let ?v1 = "frame_write v f' (unat ?a mod 4096) (put32 (slot_ptr argv envp stack i))"
  have idx: "4 * (unat (?a mod 4096) div 4) = unat ?a mod 4096"
    by (metis md(2) mod_4_4096(1) [OF a4] mult.commute)
  have W1: "writes S (v, c) (bytes_at ?a (put32 (slot_ptr argv envp stack i))) (?v1, c)"
    unfolding fr(2) by (rule poke_writes [OF inv P(1) fr(1)]) (use mod_4_4096(2) [OF a4] in simp)
  have res: "writes S (v, c) A (v', c') \<and> d' = stack + of_nat (str_off argv envp (Suc i))"
  proof (cases "arg_slot argv envp i")
    case None
    then have "slot_ptr argv envp stack i = 0" "slot_len argv envp i = 0" by (simp_all add: slot_ptr_def slot_len_def)
    then show ?thesis using rest W1 None d unfolding idx A_def by simp
  next
    case (Some str)
    have ptr: "slot_ptr argv envp stack i = d" using Some by (simp add: slot_ptr_def d)
    have L: "slot_len argv envp i = length (str @ [0])" using Some by (simp add: slot_len_def)
    have cp: "copy_string (str @ [0]) d (?v1, k1, c) = Inr (v', k', c')" "d' = d + of_nat (length (str @ [0]))"
      using rest Some unfolding idx ptr by (auto simp: Let_def outcome_simps)
    have "str_off argv envp i < ?T" using B(1) L by simp
    note Q = block_page(2) [OF lay this]
    have "writes S (?v1, c) (bytes_at d (str @ [0])) (v', c')"
    proof (rule copy_string_writes [OF cp(1) writes_inv [OF W1]])
      show "unat d + length (str @ [0]) \<le> 0xF0000000" using Q B(1) L lay unfolding d by (simp add: layout_def)
      fix n
      assume n: "unat d div 4096 \<le> n" "n \<le> (unat d + length (str @ [0]) - 1) div 4096"
      have "unat stack div 4096 \<le> unat d div 4096" unfolding d Q by (rule div_le_mono) simp
      moreover have "(unat d + length (str @ [0]) - 1) div 4096 \<le> (unat stack + ?T - 1) div 4096"
        unfolding d Q using B(1) L by (intro div_le_mono) simp
      ultimately show "n \<in> S" using n lay unfolding layout_def by (meson le_trans)
    qed simp
    from writes_trans [OF W1 this] show ?thesis using Some cp(2) L unfolding A_def d by (simp add: add.assoc)
  qed
  then show "writes S (v, c) A (v', c')" "d' = stack + of_nat (str_off argv envp (Suc i))" by blast+
  from writes_entry [OF conjunct1 [OF res] P(1) fr(1)] fr
  show "present (entry v' c' (vpn ?a))" "f' = frame_of (entry v' c' (vpn ?a))" by simp_all
qed

text \<open>Bytes of the pages \<open>S\<close> outside the block at \<open>stack\<close> are kept.\<close>

definition kept_outside :: "nat set \<Rightarrow> u32 \<Rightarrow> nat \<Rightarrow> vm \<times> vmm_context \<Rightarrow> vm \<times> vmm_context \<Rightarrow> bool" where
  "kept_outside S stack len = (\<lambda>(v, c) (v', c'). \<forall>a b. vpn a \<in> S \<and> len \<le> unat (a - stack) \<and>
     user_byte v c a = Some b \<longrightarrow> user_byte v' c' a = Some b)"

lemma slots_loop:
  assumes inv: "ctx_inv v c" "private_pages v c S" and lay: "layout argv envp stack S"
    and f: "present (entry v c (vpn stack))" "f = frame_of (entry v c (vpn stack))"
    and n: "n \<le> slot_count argv envp"
    and run: "rfold (set_slot argv envp stack) ((v, k, c), w, f, stack + of_nat (str_off argv envp 0)) [0..<n] =
      Inr ((v', k', c'), w', f', d')"
  shows "ctx_inv v' c' \<and> private_pages v' c' S \<and> (\<forall>j < n. slot_done argv envp stack v' c' j) \<and>
    kept_outside S stack (block_len argv envp) (v, c) (v', c') \<and> d' = stack + of_nat (str_off argv envp n) \<and>
    (n < slot_count argv envp \<and> (unat stack + 4 * n) mod 4096 \<noteq> 0 \<longrightarrow>
       present (entry v' c' (vpn (stack + of_nat (4 * n)))) \<and> f' = frame_of (entry v' c' (vpn (stack + of_nat (4 * n)))))"
  using n run
proof (induction n arbitrary: v' k' c' w' f' d')
  case 0
  then show ?case using inv f by (auto simp: kept_outside_def)
next
  case (Suc n)
  then obtain v1 k1 c1 w1 f1 d1 where
    r1: "rfold (set_slot argv envp stack) ((v, k, c), w, f, stack + of_nat (str_off argv envp 0)) [0..<n] = Inr ((v1, k1, c1), w1, f1, d1)"
    and r2: "set_slot argv envp stack ((v1, k1, c1), w1, f1, d1) n = Inr ((v', k', c'), w', f', d')"
    by (auto simp: rfold_append outcome_simps)
  have lt: "n < slot_count argv envp" using Suc.prems(1) by simp
  note IH = Suc.IH [OF _ r1]
  have "ctx_inv v1 c1" "private_pages v1 c1 S" "d1 = stack + of_nat (str_off argv envp n)" using IH lt by auto
  note st = set_slot_step [OF r2 this(1,2) lay lt this(3)]
  have W: "writes S (v1, c1) (bytes_at (stack + of_nat (4 * n)) (put32 (slot_ptr argv envp stack n)) ++
    (case arg_slot argv envp n of None \<Rightarrow> Map.empty | Some str \<Rightarrow> bytes_at (stack + of_nat (str_off argv envp n)) (str @ [0]))) (v', c')"
    "d' = stack + of_nat (str_off argv envp (Suc n))"
    "present (entry v' c' (vpn (stack + of_nat (4 * n))))" "f' = frame_of (entry v' c' (vpn (stack + of_nat (4 * n))))"
    using st IH lt by auto
  note done_ = slot_done_step [OF lay lt W(1)]
  have 1: "\<forall>j < Suc n. slot_done argv envp stack v' c' j" using done_(1,2) IH lt by (auto simp: less_Suc_eq)
  have 2: "kept_outside S stack (block_len argv envp) (v, c) (v', c')" using IH lt done_(3) by (auto simp: kept_outside_def)
  have 3: "vpn (stack + of_nat (4 * Suc n)) = vpn (stack + of_nat (4 * n))"
    if "Suc n < slot_count argv envp" "(unat stack + 4 * Suc n) mod 4096 \<noteq> 0"
  proof -
    have "4 * Suc n < block_len argv envp" "4 * n < block_len argv envp" using that(1) str_off_bounds(3) [of argv envp] by simp_all
    note u = block_page(2) [OF lay this(1)] block_page(2) [OF lay this(2)]
    have "(unat stack + 4 * n) mod 4 = 0" using lay by (simp add: layout_def mod_add_eq [symmetric])
    from mod_4_4096(3) [OF this] that(2) show ?thesis unfolding vpn_div u by (simp add: ac_simps)
  qed
  show ?case using writes_inv [OF W(1)] 1 2 3 W(2-4) by metis
qed

section \<open>The arguments of a new program\<close>

definition word_at :: "vm \<Rightarrow> vmm_context \<Rightarrow> u32 \<Rightarrow> u32 \<Rightarrow> bool" where
  "word_at v c a w \<longleftrightarrow> (\<forall>b < 4. user_byte v c (a + of_nat b) = Some (word_byte w b))"

definition string_at :: "vm \<Rightarrow> vmm_context \<Rightarrow> u32 \<Rightarrow> u8 list \<Rightarrow> bool" where
  "string_at v c p str \<longleftrightarrow> (\<forall>b \<le> length str. user_byte v c (p + of_nat b) = Some ((str @ [0]) ! b))"

text \<open>An array of pointers to the strings, with a null pointer at its end.\<close>

definition vector_at :: "vm \<Rightarrow> vmm_context \<Rightarrow> u32 \<Rightarrow> u8 list list \<Rightarrow> bool" where
  "vector_at v c a strs \<longleftrightarrow> (\<forall>i < length strs. \<exists>p. word_at v c (a + of_nat (4 * i)) p \<and> string_at v c p (strs ! i)) \<and>
     word_at v c (a + of_nat (4 * length strs)) 0"

lemma put32_nth: "b < 4 \<Longrightarrow> put32 w ! b = word_byte w b"
  by (simp add: put32_def)

lemma slot_done_word:
  assumes "slot_done argv envp stack v c i"
  shows "word_at v c (stack + of_nat (4 * i)) (slot_ptr argv envp stack i)"
    and "arg_slot argv envp i = Some str \<Longrightarrow> string_at v c (slot_ptr argv envp stack i) str"
  using assms by (auto simp: slot_done_def word_at_def string_at_def slot_ptr_def put32_nth add.assoc)

lemma slots_vectors:
  assumes "\<forall>j < slot_count argv envp. slot_done argv envp stack v c j"
  shows "vector_at v c stack argv" "vector_at v c (stack + 4 * of_nat (length argv + 1)) envp"
proof -
  have W: "word_at v c (stack + of_nat (4 * j)) (slot_ptr argv envp stack j)"
    and T: "\<And>str. arg_slot argv envp j = Some str \<Longrightarrow> string_at v c (slot_ptr argv envp stack j) str"
    if "j < slot_count argv envp" for j
    using assms that slot_done_word by blast+
  show "vector_at v c stack argv"
    unfolding vector_at_def
  proof (intro conjI allI impI)
    fix i
    assume "i < length argv"
    then show "\<exists>p. word_at v c (stack + of_nat (4 * i)) p \<and> string_at v c p (argv ! i)"
      using W [of i] T [of i] by (intro exI conjI) (auto simp: slot_count_def arg_slot_def)
  next
    show "word_at v c (stack + of_nat (4 * length argv)) 0"
      using W [of "length argv"] by (simp add: slot_count_def slot_ptr_def arg_slot_def)
  qed
  have sh: "stack + 4 * of_nat (length argv + 1) + of_nat (4 * i) = stack + of_nat (4 * (length argv + 1 + i))" for i
    by (simp add: algebra_simps)
  show "vector_at v c (stack + 4 * of_nat (length argv + 1)) envp"
    unfolding vector_at_def sh
  proof (intro conjI allI impI)
    fix i
    assume "i < length envp"
    then show "\<exists>p. word_at v c (stack + of_nat (4 * (length argv + 1 + i))) p \<and> string_at v c p (envp ! i)"
      using W [of "length argv + 1 + i"] T [of "length argv + 1 + i"]
      by (intro exI conjI) (auto simp: slot_count_def arg_slot_def)
  next
    show "word_at v c (stack + of_nat (4 * (length argv + 1 + length envp))) 0"
      using W [of "length argv + 1 + length envp"] by (simp add: slot_count_def slot_ptr_def arg_slot_def)
  qed
qed

lemma slot_len_sum:
  "(\<Sum>j<(slot_count argv envp). slot_len argv envp j) = (\<Sum>str\<leftarrow>argv. length str + 1) + (\<Sum>str\<leftarrow>envp. length str + 1)"
proof -
  let ?L = "map (\<lambda>str. length str + 1) argv @ [0] @ map (\<lambda>str. length str + 1) envp @ [0]"
  have "slot_len argv envp j = ?L ! j" if "j < slot_count argv envp" for j
    using that by (auto simp: slot_len_def arg_slot_def slot_count_def nth_append nth_Cons')
  then have "(\<Sum>j<(slot_count argv envp). slot_len argv envp j) = (\<Sum>j<(length ?L). ?L ! j)"
    by (intro sum.cong) (auto simp: slot_count_def)
  also have "\<dots> = sum_list ?L" by (simp only: sum_list_sum_nth atLeast0LessThan)
  finally show ?thesis by simp
qed

lemma unat_args_size:
  assumes "block_len argv envp + 3 < 2 ^ 32"
  shows "unat (args_size argv envp) = (block_len argv envp + 3) div 4 * 4"
proof -
  have sl: "(\<Sum>str\<leftarrow>xs. of_nat (length str + 1)) = (of_nat (\<Sum>str\<leftarrow>xs. length str + 1) :: u32)" for xs :: "u8 list list"
    by (induction xs) simp_all
  have "args_size argv envp = (of_nat (block_len argv envp) + 3) AND NOT 3"
    unfolding args_size_def Let_def sl block_len_def str_off_def slot_len_sum by (simp add: slot_count_def algebra_simps)
  also have "of_nat (block_len argv envp) + 3 = (of_nat (block_len argv envp + 3) :: u32)" by simp
  finally have "unat (args_size argv envp) = unat ((of_nat (block_len argv envp + 3) :: u32) AND NOT 3)" by (simp only:)
  also have "\<dots> = (block_len argv envp + 3) div 4 * 4"
    using unat_and_not_mask [of "of_nat (block_len argv envp + 3) :: u32" 2] assms
    by (simp add: mask_eq_exp_minus_1 unat_of_nat minus_mod_eq_div_mult del: of_nat_add)
  finally show ?thesis .
qed

text \<open>The pages that the block, the parameters below it and their alignment can reach.\<close>

definition stack_pages :: "u8 list list \<Rightarrow> u8 list list \<Rightarrow> u32 \<Rightarrow> nat set \<Rightarrow> bool" where
  "stack_pages argv envp esp S \<longleftrightarrow>
    (\<forall>n. (unat esp - (block_len argv envp + 32)) div 4096 \<le> n \<and> n \<le> (unat esp - 1) div 4096 \<longrightarrow> n \<in> S)"

lemma args_geometry:
  assumes "block_len argv envp + 32 \<le> unat esp" "unat esp \<le> 0xF0000000" "unat esp mod 4 = 0" "stack_pages argv envp esp S"
    and stack: "stack = esp - args_size argv envp"
  shows "layout argv envp stack S" "unat stack + block_len argv envp \<le> unat esp" "unat esp \<le> unat stack + block_len argv envp + 3"
proof -
  let ?T = "block_len argv envp"
  have sz: "unat (args_size argv envp) = (?T + 3) div 4 * 4" by (rule unat_args_size) (use assms(1,2) in simp)
  define sz' where "sz' = (?T + 3) div 4 * 4"
  have b: "?T \<le> sz'" "sz' \<le> ?T + 3" unfolding sz'_def by linarith+
  have u: "unat stack = unat esp - sz'"
    unfolding stack using sz b assms(1) by (subst unat_sub) (simp_all add: word_le_nat_alt sz'_def)
  show le: "unat stack + ?T \<le> unat esp" "unat esp \<le> unat stack + ?T + 3" using u b assms(1) by simp_all
  have "sz' mod 4 = 0" by (simp add: sz'_def)
  then have m4: "unat stack mod 4 = 0" using u b assms(1,3)
    by (metis dvd_diff_nat mod_0_imp_dvd mod_eq_0_iff_dvd)
  have "n \<in> S" if "unat stack div 4096 \<le> n" "n \<le> (unat stack + ?T - 1) div 4096" for n
  proof -
    have "(unat esp - (?T + 32)) div 4096 \<le> unat stack div 4096" by (rule div_le_mono) (use le in simp)
    moreover have "(unat stack + ?T - 1) div 4096 \<le> (unat esp - 1) div 4096" by (rule div_le_mono) (use le in simp)
    ultimately show ?thesis using that assms(4) unfolding stack_pages_def by (meson le_trans)
  qed
  then show "layout argv envp stack S" using le assms(2) m4 by (simp add: layout_def)
qed

lemma bytes_at_above: "unat d + length bs \<le> unat a \<Longrightarrow> bytes_at d bs a = None"
  by (simp add: bytes_at_def unat_sub_if')

lemma slot_done_kept:
  assumes "slot_done argv envp stack v c j" "j < slot_count argv envp"
    and "\<And>k b. k < block_len argv envp \<Longrightarrow> user_byte v c (stack + of_nat k) = Some b \<Longrightarrow> user_byte v' c' (stack + of_nat k) = Some b"
  shows "slot_done argv envp stack v' c' j"
  unfolding slot_done_def
proof (intro conjI allI impI)
  fix b :: nat
  assume "b < 4"
  then show "user_byte v' c' (stack + of_nat (4 * j + b)) = Some (put32 (slot_ptr argv envp stack j) ! b)"
    using assms(1,2) str_off_bounds(3) [of argv envp] by (intro assms(3)) (simp_all add: slot_done_def)
next
  fix str b
  assume "arg_slot argv envp j = Some str" "b \<le> length str"
  then show "user_byte v' c' (stack + of_nat (str_off argv envp j + b)) = Some ((str @ [0]) ! b)"
    using assms(1,2) str_off_bounds(1) [of j argv envp] by (intro assms(3)) (simp_all add: slot_done_def slot_len_def)
qed

lemma written_word:
  assumes W: "writes S (v, c) (bytes_at d (xs @ put32 w @ ys)) (v', c')" and len: "length (xs @ put32 w @ ys) \<le> 4096"
    and S: "\<And>k. k < length (xs @ put32 w @ ys) \<Longrightarrow> vpn (d + of_nat k) \<in> S"
  shows "word_at v' c' (d + of_nat (length xs)) w"
  unfolding word_at_def
proof (intro allI impI)
  fix b :: nat
  assume b: "b < 4"
  then have "bytes_at (d + of_nat 0) (xs @ put32 w @ ys) (d + of_nat (length xs + b)) = Some (word_byte w b)"
    using len by (subst bytes_at_off) (simp_all add: nth_append put32_nth)
  then have "user_byte v' c' (d + of_nat (length xs + b)) = Some (word_byte w b)"
    using b by (intro writes_byte(1) [OF W] S) simp_all
  then show "user_byte v' c' (d + of_nat (length xs) + of_nat b) = Some (word_byte w b)" by (simp add: add.assoc)
qed

lemma initial_params_correct:
  assumes run: "process_set_initial_params stack argc argv_p envp_p (v, k, c) = Inr (esp', v', k', c')"
    and inv: "ctx_inv v c" "private_pages v c S" and st: "unat stack \<le> 0xF0000000" "28 \<le> unat stack"
    and S: "\<forall>n. (unat stack - 28) div 4096 \<le> n \<and> n \<le> (unat stack - 1) div 4096 \<longrightarrow> n \<in> S"
  shows "word_at v' c' (esp' + 4) (of_nat argc)" "word_at v' c' (esp' + 8) argv_p" "word_at v' c' (esp' + 12) envp_p"
    "unat (esp' + 4) mod 16 = 0" "unat (esp' + 4) + 12 \<le> unat stack"
    "stack \<le> a \<Longrightarrow> vpn a \<in> S \<Longrightarrow> user_byte v c a = Some b \<Longrightarrow> user_byte v' c' a = Some b"
proof -
  let ?d = "(stack - 12) AND NOT 0xF" and ?bs = "put32 (of_nat argc) @ put32 argv_p @ put32 envp_p"
  have u12: "unat (stack - 12) = unat stack - 12" using st(2) by (subst unat_sub) (simp_all add: word_le_nat_alt)
  have ud: "unat ?d = (unat stack - 12) div 16 * 16"
    using unat_and_not_mask [of "stack - 12" 4] u12 by (simp add: mask_eq_exp_minus_1 minus_mod_eq_div_mult)
  have "(unat stack - 12) div 16 * 16 \<le> unat stack - 12" "unat stack - 12 < (unat stack - 12) div 16 * 16 + 16" by simp_all
  then have d: "unat ?d + 12 \<le> unat stack" "unat stack - 28 \<le> unat ?d" unfolding ud using st(2) by linarith+
  obtain v1 k1 c1 paddr k2 where r: "map_stack ?d stack (v, k, c) = Inr (v1, k1, c1)" "checked_address v1 c1 ?d = Inr paddr"
      "window_write paddr 12 0 ?bs v1 k1 = Inr (v', k2)" "esp' = ?d - 4" "c' = c1"
    using run by (auto simp: process_set_initial_params_def Let_def outcome_simps)
  have W1: "writes S (v, c) Map.empty (v1, c1)" by (rule map_stack_writes [OF r(1) inv st(1)])
  have page: "vpn (?d + of_nat k) \<in> S" if "k < 12" for k
  proof -
    have "unat (?d + of_nat k) = unat ?d + k" by (rule unat_plus_of_nat) (use that d st in simp)
    moreover have "(unat stack - 28) div 4096 \<le> (unat ?d + k) div 4096" "(unat ?d + k) div 4096 \<le> (unat stack - 1) div 4096"
      by (rule div_le_mono, use that d in linarith)+
    ultimately show ?thesis using S by (simp only: vpn_div)
  qed
  have "writes S (v1, c1) (bytes_at (?d + of_nat 0) ?bs) (v', c1)"
    by (rule window_writes [OF writes_inv [OF W1] _ r(2,3)]) (use page [of 0] in simp_all)
  from writes_trans [OF W1 this] have W: "writes S (v, c) (bytes_at ?d ?bs) (v', c')" using r(5) by simp
  have e: "esp' + 4 = ?d" "esp' + 8 = ?d + of_nat 4" "esp' + 12 = ?d + of_nat 8" using r(4) by simp_all
  show "word_at v' c' (esp' + 4) (of_nat argc)"
    unfolding e using written_word [of S v c ?d "[]" "of_nat argc" "put32 argv_p @ put32 envp_p" v' c'] W page by simp
  show "word_at v' c' (esp' + 8) argv_p"
    unfolding e using written_word [of S v c ?d "put32 (of_nat argc)" argv_p "put32 envp_p" v' c'] W page by simp
  show "word_at v' c' (esp' + 12) envp_p"
    unfolding e using written_word [of S v c ?d "put32 (of_nat argc) @ put32 argv_p" envp_p "[]" v' c'] W page by simp
  show "unat (esp' + 4) mod 16 = 0" "unat (esp' + 4) + 12 \<le> unat stack" unfolding e(1) using ud d by simp_all
  assume "stack \<le> a" "vpn a \<in> S" "user_byte v c a = Some b"
  then show "user_byte v' c' a = Some b"
    using d(1) by (intro writes_byte(2) [OF W] bytes_at_above) (simp_all add: word_le_nat_alt)
qed

text \<open>C17: A program that the kernel starts finds its arguments. When \<open>process_set_args\<close> returns, the stack pointer is aligned
  as the compiler expects it at a function entry, above it are \<open>argc\<close> and the addresses of the two arrays, and each array
  holds pointers to zero-terminated copies of the strings, in order, with a null pointer at its end, although the strings
  are copied page by page through a window and can cross pages. Nothing above the old stack pointer, such as the
  thread-local block, has changed.\<close>

theorem process_set_args_correct:
  assumes run: "process_set_args argv envp esp (v, k, c) = Inr (esp', v', k', c')"
    and inv: "ctx_inv v c" "private_pages v c S" and S: "stack_pages argv envp esp S"
    and esp: "block_len argv envp + 32 \<le> unat esp" "unat esp \<le> 0xF0000000" "unat esp mod 4 = 0"
  shows "\<exists>argv_p envp_p. word_at v' c' (esp' + 4) (of_nat (length argv)) \<and> word_at v' c' (esp' + 8) argv_p \<and>
    word_at v' c' (esp' + 12) envp_p \<and> vector_at v' c' argv_p argv \<and> vector_at v' c' envp_p envp \<and>
    unat (esp' + 4) mod 16 = 0 \<and> unat (esp' + 4) + 12 \<le> unat argv_p \<and>
    (\<forall>a b. esp \<le> a \<and> vpn a \<in> S \<and> user_byte v c a = Some b \<longrightarrow> user_byte v' c' a = Some b)"
proof -
  define stack where "stack = esp - args_size argv envp"
  note G = args_geometry [OF esp S stack_def]
  have d0: "stack + 4 * of_nat (slot_count argv envp) = stack + of_nat (str_off argv envp 0)"
    by (simp add: str_off_def)
  obtain v1 k1 c1 paddr w k2 v2 k3 c2 w2 f2 d2 k4 where
    r: "map_stack stack esp (v, k, c) = Inr (v1, k1, c1)" "checked_address v1 c1 stack = Inr paddr"
      "rfold (set_slot argv envp stack) ((v1, k2, c1), w, paddr AND NOT 0xFFF, stack + of_nat (str_off argv envp 0))
         [0..<slot_count argv envp] = Inr ((v2, k3, c2), w2, f2, d2)"
      "process_set_initial_params stack (length argv) stack (stack + 4 * of_nat (length argv + 1)) (v2, k4, c2) = Inr (esp', v', k', c')"
    using run unfolding process_set_args_def Let_def stack_def [symmetric] slot_count_def [symmetric] d0
    by (auto simp: outcome_simps split: if_splits)
  have W1: "writes S (v, c) Map.empty (v1, c1)" by (rule map_stack_writes [OF r(1) inv esp(2)])
  note C = checked_address_Inr [OF writes_inv(1) [OF W1] r(2)]
  have L: "ctx_inv v2 c2" "private_pages v2 c2 S" "\<forall>j < slot_count argv envp. slot_done argv envp stack v2 c2 j"
      "kept_outside S stack (block_len argv envp) (v1, c1) (v2, c2)"
    using slots_loop [OF writes_inv [OF W1] G(1) C(1) _ le_refl r(3)] C(2) by (auto simp: frame_of_def)
  have 28: "28 \<le> unat stack" "unat stack \<le> 0xF0000000" using G esp by linarith+
  have "(unat esp - (block_len argv envp + 32)) div 4096 \<le> (unat stack - 28) div 4096" by (rule div_le_mono) (use G in linarith)
  moreover have "(unat stack - 1) div 4096 \<le> (unat esp - 1) div 4096" by (rule div_le_mono) (use G in linarith)
  ultimately have pages: "\<forall>n. (unat stack - 28) div 4096 \<le> n \<and> n \<le> (unat stack - 1) div 4096 \<longrightarrow> n \<in> S"
    using S unfolding stack_pages_def by (meson le_trans)
  note I = initial_params_correct [OF r(4) L(1,2) 28(2,1) pages]
  have "slot_done argv envp stack v' c' j" if "j < slot_count argv envp" for j
    by (rule slot_done_kept [OF L(3) [rule_format, OF that] that])
      (use I(6) block_page [OF G(1)] in \<open>simp add: word_le_nat_alt\<close>)
  then have vec: "vector_at v' c' stack argv" "vector_at v' c' (stack + 4 * of_nat (length argv + 1)) envp"
    using slots_vectors by blast+
  have "user_byte v' c' a = Some b" if a: "esp \<le> a" "vpn a \<in> S" "user_byte v c a = Some b" for a b
  proof -
    have le: "unat stack + block_len argv envp \<le> unat a" using a(1) G(2) by (simp add: word_le_nat_alt)
    have "user_byte v1 c1 a = Some b" using writes_byte(2) [OF W1 a(2) _ a(3)] by simp
    moreover have "block_len argv envp \<le> unat (a - stack)" using le by (simp add: unat_sub_if')
    ultimately have "user_byte v2 c2 a = Some b" using L(4) a(2) by (auto simp: kept_outside_def)
    then show ?thesis using I(6) a(2) le by (simp add: word_le_nat_alt)
  qed
  then show ?thesis using I(1-5) vec
    by (intro exI [of _ stack] exI [of _ "stack + 4 * of_nat (length argv + 1)"]) blast
qed

definition demo_args_ok :: "vm \<Rightarrow> bool" where
  "demo_args_ok v \<longleftrightarrow> ctx_inv v demo_cow_ctx \<and> private_pages v demo_cow_ctx {1} \<and> entry v demo_cow_ctx 1 = 0x101005"

lemma demo_args_write:
  assumes "demo_args_ok v" "ofs < 4096" "ofs + length bs \<le> 4096"
  shows "demo_args_ok (frame_write v 0x101000 ofs bs)"
proof -
  have a: "unat (0x1000 + of_nat ofs :: u32) = 4096 + ofs"
    using unat_plus_of_nat [of "0x1000" ofs] assms(2) by simp
  then have v: "vpn (0x1000 + of_nat ofs) = 1" "unat (0x1000 + of_nat ofs :: u32) mod 4096 = ofs"
    using block_parts [of ofs 1] assms(2) by (simp_all add: vpn_div)
  have "present 0x101005" "frame_of 0x101005 = 0x101000" by (simp_all add: flag_bits(1) frame_of_def)
  then have W: "writes {1} (v, demo_cow_ctx) (bytes_at (0x1000 + of_nat ofs) bs) (frame_write v 0x101000 ofs bs, demo_cow_ctx)"
    using poke_writes [of v demo_cow_ctx "{1}" "0x1000 + of_nat ofs" bs] assms v by (simp add: demo_args_ok_def)
  show ?thesis
    using writes_inv [OF W] writes_entry [OF W, of 1] assms(1) \<open>present 0x101005\<close> by (simp add: demo_args_ok_def)
qed

lemma demo_args_start: "demo_args_ok demo_cow_vm"
proof -
  have "pmm_users (vm_pmm demo_cow_vm) 0x101000 = 2"
    by (simp add: demo_cow_vm_def pmm_users_def frame_users_def frame_index_def page_aligned_def PAGE_SIZE_def PAGE_SHIFT_def)
  then have "page_ok demo_cow_vm demo_cow_ctx 1"
    unfolding page_ok_def demo_cow_entry demo_cow_frame by (simp add: is_table_def demo_cow_table flag_bits(1))
  then show ?thesis using demo_cow_inv demo_cow_entry
    by (auto simp: demo_args_ok_def private_pages_def USER_PAGES_def USER_PDES_def)
qed

lemma demo_args_address:
  assumes "demo_args_ok v" "vpn a = 1"
  shows "checked_address v demo_cow_ctx a = Inr (0x101000 OR (a AND 0xFFF))"
  using assms by (simp add: checked_address_def vmmc_address_mapped_entry demo_args_ok_def Let_def flag_bits(1) frame_of_def
      access_flags_def map_flags vmm_flags)

lemma demo_args_lazy:
  assumes "demo_args_ok v"
  shows "vmmc_do_lazy_map v demo_cow_ctx 0x1000 = Inr (False, v, demo_cow_ctx)"
proof -
  have "vm_frame v 0x100000 ! 1 = 0x101005" using assms by (simp add: demo_args_ok_def entry_def demo_cow_pd flag_bits(1) frame_of_def)
  moreover have "length (vm_frame v a) = 1024" for a using assms by (simp add: demo_args_ok_def ctx_inv_def vm_inv_def)
  ultimately show ?thesis
    by (simp add: vmmc_do_lazy_map_def lazy_table_def pt_get_def demo_cow_pd demo_cow_ctx_def pdi_of_def pti_of_def flag_bits(1)
        frame_of_def map_flags)
qed

lemma demo_args_window:
  "kernel_map [] 0x101000 4096 = Inr (0xF0101000, [])" "kernel_unmap [] 0xF0101000 4096 = Inr (0xF0101000, [])"
  "kernel_map [] 0x101FE0 12 = Inr (0xF0101FE0, [])" "kernel_unmap [] 0xF0101FE0 12 = Inr (0xF0101FE0, [])"
  by (simp_all add: kernel_map_def kernel_unmap_def HMEM_BASE_def PHYS_BASE_def)

lemma demo_args_map_stack:
  assumes "demo_args_ok v"
  shows "map_stack 0x1FF0 0x2000 (v, [], demo_cow_ctx) = Inr (v, [], demo_cow_ctx)"
    "map_stack 0x1FE0 0x1FF0 (v, [], demo_cow_ctx) = Inr (v, [], demo_cow_ctx)"
  by (simp_all add: map_stack_def page_range_def lazy_map_page_def demo_args_lazy [OF assms])

lemma demo_args_copy:
  assumes "demo_args_ok v"
  shows "copy_string [65, 0] 0x1FFC (v, [], demo_cow_ctx) = Inr (frame_write v 0x101000 0xFFC [65, 0], [], demo_cow_ctx)"
proof -
  have "checked_address v demo_cow_ctx 0x1000 = Inr 0x101000" using demo_args_address [OF assms, of "0x1000"] by (simp add: vpn_def)
  then show ?thesis
    by (simp add: copy_string_def page_range_def window_write_def demo_args_window frame_of_def Let_def)
qed

lemma demo_args_run:
  "\<exists>v. process_set_args [[65]] [] 0x2000 (demo_cow_vm, [], demo_cow_ctx) = Inr (0x1FDC, v, [], demo_cow_ctx)"
proof -
  let ?w = "\<lambda>v ofs bs. frame_write v 0x101000 ofs bs"
  define v1 where "v1 = ?w demo_cow_vm 0xFF0 (put32 0x1FFC)"
  define v2 where "v2 = ?w v1 0xFFC [65, 0]"
  define v3 where "v3 = ?w v2 0xFF4 (put32 0)"
  define v4 where "v4 = ?w v3 0xFF8 (put32 0)"
  note ok0 = demo_args_start
  have ok1: "demo_args_ok v1" unfolding v1_def by (rule demo_args_write [OF ok0]) simp_all
  have ok2: "demo_args_ok v2" unfolding v2_def by (rule demo_args_write [OF ok1]) simp_all
  have ok3: "demo_args_ok v3" unfolding v3_def by (rule demo_args_write [OF ok2]) simp_all
  have ok4: "demo_args_ok v4" unfolding v4_def by (rule demo_args_write [OF ok3]) simp_all
  have a: "checked_address demo_cow_vm demo_cow_ctx 0x1FF0 = Inr 0x101FF0" "checked_address v4 demo_cow_ctx 0x1FE0 = Inr 0x101FE0"
    using demo_args_address [OF ok0, of "0x1FF0"] demo_args_address [OF ok4, of "0x1FE0"] by (simp_all add: vpn_def)
  have sz: "args_size [[65]] [] = 16" by (simp add: args_size_def)
  have "rfold (set_slot [[65]] [] 0x1FF0) ((demo_cow_vm, [], demo_cow_ctx), 0xF0101000, 0x101000, 0x1FFC) [0, 1, Suc 1] =
    Inr ((v4, [], demo_cow_ctx), 0xF0101000, 0x101000, 0x1FFE)"
    using demo_args_copy [OF ok1]
    by (simp add: set_slot_def arg_slot_def Let_def v1_def [symmetric] v2_def [symmetric] v3_def [symmetric] v4_def [symmetric])
  moreover have "process_set_initial_params 0x1FF0 1 0x1FF0 0x1FF8 (v4, [], demo_cow_ctx) =
    Inr (0x1FDC, ?w v4 0xFE0 (put32 1 @ put32 0x1FF0 @ put32 0x1FF8), [], demo_cow_ctx)"
    using a(2) demo_args_map_stack(2) [OF ok4]
    by (simp add: process_set_initial_params_def window_write_def demo_args_window frame_of_def Let_def)
  ultimately show ?thesis
    using a(1) demo_args_map_stack(1) [OF ok0]
    by (simp add: process_set_args_def sz demo_args_window Let_def upt_rec [of _ 3])
qed

theorem process_set_args_correct_witness:
  "\<exists>v p q. process_set_args [[65]] [] 0x2000 (demo_cow_vm, [], demo_cow_ctx) = Inr (0x1FDC, v, [], demo_cow_ctx) \<and>
     word_at v demo_cow_ctx 0x1FE0 1 \<and> vector_at v demo_cow_ctx p [[65]] \<and> vector_at v demo_cow_ctx q []"
proof -
  obtain v where r: "process_set_args [[65]] [] 0x2000 (demo_cow_vm, [], demo_cow_ctx) = Inr (0x1FDC, v, [], demo_cow_ctx)"
    using demo_args_run by blast
  have b: "block_len [[65]] [] = 14" by (simp add: block_len_def str_off_def slot_count_def slot_len_def arg_slot_def numeral_3_eq_3)
  have "stack_pages [[65]] [] 0x2000 {1}" by (auto simp: stack_pages_def b)
  from process_set_args_correct [OF r _ _ this] demo_args_start b r show ?thesis by (auto simp: demo_args_ok_def)
qed

end
