(* ===== verification/CdiList.thy ===== *)
theory CdiList
  imports Prelude
begin

text \<open>
  The lists of the driver interface (\<open>lib/common/cdi/lists.c\<close>): singly linked elements over an explicit store, with
  a cache of the element that was looked up last. Addresses are words, 0 is NULL; \<open>calloc\<close> is a parameter that picks the
  address of a new element from the store. The lemmas show that the operations work on the list as a
  mathematical list as long as the cached element is not removed, and what happens when it is.
\<close>

section \<open>Definitions\<close>

record cdi_element =
  el_next :: u32
  el_data :: u32

record cdi_list =
  l_first :: u32
  l_cached :: u32
  l_cached_index :: u32
  l_size :: u32

type_synonym cdi_store = "u32 \<Rightarrow> cdi_element option"

definition deref_el :: "cdi_store \<Rightarrow> u32 \<Rightarrow> cdi_element outcome" where
  "deref_el E p = (case E p of None \<Rightarrow> Inl BadPointer | Some e \<Rightarrow> if p = 0 then Inl BadPointer else Inr e)"

definition free_el :: "cdi_store \<Rightarrow> u32 \<Rightarrow> cdi_store outcome" where
  "free_el E p = rbind (deref_el E p) (\<lambda>_. Inr (E(p := None)))"

definition cdi_list_create :: cdi_list where
  "cdi_list_create = \<lparr>l_first = 0, l_cached = 0, l_cached_index = 0, l_size = 0\<rparr>"

text \<open>The loop of \<open>cdi_list_destroy\<close> ends only if the elements are not a cycle.\<close>

partial_function (option) destroy_elements :: "cdi_store \<Rightarrow> u32 \<Rightarrow> cdi_store outcome option" where
  "destroy_elements E p =
    (if p = 0 then Some (Inr E)
     else (case deref_el E p of Inl f \<Rightarrow> Some (Inl f)
       | Inr e \<Rightarrow> destroy_elements (E(p := None)) (el_next e)))"

definition cdi_list_destroy :: "cdi_list \<Rightarrow> cdi_store \<Rightarrow> cdi_store outcome" where
  "cdi_list_destroy l E = (case destroy_elements E (l_first l) of None \<Rightarrow> Inl NoReturn | Some r \<Rightarrow> r)"

definition cdi_list_push :: "(cdi_store \<Rightarrow> u32) \<Rightarrow> u32 \<Rightarrow> cdi_list \<Rightarrow> cdi_store \<Rightarrow> bool \<times> cdi_list \<times> cdi_store" where
  "cdi_list_push calloc v l E =
    (let new = calloc E in
     if new = 0 then (False, l, E)
     else (True,
       l\<lparr>l_first := new, l_cached_index := l_cached_index l + 1, l_size := l_size l + 1\<rparr>,
       E(new \<mapsto> \<lparr>el_next = l_first l, el_data = v\<rparr>)))"

definition cdi_list_pop :: "cdi_list \<Rightarrow> cdi_store \<Rightarrow> (u32 \<times> cdi_list \<times> cdi_store) outcome" where
  "cdi_list_pop l E =
    (let p = l_first l in
     rbind (if p \<noteq> 0 then rbind (deref_el E p) (\<lambda>e. Inr (l\<lparr>l_first := el_next e\<rparr>)) else Inr l) (\<lambda>l.
     let l = (if l_size l \<noteq> 0 then l\<lparr>l_size := l_size l - 1\<rparr> else l);
         l = (if l_cached_index l \<noteq> 0 then l\<lparr>l_cached_index := l_cached_index l - 1\<rparr> else l) in
     if p = 0 then Inr (0, l, E)
     else rbind (deref_el E p) (\<lambda>e. rbind (free_el E p) (\<lambda>E. Inr (el_data e, l, E)))))"

definition cdi_list_empty :: "cdi_list \<Rightarrow> bool" where
  "cdi_list_empty l \<longleftrightarrow> l_size l = 0"

definition cdi_list_size :: "cdi_list \<Rightarrow> u32" where
  "cdi_list_size l = l_size l"

text \<open>The loops \<open>for (i = start; (i < index) && (ele != NULL); i++) ele = ele->next\<close>.\<close>

fun skip_elements :: "cdi_store \<Rightarrow> nat \<Rightarrow> u32 \<Rightarrow> u32 outcome" where
  "skip_elements E 0 p = Inr p"
| "skip_elements E (Suc n) p =
    (if p = 0 then Inr p else rbind (deref_el E p) (\<lambda>e. skip_elements E n (el_next e)))"

definition cdi_list_get :: "u32 \<Rightarrow> cdi_list \<Rightarrow> cdi_store \<Rightarrow> (u32 \<times> cdi_list) outcome" where
  "cdi_list_get index l E =
    rbind (if l_cached_index l \<noteq> 0 \<and> l_cached_index l \<le> index
           then skip_elements E (unat index - unat (l_cached_index l)) (l_cached l)
           else skip_elements E (unat index) (l_first l)) (\<lambda>ele.
    if ele = 0 then Inr (0, l)
    else rbind (deref_el E ele) (\<lambda>e. Inr (el_data e, l\<lparr>l_cached_index := index, l_cached := ele\<rparr>)))"

text \<open>The element before \<open>index\<close>, as \<open>cdi_list_insert\<close> and \<open>cdi_list_remove\<close> look for it.\<close>

definition element_before :: "u32 \<Rightarrow> cdi_list \<Rightarrow> cdi_store \<Rightarrow> u32 outcome" where
  "element_before index l E =
    (if l_cached_index l \<noteq> 0 \<and> l_cached_index l < index
     then skip_elements E (unat (index - 1) - unat (l_cached_index l)) (l_cached l)
     else skip_elements E (unat (index - 1)) (l_first l))"

definition cdi_list_insert ::
  "(cdi_store \<Rightarrow> u32) \<Rightarrow> u32 \<Rightarrow> u32 \<Rightarrow> cdi_list \<Rightarrow> cdi_store \<Rightarrow> (bool \<times> cdi_list \<times> cdi_store) outcome" where
  "cdi_list_insert calloc index v l E =
    (if index = 0 then Inr (cdi_list_push calloc v l E)
     else let new = calloc E in
     if new = 0 then Inr (False, l, E)
     else let E1 = E(new \<mapsto> \<lparr>el_next = 0, el_data = v\<rparr>) in
     rbind (element_before index l E1) (\<lambda>ele.
     if ele = 0 then rbind (free_el E1 new) (\<lambda>E. Inr (False, l, E))
     else
       let l = (if index > 1 then l\<lparr>l_cached_index := index - 1, l_cached := ele\<rparr> else l) in
       rbind (deref_el E1 ele) (\<lambda>e.
       let E2 = (E1(new \<mapsto> \<lparr>el_next = el_next e, el_data = v\<rparr>))(ele \<mapsto> e\<lparr>el_next := new\<rparr>);
           l = (if index = 1 \<and> l_cached_index l \<noteq> 0 then l\<lparr>l_cached_index := l_cached_index l + 1\<rparr> else l) in
       Inr (True, l\<lparr>l_size := l_size l + 1\<rparr>, E2))))"

definition cdi_list_remove :: "u32 \<Rightarrow> cdi_list \<Rightarrow> cdi_store \<Rightarrow> (u32 \<times> cdi_list \<times> cdi_store) outcome" where
  "cdi_list_remove index l E =
    (if index = 0 then cdi_list_pop l E
     else rbind (element_before index l E) (\<lambda>ele.
     if ele = 0 then Inr (0, l, E)
     else rbind (deref_el E ele) (\<lambda>e.
     if el_next e = 0 then Inr (0, l, E)
     else
       let l = (if index = 1 then l\<lparr>l_cached_index := l_cached_index l - 1\<rparr>
                else l\<lparr>l_cached_index := index - 1, l_cached := ele\<rparr>);
           old = el_next e in
       rbind (deref_el E old) (\<lambda>o'.
       let E1 = E(ele \<mapsto> e\<lparr>el_next := el_next o'\<rparr>) in
       rbind (free_el E1 old) (\<lambda>E2. Inr (el_data o', l\<lparr>l_size := l_size l - 1\<rparr>, E2))))))"

section \<open>The specification: a list of values\<close>

datatype cdi_op = Push u32 | Pop | Get u32 | Insert u32 u32 | Remove u32 | Size | Empty

datatype cdi_result = Data u32 | Done bool | Count u32

definition cdi_step ::
  "(cdi_store \<Rightarrow> u32) \<Rightarrow> cdi_op \<Rightarrow> cdi_list \<times> cdi_store \<Rightarrow> (cdi_result \<times> cdi_list \<times> cdi_store) outcome" where
  "cdi_step calloc c = (\<lambda>(l, E). case c of
      Push v \<Rightarrow> (case cdi_list_push calloc v l E of (b, s) \<Rightarrow> Inr (Done b, s))
    | Pop \<Rightarrow> rbind (cdi_list_pop l E) (\<lambda>(v, s). Inr (Data v, s))
    | Get i \<Rightarrow> rbind (cdi_list_get i l E) (\<lambda>(v, l). Inr (Data v, l, E))
    | Insert i v \<Rightarrow> rbind (cdi_list_insert calloc i v l E) (\<lambda>(b, s). Inr (Done b, s))
    | Remove i \<Rightarrow> rbind (cdi_list_remove i l E) (\<lambda>(v, s). Inr (Data v, s))
    | Size \<Rightarrow> Inr (Count (cdi_list_size l), l, E)
    | Empty \<Rightarrow> Inr (Done (cdi_list_empty l), l, E))"

fun cdi_run ::
  "(cdi_store \<Rightarrow> u32) \<Rightarrow> cdi_op list \<Rightarrow> cdi_list \<times> cdi_store \<Rightarrow> (cdi_result list \<times> cdi_list \<times> cdi_store) outcome" where
  "cdi_run calloc [] s = Inr ([], s)"
| "cdi_run calloc (c # cs) s = rbind (cdi_step calloc c s) (\<lambda>(r, s).
     rbind (cdi_run calloc cs s) (\<lambda>(rs, s). Inr (r # rs, s)))"

text \<open>What the operations promise, on the values of the list. \<open>ok\<close> says whether there was memory for a new element.\<close>

fun list_spec :: "bool \<Rightarrow> cdi_op \<Rightarrow> u32 list \<Rightarrow> cdi_result \<times> u32 list" where
  "list_spec ok (Push v) xs = (if ok then (Done True, v # xs) else (Done False, xs))"
| "list_spec ok Pop xs = (case xs of [] \<Rightarrow> (Data 0, []) | x # xs \<Rightarrow> (Data x, xs))"
| "list_spec ok (Get i) xs = (Data (if unat i < length xs then xs ! unat i else 0), xs)"
| "list_spec ok (Insert i v) xs =
    (if ok \<and> unat i \<le> length xs then (Done True, take (unat i) xs @ v # drop (unat i) xs) else (Done False, xs))"
| "list_spec ok (Remove i) xs =
    (if unat i < length xs then (Data (xs ! unat i), take (unat i) xs @ drop (Suc (unat i)) xs) else (Data 0, xs))"
| "list_spec ok Size xs = (Count (of_nat (length xs)), xs)"
| "list_spec ok Empty xs = (Done (xs = []), xs)"

fun list_spec_run :: "bool list \<Rightarrow> cdi_op list \<Rightarrow> u32 list \<Rightarrow> cdi_result list \<times> u32 list" where
  "list_spec_run (ok # oks) (c # cs) xs =
    (case list_spec ok c xs of (r, xs) \<Rightarrow> (case list_spec_run oks cs xs of (rs, xs) \<Rightarrow> (r # rs, xs)))"
| "list_spec_run _ _ xs = ([], xs)"

text \<open>Whether \<open>calloc\<close> would give an element, for every operation of a run in the state in which the operation
  finds the list.\<close>

fun has_memory :: "(cdi_store \<Rightarrow> u32) \<Rightarrow> cdi_op list \<Rightarrow> cdi_list \<times> cdi_store \<Rightarrow> bool list" where
  "has_memory calloc [] s = []"
| "has_memory calloc (c # cs) s = (calloc (snd s) \<noteq> 0) #
     (case cdi_step calloc c s of Inr (r, s) \<Rightarrow> has_memory calloc cs s | Inl _ \<Rightarrow> [])"

text \<open>An operation is careful if it does not remove the element that the cache names, and does not move the index of a cache that
  is at the start of the list below zero.\<close>

definition careful :: "cdi_op \<Rightarrow> cdi_list \<Rightarrow> bool" where
  "careful c l \<longleftrightarrow>
    ((c = Pop \<or> c = Remove 0) \<longrightarrow> l_first l = 0 \<or> l_cached_index l \<noteq> 0) \<and>
    (c = Remove 1 \<longrightarrow> l_size l \<le> 1 \<or> 1 < l_cached_index l)"

fun careful_run :: "(cdi_store \<Rightarrow> u32) \<Rightarrow> cdi_op list \<Rightarrow> cdi_list \<times> cdi_store \<Rightarrow> bool" where
  "careful_run calloc [] s \<longleftrightarrow> True"
| "careful_run calloc (c # cs) s \<longleftrightarrow> careful c (fst s) \<and>
     (case cdi_step calloc c s of Inr (r, s) \<Rightarrow> careful_run calloc cs s | Inl _ \<Rightarrow> True)"

text \<open>The contract of \<open>calloc\<close>: an address that is not in use, or NULL.\<close>

definition fresh_or_null :: "(cdi_store \<Rightarrow> u32) \<Rightarrow> bool" where
  "fresh_or_null calloc \<longleftrightarrow> (\<forall>E. calloc E = 0 \<or> E (calloc E) = None)"

fun linked :: "cdi_store \<Rightarrow> u32 \<Rightarrow> u32 list \<Rightarrow> bool" where
  "linked E p [] \<longleftrightarrow> p = 0"
| "linked E p (q # qs) \<longleftrightarrow> p = q \<and> q \<noteq> 0 \<and> (case E q of None \<Rightarrow> False | Some e \<Rightarrow> linked E (el_next e) qs)"

definition el_value :: "cdi_store \<Rightarrow> u32 \<Rightarrow> u32" where
  "el_value E q = el_data (the (E q))"

definition cdi_inv :: "cdi_list \<Rightarrow> cdi_store \<Rightarrow> u32 list \<Rightarrow> bool" where
  "cdi_inv l E ps \<longleftrightarrow> linked E (l_first l) ps \<and> distinct ps \<and> l_size l = of_nat (length ps) \<and>
     unat (l_cached_index l) \<le> length ps \<and> l_cached l = (ps @ [0]) ! unat (l_cached_index l)"

section \<open>Linked elements\<close>

lemma deref_el_simps [simp]: "E p = Some e \<Longrightarrow> p \<noteq> 0 \<Longrightarrow> deref_el E p = Inr e"
  by (simp add: deref_el_def)

lemma linked_nth:
  assumes "linked E p ps" "n < length ps"
  shows "\<exists>e. E (ps ! n) = Some e \<and> ps ! n \<noteq> 0 \<and> el_next e = (ps @ [0]) ! Suc n"
  using assms
proof (induction ps arbitrary: p n)
  case (Cons q qs)
  then obtain e where e: "E q = Some e" "q \<noteq> 0" "linked E (el_next e) qs" by (auto split: option.splits)
  show ?case
  proof (cases n)
    case 0
    with e show ?thesis by (cases qs) simp_all
  next
    case (Suc m)
    with Cons.IH [OF e(3), of m] Cons.prems(2) show ?thesis by simp
  qed
qed simp

lemma linked_member: "linked E p ps \<Longrightarrow> q \<in> set ps \<Longrightarrow> q \<noteq> 0 \<and> E q \<noteq> None"
  by (metis in_set_conv_nth linked_nth option.distinct(1))

lemma linked_first: "linked E p ps \<Longrightarrow> p = (ps @ [0]) ! 0"
  by (cases ps) auto

lemma linked_drop: "linked E p ps \<Longrightarrow> n \<le> length ps \<Longrightarrow> linked E ((ps @ [0]) ! n) (drop n ps)"
proof (induction ps arbitrary: p n)
  case (Cons q qs)
  then show ?case by (cases n) (auto split: option.splits)
qed simp

lemma linked_cong: "(\<And>q. q \<in> set ps \<Longrightarrow> E' q = E q) \<Longrightarrow> linked E' p ps = linked E p ps"
  by (induction ps arbitrary: p) (auto split: option.splits)

lemma linked_upd [simp]: "a \<notin> set ps \<Longrightarrow> linked (E(a := x)) p ps = linked E p ps"
  by (rule linked_cong) auto

lemma linked_short:
  assumes "linked E p ps" "distinct ps"
  shows "length ps < 2 ^ 32"
proof -
  have "0 \<notin> set ps" using linked_member [OF assms(1)] by blast
  then have "length (0 # ps) = card (set (0 # ps))" using assms(2) by (metis distinct.simps(2) distinct_card)
  also have "\<dots> \<le> card (UNIV :: u32 set)" by (rule card_mono) simp_all
  finally show ?thesis by (simp add: card_word)
qed

lemma skip_linked:
  "linked E p ps \<Longrightarrow> skip_elements E n p = Inr (if n \<le> length ps then (ps @ [0]) ! n else 0)"
proof (induction ps arbitrary: p n)
  case Nil
  then show ?case by (cases n) simp_all
next
  case (Cons q qs)
  then show ?case by (cases n) (auto split: option.splits)
qed

text \<open>From the cached element the loops reach the same element as from the start.\<close>

lemma skip_cached:
  assumes "cdi_inv l E ps" "unat (l_cached_index l) \<le> k"
  shows "skip_elements E (k - unat (l_cached_index l)) (l_cached l) = Inr (if k \<le> length ps then (ps @ [0]) ! k else 0)"
proof -
  let ?c = "unat (l_cached_index l)"
  have "linked E (l_cached l) (drop ?c ps)" using assms(1) by (auto simp: cdi_inv_def intro: linked_drop)
  moreover have "(drop ?c ps @ [0]) ! (k - ?c) = (ps @ [0]) ! k" if "k \<le> length ps"
    using that assms by (auto simp: nth_append cdi_inv_def)
  ultimately show ?thesis using assms by (auto simp: skip_linked cdi_inv_def)
qed

lemma element_before_eq:
  assumes "cdi_inv l E ps" "i \<noteq> 0"
  shows "element_before i l E = Inr (if unat i \<le> length ps then ps ! (unat i - 1) else 0)"
proof -
  have i: "unat (i - 1) = unat i - 1" using assms(2) by (simp add: unat_minus_one)
  have pos: "0 < unat i" using assms(2) by (simp add: unat_gt_0)
  have "element_before i l E = Inr (if unat i - 1 \<le> length ps then (ps @ [0]) ! (unat i - 1) else 0)"
  proof (cases "l_cached_index l \<noteq> 0 \<and> l_cached_index l < i")
    case True
    then have "unat (l_cached_index l) \<le> unat i - 1" by (auto simp: word_less_nat_alt)
    from skip_cached [OF assms(1) this] True show ?thesis by (simp add: element_before_def i)
  next
    case False
    then show ?thesis using assms(1) by (auto simp: element_before_def i skip_linked cdi_inv_def)
  qed
  then show ?thesis using pos by (auto simp: nth_append)
qed

lemma linked_insert:
  assumes "linked E p (bs @ q # cs)" "distinct (bs @ q # cs)" "new \<notin> set (bs @ q # cs)" "new \<noteq> 0" "E q = Some e"
  shows "linked (E(new \<mapsto> \<lparr>el_next = el_next e, el_data = v\<rparr>, q \<mapsto> e\<lparr>el_next := new\<rparr>)) p (bs @ q # new # cs)"
  using assms by (induction bs arbitrary: p) (auto split: option.splits)

lemma linked_remove:
  assumes "linked E p (bs @ q # old # cs)" "distinct (bs @ q # old # cs)" "E q = Some e" "E old = Some e'"
  shows "linked (E(q \<mapsto> e\<lparr>el_next := el_next e'\<rparr>, old := None)) p (bs @ q # cs)"
  using assms by (induction bs arbitrary: p) (auto split: option.splits)

section \<open>Each operation on the list of values\<close>

text \<open>\<open>evolves E ps l E' xs\<close>: the elements \<open>ps\<close> of the store \<open>E\<close> have become a well-formed list with the values \<open>xs\<close>, and the
  rest of the store is the same.\<close>

definition evolves :: "cdi_store \<Rightarrow> u32 list \<Rightarrow> cdi_list \<Rightarrow> cdi_store \<Rightarrow> u32 list \<Rightarrow> bool" where
  "evolves E ps l E' xs \<longleftrightarrow> (\<exists>ps'. cdi_inv l E' ps' \<and> map (el_value E') ps' = xs \<and>
     E' |` (- set ps') = E |` (- set ps))"

lemma restrict_all [simp]: "E |` UNIV = E"
  by (simp add: restrict_map_def)

lemma values_cong: "(\<And>q. q \<in> set ps \<Longrightarrow> el_value E' q = el_value E q) \<Longrightarrow> map (el_value E') ps = map (el_value E) ps"
  by simp

lemma evolves_same: "cdi_inv l E ps \<Longrightarrow> evolves E ps l E (map (el_value E) ps)"
  by (auto simp: evolves_def)

lemma push_evolves:
  assumes inv: "cdi_inv l E ps" and fresh: "fresh_or_null calloc"
  shows "case cdi_list_push calloc v l E of (b, l', E') \<Rightarrow> b = (calloc E \<noteq> 0) \<and>
    evolves E ps l' E' (if b then v # map (el_value E) ps else map (el_value E) ps)"
proof (cases "calloc E = 0")
  case True
  then show ?thesis using evolves_same [OF inv] by (simp add: cdi_list_push_def)
next
  case False
  let ?n = "calloc E" and ?E = "E(calloc E \<mapsto> \<lparr>el_next = l_first l, el_data = v\<rparr>)"
  let ?l = "l\<lparr>l_first := ?n, l_cached_index := l_cached_index l + 1, l_size := l_size l + 1\<rparr>"
  have none: "E ?n = None" using fresh False by (auto simp: fresh_or_null_def)
  have I: "linked E (l_first l) ps" "distinct ps" "l_size l = of_nat (length ps)" "unat (l_cached_index l) \<le> length ps"
      "l_cached l = (ps @ [0]) ! unat (l_cached_index l)"
    using inv by (auto simp: cdi_inv_def)
  have new: "?n \<notin> set ps" using linked_member [OF I(1)] none by blast
  have ln: "linked ?E ?n (?n # ps)" using I(1) new False by simp
  have "length (?n # ps) < 2 ^ 32" by (rule linked_short [OF ln]) (use new I(2) in simp)
  then have "unat (l_cached_index l + 1) = Suc (unat (l_cached_index l))"
    using I(4) by (subst unat_add_lem [THEN iffD1]) simp_all
  then have "cdi_inv ?l ?E (?n # ps)" using ln I new by (simp add: cdi_inv_def)
  moreover have "map (el_value ?E) (?n # ps) = v # map (el_value E) ps"
    using new by (auto simp: el_value_def)
  ultimately show ?thesis
    using False none unfolding cdi_list_push_def evolves_def Let_def
    by (auto simp: restrict_map_def fun_eq_iff intro!: exI [of _ "?n # ps"])
qed

lemma pop_evolves:
  assumes inv: "cdi_inv l E ps" and car: "careful Pop l"
  shows "\<exists>v l' E' xs. cdi_list_pop l E = Inr (v, l', E') \<and> list_spec ok Pop (map (el_value E) ps) = (Data v, xs) \<and>
    evolves E ps l' E' xs"
proof (cases ps)
  case Nil
  then show ?thesis using inv evolves_same [OF inv] by (simp add: cdi_list_pop_def cdi_inv_def unat_eq_zero)
next
  case (Cons q qs)
  have I: "linked E (l_first l) (q # qs)" "distinct (q # qs)" "l_size l = of_nat (length (q # qs))"
      "unat (l_cached_index l) \<le> length (q # qs)" "l_cached l = ((q # qs) @ [0]) ! unat (l_cached_index l)"
    using inv Cons by (auto simp: cdi_inv_def)
  obtain e where e: "E q = Some e" "q \<noteq> 0" "l_first l = q" "linked E (el_next e) qs"
    using I(1) by (auto split: option.splits)
  have ci: "l_cached_index l \<noteq> 0" using car e by (auto simp: careful_def)
  have ci1: "unat (l_cached_index l) = Suc (unat (l_cached_index l - 1))"
    using ci by (metis Suc_pred unat_gt_0 unat_minus_one One_nat_def)
  have "unat (l_size l) = length (q # qs)"
    unfolding I(3) using linked_short [OF I(1,2)] by (simp only: unat_of_nat) simp
  then have nz: "l_size l \<noteq> 0" by auto
  let ?l = "l\<lparr>l_first := el_next e, l_size := l_size l - 1, l_cached_index := l_cached_index l - 1\<rparr>"
  let ?E = "E(q := None)"
  have run: "cdi_list_pop l E = Inr (el_data e, ?l, ?E)"
    using e ci nz by (simp add: cdi_list_pop_def free_el_def)
  have "cdi_inv ?l ?E qs" using I e ci1 by (auto simp: cdi_inv_def)
  moreover have "map (el_value ?E) qs = map (el_value E) qs"
    using I(2) by (intro values_cong) (auto simp: el_value_def)
  ultimately have "evolves E ps ?l ?E (map (el_value E) qs)"
    using I(2) Cons unfolding evolves_def by (intro exI [of _ qs]) (auto simp: restrict_map_def fun_eq_iff)
  then show ?thesis using run Cons e by (simp add: el_value_def)
qed

lemma get_evolves:
  assumes inv: "cdi_inv l E ps"
  shows "\<exists>v l'. cdi_list_get i l E = Inr (v, l') \<and> list_spec ok (Get i) (map (el_value E) ps) = (Data v, map (el_value E) ps) \<and>
    evolves E ps l' E (map (el_value E) ps)"
proof -
  let ?p = "if unat i \<le> length ps then (ps @ [0]) ! unat i else 0"
  have "(if l_cached_index l \<noteq> 0 \<and> l_cached_index l \<le> i
         then skip_elements E (unat i - unat (l_cached_index l)) (l_cached l)
         else skip_elements E (unat i) (l_first l)) = Inr ?p"
    using skip_cached [OF inv, of "unat i"] skip_linked [of E "l_first l" ps "unat i"] inv
    by (simp add: word_le_nat_alt cdi_inv_def)
  then have run: "cdi_list_get i l E = (if ?p = 0 then Inr (0, l)
      else rbind (deref_el E ?p) (\<lambda>e. Inr (el_data e, l\<lparr>l_cached_index := i, l_cached := ?p\<rparr>)))"
    by (simp add: cdi_list_get_def)
  show ?thesis
  proof (cases "unat i < length ps")
    case True
    then have p: "?p = ps ! unat i" by (simp add: nth_append)
    have "linked E (l_first l) ps" using inv by (simp add: cdi_inv_def)
    from linked_nth [OF this True] obtain e where e: "E (ps ! unat i) = Some e" "ps ! unat i \<noteq> 0" by blast
    have "cdi_inv (l\<lparr>l_cached_index := i, l_cached := ps ! unat i\<rparr>) E ps"
      using inv True by (simp add: cdi_inv_def nth_append)
    from evolves_same [OF this] show ?thesis using run e True p by (simp add: el_value_def)
  next
    case False
    then have "?p = 0" by (simp add: nth_append)
    then show ?thesis using run False evolves_same [OF inv] by simp
  qed
qed

lemma split_at_index:
  assumes "i \<noteq> 0" "unat i \<le> length ps"
  shows "ps = take (unat i - 1) ps @ ps ! (unat i - 1) # drop (unat i) ps"
    and "length (take (unat i - 1) ps) = unat i - 1"
proof -
  have "0 < unat i" using assms(1) by (simp add: unat_gt_0)
  then show "ps = take (unat i - 1) ps @ ps ! (unat i - 1) # drop (unat i) ps"
    using assms(2) id_take_nth_drop [of "unat i - 1" ps] by simp
qed (use assms in auto)

lemma cache_insert:
  fixes ci i :: u32
  assumes "unat ci \<le> length ps" "c = (ps @ [0]) ! unat ci" "length ps < 2 ^ 32 - 1" "ps = bs @ q # cs" "i \<noteq> 0"
    "length bs = unat i - 1"
    and "ci' = (if 1 < i then i - 1 else if ci = 0 then 0 else ci + 1)" "c' = (if 1 < i then q else c)"
  shows "unat ci' \<le> length (bs @ q # new # cs) \<and> c' = ((bs @ q # new # cs) @ [0]) ! unat ci'"
proof (cases "1 < i")
  case True
  then have "unat ci' = length bs" using assms by (simp add: unat_minus_one)
  then show ?thesis using True assms by (simp add: nth_append)
next
  case False
  then have "bs = []" using assms(5,6) by (metis diff_is_0_eq le_refl length_0_conv unat_1 word_less_nat_alt not_less)
  moreover have "ci \<noteq> 0 \<Longrightarrow> unat (ci + 1) = Suc (unat ci)"
    using assms(1,3) by (subst unat_add_lem [THEN iffD1]) simp_all
  moreover have "ci \<noteq> 0 \<Longrightarrow> 0 < unat ci" by (simp add: unat_gt_0)
  ultimately show ?thesis using False assms by (auto simp: nth_Cons')
qed

lemma values_insert:
  assumes "ps = bs @ q # cs" "i \<noteq> (0::u32)" "length bs = unat i - 1" "distinct ps" "new \<notin> set ps" "E q = Some e"
  shows "map (el_value (E(new \<mapsto> \<lparr>el_next = n, el_data = v\<rparr>, q \<mapsto> e\<lparr>el_next := new\<rparr>))) (bs @ q # new # cs) =
    take (unat i) (map (el_value E) ps) @ v # drop (unat i) (map (el_value E) ps)"
proof -
  have "unat i = length (bs @ [q])" using assms(2,3) by (simp add: unat_gt_0 Suc_pred)
  then have "take (unat i) ps = bs @ [q]" "drop (unat i) ps = cs" using assms(1) by simp_all
  then show ?thesis unfolding take_map drop_map using assms(1,4,5,6) by (simp only:) (auto simp: el_value_def)
qed

lemma insert_evolves:
  assumes inv: "cdi_inv l E ps" and fresh: "fresh_or_null calloc"
  shows "\<exists>b l' E' xs. cdi_list_insert calloc i v l E = Inr (b, l', E') \<and>
    list_spec (calloc E \<noteq> 0) (Insert i v) (map (el_value E) ps) = (Done b, xs) \<and> evolves E ps l' E' xs"
proof -
  let ?n = "calloc E"
  let ?E1 = "E(?n \<mapsto> \<lparr>el_next = 0, el_data = v\<rparr>)"
  consider "i = 0" | "i \<noteq> 0" "?n = 0" | "i \<noteq> 0" "?n \<noteq> 0" "length ps < unat i" | "i \<noteq> 0" "?n \<noteq> 0" "unat i \<le> length ps"
    by linarith
  then show ?thesis
  proof cases
    case 1
    obtain b l' E' where p: "cdi_list_push calloc v l E = (b, l', E')" by (metis prod_cases3)
    show ?thesis using push_evolves [OF inv fresh, of v] p 1
      by (intro exI [of _ b] exI [of _ l'] exI [of _ E']) (auto simp: cdi_list_insert_def split: if_splits)
  next
    case 2
    then show ?thesis using evolves_same [OF inv]
      by (intro exI [of _ False]) (auto simp: cdi_list_insert_def)
  next
    case 3
    then have none: "E ?n = None" using fresh by (auto simp: fresh_or_null_def)
    then have new: "?n \<notin> set ps" using linked_member inv unfolding cdi_inv_def by blast
    have inv1: "cdi_inv l ?E1 ps" using inv new by (simp add: cdi_inv_def)
    have "E(?n := None) = E" using none by auto
    then show ?thesis using 3 element_before_eq [OF inv1] evolves_same [OF inv]
      by (intro exI [of _ False]) (auto simp: cdi_list_insert_def free_el_def Let_def)
  next
    case 4
    let ?q = "ps ! (unat i - 1)"
    define bs where "bs = take (unat i - 1) ps"
    define cs where "cs = drop (unat i) ps"
    have ps: "ps = bs @ ?q # cs" and lb: "length bs = unat i - 1"
      unfolding bs_def cs_def using split_at_index [OF 4(1,3)] by blast+
    have none: "E ?n = None" using fresh 4 by (auto simp: fresh_or_null_def)
    have I: "linked E (l_first l) ps" "distinct ps" "l_size l = of_nat (length ps)" "unat (l_cached_index l) \<le> length ps"
        "l_cached l = (ps @ [0]) ! unat (l_cached_index l)"
      using inv by (auto simp: cdi_inv_def)
    have new: "?n \<notin> set ps" using linked_member [OF I(1)] none by blast
    have inv1: "cdi_inv l ?E1 ps" using inv new by (simp add: cdi_inv_def)
    have eb: "element_before i l ?E1 = Inr ?q" using element_before_eq [OF inv1 4(1)] 4(3) by simp
    have mem: "?q \<in> set ps" by (subst (2) ps) simp
    obtain e where e: "E ?q = Some e" "?q \<noteq> 0" using linked_member [OF I(1) mem] by auto
    have nq: "?q \<noteq> ?n" using mem new by metis
    let ?E2 = "E(?n \<mapsto> \<lparr>el_next = el_next e, el_data = v\<rparr>, ?q \<mapsto> e\<lparr>el_next := ?n\<rparr>)"
    let ?ci = "if 1 < i then i - 1 else if l_cached_index l = 0 then 0 else l_cached_index l + 1"
    let ?l = "l\<lparr>l_cached_index := ?ci, l_cached := if 1 < i then ?q else l_cached l, l_size := l_size l + 1\<rparr>"
    have one: "i = 1" if "\<not> 1 < i" using that 4(1) by (metis word_less_1 antisym_conv3)
    have run: "cdi_list_insert calloc i v l E = Inr (True, ?l, ?E2)"
      using 4 eb e nq one by (auto simp: cdi_list_insert_def Let_def)
    have ln: "linked ?E2 (l_first l) (bs @ ?q # ?n # cs)"
      by (rule linked_insert) (use I(1,2) ps new 4(2) e(1) in simp_all)
    have di: "distinct (bs @ ?q # ?n # cs)"
      using I(2) new by (subst (asm) ps, subst (asm) (2) ps) auto
    have "length (bs @ ?q # ?n # cs) < 2 ^ 32" by (rule linked_short [OF ln di])
    then have len: "length ps < 2 ^ 32 - 1" by (subst ps) simp
    have "cdi_inv ?l ?E2 (bs @ ?q # ?n # cs)"
      using cache_insert [OF I(4,5) len ps 4(1) lb refl refl, of ?n] ln di I(3) arg_cong [OF ps, of length]
      by (simp add: cdi_inv_def)
    moreover have "map (el_value ?E2) (bs @ ?q # ?n # cs) = take (unat i) (map (el_value E) ps) @ v # drop (unat i) (map (el_value E) ps)"
      by (rule values_insert [where E = E, OF ps 4(1) lb I(2) new e(1)])
    moreover have "?E2 |` (- set (bs @ ?q # ?n # cs)) = E |` (- set ps)"
      using none unfolding arg_cong [OF ps, of set] by (auto simp: restrict_map_def fun_eq_iff)
    ultimately have "evolves E ps ?l ?E2 (take (unat i) (map (el_value E) ps) @ v # drop (unat i) (map (el_value E) ps))"
      unfolding evolves_def by blast
    then show ?thesis using run 4(2,3) by (intro exI [of _ True] exI [of _ ?l] exI [of _ ?E2]) simp
  qed
qed

lemma cache_remove:
  fixes ci i :: u32
  assumes "unat ci \<le> length ps" "c = (ps @ [0]) ! unat ci" "ps = bs @ q # old # cs" "i \<noteq> 0" "length bs = unat i - 1"
    and "i = 1 \<Longrightarrow> 1 < ci" "ci' = (if i = 1 then ci - 1 else i - 1)" "c' = (if i = 1 then c else q)"
  shows "unat ci' \<le> length (bs @ q # cs) \<and> c' = ((bs @ q # cs) @ [0]) ! unat ci'"
proof (cases "i = 1")
  case True
  with assms(6) have "1 < unat ci" by (simp add: word_less_nat_alt)
  moreover from this have "unat (ci - 1) = unat ci - 1" by (subst unat_minus_one) auto
  ultimately show ?thesis using True assms(1-3,5,7,8) by (auto simp: nth_Cons')
next
  case False
  then have "unat ci' = length bs" using assms(4,5,7) by (simp add: unat_minus_one)
  then show ?thesis using False assms(8) by (simp add: nth_append)
qed

lemma values_remove:
  assumes "ps = bs @ q # old # cs" "i \<noteq> (0::u32)" "length bs = unat i - 1" "distinct ps" "E q = Some e"
  shows "map (el_value (E(q \<mapsto> e\<lparr>el_next := n\<rparr>, old := None))) (bs @ q # cs) =
    take (unat i) (map (el_value E) ps) @ drop (Suc (unat i)) (map (el_value E) ps)"
proof -
  have "unat i = length (bs @ [q])" using assms(2,3) by (simp add: unat_gt_0 Suc_pred)
  then have "take (unat i) ps = bs @ [q]" "drop (Suc (unat i)) ps = cs" using assms(1) by simp_all
  then show ?thesis unfolding take_map drop_map using assms(1,4,5) by (simp only:) (auto simp: el_value_def)
qed

lemma remove_evolves:
  assumes inv: "cdi_inv l E ps" and car: "careful (Remove i) l"
  shows "\<exists>v l' E' xs. cdi_list_remove i l E = Inr (v, l', E') \<and>
    list_spec ok (Remove i) (map (el_value E) ps) = (Data v, xs) \<and> evolves E ps l' E' xs"
proof -
  have I: "linked E (l_first l) ps" "distinct ps" "l_size l = of_nat (length ps)" "unat (l_cached_index l) \<le> length ps"
      "l_cached l = (ps @ [0]) ! unat (l_cached_index l)"
    using inv by (auto simp: cdi_inv_def)
  consider "i = 0" | "i \<noteq> 0" "length ps < unat i" | "i \<noteq> 0" "unat i = length ps" | "i \<noteq> 0" "unat i < length ps"
    by linarith
  then show ?thesis
  proof cases
    case 1
    then have "careful Pop l" using car by (auto simp: careful_def)
    from pop_evolves [OF inv this, of ok] 1 show ?thesis
      by (cases ps) (auto simp: cdi_list_remove_def)
  next
    case 2
    then show ?thesis using element_before_eq [OF inv 2(1)] evolves_same [OF inv] by (simp add: cdi_list_remove_def)
  next
    case 3
    have pos: "0 < unat i" using 3(1) by (simp add: unat_gt_0)
    obtain e where "E (ps ! (unat i - 1)) = Some e" "ps ! (unat i - 1) \<noteq> 0" "el_next e = (ps @ [0]) ! Suc (unat i - 1)"
      using linked_nth [OF I(1), of "unat i - 1"] 3(2) pos by auto
    then show ?thesis using element_before_eq [OF inv 3(1)] evolves_same [OF inv] 3 pos
      by (simp add: cdi_list_remove_def)
  next
    case 4
    let ?q = "ps ! (unat i - 1)" and ?o = "ps ! unat i"
    define bs where "bs = take (unat i - 1) ps"
    define cs where "cs = drop (Suc (unat i)) ps"
    have ps: "ps = bs @ ?q # ?o # cs" and lb: "length bs = unat i - 1"
      unfolding bs_def cs_def using split_at_index [of i ps] 4 by (simp_all add: Cons_nth_drop_Suc)
    have pos: "0 < unat i" using 4(1) by (simp add: unat_gt_0)
    obtain e where e: "E ?q = Some e" "?q \<noteq> 0" "el_next e = ?o"
      using linked_nth [OF I(1), of "unat i - 1"] 4(2) pos by (auto simp: nth_append less_imp_diff_less)
    obtain e' where e': "E ?o = Some e'" "?o \<noteq> 0" using linked_nth [OF I(1) 4(2)] by auto
    have ne: "?q \<noteq> ?o" using I(2) 4(2) pos by (simp add: nth_eq_iff_index_eq)
    have ci: "1 < l_cached_index l" if "i = 1"
    proof -
      have "unat (l_size l) = length ps" unfolding I(3) using linked_short [OF I(1,2)] by (simp only: unat_of_nat) simp
      with 4(2) that have "\<not> l_size l \<le> 1" by (simp add: word_le_nat_alt)
      with car that show ?thesis by (simp add: careful_def)
    qed
    let ?E2 = "E(?q \<mapsto> e\<lparr>el_next := el_next e'\<rparr>, ?o := None)"
    let ?l = "l\<lparr>l_cached_index := if i = 1 then l_cached_index l - 1 else i - 1,
      l_cached := if i = 1 then l_cached l else ?q, l_size := l_size l - 1\<rparr>"
    have run: "cdi_list_remove i l E = Inr (el_data e', ?l, ?E2)"
      using 4 element_before_eq [OF inv 4(1)] e e' ne by (auto simp: cdi_list_remove_def Let_def free_el_def)
    have ln: "linked ?E2 (l_first l) (bs @ ?q # cs)"
      by (rule linked_remove) (use I(1,2) ps e(1) e'(1) in simp_all)
    have di: "distinct (bs @ ?q # cs)" using I(2) by (subst (asm) ps) auto
    have "cdi_inv ?l ?E2 (bs @ ?q # cs)"
      using cache_remove [OF I(4,5) ps 4(1) lb ci refl refl] ln di I(3) arg_cong [OF ps, of length]
      by (simp add: cdi_inv_def)
    moreover have "?E2 |` (- set (bs @ ?q # cs)) = E |` (- set ps)"
      unfolding arg_cong [OF ps, of set] by (auto simp: restrict_map_def fun_eq_iff)
    ultimately have "evolves E ps ?l ?E2 (take (unat i) (map (el_value E) ps) @ drop (Suc (unat i)) (map (el_value E) ps))"
      using values_remove [where E = E, OF ps 4(1) lb I(2) e(1), of "el_next e'"] unfolding evolves_def by blast
    then show ?thesis using run 4(2) e'(1) by (simp add: el_value_def)
  qed
qed

section \<open>Sequences of operations\<close>

lemma size_inv: "cdi_inv l E ps \<Longrightarrow> cdi_list_empty l \<longleftrightarrow> ps = []"
proof -
  assume inv: "cdi_inv l E ps"
  then have "length ps < 2 ^ 32" using linked_short by (auto simp: cdi_inv_def)
  then have "unat (l_size l) = length ps" using inv by (simp add: cdi_inv_def unat_of_nat)
  then show ?thesis by (auto simp: cdi_list_empty_def unat_eq_zero)
qed

lemma cdi_step_evolves:
  assumes inv: "cdi_inv l E ps" and fresh: "fresh_or_null calloc" and car: "careful c l"
  shows "\<exists>r l' E' xs. cdi_step calloc c (l, E) = Inr (r, l', E') \<and>
    list_spec (calloc E \<noteq> 0) c (map (el_value E) ps) = (r, xs) \<and> evolves E ps l' E' xs"
proof (cases c)
  case (Push v)
  obtain b l' E' where p: "cdi_list_push calloc v l E = (b, l', E')" by (metis prod_cases3)
  show ?thesis
    using push_evolves [OF inv fresh, of v] p Push
    by (intro exI [of _ "Done b"] exI [of _ l'] exI [of _ E']) (auto simp: cdi_step_def)
next
  case Pop
  then show ?thesis using pop_evolves [OF inv, of "calloc E \<noteq> 0"] car by (auto simp: cdi_step_def)
next
  case (Get i)
  then show ?thesis using get_evolves [OF inv, of i "calloc E \<noteq> 0"] by (auto simp: cdi_step_def)
next
  case (Insert i v)
  obtain b l' E' xs where "cdi_list_insert calloc i v l E = Inr (b, l', E')"
      "list_spec (calloc E \<noteq> 0) (Insert i v) (map (el_value E) ps) = (Done b, xs)" "evolves E ps l' E' xs"
    using insert_evolves [OF inv fresh, of i v] by blast
  then show ?thesis unfolding Insert
    by (intro exI [of _ "Done b"] exI [of _ l'] exI [of _ E'] exI [of _ xs]) (simp add: cdi_step_def)
next
  case (Remove i)
  obtain v l' E' xs where "cdi_list_remove i l E = Inr (v, l', E')"
      "list_spec (calloc E \<noteq> 0) (Remove i) (map (el_value E) ps) = (Data v, xs)" "evolves E ps l' E' xs"
    using remove_evolves [OF inv, of i "calloc E \<noteq> 0"] car Remove by blast
  then show ?thesis unfolding Remove
    by (intro exI [of _ "Data v"] exI [of _ l'] exI [of _ E'] exI [of _ xs]) (simp add: cdi_step_def)
next
  case Size
  then show ?thesis using evolves_same [OF inv] inv by (simp add: cdi_step_def cdi_list_size_def cdi_inv_def)
next
  case Empty
  then show ?thesis using evolves_same [OF inv] size_inv [OF inv] by (simp add: cdi_step_def)
qed

lemma evolves_trans:
  "E1 |` (- set ps1) = E |` (- set ps) \<Longrightarrow> evolves E1 ps1 l2 E2 xs \<Longrightarrow> evolves E ps l2 E2 xs"
  by (simp add: evolves_def)

lemma cdi_run_spec:
  assumes "cdi_inv l E ps" "fresh_or_null calloc" "careful_run calloc cs (l, E)"
  shows "\<exists>rs l' E' xs. cdi_run calloc cs (l, E) = Inr (rs, l', E') \<and> length rs = length cs \<and>
    list_spec_run (has_memory calloc cs (l, E)) cs (map (el_value E) ps) = (rs, xs) \<and> evolves E ps l' E' xs"
  using assms(1,3)
proof (induction cs arbitrary: l E ps)
  case Nil
  then show ?case using evolves_same by (intro exI [of _ "[]"]) auto
next
  case (Cons c cs)
  then have "careful c l" by simp
  from cdi_step_evolves [OF Cons.prems(1) assms(2) this] obtain r l1 E1 xs1
    where st: "cdi_step calloc c (l, E) = Inr (r, l1, E1)" "list_spec (calloc E \<noteq> 0) c (map (el_value E) ps) = (r, xs1)"
      "evolves E ps l1 E1 xs1" by blast
  then obtain ps1 where ps1: "cdi_inv l1 E1 ps1" "map (el_value E1) ps1 = xs1"
      "E1 |` (- set ps1) = E |` (- set ps)" unfolding evolves_def by blast
  have "careful_run calloc cs (l1, E1)" using Cons.prems(2) st(1) by simp
  from Cons.IH [OF ps1(1) this] obtain rs l2 E2 xs2
    where "cdi_run calloc cs (l1, E1) = Inr (rs, l2, E2)" "length rs = length cs"
      "list_spec_run (has_memory calloc cs (l1, E1)) cs xs1 = (rs, xs2)" "evolves E1 ps1 l2 E2 xs2" unfolding ps1(2) by blast
  with st evolves_trans [OF ps1(3)] show ?case
    by (intro exI [of _ "r # rs"] exI [of _ l2] exI [of _ E2] exI [of _ xs2]) simp
qed

lemma cdi_create_inv: "cdi_inv cdi_list_create E []"
  by (simp add: cdi_inv_def cdi_list_create_def)

text \<open>\<open>cdi_list_destroy\<close> returns, and frees the elements of the list and nothing else.\<close>

lemma destroy_linked:
  "linked E p ps \<Longrightarrow> distinct ps \<Longrightarrow> destroy_elements E p = Some (Inr (E |` (- set ps)))"
proof (induction ps arbitrary: E p)
  case Nil
  then show ?case by (subst destroy_elements.simps) simp
next
  case (Cons q qs)
  then obtain e where e: "E q = Some e" "q \<noteq> 0" "p = q" "linked E (el_next e) qs" by (auto split: option.splits)
  have "q \<notin> set qs" using Cons.prems(2) by simp
  from linked_upd [OF this, of E None] e(4) have "linked (E(q := None)) (el_next e) qs" by (simp only:)
  then have "destroy_elements (E(q := None)) (el_next e) = Some (Inr ((E(q := None)) |` (- set qs)))"
    by (rule Cons.IH) (use Cons.prems(2) in simp)
  moreover have "(E(q := None)) |` (- set qs) = E |` (- set (q # qs))" by (auto simp: restrict_map_def)
  ultimately show ?case using e by (subst destroy_elements.simps) simp
qed

lemma cdi_list_destroy_inv: "cdi_inv l E ps \<Longrightarrow> cdi_list_destroy l E = Inr (E |` (- set ps))"
  using destroy_linked [of E "l_first l" ps] by (simp add: cdi_list_destroy_def cdi_inv_def)

section \<open>The lists of the driver interface\<close>

text \<open>C27: A list of the driver interface behaves as a list. With a \<open>calloc\<close> that gives an address not in use or NULL, any sequence of pushes, insertions, lookups and removals on a
  new list returns what the same operations return on a sequence of values, where a push succeeds exactly when \<open>calloc\<close> gives an
  element in the state in which the push finds the list, and an insertion exactly when in addition its index is not behind the end. This holds
  whatever the cache of the last lookup holds, provided that every operation is careful: no removal of the first
  element while the cached index is 0, and no removal of the second element while the cached index is 0 or 1 (the index
  would wrap around or name a freed element). \<open>cdi_list_destroy\<close> then ends, and leaves the store as it was before the
  list was created: nothing is leaked and no element of another list is touched.\<close>

theorem cdi_list_refines:
  assumes "fresh_or_null calloc" "careful_run calloc cs (cdi_list_create, E)"
  shows "\<exists>rs l' E' xs. cdi_run calloc cs (cdi_list_create, E) = Inr (rs, l', E') \<and> length rs = length cs \<and>
    list_spec_run (has_memory calloc cs (cdi_list_create, E)) cs [] = (rs, xs) \<and>
    cdi_list_size l' = of_nat (length xs) \<and> cdi_list_destroy l' E' = Inr E"
proof -
  obtain rs l' E' xs where r: "cdi_run calloc cs (cdi_list_create, E) = Inr (rs, l', E')" "length rs = length cs"
      "list_spec_run (has_memory calloc cs (cdi_list_create, E)) cs [] = (rs, xs)" "evolves E [] l' E' xs"
    using cdi_run_spec [OF cdi_create_inv assms] by auto
  then obtain ps where "cdi_inv l' E' ps" "map (el_value E') ps = xs" "E' |` (- set ps) = E" by (auto simp: evolves_def)
  with r show ?thesis using cdi_list_destroy_inv by (fastforce simp: cdi_list_size_def cdi_inv_def)
qed

definition first_free :: "cdi_store \<Rightarrow> u32" where
  "first_free E = (if E 16 = None then 16 else if E 32 = None then 32 else if E 48 = None then 48 else 0)"

lemma first_free_fresh: "fresh_or_null first_free"
  by (simp add: fresh_or_null_def first_free_def)

theorem cdi_list_refines_witness:
  "\<exists>rs l' E' xs. cdi_run first_free [Push 7, Push 8, Get 1, Insert 1 9, Insert 0 5, Pop, Get 1] (cdi_list_create, (\<lambda>_. None)) = Inr (rs, l', E') \<and>
     list_spec_run [True, True, True, True, False, False, True] [Push 7, Push 8, Get 1, Insert 1 9, Insert 0 5, Pop, Get 1] [] = (rs, xs) \<and>
     cdi_list_size l' = of_nat (length xs) \<and> cdi_list_destroy l' E' = Inr (\<lambda>_. None)"
proof -
  have w: "careful_run first_free [Push 7, Push 8, Get 1, Insert 1 9, Insert 0 5, Pop, Get 1] (cdi_list_create, (\<lambda>_. None))"
    "has_memory first_free [Push 7, Push 8, Get 1, Insert 1 9, Insert 0 5, Pop, Get 1] (cdi_list_create, (\<lambda>_. None))
      = [True, True, True, True, False, False, True]"
    by code_simp+
  from cdi_list_refines [OF first_free_fresh w(1)] show ?thesis unfolding w(2) by blast
qed

text \<open>Without that care an element is used after it has been freed: \<open>get(0); pop; push; get(1)\<close> on a list of two.\<close>

lemma cdi_list_stale_cache:
  "cdi_run first_free [Push 7, Push 8, Get 0, Pop] (cdi_list_create, (\<lambda>_. None)) =
     Inr ([Done True, Done True, Data 8, Data 8],
       \<lparr>l_first = 16, l_cached = 32, l_cached_index = 0, l_size = 1\<rparr>, [16 \<mapsto> \<lparr>el_next = 0, el_data = 7\<rparr>])"
  "calloc [16 \<mapsto> \<lparr>el_next = 0, el_data = 7\<rparr>] = 48 \<Longrightarrow>
   cdi_run calloc [Push 9, Get 1]
     (\<lparr>l_first = 16, l_cached = 32, l_cached_index = 0, l_size = 1\<rparr>, [16 \<mapsto> \<lparr>el_next = 0, el_data = 7\<rparr>]) = Inl BadPointer"
  by (auto simp: cdi_step_def cdi_list_push_def cdi_list_get_def cdi_list_pop_def
      cdi_list_create_def first_free_def deref_el_def free_el_def Let_def fun_eq_iff)

text \<open>The index of the cache wraps around when the second element is removed while the cache is at the first one; two pushes
  later the cache names the wrong element.\<close>

lemma cdi_list_wrapped_index:
  "map_sum id fst (cdi_run first_free [Push 7, Push 8, Get 0, Remove 1, Push 9, Push 10, Get 1] (cdi_list_create, (\<lambda>_. None))) =
     Inr [Done True, Done True, Data 8, Data 7, Done True, Done True, Data 8]"
  by (simp add: cdi_step_def cdi_list_push_def cdi_list_get_def cdi_list_remove_def element_before_def
      cdi_list_create_def first_free_def deref_el_def free_el_def Let_def fun_upd_def)

end
