(* ===== verification/Env.thy ===== *)
theory Env
  imports Prelude
begin

text \<open>
  The environment of a process (\<open>lib/common/stdlib/\<close> \<open>getenv.c\<close>, \<open>setenv.c\<close>, \<open>putenv.c\<close>, \<open>unsetenv.c\<close>, \<open>clearenv.c\<close>). The global
  \<open>environ\<close> is \<open>None\<close> for the null pointer, otherwise the list of the strings before the null pointer at the end of
  the array. Strings are values: that \<open>putenv\<close> keeps the pointer of its caller is not visible. Whether \<open>realloc\<close> finds
  memory is a parameter.
\<close>

section \<open>Definitions\<close>

type_synonym environ = "string list option"

datatype env_errno = EINVAL_env

text \<open>\<open>!strncmp(e, name, len) && (e[len] == '=')\<close> with \<open>len\<close> the length of \<open>name\<close>.\<close>

definition names_entry :: "string \<Rightarrow> string \<Rightarrow> bool" where
  "names_entry name e \<longleftrightarrow>
    take (length name) e = name \<and> length name < length e \<and> e ! length name = CHR ''=''"

text \<open>The loop over the array: the index of the first entry of that name, or of the null pointer.\<close>

fun entry_index :: "string \<Rightarrow> string list \<Rightarrow> nat" where
  "entry_index name [] = 0"
| "entry_index name (e # es) = (if names_entry name e then 0 else Suc (entry_index name es))"

definition getenv :: "string \<Rightarrow> environ \<Rightarrow> string option outcome" where
  "getenv name env = (case env of None \<Rightarrow> Inl BadPointer
     | Some es \<Rightarrow>
         let i = entry_index name es in
         Inr (if i < length es then Some (drop (length name + 1) (es ! i)) else None))"

definition append_entry :: "bool \<Rightarrow> string \<Rightarrow> string list \<Rightarrow> environ \<Rightarrow> int \<times> environ" where
  "append_entry mem e es env = (if mem then (0, Some (es @ [e])) else (-1, env))"

definition setenv ::
  "bool \<Rightarrow> string option \<Rightarrow> string option \<Rightarrow> bool \<Rightarrow> environ \<Rightarrow> int \<times> env_errno option \<times> environ" where
  "setenv mem name value overwrite env = (case (name, value) of
      (Some n, Some val) \<Rightarrow>
        if n = [] \<or> CHR ''='' \<in> set n \<or> val = [] then (-1, Some EINVAL_env, env)
        else
          let es = (case env of None \<Rightarrow> [] | Some es \<Rightarrow> es); i = entry_index n es in
          if i < length es then
            (if \<not> overwrite then (0, None, env) else (0, None, Some (es[i := n @ ''='' @ val])))
          else (case append_entry mem (n @ ''='' @ val) es env of (r, env) \<Rightarrow> (r, None, env))
    | _ \<Rightarrow> (-1, Some EINVAL_env, env))"

text \<open>\<open>putenv\<close>: a string with \<open>=\<close> is added or replaces an entry, a name alone removes one, whose place the last entry takes.\<close>

definition putenv :: "bool \<Rightarrow> string \<Rightarrow> environ \<Rightarrow> int \<times> environ" where
  "putenv mem str env =
    (let free_var = CHR ''='' \<notin> set str;
         name = takeWhile (\<lambda>ch. ch \<noteq> CHR ''='') str;
         es = (case env of None \<Rightarrow> [] | Some es \<Rightarrow> es);
         i = entry_index name es
     in
     if i < length es then
       (if \<not> free_var then (0, Some (es[i := str]))
        else (0, Some (butlast (es[i := es ! (length es - 1)]))))
     else if free_var then (0, env)
     else append_entry mem str es env)"

definition unsetenv :: "bool \<Rightarrow> string option \<Rightarrow> environ \<Rightarrow> int \<times> env_errno option \<times> environ" where
  "unsetenv mem name env = (case name of None \<Rightarrow> (-1, Some EINVAL_env, env)
    | Some n \<Rightarrow> if n = [] \<or> CHR ''='' \<in> set n then (-1, Some EINVAL_env, env)
        else (0, None, snd (putenv mem n env)))"

definition clearenv :: "environ \<Rightarrow> int \<times> environ" where
  "clearenv env = (0, None)"

section \<open>The specification: a map from names to values\<close>

definition env_key :: "string \<Rightarrow> string" where
  "env_key e = takeWhile (\<lambda>ch. ch \<noteq> CHR ''='') e"

definition env_value :: "string \<Rightarrow> string" where
  "env_value e = tl (dropWhile (\<lambda>ch. ch \<noteq> CHR ''='') e)"

definition env_list :: "environ \<Rightarrow> string list" where
  "env_list env = (case env of None \<Rightarrow> [] | Some es \<Rightarrow> es)"

lemma env_list_Some [simp]: "env_list (Some es) = es"
  by (simp add: env_list_def)

text \<open>Every entry has a name, and no name has two entries.\<close>

definition env_wf :: "environ \<Rightarrow> bool" where
  "env_wf env \<longleftrightarrow> (\<forall>e \<in> set (env_list env). CHR ''='' \<in> set e) \<and> distinct (map env_key (env_list env))"

definition env_map :: "environ \<Rightarrow> string \<Rightarrow> string option" where
  "env_map env = map_of (map (\<lambda>e. (env_key e, env_value e)) (env_list env))"

datatype env_op = Setenv string string bool | Putenv string | Unsetenv string | Clearenv

definition env_step :: "bool \<Rightarrow> environ \<Rightarrow> env_op \<Rightarrow> environ" where
  "env_step mem env c = (case c of
      Setenv n val ov \<Rightarrow> snd (snd (setenv mem (Some n) (Some val) ov env))
    | Putenv str \<Rightarrow> snd (putenv mem str env)
    | Unsetenv n \<Rightarrow> snd (snd (unsetenv mem (Some n) env))
    | Clearenv \<Rightarrow> snd (clearenv env))"

text \<open>What the manual pages say, except that \<open>setenv\<close> refuses empty values.\<close>

definition env_spec :: "(string \<Rightarrow> string option) \<Rightarrow> env_op \<Rightarrow> string \<Rightarrow> string option" where
  "env_spec m c = (case c of
      Setenv n val ov \<Rightarrow>
        if n = [] \<or> CHR ''='' \<in> set n \<or> val = [] \<or> (m n \<noteq> None \<and> \<not> ov) then m else m(n \<mapsto> val)
    | Putenv str \<Rightarrow> if CHR ''='' \<in> set str then m(env_key str \<mapsto> env_value str) else m(str := None)
    | Unsetenv n \<Rightarrow> if n = [] \<or> CHR ''='' \<in> set n then m else m(n := None)
    | Clearenv \<Rightarrow> Map.empty)"

section \<open>Lemmas\<close>

lemma split_entry: "CHR ''='' \<in> set e \<Longrightarrow> e = env_key e @ ''='' @ env_value e"
  by (induction e) (auto simp: env_key_def env_value_def)

lemma key_no_equals: "CHR ''='' \<notin> set (env_key e)"
  by (auto simp: env_key_def dest: set_takeWhileD)

lemma key_value_parts [simp]:
  "CHR ''='' \<notin> set n \<Longrightarrow> env_key (n @ CHR ''='' # val) = n" "CHR ''='' \<notin> set n \<Longrightarrow> env_value (n @ CHR ''='' # val) = val"
  by (induction n) (auto simp: env_key_def env_value_def)

lemma names_entry_iff:
  assumes "CHR ''='' \<in> set e" "CHR ''='' \<notin> set n"
  shows "names_entry n e \<longleftrightarrow> env_key e = n"
proof
  assume h: "names_entry n e"
  then have "e = n @ CHR ''='' # drop (Suc (length n)) e"
    unfolding names_entry_def by (metis append_take_drop_id Cons_nth_drop_Suc)
  then show "env_key e = n" using assms(2) key_value_parts(1) by metis
next
  assume "env_key e = n"
  with split_entry [OF assms(1)] have e: "e = n @ CHR ''='' # env_value e" by simp
  have "names_entry n (n @ CHR ''='' # val)" for val by (simp add: names_entry_def)
  then show "names_entry n e" using e by metis
qed

lemma entry_index_spec:
  assumes "\<forall>e \<in> set es. CHR ''='' \<in> set e" "CHR ''='' \<notin> set n"
  shows "entry_index n es < length es \<Longrightarrow> env_key (es ! entry_index n es) = n"
    and "\<not> entry_index n es < length es \<Longrightarrow> n \<notin> env_key ` set es"
    and "entry_index n es \<le> length es"
  using assms by (induction es) (auto simp: names_entry_iff split: if_splits)

definition pairs :: "string list \<Rightarrow> (string \<times> string) list" where
  "pairs es = map (\<lambda>e. (env_key e, env_value e)) es"

lemma env_map_pairs: "env_map env = map_of (pairs (env_list env))"
  by (simp add: env_map_def pairs_def)

lemma pairs_simps [simp]: "pairs [] = []" "pairs (e # es) = (env_key e, env_value e) # pairs es" "pairs (es @ fs) = pairs es @ pairs fs"
  by (simp_all add: pairs_def)

lemma fst_pairs [simp]: "map fst (pairs es) = map env_key es" "fst ` set (pairs es) = env_key ` set es"
  by (auto simp: pairs_def image_iff comp_def)

lemma map_of_absent: "n \<notin> env_key ` set es \<Longrightarrow> map_of (pairs es) n = None"
  by (simp add: map_of_eq_None_iff)

text \<open>Replacing, removing and appending an entry of a list without double names.\<close>

lemma split_at: "i < length es \<Longrightarrow> es = take i es @ es ! i # drop (Suc i) es"
  by (simp add: id_take_nth_drop)

lemma map_replace:
  assumes "distinct (map env_key (as @ x # bs))" "env_key y = env_key x"
  shows "map_of (pairs (as @ y # bs)) = (map_of (pairs (as @ x # bs)))(env_key x \<mapsto> env_value y)"
    "distinct (map env_key (as @ y # bs))"
proof -
  have "env_key x \<notin> env_key ` set as" using assms(1) by auto
  then have "map_of (pairs as) (env_key x) = None" by (rule map_of_absent)
  then show "map_of (pairs (as @ y # bs)) = (map_of (pairs (as @ x # bs)))(env_key x \<mapsto> env_value y)"
    using assms(2) by (auto simp: map_add_def fun_eq_iff split: option.splits)
  show "distinct (map env_key (as @ y # bs))" using assms by simp
qed

lemma map_remove:
  assumes "distinct (map env_key (as @ x # bs))"
  shows "map_of (pairs (as @ bs)) = (map_of (pairs (as @ x # bs)))(env_key x := None)"
proof -
  have "env_key x \<notin> env_key ` set as" "env_key x \<notin> env_key ` set bs" using assms by auto
  then have "map_of (pairs as) (env_key x) = None" "map_of (pairs bs) (env_key x) = None" by (simp_all add: map_of_absent)
  then show ?thesis by (auto simp: map_add_def fun_eq_iff split: option.splits)
qed

lemma map_rotate:
  assumes "distinct (map env_key (as @ y # cs))"
  shows "map_of (pairs (as @ y # cs)) = map_of (pairs (as @ cs @ [y]))"
proof (rule map_of_eqI)
  show "set (map fst (pairs (as @ y # cs))) = set (map fst (pairs (as @ cs @ [y])))" by auto
  show "\<forall>k \<in> set (map fst (pairs (as @ y # cs))). map_of (pairs (as @ y # cs)) k = map_of (pairs (as @ cs @ [y])) k"
  proof
    fix k
    have d: "distinct (map fst (pairs (as @ y # cs)))" "distinct (map fst (pairs (as @ cs @ [y])))" using assms by auto
    have "set (pairs (as @ y # cs)) = set (pairs (as @ cs @ [y]))" by auto
    then show "map_of (pairs (as @ y # cs)) k = map_of (pairs (as @ cs @ [y])) k"
      using map_of_eq_Some_iff [OF d(1), of k] map_of_eq_Some_iff [OF d(2), of k]
      by (metis not_None_eq option.sel)
  qed
qed

lemma swap_remove:
  assumes "i < length es" "distinct (map env_key es)"
  defines "fs \<equiv> butlast (es[i := es ! (length es - 1)])"
  shows "map_of (pairs fs) = (map_of (pairs es))(env_key (es ! i) := None)" "distinct (map env_key fs)" "set fs \<subseteq> set es"
proof -
  define as where "as = take i es"
  define bs where "bs = drop (Suc i) es"
  have es: "es = as @ es ! i # bs" unfolding as_def bs_def by (rule split_at [OF assms(1)])
  have up: "es[i := y] = as @ y # bs" for y unfolding as_def bs_def using assms(1) by (simp add: upd_conv_take_nth_drop)
  have d: "distinct (map env_key (as @ es ! i # bs))" using assms(2) es by metis
  show "map_of (pairs fs) = (map_of (pairs es))(env_key (es ! i) := None)" "distinct (map env_key fs)" "set fs \<subseteq> set es"
  proof -
    have "map_of (pairs fs) = (map_of (pairs (as @ es ! i # bs)))(env_key (es ! i) := None) \<and> distinct (map env_key fs) \<and>
      set fs \<subseteq> set (as @ es ! i # bs)"
    proof (cases bs rule: rev_cases)
      case Nil
      then have "fs = as" unfolding fs_def up by simp
      then show ?thesis using d map_remove [OF d] Nil by auto
    next
      case (snoc cs y)
      have "es ! (length es - 1) = y" using es snoc by (metis append_is_Nil_conv last_appendR last_conv_nth last_snoc list.distinct(1) last.simps)
      then have fs: "fs = as @ y # cs" unfolding fs_def up snoc by (simp add: butlast_append)
      have "distinct (map env_key (as @ y # cs))" using d snoc by auto
      then show ?thesis using map_rotate [of as y cs] map_remove [OF d] d unfolding fs snoc by auto
    qed
    then show "map_of (pairs fs) = (map_of (pairs es))(env_key (es ! i) := None)" "distinct (map env_key fs)" "set fs \<subseteq> set es"
      using es by metis+
  qed
qed

lemma put_entry:
  assumes wf: "env_wf env" and e: "CHR ''='' \<in> set e"
  defines "es \<equiv> env_list env" and "i \<equiv> entry_index (env_key e) (env_list env)"
  shows "i < length es \<Longrightarrow> env_wf (Some (es[i := e])) \<and> env_map (Some (es[i := e])) = (env_map env)(env_key e \<mapsto> env_value e)"
    and "\<not> i < length es \<Longrightarrow> env_wf (Some (es @ [e])) \<and> env_map (Some (es @ [e])) = (env_map env)(env_key e \<mapsto> env_value e)"
proof -
  have W: "\<forall>x \<in> set es. CHR ''='' \<in> set x" "distinct (map env_key es)" using wf by (auto simp: env_wf_def es_def)
  note idx = entry_index_spec [OF W(1) key_no_equals [of e]]
  show "env_wf (Some (es[i := e])) \<and> env_map (Some (es[i := e])) = (env_map env)(env_key e \<mapsto> env_value e)" if i: "i < length es"
  proof -
    let ?as = "take i es" and ?bs = "drop (Suc i) es"
    have up: "es[i := e] = ?as @ e # ?bs" and sp: "es = ?as @ es ! i # ?bs"
      using i split_at by (simp_all add: upd_conv_take_nth_drop)
    have k: "env_key e = env_key (es ! i)" using idx(1) i by (simp add: i_def es_def)
    have d: "distinct (map env_key (?as @ es ! i # ?bs))" using W(2) sp by metis
    have "env_map (Some (es[i := e])) = (map_of (pairs (?as @ es ! i # ?bs)))(env_key e \<mapsto> env_value e)"
      unfolding env_map_pairs env_list_def option.case up using map_replace(1) [OF d k] k by (simp only:)
    then have "env_map (Some (es[i := e])) = (env_map env)(env_key e \<mapsto> env_value e)"
      unfolding sp [symmetric] env_map_pairs [of env] es_def [symmetric] .
    moreover have "env_wf (Some (es[i := e]))"
      using W(1) e map_replace(2) [OF d k] unfolding env_wf_def env_list_def option.case up [symmetric]
      by (auto dest: set_update_subset_insert [THEN subsetD])
    ultimately show ?thesis by blast
  qed
  assume "\<not> i < length es"
  then have no: "env_key e \<notin> env_key ` set es" using idx(2) by (simp add: i_def es_def)
  have "map_of (pairs (es @ [e])) = (map_of (pairs es))(env_key e \<mapsto> env_value e)"
    using map_of_absent [OF no] by (auto simp: map_add_def fun_eq_iff split: option.splits)
  then show "env_wf (Some (es @ [e])) \<and> env_map (Some (es @ [e])) = (env_map env)(env_key e \<mapsto> env_value e)"
    using W e no by (auto simp: env_wf_def env_map_pairs env_list_def es_def)
qed

lemma putenv_spec:
  assumes wf: "env_wf env"
  shows "env_wf (snd (putenv True str env))" "env_map (snd (putenv True str env)) = env_spec (env_map env) (Putenv str)"
proof -
  let ?es = "env_list env" and ?n = "env_key str"
  have es: "(case env of None \<Rightarrow> [] | Some es \<Rightarrow> es) = ?es" by (simp add: env_list_def)
  have W: "\<forall>x \<in> set ?es. CHR ''='' \<in> set x" "distinct (map env_key ?es)" using wf by (auto simp: env_wf_def)
  note idx = entry_index_spec [OF W(1) key_no_equals [of str]]
  have "env_wf (snd (putenv True str env)) \<and> env_map (snd (putenv True str env)) = env_spec (env_map env) (Putenv str)"
  proof (cases "CHR ''='' \<in> set str")
    case True
    then show ?thesis using put_entry [OF wf True]
      by (simp add: putenv_def env_spec_def append_entry_def es env_key_def [symmetric] Let_def)
  next
    case False
    then have n: "env_key str = str" by (simp add: env_key_def takeWhile_eq_all_conv) metis
    show ?thesis
    proof (cases "entry_index str ?es < length ?es")
      case True
      note R = swap_remove [OF True W(2)]
      have "env_key (?es ! entry_index str ?es) = str" using idx(1) True n by simp
      moreover have "snd (putenv True str env) = Some (butlast (?es[entry_index str ?es := ?es ! (length ?es - 1)]))"
        using True False by (simp add: putenv_def es env_key_def [symmetric] n Let_def)
      ultimately show ?thesis using R W(1) False
        by (auto simp: env_spec_def env_wf_def env_map_pairs)
    next
      case False
      have "env_map env str = None" unfolding env_map_pairs by (rule map_of_absent) (use idx(2) False n in simp)
      then have "(env_map env)(str := None) = env_map env" by (simp add: fun_eq_iff)
      then show ?thesis using wf False \<open>CHR ''='' \<notin> set str\<close>
        by (simp add: putenv_def env_spec_def es env_key_def [symmetric] n Let_def)
    qed
  qed
  then show "env_wf (snd (putenv True str env))" "env_map (snd (putenv True str env)) = env_spec (env_map env) (Putenv str)" by blast+
qed

lemma getenv_spec:
  assumes "env_wf (Some es)" "CHR ''='' \<notin> set n"
  shows "getenv n (Some es) = Inr (env_map (Some es) n)"
proof -
  have W: "\<forall>x \<in> set es. CHR ''='' \<in> set x" "distinct (map env_key es)" using assms(1) by (auto simp: env_wf_def env_list_def)
  note idx = entry_index_spec [OF W(1) assms(2)]
  let ?i = "entry_index n es"
  show ?thesis
  proof (cases "?i < length es")
    case True
    let ?e = "es ! ?i"
    have e: "?e = n @ CHR ''='' # env_value ?e" using split_entry [of ?e] W(1) True idx(1) by simp
    then have v: "drop (length n + 1) ?e = env_value ?e" by (metis append_Cons append_Nil append_eq_conv_conj append.assoc length_append_singleton Suc_eq_plus1)
    have "(n, env_value ?e) \<in> set (pairs es)" using True idx(1) by (auto simp: pairs_def image_iff intro!: bexI [of _ ?e])
    then have "map_of (pairs es) n = Some (env_value ?e)" using W(2) by (intro map_of_is_SomeI) simp_all
    then show ?thesis using True v by (simp add: getenv_def Let_def env_map_pairs env_list_def)
  next
    case False
    then have "map_of (pairs es) n = None" using idx(2) map_of_absent by blast
    then show ?thesis using False by (simp add: getenv_def Let_def env_map_pairs env_list_def)
  qed
qed

lemma env_step_spec:
  assumes wf: "env_wf env"
  shows "env_wf (env_step True env c) \<and> env_map (env_step True env c) = env_spec (env_map env) c"
proof (cases c)
  case (Setenv n val ov)
  have es: "(case env of None \<Rightarrow> [] | Some es \<Rightarrow> es) = env_list env" by (simp add: env_list_def)
  show ?thesis
  proof (cases "n = [] \<or> CHR ''='' \<in> set n \<or> val = []")
    case True
    then show ?thesis using wf Setenv by (auto simp: env_step_def setenv_def env_spec_def)
  next
    case False
    let ?e = "n @ CHR ''='' # val"
    have e: "env_key ?e = n" "env_value ?e = val" using False by simp_all
    have W: "\<forall>x \<in> set (env_list env). CHR ''='' \<in> set x" using wf by (auto simp: env_wf_def)
    note idx = entry_index_spec [OF W, of n]
    have has: "entry_index n (env_list env) < length (env_list env) \<longleftrightarrow> env_map env n \<noteq> None"
    proof
      assume i: "entry_index n (env_list env) < length (env_list env)"
      then have "env_key (env_list env ! entry_index n (env_list env)) = n" using idx(1) False by simp
      with nth_mem [OF i] have "n \<in> env_key ` set (env_list env)" by (metis imageI)
      then show "env_map env n \<noteq> None" by (simp add: env_map_pairs map_of_eq_None_iff)
    next
      assume "env_map env n \<noteq> None"
      then show "entry_index n (env_list env) < length (env_list env)"
        using idx(2) False map_of_absent [of n "env_list env"] unfolding env_map_pairs by metis
    qed
    have "CHR ''='' \<in> set ?e" by simp
    note put = put_entry [OF wf this, unfolded e]
    show ?thesis
    proof (cases "env_map env n = None")
      case True
      then have "\<not> entry_index n (env_list env) < length (env_list env)" using has by simp
      with put(2) True False Setenv show ?thesis
        by (simp add: env_step_def setenv_def env_spec_def append_entry_def es Let_def)
    next
      case some: False
      then have "entry_index n (env_list env) < length (env_list env)" using has by simp
      with put(1) some False Setenv wf show ?thesis
        by (simp add: env_step_def setenv_def env_spec_def es Let_def)
    qed
  qed
next
  case (Putenv str)
  then show ?thesis using putenv_spec [OF wf] by (simp add: env_step_def)
next
  case (Unsetenv n)
  then show ?thesis using putenv_spec [OF wf, of n] wf by (auto simp: env_step_def unsetenv_def env_spec_def)
next
  case Clearenv
  then show ?thesis by (simp add: env_step_def clearenv_def env_spec_def env_wf_def env_list_def env_map_def)
qed

text \<open>C33: The environment is a map from names to values. After any sequence of \<open>setenv\<close>, \<open>putenv\<close>, \<open>unsetenv\<close> and \<open>clearenv\<close>
  with enough memory, \<open>getenv\<close> returns what the same sequence of updates of a map gives for the name, and no name has two
  entries; the exception is an environment that is the null pointer, as \<open>clearenv\<close> leaves it, which \<open>getenv\<close>
  dereferences.\<close>

theorem environment_is_map:
  assumes "env_wf env" "CHR ''='' \<notin> set n"
  shows "env_wf (foldl (env_step True) env cs) \<and>
    getenv n (foldl (env_step True) env cs) =
      (if foldl (env_step True) env cs = None then Inl BadPointer else Inr (foldl env_spec (env_map env) cs n))"
proof -
  have "env_wf (foldl (env_step True) env cs) \<and> env_map (foldl (env_step True) env cs) = foldl env_spec (env_map env) cs"
    using assms(1) by (induction cs arbitrary: env) (simp_all add: env_step_spec)
  then show ?thesis using getenv_spec [OF _ assms(2)] by (cases "foldl (env_step True) env cs") (auto simp: getenv_def)
qed

theorem environment_is_map_witness:
  "getenv ''A'' (foldl (env_step True) (Some [''B=1'']) [Setenv ''A'' ''2'' True, Putenv ''A=3'', Unsetenv ''B'']) = Inr (Some ''3'')"
proof -
  have wf: "env_wf (Some [''B=1''])" by (simp add: env_wf_def env_list_def)
  have "foldl (env_step True) (Some [''B=1'']) [Setenv ''A'' ''2'' True, Putenv ''A=3'', Unsetenv ''B''] \<noteq> None"
    by (simp add: env_step_def setenv_def putenv_def unsetenv_def append_entry_def names_entry_def Let_def)
  moreover have "foldl env_spec (env_map (Some [''B=1''])) [Setenv ''A'' ''2'' True, Putenv ''A=3'', Unsetenv ''B''] ''A'' = Some ''3''"
    by (simp add: env_spec_def env_map_def env_list_def env_key_def env_value_def)
  ultimately show ?thesis
    using environment_is_map [OF wf, of "''A''" "[Setenv ''A'' ''2'' True, Putenv ''A=3'', Unsetenv ''B'']"] by simp
qed

end
