(* ===== verification/Rand.thy ===== *)
theory Rand
  imports Prelude
begin

unbundle bit_operations_syntax

text \<open>
  The random numbers of the C library (\<open>lib/common/stdlib/rand.c\<close>): a Mersenne Twister with its state in an array that is updated
  in place. Every access to the array goes through the bounds of \<open>aget\<close> and \<open>aset\<close>; the lemmas show that none leaves it, that
  the results are in the range of \<open>rand\<close>, and that a seed has no effect after the first number.
\<close>

section \<open>Definitions\<close>

definition MT_N :: nat where "MT_N = 624"
definition MT_M :: nat where "MT_M = 397"

record twister =
  tw_y :: "u32 list"
  tw_index :: nat

text \<open>The state before the first call: the array of zeros that the loader provides, and the index behind its end.\<close>

definition twister0 :: twister where
  "twister0 = \<lparr>tw_y = replicate MT_N 0, tw_index = MT_N + 1\<rparr>"

definition tw_fill_step :: "u32 \<times> u32 \<times> u32 list \<Rightarrow> nat \<Rightarrow> (u32 \<times> u32 \<times> u32 list) outcome" where
  "tw_fill_step = (\<lambda>(r, s, y) i.
     let r = 509845221 * r + 3; s = s * (s + 1) in
     rbind (aset y i (s + drop_bit 10 r)) (\<lambda>y. Inr (r, s, y)))"

definition tw_fill :: "u32 \<Rightarrow> u32 \<Rightarrow> u32 list \<Rightarrow> u32 list outcome" where
  "tw_fill r s y = rbind (rfold tw_fill_step (r, s, y) [0..<MT_N]) (\<lambda>(_, _, y). Inr y)"

text \<open>\<open>h = (y[k] & HI) | (y[l] & LO); y[k] = y[m] ^ (h >> 1) ^ A[h & 1]\<close>\<close>

definition tw_mix :: "u32 list \<Rightarrow> nat \<Rightarrow> nat \<Rightarrow> nat \<Rightarrow> u32 list outcome" where
  "tw_mix y k l m =
     rbind (aget y k) (\<lambda>a. rbind (aget y l) (\<lambda>b. rbind (aget y m) (\<lambda>w.
       let h = (a AND 0x80000000) OR (b AND 0x7FFFFFFF) in
       rbind (aget [0, 0x9908B0DF] (unat (h AND 1))) (\<lambda>x.
         aset y k (w XOR drop_bit 1 h XOR x)))))"

definition tw_twist :: "u32 list \<Rightarrow> u32 list outcome" where
  "tw_twist y =
     rbind (rfold (\<lambda>y k. tw_mix y k (k + 1) (k + MT_M)) y [0..<MT_N - MT_M]) (\<lambda>y.
     rbind (rfold (\<lambda>y k. tw_mix y k (k + 1) (k - (MT_N - MT_M))) y [MT_N - MT_M..<MT_N - 1]) (\<lambda>y.
       tw_mix y (MT_N - 1) 0 (MT_M - 1)))"

definition tw_temper :: "u32 \<Rightarrow> u32" where
  "tw_temper e =
    (let e = e XOR drop_bit 11 e;
         e = e XOR (push_bit 7 e AND 0x9D2C5680);
         e = e XOR (push_bit 15 e AND 0xEFC60000)
     in e XOR drop_bit 18 e)"

definition mersenne_twister :: "u32 \<Rightarrow> u32 \<Rightarrow> twister \<Rightarrow> (u32 \<times> twister) outcome" where
  "mersenne_twister r s t =
    rbind (if MT_N \<le> tw_index t
           then rbind (if MT_N < tw_index t then tw_fill r s (tw_y t) else Inr (tw_y t)) (\<lambda>y.
                rbind (tw_twist y) (\<lambda>y. Inr \<lparr>tw_y = y, tw_index = 0\<rparr>))
           else Inr t) (\<lambda>t.
    rbind (aget (tw_y t) (tw_index t)) (\<lambda>e.
      Inr (tw_temper e, t\<lparr>tw_index := tw_index t + 1\<rparr>)))"

definition rand_r :: "u32 \<Rightarrow> twister \<Rightarrow> (u32 \<times> twister) outcome" where
  "rand_r seed t = rbind (mersenne_twister (seed AND 0xF) seed t) (\<lambda>(e, t). Inr (e AND 0x7FFFFFFF, t))"

text \<open>The library keeps the last number as the seed.\<close>

definition rand :: "u32 \<times> twister \<Rightarrow> (u32 \<times> u32 \<times> twister) outcome" where
  "rand = (\<lambda>(seed, t). rbind (rand_r seed t) (\<lambda>(seed, t). Inr (seed, seed, t)))"

definition srand :: "u32 \<Rightarrow> u32 \<times> twister \<Rightarrow> u32 \<times> twister" where
  "srand s = (\<lambda>(seed, t). (s, t))"

text \<open>A sequence of calls: \<open>Some s\<close> is \<open>srand(s)\<close>, \<open>None\<close> is \<open>rand()\<close>.\<close>

fun rand_calls :: "u32 option list \<Rightarrow> u32 \<times> twister \<Rightarrow> u32 list outcome" where
  "rand_calls [] st = Inr []"
| "rand_calls (Some s # cs) st = rand_calls cs (srand s st)"
| "rand_calls (None # cs) st = rbind (rand st) (\<lambda>(x, st). rbind (rand_calls cs st) (\<lambda>xs. Inr (x # xs)))"

section \<open>Bounds\<close>

definition tw_inv :: "twister \<Rightarrow> bool" where
  "tw_inv t \<longleftrightarrow> length (tw_y t) = MT_N \<and> tw_index t \<le> MT_N + 1"

lemmas mt_sizes = MT_N_def MT_M_def

lemma rfold_length:
  assumes "\<forall>y k. length y = n \<and> k \<in> set ks \<longrightarrow> (\<exists>y'. f y k = Inr y' \<and> length y' = n)" "length y = n"
  shows "\<exists>y'. rfold f y ks = Inr y' \<and> length y' = n"
  using assms
proof (induction ks arbitrary: y)
  case (Cons k ks)
  then obtain y1 where "f y k = Inr y1" "length y1 = n" by fastforce
  with Cons.IH [of y1] Cons.prems(1) show ?case by simp
qed simp

lemma tw_mix_bounds:
  assumes "length y = MT_N" "k < MT_N" "l < MT_N" "m < MT_N"
  shows "\<exists>y'. tw_mix y k l m = Inr y' \<and> length y' = MT_N"
proof -
  have "unat (h AND 1 :: u32) < 2" for h using unat_and_mask [of h 1] by (simp add: mask_eq_exp_minus_1)
  then have "\<exists>x. aget [0, 0x9908B0DF :: u32] (unat (h AND 1 :: u32)) = Inr x" for h by (simp add: aget_def numeral_2_eq_2)
  then obtain x where "aget [0, 0x9908B0DF :: u32] (unat (((y ! k AND 0x80000000) OR (y ! l AND 0x7FFFFFFF)) AND 1)) = Inr x" by blast
  then show ?thesis unfolding tw_mix_def Let_def using assms by simp
qed

lemma mt_order: "MT_M < MT_N" "0 < MT_M" "MT_N - MT_M < MT_N"
  by (simp_all add: mt_sizes)

lemma tw_twist_bounds:
  assumes "length y = MT_N"
  shows "\<exists>y'. tw_twist y = Inr y' \<and> length y' = MT_N"
proof -
  have s1: "\<forall>y k. length y = MT_N \<and> k \<in> set [0..<MT_N - MT_M] \<longrightarrow>
      (\<exists>y'. tw_mix y k (k + 1) (k + MT_M) = Inr y' \<and> length y' = MT_N)"
    using mt_order by (auto intro!: tw_mix_bounds)
  have s2: "\<forall>y k. length y = MT_N \<and> k \<in> set [MT_N - MT_M..<MT_N - 1] \<longrightarrow>
      (\<exists>y'. tw_mix y k (k + 1) (k - (MT_N - MT_M)) = Inr y' \<and> length y' = MT_N)"
    using mt_order by (auto intro!: tw_mix_bounds)
  obtain y1 where 1: "rfold (\<lambda>y k. tw_mix y k (k + 1) (k + MT_M)) y [0..<MT_N - MT_M] = Inr y1" "length y1 = MT_N"
    using rfold_length [OF s1 assms] by blast
  obtain y2 where 2: "rfold (\<lambda>y k. tw_mix y k (k + 1) (k - (MT_N - MT_M))) y1 [MT_N - MT_M..<MT_N - 1] = Inr y2" "length y2 = MT_N"
    using rfold_length [OF s2 1(2)] by blast
  have "\<exists>y'. tw_mix y2 (MT_N - 1) 0 (MT_M - 1) = Inr y' \<and> length y' = MT_N"
    using 2(2) mt_order by (intro tw_mix_bounds) auto
  then show ?thesis unfolding tw_twist_def 1(1) rbind_simps 2(1) .
qed

lemma tw_fill_bounds:
  assumes "length y = MT_N"
  shows "\<exists>y'. tw_fill r s y = Inr y' \<and> length y' = MT_N"
proof -
  have "\<exists>r' s' y'. rfold tw_fill_step (r, s, y) ks = Inr (r', s', y') \<and> length y' = MT_N" if "set ks \<subseteq> {..<MT_N}" for ks
    using that assms
  proof (induction ks arbitrary: r s y)
    case (Cons k ks)
    then show ?case by (simp add: tw_fill_step_def Let_def)
  qed simp
  from this [of "[0..<MT_N]"] obtain r' s' y' where "rfold tw_fill_step (r, s, y) [0..<MT_N] = Inr (r', s', y')" "length y' = MT_N"
    by (auto simp: atLeast0LessThan)
  then show ?thesis by (simp add: tw_fill_def)
qed

lemma twister_bounds:
  assumes "tw_inv t"
  shows "\<exists>e t'. mersenne_twister r s t = Inr (e, t') \<and> tw_inv t' \<and> 0 < tw_index t' \<and> tw_index t' \<le> MT_N"
proof (cases "MT_N \<le> tw_index t")
  case True
  have "\<exists>y. (if MT_N < tw_index t then tw_fill r s (tw_y t) else Inr (tw_y t)) = Inr y \<and> length y = MT_N"
    using tw_fill_bounds [of "tw_y t" r s] assms by (simp add: tw_inv_def)
  then obtain y where y: "(if MT_N < tw_index t then tw_fill r s (tw_y t) else Inr (tw_y t)) = Inr y" "length y = MT_N" by blast
  obtain z where "tw_twist y = Inr z" "length z = MT_N" using tw_twist_bounds [OF y(2)] by blast
  with y True show ?thesis by (simp add: mersenne_twister_def tw_inv_def mt_sizes)
next
  case False
  then show ?thesis using assms by (simp add: mersenne_twister_def tw_inv_def)
qed

text \<open>The seed of a generator that has started is not looked at.\<close>

lemma seed_ignored: "tw_index t \<le> MT_N \<Longrightarrow> mersenne_twister r s t = mersenne_twister r' s' t"
  by (simp add: mersenne_twister_def)

text \<open>Calls of \<open>srand\<close> after the first number can be left out.\<close>

lemma srand_after_first:
  "tw_index t \<le> MT_N \<Longrightarrow> tw_inv t \<Longrightarrow> rand_calls cs (seed, t) = rand_calls (filter (\<lambda>c. c = None) cs) (seed', t)"
proof (induction cs arbitrary: seed seed' t)
  case (Cons c cs)
  show ?case
  proof (cases c)
    case None
    obtain e t' where r: "mersenne_twister (seed AND 0xF) seed t = Inr (e, t')" "tw_inv t'" "tw_index t' \<le> MT_N"
      using twister_bounds [OF Cons.prems(2)] by blast
    have "mersenne_twister (seed' AND 0xF) seed' t = Inr (e, t')" using seed_ignored [OF Cons.prems(1)] r(1) by metis
    then show ?thesis using r Cons.IH [OF r(3,2), of "e AND 0x7FFFFFFF" "e AND 0x7FFFFFFF"] None
      by (simp add: rand_def rand_r_def)
  next
    case (Some s)
    then show ?thesis using Cons.IH [OF Cons.prems, of s seed'] by (simp add: srand_def)
  qed
qed simp

lemma rand_calls_bounds:
  assumes "tw_inv t"
  shows "\<exists>xs. rand_calls cs (seed, t) = Inr xs \<and> (\<forall>x \<in> set xs. x \<le> 0x7FFFFFFF) \<and> length xs = length (filter (\<lambda>c. c = None) cs)"
  using assms
proof (induction cs arbitrary: seed t)
  case (Cons c cs)
  show ?case
  proof (cases c)
    case None
    obtain e t' where r: "mersenne_twister (seed AND 0xF) seed t = Inr (e, t')" "tw_inv t'"
      using twister_bounds [OF Cons.prems] by blast
    obtain xs where "rand_calls cs (e AND 0x7FFFFFFF, t') = Inr xs" "\<forall>x \<in> set xs. x \<le> 0x7FFFFFFF"
        "length xs = length (filter (\<lambda>c. c = None) cs)" using Cons.IH [OF r(2)] by blast
    then show ?thesis using r None word_and_le1 [of e "0x7FFFFFFF"] by (simp add: rand_def rand_r_def)
  next
    case (Some s)
    then show ?thesis using Cons.IH [OF Cons.prems, of s] by (simp add: srand_def)
  qed
qed simp

text \<open>Whatever the program does with \<open>rand\<close> and \<open>srand\<close>, no access of the generator leaves its array, every call returns, and
  every number is between 0 and \<open>RAND_MAX\<close>.\<close>

theorem rand_in_range:
  "\<exists>xs. rand_calls cs (seed, twister0) = Inr xs \<and> list_all (\<lambda>x. x \<le> 0x7FFFFFFF) xs \<and> length xs = length (filter (\<lambda>c. c = None) cs)"
  using rand_calls_bounds [of twister0 cs seed] by (auto simp: list_all_iff tw_inv_def twister0_def)

end
